(* ===== verification/Kv_Prelude.thy ===== *)
theory Kv_Prelude
  imports Main "HOL-Library.Word"
begin

text \<open>
  Shared vocabulary of the development: bytes, the errno values of the C interfaces, results
  and their sequencing (\<open>if (rc < 0) return rc;\<close>), little-endian integers, rounding to a
  write unit, and reads of a byte memory. The generic lemmas about them are collected in
  \<open>bytes_simps\<close>, \<open>res_simps\<close> and \<open>slice_simps\<close>.
\<close>

unbundle bit_operations_syntax

named_theorems bytes_simps \<open>little-endian encodings and their lengths\<close>
named_theorems res_simps \<open>sequencing of results\<close>
named_theorems slice_simps \<open>reads of a byte memory\<close>

section \<open>Machine types\<close>

type_synonym byte = "8 word"
type_synonym u16 = "16 word"
type_synonym u32 = "32 word"
type_synonym u64 = "64 word"

text \<open>The errno values the library returns (negated in C). \<open>EOTHER\<close> stands for any other
  value a backend hands up unchanged.\<close>

datatype errno = EPERM | ENOENT | EIO | EAGAIN | ENOMEM | EEXIST | ENODEV | EINVAL | EFBIG
  | ENOSPC | EBADMSG | ENOTSUP | EALREADY | EINTR | EXDEV | ENAMETOOLONG | ENOTDIR | EISDIR
  | ENOTEMPTY | ERANGE | EMFILE | EACCES | EBADF | EBUSY | ENODATA | EMSGSIZE | ESTALE | EOTHER nat

text \<open>A result: \<open>Inl e\<close> is the return value \<open>-e\<close>, \<open>Inr x\<close> is success with output \<open>x\<close>.\<close>

type_synonym 'a res = "errno + 'a"

text \<open>\<open>andthen r f\<close> is the C idiom \<open>rc = r; if (rc < 0) return rc; f\<close>.\<close>

definition andthen :: "'a res \<Rightarrow> ('a \<Rightarrow> 'b res) \<Rightarrow> 'b res" where
  "andthen r f = (case r of Inl e \<Rightarrow> Inl e | Inr x \<Rightarrow> f x)"

text \<open>The same idiom for a call that also changes the state: on an error the state reached so
  far is kept, as the C code keeps whatever it has already written.\<close>

definition seqs :: "'a res \<times> 's \<Rightarrow> ('a \<Rightarrow> 's \<Rightarrow> 'b res \<times> 's) \<Rightarrow> 'b res \<times> 's" where
  "seqs r f = (case r of (Inl e, s) \<Rightarrow> (Inl e, s) | (Inr x, s) \<Rightarrow> f x s)"

text \<open>Sequencing a read-only call before a state-changing continuation.\<close>

definition reads :: "'a res \<Rightarrow> 's \<Rightarrow> ('a \<Rightarrow> 'b res \<times> 's) \<Rightarrow> 'b res \<times> 's" where
  "reads r s f = (case r of Inl e \<Rightarrow> (Inl e, s) | Inr x \<Rightarrow> f x)"

section \<open>Little-endian integers\<close>

fun le_bytes :: "nat \<Rightarrow> nat \<Rightarrow> byte list" where
  "le_bytes 0 x = []"
| "le_bytes (Suc n) x = word_of_nat (x mod 256) # le_bytes n (x div 256)"

fun of_le :: "byte list \<Rightarrow> nat" where
  "of_le [] = 0"
| "of_le (b # bs) = unat b + 256 * of_le bs"

text \<open>A field of a packed structure: \<open>n\<close> bytes at offset \<open>off\<close>.\<close>

definition field :: "nat \<Rightarrow> nat \<Rightarrow> byte list \<Rightarrow> byte list" where
  "field off n bs = take n (drop off bs)"

section \<open>Rounding up to the write unit\<close>

text \<open>\<open>(n + a - 1) & ~(a - 1)\<close>, the form every rounding in the library takes.\<close>

definition round_up :: "nat \<Rightarrow> nat \<Rightarrow> nat" where
  "round_up n a = nat (int (n + a - 1) AND NOT (int (a - 1)))"

section \<open>A byte memory\<close>

definition slice :: "(nat \<Rightarrow> byte) \<Rightarrow> nat \<Rightarrow> nat \<Rightarrow> byte list" where
  "slice m off n = map m [off..<off + n]"

text \<open>A list with the bytes from \<open>off\<close> on replaced by \<open>bs\<close> (\<open>memcpy(buf + off, bs, n)\<close>).\<close>

definition splice :: "byte list \<Rightarrow> nat \<Rightarrow> byte list \<Rightarrow> byte list" where
  "splice buf off bs = take off buf @ bs @ drop (off + length bs) buf"

definition all_erased :: "byte list \<Rightarrow> bool" where
  "all_erased bs \<longleftrightarrow> (\<forall>b \<in> set bs. b = 0xff)"

section \<open>Lemmas\<close>

lemma in_set_drop_conv_nth: "x \<in> set (drop a xs) \<longleftrightarrow> (\<exists>i. a \<le> i \<and> i < length xs \<and> x = xs ! i)"
proof
  assume "x \<in> set (drop a xs)"
  then obtain j where "j < length (drop a xs)" "x = drop a xs ! j" by (metis in_set_conv_nth)
  then show "\<exists>i. a \<le> i \<and> i < length xs \<and> x = xs ! i" by (intro exI [of _ "a + j"]) auto
next
  assume "\<exists>i. a \<le> i \<and> i < length xs \<and> x = xs ! i"
  then obtain i where "a \<le> i" "i < length xs" "x = xs ! i" by blast
  then have "x = drop a xs ! (i - a)" "i - a < length (drop a xs)" by auto
  then show "x \<in> set (drop a xs)" by (metis nth_mem)
qed


lemma andthen_simps [simp, res_simps]:
  "andthen (Inl e) f = Inl e" "andthen (Inr x) f = f x"
  by (simp_all add: andthen_def)

lemma andthen_Inr [res_simps]: "andthen r f = Inr y \<longleftrightarrow> (\<exists>x. r = Inr x \<and> f x = Inr y)"
  by (cases r) simp_all

lemma seqs_simps [simp, res_simps]:
  "seqs (Inl e, s) f = (Inl e, s)" "seqs (Inr x, s) f = f x s"
  by (simp_all add: seqs_def)

lemma seqs_Inr [res_simps]:
  "seqs r f = (Inr y, t) \<longleftrightarrow> (\<exists>x s. r = (Inr x, s) \<and> f x s = (Inr y, t))"
  by (cases r; cases "fst r") (auto simp: seqs_def)

lemma reads_simps [simp, res_simps]:
  "reads (Inl e) s f = (Inl e, s)" "reads (Inr x) s f = f x"
  by (simp_all add: reads_def)

lemma reads_Inr [res_simps]: "reads r s f = (Inr y, t) \<longleftrightarrow> (\<exists>x. r = Inr x \<and> f x = (Inr y, t))"
  by (cases r) simp_all

lemma length_le_bytes [simp, bytes_simps]: "length (le_bytes n x) = n"
  by (induction n arbitrary: x) simp_all

lemma le_bytes_numeral:
  "le_bytes (numeral k) x = word_of_nat (x mod 256) # le_bytes (pred_numeral k) (x div 256)"
  by (simp only: numeral_eq_Suc [of k] le_bytes.simps)

lemma of_le_le_bytes [bytes_simps]: "of_le (le_bytes n x) = x mod 256 ^ n"
proof (induction n arbitrary: x)
  case 0
  then show ?case by simp
next
  case (Suc n)
  have "unat (word_of_nat (x mod 256) :: byte) = x mod 256"
    by (simp add: unat_of_nat)
  then show ?case using Suc.IH [of "x div 256"] by (simp add: mod_mult2_eq)
qed

lemma of_le_bound: "of_le bs < 256 ^ length bs"
proof (induction bs)
  case Nil
  then show ?case by simp
next
  case (Cons b bs)
  have "unat b < 256" using unsigned_less [of b, where ?'a=nat] by simp
  with Cons show ?case by simp
qed

lemma le_bytes_of_le [bytes_simps]: "length bs = n \<Longrightarrow> le_bytes n (of_le bs) = bs"
proof (induction n arbitrary: bs)
  case 0
  then show ?case by simp
next
  case (Suc n)
  then obtain b cs where bs: "bs = b # cs" "length cs = n"
    by (cases bs) auto
  have "unat b < 256" using unsigned_less [of b, where ?'a=nat] by simp
  with bs Suc.IH show ?case by simp
qed

lemma le_bytes_inject:
  "x < 256 ^ n \<Longrightarrow> y < 256 ^ n \<Longrightarrow> le_bytes n x = le_bytes n y \<longleftrightarrow> x = y"
  by (metis mod_less of_le_le_bytes)

lemma word64_le_roundtrip [simp, bytes_simps]:
  "word_of_nat (of_le (le_bytes 8 (unat w))) = (w :: u64)"
  using unsigned_less [of w, where ?'a=nat] by (simp add: of_le_le_bytes)

lemma le_word64_roundtrip [simp, bytes_simps]:
  "length bs = 8 \<Longrightarrow> le_bytes 8 (unat (word_of_nat (of_le bs) :: u64)) = bs"
  using of_le_bound [of bs] le_bytes_of_le [of bs 8] by (simp add: unat_of_nat)

lemma word32_le_roundtrip [simp, bytes_simps]:
  "word_of_nat (of_le (le_bytes 4 (unat w))) = (w :: u32)"
  using unsigned_less [of w, where ?'a=nat] by (simp add: of_le_le_bytes)

lemma word16_le_roundtrip [simp, bytes_simps]:
  "word_of_nat (of_le (le_bytes 2 (unat w))) = (w :: u16)"
  using unsigned_less [of w, where ?'a=nat] by (simp add: of_le_le_bytes)

lemma le16_roundtrip [simp, bytes_simps]: "x < 65536 \<Longrightarrow> of_le (le_bytes 2 x) = x"
  by (simp add: of_le_le_bytes)

lemma le32_roundtrip [simp, bytes_simps]: "x < 4294967296 \<Longrightarrow> of_le (le_bytes 4 x) = x"
  by (simp add: of_le_le_bytes)

lemma round_up_pow2: "round_up n (2 ^ k) = (n + 2 ^ k - 1) div 2 ^ k * 2 ^ k"
proof -
  have "int (2 ^ k - 1) = mask k"
    by (simp add: mask_eq_exp_minus_1 of_nat_diff)
  moreover have "int (n + 2 ^ k - 1) AND NOT (mask k) = push_bit k (drop_bit k (int (n + 2 ^ k - 1)))"
    by (rule bit_eqI) (auto simp: bit_simps)
  ultimately have "round_up n (2 ^ k) = nat (push_bit k (drop_bit k (int (n + 2 ^ k - 1))))"
    by (simp add: round_up_def)
  also have "\<dots> = nat (int ((n + 2 ^ k - 1) div 2 ^ k * 2 ^ k))"
    by (simp add: push_bit_eq_mult drop_bit_eq_div zdiv_int)
  finally show ?thesis by (simp only: nat_int)
qed

lemma round_up_ge: "n \<le> round_up n (2 ^ k)"
proof -
  have "n + 2 ^ k - 1 = (n + 2 ^ k - 1) div 2 ^ k * 2 ^ k + (n + 2 ^ k - 1) mod 2 ^ k"
    by (simp only: div_mult_mod_eq)
  moreover have "(n + 2 ^ k - 1) mod 2 ^ k < 2 ^ k" by simp
  ultimately have "n \<le> (n + 2 ^ k - 1) div 2 ^ k * 2 ^ k" by linarith
  then show ?thesis by (simp add: round_up_pow2)
qed

lemma and_not_ge: "x - m \<le> x AND NOT m" if "0 \<le> m" for x m :: int
proof -
  have "(x AND m) + (x AND NOT m) = (x AND m) OR (x AND NOT m)"
    by (rule disjunctive_add_eq_or) (auto simp: bit_eq_iff bit_simps)
  also have "\<dots> = x" by (auto simp: bit_eq_iff bit_simps)
  finally have "(x AND m) + (x AND NOT m) = x" .
  moreover have "x AND m \<le> m" using that by (rule AND_upper2)
  ultimately show ?thesis by linarith
qed

lemma round_up_ge_any: "0 < a \<Longrightarrow> n \<le> round_up n a"
  using and_not_ge [of "int (a - 1)" "int (n + a - 1)"]
  by (simp add: round_up_def of_nat_diff le_nat_iff)

lemma round_up_less: "round_up n (2 ^ k) < n + 2 ^ k"
proof -
  have "(n + 2 ^ k - 1) div 2 ^ k * 2 ^ k \<le> n + 2 ^ k - 1" by simp
  moreover have "(0::nat) < 2 ^ k" by simp
  ultimately show ?thesis unfolding round_up_pow2 by linarith
qed

lemma round_up_dvd: "2 ^ k dvd round_up n (2 ^ k)"
  by (simp add: round_up_pow2)

lemma length_slice [simp, slice_simps]: "length (slice m off n) = n"
  by (simp add: slice_def)

lemma nth_slice [simp, slice_simps]: "i < n \<Longrightarrow> slice m off n ! i = m (off + i)"
  by (simp add: slice_def)

lemma slice_cong: "(\<And>i. i < n \<Longrightarrow> m (off + i) = m' (off + i)) \<Longrightarrow> slice m off n = slice m' off n"
  by (rule nth_equalityI) simp_all

lemma take_slice [slice_simps]: "k \<le> n \<Longrightarrow> take k (slice m off n) = slice m off k"
  by (simp add: slice_def take_map)

lemma drop_slice [slice_simps]: "drop k (slice m off n) = slice m (off + k) (n - k)"
  by (rule nth_equalityI) (simp_all add: add.assoc)

lemma slice_field [slice_simps]:
  "k + j \<le> n \<Longrightarrow> field k j (slice m off n) = slice m (off + k) j"
  by (simp add: field_def drop_slice take_slice)

lemma slice_0 [simp]: "slice m off 0 = []"
  by (simp add: slice_def)

lemma slice_append: "slice m off (a + b) = slice m off a @ slice m (off + a) b"
  by (rule nth_equalityI) (auto simp: nth_append)

lemma length_splice [simp]: "off + length bs \<le> length buf \<Longrightarrow> length (splice buf off bs) = length buf"
  by (simp add: splice_def)

lemma nth_splice:
  assumes "off + length bs \<le> length buf" "i < length buf"
  shows "splice buf off bs ! i =
    (if i < off then buf ! i else if i < off + length bs then bs ! (i - off) else buf ! i)"
proof -
  consider "i < off" | "off \<le> i" "i - off < length bs" | "off + length bs \<le> i"
    "\<not> i - off < length bs" by linarith
  then show ?thesis
    by cases (use assms in \<open>auto simp: splice_def nth_append\<close>)
qed

lemma length_field [simp]: "off + n \<le> length bs \<Longrightarrow> length (field off n bs) = n"
  by (simp add: field_def)

lemma nth_field [simp]: "i < n \<Longrightarrow> off + n \<le> length bs \<Longrightarrow> field off n bs ! i = bs ! (off + i)"
  by (simp add: field_def)

lemma field_eqI:
  "off + n \<le> length buf \<Longrightarrow> length xs = n \<Longrightarrow> (\<And>i. i < n \<Longrightarrow> buf ! (off + i) = xs ! i) \<Longrightarrow> field off n buf = xs"
  by (rule nth_equalityI) simp_all

lemma all_erased_replicate [simp]: "all_erased (replicate n 0xff)"
  by (simp add: all_erased_def)

lemma all_erased_nth: "all_erased bs \<longleftrightarrow> (\<forall>i < length bs. bs ! i = 0xff)"
  by (auto simp: all_erased_def all_set_conv_all_nth)

lemma all_erased_drop_mono: "all_erased (drop a xs) \<Longrightarrow> a \<le> b \<Longrightarrow> all_erased (drop b xs)"
  using set_drop_subset_set_drop [of a b xs] by (auto simp: all_erased_def)

lemma all_erased_append [simp]: "all_erased (xs @ ys) \<longleftrightarrow> all_erased xs \<and> all_erased ys"
  by (auto simp: all_erased_def)

lemma all_erased_drop_nth: "all_erased (drop a xs) \<Longrightarrow> a \<le> i \<Longrightarrow> i < length xs \<Longrightarrow> xs ! i = 0xff"
  by (metis all_erased_def in_set_drop_conv_nth)

lemma byte_and_ff [simp]: "0xff AND (b :: byte) = b"
proof -
  have "(0xff :: byte) = - 1" by simp
  then show ?thesis by (simp only: and.left_neutral)
qed

end
