(* ===== verification/Blob_Store.thy ===== *)
theory Blob_Store
  imports Kv_Prelude
begin

text \<open>
  L0: the storage seam of \<open>lib/blob_db/blob_db_store.h\<close> and its raw-flash provider,
  \<open>lib/blob_db/blob_db_store_flash.c\<close>.

  \<open>store\<close> is the seam: the calls blob_db makes, as a record of functions over the provider's
  own state. \<open>flash_area\<close> is Zephyr's flash map API, which is not part of the repository: a
  record of functions the provider is given. \<open>flash_store\<close> is the provider.

  The locale \<open>blob_store\<close> states what the seam promises (reads return the medium, a failed read
  reports an I/O error rather than one of the codes blob_db gives a meaning of its own, a write
  touches its range only and programs erased or cleared bytes exactly, an erase yields 0xff, a
  replace is erase-and-write, atomic where the provider says so). The locale \<open>flash_area_laws\<close>
  states the documented behaviour of the flash map API; under it the provider is a
  \<open>blob_store\<close> (a sublocale), and a simulated NOR partition interprets it.
\<close>

section \<open>The seam: blob\_db\_store.h\<close>

record blob_db_store_geom =
  geom_peb_size :: nat
  geom_write_align :: nat
  geom_n_pebs :: nat
  geom_preformat :: bool

record 'd store =
  blob_db_store_open :: "'d \<Rightarrow> bool \<Rightarrow> blob_db_store_geom res \<times> 'd"
  blob_db_store_close :: "'d \<Rightarrow> 'd"
  blob_db_store_read :: "'d \<Rightarrow> nat \<Rightarrow> nat \<Rightarrow> byte list res"
  blob_db_store_write :: "'d \<Rightarrow> nat \<Rightarrow> byte list \<Rightarrow> unit res \<times> 'd"
  blob_db_store_erase :: "'d \<Rightarrow> nat \<Rightarrow> nat \<Rightarrow> unit res \<times> 'd"
  blob_db_store_replace :: "'d \<Rightarrow> nat \<Rightarrow> byte list \<Rightarrow> unit res \<times> 'd"
  blob_db_store_replace_is_atomic :: "bool"
  blob_db_store_open_found_damage :: "'d \<Rightarrow> nat \<Rightarrow> bool"
  blob_db_store_maintain :: "'d \<Rightarrow> nat \<Rightarrow> (nat \<times> bool) res \<times> 'd"

section \<open>Zephyr's flash map API, a parameter\<close>

text \<open>\<open>fa_sectors\<close> is the answer of \<open>flash_area_sectors\<close> for a table of the given size: the
  errno it returns, if any, and the sector sizes it filled in.\<close>

record 'f flash_area =
  flash_area_open :: "'f \<Rightarrow> unit res \<times> 'f"
  flash_area_close :: "'f \<Rightarrow> 'f"
  fa_size :: "'f \<Rightarrow> nat"
  flash_area_sectors :: "'f \<Rightarrow> nat \<Rightarrow> errno option \<times> nat list"
  flash_area_align :: "'f \<Rightarrow> nat"
  flash_area_read :: "'f \<Rightarrow> nat \<Rightarrow> nat \<Rightarrow> byte list res"
  flash_area_write :: "'f \<Rightarrow> nat \<Rightarrow> byte list \<Rightarrow> unit res \<times> 'f"
  flash_area_erase :: "'f \<Rightarrow> nat \<Rightarrow> nat \<Rightarrow> unit res \<times> 'f"

section \<open>The raw-flash provider: blob\_db\_store\_flash.c\<close>

text \<open>The provider's state: whether \<open>g_fa\<close> is set, the partition behind it, and
  \<open>g_peb_size\<close>.\<close>

record 'f flash_state =
  g_fa_open :: bool
  g_fa :: 'f
  g_peb_size :: nat

definition flash_close :: "'f flash_area \<Rightarrow> 'f flash_state \<Rightarrow> 'f flash_state" where
  "flash_close F d =
     (if g_fa_open d then d\<lparr>g_fa := flash_area_close F (g_fa d), g_fa_open := False\<rparr> else d)"

definition flash_open ::
  "'f flash_area \<Rightarrow> 'f flash_state \<Rightarrow> bool \<Rightarrow> blob_db_store_geom res \<times> 'f flash_state" where
  "flash_open F d discard =
     (case flash_area_open F (g_fa d) of
        (Inl e, f) \<Rightarrow> (Inl e, d\<lparr>g_fa := f\<rparr>)
      | (Inr _, f) \<Rightarrow>
        let d1 = d\<lparr>g_fa := f, g_fa_open := True\<rparr>;
            size = fa_size F f;
            (rc, sectors) = flash_area_sectors F f 4;
            wa = flash_area_align F f;
            write_align = (if wa = 0 then 1 else wa) in
        if rc \<noteq> None \<and> rc \<noteq> Some ENOMEM then (Inl (the rc), flash_close F d1)
        else if sectors = [] then (Inl EIO, flash_close F d1)
        else let peb = hd sectors in
          if \<not> (\<forall>x \<in> set (tl sectors). x = peb) then (Inl ENOTSUP, flash_close F d1)
          else if size mod peb \<noteq> 0 then (Inl EINVAL, flash_close F d1)
          else (Inr \<lparr>geom_peb_size = peb, geom_write_align = write_align,
                     geom_n_pebs = size div peb mod 2 ^ 16, geom_preformat = True\<rparr>,
                d1\<lparr>g_peb_size := peb\<rparr>))"

definition flash_read :: "'f flash_area \<Rightarrow> 'f flash_state \<Rightarrow> nat \<Rightarrow> nat \<Rightarrow> byte list res" where
  "flash_read F d off len = flash_area_read F (g_fa d) off len"

definition flash_write ::
  "'f flash_area \<Rightarrow> 'f flash_state \<Rightarrow> nat \<Rightarrow> byte list \<Rightarrow> unit res \<times> 'f flash_state" where
  "flash_write F d off buf =
     (let (rc, f) = flash_area_write F (g_fa d) off buf in (rc, d\<lparr>g_fa := f\<rparr>))"

definition flash_erase ::
  "'f flash_area \<Rightarrow> 'f flash_state \<Rightarrow> nat \<Rightarrow> nat \<Rightarrow> unit res \<times> 'f flash_state" where
  "flash_erase F d off len =
     (let (rc, f) = flash_area_erase F (g_fa d) off len in (rc, d\<lparr>g_fa := f\<rparr>))"

definition flash_replace ::
  "'f flash_area \<Rightarrow> 'f flash_state \<Rightarrow> nat \<Rightarrow> byte list \<Rightarrow> unit res \<times> 'f flash_state" where
  "flash_replace F d off buf =
     seqs (flash_erase F d off (g_peb_size d)) (\<lambda>_ d. flash_write F d off buf)"

definition flash_store :: "'f flash_area \<Rightarrow> 'f flash_state store" where
  "flash_store F = \<lparr>
     blob_db_store_open = flash_open F,
     blob_db_store_close = flash_close F,
     blob_db_store_read = flash_read F,
     blob_db_store_write = flash_write F,
     blob_db_store_erase = flash_erase F,
     blob_db_store_replace = flash_replace F,
     blob_db_store_replace_is_atomic = False,
     blob_db_store_open_found_damage = (\<lambda>d off. False),
     blob_db_store_maintain = (\<lambda>d budget. (Inr (0, False), d))\<rparr>"

section \<open>What the seam promises\<close>

text \<open>\<open>medium\<close> is the contents as the header describes them: a flat array of bytes. \<open>peb\<close> is
  the erase-block size the provider last reported.\<close>

locale blob_store =
  fixes S :: "'d store" and medium :: "'d \<Rightarrow> nat \<Rightarrow> byte" and peb :: "'d \<Rightarrow> nat"
  assumes read_medium:
      "blob_db_store_read S d off n = Inr bs \<Longrightarrow> bs = slice (medium d) off n"
    and read_errno:
      "blob_db_store_read S d off n = Inl e \<Longrightarrow> e \<noteq> EBADMSG \<and> e \<noteq> ENOENT \<and> e \<noteq> ENOTSUP \<and> e \<noteq> EPERM"
    and write_frame:
      "blob_db_store_write S d off buf = (r, d') \<Longrightarrow> a < off \<or> off + length buf \<le> a \<Longrightarrow>
       medium d' a = medium d a"
    and write_programs:
      "blob_db_store_write S d off buf = (Inr (), d') \<Longrightarrow> i < length buf \<Longrightarrow>
       medium d (off + i) = 0xff \<or> buf ! i = 0 \<Longrightarrow> medium d' (off + i) = buf ! i"
    and write_peb: "blob_db_store_write S d off buf = (r, d') \<Longrightarrow> peb d' = peb d"
    and erase_frame:
      "blob_db_store_erase S d off n = (r, d') \<Longrightarrow> a < off \<or> off + n \<le> a \<Longrightarrow>
       medium d' a = medium d a"
    and erase_erases:
      "blob_db_store_erase S d off n = (Inr (), d') \<Longrightarrow> i < n \<Longrightarrow> medium d' (off + i) = 0xff"
    and erase_peb: "blob_db_store_erase S d off n = (r, d') \<Longrightarrow> peb d' = peb d"
    and replace_frame:
      "blob_db_store_replace S d off buf = (r, d') \<Longrightarrow> length buf \<le> peb d \<Longrightarrow>
       a < off \<or> off + peb d \<le> a \<Longrightarrow> medium d' a = medium d a"
    and replace_contents:
      "blob_db_store_replace S d off buf = (Inr (), d') \<Longrightarrow> length buf \<le> peb d \<Longrightarrow>
       slice (medium d') off (peb d) = buf @ replicate (peb d - length buf) 0xff"
    and replace_peb: "blob_db_store_replace S d off buf = (r, d') \<Longrightarrow> peb d' = peb d"
    and replace_atomic:
      "blob_db_store_replace_is_atomic S \<Longrightarrow> blob_db_store_replace S d off buf = (Inl e, d') \<Longrightarrow>
       length buf \<le> peb d \<Longrightarrow> medium d' a = medium d a"
    and open_medium:
      "blob_db_store_open S d False = (ro, d') \<Longrightarrow> medium d' = medium d"
    and open_peb:
      "blob_db_store_open S d discard = (Inr g, d') \<Longrightarrow> peb d' = geom_peb_size g"
    and close_medium: "medium (blob_db_store_close S d) = medium d"
    and maintain_medium: "blob_db_store_maintain S d budget = (rm, d') \<Longrightarrow> medium d' = medium d"
    and maintain_peb: "blob_db_store_maintain S d budget = (rm, d') \<Longrightarrow> peb d' = peb d"
begin

text \<open>A write onto erased bytes, read back as a splice of the surrounding block.\<close>

lemma write_slice_outside:
  assumes "blob_db_store_write S d off buf = (r, d')" "b + n \<le> off \<or> off + length buf \<le> b"
  shows "slice (medium d') b n = slice (medium d) b n"
  by (rule slice_cong) (rule write_frame [OF assms(1)], use assms(2) in auto)

lemma write_slice_inside:
  assumes w: "blob_db_store_write S d (b + c) buf = (Inr (), d')"
    and fit: "c + length buf \<le> n"
    and er: "\<And>i. i < length buf \<Longrightarrow> medium d (b + c + i) = 0xff \<or> buf ! i = 0"
  shows "slice (medium d') b n = splice (slice (medium d) b n) c buf"
proof (rule nth_equalityI)
  show "length (slice (medium d') b n) = length (splice (slice (medium d) b n) c buf)"
    using fit by simp
next
  fix i assume "i < length (slice (medium d') b n)"
  then have i: "i < n" by simp
  consider "i < c" | "c \<le> i" "i < c + length buf" | "c + length buf \<le> i" by linarith
  then show "slice (medium d') b n ! i = splice (slice (medium d) b n) c buf ! i"
  proof cases
    case 1
    with i have "medium d' (b + i) = medium d (b + i)"
      by (intro write_frame [OF w]) auto
    with 1 i fit show ?thesis by (simp add: nth_splice)
  next
    case 2
    then have "medium d' (b + c + (i - c)) = buf ! (i - c)"
      using write_programs [OF w, of "i - c"] er [of "i - c"] by linarith
    moreover have "b + c + (i - c) = b + i" using 2 by simp
    ultimately have "medium d' (b + i) = buf ! (i - c)" by simp
    moreover have "i - c < length buf" using 2 by linarith
    ultimately show ?thesis using 2 i fit by (simp add: nth_splice)
  next
    case 3
    with i have "medium d' (b + i) = medium d (b + i)"
      by (intro write_frame [OF w]) auto
    with 3 i fit show ?thesis by (simp add: nth_splice)
  qed
qed

lemma erase_slice_outside:
  assumes "blob_db_store_erase S d off k = (r, d')" "b + n \<le> off \<or> off + k \<le> b"
  shows "slice (medium d') b n = slice (medium d) b n"
  by (rule slice_cong) (rule erase_frame [OF assms(1)], use assms(2) in auto)

lemma erase_slice_inside:
  assumes "blob_db_store_erase S d off k = (Inr (), d')"
  shows "slice (medium d') off k = replicate k 0xff"
  by (rule nth_equalityI) (auto intro: erase_erases [OF assms])

lemma replace_slice_outside:
  assumes "blob_db_store_replace S d off buf = (r, d')" "length buf \<le> peb d"
    "b + n \<le> off \<or> off + peb d \<le> b"
  shows "slice (medium d') b n = slice (medium d) b n"
  by (rule slice_cong) (rule replace_frame [OF assms(1,2)], use assms(3) in auto)

end

section \<open>The documented behaviour of the flash map API\<close>

text \<open>Reads return the flash contents; a write leaves bytes outside its range alone and, on
  success, programs every byte that was erased, and clears every byte it is given as 0; an
  erase leaves bytes outside its range alone and, on success, sets its range to 0xff; opening
  and closing a partition do not change its contents.\<close>

locale flash_area_laws =
  fixes F :: "'f flash_area" and flash :: "'f \<Rightarrow> nat \<Rightarrow> byte"
  assumes fa_read: "flash_area_read F f off n = Inr bs \<Longrightarrow> bs = slice (flash f) off n"
    and fa_read_errno:
      "flash_area_read F f off n = Inl e \<Longrightarrow> e \<noteq> EBADMSG \<and> e \<noteq> ENOENT \<and> e \<noteq> ENOTSUP \<and> e \<noteq> EPERM"
    and fa_write_frame:
      "flash_area_write F f off buf = (r, f') \<Longrightarrow> a < off \<or> off + length buf \<le> a \<Longrightarrow>
       flash f' a = flash f a"
    and fa_write_programs:
      "flash_area_write F f off buf = (Inr (), f') \<Longrightarrow> i < length buf \<Longrightarrow>
       flash f (off + i) = 0xff \<or> buf ! i = 0 \<Longrightarrow> flash f' (off + i) = buf ! i"
    and fa_erase_frame:
      "flash_area_erase F f off n = (r, f') \<Longrightarrow> a < off \<or> off + n \<le> a \<Longrightarrow>
       flash f' a = flash f a"
    and fa_erase_erases:
      "flash_area_erase F f off n = (Inr (), f') \<Longrightarrow> i < n \<Longrightarrow> flash f' (off + i) = 0xff"
    and fa_open: "flash_area_open F f = (r, f') \<Longrightarrow> flash f' = flash f"
    and fa_close: "flash (flash_area_close F f) = flash f"
begin

text \<open>The provider's replace: an erase of the whole block, then one write at its start.\<close>

lemma flash_replace_frame:
  assumes r: "flash_replace F d off buf = (r, d')" and len: "length buf \<le> g_peb_size d"
    and a: "a < off \<or> off + g_peb_size d \<le> a"
  shows "flash (g_fa d') a = flash (g_fa d) a"
proof -
  obtain er f1 where e: "flash_area_erase F (g_fa d) off (g_peb_size d) = (er, f1)"
    by fastforce
  have f1: "flash f1 a = flash (g_fa d) a" using fa_erase_frame [OF e] a by blast
  show ?thesis
  proof (cases er)
    case (Inl x)
    with r e f1 show ?thesis by (auto simp: flash_replace_def flash_erase_def)
  next
    case (Inr x)
    obtain wr f2 where w: "flash_area_write F f1 off buf = (wr, f2)" by fastforce
    have "flash f2 a = flash f1 a" using fa_write_frame [OF w] a len by auto
    with Inr r e f1 w show ?thesis
      by (auto simp: flash_replace_def flash_erase_def flash_write_def)
  qed
qed

lemma flash_replace_contents:
  assumes r: "flash_replace F d off buf = (Inr (), d')" and len: "length buf \<le> g_peb_size d"
  shows "slice (flash (g_fa d')) off (g_peb_size d) =
    buf @ replicate (g_peb_size d - length buf) 0xff"
proof -
  from r obtain f1 f2 where e: "flash_area_erase F (g_fa d) off (g_peb_size d) = (Inr (), f1)"
    and w: "flash_area_write F f1 off buf = (Inr (), f2)" and d': "g_fa d' = f2"
    by (auto simp: flash_replace_def flash_erase_def flash_write_def seqs_def
        split: prod.splits sum.splits)
  have er: "\<And>i. i < g_peb_size d \<Longrightarrow> flash f1 (off + i) = 0xff"
    using fa_erase_erases [OF e] by blast
  show ?thesis
  proof (rule nth_equalityI)
    fix i assume "i < length (slice (flash (g_fa d')) off (g_peb_size d))"
    then have i: "i < g_peb_size d" by simp
    show "slice (flash (g_fa d')) off (g_peb_size d) ! i =
        (buf @ replicate (g_peb_size d - length buf) 0xff) ! i"
    proof (cases "i < length buf")
      case True
      then have "flash f2 (off + i) = buf ! i"
        using fa_write_programs [OF w] er i by blast
      with True i d' show ?thesis by (simp add: nth_append)
    next
      case False
      then have "flash f2 (off + i) = flash f1 (off + i)"
        by (intro fa_write_frame [OF w]) auto
      with False i d' er show ?thesis by (simp add: nth_append)
    qed
  qed (use len in simp)
qed

lemma flash_replace_peb:
  "flash_replace F d off buf = (r, d') \<Longrightarrow> g_peb_size d' = g_peb_size d"
  by (auto simp: flash_replace_def flash_erase_def flash_write_def seqs_def
      split: prod.splits sum.splits)

lemma flash_close_medium: "flash (g_fa (flash_close F d)) = flash (g_fa d)"
  by (simp add: flash_close_def fa_close)

lemma flash_open_medium:
  "flash_open F d discard = (r, d') \<Longrightarrow> flash (g_fa d') = flash (g_fa d)"
  by (auto simp: flash_open_def Let_def flash_close_medium split: prod.splits sum.splits if_splits
      dest: fa_open)

lemma flash_open_peb:
  "flash_open F d discard = (Inr g, d') \<Longrightarrow> g_peb_size d' = geom_peb_size g"
  by (auto simp: flash_open_def Let_def split: prod.splits sum.splits if_splits)

end

text \<open>Under those laws the provider keeps the promise of the seam.\<close>

sublocale flash_area_laws \<subseteq> fs: blob_store "flash_store F" "\<lambda>d. flash (g_fa d)" g_peb_size
proof (unfold_locales, goal_cases)
  case (1 d off n bs)
  then show ?case by (auto simp: flash_store_def flash_read_def dest: fa_read)
next
  case (2 d off n e)
  then show ?case by (auto simp: flash_store_def flash_read_def dest: fa_read_errno)
next
  case (3 d off buf r d' a)
  then show ?case
    by (auto simp: flash_store_def flash_write_def split: prod.splits dest: fa_write_frame)
next
  case (4 d off buf d' i)
  then show ?case
    by (auto simp: flash_store_def flash_write_def split: prod.splits dest: fa_write_programs)
next
  case (5 d off buf r d')
  then show ?case by (auto simp: flash_store_def flash_write_def split: prod.splits)
next
  case (6 d off n r d' a)
  then show ?case
    by (auto simp: flash_store_def flash_erase_def split: prod.splits dest: fa_erase_frame)
next
  case (7 d off n d' i)
  then show ?case
    by (auto simp: flash_store_def flash_erase_def split: prod.splits dest: fa_erase_erases)
next
  case (8 d off n r d')
  then show ?case by (auto simp: flash_store_def flash_erase_def split: prod.splits)
next
  case (9 d off buf r d' a)
  then show ?case using flash_replace_frame [of d off buf r d' a] by (simp add: flash_store_def)
next
  case (10 d off buf d')
  then show ?case using flash_replace_contents [of d off buf d'] by (simp add: flash_store_def)
next
  case (11 d off buf r d')
  then show ?case using flash_replace_peb [of d off buf r d'] by (simp add: flash_store_def)
qed (auto simp: flash_store_def flash_close_medium dest: flash_open_medium flash_open_peb)

section \<open>A store whose calls succeed\<close>

text \<open>The promise of the seam on the side of progress: while the device is \<open>good\<close>, a read inside
  its \<open>size\<close>, a write aligned to its write unit \<open>wu\<close>, and an erase or a replace of whole erase
  blocks succeed and leave it good.\<close>

locale working_store = blob_store S medium peb for S :: "'d store" and medium peb +
  fixes good :: "'d \<Rightarrow> bool" and dsize :: "'d \<Rightarrow> nat" and wu :: "'d \<Rightarrow> nat"
  assumes read_works: "good d \<Longrightarrow> off + n \<le> dsize d \<Longrightarrow> \<exists>bs. blob_db_store_read S d off n = Inr bs"
    and write_works:
      "good d \<Longrightarrow> off + length buf \<le> dsize d \<Longrightarrow> wu d dvd off \<Longrightarrow> wu d dvd length buf \<Longrightarrow>
       \<exists>d'. blob_db_store_write S d off buf = (Inr (), d') \<and> good d' \<and> dsize d' = dsize d \<and> wu d' = wu d"
    and erase_works:
      "good d \<Longrightarrow> off + n \<le> dsize d \<Longrightarrow> peb d dvd off \<Longrightarrow> peb d dvd n \<Longrightarrow>
       \<exists>d'. blob_db_store_erase S d off n = (Inr (), d') \<and> good d' \<and> dsize d' = dsize d \<and> wu d' = wu d"
    and replace_works:
      "good d \<Longrightarrow> off + peb d \<le> dsize d \<Longrightarrow> peb d dvd off \<Longrightarrow> wu d dvd off \<Longrightarrow>
       length buf \<le> peb d \<Longrightarrow> wu d dvd length buf \<Longrightarrow>
       \<exists>d'. blob_db_store_replace S d off buf = (Inr (), d') \<and> good d' \<and> dsize d' = dsize d \<and> wu d' = wu d"

text \<open>The size of a device does not change, so goodness may include it.\<close>

context working_store
begin

lemma of_size: "working_store S medium peb (\<lambda>d. good d \<and> dsize d = z) dsize wu"
proof (unfold_locales, goal_cases)
  case (1 d off n)
  then show ?case using read_works by blast
next
  case (2 d off buf)
  then show ?case using write_works [of d off buf] by auto
next
  case (3 d off n)
  then show ?case using erase_works [of d off n] by auto
next
  case (4 d off buf)
  then show ?case using replace_works [of d off buf] by auto
qed

end

locale flash_area_live = flash_area_laws F flash for F :: "'f flash_area" and flash +
  fixes fgood :: "'f \<Rightarrow> bool" and fsec :: "'f \<Rightarrow> nat"
  assumes fa_read_works: "fgood f \<Longrightarrow> off + n \<le> fa_size F f \<Longrightarrow> \<exists>bs. flash_area_read F f off n = Inr bs"
    and fa_write_works:
      "fgood f \<Longrightarrow> off + length buf \<le> fa_size F f \<Longrightarrow> flash_area_align F f dvd off \<Longrightarrow>
       flash_area_align F f dvd length buf \<Longrightarrow>
       \<exists>f'. flash_area_write F f off buf = (Inr (), f') \<and> fgood f' \<and> fa_size F f' = fa_size F f \<and>
         fsec f' = fsec f \<and> flash_area_align F f' = flash_area_align F f"
    and fa_erase_works:
      "fgood f \<Longrightarrow> off + n \<le> fa_size F f \<Longrightarrow> fsec f dvd off \<Longrightarrow> fsec f dvd n \<Longrightarrow>
       \<exists>f'. flash_area_erase F f off n = (Inr (), f') \<and> fgood f' \<and> fa_size F f' = fa_size F f \<and>
         fsec f' = fsec f \<and> flash_area_align F f' = flash_area_align F f"

text \<open>The provider over a working partition works.\<close>

definition flash_good :: "('f \<Rightarrow> bool) \<Rightarrow> ('f \<Rightarrow> nat) \<Rightarrow> 'f flash_state \<Rightarrow> bool" where
  "flash_good fgood fsec d \<longleftrightarrow> fgood (g_fa d) \<and> g_peb_size d = fsec (g_fa d)"

sublocale flash_area_live \<subseteq> ws: working_store "flash_store F" "\<lambda>d. flash (g_fa d)" g_peb_size
  "flash_good fgood fsec" "\<lambda>d. fa_size F (g_fa d)" "\<lambda>d. flash_area_align F (g_fa d)"
proof (unfold_locales, goal_cases)
  case (1 d off n)
  then show ?case using fa_read_works by (auto simp: flash_store_def flash_read_def flash_good_def)
next
  case (2 d off buf)
  then show ?case
    using fa_write_works [of "g_fa d" off buf]
    by (auto simp: flash_store_def flash_write_def flash_good_def)
next
  case (3 d off n)
  then show ?case
    using fa_erase_works [of "g_fa d" off n]
    by (auto simp: flash_store_def flash_erase_def flash_good_def)
next
  case (4 d off buf)
  then obtain f1 where e: "flash_area_erase F (g_fa d) off (g_peb_size d) = (Inr (), f1)" "fgood f1"
    "fa_size F f1 = fa_size F (g_fa d)" "fsec f1 = fsec (g_fa d)"
    "flash_area_align F f1 = flash_area_align F (g_fa d)"
    using fa_erase_works [of "g_fa d" off "g_peb_size d"] by (auto simp: flash_good_def)
  with 4 fa_write_works [of f1 off buf] show ?case
    by (auto simp: flash_store_def flash_replace_def flash_erase_def flash_write_def flash_good_def)
qed

section \<open>What an interrupted operation leaves\<close>

text \<open>A write that fails (or is cut by a power loss) has programmed a prefix of its bytes, left one
  byte in any state, and not reached the rest; an erase that fails leaves each byte as it was or
  erased.\<close>

locale torn_store = blob_store S medium peb for S :: "'d store" and medium peb +
  assumes write_torn:
      "blob_db_store_write S d off buf = (Inl e, d') \<Longrightarrow>
       \<exists>k b. \<forall>i < length buf. medium d' (off + i) =
         (if i < k then medium d (off + i) AND buf ! i else if i = k then b else medium d (off + i))"
    and erase_torn:
      "blob_db_store_erase S d off n = (Inl e, d') \<Longrightarrow> medium d' a = medium d a \<or> medium d' a = 0xff"

locale flash_area_torn = flash_area_laws F flash for F :: "'f flash_area" and flash +
  assumes fa_write_torn:
      "flash_area_write F f off buf = (Inl e, f') \<Longrightarrow>
       \<exists>k b. \<forall>i < length buf. flash f' (off + i) =
         (if i < k then flash f (off + i) AND buf ! i else if i = k then b else flash f (off + i))"
    and fa_erase_torn:
      "flash_area_erase F f off n = (Inl e, f') \<Longrightarrow> flash f' a = flash f a \<or> flash f' a = 0xff"

sublocale flash_area_torn \<subseteq> ts: torn_store "flash_store F" "\<lambda>d. flash (g_fa d)" g_peb_size
proof (unfold_locales, goal_cases)
  case (1 d off buf e d')
  then have "flash_area_write F (g_fa d) off buf = (Inl e, g_fa d')"
    by (auto simp: flash_store_def flash_write_def split: prod.splits)
  then show ?case by (rule fa_write_torn)
next
  case (2 d off n e d' a)
  then have "flash_area_erase F (g_fa d) off n = (Inl e, g_fa d')"
    by (auto simp: flash_store_def flash_erase_def split: prod.splits)
  then show ?case by (rule fa_erase_torn)
qed

end
