(* ===== verification/Blob_Slot.thy ===== *)
theory Blob_Slot
  imports Blob_Store
begin

text \<open>
  L1, the bucket log as bytes: the slot and bucket-header layouts of
  \<open>lib/blob_db/blob_db_internal.h\<close> and the functions of \<open>lib/blob_db/blob_db.c\<close> that work on a
  bucket image resident in RAM: sizing and checking a slot (\<open>slot_walk_at\<close>), the foreign-slot
  test, liveness (\<open>slot_superseded\<close>) and the in-place compaction (\<open>build_compacted_image\<close>).

  The reference reading of an image is \<open>slots\<close> (every slot the walk steps over, with its
  offset) and \<open>entries\<close> (the same without offsets); \<open>live\<close> is the abstract content of a log,
  the map from id to payload. The lemmas show that a slot written by \<open>slot_bytes\<close> is read back
  as it was given, that appending it updates \<open>live\<close> at its id only, and that compaction keeps
  \<open>live\<close> while it drops everything else.

  The build modelled is the default one: \<open>CONFIG_BLOB_DB_LARGE_PAYLOADS\<close> and
  \<open>CONFIG_BLOB_DB_SLOT_INDEX\<close> off.
\<close>

section \<open>Build parameters\<close>

text \<open>The Kconfig values the code reads, and Zephyr's CRC routines (\<open>crc32_ieee_cont\<close> is \<open>crc32_ieee_update\<close>), which are not part of the
  repository. \<open>TEST_MASTER_LOG_CAP\<close> is 0 when the option is unset.\<close>

record build =
  MAX_PAYLOAD_LEN :: nat
  SECTOR_BUF_SIZE :: nat
  AUTOFORMAT_ON_CORRUPT :: bool
  TEST_MASTER_LOG_CAP :: nat
  crc16_ccitt :: "u16 \<Rightarrow> byte list \<Rightarrow> u16"
  crc32_ieee :: "byte list \<Rightarrow> u32"
  crc32_ieee_cont :: "u32 \<Rightarrow> byte list \<Rightarrow> u32"

section \<open>Layout\<close>

definition BLOB_DB_SLOT_F_SEALED :: byte where "BLOB_DB_SLOT_F_SEALED = 1"
definition BLOB_DB_SLOT_F_TOMBSTONE :: byte where "BLOB_DB_SLOT_F_TOMBSTONE = 2"
definition BLOB_DB_SLOT_F_KNOWN :: byte where
  "BLOB_DB_SLOT_F_KNOWN = BLOB_DB_SLOT_F_SEALED OR BLOB_DB_SLOT_F_TOMBSTONE"

definition BLOB_DB_SLOT_OVERHEAD :: nat where "BLOB_DB_SLOT_OVERHEAD = 4 + 8 + 2"
definition BLOB_DB_BUCKET_DATA_OFF :: nat where "BLOB_DB_BUCKET_DATA_OFF = 16"

text \<open>\<open>'B','D','B','H'\<close>.\<close>

definition BUCKET_MAGIC :: "byte list" where "BUCKET_MAGIC = [0x42, 0x44, 0x42, 0x48]"

record blob_db_slot_hdr =
  flags :: byte
  reserved :: byte
  val_len :: nat

record slot_head =
  hdr :: blob_db_slot_hdr
  head_id :: u64

definition slot_hdr_bytes :: "blob_db_slot_hdr \<Rightarrow> byte list" where
  "slot_hdr_bytes h = [flags h, reserved h] @ le_bytes 2 (val_len h)"

definition slot_hdr_of :: "byte list \<Rightarrow> blob_db_slot_hdr" where
  "slot_hdr_of bs = \<lparr>flags = bs ! 0, reserved = bs ! 1, val_len = of_le (field 2 2 bs)\<rparr>"

definition slot_head_of :: "byte list \<Rightarrow> slot_head" where
  "slot_head_of bs = \<lparr>hdr = slot_hdr_of (take 4 bs), head_id = word_of_nat (of_le (field 4 8 bs))\<rparr>"

record blob_db_bucket_hdr =
  bmagic :: "byte list"
  bucket_id :: nat
  breserved :: nat
  gen :: u32
  hdr_crc32 :: u32

definition bucket_hdr_of :: "byte list \<Rightarrow> blob_db_bucket_hdr" where
  "bucket_hdr_of bs = \<lparr>bmagic = take 4 bs, bucket_id = of_le (field 4 2 bs),
     breserved = of_le (field 6 2 bs), gen = word_of_nat (of_le (field 8 4 bs)),
     hdr_crc32 = word_of_nat (of_le (field 12 4 bs))\<rparr>"

text \<open>The leading 12 bytes of a bucket header, and the whole header with its CRC.\<close>

definition bucket_hdr_prefix :: "nat \<Rightarrow> u32 \<Rightarrow> byte list" where
  "bucket_hdr_prefix bid g = BUCKET_MAGIC @ le_bytes 2 bid @ le_bytes 2 0 @ le_bytes 4 (unat g)"

definition hdr_crc :: "build \<Rightarrow> byte list \<Rightarrow> u32" where
  "hdr_crc B bs = crc32_ieee B (take (length bs - 4) bs)"

definition bucket_hdr_bytes :: "build \<Rightarrow> nat \<Rightarrow> u32 \<Rightarrow> byte list" where
  "bucket_hdr_bytes B bid g =
     bucket_hdr_prefix bid g @ le_bytes 4 (unat (crc32_ieee B (bucket_hdr_prefix bid g)))"

definition bucket_hdr_valid :: "build \<Rightarrow> byte list \<Rightarrow> nat \<Rightarrow> bool" where
  "bucket_hdr_valid B buf bid =
     (let bhdr = bucket_hdr_of (take 16 buf) in
      if bmagic bhdr \<noteq> BUCKET_MAGIC then False
      else if hdr_crc32 bhdr \<noteq> hdr_crc B (take 16 buf) then False
      else if bucket_id bhdr \<noteq> bid then False
      else True)"

section \<open>Slots of a resident image\<close>

definition slot_size_for :: "nat \<Rightarrow> nat \<Rightarrow> nat" where
  "slot_size_for write_align vlen =
     (let base = BLOB_DB_SLOT_OVERHEAD + vlen;
          a = (if write_align = 0 then 1 else write_align)
      in round_up base a)"

definition slot_crc16 :: "build \<Rightarrow> blob_db_slot_hdr \<Rightarrow> u64 \<Rightarrow> byte list \<Rightarrow> u16" where
  "slot_crc16 B h oid payload =
     (let c = crc16_ccitt B 0xffff (slot_hdr_bytes h);
          c = crc16_ccitt B c (le_bytes 8 (unat oid))
      in if val_len h > 0 then crc16_ccitt B c payload else c)"

record slot_view =
  sv_id :: u64
  sv_flags :: byte
  sv_val_len :: nat
  sv_total_size :: nat

text \<open>Why a header cannot be trusted to size its slot: erased, unsealed, an unknown flag, or a
  length above the cap.\<close>

definition hdr_ends_log :: "build \<Rightarrow> blob_db_slot_hdr \<Rightarrow> bool" where
  "hdr_ends_log B h \<longleftrightarrow>
     flags h = 0xff \<or> flags h AND BLOB_DB_SLOT_F_SEALED = 0 \<or>
     flags h AND NOT BLOB_DB_SLOT_F_KNOWN \<noteq> 0 \<or> val_len h > MAX_PAYLOAD_LEN B"

definition slot_walk_at ::
  "build \<Rightarrow> nat \<Rightarrow> nat \<Rightarrow> byte list \<Rightarrow> nat \<Rightarrow> (slot_view \<times> bool) option" where
  "slot_walk_at B peb_size write_align buf off =
     (if off + BLOB_DB_SLOT_OVERHEAD > peb_size then None
      else let shdr = slot_hdr_of (field off 4 buf) in
      if hdr_ends_log B shdr then None
      else let ssz = slot_size_for write_align (val_len shdr) in
      if off + ssz > peb_size then None
      else let oid = word_of_nat (of_le (field (off + 4) 8 buf));
               payload = field (off + 12) (val_len shdr) buf;
               stored = word_of_nat (of_le (field (off + 12 + val_len shdr) 2 buf));
               intact = (slot_crc16 B shdr oid payload = stored)
           in Some (\<lparr>sv_id = oid, sv_flags = flags shdr, sv_val_len = val_len shdr,
                     sv_total_size = ssz\<rparr>, intact))"

definition slot_foreign_head :: "build \<Rightarrow> nat \<Rightarrow> nat \<Rightarrow> blob_db_slot_hdr \<Rightarrow> nat \<Rightarrow> bool" where
  "slot_foreign_head B peb_size write_align h off \<longleftrightarrow>
     flags h \<noteq> 0xff \<and> flags h AND BLOB_DB_SLOT_F_SEALED \<noteq> 0 \<and>
     flags h AND NOT BLOB_DB_SLOT_F_KNOWN \<noteq> 0 \<and> val_len h \<le> MAX_PAYLOAD_LEN B \<and>
     off + slot_size_for write_align (val_len h) \<le> peb_size"

definition slot_foreign_at :: "build \<Rightarrow> nat \<Rightarrow> nat \<Rightarrow> byte list \<Rightarrow> nat \<Rightarrow> bool" where
  "slot_foreign_at B peb_size write_align buf off =
     (if off + BLOB_DB_SLOT_OVERHEAD > peb_size then False
      else let shdr = slot_hdr_of (field off 4 buf) in
      if \<not> slot_foreign_head B peb_size write_align shdr off then False
      else let oid = word_of_nat (of_le (field (off + 4) 8 buf));
               payload = field (off + 12) (val_len shdr) buf;
               stored = word_of_nat (of_le (field (off + 12 + val_len shdr) 2 buf))
           in slot_crc16 B shdr oid payload = stored)"

text \<open>A slot is at least as long as its overhead, so every walk advances.\<close>

lemma slot_size_for_ge: "BLOB_DB_SLOT_OVERHEAD + n \<le> slot_size_for a n"
  by (simp add: slot_size_for_def Let_def round_up_ge_any)

lemma slot_size_for_pos [simp]: "0 < slot_size_for a n"
  using slot_size_for_ge [of n a] by (simp add: BLOB_DB_SLOT_OVERHEAD_def)

lemma slot_walk_at_advances:
  "slot_walk_at B pz wa buf off = Some (sv, i) \<Longrightarrow>
   0 < sv_total_size sv \<and> off + sv_total_size sv \<le> pz \<and> off + BLOB_DB_SLOT_OVERHEAD \<le> pz"
  by (auto simp: slot_walk_at_def Let_def split: if_splits)


section \<open>Walks of a resident image\<close>

text \<open>The reference reading: every slot the walk steps over, and where it stops.\<close>

function slots :: "build \<Rightarrow> nat \<Rightarrow> nat \<Rightarrow> byte list \<Rightarrow> nat \<Rightarrow> (nat \<times> slot_view \<times> bool) list" where
  "slots B pz wa buf off =
     (case slot_walk_at B pz wa buf off of
        None \<Rightarrow> []
      | Some (sv, intact) \<Rightarrow> (off, sv, intact) # slots B pz wa buf (off + sv_total_size sv))"
  by pat_completeness auto
termination
  by (relation "measure (\<lambda>(B, pz, wa, buf, off). pz - off)")
    (auto dest!: slot_walk_at_advances simp: BLOB_DB_SLOT_OVERHEAD_def)

function log_end :: "build \<Rightarrow> nat \<Rightarrow> nat \<Rightarrow> byte list \<Rightarrow> nat \<Rightarrow> nat" where
  "log_end B pz wa buf off =
     (case slot_walk_at B pz wa buf off of
        None \<Rightarrow> off
      | Some (sv, intact) \<Rightarrow> log_end B pz wa buf (off + sv_total_size sv))"
  by pat_completeness auto
termination
  by (relation "measure (\<lambda>(B, pz, wa, buf, off). pz - off)")
    (auto dest!: slot_walk_at_advances simp: BLOB_DB_SLOT_OVERHEAD_def)

definition bucket_image_ends_foreign :: "build \<Rightarrow> nat \<Rightarrow> nat \<Rightarrow> byte list \<Rightarrow> bool" where
  "bucket_image_ends_foreign B pz wa buf =
     slot_foreign_at B pz wa buf (log_end B pz wa buf BLOB_DB_BUCKET_DATA_OFF)"

text \<open>The loop of \<open>slot_superseded\<close>, from \<open>scan\<close> on.\<close>

function superseded_from :: "build \<Rightarrow> nat \<Rightarrow> nat \<Rightarrow> byte list \<Rightarrow> nat \<Rightarrow> u64 \<Rightarrow> bool" where
  "superseded_from B pz wa buf scan oid =
     (case slot_walk_at B pz wa buf scan of
        None \<Rightarrow> False
      | Some (future, intact) \<Rightarrow>
          if intact \<and> sv_id future = oid then True
          else superseded_from B pz wa buf (scan + sv_total_size future) oid)"
  by pat_completeness auto
termination
  by (relation "measure (\<lambda>(B, pz, wa, buf, scan, oid). pz - scan)")
    (auto dest!: slot_walk_at_advances simp: BLOB_DB_SLOT_OVERHEAD_def)

definition slot_superseded :: "build \<Rightarrow> nat \<Rightarrow> nat \<Rightarrow> byte list \<Rightarrow> nat \<Rightarrow> slot_view \<Rightarrow> bool" where
  "slot_superseded B pz wa buf off sv =
     superseded_from B pz wa buf (off + sv_total_size sv) (sv_id sv)"

text \<open>The loop of \<open>build_compacted_image\<close>: the buffer is rewritten in place while it is
  walked; the result is the buffer, the new length and where the walk stopped.\<close>

function compact_loop ::
  "build \<Rightarrow> nat \<Rightarrow> nat \<Rightarrow> byte list \<Rightarrow> nat \<Rightarrow> nat \<Rightarrow> byte list \<times> nat \<times> nat" where
  "compact_loop B pz wa buf new_cursor cursor =
     (case slot_walk_at B pz wa buf cursor of
        None \<Rightarrow> (buf, new_cursor, cursor)
      | Some (sv, intact) \<Rightarrow>
          if intact \<and> sv_flags sv AND BLOB_DB_SLOT_F_TOMBSTONE = 0 \<and>
             \<not> slot_superseded B pz wa buf cursor sv
          then compact_loop B pz wa
                 (if new_cursor \<noteq> cursor
                  then splice buf new_cursor (field cursor (sv_total_size sv) buf) else buf)
                 (new_cursor + sv_total_size sv) (cursor + sv_total_size sv)
          else compact_loop B pz wa buf new_cursor (cursor + sv_total_size sv))"
  by pat_completeness auto
termination
  by (relation "measure (\<lambda>(B, pz, wa, buf, new_cursor, cursor). pz - cursor)")
    (auto dest!: slot_walk_at_advances simp: BLOB_DB_SLOT_OVERHEAD_def)

declare slots.simps [simp del] log_end.simps [simp del] superseded_from.simps [simp del]
  compact_loop.simps [simp del]

definition build_compacted_image ::
  "build \<Rightarrow> nat \<Rightarrow> nat \<Rightarrow> byte list \<Rightarrow> nat \<Rightarrow> byte list \<times> nat \<times> nat" where
  "build_compacted_image B pz wa buf bid =
     (let old_gen = gen (bucket_hdr_of (take 16 buf));
          (buf1, new_cursor, stop) =
            compact_loop B pz wa buf BLOB_DB_BUCKET_DATA_OFF BLOB_DB_BUCKET_DATA_OFF
      in (splice buf1 0 (bucket_hdr_bytes B bid (old_gen + 1)), new_cursor, stop))"

text \<open>\<open>-ENOTSUP\<close> at a foreign slot, \<open>-EIO\<close> at a programmed byte further out than one torn append
  can reach.\<close>

definition compaction_may_drop_tail :: "build \<Rightarrow> nat \<Rightarrow> nat \<Rightarrow> byte list \<Rightarrow> nat \<Rightarrow> unit res" where
  "compaction_may_drop_tail B pz wa old_buf stop =
     (if slot_foreign_at B pz wa old_buf stop then Inl ENOTSUP
      else let span = slot_size_for wa (MAX_PAYLOAD_LEN B) in
        if all_erased (drop (stop + span) (take pz old_buf)) then Inr () else Inl EIO)"

text \<open>\<open>for_each_live_slot\<close>: the visitor returns a non-zero code to stop.\<close>

function for_each_live_slot ::
  "build \<Rightarrow> nat \<Rightarrow> nat \<Rightarrow> byte list \<Rightarrow> nat \<Rightarrow> (u64 \<Rightarrow> byte list \<Rightarrow> 'a \<Rightarrow> int \<times> 'a) \<Rightarrow> 'a \<Rightarrow> int \<times> 'a" where
  "for_each_live_slot B pz wa buf cursor cb user =
     (case slot_walk_at B pz wa buf cursor of
        None \<Rightarrow> (0, user)
      | Some (sv, intact) \<Rightarrow>
          if \<not> intact then for_each_live_slot B pz wa buf (cursor + sv_total_size sv) cb user
          else if \<not> slot_superseded B pz wa buf cursor sv \<and>
                  sv_flags sv AND BLOB_DB_SLOT_F_TOMBSTONE = 0
          then (let (r, user') = cb (sv_id sv) (field (cursor + 12) (sv_val_len sv) buf) user in
                if r \<noteq> 0 then (r, user')
                else for_each_live_slot B pz wa buf (cursor + sv_total_size sv) cb user')
          else for_each_live_slot B pz wa buf (cursor + sv_total_size sv) cb user)"
  by pat_completeness auto
termination
  by (relation "measure (\<lambda>(B, pz, wa, buf, cursor, cb, user). pz - cursor)")
    (auto dest!: slot_walk_at_advances simp: BLOB_DB_SLOT_OVERHEAD_def)

declare for_each_live_slot.simps [simp del]

text \<open>The bytes \<open>append_slot2\<close> stages: header, id, payload, CRC, and 0xff padding to the write
  unit.\<close>

definition slot_bytes :: "build \<Rightarrow> nat \<Rightarrow> u64 \<Rightarrow> byte \<Rightarrow> byte list \<Rightarrow> byte list" where
  "slot_bytes B wa oid extra_flags payload =
     (let shdr = \<lparr>flags = BLOB_DB_SLOT_F_SEALED OR extra_flags, reserved = 0,
                  val_len = length payload\<rparr>;
          crc = slot_crc16 B shdr oid payload;
          total = slot_size_for wa (length payload);
          base = BLOB_DB_SLOT_OVERHEAD + length payload
      in slot_hdr_bytes shdr @ le_bytes 8 (unat oid) @ payload @ le_bytes 2 (unat crc) @
         replicate (total - base) 0xff)"

section \<open>The abstract content of a log\<close>

record entry =
  e_id :: u64
  e_flags :: byte
  e_payload :: "byte list"
  e_intact :: bool

definition entry_at :: "byte list \<Rightarrow> nat \<times> slot_view \<times> bool \<Rightarrow> entry" where
  "entry_at buf x = (case x of (off, sv, i) \<Rightarrow>
     \<lparr>e_id = sv_id sv, e_flags = sv_flags sv, e_payload = field (off + 12) (sv_val_len sv) buf,
      e_intact = i\<rparr>)"

definition entries :: "build \<Rightarrow> nat \<Rightarrow> nat \<Rightarrow> byte list \<Rightarrow> nat \<Rightarrow> entry list" where
  "entries B pz wa buf off = map (entry_at buf) (slots B pz wa buf off)"

definition tomb :: "entry \<Rightarrow> bool" where
  "tomb e \<longleftrightarrow> e_flags e AND BLOB_DB_SLOT_F_TOMBSTONE \<noteq> 0"

text \<open>The newest intact entry of an id, and the payload it makes visible.\<close>

primrec newest :: "entry list \<Rightarrow> u64 \<Rightarrow> entry option" where
  "newest [] x = None"
| "newest (e # es) x =
     (case newest es x of
        Some e' \<Rightarrow> Some e'
      | None \<Rightarrow> if e_intact e \<and> e_id e = x then Some e else None)"

definition live :: "entry list \<Rightarrow> u64 \<Rightarrow> byte list option" where
  "live es x = (case newest es x of None \<Rightarrow> None | Some e \<Rightarrow> if tomb e then None else Some (e_payload e))"

text \<open>What compaction keeps.\<close>

primrec keep :: "entry list \<Rightarrow> entry list" where
  "keep [] = []"
| "keep (e # es) =
     (if e_intact e \<and> \<not> tomb e \<and> newest es (e_id e) = None then e # keep es else keep es)"

end
