(* ===== verification/Blob_Log.thy ===== *)
theory Blob_Log
  imports Blob_Slot
begin

text \<open>
  The lemmas on a resident bucket image: a slot reads back as it was staged, a walk depends on
  the bytes it steps over only, an append extends the log by one entry, and compaction in place
  yields exactly the entries \<open>keep\<close> selects, with the same \<open>live\<close> map.
\<close>

named_theorems log_simps \<open>walks over appended and compacted images\<close>

section \<open>The map a log denotes\<close>

lemma newest_append:
  "newest (xs @ ys) x = (case newest ys x of Some e \<Rightarrow> Some e | None \<Rightarrow> newest xs x)"
  by (induction xs) (auto split: option.splits)

lemma newest_Some:
  "newest es x = Some e \<Longrightarrow> e \<in> set es \<and> e_intact e \<and> e_id e = x"
  by (induction es) (auto split: option.splits if_splits)

lemma newest_None_iff: "newest es x = None \<longleftrightarrow> (\<forall>e \<in> set es. \<not> (e_intact e \<and> e_id e = x))"
  by (induction es) (auto split: option.splits)

lemma newest_keep:
  "newest (keep es) x = (case newest es x of None \<Rightarrow> None | Some e \<Rightarrow> if tomb e then None else Some e)"
  by (induction es) (auto split: option.splits dest: newest_Some)

lemma live_keep: "live (keep es) = live es"
  by (rule ext) (auto simp: live_def newest_keep split: option.splits)

lemma live_append_entry:
  "e_intact e \<Longrightarrow> live (es @ [e]) = (live es)(e_id e := (if tomb e then None else Some (e_payload e)))"
  by (rule ext) (auto simp: live_def newest_append split: option.splits)

lemma live_append_rotten: "\<not> e_intact e \<Longrightarrow> live (es @ [e]) = live es"
  by (rule ext) (auto simp: live_def newest_append)

lemma live_Nil [simp]: "live [] = Map.empty"
  by (rule ext) (simp add: live_def)

text \<open>After compaction every entry is live, and no id occurs twice.\<close>

lemma keep_subset: "set (keep es) \<subseteq> set es"
  by (induction es) auto

lemma keep_intact: "e \<in> set (keep es) \<Longrightarrow> e_intact e \<and> \<not> tomb e"
  by (induction es) (auto split: if_splits)

lemma keep_distinct: "distinct (map e_id (keep es))"
proof (induction es)
  case Nil
  then show ?case by simp
next
  case (Cons e es)
  have "e_id e \<notin> e_id ` set (keep es)" if "newest es (e_id e) = None"
    using that keep_subset [of es] keep_intact [of _ es] by (force simp: newest_None_iff)
  with Cons show ?case by auto
qed

lemma dom_live_keep: "dom (live es) = e_id ` set (keep es)"
proof -
  have "x \<in> dom (live es) \<longleftrightarrow> newest (keep es) x \<noteq> None" for x
  proof -
    have "live es x = live (keep es) x" by (simp add: live_keep)
    moreover have "\<not> tomb e" if "newest (keep es) x = Some e" for e
      using newest_Some [OF that] keep_intact by blast
    ultimately show ?thesis by (auto simp: live_def split: option.splits)
  qed
  then have "x \<in> dom (live es) \<longleftrightarrow> (\<exists>e \<in> set (keep es). e_id e = x)" for x
    using newest_None_iff [of "keep es" x] keep_intact [of _ es] by auto
  then show ?thesis by (intro set_eqI) (auto simp: image_iff)
qed

lemma card_live: "card (dom (live es)) = length (keep es)"
  by (metis dom_live_keep keep_distinct distinct_card length_map set_map)

section \<open>Locality of the walk\<close>

text \<open>Every walk advances by one slot or stops: the induction all walk lemmas use, and the
  unfoldings of the walking functions.\<close>

lemma walk_induct [case_names stop step]:
  assumes "\<And>off. slot_walk_at B pz wa buf off = None \<Longrightarrow> P off"
    and "\<And>off sv i. slot_walk_at B pz wa buf off = Some (sv, i) \<Longrightarrow> P (off + sv_total_size sv) \<Longrightarrow> P off"
  shows "P off"
proof (induction "pz - off" arbitrary: off rule: less_induct)
  case less
  show ?case
  proof (cases "slot_walk_at B pz wa buf off")
    case None
    then show ?thesis by (rule assms(1))
  next
    case (Some x)
    obtain sv i where x: "x = (sv, i)" by (cases x)
    have "0 < sv_total_size sv" "off + sv_total_size sv \<le> pz"
      using slot_walk_at_advances Some x by blast+
    then have "P (off + sv_total_size sv)" by (intro less) simp
    with Some x show ?thesis by (auto intro: assms(2))
  qed
qed

lemma slots_walk [log_simps]:
  "slot_walk_at B pz wa buf off = None \<Longrightarrow> slots B pz wa buf off = []"
  "slot_walk_at B pz wa buf off = Some (sv, i) \<Longrightarrow>
   slots B pz wa buf off = (off, sv, i) # slots B pz wa buf (off + sv_total_size sv)"
  by (simp_all add: slots.simps [of B pz wa buf off])

lemma entries_walk [log_simps]:
  "slot_walk_at B pz wa buf off = None \<Longrightarrow> entries B pz wa buf off = []"
  "slot_walk_at B pz wa buf off = Some (sv, i) \<Longrightarrow>
   entries B pz wa buf off = entry_at buf (off, sv, i) # entries B pz wa buf (off + sv_total_size sv)"
  by (simp_all add: entries_def slots_walk)

lemma log_end_walk [log_simps]:
  "slot_walk_at B pz wa buf off = None \<Longrightarrow> log_end B pz wa buf off = off"
  "slot_walk_at B pz wa buf off = Some (sv, i) \<Longrightarrow>
   log_end B pz wa buf off = log_end B pz wa buf (off + sv_total_size sv)"
  by (simp_all add: log_end.simps [of B pz wa buf off])

lemma superseded_walk [log_simps]:
  "slot_walk_at B pz wa buf off = None \<Longrightarrow> superseded_from B pz wa buf off x = False"
  "slot_walk_at B pz wa buf off = Some (sv, i) \<Longrightarrow>
   superseded_from B pz wa buf off x =
     ((i \<and> sv_id sv = x) \<or> superseded_from B pz wa buf (off + sv_total_size sv) x)"
  by (auto simp: superseded_from.simps [of B pz wa buf off])

lemma field_drop: "field (off + k) n buf = field k n (drop off buf)"
  by (simp add: field_def add.commute)

lemma field_cong:
  "drop off buf = drop off buf' \<Longrightarrow> off \<le> k \<Longrightarrow> field k n buf = field k n buf'"
  by (metis field_drop le_add_diff_inverse)

lemma field_field: "k + n \<le> m \<Longrightarrow> field k n (field off m buf) = field (off + k) n buf"
  by (simp add: field_def drop_take take_take add.commute min_def)

lemma slot_walk_at_cong:
  assumes "drop off buf = drop off buf'"
  shows "slot_walk_at B pz wa buf off = slot_walk_at B pz wa buf' off"
proof -
  have "field k n buf = field k n buf'" if "off \<le> k" for k n
    using field_cong [OF assms that] .
  then show ?thesis by (simp add: slot_walk_at_def Let_def)
qed

lemma drop_mono_eq: "drop off xs = drop off ys \<Longrightarrow> off \<le> k \<Longrightarrow> drop k xs = drop k ys"
  by (metis drop_drop le_add_diff_inverse2)

lemma slots_cong:
  assumes "drop off buf = drop off buf'"
  shows "slots B pz wa buf off = slots B pz wa buf' off"
  using assms
proof (induction off rule: walk_induct [where B = B and pz = pz and wa = wa and buf = buf])
  case (stop off)
  then show ?case using slot_walk_at_cong [OF stop(2), of B pz wa] by (simp add: slots_walk)
next
  case (step off sv i)
  have "slot_walk_at B pz wa buf' off = Some (sv, i)"
    using slot_walk_at_cong [OF step(3), of B pz wa] step(1) by simp
  moreover have "drop (off + sv_total_size sv) buf = drop (off + sv_total_size sv) buf'"
    by (rule drop_mono_eq [OF step(3)]) simp
  ultimately show ?case using step(1,2) by (simp add: slots_walk)
qed

lemma slots_ge: "(o1, sv, i) \<in> set (slots B pz wa buf off) \<Longrightarrow> off \<le> o1"
  by (induction off rule: walk_induct [where B = B and pz = pz and wa = wa and buf = buf])
    (auto simp: slots_walk)

lemma entries_cong:
  assumes "drop off buf = drop off buf'"
  shows "entries B pz wa buf off = entries B pz wa buf' off"
proof -
  have "entry_at buf x = entry_at buf' x" if "x \<in> set (slots B pz wa buf off)" for x
  proof -
    obtain o1 sv i where x: "x = (o1, sv, i)" by (cases x)
    with that have "off \<le> o1" using slots_ge by blast
    then have "field (o1 + 12) (sv_val_len sv) buf = field (o1 + 12) (sv_val_len sv) buf'"
      by (intro field_cong [OF assms]) simp
    with x show ?thesis by (simp add: entry_at_def)
  qed
  then show ?thesis
    using slots_cong [OF assms, of B pz wa] by (auto simp: entries_def)
qed

lemma log_end_cong:
  assumes "drop off buf = drop off buf'"
  shows "log_end B pz wa buf off = log_end B pz wa buf' off"
  using assms
proof (induction off rule: walk_induct [where B = B and pz = pz and wa = wa and buf = buf])
  case (stop off)
  then show ?case using slot_walk_at_cong [OF stop(2), of B pz wa] by (simp add: log_end_walk)
next
  case (step off sv i)
  have "slot_walk_at B pz wa buf' off = Some (sv, i)"
    using slot_walk_at_cong [OF step(3), of B pz wa] step(1) by simp
  moreover have "drop (off + sv_total_size sv) buf = drop (off + sv_total_size sv) buf'"
    by (rule drop_mono_eq [OF step(3)]) simp
  ultimately show ?case using step(1,2) by (simp add: log_end_walk)
qed

lemma field_take: "off + n \<le> k \<Longrightarrow> field off n (take k buf) = field off n buf"
  by (simp add: field_def drop_take take_take min_def)

lemma field_take_eq: "take (off + n) xs = take (off + n) ys \<Longrightarrow> field off n xs = field off n ys"
  by (metis field_take order_refl)

lemma log_end_ge: "off \<le> log_end B pz wa buf off"
  by (induction off rule: walk_induct [where B = B and pz = pz and wa = wa and buf = buf])
    (auto simp: log_end_walk)

lemma log_end_le: "off \<le> pz \<Longrightarrow> log_end B pz wa buf off \<le> pz"
  by (induction off rule: walk_induct [where B = B and pz = pz and wa = wa and buf = buf])
    (auto simp: log_end_walk dest: slot_walk_at_advances)

lemma log_end_stops: "slot_walk_at B pz wa buf (log_end B pz wa buf off) = None"
  by (induction off rule: walk_induct [where B = B and pz = pz and wa = wa and buf = buf])
    (auto simp: log_end_walk)

lemma slots_below_end:
  "(o1, sv, i) \<in> set (slots B pz wa buf off) \<Longrightarrow> o1 + sv_total_size sv \<le> log_end B pz wa buf off"
  by (induction off rule: walk_induct [where B = B and pz = pz and wa = wa and buf = buf])
    (auto simp: slots_walk log_end_walk log_end_ge)

text \<open>\<open>slot_superseded\<close> asks whether the rest of the log has an intact entry for the id.\<close>

lemma superseded_newest:
  "superseded_from B pz wa buf off x \<longleftrightarrow> newest (entries B pz wa buf off) x \<noteq> None"
  by (induction off rule: walk_induct [where B = B and pz = pz and wa = wa and buf = buf])
    (auto simp: superseded_walk entries_walk entry_at_def split: option.splits)

section \<open>A staged slot reads back as it was given\<close>

text \<open>The flags the default build writes: none, or the tombstone bit. The length cap fits the
  16-bit length field (its Kconfig range).\<close>

definition written_flags :: "byte \<Rightarrow> bool" where
  "written_flags ex \<longleftrightarrow> ex = 0 \<or> ex = BLOB_DB_SLOT_F_TOMBSTONE"

definition cap_ok :: "build \<Rightarrow> bool" where
  "cap_ok B \<longleftrightarrow> MAX_PAYLOAD_LEN B < 2 ^ 16"

lemma slot_hdr_roundtrip [simp]:
  "val_len h < 2 ^ 16 \<Longrightarrow> slot_hdr_of (slot_hdr_bytes h) = h"
  by (simp add: slot_hdr_of_def slot_hdr_bytes_def field_def of_le_le_bytes)

lemma length_slot_hdr_bytes [simp]: "length (slot_hdr_bytes h) = 4"
  by (simp add: slot_hdr_bytes_def)

lemma length_slot_bytes [simp]: "length (slot_bytes B wa x ex p) = slot_size_for wa (length p)"
  using slot_size_for_ge [of "length p" wa]
  by (simp add: slot_bytes_def Let_def BLOB_DB_SLOT_OVERHEAD_def)

lemma slot_bytes_fields:
  fixes p :: "byte list" and ex :: byte
  defines "h \<equiv> \<lparr>flags = BLOB_DB_SLOT_F_SEALED OR ex, reserved = 0, val_len = length p\<rparr>"
  shows "field 0 4 (slot_bytes B wa x ex p) = slot_hdr_bytes h"
    and "field 4 8 (slot_bytes B wa x ex p) = le_bytes 8 (unat x)"
    and "field 12 (length p) (slot_bytes B wa x ex p) = p"
    and "field (12 + length p) 2 (slot_bytes B wa x ex p) =
           le_bytes 2 (unat (slot_crc16 B h x p))"
  by (simp_all add: slot_bytes_def Let_def field_def h_def)

lemma sealed_flags_continue:
  assumes "written_flags ex" "n \<le> MAX_PAYLOAD_LEN B"
  shows "\<not> hdr_ends_log B \<lparr>flags = BLOB_DB_SLOT_F_SEALED OR ex, reserved = 0, val_len = n\<rparr>"
  using assms by (auto simp: hdr_ends_log_def written_flags_def BLOB_DB_SLOT_F_SEALED_def
      BLOB_DB_SLOT_F_TOMBSTONE_def BLOB_DB_SLOT_F_KNOWN_def)

lemma slot_bytes_hdr_fields:
  fixes p :: "byte list" and ex :: byte
  assumes len: "length p \<le> MAX_PAYLOAD_LEN B" and cap: "cap_ok B"
    and fld: "field c (slot_size_for wa (length p)) buf = slot_bytes B wa x ex p"
  defines "h \<equiv> \<lparr>flags = BLOB_DB_SLOT_F_SEALED OR ex, reserved = 0, val_len = length p\<rparr>"
  shows "slot_hdr_of (field c 4 buf) = h" "field (c + 4) 8 buf = le_bytes 8 (unat x)"
    and "field (c + 12) (length p) buf = p"
    and "field (c + 12 + length p) 2 buf = le_bytes 2 (unat (slot_crc16 B h x p))"
proof -
  let ?n = "slot_size_for wa (length p)"
  have ge: "14 + length p \<le> ?n"
    using slot_size_for_ge [of "length p" wa] by (simp add: BLOB_DB_SLOT_OVERHEAD_def)
  have sub: "field (c + k) j buf = field k j (slot_bytes B wa x ex p)" if "k + j \<le> ?n" for k j
    using field_field [OF that, of c buf] fld by simp
  have lt: "length p < 2 ^ 16" using len cap by (simp add: cap_ok_def)
  then show "slot_hdr_of (field c 4 buf) = h"
    using sub [of 0 4] ge by (simp add: slot_bytes_fields h_def)
  show "field (c + 4) 8 buf = le_bytes 8 (unat x)"
    using sub [of 4 8] ge by (simp add: slot_bytes_fields)
  show "field (c + 12) (length p) buf = p"
    using sub [of 12 "length p"] ge by (simp add: slot_bytes_fields)
  show "field (c + 12 + length p) 2 buf = le_bytes 2 (unat (slot_crc16 B h x p))"
    using sub [of "12 + length p" 2] ge by (simp add: slot_bytes_fields h_def add.assoc)
qed

lemma slot_walk_at_written:
  assumes ex: "written_flags ex" and len: "length p \<le> MAX_PAYLOAD_LEN B" and cap: "cap_ok B"
    and fit: "c + slot_size_for wa (length p) \<le> pz"
    and fld: "field c (slot_size_for wa (length p)) buf = slot_bytes B wa x ex p"
  shows "slot_walk_at B pz wa buf c =
    Some (\<lparr>sv_id = x, sv_flags = BLOB_DB_SLOT_F_SEALED OR ex, sv_val_len = length p,
           sv_total_size = slot_size_for wa (length p)\<rparr>, True)"
proof -
  have "c + BLOB_DB_SLOT_OVERHEAD \<le> pz"
    using slot_size_for_ge [of "length p" wa] fit by linarith
  with fit sealed_flags_continue [OF ex len] show ?thesis
    by (simp add: slot_walk_at_def Let_def slot_bytes_hdr_fields [OF len cap fld])
qed

text \<open>An erased byte ends the walk.\<close>

lemma slot_walk_at_erased:
  assumes "off < length buf \<Longrightarrow> buf ! off = 0xff" "length buf = pz"
  shows "slot_walk_at B pz wa buf off = None"
proof (cases "off + BLOB_DB_SLOT_OVERHEAD > pz")
  case True
  then show ?thesis by (simp add: slot_walk_at_def)
next
  case False
  then have "off + 14 \<le> length buf" using assms(2) by (simp add: BLOB_DB_SLOT_OVERHEAD_def)
  then have "flags (slot_hdr_of (field off 4 buf)) = 0xff"
    using assms by (simp add: slot_hdr_of_def)
  then show ?thesis by (simp add: slot_walk_at_def hdr_ends_log_def Let_def)
qed

section \<open>Appending\<close>

text \<open>A slot is determined by its own bytes, wherever they stand.\<close>

lemma slot_walk_at_moved:
  assumes w: "slot_walk_at B pz wa buf off = Some (sv, i)"
    and fit: "to + sv_total_size sv \<le> pz"
    and same: "field to (sv_total_size sv) buf' = field off (sv_total_size sv) buf"
  shows "slot_walk_at B pz wa buf' to = Some (sv, i)"
    and "entry_at buf' (to, sv, i) = entry_at buf (off, sv, i)"
proof -
  have vl: "sv_val_len sv = val_len (slot_hdr_of (field off 4 buf))"
    and tot: "sv_total_size sv = slot_size_for wa (sv_val_len sv)"
    using w by (auto simp: slot_walk_at_def Let_def split: if_splits)
  have ge: "14 + sv_val_len sv \<le> sv_total_size sv"
    using slot_size_for_ge [of "sv_val_len sv" wa] tot by (simp add: BLOB_DB_SLOT_OVERHEAD_def)
  have sub: "field (to + k) j buf' = field (off + k) j buf" if "k + j \<le> sv_total_size sv" for k j
    using field_field [OF that, of off buf] field_field [OF that, of to buf'] same by simp
  have "field to 4 buf' = field off 4 buf" "field (to + 4) 8 buf' = field (off + 4) 8 buf"
    "field (to + 12) (sv_val_len sv) buf' = field (off + 12) (sv_val_len sv) buf"
    "field (to + 12 + sv_val_len sv) 2 buf' = field (off + 12 + sv_val_len sv) 2 buf"
    using sub [of 0 4] sub [of 4 8] sub [of 12 "sv_val_len sv"] sub [of "12 + sv_val_len sv" 2] ge
    by (simp_all add: add.assoc)
  moreover have "\<not> pz < to + BLOB_DB_SLOT_OVERHEAD"
    using fit ge by (simp add: BLOB_DB_SLOT_OVERHEAD_def)
  ultimately show "slot_walk_at B pz wa buf' to = Some (sv, i)"
    and "entry_at buf' (to, sv, i) = entry_at buf (off, sv, i)"
    using w vl tot fit by (auto simp: slot_walk_at_def Let_def entry_at_def split: if_splits)
qed

lemma slot_walk_at_same_bytes:
  assumes w: "slot_walk_at B pz wa buf off = Some (sv, i)"
    and same: "field off (sv_total_size sv) buf' = field off (sv_total_size sv) buf"
  shows "slot_walk_at B pz wa buf' off = Some (sv, i)"
    and "entry_at buf' (off, sv, i) = entry_at buf (off, sv, i)"
proof -
  have "off + sv_total_size sv \<le> pz" using slot_walk_at_advances [OF w] by blast
  note moved = slot_walk_at_moved [OF w this same]
  show "slot_walk_at B pz wa buf' off = Some (sv, i)"
    and "entry_at buf' (off, sv, i) = entry_at buf (off, sv, i)"
    by (rule moved)+
qed

text \<open>The walk over an image that agrees with another up to where that one's log ends.\<close>

lemma walk_prefix:
  assumes "take c buf' = take c buf" "c \<le> length buf" "c \<le> length buf'"
    and "log_end B pz wa buf off \<le> c"
  shows "entries B pz wa buf' off =
      entries B pz wa buf off @ entries B pz wa buf' (log_end B pz wa buf off)"
    and "log_end B pz wa buf' off = log_end B pz wa buf' (log_end B pz wa buf off)"
  using assms(4)
proof (induction off rule: walk_induct [where B = B and pz = pz and wa = wa and buf = buf])
  case (stop off)
  {
    case 1
    then show ?case using stop by (simp add: entries_walk log_end_walk)
  next
    case 2
    then show ?case using stop by (simp add: log_end_walk)
  }
next
  case (step off sv i)
  have le: "off + sv_total_size sv \<le> c" if "log_end B pz wa buf off \<le> c"
    using that step(1) log_end_ge [of "off + sv_total_size sv" B pz wa buf]
    by (simp add: log_end_walk)
  have same: "field off (sv_total_size sv) buf' = field off (sv_total_size sv) buf"
    if "log_end B pz wa buf off \<le> c"
  proof -
    have "field off (sv_total_size sv) b = field off (sv_total_size sv) (take c b)" for b
      using le [OF that] by (simp add: field_def drop_take take_take min_def)
    then show ?thesis using assms(1) by metis
  qed
  {
    case 1
    then show ?case
      using step(1) step(2) slot_walk_at_same_bytes [OF step(1) same]
      by (simp add: entries_walk log_end_walk)
  next
    case 2
    then show ?case
      using step(1) step(3) slot_walk_at_same_bytes(1) [OF step(1) same]
      by (simp add: log_end_walk)
  }
qed

text \<open>Appending a staged slot where the log ends, onto erased flash.\<close>

definition written_entry :: "u64 \<Rightarrow> byte \<Rightarrow> byte list \<Rightarrow> entry" where
  "written_entry x ex p =
     \<lparr>e_id = x, e_flags = BLOB_DB_SLOT_F_SEALED OR ex, e_payload = p, e_intact = True\<rparr>"

lemma append_entries:
  fixes x :: u64
  assumes len: "length buf = pz" and er: "all_erased (drop (log_end B pz wa buf off) buf)"
    and ex: "written_flags ex" and lp: "length p \<le> MAX_PAYLOAD_LEN B" and cap: "cap_ok B"
    and fit: "log_end B pz wa buf off + slot_size_for wa (length p) \<le> pz"
  defines "c \<equiv> log_end B pz wa buf off"
  defines "buf' \<equiv> splice buf c (slot_bytes B wa x ex p)"
  shows "entries B pz wa buf' off = entries B pz wa buf off @ [written_entry x ex p]"
    and "log_end B pz wa buf' off = c + slot_size_for wa (length p)"
    and "all_erased (drop (c + slot_size_for wa (length p)) buf')"
proof -
  let ?n = "slot_size_for wa (length p)"
  let ?sv = "\<lparr>sv_id = x, sv_flags = BLOB_DB_SLOT_F_SEALED OR ex, sv_val_len = length p,
              sv_total_size = ?n\<rparr>"
  have len': "length buf' = pz" using fit len by (simp add: buf'_def c_def)
  have tk: "take c buf' = take c buf" using fit len by (simp add: buf'_def splice_def c_def)
  have dr: "drop (c + ?n) buf' = drop (c + ?n) buf"
    using fit len by (simp add: buf'_def splice_def c_def)
  have fld: "field c ?n buf' = slot_bytes B wa x ex p"
    using fit len by (simp add: buf'_def splice_def c_def field_def)
  show er': "all_erased (drop (c + ?n) buf')"
    unfolding dr using er by (rule all_erased_drop_mono) (simp add: c_def)
  have w: "slot_walk_at B pz wa buf' c = Some (?sv, True)"
    using slot_walk_at_written [OF ex lp cap fit [folded c_def] fld] .
  have stop: "slot_walk_at B pz wa buf' (c + ?n) = None"
  proof (rule slot_walk_at_erased [OF _ len'])
    assume "c + ?n < length buf'"
    with er' show "buf' ! (c + ?n) = 0xff" by (rule all_erased_drop_nth [OF _ order_refl])
  qed
  have "entries B pz wa buf' c = [written_entry x ex p]" "log_end B pz wa buf' c = c + ?n"
    using w stop slot_bytes_hdr_fields(3) [OF lp cap fld]
    by (simp_all add: entries_walk log_end_walk entry_at_def written_entry_def)
  moreover have "c \<le> length buf" "c \<le> length buf'" using fit len len' by (simp_all add: c_def)
  ultimately show "entries B pz wa buf' off = entries B pz wa buf off @ [written_entry x ex p]"
    and "log_end B pz wa buf' off = c + ?n"
    using walk_prefix [OF tk, of B pz wa off] by (simp_all add: c_def)
qed

lemma tomb_written [simp]:
  "tomb (written_entry x BLOB_DB_SLOT_F_TOMBSTONE p)" "\<not> tomb (written_entry x 0 p)"
  by (simp_all add: tomb_def written_entry_def BLOB_DB_SLOT_F_SEALED_def BLOB_DB_SLOT_F_TOMBSTONE_def)

lemma written_entry_sel [simp]:
  "e_intact (written_entry x ex p)" "e_id (written_entry x ex p) = x"
  "e_payload (written_entry x ex p) = p"
  by (simp_all add: written_entry_def)

section \<open>Compaction in place\<close>

text \<open>The loop keeps what \<open>keep\<close> keeps. Every image that starts with the bytes it has packed
  holds exactly those entries, wherever it goes on from there; the bytes before the packed area
  and from the stop on are untouched, so the walk never reads what it has written.\<close>

lemma compact_loop_spec:
  assumes "compact_loop B pz wa buf nc cur = (buf', n', stop)" "nc \<le> cur" "length buf = pz"
    "cur \<le> pz"
  shows "length buf' = pz \<and> stop = log_end B pz wa buf cur \<and> nc \<le> n' \<and> n' \<le> stop \<and>
    drop stop buf' = drop stop buf \<and> take nc buf' = take nc buf \<and>
    (\<forall>img. take n' img = take n' buf' \<longrightarrow> length img = pz \<longrightarrow>
       entries B pz wa img nc = keep (entries B pz wa buf cur) @ entries B pz wa img n' \<and>
       log_end B pz wa img nc = log_end B pz wa img n')"
  using assms
proof (induction B pz wa buf nc cur arbitrary: buf' n' stop rule: compact_loop.induct)
  case (1 B pz wa buf nc cur)
  show ?case
  proof (cases "slot_walk_at B pz wa buf cur")
    case None
    with "1.prems" have "buf' = buf" "n' = nc" "stop = cur"
      by (simp_all add: compact_loop.simps [of B pz wa buf nc cur])
    with None "1.prems" show ?thesis by (simp add: entries_walk log_end_walk)
  next
    case (Some y)
    obtain sv i where y: "y = (sv, i)" by (cases y)
    let ?t = "sv_total_size sv"
    note w = Some [unfolded y]
    have t: "0 < ?t" "cur + ?t \<le> pz" using slot_walk_at_advances [OF w] by blast+
    have newest: "slot_superseded B pz wa buf cur sv \<longleftrightarrow>
        newest (entries B pz wa buf (cur + ?t)) (sv_id sv) \<noteq> None"
      by (simp add: slot_superseded_def superseded_newest)
    have ent: "entries B pz wa buf cur = entry_at buf (cur, sv, i) # entries B pz wa buf (cur + ?t)"
      using w by (simp add: entries_walk)
    have le: "log_end B pz wa buf cur = log_end B pz wa buf (cur + ?t)"
      using w by (simp add: log_end_walk)
    show ?thesis
    proof (cases "i \<and> sv_flags sv AND BLOB_DB_SLOT_F_TOMBSTONE = 0 \<and>
        \<not> slot_superseded B pz wa buf cur sv")
      case True
      define buf1 where "buf1 = (if nc \<noteq> cur then splice buf nc (field cur ?t buf) else buf)"
      have loop: "compact_loop B pz wa buf1 (nc + ?t) (cur + ?t) = (buf', n', stop)"
        using "1.prems"(1) w True
        by (simp add: compact_loop.simps [of B pz wa buf nc cur] buf1_def)
      have l1: "length buf1 = pz" and d1: "drop (cur + ?t) buf1 = drop (cur + ?t) buf"
        and f1: "field nc ?t buf1 = field cur ?t buf" and t1: "take nc buf1 = take nc buf"
        using "1.prems" t by (auto simp: buf1_def splice_def field_def)
      have ih: "length buf' = pz \<and> stop = log_end B pz wa buf1 (cur + ?t) \<and> nc + ?t \<le> n' \<and>
          n' \<le> stop \<and> drop stop buf' = drop stop buf1 \<and> take (nc + ?t) buf' = take (nc + ?t) buf1 \<and>
          (\<forall>img. take n' img = take n' buf' \<longrightarrow> length img = pz \<longrightarrow>
             entries B pz wa img (nc + ?t) =
               keep (entries B pz wa buf1 (cur + ?t)) @ entries B pz wa img n' \<and>
             log_end B pz wa img (nc + ?t) = log_end B pz wa img n')"
        by (rule "1.IH"(1) [OF w refl True, folded buf1_def, OF loop])
          (use "1.prems" l1 t in simp_all)
      have e1: "entries B pz wa buf1 (cur + ?t) = entries B pz wa buf (cur + ?t)"
        by (rule entries_cong [OF d1])
      have le1: "log_end B pz wa buf1 (cur + ?t) = log_end B pz wa buf (cur + ?t)"
        by (rule log_end_cong [OF d1])
      have stop_ge: "cur + ?t \<le> stop" using ih log_end_ge by metis
      have kept: "keep (entries B pz wa buf cur) =
          entry_at buf (cur, sv, i) # keep (entries B pz wa buf (cur + ?t))"
        using True newest by (auto simp: ent entry_at_def tomb_def)
      have img: "entries B pz wa img nc = keep (entries B pz wa buf cur) @ entries B pz wa img n' \<and>
          log_end B pz wa img nc = log_end B pz wa img n'"
        if im: "take n' img = take n' buf'" "length img = pz" for img
      proof -
        have "field nc ?t img = field nc ?t (take n' img)"
          using ih by (simp add: field_take)
        also have "\<dots> = field nc ?t buf'" using im ih by (simp add: field_take)
        also have "\<dots> = field nc ?t buf1" using ih field_take_eq by blast
        also have "\<dots> = field cur ?t buf" by (rule f1)
        finally have f: "field nc ?t img = field cur ?t buf" .
        have "nc + ?t \<le> pz" using t "1.prems" by simp
        note mv = slot_walk_at_moved [OF w this f]
        then show ?thesis
          using ih im kept e1 by (simp add: entries_walk log_end_walk)
      qed
      have "take nc buf' = take nc buf"
      proof -
        have "take nc buf' = take nc (take (nc + ?t) buf')" by (simp add: min_def)
        also have "\<dots> = take nc buf" using ih t1 by (simp add: min_def)
        finally show ?thesis .
      qed
      moreover have "drop stop buf' = drop stop buf"
        using ih drop_mono_eq [OF d1 stop_ge] by metis
      ultimately show ?thesis using ih le le1 img by auto
    next
      case False
      have loop: "compact_loop B pz wa buf nc (cur + ?t) = (buf', n', stop)"
        using "1.prems"(1) w False by (simp add: compact_loop.simps [of B pz wa buf nc cur] split: if_splits)
      have kept: "keep (entries B pz wa buf cur) = keep (entries B pz wa buf (cur + ?t))"
        using False newest by (auto simp: ent entry_at_def tomb_def)
      show ?thesis
        unfolding le kept by (rule "1.IH"(2) [OF w refl False loop]) (use "1.prems" t in simp_all)
    qed
  qed
qed

lemma length_bucket_hdr_prefix [simp]: "length (bucket_hdr_prefix bid g) = 12"
  by (simp add: bucket_hdr_prefix_def BUCKET_MAGIC_def)

lemma length_bucket_hdr_bytes [simp]: "length (bucket_hdr_bytes B bid g) = 16"
  by (simp add: bucket_hdr_bytes_def)

text \<open>The header a format or a compaction writes is valid for its bucket, and only for it.\<close>

lemma bucket_hdr_of_bytes:
  assumes "bid < 2 ^ 16"
  shows "bucket_hdr_of (bucket_hdr_bytes B bid g) =
    \<lparr>bmagic = BUCKET_MAGIC, bucket_id = bid, breserved = 0, gen = g,
     hdr_crc32 = crc32_ieee B (bucket_hdr_prefix bid g)\<rparr>"
  using assms
  by (simp add: bucket_hdr_of_def bucket_hdr_bytes_def bucket_hdr_prefix_def BUCKET_MAGIC_def
      field_def)

lemma bucket_hdr_valid_bytes:
  assumes "bid < 2 ^ 16" "take 16 buf = bucket_hdr_bytes B bid g"
  shows "bucket_hdr_valid B buf bid"
proof -
  have "hdr_crc B (bucket_hdr_bytes B bid g) = crc32_ieee B (bucket_hdr_prefix bid g)"
    by (simp add: hdr_crc_def) (simp add: bucket_hdr_bytes_def)
  then show ?thesis
    using assms by (simp add: bucket_hdr_valid_def bucket_hdr_of_bytes Let_def)
qed

lemma bucket_hdr_valid_unique: "bucket_hdr_valid B buf a \<Longrightarrow> bucket_hdr_valid B buf b \<Longrightarrow> a = b"
  by (auto simp: bucket_hdr_valid_def Let_def split: if_splits)

text \<open>What compaction hands to the flash: \<open>n\<close> bytes, followed by erased flash.\<close>

definition compacted_block :: "nat \<Rightarrow> byte list \<Rightarrow> nat \<Rightarrow> byte list" where
  "compacted_block pz buf n = take n buf @ replicate (pz - n) 0xff"

lemma build_compacted_image_spec:
  assumes b: "build_compacted_image B pz wa buf bid = (buf', n, stop)"
    and len: "length buf = pz" and pz: "16 \<le> pz" and bid: "bid < 2 ^ 16"
  shows "length buf' = pz" "16 \<le> n" "n \<le> stop" "stop \<le> pz"
    and "stop = log_end B pz wa buf 16"
    and "drop stop buf' = drop stop buf"
    and "bucket_hdr_valid B (compacted_block pz buf' n) bid"
    and "entries B pz wa (compacted_block pz buf' n) 16 = keep (entries B pz wa buf 16)"
    and "log_end B pz wa (compacted_block pz buf' n) 16 = n"
proof -
  obtain buf1 where l: "compact_loop B pz wa buf 16 16 = (buf1, n, stop)"
    and b': "buf' = splice buf1 0 (bucket_hdr_bytes B bid (gen (bucket_hdr_of (take 16 buf)) + 1))"
    using b by (auto simp: build_compacted_image_def Let_def BLOB_DB_BUCKET_DATA_OFF_def
        split: prod.splits)
  note spec = compact_loop_spec [OF l order_refl len pz]
  then have len1: "length buf1 = pz" and ge: "16 \<le> n" and n: "n \<le> stop"
    and st: "stop = log_end B pz wa buf 16" and dr1: "drop stop buf1 = drop stop buf" by blast+
  show "16 \<le> n" "n \<le> stop" "stop = log_end B pz wa buf 16" by (fact ge n st)+
  show st_le: "stop \<le> pz" using st log_end_le [OF pz] by simp
  show len': "length buf' = pz" using b' len1 pz by simp
  have d16: "drop 16 buf' = drop 16 buf1" using b' len1 pz by (simp add: splice_def)
  show "drop stop buf' = drop stop buf"
    using drop_mono_eq [OF d16, of stop] ge n dr1 by simp
  let ?img = "compacted_block pz buf' n"
  have "take 16 ?img = bucket_hdr_bytes B bid (gen (bucket_hdr_of (take 16 buf)) + 1)"
    using ge b' len' n st_le by (simp add: compacted_block_def splice_def)
  then show "bucket_hdr_valid B ?img bid" using bid by (rule bucket_hdr_valid_bytes [rotated])
  define img1 where "img1 = take 16 buf1 @ drop 16 ?img"
  have img_len: "length ?img = pz" using len' n st_le by (simp add: compacted_block_def)
  have "take n img1 = take n buf1"
  proof -
    have "drop 16 ?img = drop 16 (take n buf') @ replicate (pz - n) 0xff"
      using ge len' n st_le by (simp add: compacted_block_def)
    also have "drop 16 (take n buf') = take (n - 16) (drop 16 buf1)"
      by (simp add: drop_take d16)
    finally have "img1 = take 16 buf1 @ take (n - 16) (drop 16 buf1) @ replicate (pz - n) 0xff"
      by (simp add: img1_def)
    also have "\<dots> = take n buf1 @ replicate (pz - n) 0xff"
      using ge take_add [of 16 "n - 16" buf1] by simp
    finally show ?thesis using len1 n st_le by simp
  qed
  moreover have "length img1 = pz" using img_len len1 pz by (simp add: img1_def)
  ultimately have e: "entries B pz wa img1 16 =
      keep (entries B pz wa buf 16) @ entries B pz wa img1 n"
    and lg: "log_end B pz wa img1 16 = log_end B pz wa img1 n"
    using spec by blast+
  have d: "drop 16 img1 = drop 16 ?img" using len1 pz by (simp add: img1_def)
  have "slot_walk_at B pz wa ?img n = None"
    using img_len len' n st_le by (intro slot_walk_at_erased) (simp_all add: compacted_block_def nth_append)
  then have "slot_walk_at B pz wa img1 n = None"
    using slot_walk_at_cong [OF drop_mono_eq [OF d ge]] by simp
  then show "entries B pz wa ?img 16 = keep (entries B pz wa buf 16)"
    and "log_end B pz wa ?img 16 = n"
    using e lg entries_cong [OF d, of B pz wa] log_end_cong [OF d, of B pz wa]
    by (simp_all add: entries_walk log_end_walk)
qed

end
