(* ===== verification/Blob_Bucket.thy ===== *)
theory Blob_Bucket
  imports Blob_Log
begin

text \<open>
  L1, buckets on flash (\<open>lib/blob_db/blob_db.c\<close>): the session state \<open>st\<close>, the streaming walk
  that finds a slot by reading slot heads (\<open>scan_bucket_for\<close>, \<open>slot_verify\<close>,
  \<open>find_live_slot\<close>), appends, bucket formatting, and per-bucket compaction with its scratch
  sector and crash recovery.

  Every function takes the environment (build parameters and store) and the session state; one
  that only reads returns a result, one that writes returns a result and the state it left.
  Payloads staged in the shared buffer \<open>g_bbuf\<close> are returned values here.
\<close>

section \<open>The session state\<close>

record 'd env =
  bld :: build
  sto :: "'d store"

record 'd bdb =
  dev :: 'd
  mounted :: bool
  st_fa_size :: nat
  peb_size :: nat
  write_align :: nat
  n_pebs :: nat
  n_buckets :: nat
  active_master :: nat
  rot_gen :: u32
  rec_size :: nat
  log_cap :: nat
  log_next :: nat
  log_failed :: bool
  ceiling_reset :: bool
  incompat :: u32
  ro_compat :: u32
  compat :: u32
  fuses :: u32
  next_id :: u64
  next_id_hint :: u64
  seg_owner :: u64
  wedged :: bool
  preformat :: bool
  maint_start :: nat
  maint_scanned :: nat

definition BLOB_DB_MASTER_A_SECTOR :: nat where "BLOB_DB_MASTER_A_SECTOR = 0"
definition BLOB_DB_MASTER_B_SECTOR :: nat where "BLOB_DB_MASTER_B_SECTOR = 1"
definition BLOB_DB_SCRATCH_SECTOR :: nat where "BLOB_DB_SCRATCH_SECTOR = 2"
definition BLOB_DB_FIRST_BUCKET :: nat where "BLOB_DB_FIRST_BUCKET = 3"
definition BLOB_DB_ROOT_ID :: u64 where "BLOB_DB_ROOT_ID = 1"
definition BLOB_DB_MAX_WRITE_ALIGN :: nat where "BLOB_DB_MAX_WRITE_ALIGN = 32"

definition peb_offset :: "'d bdb \<Rightarrow> nat \<Rightarrow> nat" where
  "peb_offset s p = p * peb_size s"

definition bucket_offset :: "'d bdb \<Rightarrow> nat \<Rightarrow> nat" where
  "bucket_offset s bid = peb_offset s (BLOB_DB_FIRST_BUCKET + bid)"

definition id_to_bucket :: "'d bdb \<Rightarrow> u64 \<Rightarrow> nat" where
  "id_to_bucket s x = unat x mod n_buckets s"

text \<open>The store calls, on the session's device.\<close>

definition store_read :: "'d env \<Rightarrow> 'd bdb \<Rightarrow> nat \<Rightarrow> nat \<Rightarrow> byte list res" where
  "store_read E s off n = blob_db_store_read (sto E) (dev s) off n"

definition store_write :: "'d env \<Rightarrow> 'd bdb \<Rightarrow> nat \<Rightarrow> byte list \<Rightarrow> unit res \<times> 'd bdb" where
  "store_write E s off buf = (let (r, d) = blob_db_store_write (sto E) (dev s) off buf in (r, s\<lparr>dev := d\<rparr>))"

definition store_erase :: "'d env \<Rightarrow> 'd bdb \<Rightarrow> nat \<Rightarrow> nat \<Rightarrow> unit res \<times> 'd bdb" where
  "store_erase E s off n = (let (r, d) = blob_db_store_erase (sto E) (dev s) off n in (r, s\<lparr>dev := d\<rparr>))"

definition store_replace :: "'d env \<Rightarrow> 'd bdb \<Rightarrow> nat \<Rightarrow> byte list \<Rightarrow> unit res \<times> 'd bdb" where
  "store_replace E s off buf =
     (let (r, d) = blob_db_store_replace (sto E) (dev s) off buf in (r, s\<lparr>dev := d\<rparr>))"

section \<open>Streaming access\<close>

definition read_bucket :: "'d env \<Rightarrow> 'd bdb \<Rightarrow> nat \<Rightarrow> byte list res" where
  "read_bucket E s bid = store_read E s (bucket_offset s bid) (peb_size s)"

definition read_bucket_hdr :: "'d env \<Rightarrow> 'd bdb \<Rightarrow> nat \<Rightarrow> bool res" where
  "read_bucket_hdr E s bid =
     andthen (store_read E s (bucket_offset s bid) 16) (\<lambda>bs. Inr (bucket_hdr_valid (bld E) bs bid))"

lemma andthen_cong [fundef_cong]:
  "r = r' \<Longrightarrow> (\<And>x. r' = Inr x \<Longrightarrow> f x = g x) \<Longrightarrow> andthen r f = andthen r' g"
  by (cases r') simp_all

text \<open>\<open>slot_crc_ok_on_flash\<close>: the CRC of a slot, read in chunks of 64 bytes.\<close>

function crc_chunks :: "'d env \<Rightarrow> 'd bdb \<Rightarrow> nat \<Rightarrow> nat \<Rightarrow> u16 \<Rightarrow> (u16 \<times> nat) res" where
  "crc_chunks E s at left c =
     (if left > 0 then
        let n = min left 64 in
        andthen (store_read E s at n)
          (\<lambda>chunk. crc_chunks E s (at + n) (left - n) (crc16_ccitt (bld E) c chunk))
      else Inr (c, at))"
  by pat_completeness auto
termination
  by (relation "measure (\<lambda>(E, s, at, left, c). left)") auto

declare crc_chunks.simps [simp del]

definition slot_crc_ok_on_flash :: "'d env \<Rightarrow> 'd bdb \<Rightarrow> nat \<Rightarrow> nat \<Rightarrow> slot_head \<Rightarrow> bool res" where
  "slot_crc_ok_on_flash E s bid off sh =
     (let c = crc16_ccitt (bld E) 0xffff (slot_hdr_bytes (hdr sh));
          c = crc16_ccitt (bld E) c (le_bytes 8 (unat (head_id sh)))
      in andthen (crc_chunks E s (bucket_offset s bid + off + 12) (val_len (hdr sh)) c)
           (\<lambda>(c, at). andthen (store_read E s at 2)
              (\<lambda>stored. Inr (c = word_of_nat (of_le stored)))))"

text \<open>The result of one pass over a bucket. \<open>target\<close> is the offset and head of the last matching
  slot, if any (\<open>target_off < 0\<close> otherwise).\<close>

record bucket_scan =
  write_cursor :: nat
  target :: "(nat \<times> slot_head) option"
  tail_torn :: bool
  foreign :: bool

function scan_from ::
  "'d env \<Rightarrow> 'd bdb \<Rightarrow> nat \<Rightarrow> u64 \<Rightarrow> nat \<Rightarrow> nat \<Rightarrow> (nat \<times> slot_head) option \<Rightarrow> bucket_scan res" where
  "scan_from E s bid target_id limit cursor tgt =
     (if cursor + BLOB_DB_SLOT_OVERHEAD > peb_size s
      then Inr \<lparr>write_cursor = cursor, target = tgt, tail_torn = False, foreign = False\<rparr>
      else andthen (store_read E s (bucket_offset s bid + cursor) 12) (\<lambda>bs.
        let sh = slot_head_of bs in
        if hdr_ends_log (bld E) (hdr sh) then
          if slot_foreign_head (bld E) (peb_size s) (write_align s) (hdr sh) cursor
          then andthen (slot_crc_ok_on_flash E s bid cursor sh) (\<lambda>ok.
                 Inr \<lparr>write_cursor = cursor, target = tgt,
                      tail_torn = (\<not> ok \<and> flags (hdr sh) \<noteq> 0xff), foreign = ok\<rparr>)
          else Inr \<lparr>write_cursor = cursor, target = tgt,
                    tail_torn = (flags (hdr sh) \<noteq> 0xff), foreign = False\<rparr>
        else let ssz = slot_size_for (write_align s) (val_len (hdr sh)) in
          if cursor + ssz > peb_size s
          then Inr \<lparr>write_cursor = cursor, target = tgt, tail_torn = True, foreign = False\<rparr>
          else scan_from E s bid target_id limit (cursor + ssz)
                 (if head_id sh = target_id \<and> cursor < limit then Some (cursor, sh) else tgt)))"
  by pat_completeness auto
termination
proof (relation "measure (\<lambda>(E, s, bid, target_id, limit, cursor, tgt). peb_size s - cursor)",
    goal_cases)
  case (2 E s bid target_id limit cursor tgt bs sh ssz)
  then show ?case by (auto simp: BLOB_DB_SLOT_OVERHEAD_def intro!: diff_less_mono2)
qed simp

declare scan_from.simps [simp del]

definition scan_bucket_for ::
  "'d env \<Rightarrow> 'd bdb \<Rightarrow> nat \<Rightarrow> u64 \<Rightarrow> nat \<Rightarrow> bucket_scan res" where
  "scan_bucket_for E s bid target_id limit =
     scan_from E s bid target_id limit BLOB_DB_BUCKET_DATA_OFF None"

text \<open>Read the target's payload and check its CRC; \<open>-EBADMSG\<close> is a rotten slot.\<close>

definition slot_verify :: "'d env \<Rightarrow> 'd bdb \<Rightarrow> nat \<Rightarrow> nat \<Rightarrow> slot_head \<Rightarrow> byte list res" where
  "slot_verify E s bid toff sh =
     (let poff = bucket_offset s bid + toff + 12; vl = val_len (hdr sh) in
      andthen (if vl > 0 then store_read E s poff vl else Inr []) (\<lambda>dst.
      andthen (store_read E s (poff + vl) 2) (\<lambda>stored.
        if slot_crc16 (bld E) (hdr sh) (head_id sh) dst \<noteq> word_of_nat (of_le stored)
        then Inl EBADMSG else Inr dst)))"

lemma scan_from_target:
  "scan_from E s bid x limit cursor tgt = Inr sc \<Longrightarrow> target sc = Some (toff, sh) \<Longrightarrow>
   tgt = Some (toff, sh) \<or> toff < limit"
proof (induction E s bid x limit cursor tgt rule: scan_from.induct)
  case (1 E s bid x limit cursor tgt)
  show ?case
  proof (cases "cursor + BLOB_DB_SLOT_OVERHEAD > peb_size s")
    case True
    with "1.prems" show ?thesis by (auto simp: scan_from.simps [of E s bid x limit cursor])
  next
    case False
    with "1.prems" obtain bs where bs: "store_read E s (bucket_offset s bid + cursor) 12 = Inr bs"
      by (auto simp: scan_from.simps [of E s bid x limit cursor] andthen_Inr)
    show ?thesis
      using "1.prems" "1.IH" [OF False bs refl _ refl] False bs
      by (auto simp: scan_from.simps [of E s bid x limit cursor] Let_def andthen_Inr split: if_splits)
  qed
qed

text \<open>Newest intact slot of an id: a slot that fails its CRC is retried below.\<close>

function walk_live_slot ::
  "'d env \<Rightarrow> 'd bdb \<Rightarrow> nat \<Rightarrow> u64 \<Rightarrow> nat \<Rightarrow> (bucket_scan \<times> byte list) res" where
  "walk_live_slot E s bid x limit =
     andthen (scan_bucket_for E s bid x limit) (\<lambda>sc.
       if foreign sc then Inl ENOTSUP
       else case target sc of
          None \<Rightarrow> Inl ENOENT
        | Some (toff, sh) \<Rightarrow>
            (case slot_verify E s bid toff sh of
               Inl e \<Rightarrow> if e = EBADMSG then walk_live_slot E s bid x toff else Inl e
             | Inr payload \<Rightarrow>
                 if flags (hdr sh) AND BLOB_DB_SLOT_F_TOMBSTONE \<noteq> 0 then Inl ENOENT
                 else Inr (sc, payload)))"
  by pat_completeness auto
termination
  by (relation "measure (\<lambda>(E, s, bid, x, limit). limit)")
    (auto simp: scan_bucket_for_def dest: scan_from_target)

declare walk_live_slot.simps [simp del]

definition find_live_slot ::
  "'d env \<Rightarrow> 'd bdb \<Rightarrow> nat \<Rightarrow> u64 \<Rightarrow> (bucket_scan \<times> byte list) res" where
  "find_live_slot E s bid x = walk_live_slot E s bid x (peb_size s)"

text \<open>Where an append goes. A log that ends at a torn slot reads as full, so that the writer
  compacts first; one that ends at a foreign slot refuses writes.\<close>

definition bucket_cursor :: "'d env \<Rightarrow> 'd bdb \<Rightarrow> nat \<Rightarrow> u64 \<Rightarrow> bucket_scan res" where
  "bucket_cursor E s bid x = scan_bucket_for E s bid x (peb_size s)"

definition confirm_cursor :: "'d bdb \<Rightarrow> bucket_scan \<Rightarrow> nat res" where
  "confirm_cursor s sc =
     (if foreign sc then Inl ENOTSUP
      else if tail_torn sc then Inr (peb_size s)
      else Inr (write_cursor sc))"

definition append_slot ::
  "'d env \<Rightarrow> 'd bdb \<Rightarrow> nat \<Rightarrow> nat \<Rightarrow> u64 \<Rightarrow> byte \<Rightarrow> byte list \<Rightarrow> unit res \<times> 'd bdb" where
  "append_slot E s bid cursor x extra_flags payload =
     (if length payload > MAX_PAYLOAD_LEN (bld E) then (Inl EINVAL, s)
      else if write_align s > BLOB_DB_MAX_WRITE_ALIGN then (Inl ENOTSUP, s)
      else store_write E s (bucket_offset s bid + cursor)
             (slot_bytes (bld E) (write_align s) x extra_flags payload))"

definition format_bucket :: "'d env \<Rightarrow> 'd bdb \<Rightarrow> nat \<Rightarrow> unit res \<times> 'd bdb" where
  "format_bucket E s bid =
     store_replace E s (bucket_offset s bid) (bucket_hdr_bytes (bld E) bid 1)"

section \<open>Compaction through the scratch sector\<close>

text \<open>\<open>'B','D','S','L'\<close>.\<close>

definition SCRATCH_MAGIC :: "byte list" where "SCRATCH_MAGIC = [0x42, 0x44, 0x53, 0x4c]"

definition scratch_seal_len :: "'d bdb \<Rightarrow> nat" where
  "scratch_seal_len s = round_up 16 (if write_align s = 0 then 1 else write_align s)"

definition scratch_seal_off :: "'d bdb \<Rightarrow> nat" where
  "scratch_seal_off s = peb_size s - scratch_seal_len s"

definition seal_prefix :: "build \<Rightarrow> byte list \<Rightarrow> byte list" where
  "seal_prefix B img =
     SCRATCH_MAGIC @ le_bytes 4 (length img) @ le_bytes 4 (unat (crc32_ieee B img))"

definition seal_bytes :: "build \<Rightarrow> byte list \<Rightarrow> byte list" where
  "seal_bytes B img =
     seal_prefix B img @ le_bytes 4 (unat (crc32_ieee B (seal_prefix B img)))"

definition scratch_seal_write ::
  "'d env \<Rightarrow> 'd bdb \<Rightarrow> nat \<Rightarrow> byte list \<Rightarrow> unit res \<times> 'd bdb" where
  "scratch_seal_write E s scratch_off img =
     store_write E s (scratch_off + scratch_seal_off s)
       (seal_bytes (bld E) img @ replicate (scratch_seal_len s - 16) 0xff)"

text \<open>The seal's own magic and CRC.\<close>

definition seal_self_ok :: "build \<Rightarrow> byte list \<Rightarrow> bool" where
  "seal_self_ok B seal \<longleftrightarrow>
     take 4 seal = SCRATCH_MAGIC \<and> word_of_nat (of_le (field 12 4 seal)) = hdr_crc B (take 16 seal)"

definition scratch_seal_valid :: "build \<Rightarrow> 'd bdb \<Rightarrow> byte list \<Rightarrow> nat option" where
  "scratch_seal_valid B s img =
     (let seal = field (scratch_seal_off s) 16 img; image_len = of_le (field 4 4 seal) in
      if take 4 seal \<noteq> SCRATCH_MAGIC then None
      else if word_of_nat (of_le (field 12 4 seal)) \<noteq> hdr_crc B seal then None
      else if image_len < BLOB_DB_BUCKET_DATA_OFF \<or> image_len > scratch_seal_off s then None
      else if word_of_nat (of_le (field 8 4 seal)) \<noteq> crc32_ieee B (take image_len img) then None
      else Some image_len)"

text \<open>An error inside the window wedges the store (\<open>COMPACT_OR_WEDGE\<close>).\<close>

definition or_wedge :: "unit res \<times> 'd bdb \<Rightarrow> unit res \<times> 'd bdb" where
  "or_wedge r = (case r of (Inl e, s) \<Rightarrow> (Inl e, s\<lparr>wedged := True\<rparr>) | (Inr x, s) \<Rightarrow> (Inr x, s))"

definition compact_commit ::
  "'d env \<Rightarrow> 'd bdb \<Rightarrow> nat \<Rightarrow> byte list \<Rightarrow> nat \<Rightarrow> unit res \<times> 'd bdb" where
  "compact_commit E s bid new_buf new_len =
     (let scratch_off = peb_offset s BLOB_DB_SCRATCH_SECTOR; bucket_off = bucket_offset s bid;
          img = take new_len new_buf in
      if new_len > scratch_seal_off s then (Inl ENOSPC, s)
      else if blob_db_store_replace_is_atomic (sto E) then store_replace E s bucket_off img
      else
        seqs (store_erase E s scratch_off (peb_size s)) (\<lambda>_ s.
        seqs (store_write E s scratch_off img) (\<lambda>_ s.
        seqs (scratch_seal_write E s scratch_off img) (\<lambda>_ s.
        seqs (or_wedge (store_erase E s bucket_off (peb_size s))) (\<lambda>_ s.
        seqs (or_wedge (store_write E s bucket_off img)) (\<lambda>_ s.
          or_wedge (store_erase E s scratch_off (peb_size s))))))))"

definition compact_bucket :: "'d env \<Rightarrow> 'd bdb \<Rightarrow> nat \<Rightarrow> unit res \<times> 'd bdb" where
  "compact_bucket E s bid =
     reads (read_bucket E s bid) s (\<lambda>bbuf.
       if \<not> bucket_hdr_valid (bld E) bbuf bid then (Inl EINVAL, s)
       else let (bbuf', new_len, stop) =
                  build_compacted_image (bld E) (peb_size s) (write_align s) bbuf bid in
         reads (compaction_may_drop_tail (bld E) (peb_size s) (write_align s) bbuf' stop) s
           (\<lambda>_. compact_commit E s bid bbuf' new_len))"

text \<open>The bucket a sealed scratch belongs to, with the sector and the image length. The code
  answers \<open>-1\<close> for "no complete image", which is \<open>-EPERM\<close>.\<close>

definition scratch_sealed_bucket :: "'d env \<Rightarrow> 'd bdb \<Rightarrow> (nat \<times> byte list \<times> nat) res" where
  "scratch_sealed_bucket E s =
     (let scratch_off = peb_offset s BLOB_DB_SCRATCH_SECTOR in
      andthen (store_read E s (scratch_off + scratch_seal_off s) 16) (\<lambda>seal.
        if \<not> seal_self_ok (bld E) seal then Inl EPERM
        else andthen (store_read E s scratch_off (peb_size s)) (\<lambda>bbuf.
          case scratch_seal_valid (bld E) s bbuf of
            None \<Rightarrow> Inl EPERM
          | Some image_len \<Rightarrow>
              let bid = bucket_id (bucket_hdr_of (take 16 bbuf)) in
              if bid \<ge> n_buckets s \<or> \<not> bucket_hdr_valid (bld E) bbuf bid then Inl EPERM
              else Inr (bid, bbuf, image_len))))"

definition recover_compaction :: "'d env \<Rightarrow> 'd bdb \<Rightarrow> unit res \<times> 'd bdb" where
  "recover_compaction E s =
     (case scratch_sealed_bucket E s of
        Inl e \<Rightarrow> (if e = EPERM then Inr () else Inl e, s)
      | Inr (bid, bbuf, image_len) \<Rightarrow>
          seqs (store_erase E s (bucket_offset s bid) (peb_size s)) (\<lambda>_ s.
          seqs (store_write E s (bucket_offset s bid) (take image_len bbuf)) (\<lambda>_ s.
            store_erase E s (peb_offset s BLOB_DB_SCRATCH_SECTOR) (peb_size s))))"

end
