(* ===== verification/Blob_Scan.thy ===== *)
theory Blob_Scan
  imports Blob_Bucket
begin

text \<open>
  The streaming walk against the resident one: on a store that keeps the promise of the seam,
  \<open>scan_bucket_for\<close> reports where the log of the bucket's image ends, whether it ends at a torn
  or a foreign slot, and the last matching slot; \<open>find_live_slot\<close> is the lookup of the \<open>live\<close>
  map. The chunked CRC of \<open>slot_crc_ok_on_flash\<close> is the CRC of the whole slot.
\<close>

section \<open>The environment the lemmas assume\<close>

text \<open>A store that keeps its promise, a CRC16 that can be continued over a split input, and a
  payload cap that fits the length field.\<close>

locale blob_env = blob_store "sto E" medium peb for E :: "'d env" and medium peb +
  assumes crc16_stream:
      "crc16_ccitt (bld E) (crc16_ccitt (bld E) c xs) ys = crc16_ccitt (bld E) c (xs @ ys)"
    and cap: "cap_ok (bld E)"

text \<open>The image of a bucket, and where a log ends.\<close>

definition bucket_img :: "('d \<Rightarrow> nat \<Rightarrow> byte) \<Rightarrow> 'd bdb \<Rightarrow> nat \<Rightarrow> byte list" where
  "bucket_img medium s bid = slice (medium (dev s)) (bucket_offset s bid) (peb_size s)"

definition torn_at :: "build \<Rightarrow> nat \<Rightarrow> nat \<Rightarrow> byte list \<Rightarrow> nat \<Rightarrow> bool" where
  "torn_at B pz wa img c \<longleftrightarrow>
     c + BLOB_DB_SLOT_OVERHEAD \<le> pz \<and> \<not> slot_foreign_at B pz wa img c \<and> img ! c \<noteq> 0xff"

definition head_at :: "byte list \<Rightarrow> nat \<Rightarrow> slot_head" where
  "head_at img off = slot_head_of (field off 12 img)"

text \<open>The last slot of an id below a limit.\<close>

primrec lastm :: "(nat \<times> slot_view \<times> bool) list \<Rightarrow> u64 \<Rightarrow> nat \<Rightarrow> (nat \<times> slot_view \<times> bool) option" where
  "lastm [] x limit = None"
| "lastm (y # ys) x limit =
     (case lastm ys x limit of
        Some z \<Rightarrow> Some z
      | None \<Rightarrow> if sv_id (fst (snd y)) = x \<and> fst y < limit then Some y else None)"

definition below :: "nat \<Rightarrow> (nat \<times> slot_view \<times> bool) list \<Rightarrow> (nat \<times> slot_view \<times> bool) list" where
  "below limit = filter (\<lambda>y. fst y < limit)"

text \<open>What a lookup may answer, given the newest intact entry of the id: its payload when it is
  not a tombstone; \<open>-ENOENT\<close> only when there is none or it is a tombstone; \<open>-ENOTSUP\<close> only when
  the log ends at a foreign slot. Any other error is one the store reported.\<close>

definition lookup_answers ::
  "build \<Rightarrow> nat \<Rightarrow> nat \<Rightarrow> byte list \<Rightarrow> entry option \<Rightarrow> (bucket_scan \<times> byte list) res \<Rightarrow> bool" where
  "lookup_answers B pz wa img nw r =
     (let c = log_end B pz wa img 16; fgn = slot_foreign_at B pz wa img c in
      case r of
        Inr (sc, p) \<Rightarrow>
          \<not> fgn \<and> \<not> foreign sc \<and> write_cursor sc = c \<and> tail_torn sc = torn_at B pz wa img c \<and>
          (\<exists>toff sh. target sc = Some (toff, sh) \<and> flags (hdr sh) AND NOT BLOB_DB_SLOT_F_KNOWN = 0) \<and>
          (\<exists>e. nw = Some e \<and> \<not> tomb e \<and> p = e_payload e)
      | Inl e \<Rightarrow>
          (e = ENOENT \<longrightarrow> \<not> fgn \<and> (\<forall>e. nw = Some e \<longrightarrow> tomb e)) \<and> (e = ENOTSUP \<longrightarrow> fgn))"

text \<open>Every read inside the bucket succeeds.\<close>

definition reads_ok :: "'d env \<Rightarrow> 'd bdb \<Rightarrow> nat \<Rightarrow> bool" where
  "reads_ok E s bid \<longleftrightarrow>
     (\<forall>k n. k + n \<le> peb_size s \<longrightarrow> (\<exists>bs. store_read E s (bucket_offset s bid + k) n = Inr bs))"

section \<open>The last match and the newest entry\<close>

lemma entry_at_sel [simp]:
  "e_id (entry_at img (off, sv, i)) = sv_id sv" "e_intact (entry_at img (off, sv, i)) = i"
  "e_flags (entry_at img (off, sv, i)) = sv_flags sv"
  "e_payload (entry_at img (off, sv, i)) = field (off + 12) (sv_val_len sv) img"
  by (simp_all add: entry_at_def)

lemma lastm_Some:
  "lastm ys x limit = Some (off, sv, i) \<Longrightarrow> (off, sv, i) \<in> set ys \<and> sv_id sv = x \<and> off < limit"
  by (induction ys) (auto split: option.splits if_splits)

lemma lastm_None:
  "lastm ys x limit = None \<Longrightarrow> newest (map (entry_at img) (below limit ys)) x = None"
  by (induction ys) (auto simp: below_def split: option.splits if_splits)

lemma lastm_intact:
  "lastm ys x limit = Some (off, sv, True) \<Longrightarrow>
   newest (map (entry_at img) (below limit ys)) x = Some (entry_at img (off, sv, True))"
proof (induction ys)
  case Nil
  then show ?case by simp
next
  case (Cons y ys)
  show ?case
  proof (cases "lastm ys x limit")
    case None
    with Cons.prems lastm_None [OF None, of img] show ?thesis
      by (auto simp: below_def split: if_splits)
  next
    case (Some z)
    with Cons show ?thesis by (auto simp: below_def)
  qed
qed

lemma newest_Cons_irrelevant:
  "e_id e \<noteq> x \<or> \<not> e_intact e \<Longrightarrow> newest (e # es) x = newest es x"
  by (auto split: option.splits)

lemma lastm_rotten:
  assumes "lastm ys x limit = Some (off, sv, False)" "sorted_wrt (\<lambda>y z. fst y < fst z) ys"
  shows "newest (map (entry_at img) (below limit ys)) x = newest (map (entry_at img) (below off ys)) x"
  using assms
proof (induction ys)
  case Nil
  then show ?case by simp
next
  case (Cons y ys)
  obtain oy svy iy where y: "y = (oy, svy, iy)" by (cases y)
  show ?case
  proof (cases "lastm ys x limit")
    case None
    with Cons.prems y have eq: "y = (off, sv, False)" "off < limit"
      by (auto split: if_splits)
    have "below off ys = []"
      using Cons.prems eq by (auto simp: below_def filter_empty_conv)
    moreover have "newest (map (entry_at img) (below limit ys)) x = None"
      by (rule lastm_None [OF None])
    ultimately show ?thesis using eq by (simp add: below_def)
  next
    case (Some z)
    with Cons.prems have l: "lastm ys x limit = Some (off, sv, False)" by simp
    with Cons have ih: "newest (map (entry_at img) (below limit ys)) x =
        newest (map (entry_at img) (below off ys)) x" by simp
    have "oy < off" "off < limit" using lastm_Some [OF l] Cons.prems y by auto
    with ih y show ?thesis by (simp add: below_def)
  qed
qed

lemma slots_sorted: "sorted_wrt (\<lambda>y z. fst y < fst z) (slots B pz wa buf off)"
proof (induction off rule: walk_induct [where B = B and pz = pz and wa = wa and buf = buf])
  case (stop off)
  then show ?case by (simp add: slots_walk)
next
  case (step off sv i)
  have "off < fst y" if "y \<in> set (slots B pz wa buf (off + sv_total_size sv))" for y
    using that slots_ge [of "fst y" "fst (snd y)" "snd (snd y)" B pz wa buf "off + sv_total_size sv"]
      slot_walk_at_advances [OF step(1)] by auto
  with step show ?case by (auto simp: slots_walk)
qed

lemma slots_walk_at:
  "(off1, sv, i) \<in> set (slots B pz wa buf off) \<Longrightarrow> slot_walk_at B pz wa buf off1 = Some (sv, i)"
  by (induction off rule: walk_induct [where B = B and pz = pz and wa = wa and buf = buf])
    (auto simp: slots_walk)

lemma below_all: "below pz (slots B pz wa buf off) = slots B pz wa buf off"
proof -
  have "fst y < pz" if "y \<in> set (slots B pz wa buf off)" for y
    using that
    by (induction off rule: walk_induct [where B = B and pz = pz and wa = wa and buf = buf])
      (auto simp: slots_walk BLOB_DB_SLOT_OVERHEAD_def dest: slot_walk_at_advances)
  then show ?thesis by (simp add: below_def)
qed

section \<open>A slot seen through its head\<close>

lemma head_at_fields:
  assumes "off + 12 \<le> length img"
  shows "hdr (head_at img off) = slot_hdr_of (field off 4 img)"
    and "head_id (head_at img off) = word_of_nat (of_le (field (off + 4) 8 img))"
  by (simp_all add: head_at_def slot_head_of_def field_def drop_take take_take min_def add.commute)

lemma slot_walk_at_head:
  assumes "slot_walk_at B pz wa img off = Some (sv, i)" "length img = pz"
  shows "head_id (head_at img off) = sv_id sv" "flags (hdr (head_at img off)) = sv_flags sv"
    and "val_len (hdr (head_at img off)) = sv_val_len sv"
    and "i \<longleftrightarrow> slot_crc16 B (hdr (head_at img off)) (sv_id sv) (field (off + 12) (sv_val_len sv) img) =
           word_of_nat (of_le (field (off + 12 + sv_val_len sv) 2 img))"
    and "off + 14 + sv_val_len sv \<le> pz"
proof -
  have "off + 12 \<le> length img"
    using slot_walk_at_advances [OF assms(1)] assms(2) by (simp add: BLOB_DB_SLOT_OVERHEAD_def)
  note h = head_at_fields [OF this]
  show "head_id (head_at img off) = sv_id sv" "flags (hdr (head_at img off)) = sv_flags sv"
    "val_len (hdr (head_at img off)) = sv_val_len sv"
    "i \<longleftrightarrow> slot_crc16 B (hdr (head_at img off)) (sv_id sv) (field (off + 12) (sv_val_len sv) img) =
           word_of_nat (of_le (field (off + 12 + sv_val_len sv) 2 img))"
    using assms(1) by (auto simp: h slot_walk_at_def Let_def split: if_splits)
  have "sv_total_size sv = slot_size_for wa (sv_val_len sv)"
    using assms(1) by (auto simp: slot_walk_at_def Let_def split: if_splits)
  then show "off + 14 + sv_val_len sv \<le> pz"
    using slot_walk_at_advances [OF assms(1)] slot_size_for_ge [of "sv_val_len sv" wa]
    by (simp add: BLOB_DB_SLOT_OVERHEAD_def)
qed

lemma slot_foreign_at_head:
  assumes "off + BLOB_DB_SLOT_OVERHEAD \<le> pz" "length img = pz"
  defines "sh \<equiv> head_at img off"
  shows "slot_foreign_at B pz wa img off \<longleftrightarrow> slot_foreign_head B pz wa (hdr sh) off \<and>
    slot_crc16 B (hdr sh) (head_id sh) (field (off + 12) (val_len (hdr sh)) img) =
      word_of_nat (of_le (field (off + 12 + val_len (hdr sh)) 2 img))"
proof -
  have "off + 12 \<le> length img" using assms by (simp add: BLOB_DB_SLOT_OVERHEAD_def)
  from head_at_fields [OF this] show ?thesis
    using assms(1) by (simp add: slot_foreign_at_def Let_def sh_def)
qed

lemma flags_head_at:
  "off + BLOB_DB_SLOT_OVERHEAD \<le> length img \<Longrightarrow> flags (hdr (head_at img off)) = img ! off"
  by (simp add: head_at_fields slot_hdr_of_def BLOB_DB_SLOT_OVERHEAD_def)

lemma slot_walk_at_None_head:
  assumes "slot_walk_at B pz wa img off = None" "off + BLOB_DB_SLOT_OVERHEAD \<le> pz" "length img = pz"
  shows "hdr_ends_log B (hdr (head_at img off)) \<or>
    pz < off + slot_size_for wa (val_len (hdr (head_at img off)))"
proof -
  have "off + 12 \<le> length img" using assms by (simp add: BLOB_DB_SLOT_OVERHEAD_def)
  from head_at_fields [OF this] show ?thesis
    using assms by (auto simp: slot_walk_at_def Let_def split: if_splits)
qed

lemma foreign_head_ends_log: "slot_foreign_head B pz wa h off \<Longrightarrow> hdr_ends_log B h"
  by (simp add: slot_foreign_head_def hdr_ends_log_def)

section \<open>Reading through the seam\<close>

lemma length_bucket_img [simp]: "length (bucket_img m s bid) = peb_size s"
  by (simp add: bucket_img_def)

context blob_env
begin

lemma read_img:
  assumes "store_read E s (bucket_offset s bid + k) n = Inr bs" "k + n \<le> peb_size s"
  shows "bs = field k n (bucket_img medium s bid)"
  using assms read_medium [of "dev s" "bucket_offset s bid + k" n bs]
  by (simp add: store_read_def bucket_img_def slice_field)

lemma store_read_errno:
  "store_read E s off n = Inl e \<Longrightarrow> e \<noteq> EBADMSG \<and> e \<noteq> ENOENT \<and> e \<noteq> ENOTSUP \<and> e \<noteq> EPERM"
  by (simp add: store_read_def read_errno)

lemma crc_chunks_spec:
  "crc_chunks E s at left c = Inr (c', at') \<Longrightarrow>
   at' = at + left \<and>
   c' = (if left = 0 then c else crc16_ccitt (bld E) c (slice (medium (dev s)) at left))"
proof (induction left arbitrary: at c rule: less_induct)
  case (less left)
  show ?case
  proof (cases "left = 0")
    case True
    with less.prems show ?thesis by (simp add: crc_chunks.simps [of E s at 0])
  next
    case False
    define n where "n = min left 64"
    from False less.prems obtain bs where rd: "store_read E s at n = Inr bs"
      and rec: "crc_chunks E s (at + n) (left - n) (crc16_ccitt (bld E) c bs) = Inr (c', at')"
      by (auto simp: crc_chunks.simps [of E s at left] Let_def n_def andthen_Inr)
    have bs: "bs = slice (medium (dev s)) at n"
      using rd by (simp add: store_read_def read_medium)
    have "left - n < left" "n \<le> left" using False by (auto simp: n_def)
    note ih = less.IH [OF this(1) rec] and n = this(2)
    show ?thesis
    proof (cases "left - n = 0")
      case True
      with ih n bs False show ?thesis by simp
    next
      case nz: False
      have "slice (medium (dev s)) at left = bs @ slice (medium (dev s)) (at + n) (left - n)"
        using slice_append [of "medium (dev s)" at n "left - n"] n bs by simp
      with ih nz n False show ?thesis by (simp add: crc16_stream)
    qed
  qed
qed

text \<open>The CRC read in chunks is the CRC of the slot.\<close>

lemma slot_crc_ok_spec:
  assumes ok: "slot_crc_ok_on_flash E s bid off sh = Inr ok"
    and fit: "off + 14 + val_len (hdr sh) \<le> peb_size s"
  defines "img \<equiv> bucket_img medium s bid" and "vl \<equiv> val_len (hdr sh)"
  shows "ok \<longleftrightarrow> slot_crc16 (bld E) (hdr sh) (head_id sh) (field (off + 12) vl img) =
    word_of_nat (of_le (field (off + 12 + vl) 2 img))"
proof -
  let ?at = "bucket_offset s bid + off + 12"
  let ?c = "crc16_ccitt (bld E) (crc16_ccitt (bld E) 0xffff (slot_hdr_bytes (hdr sh)))
    (le_bytes 8 (unat (head_id sh)))"
  from ok obtain c at stored where cc: "crc_chunks E s ?at vl ?c = Inr (c, at)"
    and rd: "store_read E s at 2 = Inr stored" and eq: "ok \<longleftrightarrow> c = word_of_nat (of_le stored)"
    by (auto simp: slot_crc_ok_on_flash_def Let_def andthen_Inr vl_def)
  have at: "at = bucket_offset s bid + (off + 12 + vl)"
    and c: "c = (if vl = 0 then ?c else crc16_ccitt (bld E) ?c (slice (medium (dev s)) ?at vl))"
    using crc_chunks_spec [OF cc] by auto
  have "stored = field (off + 12 + vl) 2 img"
    using read_img [of s bid "off + 12 + vl" 2 stored] rd at fit by (simp add: img_def vl_def)
  moreover have "slice (medium (dev s)) ?at vl = field (off + 12) vl img"
    using fit by (simp add: img_def bucket_img_def slice_field vl_def add.assoc)
  ultimately show ?thesis
    using eq c by (auto simp: slot_crc16_def Let_def vl_def)
qed

text \<open>One pass over a bucket reads the log of its image: where it stops, and how it steps.\<close>

lemma scan_from_read:
  assumes "scan_from E s bid x limit cursor tgt = Inr sc"
    and "cursor + BLOB_DB_SLOT_OVERHEAD \<le> peb_size s"
  shows "store_read E s (bucket_offset s bid + cursor) 12 =
      Inr (field cursor 12 (bucket_img medium s bid))"
proof -
  from assms obtain bs where rd: "store_read E s (bucket_offset s bid + cursor) 12 = Inr bs"
    by (auto simp: scan_from.simps [of E s bid x limit cursor] andthen_Inr)
  moreover have "cursor + 12 \<le> peb_size s" using assms(2) by (simp add: BLOB_DB_SLOT_OVERHEAD_def)
  ultimately show ?thesis using read_img by metis
qed

lemma scan_from_stop:
  assumes sc: "scan_from E s bid x limit cursor tgt = Inr sc"
  defines "img \<equiv> bucket_img medium s bid" and "pz \<equiv> peb_size s" and "wa \<equiv> write_align s"
  assumes w: "slot_walk_at (bld E) pz wa img cursor = None"
    and room: "cursor + BLOB_DB_SLOT_OVERHEAD \<le> pz"
  shows "write_cursor sc = cursor \<and> target sc = tgt \<and>
    foreign sc = slot_foreign_at (bld E) pz wa img cursor \<and>
    tail_torn sc = torn_at (bld E) pz wa img cursor"
proof -
  define sh where "sh = head_at img cursor"
  have len: "length img = pz" by (simp add: img_def pz_def)
  have fl: "flags (hdr sh) = img ! cursor" using flags_head_at room len by (simp add: sh_def)
  have rd: "store_read E s (bucket_offset s bid + cursor) 12 = Inr (field cursor 12 img)"
    using scan_from_read [OF sc] room by (simp add: pz_def img_def)
  have sh_of: "slot_head_of (field cursor 12 img) = sh" by (simp add: sh_def head_at_def)
  note fa = slot_foreign_at_head [OF room len, of "bld E" wa, folded sh_def]
  note unf = scan_from.simps [of E s bid x limit cursor tgt] rd sh_of Let_def
  consider (ff) "slot_foreign_head (bld E) pz wa (hdr sh) cursor"
    | (last) "\<not> slot_foreign_head (bld E) pz wa (hdr sh) cursor" "hdr_ends_log (bld E) (hdr sh)"
    | (big) "\<not> hdr_ends_log (bld E) (hdr sh)" "pz < cursor + slot_size_for wa (val_len (hdr sh))"
    using slot_walk_at_None_head [OF w room len] by (auto simp: sh_def)
  then show ?thesis
  proof cases
    case ff
    with sc room obtain ok where ok: "slot_crc_ok_on_flash E s bid cursor sh = Inr ok"
      and eq: "sc = \<lparr>write_cursor = cursor, target = tgt,
        tail_torn = (\<not> ok \<and> flags (hdr sh) \<noteq> 0xff), foreign = ok\<rparr>"
      by (auto simp: unf foreign_head_ends_log [OF ff] pz_def wa_def andthen_Inr)
    have "cursor + 14 + val_len (hdr sh) \<le> peb_size s"
      using ff slot_size_for_ge [of "val_len (hdr sh)" wa]
      by (simp add: slot_foreign_head_def BLOB_DB_SLOT_OVERHEAD_def pz_def)
    from slot_crc_ok_spec [OF ok this] ff fa have "slot_foreign_at (bld E) pz wa img cursor = ok"
      by (simp add: img_def)
    with eq fl room show ?thesis by (simp add: torn_at_def)
  next
    case last
    with sc room have "sc = \<lparr>write_cursor = cursor, target = tgt,
        tail_torn = (flags (hdr sh) \<noteq> 0xff), foreign = False\<rparr>"
      by (auto simp: unf pz_def wa_def)
    with last fa fl room show ?thesis by (simp add: torn_at_def)
  next
    case big
    with sc room have "sc = \<lparr>write_cursor = cursor, target = tgt, tail_torn = True, foreign = False\<rparr>"
      by (auto simp: unf pz_def wa_def)
    moreover have "\<not> slot_foreign_head (bld E) pz wa (hdr sh) cursor"
      using big(1) foreign_head_ends_log by blast
    moreover have "flags (hdr sh) \<noteq> 0xff" using big(1) by (auto simp: hdr_ends_log_def)
    ultimately show ?thesis using fa fl room by (simp add: torn_at_def)
  qed
qed

lemma scan_from_step:
  assumes sc: "scan_from E s bid x limit cursor tgt = Inr sc"
  defines "img \<equiv> bucket_img medium s bid" and "pz \<equiv> peb_size s" and "wa \<equiv> write_align s"
  assumes w: "slot_walk_at (bld E) pz wa img cursor = Some (sv, i)"
  shows "scan_from E s bid x limit (cursor + sv_total_size sv)
      (if sv_id sv = x \<and> cursor < limit then Some (cursor, head_at img cursor) else tgt) = Inr sc"
proof -
  have len: "length img = pz" by (simp add: img_def pz_def)
  have room: "cursor + BLOB_DB_SLOT_OVERHEAD \<le> pz" "cursor + 12 \<le> length img"
    using slot_walk_at_advances [OF w] len by (simp_all add: BLOB_DB_SLOT_OVERHEAD_def)
  have rd: "store_read E s (bucket_offset s bid + cursor) 12 = Inr (field cursor 12 img)"
    using scan_from_read [OF sc] room by (simp add: pz_def img_def)
  have "\<not> hdr_ends_log (bld E) (hdr (head_at img cursor))"
    "cursor + slot_size_for wa (val_len (hdr (head_at img cursor))) \<le> pz"
    "sv_total_size sv = slot_size_for wa (val_len (hdr (head_at img cursor)))"
    using w room(1) by (auto simp: head_at_fields [OF room(2)] slot_walk_at_def Let_def split: if_splits)
  then show ?thesis
    using sc rd room(1) slot_walk_at_head(1) [OF w len] head_at_def [of img cursor]
    by (auto simp: scan_from.simps [of E s bid x limit cursor tgt] Let_def pz_def wa_def)
qed

lemma scan_from_spec:
  assumes "scan_from E s bid x limit cursor tgt = Inr sc"
  defines "img \<equiv> bucket_img medium s bid" and "pz \<equiv> peb_size s" and "wa \<equiv> write_align s"
  shows "write_cursor sc = log_end (bld E) pz wa img cursor \<and>
    target sc = (case lastm (slots (bld E) pz wa img cursor) x limit of
       None \<Rightarrow> tgt | Some (off, sv, i) \<Rightarrow> Some (off, head_at img off)) \<and>
    foreign sc = slot_foreign_at (bld E) pz wa img (log_end (bld E) pz wa img cursor) \<and>
    tail_torn sc = torn_at (bld E) pz wa img (log_end (bld E) pz wa img cursor)"
  using assms(1)
proof (induction cursor arbitrary: tgt
    rule: walk_induct [where B = "bld E" and pz = pz and wa = wa and buf = img])
  case (stop cursor)
  have len: "length img = pz" by (simp add: img_def pz_def)
  have le: "log_end (bld E) pz wa img cursor = cursor" "slots (bld E) pz wa img cursor = []"
    using stop(1) by (simp_all add: log_end_walk slots_walk)
  show ?case
  proof (cases "cursor + BLOB_DB_SLOT_OVERHEAD > pz")
    case True
    with stop(2) le show ?thesis
      by (auto simp: scan_from.simps [of E s bid x limit cursor] pz_def torn_at_def slot_foreign_at_def)
  next
    case False
    then have room: "cursor + BLOB_DB_SLOT_OVERHEAD \<le> pz" "cursor + 12 \<le> pz"
      by (simp_all add: BLOB_DB_SLOT_OVERHEAD_def)
    from scan_from_stop [OF stop(2)] stop(1) room le show ?thesis
      by (simp add: img_def pz_def wa_def)
  qed
next
  case (step cursor sv i)
  have len: "length img = pz" by (simp add: img_def pz_def)
  note w = step(1)
  note rest = scan_from_step [OF step(3), folded img_def pz_def wa_def, OF w]
  from step(2) [OF rest] w show ?case
    by (auto simp: log_end_walk slots_walk split: option.splits)
qed

text \<open>Verifying the slot a walk stepped over.\<close>

lemma slot_verify_spec:
  assumes w: "slot_walk_at (bld E) (peb_size s) (write_align s) (bucket_img medium s bid) off = Some (sv, i)"
  defines "img \<equiv> bucket_img medium s bid"
  shows "slot_verify E s bid off (head_at img off) = Inr p \<Longrightarrow>
      i \<and> p = field (off + 12) (sv_val_len sv) img"
    and "slot_verify E s bid off (head_at img off) = Inl e \<Longrightarrow>
      if e = EBADMSG then \<not> i else e \<noteq> ENOENT \<and> e \<noteq> ENOTSUP"
proof -
  let ?poff = "bucket_offset s bid + off + 12" and ?vl = "sv_val_len sv"
  have len: "length img = peb_size s" by (simp add: img_def)
  note h = slot_walk_at_head [OF w [folded img_def] len]
  have fit: "off + 12 + ?vl + 2 \<le> peb_size s" using h(5) by simp
  have rp: "dst = field (off + 12) ?vl img" if "store_read E s ?poff ?vl = Inr dst" for dst
    using read_img [of s bid "off + 12" ?vl dst] that fit by (simp add: img_def add.assoc)
  have rc: "st = field (off + 12 + ?vl) 2 img" if "store_read E s (?poff + ?vl) 2 = Inr st" for st
    using read_img [of s bid "off + 12 + ?vl" 2 st] that fit by (simp add: img_def add.assoc)
  have pre: "(if ?vl > 0 then store_read E s ?poff ?vl else Inr []) = Inr dst \<Longrightarrow>
      dst = field (off + 12) ?vl img" for dst
    using rp [of dst] by (cases "?vl = 0") (auto simp: field_def)
  note unf = slot_verify_def [of E s bid off "head_at img off"] Let_def h(1,3)
  show "i \<and> p = field (off + 12) (sv_val_len sv) img"
    if "slot_verify E s bid off (head_at img off) = Inr p"
  proof -
    from that obtain dst st where
        "(if ?vl > 0 then store_read E s ?poff ?vl else Inr []) = Inr dst"
        "store_read E s (?poff + ?vl) 2 = Inr st" "p = dst"
        "slot_crc16 (bld E) (hdr (head_at img off)) (sv_id sv) dst = word_of_nat (of_le st)"
      unfolding unf
      by (cases "if ?vl > 0 then store_read E s ?poff ?vl else Inr []";
          cases "store_read E s (?poff + ?vl) 2") (auto split: if_splits)
    then show ?thesis using pre rc h(4) by simp
  qed
  show "if e = EBADMSG then \<not> i else e \<noteq> ENOENT \<and> e \<noteq> ENOTSUP"
    if v: "slot_verify E s bid off (head_at img off) = Inl e"
  proof -
    consider "(if ?vl > 0 then store_read E s ?poff ?vl else Inr []) = Inl e"
      | "store_read E s (?poff + ?vl) 2 = Inl e"
      | dst st where "(if ?vl > 0 then store_read E s ?poff ?vl else Inr []) = Inr dst"
        "store_read E s (?poff + ?vl) 2 = Inr st" "e = EBADMSG"
        "slot_crc16 (bld E) (hdr (head_at img off)) (sv_id sv) dst \<noteq> word_of_nat (of_le st)"
      using v unfolding unf
      by (cases "if ?vl > 0 then store_read E s ?poff ?vl else Inr []";
          cases "store_read E s (?poff + ?vl) 2") (auto split: if_splits)
    then show ?thesis
      using pre rc h(4) by cases (auto dest: store_read_errno split: if_splits)
  qed
qed

lemma crc_chunks_errno:
  "crc_chunks E s at left c = Inl e \<Longrightarrow> e \<noteq> ENOENT \<and> e \<noteq> ENOTSUP"
proof (induction left arbitrary: at c rule: less_induct)
  case (less left)
  have dec: "left - min left 64 < left" if "left > 0" using that by simp
  show ?case
    using less.prems
    by (auto simp: crc_chunks.simps [of E s at left] Let_def andthen_def
        split: if_splits sum.splits dest: store_read_errno less.IH [OF dec])
qed

lemma slot_crc_errno: "slot_crc_ok_on_flash E s bid off sh = Inl e \<Longrightarrow> e \<noteq> ENOENT \<and> e \<noteq> ENOTSUP"
  by (auto simp: slot_crc_ok_on_flash_def Let_def andthen_def split: sum.splits
      dest: store_read_errno crc_chunks_errno)

lemma scan_from_errno:
  "scan_from E s bid x limit cursor tgt = Inl e \<Longrightarrow> e \<noteq> ENOENT \<and> e \<noteq> ENOTSUP"
proof (induction "peb_size s - cursor" arbitrary: cursor tgt x e rule: less_induct)
  case less
  show ?case
  proof (cases "cursor + BLOB_DB_SLOT_OVERHEAD > peb_size s")
    case True
    with less.prems show ?thesis by (simp add: scan_from.simps [of E s bid x limit cursor])
  next
    case False
    have dec: "peb_size s - (cursor + slot_size_for wa n) < peb_size s - cursor" for wa n
      using False by (intro diff_less_mono2) (simp_all add: BLOB_DB_SLOT_OVERHEAD_def)
    show ?thesis
      using less.prems False
      by (auto simp: scan_from.simps [of E s bid x limit cursor] Let_def andthen_def
          dest: store_read_errno slot_crc_errno less.hyps [OF dec]
          split: sum.splits if_splits)
  qed
qed

text \<open>The walk behind a lookup answers from the newest intact slot below its limit.\<close>

lemma walk_live_slot_spec:
  fixes s :: "'d bdb" and bid :: nat
  defines "img \<equiv> bucket_img medium s bid"
  shows "lookup_answers (bld E) (peb_size s) (write_align s) img
    (newest (map (entry_at img) (below limit (slots (bld E) (peb_size s) (write_align s) img 16))) x)
    (walk_live_slot E s bid x limit)"
proof (induction limit rule: less_induct)
  case (less limit)
  let ?B = "bld E" and ?pz = "peb_size s" and ?wa = "write_align s"
  let ?sl = "slots ?B ?pz ?wa img 16"
  let ?nw = "\<lambda>limit. newest (map (entry_at img) (below limit ?sl)) x"
  note unf = walk_live_slot.simps [of E s bid x limit]
  show ?case
  proof (cases "scan_bucket_for E s bid x limit")
    case (Inl e)
    then have "e \<noteq> ENOENT \<and> e \<noteq> ENOTSUP" using scan_from_errno by (simp add: scan_bucket_for_def)
    with Inl show ?thesis by (simp add: unf lookup_answers_def)
  next
    case (Inr sc)
    note sp = scan_from_spec [OF Inr [unfolded scan_bucket_for_def BLOB_DB_BUCKET_DATA_OFF_def], folded img_def]
    show ?thesis
    proof (cases "foreign sc")
      case True
      with Inr sp show ?thesis by (simp add: unf lookup_answers_def Let_def)
    next
      case nf: False
      show ?thesis
      proof (cases "lastm ?sl x limit")
        case None
        with Inr sp nf lastm_None [OF None, of img] show ?thesis
          by (simp add: unf lookup_answers_def Let_def)
      next
        case (Some y)
        obtain off sv i where y: "y = (off, sv, i)" by (cases y)
        note l = Some [unfolded y]
        have mem: "(off, sv, i) \<in> set ?sl" and lt: "off < limit" using lastm_Some [OF l] by blast+
        have w: "slot_walk_at ?B ?pz ?wa img off = Some (sv, i)" by (rule slots_walk_at [OF mem])
        have fl: "flags (hdr (head_at img off)) = sv_flags sv"
          by (rule slot_walk_at_head(2) [OF w]) (simp add: img_def)
        have known: "flags (hdr (head_at img off)) AND NOT BLOB_DB_SLOT_F_KNOWN = 0"
          using w by (auto simp: fl slot_walk_at_def hdr_ends_log_def Let_def split: if_splits)
        have tgt: "target sc = Some (off, head_at img off)" using sp l by simp
        show ?thesis
        proof (cases "slot_verify E s bid off (head_at img off)")
          case (Inr p)
          from slot_verify_spec(1) [OF w [unfolded img_def], folded img_def, OF Inr]
          have "i" "p = field (off + 12) (sv_val_len sv) img" by blast+
          with l have "?nw limit = Some (entry_at img (off, sv, True))"
            and p: "p = e_payload (entry_at img (off, sv, True))" by (auto intro: lastm_intact)
          with \<open>scan_bucket_for E s bid x limit = Inr sc\<close> sp [THEN conjunct1] sp [THEN conjunct2, THEN conjunct2]
            nf tgt Inr fl known show ?thesis
            by (auto simp: unf lookup_answers_def Let_def tomb_def)
        next
          case (Inl e)
          note v = slot_verify_spec(2) [OF w [unfolded img_def], folded img_def, OF Inl]
          show ?thesis
          proof (cases "e = EBADMSG")
            case True
            with v have "\<not> i" by simp
            with l have "?nw limit = ?nw off" by (intro lastm_rotten [OF _ slots_sorted]) simp
            with less [OF lt] \<open>scan_bucket_for E s bid x limit = Inr sc\<close> nf tgt Inl True show ?thesis
              by (simp add: unf)
          next
            case False
            with v \<open>scan_bucket_for E s bid x limit = Inr sc\<close> nf tgt Inl show ?thesis
              by (simp add: unf lookup_answers_def)
          qed
        qed
      qed
    qed
  qed
qed

text \<open>A lookup is the lookup of the map the bucket's log denotes.\<close>

lemma find_live_slot_spec:
  fixes s :: "'d bdb" and bid :: nat
  defines "img \<equiv> bucket_img medium s bid"
  shows "lookup_answers (bld E) (peb_size s) (write_align s) img
    (newest (entries (bld E) (peb_size s) (write_align s) img 16) x) (find_live_slot E s bid x)"
  using walk_live_slot_spec [of s bid "peb_size s" x]
  by (simp add: find_live_slot_def below_all entries_def img_def)

end

text \<open>Where every read of the bucket succeeds, a lookup answers: the only errors left are
  \<open>-ENOENT\<close> and \<open>-ENOTSUP\<close>.\<close>

lemma crc_chunks_progress:
  assumes "reads_ok E s bid" "k + left \<le> peb_size s"
  shows "\<exists>c'. crc_chunks E s (bucket_offset s bid + k) left c = Inr (c', bucket_offset s bid + k + left)"
  using assms(2)
proof (induction left arbitrary: k c rule: less_induct)
  case (less left)
  show ?case
  proof (cases "left = 0")
    case True
    then show ?thesis by (simp add: crc_chunks.simps)
  next
    case False
    define n where "n = min left 64"
    have n: "left - n < left" "n \<le> left" "k + n \<le> peb_size s" "k + n + (left - n) \<le> peb_size s"
      using False less.prems by (auto simp: n_def)
    obtain bs where "store_read E s (bucket_offset s bid + k) n = Inr bs"
      using assms(1) n(3) by (auto simp: reads_ok_def)
    with less.IH [OF n(1,4)] False n(2) show ?thesis
      by (simp add: crc_chunks.simps [of E s "bucket_offset s bid + k" left] Let_def
          n_def [symmetric] add.assoc)
  qed
qed

lemma slot_crc_progress:
  assumes "reads_ok E s bid" "off + 14 + val_len (hdr sh) \<le> peb_size s"
  shows "\<exists>ok. slot_crc_ok_on_flash E s bid off sh = Inr ok"
proof -
  let ?k = "off + 12" and ?vl = "val_len (hdr sh)"
  obtain c' where "crc_chunks E s (bucket_offset s bid + ?k) ?vl (crc16_ccitt (bld E)
        (crc16_ccitt (bld E) 0xffff (slot_hdr_bytes (hdr sh))) (le_bytes 8 (unat (head_id sh)))) =
      Inr (c', bucket_offset s bid + ?k + ?vl)"
    using crc_chunks_progress [OF assms(1), of ?k ?vl] assms(2) by fastforce
  moreover obtain bs where "store_read E s (bucket_offset s bid + (?k + ?vl)) 2 = Inr bs"
  proof -
    have "?k + ?vl + 2 \<le> peb_size s" using assms(2) by simp
    with assms(1) show ?thesis using reads_ok_def that by blast
  qed
  ultimately show ?thesis
    by (simp add: slot_crc_ok_on_flash_def Let_def add.assoc)
qed

lemma scan_from_progress:
  assumes ok: "reads_ok E s bid"
  shows "\<exists>sc. scan_from E s bid x limit cursor tgt = Inr sc"
proof (induction "peb_size s - cursor" arbitrary: cursor tgt rule: less_induct)
  case less
  show ?case
  proof (cases "cursor + BLOB_DB_SLOT_OVERHEAD > peb_size s")
    case True
    then show ?thesis by (simp add: scan_from.simps)
  next
    case False
    then have "cursor + 12 \<le> peb_size s" by (simp add: BLOB_DB_SLOT_OVERHEAD_def)
    with ok obtain bs where rd: "store_read E s (bucket_offset s bid + cursor) 12 = Inr bs"
      by (auto simp: reads_ok_def)
    have dec: "peb_size s - (cursor + slot_size_for wa n) < peb_size s - cursor" for wa n
      using False by (intro diff_less_mono2) (simp_all add: BLOB_DB_SLOT_OVERHEAD_def)
    have crc: "\<exists>ok. slot_crc_ok_on_flash E s bid cursor sh = Inr ok"
      if "slot_foreign_head (bld E) (peb_size s) (write_align s) (hdr sh) cursor" for sh
      using that slot_size_for_ge [of "val_len (hdr sh)" "write_align s"]
      by (intro slot_crc_progress [OF ok]) (simp add: slot_foreign_head_def BLOB_DB_SLOT_OVERHEAD_def)
    show ?thesis
      using False rd crc [of "slot_head_of bs"] less.hyps [OF dec]
      by (auto simp: scan_from.simps [of E s bid x limit cursor tgt] Let_def)
  qed
qed

context blob_env
begin

lemma slot_verify_progress:
  assumes ok: "reads_ok E s bid"
    and w: "slot_walk_at (bld E) (peb_size s) (write_align s) (bucket_img medium s bid) off = Some (sv, i)"
    and v: "slot_verify E s bid off (head_at (bucket_img medium s bid) off) = Inl e"
  shows "e = EBADMSG"
proof -
  let ?vl = "val_len (hdr (head_at (bucket_img medium s bid) off))"
  have fit: "off + 14 + ?vl \<le> peb_size s"
    using slot_walk_at_head(3,5) [OF w] by simp
  have "off + 12 + ?vl \<le> peb_size s" "off + 12 + ?vl + 2 \<le> peb_size s" using fit by simp_all
  then obtain b1 b2 where
    "store_read E s (bucket_offset s bid + (off + 12)) ?vl = Inr b1"
    "store_read E s (bucket_offset s bid + (off + 12 + ?vl)) 2 = Inr b2"
    using ok unfolding reads_ok_def by metis
  with v show ?thesis
    by (auto simp: slot_verify_def Let_def add.assoc split: if_splits)
qed

lemma walk_live_slot_progress:
  assumes ok: "reads_ok E s bid"
  shows "walk_live_slot E s bid x limit = Inl e \<Longrightarrow> e = ENOENT \<or> e = ENOTSUP"
proof (induction limit rule: less_induct)
  case (less limit)
  let ?img = "bucket_img medium s bid"
  obtain sc where sc: "scan_from E s bid x limit 16 None = Inr sc"
    using scan_from_progress [OF ok] by blast
  then have sc': "scan_bucket_for E s bid x limit = Inr sc"
    by (simp add: scan_bucket_for_def BLOB_DB_BUCKET_DATA_OFF_def)
  note sp = scan_from_spec [OF sc]
  note unf = walk_live_slot.simps [of E s bid x limit] sc'
  show ?case
  proof (cases "lastm (slots (bld E) (peb_size s) (write_align s) ?img 16) x limit")
    case None
    with less.prems sp show ?thesis by (auto simp: unf split: if_splits)
  next
    case (Some y)
    obtain off sv i where y: "y = (off, sv, i)" by (cases y)
    note l = lastm_Some [OF Some [unfolded y]]
    have tgt: "target sc = Some (off, head_at ?img off)" using sp Some y by simp
    note vp = slot_verify_progress [OF ok slots_walk_at]
    show ?thesis
      using less.prems tgt l vp less.IH [of off]
      by (auto simp: unf split: if_splits sum.splits)
  qed
qed

lemma find_live_slot_progress:
  "reads_ok E s bid \<Longrightarrow> find_live_slot E s bid x = Inl e \<Longrightarrow> e = ENOENT \<or> e = ENOTSUP"
  by (simp add: find_live_slot_def walk_live_slot_progress)

end

end
