(* ===== verification/Blob_Frame.thy ===== *)
theory Blob_Frame
  imports Blob_Scan
begin

text \<open>
  What the writing primitives leave behind. \<open>touches\<close> is the frame of an operation: the state
  differs in its device only, and every erase block outside a given set reads as before. Each
  primitive then gets its effect on the image of the bucket it works on: a format leaves an
  empty log, an append adds one entry, compaction keeps the live entries.
\<close>

section \<open>Frames\<close>

definition peb_img :: "('d \<Rightarrow> nat \<Rightarrow> byte) \<Rightarrow> 'd bdb \<Rightarrow> nat \<Rightarrow> byte list" where
  "peb_img medium s p = slice (medium (dev s)) (peb_offset s p) (peb_size s)"

definition touches ::
  "('d \<Rightarrow> nat \<Rightarrow> byte) \<Rightarrow> ('d \<Rightarrow> nat) \<Rightarrow> nat set \<Rightarrow> 'd bdb \<Rightarrow> 'd bdb \<Rightarrow> bool" where
  "touches medium peb P s s' \<longleftrightarrow>
     s' = s\<lparr>dev := dev s'\<rparr> \<and> peb (dev s') = peb (dev s) \<and>
     (\<forall>p. p \<notin> P \<longrightarrow> peb_img medium s' p = peb_img medium s p)"

text \<open>Geometry a mount has validated (\<open>store_open_and_validate\<close>).\<close>

definition geom_ok :: "build \<Rightarrow> ('d \<Rightarrow> nat) \<Rightarrow> 'd bdb \<Rightarrow> bool" where
  "geom_ok B peb s \<longleftrightarrow>
     peb_size s = peb (dev s) \<and> 0 < n_buckets s \<and> n_buckets s < 2 ^ 16 \<and>
     write_align s \<le> BLOB_DB_MAX_WRITE_ALIGN \<and> (\<exists>k. write_align s = 2 ^ k) \<and>
     128 + 2 * round_up 48 (write_align s) \<le> peb_size s \<and> peb_size s < 2 ^ 32 \<and>
     MAX_PAYLOAD_LEN B \<le> (peb_size s - 16) div 2 - 14"

lemma bucket_img_peb: "bucket_img m s bid = peb_img m s (BLOB_DB_FIRST_BUCKET + bid)"
  by (simp add: bucket_img_def peb_img_def bucket_offset_def)

lemma length_peb_img [simp]: "length (peb_img m s p) = peb_size s"
  by (simp add: peb_img_def)

lemma touchesD:
  assumes "touches m peb P s s'"
  shows "peb_size s' = peb_size s" "write_align s' = write_align s" "n_buckets s' = n_buckets s"
    "mounted s' = mounted s" "wedged s' = wedged s" "next_id s' = next_id s"
    "next_id_hint s' = next_id_hint s" "peb_offset s' = peb_offset s"
    "bucket_offset s' = bucket_offset s" "id_to_bucket s' = id_to_bucket s"
    "geom_ok B peb s' = geom_ok B peb s"
proof -
  from assms obtain d where s': "s' = s\<lparr>dev := d\<rparr>" "peb d = peb (dev s)"
    unfolding touches_def by (metis bdb.select_convs(1) bdb.surjective bdb.update_convs(1))
  then show "peb_size s' = peb_size s" "write_align s' = write_align s" "n_buckets s' = n_buckets s"
    "mounted s' = mounted s" "wedged s' = wedged s" "next_id s' = next_id s"
    "next_id_hint s' = next_id_hint s" "peb_offset s' = peb_offset s"
    "bucket_offset s' = bucket_offset s" "id_to_bucket s' = id_to_bucket s"
    "geom_ok B peb s' = geom_ok B peb s"
    by (auto simp: peb_offset_def bucket_offset_def id_to_bucket_def geom_ok_def fun_eq_iff)
qed

lemma touches_peb: "touches m peb P s s' \<Longrightarrow> peb (dev s') = peb (dev s)"
  by (simp add: touches_def)

lemma touches_img: "touches m peb P s s' \<Longrightarrow> p \<notin> P \<Longrightarrow> peb_img m s' p = peb_img m s p"
  by (simp add: touches_def)

lemma touches_refl [simp]: "touches m peb P s s"
  by (simp add: touches_def)

lemma touches_trans:
  assumes "touches m peb P s t" "touches m peb Q t u"
  shows "touches m peb (P \<union> Q) s u"
proof -
  from assms(1) have t: "t = s\<lparr>dev := dev t\<rparr>" by (simp add: touches_def)
  from assms(2) have "u = t\<lparr>dev := dev u\<rparr>" by (simp add: touches_def)
  also have "\<dots> = s\<lparr>dev := dev u\<rparr>" by (subst t) simp
  finally show ?thesis using assms by (simp add: touches_def)
qed

lemma touches_mono: "touches m peb P s t \<Longrightarrow> P \<subseteq> Q \<Longrightarrow> touches m peb Q s t"
  by (auto simp: touches_def)

lemma touches_img_bucket:
  "touches m peb P s s' \<Longrightarrow> BLOB_DB_FIRST_BUCKET + b \<notin> P \<Longrightarrow> bucket_img m s' b = bucket_img m s b"
  by (simp add: bucket_img_peb touches_img)

lemma peb_disjoint:
  "p \<noteq> q \<Longrightarrow> peb_offset s p + peb_size s \<le> peb_offset s q \<or> peb_offset s q + peb_size s \<le> peb_offset s p"
proof -
  have "a * peb_size s + peb_size s \<le> b * peb_size s" if "a < b" for a b
    using mult_le_mono1 [of "Suc a" b "peb_size s"] that by simp
  then show "p \<noteq> q \<Longrightarrow> ?thesis" by (metis linorder_neqE_nat peb_offset_def)
qed

section \<open>The seal\<close>

lemma or_wedge_Inr [res_simps]: "or_wedge r = (Inr x, s) \<longleftrightarrow> r = (Inr x, s)"
  by (cases r; cases "fst r") (auto simp: or_wedge_def)

lemma scratch_seal_len_ge: "16 \<le> scratch_seal_len s"
  by (simp add: scratch_seal_len_def round_up_ge_any)

lemma length_seal_bytes [simp]: "length (seal_bytes B img) = 16"
  by (simp add: seal_bytes_def seal_prefix_def SCRATCH_MAGIC_def)

section \<open>The primitives\<close>

context blob_env
begin

lemma store_write_touches:
  assumes w: "store_write E s (peb_offset s p + k) buf = (r, s')" and fit: "k + length buf \<le> peb_size s"
  shows "touches medium peb {p} s s'"
proof -
  from w obtain d where d: "blob_db_store_write (sto E) (dev s) (peb_offset s p + k) buf = (r, d)"
    and s': "s' = s\<lparr>dev := d\<rparr>" by (auto simp: store_write_def split: prod.splits)
  have "peb_img medium s' q = peb_img medium s q" if "q \<noteq> p" for q
    using write_slice_outside [OF d] peb_disjoint [OF that, of s] fit s'
    by (auto simp: peb_img_def peb_offset_def)
  then show ?thesis using write_peb [OF d] s' by (simp add: touches_def)
qed

lemma store_write_img:
  assumes w: "store_write E s (peb_offset s p + k) buf = (Inr (), s')"
    and fit: "k + length buf \<le> peb_size s"
    and er: "\<And>i. i < length buf \<Longrightarrow> peb_img medium s p ! (k + i) = 0xff \<or> buf ! i = 0"
  shows "peb_img medium s' p = splice (peb_img medium s p) k buf"
proof -
  from w obtain d where d: "blob_db_store_write (sto E) (dev s) (peb_offset s p + k) buf = (Inr (), d)"
    and s': "s' = s\<lparr>dev := d\<rparr>" by (auto simp: store_write_def split: prod.splits)
  have "medium (dev s) (peb_offset s p + k + i) = 0xff \<or> buf ! i = 0" if "i < length buf" for i
    using er [OF that] that fit by (simp add: peb_img_def add.assoc)
  from write_slice_inside [OF d fit this] s' show ?thesis
    by (simp add: peb_img_def peb_offset_def)
qed

lemma store_erase_touches:
  assumes w: "store_erase E s (peb_offset s p) (peb_size s) = (r, s')"
  shows "touches medium peb {p} s s'"
proof -
  from w obtain d where d: "blob_db_store_erase (sto E) (dev s) (peb_offset s p) (peb_size s) = (r, d)"
    and s': "s' = s\<lparr>dev := d\<rparr>" by (auto simp: store_erase_def split: prod.splits)
  have "peb_img medium s' q = peb_img medium s q" if "q \<noteq> p" for q
    using erase_slice_outside [OF d] peb_disjoint [OF that, of s] s'
    by (auto simp: peb_img_def peb_offset_def)
  then show ?thesis using erase_peb [OF d] s' by (simp add: touches_def)
qed

lemma store_erase_img:
  assumes "store_erase E s (peb_offset s p) (peb_size s) = (Inr (), s')"
  shows "peb_img medium s' p = replicate (peb_size s) 0xff"
  using assms erase_slice_inside [of "dev s" "peb_offset s p" "peb_size s"]
  by (auto simp: store_erase_def peb_img_def peb_offset_def split: prod.splits)

lemma store_replace_touches:
  assumes w: "store_replace E s (peb_offset s p) buf = (r, s')" and pz: "peb_size s = peb (dev s)"
    and fit: "length buf \<le> peb_size s"
  shows "touches medium peb {p} s s'"
proof -
  from w obtain d where d: "blob_db_store_replace (sto E) (dev s) (peb_offset s p) buf = (r, d)"
    and s': "s' = s\<lparr>dev := d\<rparr>" by (auto simp: store_replace_def split: prod.splits)
  have "peb_img medium s' q = peb_img medium s q" if "q \<noteq> p" for q
    using replace_slice_outside [OF d] peb_disjoint [OF that, of s] fit pz s'
    by (auto simp: peb_img_def peb_offset_def)
  then show ?thesis using replace_peb [OF d] s' by (simp add: touches_def)
qed

lemma store_replace_img:
  assumes "store_replace E s (peb_offset s p) buf = (Inr (), s')" "peb_size s = peb (dev s)"
    "length buf \<le> peb_size s"
  shows "peb_img medium s' p = buf @ replicate (peb_size s - length buf) 0xff"
  using assms replace_contents [of "dev s" "peb_offset s p" buf]
  by (auto simp: store_replace_def peb_img_def peb_offset_def split: prod.splits)

end

section \<open>A well-formed bucket\<close>

text \<open>A slot is programmed from its first byte on, so where the byte at the end of the log is
  erased, everything after it is. This is what the writers rely on when the walk reports a
  clean end.\<close>

definition tail_ok :: "build \<Rightarrow> nat \<Rightarrow> nat \<Rightarrow> byte list \<Rightarrow> bool" where
  "tail_ok B pz wa img \<longleftrightarrow>
     (let c = log_end B pz wa img 16 in
      c + BLOB_DB_SLOT_OVERHEAD \<le> pz \<and> img ! c = 0xff \<longrightarrow> all_erased (drop c img))"

text \<open>A bucket after a successful write: valid header, these entries, erased after them.\<close>

definition log_is :: "'d env \<Rightarrow> 'd bdb \<Rightarrow> nat \<Rightarrow> byte list \<Rightarrow> entry list \<Rightarrow> nat \<Rightarrow> bool" where
  "log_is E s bid img es c \<longleftrightarrow>
     length img = peb_size s \<and> bucket_hdr_valid (bld E) img bid \<and>
     entries (bld E) (peb_size s) (write_align s) img 16 = es \<and>
     log_end (bld E) (peb_size s) (write_align s) img 16 = c \<and> all_erased (drop c img)"

lemma log_is_tail_ok: "log_is E s bid img es c \<Longrightarrow> tail_ok (bld E) (peb_size s) (write_align s) img"
  by (simp add: log_is_def tail_ok_def Let_def)

lemma bucket_hdr_valid_take:
  "take 16 buf = take 16 buf' \<Longrightarrow> bucket_hdr_valid B buf bid = bucket_hdr_valid B buf' bid"
  by (simp add: bucket_hdr_valid_def)

lemma log_is_fresh:
  assumes "bid < 2 ^ 16" "16 \<le> peb_size s"
  shows "log_is E s bid (bucket_hdr_bytes (bld E) bid g @ replicate (peb_size s - 16) 0xff) [] 16"
proof -
  let ?img = "bucket_hdr_bytes (bld E) bid g @ replicate (peb_size s - 16) 0xff"
  have "slot_walk_at (bld E) (peb_size s) (write_align s) ?img 16 = None"
    by (rule slot_walk_at_erased) (use assms in \<open>simp_all add: nth_append\<close>)
  moreover have "bucket_hdr_valid (bld E) ?img bid"
    by (rule bucket_hdr_valid_bytes [OF assms(1)]) simp
  ultimately show ?thesis using assms(2) by (simp add: log_is_def entries_walk log_end_walk)
qed

lemma log_is_append:
  assumes l: "log_is E s bid img es c" and ex: "written_flags ex"
    and lp: "length p \<le> MAX_PAYLOAD_LEN (bld E)" and cap: "cap_ok (bld E)"
    and fit: "c + slot_size_for (write_align s) (length p) \<le> peb_size s"
  shows "log_is E s bid (splice img c (slot_bytes (bld E) (write_align s) x ex p))
    (es @ [written_entry x ex p]) (c + slot_size_for (write_align s) (length p))"
proof -
  let ?B = "bld E" and ?pz = "peb_size s" and ?wa = "write_align s"
  have len: "length img = ?pz" and le: "log_end ?B ?pz ?wa img 16 = c"
    and er: "all_erased (drop c img)" and es: "entries ?B ?pz ?wa img 16 = es"
    and hv: "bucket_hdr_valid ?B img bid" using l by (simp_all add: log_is_def)
  have "16 \<le> c" using log_end_ge [of 16 ?B ?pz ?wa img] le by simp
  then have "take 16 (splice img c (slot_bytes ?B ?wa x ex p)) = take 16 img"
    using fit len by (simp add: splice_def min_def)
  then have "bucket_hdr_valid ?B (splice img c (slot_bytes ?B ?wa x ex p)) bid"
    using hv bucket_hdr_valid_take by metis
  with append_entries [of img ?pz ?B ?wa 16 ex p x] len le er es ex lp cap fit
  show ?thesis by (simp add: log_is_def)
qed

context blob_env
begin

lemma geom_bid: "geom_ok (bld E) peb s \<Longrightarrow> bid < n_buckets s \<Longrightarrow> bid < 2 ^ 16 \<and> 16 \<le> peb_size s"
  by (simp add: geom_ok_def)

lemma format_bucket_spec:
  assumes f: "format_bucket E s bid = (Inr (), s')" and g: "geom_ok (bld E) peb s"
    and bid: "bid < n_buckets s"
  shows "touches medium peb {BLOB_DB_FIRST_BUCKET + bid} s s' \<and>
    log_is E s bid (bucket_img medium s' bid) [] 16"
proof -
  have pz: "peb_size s = peb (dev s)" "16 \<le> peb_size s" "bid < 2 ^ 16"
    using g geom_bid [OF g bid] by (auto simp: geom_ok_def)
  note f' = f [unfolded format_bucket_def bucket_offset_def]
  show ?thesis
    using store_replace_touches [OF f' pz(1)] store_replace_img [OF f' pz(1)] pz
      log_is_fresh [OF pz(3,2), of E 1]
    by (simp add: bucket_img_peb)
qed

lemma append_slot_spec:
  assumes a: "append_slot E s bid c x ex p = (Inr (), s')"
    and l: "log_is E s bid (bucket_img medium s bid) es c" and ex: "written_flags ex"
    and fit: "c + slot_size_for (write_align s) (length p) \<le> peb_size s"
  shows "touches medium peb {BLOB_DB_FIRST_BUCKET + bid} s s' \<and>
    log_is E s bid (bucket_img medium s' bid) (es @ [written_entry x ex p])
      (c + slot_size_for (write_align s) (length p)) \<and> length p \<le> MAX_PAYLOAD_LEN (bld E)"
proof -
  let ?bs = "slot_bytes (bld E) (write_align s) x ex p" and ?p = "BLOB_DB_FIRST_BUCKET + bid"
  from a have lp: "length p \<le> MAX_PAYLOAD_LEN (bld E)"
    and w: "store_write E s (peb_offset s ?p + c) ?bs = (Inr (), s')"
    by (auto simp: append_slot_def bucket_offset_def split: if_splits)
  have er: "all_erased (drop c (peb_img medium s ?p))"
    using l by (simp add: log_is_def bucket_img_peb)
  have "peb_img medium s ?p ! (c + i) = 0xff" if "i < length ?bs" for i
    using all_erased_drop_nth [OF er, of "c + i"] that fit by simp
  then have "bucket_img medium s' bid = splice (bucket_img medium s bid) c ?bs"
    using store_write_img [OF w] fit by (simp add: bucket_img_peb)
  with log_is_append [OF l ex lp cap fit] store_write_touches [OF w] fit lp show ?thesis by simp
qed

section \<open>Compaction\<close>

lemma store_write_img0:
  assumes w: "store_write E s (peb_offset s p) buf = (Inr (), s')" and fit: "length buf \<le> peb_size s"
    and er: "peb_img medium s p = replicate (peb_size s) 0xff"
  shows "peb_img medium s' p = buf @ replicate (peb_size s - length buf) 0xff"
  using store_write_img [of s p 0 buf s'] w fit er by (simp add: splice_def)

lemma scratch_seal_write_touches:
  assumes w: "scratch_seal_write E s (peb_offset s p) img = (r, s')"
    and fit: "scratch_seal_len s \<le> peb_size s"
  shows "touches medium peb {p} s s'"
  using store_write_touches [of s p "scratch_seal_off s" _ r s'] w fit scratch_seal_len_ge [of s]
  by (simp add: scratch_seal_write_def scratch_seal_off_def)

text \<open>The window of a compaction: erase the bucket and write its new image.\<close>

lemma rewrite_bucket_spec:
  assumes e: "store_erase E s (bucket_offset s bid) (peb_size s) = (Inr (), s1)"
    and w: "store_write E s1 (bucket_offset s1 bid) img = (Inr (), s2)"
    and fit: "length img \<le> peb_size s"
  shows "touches medium peb {BLOB_DB_FIRST_BUCKET + bid} s s2 \<and>
    bucket_img medium s2 bid = img @ replicate (peb_size s - length img) 0xff"
proof -
  let ?p = "BLOB_DB_FIRST_BUCKET + bid"
  note e' = e [unfolded bucket_offset_def] and w' = w [unfolded bucket_offset_def]
  note t1 = store_erase_touches [OF e']
  note D = touchesD [OF t1]
  have "touches medium peb {?p} s1 s2"
    using store_write_touches [of s1 ?p 0 img "Inr ()" s2] w' fit D by simp
  moreover have "bucket_img medium s2 bid = img @ replicate (peb_size s - length img) 0xff"
    using store_write_img0 [OF w'] store_erase_img [OF e'] fit D by (simp add: bucket_img_peb)
  ultimately show ?thesis using touches_trans [OF t1] by fastforce
qed

lemma compact_commit_spec:
  assumes c: "compact_commit E s bid buf n = (Inr (), s')" and pz: "peb_size s = peb (dev s)"
    and n: "n \<le> length buf" and len: "length buf = peb_size s"
    and seal: "scratch_seal_len s \<le> peb_size s"
  shows "touches medium peb {BLOB_DB_SCRATCH_SECTOR, BLOB_DB_FIRST_BUCKET + bid} s s' \<and>
    bucket_img medium s' bid = compacted_block (peb_size s) buf n"
proof (cases "blob_db_store_replace_is_atomic (sto E)")
  case True
  with c have r: "store_replace E s (peb_offset s (BLOB_DB_FIRST_BUCKET + bid)) (take n buf) = (Inr (), s')"
    by (auto simp: compact_commit_def Let_def bucket_offset_def split: if_splits)
  have fit: "length (take n buf) \<le> peb_size s" using len by simp
  show ?thesis
    using touches_mono [OF store_replace_touches [OF r pz fit]] store_replace_img [OF r pz fit] n len
    by (simp add: bucket_img_peb compacted_block_def min_absorb2)
next
  case False
  let ?sc = "BLOB_DB_SCRATCH_SECTOR" and ?p = "BLOB_DB_FIRST_BUCKET + bid" and ?img = "take n buf"
  from False c obtain s1 s2 s3 s4 s5 where
    1: "store_erase E s (peb_offset s ?sc) (peb_size s) = (Inr (), s1)" and
    2: "store_write E s1 (peb_offset s ?sc) ?img = (Inr (), s2)" and
    3: "scratch_seal_write E s2 (peb_offset s ?sc) ?img = (Inr (), s3)" and
    4: "store_erase E s3 (bucket_offset s bid) (peb_size s3) = (Inr (), s4)" and
    5: "store_write E s4 (bucket_offset s bid) ?img = (Inr (), s5)" and
    6: "store_erase E s5 (peb_offset s ?sc) (peb_size s5) = (Inr (), s')"
    by (auto simp: compact_commit_def Let_def res_simps split: if_splits)
  note t1 = store_erase_touches [OF 1]
  note D1 = touchesD [OF t1]
  have t2: "touches medium peb {?sc} s1 s2"
    using store_write_touches [of s1 ?sc 0 ?img "Inr ()" s2] 2 n len D1 by simp
  note D2 = touchesD [OF t2]
  have "scratch_seal_len s2 = scratch_seal_len s" using D1 D2 by (simp add: scratch_seal_len_def)
  then have t3: "touches medium peb {?sc} s2 s3"
    using scratch_seal_write_touches [of s2 ?sc ?img "Inr ()" s3] 3 seal D1 D2 by simp
  note D3 = touchesD [OF t3]
  have t4: "touches medium peb {?p} s3 s4"
    using store_erase_touches [of s3 ?p "Inr ()" s4] 4 D1 D2 D3 by (simp add: bucket_offset_def)
  note D4 = touchesD [OF t4]
  have rw: "touches medium peb {?p} s3 s5 \<and>
      bucket_img medium s5 bid = ?img @ replicate (peb_size s3 - length ?img) 0xff"
    by (rule rewrite_bucket_spec [where ?s1.0 = s4]) (use 4 5 D1 D2 D3 D4 n len in simp_all)
  then have t5: "touches medium peb {?p} s3 s5" by blast
  note D5 = touchesD [OF t5]
  have t6: "touches medium peb {?sc} s5 s'"
    using store_erase_touches [of s5 ?sc "Inr ()" s'] 6 D1 D2 D3 D5 by simp
  have "touches medium peb ({?sc} \<union> {?sc} \<union> {?sc} \<union> {?p} \<union> {?sc}) s s'"
    by (intro touches_trans [OF _ t6] touches_trans [OF _ t5] touches_trans [OF _ t3]
        touches_trans [OF _ t2] t1)
  moreover have "bucket_img medium s' bid = bucket_img medium s5 bid"
    by (rule touches_img_bucket [OF t6]) (simp add: BLOB_DB_SCRATCH_SECTOR_def BLOB_DB_FIRST_BUCKET_def)
  ultimately show ?thesis
    using rw n len D1 D2 D3 by (auto simp: compacted_block_def min_def intro: touches_mono)
qed

lemma scratch_seal_fits: "geom_ok B peb s \<Longrightarrow> scratch_seal_len s \<le> peb_size s"
proof -
  assume g: "geom_ok B peb s"
  then obtain k where k: "write_align s = 2 ^ k" by (auto simp: geom_ok_def)
  have "scratch_seal_len s \<le> 16 + 32"
    using round_up_less [of 16 k] k g
    by (simp add: scratch_seal_len_def geom_ok_def BLOB_DB_MAX_WRITE_ALIGN_def)
  then show ?thesis using g by (simp add: geom_ok_def)
qed

lemma compact_bucket_spec:
  assumes c: "compact_bucket E s bid = (Inr (), s')" and g: "geom_ok (bld E) peb s"
    and bid: "bid < n_buckets s"
  defines "es \<equiv> entries (bld E) (peb_size s) (write_align s) (bucket_img medium s bid) 16"
  shows "touches medium peb {BLOB_DB_SCRATCH_SECTOR, BLOB_DB_FIRST_BUCKET + bid} s s' \<and>
    (\<exists>n. log_is E s bid (bucket_img medium s' bid) (keep es) n)"
proof -
  let ?B = "bld E" and ?pz = "peb_size s" and ?wa = "write_align s"
  from c obtain bbuf bbuf' n stop where rd: "read_bucket E s bid = Inr bbuf"
    and b: "build_compacted_image ?B ?pz ?wa bbuf bid = (bbuf', n, stop)"
    and cc: "compact_commit E s bid bbuf' n = (Inr (), s')"
    by (auto simp: compact_bucket_def res_simps split: if_splits prod.splits)
  have bb: "bbuf = bucket_img medium s bid"
    using read_img [of s bid 0 ?pz bbuf] rd by (simp add: read_bucket_def field_def)
  then have "length bbuf = ?pz" "bid < 2 ^ 16" "16 \<le> ?pz" using geom_bid [OF g bid] by simp_all
  note sp = build_compacted_image_spec [OF b this(1,3,2)]
  have pz: "?pz = peb (dev s)" using g by (simp add: geom_ok_def)
  have "n \<le> length bbuf'" using sp by simp
  note r = compact_commit_spec [OF cc pz this sp(1) scratch_seal_fits [OF g]]
  have "log_is E s bid (compacted_block ?pz bbuf' n) (keep es) n"
    using sp bb by (simp add: log_is_def es_def) (simp add: compacted_block_def)
  with r show ?thesis by auto
qed

end

end
