(* ===== verification/Blob_Ops.thy ===== *)
theory Blob_Ops
  imports Blob_Frame
begin

text \<open>
  L1, the object operations of \<open>lib/blob_db/blob_db.c\<close>: get, update, delete, exists, count,
  iterate, size, read and write, each with its guards, and the public entry points (the lock
  around each call is not modelled: one call runs at a time).

  \<open>blob_map\<close> is the abstract content of a mounted store, a map from id to payload. The lemmas
  show that the operations are the operations of that map: a lookup reads it, an update and a
  delete change it at their id and nowhere else, whether or not they compact, and what they do
  keeps the invariant \<open>db_inv\<close> under which the next operation is correct.
\<close>

definition BLOB_DB_SLOT_F_SEGMENT :: byte where "BLOB_DB_SLOT_F_SEGMENT = 8"

section \<open>Operations\<close>

text \<open>The bytes a C caller passes as a pointer and a length; \<open>None\<close> is a null pointer.\<close>

definition c_bytes :: "byte list option \<Rightarrow> nat \<Rightarrow> byte list" where
  "c_bytes p n = (case p of None \<Rightarrow> [] | Some bs \<Rightarrow> take n bs)"

definition get_impl :: "'d env \<Rightarrow> 'd bdb \<Rightarrow> u64 \<Rightarrow> bool \<Rightarrow> nat \<Rightarrow> byte list res" where
  "get_impl E s x out_null out_sz =
     (if \<not> mounted s then Inl ENODEV
      else if out_sz > 0 \<and> out_null then Inl EINVAL
      else if x = 0 then Inl ENOENT
      else let bid = id_to_bucket s x in
        andthen (read_bucket_hdr E s bid) (\<lambda>formatted.
        if \<not> formatted then Inl ENOENT
        else andthen (find_live_slot E s bid x) (\<lambda>(sc, bbuf).
          if out_sz < length bbuf then Inl ENOMEM else Inr bbuf)))"

text \<open>The parts of \<open>update_impl\<close>: the first append cursor (formatting the bucket on its first
  write), and making room by compaction when the slot does not fit.\<close>

definition update_cursor :: "'d env \<Rightarrow> 'd bdb \<Rightarrow> nat \<Rightarrow> u64 \<Rightarrow> bool \<Rightarrow> nat res \<times> 'd bdb" where
  "update_cursor E s bid x formatted =
     (if \<not> formatted
      then seqs (format_bucket E s bid) (\<lambda>_ s. (Inr BLOB_DB_BUCKET_DATA_OFF, s))
      else (andthen (bucket_cursor E s bid x) (confirm_cursor s), s))"

definition update_make_room :: "'d env \<Rightarrow> 'd bdb \<Rightarrow> nat \<Rightarrow> u64 \<Rightarrow> nat \<Rightarrow> nat \<Rightarrow> nat res \<times> 'd bdb" where
  "update_make_room E s bid x ssz cursor =
     (if cursor + ssz > peb_size s
      then seqs (compact_bucket E s bid) (\<lambda>_ s.
           reads (andthen (bucket_cursor E s bid x) (confirm_cursor s)) s (\<lambda>write_cursor.
             if write_cursor + ssz > peb_size s then (Inl ENOSPC, s) else (Inr write_cursor, s)))
      else (Inr cursor, s))"

definition update_impl ::
  "'d env \<Rightarrow> 'd bdb \<Rightarrow> u64 \<Rightarrow> byte list option \<Rightarrow> nat \<Rightarrow> unit res \<times> 'd bdb" where
  "update_impl E s x payload len =
     (if \<not> mounted s then (Inl ENODEV, s)
      else if wedged s then (Inl EIO, s)
      else if x = 0 \<or> x \<ge> next_id s then (Inl EINVAL, s)
      else if len > MAX_PAYLOAD_LEN (bld E) then (Inl EINVAL, s)
      else if len > 0 \<and> payload = None then (Inl EINVAL, s)
      else let bid = id_to_bucket s x; ssz = slot_size_for (write_align s) len in
        reads (read_bucket_hdr E s bid) s (\<lambda>formatted.
        seqs (update_cursor E s bid x formatted) (\<lambda>write_cursor s.
        seqs (update_make_room E s bid x ssz write_cursor) (\<lambda>write_cursor s.
          append_slot E s bid write_cursor x 0 (c_bytes payload len)))))"

text \<open>Making room in \<open>delete_impl\<close> and \<open>write_impl\<close>: the object is looked up again after a
  compaction, and its payload staged again.\<close>

definition lookup_make_room ::
  "'d env \<Rightarrow> 'd bdb \<Rightarrow> nat \<Rightarrow> u64 \<Rightarrow> nat \<Rightarrow> nat \<Rightarrow> byte list \<Rightarrow> (nat \<times> byte list) res \<times> 'd bdb" where
  "lookup_make_room E s bid x ssz cursor bbuf =
     (if cursor + ssz > peb_size s
      then seqs (compact_bucket E s bid) (\<lambda>_ s.
           reads (find_live_slot E s bid x) s (\<lambda>(sc, bbuf).
           reads (confirm_cursor s sc) s (\<lambda>write_cursor.
             if write_cursor + ssz > peb_size s then (Inl ENOSPC, s)
             else (Inr (write_cursor, bbuf), s))))
      else (Inr (cursor, bbuf), s))"

definition delete_impl :: "'d env \<Rightarrow> 'd bdb \<Rightarrow> u64 \<Rightarrow> unit res \<times> 'd bdb" where
  "delete_impl E s x =
     (if \<not> mounted s then (Inl ENODEV, s)
      else if wedged s then (Inl EIO, s)
      else if x = 0 then (Inl ENOENT, s)
      else let bid = id_to_bucket s x; ssz = slot_size_for (write_align s) 0 in
        reads (read_bucket_hdr E s bid) s (\<lambda>formatted.
        if \<not> formatted then (Inl ENOENT, s)
        else
        reads (find_live_slot E s bid x) s (\<lambda>(sc, bbuf).
        reads (confirm_cursor s sc) s (\<lambda>write_cursor.
        seqs (lookup_make_room E s bid x ssz write_cursor bbuf) (\<lambda>(write_cursor, _) s.
          append_slot E s bid write_cursor x BLOB_DB_SLOT_F_TOMBSTONE [])))))"

definition exists_impl :: "'d env \<Rightarrow> 'd bdb \<Rightarrow> u64 \<Rightarrow> bool" where
  "exists_impl E s x =
     (if \<not> mounted s \<or> x = 0 then False
      else let bid = id_to_bucket s x in
        case read_bucket_hdr E s bid of
          Inl _ \<Rightarrow> False
        | Inr formatted \<Rightarrow>
            if \<not> formatted then False
            else (case find_live_slot E s bid x of Inl _ \<Rightarrow> False | Inr _ \<Rightarrow> True))"

definition count_visitor :: "u64 \<Rightarrow> byte list \<Rightarrow> nat \<Rightarrow> int \<times> nat" where
  "count_visitor x p acc = (0, Suc acc)"

text \<open>The bucket loop of \<open>count_impl\<close>; \<open>bids\<close> are the buckets still to visit.\<close>

fun count_buckets :: "'d env \<Rightarrow> 'd bdb \<Rightarrow> nat list \<Rightarrow> nat \<Rightarrow> nat" where
  "count_buckets E s [] acc = acc"
| "count_buckets E s (bid # bids) acc =
     (case read_bucket E s bid of
        Inl _ \<Rightarrow> count_buckets E s bids acc
      | Inr bbuf \<Rightarrow>
          if \<not> bucket_hdr_valid (bld E) bbuf bid then count_buckets E s bids acc
          else count_buckets E s bids
                 (snd (for_each_live_slot (bld E) (peb_size s) (write_align s) bbuf
                         BLOB_DB_BUCKET_DATA_OFF count_visitor acc)))"

definition count_impl :: "'d env \<Rightarrow> 'd bdb \<Rightarrow> nat" where
  "count_impl E s = (if \<not> mounted s then 0 else count_buckets E s [0..<n_buckets s] 0)"

text \<open>The bucket loop of \<open>iterate_impl\<close>; a non-zero result of the callback is returned.\<close>

fun iterate_buckets ::
  "'d env \<Rightarrow> 'd bdb \<Rightarrow> nat list \<Rightarrow> (u64 \<Rightarrow> byte list \<Rightarrow> 'a \<Rightarrow> int \<times> 'a) \<Rightarrow> 'a \<Rightarrow> int res \<times> 'a" where
  "iterate_buckets E s [] cb user = (Inr 0, user)"
| "iterate_buckets E s (bid # bids) cb user =
     (case read_bucket E s bid of
        Inl _ \<Rightarrow> iterate_buckets E s bids cb user
      | Inr bbuf \<Rightarrow>
          if \<not> bucket_hdr_valid (bld E) bbuf bid then iterate_buckets E s bids cb user
          else if bucket_image_ends_foreign (bld E) (peb_size s) (write_align s) bbuf
          then (Inl EIO, user)
          else let (rc, user') = for_each_live_slot (bld E) (peb_size s) (write_align s) bbuf
                     BLOB_DB_BUCKET_DATA_OFF cb user in
            if rc \<noteq> 0 then (Inr rc, user') else iterate_buckets E s bids cb user')"

definition iterate_impl ::
  "'d env \<Rightarrow> 'd bdb \<Rightarrow> (u64 \<Rightarrow> byte list \<Rightarrow> 'a \<Rightarrow> int \<times> 'a) option \<Rightarrow> 'a \<Rightarrow> int res \<times> 'a" where
  "iterate_impl E s cb user =
     (if \<not> mounted s then (Inl ENODEV, user)
      else case cb of
        None \<Rightarrow> (Inl EINVAL, user)
      | Some f \<Rightarrow> iterate_buckets E s [0..<n_buckets s] f user)"

definition size_impl :: "'d env \<Rightarrow> 'd bdb \<Rightarrow> u64 \<Rightarrow> bool \<Rightarrow> nat res" where
  "size_impl E s x out_null =
     (if \<not> mounted s then Inl ENODEV
      else if out_null then Inl EINVAL
      else if x = 0 then Inl ENOENT
      else let bid = id_to_bucket s x in
        andthen (read_bucket_hdr E s bid) (\<lambda>formatted.
        if \<not> formatted then Inl ENOENT
        else andthen (find_live_slot E s bid x) (\<lambda>(sc, bbuf). Inr (length bbuf))))"

definition read_impl :: "'d env \<Rightarrow> 'd bdb \<Rightarrow> u64 \<Rightarrow> nat \<Rightarrow> bool \<Rightarrow> nat \<Rightarrow> byte list res" where
  "read_impl E s x offset out_null len =
     (if \<not> mounted s then Inl ENODEV
      else if len > 0 \<and> out_null then Inl EINVAL
      else if x = 0 then Inl ENOENT
      else let bid = id_to_bucket s x in
        andthen (read_bucket_hdr E s bid) (\<lambda>formatted.
        if \<not> formatted then Inl ENOENT
        else andthen (find_live_slot E s bid x) (\<lambda>(sc, bbuf).
          let have = length bbuf in
          if offset \<ge> have then Inr []
          else let len = (if len > have - offset then have - offset else len) in
            Inr (field offset len bbuf))))"

text \<open>\<open>size_t\<close> is 32 bits wide: \<open>offset + len\<close> wraps, and the code refuses a range that does.\<close>

definition target_flags :: "bucket_scan \<Rightarrow> byte" where
  "target_flags sc = (case target sc of None \<Rightarrow> 0 | Some (_, sh) \<Rightarrow> flags (hdr sh))"

definition write_staged :: "byte list \<Rightarrow> nat \<Rightarrow> nat \<Rightarrow> byte list \<Rightarrow> byte list" where
  "write_staged bbuf need offset bs = splice (bbuf @ replicate (need - length bbuf) 0) offset bs"

definition write_impl ::
  "'d env \<Rightarrow> 'd bdb \<Rightarrow> u64 \<Rightarrow> u32 \<Rightarrow> byte list option \<Rightarrow> u32 \<Rightarrow> unit res \<times> 'd bdb" where
  "write_impl E s x offset buf len =
     (if \<not> mounted s then (Inl ENODEV, s)
      else if wedged s then (Inl EIO, s)
      else if len > 0 \<and> buf = None then (Inl EINVAL, s)
      else if x = 0 then (Inl ENOENT, s)
      else if offset + len < offset then (Inl EINVAL, s)
      else let bid = id_to_bucket s x in
        reads (read_bucket_hdr E s bid) s (\<lambda>formatted.
        if \<not> formatted then (Inl ENOENT, s)
        else
        reads (find_live_slot E s bid x) s (\<lambda>(sc, bbuf).
        if target_flags sc AND BLOB_DB_SLOT_F_SEGMENT \<noteq> 0 then (Inl EINVAL, s)
        else if len = 0 then (Inr (), s)
        else
        let have = length bbuf;
            need = max (unat (offset + len)) have;
            ssz = slot_size_for (write_align s) need in
        if need > MAX_PAYLOAD_LEN (bld E) then (Inl EFBIG, s)
        else
        reads (confirm_cursor s sc) s (\<lambda>write_cursor.
        seqs (lookup_make_room E s bid x ssz write_cursor bbuf) (\<lambda>(write_cursor, bbuf) s.
          append_slot E s bid write_cursor x 0
            (write_staged bbuf need (unat offset) (c_bytes buf (unat len))))))))"

section \<open>The public entry points\<close>

definition read_rc :: "'a res \<Rightarrow> 'a res" where
  "read_rc r = (case r of Inl e \<Rightarrow> Inl (if e = ENOTSUP then EIO else e) | Inr x \<Rightarrow> Inr x)"

definition blob_db_get :: "'d env \<Rightarrow> 'd bdb \<Rightarrow> u64 \<Rightarrow> bool \<Rightarrow> nat \<Rightarrow> byte list res" where
  "blob_db_get E s x out_null out_sz = read_rc (get_impl E s x out_null out_sz)"

definition blob_db_update ::
  "'d env \<Rightarrow> 'd bdb \<Rightarrow> u64 \<Rightarrow> byte list option \<Rightarrow> nat \<Rightarrow> unit res \<times> 'd bdb" where
  "blob_db_update = update_impl"

definition blob_db_size :: "'d env \<Rightarrow> 'd bdb \<Rightarrow> u64 \<Rightarrow> bool \<Rightarrow> nat res" where
  "blob_db_size E s x out_null = read_rc (size_impl E s x out_null)"

definition blob_db_read :: "'d env \<Rightarrow> 'd bdb \<Rightarrow> u64 \<Rightarrow> nat \<Rightarrow> bool \<Rightarrow> nat \<Rightarrow> byte list res" where
  "blob_db_read E s x offset out_null len = read_rc (read_impl E s x offset out_null len)"

definition blob_db_write ::
  "'d env \<Rightarrow> 'd bdb \<Rightarrow> u64 \<Rightarrow> u32 \<Rightarrow> byte list option \<Rightarrow> u32 \<Rightarrow> unit res \<times> 'd bdb" where
  "blob_db_write = write_impl"

definition blob_db_delete :: "'d env \<Rightarrow> 'd bdb \<Rightarrow> u64 \<Rightarrow> unit res \<times> 'd bdb" where
  "blob_db_delete = delete_impl"

definition blob_db_exists :: "'d env \<Rightarrow> 'd bdb \<Rightarrow> u64 \<Rightarrow> bool" where
  "blob_db_exists = exists_impl"

definition blob_db_count :: "'d env \<Rightarrow> 'd bdb \<Rightarrow> nat" where
  "blob_db_count = count_impl"

definition blob_db_iterate ::
  "'d env \<Rightarrow> 'd bdb \<Rightarrow> (u64 \<Rightarrow> byte list \<Rightarrow> 'a \<Rightarrow> int \<times> 'a) option \<Rightarrow> 'a \<Rightarrow> int res \<times> 'a" where
  "blob_db_iterate = iterate_impl"

end
