(* ===== verification/Blob_Master.thy ===== *)
theory Blob_Master
  imports Blob_Ops
begin

text \<open>
  L1, the master sectors and the life of a store (\<open>lib/blob_db/blob_db.c\<close>): the header and record
  codecs of \<open>blob_db_internal.h\<close>, classification and acceptance of a header, the record log with
  its binary search, commits and rotations, id allocation, format, erase-all, mount with its
  doubt scan, unmount and maintenance.

  A master sector is its header (64 bytes, written once per erase) and, from byte 128 on, an
  append-only log of records of \<open>rec_size\<close> bytes, each a full copy of the mutable state.
\<close>

section \<open>Layout\<close>

text \<open>\<open>'B','D','M','S'\<close>.\<close>

definition MASTER_MAGIC :: "byte list" where "MASTER_MAGIC = [0x42, 0x44, 0x4d, 0x53]"
definition BLOB_DB_FORMAT_MAJOR :: byte where "BLOB_DB_FORMAT_MAJOR = 5"
definition BLOB_DB_FORMAT_MINOR :: byte where "BLOB_DB_FORMAT_MINOR = 0"
definition BLOB_DB_MASTER_HDR_MAX :: nat where "BLOB_DB_MASTER_HDR_MAX = 128"
definition BLOB_DB_MASTER_LOG_OFF :: nat where "BLOB_DB_MASTER_LOG_OFF = BLOB_DB_MASTER_HDR_MAX"
definition BLOB_DB_ID_HINT_STEP :: u64 where "BLOB_DB_ID_HINT_STEP = 256"
definition BLOB_DB_FEAT_LARGE_PAYLOADS :: u32 where "BLOB_DB_FEAT_LARGE_PAYLOADS = 1"
definition BLOB_DB_LIB_INCOMPAT :: u32 where "BLOB_DB_LIB_INCOMPAT = BLOB_DB_FEAT_LARGE_PAYLOADS"
definition BLOB_DB_BUILD_INCOMPAT :: u32 where "BLOB_DB_BUILD_INCOMPAT = 0"
definition BLOB_DB_BUILD_RO_COMPAT :: u32 where "BLOB_DB_BUILD_RO_COMPAT = 0"
definition BLOB_DB_BUILD_REQUIRED :: u32 where "BLOB_DB_BUILD_REQUIRED = 0"
definition BLOB_DB_BUILD_SUITE :: byte where "BLOB_DB_BUILD_SUITE = 0"
definition BLOB_DB_BUILD_HDR_LEN :: nat where "BLOB_DB_BUILD_HDR_LEN = 64"

record blob_db_compat_hdr =
  magic :: "byte list"
  format_major :: byte
  format_minor :: byte
  hdr_len :: nat
  prefix_crc16 :: u16

record blob_db_master_hdr =
  prefix :: blob_db_compat_hdr
  h_rot_gen :: u32
  h_peb_size :: nat
  h_n_buckets :: nat
  h_rec_size :: nat
  h_incompat :: u32
  h_ro_compat :: u32
  h_compat :: u32
  h_suite :: byte
  h_max_payload_len :: nat
  h_write_align :: nat
  h_hdr_crc32 :: u32

record blob_db_master_rec =
  rec_no :: nat
  r_next_id_hint :: u64
  r_seq_hint :: u64
  r_seg_owner :: u64
  r_fuses :: u32
  r_crc32 :: u32

definition compat_hdr_of :: "byte list \<Rightarrow> blob_db_compat_hdr" where
  "compat_hdr_of bs = \<lparr>magic = take 4 bs, format_major = bs ! 4, format_minor = bs ! 5,
     hdr_len = of_le (field 6 2 bs), prefix_crc16 = word_of_nat (of_le (field 10 2 bs))\<rparr>"

definition master_hdr_of :: "byte list \<Rightarrow> blob_db_master_hdr" where
  "master_hdr_of bs = \<lparr>prefix = compat_hdr_of bs,
     h_rot_gen = word_of_nat (of_le (field 12 4 bs)), h_peb_size = of_le (field 16 4 bs),
     h_n_buckets = of_le (field 20 2 bs), h_rec_size = of_le (field 22 2 bs),
     h_incompat = word_of_nat (of_le (field 24 4 bs)), h_ro_compat = word_of_nat (of_le (field 28 4 bs)),
     h_compat = word_of_nat (of_le (field 32 4 bs)), h_suite = bs ! 36,
     h_max_payload_len = of_le (field 56 2 bs), h_write_align = of_le (field 58 2 bs),
     h_hdr_crc32 = word_of_nat (of_le (field 60 4 bs))\<rparr>"

definition master_rec_of :: "byte list \<Rightarrow> blob_db_master_rec" where
  "master_rec_of bs = \<lparr>rec_no = of_le (field 0 4 bs), r_next_id_hint = word_of_nat (of_le (field 8 8 bs)),
     r_seq_hint = word_of_nat (of_le (field 16 8 bs)), r_seg_owner = word_of_nat (of_le (field 24 8 bs)),
     r_fuses = word_of_nat (of_le (field 36 4 bs)), r_crc32 = word_of_nat (of_le (field 44 4 bs))\<rparr>"

definition prefix_crc :: "build \<Rightarrow> byte list \<Rightarrow> u16" where
  "prefix_crc B bs = crc16_ccitt B 0xffff (take 10 bs)"

definition master_hdr_crc :: "build \<Rightarrow> byte list \<Rightarrow> u32" where
  "master_hdr_crc B bs = crc32_ieee B (take 60 bs)"

definition master_rec_crc :: "build \<Rightarrow> u32 \<Rightarrow> byte list \<Rightarrow> u32" where
  "master_rec_crc B rotgen bs = crc32_ieee_cont B (crc32_ieee B (le_bytes 4 (unat rotgen))) (take 44 bs)"

section \<open>Reading a master\<close>

datatype master_class = MASTER_ERASED | MASTER_CORRUPT | MASTER_FOREIGN | MASTER_OK

definition master_class_of :: "build \<Rightarrow> byte list \<Rightarrow> master_class" where
  "master_class_of B buf =
     (if all_erased buf then MASTER_ERASED
      else let c = compat_hdr_of buf in
      if prefix_crc16 c \<noteq> prefix_crc B buf then MASTER_CORRUPT
      else if magic c \<noteq> MASTER_MAGIC then MASTER_FOREIGN
      else if format_major c \<noteq> BLOB_DB_FORMAT_MAJOR then MASTER_FOREIGN
      else if hdr_len c < 64 \<or> hdr_len c > BLOB_DB_MASTER_HDR_MAX then MASTER_FOREIGN
      else if h_hdr_crc32 (master_hdr_of buf) \<noteq> master_hdr_crc B buf then MASTER_CORRUPT
      else MASTER_OK)"

definition master_classify :: "'d env \<Rightarrow> 'd bdb \<Rightarrow> nat \<Rightarrow> (master_class \<times> blob_db_master_hdr) res" where
  "master_classify E s slot =
     andthen (store_read E s (peb_offset s slot) BLOB_DB_MASTER_HDR_MAX) (\<lambda>buf.
       Inr (master_class_of (bld E) buf, master_hdr_of buf))"

definition master_accept :: "'d env \<Rightarrow> 'd bdb \<Rightarrow> blob_db_master_hdr \<Rightarrow> unit res" where
  "master_accept E s h =
     (let missing = h_incompat h AND NOT BLOB_DB_BUILD_INCOMPAT in
      if missing AND NOT BLOB_DB_LIB_INCOMPAT \<noteq> 0 then Inl ENOTSUP
      else if missing AND BLOB_DB_FEAT_LARGE_PAYLOADS \<noteq> 0 then Inl ENOTSUP
      else if h_ro_compat h AND NOT BLOB_DB_BUILD_RO_COMPAT \<noteq> 0 then Inl ENOTSUP
      else if BLOB_DB_BUILD_REQUIRED AND NOT (h_incompat h) \<noteq> 0 then Inl ENOTSUP
      else if h_suite h \<noteq> BLOB_DB_BUILD_SUITE \<or> hdr_len (prefix h) \<noteq> BLOB_DB_BUILD_HDR_LEN then Inl ENOTSUP
      else if h_peb_size h \<noteq> peb_size s \<or> h_n_buckets h \<noteq> n_buckets s then Inl ENOTSUP
      else if h_rec_size h \<noteq> rec_size s then Inl ENOTSUP
      else if h_max_payload_len h > MAX_PAYLOAD_LEN (bld E) then Inl ENOTSUP
      else if h_write_align h \<noteq> write_align s then Inl ENOTSUP
      else Inr ())"

record master_log =
  end_slot :: nat
  newest_rec :: "(nat \<times> blob_db_master_rec) option"
  tail_bad :: bool

definition master_rec_ok :: "build \<Rightarrow> u32 \<Rightarrow> byte list \<Rightarrow> nat \<Rightarrow> bool" where
  "master_rec_ok B rotgen bs i \<longleftrightarrow>
     rec_no (master_rec_of bs) = i \<and> r_crc32 (master_rec_of bs) = master_rec_crc B rotgen bs"

definition master_slot_read :: "'d env \<Rightarrow> 'd bdb \<Rightarrow> nat \<Rightarrow> nat \<Rightarrow> byte list res" where
  "master_slot_read E s slot i =
     store_read E s (peb_offset s slot + BLOB_DB_MASTER_LOG_OFF + i * rec_size s) (rec_size s)"

text \<open>The binary search of \<open>master_log_load\<close>: slots below \<open>lo\<close> are written, slots from \<open>hi\<close> on read
  erased.\<close>

function log_search :: "'d env \<Rightarrow> 'd bdb \<Rightarrow> nat \<Rightarrow> nat \<Rightarrow> nat \<Rightarrow> nat res" where
  "log_search E s slot lo hi =
     (if lo < hi then
        let mid = lo + (hi - lo) div 2 in
        andthen (master_slot_read E s slot mid) (\<lambda>bs.
          if all_erased bs then log_search E s slot lo mid else log_search E s slot (mid + 1) hi)
      else Inr lo)"
  by pat_completeness auto
termination
  by (relation "measure (\<lambda>(E, s, slot, lo, hi). hi - lo)") auto

declare log_search.simps [simp del]

text \<open>The walk back from the end; \<open>Suc i\<close> looks at slot \<open>i\<close>.\<close>

primrec log_walk_back ::
  "'d env \<Rightarrow> 'd bdb \<Rightarrow> nat \<Rightarrow> u32 \<Rightarrow> nat \<Rightarrow> bool \<Rightarrow> nat \<Rightarrow> ((nat \<times> blob_db_master_rec) option \<times> bool) res" where
  "log_walk_back E s slot rotgen e bad 0 = Inr (None, bad)"
| "log_walk_back E s slot rotgen e bad (Suc i) =
     andthen (master_slot_read E s slot i) (\<lambda>bs.
       if master_rec_ok (bld E) rotgen bs i then Inr (Some (i, master_rec_of bs), bad)
       else log_walk_back E s slot rotgen e (bad \<or> Suc i = e) i)"

definition master_log_load :: "'d env \<Rightarrow> 'd bdb \<Rightarrow> nat \<Rightarrow> u32 \<Rightarrow> master_log res" where
  "master_log_load E s slot rotgen =
     andthen (log_search E s slot 0 (log_cap s)) (\<lambda>e.
     andthen (log_walk_back E s slot rotgen e False e) (\<lambda>(nw, bad).
       Inr \<lparr>end_slot = e, newest_rec = nw, tail_bad = bad\<rparr>))"

section \<open>Writing a master\<close>

definition master_rec_fill :: "'d bdb \<Rightarrow> blob_db_master_rec" where
  "master_rec_fill s =
     (let want = next_id s + 1 + BLOB_DB_ID_HINT_STEP in
      \<lparr>rec_no = 0, r_next_id_hint = (if ceiling_reset s then want else max (next_id_hint s) want),
       r_seq_hint = 0, r_seg_owner = seg_owner s, r_fuses = fuses s, r_crc32 = 0\<rparr>)"

text \<open>The 44 bytes of a record its CRC covers, and the staged record.\<close>

definition master_rec_body :: "blob_db_master_rec \<Rightarrow> nat \<Rightarrow> byte list" where
  "master_rec_body r no =
     le_bytes 4 no @ le_bytes 4 0 @ le_bytes 8 (unat (r_next_id_hint r)) @ le_bytes 8 (unat (r_seq_hint r)) @
     le_bytes 8 (unat (r_seg_owner r)) @ le_bytes 4 0 @ le_bytes 4 (unat (r_fuses r)) @ le_bytes 4 0"

definition master_rec_stage :: "build \<Rightarrow> nat \<Rightarrow> blob_db_master_rec \<Rightarrow> nat \<Rightarrow> u32 \<Rightarrow> byte list" where
  "master_rec_stage B rsz r no rotgen =
     (let body = master_rec_body r no in
      body @ le_bytes 4 (unat (master_rec_crc B rotgen body)) @ replicate (rsz - 48) 0xff)"

definition master_prefix_bytes :: "build \<Rightarrow> byte list" where
  "master_prefix_bytes B =
     (let p = MASTER_MAGIC @ [BLOB_DB_FORMAT_MAJOR, BLOB_DB_FORMAT_MINOR] @ le_bytes 2 BLOB_DB_BUILD_HDR_LEN @ le_bytes 2 0
      in p @ le_bytes 2 (unat (prefix_crc B p)))"

definition master_hdr_body :: "'d env \<Rightarrow> 'd bdb \<Rightarrow> u32 \<Rightarrow> byte list" where
  "master_hdr_body E s rotgen =
     master_prefix_bytes (bld E) @ le_bytes 4 (unat rotgen) @ le_bytes 4 (peb_size s) @
     le_bytes 2 (n_buckets s) @ le_bytes 2 (rec_size s) @ le_bytes 4 (unat (incompat s)) @
     le_bytes 4 (unat (ro_compat s)) @ le_bytes 4 (unat (compat s)) @ [BLOB_DB_BUILD_SUITE] @
     replicate 3 0 @ replicate 16 0 @ le_bytes 2 (MAX_PAYLOAD_LEN (bld E)) @ le_bytes 2 (write_align s)"

definition master_hdr_bytes :: "'d env \<Rightarrow> 'd bdb \<Rightarrow> u32 \<Rightarrow> byte list" where
  "master_hdr_bytes E s rotgen =
     master_hdr_body E s rotgen @ le_bytes 4 (unat (master_hdr_crc (bld E) (master_hdr_body E s rotgen)))"

definition master_write_sector ::
  "'d env \<Rightarrow> 'd bdb \<Rightarrow> nat \<Rightarrow> u32 \<Rightarrow> blob_db_master_rec \<Rightarrow> unit res \<times> 'd bdb" where
  "master_write_sector E s slot rotgen r =
     store_replace E s (peb_offset s slot)
       (master_hdr_bytes E s rotgen @ replicate (BLOB_DB_MASTER_LOG_OFF - 64) 0xff @
        master_rec_stage (bld E) (rec_size s) r 0 rotgen)"

definition other_master :: "nat \<Rightarrow> nat" where
  "other_master m = (if m = 0 then 1 else 0)"

definition master_rotate :: "'d env \<Rightarrow> 'd bdb \<Rightarrow> blob_db_master_rec \<Rightarrow> unit res \<times> 'd bdb" where
  "master_rotate E s r =
     (if rot_gen s = 0xffffffff then (Inl ENOSPC, s)
      else seqs (master_write_sector E s (other_master (active_master s)) (rot_gen s + 1) r) (\<lambda>_ s.
        (Inr (), s\<lparr>active_master := other_master (active_master s), rot_gen := rot_gen s + 1,
           log_next := 1, log_failed := False\<rparr>)))"

definition master_append :: "'d env \<Rightarrow> 'd bdb \<Rightarrow> blob_db_master_rec \<Rightarrow> unit res \<times> 'd bdb" where
  "master_append E s r =
     (let (rc, s1) = store_write E s
            (peb_offset s (active_master s) + BLOB_DB_MASTER_LOG_OFF + log_next s * rec_size s)
            (master_rec_stage (bld E) (rec_size s) r (log_next s) (rot_gen s));
          s2 = s1\<lparr>log_next := log_next s1 + 1\<rparr>
      in case rc of Inl e \<Rightarrow> (Inl e, s2\<lparr>log_failed := True\<rparr>) | Inr x \<Rightarrow> (Inr x, s2))"

definition master_commit_how :: "'d env \<Rightarrow> 'd bdb \<Rightarrow> bool \<Rightarrow> unit res \<times> 'd bdb" where
  "master_commit_how E s force_rotate =
     (let r = master_rec_fill s;
          (rc, s1) = (if force_rotate \<or> log_failed s \<or> log_next s \<ge> log_cap s
                      then master_rotate E s r else master_append E s r);
          s2 = s1\<lparr>ceiling_reset := False\<rparr>
      in case rc of Inl e \<Rightarrow> (Inl e, s2) | Inr x \<Rightarrow> (Inr x, s2\<lparr>next_id_hint := r_next_id_hint r\<rparr>))"

definition master_commit :: "'d env \<Rightarrow> 'd bdb \<Rightarrow> unit res \<times> 'd bdb" where
  "master_commit E s = master_commit_how E s False"

definition master_commit_rotate :: "'d env \<Rightarrow> 'd bdb \<Rightarrow> unit res \<times> 'd bdb" where
  "master_commit_rotate E s = master_commit_how E s True"

definition master_format :: "'d env \<Rightarrow> 'd bdb \<Rightarrow> unit res \<times> 'd bdb" where
  "master_format E s =
     (let s1 = s\<lparr>next_id := 2, seg_owner := 0, fuses := 0, incompat := BLOB_DB_BUILD_INCOMPAT,
            ro_compat := BLOB_DB_BUILD_RO_COMPAT, compat := 0, ceiling_reset := True\<rparr>;
          r = master_rec_fill s1;
          s2 = s1\<lparr>ceiling_reset := False\<rparr>
      in seqs (master_write_sector E s2 BLOB_DB_MASTER_B_SECTOR 1 r) (\<lambda>_ s3.
         seqs (master_write_sector E s3 BLOB_DB_MASTER_A_SECTOR 2 r) (\<lambda>_ s4.
           (Inr (), s4\<lparr>active_master := BLOB_DB_MASTER_A_SECTOR, rot_gen := 2, log_next := 1,
              log_failed := False, next_id_hint := r_next_id_hint r\<rparr>))))"

definition persist_next_id_hint :: "'d env \<Rightarrow> 'd bdb \<Rightarrow> unit res \<times> 'd bdb" where
  "persist_next_id_hint E s = master_commit E s"

definition alloc_id_impl :: "'d env \<Rightarrow> 'd bdb \<Rightarrow> u64 \<times> 'd bdb" where
  "alloc_id_impl E s =
     (if \<not> mounted s then (0, s)
      else
        let (rc, s1) = (if next_id s \<ge> next_id_hint s then persist_next_id_hint E s else (Inr (), s)) in
        case rc of
          Inl _ \<Rightarrow> (0, s1)
        | Inr _ \<Rightarrow> (next_id s1, s1\<lparr>next_id := next_id s1 + 1\<rparr>))"

end
