(* ===== verification/Blob_Mount.thy ===== *)
theory Blob_Mount
  imports Blob_Master
begin

text \<open>
  L1, the life of a store (\<open>lib/blob_db/blob_db.c\<close>): opening and validating the geometry,
  formatting, erase-all, the mount with its choice of master, compaction recovery, doubt scan and
  upgrade rotations, unmount, and maintenance.

  \<open>mount_impl\<close> is one long function in the source; here each of its stages is a definition, and
  \<open>mount_open\<close> runs them in the source's order.
\<close>

section \<open>Emptying a store\<close>

text \<open>Format the root bucket and bind an empty root object.\<close>

definition root_bid :: "'d bdb \<Rightarrow> nat" where
  "root_bid s = unat BLOB_DB_ROOT_ID mod n_buckets s"

definition bind_root_empty :: "'d env \<Rightarrow> 'd bdb \<Rightarrow> unit res \<times> 'd bdb" where
  "bind_root_empty E s =
     seqs (format_bucket E s (root_bid s)) (\<lambda>_ s.
       append_slot E s (root_bid s) BLOB_DB_BUCKET_DATA_OFF BLOB_DB_ROOT_ID 0 [])"

text \<open>Zero the magic of one bucket that carries one; the bucket loop.\<close>

definition invalidate_bucket :: "'d env \<Rightarrow> 'd bdb \<Rightarrow> nat \<Rightarrow> unit res \<times> 'd bdb" where
  "invalidate_bucket E s bid =
     (let off = peb_offset s (BLOB_DB_FIRST_BUCKET + bid);
          zeros = replicate (max 4 (min (write_align s) BLOB_DB_MAX_WRITE_ALIGN)) 0 in
      reads (store_read E s off 4) s (\<lambda>peek.
        if peek \<noteq> BUCKET_MAGIC then (Inr (), s)
        else if blob_db_store_replace_is_atomic (sto E) then store_replace E s off zeros
        else store_write E s off zeros))"

fun invalidate_loop :: "'d env \<Rightarrow> 'd bdb \<Rightarrow> nat option \<Rightarrow> nat list \<Rightarrow> unit res \<times> 'd bdb" where
  "invalidate_loop E s skip [] = (Inr (), s)"
| "invalidate_loop E s skip (bid # bids) =
     (if Some bid = skip then invalidate_loop E s skip bids
      else seqs (invalidate_bucket E s bid) (\<lambda>_ s. invalidate_loop E s skip bids))"

definition invalidate_buckets :: "'d env \<Rightarrow> 'd bdb \<Rightarrow> nat option \<Rightarrow> unit res \<times> 'd bdb" where
  "invalidate_buckets E s skip = invalidate_loop E s skip [0..<n_buckets s]"

definition format_masters_fresh :: "'d env \<Rightarrow> 'd bdb \<Rightarrow> unit res \<times> 'd bdb" where
  "format_masters_fresh E s =
     seqs (invalidate_buckets E s None) (\<lambda>_ s.
     seqs (master_format E s) (\<lambda>_ s.
       bind_root_empty E s))"

definition format_whole_store :: "'d env \<Rightarrow> 'd bdb \<Rightarrow> unit res \<times> 'd bdb" where
  "format_whole_store E s =
     (let s = s\<lparr>wedged := False\<rparr> in
      seqs (store_erase E s 0 (st_fa_size s)) (\<lambda>_ s.
      seqs (master_format E s) (\<lambda>_ s.
        bind_root_empty E s)))"

definition erase_all_impl :: "'d env \<Rightarrow> 'd bdb \<Rightarrow> unit res \<times> 'd bdb" where
  "erase_all_impl E s =
     (if \<not> mounted s then (Inl ENODEV, s)
      else if wedged s then (Inl EIO, s)
      else
        seqs (invalidate_buckets E s (Some (root_bid s))) (\<lambda>_ s.
        seqs (bind_root_empty E s) (\<lambda>_ s.
          let prev_next = next_id s in
          case master_commit E (s\<lparr>next_id := 2, ceiling_reset := True\<rparr>) of
            (Inl e, s) \<Rightarrow> (Inl e, s\<lparr>next_id := prev_next\<rparr>)
          | (Inr _, s) \<Rightarrow> (Inr (), s))))"

section \<open>Opening the store\<close>

definition store_close :: "'d env \<Rightarrow> 'd bdb \<Rightarrow> 'd bdb" where
  "store_close E s = s\<lparr>dev := blob_db_store_close (sto E) (dev s)\<rparr>"

definition is_pow2 :: "nat \<Rightarrow> bool" where
  "is_pow2 a \<longleftrightarrow> int a AND int (a - 1) = 0"

text \<open>The checks between \<open>blob_db_store_open\<close> and the end of the function, each with the state it
  has set; an error closes the store.\<close>

definition validate_geometry :: "'d env \<Rightarrow> 'd bdb \<Rightarrow> unit res \<times> 'd bdb" where
  "validate_geometry E s =
     (if peb_size s > SECTOR_BUF_SIZE (bld E) then (Inl ENOTSUP, s)
      else if write_align s > BLOB_DB_MAX_WRITE_ALIGN \<or> \<not> is_pow2 (write_align s) then (Inl ENOTSUP, s)
      else let s = s\<lparr>rec_size := round_up 48 (write_align s)\<rparr> in
      if peb_size s < BLOB_DB_MASTER_LOG_OFF + 2 * rec_size s then (Inl ENOTSUP, s)
      else let cap = min ((peb_size s - BLOB_DB_MASTER_LOG_OFF) div rec_size s) 65535;
               tcap = TEST_MASTER_LOG_CAP (bld E);
               s = s\<lparr>log_cap := (if tcap > 0 then min cap tcap else cap)\<rparr> in
      if n_pebs s < BLOB_DB_FIRST_BUCKET + 1 then (Inl EINVAL, s)
      else let s = s\<lparr>n_buckets := n_pebs s - BLOB_DB_FIRST_BUCKET\<rparr>;
               sustainable = (peb_size s - BLOB_DB_BUCKET_DATA_OFF) div 2 - BLOB_DB_SLOT_OVERHEAD in
      if MAX_PAYLOAD_LEN (bld E) > sustainable then (Inl ENOTSUP, s)
      else (Inr (), s))"

definition store_open_and_validate :: "'d env \<Rightarrow> 'd bdb \<Rightarrow> bool \<Rightarrow> unit res \<times> 'd bdb" where
  "store_open_and_validate E s discard =
     (case blob_db_store_open (sto E) (dev s) discard of
        (Inl e, d) \<Rightarrow> (Inl e, s\<lparr>dev := d\<rparr>)
      | (Inr g, d) \<Rightarrow>
          let s1 = s\<lparr>dev := d, peb_size := geom_peb_size g,
                write_align := (if geom_write_align g = 0 then 1 else geom_write_align g),
                n_pebs := geom_n_pebs g, st_fa_size := geom_n_pebs g * geom_peb_size g,
                preformat := geom_preformat g\<rparr> in
          case validate_geometry E s1 of
            (Inl e, s2) \<Rightarrow> (Inl e, store_close E s2)
          | (Inr _, s2) \<Rightarrow> (Inr (), s2))"

definition format_impl :: "'d env \<Rightarrow> 'd bdb \<Rightarrow> unit res \<times> 'd bdb" where
  "format_impl E s =
     (if mounted s then format_whole_store E s
      else seqs (store_open_and_validate E s True) (\<lambda>_ s.
        case format_whole_store E s of
          (Inl e, s) \<Rightarrow> (Inl e, store_close E s)
        | (Inr _, s) \<Rightarrow> (Inr (), s\<lparr>mounted := True\<rparr>)))"

section \<open>The id scan\<close>

text \<open>The slot loop of \<open>scan_bucket\<close>: every sealed slot of plausible length counts, whatever its
  CRC.\<close>

function scan_ids_from :: "'d env \<Rightarrow> 'd bdb \<Rightarrow> nat \<Rightarrow> nat \<Rightarrow> u64 \<Rightarrow> u64 res" where
  "scan_ids_from E s bid cursor max_id =
     (if cursor + 14 \<le> peb_size s then
        andthen (store_read E s (bucket_offset s bid + cursor) 4) (\<lambda>bs.
          let shdr = slot_hdr_of bs; slot_sz = slot_size_for (write_align s) (val_len shdr) in
          if flags shdr = 0xff then Inr max_id
          else if flags shdr AND BLOB_DB_SLOT_F_SEALED = 0 then Inr max_id
          else if val_len shdr > MAX_PAYLOAD_LEN (bld E) then Inr max_id
          else if cursor + slot_sz > peb_size s then Inr max_id
          else andthen (store_read E s (bucket_offset s bid + cursor + 4) 8) (\<lambda>idb.
            let x = word_of_nat (of_le idb) in
            scan_ids_from E s bid (cursor + slot_sz) (if x > max_id then x else max_id)))
      else Inr max_id)"
  by pat_completeness auto
termination
proof (relation "measure (\<lambda>(E, s, bid, cursor, max_id). peb_size s - cursor)", goal_cases)
  case (2 E s bid cursor max_id bs shdr slot_sz idb x)
  then show ?case using slot_size_for_ge [of "val_len shdr" "write_align s"]
    by (auto intro!: diff_less_mono2)
qed simp

declare scan_ids_from.simps [simp del]

definition scan_bucket :: "'d env \<Rightarrow> 'd bdb \<Rightarrow> nat \<Rightarrow> u64 \<Rightarrow> u64 res" where
  "scan_bucket E s bid max_id =
     andthen (store_read E s (peb_offset s (BLOB_DB_FIRST_BUCKET + bid)) 16) (\<lambda>bs.
       let bhdr = bucket_hdr_of bs in
       if bmagic bhdr \<noteq> BUCKET_MAGIC then Inr max_id
       else if hdr_crc32 bhdr \<noteq> hdr_crc (bld E) bs then Inr max_id
       else if bucket_id bhdr \<noteq> bid then Inr max_id
       else scan_ids_from E s bid BLOB_DB_BUCKET_DATA_OFF max_id)"

fun scan_buckets :: "'d env \<Rightarrow> 'd bdb \<Rightarrow> nat list \<Rightarrow> u64 \<Rightarrow> u64 res" where
  "scan_buckets E s [] max_id = Inr max_id"
| "scan_buckets E s (bid # bids) max_id =
     andthen (scan_bucket E s bid max_id) (\<lambda>max_id. scan_buckets E s bids max_id)"

section \<open>Mount\<close>

text \<open>A pair of values, one per master sector.\<close>

definition of_sector :: "'a \<times> 'a \<Rightarrow> nat \<Rightarrow> 'a" where
  "of_sector m i = (if i = 0 then fst m else snd m)"

type_synonym masters = "(master_class \<times> blob_db_master_hdr) \<times> (master_class \<times> blob_db_master_hdr)"

definition m_class :: "masters \<Rightarrow> nat \<Rightarrow> master_class" where
  "m_class m i = fst (of_sector m i)"

definition m_hdr :: "masters \<Rightarrow> nat \<Rightarrow> blob_db_master_hdr" where
  "m_hdr m i = snd (of_sector m i)"

definition both_ok :: "masters \<Rightarrow> bool" where
  "both_ok m \<longleftrightarrow> m_class m 0 = MASTER_OK \<and> m_class m 1 = MASTER_OK"

definition classify_masters :: "'d env \<Rightarrow> 'd bdb \<Rightarrow> masters res" where
  "classify_masters E s =
     andthen (master_classify E s 0) (\<lambda>m0. andthen (master_classify E s 1) (\<lambda>m1. Inr (m0, m1)))"

text \<open>The acceptance of one ok header, which joins its feature sets to the session's.\<close>

definition mount_accept :: "'d env \<Rightarrow> 'd bdb \<Rightarrow> masters \<Rightarrow> nat \<Rightarrow> unit res \<times> 'd bdb" where
  "mount_accept E s m i =
     (if m_class m i \<noteq> MASTER_OK then (Inr (), s)
      else let h = m_hdr m i in
        reads (master_accept E s h) s (\<lambda>_.
          (Inr (), s\<lparr>incompat := incompat s OR h_incompat h, ro_compat := ro_compat s OR h_ro_compat h,
             compat := compat s OR h_compat h\<rparr>)))"

text \<open>The sector to take the state from: sector, whether mount fell back to it, its log.\<close>

definition mount_pick :: "'d env \<Rightarrow> 'd bdb \<Rightarrow> masters \<Rightarrow> (nat \<times> bool \<times> master_log) option res" where
  "mount_pick E s m =
     (if m_class m 0 = MASTER_OK \<or> m_class m 1 = MASTER_OK then
        let hi = (if \<not> both_ok m then if m_class m 0 = MASTER_OK then 0 else 1
                  else if h_rot_gen (m_hdr m 0) > h_rot_gen (m_hdr m 1) then 0 else 1);
            lo = other_master hi in
        andthen (master_log_load E s hi (h_rot_gen (m_hdr m hi))) (\<lambda>log.
          if newest_rec log \<noteq> None then Inr (Some (hi, False, log))
          else if m_class m lo = MASTER_OK then
            andthen (master_log_load E s lo (h_rot_gen (m_hdr m lo))) (\<lambda>log.
              if newest_rec log \<noteq> None then Inr (Some (lo, True, log)) else Inr None)
          else Inr None)
      else Inr None)"

text \<open>No usable master.\<close>

definition mount_fresh :: "'d env \<Rightarrow> 'd bdb \<Rightarrow> masters \<Rightarrow> unit res \<times> 'd bdb" where
  "mount_fresh E s m =
     (if m_class m 0 = MASTER_ERASED \<and> m_class m 1 = MASTER_ERASED then format_masters_fresh E s
      else if AUTOFORMAT_ON_CORRUPT (bld E) then format_whole_store E s
      else (Inl EIO, s))"

definition adopt_rec :: "'d bdb \<Rightarrow> nat \<Rightarrow> u32 \<Rightarrow> nat \<Rightarrow> blob_db_master_rec \<Rightarrow> 'd bdb" where
  "adopt_rec s active gn e r =
     s\<lparr>active_master := active, rot_gen := gn, log_next := e, log_failed := False,
       ceiling_reset := False, next_id_hint := r_next_id_hint r, next_id := r_next_id_hint r,
       seg_owner := r_seg_owner r, fuses := r_fuses r\<rparr>"

text \<open>Take the state from the picked sector; the result says whether the ceiling has to be checked
  against the buckets and whether a rotation ends the doubt.\<close>

definition mount_adopt ::
  "'d env \<Rightarrow> 'd bdb \<Rightarrow> masters \<Rightarrow> (nat \<times> bool \<times> master_log) option \<Rightarrow> (bool \<times> bool) res \<times> 'd bdb" where
  "mount_adopt E s m pick =
     (case pick of
        None \<Rightarrow> seqs (mount_fresh E s m) (\<lambda>_ s. (Inr (False, False), s))
      | Some (active, fell_back, log) \<Rightarrow>
          let damage = blob_db_store_open_found_damage (sto E) (dev s) (peb_offset s BLOB_DB_MASTER_A_SECTOR) \<or>
                blob_db_store_open_found_damage (sto E) (dev s) (peb_offset s BLOB_DB_MASTER_B_SECTOR);
              end_by_rotation = (fell_back \<or> m_class m (other_master active) \<noteq> MASTER_OK \<or> damage);
              scan_ids = (end_by_rotation \<or> tail_bad log);
              s = adopt_rec s active (h_rot_gen (m_hdr m active)) (end_slot log) (snd (the (newest_rec log)))
          in seqs (recover_compaction E s) (\<lambda>_ s. (Inr (scan_ids, end_by_rotation), s)))"

text \<open>The doubt scan; \<open>max_id + 1\<close> wraps.\<close>

definition mount_scan :: "'d env \<Rightarrow> 'd bdb \<Rightarrow> bool \<Rightarrow> unit res \<times> 'd bdb" where
  "mount_scan E s scan_ids =
     (if \<not> scan_ids then (Inr (), s)
      else reads (scan_buckets E s [0..<n_buckets s] (if next_id s = 0 then 0 else next_id s - 1)) s (\<lambda>max_id.
        (Inr (), if max_id + 1 > next_id s then s\<lparr>next_id := max_id + 1\<rparr> else s)))"

definition old_cap :: "'d env \<Rightarrow> masters \<Rightarrow> nat" where
  "old_cap E m =
     (let c = MAX_PAYLOAD_LEN (bld E);
          c = (if m_class m 0 = MASTER_OK then min c (h_max_payload_len (m_hdr m 0)) else c)
      in if m_class m 1 = MASTER_OK then min c (h_max_payload_len (m_hdr m 1)) else c)"

definition features_split :: "masters \<Rightarrow> bool" where
  "features_split m \<longleftrightarrow> both_ok m \<and>
     (h_incompat (m_hdr m 0) \<noteq> h_incompat (m_hdr m 1) \<or>
      h_ro_compat (m_hdr m 0) \<noteq> h_ro_compat (m_hdr m 1) \<or> h_compat (m_hdr m 0) \<noteq> h_compat (m_hdr m 1))"

text \<open>Finish a half-done upgrade, or raise the payload cap, by one or two rotations. The result
  says whether it rotated.\<close>

definition mount_upgrade ::
  "'d env \<Rightarrow> 'd bdb \<Rightarrow> masters \<Rightarrow> (nat \<times> bool \<times> master_log) option \<Rightarrow> bool res \<times> 'd bdb" where
  "mount_upgrade E s m pick =
     (case pick of
        None \<Rightarrow> (Inr False, s)
      | Some (active, _, _) \<Rightarrow>
          if features_split m \<or> old_cap E m < MAX_PAYLOAD_LEN (bld E) then
            let old_active = m_hdr m active in
            seqs (master_commit_rotate E s) (\<lambda>_ s.
              if h_incompat old_active \<noteq> incompat s \<or> h_ro_compat old_active \<noteq> ro_compat s \<or>
                 h_compat old_active \<noteq> compat s \<or> h_max_payload_len old_active \<noteq> MAX_PAYLOAD_LEN (bld E)
              then seqs (master_commit_rotate E s) (\<lambda>_ s. (Inr True, s))
              else (Inr True, s))
          else (Inr False, s))"

definition mount_end_doubt :: "'d env \<Rightarrow> 'd bdb \<Rightarrow> bool \<Rightarrow> bool \<Rightarrow> bool \<Rightarrow> unit res \<times> 'd bdb" where
  "mount_end_doubt E s scan_ids end_by_rotation rotated =
     (if scan_ids \<and> \<not> rotated
      then if end_by_rotation then master_commit_rotate E s else master_commit E s
      else (Inr (), s))"

text \<open>The root-always-exists check.\<close>

definition root_live :: "'d env \<Rightarrow> 'd bdb \<Rightarrow> bool res" where
  "root_live E s =
     andthen (read_bucket_hdr E s (root_bid s)) (\<lambda>formatted.
       if \<not> formatted then Inr False
       else case find_live_slot E s (root_bid s) BLOB_DB_ROOT_ID of
          Inl e \<Rightarrow> if e \<noteq> ENOENT then Inl e else Inr False
        | Inr _ \<Rightarrow> Inr True)"

definition mount_root :: "'d env \<Rightarrow> 'd bdb \<Rightarrow> unit res \<times> 'd bdb" where
  "mount_root E s =
     reads (root_live E s) s (\<lambda>live.
       if live then (Inr (), s)
       else let s = (if next_id s < 2 then s\<lparr>next_id := 2\<rparr> else s) in
         seqs (if next_id_hint s < 2 then persist_next_id_hint E s else (Inr (), s)) (\<lambda>_ s.
           bind_root_empty E s))"

text \<open>Everything between the open and \<open>err_close\<close>.\<close>

definition mount_open :: "'d env \<Rightarrow> 'd bdb \<Rightarrow> unit res \<times> 'd bdb" where
  "mount_open E s =
     reads (classify_masters E s) s (\<lambda>m.
     if m_class m 0 = MASTER_FOREIGN \<or> m_class m 1 = MASTER_FOREIGN then (Inl ENOTSUP, s)
     else
     let s = s\<lparr>incompat := 0, ro_compat := 0, compat := 0\<rparr> in
     seqs (mount_accept E s m 0) (\<lambda>_ s.
     seqs (mount_accept E s m 1) (\<lambda>_ s.
     if both_ok m \<and> h_rot_gen (m_hdr m 0) = h_rot_gen (m_hdr m 1) then (Inl EIO, s)
     else
     reads (mount_pick E s m) s (\<lambda>pick.
     seqs (mount_adopt E s m pick) (\<lambda>(scan_ids, end_by_rotation) s.
     seqs (mount_scan E s scan_ids) (\<lambda>_ s.
     seqs (mount_upgrade E s m pick) (\<lambda>rotated s.
     seqs (mount_end_doubt E s scan_ids end_by_rotation rotated) (\<lambda>_ s.
     seqs (mount_root E s) (\<lambda>_ s.
       (Inr (), s\<lparr>mounted := True\<rparr>))))))))))"

definition mount_impl :: "'d env \<Rightarrow> 'd bdb \<Rightarrow> unit res \<times> 'd bdb" where
  "mount_impl E s =
     (if mounted s then (Inl EALREADY, s)
      else seqs (store_open_and_validate E (s\<lparr>wedged := False\<rparr>) False) (\<lambda>_ s.
        case mount_open E s of
          (Inl e, s) \<Rightarrow> (Inl e, store_close E s)
        | (Inr _, s) \<Rightarrow> (Inr (), s)))"

definition unmount_impl :: "'d env \<Rightarrow> 'd bdb \<Rightarrow> unit res \<times> 'd bdb" where
  "unmount_impl E s =
     (if \<not> mounted s then (Inr (), s) else (Inr (), (store_close E s)\<lparr>mounted := False\<rparr>))"

section \<open>Maintenance\<close>

definition maint_reset :: "'d bdb \<Rightarrow> 'd bdb" where
  "maint_reset s = s\<lparr>maint_start := unat (next_id s) mod n_buckets s, maint_scanned := 0\<rparr>"

text \<open>Find the next fresh bucket and, if \<open>fmt\<close>, format it; the result says whether it did.\<close>

function preformat_step :: "'d env \<Rightarrow> 'd bdb \<Rightarrow> bool \<Rightarrow> bool res \<times> 'd bdb" where
  "preformat_step E s fmt =
     (if maint_scanned s < n_buckets s then
        let bid = (maint_start s + maint_scanned s) mod n_buckets s in
        if bid = root_bid s then preformat_step E (s\<lparr>maint_scanned := maint_scanned s + 1\<rparr>) fmt
        else case store_read E s (bucket_offset s bid) 16 of
          Inl e \<Rightarrow> (Inl e, s)
        | Inr peek \<Rightarrow>
            if bucket_hdr_valid (bld E) peek bid
            then preformat_step E (s\<lparr>maint_scanned := maint_scanned s + 1\<rparr>) fmt
            else if \<not> fmt then (Inr False, s)
            else seqs (format_bucket E s bid) (\<lambda>_ s.
              (Inr True, s\<lparr>maint_scanned := maint_scanned s + 1\<rparr>))
      else (Inr False, s))"
  by pat_completeness auto
termination
  by (relation "measure (\<lambda>(E, s, fmt). n_buckets s - maint_scanned s)") auto

declare preformat_step.simps [simp del]

lemma preformat_step_advances:
  "preformat_step E s fmt = (Inr True, s') \<Longrightarrow>
   n_buckets s' = n_buckets s \<and> maint_scanned s < maint_scanned s' \<and> maint_scanned s' \<le> n_buckets s"
proof (induction E s fmt rule: preformat_step.induct)
  case (1 E s fmt)
  let ?bid = "(maint_start s + maint_scanned s) mod n_buckets s"
  have fb: "format_bucket E s ?bid = (r, t) \<Longrightarrow> n_buckets t = n_buckets s \<and> maint_scanned t = maint_scanned s"
    for r t by (auto simp: format_bucket_def store_replace_def split: prod.splits)
  show ?case
  proof (cases "?bid = root_bid s")
    case True
    with 1 show ?thesis by (auto simp: preformat_step.simps [of E s] Let_def split: if_splits)
  next
    case False
    from 1(3) have sc: "maint_scanned s < n_buckets s"
      by (auto simp: preformat_step.simps [of E s] split: if_splits)
    from 1(3) False sc obtain peek where p: "store_read E s (bucket_offset s ?bid) 16 = Inr peek"
      by (auto simp: preformat_step.simps [of E s] Let_def split: sum.splits)
    note st = 1(3) [unfolded preformat_step.simps [of E s]]
    show ?thesis
    proof (cases "bucket_hdr_valid (bld E) peek ?bid")
      case True
      with 1(2) [OF sc refl False p True] st False sc p show ?thesis by (simp add: Let_def)
    next
      case hv: False
      with st False sc p obtain t where "format_bucket E s ?bid = (Inr (), t)"
        "s' = t\<lparr>maint_scanned := maint_scanned t + 1\<rparr>"
        by (auto simp: Let_def seqs_Inr split: if_splits)
      with fb sc show ?thesis by simp
    qed
  qed
qed

text \<open>The formatting loop of \<open>blob_db_maintain\<close>; the result is the number of buckets formatted.\<close>

function maintain_loop :: "'d env \<Rightarrow> 'd bdb \<Rightarrow> nat \<Rightarrow> nat \<Rightarrow> nat res \<times> nat \<times> 'd bdb" where
  "maintain_loop E s budget performed =
     (case preformat_step E s (performed < budget) of
        (Inl e, s) \<Rightarrow> (Inl e, performed, s)
      | (Inr formatted, s) \<Rightarrow>
          if \<not> formatted then (Inr performed, performed, s)
          else maintain_loop E s budget (performed + 1))"
  by pat_completeness auto
termination
proof (relation "measure (\<lambda>(E, s, budget, performed). n_buckets s - maint_scanned s)", goal_cases)
  case (2 E s budget performed r s' formatted)
  then show ?case using preformat_step_advances [of E s "performed < budget" s'] by auto
qed simp

declare maintain_loop.simps [simp del]

record blob_db_maint_result =
  performed :: nat
  maint_more :: bool

text \<open>A failing backend step has made no progress that it reports.\<close>

definition blob_db_maintain :: "'d env \<Rightarrow> 'd bdb \<Rightarrow> nat \<Rightarrow> unit res \<times> blob_db_maint_result \<times> 'd bdb" where
  "blob_db_maintain E s budget =
     (if \<not> mounted s then (Inl ENODEV, \<lparr>performed = 0, maint_more = False\<rparr>, s)
      else if wedged s then (Inl EIO, \<lparr>performed = 0, maint_more = False\<rparr>, s)
      else
        let (rc, n, s1) = (if preformat s then maintain_loop E s budget 0 else (Inr 0, 0, s));
            mo = (preformat s \<and> maint_scanned s1 < n_buckets s1) in
        case rc of
          Inl e \<Rightarrow> (Inl e, \<lparr>performed = n, maint_more = False\<rparr>, s1)
        | Inr _ \<Rightarrow>
            (case blob_db_store_maintain (sto E) (dev s1) (budget - n) of
               (Inl e, d) \<Rightarrow> (Inl e, \<lparr>performed = n, maint_more = mo\<rparr>, s1\<lparr>dev := d\<rparr>)
             | (Inr (dn, mr), d) \<Rightarrow> (Inr (), \<lparr>performed = n + dn, maint_more = (mo \<or> mr)\<rparr>, s1\<lparr>dev := d\<rparr>)))"

section \<open>The public entry points\<close>

definition then_reset :: "unit res \<times> 'd bdb \<Rightarrow> unit res \<times> 'd bdb" where
  "then_reset r = seqs r (\<lambda>_ s. (Inr (), maint_reset s))"

definition blob_db_mount :: "'d env \<Rightarrow> 'd bdb \<Rightarrow> unit res \<times> 'd bdb" where
  "blob_db_mount E s = then_reset (mount_impl E s)"

definition blob_db_unmount :: "'d env \<Rightarrow> 'd bdb \<Rightarrow> unit res \<times> 'd bdb" where
  "blob_db_unmount E s = unmount_impl E s"

definition blob_db_format :: "'d env \<Rightarrow> 'd bdb \<Rightarrow> unit res \<times> 'd bdb" where
  "blob_db_format E s = then_reset (format_impl E s)"

definition blob_db_erase_all :: "'d env \<Rightarrow> 'd bdb \<Rightarrow> unit res \<times> 'd bdb" where
  "blob_db_erase_all E s = then_reset (erase_all_impl E s)"

definition blob_db_alloc_id :: "'d env \<Rightarrow> 'd bdb \<Rightarrow> u64 \<times> 'd bdb" where
  "blob_db_alloc_id E s = alloc_id_impl E s"

end
