(* ===== verification/Object_Store.thy ===== *)
theory Object_Store
  imports Blob_Mount
begin

text \<open>
  The interface between blob_db and the structures built on it: the calls of
  \<open>include/app/lib/blob_db.h\<close> that root registry, containers and blobfs use, as a record of
  operations on a session state, and the locale \<open>object_store\<close> of what they promise. A client is
  written against the record and proved inside the locale; \<open>Blob_Object\<close> shows that blob_db on a
  working device keeps the promise.

  A call either takes effect or fails without one, and the state after it is one the next call
  works on. \<open>nxt\<close> is the first id never handed out. \<open>cut_api\<close> is the same store with the power
  cut after a number of writes, as the test hook of \<open>kvhash.c\<close> does it; it keeps the promise too,
  so what is proved of a client for every store holds at every cut point.
\<close>

record 's blob_api =
  api_get :: "'s \<Rightarrow> u64 \<Rightarrow> nat \<Rightarrow> byte list res"
  api_read :: "'s \<Rightarrow> u64 \<Rightarrow> nat \<Rightarrow> nat \<Rightarrow> byte list res"
  api_size :: "'s \<Rightarrow> u64 \<Rightarrow> nat res"
  api_update :: "'s \<Rightarrow> u64 \<Rightarrow> byte list \<Rightarrow> unit res \<times> 's"
  api_delete :: "'s \<Rightarrow> u64 \<Rightarrow> unit res \<times> 's"
  api_alloc_id :: "'s \<Rightarrow> u64 \<times> 's"
  api_write :: "'s \<Rightarrow> u64 \<Rightarrow> nat \<Rightarrow> byte list \<Rightarrow> unit res \<times> 's"

definition blob_db_api :: "'d env \<Rightarrow> 'd bdb blob_api" where
  "blob_db_api E =
     \<lparr>api_get = (\<lambda>s x n. blob_db_get E s x False n),
      api_read = (\<lambda>s x off n. blob_db_read E s x off False n),
      api_size = (\<lambda>s x. blob_db_size E s x False),
      api_update = (\<lambda>s x p. blob_db_update E s x (Some p) (length p)),
      api_delete = blob_db_delete E,
      api_alloc_id = blob_db_alloc_id E,
      api_write = (\<lambda>s x off p. blob_db_write E s x (word_of_nat off) (Some p) (word_of_nat (length p)))\<rparr>"

text \<open>The number of ids the 64-bit counter and the ceiling above it can hold.\<close>

definition ID_LIMIT :: nat where "ID_LIMIT = 2 ^ 64 - 258"

text \<open>A call of which an error has no effect.\<close>

definition effect :: "'a res \<Rightarrow> 'b \<Rightarrow> 'b \<Rightarrow> 'b" where
  "effect r new old = (case r of Inl _ \<Rightarrow> old | Inr _ \<Rightarrow> new)"

lemma effect_simps [simp]: "effect (Inl e) new old = old" "effect (Inr x) new old = new"
  by (simp_all add: effect_def)

text \<open>What a write of \<open>q\<close> at an offset makes of an object: the range replaced, a gap before it zeros.\<close>

definition write_over :: "byte list \<Rightarrow> nat \<Rightarrow> byte list \<Rightarrow> byte list" where
  "write_over p off q = splice (p @ replicate (off + length q - length p) 0) off q"

lemma length_write_over: "length (write_over p off q) = max (length p) (off + length q)"
  by (simp add: write_over_def splice_def)

locale object_store =
  fixes A :: "'s blob_api" and inv :: "'s \<Rightarrow> bool" and objs :: "'s \<Rightarrow> u64 \<Rightarrow> byte list option"
    and nxt :: "'s \<Rightarrow> nat" and cap :: nat
  assumes get_law: "inv s \<Longrightarrow> api_get A s x n =
      (case objs s x of None \<Rightarrow> Inl ENOENT | Some p \<Rightarrow> if n < length p then Inl ENOMEM else Inr p)"
    and read_law: "inv s \<Longrightarrow> api_read A s x off n =
      (case objs s x of None \<Rightarrow> Inl ENOENT | Some p \<Rightarrow> Inr (take n (drop off p)))"
    and size_law: "inv s \<Longrightarrow> api_size A s x =
      (case objs s x of None \<Rightarrow> Inl ENOENT | Some p \<Rightarrow> Inr (length p))"
    and update_law: "inv s \<Longrightarrow> api_update A s x p = (r, s') \<Longrightarrow>
      inv s' \<and> nxt s' = nxt s \<and> objs s' = effect r ((objs s)(x \<mapsto> p)) (objs s)"
    and delete_law: "inv s \<Longrightarrow> api_delete A s x = (r, s') \<Longrightarrow>
      inv s' \<and> nxt s' = nxt s \<and> objs s' = effect r ((objs s)(x := None)) (objs s) \<and> (r = Inl ENOENT \<longrightarrow> objs s x = None)"
    and alloc_law: "inv s \<Longrightarrow> nxt s < ID_LIMIT \<Longrightarrow> api_alloc_id A s = (x, s') \<Longrightarrow>
      inv s' \<and> objs s' = objs s \<and> (x = 0 \<and> nxt s' = nxt s \<or> unat x = nxt s \<and> nxt s' = Suc (nxt s))"
    and bound_law: "inv s \<Longrightarrow> objs s x = Some p \<Longrightarrow> x \<noteq> 0 \<and> unat x < nxt s \<and> length p \<le> cap"
    and nxt_law: "inv s \<Longrightarrow> 0 < nxt s"
    and write_law: "inv s \<Longrightarrow> q \<noteq> [] \<Longrightarrow> off + length q < 2 ^ 32 \<Longrightarrow> api_write A s x off q = (r, s') \<Longrightarrow>
      inv s' \<and> nxt s' = nxt s \<and>
      (case objs s x of None \<Rightarrow> (\<exists>e. r = Inl e) \<and> objs s' = objs s
       | Some p \<Rightarrow> objs s' = effect r ((objs s)(x \<mapsto> write_over p off q)) (objs s))"
begin

lemma get_Inr: "inv s \<Longrightarrow> api_get A s x n = Inr p \<longleftrightarrow> objs s x = Some p \<and> length p \<le> n"
  by (auto simp: get_law split: option.splits if_splits)

lemma get_ENOENT: "inv s \<Longrightarrow> api_get A s x n = Inl ENOENT \<longleftrightarrow> objs s x = None"
  by (auto simp: get_law split: option.splits)

lemma get_fits: "inv s \<Longrightarrow> cap \<le> n \<Longrightarrow> api_get A s x n = (case objs s x of None \<Rightarrow> Inl ENOENT | Some p \<Rightarrow> Inr p)"
  using bound_law by (fastforce simp: get_law split: option.splits)

lemma objs_zero [simp]: "inv s \<Longrightarrow> objs s 0 = None"
  using bound_law [of s 0] by fastforce

lemma objs_fresh: "inv s \<Longrightarrow> nxt s \<le> unat x \<Longrightarrow> objs s x = None"
  using bound_law [of s x] by fastforce

lemma fresh_id:
  assumes "inv s" "nxt s < ID_LIMIT" "api_alloc_id A s = (x, s')" "x \<noteq> 0"
  shows "inv s'" "objs s' = objs s" "unat x = nxt s" "nxt s' = Suc (nxt s)" "objs s x = None"
  using alloc_law [OF assms(1-3)] assms(4) objs_fresh [OF assms(1), of x] by simp_all

end

section \<open>A power cut\<close>

definition cut_write :: "('s \<Rightarrow> unit res \<times> 's) \<Rightarrow> 's \<times> nat option \<Rightarrow> unit res \<times> ('s \<times> nat option)" where
  "cut_write f st =
     (case st of
        (s, None) \<Rightarrow> (let (r, s') = f s in (r, (s', None)))
      | (s, Some 0) \<Rightarrow> (Inl EINTR, (s, Some 0))
      | (s, Some (Suc k)) \<Rightarrow> (let (r, s') = f s in (r, (s', Some k))))"

definition cut_api :: "'s blob_api \<Rightarrow> ('s \<times> nat option) blob_api" where
  "cut_api A =
     \<lparr>api_get = (\<lambda>st. api_get A (fst st)), api_read = (\<lambda>st. api_read A (fst st)),
      api_size = (\<lambda>st. api_size A (fst st)),
      api_update = (\<lambda>st x p. cut_write (\<lambda>s. api_update A s x p) st),
      api_delete = (\<lambda>st x. cut_write (\<lambda>s. api_delete A s x) st),
      api_alloc_id = (\<lambda>st. let (x, s') = api_alloc_id A (fst st) in (x, (s', snd st))),
      api_write = (\<lambda>st x off p. cut_write (\<lambda>s. api_write A s x off p) st)\<rparr>"

lemma cut_write_cases:
  assumes "cut_write f st = (r, st')"
  obtains "r = Inl EINTR" "st' = st" | "f (fst st) = (r, fst st')"
  using assms
  by (auto simp: cut_write_def Let_def split: prod.splits option.splits nat.splits)

context object_store
begin

lemma cut_object_store:
  "object_store (cut_api A) (\<lambda>st. inv (fst st)) (\<lambda>st. objs (fst st)) (\<lambda>st. nxt (fst st)) cap"
proof (unfold_locales, goal_cases)
  case (4 st x p r st')
  then show ?case by (auto simp: cut_api_def elim!: cut_write_cases dest: update_law)
next
  case (5 st x r st')
  then show ?case by (auto simp: cut_api_def elim!: cut_write_cases dest: delete_law)
next
  case (6 st x st')
  then show ?case by (auto simp: cut_api_def split: prod.splits dest: alloc_law)
next
  case (9 st q off x r st')
  then have "cut_write (\<lambda>s. api_write A s x off q) st = (r, st')" by (simp add: cut_api_def)
  then show ?case
  proof (cases rule: cut_write_cases)
    case 1
    then show ?thesis using 9(1) by (auto split: option.splits)
  next
    case 2
    from write_law [OF 9(1-3) 2] show ?thesis by simp
  qed
qed (auto simp: cut_api_def get_law read_law size_law nxt_law dest: bound_law)

end

section \<open>A store in memory\<close>

text \<open>The interface's laws as a program: a map and a counter. The first id is 2, after the root.\<close>

type_synonym mem = "(u64 \<rightharpoonup> byte list) \<times> nat"

definition mem_api :: "nat \<Rightarrow> mem blob_api" where
  "mem_api cap =
     \<lparr>api_get = (\<lambda>s x n. case fst s x of None \<Rightarrow> Inl ENOENT | Some p \<Rightarrow> if n < length p then Inl ENOMEM else Inr p),
      api_read = (\<lambda>s x off n. case fst s x of None \<Rightarrow> Inl ENOENT | Some p \<Rightarrow> Inr (take n (drop off p))),
      api_size = (\<lambda>s x. case fst s x of None \<Rightarrow> Inl ENOENT | Some p \<Rightarrow> Inr (length p)),
      api_update = (\<lambda>s x p. if x = 0 \<or> unat x \<ge> snd s \<or> length p > cap then (Inl EINVAL, s)
        else (Inr (), ((fst s)(x \<mapsto> p), snd s))),
      api_delete = (\<lambda>s x. case fst s x of None \<Rightarrow> (Inl ENOENT, s) | Some _ \<Rightarrow> (Inr (), ((fst s)(x := None), snd s))),
      api_alloc_id = (\<lambda>s. (word_of_nat (snd s), (fst s, Suc (snd s)))),
      api_write = (\<lambda>s x off q. case fst s x of None \<Rightarrow> (Inl ENOENT, s)
        | Some p \<Rightarrow> if max (length p) (off + length q) > cap then (Inl EFBIG, s)
            else (Inr (), ((fst s)(x \<mapsto> write_over p off q), snd s)))\<rparr>"

definition mem_inv :: "nat \<Rightarrow> mem \<Rightarrow> bool" where
  "mem_inv cap s \<longleftrightarrow>
     0 < snd s \<and> fst s 0 = None \<and> (\<forall>x p. fst s x = Some p \<longrightarrow> unat x < snd s \<and> length p \<le> cap)"

interpretation mem: object_store "mem_api cap" "mem_inv cap" fst snd cap for cap
proof (unfold_locales, goal_cases)
  case (4 s x p r s')
  then show ?case by (auto simp: mem_api_def mem_inv_def split: if_split_asm)
next
  case (5 s x r s')
  then show ?case by (auto simp: mem_api_def mem_inv_def split: option.splits if_splits)
next
  case (6 s x s')
  then show ?case by (auto simp: mem_api_def mem_inv_def ID_LIMIT_def unat_of_nat less_Suc_eq)
next
  case (9 s q off x r s')
  then show ?case by (auto simp: mem_api_def mem_inv_def length_write_over split: option.splits if_splits)
qed (auto simp: mem_api_def mem_inv_def split: option.splits)

end
