(* ===== verification/Kv_Hash.thy ===== *)
theory Kv_Hash
  imports Object_Store
begin

text \<open>
  L2, the hash map container (\<open>lib/containers/kvhash/kvhash.c\<close>): directories, packed buckets,
  spilled keys and values, the geometry derived from a declared population, and the eight
  operations of \<open>kvhash_map_ops\<close>.

  The two static buffers are values here: a directory or a bucket that was read is an argument of
  what works on it. \<open>size_t\<close> has 32 bits, which matters in \<open>derive_geometry\<close> only; its search loop
  need not end, so what runs it answers \<open>None\<close> where the code does not return. Every flash write
  goes through \<open>kv_update\<close> and \<open>kv_delete\<close>; a power cut between two of them (the code's test hook)
  is the store \<open>cut_api\<close>.
\<close>

section \<open>Layout\<close>

definition KVHASH_DIR_MAGIC :: u32 where "KVHASH_DIR_MAGIC = 0x4b564841"
definition KVHASH_DIR_DYING :: u32 where "KVHASH_DIR_DYING = 0x4b564844"
definition KVHASH_VERSION :: nat where "KVHASH_VERSION = 3"
definition KVHASH_VERSION_MIN :: nat where "KVHASH_VERSION_MIN = 2"
definition DIR_HDR_LEN :: nat where "DIR_HDR_LEN = 8"
definition MAX_BUCKETS :: "build \<Rightarrow> nat" where "MAX_BUCKETS B = (MAX_PAYLOAD_LEN B - DIR_HDR_LEN) div 8"
definition ENTRY_HDR_LEN :: nat where "ENTRY_HDR_LEN = 4"
definition ENTRY_LIMIT :: "build \<Rightarrow> nat" where "ENTRY_LIMIT B = MAX_PAYLOAD_LEN B - ENTRY_HDR_LEN"
definition ENT_SPILL :: nat where "ENT_SPILL = 0x8000"
definition ENT_LEN_MASK :: nat where "ENT_LEN_MASK = 0x7fff"
definition KEY_REF_LEN :: nat where "KEY_REF_LEN = 12"
definition VAL_REF_LEN :: nat where "VAL_REF_LEN = 8"
definition KEY_CHUNK :: nat where "KEY_CHUNK = 64"

text \<open>The write policy: the two inline thresholds.\<close>

record kv_policy =
  key_inline_max :: nat
  val_inline_max :: nat

definition kvhash_set_inline_max :: "nat \<Rightarrow> nat \<Rightarrow> kv_policy" where
  "kvhash_set_inline_max key_max val_max =
     \<lparr>key_inline_max = min key_max ENT_LEN_MASK, val_inline_max = min val_max ENT_LEN_MASK\<rparr>"

definition kv_update :: "'s blob_api \<Rightarrow> 's \<Rightarrow> u64 \<Rightarrow> byte list \<Rightarrow> unit res \<times> 's" where
  "kv_update A s x p = api_update A s x p"

definition kv_delete :: "'s blob_api \<Rightarrow> 's \<Rightarrow> u64 \<Rightarrow> unit res \<times> 's" where
  "kv_delete A s x = api_delete A s x"

definition get_u16 :: "byte list \<Rightarrow> nat \<Rightarrow> nat" where "get_u16 buf off = of_le (field off 2 buf)"
definition get_u32 :: "byte list \<Rightarrow> nat \<Rightarrow> u32" where "get_u32 buf off = word_of_nat (of_le (field off 4 buf))"
definition get_u64 :: "byte list \<Rightarrow> nat \<Rightarrow> u64" where "get_u64 buf off = word_of_nat (of_le (field off 8 buf))"

definition key_hash :: "build \<Rightarrow> byte list \<Rightarrow> u32" where "key_hash B key = crc32_ieee B key"
definition hash_fp :: "u32 \<Rightarrow> u32" where "hash_fp h = h AND 0xffffffff"
definition key_fp :: "build \<Rightarrow> byte list \<Rightarrow> u32" where "key_fp B key = hash_fp (key_hash B key)"
definition idx_top :: "u32 \<Rightarrow> nat \<Rightarrow> nat" where "idx_top h n = unat (drop_bit 16 h) mod n"
definition idx_sub :: "u32 \<Rightarrow> nat \<Rightarrow> nat" where "idx_sub h n = unat (h AND 0xffff) mod n"

section \<open>Directories\<close>

definition dir_len :: "nat \<Rightarrow> nat" where "dir_len n = DIR_HDR_LEN + n * 8"

definition dir_child :: "byte list \<Rightarrow> nat \<Rightarrow> u64" where
  "dir_child buf idx = get_u64 buf (DIR_HDR_LEN + idx * 8)"

definition dir_set_child :: "byte list \<Rightarrow> nat \<Rightarrow> u64 \<Rightarrow> byte list" where
  "dir_set_child buf idx x = splice buf (DIR_HDR_LEN + idx * 8) (le_bytes 8 (unat x))"

definition dir_format :: "nat \<Rightarrow> nat \<Rightarrow> byte list" where
  "dir_format n depth =
     le_bytes 4 (unat KVHASH_DIR_MAGIC) @ le_bytes 2 n @ [word_of_nat KVHASH_VERSION, word_of_nat depth] @
     replicate (n * 8) 0"

text \<open>A loaded directory: its buffer, its fan-out and its depth.\<close>

record dir =
  dbuf :: "byte list"
  dn :: nat
  ddepth :: nat

definition dir_load_raw :: "build \<Rightarrow> 's blob_api \<Rightarrow> 's \<Rightarrow> u64 \<Rightarrow> (dir \<times> bool) res" where
  "dir_load_raw B A s root =
     andthen (api_get A s root (MAX_PAYLOAD_LEN B)) (\<lambda>buf.
       if length buf < DIR_HDR_LEN then Inl EIO
       else let magic = get_u32 buf 0 in
       if magic \<noteq> KVHASH_DIR_MAGIC \<and> magic \<noteq> KVHASH_DIR_DYING then Inl EIO
       else if unat (buf ! 6) < KVHASH_VERSION_MIN \<or> unat (buf ! 6) > KVHASH_VERSION then Inl EIO
       else let n = get_u16 buf 4; depth = unat (buf ! 7) in
       if n < 2 \<or> n > MAX_BUCKETS B \<or> length buf < dir_len n then Inl EIO
       else if depth \<noteq> 1 \<and> depth \<noteq> 2 then Inl EIO
       else Inr (\<lparr>dbuf = buf, dn = n, ddepth = depth\<rparr>, magic = KVHASH_DIR_DYING))"

definition dir_load :: "build \<Rightarrow> 's blob_api \<Rightarrow> 's \<Rightarrow> u64 \<Rightarrow> dir res" where
  "dir_load B A s root =
     andthen (dir_load_raw B A s root) (\<lambda>(d, dying). if dying then Inl ENOENT else Inr d)"

text \<open>The leaf directory that holds a hash: its id, the loaded directory and the bucket index.\<close>

definition resolve_leaf :: "build \<Rightarrow> 's blob_api \<Rightarrow> 's \<Rightarrow> u64 \<Rightarrow> u32 \<Rightarrow> (u64 \<times> dir \<times> nat) res" where
  "resolve_leaf B A s root h =
     andthen (dir_load B A s root) (\<lambda>d.
       if ddepth d = 1 then Inr (root, d, idx_sub h (dn d))
       else let sub = dir_child (dbuf d) (idx_top h (dn d)) in
       if sub = 0 then Inl EIO
       else andthen (dir_load B A s sub) (\<lambda>d2.
         if ddepth d2 \<noteq> 1 then Inl EIO
         else Inr (sub, d2, idx_sub h (dn d2))))"

definition sub_load :: "build \<Rightarrow> 's blob_api \<Rightarrow> 's \<Rightarrow> u64 \<Rightarrow> dir res" where
  "sub_load B A s sub =
     (if sub = 0 then Inl EIO
      else andthen (dir_load B A s sub) (\<lambda>d. if ddepth d = 1 then Inr d else Inl EIO))"

definition top_child :: "build \<Rightarrow> 's blob_api \<Rightarrow> 's \<Rightarrow> u64 \<Rightarrow> nat \<Rightarrow> u64 res" where
  "top_child B A s root t =
     andthen (dir_load B A s root) (\<lambda>d. if t \<ge> dn d then Inl EIO else Inr (dir_child (dbuf d) t))"

section \<open>Packed buckets\<close>

record ent =
  ent_len :: nat
  kl :: nat
  vl :: nat
  kspill :: bool
  vspill :: bool
  kpos :: nat
  vpos :: nat

definition bkt_entry :: "byte list \<Rightarrow> nat \<Rightarrow> nat \<Rightarrow> ent option" where
  "bkt_entry buf used off =
     (if off + ENTRY_HDR_LEN > used then None
      else
        let kf = get_u16 buf off; vf = get_u16 buf (off + 2);
            ks = (kf div ENT_SPILL mod 2 = 1); vs = (vf div ENT_SPILL mod 2 = 1);
            klen = kf mod ENT_SPILL; vlen = vf mod ENT_SPILL;
            kp = off + ENTRY_HDR_LEN; kpart = (if ks then KEY_REF_LEN else klen);
            len = ENTRY_HDR_LEN + kpart + (if vs then VAL_REF_LEN else vlen) in
        if off + len \<le> used
        then Some \<lparr>ent_len = len, kl = klen, vl = vlen, kspill = ks, vspill = vs, kpos = kp, vpos = kp + kpart\<rparr>
        else None)"

lemma bkt_entry_advances: "bkt_entry buf used off = Some e \<Longrightarrow> off < off + ent_len e \<and> off + ent_len e \<le> used"
  by (auto simp: bkt_entry_def Let_def ENTRY_HDR_LEN_def split: if_splits)

definition ent_fp :: "build \<Rightarrow> byte list \<Rightarrow> ent \<Rightarrow> u32" where
  "ent_fp B buf e = (if kspill e then get_u32 buf (kpos e) else key_fp B (field (kpos e) (kl e) buf))"

definition ent_key_id :: "byte list \<Rightarrow> ent \<Rightarrow> u64" where
  "ent_key_id buf e = (if kspill e then get_u64 buf (kpos e + 4) else 0)"

definition ent_val_id :: "byte list \<Rightarrow> ent \<Rightarrow> u64" where
  "ent_val_id buf e = (if vspill e then get_u64 buf (vpos e) else 0)"

text \<open>A key's bytes, in memory or in a blob of their own.\<close>

datatype key_src = KeyRam "byte list" | KeyBlob u64

definition ent_key :: "byte list \<Rightarrow> ent \<Rightarrow> key_src" where
  "ent_key buf e = (if kspill e then KeyBlob (get_u64 buf (kpos e + 4)) else KeyRam (field (kpos e) (kl e) buf))"

definition key_chunk :: "'s blob_api \<Rightarrow> 's \<Rightarrow> key_src \<Rightarrow> nat \<Rightarrow> nat \<Rightarrow> byte list res" where
  "key_chunk A s k pos n =
     (case k of
        KeyRam p \<Rightarrow> Inr (field pos n p)
      | KeyBlob x \<Rightarrow>
          if x = 0 then Inl EIO
          else (case api_read A s x pos n of
              Inl e \<Rightarrow> Inl (if e = ENOENT then EIO else e)
            | Inr bs \<Rightarrow> if length bs = n then Inr bs else Inl EIO))"

text \<open>The sign of C's \<open>memcmp\<close>.\<close>

fun memcmp :: "byte list \<Rightarrow> byte list \<Rightarrow> int" where
  "memcmp (a # as) (b # bs) = (if a < b then -1 else if b < a then 1 else memcmp as bs)"
| "memcmp _ _ = 0"

function key_cmp_stream :: "'s blob_api \<Rightarrow> 's \<Rightarrow> key_src \<Rightarrow> key_src \<Rightarrow> nat \<Rightarrow> nat \<Rightarrow> int res" where
  "key_cmp_stream A s a b len pos =
     (if pos < len then
        let n = min KEY_CHUNK (len - pos) in
        andthen (key_chunk A s a pos n) (\<lambda>ca.
        andthen (key_chunk A s b pos n) (\<lambda>cb.
          if memcmp ca cb \<noteq> 0 then Inr (memcmp ca cb) else key_cmp_stream A s a b len (pos + KEY_CHUNK)))
      else Inr 0)"
  by pat_completeness auto
termination
  by (relation "measure (\<lambda>(A, s, a, b, len, pos). len - pos)") (auto simp: KEY_CHUNK_def)

declare key_cmp_stream.simps [simp del]

definition key_cmp_bytes ::
  "build \<Rightarrow> 's blob_api \<Rightarrow> 's \<Rightarrow> key_src \<Rightarrow> key_src \<Rightarrow> nat \<Rightarrow> bool \<Rightarrow> int res" where
  "key_cmp_bytes B A s a b len scratch =
     (case (a, b) of
        (KeyRam p, KeyRam q) \<Rightarrow> Inr (memcmp (take len p) (take len q))
      | (KeyRam p, KeyBlob y) \<Rightarrow>
          if scratch \<and> len \<le> MAX_PAYLOAD_LEN B
          then andthen (key_chunk A s b 0 len) (\<lambda>q. Inr (memcmp (take len p) q))
          else key_cmp_stream A s a b len 0
      | (KeyBlob x, KeyRam q) \<Rightarrow>
          if scratch \<and> len \<le> MAX_PAYLOAD_LEN B
          then andthen (key_chunk A s a 0 len) (\<lambda>p. Inr (memcmp p (take len q)))
          else key_cmp_stream A s a b len 0
      | (KeyBlob x, KeyBlob y) \<Rightarrow> key_cmp_stream A s a b len 0)"

text \<open>One entry of \<open>bkt_find\<close>: is it the key?\<close>

definition ent_matches ::
  "build \<Rightarrow> 's blob_api \<Rightarrow> 's \<Rightarrow> byte list \<Rightarrow> byte list \<Rightarrow> u32 \<Rightarrow> ent \<Rightarrow> bool res" where
  "ent_matches B A s buf key fp e =
     (if kl e \<noteq> length key then Inr False
      else if \<not> kspill e then Inr (memcmp (field (kpos e) (kl e) buf) key = 0)
      else if get_u32 buf (kpos e) \<noteq> fp then Inr False
      else andthen (key_cmp_bytes B A s (ent_key buf e) (KeyRam key) (length key) True) (\<lambda>c. Inr (c = 0)))"

function bkt_find ::
  "build \<Rightarrow> 's blob_api \<Rightarrow> 's \<Rightarrow> byte list \<Rightarrow> nat \<Rightarrow> byte list \<Rightarrow> u32 \<Rightarrow> nat \<Rightarrow> (nat \<times> ent) res" where
  "bkt_find B A s buf used key fp off =
     (case bkt_entry buf used off of
        None \<Rightarrow> Inl ENOENT
      | Some e \<Rightarrow>
          andthen (ent_matches B A s buf key fp e) (\<lambda>hit.
            if hit then Inr (off, e) else bkt_find B A s buf used key fp (off + ent_len e)))"
  by pat_completeness auto
termination
  by (relation "measure (\<lambda>(B, A, s, buf, used, key, fp, off). used - off)") (auto dest!: bkt_entry_advances)

declare bkt_find.simps [simp del]

definition release_part :: "'s blob_api \<Rightarrow> 's \<Rightarrow> u64 \<Rightarrow> 's" where
  "release_part A s x = (if x = 0 then s else snd (kv_delete A s x))"

section \<open>Geometry\<close>

record map_config =
  expected_entries :: u32
  typical_entry_bytes :: u32
  max_entry_bytes :: u32

record map_info =
  depth :: nat
  fanout :: nat
  buckets :: nat
  entry_bytes_limit :: nat

text \<open>\<open>while (side * side < buckets) side++\<close>, in 32-bit arithmetic.\<close>

partial_function (option) side_from :: "u32 \<Rightarrow> u32 \<Rightarrow> u32 option" where
  "side_from bkts side = (if side * side < bkts then side_from bkts (side + 1) else Some side)"

definition one_level_load :: "build \<Rightarrow> u32 \<Rightarrow> u32" where
  "one_level_load B maxent =
     (if maxent = 0 then 4
      else let by_size = (word_of_nat (MAX_PAYLOAD_LEN B) * 60 div 100) div maxent;
               load = (if by_size < 4 then by_size else 4) in
        if load = 0 then 1 else load)"

text \<open>Depth, fan-out of the top and of the sub-maps. \<open>None\<close>: the loop does not end.\<close>

definition derive_geometry :: "build \<Rightarrow> map_config option \<Rightarrow> (nat \<times> nat \<times> nat) res option" where
  "derive_geometry B cfg =
     (let entries = (case cfg of None \<Rightarrow> 0 | Some c \<Rightarrow> expected_entries c);
          typical = (case cfg of None \<Rightarrow> 0 | Some c \<Rightarrow> typical_entry_bytes c);
          maxent = (case cfg of None \<Rightarrow> 0 | Some c \<Rightarrow> max_entry_bytes c) in
      if maxent \<noteq> 0 \<and> unat maxent > ENTRY_LIMIT B then Some (Inl EINVAL)
      else if typical \<noteq> 0 \<and> maxent \<noteq> 0 \<and> typical > maxent then Some (Inl EINVAL)
      else if entries = 0 then Some (Inr (1, 8, 0))
      else
      let load = one_level_load B maxent;
          want = (entries + load - 1) div load;
          want = (if want < 2 then 2 else want) in
      if want \<le> 255 \<and> unat want \<le> MAX_BUCKETS B then Some (Inr (1, unat want, 0))
      else
      let by_bytes = entries * typical div 4096;
          bkts = (if typical \<noteq> 0 \<and> by_bytes < entries then by_bytes else entries);
          bkts = (if bkts < 255 then 255 else bkts) in
      case side_from bkts 1 of
        None \<Rightarrow> None
      | Some side \<Rightarrow>
          let side = (if side < 2 then 2 else side) in
          if unat side > MAX_BUCKETS B then Some (Inl EINVAL)
          else Some (Inr (2, unat side mod 65536, unat side mod 65536)))"

definition fill_info :: "build \<Rightarrow> nat \<Rightarrow> nat \<Rightarrow> nat \<Rightarrow> map_info" where
  "fill_info B dp n_top n_sub =
     \<lparr>depth = dp, fanout = (if dp = 2 then n_top else 0), buckets = (if dp = 2 then n_top * n_sub else n_top),
      entry_bytes_limit = ENTRY_LIMIT B\<rparr>"

section \<open>Create and stat\<close>

text \<open>The sub-maps of a two-level map, allocated and written one after the other; \<open>i\<close> counts up.\<close>

primrec create_subs ::
  "'s blob_api \<Rightarrow> 's \<Rightarrow> byte list \<Rightarrow> nat \<Rightarrow> nat \<Rightarrow> byte list \<Rightarrow> byte list res \<times> 's" where
  "create_subs A s sub_image 0 i dirb = (Inr dirb, s)"
| "create_subs A s sub_image (Suc k) i dirb =
     (let (sub, s) = api_alloc_id A s in
      if sub = 0 then (Inl ENOSPC, s)
      else seqs (kv_update A s sub sub_image) (\<lambda>_ s.
        create_subs A s sub_image k (i + 1) (dir_set_child dirb i sub)))"

definition kvhash_create ::
  "build \<Rightarrow> 's blob_api \<Rightarrow> 's \<Rightarrow> u64 \<Rightarrow> map_config option \<Rightarrow> (unit res \<times> 's) option" where
  "kvhash_create B A s root cfg =
     (case derive_geometry B cfg of
        None \<Rightarrow> None
      | Some (Inl e) \<Rightarrow> Some (Inl e, s)
      | Some (Inr (dp, n_top, n_sub)) \<Rightarrow> Some (
          if dp = 1 then kv_update A s root (dir_format n_top 1)
          else seqs (create_subs A s (dir_format n_sub 1) n_top 0 (dir_format n_top 2)) (\<lambda>dirb s.
            kv_update A s root dirb)))"

definition kvhash_stat :: "build \<Rightarrow> 's blob_api \<Rightarrow> 's \<Rightarrow> u64 \<Rightarrow> bool \<Rightarrow> map_info res" where
  "kvhash_stat B A s root out_null =
     (if out_null then Inl EINVAL
      else andthen (dir_load B A s root) (\<lambda>d.
        if ddepth d = 1 then Inr (fill_info B 1 (dn d) 0)
        else let sub = dir_child (dbuf d) 0 in
        if sub = 0 then Inl EIO
        else andthen (dir_load B A s sub) (\<lambda>d2. Inr (fill_info B 2 (dn d) (dn d2)))))"

section \<open>Get, set and delete\<close>

text \<open>The result of a call that reports a length apart from its status: \<open>*out_len\<close> is written where
  the second component is \<open>Some\<close>.\<close>

definition ent_value ::
  "'s blob_api \<Rightarrow> 's \<Rightarrow> byte list \<Rightarrow> ent \<Rightarrow> nat \<Rightarrow> byte list res" where
  "ent_value A s buf e out_sz =
     (if vl e > out_sz then Inl ENOMEM
      else if \<not> vspill e then Inr (field (vpos e) (vl e) buf)
      else let vid = ent_val_id buf e in
      if vid = 0 then Inl EIO
      else (case api_get A s vid out_sz of
          Inl e \<Rightarrow> Inl (if e = ENOENT \<or> e = ENOMEM then EIO else e)
        | Inr bs \<Rightarrow> if length bs = vl e then Inr bs else Inl EIO))"

definition kvhash_get ::
  "build \<Rightarrow> 's blob_api \<Rightarrow> 's \<Rightarrow> u64 \<Rightarrow> byte list \<Rightarrow> nat \<Rightarrow> byte list res \<times> nat option" where
  "kvhash_get B A s root key out_sz =
     (let klen = length key in
      if klen = 0 \<or> klen > 0xffff then (Inl EINVAL, None)
      else if klen > ENT_LEN_MASK then (Inl ENOENT, None)
      else let h = key_hash B key in
      case resolve_leaf B A s root h of
        Inl e \<Rightarrow> (Inl e, None)
      | Inr (leaf, d, idx) \<Rightarrow>
          let bid = dir_child (dbuf d) idx in
          if bid = 0 then (Inl ENOENT, None)
          else case api_get A s bid (MAX_PAYLOAD_LEN B) of
            Inl e \<Rightarrow> (Inl e, None)
          | Inr bkt \<Rightarrow>
              case bkt_find B A s bkt (length bkt) key (hash_fp h) 0 of
                Inl e \<Rightarrow> (Inl e, None)
              | Inr (off, e) \<Rightarrow> (ent_value A s bkt e out_sz, Some (vl e)))"

text \<open>Write a fresh blob.\<close>

definition bind_part :: "'s blob_api \<Rightarrow> 's \<Rightarrow> byte list \<Rightarrow> u64 res \<times> 's" where
  "bind_part A s bs =
     (let (x, s) = api_alloc_id A s in
      if x = 0 then (Inl EIO, s)
      else seqs (kv_update A s x bs) (\<lambda>_ s. (Inr x, s)))"

definition entry_bytes :: "byte list \<Rightarrow> byte list \<Rightarrow> bool \<Rightarrow> bool \<Rightarrow> u32 \<Rightarrow> u64 \<Rightarrow> u64 \<Rightarrow> byte list" where
  "entry_bytes key val ks vs fp kid vid =
     le_bytes 2 (length key + (if ks then ENT_SPILL else 0)) @ le_bytes 2 (length val + (if vs then ENT_SPILL else 0)) @
     (if ks then le_bytes 4 (unat fp) @ le_bytes 8 (unat kid) else key) @
     (if vs then le_bytes 8 (unat vid) else val)"

definition set_undo :: "'s blob_api \<Rightarrow> 's \<Rightarrow> u64 \<Rightarrow> bool \<Rightarrow> u64 \<Rightarrow> 's" where
  "set_undo A s vid fresh_kid kid =
     (let s = release_part A s vid in if fresh_kid then release_part A s kid else s)"

text \<open>Where the new entry goes: the leaf directory, its index and the bucket (0: none yet).\<close>

record place =
  pl_leaf :: u64
  pl_dir :: dir
  pl_idx :: nat
  pl_bid :: u64

text \<open>Steps 2 and 3: commit the bucket, publish a fresh one, release what only the old entry had.\<close>

definition set_publish ::
  "'s blob_api \<Rightarrow> 's \<Rightarrow> place \<Rightarrow> u64 \<Rightarrow> unit res \<times> 's" where
  "set_publish A s pl bid =
     (if pl_bid pl = 0
      then kv_update A s (pl_leaf pl) (take (dir_len (dn (pl_dir pl))) (dir_set_child (dbuf (pl_dir pl)) (pl_idx pl) bid))
      else (Inr (), s))"

definition set_commit ::
  "'s blob_api \<Rightarrow> 's \<Rightarrow> place \<Rightarrow> byte list \<Rightarrow> u64 \<times> u64 \<Rightarrow> u64 \<times> bool \<Rightarrow> u64 \<Rightarrow> unit res \<times> 's" where
  "set_commit A s pl bkt old_ids kid_fresh vid =
     (let (old_kid, old_vid) = old_ids; (kid, fresh_kid) = kid_fresh;
          (bid, s) = (if pl_bid pl = 0 then api_alloc_id A s else (pl_bid pl, s)) in
      if bid = 0 then (Inl EIO, set_undo A s vid fresh_kid kid)
      else case kv_update A s bid bkt of
        (Inl e, s) \<Rightarrow> (Inl e, set_undo A s vid fresh_kid kid)
      | (Inr _, s) \<Rightarrow>
          (case set_publish A s pl bid of
             (Inl e, s) \<Rightarrow> (Inl e, set_undo A s vid fresh_kid kid)
           | (Inr _, s) \<Rightarrow>
               (let s = (if old_kid \<noteq> kid then release_part A s old_kid else s) in
                (Inr (), release_part A s old_vid))))"

text \<open>Step 1 and on, with the bucket already without the old entry.\<close>

definition set_new ::
  "build \<Rightarrow> 's blob_api \<Rightarrow> 's \<Rightarrow> place \<Rightarrow> byte list \<Rightarrow> byte list \<Rightarrow> bool \<Rightarrow> bool \<Rightarrow> byte list \<Rightarrow> u64 \<times> u64 \<Rightarrow> unit res \<times> 's" where
  "set_new B A s pl key val ks vs bkt old_ids =
     (let need = ENTRY_HDR_LEN + (if ks then KEY_REF_LEN else length key) + (if vs then VAL_REF_LEN else length val) in
      if length bkt + need > MAX_PAYLOAD_LEN B then (Inl ENOSPC, s)
      else
      let kid = (if ks then fst old_ids else 0); fresh_kid = (ks \<and> kid = 0) in
      seqs (if fresh_kid then bind_part A s key else (Inr kid, s)) (\<lambda>kid s.
      case (if vs then bind_part A s val else (Inr 0, s)) of
        (Inl e, s) \<Rightarrow> (Inl e, set_undo A s 0 fresh_kid kid)
      | (Inr vid, s) \<Rightarrow>
          set_commit A s pl (bkt @ entry_bytes key val ks vs (hash_fp (key_hash B key)) kid vid) old_ids (kid, fresh_kid) vid))"

text \<open>The bucket and the entry of the key in it, if there is one.\<close>

definition set_lookup ::
  "build \<Rightarrow> 's blob_api \<Rightarrow> 's \<Rightarrow> u64 \<Rightarrow> byte list \<Rightarrow> (byte list \<times> (nat \<times> ent) option) res" where
  "set_lookup B A s bid key =
     (if bid = 0 then Inr ([], None)
      else andthen (api_get A s bid (MAX_PAYLOAD_LEN B)) (\<lambda>bkt.
        case bkt_find B A s bkt (length bkt) key (hash_fp (key_hash B key)) 0 of
          Inr hit \<Rightarrow> Inr (bkt, Some hit)
        | Inl e \<Rightarrow> if e = ENOENT then Inr (bkt, None) else Inl e))"

text \<open>With the place known: an unchanged length lets a spilled value be overwritten in place.\<close>

definition set_at ::
  "build \<Rightarrow> 's blob_api \<Rightarrow> 's \<Rightarrow> place \<Rightarrow> byte list \<Rightarrow> byte list \<Rightarrow> nat \<Rightarrow> bool \<Rightarrow> bool \<Rightarrow> unit res \<times> 's" where
  "set_at B A s pl key bs vlen ks vs =
     (if ks \<and> length key > MAX_PAYLOAD_LEN B then (Inl ENOSPC, s)
      else reads (set_lookup B A s (pl_bid pl) key) s (\<lambda>(bkt, hit).
        case hit of
          None \<Rightarrow> set_new B A s pl key bs ks vs bkt (0, 0)
        | Some (off, old) \<Rightarrow>
            let old_kid = ent_key_id bkt old; old_vid = ent_val_id bkt old in
            if kspill old = ks \<and> vspill old \<and> vs \<and> vl old = vlen
            then if old_vid = 0 then (Inl EIO, s) else kv_update A s old_vid bs
            else set_new B A s pl key bs ks vs (take off bkt @ drop (off + ent_len old) bkt) (old_kid, old_vid)))"

definition kvhash_set ::
  "build \<Rightarrow> kv_policy \<Rightarrow> 's blob_api \<Rightarrow> 's \<Rightarrow> u64 \<Rightarrow> byte list \<Rightarrow> byte list option \<Rightarrow> nat \<Rightarrow> unit res \<times> 's" where
  "kvhash_set B P A s root key val vlen =
     (let klen = length key in
      if klen = 0 \<or> klen > 0xffff \<or> vlen > 0xffff \<or> val = None \<and> vlen \<noteq> 0 then (Inl EINVAL, s)
      else if klen > ENT_LEN_MASK \<or> vlen > ENT_LEN_MASK then (Inl ENOSPC, s)
      else reads (resolve_leaf B A s root (key_hash B key)) s (\<lambda>(leaf, d, idx).
        let can_spill = unat (dbuf d ! 6) \<ge> 3 in
        set_at B A s \<lparr>pl_leaf = leaf, pl_dir = d, pl_idx = idx, pl_bid = dir_child (dbuf d) idx\<rparr> key (c_bytes val vlen) vlen
          (can_spill \<and> klen > key_inline_max P) (can_spill \<and> vlen > val_inline_max P)))"

definition kvhash_del :: "build \<Rightarrow> 's blob_api \<Rightarrow> 's \<Rightarrow> u64 \<Rightarrow> byte list \<Rightarrow> unit res \<times> 's" where
  "kvhash_del B A s root key =
     (let klen = length key in
      if klen = 0 \<or> klen > 0xffff then (Inl EINVAL, s)
      else if klen > ENT_LEN_MASK then (Inl ENOENT, s)
      else let h = key_hash B key in
      reads (resolve_leaf B A s root h) s (\<lambda>(leaf, d, idx).
        let bid = dir_child (dbuf d) idx in
        if bid = 0 then (Inl ENOENT, s)
        else reads (api_get A s bid (MAX_PAYLOAD_LEN B)) s (\<lambda>bkt.
          reads (bkt_find B A s bkt (length bkt) key (hash_fp h) 0) s (\<lambda>(off, e).
            let kid = ent_key_id bkt e; vid = ent_val_id bkt e in
            seqs (kv_update A s bid (take off bkt @ drop (off + ent_len e) bkt)) (\<lambda>_ s.
              (Inr (), release_part A (release_part A s kid) vid))))))"

section \<open>Enumeration\<close>

record okey =
  ok_kl :: nat
  ok_fp :: u32
  ok_src :: key_src

definition okey_cmp :: "build \<Rightarrow> 's blob_api \<Rightarrow> 's \<Rightarrow> okey \<Rightarrow> okey \<Rightarrow> int res" where
  "okey_cmp B A s a b =
     (if ok_kl a \<noteq> ok_kl b then Inr (if ok_kl a < ok_kl b then -1 else 1)
      else if ok_fp a \<noteq> ok_fp b then Inr (if ok_fp a < ok_fp b then -1 else 1)
      else key_cmp_bytes B A s (ok_src a) (ok_src b) (ok_kl a) False)"

definition ent_okey :: "build \<Rightarrow> byte list \<Rightarrow> ent \<Rightarrow> okey" where
  "ent_okey B buf e = \<lparr>ok_kl = kl e, ok_fp = ent_fp B buf e, ok_src = ent_key buf e\<rparr>"

text \<open>Does the entry sort after the cursor, and before the best one so far?\<close>

definition after_cursor :: "build \<Rightarrow> 's blob_api \<Rightarrow> 's \<Rightarrow> okey option \<Rightarrow> okey \<Rightarrow> bool res" where
  "after_cursor B A s cursor k =
     (case cursor of None \<Rightarrow> Inr True | Some c \<Rightarrow> andthen (okey_cmp B A s k c) (\<lambda>r. Inr (r > 0)))"

definition before_best :: "build \<Rightarrow> 's blob_api \<Rightarrow> 's \<Rightarrow> byte list \<Rightarrow> (nat \<times> ent) option \<Rightarrow> okey \<Rightarrow> bool res" where
  "before_best B A s buf best k =
     (case best of None \<Rightarrow> Inr True | Some (_, b) \<Rightarrow> andthen (okey_cmp B A s k (ent_okey B buf b)) (\<lambda>r. Inr (r < 0)))"

function bkt_first_from ::
  "build \<Rightarrow> 's blob_api \<Rightarrow> 's \<Rightarrow> byte list \<Rightarrow> nat \<Rightarrow> okey option \<Rightarrow> (nat \<times> ent) option \<Rightarrow> nat \<Rightarrow> nat res" where
  "bkt_first_from B A s buf used cursor best off =
     (case bkt_entry buf used off of
        None \<Rightarrow> (case best of None \<Rightarrow> Inl ENODATA | Some (boff, _) \<Rightarrow> Inr boff)
      | Some e \<Rightarrow>
          andthen (after_cursor B A s cursor (ent_okey B buf e)) (\<lambda>after.
            if \<not> after then bkt_first_from B A s buf used cursor best (off + ent_len e)
            else andthen (before_best B A s buf best (ent_okey B buf e)) (\<lambda>better.
              bkt_first_from B A s buf used cursor (if better then Some (off, e) else best) (off + ent_len e))))"
  by pat_completeness auto
termination
  by (relation "measure (\<lambda>(B, A, s, buf, used, cursor, best, off). used - off)") (auto dest!: bkt_entry_advances)

declare bkt_first_from.simps [simp del]

definition bkt_first_after :: "build \<Rightarrow> 's blob_api \<Rightarrow> 's \<Rightarrow> byte list \<Rightarrow> nat \<Rightarrow> okey option \<Rightarrow> nat res" where
  "bkt_first_after B A s buf used cursor = bkt_first_from B A s buf used cursor None 0"

text \<open>The buckets \<open>is\<close> of a leaf directory, the cursor applying to the first of the search; the hit
  is its bucket and its offset.\<close>

fun leaf_first_loop ::
  "build \<Rightarrow> 's blob_api \<Rightarrow> 's \<Rightarrow> byte list \<Rightarrow> nat \<Rightarrow> okey option \<Rightarrow> nat list \<Rightarrow> (byte list \<times> nat) res" where
  "leaf_first_loop B A s dirb start cursor [] = Inl ENODATA"
| "leaf_first_loop B A s dirb start cursor (i # is) =
     (let bid = dir_child dirb i in
      if bid = 0 then leaf_first_loop B A s dirb start cursor is
      else andthen (api_get A s bid (MAX_PAYLOAD_LEN B)) (\<lambda>bkt.
        case bkt_first_after B A s bkt (length bkt) (if i = start then cursor else None) of
          Inr off \<Rightarrow> Inr (bkt, off)
        | Inl e \<Rightarrow> if e \<noteq> ENODATA then Inl e else leaf_first_loop B A s dirb start cursor is))"

definition leaf_first_after ::
  "build \<Rightarrow> 's blob_api \<Rightarrow> 's \<Rightarrow> dir \<Rightarrow> nat \<Rightarrow> okey option \<Rightarrow> (byte list \<times> nat) res" where
  "leaf_first_after B A s d start cursor = leaf_first_loop B A s (dbuf d) start cursor [start..<dn d]"

text \<open>The sub-maps \<open>ts\<close> of a two-level map; the top directory is read again for every one but the
  first.\<close>

fun tree_first_loop ::
  "build \<Rightarrow> 's blob_api \<Rightarrow> 's \<Rightarrow> u64 \<Rightarrow> dir \<Rightarrow> nat \<Rightarrow> okey option \<Rightarrow> u32 \<Rightarrow> nat list \<Rightarrow> (byte list \<times> nat) res" where
  "tree_first_loop B A s root d top_start cursor ch [] = Inl ENODATA"
| "tree_first_loop B A s root d top_start cursor ch (t # ts) =
     andthen (if t \<noteq> top_start then top_child B A s root t else Inr (dir_child (dbuf d) t)) (\<lambda>sub.
     andthen (sub_load B A s sub) (\<lambda>d2.
       let here = (t = top_start \<and> cursor \<noteq> None) in
       case leaf_first_after B A s d2 (if here then idx_sub ch (dn d2) else 0) (if here then cursor else None) of
         Inr hit \<Rightarrow> Inr hit
       | Inl e \<Rightarrow> if e \<noteq> ENODATA then Inl e else tree_first_loop B A s root d top_start cursor ch ts))"

definition tree_first_after ::
  "build \<Rightarrow> 's blob_api \<Rightarrow> 's \<Rightarrow> u64 \<Rightarrow> dir \<Rightarrow> nat \<Rightarrow> okey option \<Rightarrow> u32 \<Rightarrow> (byte list \<times> nat) res" where
  "tree_first_after B A s root d top_start cursor ch =
     tree_first_loop B A s root d top_start cursor ch [top_start..<dn d]"

text \<open>The cursor is a key, or empty to start. The second component is the pair of lengths reported.\<close>

definition kvhash_next ::
  "build \<Rightarrow> 's blob_api \<Rightarrow> 's \<Rightarrow> u64 \<Rightarrow> byte list \<Rightarrow> nat \<Rightarrow> nat \<Rightarrow> (byte list \<times> byte list) res \<times> (nat \<times> nat) option" where
  "kvhash_next B A s root key kout_sz vout_sz =
     (let klen = length key in
      if klen > 0xffff then (Inl EINVAL, None)
      else
      let ch = (if klen = 0 then 0 else key_hash B key);
          cursor = (if klen = 0 then None else Some \<lparr>ok_kl = klen, ok_fp = hash_fp ch, ok_src = KeyRam key\<rparr>) in
      case andthen (dir_load B A s root) (\<lambda>d.
          if ddepth d = 1 then leaf_first_after B A s d (if cursor = None then 0 else idx_sub ch (dn d)) cursor
          else tree_first_after B A s root d (if cursor = None then 0 else idx_top ch (dn d)) cursor ch) of
        Inl e \<Rightarrow> (Inl e, None)
      | Inr (bkt, off) \<Rightarrow>
          case bkt_entry bkt (2 ^ 32 - 1) off of
            None \<Rightarrow> (Inl EIO, None)
          | Some e \<Rightarrow>
              (if kl e > kout_sz \<or> vl e > vout_sz then Inl ENOMEM
               else andthen (key_chunk A s (ent_key bkt e) 0 (kl e)) (\<lambda>k.
                    andthen (ent_value A s bkt e vout_sz) (\<lambda>v. Inr (k, v))),
               Some (kl e, vl e)))"

section \<open>Count\<close>

function bkt_entries_from :: "byte list \<Rightarrow> nat \<Rightarrow> nat \<Rightarrow> nat \<Rightarrow> nat" where
  "bkt_entries_from buf used n off =
     (case bkt_entry buf used off of None \<Rightarrow> n | Some e \<Rightarrow> bkt_entries_from buf used (n + 1) (off + ent_len e))"
  by pat_completeness auto
termination
  by (relation "measure (\<lambda>(buf, used, n, off). used - off)") (auto dest!: bkt_entry_advances)

declare bkt_entries_from.simps [simp del]

definition bkt_entries :: "byte list \<Rightarrow> nat \<Rightarrow> nat" where
  "bkt_entries buf used = bkt_entries_from buf used 0 0"

fun leaf_count_loop :: "build \<Rightarrow> 's blob_api \<Rightarrow> 's \<Rightarrow> byte list \<Rightarrow> nat list \<Rightarrow> nat \<Rightarrow> nat res" where
  "leaf_count_loop B A s dirb [] acc = Inr acc"
| "leaf_count_loop B A s dirb (i # is) acc =
     (let bid = dir_child dirb i in
      if bid = 0 then leaf_count_loop B A s dirb is acc
      else andthen (api_get A s bid (MAX_PAYLOAD_LEN B)) (\<lambda>bkt.
        leaf_count_loop B A s dirb is (acc + bkt_entries bkt (length bkt))))"

definition leaf_count :: "build \<Rightarrow> 's blob_api \<Rightarrow> 's \<Rightarrow> dir \<Rightarrow> nat \<Rightarrow> nat res" where
  "leaf_count B A s d acc = leaf_count_loop B A s (dbuf d) [0..<dn d] acc"

fun tree_count_loop :: "build \<Rightarrow> 's blob_api \<Rightarrow> 's \<Rightarrow> u64 \<Rightarrow> dir \<Rightarrow> nat list \<Rightarrow> nat \<Rightarrow> nat res" where
  "tree_count_loop B A s root d [] acc = Inr acc"
| "tree_count_loop B A s root d (t # ts) acc =
     andthen (if t \<noteq> 0 then top_child B A s root t else Inr (dir_child (dbuf d) 0)) (\<lambda>sub.
     andthen (sub_load B A s sub) (\<lambda>d2.
     andthen (leaf_count B A s d2 acc) (\<lambda>acc.
       tree_count_loop B A s root d ts acc)))"

definition kvhash_count :: "build \<Rightarrow> 's blob_api \<Rightarrow> 's \<Rightarrow> u64 \<Rightarrow> bool \<Rightarrow> nat res" where
  "kvhash_count B A s root out_null =
     (if out_null then Inl EINVAL
      else andthen (dir_load B A s root) (\<lambda>d.
        if ddepth d = 1 then leaf_count B A s d 0
        else tree_count_loop B A s root d [0..<dn d] 0))"

section \<open>Destroy\<close>

text \<open>An error seen so far; the first one is kept.\<close>

definition first_err :: "errno option \<Rightarrow> errno option \<Rightarrow> errno option" where
  "first_err a b = (case a of None \<Rightarrow> b | Some e \<Rightarrow> Some e)"

text \<open>Delete an object of which absence is no error (a resumed release).\<close>

definition drop_blob :: "'s blob_api \<Rightarrow> 's \<Rightarrow> u64 \<Rightarrow> errno option \<times> 's" where
  "drop_blob A s x =
     (case kv_delete A s x of
        (Inl e, s) \<Rightarrow> (if e = ENOENT then None else Some e, s)
      | (Inr _, s) \<Rightarrow> (None, s))"

definition drop_part :: "'s blob_api \<Rightarrow> errno option \<Rightarrow> 's \<Rightarrow> u64 \<Rightarrow> errno option \<times> 's" where
  "drop_part A err s x =
     (if x = 0 then (err, s) else let (e, s) = drop_blob A s x in (first_err err e, s))"

function release_entries :: "'s blob_api \<Rightarrow> 's \<Rightarrow> byte list \<Rightarrow> nat \<Rightarrow> errno option \<Rightarrow> nat \<Rightarrow> errno option \<times> 's" where
  "release_entries A s bkt used err off =
     (case bkt_entry bkt used off of
        None \<Rightarrow> (err, s)
      | Some e \<Rightarrow>
          let (err, s) = drop_part A err s (ent_key_id bkt e);
              (err, s) = drop_part A err s (ent_val_id bkt e) in
          release_entries A s bkt used err (off + ent_len e))"
  by pat_completeness auto
termination
  by (relation "measure (\<lambda>(A, s, bkt, used, err, off). used - off)") (auto dest!: bkt_entry_advances)

declare release_entries.simps [simp del]

definition release_bucket :: "build \<Rightarrow> 's blob_api \<Rightarrow> 's \<Rightarrow> u64 \<Rightarrow> errno option \<times> 's" where
  "release_bucket B A s bid =
     (case api_get A s bid (MAX_PAYLOAD_LEN B) of
        Inl e \<Rightarrow> (if e = ENOENT then None else Some e, s)
      | Inr bkt \<Rightarrow>
          let (err, s) = release_entries A s bkt (length bkt) None 0 in
          case err of Some e \<Rightarrow> (Some e, s) | None \<Rightarrow> drop_blob A s bid)"

fun release_loop :: "build \<Rightarrow> 's blob_api \<Rightarrow> 's \<Rightarrow> byte list \<Rightarrow> nat list \<Rightarrow> errno option \<Rightarrow> errno option \<times> 's" where
  "release_loop B A s dirb [] err = (err, s)"
| "release_loop B A s dirb (i # is) err =
     (let bid = dir_child dirb i in
      if bid = 0 then release_loop B A s dirb is err
      else let (e, s) = release_bucket B A s bid in release_loop B A s dirb is (first_err err e))"

definition release_buckets :: "build \<Rightarrow> 's blob_api \<Rightarrow> 's \<Rightarrow> dir \<Rightarrow> errno option \<times> 's" where
  "release_buckets B A s d = release_loop B A s (dbuf d) [0..<dn d] None"

text \<open>One sub-map of a two-level map.\<close>

definition release_sub :: "build \<Rightarrow> 's blob_api \<Rightarrow> 's \<Rightarrow> u64 \<Rightarrow> nat \<Rightarrow> errno option \<times> 's" where
  "release_sub B A s root i =
     (case dir_load_raw B A s root of
        Inl e \<Rightarrow> (Some e, s)
      | Inr (d, _) \<Rightarrow>
          if i \<ge> dn d then (Some EIO, s)
          else let sub = dir_child (dbuf d) i in
          if sub = 0 then (None, s)
          else (case dir_load_raw B A s sub of
              Inl e \<Rightarrow> (if e = ENOENT then None else Some e, s)
            | Inr (d2, _) \<Rightarrow>
                let (e, s) = release_buckets B A s d2 in
                case e of Some e \<Rightarrow> (Some e, s) | None \<Rightarrow> drop_blob A s sub))"

fun release_subs :: "build \<Rightarrow> 's blob_api \<Rightarrow> 's \<Rightarrow> u64 \<Rightarrow> nat list \<Rightarrow> errno option \<Rightarrow> errno option \<times> 's" where
  "release_subs B A s root [] err = (err, s)"
| "release_subs B A s root (i # is) err =
     (let (e, s) = release_sub B A s root i in release_subs B A s root is (first_err err e))"

definition kvhash_destroy :: "build \<Rightarrow> 's blob_api \<Rightarrow> 's \<Rightarrow> u64 \<Rightarrow> unit res \<times> 's" where
  "kvhash_destroy B A s root =
     reads (dir_load_raw B A s root) s (\<lambda>(d, dying).
     seqs (if dying then (Inr (), s)
           else kv_update A s root (take (dir_len (dn d)) (splice (dbuf d) 0 (le_bytes 4 (unat KVHASH_DIR_DYING))))) (\<lambda>_ s.
       let (err, s) = (if ddepth d = 1 then release_buckets B A s d else release_subs B A s root [0..<dn d] None) in
       case err of Some e \<Rightarrow> (Inl e, s) | None \<Rightarrow> kv_delete A s root))"

section \<open>The operation vector\<close>

record 's map_ops =
  op_create :: "'s \<Rightarrow> u64 \<Rightarrow> map_config option \<Rightarrow> (unit res \<times> 's) option"
  op_stat :: "'s \<Rightarrow> u64 \<Rightarrow> bool \<Rightarrow> map_info res"
  op_get :: "'s \<Rightarrow> u64 \<Rightarrow> byte list \<Rightarrow> nat \<Rightarrow> byte list res \<times> nat option"
  op_set :: "'s \<Rightarrow> u64 \<Rightarrow> byte list \<Rightarrow> byte list option \<Rightarrow> nat \<Rightarrow> unit res \<times> 's"
  op_del :: "'s \<Rightarrow> u64 \<Rightarrow> byte list \<Rightarrow> unit res \<times> 's"
  op_next :: "'s \<Rightarrow> u64 \<Rightarrow> byte list \<Rightarrow> nat \<Rightarrow> nat \<Rightarrow> (byte list \<times> byte list) res \<times> (nat \<times> nat) option"
  op_count :: "'s \<Rightarrow> u64 \<Rightarrow> bool \<Rightarrow> nat res"
  op_destroy :: "'s \<Rightarrow> u64 \<Rightarrow> unit res \<times> 's"

definition kvhash_map_ops :: "build \<Rightarrow> kv_policy \<Rightarrow> 's blob_api \<Rightarrow> 's map_ops" where
  "kvhash_map_ops B P A =
     \<lparr>op_create = kvhash_create B A, op_stat = kvhash_stat B A, op_get = kvhash_get B A, op_set = kvhash_set B P A,
      op_del = kvhash_del B A, op_next = kvhash_next B A, op_count = kvhash_count B A, op_destroy = kvhash_destroy B A\<rparr>"

end
