(* ===== verification/Map_Shape.thy ===== *)
theory Map_Shape
  imports Kv_Hash
begin

text \<open>
  The Map shape of \<open>include/app/lib/containers/shape_map.h\<close> as a locale: an operation vector over
  an object store, and what its providers promise. \<open>holds m root X f\<close> says that the map at \<open>root\<close>
  denotes \<open>f\<close> and that its objects are \<open>X\<close>; \<open>ready\<close> is what a provider needs for a create to
  return, and \<open>span\<close> how many ids that may take. A client (kvdb) is proved against the locale; \<open>Kv_Hash_Map\<close> shows that the hash map is a
  provider.
\<close>

text \<open>A step that owns the objects \<open>X\<close>: it may change them and bind new ids, nothing else.\<close>

definition owns_step ::
  "('s \<Rightarrow> bool) \<Rightarrow> ('s \<Rightarrow> u64 \<Rightarrow> byte list option) \<Rightarrow> ('s \<Rightarrow> nat) \<Rightarrow> u64 set \<Rightarrow> 's \<Rightarrow> u64 set \<Rightarrow> 's \<Rightarrow> bool" where
  "owns_step valid ob nx X s X' s' \<longleftrightarrow>
     valid s' \<and> nx s \<le> nx s' \<and> (\<forall>x. unat x < nx s \<longrightarrow> x \<notin> X \<longrightarrow> ob s' x = ob s x) \<and>
     (\<forall>x \<in> X'. x \<in> X \<or> nx s \<le> unat x)"

locale map_shape = object_store A inv objs nxt cap
  for A :: "'s blob_api" and inv objs nxt cap +
  fixes Ops :: "'s map_ops" and holds :: "(u64 \<Rightarrow> byte list option) \<Rightarrow> u64 \<Rightarrow> u64 set \<Rightarrow> (byte list \<rightharpoonup> byte list) \<Rightarrow> bool"
    and ready :: "'s \<Rightarrow> map_config option \<Rightarrow> bool" and span :: nat
  assumes holds_frame: "holds m root X f \<Longrightarrow> (\<And>x. x \<in> X \<Longrightarrow> m' x = m x) \<Longrightarrow> holds m' root X f"
    and holds_live: "inv s \<Longrightarrow> holds (objs s) root X f \<Longrightarrow> x \<in> X \<Longrightarrow> objs s x \<noteq> None"
    and holds_root: "holds m root X f \<Longrightarrow> root \<in> X"
    and op_get_law: "inv s \<Longrightarrow> holds (objs s) root X f \<Longrightarrow> op_get Ops s root key out_sz =
      (if key = [] \<or> length key > 0xffff then (Inl EINVAL, None)
       else case f key of None \<Rightarrow> (Inl ENOENT, None)
         | Some v \<Rightarrow> (if out_sz < length v then Inl ENOMEM else Inr v, Some (length v)))"
    and op_set_law: "inv s \<Longrightarrow> holds (objs s) root X f \<Longrightarrow> nxt s + 3 \<le> ID_LIMIT \<Longrightarrow>
      (\<And>v. val = Some v \<Longrightarrow> vlen \<le> length v) \<Longrightarrow> op_set Ops s root key val vlen = (r, s') \<Longrightarrow>
      \<exists>X'. owns_step inv objs nxt X s X' s' \<and> nxt s' \<le> nxt s + 3 \<and>
        holds (objs s') root X' (effect r (f(key \<mapsto> c_bytes val vlen)) f)"
    and op_del_law: "inv s \<Longrightarrow> holds (objs s) root X f \<Longrightarrow> op_del Ops s root key = (r, s') \<Longrightarrow>
      \<exists>X'. owns_step inv objs nxt X s X' s' \<and> nxt s' = nxt s \<and> holds (objs s') root X' (effect r (f(key := None)) f)"
    and op_count_law: "inv s \<Longrightarrow> holds (objs s) root X f \<Longrightarrow> op_count Ops s root False = Inr (card (dom f))"
    and op_create_law: "inv s \<Longrightarrow> unat root < nxt s \<Longrightarrow> ready s cfg \<Longrightarrow>
      \<exists>r s'. op_create Ops s root cfg = Some (r, s') \<and> inv s' \<and> nxt s \<le> nxt s' \<and> nxt s' \<le> nxt s + span \<and>
        (\<forall>x. unat x < nxt s \<longrightarrow> x \<noteq> root \<longrightarrow> objs s' x = objs s x) \<and>
        (case r of Inl _ \<Rightarrow> objs s' root = objs s root
         | Inr _ \<Rightarrow> \<exists>X. holds (objs s') root X Map.empty \<and> (\<forall>x \<in> X. x = root \<or> nxt s \<le> unat x))"
    and op_destroy_law: "inv s \<Longrightarrow> holds (objs s) root X f \<Longrightarrow> op_destroy Ops s root = (r, s') \<Longrightarrow>
      owns_step inv objs nxt X s {} s' \<and> (r = Inr () \<longrightarrow> (\<forall>x \<in> X. objs s' x = None))"
    and op_next_law: "inv s \<Longrightarrow> holds (objs s) root X f \<Longrightarrow> length cur \<le> 0xffff \<Longrightarrow>
      op_next Ops s root cur ko vo = (Inl ENODATA, None) \<and> (cur = [] \<longrightarrow> f = Map.empty) \<or>
      (\<exists>k v. f k = Some v \<and> op_next Ops s root cur ko vo =
        (if length k > ko \<or> length v > vo then Inl ENOMEM else Inr (k, v), Some (length k, length v)))"
    and holds_key: "inv s \<Longrightarrow> holds (objs s) root X f \<Longrightarrow> f k = Some v \<Longrightarrow> k \<noteq> []"
begin

lemma holds_below: "inv s \<Longrightarrow> holds (objs s) root X f \<Longrightarrow> x \<in> X \<Longrightarrow> x \<noteq> 0 \<and> unat x < nxt s"
  using holds_live bound_law by blast

text \<open>What one map does leaves another alone.\<close>

lemma holds_other:
  assumes "inv s" "owns_step inv objs nxt X s X' s'" "holds (objs s) root Y g" "X \<inter> Y = {}"
  shows "holds (objs s') root Y g \<and> X' \<inter> Y = {}"
proof
  show "holds (objs s') root Y g"
  proof (rule holds_frame [OF assms(3)])
    fix x assume "x \<in> Y"
    with assms holds_below [OF assms(1,3), of x] show "objs s' x = objs s x" by (auto simp: owns_step_def)
  qed
  show "X' \<inter> Y = {}" using assms holds_below [OF assms(1,3)] by (fastforce simp: owns_step_def)
qed

end

end
