(* ===== verification/Root_Reg.thy ===== *)
theory Root_Reg
  imports Object_Store
begin

text \<open>
  L1.5, the root registry (\<open>lib/rootreg/rootreg.c\<close>): a map from compile-time keys to structure
  roots, kept as one pair list in the object with id 1. Every operation reads and validates the
  image, and every mutation is one update of it.

  The lemmas show that the operations are those of the finite map the image encodes, that a
  created root is an id nobody has seen before, and that an error leaves the registry as it was.
\<close>

section \<open>The image\<close>

text \<open>\<open>'R','R','E','G'\<close>.\<close>

definition RR_MAGIC :: "byte list" where "RR_MAGIC = [0x52, 0x52, 0x45, 0x47]"
definition RR_VERSION :: nat where "RR_VERSION = 1"

text \<open>The entries of an image are the list \<open>e[0..count-1]\<close>; \<open>RR_IMAGE_MAX\<close> is the size of the RAM
  image for a capacity of \<open>roots\<close> entries (\<open>CONFIG_ROOTREG_MAX_ROOTS\<close>).\<close>

type_synonym rr_image = "(u64 \<times> u64) list"

definition RR_IMAGE_MAX :: "nat \<Rightarrow> nat" where "RR_IMAGE_MAX roots = 8 + roots * 16"

definition rr_entry_bytes :: "u64 \<times> u64 \<Rightarrow> byte list" where
  "rr_entry_bytes e = le_bytes 8 (unat (fst e)) @ le_bytes 8 (unat (snd e))"

definition rr_bytes :: "rr_image \<Rightarrow> byte list" where
  "rr_bytes img = RR_MAGIC @ le_bytes 2 RR_VERSION @ le_bytes 2 (length img) @ concat (map rr_entry_bytes img)"

primrec rr_entries :: "nat \<Rightarrow> byte list \<Rightarrow> rr_image" where
  "rr_entries 0 bs = []"
| "rr_entries (Suc n) bs =
     (word_of_nat (of_le (field 0 8 bs)), word_of_nat (of_le (field 8 8 bs))) # rr_entries n (drop 16 bs)"

section \<open>Operations\<close>

definition rr_load :: "'s blob_api \<Rightarrow> nat \<Rightarrow> 's \<Rightarrow> rr_image res" where
  "rr_load A roots s =
     andthen (api_get A s BLOB_DB_ROOT_ID (RR_IMAGE_MAX roots)) (\<lambda>bs.
       if length bs < 8 then Inl ENOTSUP
       else if take 4 bs \<noteq> RR_MAGIC \<or> of_le (field 4 2 bs) \<noteq> RR_VERSION then Inl ENOTSUP
       else let count = of_le (field 6 2 bs) in
       if count > roots \<or> length bs \<noteq> 8 + count * 16 then Inl EIO
       else Inr (rr_entries count (drop 8 bs)))"

definition rr_store :: "'s blob_api \<Rightarrow> 's \<Rightarrow> rr_image \<Rightarrow> unit res \<times> 's" where
  "rr_store A s img = api_update A s BLOB_DB_ROOT_ID (rr_bytes img)"

primrec rr_find :: "rr_image \<Rightarrow> u64 \<Rightarrow> nat option" where
  "rr_find [] key = None"
| "rr_find (e # es) key = (if fst e = key then Some 0 else map_option Suc (rr_find es key))"

definition rootreg_init :: "'s blob_api \<Rightarrow> nat \<Rightarrow> 's \<Rightarrow> unit res \<times> 's" where
  "rootreg_init A roots s =
     (case rr_load A roots s of
        Inr _ \<Rightarrow> (Inr (), s)
      | Inl e \<Rightarrow>
          if e \<noteq> ENOTSUP then (Inl e, s)
          else (case api_get A s BLOB_DB_ROOT_ID 8 of
              Inl e \<Rightarrow> if e = ENOMEM then (Inl ENOTSUP, s) else (Inl e, s)
            | Inr probe \<Rightarrow> if length probe > 0 then (Inl ENOTSUP, s) else rr_store A s []))"

text \<open>\<open>out_null\<close>: the caller passed no place for the result.\<close>

definition rootreg_get :: "'s blob_api \<Rightarrow> nat \<Rightarrow> 's \<Rightarrow> u64 \<Rightarrow> bool \<Rightarrow> u64 res" where
  "rootreg_get A roots s key out_null =
     (if key = 0 \<or> out_null then Inl EINVAL
      else andthen (rr_load A roots s) (\<lambda>img.
        case rr_find img key of None \<Rightarrow> Inl ENOENT | Some idx \<Rightarrow> Inr (snd (img ! idx))))"

definition rootreg_get_or_create :: "'s blob_api \<Rightarrow> nat \<Rightarrow> 's \<Rightarrow> u64 \<Rightarrow> bool \<Rightarrow> u64 res \<times> 's" where
  "rootreg_get_or_create A roots s key out_null =
     (if rootreg_get A roots s key out_null \<noteq> Inl ENOENT then (rootreg_get A roots s key out_null, s)
      else reads (rr_load A roots s) s (\<lambda>img.
        if length img \<ge> roots then (Inl ENOSPC, s)
        else let (x, s) = api_alloc_id A s in
        if x = 0 then (Inl EIO, s)
        else seqs (rr_store A s (img @ [(key, x)])) (\<lambda>_ s. (Inr x, s))))"

definition rootreg_set :: "'s blob_api \<Rightarrow> nat \<Rightarrow> 's \<Rightarrow> u64 \<Rightarrow> u64 \<Rightarrow> unit res \<times> 's" where
  "rootreg_set A roots s key root_id =
     (if key = 0 \<or> root_id = 0 then (Inl EINVAL, s)
      else reads (rr_load A roots s) s (\<lambda>img.
        if rr_find img key \<noteq> None then (Inl EEXIST, s)
        else if length img \<ge> roots then (Inl ENOSPC, s)
        else rr_store A s (img @ [(key, root_id)])))"

definition rootreg_unregister :: "'s blob_api \<Rightarrow> nat \<Rightarrow> 's \<Rightarrow> u64 \<Rightarrow> unit res \<times> 's" where
  "rootreg_unregister A roots s key =
     (if key = 0 then (Inl EINVAL, s)
      else reads (rr_load A roots s) s (\<lambda>img.
        case rr_find img key of
          None \<Rightarrow> (Inl ENOENT, s)
        | Some idx \<Rightarrow> rr_store A s (butlast (img[idx := img ! (length img - 1)]))))"

fun rr_visit :: "rr_image \<Rightarrow> (u64 \<Rightarrow> u64 \<Rightarrow> 'u \<Rightarrow> int \<times> 'u) \<Rightarrow> 'u \<Rightarrow> int \<times> 'u" where
  "rr_visit [] cb user = (0, user)"
| "rr_visit (e # es) cb user =
     (let (rc, user) = cb (fst e) (snd e) user in if rc \<noteq> 0 then (rc, user) else rr_visit es cb user)"

definition rootreg_iterate ::
  "'s blob_api \<Rightarrow> nat \<Rightarrow> 's \<Rightarrow> (u64 \<Rightarrow> u64 \<Rightarrow> 'u \<Rightarrow> int \<times> 'u) option \<Rightarrow> 'u \<Rightarrow> int res \<times> 'u" where
  "rootreg_iterate A roots s cb user =
     (case cb of
        None \<Rightarrow> (Inl EINVAL, user)
      | Some f \<Rightarrow>
          case rr_load A roots s of
            Inl e \<Rightarrow> (Inl e, user)
          | Inr img \<Rightarrow> let (rc, user) = rr_visit img f user in (Inr rc, user))"

section \<open>The image and its bytes\<close>

lemma length_rr_entries [simp]: "length (rr_entries n bs) = n"
  by (induction n arbitrary: bs) simp_all

lemma length_rr_entry_bytes [simp]: "length (rr_entry_bytes e) = 16"
  by (simp add: rr_entry_bytes_def)

lemma length_rr_bytes [simp]: "length (rr_bytes img) = 8 + length img * 16"
  by (induction img) (simp_all add: rr_bytes_def RR_MAGIC_def)

lemma rr_entry_roundtrip:
  "word_of_nat (of_le (field 0 8 (rr_entry_bytes e @ bs))) = fst e"
  "word_of_nat (of_le (field 8 8 (rr_entry_bytes e @ bs))) = snd e"
  by (simp_all add: rr_entry_bytes_def field_def)

lemma rr_entries_roundtrip: "rr_entries (length img) (concat (map rr_entry_bytes img)) = img"
  by (induction img) (simp_all add: rr_entry_roundtrip)

lemma rr_bytes_fields:
  assumes "length img < 2 ^ 16"
  shows "take 4 (rr_bytes img) = RR_MAGIC" "of_le (field 4 2 (rr_bytes img)) = RR_VERSION"
    "of_le (field 6 2 (rr_bytes img)) = length img" "rr_entries (length img) (drop 8 (rr_bytes img)) = img"
  using assms by (simp_all add: rr_bytes_def RR_MAGIC_def RR_VERSION_def field_def rr_entries_roundtrip of_le_le_bytes)

section \<open>Lists of pairs as maps\<close>

lemma rr_find_map: "map_of img key = map_option (\<lambda>i. snd (img ! i)) (rr_find img key)"
  by (induction img) (auto simp: option.map_comp comp_def)

lemma rr_find_None: "rr_find img key = None \<longleftrightarrow> key \<notin> fst ` set img"
  using rr_find_map [of img key] map_of_eq_None_iff [of img key] by auto

lemma rr_find_Some: "rr_find img key = Some i \<Longrightarrow> i < length img \<and> fst (img ! i) = key"
  by (induction img arbitrary: i) (auto split: if_splits)

lemma map_of_minus:
  assumes "distinct (map fst xs)" "distinct (map fst ys)" "e \<in> set xs" "set ys = set xs - {e}"
  shows "map_of ys = (map_of xs)(fst e := None)"
proof
  fix x
  have "map_of ys x = Some v \<longleftrightarrow> ((map_of xs)(fst e := None)) x = Some v" for v
    using assms eq_key_imp_eq_value [OF assms(1)] map_of_is_SomeI [OF assms(1)] map_of_is_SomeI [OF assms(2)]
    by (cases e) (auto dest!: map_of_SomeD)
  then show "map_of ys x = ((map_of xs)(fst e := None)) x" by (metis option.exhaust)
qed

lemma swap_remove:
  assumes i: "i < length img" and d: "distinct (map fst img)"
  defines "img' \<equiv> butlast (img[i := img ! (length img - 1)])"
  shows "map_of img' = (map_of img)(fst (img ! i) := None)" "distinct (map fst img')"
    "length img' = length img - 1" "set img' \<subseteq> set img"
proof -
  obtain us e vs where img: "img = us @ e # vs" and ui: "length us = i" and e: "img ! i = e"
    using id_take_nth_drop [OF i] i by (metis length_take min.absorb4)
  show "length img' = length img - 1" by (simp add: img'_def)
  have "vs = [] \<and> img' = us \<or> (\<exists>ws z. vs = ws @ [z] \<and> img' = us @ z # ws)"
  proof (cases vs rule: rev_cases)
    case Nil
    with img ui show ?thesis by (simp add: img'_def butlast_append)
  next
    case (snoc ws z)
    with img have "img' = us @ z # ws" by (simp add: img'_def butlast_append nth_append ui [symmetric])
    with snoc show ?thesis by blast
  qed
  moreover have "distinct (map fst (us @ e # vs))" using d img by simp
  moreover from this have "e \<notin> set us" "e \<notin> set vs" by auto
  ultimately have dist: "distinct (map fst img')" and st: "set img' = set img - {e}" by (auto simp: img)
  then show "distinct (map fst img')" "set img' \<subseteq> set img" by auto
  show "map_of img' = (map_of img)(fst (img ! i) := None)"
    unfolding e by (rule map_of_minus [OF d dist _ st]) (simp add: img)
qed

section \<open>The registry as a map\<close>

definition registry :: "nat \<Rightarrow> (u64 \<Rightarrow> byte list option) \<Rightarrow> rr_image \<Rightarrow> bool" where
  "registry roots m img \<longleftrightarrow>
     m BLOB_DB_ROOT_ID = Some (rr_bytes img) \<and> length img \<le> roots \<and> distinct (map fst img) \<and> 0 \<notin> fst ` set img"

lemma registry_frame: "m' BLOB_DB_ROOT_ID = m BLOB_DB_ROOT_ID \<Longrightarrow> registry roots m' img = registry roots m img"
  by (simp add: registry_def)

lemma registry_snoc:
  "registry roots m img \<Longrightarrow> key \<notin> fst ` set img \<Longrightarrow> key \<noteq> 0 \<Longrightarrow> length img < roots \<Longrightarrow>
   registry roots (m(BLOB_DB_ROOT_ID \<mapsto> rr_bytes (img @ [(key, x)]))) (img @ [(key, x)])"
  by (auto simp: registry_def)

lemma registry_remove:
  assumes "registry roots m img" "rr_find img key = Some i"
  defines "img' \<equiv> butlast (img[i := img ! (length img - 1)])"
  shows "registry roots (m(BLOB_DB_ROOT_ID \<mapsto> rr_bytes img')) img'" "map_of img' = (map_of img)(key := None)"
proof -
  have i: "i < length img" "fst (img ! i) = key" using rr_find_Some [OF assms(2)] by auto
  have d: "distinct (map fst img)" using assms(1) by (simp add: registry_def)
  note sr = swap_remove [OF i(1) d, folded img'_def]
  have "0 \<notin> fst ` set img'" using sr(4) assms(1) by (auto simp: registry_def)
  then show "registry roots (m(BLOB_DB_ROOT_ID \<mapsto> rr_bytes img')) img'" using assms(1) sr(2,3) by (auto simp: registry_def)
  show "map_of img' = (map_of img)(key := None)" using sr(1) i(2) by simp
qed

context object_store
begin

lemma rr_load_registry:
  assumes "inv s" "roots < 2 ^ 16" "registry roots (objs s) img"
  shows "rr_load A roots s = Inr img"
proof -
  have "length img < 2 ^ 16" "length (rr_bytes img) \<le> RR_IMAGE_MAX roots"
    using assms(2,3) by (simp_all add: registry_def RR_IMAGE_MAX_def)
  then show ?thesis
    using assms rr_bytes_fields [of img]
    by (simp add: rr_load_def get_law registry_def Let_def not_less)
qed

lemma rr_load_empty: "inv s \<Longrightarrow> objs s BLOB_DB_ROOT_ID = Some [] \<Longrightarrow> rr_load A roots s = Inl ENOTSUP"
  by (simp add: rr_load_def get_law)

lemma rr_load_registers:
  assumes "inv s" "rr_load A roots s = Inr img"
  shows "\<exists>bs. objs s BLOB_DB_ROOT_ID = Some bs \<and> length bs = 8 + length img * 16 \<and> take 4 bs = RR_MAGIC"
  using assms by (auto simp: rr_load_def get_Inr andthen_Inr Let_def split: if_split_asm)

text \<open>A bootstrap writes only over an empty root.\<close>

lemma rootreg_init_spec:
  assumes "inv s" "rootreg_init A roots s = (r, s')"
  shows "inv s' \<and> nxt s' = nxt s \<and>
    (s' = s \<or> objs s BLOB_DB_ROOT_ID = Some [] \<and>
       objs s' = effect r ((objs s)(BLOB_DB_ROOT_ID \<mapsto> rr_bytes [])) (objs s))"
proof (cases "objs s BLOB_DB_ROOT_ID = Some []")
  case True
  with assms have u: "api_update A s BLOB_DB_ROOT_ID (rr_bytes []) = (r, s')"
    by (simp add: rootreg_init_def rr_load_empty get_law rr_store_def)
  from update_law [OF assms(1) u] True show ?thesis by simp
next
  case False
  with assms have "s' = s"
    by (auto simp: rootreg_init_def get_law rr_store_def split: sum.splits if_split_asm option.splits)
  with assms(1) show ?thesis by simp
qed

lemma rootreg_init_ready:
  assumes "inv s" "roots < 2 ^ 16" "rootreg_init A roots s = (Inr (), s')"
    and "objs s BLOB_DB_ROOT_ID = Some [] \<or> registry roots (objs s) img"
  shows "inv s' \<and> registry roots (objs s') (if objs s BLOB_DB_ROOT_ID = Some [] then [] else img) \<and>
    (\<forall>x. x \<noteq> BLOB_DB_ROOT_ID \<longrightarrow> objs s' x = objs s x)"
proof (cases "objs s BLOB_DB_ROOT_ID = Some []")
  case True
  with assms(1,3) have u: "api_update A s BLOB_DB_ROOT_ID (rr_bytes []) = (Inr (), s')"
    by (simp add: rootreg_init_def rr_load_empty get_law rr_store_def)
  from update_law [OF assms(1) u] True show ?thesis by (simp add: registry_def)
next
  case False
  with assms have "s' = s" by (simp add: rootreg_init_def rr_load_registry)
  with assms False show ?thesis by simp
qed

lemma rootreg_get_exact:
  assumes "inv s" "roots < 2 ^ 16" "registry roots (objs s) img"
  shows "rootreg_get A roots s key False =
    (if key = 0 then Inl EINVAL else case map_of img key of None \<Rightarrow> Inl ENOENT | Some x \<Rightarrow> Inr x)"
  using rr_load_registry [OF assms] rr_find_map [of img key] by (simp add: rootreg_get_def split: option.splits)

lemma rr_store_law:
  assumes "inv s" "rr_store A s img = (r, s')"
  shows "inv s'" "nxt s' = nxt s" "objs s' = effect r ((objs s)(BLOB_DB_ROOT_ID \<mapsto> rr_bytes img)) (objs s)"
  using update_law [OF assms(1)] assms(2) by (simp_all add: rr_store_def)

lemma get_or_create_spec:
  assumes inv: "inv s" "nxt s < ID_LIMIT" and roots: "roots < 2 ^ 16" and reg: "registry roots (objs s) img"
    and key: "key \<noteq> 0" and run: "rootreg_get_or_create A roots s key False = (r, s')"
  shows "inv s'" "nxt s \<le> nxt s'" "\<And>x. x \<noteq> BLOB_DB_ROOT_ID \<Longrightarrow> objs s' x = objs s x"
    "map_of img key = Some x \<Longrightarrow> r = Inr x \<and> s' = s"
    "map_of img key = None \<Longrightarrow> r = Inr x \<Longrightarrow>
      unat x = nxt s \<and> nxt s' = Suc (nxt s) \<and> registry roots (objs s') (img @ [(key, x)])"
    "r = Inl e \<Longrightarrow> objs s' = objs s"
proof -
  note g = rootreg_get_exact [OF inv(1) roots reg, of key] and ld = rr_load_registry [OF inv(1) roots reg]
  have "inv s' \<and> nxt s \<le> nxt s' \<and> (\<forall>x. x \<noteq> BLOB_DB_ROOT_ID \<longrightarrow> objs s' x = objs s x) \<and>
    (\<forall>x. map_of img key = Some x \<longrightarrow> r = Inr x \<and> s' = s) \<and>
    (\<forall>x. map_of img key = None \<longrightarrow> r = Inr x \<longrightarrow>
      unat x = nxt s \<and> nxt s' = Suc (nxt s) \<and> registry roots (objs s') (img @ [(key, x)])) \<and>
    (\<forall>e. r = Inl e \<longrightarrow> objs s' = objs s)"
  proof (cases "map_of img key")
    case (Some x)
    with run g key inv show ?thesis by (simp add: rootreg_get_or_create_def)
  next
    case None
    show ?thesis
    proof (cases "length img \<ge> roots")
      case True
      with run g ld key None inv show ?thesis by (auto simp: rootreg_get_or_create_def)
    next
      case False
      obtain x t where al: "api_alloc_id A s = (x, t)" by (cases "api_alloc_id A s")
      note a = alloc_law [OF inv al]
      show ?thesis
      proof (cases "x = 0")
        case True
        with run g ld key None False al a show ?thesis by (auto simp: rootreg_get_or_create_def)
      next
        case x: False
        obtain r2 u where st: "rr_store A t (img @ [(key, x)]) = (r2, u)" by (cases "rr_store A t (img @ [(key, x)])")
        note sl = rr_store_law [OF _ st]
        have ni: "key \<notin> fst ` set img" using None by (simp add: map_of_eq_None_iff)
        from run g ld key None False al x st have rs: "(r, s') = (case r2 of Inl e \<Rightarrow> (Inl e, u) | Inr _ \<Rightarrow> (Inr x, u))"
          by (cases r2) (simp_all add: rootreg_get_or_create_def)
        from registry_snoc [OF reg ni key, of x] False a sl x rs None show ?thesis
          by (auto split: sum.splits)
      qed
    qed
  qed
  then show "inv s'" "nxt s \<le> nxt s'" "\<And>x. x \<noteq> BLOB_DB_ROOT_ID \<Longrightarrow> objs s' x = objs s x"
    "map_of img key = Some x \<Longrightarrow> r = Inr x \<and> s' = s"
    "map_of img key = None \<Longrightarrow> r = Inr x \<Longrightarrow>
      unat x = nxt s \<and> nxt s' = Suc (nxt s) \<and> registry roots (objs s') (img @ [(key, x)])"
    "r = Inl e \<Longrightarrow> objs s' = objs s" by simp_all
qed

lemma rootreg_set_spec:
  assumes inv: "inv s" and roots: "roots < 2 ^ 16" and reg: "registry roots (objs s) img"
    and run: "rootreg_set A roots s key x = (r, s')"
  shows "inv s' \<and> nxt s' = nxt s \<and> (\<forall>y. y \<noteq> BLOB_DB_ROOT_ID \<longrightarrow> objs s' y = objs s y) \<and>
    (case r of Inl e \<Rightarrow> objs s' = objs s \<and> (key \<noteq> 0 \<and> x \<noteq> 0 \<and> map_of img key \<noteq> None \<longrightarrow> e = EEXIST)
     | Inr _ \<Rightarrow> key \<noteq> 0 \<and> x \<noteq> 0 \<and> map_of img key = None \<and> registry roots (objs s') (img @ [(key, x)]))"
proof (cases "key = 0 \<or> x = 0 \<or> rr_find img key \<noteq> None \<or> length img \<ge> roots")
  case True
  with run inv rr_load_registry [OF inv roots reg] rr_find_None [of img key] map_of_eq_None_iff [of img key] show ?thesis
    by (auto simp: rootreg_set_def split: if_split_asm)
next
  case False
  then have st: "rr_store A s (img @ [(key, x)]) = (r, s')"
    using run rr_load_registry [OF inv roots reg] by (simp add: rootreg_set_def)
  note sl = rr_store_law [OF inv st]
  have "key \<notin> fst ` set img" "map_of img key = None"
    using False rr_find_None [of img key] by (auto simp: map_of_eq_None_iff)
  with registry_snoc [OF reg, of key x] sl False show ?thesis by (auto split: sum.splits)
qed

lemma rootreg_unregister_spec:
  assumes inv: "inv s" and roots: "roots < 2 ^ 16" and reg: "registry roots (objs s) img"
    and run: "rootreg_unregister A roots s key = (r, s')"
  shows "inv s' \<and> nxt s' = nxt s \<and> (\<forall>y. y \<noteq> BLOB_DB_ROOT_ID \<longrightarrow> objs s' y = objs s y) \<and>
    (case r of Inl e \<Rightarrow> objs s' = objs s
     | Inr _ \<Rightarrow> map_of img key \<noteq> None \<and>
         (\<exists>img'. registry roots (objs s') img' \<and> map_of img' = (map_of img)(key := None)))"
proof (cases "key = 0 \<or> rr_find img key = None")
  case True
  with run inv rr_load_registry [OF inv roots reg] show ?thesis by (auto simp: rootreg_unregister_def split: if_split_asm)
next
  case False
  then obtain i where i: "rr_find img key = Some i" by auto
  let ?img = "butlast (img[i := img ! (length img - 1)])"
  have st: "rr_store A s ?img = (r, s')"
    using run False i rr_load_registry [OF inv roots reg] by (simp add: rootreg_unregister_def)
  note sl = rr_store_law [OF inv st] and rm = registry_remove [OF reg i]
  have "map_of img key \<noteq> None" using rr_find_map [of img key] i by simp
  with sl rm show ?thesis by (cases r) auto
qed

end

end
