(* ===== verification/Kv_Hash_Spec.thy ===== *)
theory Kv_Hash_Spec
  imports Kv_Hash "HOL-Library.Multiset"
begin

text \<open>
  What the hash map holds, and that its operations are those of a map. A map on flash is described
  by a tree: leaf directories with their children, buckets as lists of entries, each entry with the
  ids of its spilled parts. \<open>tree_ok\<close> says that the objects of the store hold such a tree, that an
  entry lies where its key hashes to, and that no object is used twice; \<open>tree_map\<close> is the map it
  denotes. The store under it is any \<open>object_store\<close>, so each call may fail at any point.
\<close>

section \<open>Entries and their bytes\<close>

text \<open>An id of 0 stands for a part stored in the entry itself.\<close>

record aent =
  ae_key :: "byte list"
  ae_kid :: u64
  ae_val :: "byte list"
  ae_vid :: u64

definition ent_image :: "build \<Rightarrow> aent \<Rightarrow> byte list" where
  "ent_image B e =
     entry_bytes (ae_key e) (ae_val e) (ae_kid e \<noteq> 0) (ae_vid e \<noteq> 0) (key_fp B (ae_key e)) (ae_kid e) (ae_vid e)"

definition bkt_image :: "build \<Rightarrow> aent list \<Rightarrow> byte list" where
  "bkt_image B es = concat (map (ent_image B) es)"

definition aent_ok :: "aent \<Rightarrow> bool" where
  "aent_ok e \<longleftrightarrow> ae_key e \<noteq> [] \<and> length (ae_key e) \<le> ENT_LEN_MASK \<and> length (ae_val e) \<le> ENT_LEN_MASK"

definition aent_bound :: "(u64 \<Rightarrow> byte list option) \<Rightarrow> aent \<Rightarrow> bool" where
  "aent_bound m e \<longleftrightarrow>
     (ae_kid e \<noteq> 0 \<longrightarrow> m (ae_kid e) = Some (ae_key e)) \<and> (ae_vid e \<noteq> 0 \<longrightarrow> m (ae_vid e) = Some (ae_val e))"

text \<open>What the parser reports of an entry at \<open>off\<close>.\<close>

definition ent_at :: "build \<Rightarrow> nat \<Rightarrow> aent \<Rightarrow> ent" where
  "ent_at B off e =
     \<lparr>ent_len = length (ent_image B e), kl = length (ae_key e), vl = length (ae_val e),
      kspill = (ae_kid e \<noteq> 0), vspill = (ae_vid e \<noteq> 0), kpos = off + 4,
      vpos = off + 4 + (if ae_kid e \<noteq> 0 then 12 else length (ae_key e))\<rparr>"

lemma bkt_image_simps [simp]:
  "bkt_image B [] = []" "bkt_image B (e # es) = ent_image B e @ bkt_image B es"
  "bkt_image B (es @ es') = bkt_image B es @ bkt_image B es'"
  by (simp_all add: bkt_image_def)

lemma length_ent_image:
  "length (ent_image B e) =
     4 + (if ae_kid e \<noteq> 0 then 12 else length (ae_key e)) + (if ae_vid e \<noteq> 0 then 8 else length (ae_val e))"
  by (simp add: ent_image_def entry_bytes_def)

lemma ent_image_fields:
  assumes ok: "aent_ok e"
  shows "get_u16 (us @ ent_image B e @ vs) (length us) = length (ae_key e) + (if ae_kid e \<noteq> 0 then ENT_SPILL else 0)"
    "get_u16 (us @ ent_image B e @ vs) (length us + 2) = length (ae_val e) + (if ae_vid e \<noteq> 0 then ENT_SPILL else 0)"
    "ae_kid e \<noteq> 0 \<Longrightarrow> get_u32 (us @ ent_image B e @ vs) (length us + 4) = key_fp B (ae_key e)"
    "ae_kid e \<noteq> 0 \<Longrightarrow> get_u64 (us @ ent_image B e @ vs) (length us + 8) = ae_kid e"
    "ae_kid e = 0 \<Longrightarrow> field (length us + 4) (length (ae_key e)) (us @ ent_image B e @ vs) = ae_key e"
    "ae_vid e \<noteq> 0 \<Longrightarrow> get_u64 (us @ ent_image B e @ vs) (vpos (ent_at B (length us) e)) = ae_vid e"
    "ae_vid e = 0 \<Longrightarrow> field (vpos (ent_at B (length us) e)) (length (ae_val e)) (us @ ent_image B e @ vs) = ae_val e"
  using ok
  by (simp_all add: get_u16_def get_u32_def get_u64_def ent_image_def entry_bytes_def field_def aent_ok_def
      ENT_SPILL_def ENT_LEN_MASK_def ent_at_def le16_roundtrip word64_le_roundtrip word32_le_roundtrip)

lemma spill_bit: "n \<le> 32767 \<Longrightarrow> (n + 32768) div 32768 = (1 :: nat)"
  by (simp add: div_add_self2)

lemma bkt_entry_at:
  assumes "aent_ok e" "length us + length (ent_image B e) \<le> used"
  shows "bkt_entry (us @ ent_image B e @ vs) used (length us) = Some (ent_at B (length us) e)"
  using assms(2) ent_image_fields(1,2) [OF assms(1), where us = us and B = B and vs = vs] assms(1)
  by (cases "ae_kid e = 0"; cases "ae_vid e = 0")
    (simp_all add: bkt_entry_def Let_def ent_at_def length_ent_image aent_ok_def ENTRY_HDR_LEN_def ENT_SPILL_def
      ENT_LEN_MASK_def KEY_REF_LEN_def VAL_REF_LEN_def spill_bit)

lemma bkt_entry_end [simp]: "bkt_entry buf (length buf) (length buf) = None"
  by (simp add: bkt_entry_def ENTRY_HDR_LEN_def)

lemma ent_at_ids:
  assumes "aent_ok e"
  shows "ent_key_id (us @ ent_image B e @ vs) (ent_at B (length us) e) = ae_kid e"
    "ent_val_id (us @ ent_image B e @ vs) (ent_at B (length us) e) = ae_vid e"
  using ent_image_fields(4,6) [OF assms, where us = us and B = B and vs = vs]
  by (auto simp: ent_key_id_def ent_val_id_def) (auto simp: ent_at_def add.assoc)

lemma memcmp_eq: "length xs = length ys \<Longrightarrow> memcmp xs ys = 0 \<longleftrightarrow> xs = ys"
  by (induction xs ys rule: list_induct2) auto

section \<open>A map on flash\<close>

record kvleaf =
  lf_id :: u64
  lf_ver :: nat
  lf_cs :: "u64 list"
  lf_bs :: "aent list list"

text \<open>\<open>kt_top\<close> is the version of the top directory of a two-level map; without one the map is its only
  leaf.\<close>

record kvtree =
  kt_top :: "nat option"
  kt_leaves :: "kvleaf list"

definition dir_bytes :: "u32 \<Rightarrow> nat \<Rightarrow> nat \<Rightarrow> u64 list \<Rightarrow> byte list" where
  "dir_bytes mg ver dp cs =
     le_bytes 4 (unat mg) @ le_bytes 2 (length cs) @ [word_of_nat ver, word_of_nat dp] @
     concat (map (\<lambda>c. le_bytes 8 (unat c)) cs)"

definition fan_ok :: "build \<Rightarrow> nat \<Rightarrow> nat \<Rightarrow> bool" where
  "fan_ok B ver n \<longleftrightarrow> (ver = 2 \<or> ver = 3) \<and> 2 \<le> n \<and> n \<le> MAX_BUCKETS B"

definition bucket_holds :: "build \<Rightarrow> (u64 \<Rightarrow> byte list option) \<Rightarrow> u64 \<Rightarrow> aent list \<Rightarrow> bool" where
  "bucket_holds B m bid es \<longleftrightarrow>
     (if bid = 0 then es = [] else m bid = Some (bkt_image B es)) \<and>
     (\<forall>e \<in> set es. aent_ok e \<and> aent_bound m e) \<and> distinct (map ae_key es)"

definition leaf_holds :: "build \<Rightarrow> (u64 \<Rightarrow> byte list option) \<Rightarrow> kvleaf \<Rightarrow> bool" where
  "leaf_holds B m lf \<longleftrightarrow>
     fan_ok B (lf_ver lf) (length (lf_cs lf)) \<and> lf_id lf \<noteq> 0 \<and> length (lf_bs lf) = length (lf_cs lf) \<and>
     m (lf_id lf) = Some (dir_bytes KVHASH_DIR_MAGIC (lf_ver lf) 1 (lf_cs lf)) \<and>
     (\<forall>i < length (lf_cs lf). bucket_holds B m (lf_cs lf ! i) (lf_bs lf ! i))"

definition tree_holds :: "build \<Rightarrow> (u64 \<Rightarrow> byte list option) \<Rightarrow> u64 \<Rightarrow> kvtree \<Rightarrow> bool" where
  "tree_holds B m root t \<longleftrightarrow>
     (\<forall>lf \<in> set (kt_leaves t). leaf_holds B m lf) \<and>
     (case kt_top t of
        None \<Rightarrow> map lf_id (kt_leaves t) = [root]
      | Some ver \<Rightarrow> fan_ok B ver (length (kt_leaves t)) \<and>
          m root = Some (dir_bytes KVHASH_DIR_MAGIC ver 2 (map lf_id (kt_leaves t))))"

text \<open>Where a hash belongs.\<close>

definition leaf_ix :: "kvtree \<Rightarrow> u32 \<Rightarrow> nat" where
  "leaf_ix t h = (case kt_top t of None \<Rightarrow> 0 | Some _ \<Rightarrow> idx_top h (length (kt_leaves t)))"

definition the_leaf :: "kvtree \<Rightarrow> u32 \<Rightarrow> kvleaf" where
  "the_leaf t h = kt_leaves t ! leaf_ix t h"

definition bkt_ix :: "kvtree \<Rightarrow> u32 \<Rightarrow> nat" where
  "bkt_ix t h = idx_sub h (length (lf_cs (the_leaf t h)))"

definition the_bucket :: "kvtree \<Rightarrow> u32 \<Rightarrow> aent list" where
  "the_bucket t h = lf_bs (the_leaf t h) ! bkt_ix t h"

definition placed :: "build \<Rightarrow> kvtree \<Rightarrow> bool" where
  "placed B t \<longleftrightarrow>
     (\<forall>j < length (kt_leaves t). \<forall>i < length (lf_bs (kt_leaves t ! j)). \<forall>e \<in> set (lf_bs (kt_leaves t ! j) ! i).
        leaf_ix t (key_hash B (ae_key e)) = j \<and> bkt_ix t (key_hash B (ae_key e)) = i)"

definition ent_ids :: "aent \<Rightarrow> u64 list" where
  "ent_ids e = filter (\<lambda>x. x \<noteq> 0) [ae_kid e, ae_vid e]"

definition bucket_ids :: "aent list \<Rightarrow> u64 list" where
  "bucket_ids es = concat (map ent_ids es)"

definition leaf_ids :: "kvleaf \<Rightarrow> u64 list" where
  "leaf_ids lf = lf_id lf # filter (\<lambda>x. x \<noteq> 0) (lf_cs lf) @ concat (map bucket_ids (lf_bs lf))"

definition tree_ids :: "u64 \<Rightarrow> kvtree \<Rightarrow> u64 list" where
  "tree_ids root t = (if kt_top t = None then [] else [root]) @ concat (map leaf_ids (kt_leaves t))"

definition tree_ok :: "build \<Rightarrow> (u64 \<Rightarrow> byte list option) \<Rightarrow> u64 \<Rightarrow> kvtree \<Rightarrow> bool" where
  "tree_ok B m root t \<longleftrightarrow> tree_holds B m root t \<and> placed B t \<and> distinct (tree_ids root t)"

definition ent_pairs :: "aent list \<Rightarrow> (byte list \<times> byte list) list" where
  "ent_pairs es = map (\<lambda>e. (ae_key e, ae_val e)) es"

definition leaf_ents :: "kvleaf \<Rightarrow> aent list" where
  "leaf_ents lf = concat (lf_bs lf)"

definition tree_ents :: "kvtree \<Rightarrow> aent list" where
  "tree_ents t = concat (map leaf_ents (kt_leaves t))"

definition tree_map :: "kvtree \<Rightarrow> byte list \<Rightarrow> byte list option" where
  "tree_map t = map_of (ent_pairs (tree_ents t))"

section \<open>Directories and their bytes\<close>

lemma length_dir_bytes [simp]: "length (dir_bytes mg ver dp cs) = dir_len (length cs)"
  by (induction cs) (simp_all add: dir_bytes_def dir_len_def DIR_HDR_LEN_def)

lemma field_concat8:
  "i < length cs \<Longrightarrow> field (i * 8) 8 (concat (map (\<lambda>c. le_bytes 8 (unat c)) (cs :: u64 list))) = le_bytes 8 (unat (cs ! i))"
proof (induction cs arbitrary: i)
  case (Cons c cs)
  then show ?case by (cases i) (simp_all add: field_def)
qed simp

lemma fan_ok_small: "fan_ok B ver n \<Longrightarrow> MAX_PAYLOAD_LEN B \<le> ENT_LEN_MASK \<Longrightarrow> n < 65536"
  using le_trans [OF _ div_le_dividend, of n "MAX_PAYLOAD_LEN B - DIR_HDR_LEN" 8]
  by (simp add: fan_ok_def MAX_BUCKETS_def ENT_LEN_MASK_def)

lemma dir_bytes_fields:
  assumes "fan_ok B ver (length cs)" "dp < 3" "MAX_PAYLOAD_LEN B \<le> ENT_LEN_MASK"
  shows "get_u32 (dir_bytes mg ver dp cs) 0 = mg" "get_u16 (dir_bytes mg ver dp cs) 4 = length cs"
    "unat (dir_bytes mg ver dp cs ! 6) = ver" "unat (dir_bytes mg ver dp cs ! 7) = dp"
    "i < length cs \<Longrightarrow> dir_child (dir_bytes mg ver dp cs) i = cs ! i"
proof -
  have n: "length cs < 65536" by (rule fan_ok_small [OF assms(1,3)])
  show "get_u32 (dir_bytes mg ver dp cs) 0 = mg" "get_u16 (dir_bytes mg ver dp cs) 4 = length cs"
    using n by (simp_all add: get_u32_def get_u16_def dir_bytes_def field_def)
  show "unat (dir_bytes mg ver dp cs ! 6) = ver" "unat (dir_bytes mg ver dp cs ! 7) = dp"
    using assms(1,2) by (auto simp: dir_bytes_def nth_append fan_ok_def unat_of_nat)
  have "field (8 + i * 8) 8 (dir_bytes mg ver dp cs) = field (i * 8) 8 (concat (map (\<lambda>c. le_bytes 8 (unat c)) cs))"
    by (simp add: dir_bytes_def field_def)
  then show "i < length cs \<Longrightarrow> dir_child (dir_bytes mg ver dp cs) i = cs ! i"
    using field_concat8 [of i cs] by (simp add: dir_child_def get_u64_def DIR_HDR_LEN_def)
qed

lemma splice_concat8:
  "i < length cs \<Longrightarrow> splice (concat (map (\<lambda>c. le_bytes 8 (unat c)) (cs :: u64 list))) (i * 8) (le_bytes 8 (unat x)) =
     concat (map (\<lambda>c. le_bytes 8 (unat c)) (cs[i := x]))"
proof (induction cs arbitrary: i)
  case (Cons c cs)
  then show ?case by (cases i) (simp_all add: splice_def add.commute)
qed simp

lemma dir_set_child_image:
  assumes "i < length cs"
  shows "dir_set_child (dir_bytes mg ver dp cs) i x = dir_bytes mg ver dp (cs[i := x])"
proof -
  define h where "h = le_bytes 4 (unat mg) @ le_bytes 2 (length cs) @ [word_of_nat ver, word_of_nat dp :: byte]"
  define c where "c = concat (map (\<lambda>c. le_bytes 8 (unat c)) cs)"
  have "length h = 8" by (simp add: h_def)
  then have "splice (h @ c) (8 + i * 8) (le_bytes 8 (unat x)) = h @ splice c (i * 8) (le_bytes 8 (unat x))"
    by (simp add: splice_def add.commute)
  then show ?thesis
    using splice_concat8 [OF assms, of x] by (simp add: dir_set_child_def DIR_HDR_LEN_def dir_bytes_def h_def c_def)
qed

lemma dir_format_image: "n < 65536 \<Longrightarrow> dir_format n dp = dir_bytes KVHASH_DIR_MAGIC KVHASH_VERSION dp (replicate n 0)"
proof -
  have "le_bytes k 0 = replicate k 0" for k by (induction k) simp_all
  then have "concat (map (\<lambda>c. le_bytes 8 (unat c)) (replicate n (0 :: u64))) = replicate (n * 8) 0"
    by (induction n) (simp_all add: replicate_add del: le_bytes_numeral)
  then show ?thesis by (simp add: dir_format_def dir_bytes_def)
qed

section \<open>Lookup in the tree\<close>

lemma map_of_concat_at:
  "i < length xss \<Longrightarrow> (\<And>k. k < length xss \<Longrightarrow> k \<noteq> i \<Longrightarrow> x \<notin> fst ` set (xss ! k)) \<Longrightarrow>
   map_of (concat xss) x = map_of (xss ! i) x"
proof (induction xss arbitrary: i)
  case (Cons xs xss)
  show ?case
  proof (cases i)
    case 0
    have "x \<notin> fst ` set ys" if "ys \<in> set xss" for ys
    proof -
      from that obtain k where "k < length xss" "ys = xss ! k" by (metis in_set_conv_nth)
      with Cons.prems(2) [of "Suc k"] 0 show ?thesis by simp
    qed
    then have "map_of (concat xss) x = None" by (auto simp: map_of_eq_None_iff)
    with 0 show ?thesis by (simp add: map_add_def split: option.splits)
  next
    case (Suc k)
    have "map_of xs x = None" using Cons.prems(2) [of 0] Suc by (simp add: map_of_eq_None_iff)
    moreover have "map_of (concat xss) x = map_of (xss ! k) x"
    proof (rule Cons.IH)
      fix j assume "j < length xss" "j \<noteq> k"
      with Cons.prems(2) [of "Suc j"] Suc show "x \<notin> fst ` set (xss ! j)" by simp
    qed (use Cons.prems Suc in simp)
    ultimately show ?thesis using Suc by (simp add: map_add_def split: option.splits)
  qed
qed simp

lemma ent_pairs_simps [simp]:
  "ent_pairs [] = []" "ent_pairs (e # es) = (ae_key e, ae_val e) # ent_pairs es"
  "ent_pairs (es @ es') = ent_pairs es @ ent_pairs es'" "fst ` set (ent_pairs es) = ae_key ` set es"
  "ent_pairs (concat ess) = concat (map ent_pairs ess)"
  by (simp_all add: ent_pairs_def [abs_def] image_image map_concat)

lemma idx_less: "2 \<le> n \<Longrightarrow> idx_top h n < n" "2 \<le> n \<Longrightarrow> idx_sub h n < n"
  by (simp_all add: idx_top_def idx_sub_def)

lemma tree_shape:
  assumes "tree_holds B m root t"
  shows "leaf_ix t h < length (kt_leaves t)" "the_leaf t h \<in> set (kt_leaves t)" "leaf_holds B m (the_leaf t h)"
    "bkt_ix t h < length (lf_cs (the_leaf t h))" "length (lf_bs (the_leaf t h)) = length (lf_cs (the_leaf t h))"
    "j < length (kt_leaves t) \<Longrightarrow> length (lf_bs (kt_leaves t ! j)) = length (lf_cs (kt_leaves t ! j))"
proof -
  show ix: "leaf_ix t h < length (kt_leaves t)"
    using assms
    by (auto simp: tree_holds_def leaf_ix_def fan_ok_def idx_less split: option.splits)
  then show i: "the_leaf t h \<in> set (kt_leaves t)" by (simp add: the_leaf_def)
  with assms show lh: "leaf_holds B m (the_leaf t h)" by (simp add: tree_holds_def)
  then show "bkt_ix t h < length (lf_cs (the_leaf t h))" "length (lf_bs (the_leaf t h)) = length (lf_cs (the_leaf t h))"
    by (auto simp: leaf_holds_def bkt_ix_def fan_ok_def idx_less)
  show "j < length (kt_leaves t) \<Longrightarrow> length (lf_bs (kt_leaves t ! j)) = length (lf_cs (kt_leaves t ! j))"
    using assms nth_mem by (fastforce simp: tree_holds_def leaf_holds_def)
qed

lemma tree_map_at:
  assumes h: "tree_holds B m root t" and p: "placed B t"
  shows "tree_map t key = map_of (ent_pairs (the_bucket t (key_hash B key))) key"
proof -
  let ?h = "key_hash B key" and ?ls = "map (\<lambda>lf. ent_pairs (leaf_ents lf)) (kt_leaves t)"
  let ?bs = "map ent_pairs (lf_bs (the_leaf t (key_hash B key)))"
  note sh = tree_shape(1-5) [OF h, where h = ?h]
  have pl: "leaf_ix t ?h = j \<and> bkt_ix t ?h = i"
    if "j < length (kt_leaves t)" "i < length (lf_bs (kt_leaves t ! j))" "key \<in> ae_key ` set (lf_bs (kt_leaves t ! j) ! i)" for i j
    using p that by (auto simp: placed_def)
  have "tree_map t key = map_of (concat ?ls) key" by (simp add: tree_map_def tree_ents_def comp_def)
  also have "\<dots> = map_of (?ls ! leaf_ix t ?h) key"
  proof (rule map_of_concat_at)
    fix k assume k: "k < length ?ls" "k \<noteq> leaf_ix t ?h"
    have False if "key \<in> ae_key ` set (leaf_ents (kt_leaves t ! k))"
    proof -
      from that obtain es where "es \<in> set (lf_bs (kt_leaves t ! k))" "key \<in> ae_key ` set es" by (auto simp: leaf_ents_def)
      then obtain i where "i < length (lf_bs (kt_leaves t ! k))" "key \<in> ae_key ` set (lf_bs (kt_leaves t ! k) ! i)"
        by (metis in_set_conv_nth)
      with pl [of k] k show False by simp
    qed
    with k show "key \<notin> fst ` set (?ls ! k)" by auto
  qed (use sh in simp)
  also have "?ls ! leaf_ix t ?h = concat ?bs" using sh by (simp add: the_leaf_def leaf_ents_def)
  also have "map_of (concat ?bs) key = map_of (?bs ! bkt_ix t ?h) key"
  proof (rule map_of_concat_at)
    fix k assume k: "k < length ?bs" "k \<noteq> bkt_ix t ?h"
    with pl [of "leaf_ix t ?h" k] sh show "key \<notin> fst ` set (?bs ! k)" by (auto simp: the_leaf_def)
  qed (use sh in simp)
  finally show ?thesis using sh by (simp add: the_bucket_def)
qed

section \<open>Changing one bucket\<close>

definition slot_ids :: "u64 \<Rightarrow> aent list \<Rightarrow> u64 list" where
  "slot_ids c es = filter (\<lambda>x. x \<noteq> 0) [c] @ bucket_ids es"

definition put_bucket :: "kvtree \<Rightarrow> u32 \<Rightarrow> u64 \<Rightarrow> aent list \<Rightarrow> kvtree" where
  "put_bucket t h c es =
     (let lf = the_leaf t h; i = bkt_ix t h in
      t\<lparr>kt_leaves := (kt_leaves t)[leaf_ix t h := lf\<lparr>lf_cs := (lf_cs lf)[i := c], lf_bs := (lf_bs lf)[i := es]\<rparr>]\<rparr>)"

definition the_child :: "kvtree \<Rightarrow> u32 \<Rightarrow> u64" where
  "the_child t h = lf_cs (the_leaf t h) ! bkt_ix t h"

lemma put_bucket_sel [simp]:
  "kt_top (put_bucket t h c es) = kt_top t" "length (kt_leaves (put_bucket t h c es)) = length (kt_leaves t)"
  "leaf_ix (put_bucket t h c es) = leaf_ix t"
  by (simp_all add: put_bucket_def Let_def leaf_ix_def fun_eq_iff split: option.splits)

lemma put_bucket_leaf:
  assumes "leaf_ix t h < length (kt_leaves t)" "j < length (kt_leaves t)"
  shows "kt_leaves (put_bucket t h c es) ! j =
    (if j = leaf_ix t h then (the_leaf t h)\<lparr>lf_cs := (lf_cs (the_leaf t h))[bkt_ix t h := c], lf_bs := (lf_bs (the_leaf t h))[bkt_ix t h := es]\<rparr>
     else kt_leaves t ! j)"
  using assms by (simp add: put_bucket_def Let_def)

lemma put_bucket_ix:
  assumes "tree_holds B m root t"
  shows "bkt_ix (put_bucket t h c es) = bkt_ix t" "map lf_id (kt_leaves (put_bucket t h c es)) = map lf_id (kt_leaves t)"
    "the_bucket (put_bucket t h c es) h' =
      (if leaf_ix t h' = leaf_ix t h \<and> bkt_ix t h' = bkt_ix t h then es else the_bucket t h')"
proof -
  note sh = tree_shape [OF assms] and pl = put_bucket_leaf [OF tree_shape(1) [OF assms, where h = h]]
  show ix: "bkt_ix (put_bucket t h c es) = bkt_ix t"
    using sh(1) by (simp add: fun_eq_iff bkt_ix_def the_leaf_def pl)
  show "map lf_id (kt_leaves (put_bucket t h c es)) = map lf_id (kt_leaves t)"
    by (rule nth_equalityI) (auto simp: pl the_leaf_def)
  show "the_bucket (put_bucket t h c es) h' =
      (if leaf_ix t h' = leaf_ix t h \<and> bkt_ix t h' = bkt_ix t h then es else the_bucket t h')"
    using sh(1) [where h = h'] sh(4) [where h = h] sh(5) [where h = h] by (auto simp: the_bucket_def ix the_leaf_def pl)
qed

lemma put_bucket_placed:
  assumes h: "tree_holds B m root t" and p: "placed B t"
    and es: "\<And>e. e \<in> set es \<Longrightarrow> leaf_ix t (key_hash B (ae_key e)) = leaf_ix t h \<and> bkt_ix t (key_hash B (ae_key e)) = bkt_ix t h"
  shows "placed B (put_bucket t h c es)"
  unfolding placed_def
proof (intro allI impI ballI)
  fix j i e
  note sh = tree_shape(1-5) [OF h, where h = h] and pl = put_bucket_leaf [OF tree_shape(1) [OF h, where h = h], where c = c and es = es]
  assume j: "j < length (kt_leaves (put_bucket t h c es))" and i: "i < length (lf_bs (kt_leaves (put_bucket t h c es) ! j))"
    and e: "e \<in> set (lf_bs (kt_leaves (put_bucket t h c es) ! j) ! i)"
  show "leaf_ix (put_bucket t h c es) (key_hash B (ae_key e)) = j \<and> bkt_ix (put_bucket t h c es) (key_hash B (ae_key e)) = i"
  proof (cases "j = leaf_ix t h \<and> i = bkt_ix t h")
    case True
    with e j sh have "e \<in> set es" by (simp add: pl)
    with es True show ?thesis by (simp add: put_bucket_ix [OF h])
  next
    case False
    have "i < length (lf_bs (kt_leaves t ! j))" using i j by (cases "j = leaf_ix t h") (auto simp: pl the_leaf_def)
    moreover have "e \<in> set (lf_bs (kt_leaves t ! j) ! i)"
      using e j False by (cases "j = leaf_ix t h") (auto simp: pl the_leaf_def)
    ultimately show ?thesis using p j by (simp add: placed_def put_bucket_ix [OF h])
  qed
qed

text \<open>The new content of the bucket is the new content of the map on the keys that belong there.\<close>

lemma put_bucket_map:
  assumes h: "tree_holds B m root t" and p: "placed B t"
    and h': "tree_holds B m' root (put_bucket t (key_hash B key) c es)" and p': "placed B (put_bucket t (key_hash B key) c es)"
    and es: "map_of (ent_pairs es) = (map_of (ent_pairs (the_bucket t (key_hash B key))))(key := v)"
  shows "tree_map (put_bucket t (key_hash B key) c es) = (tree_map t)(key := v)"
proof
  fix k
  have "tree_map (put_bucket t (key_hash B key) c es) k =
      map_of (ent_pairs (the_bucket (put_bucket t (key_hash B key) c es) (key_hash B k))) k"
    by (rule tree_map_at [OF h' p'])
  also have "\<dots> = ((tree_map t)(key := v)) k"
  proof (cases "leaf_ix t (key_hash B k) = leaf_ix t (key_hash B key) \<and> bkt_ix t (key_hash B k) = bkt_ix t (key_hash B key)")
    case True
    then have "the_bucket t (key_hash B k) = the_bucket t (key_hash B key)" by (simp add: the_bucket_def the_leaf_def)
    with True tree_map_at [OF h p, of k] es show ?thesis by (simp add: put_bucket_ix [OF h])
  next
    case False
    with tree_map_at [OF h p, of k] show ?thesis by (auto simp: put_bucket_ix [OF h])
  qed
  finally show "tree_map (put_bucket t (key_hash B key) c es) k = ((tree_map t)(key := v)) k" .
qed

section \<open>The objects of a map\<close>

lemma distinct_filter_nth:
  "distinct (filter P xs) \<Longrightarrow> i < length xs \<Longrightarrow> k < length xs \<Longrightarrow> P (xs ! i) \<Longrightarrow> xs ! i = xs ! k \<Longrightarrow> i = k"
proof (induction xs arbitrary: i k)
  case (Cons x xs)
  have no: "xs ! n \<noteq> x" if "P x" "n < length xs" for n using Cons.prems(1) that nth_mem [of n xs] by auto
  have d: "distinct (filter P xs)" using Cons.prems(1) by (simp split: if_splits)
  show ?case
  proof (cases i)
    case 0
    with Cons.prems(3-5) no [of "k - 1"] show ?thesis by (cases k) simp_all
  next
    case (Suc i')
    show ?thesis
    proof (cases k)
      case 0
      with Suc Cons.prems(2-5) no [of i'] show ?thesis by simp
    next
      case (Suc k')
      with \<open>i = Suc i'\<close> Cons.prems(2-5) Cons.IH [OF d, of i' k'] show ?thesis by simp
    qed
  qed
qed simp

lemma distinct_concat_nth:
  assumes "distinct (concat xss)" "i < length xss" "k < length xss" "i \<noteq> k"
  shows "set (xss ! i) \<inter> set (xss ! k) = {}"
proof -
  have *: "set (xss ! a) \<inter> set (xss ! b) = {}" if "a < b" "b < length xss" for a b
  proof -
    have "xss = take b xss @ xss ! b # drop (Suc b) xss" using that(2) by (rule id_take_nth_drop)
    then have "distinct (concat (take b xss @ xss ! b # drop (Suc b) xss))" using assms(1) by simp
    moreover have "xss ! a \<in> set (take b xss)" using that by (auto simp: in_set_conv_nth)
    ultimately show ?thesis by auto
  qed
  show ?thesis
  proof (cases "i < k")
    case False
    with assms(2,4) * [of k i] show ?thesis by (simp add: Int_commute)
  qed (use * [of i k] assms(3) in simp)
qed

lemma slot_ids_simps:
  "set (slot_ids c es) = {x. x = c \<and> x \<noteq> 0} \<union> set (bucket_ids es)" "set (bucket_ids es) = (\<Union>e \<in> set es. set (ent_ids e))"
  "set (ent_ids e) = {x. x \<noteq> 0 \<and> (x = ae_kid e \<or> x = ae_vid e)}"
proof -
  show "set (slot_ids c es) = {x. x = c \<and> x \<noteq> 0} \<union> set (bucket_ids es)" by (auto simp: slot_ids_def)
  show "set (bucket_ids es) = (\<Union>e \<in> set es. set (ent_ids e))" by (simp add: bucket_ids_def)
  show "set (ent_ids e) = {x. x \<noteq> 0 \<and> (x = ae_kid e \<or> x = ae_vid e)}" by (auto simp: ent_ids_def)
qed

lemma leaf_slots_disjoint:
  assumes d: "distinct (leaf_ids lf)" and l: "length (lf_bs lf) = length (lf_cs lf)"
    and i: "i < length (lf_cs lf)" and k: "k < length (lf_cs lf)" "k \<noteq> i"
  shows "set (slot_ids (lf_cs lf ! k) (lf_bs lf ! k)) \<inter> set (slot_ids (lf_cs lf ! i) (lf_bs lf ! i)) = {}"
    "lf_id lf \<notin> set (slot_ids (lf_cs lf ! i) (lf_bs lf ! i))"
proof -
  let ?C = "filter (\<lambda>x. x \<noteq> 0) (lf_cs lf)" and ?D = "concat (map bucket_ids (lf_bs lf))"
  have dd: "distinct ?C" "distinct ?D" "set ?C \<inter> set ?D = {}" "lf_id lf \<notin> set ?C" "lf_id lf \<notin> set ?D"
    using d by (auto simp: leaf_ids_def)
  have b: "set (bucket_ids (lf_bs lf ! n)) \<subseteq> set ?D" if "n < length (lf_cs lf)" for n
  proof -
    have "lf_bs lf ! n \<in> set (lf_bs lf)" using that l by simp
    then show ?thesis by auto
  qed
  have bb: "set (bucket_ids (lf_bs lf ! k)) \<inter> set (bucket_ids (lf_bs lf ! i)) = {}"
    using distinct_concat_nth [OF dd(2), of k i] i k l by simp
  have c: "lf_cs lf ! n \<in> set ?C" if "n < length (lf_cs lf)" "lf_cs lf ! n \<noteq> 0" for n using that by auto
  have cc: "lf_cs lf ! k \<noteq> lf_cs lf ! i" if "lf_cs lf ! k \<noteq> 0" using distinct_filter_nth [OF dd(1) k(1) i] that k(2) by auto
  show "set (slot_ids (lf_cs lf ! k) (lf_bs lf ! k)) \<inter> set (slot_ids (lf_cs lf ! i) (lf_bs lf ! i)) = {}"
    using b [OF i] b [OF k(1)] bb c [OF i] c [OF k(1)] cc dd(3) unfolding slot_ids_simps(1) by blast
  show "lf_id lf \<notin> set (slot_ids (lf_cs lf ! i) (lf_bs lf ! i))"
  proof
    assume "lf_id lf \<in> set (slot_ids (lf_cs lf ! i) (lf_bs lf ! i))"
    then consider "lf_id lf = lf_cs lf ! i" "lf_cs lf ! i \<noteq> 0" | "lf_id lf \<in> set (bucket_ids (lf_bs lf ! i))"
      by (auto simp: slot_ids_simps(1))
    then show False using b [OF i] c [OF i] dd(4,5) by cases auto
  qed
qed

text \<open>The ids outside one slot of a leaf.\<close>

definition leaf_rest :: "kvleaf \<Rightarrow> nat \<Rightarrow> u64 list" where
  "leaf_rest lf i =
     lf_id lf # filter (\<lambda>x. x \<noteq> 0) (take i (lf_cs lf)) @ filter (\<lambda>x. x \<noteq> 0) (drop (Suc i) (lf_cs lf)) @
     concat (map bucket_ids (take i (lf_bs lf))) @ concat (map bucket_ids (drop (Suc i) (lf_bs lf)))"

lemma leaf_ids_put:
  assumes "i < length (lf_cs lf)" "i < length (lf_bs lf)"
  shows "mset (leaf_ids (lf\<lparr>lf_cs := (lf_cs lf)[i := c], lf_bs := (lf_bs lf)[i := es]\<rparr>)) = mset (leaf_rest lf i @ slot_ids c es)"
  using assms by (simp add: leaf_ids_def leaf_rest_def slot_ids_def upd_conv_take_nth_drop)

lemma put_bucket_same:
  assumes "tree_holds B m root t"
  shows "put_bucket t h (the_child t h) (the_bucket t h) = t"
  by (simp add: put_bucket_def Let_def the_child_def the_bucket_def the_leaf_def)

lemma put_bucket_ids:
  assumes "tree_holds B m root t"
  obtains rs where "\<And>c es. mset (tree_ids root (put_bucket t h c es)) = mset (rs @ slot_ids c es)"
    "lf_id (the_leaf t h) \<in> set rs"
proof
  let ?j = "leaf_ix t h" and ?L = "kt_leaves t"
  let ?rs = "(if kt_top t = None then [] else [root]) @ concat (map leaf_ids (take ?j ?L)) @
    leaf_rest (the_leaf t h) (bkt_ix t h) @ concat (map leaf_ids (drop (Suc ?j) ?L))"
  note sh = tree_shape(1-5) [OF assms, where h = h]
  show "mset (tree_ids root (put_bucket t h c es)) = mset (?rs @ slot_ids c es)" for c es
    using leaf_ids_put [where i = "bkt_ix t h" and lf = "the_leaf t h" and c = c and es = es] sh
    by (simp add: tree_ids_def) (simp add: put_bucket_def Let_def upd_conv_take_nth_drop)
  show "lf_id (the_leaf t h) \<in> set ?rs" by (simp add: leaf_rest_def)
qed

section \<open>Frames\<close>

lemma aent_bound_frame:
  "(\<And>x. x \<in> set (ent_ids e) \<Longrightarrow> m' x = m x) \<Longrightarrow> aent_bound m' e = aent_bound m e"
  by (simp add: aent_bound_def slot_ids_simps)

lemma bucket_holds_frame:
  assumes "\<And>x. x \<in> set (slot_ids c es) \<Longrightarrow> m' x = m x"
  shows "bucket_holds B m' c es = bucket_holds B m c es"
proof -
  have "aent_bound m' e = aent_bound m e" if "e \<in> set es" for e
    by (rule aent_bound_frame) (use assms that in \<open>auto simp: slot_ids_simps\<close>)
  then show ?thesis using assms [of c] by (auto simp: bucket_holds_def slot_ids_simps)
qed

lemma slot_ids_leaf:
  "i < length (lf_cs lf) \<Longrightarrow> length (lf_bs lf) = length (lf_cs lf) \<Longrightarrow> set (slot_ids (lf_cs lf ! i) (lf_bs lf ! i)) \<subseteq> set (leaf_ids lf)"
  by (auto simp: slot_ids_simps(1) leaf_ids_def)

lemma leaf_holds_frame:
  assumes "\<And>x. x \<in> set (leaf_ids lf) \<Longrightarrow> m' x = m x" "leaf_holds B m lf"
  shows "leaf_holds B m' lf"
proof -
  have "bucket_holds B m' (lf_cs lf ! i) (lf_bs lf ! i)" if "i < length (lf_cs lf)" for i
  proof -
    have "bucket_holds B m' (lf_cs lf ! i) (lf_bs lf ! i) = bucket_holds B m (lf_cs lf ! i) (lf_bs lf ! i)"
      by (rule bucket_holds_frame) (use assms slot_ids_leaf [OF that] in \<open>auto simp: leaf_holds_def\<close>)
    with assms(2) that show ?thesis by (simp add: leaf_holds_def)
  qed
  moreover have "m' (lf_id lf) = m (lf_id lf)" by (rule assms(1)) (simp add: leaf_ids_def)
  ultimately show ?thesis using assms(2) by (simp add: leaf_holds_def)
qed

lemma tree_ids_leaf: "lf \<in> set (kt_leaves t) \<Longrightarrow> set (leaf_ids lf) \<subseteq> set (tree_ids root t)"
  by (auto simp: tree_ids_def)

lemma tree_holds_frame:
  assumes "\<And>x. x \<in> set (tree_ids root t) \<Longrightarrow> m' x = m x" "tree_holds B m root t"
  shows "tree_holds B m' root t"
proof -
  have "leaf_holds B m' lf" if "lf \<in> set (kt_leaves t)" for lf
    by (rule leaf_holds_frame [of lf m' m]) (use assms that tree_ids_leaf [OF that] in \<open>auto simp: tree_holds_def\<close>)
  moreover have "m' root = m root" if "kt_top t \<noteq> None" by (rule assms(1)) (use that in \<open>auto simp: tree_ids_def\<close>)
  ultimately show ?thesis using assms(2) by (auto simp: tree_holds_def split: option.splits)
qed

lemma tree_ok_frame:
  "(\<And>x. x \<in> set (tree_ids root t) \<Longrightarrow> m' x = m x) \<Longrightarrow> tree_ok B m root t \<Longrightarrow> tree_ok B m' root t"
  using tree_holds_frame by (simp add: tree_ok_def)

text \<open>A bucket rewritten in place or published: the objects outside its slot are as before.\<close>

lemma put_bucket_holds:
  fixes h :: u32
  assumes h: "tree_holds B m root t" and d: "distinct (tree_ids root t)"
  defines "lf \<equiv> the_leaf t h" and "i \<equiv> bkt_ix t h"
  assumes keep: "\<And>x. x \<in> set (tree_ids root t) \<Longrightarrow> x \<noteq> lf_id lf \<Longrightarrow> x \<notin> set (slot_ids (the_child t h) (the_bucket t h)) \<Longrightarrow> m' x = m x"
    and dir: "m' (lf_id lf) = Some (dir_bytes KVHASH_DIR_MAGIC (lf_ver lf) 1 ((lf_cs lf)[i := c]))"
    and bk: "bucket_holds B m' c es"
  shows "tree_holds B m' root (put_bucket t h c es)"
proof -
  note sh = tree_shape(1-5) [OF h, where h = h, folded lf_def i_def]
  let ?j = "leaf_ix t h" and ?L = "kt_leaves t"
  let ?old = "set (slot_ids (the_child t h) (the_bucket t h))"
  have old: "?old = set (slot_ids (lf_cs lf ! i) (lf_bs lf ! i))" by (simp add: the_child_def the_bucket_def lf_def i_def)
  then have old_leaf: "insert (lf_id lf) ?old \<subseteq> set (leaf_ids lf)" using slot_ids_leaf [OF sh(4,5)] by (simp add: leaf_ids_def)
  have dl: "distinct (leaf_ids l)" if "l \<in> set ?L" for l
    using d that unfolding tree_ids_def distinct_append distinct_concat_iff by (metis image_eqI set_map)
  have other: "leaf_holds B m' (?L ! k)" if k: "k < length ?L" "k \<noteq> ?j" for k
  proof (rule leaf_holds_frame [of _ m' m])
    have "distinct (concat (map leaf_ids ?L))" using d by (simp add: tree_ids_def)
    from distinct_concat_nth [OF this, of k ?j] k sh(1)
    have "set (leaf_ids (?L ! k)) \<inter> set (leaf_ids lf) = {}" by (simp add: lf_def the_leaf_def)
    then show "m' x = m x" if "x \<in> set (leaf_ids (?L ! k))" for x
      using that keep [of x] tree_ids_leaf [OF nth_mem [OF k(1)], of root] old_leaf by blast
    show "leaf_holds B m (?L ! k)" using h k by (simp add: tree_holds_def)
  qed
  have this': "leaf_holds B m' (lf\<lparr>lf_cs := (lf_cs lf)[i := c], lf_bs := (lf_bs lf)[i := es]\<rparr>)"
  proof -
    have "bucket_holds B m' (lf_cs lf ! k) (lf_bs lf ! k)" if k: "k < length (lf_cs lf)" "k \<noteq> i" for k
    proof -
      note dj = leaf_slots_disjoint [OF dl [OF sh(2)] sh(5,4) k] leaf_slots_disjoint(2) [OF dl [OF sh(2)] sh(5) k(1) sh(4) k(2) [symmetric]]
      have "bucket_holds B m' (lf_cs lf ! k) (lf_bs lf ! k) = bucket_holds B m (lf_cs lf ! k) (lf_bs lf ! k)"
      proof (rule bucket_holds_frame)
        fix x assume x: "x \<in> set (slot_ids (lf_cs lf ! k) (lf_bs lf ! k))"
        then have "x \<in> set (tree_ids root t)" using slot_ids_leaf [OF k(1) sh(5)] tree_ids_leaf [OF sh(2)] by blast
        with x dj old keep show "m' x = m x" by blast
      qed
      with sh(3) k show ?thesis by (simp add: leaf_holds_def)
    qed
    with sh(3-5) dir bk show ?thesis by (auto simp: leaf_holds_def nth_list_update)
  qed
  have "leaf_holds B m' l" if "l \<in> set (kt_leaves (put_bucket t h c es))" for l
  proof -
    from that obtain k where k: "k < length ?L" "l = kt_leaves (put_bucket t h c es) ! k" by (auto simp: in_set_conv_nth)
    then show ?thesis
      using other [of k] this' put_bucket_leaf [where t = t and h = h and j = k and c = c and es = es] sh(1)
      by (auto simp: lf_def i_def split: if_splits)
  qed
  moreover have "m' root = m root" if "kt_top t \<noteq> None"
  proof -
    have "root \<notin> set (leaf_ids lf)" using d that sh(2) by (auto simp: tree_ids_def)
    then show ?thesis using keep [of root] old_leaf that by (auto simp: tree_ids_def)
  qed
  ultimately show ?thesis
    using h by (auto simp: tree_holds_def put_bucket_ix(2) [OF h] split: option.splits)
qed

lemma put_bucket_distinct:
  fixes h :: u32
  assumes h: "tree_holds B m root t" and d: "distinct (tree_ids root t)"
    and n: "distinct (slot_ids c es)"
    and fresh: "\<And>x. x \<in> set (slot_ids c es) \<Longrightarrow> x \<in> set (tree_ids root t) \<Longrightarrow> x \<in> set (slot_ids (the_child t h) (the_bucket t h))"
  shows "distinct (tree_ids root (put_bucket t h c es))"
    "set (tree_ids root (put_bucket t h c es)) =
       set (tree_ids root t) - set (slot_ids (the_child t h) (the_bucket t h)) \<union> set (slot_ids c es)"
proof -
  obtain rs where rs: "\<And>c es. mset (tree_ids root (put_bucket t h c es)) = mset (rs @ slot_ids c es)"
    using put_bucket_ids [OF h] by blast
  let ?old = "slot_ids (the_child t h) (the_bucket t h)"
  have o: "mset (tree_ids root t) = mset (rs @ ?old)" using rs [of "the_child t h" "the_bucket t h"] by (simp add: put_bucket_same [OF h])
  have do: "distinct (rs @ ?old)" using mset_eq_imp_distinct_iff [OF o] d by simp
  have so: "set (tree_ids root t) = set rs \<union> set ?old" using mset_eq_setD [OF o] by simp
  have "distinct (rs @ slot_ids c es)" using do n fresh so by auto
  then show "distinct (tree_ids root (put_bucket t h c es))" using mset_eq_imp_distinct_iff [OF rs [of c es]] by simp
  show "set (tree_ids root (put_bucket t h c es)) = set (tree_ids root t) - set ?old \<union> set (slot_ids c es)"
    using mset_eq_setD [OF rs [of c es]] so do by auto
qed

end
