(* ===== verification/Kv_Db.thy ===== *)
theory Kv_Db
  imports Map_Shape Root_Reg Kv_Hash_Spec
begin

text \<open>
  L3, kvdb (\<open>lib/kvdb/kvdb.c\<close>): named string-keyed maps. A name is hashed to a registry key; the
  registry names a meta object, and the meta object the backend and the structure root of the map.

  A C string is the list of its bytes; reading past its end gives the terminator. \<open>resolve\<close> is given
  the provider compiled into the build. \<open>kvdb_open\<close> answers \<open>None\<close> where the create of the provider
  does not return.
\<close>

section \<open>Strings\<close>

definition c_at :: "byte list \<Rightarrow> nat \<Rightarrow> byte" where
  "c_at name i = (if i < length name then name ! i else 0)"

definition c_str :: "byte list \<Rightarrow> byte list" where
  "c_str key = takeWhile (\<lambda>b. b \<noteq> 0) key"

definition KVDB_NAME_MAX :: nat where "KVDB_NAME_MAX = 15"

text \<open>\<open>while (nlen <= KVDB_NAME_MAX && name[nlen] != 0) nlen++\<close>.\<close>

function name_scan :: "byte list \<Rightarrow> nat \<Rightarrow> nat" where
  "name_scan name nlen =
     (if nlen \<le> KVDB_NAME_MAX \<and> c_at name nlen \<noteq> 0 then name_scan name (nlen + 1) else nlen)"
  by pat_completeness auto
termination
  by (relation "measure (\<lambda>(name, nlen). KVDB_NAME_MAX + 1 - nlen)") auto

declare name_scan.simps [simp del]

section \<open>The meta object\<close>

definition KVDB_MAGIC :: u32 where "KVDB_MAGIC = 0x4b564442"
definition KVDB_META_VERSION :: byte where "KVDB_META_VERSION = 1"

datatype kvdb_backend = KVDB_BACKEND_DEFAULT | KVDB_BACKEND_HASH | KVDB_BACKEND_TREE | KVDB_BACKEND_LIST

primrec backend_code :: "kvdb_backend \<Rightarrow> nat" where
  "backend_code KVDB_BACKEND_DEFAULT = 0"
| "backend_code KVDB_BACKEND_HASH = 1"
| "backend_code KVDB_BACKEND_TREE = 2"
| "backend_code KVDB_BACKEND_LIST = 3"

definition KVDB_DEFAULT_BACKEND :: kvdb_backend where "KVDB_DEFAULT_BACKEND = KVDB_BACKEND_HASH"

record kvdb_meta =
  m_magic :: u32
  m_backend :: byte
  m_version :: byte
  m_name_len :: byte
  m_rsvd :: byte
  m_struct_root :: u64
  m_name :: "byte list"

definition meta_bytes :: "kvdb_meta \<Rightarrow> byte list" where
  "meta_bytes mt =
     le_bytes 4 (unat (m_magic mt)) @ [m_backend mt, m_version mt, m_name_len mt, m_rsvd mt] @
     le_bytes 8 (unat (m_struct_root mt)) @ m_name mt"

text \<open>What the 32 bytes of a meta object read as.\<close>

definition meta_of :: "byte list \<Rightarrow> kvdb_meta" where
  "meta_of bs =
     \<lparr>m_magic = get_u32 bs 0, m_backend = bs ! 4, m_version = bs ! 5, m_name_len = bs ! 6, m_rsvd = bs ! 7,
      m_struct_root = get_u64 bs 8, m_name = field 16 16 bs\<rparr>"

definition KVDB_META_SIZE :: nat where "KVDB_META_SIZE = 32"

definition resolve :: "'s map_ops \<Rightarrow> nat \<Rightarrow> 's map_ops option" where
  "resolve kvhash b = (if b = backend_code KVDB_BACKEND_HASH then Some kvhash else None)"

fun name_hash_from :: "u32 \<Rightarrow> byte list \<Rightarrow> u32" where
  "name_hash_from h [] = h"
| "name_hash_from h (b # bs) = name_hash_from ((h XOR ucast b) * 0x01000193) bs"

definition name_hash :: "byte list \<Rightarrow> u32" where
  "name_hash name = name_hash_from 0x811c9dc5 name"

definition ROOTREG_KEY :: "u32 \<Rightarrow> u32 \<Rightarrow> u64" where
  "ROOTREG_KEY magic32 instance32 = push_bit 32 (ucast magic32) OR ucast instance32"

section \<open>Operations\<close>

record kvdb_config =
  kc_backend :: kvdb_backend
  kc_expected_entries :: u32
  kc_typical_entry_bytes :: u32
  kc_max_entry_bytes :: u32

record 's kvdb =
  db_root :: u64
  db_ops :: "'s map_ops"

definition kvdb_map_config :: "kvdb_config option \<Rightarrow> map_config" where
  "kvdb_map_config cfg =
     (case cfg of
        None \<Rightarrow> \<lparr>expected_entries = 0, typical_entry_bytes = 0, max_entry_bytes = 0\<rparr>
      | Some c \<Rightarrow> \<lparr>expected_entries = kc_expected_entries c, typical_entry_bytes = kc_typical_entry_bytes c,
          max_entry_bytes = kc_max_entry_bytes c\<rparr>)"

definition want_backend :: "kvdb_config option \<Rightarrow> kvdb_backend" where
  "want_backend cfg =
     (case cfg of
        None \<Rightarrow> KVDB_DEFAULT_BACKEND
      | Some c \<Rightarrow> if kc_backend c \<noteq> KVDB_BACKEND_DEFAULT then kc_backend c else KVDB_DEFAULT_BACKEND)"

definition new_meta :: "byte list \<Rightarrow> nat \<Rightarrow> u64 \<Rightarrow> kvdb_meta" where
  "new_meta name b root =
     \<lparr>m_magic = KVDB_MAGIC, m_backend = word_of_nat b, m_version = KVDB_META_VERSION,
      m_name_len = word_of_nat (length name), m_rsvd = 0, m_struct_root = root,
      m_name = name @ replicate (KVDB_NAME_MAX + 1 - length name) 0\<rparr>"

definition create_instance ::
  "'s blob_api \<Rightarrow> 's map_ops \<Rightarrow> 's \<Rightarrow> u64 \<Rightarrow> byte list \<Rightarrow> kvdb_config option \<Rightarrow> ('s kvdb res \<times> 's) option" where
  "create_instance A kvhash s meta_id name cfg =
     (let want = backend_code (want_backend cfg) in
      case resolve kvhash want of
        None \<Rightarrow> Some (Inl ENOTSUP, s)
      | Some ops \<Rightarrow>
          let (struct_root, s) = api_alloc_id A s in
          if struct_root = 0 then Some (Inl EIO, s)
          else case op_create ops s struct_root (Some (kvdb_map_config cfg)) of
            None \<Rightarrow> None
          | Some (r, s) \<Rightarrow> Some (
              seqs (r, s) (\<lambda>_ s.
              seqs (api_update A s meta_id (meta_bytes (new_meta name want struct_root))) (\<lambda>_ s.
                (Inr \<lparr>db_root = struct_root, db_ops = ops\<rparr>, s)))))"

definition attach :: "'s map_ops \<Rightarrow> byte list \<Rightarrow> byte list \<Rightarrow> 's kvdb res" where
  "attach kvhash name bs =
     (let mt = meta_of bs in
      if length bs < KVDB_META_SIZE \<or> m_magic mt \<noteq> KVDB_MAGIC then Inl EIO
      else if unat (m_name_len mt) \<noteq> length name \<or> memcmp (take (length name) (m_name mt)) name \<noteq> 0 then Inl EEXIST
      else case resolve kvhash (unat (m_backend mt)) of
        None \<Rightarrow> Inl ENOTSUP
      | Some ops \<Rightarrow> Inr \<lparr>db_root = m_struct_root mt, db_ops = ops\<rparr>)"

text \<open>\<open>db_null\<close>: the caller passed no handle; no name is a NULL one.\<close>

definition kvdb_open ::
  "'s blob_api \<Rightarrow> nat \<Rightarrow> 's map_ops \<Rightarrow> 's \<Rightarrow> bool \<Rightarrow> byte list option \<Rightarrow> kvdb_config option \<Rightarrow> ('s kvdb res \<times> 's) option" where
  "kvdb_open A roots kvhash s db_null name cfg =
     (case name of
        None \<Rightarrow> Some (Inl EINVAL, s)
      | Some nm \<Rightarrow>
          if db_null then Some (Inl EINVAL, s)
          else let nlen = name_scan nm 0 in
          if nlen = 0 \<or> nlen > KVDB_NAME_MAX then Some (Inl EINVAL, s)
          else let n = take nlen nm in
          case rootreg_get_or_create A roots s (ROOTREG_KEY KVDB_MAGIC (name_hash n)) False of
            (Inl e, s) \<Rightarrow> Some (Inl e, s)
          | (Inr meta_id, s) \<Rightarrow>
              (case api_get A s meta_id KVDB_META_SIZE of
                 Inl e \<Rightarrow> if e = ENOENT then create_instance A kvhash s meta_id n cfg else Some (Inl e, s)
               | Inr bs \<Rightarrow> if length bs = 0 then create_instance A kvhash s meta_id n cfg else Some (attach kvhash n bs, s)))"

text \<open>An absent handle or key is a NULL pointer.\<close>

definition kvdb_set :: "'s \<Rightarrow> 's kvdb option \<Rightarrow> byte list option \<Rightarrow> byte list option \<Rightarrow> nat \<Rightarrow> unit res \<times> 's" where
  "kvdb_set s db key val len =
     (case (db, key) of
        (Some db, Some k) \<Rightarrow> op_set (db_ops db) s (db_root db) (c_str k) val len
      | _ \<Rightarrow> (Inl EINVAL, s))"

definition kvdb_get :: "'s \<Rightarrow> 's kvdb option \<Rightarrow> byte list option \<Rightarrow> nat \<Rightarrow> byte list res \<times> nat option" where
  "kvdb_get s db key out_sz =
     (case (db, key) of
        (Some db, Some k) \<Rightarrow> op_get (db_ops db) s (db_root db) (c_str k) out_sz
      | _ \<Rightarrow> (Inl EINVAL, None))"

definition kvdb_delete :: "'s \<Rightarrow> 's kvdb option \<Rightarrow> byte list option \<Rightarrow> unit res \<times> 's" where
  "kvdb_delete s db key =
     (case (db, key) of
        (Some db, Some k) \<Rightarrow> op_del (db_ops db) s (db_root db) (c_str k)
      | _ \<Rightarrow> (Inl EINVAL, s))"

definition kvdb_has :: "'s \<Rightarrow> 's kvdb option \<Rightarrow> byte list option \<Rightarrow> bool" where
  "kvdb_has s db key =
     (case (db, key) of
        (Some db, Some k) \<Rightarrow> fst (op_get (db_ops db) s (db_root db) (c_str k) 0) \<noteq> Inl ENOENT
      | _ \<Rightarrow> False)"

section \<open>Names and metas\<close>

definition name_ok :: "byte list \<Rightarrow> bool" where
  "name_ok n \<longleftrightarrow> n \<noteq> [] \<and> length n \<le> KVDB_NAME_MAX \<and> 0 \<notin> set n"

lemma name_scan_ok: "name_ok n \<Longrightarrow> name_scan n 0 = length n"
proof -
  assume ok: "name_ok n"
  have "k \<le> length n \<Longrightarrow> name_scan n k = length n" for k
  proof (induction "length n - k" arbitrary: k)
    case 0
    then show ?case by (subst name_scan.simps) (simp add: c_at_def)
  next
    case (Suc d)
    then have k: "k < length n" by simp
    then have "n ! k \<noteq> 0" using ok nth_mem by (fastforce simp: name_ok_def)
    with k ok Suc show ?case by (subst name_scan.simps) (simp add: c_at_def name_ok_def)
  qed
  then show ?thesis by simp
qed

lemma meta_roundtrip:
  assumes "length (m_name mt) = 16"
  shows "meta_of (meta_bytes mt) = mt" "length (meta_bytes mt) = KVDB_META_SIZE"
proof -
  show "meta_of (meta_bytes mt) = mt"
    using assms by (cases mt) (simp add: meta_of_def meta_bytes_def get_u32_def get_u64_def field_def nth_append)
  show "length (meta_bytes mt) = KVDB_META_SIZE" using assms by (simp add: meta_bytes_def KVDB_META_SIZE_def)
qed

lemma length_new_meta: "name_ok n \<Longrightarrow> length (m_name (new_meta n b root)) = 16"
  by (simp add: new_meta_def name_ok_def KVDB_NAME_MAX_def)

lemma attach_same:
  assumes "name_ok n"
  shows "attach kvhash n (meta_bytes (new_meta n (backend_code KVDB_BACKEND_HASH) root)) = Inr \<lparr>db_root = root, db_ops = kvhash\<rparr>"
proof -
  have "unat (word_of_nat (length n) :: byte) = length n" using assms by (simp add: name_ok_def KVDB_NAME_MAX_def unat_of_nat)
  moreover have "take (length n) (m_name (new_meta n b root)) = n" for b by (simp add: new_meta_def)
  moreover have "memcmp xs xs = 0" for xs by (induction xs) simp_all
  ultimately show ?thesis
    using meta_roundtrip [OF length_new_meta [OF assms]] by (simp add: attach_def Let_def resolve_def) (simp add: new_meta_def)
qed

lemma attach_other:
  assumes "name_ok n" "name_ok n'" "n \<noteq> n'"
  shows "attach kvhash n (meta_bytes (new_meta n' b root)) = Inl EEXIST"
proof -
  have l: "unat (m_name_len (new_meta n' b root)) = length n'" and mg: "m_magic (new_meta n' b root) = KVDB_MAGIC"
    using assms(2) by (simp_all add: new_meta_def name_ok_def KVDB_NAME_MAX_def unat_of_nat)
  have "memcmp (take (length n) (m_name (new_meta n' b root))) n \<noteq> 0" if "length n' = length n"
    using memcmp_eq [of n' n] that assms(3) by (simp add: new_meta_def)
  with l mg show ?thesis using meta_roundtrip [OF length_new_meta [OF assms(2)]] by (auto simp: attach_def Let_def)
qed

definition kvdb_key :: "byte list \<Rightarrow> u64" where
  "kvdb_key n = ROOTREG_KEY KVDB_MAGIC (name_hash n)"

lemma kvdb_key_nonzero: "kvdb_key n \<noteq> 0"
  by (simp add: kvdb_key_def ROOTREG_KEY_def KVDB_MAGIC_def or_eq_0_iff)

text \<open>The named map \<open>n\<close> stands in the store: its registry entry, its meta, and a map with the
  objects \<open>X\<close>.\<close>

definition kvdb_instance ::
  "((u64 \<Rightarrow> byte list option) \<Rightarrow> u64 \<Rightarrow> u64 set \<Rightarrow> (byte list \<rightharpoonup> byte list) \<Rightarrow> bool) \<Rightarrow>
   (u64 \<Rightarrow> byte list option) \<Rightarrow> rr_image \<Rightarrow> byte list \<Rightarrow> u64 \<Rightarrow> u64 set \<Rightarrow> (byte list \<rightharpoonup> byte list) \<Rightarrow> bool" where
  "kvdb_instance hold m img n root X f \<longleftrightarrow>
     (\<exists>meta_id. map_of img (kvdb_key n) = Some meta_id \<and>
        m meta_id = Some (meta_bytes (new_meta n (backend_code KVDB_BACKEND_HASH) root)) \<and> hold m root X f \<and>
        meta_id \<noteq> BLOB_DB_ROOT_ID \<and> meta_id \<notin> X \<and> BLOB_DB_ROOT_ID \<notin> X)"

text \<open>A name that has no map yet. The entry of an open that failed half way names a meta object that
  is not bound, and the next open goes on from it.\<close>

definition kvdb_unopened :: "(u64 \<Rightarrow> byte list option) \<Rightarrow> nat \<Rightarrow> rr_image \<Rightarrow> byte list \<Rightarrow> bool" where
  "kvdb_unopened m nx img n \<longleftrightarrow>
     (case map_of img (kvdb_key n) of None \<Rightarrow> True | Some x \<Rightarrow> m x = None \<and> unat x < nx)"

text \<open>The objects \<open>X\<close> of one map are none of those of the map named \<open>n'\<close>, its meta object included.\<close>

definition kvdb_apart :: "rr_image \<Rightarrow> u64 set \<Rightarrow> byte list \<Rightarrow> u64 set \<Rightarrow> bool" where
  "kvdb_apart img X n' Y \<longleftrightarrow> X \<inter> Y = {} \<and> (\<forall>mid. map_of img (kvdb_key n') = Some mid \<longrightarrow> mid \<notin> X)"

context map_shape
begin

lemma open_registered:
  assumes i: "inv s" "nxt s < ID_LIMIT" and reg: "roots < 2 ^ 16" "registry roots (objs s) img" and n: "name_ok n"
    and mt: "map_of img (kvdb_key n) = Some meta_id" "objs s meta_id = Some bs" "length bs = KVDB_META_SIZE"
  shows "kvdb_open A roots Ops s False (Some n) cfg = Some (attach Ops n bs, s)"
proof -
  obtain r s1 where g: "rootreg_get_or_create A roots s (kvdb_key n) False = (r, s1)" by fastforce
  from get_or_create_spec(4) [OF i reg kvdb_key_nonzero g mt(1)] have "r = Inr meta_id" "s1 = s" by simp_all
  with g name_scan_ok [OF n] n mt show ?thesis
    by (auto simp: kvdb_open_def Let_def kvdb_key_def [symmetric] get_law [OF i(1)] KVDB_META_SIZE_def name_ok_def)
qed

lemma create_instance_law:
  assumes i: "inv s" "Suc (nxt s) < ID_LIMIT" and n: "name_ok n" and w: "want_backend cfg = KVDB_BACKEND_HASH"
    and rd: "\<And>s2. inv s2 \<Longrightarrow> nxt s2 \<le> Suc (nxt s) \<Longrightarrow> ready s2 (Some (kvdb_map_config cfg))"
    and mt: "objs s meta_id = None" "unat meta_id < nxt s"
  shows "\<exists>r s'. create_instance A Ops s meta_id n cfg = Some (r, s') \<and> inv s' \<and> nxt s \<le> nxt s' \<and>
    (\<forall>x. unat x < nxt s \<longrightarrow> x \<noteq> meta_id \<longrightarrow> objs s' x = objs s x) \<and>
    (case r of Inl _ \<Rightarrow> objs s' meta_id = None
     | Inr db \<Rightarrow> db_ops db = Ops \<and> objs s' meta_id = Some (meta_bytes (new_meta n (backend_code KVDB_BACKEND_HASH) (db_root db))) \<and>
         (\<exists>X. holds (objs s') (db_root db) X Map.empty \<and> (\<forall>x \<in> X. nxt s \<le> unat x)))"
proof -
  obtain x s1 where a: "api_alloc_id A s = (x, s1)" by fastforce
  have al: "inv s1" "objs s1 = objs s" "x = 0 \<and> nxt s1 = nxt s \<or> unat x = nxt s \<and> nxt s1 = Suc (nxt s)"
    using alloc_law [OF i(1) _ a] i(2) by auto
  have want: "resolve Ops (backend_code (want_backend cfg)) = Some Ops" by (simp add: resolve_def w)
  show ?thesis
  proof (cases "x = 0")
    case True
    with a want al mt show ?thesis by (auto simp: create_instance_def Let_def)
  next
    case False
    then have x: "unat x = nxt s" "nxt s1 = Suc (nxt s)" using al(3) by auto
    obtain r2 s2 where c: "op_create Ops s1 x (Some (kvdb_map_config cfg)) = Some (r2, s2)" "inv s2" "nxt s1 \<le> nxt s2"
      "\<And>y. unat y < nxt s1 \<Longrightarrow> y \<noteq> x \<Longrightarrow> objs s2 y = objs s1 y"
      "case r2 of Inl _ \<Rightarrow> objs s2 x = objs s1 x
         | Inr _ \<Rightarrow> \<exists>X. holds (objs s2) x X Map.empty \<and> (\<forall>y \<in> X. y = x \<or> nxt s1 \<le> unat y)"
      using op_create_law [OF al(1) _ rd [OF al(1)], of x] x by auto
    have same: "objs s2 y = objs s y" if "unat y < nxt s" for y using c(4) [of y] that x al(2) by (cases "y = x") auto
    show ?thesis
    proof (cases r2)
      case (Inl e)
      with a want False c same mt x show ?thesis by (auto simp: create_instance_def Let_def)
    next
      case (Inr z)
      then obtain X where X: "holds (objs s2) x X Map.empty" "\<And>y. y \<in> X \<Longrightarrow> nxt s \<le> unat y" using c(5) x by fastforce
      obtain r3 s3 where u: "api_update A s2 meta_id (meta_bytes (new_meta n (backend_code KVDB_BACKEND_HASH) x)) = (r3, s3)" by fastforce
      note ul = update_law [OF c(2) u]
      have run: "create_instance A Ops s meta_id n cfg = Some (case r3 of Inl e \<Rightarrow> (Inl e, s3) | Inr _ \<Rightarrow> (Inr \<lparr>db_root = x, db_ops = Ops\<rparr>, s3))"
        using a want False c(1) Inr u w by (auto simp: create_instance_def Let_def split: sum.splits)
      show ?thesis
      proof (cases r3)
        case (Inl e)
        with run ul same mt c(3) x show ?thesis by auto
      next
        case (Inr q)
        have "meta_id \<notin> X" using X(2) mt(2) by fastforce
        then have "holds (objs s3) x X Map.empty" by (intro holds_frame [OF X(1)]) (use ul Inr in auto)
        with run ul same mt c(3) x Inr X(2) show ?thesis by auto
      qed
    qed
  qed
qed

lemma open_creates:
  assumes i: "inv s" "nxt s + 2 < ID_LIMIT" and reg: "roots < 2 ^ 16" "registry roots (objs s) img"
    and n: "name_ok n" and w: "want_backend cfg = KVDB_BACKEND_HASH" and new: "kvdb_unopened (objs s) (nxt s) img n"
    and rd: "\<forall>s2. inv s2 \<and> nxt s2 \<le> nxt s + 2 \<longrightarrow> ready s2 (Some (kvdb_map_config cfg))"
  shows "\<exists>r s' img'. kvdb_open A roots Ops s False (Some n) cfg = Some (r, s') \<and> inv s' \<and> nxt s \<le> nxt s' \<and>
    registry roots (objs s') img' \<and> (\<forall>k. k \<noteq> kvdb_key n \<longrightarrow> map_of img' k = map_of img k) \<and>
    (\<forall>x. objs s x \<noteq> None \<longrightarrow> x \<noteq> BLOB_DB_ROOT_ID \<longrightarrow> objs s' x = objs s x) \<and>
    (case r of Inl _ \<Rightarrow> kvdb_unopened (objs s') (nxt s') img' n
     | Inr db \<Rightarrow> db_ops db = Ops \<and>
         (\<exists>X. kvdb_instance holds (objs s') img' n (db_root db) X Map.empty \<and> (\<forall>x \<in> X. objs s x = None)))"
proof -
  let ?k = "kvdb_key n"
  obtain r1 s1 where g: "rootreg_get_or_create A roots s ?k False = (r1, s1)" by fastforce
  have lim: "nxt s < ID_LIMIT" using i(2) by simp
  note gs = get_or_create_spec [OF i(1) lim reg kvdb_key_nonzero g]
  have root: "objs s BLOB_DB_ROOT_ID \<noteq> None" using reg(2) by (simp add: registry_def)
  show ?thesis
  proof (cases r1)
    case (Inl e)
    then have none: "map_of img ?k = None" using gs(4) by (cases "map_of img ?k") auto
    have o: "objs s1 = objs s" using gs(6) Inl by blast
    have "kvdb_open A roots Ops s False (Some n) cfg = Some (Inl e, s1)"
      using Inl g name_scan_ok [OF n] n by (auto simp: kvdb_open_def Let_def kvdb_key_def [symmetric] name_ok_def)
    then show ?thesis using gs(1,2) o reg(2) none
      by (intro exI [of _ "Inl e"] exI [of _ s1] exI [of _ img]) (simp add: kvdb_unopened_def)
  next
    case (Inr mid)
    obtain img1 where img1: "registry roots (objs s1) img1" "map_of img1 ?k = Some mid" "\<And>k. k \<noteq> ?k \<Longrightarrow> map_of img1 k = map_of img k"
      and mid: "objs s1 mid = None" "unat mid < nxt s1" "objs s mid = None" and n1: "nxt s \<le> nxt s1" "nxt s1 \<le> Suc (nxt s)"
    proof (cases "map_of img ?k")
      case None
      from gs(5) [OF None Inr] have m: "unat mid = nxt s" "nxt s1 = Suc (nxt s)" "registry roots (objs s1) (img @ [(?k, mid)])" by auto
      have "objs s mid = None" using objs_fresh [OF i(1), of mid] m(1) by simp
      moreover from this have "objs s1 mid = None" using gs(3) [of mid] root by (cases "mid = BLOB_DB_ROOT_ID") auto
      ultimately show ?thesis using m None
        by (intro that [of "img @ [(?k, mid)]"]) (auto simp: map_add_def split: option.splits)
    next
      case (Some x)
      with gs(4) [OF Some] Inr have "x = mid" "s1 = s" by auto
      with Some new reg(2) show ?thesis by (intro that [of img]) (auto simp: kvdb_unopened_def)
    qed
    have mr: "mid \<noteq> BLOB_DB_ROOT_ID" using mid(3) root by metis
    have run: "kvdb_open A roots Ops s False (Some n) cfg = create_instance A Ops s1 mid n cfg"
      using Inr g name_scan_ok [OF n] n mid(1)
      by (auto simp: kvdb_open_def Let_def kvdb_key_def [symmetric] name_ok_def get_law [OF gs(1)])
    have "Suc (nxt s1) < ID_LIMIT" using i(2) n1 by simp
    from create_instance_law [OF gs(1) this n w _ mid(1,2)] rd n1 obtain r s' where
      c: "create_instance A Ops s1 mid n cfg = Some (r, s')" "inv s'" "nxt s1 \<le> nxt s'"
        "\<And>x. unat x < nxt s1 \<Longrightarrow> x \<noteq> mid \<Longrightarrow> objs s' x = objs s1 x"
        "case r of Inl _ \<Rightarrow> objs s' mid = None
         | Inr db \<Rightarrow> db_ops db = Ops \<and> objs s' mid = Some (meta_bytes (new_meta n (backend_code KVDB_BACKEND_HASH) (db_root db))) \<and>
             (\<exists>X. holds (objs s') (db_root db) X Map.empty \<and> (\<forall>x \<in> X. nxt s1 \<le> unat x))"
      by auto
    have below: "unat x < nxt s1" if "objs s1 x \<noteq> None" for x using bound_law [OF gs(1)] that by blast
    have rid: "objs s1 BLOB_DB_ROOT_ID \<noteq> None" using img1(1) by (simp add: registry_def)
    have "objs s' BLOB_DB_ROOT_ID = objs s1 BLOB_DB_ROOT_ID" using c(4) [OF below [OF rid]] mr by auto
    then have R: "registry roots (objs s') img1" using img1(1) registry_frame by blast
    have keep: "objs s' x = objs s x" if "objs s x \<noteq> None" "x \<noteq> BLOB_DB_ROOT_ID" for x
    proof -
      have "objs s1 x = objs s x" by (rule gs(3) [OF that(2)])
      with c(4) [of x] below [of x] mid(3) that(1) show ?thesis by (cases "x = mid") auto
    qed
    have "case r of Inl _ \<Rightarrow> kvdb_unopened (objs s') (nxt s') img1 n
     | Inr db \<Rightarrow> db_ops db = Ops \<and> (\<exists>X. kvdb_instance holds (objs s') img1 n (db_root db) X Map.empty \<and> (\<forall>x \<in> X. objs s x = None))"
    proof (cases r)
      case (Inl e)
      with c(3,5) mid(2) img1(2) show ?thesis by (simp add: kvdb_unopened_def)
    next
      case (Inr db)
      then obtain X where X: "holds (objs s') (db_root db) X Map.empty" "\<And>x. x \<in> X \<Longrightarrow> nxt s1 \<le> unat x" using c(5) by auto
      have "mid \<notin> X" "BLOB_DB_ROOT_ID \<notin> X" using X(2) mid(2) below [OF rid] by fastforce+
      moreover have "objs s x = None" if "x \<in> X" for x using objs_fresh [OF i(1), of x] X(2) [OF that] n1(1) by simp
      ultimately show ?thesis using Inr c(5) X(1) img1(2) mr by (auto simp: kvdb_instance_def)
    qed
    with run c(1-3) n1(1) R img1(3) keep show ?thesis
      by (intro exI [of _ r] exI [of _ s'] exI [of _ img1]) auto
  qed
qed

text \<open>An instance works on its own objects.\<close>

lemma instance_step:
  assumes i: "inv s" and inst: "kvdb_instance holds (objs s) img n root X f"
    and st: "owns_step inv objs nxt X s X' s'" and h: "holds (objs s') root X' g"
  shows "kvdb_instance holds (objs s') img n root X' g"
proof -
  from inst obtain mid where m: "map_of img (kvdb_key n) = Some mid"
    "objs s mid = Some (meta_bytes (new_meta n (backend_code KVDB_BACKEND_HASH) root))"
    "mid \<noteq> BLOB_DB_ROOT_ID" "mid \<notin> X" "BLOB_DB_ROOT_ID \<notin> X" "holds (objs s) root X f" by (auto simp: kvdb_instance_def)
  have b: "unat mid < nxt s" using bound_law [OF i m(2)] by simp
  have "0 < nxt s" using nxt_law [OF i] .
  have "unat BLOB_DB_ROOT_ID < nxt s \<or> nxt s = 1"
    using nxt_law [OF i] by (auto simp: BLOB_DB_ROOT_ID_def)
  moreover have "nxt s \<noteq> 1" using b bound_law [OF i m(2)] by (auto simp: unat_eq_0 less_Suc_eq)
  ultimately have rb: "unat BLOB_DB_ROOT_ID < nxt s" by blast
  have "objs s' mid = objs s mid" using st b m(4) by (simp add: owns_step_def)
  moreover have "mid \<notin> X'" "BLOB_DB_ROOT_ID \<notin> X'" using st m(4,5) b rb by (auto simp: owns_step_def)
  ultimately show ?thesis using m h by (auto simp: kvdb_instance_def)
qed

lemma registry_owns:
  assumes i: "inv s" and st: "owns_step inv objs nxt X s X' s'" and reg: "registry roots (objs s) img" and r1: "BLOB_DB_ROOT_ID \<notin> X"
  shows "registry roots (objs s') img"
proof -
  have "unat BLOB_DB_ROOT_ID < nxt s" using bound_law [OF i, of BLOB_DB_ROOT_ID] reg by (simp add: registry_def)
  then have "objs s' BLOB_DB_ROOT_ID = objs s BLOB_DB_ROOT_ID" using st r1 by (simp add: owns_step_def)
  with reg show ?thesis using registry_frame by blast
qed

lemma instance_other:
  assumes i: "inv s" and st: "owns_step inv objs nxt X s X' s'" and inst: "kvdb_instance holds (objs s) img n' root' Y g"
    and disj: "kvdb_apart img X n' Y"
  shows "kvdb_instance holds (objs s') img n' root' Y g \<and> kvdb_apart img X' n' Y"
proof -
  from inst obtain mid where m: "map_of img (kvdb_key n') = Some mid"
    "objs s mid = Some (meta_bytes (new_meta n' (backend_code KVDB_BACKEND_HASH) root'))"
    "mid \<noteq> BLOB_DB_ROOT_ID" "mid \<notin> Y" "BLOB_DB_ROOT_ID \<notin> Y" "holds (objs s) root' Y g" by (auto simp: kvdb_instance_def)
  have b: "mid \<notin> X" "unat mid < nxt s" "X \<inter> Y = {}" using disj m(1) bound_law [OF i m(2)] by (simp_all add: kvdb_apart_def)
  have "objs s' mid = objs s mid" "mid \<notin> X'" using st b by (auto simp: owns_step_def)
  moreover note holds_other [OF i st m(6) b(3)]
  ultimately show ?thesis using m by (auto simp: kvdb_instance_def kvdb_apart_def)
qed

text \<open>A step of one instance, for the store that holds several.\<close>

lemma instance_moves:
  assumes i: "inv s" and inst: "kvdb_instance holds (objs s) img n root X f" and reg: "registry roots (objs s) img"
    and st: "owns_step inv objs nxt X s X' s'" and h: "holds (objs s') root X' g"
  shows "inv s'" "registry roots (objs s') img" "kvdb_instance holds (objs s') img n root X' g"
    "\<forall>n' root' Y f'. kvdb_instance holds (objs s) img n' root' Y f' \<and> kvdb_apart img X n' Y \<longrightarrow>
       kvdb_instance holds (objs s') img n' root' Y f' \<and> kvdb_apart img X' n' Y"
proof -
  show "inv s'" using st by (simp add: owns_step_def)
  have "BLOB_DB_ROOT_ID \<notin> X" using inst by (auto simp: kvdb_instance_def)
  then show "registry roots (objs s') img" by (rule registry_owns [OF i st reg])
  show "kvdb_instance holds (objs s') img n root X' g" by (rule instance_step [OF i inst st h])
qed (use instance_other [OF i st] in blast)

end

end
