(* ===== verification/Blobfs.thy ===== *)
theory Blobfs
  imports Kv_Db
begin

text \<open>
  L3, blobfs (\<open>lib/blobfs/blobfs.c\<close>): files and directories. A directory is a map from names to
  directory entries; an entry holds the id of a file's body object, or the root of the directory's own
  map. A meta object, found through the root registry, holds the root directory and the intent of a
  rename under way.

  The static \<open>st\<close> is the record \<open>fs\<close>; a call takes it with the store it runs on. A path is the list
  of its bytes, absent for NULL. A call that builds a directory answers \<open>None\<close> where the create of the
  map does not return. Padding that the compiler adds at the end of the meta object is written as zeros.
\<close>

section \<open>The build\<close>

text \<open>The store, the map provider (\<open>dir_ops\<close>), the registry's capacity, \<open>BLOBFS_NAME_MAX\<close> and
  \<open>BLOBFS_FILE_MAX\<close>.\<close>

record 's fs_build =
  f_api :: "'s blob_api"
  dir_ops :: "'s map_ops"
  f_roots :: nat
  BLOBFS_NAME_MAX :: nat
  BLOBFS_FILE_MAX :: nat

record fs =
  fs_mounted :: bool
  fs_meta_v1 :: bool
  fs_intent_pending :: bool
  fs_meta_id :: u64
  fs_dir_root :: u64

definition fs_init :: fs where
  "fs_init = \<lparr>fs_mounted = False, fs_meta_v1 = False, fs_intent_pending = False, fs_meta_id = 0, fs_dir_root = 0\<rparr>"

section \<open>Formats\<close>

definition BLOBFS_MAGIC :: u32 where "BLOBFS_MAGIC = 0x42465331"
definition BLOBFS_META_VERSION :: byte where "BLOBFS_META_VERSION = 2"
definition BLOBFS_META_VERSION_1 :: byte where "BLOBFS_META_VERSION_1 = 1"
definition BLOBFS_DIRENT_VERSION :: byte where "BLOBFS_DIRENT_VERSION = 1"
definition BLOBFS_TYPE_FILE :: byte where "BLOBFS_TYPE_FILE = 1"
definition BLOBFS_TYPE_DIR :: byte where "BLOBFS_TYPE_DIR = 2"

record blobfs_dirent =
  de_type :: byte
  de_version :: byte
  de_rsvd :: "16 word"
  de_rsvd2 :: u32
  de_body_id :: u64

definition DIRENT_SIZE :: nat where "DIRENT_SIZE = 16"

definition dirent_bytes :: "blobfs_dirent \<Rightarrow> byte list" where
  "dirent_bytes de =
     [de_type de, de_version de] @ le_bytes 2 (unat (de_rsvd de)) @ le_bytes 4 (unat (de_rsvd2 de)) @ le_bytes 8 (unat (de_body_id de))"

definition dirent_of :: "byte list \<Rightarrow> blobfs_dirent" where
  "dirent_of bs =
     \<lparr>de_type = bs ! 0, de_version = bs ! 1, de_rsvd = word_of_nat (get_u16 bs 2), de_rsvd2 = get_u32 bs 4, de_body_id = get_u64 bs 8\<rparr>"

definition new_dirent :: "byte \<Rightarrow> u64 \<Rightarrow> blobfs_dirent" where
  "new_dirent ty x = \<lparr>de_type = ty, de_version = BLOBFS_DIRENT_VERSION, de_rsvd = 0, de_rsvd2 = 0, de_body_id = x\<rparr>"

record blobfs_meta =
  fm_magic :: u32
  fm_version :: byte
  fm_rename_in_flight :: byte
  fm_from_len :: byte
  fm_to_len :: byte
  fm_dir_root :: u64
  fm_rename_body :: u64
  fm_from_dir :: u64
  fm_to_dir :: u64
  fm_from :: "byte list"
  fm_to :: "byte list"

text \<open>The trailing padding of the two structures, both of 8-byte alignment.\<close>

definition meta_pad :: "nat \<Rightarrow> nat" where
  "meta_pad nm = (8 - 2 * (nm + 1) mod 8) mod 8"

definition META_SIZE :: "nat \<Rightarrow> nat" where "META_SIZE nm = 40 + 2 * (nm + 1) + meta_pad nm"
definition META_V1_SIZE :: "nat \<Rightarrow> nat" where "META_V1_SIZE nm = 24 + 2 * (nm + 1) + meta_pad nm"

definition fs_meta_bytes :: "nat \<Rightarrow> blobfs_meta \<Rightarrow> byte list" where
  "fs_meta_bytes nm mt =
     le_bytes 4 (unat (fm_magic mt)) @ [fm_version mt, fm_rename_in_flight mt, fm_from_len mt, fm_to_len mt] @
     le_bytes 8 (unat (fm_dir_root mt)) @ le_bytes 8 (unat (fm_rename_body mt)) @
     le_bytes 8 (unat (fm_from_dir mt)) @ le_bytes 8 (unat (fm_to_dir mt)) @
     fm_from mt @ fm_to mt @ replicate (meta_pad nm) 0"

definition fs_meta_of :: "nat \<Rightarrow> byte list \<Rightarrow> blobfs_meta" where
  "fs_meta_of nm bs =
     \<lparr>fm_magic = get_u32 bs 0, fm_version = bs ! 4, fm_rename_in_flight = bs ! 5, fm_from_len = bs ! 6, fm_to_len = bs ! 7,
      fm_dir_root = get_u64 bs 8, fm_rename_body = get_u64 bs 16, fm_from_dir = get_u64 bs 24, fm_to_dir = get_u64 bs 32,
      fm_from = field 40 (nm + 1) bs, fm_to = field (40 + (nm + 1)) (nm + 1) bs\<rparr>"

text \<open>What the bytes of a version 1 meta mean as a version 2 one: the intent is in the root directory.\<close>

definition fs_meta_of_v1 :: "nat \<Rightarrow> byte list \<Rightarrow> blobfs_meta" where
  "fs_meta_of_v1 nm bs =
     \<lparr>fm_magic = BLOBFS_MAGIC, fm_version = BLOBFS_META_VERSION, fm_rename_in_flight = bs ! 5, fm_from_len = bs ! 6, fm_to_len = bs ! 7,
      fm_dir_root = get_u64 bs 8, fm_rename_body = get_u64 bs 16, fm_from_dir = get_u64 bs 8, fm_to_dir = get_u64 bs 8,
      fm_from = field 24 (nm + 1) bs, fm_to = field (24 + (nm + 1)) (nm + 1) bs\<rparr>"

section \<open>Paths\<close>

definition SLASH :: byte where "SLASH = 0x2f"
definition DOT :: byte where "DOT = 0x2e"

text \<open>The component at the head of a path and what follows it.\<close>

definition component :: "byte list \<Rightarrow> byte list \<times> byte list" where
  "component p =
     (let s = dropWhile (\<lambda>b. b = SLASH) p in
      (takeWhile (\<lambda>b. b \<noteq> 0 \<and> b \<noteq> SLASH) s, dropWhile (\<lambda>b. b \<noteq> 0 \<and> b \<noteq> SLASH) s))"

lemma component_shorter: "component p = (c, q) \<Longrightarrow> c \<noteq> [] \<Longrightarrow> length q < length p"
proof -
  assume "component p = (c, q)" "c \<noteq> []"
  then have "dropWhile (\<lambda>b. b = SLASH) p = c @ q" by (auto simp: component_def Let_def)
  then have "length c + length q \<le> length p" using length_dropWhile_le [of "\<lambda>b. b = SLASH" p] by (metis length_append)
  moreover have "0 < length c" using \<open>c \<noteq> []\<close> by simp
  ultimately show ?thesis by linarith
qed

definition check_name :: "'s fs_build \<Rightarrow> byte list \<Rightarrow> unit res" where
  "check_name F name =
     (if name = [DOT] \<or> name = [DOT, DOT] then Inl EINVAL
      else if length name > BLOBFS_NAME_MAX F then Inl ENAMETOOLONG
      else Inr ())"

definition dirent_check :: "byte list \<Rightarrow> blobfs_dirent res" where
  "dirent_check bs =
     (let de = dirent_of bs in
      if length bs \<noteq> DIRENT_SIZE \<or> (de_type de \<noteq> BLOBFS_TYPE_FILE \<and> de_type de \<noteq> BLOBFS_TYPE_DIR) \<or>
         de_version de \<noteq> BLOBFS_DIRENT_VERSION
      then Inl EIO else Inr de)"

definition dirent_get :: "'s fs_build \<Rightarrow> 's \<Rightarrow> u64 \<Rightarrow> byte list \<Rightarrow> blobfs_dirent res" where
  "dirent_get F s dir name = andthen (fst (op_get (dir_ops F) s dir name DIRENT_SIZE)) dirent_check"

text \<open>\<open>w_name\<close> is empty for the root directory.\<close>

record where_to =
  w_dir :: u64
  w_name :: "byte list"
  w_want_dir :: bool

definition where0 :: where_to where "where0 = \<lparr>w_dir = 0, w_name = [], w_want_dir = False\<rparr>"

text \<open>The loop of \<open>walk\<close>: \<open>rest\<close> is the path after the component \<open>name\<close>.\<close>

function walk_from :: "'s fs_build \<Rightarrow> 's \<Rightarrow> u64 \<Rightarrow> byte list \<Rightarrow> byte list \<Rightarrow> where_to res" where
  "walk_from F s dir name rest =
     (if name = [] then Inr \<lparr>w_dir = dir, w_name = [], w_want_dir = False\<rparr>
      else andthen (check_name F name) (\<lambda>_.
        case component rest of (next, rest') \<Rightarrow>
          if next = [] then Inr \<lparr>w_dir = dir, w_name = name, w_want_dir = (rest \<noteq> [] \<and> hd rest = SLASH)\<rparr>
          else andthen (dirent_get F s dir name) (\<lambda>de.
            if de_type de \<noteq> BLOBFS_TYPE_DIR then Inl ENOTDIR
            else walk_from F s (de_body_id de) next rest')))"
  by pat_completeness auto
termination
  by (relation "measure (\<lambda>(F, s, dir, name, rest). length rest)") (auto dest: component_shorter split: prod.splits)

declare walk_from.simps [simp del]

definition walk :: "'s fs_build \<Rightarrow> fs \<Rightarrow> 's \<Rightarrow> byte list option \<Rightarrow> where_to res" where
  "walk F st s path =
     (case path of
        None \<Rightarrow> Inl EINVAL
      | Some p \<Rightarrow>
          if \<not> fs_mounted st then Inl ENODEV
          else case component p of (name, rest) \<Rightarrow> walk_from F s (fs_dir_root st) name rest)"

text \<open>\<open>resolve\<close> fills its \<open>where\<close> as soon as the walk has succeeded.\<close>

definition fs_resolve :: "'s fs_build \<Rightarrow> fs \<Rightarrow> 's \<Rightarrow> byte list option \<Rightarrow> where_to \<times> blobfs_dirent res" where
  "fs_resolve F st s path =
     (case walk F st s path of
        Inl e \<Rightarrow> (where0, Inl e)
      | Inr w \<Rightarrow>
          (w, if w_name w = [] then Inl EISDIR
              else andthen (dirent_get F s (w_dir w) (w_name w)) (\<lambda>de.
                if w_want_dir w \<and> de_type de \<noteq> BLOBFS_TYPE_DIR then Inl ENOTDIR else Inr de)))"

text \<open>Does a call that accepts the root directory see it?\<close>

definition at_root :: "where_to \<times> blobfs_dirent res \<Rightarrow> bool" where
  "at_root wr \<longleftrightarrow> snd wr = Inl EISDIR \<and> w_name (fst wr) = []"

section \<open>The meta object and the rename intent\<close>

definition meta_write :: "'s fs_build \<Rightarrow> fs \<times> 's \<Rightarrow> blobfs_meta \<Rightarrow> unit res \<times> (fs \<times> 's)" where
  "meta_write F = (\<lambda>(st, s) mt.
     case api_update (f_api F) s (fs_meta_id st) (fs_meta_bytes (BLOBFS_NAME_MAX F) mt) of
       (Inl e, s) \<Rightarrow> (Inl e, (st, s))
     | (Inr _, s) \<Rightarrow> (Inr (), (st\<lparr>fs_meta_v1 := False\<rparr>, s)))"

definition intent_clear :: "'s fs_build \<Rightarrow> blobfs_meta \<Rightarrow> blobfs_meta" where
  "intent_clear F mt =
     mt\<lparr>fm_rename_in_flight := 0, fm_from_len := 0, fm_to_len := 0, fm_rename_body := 0, fm_from_dir := 0, fm_to_dir := 0,
        fm_from := replicate (BLOBFS_NAME_MAX F + 1) 0, fm_to := replicate (BLOBFS_NAME_MAX F + 1) 0\<rparr>"

definition from_name :: "blobfs_meta \<Rightarrow> byte list" where "from_name mt = take (unat (fm_from_len mt)) (fm_from mt)"
definition to_name :: "blobfs_meta \<Rightarrow> byte list" where "to_name mt = take (unat (fm_to_len mt)) (fm_to mt)"

text \<open>The roll forward: the old name goes if it still names the body.\<close>

definition drop_from :: "'s fs_build \<Rightarrow> fs \<times> 's \<Rightarrow> blobfs_meta \<Rightarrow> unit res \<times> (fs \<times> 's)" where
  "drop_from F = (\<lambda>(st, s) mt.
     case dirent_get F s (fm_from_dir mt) (from_name mt) of
       Inr de \<Rightarrow>
         if de_body_id de = fm_rename_body mt
         then let (r, s) = op_del (dir_ops F) s (fm_from_dir mt) (from_name mt) in (r, (st, s))
         else (Inr (), (st, s))
     | Inl e \<Rightarrow> if e \<noteq> ENOENT then (Inl e, (st, s)) else (Inr (), (st, s)))"

definition rename_recover :: "'s fs_build \<Rightarrow> fs \<times> 's \<Rightarrow> blobfs_meta \<Rightarrow> unit res \<times> (fs \<times> 's)" where
  "rename_recover F t mt =
     (if fm_from_len mt = 0 \<or> unat (fm_from_len mt) > BLOBFS_NAME_MAX F \<or>
         fm_to_len mt = 0 \<or> unat (fm_to_len mt) > BLOBFS_NAME_MAX F \<or> fm_from_dir mt = 0 \<or> fm_to_dir mt = 0
      then (Inl EIO, t)
      else
      seqs (case dirent_get F (snd t) (fm_to_dir mt) (to_name mt) of
              Inr de \<Rightarrow> if de_body_id de = fm_rename_body mt then drop_from F t mt else (Inr (), t)
            | Inl e \<Rightarrow> if e = ENOENT then (Inr (), t) else (Inl e, t))
        (\<lambda>_ t. meta_write F t (intent_clear F mt)))"

definition meta_read :: "'s fs_build \<Rightarrow> 's \<Rightarrow> u64 \<Rightarrow> (blobfs_meta \<times> bool) res" where
  "meta_read F s meta_id =
     (let nm = BLOBFS_NAME_MAX F in
      andthen (api_get (f_api F) s meta_id (META_SIZE nm)) (\<lambda>bs.
        if length bs = 0 then Inl ENOENT
        else if length bs = META_SIZE nm \<and> get_u32 bs 0 = BLOBFS_MAGIC \<and> bs ! 4 = BLOBFS_META_VERSION
        then Inr (fs_meta_of nm bs, False)
        else if length bs = META_V1_SIZE nm \<and> get_u32 bs 0 = BLOBFS_MAGIC \<and> bs ! 4 = BLOBFS_META_VERSION_1
        then Inr (fs_meta_of_v1 nm bs, True)
        else Inl EIO))"

definition meta_upgrade :: "'s fs_build \<Rightarrow> fs \<times> 's \<Rightarrow> unit res \<times> (fs \<times> 's)" where
  "meta_upgrade F t =
     (if \<not> fs_meta_v1 (fst t) then (Inr (), t)
      else reads (meta_read F (snd t) (fs_meta_id (fst t))) t (\<lambda>(mt, _). meta_write F t mt))"

definition intent_settle :: "'s fs_build \<Rightarrow> fs \<times> 's \<Rightarrow> unit res \<times> (fs \<times> 's)" where
  "intent_settle F t =
     (if \<not> fs_intent_pending (fst t) then (Inr (), t)
      else
      seqs (reads (meta_read F (snd t) (fs_meta_id (fst t))) t (\<lambda>(mt, _).
              if fm_rename_in_flight mt \<noteq> 0 then rename_recover F t mt else (Inr (), t)))
        (\<lambda>_ (st, s). (Inr (), (st\<lparr>fs_intent_pending := False\<rparr>, s))))"

section \<open>Mount\<close>

definition dir_config :: "'s fs_build \<Rightarrow> map_config" where
  "dir_config F =
     \<lparr>expected_entries = 0, typical_entry_bytes = 0, max_entry_bytes = word_of_nat (BLOBFS_NAME_MAX F + DIRENT_SIZE)\<rparr>"

definition dir_create :: "'s fs_build \<Rightarrow> 's \<Rightarrow> u64 \<Rightarrow> (unit res \<times> 's) option" where
  "dir_create F s root = op_create (dir_ops F) s root (Some (dir_config F))"

definition new_fs_meta :: "'s fs_build \<Rightarrow> u64 \<Rightarrow> blobfs_meta" where
  "new_fs_meta F root =
     \<lparr>fm_magic = BLOBFS_MAGIC, fm_version = BLOBFS_META_VERSION, fm_rename_in_flight = 0, fm_from_len = 0, fm_to_len = 0,
      fm_dir_root = root, fm_rename_body = 0, fm_from_dir = 0, fm_to_dir = 0,
      fm_from = replicate (BLOBFS_NAME_MAX F + 1) 0, fm_to = replicate (BLOBFS_NAME_MAX F + 1) 0\<rparr>"

text \<open>The virgin file system: an empty root directory, then the meta object that names it.\<close>

definition fs_format :: "'s fs_build \<Rightarrow> 's \<Rightarrow> u64 \<Rightarrow> (blobfs_meta res \<times> 's) option" where
  "fs_format F s meta_id =
     (let (dir_root, s) = api_alloc_id (f_api F) s in
      if dir_root = 0 then Some (Inl EIO, s)
      else case dir_create F s dir_root of
        None \<Rightarrow> None
      | Some (r, s) \<Rightarrow> Some (
          seqs (r, s) (\<lambda>_ s.
          seqs (api_update (f_api F) s meta_id (fs_meta_bytes (BLOBFS_NAME_MAX F) (new_fs_meta F dir_root))) (\<lambda>_ s.
            (Inr (new_fs_meta F dir_root), s)))))"

text \<open>The rest of the mount, with the meta read or made.\<close>

definition fs_bind :: "'s fs_build \<Rightarrow> fs \<times> 's \<Rightarrow> u64 \<Rightarrow> blobfs_meta \<Rightarrow> bool \<Rightarrow> unit res \<times> (fs \<times> 's)" where
  "fs_bind F t meta_id mt was_v1 =
     (let st = (fst t)\<lparr>fs_meta_id := meta_id, fs_dir_root := fm_dir_root mt, fs_meta_v1 := was_v1, fs_intent_pending := False\<rparr> in
      case (if fm_rename_in_flight mt \<noteq> 0 then rename_recover F (st, snd t) mt else (Inr (), (st, snd t))) of
        (Inl e, (st, s)) \<Rightarrow> (Inl e, (st\<lparr>fs_meta_id := 0, fs_dir_root := 0\<rparr>, s))
      | (Inr _, (st, s)) \<Rightarrow> (Inr (), (st\<lparr>fs_mounted := True\<rparr>, s)))"

definition blobfs_mount :: "'s fs_build \<Rightarrow> fs \<times> 's \<Rightarrow> (unit res \<times> (fs \<times> 's)) option" where
  "blobfs_mount F = (\<lambda>(st, s).
     if fs_mounted st then Some (Inl EALREADY, (st, s))
     else case rootreg_get_or_create (f_api F) (f_roots F) s (ROOTREG_KEY BLOBFS_MAGIC 0) False of
       (Inl e, s) \<Rightarrow> Some (Inl e, (st, s))
     | (Inr meta_id, s) \<Rightarrow>
         (case meta_read F s meta_id of
            Inr (mt, was_v1) \<Rightarrow> Some (fs_bind F (st, s) meta_id mt was_v1)
          | Inl e \<Rightarrow>
              if e \<noteq> ENOENT then Some (Inl e, (st, s))
              else case fs_format F s meta_id of
                None \<Rightarrow> None
              | Some (Inl e, s) \<Rightarrow> Some (Inl e, (st, s))
              | Some (Inr mt, s) \<Rightarrow> Some (fs_bind F (st, s) meta_id mt False)))"

definition blobfs_unmount :: "fs \<times> 's \<Rightarrow> unit res \<times> (fs \<times> 's)" where
  "blobfs_unmount = (\<lambda>(st, s). (Inr (), (fs_init, s)))"

section \<open>Creating entries\<close>

text \<open>The error comes with the \<open>where\<close> the walk left, which create looks at.\<close>

definition walk_to_free_name :: "'s fs_build \<Rightarrow> fs \<Rightarrow> 's \<Rightarrow> byte list option \<Rightarrow> where_to \<times> unit res" where
  "walk_to_free_name F st s path =
     (case walk F st s path of
        Inl e \<Rightarrow> (where0, Inl e)
      | Inr w \<Rightarrow>
          (w, if w_name w = [] then Inl EEXIST
              else case dirent_get F s (w_dir w) (w_name w) of
                Inr _ \<Rightarrow> Inl EEXIST
              | Inl e \<Rightarrow> if e = ENOENT then Inr () else Inl e))"

definition blobfs_create :: "'s fs_build \<Rightarrow> fs \<times> 's \<Rightarrow> byte list option \<Rightarrow> unit res \<times> (fs \<times> 's)" where
  "blobfs_create F = (\<lambda>(st, s) path.
     case walk_to_free_name F st s path of
       (w, Inl e) \<Rightarrow> (Inl (if e = EEXIST \<and> w_name w = [] then EISDIR else e), (st, s))
     | (w, Inr _) \<Rightarrow>
         if w_want_dir w then (Inl EISDIR, (st, s))
         else let (body_id, s) = api_alloc_id (f_api F) s in
         if body_id = 0 then (Inl EIO, (st, s))
         else let (r, s) = seqs (api_update (f_api F) s body_id []) (\<lambda>_ s.
             op_set (dir_ops F) s (w_dir w) (w_name w) (Some (dirent_bytes (new_dirent BLOBFS_TYPE_FILE body_id))) DIRENT_SIZE)
           in (r, (st, s)))"

definition blobfs_mkdir :: "'s fs_build \<Rightarrow> fs \<times> 's \<Rightarrow> byte list option \<Rightarrow> (unit res \<times> (fs \<times> 's)) option" where
  "blobfs_mkdir F = (\<lambda>(st, s) path.
     case walk_to_free_name F st s path of
       (w, Inl e) \<Rightarrow> Some (Inl e, (st, s))
     | (w, Inr _) \<Rightarrow>
         (case meta_upgrade F (st, s) of
            (Inl e, t) \<Rightarrow> Some (Inl e, t)
          | (Inr _, (st, s)) \<Rightarrow>
              let (dir_id, s) = api_alloc_id (f_api F) s in
              if dir_id = 0 then Some (Inl EIO, (st, s))
              else case dir_create F s dir_id of
                None \<Rightarrow> None
              | Some (Inl e, s) \<Rightarrow> Some (Inl e, (st, s))
              | Some (Inr _, s) \<Rightarrow>
                  (case op_set (dir_ops F) s (w_dir w) (w_name w) (Some (dirent_bytes (new_dirent BLOBFS_TYPE_DIR dir_id))) DIRENT_SIZE of
                     (Inl e, s) \<Rightarrow> Some (Inl e, (st, snd (op_destroy (dir_ops F) s dir_id)))
                   | (Inr _, s) \<Rightarrow> Some (Inr (), (st, s)))))"

section \<open>Files\<close>

definition blobfs_lookup :: "'s fs_build \<Rightarrow> fs \<times> 's \<Rightarrow> byte list option \<Rightarrow> bool \<Rightarrow> u64 res" where
  "blobfs_lookup F = (\<lambda>(st, s) path out_null.
     if out_null then Inl EINVAL
     else andthen (snd (fs_resolve F st s path)) (\<lambda>de.
       if de_type de = BLOBFS_TYPE_DIR then Inl EISDIR else Inr (de_body_id de)))"

definition blobfs_size_id :: "'s fs_build \<Rightarrow> 's \<Rightarrow> u64 \<Rightarrow> bool \<Rightarrow> nat res" where
  "blobfs_size_id F s body_id out_null = (if out_null then Inl EINVAL else api_size (f_api F) s body_id)"

definition blobfs_read_id :: "'s fs_build \<Rightarrow> 's \<Rightarrow> u64 \<Rightarrow> nat \<Rightarrow> bool \<Rightarrow> nat \<Rightarrow> bool \<Rightarrow> byte list res" where
  "blobfs_read_id F s body_id off buf_null len out_null =
     (if (buf_null \<and> len \<noteq> 0) \<or> out_null then Inl EINVAL else api_read (f_api F) s body_id off len)"

definition blobfs_write_id :: "'s fs_build \<Rightarrow> 's \<Rightarrow> u64 \<Rightarrow> nat \<Rightarrow> byte list option \<Rightarrow> nat \<Rightarrow> unit res \<times> 's" where
  "blobfs_write_id F s body_id off buf len =
     (if buf = None \<and> len \<noteq> 0 then (Inl EINVAL, s)
      else if len = 0 then (andthen (api_size (f_api F) s body_id) (\<lambda>_. Inr ()), s)
      else if off > BLOBFS_FILE_MAX F \<or> len > BLOBFS_FILE_MAX F - off then (Inl ENOSPC, s)
      else api_write (f_api F) s body_id off (c_bytes buf len))"

definition blobfs_truncate_id :: "'s fs_build \<Rightarrow> 's \<Rightarrow> u64 \<Rightarrow> nat \<Rightarrow> unit res \<times> 's" where
  "blobfs_truncate_id F s body_id sz =
     (if sz > BLOBFS_FILE_MAX F then (Inl ENOSPC, s)
      else reads (api_size (f_api F) s body_id) s (\<lambda>cur.
        if sz = cur then (Inr (), s)
        else if sz > cur then api_write (f_api F) s body_id (sz - 1) [0]
        else reads (api_read (f_api F) s body_id 0 sz) s (\<lambda>buf.
          if length buf \<noteq> sz then (Inl EIO, s)
          else api_update (f_api F) s body_id buf)))"

datatype blobfs_entry_type = BLOBFS_ENTRY_FILE | BLOBFS_ENTRY_DIR

record blobfs_stat_t =
  st_type :: blobfs_entry_type
  st_size :: nat

definition stat_of :: "'s fs_build \<Rightarrow> 's \<Rightarrow> blobfs_dirent \<Rightarrow> blobfs_stat_t res" where
  "stat_of F s de =
     (if de_type de = BLOBFS_TYPE_DIR then Inr \<lparr>st_type = BLOBFS_ENTRY_DIR, st_size = 0\<rparr>
      else andthen (api_size (f_api F) s (de_body_id de)) (\<lambda>n. Inr \<lparr>st_type = BLOBFS_ENTRY_FILE, st_size = n\<rparr>))"

definition blobfs_stat :: "'s fs_build \<Rightarrow> fs \<times> 's \<Rightarrow> byte list option \<Rightarrow> bool \<Rightarrow> blobfs_stat_t res" where
  "blobfs_stat F = (\<lambda>(st, s) path stat_null.
     if stat_null then Inl EINVAL
     else let wr = fs_resolve F st s path in
     if at_root wr then Inr \<lparr>st_type = BLOBFS_ENTRY_DIR, st_size = 0\<rparr>
     else andthen (snd wr) (stat_of F s))"

definition blobfs_read :: "'s fs_build \<Rightarrow> fs \<times> 's \<Rightarrow> byte list option \<Rightarrow> nat \<Rightarrow> bool \<Rightarrow> nat \<Rightarrow> bool \<Rightarrow> byte list res" where
  "blobfs_read F t path off buf_null len out_null =
     andthen (blobfs_lookup F t path False) (\<lambda>body_id. blobfs_read_id F (snd t) body_id off buf_null len out_null)"

definition blobfs_write :: "'s fs_build \<Rightarrow> fs \<times> 's \<Rightarrow> byte list option \<Rightarrow> nat \<Rightarrow> byte list option \<Rightarrow> nat \<Rightarrow> unit res \<times> (fs \<times> 's)" where
  "blobfs_write F t path off buf len =
     reads (blobfs_lookup F t path False) t (\<lambda>body_id.
       let (r, s) = blobfs_write_id F (snd t) body_id off buf len in (r, (fst t, s)))"

definition blobfs_truncate :: "'s fs_build \<Rightarrow> fs \<times> 's \<Rightarrow> byte list option \<Rightarrow> nat \<Rightarrow> unit res \<times> (fs \<times> 's)" where
  "blobfs_truncate F t path sz =
     reads (blobfs_lookup F t path False) t (\<lambda>body_id.
       let (r, s) = blobfs_truncate_id F (snd t) body_id sz in (r, (fst t, s)))"

section \<open>Removing and renaming entries\<close>

definition dir_is_empty :: "'s fs_build \<Rightarrow> 's \<Rightarrow> u64 \<Rightarrow> bool res" where
  "dir_is_empty F s dir =
     (case fst (op_next (dir_ops F) s dir [] 0 0) of
        Inr _ \<Rightarrow> Inr False
      | Inl e \<Rightarrow>
          if e = ENODATA \<or> e = ENOENT then Inr True
          else if e = ENOMEM then Inr False
          else Inl e)"

definition unlink_entry :: "'s fs_build \<Rightarrow> fs \<times> 's \<Rightarrow> where_to \<Rightarrow> blobfs_dirent \<Rightarrow> unit res \<times> (fs \<times> 's)" where
  "unlink_entry F = (\<lambda>(st, s) w de.
     case op_del (dir_ops F) s (w_dir w) (w_name w) of
       (Inl e, s) \<Rightarrow> (Inl e, (st, s))
     | (Inr _, s) \<Rightarrow>
         (Inr (), (st, snd (if de_type de = BLOBFS_TYPE_DIR then op_destroy (dir_ops F) s (de_body_id de)
                            else api_delete (f_api F) s (de_body_id de)))))"

definition blobfs_unlink :: "'s fs_build \<Rightarrow> fs \<times> 's \<Rightarrow> byte list option \<Rightarrow> unit res \<times> (fs \<times> 's)" where
  "blobfs_unlink F t path =
     seqs (intent_settle F t) (\<lambda>_ t.
       let wr = fs_resolve F (fst t) (snd t) path in
       if at_root wr then (Inl EBUSY, t)
       else reads (snd wr) t (\<lambda>de.
         if de_type de = BLOBFS_TYPE_DIR
         then reads (dir_is_empty F (snd t) (de_body_id de)) t (\<lambda>empty.
           if \<not> empty then (Inl ENOTEMPTY, t) else unlink_entry F t (fst wr) de)
         else unlink_entry F t (fst wr) de))"

definition intent_meta :: "'s fs_build \<Rightarrow> fs \<Rightarrow> u64 \<Rightarrow> byte list \<Rightarrow> byte list \<Rightarrow> u64 \<Rightarrow> blobfs_meta" where
  "intent_meta F st dir fn tn body =
     \<lparr>fm_magic = BLOBFS_MAGIC, fm_version = BLOBFS_META_VERSION, fm_rename_in_flight = 1,
      fm_from_len = word_of_nat (length fn), fm_to_len = word_of_nat (length tn),
      fm_dir_root = fs_dir_root st, fm_rename_body = body, fm_from_dir = dir, fm_to_dir = dir,
      fm_from = fn @ replicate (BLOBFS_NAME_MAX F + 1 - length fn) 0, fm_to = tn @ replicate (BLOBFS_NAME_MAX F + 1 - length tn) 0\<rparr>"

text \<open>The withdrawal of an intent, whose own error is not reported.\<close>

definition intent_withdraw :: "'s fs_build \<Rightarrow> fs \<times> 's \<Rightarrow> blobfs_meta \<Rightarrow> unit res \<times> (fs \<times> 's)" where
  "intent_withdraw F t mt =
     (case meta_write F t (intent_clear F mt) of
        (Inr _, (st, s)) \<Rightarrow> (Inr (), (st\<lparr>fs_intent_pending := False\<rparr>, s))
      | (Inl e, t) \<Rightarrow> (Inl e, t))"

definition rename_steps :: "'s fs_build \<Rightarrow> fs \<times> 's \<Rightarrow> u64 \<Rightarrow> byte list \<Rightarrow> byte list \<Rightarrow> blobfs_dirent \<Rightarrow> unit res \<times> (fs \<times> 's)" where
  "rename_steps F t dir fn tn de =
     (let mt = intent_meta F (fst t) dir fn tn (de_body_id de) in
      seqs (meta_write F t mt) (\<lambda>_ (st, s).
        let st = st\<lparr>fs_intent_pending := True\<rparr> in
        case op_set (dir_ops F) s dir tn (Some (dirent_bytes de)) DIRENT_SIZE of
          (Inl e, s) \<Rightarrow> (Inl e, snd (intent_withdraw F (st, s) mt))
        | (Inr _, s) \<Rightarrow>
            (case op_del (dir_ops F) s dir fn of
               (Inl e, s) \<Rightarrow> (Inl e, (st, s))
             | (Inr _, s) \<Rightarrow> intent_withdraw F (st, s) mt)))"

definition blobfs_rename :: "'s fs_build \<Rightarrow> fs \<times> 's \<Rightarrow> byte list option \<Rightarrow> byte list option \<Rightarrow> unit res \<times> (fs \<times> 's)" where
  "blobfs_rename F t old new =
     seqs (intent_settle F t) (\<lambda>_ t.
       let wr = fs_resolve F (fst t) (snd t) old in
       if at_root wr then (Inl EBUSY, t)
       else reads (snd wr) t (\<lambda>de.
       reads (walk F (fst t) (snd t) new) t (\<lambda>wt.
         let wf = fst wr in
         if w_name wt = [] then (Inl EBUSY, t)
         else if w_want_dir wt \<and> de_type de \<noteq> BLOBFS_TYPE_DIR then (Inl ENOTDIR, t)
         else if w_dir wt \<noteq> w_dir wf then (Inl EXDEV, t)
         else case dirent_get F (snd t) (w_dir wt) (w_name wt) of
           Inr _ \<Rightarrow> (Inl EEXIST, t)
         | Inl e \<Rightarrow> if e \<noteq> ENOENT then (Inl e, t) else rename_steps F t (w_dir wf) (w_name wf) (w_name wt) de)))"

section \<open>Listing\<close>

definition blobfs_opendir :: "'s fs_build \<Rightarrow> fs \<times> 's \<Rightarrow> byte list option \<Rightarrow> bool \<Rightarrow> u64 res" where
  "blobfs_opendir F = (\<lambda>(st, s) path out_null.
     if out_null then Inl EINVAL
     else let wr = fs_resolve F st s path in
     if at_root wr then Inr (fs_dir_root st)
     else andthen (snd wr) (\<lambda>de. if de_type de \<noteq> BLOBFS_TYPE_DIR then Inl ENOTDIR else Inr (de_body_id de)))"

text \<open>The name written out and the result; the stat is \<open>None\<close> when the caller wants none. The name is absent
  when the caller gave no buffer, and where an error after the lengths were known leaves bytes of a key
  in it that nothing terminates.\<close>

definition blobfs_next_id ::
  "'s fs_build \<Rightarrow> fs \<times> 's \<Rightarrow> u64 \<Rightarrow> byte list option \<Rightarrow> bool \<Rightarrow> bool \<Rightarrow> byte list option \<times> blobfs_stat_t option res" where
  "blobfs_next_id F = (\<lambda>(st, s) dir_id after name_null stat_null.
     case after of
       None \<Rightarrow> (None, Inl EINVAL)
     | Some a \<Rightarrow>
         if name_null then (None, Inl EINVAL)
         else if \<not> fs_mounted st then (Some [], Inl ENODEV)
         else if length (c_str a) > BLOBFS_NAME_MAX F then (Some [], Inl ENAMETOOLONG)
         else case op_next (dir_ops F) s dir_id (c_str a) (BLOBFS_NAME_MAX F) DIRENT_SIZE of
           (Inl e, lens) \<Rightarrow> (if lens = None \<or> e = ENOMEM then Some [] else None, Inl (if e = ENOMEM then EIO else e))
         | (Inr (name, bs), _) \<Rightarrow>
             (Some name,
              andthen (dirent_check bs) (\<lambda>de.
                if stat_null then Inr None
                else case stat_of F s de of
                  Inl e \<Rightarrow> Inl (if e = ENOENT then EIO else e)
                | Inr x \<Rightarrow> Inr (Some x))))"

end
