(* ===== verification/Blobfs_Vfs.thy ===== *)
theory Blobfs_Vfs
  imports Blobfs
begin

text \<open>
  The driver that puts blobfs behind Zephyr's file system interface (\<open>lib/blobfs/blobfs_zephyr_fs.c\<close>):
  two pools of handles, one for files and one for directories, and the operations of the driver table.
  One mutex is held over every operation, so the calls of several threads are a sequence of operations.

  A file is a \<open>struct fs_file_t\<close> of the caller, of which the driver uses the handle, the length of the
  mount point and the open flags. \<open>off_t\<close> and \<open>size_t\<close> have the widths of the target, and an
  operation is \<open>None\<close> where the C code has no defined behaviour: a position that leaves \<open>off_t\<close>, and a
  name copied over the end of \<open>last\<close>.
\<close>

section \<open>Handles\<close>

record blobfs_fh =
  fh_used :: bool
  fh_dead :: bool
  fh_body_id :: u64
  fh_pos :: int

record blobfs_dh =
  dh_used :: bool
  dh_dead :: bool
  dh_done :: bool
  dh_dir_id :: u64
  dh_last :: "byte list"

record vfs =
  fh_pool :: "blobfs_fh list"
  dh_pool :: "blobfs_dh list"
  vfs_mounted :: bool

record fs_file =
  filep :: "nat option"
  f_mountp_len :: nat
  FS_O_READ :: bool
  FS_O_WRITE :: bool
  FS_O_APPEND :: bool

record fs_dir =
  dirp :: "nat option"
  d_mountp_len :: nat

text \<open>What the target and the VFS fix: the widths of \<open>off_t\<close> and \<open>size_t\<close> and \<open>MAX_FILE_NAME\<close>.\<close>

record vfs_build =
  OFF_BITS :: nat
  SIZE_BITS :: nat
  MAX_FILE_NAME :: nat

definition new_fh :: "bool \<Rightarrow> blobfs_fh" where
  "new_fh used = \<lparr>fh_used = used, fh_dead = False, fh_body_id = 0, fh_pos = 0\<rparr>"

definition new_dh :: "bool \<Rightarrow> blobfs_dh" where
  "new_dh used = \<lparr>dh_used = used, dh_dead = False, dh_done = False, dh_dir_id = 0, dh_last = []\<rparr>"

text \<open>The pools at boot, for the two Kconfig sizes.\<close>

definition vfs_init :: "nat \<Rightarrow> nat \<Rightarrow> vfs" where
  "vfs_init files dirs = \<lparr>fh_pool = replicate files (new_fh False), dh_pool = replicate dirs (new_dh False), vfs_mounted = False\<rparr>"

definition first_free :: "('h \<Rightarrow> bool) \<Rightarrow> 'h list \<Rightarrow> nat option" where
  "first_free used pool = find (\<lambda>i. \<not> used (pool ! i)) [0..<length pool]"

definition set_fh :: "vfs \<Rightarrow> nat \<Rightarrow> blobfs_fh \<Rightarrow> vfs" where
  "set_fh v i h = v\<lparr>fh_pool := (fh_pool v)[i := h]\<rparr>"

definition set_dh :: "vfs \<Rightarrow> nat \<Rightarrow> blobfs_dh \<Rightarrow> vfs" where
  "set_dh v i h = v\<lparr>dh_pool := (dh_pool v)[i := h]\<rparr>"

definition fh_alloc :: "vfs \<Rightarrow> nat option \<times> vfs" where
  "fh_alloc v =
     (case first_free fh_used (fh_pool v) of
        None \<Rightarrow> (None, v)
      | Some i \<Rightarrow> (Some i, set_fh v i (new_fh True)))"

definition fh_free :: "vfs \<Rightarrow> nat \<Rightarrow> vfs" where
  "fh_free v i = set_fh v i (new_fh False)"

definition fh_of :: "vfs \<Rightarrow> fs_file \<Rightarrow> nat option" where
  "fh_of v filp =
     (case filep filp of
        None \<Rightarrow> None
      | Some i \<Rightarrow> if \<not> fh_used (fh_pool v ! i) \<or> fh_dead (fh_pool v ! i) then None else Some i)"

definition dh_alloc :: "vfs \<Rightarrow> nat option \<times> vfs" where
  "dh_alloc v =
     (case first_free dh_used (dh_pool v) of
        None \<Rightarrow> (None, v)
      | Some i \<Rightarrow> (Some i, set_dh v i (new_dh True)))"

definition dh_free :: "vfs \<Rightarrow> nat \<Rightarrow> vfs" where
  "dh_free v i = set_dh v i (new_dh False)"

section \<open>Paths and names\<close>

definition strip_mnt :: "nat \<Rightarrow> byte list \<Rightarrow> byte list" where
  "strip_mnt mountp_len path =
     (let p = drop mountp_len path in if p \<noteq> [] \<and> hd p \<noteq> 0 then p else [SLASH])"

definition last_name :: "vfs_build \<Rightarrow> byte list \<Rightarrow> byte list" where
  "last_name V path =
     (let upto = rev (dropWhile (\<lambda>b. b = SLASH) (rev (c_str path)));
          name = rev (takeWhile (\<lambda>b. b \<noteq> SLASH) (rev upto))
      in take (MAX_FILE_NAME V) name)"

datatype fs_dir_entry_type = FS_DIR_ENTRY_FILE | FS_DIR_ENTRY_DIR

record fs_dirent =
  ent_type :: fs_dir_entry_type
  ent_name :: "byte list"
  ent_size :: nat

definition vfs_type :: "blobfs_entry_type \<Rightarrow> fs_dir_entry_type" where
  "vfs_type t = (if t = BLOBFS_ENTRY_DIR then FS_DIR_ENTRY_DIR else FS_DIR_ENTRY_FILE)"

section \<open>Positions\<close>

text \<open>The casts between \<open>off_t\<close> and \<open>size_t\<close>, and a sum of two \<open>off_t\<close>.\<close>

definition to_size :: "vfs_build \<Rightarrow> int \<Rightarrow> nat" where
  "to_size V p = nat (p mod 2 ^ SIZE_BITS V)"

definition to_off :: "vfs_build \<Rightarrow> nat \<Rightarrow> int" where
  "to_off V n = signed_take_bit (OFF_BITS V - 1) (int n)"

definition off_add :: "vfs_build \<Rightarrow> int \<Rightarrow> int \<Rightarrow> int option" where
  "off_add V a b = (if - (2 ^ (OFF_BITS V - 1)) \<le> a + b \<and> a + b < 2 ^ (OFF_BITS V - 1) then Some (a + b) else None)"

section \<open>Files\<close>

text \<open>The lookup of an open, which makes the file if it is missing and \<open>FS_O_CREATE\<close> is given.\<close>

definition open_body :: "'s fs_build \<Rightarrow> fs \<times> 's \<Rightarrow> byte list \<Rightarrow> bool \<Rightarrow> u64 res \<times> (fs \<times> 's)" where
  "open_body F t path create =
     (let rc = blobfs_lookup F t (Some path) False in
      if rc = Inl ENOENT \<and> create then seqs (blobfs_create F t (Some path)) (\<lambda>_ t. (blobfs_lookup F t (Some path) False, t))
      else (rc, t))"

definition blobfs_fs_open :: "'s fs_build \<Rightarrow> vfs \<times> (fs \<times> 's) \<Rightarrow> fs_file \<Rightarrow> byte list \<Rightarrow> bool \<Rightarrow> unit res \<times> fs_file \<times> (vfs \<times> (fs \<times> 's))" where
  "blobfs_fs_open F = (\<lambda>(v, t) filp fs_path create.
     let path = strip_mnt (f_mountp_len filp) fs_path in
     case fh_alloc v of
       (None, v) \<Rightarrow> (Inl EMFILE, filp, (v, t))
     | (Some i, v) \<Rightarrow>
         case open_body F t path create of
           (Inl e, t) \<Rightarrow> (Inl e, filp, (fh_free v i, t))
         | (Inr body_id, t) \<Rightarrow> (Inr (), filp\<lparr>filep := Some i\<rparr>, (set_fh v i ((fh_pool v ! i)\<lparr>fh_body_id := body_id\<rparr>), t)))"

definition blobfs_fs_close :: "vfs \<Rightarrow> fs_file \<Rightarrow> unit res \<times> fs_file \<times> vfs" where
  "blobfs_fs_close v filp =
     (case filep filp of
        None \<Rightarrow> (Inr (), filp, v)
      | Some i \<Rightarrow> (Inr (), filp\<lparr>filep := None\<rparr>, fh_free v i))"

definition blobfs_fs_read ::
  "'s fs_build \<Rightarrow> vfs_build \<Rightarrow> vfs \<times> (fs \<times> 's) \<Rightarrow> fs_file \<Rightarrow> bool \<Rightarrow> nat \<Rightarrow> (byte list res \<times> vfs) option" where
  "blobfs_fs_read F V = (\<lambda>(v, (st, s)) filp dest_null nbytes.
     case fh_of v filp of
       None \<Rightarrow> Some (Inl EBADF, v)
     | Some i \<Rightarrow>
         let fh = fh_pool v ! i in
         if \<not> FS_O_READ filp then Some (Inl EACCES, v)
         else case blobfs_read_id F s (fh_body_id fh) (to_size V (fh_pos fh)) dest_null nbytes False of
           Inl e \<Rightarrow> Some (Inl e, v)
         | Inr bs \<Rightarrow> map_option (\<lambda>p. (Inr bs, set_fh v i (fh\<lparr>fh_pos := p\<rparr>))) (off_add V (fh_pos fh) (to_off V (length bs))))"

definition blobfs_fs_write ::
  "'s fs_build \<Rightarrow> vfs_build \<Rightarrow> vfs \<times> (fs \<times> 's) \<Rightarrow> fs_file \<Rightarrow> byte list option \<Rightarrow> nat \<Rightarrow> (nat res \<times> (vfs \<times> (fs \<times> 's))) option" where
  "blobfs_fs_write F V = (\<lambda>(v, (st, s)) filp src nbytes.
     case fh_of v filp of
       None \<Rightarrow> Some (Inl EBADF, (v, (st, s)))
     | Some i \<Rightarrow>
         let fh = fh_pool v ! i in
         if \<not> FS_O_WRITE filp then Some (Inl EACCES, (v, (st, s)))
         else case (if FS_O_APPEND filp then andthen (blobfs_size_id F s (fh_body_id fh) False) (\<lambda>size. Inr (to_off V size))
                    else Inr (fh_pos fh)) of
           Inl e \<Rightarrow> Some (Inl e, (v, (st, s)))
         | Inr pos \<Rightarrow>
             case blobfs_write_id F s (fh_body_id fh) (to_size V pos) src nbytes of
               (Inl e, s) \<Rightarrow> Some (Inl e, (v, (st, s)))
             | (Inr _, s) \<Rightarrow>
                 map_option (\<lambda>p. (Inr nbytes, (set_fh v i (fh\<lparr>fh_pos := p\<rparr>), (st, s)))) (off_add V pos (to_off V nbytes)))"

datatype whence = FS_SEEK_SET | FS_SEEK_CUR | FS_SEEK_END | SEEK_OTHER

definition blobfs_fs_lseek ::
  "'s fs_build \<Rightarrow> vfs_build \<Rightarrow> vfs \<times> (fs \<times> 's) \<Rightarrow> fs_file \<Rightarrow> int \<Rightarrow> whence \<Rightarrow> (unit res \<times> vfs) option" where
  "blobfs_fs_lseek F V = (\<lambda>(v, (st, s)) filp off wh.
     case fh_of v filp of
       None \<Rightarrow> Some (Inl EBADF, v)
     | Some i \<Rightarrow>
         let fh = fh_pool v ! i;
             pos = (case wh of
                 FS_SEEK_SET \<Rightarrow> Inr (Some off)
               | FS_SEEK_CUR \<Rightarrow> Inr (off_add V (fh_pos fh) off)
               | FS_SEEK_END \<Rightarrow> andthen (blobfs_size_id F s (fh_body_id fh) False) (\<lambda>size. Inr (off_add V (to_off V size) off))
               | SEEK_OTHER \<Rightarrow> Inl EINVAL)
         in case pos of
              Inl e \<Rightarrow> Some (Inl e, v)
            | Inr None \<Rightarrow> None
            | Inr (Some p) \<Rightarrow> if p < 0 then Some (Inl EINVAL, v) else Some (Inr (), set_fh v i (fh\<lparr>fh_pos := p\<rparr>)))"

definition blobfs_fs_tell :: "vfs \<Rightarrow> fs_file \<Rightarrow> int res" where
  "blobfs_fs_tell v filp = (case fh_of v filp of None \<Rightarrow> Inl EBADF | Some i \<Rightarrow> Inr (fh_pos (fh_pool v ! i)))"

definition blobfs_fs_truncate ::
  "'s fs_build \<Rightarrow> vfs_build \<Rightarrow> vfs \<times> (fs \<times> 's) \<Rightarrow> fs_file \<Rightarrow> int \<Rightarrow> unit res \<times> (vfs \<times> (fs \<times> 's))" where
  "blobfs_fs_truncate F V = (\<lambda>(v, (st, s)) filp len.
     case fh_of v filp of
       None \<Rightarrow> (Inl EBADF, (v, (st, s)))
     | Some i \<Rightarrow>
         if \<not> FS_O_WRITE filp then (Inl EACCES, (v, (st, s)))
         else if len < 0 then (Inl EINVAL, (v, (st, s)))
         else let (r, s) = blobfs_truncate_id F s (fh_body_id (fh_pool v ! i)) (to_size V len) in (r, (v, (st, s))))"

definition blobfs_fs_sync :: "vfs \<Rightarrow> fs_file \<Rightarrow> unit res" where
  "blobfs_fs_sync v filp = (if fh_of v filp \<noteq> None then Inr () else Inl EBADF)"

section \<open>Calls by path\<close>

definition blobfs_fs_stat :: "'s fs_build \<Rightarrow> vfs_build \<Rightarrow> fs \<times> 's \<Rightarrow> nat \<Rightarrow> byte list \<Rightarrow> fs_dirent res" where
  "blobfs_fs_stat F V t mountp_len path =
     (let name = strip_mnt mountp_len path in
      andthen (blobfs_stat F t (Some name) False) (\<lambda>stat.
        Inr \<lparr>ent_type = vfs_type (st_type stat), ent_name = last_name V name, ent_size = st_size stat\<rparr>))"

definition blobfs_fs_mkdir :: "'s fs_build \<Rightarrow> fs \<times> 's \<Rightarrow> nat \<Rightarrow> byte list \<Rightarrow> (unit res \<times> (fs \<times> 's)) option" where
  "blobfs_fs_mkdir F t mountp_len name = blobfs_mkdir F t (Some (strip_mnt mountp_len name))"

definition blobfs_fs_unlink :: "'s fs_build \<Rightarrow> fs \<times> 's \<Rightarrow> nat \<Rightarrow> byte list \<Rightarrow> unit res \<times> (fs \<times> 's)" where
  "blobfs_fs_unlink F t mountp_len name = blobfs_unlink F t (Some (strip_mnt mountp_len name))"

definition blobfs_fs_rename :: "'s fs_build \<Rightarrow> fs \<times> 's \<Rightarrow> nat \<Rightarrow> byte list \<Rightarrow> byte list \<Rightarrow> unit res \<times> (fs \<times> 's)" where
  "blobfs_fs_rename F t mountp_len old new =
     blobfs_rename F t (Some (strip_mnt mountp_len old)) (Some (strip_mnt mountp_len new))"

section \<open>Directories\<close>

definition blobfs_fs_opendir :: "'s fs_build \<Rightarrow> vfs \<times> (fs \<times> 's) \<Rightarrow> fs_dir \<Rightarrow> byte list \<Rightarrow> unit res \<times> fs_dir \<times> vfs" where
  "blobfs_fs_opendir F = (\<lambda>(v, t) dp fs_path.
     case dh_alloc v of
       (None, v) \<Rightarrow> (Inl EMFILE, dp, v)
     | (Some i, v) \<Rightarrow>
         case blobfs_opendir F t (Some (strip_mnt (d_mountp_len dp) fs_path)) False of
           Inl e \<Rightarrow> (Inl e, dp, dh_free v i)
         | Inr d \<Rightarrow> (Inr (), dp\<lparr>dirp := Some i\<rparr>, set_dh v i ((dh_pool v ! i)\<lparr>dh_dir_id := d\<rparr>)))"

text \<open>\<open>strcpy(dh->last, name)\<close>: the bytes before the terminator, which must fit.\<close>

definition copy_last :: "'s fs_build \<Rightarrow> vfs \<Rightarrow> nat \<Rightarrow> byte list \<Rightarrow> vfs option" where
  "copy_last F v i name =
     (if length (c_str name) > BLOBFS_NAME_MAX F then None else Some (set_dh v i ((dh_pool v ! i)\<lparr>dh_last := c_str name\<rparr>)))"

text \<open>An entry with no type and size is the end of the directory, whose name is empty. \<open>junk\<close> is what
  the caller's name field reads as after an error that left bytes in it without a terminator.\<close>

definition blobfs_fs_readdir ::
  "'s fs_build \<Rightarrow> vfs \<times> (fs \<times> 's) \<Rightarrow> fs_dir \<Rightarrow> byte list \<Rightarrow> (fs_dirent option res \<times> vfs) option" where
  "blobfs_fs_readdir F = (\<lambda>(v, t) dp junk.
     case dirp dp of
       None \<Rightarrow> Some (Inl EBADF, v)
     | Some i \<Rightarrow>
         let dh = dh_pool v ! i in
         if \<not> dh_used dh \<or> dh_dead dh then Some (Inl EBADF, v)
         else if dh_done dh then Some (Inr None, v)
         else case blobfs_next_id F t (dh_dir_id dh) (Some (dh_last dh @ [0])) False False of
           (name, Inl e) \<Rightarrow>
             if e = ENODATA then Some (Inr None, set_dh v i (dh\<lparr>dh_done := True\<rparr>))
             else let nm = c_str (case name of None \<Rightarrow> junk | Some n \<Rightarrow> n) in
                  if e = EIO \<and> nm \<noteq> [] then map_option (\<lambda>v. (Inl e, v)) (copy_last F v i nm)
                  else Some (Inl e, v)
         | (name, Inr stat) \<Rightarrow>
             map_option (\<lambda>v. (Inr (Some \<lparr>ent_type = vfs_type (st_type (the stat)), ent_name = c_str (the name), ent_size = st_size (the stat)\<rparr>), v))
               (copy_last F v i (the name)))"

definition blobfs_fs_closedir :: "vfs \<Rightarrow> fs_dir \<Rightarrow> unit res \<times> fs_dir \<times> vfs" where
  "blobfs_fs_closedir v dp =
     (case dirp dp of
        None \<Rightarrow> (Inr (), dp, v)
      | Some i \<Rightarrow> (Inr (), dp\<lparr>dirp := None\<rparr>, dh_free v i))"

section \<open>Mount and unmount\<close>

text \<open>\<open>db_mount\<close> is \<open>blob_db_mount\<close> on the store below.\<close>

definition blobfs_fs_mount ::
  "'s fs_build \<Rightarrow> ('s \<Rightarrow> unit res \<times> 's) \<Rightarrow> vfs \<times> (fs \<times> 's) \<Rightarrow> (unit res \<times> (vfs \<times> (fs \<times> 's))) option" where
  "blobfs_fs_mount F db_mount = (\<lambda>(v, (st, s)).
     if vfs_mounted v then Some (Inl EBUSY, (v, (st, s)))
     else let (rc, s) = db_mount s in
       if rc \<noteq> Inr () \<and> rc \<noteq> Inl EALREADY then Some (rc, (v, (st, s)))
       else case rootreg_init (f_api F) (f_roots F) s of
         (Inl e, s) \<Rightarrow> Some (Inl e, (v, (st, s)))
       | (Inr _, s) \<Rightarrow>
           map_option (\<lambda>(rc, t). (rc, (if rc = Inr () then v\<lparr>vfs_mounted := True\<rparr> else v, t))) (blobfs_mount F (st, s)))"

definition orphan_fh :: "blobfs_fh \<Rightarrow> blobfs_fh" where
  "orphan_fh h = (if fh_used h then h\<lparr>fh_dead := True\<rparr> else h)"

definition orphan_dh :: "blobfs_dh \<Rightarrow> blobfs_dh" where
  "orphan_dh h = (if dh_used h then h\<lparr>dh_dead := True\<rparr> else h)"

definition blobfs_fs_unmount :: "vfs \<times> (fs \<times> 's) \<Rightarrow> unit res \<times> (vfs \<times> (fs \<times> 's))" where
  "blobfs_fs_unmount = (\<lambda>(v, t).
     let v = v\<lparr>fh_pool := map orphan_fh (fh_pool v), dh_pool := map orphan_dh (dh_pool v)\<rparr>;
         t = snd (blobfs_unmount t)
     in (Inr (), (v\<lparr>vfs_mounted := False\<rparr>, t)))"

end
