(* ===== verification/Blobfs_Spec.thy ===== *)
theory Blobfs_Spec
  imports Blobfs
begin

text \<open>
  What a file system on a store means. A name space \<open>G\<close> gives each directory, by its id, the entries
  it holds. \<open>fs_flash\<close> says that the objects of a store hold \<open>G\<close> with a meta object, and \<open>settled\<close> what
  a name space stands for while the intent of a rename is recorded: recovery will drop the old name of
  the two. A path is specified by splitting it at its slashes.
\<close>

section \<open>Formats\<close>

definition is_dir :: "blobfs_dirent \<Rightarrow> bool" where "is_dir de \<longleftrightarrow> de_type de = BLOBFS_TYPE_DIR"

definition dirent_ok :: "blobfs_dirent \<Rightarrow> bool" where
  "dirent_ok de \<longleftrightarrow> (de_type de = BLOBFS_TYPE_FILE \<or> de_type de = BLOBFS_TYPE_DIR) \<and> de_version de = BLOBFS_DIRENT_VERSION"

lemma length_dirent_bytes [simp]: "length (dirent_bytes de) = DIRENT_SIZE"
  by (simp add: dirent_bytes_def DIRENT_SIZE_def)

lemma dirent_roundtrip: "dirent_of (dirent_bytes de) = de"
  by (cases de) (simp add: dirent_of_def dirent_bytes_def get_u16_def get_u32_def get_u64_def field_def)

lemma dirent_check_bytes: "dirent_ok de \<Longrightarrow> dirent_check (dirent_bytes de) = Inr de"
  by (auto simp: dirent_check_def Let_def dirent_roundtrip dirent_ok_def)

lemma new_dirent_ok [simp]:
  "dirent_ok (new_dirent BLOBFS_TYPE_FILE x)" "dirent_ok (new_dirent BLOBFS_TYPE_DIR x)" "de_body_id (new_dirent ty x) = x"
  "is_dir (new_dirent BLOBFS_TYPE_DIR x)" "\<not> is_dir (new_dirent BLOBFS_TYPE_FILE x)"
  by (simp_all add: dirent_ok_def new_dirent_def is_dir_def BLOBFS_TYPE_FILE_def BLOBFS_TYPE_DIR_def)

definition meta_wf :: "nat \<Rightarrow> blobfs_meta \<Rightarrow> bool" where
  "meta_wf nm mt \<longleftrightarrow>
     fm_magic mt = BLOBFS_MAGIC \<and> fm_version mt = BLOBFS_META_VERSION \<and> length (fm_from mt) = nm + 1 \<and> length (fm_to mt) = nm + 1"

text \<open>The format of before directories existed.\<close>

definition fs_meta_v1_bytes :: "nat \<Rightarrow> blobfs_meta \<Rightarrow> byte list" where
  "fs_meta_v1_bytes nm mt =
     le_bytes 4 (unat BLOBFS_MAGIC) @ [BLOBFS_META_VERSION_1, fm_rename_in_flight mt, fm_from_len mt, fm_to_len mt] @
     le_bytes 8 (unat (fm_dir_root mt)) @ le_bytes 8 (unat (fm_rename_body mt)) @
     fm_from mt @ fm_to mt @ replicate (meta_pad nm) 0"

definition meta_image :: "nat \<Rightarrow> blobfs_meta \<Rightarrow> bool \<Rightarrow> byte list" where
  "meta_image nm mt v1 = (if v1 then fs_meta_v1_bytes nm mt else fs_meta_bytes nm mt)"

definition v1_meta :: "blobfs_meta \<Rightarrow> bool" where
  "v1_meta mt \<longleftrightarrow> fm_from_dir mt = fm_dir_root mt \<and> fm_to_dir mt = fm_dir_root mt"

lemma field_at: "length us = k \<Longrightarrow> length v = n \<Longrightarrow> field k n (us @ v @ w) = v"
  by (simp add: field_def)

lemma meta_roundtrip_fs:
  assumes "meta_wf nm mt"
  shows "fs_meta_of nm (fs_meta_bytes nm mt) = mt" "length (fs_meta_bytes nm mt) = META_SIZE nm"
    "get_u32 (fs_meta_bytes nm mt) 0 = BLOBFS_MAGIC" "fs_meta_bytes nm mt ! 4 = BLOBFS_META_VERSION"
proof -
  let ?h = "le_bytes 4 (unat (fm_magic mt)) @ [fm_version mt, fm_rename_in_flight mt, fm_from_len mt, fm_to_len mt] @
     le_bytes 8 (unat (fm_dir_root mt)) @ le_bytes 8 (unat (fm_rename_body mt)) @
     le_bytes 8 (unat (fm_from_dir mt)) @ le_bytes 8 (unat (fm_to_dir mt))"
  have "field 40 (nm + 1) (fs_meta_bytes nm mt) = fm_from mt"
    using field_at [of ?h 40 "fm_from mt" "nm + 1"] assms by (simp add: fs_meta_bytes_def meta_wf_def)
  moreover have "field (40 + (nm + 1)) (nm + 1) (fs_meta_bytes nm mt) = fm_to mt"
    using field_at [of "?h @ fm_from mt" "40 + (nm + 1)" "fm_to mt" "nm + 1"] assms by (simp add: fs_meta_bytes_def meta_wf_def)
  ultimately show "fs_meta_of nm (fs_meta_bytes nm mt) = mt"
    unfolding fs_meta_of_def by (cases mt) (simp add: fs_meta_bytes_def get_u32_def get_u64_def field_def nth_append)
  show "length (fs_meta_bytes nm mt) = META_SIZE nm" using assms by (simp add: fs_meta_bytes_def META_SIZE_def meta_wf_def)
  show "get_u32 (fs_meta_bytes nm mt) 0 = BLOBFS_MAGIC" "fs_meta_bytes nm mt ! 4 = BLOBFS_META_VERSION"
    using assms by (simp_all add: fs_meta_bytes_def get_u32_def meta_wf_def field_def nth_append)
qed

lemma meta_roundtrip_v1:
  assumes "meta_wf nm mt" "v1_meta mt"
  shows "fs_meta_of_v1 nm (fs_meta_v1_bytes nm mt) = mt" "length (fs_meta_v1_bytes nm mt) = META_V1_SIZE nm"
    "get_u32 (fs_meta_v1_bytes nm mt) 0 = BLOBFS_MAGIC" "fs_meta_v1_bytes nm mt ! 4 = BLOBFS_META_VERSION_1"
proof -
  let ?h = "le_bytes 4 (unat BLOBFS_MAGIC) @ [BLOBFS_META_VERSION_1, fm_rename_in_flight mt, fm_from_len mt, fm_to_len mt] @
     le_bytes 8 (unat (fm_dir_root mt)) @ le_bytes 8 (unat (fm_rename_body mt))"
  have "field 24 (nm + 1) (fs_meta_v1_bytes nm mt) = fm_from mt"
    using field_at [of ?h 24 "fm_from mt" "nm + 1"] assms by (simp add: fs_meta_v1_bytes_def meta_wf_def)
  moreover have "field (24 + (nm + 1)) (nm + 1) (fs_meta_v1_bytes nm mt) = fm_to mt"
    using field_at [of "?h @ fm_from mt" "24 + (nm + 1)" "fm_to mt" "nm + 1"] assms by (simp add: fs_meta_v1_bytes_def meta_wf_def)
  ultimately show "fs_meta_of_v1 nm (fs_meta_v1_bytes nm mt) = mt"
    using assms unfolding fs_meta_of_v1_def meta_wf_def v1_meta_def
    by (cases mt) (simp add: fs_meta_v1_bytes_def get_u64_def field_def nth_append)
  show "length (fs_meta_v1_bytes nm mt) = META_V1_SIZE nm" using assms by (simp add: fs_meta_v1_bytes_def META_V1_SIZE_def meta_wf_def)
  show "get_u32 (fs_meta_v1_bytes nm mt) 0 = BLOBFS_MAGIC" "fs_meta_v1_bytes nm mt ! 4 = BLOBFS_META_VERSION_1"
    by (simp_all add: fs_meta_v1_bytes_def get_u32_def field_def nth_append)
qed

lemma meta_clear_wf [simp]: "meta_wf (BLOBFS_NAME_MAX F) mt \<Longrightarrow> meta_wf (BLOBFS_NAME_MAX F) (intent_clear F mt)"
  by (simp add: meta_wf_def intent_clear_def)

section \<open>Paths\<close>

fun pieces :: "byte list \<Rightarrow> byte list list" where
  "pieces [] = [[]]"
| "pieces (b # bs) =
     (if b = 0 then [[]]
      else if b = SLASH then [] # pieces bs
      else (b # hd (pieces bs)) # tl (pieces bs))"

text \<open>The names on a path, slashes collapsed, and whether it ends in a slash.\<close>

definition path_names :: "byte list \<Rightarrow> byte list list" where
  "path_names p = filter (\<lambda>c. c \<noteq> []) (pieces p)"

definition path_slash :: "byte list \<Rightarrow> bool" where
  "path_slash p \<longleftrightarrow> c_str p \<noteq> [] \<and> last (c_str p) = SLASH"

lemma pieces_ne [simp]: "pieces p \<noteq> []"
  by (induction p) auto

lemma SLASH_ne [simp]: "SLASH \<noteq> 0" by (simp add: SLASH_def)

lemma path_names_skip: "path_names (dropWhile (\<lambda>b. b = SLASH) p) = path_names p"
  by (induction p) (auto simp: path_names_def)

lemma path_names_take:
  assumes "\<forall>b \<in> set c. b \<noteq> 0 \<and> b \<noteq> SLASH" "q = [] \<or> hd q = 0 \<or> hd q = SLASH"
  shows "path_names (c @ q) = (if c = [] then [] else [c]) @ path_names q"
proof -
  have hq: "hd (pieces q) = []" using assms(2) by (cases q) auto
  then have tq: "path_names q = filter (\<lambda>c. c \<noteq> []) (tl (pieces q))"
    by (cases "pieces q") (simp_all add: path_names_def)
  have "pieces (c @ q) = (c @ hd (pieces q)) # tl (pieces q)" using assms(1) by (induction c) auto
  with hq tq show ?thesis by (simp add: path_names_def)
qed

lemma path_names_plain: "n \<in> set (path_names p) \<Longrightarrow> n \<noteq> [] \<and> 0 \<notin> set n \<and> SLASH \<notin> set n"
proof -
  have "0 \<notin> set c \<and> SLASH \<notin> set c" if "c \<in> set (pieces p)" for c
    using that
  proof (induction p arbitrary: c)
    case (Cons b p)
    have "hd (pieces p) \<in> set (pieces p)" "set (tl (pieces p)) \<subseteq> set (pieces p)" by (cases "pieces p"; auto)+
    with Cons show ?case by (auto split: if_splits)
  qed simp
  then show "n \<in> set (path_names p) \<Longrightarrow> n \<noteq> [] \<and> 0 \<notin> set n \<and> SLASH \<notin> set n" by (auto simp: path_names_def)
qed

lemma dropWhile_hd: "dropWhile P xs = [] \<or> \<not> P (hd (dropWhile P xs))"
  by (induction xs) auto

lemma component_names:
  assumes "component p = (c, q)"
  shows "path_names p = (if c = [] then [] else c # path_names q)" "c \<noteq> [] \<Longrightarrow> path_slash p \<longleftrightarrow> path_slash q"
    "\<forall>b \<in> set c. b \<noteq> 0 \<and> b \<noteq> SLASH" "q = [] \<or> hd q = 0 \<or> hd q = SLASH"
proof -
  let ?s = "dropWhile (\<lambda>b. b = SLASH) p" and ?P = "\<lambda>b. b \<noteq> 0 \<and> b \<noteq> SLASH"
  have c: "c = takeWhile ?P ?s" and q: "q = dropWhile ?P ?s" using assms by (simp_all add: component_def Let_def)
  have s: "?s = c @ q" by (simp add: c q)
  show ok: "\<forall>b \<in> set c. b \<noteq> 0 \<and> b \<noteq> SLASH" using c set_takeWhileD by fastforce
  show hq: "q = [] \<or> hd q = 0 \<or> hd q = SLASH" using dropWhile_hd [of ?P ?s] q by blast
  have pn: "path_names p = (if c = [] then [] else [c]) @ path_names q"
    using path_names_skip [of p] path_names_take [OF ok hq] s by simp
  have "path_names q = []" if "c = []"
  proof -
    have "?s = [] \<or> hd ?s \<noteq> SLASH" using dropWhile_hd [of "\<lambda>b. b = SLASH" p] by blast
    with that s hq have "q = [] \<or> hd q = 0" by auto
    then show ?thesis by (cases q) (auto simp: path_names_def)
  qed
  with pn show "path_names p = (if c = [] then [] else c # path_names q)" by simp
  assume "c \<noteq> []"
  have nz: "c_str (xs @ ys) = xs @ c_str ys" if "\<forall>b \<in> set xs. b \<noteq> 0" for xs ys
    using that by (simp add: c_str_def)
  obtain u where u: "p = u @ ?s" "\<forall>b \<in> set u. b = SLASH"
    by (metis (mono_tags, lifting) takeWhile_dropWhile_id set_takeWhileD)
  have "\<forall>b \<in> set u. b \<noteq> 0" "\<forall>b \<in> set c. b \<noteq> 0" using u(2) ok by auto
  then have pz: "c_str p = u @ c @ c_str q" using nz [of u "c @ q"] nz [of c q] u(1) s by simp
  have "last c \<noteq> SLASH" using ok \<open>c \<noteq> []\<close> last_in_set by blast
  with pz \<open>c \<noteq> []\<close> show "path_slash p \<longleftrightarrow> path_slash q" by (cases "c_str q = []") (simp_all add: path_slash_def)
qed

lemma path_slash_end: "path_names q = [] \<Longrightarrow> q = [] \<or> hd q = 0 \<or> hd q = SLASH \<Longrightarrow> path_slash q \<longleftrightarrow> q \<noteq> [] \<and> hd q = SLASH"
proof (induction q)
  case (Cons b q)
  show ?case
  proof (cases "b = SLASH")
    case True
    have "q = [] \<or> hd q = 0 \<or> hd q = SLASH"
      using Cons.prems(1) True by (cases q) (auto simp: path_names_def split: if_splits)
    moreover have "path_names q = []" using Cons.prems(1) True by (simp add: path_names_def)
    ultimately show ?thesis using Cons.IH True by (cases q) (auto simp: path_slash_def c_str_def)
  qed (use Cons.prems in \<open>auto simp: path_slash_def c_str_def\<close>)
qed (simp add: path_slash_def c_str_def)

section \<open>The name space\<close>

type_synonym dirs = "u64 \<Rightarrow> (byte list \<Rightarrow> blobfs_dirent option) option"

definition entry :: "dirs \<Rightarrow> u64 \<Rightarrow> byte list \<Rightarrow> blobfs_dirent option" where
  "entry G d n = (case G d of None \<Rightarrow> None | Some f \<Rightarrow> f n)"

definition set_entry :: "dirs \<Rightarrow> u64 \<Rightarrow> byte list \<Rightarrow> blobfs_dirent option \<Rightarrow> dirs" where
  "set_entry G d n e = G(d := Some ((case G d of None \<Rightarrow> Map.empty | Some f \<Rightarrow> f)(n := e)))"

lemma entry_set [simp]: "entry (set_entry G d n e) d' n' = (if d' = d \<and> n' = n then e else entry G d' n')"
  by (simp add: entry_def set_entry_def split: option.splits)

lemma set_entry_dom [simp]: "set_entry G d n e d' = None \<longleftrightarrow> G d' = None \<and> d' \<noteq> d"
  by (simp add: set_entry_def)

text \<open>Where a path leads in a name space: the directory that holds its last name.\<close>

fun ns_walk :: "'s fs_build \<Rightarrow> dirs \<Rightarrow> u64 \<Rightarrow> byte list list \<Rightarrow> bool \<Rightarrow> where_to res" where
  "ns_walk F G d [] slash = Inr \<lparr>w_dir = d, w_name = [], w_want_dir = False\<rparr>"
| "ns_walk F G d (n # ns) slash =
     andthen (check_name F n) (\<lambda>_.
       if ns = [] then Inr \<lparr>w_dir = d, w_name = n, w_want_dir = slash\<rparr>
       else case entry G d n of
         None \<Rightarrow> Inl ENOENT
       | Some de \<Rightarrow> if \<not> is_dir de then Inl ENOTDIR else ns_walk F G (de_body_id de) ns slash)"

definition ns_where :: "'s fs_build \<Rightarrow> dirs \<Rightarrow> u64 \<Rightarrow> byte list \<Rightarrow> where_to res" where
  "ns_where F G root p = ns_walk F G root (path_names p) (path_slash p)"

text \<open>The entry a path names; the root directory has none.\<close>

definition ns_entry :: "'s fs_build \<Rightarrow> dirs \<Rightarrow> u64 \<Rightarrow> byte list \<Rightarrow> blobfs_dirent res" where
  "ns_entry F G root p =
     andthen (ns_where F G root p) (\<lambda>w.
       if w_name w = [] then Inl EISDIR
       else case entry G (w_dir w) (w_name w) of
         None \<Rightarrow> Inl ENOENT
       | Some de \<Rightarrow> if w_want_dir w \<and> \<not> is_dir de then Inl ENOTDIR else Inr de)"

text \<open>The body of the file a path names.\<close>

definition ns_file :: "'s fs_build \<Rightarrow> dirs \<Rightarrow> u64 \<Rightarrow> byte list \<Rightarrow> u64 res" where
  "ns_file F G root p = andthen (ns_entry F G root p) (\<lambda>de. if is_dir de then Inl EISDIR else Inr (de_body_id de))"

text \<open>A name that some path leads to.\<close>

definition plain :: "byte list \<Rightarrow> bool" where
  "plain n \<longleftrightarrow> n \<noteq> [] \<and> 0 \<notin> set n \<and> SLASH \<notin> set n"

definition name_fits :: "'s fs_build \<Rightarrow> byte list \<Rightarrow> bool" where
  "name_fits F n \<longleftrightarrow> plain n \<and> check_name F n = Inr ()"

lemma name_fitsD: "name_fits F n \<Longrightarrow> n \<noteq> [] \<and> length n \<le> BLOBFS_NAME_MAX F"
  by (auto simp: name_fits_def plain_def check_name_def split: if_splits)

text \<open>What the calls make of a name space. A name is free for a new entry; an entry goes, with the
  directory it names; an entry moves from one name to another of its directory.\<close>

definition free_at :: "'s fs_build \<Rightarrow> dirs \<Rightarrow> u64 \<Rightarrow> byte list \<Rightarrow> where_to \<Rightarrow> bool" where
  "free_at F G root p w \<longleftrightarrow> ns_where F G root p = Inr w \<and> w_name w \<noteq> [] \<and> entry G (w_dir w) (w_name w) = None"

definition without :: "dirs \<Rightarrow> u64 \<Rightarrow> byte list \<Rightarrow> blobfs_dirent \<Rightarrow> dirs" where
  "without G d n de = (if is_dir de then (set_entry G d n None)(de_body_id de := None) else set_entry G d n None)"

definition ns_unlink :: "'s fs_build \<Rightarrow> dirs \<Rightarrow> u64 \<Rightarrow> byte list \<Rightarrow> (blobfs_dirent \<times> dirs) res" where
  "ns_unlink F N root p =
     andthen (ns_where F N root p) (\<lambda>w.
       if w_name w = [] then Inl EBUSY
       else andthen (ns_entry F N root p) (\<lambda>de.
         if is_dir de \<and> N (de_body_id de) \<noteq> Some Map.empty then Inl ENOTEMPTY
         else Inr (de, without N (w_dir w) (w_name w) de)))"

definition moved :: "dirs \<Rightarrow> u64 \<Rightarrow> byte list \<Rightarrow> byte list \<Rightarrow> blobfs_dirent \<Rightarrow> dirs" where
  "moved G d fn tn de = set_entry (set_entry G d tn (Some de)) d fn None"

definition ns_rename :: "'s fs_build \<Rightarrow> dirs \<Rightarrow> u64 \<Rightarrow> byte list \<Rightarrow> byte list \<Rightarrow> dirs res" where
  "ns_rename F N root p q =
     andthen (ns_where F N root p) (\<lambda>w.
       if w_name w = [] then Inl EBUSY
       else andthen (ns_entry F N root p) (\<lambda>de.
       andthen (ns_where F N root q) (\<lambda>v.
         if w_name v = [] then Inl EBUSY
         else if w_want_dir v \<and> \<not> is_dir de then Inl ENOTDIR
         else if w_dir v \<noteq> w_dir w then Inl EXDEV
         else if entry N (w_dir v) (w_name v) \<noteq> None then Inl EEXIST
         else Inr (moved N (w_dir w) (w_name w) (w_name v) de))))"

section \<open>The rename intent\<close>

definition in_flight :: "blobfs_meta \<Rightarrow> bool" where "in_flight mt \<longleftrightarrow> fm_rename_in_flight mt \<noteq> 0"

definition intent_ok :: "'s fs_build \<Rightarrow> dirs \<Rightarrow> blobfs_meta \<Rightarrow> bool" where
  "intent_ok F G mt \<longleftrightarrow> (in_flight mt \<longrightarrow>
     name_fits F (from_name mt) \<and> name_fits F (to_name mt) \<and> unat (fm_from_len mt) \<le> BLOBFS_NAME_MAX F \<and>
     unat (fm_to_len mt) \<le> BLOBFS_NAME_MAX F \<and> from_name mt \<noteq> to_name mt \<and>
     fm_to_dir mt = fm_from_dir mt \<and> fm_from_dir mt \<noteq> 0 \<and> G (fm_from_dir mt) \<noteq> None)"

text \<open>Two names may share an entry only as the two ends of the rename under way.\<close>

definition shares :: "blobfs_meta \<Rightarrow> u64 \<Rightarrow> byte list \<Rightarrow> u64 \<Rightarrow> byte list \<Rightarrow> u64 \<Rightarrow> bool" where
  "shares mt d n d' n' x \<longleftrightarrow>
     in_flight mt \<and> d = fm_from_dir mt \<and> d' = fm_from_dir mt \<and> {n, n'} = {from_name mt, to_name mt} \<and> x = fm_rename_body mt"

definition names_ok :: "'s fs_build \<Rightarrow> dirs \<Rightarrow> blobfs_meta \<Rightarrow> bool" where
  "names_ok F G mt \<longleftrightarrow>
     G (fm_dir_root mt) \<noteq> None \<and> intent_ok F G mt \<and>
     (\<forall>d n de. entry G d n = Some de \<longrightarrow>
        dirent_ok de \<and> name_fits F n \<and> de_body_id de \<noteq> fm_dir_root mt \<and> (is_dir de \<longrightarrow> G (de_body_id de) \<noteq> None)) \<and>
     (\<forall>d n de d' n' de'. entry G d n = Some de \<and> entry G d' n' = Some de' \<and> de_body_id de = de_body_id de' \<longrightarrow>
        d = d' \<and> n = n' \<or> shares mt d n d' n' (de_body_id de) \<and> de = de')"

lemma names_entry:
  assumes "names_ok F G mt" "entry G d n = Some de"
  shows "dirent_ok de" "name_fits F n" "de_body_id de \<noteq> fm_dir_root mt" "is_dir de \<Longrightarrow> G (de_body_id de) \<noteq> None"
  using assms unfolding names_ok_def by blast+

lemma names_uniq:
  assumes "names_ok F G mt" "entry G d n = Some de" "entry G d' n' = Some de'" "de_body_id de = de_body_id de'"
  shows "d = d' \<and> n = n' \<or> shares mt d n d' n' (de_body_id de) \<and> de = de'"
  using assms unfolding names_ok_def by blast

lemma names_quiet_uniq:
  assumes "names_ok F G mt" "\<not> in_flight mt" "entry G d n = Some de" "entry G d' n' = Some de'" "de_body_id de = de_body_id de'"
  shows "d = d' \<and> n = n'"
  using names_uniq [OF assms(1,3-5)] assms(2) by (auto simp: shares_def)

lemma names_intent:
  assumes "names_ok F G mt" "in_flight mt"
  shows "name_fits F (from_name mt)" "name_fits F (to_name mt)" "unat (fm_from_len mt) \<le> BLOBFS_NAME_MAX F"
    "unat (fm_to_len mt) \<le> BLOBFS_NAME_MAX F" "from_name mt \<noteq> to_name mt" "fm_to_dir mt = fm_from_dir mt"
    "fm_from_dir mt \<noteq> 0" "G (fm_from_dir mt) \<noteq> None"
  using assms by (auto simp: names_ok_def intent_ok_def)

text \<open>The name space recovery makes of one with an intent: where the new name is bound to the body that
  was to move, an old name still bound to it goes.\<close>

definition moving :: "dirs \<Rightarrow> blobfs_meta \<Rightarrow> bool" where
  "moving G mt \<longleftrightarrow> in_flight mt \<and>
     map_option de_body_id (entry G (fm_to_dir mt) (to_name mt)) = Some (fm_rename_body mt) \<and>
     map_option de_body_id (entry G (fm_from_dir mt) (from_name mt)) = Some (fm_rename_body mt)"

definition settled :: "dirs \<Rightarrow> blobfs_meta \<Rightarrow> dirs" where
  "settled G mt = (if moving G mt then set_entry G (fm_from_dir mt) (from_name mt) None else G)"

lemma settled_quiet [simp]: "\<not> in_flight mt \<Longrightarrow> settled G mt = G"
  by (simp add: settled_def moving_def)

lemma clear_quiet [simp]: "\<not> in_flight (intent_clear F mt)"
  by (simp add: in_flight_def intent_clear_def)

lemma clear_root [simp]: "fm_dir_root (intent_clear F mt) = fm_dir_root mt"
  by (simp add: intent_clear_def)

text \<open>Recovery leaves every name alone with its entry.\<close>

lemma names_settled:
  assumes ok: "names_ok F G mt" and mt': "\<not> in_flight mt'" "fm_dir_root mt' = fm_dir_root mt"
  shows "names_ok F (settled G mt) mt'"
proof -
  let ?G = "settled G mt"
  have sub: "entry ?G d n = Some de \<Longrightarrow> entry G d n = Some de" for d n de
    by (auto simp: settled_def split: if_splits)
  have dm: "?G d = None \<longleftrightarrow> G d = None" for d
    using ok by (auto simp: settled_def names_ok_def intent_ok_def moving_def)
  have uniq: "d = d' \<and> n = n'" if e: "entry ?G d n = Some de" "entry ?G d' n' = Some de'" "de_body_id de = de_body_id de'" for d n de d' n' de'
  proof (rule ccontr)
    assume ne: "\<not> (d = d' \<and> n = n')"
    then have sh: "shares mt d n d' n' (de_body_id de)" using names_uniq [OF ok sub [OF e(1)] sub [OF e(2)] e(3)] by blast
    then have fl: "in_flight mt" by (simp add: shares_def)
    note dir = names_intent(6) [OF ok fl]
    from sh ne have ends: "d = fm_from_dir mt" "d' = fm_from_dir mt" "de_body_id de = fm_rename_body mt"
      "n = from_name mt \<and> n' = to_name mt \<or> n = to_name mt \<and> n' = from_name mt"
      by (auto simp: shares_def doubleton_eq_iff)
    then have "moving G mt" using fl dir sub [OF e(1)] sub [OF e(2)] e(3) by (auto simp: moving_def)
    then have "entry ?G (fm_from_dir mt) (from_name mt) = None" by (simp add: settled_def)
    with e(1,2) ends show False by auto
  qed
  show ?thesis
    unfolding names_ok_def
  proof (intro conjI allI impI)
    show "?G (fm_dir_root mt') \<noteq> None" using ok by (simp add: dm mt'(2) names_ok_def)
    show "intent_ok F ?G mt'" using mt'(1) by (simp add: intent_ok_def)
  next
    fix d n de assume "entry ?G d n = Some de"
    note e = names_entry [OF ok sub [OF this]]
    show "dirent_ok de" "name_fits F n" by (rule e)+
    show "de_body_id de \<noteq> fm_dir_root mt'" using e(3) mt'(2) by simp
    show "?G (de_body_id de) \<noteq> None" if "is_dir de" using e(4) [OF that] by (simp add: dm)
  qed (use uniq in blast)
qed

text \<open>Entries may go at any time, an entry with an id of its own may come, and a new intent may be
  recorded while there is none.\<close>

lemma names_del: "names_ok F G mt \<Longrightarrow> G d \<noteq> None \<Longrightarrow> names_ok F (set_entry G d n None) mt"
proof -
  assume ok: "names_ok F G mt" and d: "G d \<noteq> None"
  have dm: "set_entry G d n None d' = None \<longleftrightarrow> G d' = None" for d' using d by auto
  have sub: "entry (set_entry G d n None) d' n' = Some de \<Longrightarrow> entry G d' n' = Some de" for d' n' de by (auto split: if_splits)
  show ?thesis
    unfolding names_ok_def dm
  proof (intro conjI allI impI)
    show "G (fm_dir_root mt) \<noteq> None" using ok by (simp add: names_ok_def)
    show "intent_ok F (set_entry G d n None) mt" using ok by (simp add: names_ok_def intent_ok_def dm)
  next
    fix d' n' de assume "entry (set_entry G d n None) d' n' = Some de"
    note e = names_entry [OF ok sub [OF this]]
    show "dirent_ok de" "name_fits F n'" "de_body_id de \<noteq> fm_dir_root mt" "is_dir de \<Longrightarrow> G (de_body_id de) \<noteq> None" by (rule e | assumption)+
  qed (use names_uniq [OF ok] sub in blast)
qed

lemma names_put:
  assumes ok: "names_ok F G mt" and d: "G d \<noteq> None" and de: "dirent_ok de" "name_fits F n" "de_body_id de \<noteq> fm_dir_root mt"
    and dir: "is_dir de \<Longrightarrow> G (de_body_id de) \<noteq> None"
    and own: "\<And>d' n' de'. entry G d' n' = Some de' \<Longrightarrow> de_body_id de' = de_body_id de \<Longrightarrow>
      d' = d \<and> n' = n \<or> shares mt d' n' d n (de_body_id de) \<and> de' = de"
  shows "names_ok F (set_entry G d n (Some de)) mt"
proof -
  let ?G = "set_entry G d n (Some de)"
  have dm: "?G d' = None \<longleftrightarrow> G d' = None" for d' using d by auto
  have sym: "shares mt d' n' d n x \<Longrightarrow> shares mt d n d' n' x" for d' n' d n x by (auto simp: shares_def)
  have cs: "d1 = d \<and> n1 = n \<and> e1 = de \<or> (d1 \<noteq> d \<or> n1 \<noteq> n) \<and> entry G d1 n1 = Some e1" if "entry ?G d1 n1 = Some e1" for d1 n1 e1
    using that by (auto split: if_splits)
  show ?thesis
    unfolding names_ok_def dm
  proof (intro conjI allI impI)
    show "G (fm_dir_root mt) \<noteq> None" using ok by (simp add: names_ok_def)
    show "intent_ok F ?G mt" using ok by (simp add: names_ok_def intent_ok_def dm)
  next
    fix d1 n1 e1 assume e: "entry ?G d1 n1 = Some e1"
    show "dirent_ok e1" "name_fits F n1" "de_body_id e1 \<noteq> fm_dir_root mt" "is_dir e1 \<Longrightarrow> G (de_body_id e1) \<noteq> None"
      using cs [OF e] de dir names_entry [OF ok, of d1 n1 e1] by blast+
  next
    fix d1 n1 e1 d2 n2 e2 assume "entry ?G d1 n1 = Some e1 \<and> entry ?G d2 n2 = Some e2 \<and> de_body_id e1 = de_body_id e2"
    then have e: "entry ?G d1 n1 = Some e1" "entry ?G d2 n2 = Some e2" "de_body_id e1 = de_body_id e2" by simp_all
    show "d1 = d2 \<and> n1 = n2 \<or> shares mt d1 n1 d2 n2 (de_body_id e1) \<and> e1 = e2"
      using cs [OF e(1)] cs [OF e(2)] e(3) own [of d1 n1 e1] own [of d2 n2 e2] sym names_uniq [OF ok, of d1 n1 e1 d2 n2 e2] by metis
  qed
qed

lemma names_meta:
  assumes "names_ok F G mt" "\<not> in_flight mt" "fm_dir_root mt' = fm_dir_root mt" "intent_ok F G mt'"
  shows "names_ok F G mt'"
  unfolding names_ok_def assms(3)
proof (intro conjI allI impI)
  show "G (fm_dir_root mt) \<noteq> None" using assms(1) by (simp add: names_ok_def)
  fix d n de d' n' de' assume "entry G d n = Some de \<and> entry G d' n' = Some de' \<and> de_body_id de = de_body_id de'"
  then show "d = d' \<and> n = n' \<or> shares mt' d n d' n' (de_body_id de) \<and> de = de'"
    using names_quiet_uniq [OF assms(1,2)] by blast
qed (use names_entry [OF assms(1)] assms(4) in auto)

text \<open>A directory no entry names may come, empty, or go.\<close>

lemma names_grow:
  assumes ok: "names_ok F G mt" and "G x = None"
  shows "names_ok F (G(x \<mapsto> Map.empty)) mt"
proof -
  have "entry (G(x \<mapsto> Map.empty)) = entry G" using assms(2) by (auto simp: entry_def fun_eq_iff)
  then show ?thesis using ok by (auto simp: names_ok_def intent_ok_def)
qed

lemma names_shrink:
  assumes ok: "names_ok F G mt" and x: "x \<noteq> fm_dir_root mt" "\<not> in_flight mt"
    and no: "\<And>d n de. entry G d n = Some de \<Longrightarrow> d \<noteq> x \<Longrightarrow> de_body_id de \<noteq> x"
  shows "names_ok F (G(x := None)) mt"
proof -
  have sub: "entry (G(x := None)) d n = Some de \<Longrightarrow> entry G d n = Some de \<and> d \<noteq> x" for d n de
    by (auto simp: entry_def split: if_splits)
  show ?thesis
    unfolding names_ok_def
  proof (intro conjI allI impI)
    show "(G(x := None)) (fm_dir_root mt) \<noteq> None" using ok x by (simp add: names_ok_def)
    show "intent_ok F (G(x := None)) mt" using x(2) by (simp add: intent_ok_def)
  next
    fix d n de assume "entry (G(x := None)) d n = Some de"
    then have e: "entry G d n = Some de" "d \<noteq> x" using sub by blast+
    show "dirent_ok de" "name_fits F n" "de_body_id de \<noteq> fm_dir_root mt" by (rule names_entry [OF ok e(1)])+
    show "is_dir de \<Longrightarrow> (G(x := None)) (de_body_id de) \<noteq> None" using names_entry(4) [OF ok e(1)] no [OF e] by simp
  qed (use names_uniq [OF ok] sub in blast)
qed

section \<open>A file system on a store\<close>

definition enc :: "(byte list \<Rightarrow> blobfs_dirent option) \<Rightarrow> byte list \<Rightarrow> byte list option" where
  "enc f n = map_option dirent_bytes (f n)"

lemma enc_upd [simp]: "enc (f(n := e)) = (enc f)(n := map_option dirent_bytes e)" "enc Map.empty = Map.empty"
  by (auto simp: enc_def fun_eq_iff)

definition file_ids :: "dirs \<Rightarrow> u64 set" where
  "file_ids G = {x. \<exists>d n de. entry G d n = Some de \<and> \<not> is_dir de \<and> de_body_id de = x}"

text \<open>\<open>Q d\<close> are the objects of the directory \<open>d\<close>.\<close>

definition dir_ids :: "dirs \<Rightarrow> (u64 \<Rightarrow> u64 set) \<Rightarrow> u64 set" where
  "dir_ids G Q = (\<Union>d \<in> dom G. Q d)"

definition dirs_hold ::
  "((u64 \<Rightarrow> byte list option) \<Rightarrow> u64 \<Rightarrow> u64 set \<Rightarrow> (byte list \<rightharpoonup> byte list) \<Rightarrow> bool) \<Rightarrow>
   (u64 \<Rightarrow> byte list option) \<Rightarrow> dirs \<Rightarrow> (u64 \<Rightarrow> u64 set) \<Rightarrow> bool" where
  "dirs_hold hold m G Q \<longleftrightarrow>
     (\<forall>d f. G d = Some f \<longrightarrow> hold m d (Q d) (enc f)) \<and> (\<forall>d \<in> dom G. \<forall>d' \<in> dom G. d \<noteq> d' \<longrightarrow> Q d \<inter> Q d' = {})"

definition loose_ok :: "(u64 \<Rightarrow> byte list option) \<Rightarrow> dirs \<Rightarrow> (u64 \<Rightarrow> u64 set) \<Rightarrow> u64 \<Rightarrow> bool" where
  "loose_ok m G Q mid \<longleftrightarrow>
     (\<forall>x \<in> file_ids G. m x \<noteq> None) \<and> file_ids G \<inter> dir_ids G Q = {} \<and> mid \<noteq> BLOB_DB_ROOT_ID \<and>
     mid \<notin> file_ids G \<union> dir_ids G Q \<and> BLOB_DB_ROOT_ID \<notin> file_ids G \<union> dir_ids G Q"

definition fs_key :: u64 where "fs_key = ROOTREG_KEY BLOBFS_MAGIC 0"

lemma fs_key_nonzero: "fs_key \<noteq> 0"
  by (simp add: fs_key_def ROOTREG_KEY_def BLOBFS_MAGIC_def)

definition registered :: "'s fs_build \<Rightarrow> (u64 \<Rightarrow> byte list option) \<Rightarrow> u64 \<Rightarrow> bool" where
  "registered F m mid \<longleftrightarrow> (\<exists>img. registry (f_roots F) m img \<and> map_of img fs_key = Some mid)"

definition fs_flash ::
  "((u64 \<Rightarrow> byte list option) \<Rightarrow> u64 \<Rightarrow> u64 set \<Rightarrow> (byte list \<rightharpoonup> byte list) \<Rightarrow> bool) \<Rightarrow> 's fs_build \<Rightarrow>
   (u64 \<Rightarrow> byte list option) \<Rightarrow> u64 \<Rightarrow> dirs \<Rightarrow> (u64 \<Rightarrow> u64 set) \<Rightarrow> blobfs_meta \<Rightarrow> bool \<Rightarrow> bool" where
  "fs_flash hold F m mid G Q mt v1 \<longleftrightarrow>
     registered F m mid \<and> meta_wf (BLOBFS_NAME_MAX F) mt \<and> (v1 \<longrightarrow> v1_meta mt) \<and>
     m mid = Some (meta_image (BLOBFS_NAME_MAX F) mt v1) \<and> dirs_hold hold m G Q \<and> loose_ok m G Q mid \<and> names_ok F G mt"

text \<open>A mounted session and the meta object it goes with.\<close>

definition fs_session :: "fs \<Rightarrow> u64 \<Rightarrow> blobfs_meta \<Rightarrow> bool \<Rightarrow> bool" where
  "fs_session st mid mt v1 \<longleftrightarrow>
     fs_mounted st \<and> fs_meta_id st = mid \<and> fs_dir_root st = fm_dir_root mt \<and> fs_meta_v1 st = v1 \<and>
     (in_flight mt \<longrightarrow> fs_intent_pending st)"

text \<open>A step that changes, of what there was, at most the objects \<open>U\<close>.\<close>

definition touch :: "('s \<Rightarrow> bool) \<Rightarrow> ('s \<Rightarrow> u64 \<Rightarrow> byte list option) \<Rightarrow> ('s \<Rightarrow> nat) \<Rightarrow> u64 set \<Rightarrow> 's \<Rightarrow> 's \<Rightarrow> bool" where
  "touch valid ob nx U s s' \<longleftrightarrow> valid s' \<and> nx s \<le> nx s' \<and> (\<forall>x. unat x < nx s \<longrightarrow> x \<notin> U \<longrightarrow> ob s' x = ob s x)"

lemma touch_refl: "valid s \<Longrightarrow> touch valid ob nx U s s"
  by (simp add: touch_def)

lemma touch_trans:
  assumes "touch valid ob nx U s s1" "touch valid ob nx U1 s1 s2" "\<And>x. x \<in> U1 \<Longrightarrow> unat x < nx s \<Longrightarrow> x \<in> U"
  shows "touch valid ob nx U s s2"
  unfolding touch_def
proof (intro conjI allI impI)
  fix x assume x: "unat x < nx s" "x \<notin> U"
  then have "x \<notin> U1" "unat x < nx s1" using assms by (auto simp: touch_def)
  then show "ob s2 x = ob s x" using assms(1,2) x by (simp add: touch_def)
qed (use assms in \<open>auto simp: touch_def\<close>)

lemma owns_touch: "owns_step valid ob nx X s X' s' \<Longrightarrow> touch valid ob nx X s s'"
  by (simp add: owns_step_def touch_def)

lemma dir_ids_in: "G d = Some f \<Longrightarrow> Q d \<subseteq> dir_ids G Q"
  by (auto simp: dir_ids_def)

lemma fs_flash_frame:
  assumes fr: "\<And>m m' root X f. hold m root X f \<Longrightarrow> (\<And>x. x \<in> X \<Longrightarrow> m' x = m x) \<Longrightarrow> hold m' root X f"
    and fl: "fs_flash hold F m mid G Q mt v1"
    and eq: "\<And>x. x \<in> insert BLOB_DB_ROOT_ID (insert mid (file_ids G \<union> dir_ids G Q)) \<Longrightarrow> m' x = m x"
  shows "fs_flash hold F m' mid G Q mt v1"
proof -
  have "hold m' d (Q d) (enc f)" if "G d = Some f" for d f
  proof (rule fr [of m])
    show "hold m d (Q d) (enc f)" using fl that by (simp add: fs_flash_def dirs_hold_def)
    show "m' x = m x" if "x \<in> Q d" for x using eq dir_ids_in [of G d f Q] \<open>G d = Some f\<close> that by blast
  qed
  moreover have "registered F m' mid" using fl eq registry_frame [of m' m] by (simp add: fs_flash_def registered_def)
  ultimately show ?thesis using fl eq by (auto simp: fs_flash_def dirs_hold_def loose_ok_def)
qed

end
