(* ===== verification/Blobfs_Ops.thy ===== *)
theory Blobfs_Ops
  imports Blobfs_Spec
begin

text \<open>
  The operations of blobfs over any provider of the map shape and any object store: paths lead where
  the name space says, and each step of a call changes the name space as it should or not at all,
  whatever call of the store failed.
\<close>

locale fs_store = map_shape A inv objs nxt cap Ops holds ready span
  for A :: "'s blob_api" and inv objs nxt cap Ops holds ready span +
  fixes F :: "'s fs_build"
  assumes f_api [simp]: "f_api F = A" and f_ops [simp]: "dir_ops F = Ops"
    and name_max: "BLOBFS_NAME_MAX F \<le> 255" and f_roots: "f_roots F < 2 ^ 16" and file_max: "BLOBFS_FILE_MAX F < 2 ^ 32"
begin

abbreviation flash :: "(u64 \<Rightarrow> byte list option) \<Rightarrow> u64 \<Rightarrow> dirs \<Rightarrow> (u64 \<Rightarrow> u64 set) \<Rightarrow> blobfs_meta \<Rightarrow> bool \<Rightarrow> bool" where
  "flash \<equiv> fs_flash holds F"

abbreviation touches_only :: "u64 set \<Rightarrow> 's \<Rightarrow> 's \<Rightarrow> bool" where
  "touches_only \<equiv> touch inv objs nxt"

lemma flashD:
  assumes "flash m mid G Q mt v1"
  shows "registered F m mid" "meta_wf (BLOBFS_NAME_MAX F) mt" "v1 \<Longrightarrow> v1_meta mt"
    "m mid = Some (meta_image (BLOBFS_NAME_MAX F) mt v1)" "dirs_hold holds m G Q" "loose_ok m G Q mid" "names_ok F G mt"
  using assms by (simp_all add: fs_flash_def)

lemma flash_dir_hold: "flash m mid G Q mt v1 \<Longrightarrow> G d = Some f \<Longrightarrow> holds m d (Q d) (enc f)"
  by (simp add: fs_flash_def dirs_hold_def)

lemma dirs_apart: "flash m mid G Q mt v1 \<Longrightarrow> G d \<noteq> None \<Longrightarrow> G d' \<noteq> None \<Longrightarrow> d \<noteq> d' \<Longrightarrow> Q d \<inter> Q d' = {}"
  unfolding fs_flash_def dirs_hold_def dom_def by blast

lemma name_fits_key: "name_fits F n \<Longrightarrow> n \<noteq> [] \<and> \<not> length n > 0xffff"
  using name_max name_fitsD [of F n] by auto

section \<open>Paths\<close>

lemma dirent_get_law:
  assumes "inv s" "flash (objs s) mid G Q mt v1" "G d \<noteq> None" "name_fits F n"
  shows "dirent_get F s d n = (case entry G d n of None \<Rightarrow> Inl ENOENT | Some de \<Rightarrow> Inr de)"
proof -
  from assms(3) obtain f where f: "G d = Some f" by auto
  have e: "entry G d n = f n" by (simp add: entry_def f)
  note g = op_get_law [OF assms(1) flash_dir_hold [OF assms(2) f], of n DIRENT_SIZE]
  show ?thesis
  proof (cases "f n")
    case None
    with g e name_fits_key [OF assms(4)] show ?thesis by (simp add: dirent_get_def enc_def)
  next
    case (Some de)
    then have "dirent_ok de" using names_entry(1) [OF flashD(7) [OF assms(2)], of d n] e by simp
    from dirent_check_bytes [OF this] g e Some name_fits_key [OF assms(4)] show ?thesis
      by (simp add: dirent_get_def enc_def)
  qed
qed

lemma walk_from_ns:
  assumes i: "inv s" and fl: "flash (objs s) mid G Q mt v1"
  shows "G d \<noteq> None \<Longrightarrow> plain name \<Longrightarrow> rest = [] \<or> hd rest = 0 \<or> hd rest = SLASH \<Longrightarrow>
    walk_from F s d name rest = ns_walk F G d (name # path_names rest) (path_slash rest)"
proof (induction "length rest" arbitrary: d name rest rule: less_induct)
  case less
  obtain c q where c: "component rest = (c, q)" by fastforce
  note cn = component_names [OF c]
  show ?case
  proof (cases "check_name F name")
    case (Inl e)
    then show ?thesis using less.prems by (simp add: walk_from.simps plain_def)
  next
    case (Inr u)
    then have fit: "name_fits F name" using less.prems(2) by (simp add: name_fits_def)
    show ?thesis
    proof (cases "c = []")
      case True
      have "path_slash rest \<longleftrightarrow> rest \<noteq> [] \<and> hd rest = SLASH" by (rule path_slash_end) (use True cn(1) less.prems in auto)
      with True c cn(1) Inr less.prems show ?thesis by (simp add: walk_from.simps plain_def)
    next
      case False
      note g = dirent_get_law [OF i fl less.prems(1) fit]
      show ?thesis
      proof (cases "entry G d name")
        case None
        with g False c cn(1) Inr less.prems show ?thesis by (simp add: walk_from.simps plain_def)
      next
        case (Some de)
        have "walk_from F s (de_body_id de) c q = ns_walk F G (de_body_id de) (c # path_names q) (path_slash q)" if "is_dir de"
          by (rule less.hyps) (use component_shorter [OF c False] False cn(3,4) plain_def [of c] names_entry(4) [OF flashD(7) [OF fl] Some that] in auto)
        with Some g False c cn Inr less.prems show ?thesis by (simp add: walk_from.simps is_dir_def plain_def)
      qed
    qed
  qed
qed

lemma walk_ns:
  assumes "inv s" "flash (objs s) mid G Q mt v1" "fs_session st mid mt v1"
  shows "walk F st s (Some p) = ns_where F G (fm_dir_root mt) p"
proof -
  obtain c q where c: "component p = (c, q)" by fastforce
  have "G (fm_dir_root mt) \<noteq> None" using flashD(7) [OF assms(2)] by (simp add: names_ok_def)
  note w = walk_from_ns [OF assms(1,2) this, of c q] and cn = component_names [OF c]
  have "plain c" if "c \<noteq> []" using that cn(3) by (auto simp: plain_def)
  with w c cn assms(3) show ?thesis
    by (cases "c = []") (simp_all add: walk_def fs_session_def ns_where_def walk_from.simps [where name = "[]"])
qed

lemma ns_walk_dir:
  assumes "names_ok F G mt"
  shows "G d \<noteq> None \<Longrightarrow> \<forall>n \<in> set ns. plain n \<Longrightarrow> ns_walk F G d ns sl = Inr w \<Longrightarrow> G (w_dir w) \<noteq> None \<and> (w_name w \<noteq> [] \<longrightarrow> name_fits F (w_name w))"
proof (induction ns arbitrary: d)
  case (Cons n ns)
  show ?case
  proof (cases "ns = []")
    case True
    with Cons.prems show ?thesis by (auto simp: andthen_Inr name_fits_def)
  next
    case False
    with Cons.prems(3) obtain de where de: "entry G d n = Some de" "is_dir de" "ns_walk F G (de_body_id de) ns sl = Inr w"
      by (auto simp: andthen_Inr split: option.splits if_splits)
    show ?thesis using Cons.IH [OF names_entry(4) [OF assms de(1,2)] _ de(3)] Cons.prems(2) by simp
  qed
qed auto

lemma ns_where_dir:
  assumes "names_ok F G mt" "ns_where F G (fm_dir_root mt) p = Inr w"
  shows "G (w_dir w) \<noteq> None" "w_name w \<noteq> [] \<Longrightarrow> name_fits F (w_name w)"
  using ns_walk_dir [OF assms(1) _ _ assms(2) [unfolded ns_where_def]] assms(1) path_names_plain [of _ p]
  by (auto simp: names_ok_def plain_def)

lemma resolve_ns:
  assumes "inv s" "flash (objs s) mid G Q mt v1" "fs_session st mid mt v1"
  shows "fs_resolve F st s (Some p) =
    (case ns_where F G (fm_dir_root mt) p of Inl e \<Rightarrow> where0 | Inr w \<Rightarrow> w, ns_entry F G (fm_dir_root mt) p)"
proof (cases "ns_where F G (fm_dir_root mt) p")
  case (Inl e)
  with walk_ns [OF assms, of p] show ?thesis by (simp add: fs_resolve_def ns_entry_def)
next
  case (Inr w)
  note wd = ns_where_dir [OF flashD(7) [OF assms(2)] Inr]
  have "dirent_get F s (w_dir w) (w_name w) = (case entry G (w_dir w) (w_name w) of None \<Rightarrow> Inl ENOENT | Some de \<Rightarrow> Inr de)"
    if "w_name w \<noteq> []" by (rule dirent_get_law [OF assms(1,2) wd(1) wd(2) [OF that]])
  with walk_ns [OF assms, of p] Inr show ?thesis
    by (cases "entry G (w_dir w) (w_name w)") (auto simp: fs_resolve_def ns_entry_def is_dir_def)
qed

section \<open>Steps\<close>

text \<open>From a state to another, changing the directories, the meta object and \<open>W\<close> at most.\<close>

definition fs_evolve ::
  "u64 set \<Rightarrow> u64 \<Rightarrow> 's \<Rightarrow> dirs \<Rightarrow> (u64 \<Rightarrow> u64 set) \<Rightarrow> 's \<Rightarrow> dirs \<Rightarrow> (u64 \<Rightarrow> u64 set) \<Rightarrow> bool" where
  "fs_evolve W mid s G Q s' G' Q' \<longleftrightarrow>
     touches_only (W \<union> insert mid (dir_ids G Q)) s s' \<and> (\<forall>x \<in> dir_ids G' Q'. x \<in> dir_ids G Q \<or> nxt s \<le> unat x)"

lemma evolve_refl: "inv s \<Longrightarrow> fs_evolve W mid s G Q s G Q"
  by (simp add: fs_evolve_def touch_refl)

lemma evolve_trans:
  assumes "fs_evolve W mid s G Q s1 G1 Q1" "fs_evolve W' mid s1 G1 Q1 s2 G2 Q2" "W' \<subseteq> W"
  shows "fs_evolve W mid s G Q s2 G2 Q2"
proof -
  have le: "nxt s \<le> nxt s1" using assms(1) by (simp add: fs_evolve_def touch_def)
  have "touches_only (W \<union> insert mid (dir_ids G Q)) s s2"
  proof (rule touch_trans)
    show "touches_only (W \<union> insert mid (dir_ids G Q)) s s1" "touches_only (W' \<union> insert mid (dir_ids G1 Q1)) s1 s2"
      using assms(1,2) by (simp_all add: fs_evolve_def)
    fix x assume "x \<in> W' \<union> insert mid (dir_ids G1 Q1)" "unat x < nxt s"
    then show "x \<in> W \<union> insert mid (dir_ids G Q)" using assms(1,3) by (fastforce simp: fs_evolve_def)
  qed
  moreover have "x \<in> dir_ids G Q \<or> nxt s \<le> unat x" if "x \<in> dir_ids G2 Q2" for x
    using assms(1,2) that le by (fastforce simp: fs_evolve_def)
  ultimately show ?thesis by (simp add: fs_evolve_def)
qed

lemma evolve_inv: "fs_evolve W mid s G Q s' G' Q' \<Longrightarrow> inv s' \<and> nxt s \<le> nxt s'"
  by (simp add: fs_evolve_def touch_def)

text \<open>The objects of a file system are bound.\<close>

lemma loose_bound:
  assumes i: "inv s" and fl: "flash (objs s) mid G Q mt v1" and x: "x \<in> insert BLOB_DB_ROOT_ID (insert mid (file_ids G))"
  shows "objs s x \<noteq> None" "unat x < nxt s" "x \<notin> dir_ids G Q"
proof -
  show "objs s x \<noteq> None" using fl x by (auto simp: fs_flash_def loose_ok_def registered_def registry_def)
  then show "unat x < nxt s" using bound_law [OF i, of x] by blast
  show "x \<notin> dir_ids G Q" using fl x by (auto simp: fs_flash_def loose_ok_def)
qed

lemma dir_bound:
  assumes i: "inv s" and fl: "flash (objs s) mid G Q mt v1" and x: "x \<in> dir_ids G Q"
  shows "objs s x \<noteq> None" "unat x < nxt s" "x \<noteq> 0"
proof -
  from x obtain d f where "G d = Some f" "x \<in> Q d" by (auto simp: dir_ids_def)
  then show o: "objs s x \<noteq> None" using holds_live [OF i flash_dir_hold [OF fl]] by blast
  then show "unat x < nxt s" "x \<noteq> 0" using bound_law [OF i, of x] by auto
qed

lemma dir_root_in: "flash m mid G Q mt v1 \<Longrightarrow> G d \<noteq> None \<Longrightarrow> d \<in> dir_ids G Q"
proof -
  assume fl: "flash m mid G Q mt v1" and "G d \<noteq> None"
  then obtain f where f: "G d = Some f" by auto
  have "d \<in> Q d" by (rule holds_root [OF flash_dir_hold [OF fl f]])
  with f show ?thesis by (auto simp: dir_ids_def)
qed

lemma flash_touch:
  assumes i: "inv s" and fl: "flash (objs s) mid G Q mt v1" and t: "touches_only U s s'"
    and U: "U \<inter> insert BLOB_DB_ROOT_ID (insert mid (file_ids G \<union> dir_ids G Q)) = {}"
  shows "flash (objs s') mid G Q mt v1"
proof (rule fs_flash_frame [OF holds_frame fl])
  fix x assume x: "x \<in> insert BLOB_DB_ROOT_ID (insert mid (file_ids G \<union> dir_ids G Q))"
  then have "unat x < nxt s" using loose_bound(2) [OF i fl, of x] dir_bound(2) [OF i fl, of x] by auto
  with x U t show "objs s' x = objs s x" unfolding touch_def by blast
qed

text \<open>One directory changes.\<close>

lemma flash_dir:
  assumes i: "inv s" and fl: "flash (objs s) mid G Q mt v1" and f: "G d = Some f"
    and st: "owns_step inv objs nxt (Q d) s X' s'" and h: "holds (objs s') d X' (enc f')" and nm: "names_ok F (G(d \<mapsto> f')) mt"
    and files: "\<And>x. x \<in> file_ids (G(d \<mapsto> f')) \<Longrightarrow>
      x \<in> file_ids G \<or> objs s x \<noteq> None \<and> x \<notin> dir_ids G Q \<and> x \<noteq> mid \<and> x \<noteq> BLOB_DB_ROOT_ID"
  shows "flash (objs s') mid (G(d \<mapsto> f')) (Q(d := X')) mt v1"
    "fs_evolve {} mid s G Q s' (G(d \<mapsto> f')) (Q(d := X'))"
proof -
  have sub: "Q d \<subseteq> dir_ids G Q" using dir_ids_in [of G d f Q] f by simp
  have X': "x \<in> Q d \<or> nxt s \<le> unat x" if "x \<in> X'" for x using st that by (auto simp: owns_step_def)
  have keep: "objs s' x = objs s x" "x \<notin> X'" if "objs s x \<noteq> None" "x \<notin> Q d" for x
  proof -
    have "unat x < nxt s" using bound_law [OF i] that(1) by blast
    with st that(2) show "objs s' x = objs s x" "x \<notin> X'" using X' [of x] by (auto simp: owns_step_def)
  qed
  have di: "dir_ids (G(d \<mapsto> f')) (Q(d := X')) \<subseteq> X' \<union> (dir_ids G Q - Q d)"
  proof
    fix x assume "x \<in> dir_ids (G(d \<mapsto> f')) (Q(d := X'))"
    then obtain e where "e = d \<and> x \<in> X' \<or> e \<noteq> d \<and> e \<in> dom G \<and> x \<in> Q e" by (auto simp: dir_ids_def split: if_splits)
    moreover have "Q e \<inter> Q d = {}" if "e \<noteq> d" "e \<in> dom G" for e using dirs_apart [OF fl, of e d] f that by auto
    ultimately show "x \<in> X' \<union> (dir_ids G Q - Q d)" by (auto simp: dir_ids_def)
  qed
  have loose: "objs s x \<noteq> None \<and> x \<notin> dir_ids G Q" if "x \<in> insert BLOB_DB_ROOT_ID (insert mid (file_ids (G(d \<mapsto> f'))))" for x
    using that files [of x] loose_bound [OF i fl, of x] by blast
  then have loose': "objs s' x = objs s x \<and> x \<notin> dir_ids (G(d \<mapsto> f')) (Q(d := X'))"
    if "x \<in> insert BLOB_DB_ROOT_ID (insert mid (file_ids (G(d \<mapsto> f'))))" for x
    using that keep [of x] sub di by blast
  have "loose_ok (objs s') (G(d \<mapsto> f')) (Q(d := X')) mid"
    unfolding loose_ok_def
  proof (intro conjI ballI)
    show "mid \<noteq> BLOB_DB_ROOT_ID" using fl by (simp add: fs_flash_def loose_ok_def)
    show "objs s' x \<noteq> None" if "x \<in> file_ids (G(d \<mapsto> f'))" for x using that loose [of x] loose' [of x] by auto
    show "file_ids (G(d \<mapsto> f')) \<inter> dir_ids (G(d \<mapsto> f')) (Q(d := X')) = {}" using loose' by blast
    have "mid \<notin> file_ids G" "BLOB_DB_ROOT_ID \<notin> file_ids G" using fl by (auto simp: fs_flash_def loose_ok_def)
    then show "mid \<notin> file_ids (G(d \<mapsto> f')) \<union> dir_ids (G(d \<mapsto> f')) (Q(d := X'))"
      "BLOB_DB_ROOT_ID \<notin> file_ids (G(d \<mapsto> f')) \<union> dir_ids (G(d \<mapsto> f')) (Q(d := X'))" using files loose' by blast+
  qed
  moreover have "dirs_hold holds (objs s') (G(d \<mapsto> f')) (Q(d := X'))"
  proof -
    have other: "holds (objs s') e (Q e) (enc g) \<and> X' \<inter> Q e = {}" if "G e = Some g" "e \<noteq> d" for e g
    proof (rule holds_other [OF i st flash_dir_hold [OF fl that(1)]])
      show "Q d \<inter> Q e = {}" using dirs_apart [OF fl, of d e] f that by auto
    qed
    have pair: "Q e \<inter> Q e' = {}" if "e \<in> dom G" "e' \<in> dom G" "e \<noteq> e'" for e e' using dirs_apart [OF fl, of e e'] that by auto
    show ?thesis unfolding dirs_hold_def
    proof (intro conjI allI impI ballI)
      fix e g assume "(G(d \<mapsto> f')) e = Some g"
      then show "holds (objs s') e ((Q(d := X')) e) (enc g)" using h other [of e g] by (cases "e = d") auto
    next
      fix e e' assume "e \<in> dom (G(d \<mapsto> f'))" "e' \<in> dom (G(d \<mapsto> f'))" "e \<noteq> e'"
      then show "(Q(d := X')) e \<inter> (Q(d := X')) e' = {}" using other pair by (auto split: if_splits) blast+
    qed
  qed
  moreover have "registered F (objs s') mid" "objs s' mid = objs s mid"
    using flashD(1) [OF fl] loose' [of BLOB_DB_ROOT_ID] loose' [of mid] registry_frame [of "objs s'" "objs s"] by (simp_all add: registered_def)
  ultimately show "flash (objs s') mid (G(d \<mapsto> f')) (Q(d := X')) mt v1" using fl nm by (simp add: fs_flash_def)
  have "touches_only (insert mid (dir_ids G Q)) s s'"
    using owns_touch [OF st] sub by (auto simp: touch_def)
  moreover have "x \<in> dir_ids G Q \<or> nxt s \<le> unat x" if "x \<in> dir_ids (G(d \<mapsto> f')) (Q(d := X'))" for x
    using that di X' sub by blast
  ultimately show "fs_evolve {} mid s G Q s' (G(d \<mapsto> f')) (Q(d := X'))" by (simp add: fs_evolve_def)
qed

lemma file_ids_set: "x \<in> file_ids (set_entry G d n e) \<Longrightarrow> x \<in> file_ids G \<or> (\<exists>de. e = Some de \<and> \<not> is_dir de \<and> de_body_id de = x)"
  by (auto simp: file_ids_def split: if_splits)

lemma set_entry_upd: "G d = Some f \<Longrightarrow> set_entry G d n e = G(d \<mapsto> f(n := e))"
  by (simp add: set_entry_def)

lemma set_law:
  assumes i: "inv s" and fl: "flash (objs s) mid G Q mt v1" and d: "G d \<noteq> None" and lim: "nxt s + 3 \<le> ID_LIMIT"
    and run: "op_set Ops s d n (Some (dirent_bytes de)) DIRENT_SIZE = (r, s')"
    and nm: "names_ok F (set_entry G d n (Some de)) mt"
    and new: "\<not> is_dir de \<Longrightarrow> de_body_id de \<in> file_ids G \<or>
      objs s (de_body_id de) \<noteq> None \<and> de_body_id de \<notin> dir_ids G Q \<and> de_body_id de \<noteq> mid \<and> de_body_id de \<noteq> BLOB_DB_ROOT_ID"
  shows "\<exists>Q'. fs_evolve {} mid s G Q s' (effect r (set_entry G d n (Some de)) G) Q' \<and>
    flash (objs s') mid (effect r (set_entry G d n (Some de)) G) Q' mt v1 \<and> nxt s' \<le> nxt s + 3"
proof -
  from d obtain f where f: "G d = Some f" by auto
  have e: "set_entry G d n (Some de) = G(d \<mapsto> f(n \<mapsto> de))" using f by (simp add: set_entry_upd)
  obtain X' where st: "owns_step inv objs nxt (Q d) s X' s'" and nx: "nxt s' \<le> nxt s + 3"
    and h: "holds (objs s') d X' (effect r ((enc f)(n \<mapsto> dirent_bytes de)) (enc f))"
    using op_set_law [OF i flash_dir_hold [OF fl f] lim _ run] by (auto simp: c_bytes_def)
  show ?thesis
  proof (cases r)
    case (Inl er)
    then have h': "holds (objs s') d X' (enc f)" using h by simp
    have "G(d \<mapsto> f) = G" using f by (simp add: fun_upd_idem)
    with flash_dir [OF i fl f st h'] flashD(7) [OF fl] nx Inl show ?thesis by auto
  next
    case (Inr u)
    then have h': "holds (objs s') d X' (enc (f(n \<mapsto> de)))" using h by simp
    have fi: "x \<in> file_ids G \<or> objs s x \<noteq> None \<and> x \<notin> dir_ids G Q \<and> x \<noteq> mid \<and> x \<noteq> BLOB_DB_ROOT_ID"
      if "x \<in> file_ids (G(d \<mapsto> f(n \<mapsto> de)))" for x using file_ids_set [of x G d n "Some de"] that new by (auto simp: e)
    from flash_dir [OF i fl f st h' nm [unfolded e] fi] nx Inr show ?thesis by (auto simp: e)
  qed
qed

lemma del_law:
  assumes i: "inv s" and fl: "flash (objs s) mid G Q mt v1" and d: "G d \<noteq> None"
    and run: "op_del Ops s d n = (r, s')"
  shows "\<exists>Q'. fs_evolve {} mid s G Q s' (effect r (set_entry G d n None) G) Q' \<and>
    flash (objs s') mid (effect r (set_entry G d n None) G) Q' mt v1 \<and> nxt s' = nxt s"
proof -
  from d obtain f where f: "G d = Some f" by auto
  have e: "set_entry G d n None = G(d \<mapsto> f(n := None))" using f by (simp add: set_entry_upd)
  obtain X' where st: "owns_step inv objs nxt (Q d) s X' s'" and nx: "nxt s' = nxt s"
    and h: "holds (objs s') d X' (effect r ((enc f)(n := None)) (enc f))"
    using op_del_law [OF i flash_dir_hold [OF fl f] run] by auto
  show ?thesis
  proof (cases r)
    case (Inl er)
    then have h': "holds (objs s') d X' (enc f)" using h by simp
    have "G(d \<mapsto> f) = G" using f by (simp add: fun_upd_idem)
    with flash_dir [OF i fl f st h'] flashD(7) [OF fl] nx Inl show ?thesis by auto
  next
    case (Inr u)
    then have h': "holds (objs s') d X' (enc (f(n := None)))" using h by simp
    have fi: "x \<in> file_ids G \<or> objs s x \<noteq> None \<and> x \<notin> dir_ids G Q \<and> x \<noteq> mid \<and> x \<noteq> BLOB_DB_ROOT_ID"
      if "x \<in> file_ids (G(d \<mapsto> f(n := None)))" for x using file_ids_set [of x G d n None] that by (auto simp: e)
    from flash_dir [OF i fl f st h' names_del [OF flashD(7) [OF fl] d, of n, unfolded e] fi] nx Inr show ?thesis by (auto simp: e)
  qed
qed

section \<open>The meta object\<close>

lemma meta_read_law:
  assumes "inv s" "flash (objs s) mid G Q mt v1"
  shows "meta_read F s mid = Inr (mt, v1)"
proof (cases v1)
  case True
  note r = meta_roundtrip_v1 [OF flashD(2) [OF assms(2)] flashD(3) [OF assms(2) True]]
  let ?n = "BLOBFS_NAME_MAX F"
  have sz: "META_V1_SIZE ?n < META_SIZE ?n" "META_V1_SIZE ?n \<noteq> 0" by (simp_all add: META_V1_SIZE_def META_SIZE_def)
  have "objs s mid = Some (fs_meta_v1_bytes ?n mt)" using flashD(4) [OF assms(2)] True by (simp add: meta_image_def)
  then have "api_get A s mid (META_SIZE ?n) = Inr (fs_meta_v1_bytes ?n mt)" using sz r(2) by (simp add: get_law [OF assms(1)])
  with r sz True show ?thesis by (auto simp: meta_read_def Let_def)
next
  case False
  note r = meta_roundtrip_fs [OF flashD(2) [OF assms(2)]]
  let ?n = "BLOBFS_NAME_MAX F"
  have sz: "META_SIZE ?n \<noteq> 0" by (simp add: META_SIZE_def)
  have "objs s mid = Some (fs_meta_bytes ?n mt)" using flashD(4) [OF assms(2)] False by (simp add: meta_image_def)
  then have "api_get A s mid (META_SIZE ?n) = Inr (fs_meta_bytes ?n mt)" using r(2) by (simp add: get_law [OF assms(1)])
  with r sz False show ?thesis by (auto simp: meta_read_def Let_def)
qed

lemma meta_write_law:
  assumes i: "inv s" and fl: "flash (objs s) mid G Q mt v1" and mid: "fs_meta_id st = mid"
    and wf: "meta_wf (BLOBFS_NAME_MAX F) mt'" and nm: "names_ok F G mt'"
    and run: "meta_write F (st, s) mt' = (r, (st', s'))"
  shows "fs_evolve {} mid s G Q s' G Q \<and> nxt s' = nxt s \<and>
    (case r of Inl _ \<Rightarrow> st' = st \<and> flash (objs s') mid G Q mt v1
     | Inr _ \<Rightarrow> st' = st\<lparr>fs_meta_v1 := False\<rparr> \<and> flash (objs s') mid G Q mt' False)"
proof -
  obtain r1 s1 where u: "api_update A s mid (fs_meta_bytes (BLOBFS_NAME_MAX F) mt') = (r1, s1)" by fastforce
  have s1: "s' = s1" and r1: "r1 = Inl e \<Longrightarrow> r = Inl e \<and> st' = st" "r1 = Inr x \<Longrightarrow> r = Inr () \<and> st' = st\<lparr>fs_meta_v1 := False\<rparr>" for e x
    using run u mid by (auto simp: meta_write_def split: sum.splits)
  note ul = update_law [OF i u]
  have t: "fs_evolve {} mid s G Q s1 G Q"
    using ul by (cases r1) (auto simp: fs_evolve_def touch_def)
  show ?thesis
  proof (cases r1)
    case (Inl e)
    with ul r1(1) fl t s1 show ?thesis by simp
  next
    case (Inr x)
    have ne: "y \<noteq> mid" if "y \<in> insert BLOB_DB_ROOT_ID (file_ids G \<union> dir_ids G Q)" for y
      using that fl by (auto simp: fs_flash_def loose_ok_def)
    have o: "objs s1 = (objs s)(mid \<mapsto> fs_meta_bytes (BLOBFS_NAME_MAX F) mt')" using ul Inr by simp
    have "registered F (objs s1) mid" using flashD(1) [OF fl] ne registry_frame [of "objs s1" "objs s"] by (auto simp: registered_def o)
    moreover have "dirs_hold holds (objs s1) G Q"
    proof -
      have "holds (objs s1) d (Q d) (enc f)" if "G d = Some f" for d f
      proof (rule holds_frame [OF flash_dir_hold [OF fl that]])
        show "objs s1 x = objs s x" if "x \<in> Q d" for x
          using ne [of x] dir_ids_in [of G d f Q] \<open>G d = Some f\<close> that by (auto simp: o)
      qed
      then show ?thesis using flashD(5) [OF fl] by (simp add: dirs_hold_def)
    qed
    moreover have "loose_ok (objs s1) G Q mid" using flashD(6) [OF fl] by (auto simp: loose_ok_def o)
    ultimately have "flash (objs s1) mid G Q mt' False" using wf nm by (simp add: fs_flash_def o meta_image_def)
    with ul r1(2) [OF Inr] t s1 show ?thesis by simp
  qed
qed

section \<open>Recovery\<close>

text \<open>A state that stands for the name space \<open>N\<close>: its own, or one that recovery turns into it.\<close>

definition stands :: "'s \<Rightarrow> u64 \<Rightarrow> dirs \<Rightarrow> u64 \<Rightarrow> dirs \<Rightarrow> (u64 \<Rightarrow> u64 set) \<Rightarrow> blobfs_meta \<Rightarrow> bool \<Rightarrow> bool" where
  "stands s mid N root G Q mt v1 \<longleftrightarrow> flash (objs s) mid G Q mt v1 \<and> settled G mt = N \<and> fm_dir_root mt = root"

lemma names_clear:
  assumes "names_ok F G mt" "\<not> moving G mt"
  shows "names_ok F G (intent_clear F mt)"
  using names_settled [OF assms(1), of "intent_clear F mt"] assms(2) by (simp add: settled_def)

lemma clear_law:
  assumes i: "inv s" and fl: "flash (objs s) mid G Q mt v1" and mid: "fs_meta_id st = mid" and mv: "\<not> moving G mt"
    and run: "meta_write F (st, s) (intent_clear F mt) = (r, (st', s'))"
  shows "fs_evolve {} mid s G Q s' G Q \<and> nxt s' = nxt s \<and>
    (case r of Inl _ \<Rightarrow> st' = st \<and> flash (objs s') mid G Q mt v1
     | Inr _ \<Rightarrow> st' = st\<lparr>fs_meta_v1 := False\<rparr> \<and> flash (objs s') mid G Q (intent_clear F mt) False)"
  by (rule meta_write_law [OF i fl mid meta_clear_wf [OF flashD(2) [OF fl]] names_clear [OF flashD(7) [OF fl] mv] run])

lemma settled_idem: "\<not> moving (settled G mt) mt"
  by (auto simp: settled_def moving_def)

lemma drop_from_law:
  assumes i: "inv s" and fl: "flash (objs s) mid G Q mt v1" and inf: "in_flight mt"
    and to: "map_option de_body_id (entry G (fm_to_dir mt) (to_name mt)) = Some (fm_rename_body mt)"
    and run: "drop_from F (st, s) mt = (r, (st', s'))"
  shows "\<exists>Q'. fs_evolve {} mid s G Q s' (effect r (settled G mt) G) Q' \<and>
    flash (objs s') mid (effect r (settled G mt) G) Q' mt v1 \<and> nxt s' = nxt s \<and> st' = st"
proof -
  note it = names_intent [OF flashD(7) [OF fl] inf]
  note g = dirent_get_law [OF i fl it(8,1)]
  show ?thesis
  proof (cases "moving G mt")
    case True
    then obtain de where de: "entry G (fm_from_dir mt) (from_name mt) = Some de" "de_body_id de = fm_rename_body mt"
      by (auto simp: moving_def)
    obtain r1 s1 where d: "op_del Ops s (fm_from_dir mt) (from_name mt) = (r1, s1)" by fastforce
    have "r = r1" "s' = s1" "st' = st" using run g de d by (simp_all add: drop_from_def)
    with del_law [OF i fl it(8) d] True show ?thesis by (simp add: settled_def)
  next
    case False
    then have "entry G (fm_from_dir mt) (from_name mt) = Some de \<Longrightarrow> de_body_id de \<noteq> fm_rename_body mt" for de
      using inf to by (auto simp: moving_def)
    then have "r = Inr ()" "s' = s" "st' = st" using run g by (auto simp: drop_from_def split: option.splits if_splits)
    with False fl evolve_refl [OF i] show ?thesis by (intro exI [of _ Q]) (simp add: settled_def)
  qed
qed

lemma recover_law:
  assumes i: "inv s" and fl: "flash (objs s) mid G Q mt v1" and inf: "in_flight mt" and mid: "fs_meta_id st = mid"
    and run: "rename_recover F (st, s) mt = (r, (st', s'))"
  shows "\<exists>G' Q'. fs_evolve {} mid s G Q s' G' Q' \<and> nxt s' = nxt s \<and>
    (case r of Inl _ \<Rightarrow> st' = st \<and> stands s' mid (settled G mt) (fm_dir_root mt) G' Q' mt v1
     | Inr _ \<Rightarrow> st' = st\<lparr>fs_meta_v1 := False\<rparr> \<and> G' = settled G mt \<and> flash (objs s') mid G' Q' (intent_clear F mt) False)"
proof -
  note it = names_intent [OF flashD(7) [OF fl] inf]
  have todir: "G (fm_to_dir mt) \<noteq> None" using it(6,8) by simp
  note g = dirent_get_law [OF i fl todir it(2)]
  have lens: "fm_from_len mt \<noteq> 0" "fm_to_len mt \<noteq> 0" using it(1,2) [THEN name_fitsD] by (auto simp: from_name_def to_name_def)
  let ?first = "case dirent_get F s (fm_to_dir mt) (to_name mt) of
      Inr de \<Rightarrow> if de_body_id de = fm_rename_body mt then drop_from F (st, s) mt else (Inr (), (st, s))
    | Inl e \<Rightarrow> if e = ENOENT then (Inr (), (st, s)) else (Inl e, (st, s))"
  obtain r1 st1 s1 where f1: "?first = (r1, (st1, s1))" by (rule prod_cases3)
  have run': "seqs (r1, (st1, s1)) (\<lambda>_ t. meta_write F t (intent_clear F mt)) = (r, (st', s'))"
    using run lens it(3,4,6,7) f1 by (simp add: rename_recover_def not_less)
  have first: "\<exists>Q1. fs_evolve {} mid s G Q s1 (effect r1 (settled G mt) G) Q1 \<and>
      flash (objs s1) mid (effect r1 (settled G mt) G) Q1 mt v1 \<and> nxt s1 = nxt s \<and> st1 = st"
  proof (cases "map_option de_body_id (entry G (fm_to_dir mt) (to_name mt)) = Some (fm_rename_body mt)")
    case True
    then have "drop_from F (st, s) mt = (r1, (st1, s1))" using f1 g by (auto split: option.splits)
    from drop_from_law [OF i fl inf True this] show ?thesis .
  next
    case False
    then have "r1 = Inr ()" "st1 = st" "s1 = s" using f1 g by (auto split: option.splits if_splits)
    moreover have "settled G mt = G" using False by (auto simp: settled_def moving_def)
    ultimately show ?thesis using fl evolve_refl [OF i] by (intro exI [of _ Q]) simp
  qed
  then obtain Q1 where q1: "fs_evolve {} mid s G Q s1 (effect r1 (settled G mt) G) Q1"
    "flash (objs s1) mid (effect r1 (settled G mt) G) Q1 mt v1" "nxt s1 = nxt s" "st1 = st" by blast
  show ?thesis
  proof (cases r1)
    case (Inl e)
    then have "r = Inl e" "st' = st" "s' = s1" using run' q1(4) by simp_all
    with q1 Inl show ?thesis by (intro exI [of _ G] exI [of _ Q1]) (simp add: stands_def)
  next
    case (Inr u)
    have w: "meta_write F (st, s1) (intent_clear F mt) = (r, (st', s'))" using run' Inr q1(4) by simp
    have fl1: "flash (objs s1) mid (settled G mt) Q1 mt v1" and e1: "fs_evolve {} mid s G Q s1 (settled G mt) Q1" using q1 Inr by simp_all
    have i1: "inv s1" using evolve_inv [OF e1] by blast
    note c = clear_law [OF i1 fl1 mid settled_idem w, THEN conjunct1] clear_law [OF i1 fl1 mid settled_idem w, THEN conjunct2]
    have "settled (settled G mt) mt = settled G mt" using settled_idem [of G mt] by (simp add: settled_def [of "settled G mt"])
    with c(2) evolve_trans [OF e1 c(1)] q1(3) show ?thesis
      by (intro exI [of _ "settled G mt"] exI [of _ Q1]) (cases r; simp add: stands_def)
  qed
qed

text \<open>What a session may rely on, and that a call which settles or fails keeps it.\<close>

lemma settle_law:
  assumes i: "inv s" and fl: "flash (objs s) mid G Q mt v1" and st: "fs_session st mid mt v1"
    and run: "intent_settle F (st, s) = (r, (st', s'))"
  shows "\<exists>G' Q' mt' v1'. fs_evolve {} mid s G Q s' G' Q' \<and> nxt s' = nxt s \<and>
    stands s' mid (settled G mt) (fm_dir_root mt) G' Q' mt' v1' \<and> fs_session st' mid mt' v1' \<and> (r = Inr () \<longrightarrow> \<not> in_flight mt')"
proof (cases "fs_intent_pending st \<and> in_flight mt")
  case False
  have rd: "meta_read F s (fs_meta_id st) = Inr (mt, v1)" using meta_read_law [OF i fl] st by (simp add: fs_session_def)
  have nf: "\<not> in_flight mt" using False st by (auto simp: fs_session_def)
  then have "r = Inr ()" "s' = s" "fs_session st' mid mt v1"
    using run st rd by (auto simp: intent_settle_def in_flight_def fs_session_def split: if_splits)
  with fl nf evolve_refl [OF i] show ?thesis by (intro exI [of _ G] exI [of _ Q] exI [of _ mt] exI [of _ v1]) (simp add: stands_def)
next
  case True
  have rd: "meta_read F s (fs_meta_id st) = Inr (mt, v1)" and mid: "fs_meta_id st = mid"
    using meta_read_law [OF i fl] st by (simp_all add: fs_session_def)
  obtain r1 st1 s1 where rr: "rename_recover F (st, s) mt = (r1, (st1, s1))" by (rule prod_cases3)
  have inf: "in_flight mt" using True by blast
  from recover_law [OF i fl inf mid rr] obtain G' Q' where q: "fs_evolve {} mid s G Q s1 G' Q'" "nxt s1 = nxt s"
    "case r1 of Inl _ \<Rightarrow> st1 = st \<and> stands s1 mid (settled G mt) (fm_dir_root mt) G' Q' mt v1
     | Inr _ \<Rightarrow> st1 = st\<lparr>fs_meta_v1 := False\<rparr> \<and> G' = settled G mt \<and> flash (objs s1) mid G' Q' (intent_clear F mt) False"
    by (elim exE conjE) (rule that)
  show ?thesis
  proof (cases r1)
    case (Inl e)
    then have "r = Inl e" "st' = st1" "s' = s1" using run rd rr True by (simp_all add: intent_settle_def in_flight_def)
    with q Inl st show ?thesis by (intro exI [of _ G'] exI [of _ Q'] exI [of _ mt] exI [of _ v1]) simp
  next
    case (Inr u)
    then have "r = Inr ()" "st' = st1\<lparr>fs_intent_pending := False\<rparr>" "s' = s1" using run rd rr True by (simp_all add: intent_settle_def in_flight_def)
    with q Inr st show ?thesis
      by (intro exI [of _ G'] exI [of _ Q'] exI [of _ "intent_clear F mt"] exI [of _ False]) (auto simp: stands_def fs_session_def)
  qed
qed

end

end
