(* ===== verification/Blobfs_Calls.thy ===== *)
theory Blobfs_Calls
  imports Blobfs_Ops
begin

text \<open>
  The calls of blobfs as wholes: creating, removing and renaming entries, mounting, and the contents of
  files.
\<close>

context fs_store
begin

section \<open>Fresh ids\<close>

lemma body_bound:
  assumes i: "inv s" and fl: "flash (objs s) mid G Q mt v1" and e: "entry G d n = Some de"
  shows "unat (de_body_id de) < nxt s"
proof (cases "is_dir de")
  case True
  then have "G (de_body_id de) \<noteq> None" using names_entry(4) [OF flashD(7) [OF fl] e] by blast
  then show ?thesis using dir_bound(2) [OF i fl dir_root_in [OF fl]] by blast
next
  case False
  then have "de_body_id de \<in> file_ids G" using e by (auto simp: file_ids_def)
  then show ?thesis using loose_bound(2) [OF i fl] by blast
qed

lemma fresh_apart:
  assumes i: "inv s" and fl: "flash (objs s) mid G Q mt v1" and x: "nxt s \<le> unat x"
  shows "x \<noteq> fm_dir_root mt" "x \<notin> dir_ids G Q" "x \<notin> file_ids G" "x \<noteq> mid" "x \<noteq> BLOB_DB_ROOT_ID" "G x = None"
    "entry G d n = Some de \<Longrightarrow> de_body_id de \<noteq> x"
proof -
  show di: "x \<notin> dir_ids G Q" using dir_bound(2) [OF i fl, of x] x by auto
  have lb: "y \<in> insert BLOB_DB_ROOT_ID (insert mid (file_ids G)) \<Longrightarrow> x \<noteq> y" for y using loose_bound(2) [OF i fl, of y] x by auto
  show "x \<notin> file_ids G" "x \<noteq> mid" "x \<noteq> BLOB_DB_ROOT_ID" using lb by blast+
  show g: "G x = None" using dir_root_in [OF fl, of x] di by blast
  show "x \<noteq> fm_dir_root mt" using g flashD(7) [OF fl] by (auto simp: names_ok_def)
  show "entry G d n = Some de \<Longrightarrow> de_body_id de \<noteq> x" using body_bound [OF i fl] x by fastforce
qed

lemma settled_put:
  assumes "entry G d n = None" "\<And>d' n' de'. entry G d' n' = Some de' \<Longrightarrow> de_body_id de' \<noteq> de_body_id de"
    and "in_flight mt \<Longrightarrow> fm_to_dir mt = fm_from_dir mt \<and> from_name mt \<noteq> to_name mt"
  shows "settled (set_entry G d n (Some de)) mt = set_entry (settled G mt) d n (Some de)"
proof -
  have no: "map_option de_body_id (entry G d' n') \<noteq> Some (de_body_id de)" for d' n' using assms(2) [of d' n'] by auto
  have "moving (set_entry G d n (Some de)) mt = moving G mt"
  proof (cases "in_flight mt \<and> (d = fm_to_dir mt \<and> n = to_name mt \<or> d = fm_from_dir mt \<and> n = from_name mt)")
    case True
    then have "\<not> moving G mt" using assms(1) by (auto simp: moving_def)
    moreover have "\<not> moving (set_entry G d n (Some de)) mt"
      using True assms(3) no [of "fm_from_dir mt" "from_name mt"] no [of "fm_to_dir mt" "to_name mt"]
      by (auto simp: moving_def split: if_splits)
    ultimately show ?thesis by blast
  next
    case False
    then show ?thesis by (cases "in_flight mt") (auto simp: moving_def)
  qed
  moreover have "set_entry (set_entry G d n (Some de)) d' n' None = set_entry (set_entry G d' n' None) d n (Some de)"
    if "\<not> (d' = d \<and> n' = n)" for d' n' using that by (auto simp: set_entry_def fun_eq_iff split: option.splits)
  moreover have "\<not> (fm_from_dir mt = d \<and> from_name mt = n)" if "moving G mt" using that assms(1) by (auto simp: moving_def)
  ultimately show ?thesis by (auto simp: settled_def)
qed

section \<open>Creating\<close>

lemma free_name_law:
  assumes "inv s" "flash (objs s) mid G Q mt v1" "fs_session st mid mt v1"
  shows "walk_to_free_name F st s (Some p) =
    (case ns_where F G (fm_dir_root mt) p of Inl e \<Rightarrow> (where0, Inl e)
     | Inr w \<Rightarrow> (w, if w_name w = [] \<or> entry G (w_dir w) (w_name w) \<noteq> None then Inl EEXIST else Inr ()))"
proof (cases "ns_where F G (fm_dir_root mt) p")
  case (Inl e)
  with walk_ns [OF assms, of p] show ?thesis by (simp add: walk_to_free_name_def)
next
  case (Inr w)
  note wd = ns_where_dir [OF flashD(7) [OF assms(2)] Inr]
  have "dirent_get F s (w_dir w) (w_name w) = (case entry G (w_dir w) (w_name w) of None \<Rightarrow> Inl ENOENT | Some de \<Rightarrow> Inr de)"
    if "w_name w \<noteq> []" by (rule dirent_get_law [OF assms(1,2) wd(1) wd(2) [OF that]])
  with walk_ns [OF assms, of p] Inr show ?thesis
    by (cases "entry G (w_dir w) (w_name w)") (auto simp: walk_to_free_name_def)
qed

lemma create_law:
  assumes i: "inv s" and fl: "flash (objs s) mid G Q mt v1" and st: "fs_session st mid mt v1" and lim: "nxt s + 4 \<le> ID_LIMIT"
    and run: "blobfs_create F (st, s) (Some p) = (r, (st', s'))"
  shows "st' = st \<and> (\<exists>G' Q'. fs_evolve {} mid s G Q s' G' Q' \<and> flash (objs s') mid G' Q' mt v1 \<and> nxt s' \<le> nxt s + 4 \<and>
    (case r of Inl _ \<Rightarrow> G' = G
     | Inr _ \<Rightarrow> \<exists>w x. free_at F G (fm_dir_root mt) p w \<and> \<not> w_want_dir w \<and> nxt s \<le> unat x \<and>
         G' = set_entry G (w_dir w) (w_name w) (Some (new_dirent BLOBFS_TYPE_FILE x)) \<and> objs s' x = Some []))"
proof (cases "\<exists>w. free_at F G (fm_dir_root mt) p w \<and> \<not> w_want_dir w")
  case False
  with run free_name_law [OF i fl st, of p] have "st' = st" "s' = s" "\<exists>e. r = Inl e"
    by (auto simp: blobfs_create_def free_at_def split: sum.splits if_splits)
  with fl evolve_refl [OF i] show ?thesis by (intro conjI exI [of _ G] exI [of _ Q]) auto
next
  case True
  then obtain w where w: "free_at F G (fm_dir_root mt) p w" "\<not> w_want_dir w" by blast
  let ?d = "w_dir w" and ?n = "w_name w"
  note wd = ns_where_dir [OF flashD(7) [OF fl], of p w]
  have G: "G ?d \<noteq> None" "name_fits F ?n" using w(1) wd by (auto simp: free_at_def)
  have fn: "walk_to_free_name F st s (Some p) = (w, Inr ())" using free_name_law [OF i fl st, of p] w(1) by (simp add: free_at_def)
  obtain x s1 where a: "api_alloc_id A s = (x, s1)" by fastforce
  have al: "inv s1" "objs s1 = objs s" "x = 0 \<and> nxt s1 = nxt s \<or> unat x = nxt s \<and> nxt s1 = Suc (nxt s)"
    using alloc_law [OF i _ a] lim by auto
  have e1: "fs_evolve {} mid s G Q s1 G Q" using al by (auto simp: fs_evolve_def touch_def)
  show ?thesis
  proof (cases "x = 0")
    case True
    then have "r = Inl EIO" "st' = st" "s' = s1" using run fn a w(2) by (simp_all add: blobfs_create_def)
    with e1 fl al show ?thesis by (intro conjI exI [of _ G] exI [of _ Q]) auto
  next
    case False
    then have x: "unat x = nxt s" "nxt s1 = Suc (nxt s)" using al(3) by auto
    note fr = fresh_apart [OF i fl, of x] x
    obtain r2 s2 where u: "api_update A s1 x [] = (r2, s2)" by fastforce
    note ul = update_law [OF al(1) u]
    have e2: "fs_evolve {} mid s G Q s2 G Q"
      using ul al x by (cases r2) (auto simp: fs_evolve_def touch_def)
    then have fl2: "flash (objs s2) mid G Q mt v1"
      using ul al x fr by (intro flash_touch [OF i fl, of "{}"]) (cases r2; auto simp: touch_def)+
    show ?thesis
    proof (cases r2)
      case (Inl e)
      then have "r = Inl e" "st' = st" "s' = s2" using run fn a w(2) False u by (simp_all add: blobfs_create_def)
      with e2 fl2 ul x show ?thesis by (intro conjI exI [of _ G] exI [of _ Q]) auto
    next
      case (Inr y)
      let ?de = "new_dirent BLOBFS_TYPE_FILE x"
      obtain r3 s3 where o: "op_set Ops s2 ?d ?n (Some (dirent_bytes ?de)) DIRENT_SIZE = (r3, s3)" by fastforce
      have rs: "r = r3" "st' = st" "s' = s3" using run fn a w(2) False u Inr o by (simp_all add: blobfs_create_def)
      have bx: "objs s2 x = Some []" using ul Inr by simp
      have nm: "names_ok F (set_entry G ?d ?n (Some ?de)) mt"
        by (rule names_put [OF flashD(7) [OF fl] G(1)]) (use fr G(2) in auto)
      obtain Q' where q: "fs_evolve {} mid s2 G Q s3 (effect r3 (set_entry G ?d ?n (Some ?de)) G) Q'"
        "flash (objs s3) mid (effect r3 (set_entry G ?d ?n (Some ?de)) G) Q' mt v1" "nxt s3 \<le> nxt s2 + 3"
        using set_law [OF _ fl2 G(1) _ o nm] ul lim x bx fr by auto
      have "objs s3 x = Some []"
        using q(1) ul x bx fr by (auto simp: fs_evolve_def touch_def)
      then have out: "case r of Inl _ \<Rightarrow> effect r3 (set_entry G ?d ?n (Some ?de)) G = G
        | Inr _ \<Rightarrow> \<exists>w x. free_at F G (fm_dir_root mt) p w \<and> \<not> w_want_dir w \<and> nxt s \<le> unat x \<and>
            effect r3 (set_entry G ?d ?n (Some ?de)) G = set_entry G (w_dir w) (w_name w) (Some (new_dirent BLOBFS_TYPE_FILE x)) \<and> objs s' x = Some []"
        unfolding rs using w x by (cases r3) (simp, simp, metis order_refl)
      have "nxt s3 \<le> nxt s + 4" using q(3) ul x by simp
      with q(2) evolve_trans [OF e2 q(1)] out show ?thesis unfolding rs by blast
    qed
  qed
qed

lemma flash_grow:
  assumes i: "inv s" and fl: "flash (objs s) mid G Q mt v1" and x: "nxt s \<le> unat x" and t: "touches_only {} s s'"
    and h: "holds (objs s') x X Map.empty" and X: "\<And>y. y \<in> X \<Longrightarrow> nxt s \<le> unat y"
  shows "flash (objs s') mid (G(x \<mapsto> Map.empty)) (Q(x := X)) mt v1" "fs_evolve {} mid s G Q s' (G(x \<mapsto> Map.empty)) (Q(x := X))"
proof -
  note fr = fresh_apart [OF i fl x]
  have fl': "flash (objs s') mid G Q mt v1" by (rule flash_touch [OF i fl t]) simp
  have e: "entry (G(x \<mapsto> Map.empty)) = entry G" using fr(6) by (auto simp: entry_def fun_eq_iff)
  have fi: "file_ids (G(x \<mapsto> Map.empty)) = file_ids G" by (simp add: file_ids_def e)
  have di: "dir_ids (G(x \<mapsto> Map.empty)) (Q(x := X)) = X \<union> dir_ids G Q"
    using fr(6) by (auto simp: dir_ids_def split: if_splits)
  have new: "X \<inter> insert BLOB_DB_ROOT_ID (insert mid (file_ids G \<union> dir_ids G Q)) = {}"
    using X fresh_apart(2-5) [OF i fl] by blast
  have "dirs_hold holds (objs s') (G(x \<mapsto> Map.empty)) (Q(x := X))"
    unfolding dirs_hold_def
  proof (intro conjI allI impI ballI)
    fix d f assume "(G(x \<mapsto> Map.empty)) d = Some f"
    then show "holds (objs s') d ((Q(x := X)) d) (enc f)"
      using h flash_dir_hold [OF fl'] by (cases "d = x") auto
  next
    fix d d' assume "d \<in> dom (G(x \<mapsto> Map.empty))" "d' \<in> dom (G(x \<mapsto> Map.empty))" "d \<noteq> d'"
    moreover have "X \<inter> Q e = {}" if "e \<in> dom G" for e
      using new that by (auto simp: dir_ids_def)
    ultimately show "(Q(x := X)) d \<inter> (Q(x := X)) d' = {}"
      using dirs_apart [OF fl', of d d'] by (cases "d = x"; cases "d' = x") (auto simp: Int_commute)
  qed
  moreover have "loose_ok (objs s') (G(x \<mapsto> Map.empty)) (Q(x := X)) mid"
    using flashD(6) [OF fl'] new by (auto simp: loose_ok_def fi di)
  moreover have "names_ok F (G(x \<mapsto> Map.empty)) mt" by (rule names_grow [OF flashD(7) [OF fl] fr(6)])
  ultimately show "flash (objs s') mid (G(x \<mapsto> Map.empty)) (Q(x := X)) mt v1" using fl' by (simp add: fs_flash_def)
  show "fs_evolve {} mid s G Q s' (G(x \<mapsto> Map.empty)) (Q(x := X))"
    using t X by (auto simp: fs_evolve_def di touch_def)
qed

lemma flash_shrink:
  assumes fl: "flash m mid G Q mt v1" and nm: "names_ok F (G(x := None)) mt"
  shows "flash m mid (G(x := None)) Q mt v1" "dir_ids (G(x := None)) Q \<subseteq> dir_ids G Q" "file_ids (G(x := None)) \<subseteq> file_ids G"
proof -
  show di: "dir_ids (G(x := None)) Q \<subseteq> dir_ids G Q" by (auto simp: dir_ids_def split: if_splits)
  have "entry (G(x := None)) d n = Some de \<Longrightarrow> entry G d n = Some de" for d n de by (auto simp: entry_def split: if_splits)
  then show fi: "file_ids (G(x := None)) \<subseteq> file_ids G" unfolding file_ids_def by blast
  have "dirs_hold holds m (G(x := None)) Q" using flashD(5) [OF fl] by (auto simp: dirs_hold_def split: if_splits)
  moreover have "loose_ok m (G(x := None)) Q mid" using flashD(6) [OF fl] di fi by (auto simp: loose_ok_def)
  ultimately show "flash m mid (G(x := None)) Q mt v1" using fl nm by (simp add: fs_flash_def)
qed

text \<open>A directory that no entry names is destroyed, or left to its fate.\<close>

lemma destroy_law:
  assumes i: "inv s" and fl: "flash (objs s) mid G Q mt v1" and x: "G x = Some f" and nm: "names_ok F (G(x := None)) mt"
    and run: "op_destroy Ops s x = (r, s')"
  shows "flash (objs s') mid (G(x := None)) Q mt v1" "fs_evolve {} mid s G Q s' (G(x := None)) Q"
proof -
  have st: "owns_step inv objs nxt (Q x) s {} s'" using op_destroy_law [OF i flash_dir_hold [OF fl x] run] by blast
  note sh = flash_shrink [OF fl nm]
  have sub: "Q x \<subseteq> dir_ids G Q" using dir_ids_in [of G x f Q] x by simp
  have "Q x \<inter> dir_ids (G(x := None)) Q = {}" using dirs_apart [OF fl, of x] x by (auto simp: dir_ids_def split: if_splits)
  moreover have "Q x \<inter> insert BLOB_DB_ROOT_ID (insert mid (file_ids (G(x := None)))) = {}"
    using sub sh(3) flashD(6) [OF fl] by (auto simp: loose_ok_def)
  ultimately show "flash (objs s') mid (G(x := None)) Q mt v1"
    by (intro flash_touch [OF i sh(1) owns_touch [OF st]]) auto
  show "fs_evolve {} mid s G Q s' (G(x := None)) Q"
    using owns_touch [OF st] sub sh(2) by (auto simp: fs_evolve_def touch_def)
qed

lemma upgrade_law:
  assumes i: "inv s" and fl: "flash (objs s) mid G Q mt v1" and st: "fs_session st mid mt v1"
    and run: "meta_upgrade F (st, s) = (r, (st', s'))"
  shows "\<exists>v1'. fs_evolve {} mid s G Q s' G Q \<and> nxt s' = nxt s \<and> flash (objs s') mid G Q mt v1' \<and> fs_session st' mid mt v1'"
proof (cases v1)
  case False
  then have "st' = st" "s' = s" using run st by (simp_all add: meta_upgrade_def fs_session_def)
  with fl st evolve_refl [OF i] show ?thesis by blast
next
  case True
  have mid: "fs_meta_id st = mid" using st by (simp add: fs_session_def)
  have w: "meta_write F (st, s) mt = (r, (st', s'))"
    using run True st meta_read_law [OF i fl] by (simp add: meta_upgrade_def fs_session_def)
  from meta_write_law [OF i fl mid flashD(2) [OF fl] flashD(7) [OF fl] w] st show ?thesis
    by (cases r) (auto simp: fs_session_def)
qed

definition mkdir_ready :: "'s \<Rightarrow> bool" where
  "mkdir_ready s \<longleftrightarrow> nxt s + 4 + span \<le> ID_LIMIT \<and> (\<forall>s2. inv s2 \<and> nxt s2 = Suc (nxt s) \<longrightarrow> ready s2 (Some (dir_config F)))"

text \<open>A directory built at a fresh id, for mkdir and for the first mount.\<close>

lemma dir_create_law:
  assumes i: "inv s" and fl: "flash (objs s) mid G Q mt v1" and rd: "mkdir_ready s"
    and a: "api_alloc_id A s = (x, s1)" "x \<noteq> 0"
  shows "\<exists>r s2. dir_create F s1 x = Some (r, s2) \<and> inv s2 \<and> nxt s2 \<le> Suc (nxt s) + span \<and> nxt s \<le> unat x \<and>
    (case r of Inl _ \<Rightarrow> fs_evolve {} mid s G Q s2 G Q \<and> flash (objs s2) mid G Q mt v1
     | Inr _ \<Rightarrow> \<exists>X. fs_evolve {} mid s G Q s2 (G(x \<mapsto> Map.empty)) (Q(x := X)) \<and> flash (objs s2) mid (G(x \<mapsto> Map.empty)) (Q(x := X)) mt v1)"
proof -
  have lt: "nxt s < ID_LIMIT" using rd by (simp add: mkdir_ready_def)
  note al = fresh_id [OF i lt a]
  have "unat x < nxt s1" "ready s1 (Some (dir_config F))" using al rd by (simp_all add: mkdir_ready_def)
  from op_create_law [OF al(1) this] obtain r s2 where c: "dir_create F s1 x = Some (r, s2)" "inv s2" "nxt s1 \<le> nxt s2" "nxt s2 \<le> nxt s1 + span"
      "\<And>y. unat y < nxt s1 \<Longrightarrow> y \<noteq> x \<Longrightarrow> objs s2 y = objs s1 y"
      "case r of Inl _ \<Rightarrow> objs s2 x = objs s1 x
       | Inr _ \<Rightarrow> \<exists>X. holds (objs s2) x X Map.empty \<and> (\<forall>y \<in> X. y = x \<or> nxt s1 \<le> unat y)"
    by (auto simp: dir_create_def)
  have t: "touches_only {} s s2"
  proof -
    have "objs s2 y = objs s y" if "unat y < nxt s" for y using c(5) [of y] that al by (cases "y = x") auto
    then show ?thesis using c(2,3) al by (simp add: touch_def)
  qed
  have "case r of Inl _ \<Rightarrow> fs_evolve {} mid s G Q s2 G Q \<and> flash (objs s2) mid G Q mt v1
     | Inr _ \<Rightarrow> \<exists>X. fs_evolve {} mid s G Q s2 (G(x \<mapsto> Map.empty)) (Q(x := X)) \<and> flash (objs s2) mid (G(x \<mapsto> Map.empty)) (Q(x := X)) mt v1"
  proof (cases r)
    case (Inl e)
    have "fs_evolve {} mid s G Q s2 G Q" using t by (auto simp: fs_evolve_def touch_def)
    with Inl flash_touch [OF i fl t] show ?thesis by simp
  next
    case (Inr u)
    with c(6) obtain X where X: "holds (objs s2) x X Map.empty" "\<And>y. y \<in> X \<Longrightarrow> y = x \<or> nxt s1 \<le> unat y" by auto
    have "nxt s \<le> unat y" if "y \<in> X" for y using X(2) [OF that] al by auto
    from flash_grow [OF i fl _ t X(1) this] al Inr show ?thesis by auto
  qed
  with c al show ?thesis by auto
qed

lemma entry_grow: "G x = None \<Longrightarrow> entry (G(x \<mapsto> Map.empty)) = entry G"
  by (auto simp: entry_def fun_eq_iff)

lemma mkdir_law:
  assumes i: "inv s" and fl: "flash (objs s) mid G Q mt v1" and st: "fs_session st mid mt v1" and rd: "mkdir_ready s"
  shows "\<exists>r st' s' G' Q' v1'. blobfs_mkdir F (st, s) (Some p) = Some (r, (st', s')) \<and> fs_session st' mid mt v1' \<and>
    fs_evolve {} mid s G Q s' G' Q' \<and> flash (objs s') mid G' Q' mt v1' \<and>
    (case r of Inl _ \<Rightarrow> G' = G
     | Inr _ \<Rightarrow> \<exists>w x. free_at F G (fm_dir_root mt) p w \<and> nxt s \<le> unat x \<and>
         G' = set_entry (G(x \<mapsto> Map.empty)) (w_dir w) (w_name w) (Some (new_dirent BLOBFS_TYPE_DIR x)))"
proof (cases "\<exists>w. free_at F G (fm_dir_root mt) p w")
  case False
  with free_name_law [OF i fl st, of p] have "\<exists>e. blobfs_mkdir F (st, s) (Some p) = Some (Inl e, (st, s))"
    by (auto simp: blobfs_mkdir_def free_at_def split: sum.splits)
  with fl st evolve_refl [OF i] show ?thesis by fastforce
next
  case True
  then obtain w where w: "free_at F G (fm_dir_root mt) p w" by blast
  let ?d = "w_dir w" and ?n = "w_name w"
  have G: "G ?d \<noteq> None" "name_fits F ?n" "entry G ?d ?n = None"
    using w ns_where_dir [OF flashD(7) [OF fl], of p w] by (auto simp: free_at_def)
  have fn: "walk_to_free_name F st s (Some p) = (w, Inr ())" using free_name_law [OF i fl st, of p] w by (simp add: free_at_def)
  obtain r0 st0 s0 where u: "meta_upgrade F (st, s) = (r0, (st0, s0))" by (rule prod_cases3)
  from upgrade_law [OF i fl st u] obtain v0 where e0: "fs_evolve {} mid s G Q s0 G Q" and n0: "nxt s0 = nxt s"
    and fl0: "flash (objs s0) mid G Q mt v0" and st0: "fs_session st0 mid mt v0" by blast
  have i0: "inv s0" using evolve_inv [OF e0] by blast
  have stop: ?thesis if "blobfs_mkdir F (st, s) (Some p) = Some (Inl e, (st0, s'))" "fs_evolve {} mid s0 G Q s' G Q'" "flash (objs s') mid G Q' mt v0"
    for e s' Q'
    using that st0 evolve_trans [OF e0 that(2)] by (intro exI [of _ "Inl e"] exI [of _ st0] exI [of _ s'] exI [of _ G] exI [of _ Q'] exI [of _ v0]) simp
  show ?thesis
  proof (cases r0)
    case (Inl e)
    then have "blobfs_mkdir F (st, s) (Some p) = Some (Inl e, (st0, s0))" using fn u by (simp add: blobfs_mkdir_def)
    then show ?thesis by (rule stop [OF _ evolve_refl [OF i0] fl0])
  next
    case (Inr y)
    obtain x s1 where a: "api_alloc_id A s0 = (x, s1)" by fastforce
    show ?thesis
    proof (cases "x = 0")
      case True
      have lt: "nxt s0 < ID_LIMIT" using rd n0 by (simp add: mkdir_ready_def)
      note al = alloc_law [OF i0 lt a]
      have "blobfs_mkdir F (st, s) (Some p) = Some (Inl EIO, (st0, s1))" using fn u Inr a True by (simp add: blobfs_mkdir_def)
      then show ?thesis by (rule stop) (use al fl0 True in \<open>auto simp: fs_evolve_def touch_def\<close>)
    next
      case False
      have "mkdir_ready s0" using rd n0 by (simp add: mkdir_ready_def)
      from dir_create_law [OF i0 fl0 this a False] obtain r2 s2 where c: "dir_create F s1 x = Some (r2, s2)" "inv s2"
        "nxt s2 \<le> Suc (nxt s0) + span" "nxt s0 \<le> unat x"
        "case r2 of Inl _ \<Rightarrow> fs_evolve {} mid s0 G Q s2 G Q \<and> flash (objs s2) mid G Q mt v0
         | Inr _ \<Rightarrow> \<exists>X. fs_evolve {} mid s0 G Q s2 (G(x \<mapsto> Map.empty)) (Q(x := X)) \<and> flash (objs s2) mid (G(x \<mapsto> Map.empty)) (Q(x := X)) mt v0"
        by (elim exE conjE) (rule that)
      show ?thesis
      proof (cases r2)
        case (Inl e)
        then have "blobfs_mkdir F (st, s) (Some p) = Some (Inl e, (st0, s2))" using fn u Inr a False c(1) by (simp add: blobfs_mkdir_def)
        then show ?thesis by (rule stop) (use c(5) Inl in auto)
      next
        case r2: (Inr z)
        let ?G = "G(x \<mapsto> Map.empty)" and ?de = "new_dirent BLOBFS_TYPE_DIR x"
        obtain X where X: "fs_evolve {} mid s0 G Q s2 ?G (Q(x := X))" "flash (objs s2) mid ?G (Q(x := X)) mt v0" using c(5) r2 by auto
        note fr = fresh_apart [OF i0 fl0 c(4)]
        have lim: "nxt s2 + 3 \<le> ID_LIMIT" using c(3) rd n0 by (simp add: mkdir_ready_def)
        have gd: "?G ?d \<noteq> None" using G(1) by simp
        have en: "entry ?G = entry G" by (rule entry_grow) (rule fr(6))
        have nm: "names_ok F (set_entry ?G ?d ?n (Some ?de)) mt"
        proof (rule names_put [OF flashD(7) [OF X(2)] gd])
          fix d' n' de' assume "entry ?G d' n' = Some de'" "de_body_id de' = de_body_id ?de"
          then have False using fr(7) [of d' n' de'] by (simp only: en new_dirent_ok)
          then show "d' = ?d \<and> n' = ?n \<or> shares mt d' n' ?d ?n (de_body_id ?de) \<and> de' = ?de" ..
        qed (use fr(1) G(2) in simp_all)
        obtain r3 s3 where o: "op_set Ops s2 ?d ?n (Some (dirent_bytes ?de)) DIRENT_SIZE = (r3, s3)" by fastforce
        from set_law [OF c(2) X(2) gd lim o nm] obtain Q3 where q: "fs_evolve {} mid s2 ?G (Q(x := X)) s3 (effect r3 (set_entry ?G ?d ?n (Some ?de)) ?G) Q3"
          "flash (objs s3) mid (effect r3 (set_entry ?G ?d ?n (Some ?de)) ?G) Q3 mt v0" by auto
        have e3: "fs_evolve {} mid s0 G Q s3 (effect r3 (set_entry ?G ?d ?n (Some ?de)) ?G) Q3" by (rule evolve_trans [OF X(1) q(1)]) simp
        show ?thesis
        proof (cases r3)
          case (Inl e)
          obtain r4 s4 where ds: "op_destroy Ops s3 x = (r4, s4)" by fastforce
          have run: "blobfs_mkdir F (st, s) (Some p) = Some (Inl e, (st0, s4))"
            using fn u Inr a False c(1) r2 o Inl ds by (simp add: blobfs_mkdir_def)
          have undone: "?G(x := None) = G" using fr(6) by (simp add: fun_upd_idem)
          have f3: "flash (objs s3) mid ?G Q3 mt v0" and e3': "fs_evolve {} mid s0 G Q s3 ?G Q3" using q(2) e3 Inl by simp_all
          have i3: "inv s3" using evolve_inv [OF e3'] by blast
          have gx: "?G x = Some Map.empty" by simp
          have nmG: "names_ok F (?G(x := None)) mt" unfolding undone by (rule flashD(7) [OF fl0])
          note dl = destroy_law [OF i3 f3 gx nmG ds, unfolded undone]
          show ?thesis by (rule stop [OF run evolve_trans [OF e3' dl(2)] dl(1)]) simp
        next
          case r3: (Inr z')
          have run: "blobfs_mkdir F (st, s) (Some p) = Some (Inr (), (st0, s3))"
            using fn u Inr a False c(1) r2 o r3 by (simp add: blobfs_mkdir_def)
          have ev: "fs_evolve {} mid s G Q s3 (set_entry ?G ?d ?n (Some ?de)) Q3"
            by (rule evolve_trans [OF e0]) (use e3 r3 in simp_all)
          have "nxt s \<le> unat x" using c(4) n0 by simp
          with run ev q(2) r3 st0 w show ?thesis
            by (intro exI [of _ "Inr ()"] exI [of _ st0] exI [of _ s3] exI [of _ "set_entry ?G ?d ?n (Some ?de)"] exI [of _ Q3] exI [of _ v0]) auto
        qed
      qed
    qed
  qed
qed

section \<open>Removing\<close>

lemma dir_is_empty_law:
  assumes i: "inv s" and fl: "flash (objs s) mid G Q mt v1" and x: "G x = Some f"
  shows "dir_is_empty F s x = Inr (f = Map.empty)"
proof -
  have nx: "op_next Ops s x [] 0 0 = (Inl ENODATA, None) \<and> enc f = Map.empty \<or>
    (\<exists>k v. enc f k = Some v \<and> op_next Ops s x [] 0 0 = (if length k > 0 \<or> length v > 0 then Inl ENOMEM else Inr (k, v), Some (length k, length v)))"
    using op_next_law [OF i flash_dir_hold [OF fl x], of "[]" 0 0] by simp
  have emp: "enc f = Map.empty \<longleftrightarrow> f = Map.empty" by (auto simp: enc_def fun_eq_iff)
  from nx show ?thesis
  proof (elim disjE exE conjE)
    assume "op_next Ops s x [] 0 0 = (Inl ENODATA, None)" "enc f = Map.empty"
    then show ?thesis by (simp add: dir_is_empty_def emp)
  next
    fix k v assume k: "enc f k = Some v"
      and n: "op_next Ops s x [] 0 0 = (if length k > 0 \<or> length v > 0 then Inl ENOMEM else Inr (k, v), Some (length k, length v))"
    have "f \<noteq> Map.empty" using k by (auto simp: enc_def)
    with n show ?thesis by (cases "length k > 0 \<or> length v > 0") (simp_all add: dir_is_empty_def)
  qed
qed

lemma delete_touch:
  assumes i: "inv s" and "api_delete A s x = (r, s')"
  shows "touches_only {x} s s'" "nxt s' = nxt s"
  using delete_law [OF assms] by (auto simp: touch_def effect_def split: sum.splits)

lemma evolve_wide: "fs_evolve {} mid s G Q s' G' Q' \<Longrightarrow> fs_evolve W mid s G Q s' G' Q'"
  by (auto simp: fs_evolve_def touch_def)

lemma unlink_entry_law:
  assumes i: "inv s" and fl: "flash (objs s) mid G Q mt v1" and nf: "\<not> in_flight mt"
    and e: "entry G (w_dir w) (w_name w) = Some de" and emp: "is_dir de \<Longrightarrow> G (de_body_id de) = Some Map.empty"
    and run: "unlink_entry F (st, s) w de = (r, (st', s'))"
  shows "st' = st \<and> (\<exists>G' Q'. fs_evolve (effect r {de_body_id de} {}) mid s G Q s' G' Q' \<and> flash (objs s') mid G' Q' mt v1 \<and>
    G' = effect r (without G (w_dir w) (w_name w) de) G)"
proof -
  let ?d = "w_dir w" and ?n = "w_name w" and ?x = "de_body_id de"
  have gd: "G ?d \<noteq> None" using e by (auto simp: entry_def split: option.splits)
  note nm = flashD(7) [OF fl]
  obtain r1 s1 where dl: "op_del Ops s ?d ?n = (r1, s1)" by fastforce
  from del_law [OF i fl gd dl] obtain Q1 where q: "fs_evolve {} mid s G Q s1 (effect r1 (set_entry G ?d ?n None) G) Q1"
    "flash (objs s1) mid (effect r1 (set_entry G ?d ?n None) G) Q1 mt v1" by blast
  note wide = evolve_wide [where W = "{?x}"]
  show ?thesis
  proof (cases r1)
    case (Inl er)
    then have "r = Inl er" "st' = st" "s' = s1" using run dl by (simp_all add: unlink_entry_def)
    with q Inl show ?thesis by auto
  next
    case (Inr u)
    let ?G = "set_entry G ?d ?n None"
    have q1: "fs_evolve {} mid s G Q s1 ?G Q1" "flash (objs s1) mid ?G Q1 mt v1" using q Inr by simp_all
    have i1: "inv s1" using evolve_inv [OF q1(1)] by blast
    have uniq: "de_body_id de' \<noteq> ?x" if "entry ?G d' n' = Some de'" for d' n' de'
      using that names_quiet_uniq [OF nm nf e, of d' n' de'] by (auto split: if_splits)
    show ?thesis
    proof (cases "is_dir de")
      case True
      have dx: "?d \<noteq> ?x" using emp [OF True] e by (auto simp: entry_def)
      have gx: "?G ?x = Some Map.empty" using emp [OF True] dx by (simp add: set_entry_def)
      have nmx: "names_ok F (?G(?x := None)) mt"
        by (rule names_shrink [OF flashD(7) [OF q1(2)] _ nf]) (use names_entry(3) [OF nm e] uniq in auto)
      obtain r2 s2 where ds: "op_destroy Ops s1 ?x = (r2, s2)" by fastforce
      have rs: "r = Inr ()" "st' = st" "s' = s2" using run dl Inr True ds by (simp_all add: unlink_entry_def is_dir_def)
      note dw = destroy_law [OF i1 q1(2) gx nmx ds]
      have "fs_evolve {} mid s G Q s2 (?G(?x := None)) Q1" by (rule evolve_trans [OF q1(1) dw(2)]) simp
      with dw(1) rs True show ?thesis by (auto simp: without_def intro: wide)
    next
      case False
      obtain r2 s2 where ds: "api_delete A s1 ?x = (r2, s2)" by fastforce
      have rs: "r = Inr ()" "st' = st" "s' = s2" using run dl Inr False ds by (simp_all add: unlink_entry_def is_dir_def)
      note dt = delete_touch [OF i1 ds]
      have bx: "?x \<in> file_ids G" using e False by (auto simp: file_ids_def)
      have "?x \<noteq> BLOB_DB_ROOT_ID" "?x \<noteq> mid" using flashD(6) [OF fl] bx by (auto simp: loose_ok_def)
      moreover have "?x \<notin> dir_ids ?G Q1"
      proof
        assume "?x \<in> dir_ids ?G Q1"
        then have "?x \<in> dir_ids G Q \<or> nxt s \<le> unat ?x" using q1(1) by (auto simp: fs_evolve_def)
        with body_bound [OF i fl e] flashD(6) [OF fl] bx show False by (auto simp: loose_ok_def)
      qed
      moreover have "?x \<notin> file_ids ?G" using uniq by (auto simp: file_ids_def)
      ultimately have f2: "flash (objs s2) mid ?G Q1 mt v1" by (intro flash_touch [OF i1 q1(2) dt(1)]) auto
      have "fs_evolve {?x} mid s1 ?G Q1 s2 ?G Q1" using dt by (auto simp: fs_evolve_def touch_def)
      then have "fs_evolve {?x} mid s G Q s2 ?G Q1" by (rule evolve_trans [OF wide [OF q1(1)]]) simp
      with f2 rs False show ?thesis by (auto simp: without_def)
    qed
  qed
qed

lemma ns_walk_not_root: "ns_walk F G d ns sl \<noteq> Inl EISDIR"
  by (induction F G d ns sl rule: ns_walk.induct) (auto simp: check_name_def split: option.splits)

lemma ns_where_not_root [simp]: "ns_where F G d p \<noteq> Inl EISDIR"
  by (simp add: ns_where_def ns_walk_not_root)

lemma settle_quiet:
  assumes "inv s" "flash (objs s) mid G Q mt v1" "fs_session st mid mt v1" "\<not> in_flight mt"
  shows "fst (intent_settle F (st, s)) = Inr ()"
  using assms meta_read_law [OF assms(1,2)] by (simp add: intent_settle_def in_flight_def fs_session_def)

lemma ns_entry_Inr:
  assumes "ns_entry F N root p = Inr de"
  obtains w where "ns_where F N root p = Inr w" "w_name w \<noteq> []" "entry N (w_dir w) (w_name w) = Some de"
  using assms by (auto simp: ns_entry_def andthen_Inr split: if_splits option.splits)

text \<open>An unlink with no intent recorded does what the name space says, or fails and changes nothing.\<close>

lemma unlink_quiet:
  assumes i: "inv s" and fl: "flash (objs s) mid N Q mt v1" and st: "fs_session st mid mt v1" and nf: "\<not> in_flight mt"
    and root: "fm_dir_root mt = root"
    and run: "(let wr = fs_resolve F st s (Some p) in
       if at_root wr then (Inl EBUSY, (st, s))
       else reads (snd wr) (st, s) (\<lambda>de.
         if de_type de = BLOBFS_TYPE_DIR
         then reads (dir_is_empty F s (de_body_id de)) (st, s) (\<lambda>empty.
           if \<not> empty then (Inl ENOTEMPTY, (st, s)) else unlink_entry F (st, s) (fst wr) de)
         else unlink_entry F (st, s) (fst wr) de)) = (r, (st', s'))"
  shows "st' = st \<and> (case ns_unlink F N root p of
      Inl e \<Rightarrow> r = Inl e \<and> s' = s
    | Inr (de, M) \<Rightarrow> \<exists>Q'. fs_evolve (effect r {de_body_id de} {}) mid s N Q s' (effect r M N) Q' \<and>
        flash (objs s') mid (effect r M N) Q' mt v1)"
proof -
  note rs = resolve_ns [OF i fl st, of p, unfolded root]
  show ?thesis
  proof (cases "ns_entry F N root p")
    case (Inl e)
    with run rs show ?thesis
      by (cases "ns_where F N root p") (auto simp: ns_unlink_def at_root_def ns_entry_def where0_def Let_def split: if_splits option.splits)
  next
    case en: (Inr de)
    then obtain w where w: "ns_where F N root p = Inr w" "w_name w \<noteq> []" "entry N (w_dir w) (w_name w) = Some de"
      by (rule ns_entry_Inr)
    have nr: "\<not> at_root (w, Inr de)" by (simp add: at_root_def)
    have dir: "\<exists>f. N (de_body_id de) = Some f \<and> dir_is_empty F s (de_body_id de) = Inr (f = Map.empty)" if "is_dir de"
      using names_entry(4) [OF flashD(7) [OF fl] w(3) that] dir_is_empty_law [OF i fl] by auto
    show ?thesis
    proof (cases "is_dir de \<and> N (de_body_id de) \<noteq> Some Map.empty")
      case True
      then have "dir_is_empty F s (de_body_id de) = Inr False" using dir by auto
      with run rs en w nr True show ?thesis by (simp add: ns_unlink_def Let_def is_dir_def)
    next
      case False
      then have emp: "is_dir de \<Longrightarrow> N (de_body_id de) = Some Map.empty" by blast
      then have "is_dir de \<Longrightarrow> dir_is_empty F s (de_body_id de) = Inr True" using dir by auto
      then have ue: "unlink_entry F (st, s) w de = (r, (st', s'))"
        using run rs en w(1) nr by (cases "is_dir de") (simp_all add: Let_def is_dir_def)
      from unlink_entry_law [OF i fl nf w(3) emp ue] w en False show ?thesis by (auto simp: ns_unlink_def)
    qed
  qed
qed

lemma unlink_law:
  assumes i: "inv s" and fl: "flash (objs s) mid G Q mt v1" and st: "fs_session st mid mt v1"
    and run: "blobfs_unlink F (st, s) (Some p) = (r, (st', s'))"
  defines "N \<equiv> settled G mt" and "root \<equiv> fm_dir_root mt"
  shows "\<exists>G' Q' mt' v1'. fs_session st' mid mt' v1' \<and>
    (case ns_unlink F N root p of
       Inl e \<Rightarrow> (\<exists>e'. r = Inl e') \<and> (\<not> in_flight mt \<longrightarrow> r = Inl e) \<and> fs_evolve {} mid s G Q s' G' Q' \<and> stands s' mid N root G' Q' mt' v1'
     | Inr (de, M) \<Rightarrow> fs_evolve (effect r {de_body_id de} {}) mid s G Q s' G' Q' \<and> stands s' mid (effect r M N) root G' Q' mt' v1')"
proof -
  obtain r0 st0 s0 where se: "intent_settle F (st, s) = (r0, (st0, s0))" by (rule prod_cases3)
  from settle_law [OF i fl st se] obtain G0 Q0 mt0 v0 where q: "fs_evolve {} mid s G Q s0 G0 Q0"
    "stands s0 mid N root G0 Q0 mt0 v0" "fs_session st0 mid mt0 v0" "r0 = Inr () \<longrightarrow> \<not> in_flight mt0"
    unfolding N_def root_def by blast
  have i0: "inv s0" using evolve_inv [OF q(1)] by blast
  show ?thesis
  proof (cases r0)
    case (Inl e)
    then have rs: "r = Inl e" "st' = st0" "s' = s0" using run se by (simp_all add: blobfs_unlink_def)
    have "in_flight mt" using settle_quiet [OF i fl st] se Inl by auto
    with rs q(1-3) show ?thesis
      by (intro exI [of _ G0] exI [of _ Q0] exI [of _ mt0] exI [of _ v0]) (auto split: sum.splits)
  next
    case (Inr y)
    then have nf: "\<not> in_flight mt0" using q(4) by simp
    then have f0: "flash (objs s0) mid N Q0 mt0 v0" and G0: "G0 = N" and r0: "fm_dir_root mt0 = root" using q(2) by (auto simp: stands_def)
    note u = unlink_quiet [OF i0 f0 q(3) nf r0, of p r st' s']
    have u': "st' = st0 \<and> (case ns_unlink F N root p of
      Inl e \<Rightarrow> r = Inl e \<and> s' = s0
    | Inr (de, M) \<Rightarrow> \<exists>Q'. fs_evolve (effect r {de_body_id de} {}) mid s0 N Q0 s' (effect r M N) Q' \<and>
        flash (objs s') mid (effect r M N) Q' mt0 v0)"
      by (rule u) (use run se Inr in \<open>simp add: blobfs_unlink_def Let_def cong: if_cong\<close>)
    show ?thesis
    proof (cases "ns_unlink F N root p")
      case (Inl e)
      with u' q show ?thesis by (intro exI [of _ G0] exI [of _ Q0] exI [of _ mt0] exI [of _ v0]) auto
    next
      case un: (Inr dm)
      obtain de M where dm: "dm = (de, M)" by fastforce
      with u' un obtain Q' where q': "fs_evolve (effect r {de_body_id de} {}) mid s0 N Q0 s' (effect r M N) Q'"
        "flash (objs s') mid (effect r M N) Q' mt0 v0" by auto
      have "fs_evolve (effect r {de_body_id de} {}) mid s G Q s' (effect r M N) Q'"
        by (rule evolve_trans [OF evolve_wide [OF q(1) [unfolded G0]] q'(1)]) simp
      with q' q(3) u' nf r0 un dm show ?thesis
        by (intro exI [of _ "effect r M N"] exI [of _ Q'] exI [of _ mt0] exI [of _ v0]) (simp add: stands_def)
    qed
  qed
qed

end

end
