(* ===== verification/Blobfs_Rename.thy ===== *)
theory Blobfs_Rename
  imports Blobfs_Calls
begin

text \<open>
  Renaming: the intent, the new name, the end of the old one and the withdrawal of the intent. Whatever
  step fails, the store stands for the name space of before or for the one with the entry moved.
\<close>

context fs_store
begin

section \<open>Renaming\<close>

lemma intent_meta_facts:
  fixes st d x
  assumes "name_fits F fn" "name_fits F tn"
  defines "mt \<equiv> intent_meta F st d fn tn x"
  shows "meta_wf (BLOBFS_NAME_MAX F) mt" "in_flight mt" "from_name mt = fn" "to_name mt = tn" "fm_from_dir mt = d" "fm_to_dir mt = d"
    "fm_rename_body mt = x" "fm_dir_root mt = fs_dir_root st" "unat (fm_from_len mt) = length fn" "unat (fm_to_len mt) = length tn"
proof -
  have "length fn < 256" "length tn < 256" using assms(1,2) [THEN name_fitsD] name_max by auto
  then have u: "unat (word_of_nat (length fn) :: byte) = length fn" "unat (word_of_nat (length tn) :: byte) = length tn"
    by (simp_all add: unat_of_nat)
  show "meta_wf (BLOBFS_NAME_MAX F) mt" using assms(1,2) [THEN name_fitsD] by (simp add: mt_def intent_meta_def meta_wf_def)
  show "in_flight mt" by (simp add: mt_def intent_meta_def in_flight_def)
  show "from_name mt = fn" "to_name mt = tn" "unat (fm_from_len mt) = length fn" "unat (fm_to_len mt) = length tn"
    using u by (simp_all add: mt_def intent_meta_def from_name_def to_name_def)
  show "fm_from_dir mt = d" "fm_to_dir mt = d" "fm_rename_body mt = x" "fm_dir_root mt = fs_dir_root st"
    by (simp_all add: mt_def intent_meta_def)
qed

lemma withdraw_law:
  assumes i: "inv s" and fl: "flash (objs s) mid G Q mt v1" and mv: "\<not> moving G mt" and st: "fs_session st mid mt v1"
    and run: "intent_withdraw F (st, s) mt = (r, (st', s'))"
  shows "\<exists>mt' v1'. fs_evolve {} mid s G Q s' G Q \<and> stands s' mid G (fm_dir_root mt) G Q mt' v1' \<and> fs_session st' mid mt' v1' \<and>
    (r = Inr () \<longrightarrow> \<not> in_flight mt') \<and> nxt s' = nxt s"
proof -
  obtain r1 st1 s1 where w: "meta_write F (st, s) (intent_clear F mt) = (r1, (st1, s1))" by (rule prod_cases3)
  have mid: "fs_meta_id st = mid" using st by (simp add: fs_session_def)
  note c = clear_law [OF i fl mid mv w]
  have sg: "settled G mt = G" using mv by (simp add: settled_def)
  show ?thesis
  proof (cases r1)
    case (Inl e)
    then have "r = Inl e" "st' = st1" "s' = s1" using run w by (simp_all add: intent_withdraw_def)
    with c Inl st sg show ?thesis by (intro exI [of _ mt] exI [of _ v1]) (simp add: stands_def)
  next
    case (Inr u)
    then have "r = Inr ()" "st' = st1\<lparr>fs_intent_pending := False\<rparr>" "s' = s1" using run w by (simp_all add: intent_withdraw_def)
    with c Inr st show ?thesis by (intro exI [of _ "intent_clear F mt"] exI [of _ False]) (simp add: stands_def fs_session_def)
  qed
qed

text \<open>Once both names are bound, all that can follow stands for the move.\<close>

lemma rename_drop_law:
  assumes i: "inv s" and fl: "flash (objs s) mid G Q mt v1" and mv: "moving G mt" and st: "fs_session st mid mt v1"
    and run: "(case op_del Ops s (fm_from_dir mt) (from_name mt) of
        (Inl e, s) \<Rightarrow> (Inl e, (st, s)) | (Inr _, s) \<Rightarrow> intent_withdraw F (st, s) mt) = (r, (st', s'))"
  shows "\<exists>G' Q' mt' v1'. fs_evolve {} mid s G Q s' G' Q' \<and> fs_session st' mid mt' v1' \<and>
    stands s' mid (settled G mt) (fm_dir_root mt) G' Q' mt' v1' \<and> (r = Inr () \<longrightarrow> \<not> in_flight mt') \<and> nxt s' = nxt s"
proof -
  let ?M = "set_entry G (fm_from_dir mt) (from_name mt) None"
  have M: "settled G mt = ?M" using mv by (simp add: settled_def)
  have gd: "G (fm_from_dir mt) \<noteq> None" using names_intent(8) [OF flashD(7) [OF fl]] mv by (auto simp: moving_def)
  obtain r1 s1 where dl: "op_del Ops s (fm_from_dir mt) (from_name mt) = (r1, s1)" by fastforce
  from del_law [OF i fl gd dl] obtain Q1 where
    q: "fs_evolve {} mid s G Q s1 (effect r1 ?M G) Q1" "flash (objs s1) mid (effect r1 ?M G) Q1 mt v1" "nxt s1 = nxt s" by blast
  show ?thesis
  proof (cases r1)
    case (Inl e)
    then have "r = Inl e" "st' = st" "s' = s1" using run dl by simp_all
    with q Inl st show ?thesis by (intro exI [of _ G] exI [of _ Q1] exI [of _ mt] exI [of _ v1]) (simp add: stands_def)
  next
    case (Inr u)
    have f1: "flash (objs s1) mid ?M Q1 mt v1" and e1: "fs_evolve {} mid s G Q s1 ?M Q1" using q Inr by simp_all
    have i1: "inv s1" using evolve_inv [OF e1] by blast
    have mv1: "\<not> moving ?M mt" using settled_idem [of G mt] M by simp
    have w: "intent_withdraw F (st, s1) mt = (r, (st', s'))" using run dl Inr by simp
    from withdraw_law [OF i1 f1 mv1 st w] obtain mt' v1' where
      x: "fs_evolve {} mid s1 ?M Q1 s' ?M Q1" "stands s' mid ?M (fm_dir_root mt) ?M Q1 mt' v1'" "fs_session st' mid mt' v1'"
        "r = Inr () \<longrightarrow> \<not> in_flight mt'" "nxt s' = nxt s1" by blast
    have "fs_evolve {} mid s G Q s' ?M Q1" by (rule evolve_trans [OF e1 x(1)]) simp
    with x M q(3) show ?thesis by (intro exI [of _ ?M] exI [of _ Q1] exI [of _ mt'] exI [of _ v1']) simp
  qed
qed

text \<open>The name space with an intent recorded and then with the new name bound.\<close>

lemma intent_names:
  assumes i: "inv s" and fl: "flash (objs s) mid N Q mt v1" and nf: "\<not> in_flight mt" and st: "fs_session st mid mt v1"
    and e: "entry N d fn = Some de" "entry N d tn = None" and tn: "name_fits F tn"
  defines "it \<equiv> intent_meta F st d fn tn (de_body_id de)"
  shows "names_ok F N it" "names_ok F (set_entry N d tn (Some de)) it" "\<not> moving N it" "moving (set_entry N d tn (Some de)) it"
    "meta_wf (BLOBFS_NAME_MAX F) it" "fm_dir_root it = fm_dir_root mt" "N d \<noteq> None" "fm_from_dir it = d" "from_name it = fn"
    "settled (set_entry N d tn (Some de)) it = moved N d fn tn de"
proof -
  note nm = flashD(7) [OF fl]
  have fn: "name_fits F fn" by (rule names_entry(2) [OF nm e(1)])
  note im = intent_meta_facts [OF fn tn, of st d "de_body_id de", folded it_def]
  show gd: "N d \<noteq> None" using e(1) by (auto simp: entry_def split: option.splits)
  have ne: "fn \<noteq> tn" using e by auto
  have d0: "d \<noteq> 0" using dir_bound(3) [OF i fl dir_root_in [OF fl gd]] .
  show root: "fm_dir_root it = fm_dir_root mt" using im(8) st by (simp add: fs_session_def)
  show nmi: "names_ok F N it"
    by (rule names_meta [OF nm nf root]) (use im fn tn fn [THEN name_fitsD] tn [THEN name_fitsD] ne gd d0 in \<open>simp add: intent_ok_def\<close>)
  show "names_ok F (set_entry N d tn (Some de)) it"
  proof (rule names_put [OF nmi gd names_entry(1) [OF nm e(1)] tn])
    show "de_body_id de \<noteq> fm_dir_root it" using names_entry(3) [OF nm e(1)] root by simp
    show "is_dir de \<Longrightarrow> N (de_body_id de) \<noteq> None" by (rule names_entry(4) [OF nm e(1)])
    fix d' n' de' assume x: "entry N d' n' = Some de'" "de_body_id de' = de_body_id de"
    then have "d' = d \<and> n' = fn" using names_quiet_uniq [OF nm nf x(1) e(1)] by blast
    with x(1) e(1) im show "d' = d \<and> n' = tn \<or> shares it d' n' d tn (de_body_id de) \<and> de' = de" by (simp add: shares_def)
  qed
  show "\<not> moving N it" using e(2) im by (simp add: moving_def)
  show mv: "moving (set_entry N d tn (Some de)) it" using e(1) im ne by (simp add: moving_def)
  show "settled (set_entry N d tn (Some de)) it = moved N d fn tn de" using mv im by (simp add: settled_def moved_def)
  show "meta_wf (BLOBFS_NAME_MAX F) it" "fm_from_dir it = d" "from_name it = fn" by (rule im)+
qed

lemma rename_steps_law:
  assumes i: "inv s" and fl: "flash (objs s) mid N Q mt v1" and nf: "\<not> in_flight mt" and st: "fs_session st mid mt v1"
    and lim: "nxt s + 3 \<le> ID_LIMIT" and e: "entry N d fn = Some de" "entry N d tn = None" and tn: "name_fits F tn"
    and run: "rename_steps F (st, s) d fn tn de = (r, (st', s'))"
  shows "\<exists>G' Q' mt' v1'. fs_evolve {} mid s N Q s' G' Q' \<and> fs_session st' mid mt' v1' \<and>
    (stands s' mid N (fm_dir_root mt) G' Q' mt' v1' \<and> r \<noteq> Inr () \<or> stands s' mid (moved N d fn tn de) (fm_dir_root mt) G' Q' mt' v1') \<and>
    (r = Inr () \<longrightarrow> \<not> in_flight mt') \<and> nxt s' \<le> nxt s + 3"
proof -
  let ?mt = "intent_meta F st d fn tn (de_body_id de)" and ?G = "set_entry N d tn (Some de)"
  note it = intent_names [OF i fl nf st e tn]
  have mid: "fs_meta_id st = mid" using st by (simp add: fs_session_def)
  obtain r1 st1 s1 where w: "meta_write F (st, s) ?mt = (r1, (st1, s1))" by (rule prod_cases3)
  note mw = meta_write_law [OF i fl mid it(5,1) w]
  show ?thesis
  proof (cases r1)
    case (Inl er)
    then have "r = Inl er" "st' = st1" "s' = s1" using run w by (simp_all add: rename_steps_def)
    with mw Inl st nf show ?thesis by (intro exI [of _ N] exI [of _ Q] exI [of _ mt] exI [of _ v1]) (simp add: stands_def)
  next
    case (Inr u)
    let ?st = "st1\<lparr>fs_intent_pending := True\<rparr>"
    have e1: "fs_evolve {} mid s N Q s1 N Q" and n1: "nxt s1 = nxt s" and f1: "flash (objs s1) mid N Q ?mt False"
      and st1: "st1 = st\<lparr>fs_meta_v1 := False\<rparr>" using mw Inr by simp_all
    have i1: "inv s1" using evolve_inv [OF e1] by blast
    have ses: "fs_session ?st mid ?mt False" using st st1 it(6) by (simp add: fs_session_def)
    have new: "\<not> is_dir de \<Longrightarrow> de_body_id de \<in> file_ids N \<or>
        objs s1 (de_body_id de) \<noteq> None \<and> de_body_id de \<notin> dir_ids N Q \<and> de_body_id de \<noteq> mid \<and> de_body_id de \<noteq> BLOB_DB_ROOT_ID"
      using e(1) by (auto simp: file_ids_def)
    obtain r2 s2 where o: "op_set Ops s1 d tn (Some (dirent_bytes de)) DIRENT_SIZE = (r2, s2)" by fastforce
    from set_law [OF i1 f1 it(7) _ o it(2) new] lim n1 obtain Q2 where
      q2: "fs_evolve {} mid s1 N Q s2 (effect r2 ?G N) Q2" "flash (objs s2) mid (effect r2 ?G N) Q2 ?mt False" and n2: "nxt s2 \<le> nxt s + 3" by auto
    show ?thesis
    proof (cases r2)
      case (Inl er)
      have e2: "fs_evolve {} mid s N Q s2 N Q2" and f2: "flash (objs s2) mid N Q2 ?mt False"
        using evolve_trans [OF e1 q2(1)] q2(2) Inl by simp_all
      have i2: "inv s2" using evolve_inv [OF e2] by blast
      obtain r3 st3 s3 where wd: "intent_withdraw F (?st, s2) ?mt = (r3, (st3, s3))" by (rule prod_cases3)
      have rs: "r = Inl er" "st' = st3" "s' = s3" using run w Inr o Inl wd by (simp_all add: rename_steps_def)
      from withdraw_law [OF i2 f2 it(3) ses wd] obtain mt' v1' where
        x: "fs_evolve {} mid s2 N Q2 s3 N Q2" "stands s3 mid N (fm_dir_root ?mt) N Q2 mt' v1'" "fs_session st3 mid mt' v1'" "nxt s3 = nxt s2" by blast
      have "fs_evolve {} mid s N Q s3 N Q2" by (rule evolve_trans [OF e2 x(1)]) simp
      with x rs it(6) n2 show ?thesis by (intro exI [of _ N] exI [of _ Q2] exI [of _ mt'] exI [of _ v1']) simp
    next
      case r2: (Inr y)
      have e2: "fs_evolve {} mid s N Q s2 ?G Q2" and f2: "flash (objs s2) mid ?G Q2 ?mt False"
        using evolve_trans [OF e1 q2(1)] q2(2) r2 by simp_all
      have i2: "inv s2" using evolve_inv [OF e2] by blast
      have rest: "(case op_del Ops s2 (fm_from_dir ?mt) (from_name ?mt) of
          (Inl e, s) \<Rightarrow> (Inl e, (?st, s)) | (Inr _, s) \<Rightarrow> intent_withdraw F (?st, s) ?mt) = (r, (st', s'))"
        unfolding it(8,9) using run w Inr o r2 by (simp add: rename_steps_def Let_def)
      from rename_drop_law [OF i2 f2 it(4) ses rest] obtain G' Q' mt' v1' where
        x: "fs_evolve {} mid s2 ?G Q2 s' G' Q'" "fs_session st' mid mt' v1'"
          "stands s' mid (moved N d fn tn de) (fm_dir_root mt) G' Q' mt' v1'" "r = Inr () \<longrightarrow> \<not> in_flight mt'" "nxt s' = nxt s2"
        unfolding it(10,6) by blast
      have "fs_evolve {} mid s N Q s' G' Q'" "nxt s' \<le> nxt s + 3" using evolve_trans [OF e2 x(1)] x(5) n2 by simp_all
      with x(2-4) show ?thesis by blast
    qed
  qed
qed

lemma rename_quiet:
  assumes i: "inv s" and fl: "flash (objs s) mid N Q mt v1" and st: "fs_session st mid mt v1" and nf: "\<not> in_flight mt"
    and root: "fm_dir_root mt = root" and lim: "nxt s + 3 \<le> ID_LIMIT"
    and run: "(let wr = fs_resolve F st s (Some p) in
       if at_root wr then (Inl EBUSY, (st, s))
       else reads (snd wr) (st, s) (\<lambda>de.
       reads (walk F st s (Some q)) (st, s) (\<lambda>wt.
         let wf = fst wr in
         if w_name wt = [] then (Inl EBUSY, (st, s))
         else if w_want_dir wt \<and> de_type de \<noteq> BLOBFS_TYPE_DIR then (Inl ENOTDIR, (st, s))
         else if w_dir wt \<noteq> w_dir wf then (Inl EXDEV, (st, s))
         else case dirent_get F s (w_dir wt) (w_name wt) of
           Inr _ \<Rightarrow> (Inl EEXIST, (st, s))
         | Inl e \<Rightarrow> if e \<noteq> ENOENT then (Inl e, (st, s)) else rename_steps F (st, s) (w_dir wf) (w_name wf) (w_name wt) de))) = (r, (st', s'))"
  shows "case ns_rename F N root p q of
      Inl e \<Rightarrow> r = Inl e \<and> st' = st \<and> s' = s
    | Inr M \<Rightarrow> \<exists>G' Q' mt' v1'. fs_evolve {} mid s N Q s' G' Q' \<and> fs_session st' mid mt' v1' \<and>
        (stands s' mid N root G' Q' mt' v1' \<and> r \<noteq> Inr () \<or> stands s' mid M root G' Q' mt' v1') \<and> (r = Inr () \<longrightarrow> \<not> in_flight mt') \<and>
        nxt s' \<le> nxt s + 3"
proof -
  note rs = resolve_ns [OF i fl st, of p, unfolded root] and wn = walk_ns [OF i fl st, of q, unfolded root]
  show ?thesis
  proof (cases "ns_entry F N root p")
    case (Inl e)
    with run rs show ?thesis
      by (cases "ns_where F N root p") (auto simp: ns_rename_def at_root_def ns_entry_def where0_def Let_def split: if_splits option.splits)
  next
    case en: (Inr de)
    then obtain w where w: "ns_where F N root p = Inr w" "w_name w \<noteq> []" "entry N (w_dir w) (w_name w) = Some de"
      by (rule ns_entry_Inr)
    have nr: "\<not> at_root (w, Inr de)" by (simp add: at_root_def)
    show ?thesis
    proof (cases "ns_where F N root q")
      case (Inl e)
      with run rs wn en w nr show ?thesis by (simp add: ns_rename_def Let_def)
    next
      case wq: (Inr v)
      note wd = ns_where_dir [OF flashD(7) [OF fl], unfolded root, OF wq]
      have g: "dirent_get F s (w_dir v) (w_name v) = (case entry N (w_dir v) (w_name v) of None \<Rightarrow> Inl ENOENT | Some de \<Rightarrow> Inr de)"
        if "w_name v \<noteq> []" by (rule dirent_get_law [OF i fl wd(1) wd(2) [OF that]])
      show ?thesis
      proof (cases "w_name v = [] \<or> (w_want_dir v \<and> \<not> is_dir de) \<or> w_dir v \<noteq> w_dir w \<or> entry N (w_dir v) (w_name v) \<noteq> None")
        case True
        with run rs wn en w nr wq g show ?thesis
          by (cases "w_name v = []") (auto simp: ns_rename_def Let_def is_dir_def split: if_splits option.splits)
      next
        case False
        then have ok: "w_name v \<noteq> []" "\<not> (w_want_dir v \<and> \<not> is_dir de)" "w_dir v = w_dir w" "entry N (w_dir w) (w_name v) = None" by auto
        have steps: "rename_steps F (st, s) (w_dir w) (w_name w) (w_name v) de = (r, (st', s'))"
          using run rs wn en w nr wq g ok by (auto simp: Let_def is_dir_def)
        have "ns_rename F N root p q = Inr (moved N (w_dir w) (w_name w) (w_name v) de)" using ok w en wq by (auto simp: ns_rename_def)
        with rename_steps_law [OF i fl nf st lim w(3) ok(4) wd(2) [OF ok(1)] steps] root show ?thesis by simp
      qed
    qed
  qed
qed

lemma rename_law:
  assumes i: "inv s" and fl: "flash (objs s) mid G Q mt v1" and st: "fs_session st mid mt v1" and lim: "nxt s + 3 \<le> ID_LIMIT"
    and run: "blobfs_rename F (st, s) (Some p) (Some p') = (r, (st', s'))"
  defines "N \<equiv> settled G mt" and "root \<equiv> fm_dir_root mt"
  shows "\<exists>G' Q' mt' v1'. fs_evolve {} mid s G Q s' G' Q' \<and> fs_session st' mid mt' v1' \<and>
    (case ns_rename F N root p p' of
       Inl e \<Rightarrow> (\<exists>e'. r = Inl e') \<and> (\<not> in_flight mt \<longrightarrow> r = Inl e) \<and> stands s' mid N root G' Q' mt' v1'
     | Inr M \<Rightarrow> (stands s' mid N root G' Q' mt' v1' \<and> r \<noteq> Inr () \<or> stands s' mid M root G' Q' mt' v1') \<and> (r = Inr () \<longrightarrow> \<not> in_flight mt')) \<and>
    nxt s' \<le> nxt s + 3"
proof -
  obtain r0 st0 s0 where se: "intent_settle F (st, s) = (r0, (st0, s0))" by (rule prod_cases3)
  from settle_law [OF i fl st se] obtain G0 Q0 mt0 v0 where q: "fs_evolve {} mid s G Q s0 G0 Q0"
    "stands s0 mid N root G0 Q0 mt0 v0" "fs_session st0 mid mt0 v0" "r0 = Inr () \<longrightarrow> \<not> in_flight mt0" "nxt s0 = nxt s"
    unfolding N_def root_def by blast
  have i0: "inv s0" using evolve_inv [OF q(1)] by blast
  show ?thesis
  proof (cases r0)
    case (Inl e)
    then have rs: "r = Inl e" "st' = st0" "s' = s0" using run se by (simp_all add: blobfs_rename_def)
    have "in_flight mt" using settle_quiet [OF i fl st] se Inl by auto
    with rs q(1-3,5) show ?thesis
      by (intro exI [of _ G0] exI [of _ Q0] exI [of _ mt0] exI [of _ v0]) (auto split: sum.splits)
  next
    case (Inr y)
    then have nf: "\<not> in_flight mt0" using q(4) by simp
    then have f0: "flash (objs s0) mid N Q0 mt0 v0" and G0: "G0 = N" and r0: "fm_dir_root mt0 = root" using q(2) by (auto simp: stands_def)
    have lim0: "nxt s0 + 3 \<le> ID_LIMIT" using lim q(5) by simp
    have u: "case ns_rename F N root p p' of
      Inl e \<Rightarrow> r = Inl e \<and> st' = st0 \<and> s' = s0
    | Inr M \<Rightarrow> \<exists>G' Q' mt' v1'. fs_evolve {} mid s0 N Q0 s' G' Q' \<and> fs_session st' mid mt' v1' \<and>
        (stands s' mid N root G' Q' mt' v1' \<and> r \<noteq> Inr () \<or> stands s' mid M root G' Q' mt' v1') \<and> (r = Inr () \<longrightarrow> \<not> in_flight mt') \<and>
        nxt s' \<le> nxt s0 + 3"
      by (rule rename_quiet [OF i0 f0 q(3) nf r0 lim0]) (use run se Inr in \<open>simp add: blobfs_rename_def Let_def cong: if_cong sum.case_cong\<close>)
    show ?thesis
    proof (cases "ns_rename F N root p p'")
      case (Inl e)
      with u q show ?thesis by (intro exI [of _ G0] exI [of _ Q0] exI [of _ mt0] exI [of _ v0]) auto
    next
      case rn: (Inr M)
      with u obtain G' Q' mt' v1' where x: "fs_evolve {} mid s0 N Q0 s' G' Q'" "fs_session st' mid mt' v1'"
        "stands s' mid N root G' Q' mt' v1' \<and> r \<noteq> Inr () \<or> stands s' mid M root G' Q' mt' v1'" "r = Inr () \<longrightarrow> \<not> in_flight mt'" "nxt s' \<le> nxt s0 + 3" by auto
      have "fs_evolve {} mid s G Q s' G' Q'" by (rule evolve_trans [OF q(1) x(1) [folded G0]]) simp
      with x q(5) rn show ?thesis by (intro exI [of _ G'] exI [of _ Q'] exI [of _ mt'] exI [of _ v1']) simp
    qed
  qed
qed

end

end
