(* ===== verification/Blobfs_Files.thy ===== *)
theory Blobfs_Files
  imports Blobfs_Rename
begin

text \<open>
  The contents of files: what a read, a write and a truncate do to the body of the file a path names,
  and that they touch nothing else.
\<close>

text \<open>The two ways a truncate changes a body.\<close>

definition resize :: "byte list \<Rightarrow> nat \<Rightarrow> byte list" where
  "resize c sz = take sz c @ replicate (sz - length c) 0"

lemma resize_grow: "length c < sz \<Longrightarrow> write_over c (sz - 1) [0] = resize c sz"
proof -
  assume l: "length c < sz"
  have "write_over c (sz - 1) [0] = c @ replicate (sz - 1 - length c) 0 @ [0]"
    using l by (simp add: write_over_def splice_def take_replicate)
  also have "\<dots> = c @ replicate (sz - length c) 0"
    using l replicate_append_same [of "sz - 1 - length c" "0 :: byte"] by (cases "sz - length c") (simp_all add: replicate_append_same)
  finally show ?thesis using l by (simp add: resize_def)
qed

lemma resize_same: "resize c (length c) = c"
  by (simp add: resize_def)

context fs_store
begin

lemma lookup_law:
  assumes "inv s" "flash (objs s) mid G Q mt v1" "fs_session st mid mt v1"
  shows "blobfs_lookup F (st, s) (Some p) False = ns_file F G (fm_dir_root mt) p"
  using resolve_ns [OF assms, of p] by (simp add: blobfs_lookup_def ns_file_def is_dir_def)

lemma file_body:
  assumes "flash (objs s) mid G Q mt v1" "ns_file F G root p = Inr x"
  shows "x \<in> file_ids G" "\<exists>c. objs s x = Some c"
proof -
  from assms(2) obtain de where de: "ns_entry F G root p = Inr de" "\<not> is_dir de" "de_body_id de = x"
    by (auto simp: ns_file_def andthen_Inr split: if_splits)
  from de(1) obtain w where "ns_where F G root p = Inr w" "w_name w \<noteq> []" "entry G (w_dir w) (w_name w) = Some de" by (rule ns_entry_Inr)
  with de show x: "x \<in> file_ids G" by (auto simp: file_ids_def)
  show "\<exists>c. objs s x = Some c" using flashD(6) [OF assms(1)] x by (auto simp: loose_ok_def)
qed

text \<open>A new body for a file.\<close>

lemma flash_body:
  assumes fl: "flash m mid G Q mt v1" and x: "x \<in> file_ids G"
  shows "flash (m(x \<mapsto> c)) mid G Q mt v1"
proof -
  have l: "x \<noteq> BLOB_DB_ROOT_ID" "x \<noteq> mid" "x \<notin> dir_ids G Q" using flashD(6) [OF fl] x by (auto simp: loose_ok_def)
  have "holds (m(x \<mapsto> c)) d (Q d) (enc f)" if "G d = Some f" for d f
  proof (rule holds_frame [OF flash_dir_hold [OF fl that]])
    show "(m(x \<mapsto> c)) y = m y" if "y \<in> Q d" for y using l(3) dir_ids_in [of G d f Q] \<open>G d = Some f\<close> that by auto
  qed
  moreover have "registered F (m(x \<mapsto> c)) mid" using flashD(1) [OF fl] registry_frame [of "m(x \<mapsto> c)" m] l(1) by (auto simp: registered_def)
  ultimately show ?thesis using fl l by (auto simp: fs_flash_def dirs_hold_def loose_ok_def)
qed

section \<open>Bodies by id\<close>

lemma read_id_law:
  assumes "inv s" "objs s x = Some c"
  shows "blobfs_read_id F s x off False n False = Inr (take n (drop off c))" "blobfs_size_id F s x False = Inr (length c)"
  using assms by (simp_all add: blobfs_read_id_def blobfs_size_id_def read_law size_law)

lemma write_id_law:
  assumes i: "inv s" and x: "objs s x = Some c" and b: "len \<le> length b"
    and run: "blobfs_write_id F s x off (Some b) len = (r, s')"
  shows "inv s' \<and> nxt s' = nxt s \<and> objs s' = effect r ((objs s)(x \<mapsto> if len = 0 then c else write_over c off (take len b))) (objs s) \<and>
    (0 < len \<and> BLOBFS_FILE_MAX F < off + len \<longrightarrow> r = Inl ENOSPC) \<and> (len = 0 \<longrightarrow> r = Inr ())"
proof (cases "len = 0 \<or> BLOBFS_FILE_MAX F < off + len")
  case True
  have "BLOBFS_FILE_MAX F < off + len \<longleftrightarrow> BLOBFS_FILE_MAX F < off \<or> BLOBFS_FILE_MAX F - off < len" by auto
  with True run x size_law [OF i, of x] i show ?thesis by (auto simp: blobfs_write_id_def fun_upd_idem split: if_splits)
next
  case False
  then have w: "api_write A s x off (take len b) = (r, s')" and ok: "off + length (take len b) < 2 ^ 32" "take len b \<noteq> []"
    using run b file_max by (auto simp: blobfs_write_id_def c_bytes_def split: if_splits)
  from write_law [OF i ok(2,1) w] x False show ?thesis by simp
qed

lemma truncate_id_law:
  assumes i: "inv s" and x: "objs s x = Some c" and run: "blobfs_truncate_id F s x sz = (r, s')"
  shows "inv s' \<and> nxt s' = nxt s \<and> objs s' = effect r ((objs s)(x \<mapsto> resize c sz)) (objs s) \<and>
    (BLOBFS_FILE_MAX F < sz \<longrightarrow> r = Inl ENOSPC)"
proof (cases "BLOBFS_FILE_MAX F < sz \<or> sz = length c")
  case True
  with run x size_law [OF i, of x] i show ?thesis by (auto simp: blobfs_truncate_id_def fun_upd_idem resize_same split: if_splits)
next
  case False
  show ?thesis
  proof (cases "length c < sz")
    case True
    then have w: "api_write A s x (sz - 1) [0] = (r, s')" using False run x size_law [OF i, of x] by (simp add: blobfs_truncate_id_def)
    have "sz - 1 + length [0 :: byte] < 2 ^ 32" using False True file_max by simp
    from write_law [OF i _ this w] x False resize_grow [OF True] show ?thesis by simp
  next
    case le: False
    then have "resize c sz = take sz c" by (simp add: resize_def)
    moreover have "api_update A s x (take sz c) = (r, s')"
      using False le run x size_law [OF i, of x] read_law [OF i, of x 0 sz] by (simp add: blobfs_truncate_id_def)
    ultimately show ?thesis using update_law [OF i] False by simp
  qed
qed

section \<open>Files by path\<close>

lemma file_read_law:
  assumes i: "inv s" and fl: "flash (objs s) mid G Q mt v1" and st: "fs_session st mid mt v1"
  shows "blobfs_read F (st, s) (Some p) off False n False =
    andthen (ns_file F G (fm_dir_root mt) p) (\<lambda>x. Inr (take n (drop off (the (objs s x)))))"
proof (cases "ns_file F G (fm_dir_root mt) p")
  case (Inr x)
  with file_body(2) [OF fl this] lookup_law [OF i fl st, of p] read_id_law(1) [OF i] show ?thesis by (auto simp: blobfs_read_def)
qed (use lookup_law [OF i fl st, of p] in \<open>simp add: blobfs_read_def\<close>)

lemma stat_law:
  assumes i: "inv s" and fl: "flash (objs s) mid G Q mt v1" and st: "fs_session st mid mt v1"
  shows "blobfs_stat F (st, s) (Some p) False =
    (if ns_entry F G (fm_dir_root mt) p = Inl EISDIR then Inr \<lparr>st_type = BLOBFS_ENTRY_DIR, st_size = 0\<rparr>
     else andthen (ns_entry F G (fm_dir_root mt) p) (\<lambda>de.
       if is_dir de then Inr \<lparr>st_type = BLOBFS_ENTRY_DIR, st_size = 0\<rparr>
       else Inr \<lparr>st_type = BLOBFS_ENTRY_FILE, st_size = length (the (objs s (de_body_id de)))\<rparr>))"
proof (cases "ns_entry F G (fm_dir_root mt) p")
  case (Inl e)
  with resolve_ns [OF i fl st, of p] show ?thesis
    by (auto simp: blobfs_stat_def at_root_def ns_entry_def andthen_def Let_def split: sum.splits if_splits option.splits)
next
  case (Inr de)
  have "\<exists>c. objs s (de_body_id de) = Some c" if "\<not> is_dir de"
    using file_body(2) [OF fl, of "fm_dir_root mt" p "de_body_id de"] Inr that by (simp add: ns_file_def)
  with resolve_ns [OF i fl st, of p] Inr size_law [OF i, of "de_body_id de"] show ?thesis
    by (auto simp: blobfs_stat_def at_root_def stat_of_def is_dir_def)
qed

lemma opendir_law:
  assumes i: "inv s" and fl: "flash (objs s) mid G Q mt v1" and st: "fs_session st mid mt v1"
  shows "blobfs_opendir F (st, s) (Some p) False =
    (if ns_entry F G (fm_dir_root mt) p = Inl EISDIR then Inr (fm_dir_root mt)
     else andthen (ns_entry F G (fm_dir_root mt) p) (\<lambda>de. if is_dir de then Inr (de_body_id de) else Inl ENOTDIR))"
  using resolve_ns [OF i fl st, of p] st
  by (auto simp: blobfs_opendir_def at_root_def ns_entry_def andthen_def Let_def fs_session_def is_dir_def split: sum.splits if_splits option.splits)

text \<open>A call that works on the body of the file at a path.\<close>

lemma body_call:
  assumes i: "inv s" and fl: "flash (objs s) mid G Q mt v1" and st: "fs_session st mid mt v1"
    and run: "reads (blobfs_lookup F (st, s) (Some p) False) (st, s) (\<lambda>x. let (r, s) = f s x in (r, (st, s))) = (r, (st', s'))"
    and f: "\<And>x c. objs s x = Some c \<Longrightarrow> f s x = (r, s') \<Longrightarrow>
      inv s' \<and> nxt s' = nxt s \<and> objs s' = effect r ((objs s)(x \<mapsto> new c)) (objs s) \<and> (bad \<longrightarrow> r = Inl ENOSPC)"
  shows "st' = st \<and> (case ns_file F G (fm_dir_root mt) p of
      Inl e \<Rightarrow> r = Inl e \<and> s' = s
    | Inr x \<Rightarrow> \<exists>c. objs s x = Some c \<and> objs s' = effect r ((objs s)(x \<mapsto> new c)) (objs s) \<and> (bad \<longrightarrow> r = Inl ENOSPC)) \<and>
    inv s' \<and> nxt s' = nxt s \<and> flash (objs s') mid G Q mt v1"
proof (cases "ns_file F G (fm_dir_root mt) p")
  case (Inl e)
  with run lookup_law [OF i fl st, of p] i fl show ?thesis by simp
next
  case (Inr x)
  from file_body [OF fl Inr] obtain c where x: "x \<in> file_ids G" and c: "objs s x = Some c" by blast
  obtain r1 s1 where f1: "f s x = (r1, s1)" by fastforce
  have rs: "r = r1" "s' = s1" "st' = st" using run lookup_law [OF i fl st, of p] Inr f1 by simp_all
  note k = f [OF c, unfolded rs, OF f1]
  have "flash (objs s1) mid G Q mt v1" using k flash_body [OF fl x] fl by (cases r1) simp_all
  with k rs c Inr show ?thesis by simp
qed

lemma file_write_law:
  assumes i: "inv s" and fl: "flash (objs s) mid G Q mt v1" and st: "fs_session st mid mt v1" and b: "len \<le> length b"
    and run: "blobfs_write F (st, s) (Some p) off (Some b) len = (r, (st', s'))"
  shows "st' = st \<and> (case ns_file F G (fm_dir_root mt) p of
      Inl e \<Rightarrow> r = Inl e \<and> s' = s
    | Inr x \<Rightarrow> \<exists>c. objs s x = Some c \<and>
        objs s' = effect r ((objs s)(x \<mapsto> if len = 0 then c else write_over c off (take len b))) (objs s) \<and>
        (0 < len \<and> BLOBFS_FILE_MAX F < off + len \<longrightarrow> r = Inl ENOSPC)) \<and>
    inv s' \<and> nxt s' = nxt s \<and> flash (objs s') mid G Q mt v1"
  by (rule body_call [OF i fl st, where f = "\<lambda>s x. blobfs_write_id F s x off (Some b) len"])
    (use run write_id_law [OF i _ b] in \<open>auto simp: blobfs_write_def\<close>)

lemma file_truncate_law:
  assumes i: "inv s" and fl: "flash (objs s) mid G Q mt v1" and st: "fs_session st mid mt v1"
    and run: "blobfs_truncate F (st, s) (Some p) sz = (r, (st', s'))"
  shows "st' = st \<and> (case ns_file F G (fm_dir_root mt) p of
      Inl e \<Rightarrow> r = Inl e \<and> s' = s
    | Inr x \<Rightarrow> \<exists>c. objs s x = Some c \<and> objs s' = effect r ((objs s)(x \<mapsto> resize c sz)) (objs s) \<and>
        (BLOBFS_FILE_MAX F < sz \<longrightarrow> r = Inl ENOSPC)) \<and>
    inv s' \<and> nxt s' = nxt s \<and> flash (objs s') mid G Q mt v1"
  by (rule body_call [OF i fl st, where f = "\<lambda>s x. blobfs_truncate_id F s x sz"])
    (use run truncate_id_law [OF i] in \<open>auto simp: blobfs_truncate_def\<close>)

end

end
