(* ===== verification/Blobfs_Boot.thy ===== *)
theory Blobfs_Boot
  imports Blobfs_Files
begin

text \<open>
  Mounting: a mount finds the file system again and finishes a rename that was under way, or makes an
  empty file system where there is none. A mount that fails can be tried again.
\<close>

text \<open>Where no file system has been made yet: no meta object is registered, or one without contents.\<close>

definition fs_virgin :: "'s fs_build \<Rightarrow> (u64 \<Rightarrow> byte list option) \<Rightarrow> nat \<Rightarrow> rr_image \<Rightarrow> bool" where
  "fs_virgin F m nx img \<longleftrightarrow>
     registry (f_roots F) m img \<and>
     (\<forall>mid. map_of img fs_key = Some mid \<longrightarrow> mid \<noteq> BLOB_DB_ROOT_ID \<and> unat mid < nx \<and> (m mid = None \<or> m mid = Some []))"

lemma virgin_frame:
  assumes "fs_virgin F m nx img" "nx \<le> nx'" "m' BLOB_DB_ROOT_ID = m BLOB_DB_ROOT_ID" "\<And>x. unat x < nx \<Longrightarrow> m' x = m x"
  shows "fs_virgin F m' nx' img"
  using assms registry_frame [of m' m "f_roots F" img] by (fastforce simp: fs_virgin_def)

context fs_store
begin

section \<open>Finding a file system\<close>

lemma mount_found:
  assumes i: "inv s" and lim: "nxt s < ID_LIMIT" and fl: "flash (objs s) mid G Q mt v1" and st: "\<not> fs_mounted st"
  defines "N \<equiv> settled G mt" and "root \<equiv> fm_dir_root mt"
  shows "\<exists>r st' s' G' Q' mt' v1'. blobfs_mount F (st, s) = Some (r, (st', s')) \<and> fs_evolve {} mid s G Q s' G' Q' \<and> nxt s' = nxt s \<and>
    stands s' mid N root G' Q' mt' v1' \<and> \<not> fs_intent_pending st' \<and>
    (case r of Inl _ \<Rightarrow> \<not> fs_mounted st' | Inr _ \<Rightarrow> \<not> in_flight mt' \<and> fs_session st' mid mt' v1')"
proof -
  from flashD(1) [OF fl] obtain img where reg: "registry (f_roots F) (objs s) img" "map_of img fs_key = Some mid"
    by (auto simp: registered_def)
  have rg: "rootreg_get_or_create A (f_roots F) s fs_key False = (Inr mid, s)"
    using get_or_create_spec(4) [OF i lim f_roots reg(1) fs_key_nonzero _ reg(2)] by (metis prod.exhaust)
  let ?st = "st\<lparr>fs_meta_id := mid, fs_dir_root := root, fs_meta_v1 := v1, fs_intent_pending := False\<rparr>"
  have m: "blobfs_mount F (st, s) = Some (fs_bind F (st, s) mid mt v1)"
    using rg meta_read_law [OF i fl] st by (simp add: blobfs_mount_def fs_key_def)
  show ?thesis
  proof (cases "in_flight mt")
    case False
    have "fs_bind F (st, s) mid mt v1 = (Inr (), (?st\<lparr>fs_mounted := True\<rparr>, s))"
      using False by (simp add: fs_bind_def in_flight_def root_def)
    moreover have "fs_session (?st\<lparr>fs_mounted := True\<rparr>) mid mt v1" using False by (simp add: fs_session_def root_def)
    moreover have "stands s mid N root G Q mt v1" using fl False by (simp add: stands_def N_def root_def)
    ultimately show ?thesis using m False evolve_refl [OF i] by fastforce
  next
    case True
    obtain r1 st1 s1 where rr: "rename_recover F (?st, s) mt = (r1, (st1, s1))" by (rule prod_cases3)
    have mid: "fs_meta_id ?st = mid" by simp
    from recover_law [OF i fl True mid rr] obtain G' Q' where q: "fs_evolve {} mid s G Q s1 G' Q'" "nxt s1 = nxt s"
      "case r1 of Inl _ \<Rightarrow> st1 = ?st \<and> stands s1 mid N root G' Q' mt v1
       | Inr _ \<Rightarrow> st1 = ?st\<lparr>fs_meta_v1 := False\<rparr> \<and> G' = N \<and> flash (objs s1) mid G' Q' (intent_clear F mt) False"
      unfolding N_def root_def by blast
    show ?thesis
    proof (cases r1)
      case (Inl e)
      have "fs_bind F (st, s) mid mt v1 = (Inl e, (st1\<lparr>fs_meta_id := 0, fs_dir_root := 0\<rparr>, s1))"
        using True rr Inl by (simp add: fs_bind_def in_flight_def root_def)
      with m q Inl st show ?thesis
        by (intro exI [of _ "Inl e"] exI [of _ "st1\<lparr>fs_meta_id := 0, fs_dir_root := 0\<rparr>"] exI [of _ s1]
            exI [of _ G'] exI [of _ Q'] exI [of _ mt] exI [of _ v1]) simp
    next
      case (Inr u)
      let ?st' = "st1\<lparr>fs_mounted := True\<rparr>"
      have b: "fs_bind F (st, s) mid mt v1 = (Inr (), (?st', s1))" using True rr Inr by (simp add: fs_bind_def in_flight_def root_def)
      have "fs_session ?st' mid (intent_clear F mt) False" "stands s1 mid N root G' Q' (intent_clear F mt) False"
        "\<not> fs_intent_pending ?st'" using q(3) Inr by (auto simp: fs_session_def stands_def root_def)
      with m q(1,2) b show ?thesis
        by (intro exI [of _ "Inr ()"] exI [of _ ?st'] exI [of _ s1] exI [of _ G'] exI [of _ Q'] exI [of _ "intent_clear F mt"] exI [of _ False]) simp
    qed
  qed
qed

section \<open>Making a file system\<close>

lemma meta_read_virgin: "inv s \<Longrightarrow> objs s mid = None \<or> objs s mid = Some [] \<Longrightarrow> meta_read F s mid = Inl ENOENT"
  by (auto simp: meta_read_def get_law Let_def)

lemma new_fs_flash:
  assumes reg: "registry (f_roots F) m img" "map_of img fs_key = Some mid" and h: "holds m dr X Map.empty"
    and X: "mid \<notin> X" "BLOB_DB_ROOT_ID \<notin> X" "mid \<noteq> BLOB_DB_ROOT_ID"
    and m: "m mid = Some (fs_meta_bytes (BLOBFS_NAME_MAX F) (new_fs_meta F dr))"
  shows "flash m mid [dr \<mapsto> Map.empty] (\<lambda>_. X) (new_fs_meta F dr) False" "\<not> in_flight (new_fs_meta F dr)" "fm_dir_root (new_fs_meta F dr) = dr"
proof -
  have e: "entry [dr \<mapsto> Map.empty] d n = None" for d n by (simp add: entry_def)
  have fi: "file_ids [dr \<mapsto> Map.empty] = {}" "dir_ids [dr \<mapsto> Map.empty] (\<lambda>_. X) = X" by (simp_all add: file_ids_def e dir_ids_def)
  have "names_ok F [dr \<mapsto> Map.empty] (new_fs_meta F dr)"
    by (simp add: names_ok_def e intent_ok_def in_flight_def new_fs_meta_def)
  then show "flash m mid [dr \<mapsto> Map.empty] (\<lambda>_. X) (new_fs_meta F dr) False"
    using reg h X m by (auto simp: fs_flash_def registered_def meta_wf_def new_fs_meta_def meta_image_def dirs_hold_def loose_ok_def fi split: if_splits)
  show "\<not> in_flight (new_fs_meta F dr)" "fm_dir_root (new_fs_meta F dr) = dr" by (simp_all add: in_flight_def new_fs_meta_def)
qed

definition mount_ready :: "'s \<Rightarrow> bool" where
  "mount_ready s \<longleftrightarrow> nxt s + 2 + span \<le> ID_LIMIT \<and> (\<forall>s2. inv s2 \<and> nxt s2 \<le> nxt s + 2 \<longrightarrow> ready s2 (Some (dir_config F)))"

text \<open>The outcome of a first mount or of a part of it, from \<open>s\<close>.\<close>

definition boot_step :: "'s \<Rightarrow> u64 \<Rightarrow> 's \<Rightarrow> bool" where
  "boot_step s mid s' \<longleftrightarrow> inv s' \<and> nxt s \<le> nxt s' \<and> (\<forall>x. unat x < nxt s \<longrightarrow> x \<noteq> mid \<longrightarrow> objs s' x = objs s x)"

lemma fs_format_law:
  assumes i: "inv s" and v: "fs_virgin F (objs s) (nxt s) img" "map_of img fs_key = Some mid"
    and lim: "nxt s + 1 + span \<le> ID_LIMIT" and rd: "\<And>s2. inv s2 \<Longrightarrow> nxt s2 \<le> nxt s + 1 \<Longrightarrow> ready s2 (Some (dir_config F))"
  shows "\<exists>r s'. fs_format F s mid = Some (r, s') \<and> boot_step s mid s' \<and>
    (case r of Inl _ \<Rightarrow> objs s' mid = objs s mid
     | Inr mt \<Rightarrow> \<exists>dr X. mt = new_fs_meta F dr \<and> flash (objs s') mid [dr \<mapsto> Map.empty] (\<lambda>_. X) mt False)"
proof -
  have mid: "mid \<noteq> BLOB_DB_ROOT_ID" "unat mid < nxt s" and reg: "registry (f_roots F) (objs s) img"
    using v by (auto simp: fs_virgin_def)
  have rt: "unat BLOB_DB_ROOT_ID < nxt s" using reg bound_law [OF i] by (auto simp: registry_def)
  obtain dr s1 where a: "api_alloc_id A s = (dr, s1)" by fastforce
  have "nxt s < ID_LIMIT" using lim by simp
  note al = alloc_law [OF i this a]
  show ?thesis
  proof (cases "dr = 0")
    case True
    with a al show ?thesis by (auto simp: fs_format_def boot_step_def)
  next
    case False
    then have i1: "inv s1" "objs s1 = objs s" "unat dr = nxt s" "nxt s1 = Suc (nxt s)" using al by auto
    have ready: "ready s1 (Some (dir_config F))" by (rule rd) (use i1 in auto)
    have "unat dr < nxt s1" using i1 by simp
    from op_create_law [OF i1(1) this ready] obtain r2 s2 where c: "op_create Ops s1 dr (Some (dir_config F)) = Some (r2, s2)" "inv s2"
      "nxt s1 \<le> nxt s2" "\<forall>x. unat x < nxt s1 \<longrightarrow> x \<noteq> dr \<longrightarrow> objs s2 x = objs s1 x"
      "case r2 of Inl _ \<Rightarrow> objs s2 dr = objs s1 dr
         | Inr _ \<Rightarrow> \<exists>X. holds (objs s2) dr X Map.empty \<and> (\<forall>x \<in> X. x = dr \<or> nxt s1 \<le> unat x)" by blast
    have fr: "objs s2 x = objs s x" if "unat x < nxt s" for x using c(4) that i1 by force
    show ?thesis
    proof (cases r2)
      case (Inl e)
      then have "fs_format F s mid = Some (Inl e, s2)" using a False c(1) by (simp add: fs_format_def dir_create_def)
      with fr c i1 mid show ?thesis by (auto simp: boot_step_def)
    next
      case r2: (Inr u)
      then obtain X where X: "holds (objs s2) dr X Map.empty" "\<And>x. x \<in> X \<Longrightarrow> nxt s \<le> unat x" using c(5) i1 by fastforce
      obtain r3 s3 where w: "api_update A s2 mid (fs_meta_bytes (BLOBFS_NAME_MAX F) (new_fs_meta F dr)) = (r3, s3)" by fastforce
      note ul = update_law [OF c(2) w]
      have f: "fs_format F s mid = Some (case r3 of Inl e \<Rightarrow> Inl e | Inr _ \<Rightarrow> Inr (new_fs_meta F dr), s3)"
        using a False c(1) r2 w by (cases r3) (simp_all add: fs_format_def dir_create_def)
      have b: "boot_step s mid s3" using ul fr c(3) i1 by (cases r3) (auto simp: boot_step_def)
      have out: "mid \<notin> X" "BLOB_DB_ROOT_ID \<notin> X" using X(2) mid(2) rt by force+
      show ?thesis
      proof (cases r3)
        case (Inl e)
        with f b ul fr mid show ?thesis by auto
      next
        case (Inr z)
        then have o: "objs s3 = (objs s2)(mid \<mapsto> fs_meta_bytes (BLOBFS_NAME_MAX F) (new_fs_meta F dr))" using ul by simp
        have "objs s3 BLOB_DB_ROOT_ID = objs s BLOB_DB_ROOT_ID" using mid(1) fr [OF rt] o by simp
        then have "registry (f_roots F) (objs s3) img" using reg registry_frame [of "objs s3" "objs s"] by simp
        moreover have "holds (objs s3) dr X Map.empty" by (rule holds_frame [OF X(1)]) (use o out in auto)
        ultimately have "flash (objs s3) mid [dr \<mapsto> Map.empty] (\<lambda>_. X) (new_fs_meta F dr) False"
          by (intro new_fs_flash [OF _ v(2) _ out mid(1)]) (simp_all add: o)
        with f b Inr show ?thesis by auto
      qed
    qed
  qed
qed

lemma mount_virgin:
  assumes i: "inv s" and rd: "mount_ready s" and v: "fs_virgin F (objs s) (nxt s) img" and st: "\<not> fs_mounted st"
  shows "\<exists>r st' s' img'. blobfs_mount F (st, s) = Some (r, (st', s')) \<and> inv s' \<and> nxt s \<le> nxt s' \<and>
    (\<forall>x c. objs s x = Some c \<longrightarrow> c \<noteq> [] \<longrightarrow> x \<noteq> BLOB_DB_ROOT_ID \<longrightarrow> objs s' x = objs s x) \<and>
    registry (f_roots F) (objs s') img' \<and> (\<forall>k. k \<noteq> fs_key \<longrightarrow> map_of img' k = map_of img k) \<and>
    (case r of Inl _ \<Rightarrow> st' = st \<and> fs_virgin F (objs s') (nxt s') img'
     | Inr _ \<Rightarrow> \<exists>mid dr X mt. flash (objs s') mid [dr \<mapsto> Map.empty] (\<lambda>_. X) mt False \<and> fs_session st' mid mt False \<and>
         \<not> in_flight mt \<and> fm_dir_root mt = dr)"
proof -
  have reg: "registry (f_roots F) (objs s) img" using v by (simp add: fs_virgin_def)
  have rt: "unat BLOB_DB_ROOT_ID < nxt s" using reg bound_law [OF i] by (auto simp: registry_def)
  have lim: "nxt s < ID_LIMIT" using rd by (simp add: mount_ready_def)
  obtain r0 s0 where g: "rootreg_get_or_create A (f_roots F) s fs_key False = (r0, s0)" by fastforce
  note gs = get_or_create_spec [OF i lim f_roots reg fs_key_nonzero g]
  show ?thesis
  proof (cases r0)
    case (Inl e)
    have "blobfs_mount F (st, s) = Some (Inl e, (st, s0))" using g Inl st by (simp add: blobfs_mount_def fs_key_def)
    moreover have "fs_virgin F (objs s0) (nxt s0) img" using gs(6) [OF Inl] gs(2) v by (intro virgin_frame [OF v]) auto
    ultimately show ?thesis using gs reg Inl gs(6) [OF Inl]
      by (intro exI [of _ "Inl e"] exI [of _ st] exI [of _ s0] exI [of _ img]) simp
  next
    case (Inr mid)
    obtain img0 where im: "fs_virgin F (objs s0) (nxt s0) img0" "map_of img0 fs_key = Some mid" "\<And>k. k \<noteq> fs_key \<Longrightarrow> map_of img0 k = map_of img k"
      "nxt s0 \<le> nxt s + 1" "objs s mid = None \<or> objs s mid = Some []"
    proof (cases "map_of img fs_key")
      case None
      note n = gs(5) [OF None Inr]
      have "mid \<noteq> BLOB_DB_ROOT_ID" using n rt by auto
      moreover from this have "objs s0 mid = None" "objs s mid = None" using gs(3) [of mid] objs_fresh [OF i, of mid] n by auto
      moreover have "fs_key \<notin> fst ` set img" using None by (simp add: map_of_eq_None_iff)
      ultimately show ?thesis using n None
        by (intro that [of "img @ [(fs_key, mid)]"]) (auto simp: fs_virgin_def map_add_def split: option.splits)
    next
      case (Some y)
      with gs(4) [OF Some] Inr v show ?thesis by (intro that [of img]) (auto simp: fs_virgin_def)
    qed
    have reg0: "registry (f_roots F) (objs s0) img0" and mid: "mid \<noteq> BLOB_DB_ROOT_ID" "unat mid < nxt s0" "objs s0 mid = None \<or> objs s0 mid = Some []"
      using im(1,2) by (auto simp: fs_virgin_def)
    have rt0: "unat BLOB_DB_ROOT_ID < nxt s0" using rt gs(2) by simp
    have "nxt s0 + 1 + span \<le> ID_LIMIT" "\<And>s2. inv s2 \<Longrightarrow> nxt s2 \<le> nxt s0 + 1 \<Longrightarrow> ready s2 (Some (dir_config F))"
      using rd im(4) by (auto simp: mount_ready_def)
    from fs_format_law [OF gs(1) im(1,2) this] obtain r1 s1 where f: "fs_format F s0 mid = Some (r1, s1)" "boot_step s0 mid s1"
      "case r1 of Inl _ \<Rightarrow> objs s1 mid = objs s0 mid
       | Inr mt \<Rightarrow> \<exists>dr X. mt = new_fs_meta F dr \<and> flash (objs s1) mid [dr \<mapsto> Map.empty] (\<lambda>_. X) mt False" by blast
    have b: "inv s1" "nxt s0 \<le> nxt s1" "\<And>x. unat x < nxt s0 \<Longrightarrow> x \<noteq> mid \<Longrightarrow> objs s1 x = objs s0 x" using f(2) by (auto simp: boot_step_def)
    have keep: "objs s1 x = objs s x" if "objs s x = Some c" "c \<noteq> []" "x \<noteq> BLOB_DB_ROOT_ID" for x c
      using b(3) [of x] gs(2,3) bound_law [OF i that(1)] that im(5) by force
    have reg1: "registry (f_roots F) (objs s1) img0"
      using reg0 registry_frame [of "objs s1" "objs s0"] b(3) [OF rt0] mid(1) by auto
    have m: "blobfs_mount F (st, s) = Some (case r1 of Inl e \<Rightarrow> (Inl e, (st, s1)) | Inr mt \<Rightarrow> fs_bind F (st, s1) mid mt False)"
      using g Inr st meta_read_virgin [OF gs(1) mid(3)] f(1) by (cases r1) (simp_all add: blobfs_mount_def fs_key_def)
    show ?thesis
    proof (cases r1)
      case (Inl e)
      have eq: "objs s1 x = objs s0 x" if "unat x < nxt s0" for x using b(3) that f(3) Inl by force
      have "fs_virgin F (objs s1) (nxt s1) img0" by (rule virgin_frame [OF im(1) b(2)]) (use eq rt0 in auto)
      with m Inl keep reg1 im(3) b gs(2) show ?thesis
        by (intro exI [of _ "Inl e"] exI [of _ st] exI [of _ s1] exI [of _ img0]) auto
    next
      case r1: (Inr mt)
      then obtain dr X where mt: "mt = new_fs_meta F dr" and fl: "flash (objs s1) mid [dr \<mapsto> Map.empty] (\<lambda>_. X) mt False" using f(3) by auto
      let ?st = "st\<lparr>fs_meta_id := mid, fs_dir_root := dr, fs_meta_v1 := False, fs_intent_pending := False, fs_mounted := True\<rparr>"
      have "blobfs_mount F (st, s) = Some (Inr (), (?st, s1))" using m r1 mt by (simp add: fs_bind_def new_fs_meta_def)
      moreover have "fs_session ?st mid mt False" "\<not> in_flight mt" "fm_dir_root mt = dr"
        by (simp_all add: fs_session_def mt new_fs_meta_def in_flight_def)
      ultimately show ?thesis using keep reg1 im(3) b gs(2) fl
        by (intro exI [of _ "Inr ()"] exI [of _ ?st] exI [of _ s1] exI [of _ img0]) auto
    qed
  qed
qed

end

end
