(* ===== verification/Kv_Hash_Ops.thy ===== *)
theory Kv_Hash_Ops
  imports Kv_Hash_Spec
begin

text \<open>
  The operations of the hash map over any object store: a lookup reads the map of the tree, a set
  and a delete change it at their key when they succeed and nowhere when they fail, whatever call of
  the store failed, and neither touches an object that is not the map's.
\<close>

locale kv_store = object_store A inv objs nxt "MAX_PAYLOAD_LEN B"
  for A :: "'s blob_api" and inv objs nxt and B :: build +
  assumes payload: "MAX_PAYLOAD_LEN B \<le> ENT_LEN_MASK"
begin

section \<open>Directories\<close>

lemma dir_load_raw_image:
  assumes "inv s" "objs s x = Some (dir_bytes mg ver dp cs)" "fan_ok B ver (length cs)" "dp = 1 \<or> dp = 2"
    and "mg = KVHASH_DIR_MAGIC \<or> mg = KVHASH_DIR_DYING"
  shows "dir_load_raw B A s x = Inr (\<lparr>dbuf = dir_bytes mg ver dp cs, dn = length cs, ddepth = dp\<rparr>, mg = KVHASH_DIR_DYING)"
proof -
  have "dp < 3" using assms(4) by auto
  note f = dir_bytes_fields(1-4) [OF assms(3) this payload, where mg = mg]
  have "\<not> length (dir_bytes mg ver dp cs) < DIR_HDR_LEN" by (simp add: dir_len_def)
  then show ?thesis
    using assms f
    by (auto simp: dir_load_raw_def get_fits Let_def fan_ok_def KVHASH_VERSION_def KVHASH_VERSION_MIN_def)
qed

lemma dir_load_image:
  assumes "inv s" "objs s x = Some (dir_bytes KVHASH_DIR_MAGIC ver dp cs)" "fan_ok B ver (length cs)" "dp = 1 \<or> dp = 2"
  shows "dir_load B A s x = Inr \<lparr>dbuf = dir_bytes KVHASH_DIR_MAGIC ver dp cs, dn = length cs, ddepth = dp\<rparr>"
  using dir_load_raw_image [OF assms] by (simp add: dir_load_def KVHASH_DIR_MAGIC_def KVHASH_DIR_DYING_def)

definition leaf_dir :: "kvleaf \<Rightarrow> dir" where
  "leaf_dir lf =
     \<lparr>dbuf = dir_bytes KVHASH_DIR_MAGIC (lf_ver lf) 1 (lf_cs lf), dn = length (lf_cs lf), ddepth = 1\<rparr>"

lemma leaf_dir_sel [simp]:
  "dn (leaf_dir lf) = length (lf_cs lf)" "ddepth (leaf_dir lf) = 1"
  "dbuf (leaf_dir lf) = dir_bytes KVHASH_DIR_MAGIC (lf_ver lf) 1 (lf_cs lf)"
  by (simp_all add: leaf_dir_def)

lemma dir_load_leaf: "inv s \<Longrightarrow> leaf_holds B (objs s) lf \<Longrightarrow> dir_load B A s (lf_id lf) = Inr (leaf_dir lf)"
  using dir_load_image [of s "lf_id lf" "lf_ver lf" 1 "lf_cs lf"] by (simp add: leaf_holds_def leaf_dir_def)

lemma leaf_child:
  assumes "leaf_holds B m lf" "i < length (lf_cs lf)"
  shows "dir_child (dbuf (leaf_dir lf)) i = lf_cs lf ! i"
  using assms dir_bytes_fields(5) [of B "lf_ver lf" "lf_cs lf" 1] payload by (simp add: leaf_holds_def)

lemma resolve_leaf_holds:
  assumes "inv s" "tree_holds B (objs s) root t"
  shows "resolve_leaf B A s root h = Inr (lf_id (the_leaf t h), leaf_dir (the_leaf t h), bkt_ix t h)"
proof (cases "kt_top t")
  case None
  then obtain lf where t: "kt_leaves t = [lf]" and r: "lf_id lf = root"
    using assms(2) by (auto simp: tree_holds_def)
  have "leaf_holds B (objs s) lf" using assms(2) t by (simp add: tree_holds_def)
  from dir_load_leaf [OF assms(1) this] None t r show ?thesis
    by (simp add: resolve_leaf_def the_leaf_def leaf_ix_def bkt_ix_def)
next
  case (Some ver)
  let ?lf = "the_leaf t h" and ?ids = "map lf_id (kt_leaves t)"
  note sh = tree_shape(1-5) [OF assms(2), where h = h]
  have f: "fan_ok B ver (length ?ids)" and o: "objs s root = Some (dir_bytes KVHASH_DIR_MAGIC ver 2 ?ids)"
    using assms(2) Some by (simp_all add: tree_holds_def)
  have ix: "leaf_ix t h = idx_top h (length (kt_leaves t))" using Some by (simp add: leaf_ix_def)
  have "dir_child (dir_bytes KVHASH_DIR_MAGIC ver 2 ?ids) (idx_top h (length (kt_leaves t))) = lf_id ?lf"
    using dir_bytes_fields(5) [OF f, of 2 "leaf_ix t h" KVHASH_DIR_MAGIC] payload sh(1) ix by (simp add: the_leaf_def)
  moreover have "lf_id ?lf \<noteq> 0" using sh(3) by (simp add: leaf_holds_def)
  ultimately show ?thesis
    using dir_load_image [OF assms(1) o f] dir_load_leaf [OF assms(1) sh(3)]
    by (simp add: resolve_leaf_def bkt_ix_def)
qed

section \<open>Buckets\<close>

lemma key_blob:
  assumes "inv s" "objs s x = Some key"
  shows "key_chunk A s (KeyBlob x) 0 (length key) = Inr key"
  using assms bound_law [OF assms] by (simp add: key_chunk_def read_law)

lemma ent_key_at:
  assumes "aent_ok e"
  shows "ent_key (us @ ent_image B e @ vs) (ent_at B (length us) e) = (if ae_kid e \<noteq> 0 then KeyBlob (ae_kid e) else KeyRam (ae_key e))"
  using ent_image_fields(4,5) [OF assms, where us = us and B = B and vs = vs]
  by (auto simp: ent_key_def ent_at_def add.assoc)

lemma ent_matches_exact:
  assumes "inv s" "aent_ok e" "aent_bound (objs s) e"
  shows "ent_matches B A s (us @ ent_image B e @ vs) key (key_fp B key) (ent_at B (length us) e) = Inr (ae_key e = key)"
proof (cases "length (ae_key e) = length key \<and> ae_kid e \<noteq> 0 \<and> key_fp B (ae_key e) = key_fp B key")
  case True
  then have k: "objs s (ae_kid e) = Some (ae_key e)" using assms(3) by (simp add: aent_bound_def)
  then have len: "length key \<le> MAX_PAYLOAD_LEN B" using bound_law [OF assms(1) k] True by simp
  have "key_chunk A s (KeyBlob (ae_kid e)) 0 (length key) = Inr (ae_key e)"
    using key_blob [OF assms(1) k] True by simp
  then show ?thesis
    using True len ent_image_fields(3) [OF assms(2), where us = us and B = B and vs = vs]
      ent_key_at [OF assms(2), where us = us and vs = vs] memcmp_eq [of "ae_key e" key]
    by (simp add: ent_matches_def key_cmp_bytes_def) (simp add: ent_at_def)
next
  case False
  then show ?thesis
    using ent_image_fields(3,5) [OF assms(2), where us = us and B = B and vs = vs] memcmp_eq [of "ae_key e" key]
    by (auto simp: ent_matches_def ent_at_def)
qed

lemma bkt_find_skip:
  assumes "inv s" "\<forall>e \<in> set es. aent_ok e \<and> aent_bound (objs s) e \<and> ae_key e \<noteq> key"
    and "length (us @ bkt_image B es) \<le> used"
  shows "bkt_find B A s (us @ bkt_image B es @ vs) used key (key_fp B key) (length us) =
    bkt_find B A s (us @ bkt_image B es @ vs) used key (key_fp B key) (length us + length (bkt_image B es))"
  using assms(2,3)
proof (induction es arbitrary: us)
  case (Cons e es)
  then have ok: "aent_ok e" "aent_bound (objs s) e" "ae_key e \<noteq> key" by simp_all
  have "bkt_entry (us @ ent_image B e @ bkt_image B es @ vs) used (length us) = Some (ent_at B (length us) e)"
    by (rule bkt_entry_at [OF ok(1)]) (use Cons.prems(2) in simp)
  moreover have "ent_len (ent_at B (length us) e) = length (ent_image B e)" by (simp add: ent_at_def)
  ultimately show ?case
    using ent_matches_exact [OF assms(1) ok(1,2), of us "bkt_image B es @ vs" key] ok(3)
      Cons.IH [of "us @ ent_image B e"] Cons.prems
    by (subst bkt_find.simps) (simp add: add.assoc)
qed simp

lemma bkt_find_exact:
  assumes "inv s" "bucket_holds B (objs s) bid es"
  shows "key \<notin> ae_key ` set es \<Longrightarrow> bkt_find B A s (bkt_image B es) (length (bkt_image B es)) key (key_fp B key) 0 = Inl ENOENT"
    "es = us @ e # vs \<Longrightarrow> ae_key e = key \<Longrightarrow>
      bkt_find B A s (bkt_image B es) (length (bkt_image B es)) key (key_fp B key) 0 =
        Inr (length (bkt_image B us), ent_at B (length (bkt_image B us)) e)"
proof -
  have ok: "\<forall>e \<in> set es. aent_ok e \<and> aent_bound (objs s) e" and d: "distinct (map ae_key es)"
    using assms(2) by (simp_all add: bucket_holds_def)
  show "bkt_find B A s (bkt_image B es) (length (bkt_image B es)) key (key_fp B key) 0 = Inl ENOENT" if "key \<notin> ae_key ` set es"
  proof -
    let ?n = "length (bkt_image B es)"
    have "bkt_find B A s (bkt_image B es) ?n key (key_fp B key) 0 = bkt_find B A s (bkt_image B es) ?n key (key_fp B key) ?n"
      using bkt_find_skip [OF assms(1), of es key "[]" ?n "[]"] ok that by auto
    also have "\<dots> = Inl ENOENT" by (subst bkt_find.simps) simp
    finally show ?thesis .
  qed
  assume es: "es = us @ e # vs" and k: "ae_key e = key"
  then have us: "\<forall>e \<in> set us. aent_ok e \<and> aent_bound (objs s) e \<and> ae_key e \<noteq> key" and e: "aent_ok e" "aent_bound (objs s) e"
    using ok d by (auto simp: image_iff)
  let ?buf = "bkt_image B us @ ent_image B e @ bkt_image B vs"
  have "bkt_find B A s ?buf (length ?buf) key (key_fp B key) 0 = bkt_find B A s ?buf (length ?buf) key (key_fp B key) (length (bkt_image B us))"
    using bkt_find_skip [OF assms(1) us, of "[]" "length ?buf" "ent_image B e @ bkt_image B vs"] by simp
  also have "\<dots> = Inr (length (bkt_image B us), ent_at B (length (bkt_image B us)) e)"
    using bkt_entry_at [OF e(1), where us = "bkt_image B us" and B = B and vs = "bkt_image B vs" and used = "length ?buf"]
      ent_matches_exact [OF assms(1) e, of "bkt_image B us" "bkt_image B vs" key] k
    by (subst bkt_find.simps) simp
  finally show "bkt_find B A s (bkt_image B es) (length (bkt_image B es)) key (key_fp B key) 0 =
        Inr (length (bkt_image B us), ent_at B (length (bkt_image B us)) e)" by (simp add: es)
qed

lemma ent_value_exact:
  assumes "inv s" "aent_ok e" "aent_bound (objs s) e"
  shows "ent_value A s (us @ ent_image B e @ vs) (ent_at B (length us) e) out_sz =
    (if length (ae_val e) > out_sz then Inl ENOMEM else Inr (ae_val e))"
proof (cases "ae_vid e = 0")
  case True
  then show ?thesis
    using ent_image_fields(7) [OF assms(2), where us = us and B = B and vs = vs]
    by (simp add: ent_value_def) (simp add: ent_at_def)
next
  case False
  then have "length (ae_val e) \<le> out_sz \<Longrightarrow> api_get A s (ae_vid e) out_sz = Inr (ae_val e)"
    using assms(1,3) by (simp add: get_Inr aent_bound_def)
  with False show ?thesis
    using ent_at_ids(2) [OF assms(2), where us = us and B = B and vs = vs]
    by (simp add: ent_value_def Let_def) (simp add: ent_at_def)
qed

section \<open>Lookup\<close>

lemma key_place:
  assumes "inv s" "tree_ok B (objs s) root t"
  shows "resolve_leaf B A s root h = Inr (lf_id (the_leaf t h), leaf_dir (the_leaf t h), bkt_ix t h)"
    "dir_child (dbuf (leaf_dir (the_leaf t h))) (bkt_ix t h) = the_child t h"
    "bucket_holds B (objs s) (the_child t h) (the_bucket t h)"
    "the_child t h \<noteq> 0 \<Longrightarrow> api_get A s (the_child t h) (MAX_PAYLOAD_LEN B) = Inr (bkt_image B (the_bucket t h))"
proof -
  have h: "tree_holds B (objs s) root t" using assms(2) by (simp add: tree_ok_def)
  note sh = tree_shape(1-5) [OF h, where h = h]
  show "resolve_leaf B A s root h = Inr (lf_id (the_leaf t h), leaf_dir (the_leaf t h), bkt_ix t h)"
    by (rule resolve_leaf_holds [OF assms(1) h])
  show "dir_child (dbuf (leaf_dir (the_leaf t h))) (bkt_ix t h) = the_child t h"
    using leaf_child [OF sh(3,4)] by (simp add: the_child_def)
  show b: "bucket_holds B (objs s) (the_child t h) (the_bucket t h)"
    using sh(3,4) by (simp add: leaf_holds_def the_child_def the_bucket_def)
  show "the_child t h \<noteq> 0 \<Longrightarrow> api_get A s (the_child t h) (MAX_PAYLOAD_LEN B) = Inr (bkt_image B (the_bucket t h))"
    using b by (simp add: get_fits [OF assms(1)] bucket_holds_def)
qed

lemma key_cases:
  assumes "inv s" "tree_ok B (objs s) root t"
  obtains (absent) "key \<notin> ae_key ` set (the_bucket t (key_hash B key))" "tree_map t key = None"
  | (present) us e vs where "the_bucket t (key_hash B key) = us @ e # vs" "ae_key e = key" "tree_map t key = Some (ae_val e)"
      "the_child t (key_hash B key) \<noteq> 0" "aent_ok e" "aent_bound (objs s) e" "key \<notin> ae_key ` set (us @ vs)"
proof (cases "key \<in> ae_key ` set (the_bucket t (key_hash B key))")
  case False
  moreover have "tree_map t key = None"
    using tree_map_at [of B "objs s" root t key] assms(2) False by (simp add: tree_ok_def map_of_eq_None_iff)
  ultimately show ?thesis by (rule absent)
next
  case True
  let ?es = "the_bucket t (key_hash B key)"
  note b = key_place(3) [OF assms, of "key_hash B key"]
  from True obtain us e vs where es: "?es = us @ e # vs" and k: "ae_key e = key" by (metis imageE split_list)
  have d: "key \<notin> ae_key ` set (us @ vs)" using b es k by (auto simp: bucket_holds_def image_iff)
  have "map_of (ent_pairs us) key = None" using d by (simp add: map_of_eq_None_iff image_Un)
  then have "tree_map t key = Some (ae_val e)"
    using tree_map_at [of B "objs s" root t key] assms(2) es k by (simp add: tree_ok_def map_add_def)
  with b es k d show ?thesis by (intro present [of us e vs]) (auto simp: bucket_holds_def split: if_splits)
qed

lemma bkt_find_place:
  assumes "inv s" "tree_ok B (objs s) root t"
  shows "key \<notin> ae_key ` set (the_bucket t (key_hash B key)) \<Longrightarrow>
      bkt_find B A s (bkt_image B (the_bucket t (key_hash B key))) (length (bkt_image B (the_bucket t (key_hash B key)))) key
        (hash_fp (key_hash B key)) 0 = Inl ENOENT"
    "the_bucket t (key_hash B key) = us @ e # vs \<Longrightarrow> ae_key e = key \<Longrightarrow>
      bkt_find B A s (bkt_image B (us @ e # vs)) (length (bkt_image B (us @ e # vs))) key (hash_fp (key_hash B key)) 0 =
        Inr (length (bkt_image B us), ent_at B (length (bkt_image B us)) e)"
  using bkt_find_exact(1) [OF assms(1) key_place(3) [OF assms], of key "key_hash B key"]
    bkt_find_exact(2) [OF assms(1) key_place(3) [OF assms], of "key_hash B key" us e vs key]
  by (simp_all add: key_fp_def)

lemma kvhash_get_map:
  assumes "inv s" "tree_ok B (objs s) root t"
  shows "kvhash_get B A s root key out_sz =
    (if key = [] \<or> length key > 0xffff then (Inl EINVAL, None)
     else case tree_map t key of
       None \<Rightarrow> (Inl ENOENT, None)
     | Some v \<Rightarrow> (if out_sz < length v then Inl ENOMEM else Inr v, Some (length v)))"
proof (cases "key = [] \<or> length key > 0xffff")
  case False
  note p = key_place [OF assms, of "key_hash B key"]
  from assms show ?thesis
  proof (cases rule: key_cases [where key = key])
    case absent
    with False p bkt_find_place(1) [OF assms absent(1)] show ?thesis
      by (auto simp: kvhash_get_def Let_def)
  next
    case (present us e vs)
    have "vl (ent_at B n e) = length (ae_val e)" for n by (simp add: ent_at_def)
    moreover have "length key \<le> ENT_LEN_MASK" using present by (simp add: aent_ok_def)
    ultimately show ?thesis
      using False present p bkt_find_place(2) [OF assms present(1,2)]
        ent_value_exact [OF assms(1) present(5,6), of "bkt_image B us" "bkt_image B vs" out_sz]
      by (auto simp: kvhash_get_def Let_def)
  qed
qed (simp add: kvhash_get_def)

section \<open>What a write may change\<close>

text \<open>Ids at or above \<open>nxt s\<close> are new; what lies below is the state of before.\<close>

definition quiet :: "'s \<Rightarrow> 's \<Rightarrow> bool" where
  "quiet s s' \<longleftrightarrow> inv s' \<and> nxt s \<le> nxt s' \<and> (\<forall>x. unat x < nxt s \<longrightarrow> objs s' x = objs s x)"

definition evolves :: "u64 \<Rightarrow> 's \<Rightarrow> kvtree \<Rightarrow> 's \<Rightarrow> kvtree \<Rightarrow> bool" where
  "evolves root s t s' t' \<longleftrightarrow>
     inv s' \<and> nxt s \<le> nxt s' \<and> tree_ok B (objs s') root t' \<and> leaf_ix t' = leaf_ix t \<and> bkt_ix t' = bkt_ix t \<and>
     (\<forall>x. unat x < nxt s \<longrightarrow> x \<notin> set (tree_ids root t) \<longrightarrow> objs s' x = objs s x) \<and>
     (\<forall>x \<in> set (tree_ids root t'). x \<in> set (tree_ids root t) \<or> nxt s \<le> unat x)"

lemma quiet_refl [simp]: "inv s \<Longrightarrow> quiet s s"
  by (simp add: quiet_def)

lemma tree_ids_live:
  assumes "inv s" "tree_ok B (objs s) root t" "x \<in> set (tree_ids root t)"
  shows "objs s x \<noteq> None" "unat x < nxt s" "x \<noteq> 0"
proof -
  have h: "tree_holds B (objs s) root t" using assms(2) by (simp add: tree_ok_def)
  have bucket: "objs s y \<noteq> None" if "bucket_holds B (objs s) c es" "y \<in> set (slot_ids c es)" for y c es
    using that by (auto simp: bucket_holds_def slot_ids_simps aent_bound_def split: if_splits)
  have leaf: "objs s y \<noteq> None" if lf: "lf \<in> set (kt_leaves t)" and y: "y \<in> set (leaf_ids lf)" for y lf
  proof -
    have l: "leaf_holds B (objs s) lf" using h lf by (simp add: tree_holds_def)
    from y consider "y = lf_id lf" | i where "i < length (lf_cs lf)" "y \<in> set (slot_ids (lf_cs lf ! i) (lf_bs lf ! i))"
    proof (cases "y = lf_id lf")
      case False
      then consider "y \<in> set (lf_cs lf)" "y \<noteq> 0" | es where "es \<in> set (lf_bs lf)" "y \<in> set (bucket_ids es)"
        using y by (auto simp: leaf_ids_def)
      then obtain i where "i < length (lf_cs lf)" "y \<in> set (slot_ids (lf_cs lf ! i) (lf_bs lf ! i))"
        using l by cases (fastforce simp: in_set_conv_nth slot_ids_simps(1) leaf_holds_def)+
      then show ?thesis by (rule that(2))
    qed
    then show ?thesis using l bucket by cases (auto simp: leaf_holds_def)
  qed
  have "objs s root \<noteq> None" if "kt_top t \<noteq> None" using h that by (auto simp: tree_holds_def)
  with assms(3) leaf show o: "objs s x \<noteq> None" by (auto simp: tree_ids_def split: if_splits)
  then show "unat x < nxt s" "x \<noteq> 0" using bound_law [OF assms(1), of x] by auto
qed

lemma quiet_tree: "inv s \<Longrightarrow> tree_ok B (objs s) root t \<Longrightarrow> quiet s s' \<Longrightarrow> tree_ok B (objs s') root t"
  using tree_ids_live(2) by (auto simp: quiet_def intro: tree_ok_frame)

lemma quiet_evolves: "inv s \<Longrightarrow> tree_ok B (objs s) root t \<Longrightarrow> quiet s s' \<Longrightarrow> evolves root s t s' t"
  using quiet_tree [of s root t s'] by (simp add: evolves_def quiet_def)

lemma release_law:
  assumes "inv s"
  shows "inv (release_part A s x)" "nxt (release_part A s x) = nxt s"
    "y \<noteq> x \<Longrightarrow> objs (release_part A s x) y = objs s y"
proof -
  obtain r s1 where d: "api_delete A s x = (r, s1)" by fastforce
  from delete_law [OF assms d] d show "inv (release_part A s x)" "nxt (release_part A s x) = nxt s"
    "y \<noteq> x \<Longrightarrow> objs (release_part A s x) y = objs s y"
    using assms by (auto simp: release_part_def kv_delete_def effect_def split: sum.splits)
qed

lemma release_zero [simp]: "release_part A s 0 = s"
  by (simp add: release_part_def)

text \<open>One bucket replaced: what the map becomes.\<close>

lemma slot_of:
  assumes "tree_ok B m root t"
  shows "distinct (slot_ids (the_child t h) (the_bucket t h))" "lf_id (the_leaf t h) \<notin> set (slot_ids (the_child t h) (the_bucket t h))"
    "set (slot_ids (the_child t h) (the_bucket t h)) \<subseteq> set (tree_ids root t)" "lf_id (the_leaf t h) \<in> set (tree_ids root t)"
proof -
  have h: "tree_holds B m root t" and d: "distinct (tree_ids root t)" using assms by (simp_all add: tree_ok_def)
  obtain rs where rs: "\<And>c es. mset (tree_ids root (put_bucket t h c es)) = mset (rs @ slot_ids c es)" "lf_id (the_leaf t h) \<in> set rs"
    using put_bucket_ids [OF h] by blast
  have o: "mset (tree_ids root t) = mset (rs @ slot_ids (the_child t h) (the_bucket t h))"
    using rs(1) [of "the_child t h" "the_bucket t h"] by (simp add: put_bucket_same [OF h])
  then have "distinct (rs @ slot_ids (the_child t h) (the_bucket t h))" using mset_eq_imp_distinct_iff [OF o] d by simp
  with rs(2) mset_eq_setD [OF o] show "distinct (slot_ids (the_child t h) (the_bucket t h))"
    "lf_id (the_leaf t h) \<notin> set (slot_ids (the_child t h) (the_bucket t h))"
    "set (slot_ids (the_child t h) (the_bucket t h)) \<subseteq> set (tree_ids root t)" "lf_id (the_leaf t h) \<in> set (tree_ids root t)"
    by auto
qed

lemma put_bucket_ok:
  fixes key :: "byte list"
  assumes ok: "tree_ok B m root t"
  defines "h \<equiv> key_hash B key"
  assumes keep: "\<And>x. x \<in> set (tree_ids root t) \<Longrightarrow> x \<noteq> lf_id (the_leaf t h) \<Longrightarrow> x \<notin> set (slot_ids (the_child t h) (the_bucket t h)) \<Longrightarrow> m' x = m x"
    and dir: "m' (lf_id (the_leaf t h)) =
      Some (dir_bytes KVHASH_DIR_MAGIC (lf_ver (the_leaf t h)) 1 ((lf_cs (the_leaf t h))[bkt_ix t h := c]))"
    and bk: "bucket_holds B m' c es" and n: "distinct (slot_ids c es)"
    and fresh: "\<And>x. x \<in> set (slot_ids c es) \<Longrightarrow> x \<in> set (tree_ids root t) \<Longrightarrow> x \<in> set (slot_ids (the_child t h) (the_bucket t h))"
    and ks: "ae_key ` set es \<subseteq> insert key (ae_key ` set (the_bucket t h))"
    and mp: "map_of (ent_pairs es) = (map_of (ent_pairs (the_bucket t h)))(key := v)"
  shows "tree_ok B m' root (put_bucket t h c es) \<and> tree_map (put_bucket t h c es) = (tree_map t)(key := v) \<and>
    set (tree_ids root (put_bucket t h c es)) =
       set (tree_ids root t) - set (slot_ids (the_child t h) (the_bucket t h)) \<union> set (slot_ids c es)"
proof (intro conjI)
  have hd: "tree_holds B m root t" and d: "distinct (tree_ids root t)" and p: "placed B t"
    using ok by (simp_all add: tree_ok_def)
  note sh = tree_shape(1-5) [OF hd, where h = h]
  have hd': "tree_holds B m' root (put_bucket t h c es)"
    by (rule put_bucket_holds [OF hd d]) (use keep dir bk in auto)
  have there: "leaf_ix t (key_hash B (ae_key e)) = leaf_ix t h \<and> bkt_ix t (key_hash B (ae_key e)) = bkt_ix t h"
    if "e \<in> set (the_bucket t h)" for e
    using p sh that unfolding placed_def the_bucket_def the_leaf_def by simp
  have "leaf_ix t (key_hash B (ae_key e)) = leaf_ix t h \<and> bkt_ix t (key_hash B (ae_key e)) = bkt_ix t h" if "e \<in> set es" for e
  proof -
    from that ks have "ae_key e = key \<or> (\<exists>e' \<in> set (the_bucket t h). ae_key e = ae_key e')" by fastforce
    with there show ?thesis by (auto simp: h_def)
  qed
  then have p': "placed B (put_bucket t h c es)" by (rule put_bucket_placed [OF hd p])
  show "tree_ok B m' root (put_bucket t h c es)"
    using hd' p' put_bucket_distinct(1) [OF hd d n fresh] by (simp add: tree_ok_def)
  show "set (tree_ids root (put_bucket t h c es)) =
       set (tree_ids root t) - set (slot_ids (the_child t h) (the_bucket t h)) \<union> set (slot_ids c es)"
    by (rule put_bucket_distinct(2) [OF hd d n fresh])
  show "tree_map (put_bucket t h c es) = (tree_map t)(key := v)"
    using put_bucket_map [OF hd p, of m' key c es v] hd' p' mp by (simp add: h_def)
qed

lemma bucket_ids_simps [simp]:
  "bucket_ids [] = []" "bucket_ids (e # es) = ent_ids e @ bucket_ids es" "bucket_ids (es @ es') = bucket_ids es @ bucket_ids es'"
  by (simp_all add: bucket_ids_def)

lemma slot_split:
  assumes "tree_ok B m root t" "the_bucket t h = us @ olds @ vs"
  shows "set (slot_ids (the_child t h) (the_bucket t h)) = {x. x = the_child t h \<and> x \<noteq> 0} \<union> set (bucket_ids (us @ vs)) \<union> set (bucket_ids olds)"
    "distinct (bucket_ids (us @ vs))" "set (bucket_ids olds) \<inter> set (bucket_ids (us @ vs)) = {}"
    "the_child t h \<notin> set (bucket_ids (us @ olds @ vs))" "distinct (bucket_ids olds)"
proof -
  have d: "distinct (slot_ids (the_child t h) (us @ olds @ vs))" using slot_of(1) [OF assms(1), of h] assms(2) by simp
  show "set (slot_ids (the_child t h) (the_bucket t h)) = {x. x = the_child t h \<and> x \<noteq> 0} \<union> set (bucket_ids (us @ vs)) \<union> set (bucket_ids olds)"
    by (auto simp: slot_ids_simps(1) assms(2))
  show "distinct (bucket_ids (us @ vs))" "set (bucket_ids olds) \<inter> set (bucket_ids (us @ vs)) = {}" "distinct (bucket_ids olds)"
    using d by (auto simp: slot_ids_def)
  have "0 \<notin> set (bucket_ids (us @ olds @ vs))" by (auto simp: slot_ids_simps(2,3))
  then show "the_child t h \<notin> set (bucket_ids (us @ olds @ vs))" using d by (cases "the_child t h = 0") (auto simp: slot_ids_def)
qed

lemma map_of_drop_key:
  assumes "distinct (map ae_key (us @ olds @ vs))" "ae_key ` set olds \<subseteq> {key}" "key \<notin> ae_key ` set (us @ vs)"
  shows "map_of (ent_pairs (us @ vs)) = (map_of (ent_pairs (us @ olds @ vs)))(key := None)"
proof
  fix k
  have "map_of (ent_pairs olds) k = None" if "k \<noteq> key" using assms(2) that by (auto simp: map_of_eq_None_iff)
  moreover have "map_of (ent_pairs us) key = None" "map_of (ent_pairs vs) key = None"
    using assms(3) by (auto simp: map_of_eq_None_iff)
  ultimately show "map_of (ent_pairs (us @ vs)) k = ((map_of (ent_pairs (us @ olds @ vs)))(key := None)) k"
    by (auto simp: map_add_def split: option.splits)
qed

text \<open>The step every change of the map is: a bucket is rewritten or published, with the key's entry
  replaced by \<open>news\<close>.\<close>

lemma bucket_ids_mset: "mset es = mset es' \<Longrightarrow> mset (bucket_ids es) = mset (bucket_ids es')"
proof -
  assume "mset es = mset es'"
  then have "mset (map (\<lambda>e. mset (ent_ids e)) es) = mset (map (\<lambda>e. mset (ent_ids e)) es')" by simp
  then have "sum_list (map (\<lambda>e. mset (ent_ids e)) es) = sum_list (map (\<lambda>e. mset (ent_ids e)) es')"
    by (metis sum_mset_sum_list)
  then show ?thesis by (simp add: bucket_ids_def mset_concat comp_def)
qed

lemma bucket_commit:
  fixes key :: "byte list"
  assumes i: "inv s" and ok: "tree_ok B (objs s) root t" and i': "inv s'" "nxt s \<le> nxt s'"
  defines "h \<equiv> key_hash B key"
  assumes es: "the_bucket t h = us @ olds @ vs" "ae_key ` set olds \<subseteq> {key}" "key \<notin> ae_key ` set (us @ vs)"
    and c: "c \<noteq> 0" "c = the_child t h \<or> nxt s \<le> unat c" "objs s' c = Some (bkt_image B es')"
    and dir: "objs s' (lf_id (the_leaf t h)) =
      Some (dir_bytes KVHASH_DIR_MAGIC (lf_ver (the_leaf t h)) 1 ((lf_cs (the_leaf t h))[bkt_ix t h := c]))"
    and out: "\<And>x. unat x < nxt s \<Longrightarrow> x \<notin> set (bucket_ids olds) \<Longrightarrow> x \<noteq> c \<Longrightarrow> x \<noteq> lf_id (the_leaf t h) \<Longrightarrow> objs s' x = objs s x"
    and es': "mset es' = mset (us @ vs @ news)"
    and news: "length news \<le> 1" "\<And>e. e \<in> set news \<Longrightarrow> ae_key e = key \<and> aent_ok e \<and> aent_bound (objs s') e"
    and ids: "distinct (c # bucket_ids news)"
      "\<And>x. x \<in> set (bucket_ids news) \<Longrightarrow> x \<in> set (bucket_ids olds) \<or> nxt s \<le> unat x"
    and v: "v = map_of (ent_pairs news) key"
  shows "evolves root s t s' (put_bucket t h c es') \<and> tree_map (put_bucket t h c es') = (tree_map t)(key := v)"
proof -
  let ?m = "objs s'" and ?c = "the_child t h" and ?t = "put_bucket t h c es'" and ?slot = "slot_ids (the_child t h) (the_bucket t h)"
  note sp = slot_split [OF ok es(1)] and so = slot_of [OF ok, of h] and live = tree_ids_live [OF i ok]
  note sets = mset_eq_setD [OF es', simplified] and iset = mset_eq_setD [OF bucket_ids_mset [OF es'], simplified]
  have new_id: "x \<notin> set (tree_ids root t)" if "nxt s \<le> unat x" for x using live(2) [of x] that by auto
  have slot_tree: "set (bucket_ids (us @ olds @ vs)) \<subseteq> set (tree_ids root t)" using so(3) sp(1) by auto
  have c_rest: "c \<notin> set (bucket_ids (us @ vs))" using c(2) sp(4) new_id [of c] slot_tree by auto
  have lf: "lf_id (the_leaf t h) \<notin> set ?slot" by (rule so(2))
  have keep: "?m x = objs s x" if x: "x \<in> set (bucket_ids (us @ vs))" for x
  proof (rule out)
    show "unat x < nxt s" using x slot_tree live(2) by auto
    show "x \<notin> set (bucket_ids olds)" "x \<noteq> c" "x \<noteq> lf_id (the_leaf t h)" using x sp(1,3) c_rest lf by auto
  qed
  have old: "bucket_holds B (objs s) ?c (us @ olds @ vs)" using key_place(3) [OF i ok, of h] es(1) by simp
  have dk: "distinct (map ae_key (us @ vs @ news))"
    using old news(1,2) es(3) by (cases news) (auto simp: bucket_holds_def)
  have bh: "bucket_holds B ?m c es'"
    unfolding bucket_holds_def
  proof (intro conjI ballI)
    show "distinct (map ae_key es')" using dk mset_eq_imp_distinct_iff [of "map ae_key es'"] es' by (metis mset_map)
    fix e assume e: "e \<in> set es'"
    have "aent_ok e \<and> aent_bound ?m e"
    proof (cases "e \<in> set news")
      case False
      with e sets have e': "e \<in> set (us @ vs)" by auto
      then have "set (ent_ids e) \<subseteq> set (bucket_ids (us @ vs))" by (auto simp: slot_ids_simps(2))
      then have "aent_bound ?m e = aent_bound (objs s) e" by (intro aent_bound_frame keep) auto
      with old e' show ?thesis by (auto simp: bucket_holds_def)
    qed (use news in auto)
    then show "aent_ok e" "aent_bound ?m e" by simp_all
  qed (use c in simp)
  have news_rest: "set (bucket_ids news) \<inter> set (bucket_ids (us @ vs)) = {}"
    using ids(2) sp(3) new_id slot_tree by fastforce
  have "distinct (slot_ids c (us @ vs @ news))"
    using sp(2) ids(1) c_rest news_rest c(1) by (auto simp: slot_ids_def)
  then have dist: "distinct (slot_ids c es')"
    using mset_eq_imp_distinct_iff [of "slot_ids c es'" "slot_ids c (us @ vs @ news)"] bucket_ids_mset [OF es'] by (simp add: slot_ids_def)
  have mp: "map_of (ent_pairs es') = (map_of (ent_pairs (us @ olds @ vs)))(key := v)"
  proof -
    have "distinct (map fst (ent_pairs es'))" "distinct (map fst (ent_pairs (news @ us @ vs)))"
      using dk bh by (auto simp: ent_pairs_def comp_def bucket_holds_def)
    moreover have "set (ent_pairs es') = set (ent_pairs (news @ us @ vs))" using sets by (auto simp: ent_pairs_def)
    ultimately have "map_of (ent_pairs es') = map_of (ent_pairs (news @ us @ vs))" by (simp only: map_of_inject_set)
    also have "\<dots> = (map_of (ent_pairs (us @ vs)))(key := v)"
    proof
      fix k
      have "map_of (ent_pairs news) k = None" if "k \<noteq> key" using news(2) that by (auto simp: map_of_eq_None_iff)
      moreover have "map_of (ent_pairs (us @ vs)) key = None" using es(3) by (auto simp: map_of_eq_None_iff image_Un)
      ultimately show "map_of (ent_pairs (news @ us @ vs)) k = ((map_of (ent_pairs (us @ vs)))(key := v)) k"
        by (auto simp: v map_add_def split: option.splits)
    qed
    finally show ?thesis using map_of_drop_key [of us olds vs key] old es(2,3) by (simp add: bucket_holds_def)
  qed
  have new_slot: "x \<in> set ?slot \<or> nxt s \<le> unat x" if "x \<in> set (slot_ids c es')" for x
  proof (cases "x = c")
    case True
    with c(1,2) sp(1) show ?thesis by blast
  next
    case False
    with that have "x \<in> set (bucket_ids es')" by (simp add: slot_ids_simps(1))
    with iset have "x \<in> set (bucket_ids (us @ vs)) \<or> x \<in> set (bucket_ids news)" by auto
    with ids(2) [of x] sp(1) show ?thesis by blast
  qed
  have off: "?m x = objs s x" if "unat x < nxt s" "x \<noteq> lf_id (the_leaf t h)" "x \<notin> set ?slot" for x
  proof (rule out)
    show "x \<notin> set (bucket_ids olds)" using that(3) sp(1) by blast
    have "?c \<noteq> 0 \<Longrightarrow> ?c \<in> set ?slot" using sp(1) by blast
    then show "x \<noteq> c" using c(1,2) that(1,3) by auto
  qed (rule that)+
  have P: "tree_ok B ?m root ?t \<and> tree_map ?t = (tree_map t)(key := v) \<and>
    set (tree_ids root ?t) = set (tree_ids root t) - set ?slot \<union> set (slot_ids c es')"
  proof (rule put_bucket_ok [OF ok, where key = key, folded h_def])
    show "x \<in> set ?slot" if "x \<in> set (slot_ids c es')" "x \<in> set (tree_ids root t)" for x
      using new_slot [OF that(1)] new_id [of x] that(2) by blast
    show "?m x = objs s x" if "x \<in> set (tree_ids root t)" "x \<noteq> lf_id (the_leaf t h)" "x \<notin> set ?slot" for x
      by (rule off) (use that live(2) in auto)
    show "ae_key ` set es' \<subseteq> insert key (ae_key ` set (the_bucket t h))" using sets es(1) news(2) by auto
  qed (use dir bh dist mp es(1) in simp_all)
  moreover have "?m x = objs s x" if "unat x < nxt s" "x \<notin> set (tree_ids root t)" for x
    by (rule off) (use that so in auto)
  moreover have "x \<in> set (tree_ids root t) \<or> nxt s \<le> unat x" if "x \<in> set (tree_ids root ?t)" for x
    using that P new_slot [of x] so(3) by blast
  moreover have "bkt_ix ?t = bkt_ix t" using ok put_bucket_ix(1) by (auto simp: tree_ok_def)
  ultimately show ?thesis using i' by (simp add: evolves_def)
qed

section \<open>Delete\<close>

lemma child_same: "tree_ok B (objs s) root t \<Longrightarrow> objs s (lf_id (the_leaf t h)) =
    Some (dir_bytes KVHASH_DIR_MAGIC (lf_ver (the_leaf t h)) 1 ((lf_cs (the_leaf t h))[bkt_ix t h := the_child t h]))"
  using tree_shape(3) [of B "objs s" root t h] by (simp add: leaf_holds_def tree_ok_def the_child_def)

lemma kvhash_del_map:
  assumes i: "inv s" and ok: "tree_ok B (objs s) root t" and r: "kvhash_del B A s root key = (r, s')"
  shows "(\<exists>t'. evolves root s t s' t' \<and> tree_map t' = effect r ((tree_map t)(key := None)) (tree_map t)) \<and> nxt s' = nxt s \<and>
    (tree_map t key = None \<longrightarrow> r = Inl (if key = [] \<or> length key > 0xffff then EINVAL else ENOENT) \<and> s' = s)"
  using i ok
proof (cases rule: key_cases [where key = key])
  case absent
  note p = key_place [OF i ok, of "key_hash B key"]
  have "r = Inl (if key = [] \<or> length key > 0xffff then EINVAL else ENOENT) \<and> s' = s"
    using r p absent bkt_find_place(1) [OF i ok absent(1)] by (auto simp: kvhash_del_def Let_def split: if_splits)
  then show ?thesis using quiet_evolves [OF i ok, of s] i by auto
next
  case (present us e vs)
  let ?h = "key_hash B key" and ?n = "length (bkt_image B us)"
  let ?c = "the_child t ?h" and ?lf = "the_leaf t (key_hash B key)"
  note p = key_place [OF i ok, of ?h]
  have k: "key \<noteq> []" "length key \<le> ENT_LEN_MASK" using present by (auto simp: aent_ok_def)
  have len: "ent_len (ent_at B ?n e) = length (ent_image B e)" by (simp add: ent_at_def)
  obtain r1 s1 where u: "api_update A s ?c (bkt_image B (us @ vs)) = (r1, s1)" by fastforce
  have run: "(r, s') = seqs (r1, s1) (\<lambda>_ s. (Inr (), release_part A (release_part A s (ae_kid e)) (ae_vid e)))"
    using r p present(1,4) k bkt_find_place(2) [OF i ok present(1,2)] len u
      ent_at_ids [OF present(5), where us = "bkt_image B us" and B = B and vs = "bkt_image B vs"]
    by (simp add: kvhash_del_def Let_def kv_update_def ENT_LEN_MASK_def)
  note ul = update_law [OF i u]
  show ?thesis
  proof (cases r1)
    case (Inl x)
    with run ul have "r = Inl x" "quiet s s'" "nxt s' = nxt s" by (auto simp: quiet_def)
    with quiet_evolves [OF i ok] present(3) show ?thesis by auto
  next
    case (Inr x)
    have s': "r = Inr ()" "s' = release_part A (release_part A s1 (ae_kid e)) (ae_vid e)" using run Inr by auto
    have inv': "inv s'" "nxt s' = nxt s" using ul s' by (simp_all add: release_law)
    have m': "objs s' x = (if x = ?c then Some (bkt_image B (us @ vs)) else objs s x)" if "x \<noteq> ae_kid e" "x \<noteq> ae_vid e" for x
      using ul s' that Inr by (simp add: release_law)
    have es: "the_bucket t ?h = us @ [e] @ vs" using present(1) by simp
    note sp = slot_split [OF ok es] and so = slot_of [OF ok, of ?h]
    have out: "objs s' x = objs s x" if "x \<notin> set (bucket_ids [e])" "x \<noteq> ?c" for x
      using that m' [of x] inv'(1) i by (cases "x = 0") (auto simp: slot_ids_simps)
    have lf: "lf_id ?lf \<noteq> ?c" "lf_id ?lf \<notin> set (bucket_ids [e])" using so(2) sp(1) present(4) by auto
    have "evolves root s t s' (put_bucket t ?h ?c (us @ vs)) \<and> tree_map (put_bucket t ?h ?c (us @ vs)) = (tree_map t)(key := None)"
    proof (rule bucket_commit [OF i ok, where news = "[]"])
      show "objs s' ?c = Some (bkt_image B (us @ vs))" using m' [of ?c] sp(4) present(4) by (auto simp: slot_ids_simps)
      show "objs s' (lf_id ?lf) = Some (dir_bytes KVHASH_DIR_MAGIC (lf_ver ?lf) 1 ((lf_cs ?lf)[bkt_ix t ?h := ?c]))"
        using out lf child_same [OF ok] by simp
      show "the_bucket t ?h = us @ [e] @ vs" by (rule es)
    qed (use present inv' out in auto)
    with s'(1) inv' present(3) show ?thesis by auto
  qed
qed

section \<open>Set\<close>

lemma quiet_release: "quiet s s1 \<Longrightarrow> x = 0 \<or> nxt s \<le> unat x \<Longrightarrow> quiet s (release_part A s1 x) \<and> nxt (release_part A s1 x) = nxt s1"
  using release_law(1,2) [of s1 x] release_law(3) [of s1 _ x] unfolding quiet_def
  by (metis leD release_zero)

lemma quiet_undo:
  assumes "quiet s s1" "vid = 0 \<or> nxt s \<le> unat vid" "fresh_kid \<Longrightarrow> nxt s \<le> unat kid"
  shows "quiet s (set_undo A s1 vid fresh_kid kid) \<and> nxt (set_undo A s1 vid fresh_kid kid) = nxt s1"
  using quiet_release [OF assms(1,2)] assms(3) quiet_release [of s "release_part A s1 vid" kid]
  by (auto simp: set_undo_def Let_def)

lemma set_publish_dir:
  assumes "bkt_ix t h < length (lf_cs (the_leaf t h))"
  shows "take (dir_len (dn (leaf_dir (the_leaf t h)))) (dir_set_child (dbuf (leaf_dir (the_leaf t h))) (bkt_ix t h) c) =
    dir_bytes KVHASH_DIR_MAGIC (lf_ver (the_leaf t h)) 1 ((lf_cs (the_leaf t h))[bkt_ix t h := c])"
  by (simp add: dir_set_child_image [OF assms])

definition old_ids :: "aent list \<Rightarrow> u64 \<times> u64" where
  "old_ids olds = (case olds of [] \<Rightarrow> (0, 0) | e # _ \<Rightarrow> (ae_kid e, ae_vid e))"

text \<open>What is freed after the commit: the old parts the new entry does not keep.\<close>

definition set_release :: "'s \<Rightarrow> u64 \<times> u64 \<Rightarrow> u64 \<Rightarrow> 's" where
  "set_release s old kid = release_part A (if fst old \<noteq> kid then release_part A s (fst old) else s) (snd old)"

lemma set_release_law:
  assumes "inv s"
  shows "inv (set_release s old kid)" "nxt (set_release s old kid) = nxt s"
    "x = fst old \<longrightarrow> x = kid \<Longrightarrow> x \<noteq> snd old \<Longrightarrow> objs (set_release s old kid) x = objs s x"
  using assms by (auto simp: set_release_def release_law)

lemma set_commit_map:
  fixes key :: "byte list"
  assumes i: "inv s" and ok: "tree_ok B (objs s) root t" and q: "quiet s s1" and lim: "nxt s1 < ID_LIMIT"
  defines "h \<equiv> key_hash B key"
  assumes es: "the_bucket t h = us @ olds @ vs" "ae_key ` set olds \<subseteq> {key}" "key \<notin> ae_key ` set (us @ vs)" "length olds \<le> 1"
    and e': "aent_ok e'" "aent_bound (objs s1) e'" "ae_key e' = key" "ae_kid e' \<noteq> 0 \<Longrightarrow> ae_kid e' \<noteq> ae_vid e'"
    and kid: "fr \<Longrightarrow> nxt s \<le> unat (ae_kid e')" "\<not> fr \<Longrightarrow> ae_kid e' = 0 \<or> ae_kid e' = fst (old_ids olds)"
    and vid: "ae_vid e' = 0 \<or> nxt s \<le> unat (ae_vid e')"
    and pl: "pl = \<lparr>pl_leaf = lf_id (the_leaf t h), pl_dir = leaf_dir (the_leaf t h), pl_idx = bkt_ix t h, pl_bid = the_child t h\<rparr>"
    and run: "set_commit A s1 pl (bkt_image B (us @ vs @ [e'])) (old_ids olds) (ae_kid e', fr) (ae_vid e') = (r, s')"
  shows "(\<exists>t'. evolves root s t s' t' \<and> tree_map t' = effect r ((tree_map t)(key \<mapsto> ae_val e')) (tree_map t)) \<and> nxt s' \<le> Suc (nxt s1)"
proof -
  let ?c = "the_child t h" and ?lf = "lf_id (the_leaf t h)" and ?bkt = "bkt_image B (us @ vs @ [e'])"
  note sp = slot_split [OF ok es(1)] and so = slot_of [OF ok, of h] and live = tree_ids_live [OF i ok]
  have i1: "inv s1" "nxt s \<le> nxt s1" using q by (simp_all add: quiet_def)
  have lfb: "unat ?lf < nxt s" using live(2) so(4) by blast
  have pb: "pl_bid pl = ?c" by (simp add: pl)
  obtain bid s2 where b: "(if pl_bid pl = 0 then api_alloc_id A s1 else (pl_bid pl, s1)) = (bid, s2)" by fastforce
  have s2: "inv s2" "objs s2 = objs s1" "nxt s1 \<le> nxt s2" "nxt s2 \<le> Suc (nxt s1)" "?c \<noteq> 0 \<Longrightarrow> bid = ?c"
    "?c = 0 \<Longrightarrow> bid \<noteq> 0 \<Longrightarrow> unat bid = nxt s1"
    using b pb i1(1) alloc_law [OF i1(1) lim, of bid s2] by (auto split: if_splits)
  have bid: "?c = bid \<or> nxt s \<le> unat bid" "?lf \<noteq> bid" if "bid \<noteq> 0"
    using s2(5,6) i1(2) lfb that so(2) sp(1) by (cases "?c = 0"; force)+
  have q2: "quiet s s2" using q s2 by (simp add: quiet_def)
  have fail: ?thesis if "quiet s sf" "r = Inl x" "s' = set_undo A sf (ae_vid e') fr (ae_kid e')" "nxt sf \<le> Suc (nxt s1)" for sf x
    using quiet_undo [OF that(1) vid kid(1)] quiet_evolves [OF i ok] that(2-4) by (metis effect_simps(1))
  obtain r3 s3 where u3: "api_update A s2 bid ?bkt = (r3, s3)" by fastforce
  note l3 = update_law [OF s2(1) u3]
  obtain r4 s4 where u4: "set_publish A s3 pl bid = (r4, s4)" by fastforce
  have run': "(r, s') = (if bid = 0 then (Inl EIO, set_undo A s2 (ae_vid e') fr (ae_kid e'))
    else case r3 of Inl x \<Rightarrow> (Inl x, set_undo A s3 (ae_vid e') fr (ae_kid e'))
    | Inr _ \<Rightarrow> (case r4 of Inl x \<Rightarrow> (Inl x, set_undo A s4 (ae_vid e') fr (ae_kid e'))
      | Inr _ \<Rightarrow> (Inr (), set_release s4 (old_ids olds) (ae_kid e'))))"
    using run b u3 u4 by (cases "old_ids olds") (auto simp: set_commit_def set_release_def kv_update_def split: sum.splits if_splits)
  have l4: "inv s4" "nxt s4 = nxt s2" "objs s4 = (if ?c = 0 then effect r4 ((objs s3)(?lf \<mapsto>
      dir_bytes KVHASH_DIR_MAGIC (lf_ver (the_leaf t h)) 1 ((lf_cs (the_leaf t h))[bkt_ix t h := bid]))) (objs s3) else objs s3)"
    "?c \<noteq> 0 \<Longrightarrow> r4 = Inr ()"
    using u4 l3 tree_shape(4) [of B "objs s" root t h] ok update_law [of s3]
    by (auto simp: set_publish_def pl kv_update_def set_publish_dir tree_ok_def simp del: leaf_dir_sel split: if_splits)
  consider "bid = 0" | x where "bid \<noteq> 0" "r3 = Inl x" | y x where "bid \<noteq> 0" "r3 = Inr y" "r4 = Inl x" | y z where "bid \<noteq> 0" "r3 = Inr y" "r4 = Inr z"
    by (cases r3; cases r4) auto
  then show ?thesis
  proof cases
    case 1
    with run' q2 s2(4) show ?thesis by (intro fail) auto
  next
    case 2
    have "quiet s s3" using q2 l3 2 by (simp add: quiet_def)
    with 2 run' l3 s2(4) show ?thesis by (intro fail [of s3 x]) auto
  next
    case 3
    then have "?c = 0" using l4(4) by auto
    with s2(6) i1(2) 3(1) have "nxt s \<le> unat bid" by simp
    with \<open>?c = 0\<close> l4(1-3) l3 q2 3 have "quiet s s4" by (auto simp: quiet_def)
    with 3 run' l4 s2(4) show ?thesis by (intro fail [of s4 x]) auto
  next
    case 4
    then have s': "r = Inr ()" "s' = set_release s4 (old_ids olds) (ae_kid e')" using run' by auto
    have i': "inv s'" "nxt s' = nxt s2" using s' l4 by (simp_all add: set_release_law)
    have olds: "x \<in> set (bucket_ids olds)" if "x \<noteq> 0" "x = fst (old_ids olds) \<or> x = snd (old_ids olds)" for x
      using that by (cases olds) (auto simp: old_ids_def slot_ids_simps)
    have m4: "objs s4 x = objs s1 x" if "x \<noteq> bid" "x \<noteq> ?lf" for x using l4(3) l3 s2(2) 4 that by auto
    have rel: "objs s' x = objs s4 x" if "x = fst (old_ids olds) \<longrightarrow> x = ae_kid e'" "x \<noteq> snd (old_ids olds)" for x
      using set_release_law(3) [OF l4(1), of x "old_ids olds" "ae_kid e'"] that s'(2) by simp
    have off: "objs s' x = objs s4 x" if "x \<notin> set (bucket_ids olds)" for x
      using that olds [of x] rel [of x] l4(1) i'(1) by (cases "x = 0") auto
    have olive: "set (bucket_ids olds) \<subseteq> set (tree_ids root t)" using so(3) sp(1) by blast
    have bid_olds: "bid \<notin> set (bucket_ids olds)"
      using bid(1) [OF 4(1)] sp(4) live(2) [of bid] olive by auto
    have lf_olds: "?lf \<notin> set (bucket_ids olds)" using so(2) sp(1) by blast
    have new: "x \<noteq> bid \<and> x \<noteq> ?lf \<and> x \<notin> set (bucket_ids olds)" if x: "nxt s \<le> unat x" "objs s1 x \<noteq> None" for x
    proof -
      have "unat x < nxt s1" using bound_law [OF i1(1), of x] x(2) by auto
      moreover have "?c \<noteq> 0 \<Longrightarrow> ?c \<in> set (tree_ids root t)" using so(3) sp(1) by blast
      ultimately have "x \<noteq> bid" using s2(5,6) live(2) [of ?c] x(1) 4(1) by fastforce
      then show ?thesis using lfb x(1) live(2) [of x] olive by auto
    qed
    have new_ids: "x \<noteq> bid \<and> x \<noteq> ?lf \<and> (x = fst (old_ids olds) \<longrightarrow> x = ae_kid e') \<and> x \<noteq> snd (old_ids olds)"
      if x: "x = ae_kid e' \<or> x = ae_vid e'" "x \<noteq> 0" for x
    proof (cases "nxt s \<le> unat x")
      case True
      with new [of x] x e'(2) olds [of x] show ?thesis by (auto simp: aent_bound_def)
    next
      case False
      with x vid kid have k: "x = ae_kid e'" "x = fst (old_ids olds)" by auto
      then have "x \<in> set (bucket_ids olds)" using olds x(2) by blast
      moreover have "x \<noteq> snd (old_ids olds)" using k(2) x(2) sp(5) by (cases olds) (auto simp: old_ids_def ent_ids_def)
      ultimately show ?thesis using bid_olds lf_olds k by auto
    qed
    have keep: "objs s' x = objs s1 x" if "x = ae_kid e' \<or> x = ae_vid e'" "x \<noteq> 0" for x
      using new_ids [OF that] rel [of x] m4 [of x] by simp
    have "evolves root s t s' (put_bucket t h bid (us @ vs @ [e'])) \<and>
      tree_map (put_bucket t h bid (us @ vs @ [e'])) = (tree_map t)(key \<mapsto> ae_val e')"
    proof (rule bucket_commit [OF i ok, where news = "[e']" and key = key, folded h_def])
      show "objs s' bid = Some ?bkt" using off [OF bid_olds] l4(3) l3 4 bid(2) by auto
      show "objs s' ?lf = Some (dir_bytes KVHASH_DIR_MAGIC (lf_ver (the_leaf t h)) 1 ((lf_cs (the_leaf t h))[bkt_ix t h := bid]))"
        using off [OF lf_olds] l4(3) l3 4 bid(2) s2(2,5) q lfb child_same [OF ok, of h] by (auto simp: quiet_def)
      show "objs s' x = objs s x" if "unat x < nxt s" "x \<notin> set (bucket_ids olds)" "x \<noteq> bid" "x \<noteq> ?lf" for x
        using off [OF that(2)] m4 [OF that(3,4)] q that(1) by (simp add: quiet_def)
      show "ae_key e = key \<and> aent_ok e \<and> aent_bound (objs s') e" if "e \<in> set [e']" for e
        using that e' keep by (auto simp: aent_bound_def)
      show "distinct (bid # bucket_ids [e'])" using new_ids e'(4) by (auto simp: ent_ids_def)
      show "x \<in> set (bucket_ids olds) \<or> nxt s \<le> unat x" if "x \<in> set (bucket_ids [e'])" for x
        using that kid vid olds [of x] by (auto simp: slot_ids_simps)
    qed (use i' s2(3) i1(2) es bid(1) 4(1) e'(3) in auto)
    with s'(1) i'(2) s2(4) show ?thesis by auto
  qed
qed

lemma quiet_trans: "quiet s s1 \<Longrightarrow> quiet s1 s2 \<Longrightarrow> quiet s s2"
  unfolding quiet_def by (metis le_trans order_less_le_trans)

lemma bind_part_law:
  assumes "inv s" "nxt s < ID_LIMIT" "bind_part A s bs = (r, s')"
  shows "quiet s s'" "nxt s' \<le> Suc (nxt s)"
    "r = Inr x \<Longrightarrow> x \<noteq> 0 \<and> unat x = nxt s \<and> objs s' x = Some bs"
proof -
  obtain y s1 where a: "api_alloc_id A s = (y, s1)" by fastforce
  obtain r2 s2 where u: "api_update A s1 y bs = (r2, s2)" by fastforce
  note al = alloc_law [OF assms(1,2) a]
  then have ul: "inv s2" "nxt s2 = nxt s1" "objs s2 = effect r2 ((objs s1)(y \<mapsto> bs)) (objs s1)"
    using update_law [OF _ u] by simp_all
  have "(r, s') = (if y = 0 then (Inl EIO, s1) else case r2 of Inl e \<Rightarrow> (Inl e, s2) | Inr _ \<Rightarrow> (Inr y, s2))"
    using assms(3) a u by (auto simp: bind_part_def kv_update_def split: sum.splits)
  with al ul show "quiet s s'" "nxt s' \<le> Suc (nxt s)" "r = Inr x \<Longrightarrow> x \<noteq> 0 \<and> unat x = nxt s \<and> objs s' x = Some bs"
    by (auto simp: quiet_def split: if_splits sum.splits)
qed

lemma set_new_map:
  fixes key val :: "byte list"
  assumes i: "inv s" and ok: "tree_ok B (objs s) root t" and lim: "nxt s + 3 \<le> ID_LIMIT"
  defines "h \<equiv> key_hash B key"
  assumes es: "the_bucket t h = us @ olds @ ws" "ae_key ` set olds \<subseteq> {key}" "key \<notin> ae_key ` set (us @ ws)" "length olds \<le> 1"
    and len: "key \<noteq> []" "length key \<le> ENT_LEN_MASK" "length val \<le> ENT_LEN_MASK"
    and pl: "pl = \<lparr>pl_leaf = lf_id (the_leaf t h), pl_dir = leaf_dir (the_leaf t h), pl_idx = bkt_ix t h, pl_bid = the_child t h\<rparr>"
    and run: "set_new B A s pl key val ks vs (bkt_image B (us @ ws)) (old_ids olds) = (r, s')"
  shows "(\<exists>t'. evolves root s t s' t' \<and> tree_map t' = effect r ((tree_map t)(key \<mapsto> val)) (tree_map t)) \<and> nxt s' \<le> nxt s + 3"
proof -
  let ?k0 = "if ks then fst (old_ids olds) else 0"
  define fr where "fr \<longleftrightarrow> ks \<and> fst (old_ids olds) = 0"
  have frk: "(ks \<and> ?k0 = 0) = fr" by (auto simp: fr_def)
  have fail: ?thesis if "quiet s s'" "r = Inl x" "nxt s' \<le> nxt s + 3" for x
    using quiet_evolves [OF i ok that(1)] that(2,3) by auto
  obtain r1 s1 where k1: "(if fr then bind_part A s key else (Inr ?k0, s)) = (r1, s1)" by fastforce
  have old: "objs s (fst (old_ids olds)) = Some key" if "fst (old_ids olds) \<noteq> 0"
    using that key_place(3) [OF i ok, of h] es(1,2) by (cases olds) (auto simp: old_ids_def bucket_holds_def aent_bound_def)
  have l1: "quiet s s1" "nxt s1 \<le> Suc (nxt s)" using k1 i lim bind_part_law(1,2) [OF i, of key r1 s1] by (auto split: if_splits)
  have kid1: "(ks \<longleftrightarrow> kid \<noteq> 0) \<and> (kid \<noteq> 0 \<longrightarrow> objs s1 kid = Some key) \<and> (fr \<longrightarrow> nxt s \<le> unat kid) \<and>
      (\<not> fr \<longrightarrow> kid = 0 \<or> kid = fst (old_ids olds))" if "r1 = Inr kid" for kid
    using that k1 i lim bind_part_law(3) [OF i, of key r1 s1 kid] old by (auto simp: fr_def split: if_splits)
  let ?need = "ENTRY_HDR_LEN + (if ks then KEY_REF_LEN else length key) + (if vs then VAL_REF_LEN else length val)"
  show ?thesis
  proof (cases "length (bkt_image B (us @ ws)) + ?need > MAX_PAYLOAD_LEN B")
    case True
    then have "r = Inl ENOSPC" "s' = s" using run by (auto simp: set_new_def Let_def frk)
    then show ?thesis by (intro fail) (simp_all add: i)
  next
    case room: False
    show ?thesis
    proof (cases r1)
      case (Inl x)
      with run k1 room have "r = Inl x" "s' = s1" by (auto simp: set_new_def Let_def frk)
      with l1 show ?thesis by (intro fail) auto
    next
      case (Inr kid)
      have kid: "ks \<longleftrightarrow> kid \<noteq> 0" "kid \<noteq> 0 \<Longrightarrow> objs s1 kid = Some key" "fr \<Longrightarrow> nxt s \<le> unat kid"
        "\<not> fr \<Longrightarrow> kid = 0 \<or> kid = fst (old_ids olds)"
        using kid1 [OF Inr] by blast+
      have i1: "inv s1" "nxt s1 < ID_LIMIT" using l1 lim by (simp_all add: quiet_def)
      obtain r2 s2 where v2: "(if vs then bind_part A s1 val else (Inr 0, s1)) = (r2, s2)" by fastforce
      have l2: "quiet s1 s2" "nxt s2 \<le> Suc (nxt s1)" using v2 i1 bind_part_law(1,2) [OF i1, of val r2 s2] by (auto split: if_splits)
      then have q2: "quiet s s2" using l1(1) by (metis quiet_trans)
      show ?thesis
      proof (cases r2)
        case x: (Inl x)
        have "quiet s (set_undo A s2 0 fr kid) \<and> nxt (set_undo A s2 0 fr kid) = nxt s2"
          by (rule quiet_undo [OF q2 _ kid(3)]) simp_all
        moreover have "(r, s') = (Inl x, set_undo A s2 0 fr kid)"
          using run k1 v2 Inr x room by (simp add: set_new_def Let_def frk)
        ultimately show ?thesis using l1(2) l2(2) by (intro fail) auto
      next
        case v: (Inr vid)
        have vid: "(vs \<longleftrightarrow> vid \<noteq> 0) \<and> (vid \<noteq> 0 \<longrightarrow> objs s2 vid = Some val \<and> unat vid = nxt s1)"
          using v v2 bind_part_law(3) [OF i1, of val r2 s2 vid] by (auto split: if_splits)
        define e' where "e' = \<lparr>ae_key = key, ae_kid = kid, ae_val = val, ae_vid = vid\<rparr>"
        have img: "bkt_image B (us @ ws) @ entry_bytes key val ks vs (hash_fp (key_hash B key)) kid vid = bkt_image B (us @ ws @ [e'])"
          using kid(1) vid by (simp add: ent_image_def e'_def key_fp_def)
        have kb: "unat kid < nxt s1 \<and> objs s2 kid = Some key" if "kid \<noteq> 0"
          using bound_law [OF i1(1), of kid] kid(2) [OF that] l2(1) by (simp add: quiet_def)
        have "(\<exists>t'. evolves root s t s' t' \<and> tree_map t' = effect r ((tree_map t)(key \<mapsto> ae_val e')) (tree_map t)) \<and> nxt s' \<le> Suc (nxt s2)"
        proof (rule set_commit_map [OF i ok q2, where key = key and fr = fr, folded h_def])
          show "set_commit A s2 pl (bkt_image B (us @ ws @ [e'])) (old_ids olds) (ae_kid e', fr) (ae_vid e') = (r, s')"
            using run room k1 v2 Inr v img [symmetric] by (simp add: set_new_def Let_def e'_def frk)
          show "aent_ok e'" "aent_bound (objs s2) e'" using len kb vid by (auto simp: aent_ok_def aent_bound_def e'_def)
          show "fr \<Longrightarrow> nxt s \<le> unat (ae_kid e')" "\<not> fr \<Longrightarrow> ae_kid e' = 0 \<or> ae_kid e' = fst (old_ids olds)"
            using kid(3,4) by (auto simp: e'_def )
          show "ae_vid e' = 0 \<or> nxt s \<le> unat (ae_vid e')" using vid l1(1) by (auto simp: e'_def quiet_def)
          show "ae_kid e' \<noteq> 0 \<Longrightarrow> ae_kid e' \<noteq> ae_vid e'" using kb vid by (auto simp: e'_def)
        qed (use es lim l1(2) l2(2) pl in \<open>auto simp: e'_def\<close>)
        then show ?thesis using l1(2) l2(2) by (auto simp: e'_def)
      qed
    qed
  qed
qed

text \<open>A spilled value of unchanged length is overwritten in place.\<close>

lemma set_in_place:
  assumes i: "inv s" and ok: "tree_ok B (objs s) root t"
    and es: "the_bucket t (key_hash B key) = us @ e # ws" "ae_key e = key" "key \<notin> ae_key ` set (us @ ws)"
    and e: "aent_ok e" "aent_bound (objs s) e" "ae_vid e \<noteq> 0" "length (ae_val e) = length val"
    and c: "the_child t (key_hash B key) \<noteq> 0" and run: "api_update A s (ae_vid e) val = (r, s')"
  shows "(\<exists>t'. evolves root s t s' t' \<and> tree_map t' = effect r ((tree_map t)(key \<mapsto> val)) (tree_map t)) \<and> nxt s' = nxt s"
proof (cases r)
  case (Inl x)
  then have "quiet s s'" using update_law [OF i run] by (simp add: quiet_def)
  with quiet_evolves [OF i ok] update_law [OF i run] Inl show ?thesis by auto
next
  case (Inr x)
  let ?h = "key_hash B key" and ?e = "e\<lparr>ae_val := val\<rparr>"
  let ?c = "the_child t ?h" and ?lf = "the_leaf t ?h"
  note ul = update_law [OF i run] and so = slot_of [OF ok, of ?h]
  have es': "the_bucket t ?h = us @ [e] @ ws" using es(1) by simp
  note sp = slot_split [OF ok es']
  have vid: "ae_vid e \<in> set (bucket_ids [e])" using e(3) by (simp add: slot_ids_simps)
  have img: "ent_image B ?e = ent_image B e" using e(3,4) by (simp add: ent_image_def entry_bytes_def)
  have kv: "ae_kid e \<noteq> ae_vid e" using sp(5) e(3) by (auto simp: ent_ids_def)
  have "evolves root s t s' (put_bucket t ?h ?c (us @ ?e # ws)) \<and> tree_map (put_bucket t ?h ?c (us @ ?e # ws)) = (tree_map t)(key := Some val)"
  proof (rule bucket_commit [OF i ok, where news = "[?e]"])
    show "objs s' ?c = Some (bkt_image B (us @ ?e # ws))"
    proof -
      have "?c \<noteq> ae_vid e" using sp(4) vid by auto
      then show ?thesis using key_place(3) [OF i ok, of ?h] ul Inr es(1) c img by (simp add: bucket_holds_def)
    qed
    have "ae_vid e \<in> set (slot_ids ?c (the_bucket t ?h))" unfolding sp(1) using vid by (rule UnI2)
    then have "lf_id ?lf \<noteq> ae_vid e" using so(2) by metis
    then show "objs s' (lf_id ?lf) = Some (dir_bytes KVHASH_DIR_MAGIC (lf_ver ?lf) 1 ((lf_cs ?lf)[bkt_ix t ?h := ?c]))"
      using ul Inr child_same [OF ok, of ?h] by auto
    show "objs s' x = objs s x" if "x \<notin> set (bucket_ids [e])" for x using ul Inr that vid by auto
    show "the_bucket t ?h = us @ [e] @ ws" by (rule es')
    show "ae_key f = key \<and> aent_ok f \<and> aent_bound (objs s') f" if "f \<in> set [?e]" for f
      using that e es(2) ul Inr kv by (auto simp: aent_ok_def aent_bound_def)
    show "distinct (?c # bucket_ids [?e])" using sp(4,5) by (simp add: ent_ids_def)
    show "x \<in> set (bucket_ids [e]) \<or> nxt s \<le> unat x" if "x \<in> set (bucket_ids [?e])" for x
      using that by (simp add: ent_ids_def)
  qed (use ul es c in auto)
  with ul Inr show ?thesis by auto
qed

lemma kvhash_set_map:
  assumes i: "inv s" and ok: "tree_ok B (objs s) root t" and lim: "nxt s + 3 \<le> ID_LIMIT"
    and buf: "\<And>v. val = Some v \<Longrightarrow> vlen \<le> length v"
    and run: "kvhash_set B P A s root key val vlen = (r, s')"
  shows "(\<exists>t'. evolves root s t s' t' \<and> tree_map t' = effect r ((tree_map t)(key \<mapsto> c_bytes val vlen)) (tree_map t)) \<and>
    nxt s' \<le> nxt s + 3"
proof -
  let ?h = "key_hash B key" and ?bs = "c_bytes val vlen"
  let ?lf = "the_leaf t ?h"
  let ?pl = "\<lparr>pl_leaf = lf_id ?lf, pl_dir = leaf_dir ?lf, pl_idx = bkt_ix t ?h, pl_bid = the_child t ?h\<rparr>"
  note p = key_place [OF i ok, of ?h]
  have fail: ?thesis if "r = Inl x" "s' = s" for x using quiet_evolves [OF i ok quiet_refl [OF i]] that by auto
  define ks where "ks = (unat (dbuf (leaf_dir ?lf) ! 6) \<ge> 3 \<and> length key > key_inline_max P)"
  define vs where "vs = (unat (dbuf (leaf_dir ?lf) ! 6) \<ge> 3 \<and> vlen > val_inline_max P)"
  show ?thesis
  proof (cases "(key = [] \<or> length key > 0xffff \<or> vlen > 0xffff \<or> val = None \<and> vlen \<noteq> 0) \<or>
      (length key > ENT_LEN_MASK \<or> vlen > ENT_LEN_MASK) \<or> ks \<and> length key > MAX_PAYLOAD_LEN B")
    case True
    then have "\<exists>x. r = Inl x \<and> s' = s"
      using run p(1) by (auto simp: kvhash_set_def set_at_def Let_def ks_def simp del: leaf_dir_sel split: if_splits)
    then show ?thesis using fail by blast
  next
    case False
    then have len: "key \<noteq> []" "length key \<le> ENT_LEN_MASK" "vlen \<le> ENT_LEN_MASK" "length ?bs = vlen"
      using buf by (auto simp: c_bytes_def split: option.splits)
    have run1: "set_at B A s ?pl key ?bs vlen ks vs = (r, s')"
      using run False p(1,2) by (cases "val = None") (simp_all add: kvhash_set_def ks_def vs_def Let_def del: leaf_dir_sel)
    have nks: "\<not> (ks \<and> length key > MAX_PAYLOAD_LEN B)" using False by blast
    from i ok show ?thesis
    proof (cases rule: key_cases [where key = key])
      case absent
      have lk: "set_lookup B A s (the_child t ?h) key = Inr (bkt_image B (the_bucket t ?h), None)"
        using p(3,4) bkt_find_place(1) [OF i ok absent(1)] by (auto simp: set_lookup_def bucket_holds_def)
      show ?thesis
        by (rule set_new_map [OF i ok lim, where olds = "[]" and us = "the_bucket t ?h" and ws = "[]" and ks = ks and vs = vs and pl = ?pl])
          (use run1 lk absent len nks in \<open>simp_all add: set_at_def old_ids_def\<close>)
    next
      case (present us e ws)
      let ?n = "length (bkt_image B us)"
      have e: "kspill (ent_at B ?n e) = (ae_kid e \<noteq> 0)" "vspill (ent_at B ?n e) = (ae_vid e \<noteq> 0)"
        "vl (ent_at B ?n e) = length (ae_val e)" "ent_len (ent_at B ?n e) = length (ent_image B e)"
        by (simp_all add: ent_at_def)
      have lk: "set_lookup B A s (the_child t ?h) key = Inr (bkt_image B (us @ e # ws), Some (?n, ent_at B ?n e))"
        using p(4) present(1,4) bkt_find_place(2) [OF i ok present(1,2)] by (simp add: set_lookup_def)
      have run2: "(r, s') = (if (ae_kid e \<noteq> 0) = ks \<and> ae_vid e \<noteq> 0 \<and> vs \<and> length (ae_val e) = vlen
          then kv_update A s (ae_vid e) ?bs
          else set_new B A s ?pl key ?bs ks vs (bkt_image B (us @ ws)) (ae_kid e, ae_vid e))"
        using run1 lk e ent_at_ids [OF present(5), where us = "bkt_image B us" and B = B and vs = "bkt_image B ws"]
          nks
        by (auto simp: set_at_def Let_def split: if_splits)
      show ?thesis
      proof (cases "(ae_kid e \<noteq> 0) = ks \<and> ae_vid e \<noteq> 0 \<and> vs \<and> length (ae_val e) = vlen")
        case True
        then have "api_update A s (ae_vid e) ?bs = (r, s')" using run2 by (simp add: kv_update_def)
        from set_in_place [OF i ok present(1,2,7,5,6) _ _ present(4) this] True len(4) show ?thesis by auto
      next
        case inst: False
        show ?thesis
          by (rule set_new_map [OF i ok lim, where olds = "[e]" and us = us and ws = ws and ks = ks and vs = vs and pl = ?pl])
            (use run2 inst present len in \<open>simp_all add: old_ids_def\<close>)
      qed
    qed
  qed
qed

end

end
