(* ===== verification/Kv_Hash_Life.thy ===== *)
theory Kv_Hash_Life
  imports Kv_Hash_Ops
begin

text \<open>
  The life of a map: the geometry derived from a declared population, create (an empty map of that
  geometry), count (the number of its keys) and destroy (every object of the map is gone, nothing
  else is). The loop that searches the side of a two-level map is shown to end for every population
  up to \<open>65535\<^sup>2\<close>, and not to end for one above it.
\<close>

section \<open>Geometry\<close>

lemma square_nowrap:
  fixes side :: u32
  assumes "unat side \<le> 65535"
  shows "unat (side * side) = unat side * unat side"
proof -
  have "unat side * unat side \<le> 65535 * 65535" by (rule mult_le_mono) (use assms in simp_all)
  then show ?thesis by (simp add: unat_word_ariths)
qed

lemma side_from_works:
  fixes bkts side :: u32
  assumes "unat bkts \<le> 65535 * 65535" "1 \<le> unat side" "unat side \<le> 65535"
    and "\<And>q. 1 \<le> q \<Longrightarrow> q < unat side \<Longrightarrow> q * q < unat bkts"
  shows "\<exists>x. side_from bkts side = Some x \<and> unat side \<le> unat x \<and> unat x \<le> 65535 \<and> unat bkts \<le> unat x * unat x \<and>
    (\<forall>q. 1 \<le> q \<longrightarrow> q < unat x \<longrightarrow> q * q < unat bkts)"
  using assms(2-4)
proof (induction "65535 - unat side" arbitrary: side rule: less_induct)
  case less
  note sq = square_nowrap [OF less.prems(2)]
  show ?case
  proof (cases "side * side < bkts")
    case True
    then have lt: "unat side * unat side < unat bkts" using sq by (simp add: word_less_nat_alt)
    then have small: "unat side < 65535"
      using assms(1) less.prems(2) by (metis le_neq_implies_less linorder_not_le)
    then have s1: "unat (side + 1) = Suc (unat side)" by (simp add: unat_word_ariths)
    have "\<exists>x. side_from bkts (side + 1) = Some x \<and> unat (side + 1) \<le> unat x \<and> unat x \<le> 65535 \<and>
      unat bkts \<le> unat x * unat x \<and> (\<forall>q. 1 \<le> q \<longrightarrow> q < unat x \<longrightarrow> q * q < unat bkts)"
    proof (rule less.hyps)
      fix q assume "1 \<le> q" "q < unat (side + 1)"
      then show "q * q < unat bkts" using less.prems(3) [of q] lt s1 by (cases "q = unat side") auto
    qed (use s1 small in auto)
    then show ?thesis using True s1 by (subst side_from.simps) auto
  next
    case False
    then have "unat bkts \<le> unat side * unat side" using sq by (simp add: word_less_nat_alt)
    with False less.prems show ?thesis by (subst side_from.simps) auto
  qed
qed

text \<open>A square is 0, 1, 4 or 9 modulo 16, so no 32-bit square reaches \<open>0xfffffffc\<close>.\<close>

lemma square_mod_16: "(n * n) mod 16 \<in> {0, 1, 4, 9 :: nat}"
proof -
  have "list_all (\<lambda>k. (k * k) mod 16 \<in> {0, 1, 4, 9 :: nat}) [0..<16]" by code_simp
  then have "((n mod 16) * (n mod 16)) mod 16 \<in> {0, 1, 4, 9}" by (simp only: list_all_iff) simp
  then show ?thesis by (simp add: mod_mult_eq)
qed

lemma square_below: "side * side < (0xfffffffc :: u32)" for side :: u32
proof -
  have "unat (side * side) mod 16 = (unat side * unat side) mod 16"
    by (simp add: unat_word_ariths mod_mod_cancel)
  then have r: "unat (side * side) mod 16 \<in> {0, 1, 4, 9}" using square_mod_16 [of "unat side"] by simp
  have "unat (side * side) < 2 ^ 32" using unsigned_less [of "side * side", where ?'a = nat] by simp
  then have "unat (side * side) < 0xfffffffc \<or> unat (side * side) \<in> {0xfffffffc, 0xfffffffd, 0xfffffffe, 0xffffffff}" by auto
  with r have "unat (side * side) < 0xfffffffc" by auto
  then show ?thesis by (simp add: word_less_nat_alt)
qed

lemma side_from_stuck: "side_from 0xfffffffc side = None"
proof (cases "side_from 0xfffffffc side")
  case (Some y)
  have "bkts \<noteq> 0xfffffffc" if "side_from bkts side = Some y" for bkts side y
  proof (rule side_from.raw_induct [OF _ that])
    fix f and bkts side y :: u32
    assume "\<And>bkts side y. f bkts side = Some y \<Longrightarrow> bkts \<noteq> 0xfffffffc"
      "(if side * side < bkts then f bkts (side + 1) else Some side) = Some y"
    then show "bkts \<noteq> 0xfffffffc" using square_below [of side] by (auto split: if_splits)
  qed
  with Some show ?thesis by blast
qed

definition cfg_entries :: "map_config option \<Rightarrow> nat" where
  "cfg_entries cfg = (case cfg of None \<Rightarrow> 0 | Some c \<Rightarrow> unat (expected_entries c))"

text \<open>A geometry the directories can hold.\<close>

definition geometry_ok :: "build \<Rightarrow> nat \<times> nat \<times> nat \<Rightarrow> bool" where
  "geometry_ok B g \<longleftrightarrow>
     (case g of (dp, n_top, n_sub) \<Rightarrow>
        dp = 1 \<and> 2 \<le> n_top \<and> n_top \<le> MAX_BUCKETS B \<or>
        dp = 2 \<and> 2 \<le> n_top \<and> n_top \<le> MAX_BUCKETS B \<and> n_sub = n_top)"

lemma geometry_derived:
  assumes "cfg_entries cfg \<le> 65535 * 65535" "8 \<le> MAX_BUCKETS B" "MAX_BUCKETS B < 65536"
  shows "\<exists>r. derive_geometry B cfg = Some r \<and> (\<forall>g. r = Inr g \<longrightarrow> geometry_ok B g)"
proof (cases cfg)
  case None
  then show ?thesis using assms(2) by (simp add: derive_geometry_def geometry_ok_def)
next
  case (Some c)
  define w where "w = (let load = one_level_load B (max_entry_bytes c) in (expected_entries c + load - 1) div load)"
  define want where "want = (if w < 2 then 2 else w)"
  define b where "b = (let bb = expected_entries c * typical_entry_bytes c div 4096 in
    if typical_entry_bytes c \<noteq> 0 \<and> bb < expected_entries c then bb else expected_entries c)"
  define bkts where "bkts = (if b < 255 then 255 else b)"
  have "unat bkts \<le> 65535 * 65535"
    using assms(1) Some by (auto simp: bkts_def b_def cfg_entries_def Let_def word_less_nat_alt)
  from side_from_works [OF this, of 1] obtain x where
    x: "side_from bkts 1 = Some x" "unat x \<le> 65535" by auto
  define side where "side = (if x < 2 then 2 else x)"
  have two: "2 \<le> unat want" "2 \<le> unat side" "unat side \<le> 65535"
    using x(2) by (auto simp: want_def side_def word_less_nat_alt)
  have "derive_geometry B cfg = (
      if max_entry_bytes c \<noteq> 0 \<and> unat (max_entry_bytes c) > ENTRY_LIMIT B then Some (Inl EINVAL)
      else if typical_entry_bytes c \<noteq> 0 \<and> max_entry_bytes c \<noteq> 0 \<and> typical_entry_bytes c > max_entry_bytes c then Some (Inl EINVAL)
      else if expected_entries c = 0 then Some (Inr (1, 8, 0))
      else if want \<le> 255 \<and> unat want \<le> MAX_BUCKETS B then Some (Inr (1, unat want, 0))
      else if unat side > MAX_BUCKETS B then Some (Inl EINVAL)
      else Some (Inr (2, unat side mod 65536, unat side mod 65536)))"
    using x(1) unfolding derive_geometry_def Some want_def w_def bkts_def b_def side_def Let_def
    by (simp only: option.case)
  then show ?thesis using two assms(2) by (auto simp: geometry_ok_def)
qed

section \<open>An empty map\<close>

definition empty_leaf :: "nat \<Rightarrow> u64 \<Rightarrow> kvleaf" where
  "empty_leaf n x = \<lparr>lf_id = x, lf_ver = KVHASH_VERSION, lf_cs = replicate n 0, lf_bs = replicate n []\<rparr>"

lemma empty_leaf_simps [simp]:
  "lf_id (empty_leaf n x) = x" "leaf_ids (empty_leaf n x) = [x]" "leaf_ents (empty_leaf n x) = []"
proof -
  show "lf_id (empty_leaf n x) = x" by (simp add: empty_leaf_def)
  have "filter (\<lambda>x. x \<noteq> 0) (replicate n (0 :: u64)) = []" "concat (map bucket_ids (replicate n [])) = []"
    by (simp_all add: filter_empty_conv bucket_ids_def)
  then show "leaf_ids (empty_leaf n x) = [x]" by (simp add: leaf_ids_def empty_leaf_def)
  have "concat (replicate n ([] :: aent list)) = []" by simp
  then show "leaf_ents (empty_leaf n x) = []" by (simp add: leaf_ents_def empty_leaf_def)
qed

lemma empty_placed:
  assumes "\<And>lf. lf \<in> set (kt_leaves t) \<Longrightarrow> \<exists>n x. lf = empty_leaf n x"
  shows "placed B t" "tree_map t = Map.empty"
proof -
  have "lf_bs (kt_leaves t ! j) ! i = []" if "j < length (kt_leaves t)" "i < length (lf_bs (kt_leaves t ! j))" for j i
    using assms [OF nth_mem [OF that(1)]] that(2) by (auto simp: empty_leaf_def)
  then show "placed B t" by (simp add: placed_def)
  have "leaf_ents lf = []" if "lf \<in> set (kt_leaves t)" for lf using assms [OF that] by auto
  then have "tree_ents t = []" by (auto simp: tree_ents_def)
  then show "tree_map t = Map.empty" by (simp add: tree_map_def)
qed

lemma map_upt_nth: "map (\<lambda>i. f (xs ! i)) [0..<length xs] = map f xs"
  by (rule nth_equalityI) simp_all

lemma distinct_concat_disjoint:
  assumes "\<And>xs. xs \<in> set xss \<Longrightarrow> distinct xs"
    and "\<And>a b. a < length xss \<Longrightarrow> b < length xss \<Longrightarrow> a \<noteq> b \<Longrightarrow> set (xss ! a) \<inter> set (xss ! b) = {}"
  shows "distinct (concat xss)"
  using assms
proof (induction xss)
  case (Cons xs xss)
  have "set xs \<inter> set ys = {}" if "ys \<in> set xss" for ys
  proof -
    from that obtain k where "k < length xss" "ys = xss ! k" by (metis in_set_conv_nth)
    with Cons.prems(2) [of 0 "Suc k"] show ?thesis by simp
  qed
  moreover have "distinct (concat xss)"
  proof (rule Cons.IH)
    fix a b assume "a < length xss" "b < length xss" "a \<noteq> b"
    with Cons.prems(2) [of "Suc a" "Suc b"] show "set (xss ! a) \<inter> set (xss ! b) = {}" by simp
  qed (use Cons.prems(1) in simp)
  ultimately show ?case using Cons.prems(1) [of xs] by auto
qed simp

context kv_store
begin

lemma empty_leaf_holds:
  assumes "2 \<le> n" "n \<le> MAX_BUCKETS B" "x \<noteq> 0" "m x = Some (dir_format n 1)"
  shows "leaf_holds B m (empty_leaf n x)"
proof -
  have f: "fan_ok B KVHASH_VERSION n" using assms(1,2) by (simp add: fan_ok_def KVHASH_VERSION_def)
  from assms(3,4) f show ?thesis
    by (simp add: leaf_holds_def empty_leaf_def bucket_holds_def dir_format_image [OF fan_ok_small [OF f payload]])
qed

lemma create_subs_law:
  assumes "create_subs A s img k i (dir_bytes mg ver dp cs) = (r, s')" "inv s" "nxt s + k \<le> ID_LIMIT" "i + k = length cs"
  shows "quiet s s' \<and> nxt s' \<le> nxt s + k \<and> (\<forall>dirb. r = Inr dirb \<longrightarrow>
    (\<exists>ids. dirb = dir_bytes mg ver dp (take i cs @ ids) \<and> length ids = k \<and> distinct ids \<and>
      (\<forall>x \<in> set ids. x \<noteq> 0 \<and> nxt s \<le> unat x \<and> unat x < nxt s' \<and> objs s' x = Some img)))"
  using assms
proof (induction k arbitrary: s i cs)
  case (Suc k)
  obtain x s1 where a: "api_alloc_id A s = (x, s1)" by fastforce
  obtain r2 s2 where u: "api_update A s1 x img = (r2, s2)" by fastforce
  have al: "inv s1" "objs s1 = objs s" "x = 0 \<and> nxt s1 = nxt s \<or> unat x = nxt s \<and> nxt s1 = Suc (nxt s)"
    using alloc_law [OF Suc.prems(2) _ a] Suc.prems(3) by auto
  note ul = update_law [OF al(1) u]
  show ?case
  proof (cases "x = 0 \<or> r2 \<noteq> Inr ()")
    case True
    then obtain e where "r = Inl e" "s' = s1 \<or> r2 \<noteq> Inr () \<and> s' = s2"
      using Suc.prems(1) a u by (cases r2) (auto simp: kv_update_def split: if_splits)
    then show ?thesis using al ul by (cases r2) (auto simp: quiet_def)
  next
    case False
    then have x: "x \<noteq> 0" "unat x = nxt s" "nxt s1 = Suc (nxt s)" and r2: "r2 = Inr ()" using al(3) by auto
    have q: "quiet s s2" using al ul x r2 by (auto simp: quiet_def)
    have i: "i < length cs" using Suc.prems(4) by simp
    have run: "create_subs A s2 img k (i + 1) (dir_bytes mg ver dp (cs[i := x])) = (r, s')"
      using Suc.prems(1) a u x(1) r2 by (simp add: kv_update_def dir_set_child_image [OF i])
    have IH: "quiet s2 s' \<and> nxt s' \<le> nxt s2 + k \<and> (\<forall>dirb. r = Inr dirb \<longrightarrow>
        (\<exists>ids. dirb = dir_bytes mg ver dp (take (i + 1) (cs[i := x]) @ ids) \<and> length ids = k \<and> distinct ids \<and>
          (\<forall>y \<in> set ids. y \<noteq> 0 \<and> nxt s2 \<le> unat y \<and> unat y < nxt s' \<and> objs s' y = Some img)))"
      by (rule Suc.IH [OF run]) (use ul x Suc.prems(3,4) in auto)
    have q': "quiet s s'" using q IH quiet_trans by blast
    have n: "nxt s2 = Suc (nxt s)" using ul x by simp
    have "\<exists>ids. dirb = dir_bytes mg ver dp (take i cs @ ids) \<and> length ids = Suc k \<and> distinct ids \<and>
        (\<forall>y \<in> set ids. y \<noteq> 0 \<and> nxt s \<le> unat y \<and> unat y < nxt s' \<and> objs s' y = Some img)" if "r = Inr dirb" for dirb
    proof -
      from IH that obtain ids where ids: "dirb = dir_bytes mg ver dp (take (i + 1) (cs[i := x]) @ ids)" "length ids = k" "distinct ids"
        "\<forall>y \<in> set ids. y \<noteq> 0 \<and> nxt s2 \<le> unat y \<and> unat y < nxt s' \<and> objs s' y = Some img" by blast
      have "objs s' x = Some img" using IH ul r2 n x(2) by (auto simp: quiet_def)
      moreover have "unat x < nxt s'" using IH n x(2) by (simp add: quiet_def)
      moreover have "take (i + 1) (cs[i := x]) = take i cs @ [x]" using i by (simp add: take_Suc_conv_app_nth)
      moreover have "x \<notin> set ids" using ids(4) n x(2) by auto
      ultimately show ?thesis using ids n x by (intro exI [of _ "x # ids"]) auto
    qed
    then show ?thesis using q' IH n by auto
  qed
qed auto

lemma kvhash_create_empty:
  assumes i: "inv s" and root: "unat root < nxt s"
    and g: "derive_geometry B cfg = Some (Inr (dp, n_top, n_sub))" "geometry_ok B (dp, n_top, n_sub)"
    and lim: "nxt s + n_top \<le> ID_LIMIT" and run: "kvhash_create B A s root cfg = Some (r, s')"
  shows "inv s' \<and> nxt s \<le> nxt s' \<and> nxt s' \<le> nxt s + n_top \<and> (\<forall>x. unat x < nxt s \<longrightarrow> x \<noteq> root \<longrightarrow> objs s' x = objs s x) \<and>
    (case r of Inl _ \<Rightarrow> objs s' root = objs s root
     | Inr _ \<Rightarrow> \<exists>t. tree_ok B (objs s') root t \<and> tree_map t = Map.empty \<and>
         (\<forall>x \<in> set (tree_ids root t). x = root \<or> nxt s \<le> unat x))"
proof (cases "dp = 1")
  case True
  then have u: "api_update A s root (dir_format n_top 1) = (r, s')" using run g by (simp add: kvhash_create_def kv_update_def)
  note ul = update_law [OF i u]
  show ?thesis
  proof (cases r)
    case (Inr y)
    let ?t = "\<lparr>kt_top = None, kt_leaves = [empty_leaf n_top root]\<rparr>"
    have o: "objs s' root = Some (dir_format n_top 1)" using ul Inr by simp
    then have "root \<noteq> 0" using bound_law [of s' root] ul by blast
    then have "tree_ok B (objs s') root ?t"
      using empty_leaf_holds [of n_top root "objs s'"] g(2) True o empty_placed(1) [of ?t]
      by (auto simp: tree_ok_def tree_holds_def tree_ids_def geometry_ok_def)
    moreover have "tree_map ?t = Map.empty" by (rule empty_placed(2)) auto
    ultimately show ?thesis using ul Inr by (auto simp: tree_ids_def intro!: exI [of _ ?t])
  qed (use ul in auto)
next
  case False
  then have two: "dp = 2" "n_sub = n_top" "2 \<le> n_top" "n_top \<le> MAX_BUCKETS B" using g(2) by (auto simp: geometry_ok_def)
  have f: "fan_ok B KVHASH_VERSION n_top" using two by (simp add: fan_ok_def KVHASH_VERSION_def)
  note fmt = dir_format_image [OF fan_ok_small [OF f payload]]
  obtain r1 s1 where c: "create_subs A s (dir_format n_top 1) n_top 0 (dir_format n_top 2) = (r1, s1)" by fastforce
  have cl: "quiet s s1 \<and> nxt s1 \<le> nxt s + n_top \<and> (\<forall>dirb. r1 = Inr dirb \<longrightarrow>
    (\<exists>ids. dirb = dir_bytes KVHASH_DIR_MAGIC KVHASH_VERSION 2 ids \<and> length ids = n_top \<and> distinct ids \<and>
      (\<forall>x \<in> set ids. x \<noteq> 0 \<and> nxt s \<le> unat x \<and> unat x < nxt s1 \<and> objs s1 x = Some (dir_format n_top 1))))"
    using create_subs_law [OF c [unfolded fmt [of 2]] i lim] by simp
  show ?thesis
  proof (cases r1)
    case (Inl e)
    then have "r = Inl e" "s' = s1" using run g c False two by (auto simp: kvhash_create_def)
    then show ?thesis using cl root by (auto simp: quiet_def)
  next
    case (Inr dirb)
    then obtain ids where ids: "dirb = dir_bytes KVHASH_DIR_MAGIC KVHASH_VERSION 2 ids" "length ids = n_top" "distinct ids"
      "\<And>x. x \<in> set ids \<Longrightarrow> x \<noteq> 0 \<and> nxt s \<le> unat x \<and> unat x < nxt s1 \<and> objs s1 x = Some (dir_format n_top 1)" using cl by blast
    have i1: "inv s1" using cl by (simp add: quiet_def)
    have u: "api_update A s1 root dirb = (r, s')" using run g c False two Inr by (simp add: kvhash_create_def kv_update_def)
    note ul = update_law [OF i1 u]
    have rt: "root \<notin> set ids" using ids(4) root by fastforce
    show ?thesis
    proof (cases r)
      case (Inl e)
      then show ?thesis using ul cl root by (auto simp: quiet_def)
    next
      case y: (Inr y)
      let ?t = "\<lparr>kt_top = Some KVHASH_VERSION, kt_leaves = map (empty_leaf n_top) ids\<rparr>"
      have lv: "\<exists>n x. lf = empty_leaf n x" if "lf \<in> set (kt_leaves ?t)" for lf using that by auto
      have "leaf_holds B (objs s') (empty_leaf n_top x)" if "x \<in> set ids" for x
      proof -
        have "x \<noteq> root" using rt that by metis
        then show ?thesis using ids(4) [OF that] ul y two by (intro empty_leaf_holds) auto
      qed
      moreover have "map lf_id (kt_leaves ?t) = ids" by (simp add: comp_def)
      moreover have "tree_ids root ?t = root # ids" by (simp add: tree_ids_def comp_def concat_map_singleton)
      ultimately have "tree_ok B (objs s') root ?t"
        using empty_placed(1) [of ?t B, OF lv] ul y ids(1-3) rt f by (auto simp: tree_ok_def tree_holds_def)
      moreover have "tree_map ?t = Map.empty" by (rule empty_placed(2) [OF lv])
      moreover have "\<forall>x \<in> set (tree_ids root ?t). x = root \<or> nxt s \<le> unat x"
        using ids(4) \<open>tree_ids root ?t = root # ids\<close> by auto
      ultimately show ?thesis using ul cl y by (auto simp: quiet_def intro!: exI [of _ ?t])
    qed
  qed
qed

section \<open>Count\<close>

lemma bkt_entries_image:
  assumes "\<forall>e \<in> set es. aent_ok e"
  shows "bkt_entries_from (us @ bkt_image B es) (length (us @ bkt_image B es)) n (length us) = n + length es"
  using assms
proof (induction es arbitrary: us n)
  case Nil
  then show ?case by (subst bkt_entries_from.simps) simp
next
  case (Cons e es)
  have "bkt_entry (us @ ent_image B e @ bkt_image B es) (length (us @ ent_image B e @ bkt_image B es)) (length us) = Some (ent_at B (length us) e)"
    by (rule bkt_entry_at) (use Cons.prems in simp_all)
  moreover have "ent_len (ent_at B (length us) e) = length (ent_image B e)" by (simp add: ent_at_def)
  ultimately show ?case
    using Cons.IH [of "us @ ent_image B e" "n + 1"] Cons.prems by (subst bkt_entries_from.simps) (simp add: add.assoc)
qed

lemma leaf_count_holds:
  assumes i: "inv s" and l: "leaf_holds B (objs s) lf"
  shows "leaf_count B A s (leaf_dir lf) acc = Inr (acc + length (leaf_ents lf))"
proof -
  have "leaf_count_loop B A s (dbuf (leaf_dir lf)) is acc = Inr (acc + (\<Sum>i \<leftarrow> is. length (lf_bs lf ! i)))"
    if "\<forall>k \<in> set is. k < length (lf_cs lf)" for "is" acc
    using that
  proof (induction "is" arbitrary: acc)
    case (Cons k "is")
    then have k: "k < length (lf_cs lf)" by simp
    have b: "bucket_holds B (objs s) (lf_cs lf ! k) (lf_bs lf ! k)" using l k by (simp add: leaf_holds_def)
    note c = leaf_child [OF l k]
    show ?case
    proof (cases "lf_cs lf ! k = 0")
      case True
      with b c Cons show ?thesis by (simp add: bucket_holds_def del: leaf_dir_sel)
    next
      case False
      have "bkt_entries (bkt_image B (lf_bs lf ! k)) (length (bkt_image B (lf_bs lf ! k))) = length (lf_bs lf ! k)"
        using bkt_entries_image [of "lf_bs lf ! k" "[]" 0] b by (simp add: bkt_entries_def bucket_holds_def)
      with b c False Cons show ?thesis by (simp add: bucket_holds_def get_fits [OF i] add.assoc del: leaf_dir_sel)
    qed
  qed simp
  from this [of "[0..<length (lf_cs lf)]" acc] l
  have "leaf_count B A s (leaf_dir lf) acc = Inr (acc + (\<Sum>i \<leftarrow> [0..<length (lf_bs lf)]. length (lf_bs lf ! i)))"
    by (simp add: leaf_count_def leaf_holds_def)
  also have "(\<Sum>i \<leftarrow> [0..<length (lf_bs lf)]. length (lf_bs lf ! i)) = length (leaf_ents lf)"
    by (simp add: leaf_ents_def length_concat map_upt_nth)
  finally show ?thesis .
qed

lemma sub_load_holds:
  "inv s \<Longrightarrow> leaf_holds B (objs s) lf \<Longrightarrow> sub_load B A s (lf_id lf) = Inr (leaf_dir lf)"
  by (simp add: sub_load_def dir_load_leaf) (simp add: leaf_holds_def)

lemma tree_child:
  assumes "inv s" "tree_holds B (objs s) root t" "kt_top t = Some ver" "j < length (kt_leaves t)"
  shows "top_child B A s root j = Inr (lf_id (kt_leaves t ! j))"
    "\<exists>d. dir_load B A s root = Inr d \<and> ddepth d = 2 \<and> dn d = length (kt_leaves t) \<and> dir_child (dbuf d) j = lf_id (kt_leaves t ! j)"
proof -
  let ?ids = "map lf_id (kt_leaves t)"
  have f: "fan_ok B ver (length ?ids)" and o: "objs s root = Some (dir_bytes KVHASH_DIR_MAGIC ver 2 ?ids)"
    using assms(2,3) by (simp_all add: tree_holds_def)
  have c: "dir_child (dir_bytes KVHASH_DIR_MAGIC ver 2 ?ids) j = lf_id (kt_leaves t ! j)"
    using dir_bytes_fields(5) [OF f, of 2 j KVHASH_DIR_MAGIC] payload assms(4) by simp
  with dir_load_image [OF assms(1) o f] assms(4) show "top_child B A s root j = Inr (lf_id (kt_leaves t ! j))"
    "\<exists>d. dir_load B A s root = Inr d \<and> ddepth d = 2 \<and> dn d = length (kt_leaves t) \<and> dir_child (dbuf d) j = lf_id (kt_leaves t ! j)"
    by (simp_all add: top_child_def)
qed

lemma tree_keys_distinct:
  assumes "inv s" "tree_ok B (objs s) root t"
  shows "distinct (map ae_key (tree_ents t))"
proof -
  have h: "tree_holds B (objs s) root t" and p: "placed B t" using assms(2) by (simp_all add: tree_ok_def)
  have d: "distinct (map ae_key (leaf_ents (kt_leaves t ! j)))" if j: "j < length (kt_leaves t)" for j
  proof -
    let ?lf = "kt_leaves t ! j"
    have l: "leaf_holds B (objs s) ?lf" using h j by (simp add: tree_holds_def)
    have dk: "distinct (map ae_key es)" if "es \<in> set (lf_bs ?lf)" for es
      using that l by (auto simp: leaf_holds_def bucket_holds_def in_set_conv_nth)
    have ix: "bkt_ix t (key_hash B k) = a" if "a < length (lf_bs ?lf)" "k \<in> ae_key ` set (lf_bs ?lf ! a)" for a k
      using p j that unfolding placed_def by auto
    have "distinct (concat (map (map ae_key) (lf_bs ?lf)))"
    proof (rule distinct_concat_disjoint)
      fix a b assume "a < length (map (map ae_key) (lf_bs ?lf))" "b < length (map (map ae_key) (lf_bs ?lf))" "a \<noteq> b"
      with ix [of a] ix [of b] show "set (map (map ae_key) (lf_bs ?lf) ! a) \<inter> set (map (map ae_key) (lf_bs ?lf) ! b) = {}" by auto
    qed (use dk in auto)
    then show ?thesis by (simp add: leaf_ents_def map_concat)
  qed
  have ix: "leaf_ix t (key_hash B k) = j" if j: "j < length (kt_leaves t)" "k \<in> ae_key ` set (leaf_ents (kt_leaves t ! j))" for j k
  proof -
    from j(2) obtain es e where "es \<in> set (lf_bs (kt_leaves t ! j))" "e \<in> set es" "k = ae_key e" by (auto simp: leaf_ents_def)
    then obtain i where "i < length (lf_bs (kt_leaves t ! j))" "e \<in> set (lf_bs (kt_leaves t ! j) ! i)" "k = ae_key e"
      by (metis in_set_conv_nth)
    with p j(1) show ?thesis by (simp add: placed_def)
  qed
  let ?ks = "map (\<lambda>lf. map ae_key (leaf_ents lf)) (kt_leaves t)"
  have "distinct (concat ?ks)"
  proof (rule distinct_concat_disjoint)
    fix a b assume "a < length ?ks" "b < length ?ks" "a \<noteq> b"
    with ix [of a] ix [of b] show "set (?ks ! a) \<inter> set (?ks ! b) = {}" by auto
  qed (use d in \<open>auto simp: in_set_conv_nth\<close>)
  then show ?thesis by (simp add: tree_ents_def map_concat comp_def)
qed

lemma kvhash_count_map:
  assumes i: "inv s" and ok: "tree_ok B (objs s) root t"
  shows "kvhash_count B A s root False = Inr (card (dom (tree_map t)))"
proof -
  have h: "tree_holds B (objs s) root t" using ok by (simp add: tree_ok_def)
  have "fst ` set (ent_pairs (tree_ents t)) = ae_key ` set (tree_ents t)" by simp
  then have card: "card (dom (tree_map t)) = length (tree_ents t)"
    using tree_keys_distinct [OF i ok] distinct_card [of "map ae_key (tree_ents t)"]
    by (simp add: tree_map_def dom_map_of_conv_image_fst)
  show ?thesis
  proof (cases "kt_top t")
    case None
    then obtain lf where t: "kt_leaves t = [lf]" "lf_id lf = root" using h by (auto simp: tree_holds_def)
    then have l: "leaf_holds B (objs s) lf" using h by (simp add: tree_holds_def)
    from leaf_count_holds [OF i l, of 0] dir_load_leaf [OF i l] t card show ?thesis
      by (simp add: kvhash_count_def tree_ents_def)
  next
    case (Some ver)
    have n: "0 < length (kt_leaves t)" using h Some by (auto simp: tree_holds_def fan_ok_def)
    obtain d where d: "dir_load B A s root = Inr d" "ddepth d = 2" "dn d = length (kt_leaves t)"
      "dir_child (dbuf d) 0 = lf_id (kt_leaves t ! 0)" using tree_child(2) [OF i h Some n] by blast
    have loop: "tree_count_loop B A s root d js acc = Inr (acc + (\<Sum>j \<leftarrow> js. length (leaf_ents (kt_leaves t ! j))))"
      if "\<forall>j \<in> set js. j < length (kt_leaves t)" for js acc
      using that
    proof (induction js arbitrary: acc)
      case (Cons j js)
      then have j: "j < length (kt_leaves t)" by simp
      then have l: "leaf_holds B (objs s) (kt_leaves t ! j)" using h by (simp add: tree_holds_def)
      have "(if j \<noteq> 0 then top_child B A s root j else Inr (dir_child (dbuf d) 0)) = Inr (lf_id (kt_leaves t ! j))"
        using tree_child(1) [OF i h Some j] d(4) by simp
      with Cons sub_load_holds [OF i l] leaf_count_holds [OF i l, of acc] show ?case by (simp add: add.assoc)
    qed simp
    have "(\<Sum>j \<leftarrow> [0..<length (kt_leaves t)]. length (leaf_ents (kt_leaves t ! j))) = length (tree_ents t)"
      by (simp add: tree_ents_def length_concat comp_def map_upt_nth [where f = "\<lambda>lf. length (leaf_ents lf)"])
    with loop [of "[0..<length (kt_leaves t)]" 0] d card show ?thesis by (simp add: kvhash_count_def)
  qed
qed

end

end
