(* ===== verification/Kv_Hash_Destroy.thy ===== *)
theory Kv_Hash_Destroy
  imports Kv_Hash_Life
begin

text \<open>
  Destroy. The root directory is first rewritten as dying, which hides the map; then buckets and
  sub-maps go, each after what it refers to. \<open>tree_wilts\<close> is what a destroy that failed or was
  cut leaves: every object is whole or gone, and what is gone has nothing left below it. A later
  destroy goes on from there.
\<close>

section \<open>A map half removed\<close>

definition bucket_wilts :: "build \<Rightarrow> (u64 \<Rightarrow> byte list option) \<Rightarrow> u64 \<Rightarrow> aent list \<Rightarrow> bool" where
  "bucket_wilts B m c es \<longleftrightarrow>
     (\<forall>e \<in> set es. aent_ok e) \<and>
     (if c = 0 then es = []
      else m c = Some (bkt_image B es) \<or> m c = None \<and> (\<forall>x \<in> set (bucket_ids es). m x = None))"

definition leaf_wilts :: "build \<Rightarrow> (u64 \<Rightarrow> byte list option) \<Rightarrow> u32 \<Rightarrow> kvleaf \<Rightarrow> bool" where
  "leaf_wilts B m mg lf \<longleftrightarrow>
     fan_ok B (lf_ver lf) (length (lf_cs lf)) \<and> lf_id lf \<noteq> 0 \<and> length (lf_bs lf) = length (lf_cs lf) \<and>
     (m (lf_id lf) = Some (dir_bytes mg (lf_ver lf) 1 (lf_cs lf)) \<and>
        (\<forall>i < length (lf_cs lf). bucket_wilts B m (lf_cs lf ! i) (lf_bs lf ! i)) \<or>
      (\<forall>x \<in> set (leaf_ids lf). m x = None))"

definition tree_wilts :: "build \<Rightarrow> (u64 \<Rightarrow> byte list option) \<Rightarrow> u64 \<Rightarrow> kvtree \<Rightarrow> bool" where
  "tree_wilts B m root t \<longleftrightarrow>
     distinct (tree_ids root t) \<and>
     (case kt_top t of
        None \<Rightarrow> \<exists>lf. kt_leaves t = [lf] \<and> lf_id lf = root \<and>
          m root = Some (dir_bytes KVHASH_DIR_DYING (lf_ver lf) 1 (lf_cs lf)) \<and> leaf_wilts B m KVHASH_DIR_DYING lf
      | Some ver \<Rightarrow> fan_ok B ver (length (kt_leaves t)) \<and>
          m root = Some (dir_bytes KVHASH_DIR_DYING ver 2 (map lf_id (kt_leaves t))) \<and>
          (\<forall>lf \<in> set (kt_leaves t). leaf_wilts B m KVHASH_DIR_MAGIC lf))"

lemma bucket_wilts_frame:
  "(\<And>x. x \<in> set (slot_ids c es) \<Longrightarrow> m' x = m x) \<Longrightarrow> bucket_wilts B m c es \<Longrightarrow> bucket_wilts B m' c es"
  by (auto simp: bucket_wilts_def slot_ids_simps(1))

lemma leaf_wilts_frame:
  assumes "\<And>x. x \<in> set (leaf_ids lf) \<Longrightarrow> m' x = m x" "leaf_wilts B m mg lf"
  shows "leaf_wilts B m' mg lf"
proof -
  have "bucket_wilts B m' (lf_cs lf ! i) (lf_bs lf ! i)"
    if "i < length (lf_cs lf)" "bucket_wilts B m (lf_cs lf ! i) (lf_bs lf ! i)" for i
    by (rule bucket_wilts_frame [OF _ that(2)]) (use slot_ids_leaf [OF that(1)] assms in \<open>auto simp: leaf_wilts_def\<close>)
  moreover have "lf_id lf \<in> set (leaf_ids lf)" by (simp add: leaf_ids_def)
  ultimately show ?thesis using assms unfolding leaf_wilts_def by auto
qed

lemma holds_wilts:
  assumes "leaf_holds B m lf" "\<And>x. x \<in> set (leaf_ids lf) \<Longrightarrow> x \<noteq> lf_id lf \<Longrightarrow> m' x = m x"
    and "m' (lf_id lf) = Some (dir_bytes mg (lf_ver lf) 1 (lf_cs lf))" "distinct (leaf_ids lf)"
  shows "leaf_wilts B m' mg lf"
proof -
  have len: "length (lf_bs lf) = length (lf_cs lf)" using assms(1) by (simp add: leaf_holds_def)
  have "bucket_wilts B m' (lf_cs lf ! i) (lf_bs lf ! i)" if i: "i < length (lf_cs lf)" for i
  proof (rule bucket_wilts_frame [where m = m])
    show "bucket_wilts B m (lf_cs lf ! i) (lf_bs lf ! i)"
      using assms(1) i by (auto simp: leaf_holds_def bucket_holds_def bucket_wilts_def)
    have two: "2 \<le> length (lf_cs lf)" using assms(1) by (simp add: leaf_holds_def fan_ok_def)
    obtain k where k: "k < length (lf_cs lf)" "k \<noteq> i"
      using two by (cases "i = 0") (force intro: that [of 1] that [of 0])+
    show "m' x = m x" if "x \<in> set (slot_ids (lf_cs lf ! i) (lf_bs lf ! i))" for x
      by (rule assms(2)) (use slot_ids_leaf [OF i len] leaf_slots_disjoint(2) [OF assms(4) len i k] that in auto)
  qed
  with assms(1,3) show ?thesis by (simp add: leaf_wilts_def leaf_holds_def)
qed

context kv_store
begin

definition shrinks :: "u64 set \<Rightarrow> 's \<Rightarrow> 's \<Rightarrow> bool" where
  "shrinks X s s' \<longleftrightarrow> inv s' \<and> nxt s' = nxt s \<and> (\<forall>x. objs s' x = objs s x \<or> x \<in> X \<and> objs s' x = None)"

lemma shrinksD:
  assumes "shrinks X s s'"
  shows "inv s'" "nxt s' = nxt s" "x \<notin> X \<Longrightarrow> objs s' x = objs s x" "objs s x = None \<Longrightarrow> objs s' x = None"
proof -
  from assms show "inv s'" "nxt s' = nxt s" by (simp_all add: shrinks_def)
  from assms have "objs s' x = objs s x \<or> x \<in> X \<and> objs s' x = None" by (simp add: shrinks_def)
  then show "x \<notin> X \<Longrightarrow> objs s' x = objs s x" "objs s x = None \<Longrightarrow> objs s' x = None" by auto
qed

lemma shrinks_refl [simp]: "inv s \<Longrightarrow> shrinks X s s"
  by (simp add: shrinks_def)

lemma shrinks_trans: "shrinks X s s1 \<Longrightarrow> shrinks Y s1 s2 \<Longrightarrow> X \<subseteq> Z \<Longrightarrow> Y \<subseteq> Z \<Longrightarrow> shrinks Z s s2"
  unfolding shrinks_def by (metis subsetD)

lemma drop_blob_law:
  assumes "inv s" "drop_blob A s x = (e, s')"
  shows "shrinks {x} s s'" "e = None \<Longrightarrow> objs s' x = None"
proof -
  obtain r s1 where d: "api_delete A s x = (r, s1)" by fastforce
  from delete_law [OF assms(1) d] assms(2) d show "shrinks {x} s s'" "e = None \<Longrightarrow> objs s' x = None"
    by (auto simp: drop_blob_def kv_delete_def shrinks_def effect_def split: sum.splits if_splits)
qed

lemma drop_part_law:
  assumes "inv s" "drop_part A err s x = (e, s')"
  shows "shrinks {y. y = x \<and> y \<noteq> 0} s s'" "e = None \<Longrightarrow> err = None \<and> (x \<noteq> 0 \<longrightarrow> objs s' x = None)"
proof -
  obtain e1 s1 where d: "drop_blob A s x = (e1, s1)" by fastforce
  note dl = drop_blob_law [OF assms(1) d]
  from dl(1) assms d show "shrinks {y. y = x \<and> y \<noteq> 0} s s'"
    by (cases "x = 0") (auto simp: drop_part_def shrinks_def)
  from dl(2) assms d show "e = None \<Longrightarrow> err = None \<and> (x \<noteq> 0 \<longrightarrow> objs s' x = None)"
    by (cases "x = 0") (auto simp: drop_part_def first_err_def split: option.splits)
qed

lemma release_entries_law:
  assumes "\<forall>e \<in> set es. aent_ok e" "inv s"
    and "release_entries A s (us @ bkt_image B es) (length (us @ bkt_image B es)) err (length us) = (err', s')"
  shows "shrinks (set (bucket_ids es)) s s' \<and> (err' = None \<longrightarrow> err = None \<and> (\<forall>x \<in> set (bucket_ids es). objs s' x = None))"
  using assms
proof (induction es arbitrary: us err s)
  case Nil
  then show ?case by (subst (asm) release_entries.simps) auto
next
  case (Cons e es)
  have ok: "aent_ok e" using Cons.prems(1) by simp
  have at: "bkt_entry (us @ bkt_image B (e # es)) (length (us @ bkt_image B (e # es))) (length us) = Some (ent_at B (length us) e)"
    using bkt_entry_at [OF ok, of us B _ "bkt_image B es"] by simp
  have ids: "ent_key_id (us @ bkt_image B (e # es)) (ent_at B (length us) e) = ae_kid e"
    "ent_val_id (us @ bkt_image B (e # es)) (ent_at B (length us) e) = ae_vid e"
    "ent_len (ent_at B (length us) e) = length (ent_image B e)"
    using ent_at_ids [OF ok, where us = us and B = B and vs = "bkt_image B es"] by (simp_all add: ent_at_def)
  obtain e1 s1 where 1: "drop_part A err s (ae_kid e) = (e1, s1)" by fastforce
  obtain e2 s2 where 2: "drop_part A e1 s1 (ae_vid e) = (e2, s2)" by fastforce
  note l1 = drop_part_law [OF Cons.prems(2) 1]
  note l2 = drop_part_law [OF shrinksD(1) [OF l1(1)] 2]
  have "release_entries A s2 ((us @ ent_image B e) @ bkt_image B es) (length ((us @ ent_image B e) @ bkt_image B es)) e2
      (length (us @ ent_image B e)) = (err', s')"
    using Cons.prems(3) at ids 1 2 by (subst (asm) release_entries.simps) simp
  from Cons.IH [OF _ shrinksD(1) [OF l2(1)] this] Cons.prems(1)
  have IH: "shrinks (set (bucket_ids es)) s2 s'" "err' = None \<Longrightarrow> e2 = None \<and> (\<forall>x \<in> set (bucket_ids es). objs s' x = None)" by auto
  have s12: "shrinks (set (ent_ids e)) s s2" by (rule shrinks_trans [OF l1(1) l2(1)]) (auto simp: slot_ids_simps)
  have "shrinks (set (bucket_ids (e # es))) s s'" by (rule shrinks_trans [OF s12 IH(1)]) auto
  moreover have "objs s' x = None" if "err' = None" "x \<in> set (ent_ids e)" for x
  proof -
    have "objs s2 x = None" using that(2) IH(2) [OF that(1)] l1(2) l2(2) shrinksD(4) [OF l2(1)] by (auto simp: slot_ids_simps)
    then show ?thesis by (rule shrinksD(4) [OF IH(1)])
  qed
  ultimately show ?case using IH(2) l1(2) l2(2) by auto
qed

lemma release_bucket_law:
  assumes i: "inv s" and w: "bucket_wilts B (objs s) c es" "c \<noteq> 0" "c \<notin> set (bucket_ids es)"
    and run: "release_bucket B A s c = (err, s')"
  shows "shrinks (set (slot_ids c es)) s s' \<and> bucket_wilts B (objs s') c es \<and>
    (err = None \<longrightarrow> (\<forall>x \<in> set (slot_ids c es). objs s' x = None))"
proof (cases "objs s c")
  case None
  with run i have "err = None" "s' = s" by (auto simp: release_bucket_def get_fits [OF i])
  with i w None show ?thesis by (auto simp: bucket_wilts_def slot_ids_simps(1))
next
  case (Some p)
  then have p: "p = bkt_image B es" and ok: "\<forall>e \<in> set es. aent_ok e" using w by (auto simp: bucket_wilts_def)
  obtain e1 s1 where 1: "release_entries A s (bkt_image B es) (length (bkt_image B es)) None 0 = (e1, s1)" by fastforce
  have l1: "shrinks (set (bucket_ids es)) s s1" "e1 = None \<Longrightarrow> \<forall>x \<in> set (bucket_ids es). objs s1 x = None"
    using release_entries_law [OF ok i, of "[]" None e1 s1] 1 by auto
  have c1: "objs s1 c = Some (bkt_image B es)" using shrinksD(3) [OF l1(1) w(3)] Some p by simp
  show ?thesis
  proof (cases e1)
    case (Some e)
    with run 1 \<open>objs s c = Some p\<close> p have "err = Some e" "s' = s1" by (auto simp: release_bucket_def get_fits [OF i])
    with l1 c1 ok w(2) show ?thesis by (auto simp: bucket_wilts_def shrinks_def slot_ids_simps(1))
  next
    case None
    with run 1 \<open>objs s c = Some p\<close> p have d: "drop_blob A s1 c = (err, s')" by (auto simp: release_bucket_def get_fits [OF i])
    note l2 = drop_blob_law [OF shrinksD(1) [OF l1(1)] d]
    have sh: "shrinks (set (slot_ids c es)) s s'" by (rule shrinks_trans [OF l1(1) l2(1)]) (use w(2) in \<open>auto simp: slot_ids_simps(1)\<close>)
    have gone: "\<forall>x \<in> set (bucket_ids es). objs s' x = None" using l1(2) [OF None] shrinksD(4) [OF l2(1)] by blast
    have "objs s' c = Some (bkt_image B es) \<or> objs s' c = None" using l2(1) c1 unfolding shrinks_def by metis
    with sh gone ok w(2) l2(2) show ?thesis by (auto simp: bucket_wilts_def slot_ids_simps(1))
  qed
qed

lemma shrink_wilts:
  assumes "shrinks X s s'" "X \<inter> set (slot_ids c es) = {}" "bucket_wilts B (objs s) c es"
  shows "bucket_wilts B (objs s') c es"
  by (rule bucket_wilts_frame [OF _ assms(3)]) (use assms(1,2) shrinksD(3) in blast)

text \<open>Two slots of a leaf share nothing.\<close>

lemma leaf_slot_other:
  assumes "distinct (leaf_ids lf)" "length (lf_bs lf) = length (lf_cs lf)" "i < length (lf_cs lf)" "k < length (lf_cs lf)" "k \<noteq> i"
  shows "set (slot_ids (lf_cs lf ! i) (lf_bs lf ! i)) \<inter> set (slot_ids (lf_cs lf ! k) (lf_bs lf ! k)) = {}"
    "lf_cs lf ! i \<notin> set (bucket_ids (lf_bs lf ! i))" "lf_id lf \<notin> set (slot_ids (lf_cs lf ! i) (lf_bs lf ! i))"
proof -
  show "set (slot_ids (lf_cs lf ! i) (lf_bs lf ! i)) \<inter> set (slot_ids (lf_cs lf ! k) (lf_bs lf ! k)) = {}"
    "lf_id lf \<notin> set (slot_ids (lf_cs lf ! i) (lf_bs lf ! i))"
    using leaf_slots_disjoint [OF assms] by auto
  have "lf_bs lf ! i \<in> set (lf_bs lf)" "lf_cs lf ! i \<in> set (lf_cs lf)" using assms(2,3) by simp_all
  then show "lf_cs lf ! i \<notin> set (bucket_ids (lf_bs lf ! i))"
    using assms(1) by (auto simp: leaf_ids_def slot_ids_simps)
qed

lemma release_loop_law:
  assumes d: "distinct (leaf_ids lf)" and l: "length (lf_bs lf) = length (lf_cs lf)" "2 \<le> length (lf_cs lf)"
    and ch: "\<And>i. i < length (lf_cs lf) \<Longrightarrow> dir_child dirb i = lf_cs lf ! i"
  shows "inv s \<Longrightarrow> \<forall>i < length (lf_cs lf). bucket_wilts B (objs s) (lf_cs lf ! i) (lf_bs lf ! i) \<Longrightarrow>
    \<forall>i \<in> set is. i < length (lf_cs lf) \<Longrightarrow> release_loop B A s dirb is err = (err', s') \<Longrightarrow>
    shrinks (set (leaf_ids lf) - {lf_id lf}) s s' \<and> (\<forall>i < length (lf_cs lf). bucket_wilts B (objs s') (lf_cs lf ! i) (lf_bs lf ! i)) \<and>
    (err' = None \<longrightarrow> err = None \<and> (\<forall>i \<in> set is. \<forall>x \<in> set (slot_ids (lf_cs lf ! i) (lf_bs lf ! i)). objs s' x = None))"
proof (induction "is" arbitrary: s err)
  case (Cons i "is")
  then have i: "i < length (lf_cs lf)" by simp
  let ?c = "lf_cs lf ! i" and ?es = "lf_bs lf ! i"
  obtain k where k: "k < length (lf_cs lf)" "k \<noteq> i" using l(2) by (cases "i = 0") (force intro: that [of 1] that [of 0])+
  note so = leaf_slot_other [OF d l(1) i k]
  have w: "bucket_wilts B (objs s) ?c ?es" using Cons.prems(2) i by simp
  obtain e1 s1 where r1: "(if ?c = 0 then (None, s) else release_bucket B A s ?c) = (e1, s1)" by fastforce
  have l1: "shrinks (set (slot_ids ?c ?es)) s s1 \<and> bucket_wilts B (objs s1) ?c ?es \<and> (e1 = None \<longrightarrow> (\<forall>x \<in> set (slot_ids ?c ?es). objs s1 x = None))"
  proof (cases "?c = 0")
    case True
    with r1 w Cons.prems(1) show ?thesis by (auto simp: bucket_wilts_def slot_ids_def)
  next
    case False
    with r1 release_bucket_law [OF Cons.prems(1) w False so(2)] show ?thesis by simp
  qed
  have run: "release_loop B A s1 dirb is (first_err err e1) = (err', s')"
    using Cons.prems(4) r1 ch [OF i] by (cases "?c = 0") (auto simp: first_err_def split: option.splits)
  have all: "\<forall>i < length (lf_cs lf). bucket_wilts B (objs s1) (lf_cs lf ! i) (lf_bs lf ! i)"
  proof (intro allI impI)
    fix n assume n: "n < length (lf_cs lf)"
    show "bucket_wilts B (objs s1) (lf_cs lf ! n) (lf_bs lf ! n)"
    proof (cases "n = i")
      case False
      show ?thesis
        by (rule shrink_wilts [OF conjunct1 [OF l1] leaf_slot_other(1) [OF d l(1) i n False]]) (use Cons.prems(2) n in simp)
    qed (use l1 in simp)
  qed
  have IH: "shrinks (set (leaf_ids lf) - {lf_id lf}) s1 s' \<and>
    (\<forall>i < length (lf_cs lf). bucket_wilts B (objs s') (lf_cs lf ! i) (lf_bs lf ! i)) \<and>
    (err' = None \<longrightarrow> first_err err e1 = None \<and> (\<forall>i \<in> set is. \<forall>x \<in> set (slot_ids (lf_cs lf ! i) (lf_bs lf ! i)). objs s' x = None))"
    by (rule Cons.IH [OF _ all _ run]) (use l1 shrinksD(1) Cons.prems(3) in auto)
  have "shrinks (set (leaf_ids lf) - {lf_id lf}) s s'"
    by (rule shrinks_trans [OF conjunct1 [OF l1] conjunct1 [OF IH]]) (use slot_ids_leaf [OF i l(1)] so(3) in auto)
  moreover have "err = None \<and> e1 = None" if "err' = None" using IH that by (auto simp: first_err_def split: option.splits)
  ultimately show ?case using IH l1 shrinksD(4) [OF conjunct1 [OF IH]] by auto
qed simp

lemma leaf_gone:
  assumes "length (lf_bs lf) = length (lf_cs lf)" "m (lf_id lf) = None"
    and "\<And>i x. i < length (lf_cs lf) \<Longrightarrow> x \<in> set (slot_ids (lf_cs lf ! i) (lf_bs lf ! i)) \<Longrightarrow> m x = None"
  shows "\<forall>x \<in> set (leaf_ids lf). m x = None"
proof
  fix x assume "x \<in> set (leaf_ids lf)"
  then consider "x = lf_id lf" | "x \<in> set (lf_cs lf)" "x \<noteq> 0" | es where "es \<in> set (lf_bs lf)" "x \<in> set (bucket_ids es)"
    by (auto simp: leaf_ids_def)
  then show "m x = None"
  proof cases
    case 2
    then obtain i where "i < length (lf_cs lf)" "x = lf_cs lf ! i" by (metis in_set_conv_nth)
    with assms(3) [of i x] 2(2) show ?thesis by (simp add: slot_ids_simps(1))
  next
    case 3
    then obtain i where "i < length (lf_bs lf)" "es = lf_bs lf ! i" by (metis in_set_conv_nth)
    with assms(1) assms(3) [of i x] 3(2) show ?thesis by (simp add: slot_ids_simps(1))
  qed (use assms(2) in simp)
qed

text \<open>The buckets of a directory that is still there.\<close>

lemma release_buckets_law:
  assumes i: "inv s" and w: "leaf_wilts B (objs s) mg lf" "objs s (lf_id lf) = Some (dir_bytes mg (lf_ver lf) 1 (lf_cs lf))"
    and d: "distinct (leaf_ids lf)" and ch: "\<And>i. i < length (lf_cs lf) \<Longrightarrow> dir_child (dbuf dd) i = lf_cs lf ! i" and dn: "dn dd = length (lf_cs lf)"
    and run: "release_buckets B A s dd = (err, s')"
  shows "shrinks (set (leaf_ids lf) - {lf_id lf}) s s' \<and> leaf_wilts B (objs s') mg lf \<and>
    objs s' (lf_id lf) = Some (dir_bytes mg (lf_ver lf) 1 (lf_cs lf)) \<and>
    (err = None \<longrightarrow> (\<forall>x \<in> set (leaf_ids lf) - {lf_id lf}. objs s' x = None))"
proof -
  have f: "fan_ok B (lf_ver lf) (length (lf_cs lf))" and len: "length (lf_bs lf) = length (lf_cs lf)"
    and bw: "\<forall>i < length (lf_cs lf). bucket_wilts B (objs s) (lf_cs lf ! i) (lf_bs lf ! i)"
    using w by (auto simp: leaf_wilts_def leaf_ids_def)
  have "2 \<le> length (lf_cs lf)" using f by (simp add: fan_ok_def)
  from release_loop_law [OF d len this ch i bw _ run [unfolded release_buckets_def dn]]
  have R: "shrinks (set (leaf_ids lf) - {lf_id lf}) s s'" "\<forall>i < length (lf_cs lf). bucket_wilts B (objs s') (lf_cs lf ! i) (lf_bs lf ! i)"
    "err = None \<Longrightarrow> \<forall>i < length (lf_cs lf). \<forall>x \<in> set (slot_ids (lf_cs lf ! i) (lf_bs lf ! i)). objs s' x = None" by auto
  have o: "objs s' (lf_id lf) = Some (dir_bytes mg (lf_ver lf) 1 (lf_cs lf))" using shrinksD(3) [OF R(1), of "lf_id lf"] w(2) by simp
  have "objs s' x = None" if "err = None" "x \<in> set (leaf_ids lf)" "x \<noteq> lf_id lf" for x
  proof -
    have "\<forall>x \<in> set (leaf_ids lf). ((objs s')(lf_id lf := None)) x = None"
      by (rule leaf_gone [OF len]) (use R(3) [OF that(1)] in auto)
    with that(2,3) show ?thesis by (simp split: if_splits) metis
  qed
  with R o w(1) show ?thesis by (auto simp: leaf_wilts_def)
qed

text \<open>One sub-map. The root's directory stays as it is.\<close>

lemma shrink_leaf_wilts:
  "shrinks X s s' \<Longrightarrow> X \<inter> set (leaf_ids lf) = {} \<Longrightarrow> leaf_wilts B (objs s) mg lf \<Longrightarrow> leaf_wilts B (objs s') mg lf"
  by (rule leaf_wilts_frame [where m = "objs s"]) (use shrinksD(3) in blast)+

lemma release_sub_law:
  assumes i: "inv s" and top: "fan_ok B ver (length L)" "objs s root = Some (dir_bytes KVHASH_DIR_DYING ver 2 (map lf_id L))"
    and j: "j < length L" and w: "leaf_wilts B (objs s) KVHASH_DIR_MAGIC (L ! j)" and d: "distinct (leaf_ids (L ! j))"
    and run: "release_sub B A s root j = (err, s')"
  shows "shrinks (set (leaf_ids (L ! j))) s s' \<and> leaf_wilts B (objs s') KVHASH_DIR_MAGIC (L ! j) \<and>
    (err = None \<longrightarrow> (\<forall>x \<in> set (leaf_ids (L ! j)). objs s' x = None))"
proof -
  let ?lf = "L ! j"
  have rl: "dir_load_raw B A s root = Inr (\<lparr>dbuf = dir_bytes KVHASH_DIR_DYING ver 2 (map lf_id L), dn = length L, ddepth = 2\<rparr>, True)"
    using dir_load_raw_image [OF i top(2)] top(1) by simp
  have ch: "dir_child (dir_bytes KVHASH_DIR_DYING ver 2 (map lf_id L)) j = lf_id ?lf"
    using dir_bytes_fields(5) [of B ver "map lf_id L" 2 j KVHASH_DIR_DYING] top(1) payload j by simp
  have z: "lf_id ?lf \<noteq> 0" using w by (simp add: leaf_wilts_def)
  have idin: "lf_id ?lf \<in> set (leaf_ids ?lf)" by (simp add: leaf_ids_def)
  show ?thesis
  proof (cases "objs s (lf_id ?lf)")
    case None
    then have "dir_load_raw B A s (lf_id ?lf) = Inl ENOENT" by (simp add: dir_load_raw_def get_fits [OF i])
    with run rl ch z j have "err = None" "s' = s" by (auto simp: release_sub_def Let_def)
    moreover have "\<forall>x \<in> set (leaf_ids ?lf). objs s x = None" using w None by (auto simp: leaf_wilts_def)
    ultimately show ?thesis using i w by simp
  next
    case (Some p)
    let ?dir = "dir_bytes KVHASH_DIR_MAGIC (lf_ver ?lf) 1 (lf_cs ?lf)"
    have p: "objs s (lf_id ?lf) = Some ?dir" and f: "fan_ok B (lf_ver ?lf) (length (lf_cs ?lf))"
      using w Some idin by (auto simp: leaf_wilts_def)
    let ?d = "\<lparr>dbuf = ?dir, dn = length (lf_cs ?lf), ddepth = 1\<rparr>"
    have sl: "dir_load_raw B A s (lf_id ?lf) = Inr (?d, False)"
      using dir_load_raw_image [OF i p f] by (simp add: KVHASH_DIR_MAGIC_def KVHASH_DIR_DYING_def)
    obtain e1 s1 where 1: "release_buckets B A s ?d = (e1, s1)" by fastforce
    have "dir_child (dbuf ?d) k = lf_cs ?lf ! k" if "k < length (lf_cs ?lf)" for k
      using dir_bytes_fields(5) [OF f _ payload that, of 1 KVHASH_DIR_MAGIC] by simp
    note l1 = release_buckets_law [OF i w p d this _ 1, simplified]
    have sub: "set (leaf_ids ?lf) - {lf_id ?lf} \<subseteq> set (leaf_ids ?lf)" by blast
    show ?thesis
    proof (cases e1)
      case (Some e)
      with run rl ch z j sl 1 have "err = Some e" "s' = s1" by (auto simp: release_sub_def Let_def)
      with l1 shrinks_trans [OF shrinks_refl [OF i] conjunct1 [OF l1] _ sub] show ?thesis by auto
    next
      case None
      with run rl ch z j sl 1 have dr: "drop_blob A s1 (lf_id ?lf) = (err, s')" by (simp add: release_sub_def Let_def)
      note l2 = drop_blob_law [OF shrinksD(1) [OF conjunct1 [OF l1]] dr]
      have sh: "shrinks (set (leaf_ids ?lf)) s s'" by (rule shrinks_trans [OF conjunct1 [OF l1] l2(1) sub]) (simp add: idin)
      have gone: "objs s' x = None" if "x \<in> set (leaf_ids ?lf)" "x \<noteq> lf_id ?lf" for x
        using l1 None that shrinksD(4) [OF l2(1)] by simp
      have "leaf_wilts B (objs s') KVHASH_DIR_MAGIC ?lf"
      proof (cases "objs s' (lf_id ?lf)")
        case None
        with gone have "\<forall>x \<in> set (leaf_ids ?lf). objs s' x = None" by metis
        with w show ?thesis by (simp add: leaf_wilts_def)
      next
        case (Some q)
        then have "objs s' x = objs s1 x" for x using l2(1) unfolding shrinks_def by (metis option.distinct(1) singletonD)
        then have "objs s' = objs s1" by blast
        with l1 show ?thesis by simp
      qed
      moreover have "\<forall>x \<in> set (leaf_ids ?lf). objs s' x = None" if "err = None" using gone l2(2) [OF that] by metis
      ultimately show ?thesis using sh by blast
    qed
  qed
qed

lemma release_subs_law:
  assumes top: "fan_ok B ver (length L)" and d: "distinct (root # concat (map leaf_ids L))"
  shows "inv s \<Longrightarrow> objs s root = Some (dir_bytes KVHASH_DIR_DYING ver 2 (map lf_id L)) \<Longrightarrow>
    \<forall>lf \<in> set L. leaf_wilts B (objs s) KVHASH_DIR_MAGIC lf \<Longrightarrow> \<forall>j \<in> set js. j < length L \<Longrightarrow>
    release_subs B A s root js err = (err', s') \<Longrightarrow>
    shrinks (set (concat (map leaf_ids L))) s s' \<and> objs s' root = Some (dir_bytes KVHASH_DIR_DYING ver 2 (map lf_id L)) \<and>
    (\<forall>lf \<in> set L. leaf_wilts B (objs s') KVHASH_DIR_MAGIC lf) \<and>
    (err' = None \<longrightarrow> err = None \<and> (\<forall>j \<in> set js. \<forall>x \<in> set (leaf_ids (L ! j)). objs s' x = None))"
proof (induction js arbitrary: s err)
  case (Cons j js)
  then have j: "j < length L" by simp
  then have lf: "L ! j \<in> set L" by simp
  obtain e1 s1 where r1: "release_sub B A s root j = (e1, s1)" by fastforce
  have dj: "distinct (leaf_ids (L ! j))" using d lf by (auto simp: distinct_concat_iff)
  have l1: "shrinks (set (leaf_ids (L ! j))) s s1 \<and> leaf_wilts B (objs s1) KVHASH_DIR_MAGIC (L ! j) \<and>
      (e1 = None \<longrightarrow> (\<forall>x \<in> set (leaf_ids (L ! j)). objs s1 x = None))"
    by (rule release_sub_law [OF Cons.prems(1) top Cons.prems(2) j _ dj r1]) (use Cons.prems(3) lf in simp)
  note sh = conjunct1 [OF l1]
  have in_all: "set (leaf_ids (L ! j)) \<subseteq> set (concat (map leaf_ids L))" using lf by auto
  have rt: "objs s1 root = Some (dir_bytes KVHASH_DIR_DYING ver 2 (map lf_id L))"
    using shrinksD(3) [OF sh, of root] in_all d Cons.prems(2) by auto
  have all: "\<forall>lf \<in> set L. leaf_wilts B (objs s1) KVHASH_DIR_MAGIC lf"
  proof
    fix l assume "l \<in> set L"
    then obtain k where k: "k < length L" "l = L ! k" by (metis in_set_conv_nth)
    show "leaf_wilts B (objs s1) KVHASH_DIR_MAGIC l"
    proof (cases "k = j")
      case False
      have "set (leaf_ids (L ! j)) \<inter> set (leaf_ids (L ! k)) = {}"
        using distinct_concat_nth [of "map leaf_ids L" j k] d j k False by simp
      from shrink_leaf_wilts [OF sh this] Cons.prems(3) k show ?thesis by simp
    qed (use l1 k in simp)
  qed
  have run: "release_subs B A s1 root js (first_err err e1) = (err', s')" using Cons.prems(5) r1 by simp
  have IH: "shrinks (set (concat (map leaf_ids L))) s1 s' \<and> objs s' root = Some (dir_bytes KVHASH_DIR_DYING ver 2 (map lf_id L)) \<and>
    (\<forall>lf \<in> set L. leaf_wilts B (objs s') KVHASH_DIR_MAGIC lf) \<and>
    (err' = None \<longrightarrow> first_err err e1 = None \<and> (\<forall>j \<in> set js. \<forall>x \<in> set (leaf_ids (L ! j)). objs s' x = None))"
    by (rule Cons.IH [OF shrinksD(1) [OF sh] rt all _ run]) (use Cons.prems(4) in simp)
  have "shrinks (set (concat (map leaf_ids L))) s s'" by (rule shrinks_trans [OF sh conjunct1 [OF IH] in_all]) simp
  moreover have "err = None \<and> e1 = None" if "err' = None" using IH that by (auto simp: first_err_def split: option.splits)
  ultimately show ?case using IH l1 shrinksD(4) [OF conjunct1 [OF IH]] by auto
qed simp

lemma dir_dying:
  "splice (dir_bytes mg ver dp cs) 0 (le_bytes 4 (unat KVHASH_DIR_DYING)) = dir_bytes KVHASH_DIR_DYING ver dp cs"
  by (simp add: splice_def dir_bytes_def)

text \<open>The directory a destroy starts from, and the state once it is marked.\<close>

lemma destroy_starts:
  assumes i: "inv s" and t: "tree_ok B (objs s) root t \<or> tree_wilts B (objs s) root t"
  obtains mg ver dp cs where
    "dir_load_raw B A s root = Inr (\<lparr>dbuf = dir_bytes mg ver dp cs, dn = length cs, ddepth = dp\<rparr>, mg = KVHASH_DIR_DYING)"
    "objs s root = Some (dir_bytes mg ver dp cs)" "fan_ok B ver (length cs)" "dp = 1 \<or> dp = 2"
    "mg = KVHASH_DIR_DYING \<Longrightarrow> tree_wilts B (objs s) root t"
    "\<And>m. (\<And>x. x \<noteq> root \<Longrightarrow> m x = objs s x) \<Longrightarrow> m root = Some (dir_bytes KVHASH_DIR_DYING ver dp cs) \<Longrightarrow> tree_wilts B m root t"
    "case kt_top t of None \<Rightarrow> dp = 1 \<and> (\<exists>lf. kt_leaves t = [lf] \<and> ver = lf_ver lf \<and> cs = lf_cs lf)
      | Some v \<Rightarrow> dp = 2 \<and> v = ver \<and> cs = map lf_id (kt_leaves t)"
proof -
  obtain mg ver dp cs where o: "objs s root = Some (dir_bytes mg ver dp cs)" and f: "fan_ok B ver (length cs)"
    and mg: "mg = KVHASH_DIR_MAGIC \<and> tree_ok B (objs s) root t \<or> mg = KVHASH_DIR_DYING \<and> tree_wilts B (objs s) root t"
    and sh: "case kt_top t of None \<Rightarrow> dp = 1 \<and> (\<exists>lf. kt_leaves t = [lf] \<and> ver = lf_ver lf \<and> cs = lf_cs lf)
      | Some v \<Rightarrow> dp = 2 \<and> v = ver \<and> cs = map lf_id (kt_leaves t)"
    using t
  proof
    assume ok: "tree_ok B (objs s) root t"
    show ?thesis
    proof (cases "kt_top t")
      case None
      with ok obtain lf where "kt_leaves t = [lf]" "lf_id lf = root" "leaf_holds B (objs s) lf" by (auto simp: tree_ok_def tree_holds_def)
      with ok None show ?thesis by (intro that [of KVHASH_DIR_MAGIC "lf_ver lf" 1 "lf_cs lf"]) (auto simp: leaf_holds_def)
    next
      case (Some v)
      with ok show ?thesis
        by (intro that [of KVHASH_DIR_MAGIC v 2 "map lf_id (kt_leaves t)"]) (auto simp: tree_ok_def tree_holds_def)
    qed
  next
    assume w: "tree_wilts B (objs s) root t"
    show ?thesis
    proof (cases "kt_top t")
      case None
      with w obtain lf where "kt_leaves t = [lf]" "objs s root = Some (dir_bytes KVHASH_DIR_DYING (lf_ver lf) 1 (lf_cs lf))"
        "leaf_wilts B (objs s) KVHASH_DIR_DYING lf" by (auto simp: tree_wilts_def)
      with w None show ?thesis by (intro that [of KVHASH_DIR_DYING "lf_ver lf" 1 "lf_cs lf"]) (auto simp: leaf_wilts_def)
    next
      case (Some v)
      with w show ?thesis by (intro that [of KVHASH_DIR_DYING v 2 "map lf_id (kt_leaves t)"]) (auto simp: tree_wilts_def)
    qed
  qed
  have dp: "dp = 1 \<or> dp = 2" using sh by (auto split: option.splits)
  have wilt: "tree_wilts B m root t" if m: "\<And>x. x \<noteq> root \<Longrightarrow> m x = objs s x" "m root = Some (dir_bytes KVHASH_DIR_DYING ver dp cs)" for m
    using mg
  proof
    assume "mg = KVHASH_DIR_MAGIC \<and> tree_ok B (objs s) root t"
    then have ok: "tree_ok B (objs s) root t" by simp
    then have d: "distinct (tree_ids root t)" and h: "tree_holds B (objs s) root t" by (simp_all add: tree_ok_def)
    show ?thesis
    proof (cases "kt_top t")
      case None
      then obtain lf where lf: "kt_leaves t = [lf]" "lf_id lf = root" "ver = lf_ver lf" "cs = lf_cs lf" "dp = 1" "leaf_holds B (objs s) lf"
        using h sh by (auto simp: tree_holds_def)
      have "leaf_wilts B m KVHASH_DIR_DYING lf"
        by (rule holds_wilts [OF lf(6)]) (use m lf d None in \<open>auto simp: tree_ids_def\<close>)
      with None lf m d show ?thesis by (simp add: tree_wilts_def)
    next
      case (Some v)
      have "leaf_wilts B m KVHASH_DIR_MAGIC lf" if lf: "lf \<in> set (kt_leaves t)" for lf
      proof -
        have l: "leaf_holds B (objs s) lf" using h lf by (simp add: tree_holds_def)
        have nr: "root \<notin> set (leaf_ids lf)" using d Some lf by (auto simp: tree_ids_def)
        then have "m (lf_id lf) = objs s (lf_id lf)" using m(1) [of "lf_id lf"] by (auto simp: leaf_ids_def)
        moreover have "distinct (leaf_ids lf)" using d lf by (auto simp: tree_ids_def distinct_concat_iff)
        ultimately show ?thesis using l nr by (intro holds_wilts [OF l]) (auto simp: leaf_holds_def intro: m(1))
      qed
      with Some sh m(2) d f show ?thesis by (simp add: tree_wilts_def)
    qed
  next
    assume "mg = KVHASH_DIR_DYING \<and> tree_wilts B (objs s) root t"
    then have "m = objs s" "tree_wilts B (objs s) root t" using m o by (auto simp: fun_eq_iff) metis
    then show ?thesis by simp
  qed
  show ?thesis
  proof (rule that)
    show "dir_load_raw B A s root = Inr (\<lparr>dbuf = dir_bytes mg ver dp cs, dn = length cs, ddepth = dp\<rparr>, mg = KVHASH_DIR_DYING)"
      by (rule dir_load_raw_image [OF i o f dp]) (use mg in auto)
    show "mg = KVHASH_DIR_DYING \<Longrightarrow> tree_wilts B (objs s) root t" using mg by (auto simp: KVHASH_DIR_MAGIC_def KVHASH_DIR_DYING_def)
  qed (fact o f dp sh | rule wilt; assumption)+
qed

text \<open>Everything below a marked root.\<close>

lemma release_below:
  assumes i: "inv s" and w: "tree_wilts B (objs s) root t"
    and sh: "case kt_top t of None \<Rightarrow> dp = 1 \<and> (\<exists>lf. kt_leaves t = [lf] \<and> ver = lf_ver lf \<and> cs = lf_cs lf)
      | Some v \<Rightarrow> dp = 2 \<and> v = ver \<and> cs = map lf_id (kt_leaves t)" and f: "fan_ok B ver (length cs)"
    and run: "(if dp = 1 then release_buckets B A s \<lparr>dbuf = dir_bytes mg ver dp cs, dn = length cs, ddepth = dp\<rparr>
      else release_subs B A s root [0..<length cs] None) = (err, s')"
  shows "shrinks (set (tree_ids root t) - {root}) s s' \<and> tree_wilts B (objs s') root t \<and>
    (err = None \<longrightarrow> (\<forall>x \<in> set (tree_ids root t) - {root}. objs s' x = None))"
proof (cases "kt_top t")
  case None
  then obtain lf where lf: "kt_leaves t = [lf]" "lf_id lf = root" "ver = lf_ver lf" "cs = lf_cs lf" "dp = 1"
    "objs s (lf_id lf) = Some (dir_bytes KVHASH_DIR_DYING (lf_ver lf) 1 (lf_cs lf))" "leaf_wilts B (objs s) KVHASH_DIR_DYING lf"
    using w sh by (auto simp: tree_wilts_def)
  have ids: "tree_ids root t = leaf_ids lf" using None lf(1) by (simp add: tree_ids_def)
  then have d: "distinct (leaf_ids lf)" using w by (simp add: tree_wilts_def)
  have ch: "dir_child (dbuf \<lparr>dbuf = dir_bytes mg ver dp cs, dn = length cs, ddepth = dp\<rparr>) k = lf_cs lf ! k" if "k < length (lf_cs lf)" for k
    using dir_bytes_fields(5) [OF f _ payload, of 1 k mg] that lf by simp
  from release_buckets_law [OF i lf(7,6) d ch _ run [unfolded if_P [OF lf(5)]]] lf(4)
  have R: "shrinks (set (leaf_ids lf) - {lf_id lf}) s s' \<and> leaf_wilts B (objs s') KVHASH_DIR_DYING lf \<and>
      objs s' (lf_id lf) = Some (dir_bytes KVHASH_DIR_DYING (lf_ver lf) 1 (lf_cs lf)) \<and>
      (err = None \<longrightarrow> (\<forall>x \<in> set (leaf_ids lf) - {lf_id lf}. objs s' x = None))" by simp
  then have "tree_wilts B (objs s') root t" using w None lf(1,2) by (simp add: tree_wilts_def)
  with R ids lf(2) show ?thesis by simp
next
  case (Some v)
  let ?L = "kt_leaves t"
  have two: "dp = 2" "v = ver" "cs = map lf_id ?L" using sh Some by simp_all
  have ids: "tree_ids root t = root # concat (map leaf_ids ?L)" using Some by (simp add: tree_ids_def)
  then have d: "distinct (root # concat (map leaf_ids ?L))" using w by (simp add: tree_wilts_def)
  have rt: "objs s root = Some (dir_bytes KVHASH_DIR_DYING ver 2 (map lf_id ?L))" "\<forall>lf \<in> set ?L. leaf_wilts B (objs s) KVHASH_DIR_MAGIC lf"
    using w Some two by (simp_all add: tree_wilts_def)
  have f': "fan_ok B ver (length ?L)" using f two by simp
  from release_subs_law [OF f' d i rt, of "[0..<length ?L]" None err s'] run two
  have R: "shrinks (set (concat (map leaf_ids ?L))) s s'" "objs s' root = Some (dir_bytes KVHASH_DIR_DYING ver 2 (map lf_id ?L))"
    "\<forall>lf \<in> set ?L. leaf_wilts B (objs s') KVHASH_DIR_MAGIC lf"
    "err = None \<Longrightarrow> \<forall>j < length ?L. \<forall>x \<in> set (leaf_ids (?L ! j)). objs s' x = None" by auto
  have "objs s' x = None" if "err = None" "x \<in> set (concat (map leaf_ids ?L))" for x
  proof -
    from that(2) obtain lf where "lf \<in> set ?L" "x \<in> set (leaf_ids lf)" by auto
    then obtain j where "j < length ?L" "x \<in> set (leaf_ids (?L ! j))" by (metis in_set_conv_nth)
    with R(4) [OF that(1)] show ?thesis by blast
  qed
  moreover have "set (tree_ids root t) - {root} = set (concat (map leaf_ids ?L))" using ids d by auto
  moreover have "tree_wilts B (objs s') root t" using w Some R(2,3) two by (simp add: tree_wilts_def)
  ultimately show ?thesis using R(1) by auto
qed

lemma kvhash_destroy_law:
  assumes i: "inv s" and t: "tree_ok B (objs s) root t \<or> tree_wilts B (objs s) root t"
    and run: "kvhash_destroy B A s root = (r, s')"
  shows "inv s' \<and> nxt s' = nxt s \<and> (\<forall>x. x \<notin> set (tree_ids root t) \<longrightarrow> objs s' x = objs s x) \<and>
    (r = Inr () \<longrightarrow> (\<forall>x \<in> set (tree_ids root t). objs s' x = None)) \<and>
    (\<forall>e. r = Inl e \<longrightarrow> objs s' = objs s \<or> tree_wilts B (objs s') root t)"
proof -
  from i t show ?thesis
  proof (cases rule: destroy_starts)
    case (1 mg ver dp cs)
    let ?d = "\<lparr>dbuf = dir_bytes mg ver dp cs, dn = length cs, ddepth = dp\<rparr>" and ?T = "set (tree_ids root t)"
    have rt: "root \<in> ?T" using 1(7) t by (auto simp: tree_ids_def leaf_ids_def tree_ok_def tree_holds_def tree_wilts_def split: option.splits)
    obtain r1 s1 where m: "(if mg = KVHASH_DIR_DYING then (Inr (), s)
        else kv_update A s root (dir_bytes KVHASH_DIR_DYING ver dp cs)) = (r1, s1)" by fastforce
    have l1: "inv s1 \<and> nxt s1 = nxt s \<and> (\<forall>x. x \<noteq> root \<longrightarrow> objs s1 x = objs s x) \<and> (r1 \<noteq> Inr () \<longrightarrow> objs s1 = objs s) \<and>
        (r1 = Inr () \<longrightarrow> objs s1 root = Some (dir_bytes KVHASH_DIR_DYING ver dp cs))"
      using m i 1(2) update_law [OF i, of root _ r1 s1] by (cases r1) (auto simp: kv_update_def split: if_splits)
    obtain err s2 where b: "(if dp = 1 then release_buckets B A s1 ?d else release_subs B A s1 root [0..<length cs] None) = (err, s2)" by fastforce
    have run': "(r, s') = (case r1 of Inl e \<Rightarrow> (Inl e, s1)
        | Inr _ \<Rightarrow> (case err of Some e \<Rightarrow> (Inl e, s2) | None \<Rightarrow> api_delete A s2 root))"
      using run 1(1) m b by (auto simp: kvhash_destroy_def dir_dying kv_delete_def split: sum.splits option.splits if_splits)
    show ?thesis
    proof (cases r1)
      case (Inl e)
      with run' l1 show ?thesis by auto
    next
      case (Inr y)
      have "tree_wilts B (objs s1) root t" by (rule 1(6)) (use l1 Inr in auto)
      note R = release_below [OF _ this 1(7,3) b]
      have R: "shrinks (?T - {root}) s1 s2" "tree_wilts B (objs s2) root t" "err = None \<Longrightarrow> \<forall>x \<in> ?T - {root}. objs s2 x = None"
        using R l1 by auto
      have out: "objs s2 x = objs s x" if "x \<notin> ?T" for x
        using shrinksD(3) [OF R(1), of x] l1 that rt by auto
      show ?thesis
      proof (cases err)
        case (Some e)
        with run' Inr have "r = Inl e" "s' = s2" by auto
        with R(2) shrinksD(1,2) [OF R(1)] l1 out show ?thesis by auto
      next
        case None
        with run' Inr have dl: "api_delete A s2 root = (r, s')" by simp
        note d = delete_law [OF shrinksD(1) [OF R(1)] dl]
        show ?thesis
        proof (cases r)
          case (Inl e)
          with d R(2) shrinksD(2) [OF R(1)] l1 out show ?thesis by auto
        next
          case (Inr z)
          with d R(3) [OF None] shrinksD(2) [OF R(1)] l1 out rt show ?thesis by auto
        qed
      qed
    qed
  qed
qed

text \<open>A map half removed answers like none.\<close>

lemma wilting_invisible:
  assumes "inv s" "tree_wilts B (objs s) root t"
  shows "dir_load B A s root = Inl ENOENT"
proof -
  from assms(1) disjI2 [OF assms(2)] show ?thesis
  proof (cases rule: destroy_starts)
    case (1 mg ver dp cs)
    from assms(2) have "objs s root = Some (dir_bytes KVHASH_DIR_DYING ver dp cs)"
      using 1(7) by (auto simp: tree_wilts_def split: option.splits)
    then show ?thesis using dir_load_raw_image [OF assms(1) _ 1(3,4)] by (simp add: dir_load_def)
  qed
qed

end

end
