(* ===== verification/Kv_Hash_Next.thy ===== *)
theory Kv_Hash_Next
  imports Kv_Hash_Ops "HOL-Library.Product_Lexorder" "HOL-Library.List_Lexorder"
begin

text \<open>
  Enumeration (\<open>kvhash_next\<close>). The place of a key is where it hashes to, then its length, its
  fingerprint and its bytes; places are ordered lexicographically. The call returns the entry of
  the least place after the cursor's, so a walk that feeds each key back visits every key once.
\<close>

section \<open>The order\<close>

definition key_rank :: "build \<Rightarrow> byte list \<Rightarrow> nat \<times> u32 \<times> byte list" where
  "key_rank B k = (length k, key_fp B k, k)"

definition place :: "build \<Rightarrow> kvtree \<Rightarrow> byte list \<Rightarrow> nat \<times> nat \<times> nat \<times> u32 \<times> byte list" where
  "place B t k = (leaf_ix t (key_hash B k), bkt_ix t (key_hash B k), key_rank B k)"

text \<open>The empty cursor is the start of the walk.\<close>

definition follows :: "build \<Rightarrow> kvtree \<Rightarrow> byte list \<Rightarrow> byte list \<Rightarrow> bool" where
  "follows B t cur k \<longleftrightarrow> cur = [] \<or> place B t cur < place B t k"

lemma place_inj [simp]: "place B t k = place B t k' \<longleftrightarrow> k = k'"
  by (auto simp: place_def key_rank_def)

lemma memcmp_less:
  "length xs = length ys \<Longrightarrow> memcmp xs ys < 0 \<longleftrightarrow> xs < ys" "length xs = length ys \<Longrightarrow> memcmp xs ys > 0 \<longleftrightarrow> ys < xs"
  by (induction xs ys rule: list_induct2) auto

lemma memcmp_append:
  "length xs = length ys \<Longrightarrow> memcmp (xs @ us) (ys @ vs) = (if memcmp xs ys \<noteq> 0 then memcmp xs ys else memcmp us vs)"
  by (induction xs ys rule: list_induct2) auto

text \<open>The cursor of the code for a key.\<close>

definition cursor_of :: "build \<Rightarrow> byte list \<Rightarrow> okey option" where
  "cursor_of B cur =
     (if cur = [] then None else Some \<lparr>ok_kl = length cur, ok_fp = hash_fp (key_hash B cur), ok_src = KeyRam cur\<rparr>)"

definition past :: "build \<Rightarrow> byte list \<Rightarrow> byte list \<Rightarrow> bool" where
  "past B cur k \<longleftrightarrow> cur = [] \<or> key_rank B cur < key_rank B k"

context kv_store
begin

section \<open>Comparing keys\<close>

definition src_is :: "'s \<Rightarrow> key_src \<Rightarrow> byte list \<Rightarrow> bool" where
  "src_is s src p \<longleftrightarrow> (case src of KeyRam q \<Rightarrow> q = p | KeyBlob x \<Rightarrow> objs s x = Some p)"

lemma key_chunk_is:
  assumes "inv s" "src_is s src p" "pos + n \<le> length p"
  shows "key_chunk A s src pos n = Inr (field pos n p)"
proof (cases src)
  case (KeyBlob x)
  then have "objs s x = Some p" using assms(2) by (simp add: src_is_def)
  then show ?thesis using KeyBlob assms bound_law [OF assms(1), of x p] by (simp add: key_chunk_def read_law field_def)
qed (use assms in \<open>simp add: key_chunk_def src_is_def\<close>)

lemma key_cmp_stream_is:
  assumes "inv s" "src_is s a p" "src_is s b q" "length p = len" "length q = len"
  shows "key_cmp_stream A s a b len pos = Inr (memcmp (drop pos p) (drop pos q))"
proof (induction "len - pos" arbitrary: pos rule: less_induct)
  case less
  show ?case
  proof (cases "pos < len")
    case True
    let ?n = "min KEY_CHUNK (len - pos)"
    have ch: "key_chunk A s a pos ?n = Inr (field pos ?n p)" "key_chunk A s b pos ?n = Inr (field pos ?n q)"
      using key_chunk_is [OF assms(1,2), of pos ?n] key_chunk_is [OF assms(1,3), of pos ?n] True assms(4,5) by auto
    have ih: "key_cmp_stream A s a b len (pos + KEY_CHUNK) = Inr (memcmp (drop (pos + KEY_CHUNK) p) (drop (pos + KEY_CHUNK) q))"
      by (rule less) (use True in \<open>simp add: KEY_CHUNK_def\<close>)
    have split: "drop pos r = field pos ?n r @ drop (pos + KEY_CHUNK) r" if "length r = len" for r :: "byte list"
    proof -
      have "drop pos r = take ?n (drop pos r) @ drop ?n (drop pos r)" by (simp only: append_take_drop_id)
      moreover have "drop ?n (drop pos r) = drop (pos + KEY_CHUNK) r" using that by (simp add: min_def add.commute)
      ultimately show ?thesis by (simp add: field_def)
    qed
    have "length (field pos ?n p) = length (field pos ?n q)" using assms(4,5) by (simp add: field_def)
    from memcmp_append [OF this, of "drop (pos + KEY_CHUNK) p" "drop (pos + KEY_CHUNK) q"] split [OF assms(4)] split [OF assms(5)] ch ih True
    show ?thesis by (subst key_cmp_stream.simps) (simp add: Let_def)
  qed (use assms in \<open>simp add: key_cmp_stream.simps\<close>)
qed

lemma okey_cmp_is:
  assumes "inv s" "src_is s a p" "src_is s b q"
  shows "\<exists>c. okey_cmp B A s \<lparr>ok_kl = length p, ok_fp = key_fp B p, ok_src = a\<rparr> \<lparr>ok_kl = length q, ok_fp = key_fp B q, ok_src = b\<rparr> = Inr c \<and>
    (c < 0 \<longleftrightarrow> key_rank B p < key_rank B q) \<and> (c > 0 \<longleftrightarrow> key_rank B q < key_rank B p)"
proof (cases "length p = length q \<and> key_fp B p = key_fp B q")
  case True
  have "key_cmp_bytes B A s a b (length p) False = Inr (memcmp p q)"
    using True assms key_cmp_stream_is [OF assms refl, of 0] by (auto simp: key_cmp_bytes_def src_is_def split: key_src.splits)
  then show ?thesis using True memcmp_less [of p q] by (simp add: okey_cmp_def key_rank_def)
qed (auto simp: okey_cmp_def key_rank_def)

lemma ent_okey_at:
  assumes "aent_ok e"
  shows "ent_okey B (us @ ent_image B e @ vs) (ent_at B (length us) e) =
    \<lparr>ok_kl = length (ae_key e), ok_fp = key_fp B (ae_key e), ok_src = if ae_kid e \<noteq> 0 then KeyBlob (ae_kid e) else KeyRam (ae_key e)\<rparr>"
  using ent_key_at [OF assms] ent_image_fields(3,5) [OF assms, where us = us and B = B and vs = vs]
  by (auto simp: ent_okey_def ent_fp_def) (simp_all add: ent_at_def)

lemma aent_src: "aent_bound (objs s) e \<Longrightarrow> src_is s (if ae_kid e \<noteq> 0 then KeyBlob (ae_kid e) else KeyRam (ae_key e)) (ae_key e)"
  by (simp add: src_is_def aent_bound_def)

lemma after_cursor_at:
  assumes "inv s" "aent_ok e" "aent_bound (objs s) e"
  shows "after_cursor B A s (cursor_of B cur) (ent_okey B (us @ ent_image B e @ vs) (ent_at B (length us) e)) = Inr (past B cur (ae_key e))"
proof (cases "cur = []")
  case False
  have "src_is s (KeyRam cur) cur" by (simp add: src_is_def)
  from okey_cmp_is [OF assms(1) aent_src [OF assms(3)] this] False show ?thesis
    by (auto simp: after_cursor_def cursor_of_def past_def ent_okey_at [OF assms(2)] key_fp_def [symmetric])
qed (simp add: after_cursor_def cursor_of_def past_def)

lemma before_best_at:
  assumes "inv s" "aent_ok e" "aent_bound (objs s) e" "aent_ok b" "aent_bound (objs s) b"
    and "buf = us @ ent_image B e @ vs" "buf = us' @ ent_image B b @ vs'"
  shows "before_best B A s buf (Some (off, ent_at B (length us') b)) (ent_okey B buf (ent_at B (length us) e)) =
    Inr (key_rank B (ae_key e) < key_rank B (ae_key b))"
  using okey_cmp_is [OF assms(1) aent_src [OF assms(3)] aent_src [OF assms(5)]]
    ent_okey_at [OF assms(2), of us vs] ent_okey_at [OF assms(4), of us' vs'] assms(6,7)
  by (auto simp: before_best_def)

section \<open>The first entry of a bucket\<close>

definition least_in :: "byte list \<Rightarrow> aent list \<Rightarrow> aent list \<Rightarrow> aent \<Rightarrow> aent list \<Rightarrow> bool" where
  "least_in cur es us e vs \<longleftrightarrow>
     es = us @ e # vs \<and> past B cur (ae_key e) \<and>
     (\<forall>e' \<in> set es. past B cur (ae_key e') \<longrightarrow> key_rank B (ae_key e) \<le> key_rank B (ae_key e'))"

definition best_so_far :: "byte list \<Rightarrow> aent list \<Rightarrow> (nat \<times> ent) option \<Rightarrow> bool" where
  "best_so_far cur es best \<longleftrightarrow>
     (case best of
        None \<Rightarrow> \<forall>e \<in> set es. \<not> past B cur (ae_key e)
      | Some (off, b) \<Rightarrow> \<exists>us e vs. least_in cur es us e vs \<and> off = length (bkt_image B us) \<and> b = ent_at B off e)"

lemma least_in_skip: "least_in cur es us e vs \<Longrightarrow> \<not> past B cur (ae_key x) \<or> \<not> key_rank B (ae_key x) < key_rank B (ae_key e) \<Longrightarrow>
    least_in cur (es @ [x]) us e (vs @ [x])"
  by (auto simp: least_in_def not_less)

lemma least_in_new:
  assumes "best_so_far cur es best" "past B cur (ae_key x)"
    and "\<And>us e vs. least_in cur es us e vs \<Longrightarrow> key_rank B (ae_key x) < key_rank B (ae_key e)"
  shows "least_in cur (es @ [x]) es x []"
proof -
  have "key_rank B (ae_key x) \<le> key_rank B (ae_key e')" if "e' \<in> set es" "past B cur (ae_key e')" for e'
  proof (cases best)
    case None
    with that assms(1) show ?thesis by (auto simp: best_so_far_def)
  next
    case (Some ob)
    then obtain us e vs where l: "least_in cur es us e vs" using assms(1) by (cases ob) (auto simp: best_so_far_def)
    then have "key_rank B (ae_key e) \<le> key_rank B (ae_key e')" using that by (simp add: least_in_def)
    with assms(3) [OF l] show ?thesis by simp
  qed
  with assms(2) show ?thesis by (auto simp: least_in_def)
qed

lemma best_step:
  assumes i: "inv s" and best: "best_so_far cur ps best" and ok: "\<forall>e \<in> set (ps @ e # es). aent_ok e \<and> aent_bound (objs s) e"
    and buf: "buf = bkt_image B (ps @ e # es)" and p: "past B cur (ae_key e)"
  shows "\<exists>better. before_best B A s buf best (ent_okey B buf (ent_at B (length (bkt_image B ps)) e)) = Inr better \<and>
    best_so_far cur (ps @ [e]) (if better then Some (length (bkt_image B ps), ent_at B (length (bkt_image B ps)) e) else best)"
proof (cases best)
  case None
  have "least_in cur (ps @ [e]) ps e []"
    by (rule least_in_new [OF best p]) (use best None in \<open>auto simp: best_so_far_def least_in_def\<close>)
  then have "best_so_far cur (ps @ [e]) (Some (length (bkt_image B ps), ent_at B (length (bkt_image B ps)) e))"
    by (auto simp: best_so_far_def)
  with None show ?thesis by (intro exI [of _ True]) (simp add: before_best_def)
next
  case (Some ob)
  then obtain us b vs where l: "least_in cur ps us b vs" and ob: "ob = (length (bkt_image B us), ent_at B (length (bkt_image B us)) b)"
    using best by (cases ob) (auto simp: best_so_far_def)
  have ps: "ps = us @ b # vs" using l by (simp add: least_in_def)
  let ?better = "key_rank B (ae_key e) < key_rank B (ae_key b)"
  have "before_best B A s buf (Some (length (bkt_image B us), ent_at B (length (bkt_image B us)) b))
      (ent_okey B buf (ent_at B (length (bkt_image B ps)) e)) = Inr ?better"
    by (rule before_best_at [OF i, where vs = "bkt_image B es" and vs' = "bkt_image B (vs @ e # es)"]) (use ok buf ps in simp_all)
  moreover have "best_so_far cur (ps @ [e]) (if ?better then Some (length (bkt_image B ps), ent_at B (length (bkt_image B ps)) e) else best)"
  proof (cases ?better)
    case True
    have "key_rank B (ae_key e) < key_rank B (ae_key b')" if "least_in cur ps us' b' vs'" for us' b' vs'
    proof -
      have "key_rank B (ae_key b) \<le> key_rank B (ae_key b')" using l that by (auto simp: least_in_def)
      with True show ?thesis by simp
    qed
    then have "least_in cur (ps @ [e]) ps e []" by (rule least_in_new [OF best p])
    with True show ?thesis by (auto simp: best_so_far_def)
  next
    case False
    then have "least_in cur (ps @ [e]) us b (vs @ [e])" by (intro least_in_skip [OF l]) simp
    with False Some ob show ?thesis by (auto simp: best_so_far_def)
  qed
  ultimately show ?thesis using Some ob by auto
qed

lemma bkt_first_from_is:
  assumes "inv s" "best_so_far cur ps best" "\<forall>e \<in> set (ps @ es). aent_ok e \<and> aent_bound (objs s) e"
    and "buf = bkt_image B (ps @ es)"
  shows "\<exists>best'. best_so_far cur (ps @ es) best' \<and>
    bkt_first_from B A s buf (length buf) (cursor_of B cur) best (length (bkt_image B ps)) =
      (case best' of None \<Rightarrow> Inl ENODATA | Some (off, _) \<Rightarrow> Inr off)"
  using assms(2-4)
proof (induction es arbitrary: ps best)
  case Nil
  then show ?case by (intro exI [of _ best]) (simp add: bkt_first_from.simps)
next
  case (Cons e es)
  let ?off = "length (bkt_image B ps)"
  have e: "aent_ok e" "aent_bound (objs s) e" using Cons.prems(2) by simp_all
  have ent: "bkt_entry buf (length buf) ?off = Some (ent_at B ?off e)"
    using bkt_entry_at [OF e(1), of "bkt_image B ps" B "length buf" "bkt_image B es"] Cons.prems(3) by simp
  have aft: "after_cursor B A s (cursor_of B cur) (ent_okey B buf (ent_at B ?off e)) = Inr (past B cur (ae_key e))"
    using after_cursor_at [OF assms(1) e, of cur "bkt_image B ps" "bkt_image B es"] Cons.prems(3) by simp
  have len: "?off + ent_len (ent_at B ?off e) = length (bkt_image B (ps @ [e]))" by (simp add: ent_at_def)
  have go: "\<exists>best'. best_so_far cur (ps @ e # es) best' \<and>
      bkt_first_from B A s buf (length buf) (cursor_of B cur) best1 (?off + ent_len (ent_at B ?off e)) =
        (case best' of None \<Rightarrow> Inl ENODATA | Some (off, _) \<Rightarrow> Inr off)" if "best_so_far cur (ps @ [e]) best1" for best1
    using Cons.IH [OF that] Cons.prems(2,3) by (simp add: len)
  show ?case
  proof (cases "past B cur (ae_key e)")
    case False
    have "best_so_far cur (ps @ [e]) best"
      using Cons.prems(1) False least_in_skip [of cur ps _ _ _ e]
      by (cases best) (auto simp: best_so_far_def, blast)
    from go [OF this] False aft ent show ?thesis by (subst bkt_first_from.simps) simp
  next
    case True
    from best_step [OF assms(1) Cons.prems(1,2,3) True] obtain better where
      b: "before_best B A s buf best (ent_okey B buf (ent_at B ?off e)) = Inr better"
      "best_so_far cur (ps @ [e]) (if better then Some (?off, ent_at B ?off e) else best)" by blast
    from go [OF b(2)] b(1) True aft ent show ?thesis by (subst bkt_first_from.simps) simp
  qed
qed

lemma bkt_first_after_is:
  assumes "inv s" "bucket_holds B (objs s) bid es"
  shows "(bkt_first_after B A s (bkt_image B es) (length (bkt_image B es)) (cursor_of B cur) = Inl ENODATA \<and>
      (\<forall>e \<in> set es. \<not> past B cur (ae_key e))) \<or>
    (\<exists>us e vs. bkt_first_after B A s (bkt_image B es) (length (bkt_image B es)) (cursor_of B cur) = Inr (length (bkt_image B us)) \<and>
      least_in cur es us e vs)"
proof -
  have "best_so_far cur [] None" by (simp add: best_so_far_def)
  from bkt_first_from_is [OF assms(1) this, of es "bkt_image B es"] assms(2) obtain best' where
    b: "best_so_far cur es best'" "bkt_first_after B A s (bkt_image B es) (length (bkt_image B es)) (cursor_of B cur) =
      (case best' of None \<Rightarrow> Inl ENODATA | Some (off, _) \<Rightarrow> Inr off)"
    by (auto simp: bucket_holds_def bkt_first_after_def)
  show ?thesis
  proof (cases best')
    case None
    with b show ?thesis by (auto simp: best_so_far_def)
  next
    case (Some ob)
    with b obtain us e vs where "least_in cur es us e vs" "fst ob = length (bkt_image B us)"
      by (cases ob) (auto simp: best_so_far_def)
    with b Some show ?thesis by (cases ob) auto
  qed
qed

section \<open>The first entry of a leaf and of a tree\<close>

text \<open>The cursor a search applies to index \<open>i\<close>: its own at \<open>start\<close>, none after it.\<close>

definition cur_at :: "byte list \<Rightarrow> nat \<Rightarrow> nat \<Rightarrow> byte list" where
  "cur_at cur start i = (if i = start then cur else [])"

definition leaf_hit :: "byte list \<Rightarrow> nat \<Rightarrow> nat \<Rightarrow> kvleaf \<Rightarrow> (byte list \<times> nat) res \<Rightarrow> bool" where
  "leaf_hit cur start k lf r \<longleftrightarrow>
     r = Inl ENODATA \<and> (\<forall>i e. k \<le> i \<and> i < length (lf_cs lf) \<and> e \<in> set (lf_bs lf ! i) \<longrightarrow> \<not> past B (cur_at cur start i) (ae_key e)) \<or>
     (\<exists>i us e vs. k \<le> i \<and> i < length (lf_cs lf) \<and> lf_cs lf ! i \<noteq> 0 \<and> r = Inr (bkt_image B (lf_bs lf ! i), length (bkt_image B us)) \<and>
        least_in (cur_at cur start i) (lf_bs lf ! i) us e vs \<and>
        (\<forall>j e'. k \<le> j \<and> j < i \<and> e' \<in> set (lf_bs lf ! j) \<longrightarrow> \<not> past B (cur_at cur start j) (ae_key e')))"

lemma leaf_hit_skip:
  assumes "leaf_hit cur start (Suc k) lf r" "\<forall>e \<in> set (lf_bs lf ! k). \<not> past B (cur_at cur start k) (ae_key e)"
  shows "leaf_hit cur start k lf r"
proof -
  have le: "k \<le> j \<longleftrightarrow> j = k \<or> Suc k \<le> j" for j by auto
  from assms show ?thesis unfolding leaf_hit_def le by (elim disjE) blast+
qed

lemma cursor_at: "(if i = start then cursor_of B cur else None) = cursor_of B (cur_at cur start i)"
  by (simp add: cur_at_def cursor_of_def)

lemma leaf_first_loop_is:
  assumes "inv s" "leaf_holds B (objs s) lf"
  shows "leaf_hit cur start k lf (leaf_first_loop B A s (dbuf (leaf_dir lf)) start (cursor_of B cur) [k..<length (lf_cs lf)])"
proof (induction "length (lf_cs lf) - k" arbitrary: k)
  case 0
  then show ?case by (auto simp: leaf_hit_def)
next
  case (Suc n)
  then have k: "k < length (lf_cs lf)" by simp
  let ?bid = "lf_cs lf ! k" and ?es = "lf_bs lf ! k"
  let ?rest = "leaf_first_loop B A s (dbuf (leaf_dir lf)) start (cursor_of B cur) [Suc k..<length (lf_cs lf)]"
  have ih: "leaf_hit cur start (Suc k) lf ?rest" using Suc by simp
  have b: "bucket_holds B (objs s) ?bid ?es" using assms(2) k by (simp add: leaf_holds_def)
  have child: "dir_child (dbuf (leaf_dir lf)) k = ?bid" by (rule leaf_child [OF assms(2) k])
  have up: "[k..<length (lf_cs lf)] = k # [Suc k..<length (lf_cs lf)]" using k by (simp add: upt_conv_Cons)
  show ?case
  proof (cases "?bid = 0")
    case True
    then have "?es = []" using b by (simp add: bucket_holds_def)
    with leaf_hit_skip [OF ih] True child show ?thesis by (simp add: up del: leaf_dir_sel)
  next
    case False
    have get: "api_get A s ?bid (MAX_PAYLOAD_LEN B) = Inr (bkt_image B ?es)"
      using False b by (simp add: get_fits [OF assms(1)] bucket_holds_def)
    let ?f = "bkt_first_after B A s (bkt_image B ?es) (length (bkt_image B ?es)) (cursor_of B (cur_at cur start k))"
    have run: "leaf_first_loop B A s (dbuf (leaf_dir lf)) start (cursor_of B cur) [k..<length (lf_cs lf)] =
        (case ?f of Inr off \<Rightarrow> Inr (bkt_image B ?es, off) | Inl e \<Rightarrow> if e \<noteq> ENODATA then Inl e else ?rest)"
      using False get child by (simp add: up cursor_at del: leaf_dir_sel)
    from bkt_first_after_is [OF assms(1) b, of "cur_at cur start k"] show ?thesis
    proof (elim disjE exE conjE)
      assume "?f = Inl ENODATA" "\<forall>e \<in> set ?es. \<not> past B (cur_at cur start k) (ae_key e)"
      with leaf_hit_skip [OF ih] run show ?thesis by simp
    next
      fix us e vs assume "?f = Inr (length (bkt_image B us))" "least_in (cur_at cur start k) ?es us e vs"
      with run k False show ?thesis unfolding leaf_hit_def
        by (intro disjI2) (rule exI [of _ k], rule exI [of _ us], rule exI [of _ e], rule exI [of _ vs], auto)
    qed
  qed
qed

text \<open>Where the search for the entry after \<open>cur\<close> begins: in leaf \<open>top_of\<close>, at bucket \<open>sub_of\<close> of it.\<close>

definition top_of :: "kvtree \<Rightarrow> byte list \<Rightarrow> nat" where
  "top_of t cur = (if cur = [] then 0 else leaf_ix t (key_hash B cur))"

definition sub_of :: "kvtree \<Rightarrow> byte list \<Rightarrow> nat \<Rightarrow> nat" where
  "sub_of t cur j = (if cur \<noteq> [] \<and> j = top_of t cur then bkt_ix t (key_hash B cur) else 0)"

definition in_leaf :: "kvtree \<Rightarrow> byte list \<Rightarrow> nat \<Rightarrow> (byte list \<times> nat) res \<Rightarrow> bool" where
  "in_leaf t cur j r \<longleftrightarrow> leaf_hit (cur_at cur (top_of t cur) j) (sub_of t cur j) (sub_of t cur j) (kt_leaves t ! j) r"

definition tree_hit :: "kvtree \<Rightarrow> byte list \<Rightarrow> nat \<Rightarrow> (byte list \<times> nat) res \<Rightarrow> bool" where
  "tree_hit t cur k r \<longleftrightarrow>
     r = Inl ENODATA \<and> (\<forall>j. k \<le> j \<and> j < length (kt_leaves t) \<longrightarrow> in_leaf t cur j (Inl ENODATA)) \<or>
     (\<exists>j x. k \<le> j \<and> j < length (kt_leaves t) \<and> r = Inr x \<and> in_leaf t cur j (Inr x) \<and>
        (\<forall>j'. k \<le> j' \<and> j' < j \<longrightarrow> in_leaf t cur j' (Inl ENODATA)))"

lemma leaf_hit_cases: "leaf_hit cur start k lf r \<Longrightarrow> r = Inl ENODATA \<or> (\<exists>x. r = Inr x)"
  by (auto simp: leaf_hit_def)

lemma tree_hit_skip: "tree_hit t cur (Suc k) r \<Longrightarrow> in_leaf t cur k (Inl ENODATA) \<Longrightarrow> tree_hit t cur k r"
proof -
  have le: "k \<le> j \<longleftrightarrow> j = k \<or> Suc k \<le> j" for j by auto
  show "tree_hit t cur (Suc k) r \<Longrightarrow> in_leaf t cur k (Inl ENODATA) \<Longrightarrow> tree_hit t cur k r"
    unfolding tree_hit_def le by (elim disjE) blast+
qed

lemma tree_hit_here: "in_leaf t cur k (Inr x) \<Longrightarrow> k < length (kt_leaves t) \<Longrightarrow> tree_hit t cur k (Inr x)"
  unfolding tree_hit_def by (intro disjI2) (rule exI [of _ k], rule exI [of _ x], auto)

lemma leaf_first_is:
  assumes "inv s" "leaf_holds B (objs s) lf"
  shows "leaf_hit cur start start lf (leaf_first_after B A s (leaf_dir lf) start (cursor_of B cur))"
  using leaf_first_loop_is [OF assms, of cur start start] by (simp add: leaf_first_after_def)

lemma tree_first_loop_is:
  assumes "inv s" and h: "tree_holds B (objs s) root t" and top: "kt_top t = Some ver"
    and d: "d = \<lparr>dbuf = dir_bytes KVHASH_DIR_MAGIC ver 2 (map lf_id (kt_leaves t)), dn = length (kt_leaves t), ddepth = 2\<rparr>"
  shows "tree_hit t cur k (tree_first_loop B A s root d (top_of t cur) (cursor_of B cur) (if cur = [] then 0 else key_hash B cur)
    [k..<length (kt_leaves t)])"
proof (induction "length (kt_leaves t) - k" arbitrary: k)
  case 0
  then show ?case by (auto simp: tree_hit_def)
next
  case (Suc n)
  then have k: "k < length (kt_leaves t)" by simp
  let ?lf = "kt_leaves t ! k" and ?ch = "if cur = [] then 0 else key_hash B cur" and ?ids = "map lf_id (kt_leaves t)"
  let ?run = "\<lambda>k. tree_first_loop B A s root d (top_of t cur) (cursor_of B cur) ?ch [k..<length (kt_leaves t)]"
  have ih: "tree_hit t cur (Suc k) (?run (Suc k))" using Suc by simp
  have lh: "leaf_holds B (objs s) ?lf" using h k by (simp add: tree_holds_def)
  have f: "fan_ok B ver (length ?ids)" and o: "objs s root = Some (dir_bytes KVHASH_DIR_MAGIC ver 2 ?ids)"
    using h top by (simp_all add: tree_holds_def)
  have load: "dir_load B A s root = Inr d" using dir_load_image [OF assms(1) o f] d by simp
  have child: "dir_child (dbuf d) k = lf_id ?lf"
    using dir_bytes_fields(5) [OF f, of 2 k KVHASH_DIR_MAGIC] payload k d by simp
  have sub: "(if k \<noteq> top_of t cur then top_child B A s root k else Inr (dir_child (dbuf d) k)) = Inr (lf_id ?lf)"
    using load child k d by (auto simp: top_child_def)
  have sl: "sub_load B A s (lf_id ?lf) = Inr (leaf_dir ?lf)"
    using dir_load_leaf [OF assms(1) lh] lh by (simp add: sub_load_def leaf_holds_def)
  let ?r = "leaf_first_after B A s (leaf_dir ?lf) (sub_of t cur k) (cursor_of B (cur_at cur (top_of t cur) k))"
  have start: "(if k = top_of t cur \<and> cursor_of B cur \<noteq> None then idx_sub ?ch (dn (leaf_dir ?lf)) else 0) = sub_of t cur k"
    using top by (auto simp: sub_of_def cursor_of_def top_of_def bkt_ix_def the_leaf_def)
  have cu: "(if k = top_of t cur \<and> cursor_of B cur \<noteq> None then cursor_of B cur else None) = cursor_of B (cur_at cur (top_of t cur) k)"
    by (simp add: cur_at_def cursor_of_def)
  have run: "?run k = (case ?r of Inr hit \<Rightarrow> Inr hit | Inl e \<Rightarrow> if e \<noteq> ENODATA then Inl e else ?run (Suc k))"
    using sub sl unfolding upt_conv_Cons [OF k] tree_first_loop.simps Let_def start cu by (simp only: andthen_simps start cu)
  have hit: "in_leaf t cur k ?r" using leaf_first_is [OF assms(1) lh] by (simp add: in_leaf_def)
  then consider "?r = Inl ENODATA" | x where "?r = Inr x" unfolding in_leaf_def using leaf_hit_cases by blast
  then show ?case
  proof cases
    case 1
    with hit run tree_hit_skip [OF ih] show ?thesis by simp
  next
    case (2 x)
    with hit run tree_hit_here [OF _ k] show ?thesis by simp
  qed
qed

definition tree_first :: "'s \<Rightarrow> u64 \<Rightarrow> byte list \<Rightarrow> (byte list \<times> nat) res" where
  "tree_first s root cur =
     andthen (dir_load B A s root) (\<lambda>d.
       if ddepth d = 1 then leaf_first_after B A s d (if cur = [] then 0 else idx_sub (key_hash B cur) (dn d)) (cursor_of B cur)
       else tree_first_after B A s root d (if cur = [] then 0 else idx_top (key_hash B cur) (dn d))
         (cursor_of B cur) (if cur = [] then 0 else key_hash B cur))"

lemma tree_first_is:
  assumes "inv s" and h: "tree_holds B (objs s) root t"
  shows "tree_hit t cur (top_of t cur) (tree_first s root cur)"
proof (cases "kt_top t")
  case None
  then obtain lf where t: "kt_leaves t = [lf]" and r: "lf_id lf = root" using h by (auto simp: tree_holds_def)
  have lh: "leaf_holds B (objs s) lf" using h t by (simp add: tree_holds_def)
  have top: "top_of t cur = 0" using None by (simp add: top_of_def leaf_ix_def)
  have start: "(if cur = [] then 0 else idx_sub (key_hash B cur) (length (lf_cs lf))) = sub_of t cur 0"
    using None t by (simp add: cursor_of_def sub_of_def top bkt_ix_def the_leaf_def leaf_ix_def)
  have "in_leaf t cur 0 (tree_first s root cur)"
    using dir_load_leaf [OF assms(1) lh] leaf_first_is [OF assms(1) lh, of cur "sub_of t cur 0"] r start
    by (cases "cur = []") (simp_all add: tree_first_def in_leaf_def top cur_at_def t del: leaf_dir_sel(3))
  then consider "tree_first s root cur = Inl ENODATA" "in_leaf t cur 0 (Inl ENODATA)"
    | x where "tree_first s root cur = Inr x" "in_leaf t cur 0 (Inr x)"
    using leaf_hit_cases unfolding in_leaf_def by metis
  then show ?thesis
  proof cases
    case 1
    then show ?thesis by (auto simp: tree_hit_def t)
  next
    case (2 x)
    then show ?thesis using tree_hit_here [of t cur 0 x] by (simp add: top t)
  qed
next
  case (Some ver)
  let ?ids = "map lf_id (kt_leaves t)"
  have f: "fan_ok B ver (length ?ids)" and o: "objs s root = Some (dir_bytes KVHASH_DIR_MAGIC ver 2 ?ids)"
    using h Some by (simp_all add: tree_holds_def)
  have start: "(if cur = [] then 0 else idx_top (key_hash B cur) (length (kt_leaves t))) = top_of t cur"
    using Some by (simp add: cursor_of_def top_of_def leaf_ix_def)
  from tree_first_loop_is [OF assms(1) h Some refl, of cur "top_of t cur"] dir_load_image [OF assms(1) o f] start show ?thesis
    by (cases "cur = []") (simp_all add: tree_first_def tree_first_after_def)
qed

section \<open>The entry that follows\<close>

text \<open>An entry with its place in the tree.\<close>

definition ent_in :: "kvtree \<Rightarrow> nat \<Rightarrow> nat \<Rightarrow> aent \<Rightarrow> bool" where
  "ent_in t j i e \<longleftrightarrow> j < length (kt_leaves t) \<and> i < length (lf_cs (kt_leaves t ! j)) \<and> e \<in> set (lf_bs (kt_leaves t ! j) ! i)"

lemma ent_in_place:
  assumes "tree_ok B m root t" "ent_in t j i e"
  shows "place B t (ae_key e) = (j, i, key_rank B (ae_key e))"
  using assms tree_shape(6) [of B m root t j] by (auto simp: tree_ok_def placed_def ent_in_def place_def)

lemma follows_iff:
  assumes ok: "tree_ok B m root t" and e: "ent_in t j i e"
  shows "follows B t cur (ae_key e) \<longleftrightarrow>
    top_of t cur \<le> j \<and> sub_of t cur j \<le> i \<and> past B (cur_at (cur_at cur (top_of t cur) j) (sub_of t cur j) i) (ae_key e)"
  using ent_in_place [OF assms]
  by (auto simp: follows_def place_def [of B t cur] top_of_def sub_of_def cur_at_def past_def)

lemma ent_in_map:
  assumes "inv s" "tree_ok B (objs s) root t"
  shows "tree_map t k = Some v \<longleftrightarrow> (\<exists>j i e. ent_in t j i e \<and> ae_key e = k \<and> ae_val e = v)"
proof
  assume "tree_map t k = Some v"
  with assms have "\<exists>e. e \<in> set (the_bucket t (key_hash B k)) \<and> ae_key e = k \<and> ae_val e = v"
    by (cases rule: key_cases [where key = k]) auto
  moreover have "ent_in t (leaf_ix t h) (bkt_ix t h) e" if "e \<in> set (the_bucket t h)" for h e
    using that tree_shape(1,4) [of B "objs s" root t h] assms(2) by (simp add: ent_in_def tree_ok_def the_bucket_def the_leaf_def)
  ultimately show "\<exists>j i e. ent_in t j i e \<and> ae_key e = k \<and> ae_val e = v" by blast
next
  assume "\<exists>j i e. ent_in t j i e \<and> ae_key e = k \<and> ae_val e = v"
  then obtain j i e where e: "ent_in t j i e" "ae_key e = k" "ae_val e = v" by blast
  have "leaf_ix t (key_hash B k) = j" "bkt_ix t (key_hash B k) = i"
    using ent_in_place [OF assms(2) e(1)] e(2) by (simp_all add: place_def)
  then have b: "e \<in> set (the_bucket t (key_hash B k))" using e(1) by (simp add: ent_in_def the_bucket_def the_leaf_def)
  from assms show "tree_map t k = Some v"
  proof (cases rule: key_cases [where key = k])
    case (present us e' vs)
    with b e show ?thesis by (auto simp: image_iff)
  qed (use b e in auto)
qed

text \<open>What the search finds is the least entry after the cursor.\<close>

definition least_after :: "kvtree \<Rightarrow> byte list \<Rightarrow> aent \<Rightarrow> bool" where
  "least_after t cur e \<longleftrightarrow> follows B t cur (ae_key e) \<and>
     (\<forall>j i e'. ent_in t j i e' \<and> follows B t cur (ae_key e') \<longrightarrow> place B t (ae_key e) \<le> place B t (ae_key e'))"

lemma leaf_none:
  assumes ok: "tree_ok B m root t" and "in_leaf t cur j (Inl ENODATA)" "top_of t cur \<le> j" "ent_in t j i e"
  shows "\<not> follows B t cur (ae_key e)"
  using assms by (auto simp: follows_iff [OF ok assms(4)] in_leaf_def leaf_hit_def ent_in_def)

lemma tree_none:
  assumes ok: "tree_ok B m root t" and "tree_hit t cur (top_of t cur) (Inl ENODATA)" and e: "ent_in t j i e"
  shows "\<not> follows B t cur (ae_key e)"
proof (cases "top_of t cur \<le> j")
  case True
  then show ?thesis using assms leaf_none [OF ok _ True e] by (auto simp: tree_hit_def ent_in_def)
qed (simp add: follows_iff [OF ok e])

lemma tree_some:
  assumes ok: "tree_ok B m root t" and hit: "tree_hit t cur (top_of t cur) (Inr x)"
  obtains j i us e vs where "ent_in t j i e" "lf_bs (kt_leaves t ! j) ! i = us @ e # vs" "lf_cs (kt_leaves t ! j) ! i \<noteq> 0"
    "x = (bkt_image B (us @ e # vs), length (bkt_image B us))" "least_after t cur e"
proof -
  from hit obtain j where j: "top_of t cur \<le> j" "j < length (kt_leaves t)" "in_leaf t cur j (Inr x)"
    and no: "\<And>j'. top_of t cur \<le> j' \<Longrightarrow> j' < j \<Longrightarrow> in_leaf t cur j' (Inl ENODATA)" by (auto simp: tree_hit_def)
  let ?lf = "kt_leaves t ! j" and ?s = "sub_of t cur j"
  let ?c = "\<lambda>i. cur_at (cur_at cur (top_of t cur) j) ?s i"
  from j(3) obtain i us e vs where i: "?s \<le> i" "i < length (lf_cs ?lf)" "lf_cs ?lf ! i \<noteq> 0"
      "x = (bkt_image B (lf_bs ?lf ! i), length (bkt_image B us))" "least_in (?c i) (lf_bs ?lf ! i) us e vs"
    and no2: "\<And>i' e'. ?s \<le> i' \<Longrightarrow> i' < i \<Longrightarrow> e' \<in> set (lf_bs ?lf ! i') \<Longrightarrow> \<not> past B (?c i') (ae_key e')"
    unfolding in_leaf_def leaf_hit_def by blast
  have b: "lf_bs ?lf ! i = us @ e # vs" and p: "past B (?c i) (ae_key e)" using i(5) by (simp_all add: least_in_def)
  have e: "ent_in t j i e" using j(2) i(2) b by (simp add: ent_in_def)
  have "place B t (ae_key e) \<le> place B t (ae_key e')" if e': "ent_in t j' i' e'" "follows B t cur (ae_key e')" for j' i' e'
  proof -
    have f: "top_of t cur \<le> j'" "sub_of t cur j' \<le> i'"
      "past B (cur_at (cur_at cur (top_of t cur) j') (sub_of t cur j') i') (ae_key e')"
      using e'(2) by (simp_all add: follows_iff [OF ok e'(1)])
    have "\<not> j' < j" using no [of j'] leaf_none [OF ok _ f(1) e'(1)] e'(2) f(1) by blast
    then consider "j < j'" | "j' = j" "i < i'" | "j' = j" "i' = i" | "j' = j" "i' < i" by force
    then show ?thesis
    proof cases
      case 3
      then have "key_rank B (ae_key e) \<le> key_rank B (ae_key e')" using i(5) f(3) e'(1) by (simp add: least_in_def ent_in_def)
      with 3 show ?thesis by (simp add: ent_in_place [OF ok e] ent_in_place [OF ok e'(1)])
    next
      case 4
      with no2 [of i' e'] f e'(1) show ?thesis by (simp add: ent_in_def)
    qed (simp_all add: ent_in_place [OF ok e] ent_in_place [OF ok e'(1)])
  qed
  moreover have "follows B t cur (ae_key e)" using j(1) i(1) p by (simp add: follows_iff [OF ok e])
  ultimately show ?thesis using i(3,4) e b by (intro that [of j i e us vs]) (auto simp: least_after_def)
qed

lemma kvhash_next_least:
  assumes i: "inv s" and ok: "tree_ok B (objs s) root t" and len: "length cur \<le> 0xffff"
  shows "kvhash_next B A s root cur ko vo =
      (Inl ENODATA, None) \<and> (\<forall>k \<in> dom (tree_map t). \<not> follows B t cur k) \<or>
    (\<exists>k v. tree_map t k = Some v \<and> follows B t cur k \<and>
      (\<forall>k' \<in> dom (tree_map t). follows B t cur k' \<longrightarrow> place B t k \<le> place B t k') \<and>
      kvhash_next B A s root cur ko vo =
        (if length k > ko \<or> length v > vo then Inl ENOMEM else Inr (k, v), Some (length k, length v)))"
proof -
  have h: "tree_holds B (objs s) root t" using ok by (simp add: tree_ok_def)
  have nx: "kvhash_next B A s root cur ko vo =
      (case tree_first s root cur of Inl e \<Rightarrow> (Inl e, None)
       | Inr (bkt, off) \<Rightarrow> (case bkt_entry bkt (2 ^ 32 - 1) off of None \<Rightarrow> (Inl EIO, None)
          | Some e \<Rightarrow> (if kl e > ko \<or> vl e > vo then Inl ENOMEM
               else andthen (key_chunk A s (ent_key bkt e) 0 (kl e)) (\<lambda>k. andthen (ent_value A s bkt e vo) (\<lambda>v. Inr (k, v))), Some (kl e, vl e))))"
    unfolding kvhash_next_def tree_first_def cursor_of_def Let_def using len by (cases "cur = []") (simp_all cong: if_cong)
  have hit: "tree_hit t cur (top_of t cur) (tree_first s root cur)" by (rule tree_first_is [OF i h])
  then consider (none) "tree_first s root cur = Inl ENODATA" | (some) x where "tree_first s root cur = Inr x"
    by (auto simp: tree_hit_def)
  then show ?thesis
  proof cases
    case none
    then have "\<not> follows B t cur k" if "tree_map t k = Some v" for k v
      using that [unfolded ent_in_map [OF i ok]] tree_none [OF ok] hit by metis
    then show ?thesis unfolding nx none by (intro disjI1) auto
  next
    case (some x)
    obtain j ix us e vs where e: "ent_in t j ix e"
      "lf_bs (kt_leaves t ! j) ! ix = us @ e # vs" "lf_cs (kt_leaves t ! j) ! ix \<noteq> 0"
      "x = (bkt_image B (us @ e # vs), length (bkt_image B us))" "least_after t cur e"
      by (rule tree_some [OF ok hit [unfolded some]])
    have "leaf_holds B (objs s) (kt_leaves t ! j)" using h e(1) by (simp add: tree_holds_def ent_in_def)
    then have bh: "bucket_holds B (objs s) (lf_cs (kt_leaves t ! j) ! ix) (us @ e # vs)"
      using e(1) unfolding e(2) [symmetric] by (simp add: leaf_holds_def ent_in_def)
    then have eok: "aent_ok e" "aent_bound (objs s) e" by (simp_all add: bucket_holds_def)
    have "objs s (lf_cs (kt_leaves t ! j) ! ix) = Some (bkt_image B (us @ e # vs))" using bh e(3) by (simp add: bucket_holds_def)
    then have "length (bkt_image B (us @ e # vs)) \<le> MAX_PAYLOAD_LEN B" using bound_law [OF i] by blast
    then have "length (bkt_image B us) + length (ent_image B e) \<le> 2 ^ 32 - 1" using payload by (simp add: ENT_LEN_MASK_def)
    from bkt_entry_at [OF eok(1) this, of "bkt_image B vs"]
    have ent: "bkt_entry (bkt_image B (us @ e # vs)) (2 ^ 32 - 1) (length (bkt_image B us)) = Some (ent_at B (length (bkt_image B us)) e)" by simp
    have key: "key_chunk A s (ent_key (bkt_image B (us @ e # vs)) (ent_at B (length (bkt_image B us)) e)) 0 (length (ae_key e)) = Inr (ae_key e)"
      using key_chunk_is [OF i aent_src [OF eok(2)], of 0 "length (ae_key e)"] ent_key_at [OF eok(1), of "bkt_image B us" "bkt_image B vs"]
      by (simp add: field_def)
    have val: "ent_value A s (bkt_image B (us @ e # vs)) (ent_at B (length (bkt_image B us)) e) vo =
        (if length (ae_val e) > vo then Inl ENOMEM else Inr (ae_val e))"
      using ent_value_exact [OF i eok, of "bkt_image B us" "bkt_image B vs" vo] by simp
    have lens: "kl (ent_at B n e) = length (ae_key e)" "vl (ent_at B n e) = length (ae_val e)" for n by (simp_all add: ent_at_def)
    have "kvhash_next B A s root cur ko vo =
        (if length (ae_key e) > ko \<or> length (ae_val e) > vo then Inl ENOMEM else Inr (ae_key e, ae_val e), Some (length (ae_key e), length (ae_val e)))"
      unfolding nx some e(4) by (simp add: ent [simplified] lens key [simplified] val [simplified])
    moreover have "tree_map t (ae_key e) = Some (ae_val e)" unfolding ent_in_map [OF i ok] using e(1) by blast
    moreover have "place B t (ae_key e) \<le> place B t k'" if k': "k' \<in> dom (tree_map t)" "follows B t cur k'" for k'
    proof -
      obtain j' i' e' where "ent_in t j' i' e'" "ae_key e' = k'" using k'(1) ent_in_map [OF i ok, of k'] by blast
      with k'(2) e(5) show ?thesis by (auto simp: least_after_def)
    qed
    moreover have "follows B t cur (ae_key e)" using e(5) by (simp add: least_after_def)
    ultimately show ?thesis by blast
  qed
qed

section \<open>A walk\<close>

lemma follows_trans: "follows B t cur k \<Longrightarrow> follows B t k k' \<Longrightarrow> k \<noteq> [] \<Longrightarrow> follows B t cur k'"
  by (auto simp: follows_def)

lemma tree_keys:
  assumes "inv s" "tree_ok B (objs s) root t" "tree_map t k = Some v"
  shows "k \<noteq> []" "length k \<le> MAX_PAYLOAD_LEN B" "length v \<le> MAX_PAYLOAD_LEN B"
proof -
  from assms have "\<exists>us e vs. the_bucket t (key_hash B k) = us @ e # vs \<and> the_child t (key_hash B k) \<noteq> 0 \<and>
      ae_key e = k \<and> ae_val e = v \<and> aent_ok e \<and> aent_bound (objs s) e"
    by (cases rule: key_cases [where key = k]) auto
  then obtain us e vs where e: "the_bucket t (key_hash B k) = us @ e # vs" "the_child t (key_hash B k) \<noteq> 0"
    "ae_key e = k" "ae_val e = v" "aent_ok e" "aent_bound (objs s) e" by blast
  show "k \<noteq> []" using e by (auto simp: aent_ok_def)
  have "objs s (the_child t (key_hash B k)) = Some (bkt_image B (us @ e # vs))"
    using key_place(3) [OF assms(1,2), of "key_hash B k"] e(1,2) by (simp add: bucket_holds_def)
  then have "length (bkt_image B (us @ e # vs)) \<le> MAX_PAYLOAD_LEN B" using bound_law [OF assms(1)] by blast
  then have im: "length (ent_image B e) \<le> MAX_PAYLOAD_LEN B" by simp
  have big: "length p \<le> MAX_PAYLOAD_LEN B" if "objs s x = Some p" for x p using bound_law [OF assms(1) that] by simp
  show "length k \<le> MAX_PAYLOAD_LEN B" using im e(3,6) big [of "ae_kid e" k]
    by (cases "ae_kid e = 0") (simp_all add: length_ent_image aent_bound_def split: if_splits)
  show "length v \<le> MAX_PAYLOAD_LEN B" using im e(4,6) big [of "ae_vid e" v]
    by (cases "ae_vid e = 0") (simp_all add: length_ent_image aent_bound_def split: if_splits)
qed

end

text \<open>A walk with the map changing under it: \<open>cur\<close> is the cursor, \<open>ks\<close> what the walk has returned,
  \<open>K\<close> the keys that were bound at its start and that no delete has named since.\<close>

inductive kv_walk ::
  "build \<Rightarrow> kv_policy \<Rightarrow> 's blob_api \<Rightarrow> ('s \<Rightarrow> nat) \<Rightarrow> u64 \<Rightarrow> 's \<Rightarrow> byte list set \<Rightarrow>
   's \<Rightarrow> byte list \<Rightarrow> byte list list \<Rightarrow> byte list set \<Rightarrow> bool"
  for B P A nxt root s0 K0 where
  walk_start: "kv_walk B P A nxt root s0 K0 s0 [] [] K0"
| walk_next: "kv_walk B P A nxt root s0 K0 s cur ks K \<Longrightarrow>
    fst (kvhash_next B A s root cur ko vo) = Inr (k, v) \<Longrightarrow> kv_walk B P A nxt root s0 K0 s k (ks @ [k]) K"
| walk_set: "kv_walk B P A nxt root s0 K0 s cur ks K \<Longrightarrow> nxt s + 3 \<le> ID_LIMIT \<Longrightarrow>
    kvhash_set B P A s root key (Some val) (length val) = (r, s') \<Longrightarrow> kv_walk B P A nxt root s0 K0 s' cur ks K"
| walk_del: "kv_walk B P A nxt root s0 K0 s cur ks K \<Longrightarrow>
    kvhash_del B A s root key = (r, s') \<Longrightarrow> kv_walk B P A nxt root s0 K0 s' cur ks (K - {key})"

lemma place_same: "leaf_ix t' = leaf_ix t \<Longrightarrow> bkt_ix t' = bkt_ix t \<Longrightarrow> place B t' = place B t"
  by (simp add: place_def fun_eq_iff)

context kv_store
begin

definition walk_ok :: "u64 \<Rightarrow> kvtree \<Rightarrow> 's \<Rightarrow> byte list \<Rightarrow> byte list list \<Rightarrow> byte list set \<Rightarrow> bool" where
  "walk_ok root t0 s cur ks K \<longleftrightarrow>
     inv s \<and> (\<exists>t. tree_ok B (objs s) root t \<and> place B t = place B t0 \<and> K \<subseteq> dom (tree_map t)) \<and>
     length cur \<le> 0xffff \<and> (cur = [] \<longrightarrow> ks = []) \<and> [] \<notin> set ks \<and> sorted_wrt (\<lambda>k k'. place B t0 k < place B t0 k') ks \<and>
     (\<forall>k \<in> set ks. place B t0 k \<le> place B t0 cur) \<and> (\<forall>k \<in> K. k \<in> set ks \<or> follows B t0 cur k)"

lemma follows_same: "place B t = place B t0 \<Longrightarrow> follows B t = follows B t0"
  by (simp add: follows_def fun_eq_iff)

lemma walk_ok_next:
  assumes w: "walk_ok root t0 s cur ks K" and n: "fst (kvhash_next B A s root cur ko vo) = Inr (k, v)"
  shows "walk_ok root t0 s k (ks @ [k]) K"
proof -
  from w obtain t where i: "inv s" and t: "tree_ok B (objs s) root t" "place B t = place B t0" "K \<subseteq> dom (tree_map t)"
    and len: "length cur \<le> 0xffff" by (auto simp: walk_ok_def)
  from kvhash_next_least [OF i t(1) len, of ko vo] n have k: "tree_map t k = Some v" "follows B t cur k"
    "\<And>k'. k' \<in> dom (tree_map t) \<Longrightarrow> follows B t cur k' \<Longrightarrow> place B t k \<le> place B t k'"
    by (auto split: if_splits)
  note kb = tree_keys [OF i t(1) k(1)]
  have lk: "length k \<le> 0xffff" using kb(2) payload by (simp add: ENT_LEN_MASK_def)
  have less: "place B t0 k' < place B t0 k" if "k' \<in> set ks" for k'
    using w k(2) that t(2) by (cases "cur = []") (auto simp: walk_ok_def follows_def intro: le_less_trans)
  have "k' \<in> set (ks @ [k]) \<or> follows B t0 k k'" if "k' \<in> K" for k'
  proof (cases "k' \<in> set ks \<or> k' = k")
    case False
    then have "follows B t cur k'" using w that by (auto simp: walk_ok_def follows_same [OF t(2)])
    then have "place B t k \<le> place B t k'" using k(3) that t(3) by blast
    with False t(2) place_inj [of B t0 k k'] show ?thesis by (auto simp: follows_def le_less)
  qed auto
  with w t i kb(1) lk less show ?thesis by (auto simp: walk_ok_def sorted_wrt_append intro: less_imp_le)
qed

lemma walk_ok_step:
  assumes w: "walk_ok root t0 s cur ks K" and K: "K' \<subseteq> K"
    and step: "\<And>t. tree_ok B (objs s) root t \<Longrightarrow> K \<subseteq> dom (tree_map t) \<Longrightarrow> \<exists>t'. evolves root s t s' t' \<and> K' \<subseteq> dom (tree_map t')"
  shows "walk_ok root t0 s' cur ks K'"
proof -
  from w obtain t where t: "tree_ok B (objs s) root t" "place B t = place B t0" "K \<subseteq> dom (tree_map t)" by (auto simp: walk_ok_def)
  from step [OF t(1,3)] obtain t' where t': "evolves root s t s' t'" "K' \<subseteq> dom (tree_map t')" by blast
  then have "inv s'" "tree_ok B (objs s') root t'" "place B t' = place B t0"
    using place_same [of t' t B] t(2) by (simp_all add: evolves_def)
  with t'(2) have "inv s' \<and> (\<exists>t. tree_ok B (objs s') root t \<and> place B t = place B t0 \<and> K' \<subseteq> dom (tree_map t))" by blast
  moreover have "\<forall>k \<in> K'. k \<in> set ks \<or> follows B t0 cur k" using w K by (auto simp: walk_ok_def)
  ultimately show ?thesis using w by (simp add: walk_ok_def)
qed

lemma kv_walk_ok:
  assumes "kv_walk B P A nxt root s0 (dom (tree_map t0)) s cur ks K" "inv s0" "tree_ok B (objs s0) root t0"
  shows "walk_ok root t0 s cur ks K"
  using assms(1)
proof induction
  case walk_start
  then show ?case using assms(2,3) by (auto simp: walk_ok_def follows_def)
next
  case (walk_next s cur ks K ko vo k v)
  then show ?case using walk_ok_next by blast
next
  case (walk_set s cur ks K key val r s')
  have i: "inv s" using walk_set.IH by (simp add: walk_ok_def)
  show ?case
  proof (rule walk_ok_step [OF walk_set.IH order_refl])
    fix t assume t: "tree_ok B (objs s) root t" "K \<subseteq> dom (tree_map t)"
    from kvhash_set_map [OF i t(1) walk_set.hyps(2) _ walk_set.hyps(3)] obtain t' where
      "evolves root s t s' t'" "tree_map t' = effect r ((tree_map t)(key \<mapsto> val)) (tree_map t)"
      by (auto simp: c_bytes_def)
    with t(2) show "\<exists>t'. evolves root s t s' t' \<and> K \<subseteq> dom (tree_map t')" by (intro exI [of _ t']) (cases r, auto)
  qed
next
  case (walk_del s cur ks K key r s')
  have i: "inv s" using walk_del.IH by (simp add: walk_ok_def)
  show ?case
  proof (rule walk_ok_step [OF walk_del.IH Diff_subset])
    fix t assume t: "tree_ok B (objs s) root t" "K \<subseteq> dom (tree_map t)"
    from kvhash_del_map [OF i t(1) walk_del.hyps(2)] obtain t' where
      "evolves root s t s' t'" "tree_map t' = effect r ((tree_map t)(key := None)) (tree_map t)" by blast
    with t(2) show "\<exists>t'. evolves root s t s' t' \<and> K - {key} \<subseteq> dom (tree_map t')" by (intro exI [of _ t']) (cases r, auto)
  qed
qed

text \<open>At its end the walk has returned every key that stayed, and none twice; before that the next call
  gives a key, provided the buffers hold any entry.\<close>

lemma kv_walk_complete:
  assumes w: "kv_walk B P A nxt root s0 (dom (tree_map t0)) s cur ks K" and i: "inv s0" "tree_ok B (objs s0) root t0"
  shows "distinct ks" "fst (kvhash_next B A s root cur ko vo) = Inl ENODATA \<Longrightarrow> K \<subseteq> set ks"
    "MAX_PAYLOAD_LEN B \<le> ko \<Longrightarrow> MAX_PAYLOAD_LEN B \<le> vo \<Longrightarrow>
      fst (kvhash_next B A s root cur ko vo) = Inl ENODATA \<or> (\<exists>k v. fst (kvhash_next B A s root cur ko vo) = Inr (k, v) \<and> k \<notin> set ks)"
proof -
  note ok = kv_walk_ok [OF assms]
  from ok obtain t where t: "inv s" "tree_ok B (objs s) root t" "place B t = place B t0" "K \<subseteq> dom (tree_map t)" "length cur \<le> 0xffff"
    by (auto simp: walk_ok_def)
  have "sorted_wrt (\<lambda>k k'. place B t0 k < place B t0 k') ks" using ok by (simp add: walk_ok_def)
  then show d: "distinct ks" by (induction ks) auto
  note nl = kvhash_next_least [OF t(1,2,5), of ko vo]
  show "K \<subseteq> set ks" if "fst (kvhash_next B A s root cur ko vo) = Inl ENODATA"
  proof -
    have "\<not> follows B t0 cur k" if "k \<in> K" for k
      using nl \<open>fst (kvhash_next B A s root cur ko vo) = Inl ENODATA\<close> that t(4)
      by (auto simp: follows_same [OF t(3)] split: if_splits)
    then show ?thesis using ok by (auto simp: walk_ok_def)
  qed
  assume big: "MAX_PAYLOAD_LEN B \<le> ko" "MAX_PAYLOAD_LEN B \<le> vo"
  from nl show "fst (kvhash_next B A s root cur ko vo) = Inl ENODATA \<or> (\<exists>k v. fst (kvhash_next B A s root cur ko vo) = Inr (k, v) \<and> k \<notin> set ks)"
  proof (elim disjE exE conjE)
    fix k v assume k: "tree_map t k = Some v" "follows B t cur k"
      and n: "kvhash_next B A s root cur ko vo = (if length k > ko \<or> length v > vo then Inl ENOMEM else Inr (k, v), Some (length k, length v))"
    have "fst (kvhash_next B A s root cur ko vo) = Inr (k, v)" using n tree_keys(2,3) [OF t(1,2) k(1)] big by auto
    from walk_ok_next [OF ok this] have "sorted_wrt (\<lambda>k k'. place B t0 k < place B t0 k') (ks @ [k])" by (simp add: walk_ok_def)
    then have "k \<notin> set ks" by (auto simp: sorted_wrt_append)
    with \<open>fst (kvhash_next B A s root cur ko vo) = Inr (k, v)\<close> show ?thesis by blast
  qed simp
qed

end

end
