(* ===== verification/Kv_Hash_Map.thy ===== *)
theory Kv_Hash_Map
  imports Map_Shape Kv_Hash_Destroy Kv_Hash_Next
begin

text \<open>
  The hash map as a provider of the Map shape: its operation vector keeps the laws of \<open>map_shape\<close>
  over every object store whose payload cap fits the 15-bit length fields of an entry.
\<close>

definition kvhash_holds :: "build \<Rightarrow> (u64 \<Rightarrow> byte list option) \<Rightarrow> u64 \<Rightarrow> u64 set \<Rightarrow> (byte list \<rightharpoonup> byte list) \<Rightarrow> bool" where
  "kvhash_holds B m root X f \<longleftrightarrow> (\<exists>t. tree_ok B m root t \<and> X = set (tree_ids root t) \<and> f = tree_map t)"

definition kvhash_ready :: "build \<Rightarrow> ('s \<Rightarrow> nat) \<Rightarrow> 's \<Rightarrow> map_config option \<Rightarrow> bool" where
  "kvhash_ready B nxt s cfg \<longleftrightarrow>
     cfg_entries cfg \<le> 65535 * 65535 \<and> 8 \<le> MAX_BUCKETS B \<and> nxt s + MAX_BUCKETS B \<le> ID_LIMIT"

lemma tree_root: "tree_holds B m root t \<Longrightarrow> root \<in> set (tree_ids root t)"
  by (auto simp: tree_holds_def tree_ids_def leaf_ids_def split: option.splits)

context kv_store
begin

lemma evolves_owns: "evolves root s t s' t' \<Longrightarrow> owns_step inv objs nxt (set (tree_ids root t)) s (set (tree_ids root t')) s'"
  by (simp add: evolves_def owns_step_def)

lemma max_buckets_small: "MAX_BUCKETS B < 65536"
  using payload le_trans [OF div_le_dividend, of "MAX_PAYLOAD_LEN B - DIR_HDR_LEN" "MAX_PAYLOAD_LEN B" 8]
  by (simp add: MAX_BUCKETS_def ENT_LEN_MASK_def)

end

sublocale kv_store \<subseteq> kv: map_shape A inv objs nxt "MAX_PAYLOAD_LEN B" "kvhash_map_ops B P A" "kvhash_holds B" "kvhash_ready B nxt" "MAX_BUCKETS B" for P
proof (unfold_locales, goal_cases)
  case (1 m root X f m')
  then show ?case unfolding kvhash_holds_def by (metis tree_ok_frame)
next
  case (2 s root X f x)
  then show ?case using tree_ids_live(1) by (auto simp: kvhash_holds_def)
next
  case (3 m root X f)
  then show ?case using tree_root by (auto simp: kvhash_holds_def tree_ok_def)
next
  case (4 s root X f key out_sz)
  then show ?case using kvhash_get_map by (auto simp: kvhash_holds_def kvhash_map_ops_def)
next
  case (5 s root X f val vlen key r s')
  then obtain t where t: "tree_ok B (objs s) root t" "X = set (tree_ids root t)" "f = tree_map t" by (auto simp: kvhash_holds_def)
  have "kvhash_set B P A s root key val vlen = (r, s')" using 5(5) by (simp add: kvhash_map_ops_def)
  from kvhash_set_map [OF 5(1) t(1) 5(3) 5(4) this] obtain t' where
    "evolves root s t s' t'" "tree_map t' = effect r ((tree_map t)(key \<mapsto> c_bytes val vlen)) (tree_map t)" "nxt s' \<le> nxt s + 3"
    by auto
  with t evolves_owns show ?case by (auto simp: kvhash_holds_def evolves_def intro!: exI [of _ "set (tree_ids root t')"])
next
  case (6 s root X f key r s')
  then obtain t where t: "tree_ok B (objs s) root t" "X = set (tree_ids root t)" "f = tree_map t" by (auto simp: kvhash_holds_def)
  have "kvhash_del B A s root key = (r, s')" using 6(3) by (simp add: kvhash_map_ops_def)
  from kvhash_del_map [OF 6(1) t(1) this] obtain t' where
    "evolves root s t s' t'" "tree_map t' = effect r ((tree_map t)(key := None)) (tree_map t)" "nxt s' = nxt s"
    by auto
  with t evolves_owns show ?case by (auto simp: kvhash_holds_def evolves_def intro!: exI [of _ "set (tree_ids root t')"])
next
  case (7 s root X f)
  then show ?case using kvhash_count_map by (auto simp: kvhash_holds_def kvhash_map_ops_def)
next
  case (8 s root cfg)
  then have rd: "cfg_entries cfg \<le> 65535 * 65535" "8 \<le> MAX_BUCKETS B" "nxt s + MAX_BUCKETS B \<le> ID_LIMIT"
    by (simp_all add: kvhash_ready_def)
  from geometry_derived [OF rd(1,2) max_buckets_small] obtain g where
    g: "derive_geometry B cfg = Some g" "\<And>x. g = Inr x \<Longrightarrow> geometry_ok B x" by blast
  show ?case
  proof (cases g)
    case (Inl e)
    with g(1) 8(1) show ?thesis by (simp add: kvhash_map_ops_def kvhash_create_def)
  next
    case (Inr x)
    obtain dp n_top n_sub where x: "x = (dp, n_top, n_sub)" by (cases x)
    obtain r s' where run: "kvhash_create B A s root cfg = Some (r, s')"
      using g(1) Inr x by (cases "the (kvhash_create B A s root cfg)") (auto simp: kvhash_create_def)
    have lim: "nxt s + n_top \<le> ID_LIMIT" using rd(3) g(2) [OF Inr] x by (auto simp: geometry_ok_def)
    have "n_top \<le> MAX_BUCKETS B" using g(2) [OF Inr] x by (auto simp: geometry_ok_def)
    with kvhash_create_empty [OF 8(1,2) g(1) [unfolded Inr x] g(2) [OF Inr, unfolded x] lim run] run show ?thesis
      by (auto simp: kvhash_map_ops_def kvhash_holds_def split: sum.splits) metis+
  qed
next
  case (9 s root X f r s')
  then obtain t where t: "tree_ok B (objs s) root t" "X = set (tree_ids root t)" by (auto simp: kvhash_holds_def)
  have "kvhash_destroy B A s root = (r, s')" using 9(3) by (simp add: kvhash_map_ops_def)
  from kvhash_destroy_law [OF 9(1) disjI1 [OF t(1)] this] t(2) show ?case by (simp add: owns_step_def)
next
  case (10 s root X f cur ko vo)
  then obtain t where t: "tree_ok B (objs s) root t" "f = tree_map t" by (auto simp: kvhash_holds_def)
  have "op_next (kvhash_map_ops B P A) = kvhash_next B A" by (simp add: kvhash_map_ops_def)
  moreover have "tree_map t = Map.empty" if "cur = []" "\<forall>k \<in> dom (tree_map t). \<not> follows B t cur k"
    using that by (auto simp: follows_def)
  ultimately show ?case using kvhash_next_least [OF 10(1) t(1) 10(3), of ko vo] unfolding t(2) by metis
next
  case (11 s root X f k v)
  then show ?case unfolding kvhash_holds_def by (elim exE conjE) (simp add: tree_keys(1))
qed

context kv_store
begin

lemma kvhash_shape: "map_shape A inv objs nxt (MAX_PAYLOAD_LEN B) (kvhash_map_ops B P A) (kvhash_holds B) (kvhash_ready B nxt) (MAX_BUCKETS B)"
  by unfold_locales

end

end
