(* ===== verification/Blob_Refine.thy ===== *)
theory Blob_Refine
  imports Blob_Ops
begin

text \<open>
  The abstract specification of blob_db and the refinement of it by the operations of
  \<open>Blob_Ops\<close>. A mounted store denotes \<open>blob_map\<close>, a map from object id to payload. \<open>db_inv\<close> is
  the invariant: the geometry a mount has validated, buckets whose unwritten tail is erased,
  and objects stored in the bucket their id hashes to.
\<close>

section \<open>The abstract content and the invariant\<close>

text \<open>The log of a bucket; a bucket without a valid header is empty.\<close>

definition bucket_log :: "'d env \<Rightarrow> ('d \<Rightarrow> nat \<Rightarrow> byte) \<Rightarrow> 'd bdb \<Rightarrow> nat \<Rightarrow> entry list" where
  "bucket_log E medium s bid =
     (if bucket_hdr_valid (bld E) (bucket_img medium s bid) bid
      then entries (bld E) (peb_size s) (write_align s) (bucket_img medium s bid) 16 else [])"

definition blob_map :: "'d env \<Rightarrow> ('d \<Rightarrow> nat \<Rightarrow> byte) \<Rightarrow> 'd bdb \<Rightarrow> u64 \<Rightarrow> byte list option" where
  "blob_map E medium s x = (if x = 0 then None else live (bucket_log E medium s (id_to_bucket s x)) x)"

definition homed :: "'d bdb \<Rightarrow> nat \<Rightarrow> entry list \<Rightarrow> bool" where
  "homed s bid es \<longleftrightarrow> (\<forall>e \<in> set es. e_intact e \<longrightarrow> e_id e \<noteq> 0 \<and> id_to_bucket s (e_id e) = bid)"

definition bucket_ok :: "'d env \<Rightarrow> ('d \<Rightarrow> nat \<Rightarrow> byte) \<Rightarrow> 'd bdb \<Rightarrow> nat \<Rightarrow> bool" where
  "bucket_ok E medium s bid \<longleftrightarrow>
     (bucket_hdr_valid (bld E) (bucket_img medium s bid) bid \<longrightarrow>
        tail_ok (bld E) (peb_size s) (write_align s) (bucket_img medium s bid)) \<and>
     homed s bid (bucket_log E medium s bid)"

definition db_inv :: "'d env \<Rightarrow> ('d \<Rightarrow> nat \<Rightarrow> byte) \<Rightarrow> ('d \<Rightarrow> nat) \<Rightarrow> 'd bdb \<Rightarrow> bool" where
  "db_inv E medium peb s \<longleftrightarrow>
     geom_ok (bld E) peb s \<and> (\<forall>bid < n_buckets s. bucket_ok E medium s bid)"

text \<open>The bucket's log ends at a slot of a newer build.\<close>

definition ends_foreign :: "'d env \<Rightarrow> ('d \<Rightarrow> nat \<Rightarrow> byte) \<Rightarrow> 'd bdb \<Rightarrow> nat \<Rightarrow> bool" where
  "ends_foreign E medium s bid \<longleftrightarrow>
     bucket_hdr_valid (bld E) (bucket_img medium s bid) bid \<and>
     bucket_image_ends_foreign (bld E) (peb_size s) (write_align s) (bucket_img medium s bid)"

text \<open>A bucket whose log is followed by erased flash only.\<close>

definition clean_log :: "'d env \<Rightarrow> ('d \<Rightarrow> nat \<Rightarrow> byte) \<Rightarrow> 'd bdb \<Rightarrow> nat \<Rightarrow> bool" where
  "clean_log E medium s bid \<longleftrightarrow> (\<exists>es c. log_is E s bid (bucket_img medium s bid) es c)"

section \<open>Changing one bucket\<close>

lemma geom_n_buckets: "geom_ok B peb s \<Longrightarrow> id_to_bucket s x < n_buckets s"
  by (simp add: geom_ok_def id_to_bucket_def)

lemma homed_subset: "homed s bid es \<Longrightarrow> set es' \<subseteq> set es \<Longrightarrow> homed s bid es'"
  by (auto simp: homed_def)

lemma homed_append [simp]: "homed s bid (es @ es') \<longleftrightarrow> homed s bid es \<and> homed s bid es'"
  by (auto simp: homed_def)

lemma homed_live: "homed s bid es \<Longrightarrow> live es x = Some p \<Longrightarrow> x \<noteq> 0 \<and> id_to_bucket s x = bid"
  by (auto simp: homed_def live_def split: option.splits if_splits dest!: newest_Some)

lemma log_is_bucket_log:
  assumes "touches medium peb P s s'" "log_is E s bid (bucket_img medium s' bid) es c"
  shows "bucket_log E medium s' bid = es"
  using assms touchesD [OF assms(1)] by (simp add: bucket_log_def log_is_def)

lemma bucket_log_frame:
  "touches medium peb P s s' \<Longrightarrow> BLOB_DB_FIRST_BUCKET + b \<notin> P \<Longrightarrow> bucket_log E medium s' b = bucket_log E medium s b"
  using touchesD [of medium peb P s s'] touches_img_bucket [of medium peb P s s' b]
  by (simp add: bucket_log_def)

definition one_bucket :: "nat \<Rightarrow> nat set" where
  "one_bucket bid = {BLOB_DB_SCRATCH_SECTOR, BLOB_DB_FIRST_BUCKET + bid}"

lemma one_bucket_other: "b \<noteq> bid \<Longrightarrow> BLOB_DB_FIRST_BUCKET + b \<notin> one_bucket bid"
  by (simp add: one_bucket_def BLOB_DB_FIRST_BUCKET_def BLOB_DB_SCRATCH_SECTOR_def)

lemma touches_one: "touches medium peb {BLOB_DB_FIRST_BUCKET + bid} s s' \<Longrightarrow> touches medium peb (one_bucket bid) s s'"
  by (auto simp: one_bucket_def intro: touches_mono)

lemma touches_one_trans:
  "touches medium peb (one_bucket bid) s t \<Longrightarrow> touches medium peb (one_bucket bid) t u \<Longrightarrow>
   touches medium peb (one_bucket bid) s u"
  using touches_trans by fastforce

text \<open>An operation that rewrites one bucket into a log with the right owners keeps the invariant,
  and changes the abstract content on that bucket's ids only.\<close>

lemma change_bucket:
  assumes inv: "db_inv E medium peb s" and t: "touches medium peb (one_bucket bid) s s'"
    and l: "log_is E s bid (bucket_img medium s' bid) es c" and h: "homed s bid es"
  shows "db_inv E medium peb s'"
    and "blob_map E medium s' =
      (\<lambda>y. if y \<noteq> 0 \<and> id_to_bucket s y = bid then live es y else blob_map E medium s y)"
proof -
  note D = touchesD [OF t]
  have log: "bucket_log E medium s' b = (if b = bid then es else bucket_log E medium s b)" for b
    using log_is_bucket_log [OF t l] bucket_log_frame [OF t one_bucket_other] by simp
  then show "blob_map E medium s' =
      (\<lambda>y. if y \<noteq> 0 \<and> id_to_bucket s y = bid then live es y else blob_map E medium s y)"
    by (auto simp: blob_map_def D)
  have "bucket_ok E medium s' b" if "b < n_buckets s'" for b
  proof (cases "b = bid")
    case True
    with log_is_tail_ok [OF l] log h show ?thesis by (simp add: bucket_ok_def homed_def D)
  next
    case False
    with inv that log touches_img_bucket [OF t one_bucket_other] show ?thesis
      by (simp add: db_inv_def bucket_ok_def homed_def D)
  qed
  with inv show "db_inv E medium peb s'" by (simp add: db_inv_def D)
qed

text \<open>A device exchanged for one with the same contents, as after a power cycle.\<close>

lemma touches_nothing:
  assumes "touches medium peb {} s t"
  shows "blob_map E medium t = blob_map E medium s" "db_inv E medium peb t = db_inv E medium peb s"
    "bucket_img medium t b = bucket_img medium s b" "bucket_log E medium t b = bucket_log E medium s b"
proof -
  note D = touchesD [OF assms]
  show i: "bucket_img medium t b = bucket_img medium s b" for b by (rule touches_img_bucket [OF assms]) simp
  show l: "bucket_log E medium t b = bucket_log E medium s b" for b by (rule bucket_log_frame [OF assms]) simp
  show "blob_map E medium t = blob_map E medium s" by (simp add: fun_eq_iff blob_map_def l D)
  show "db_inv E medium peb t = db_inv E medium peb s"
    by (simp add: db_inv_def bucket_ok_def homed_def l i D)
qed

section \<open>Cursors\<close>

text \<open>What a pass over the bucket reports of its log's end.\<close>

definition scan_ends :: "'d env \<Rightarrow> 'd bdb \<Rightarrow> byte list \<Rightarrow> bucket_scan \<Rightarrow> bool" where
  "scan_ends E s img sc \<longleftrightarrow>
     (let c = log_end (bld E) (peb_size s) (write_align s) img 16 in
      write_cursor sc = c \<and> foreign sc = slot_foreign_at (bld E) (peb_size s) (write_align s) img c \<and>
      tail_torn sc = torn_at (bld E) (peb_size s) (write_align s) img c)"

text \<open>A cursor with room for a slot is the end of a log with erased flash after it.\<close>

lemma confirmed_cursor:
  assumes "scan_ends E s img sc" "confirm_cursor s sc = Inr c" "length img = peb_size s"
    and "bucket_hdr_valid (bld E) img bid" "tail_ok (bld E) (peb_size s) (write_align s) img"
    and "c + slot_size_for wa n \<le> peb_size s"
  shows "log_is E s bid img (entries (bld E) (peb_size s) (write_align s) img 16) c"
  using assms slot_size_for_ge [of n wa]
  by (auto simp: scan_ends_def confirm_cursor_def log_is_def tail_ok_def torn_at_def Let_def
      BLOB_DB_SLOT_OVERHEAD_def split: if_splits)

text \<open>Room for one slot of a bucket: the state \<open>t\<close> differs from \<open>s\<close> in that bucket only, has the
  same live objects there, and its log ends at \<open>c\<close> with erased space for the slot. This is the
  state every writer appends in.\<close>

definition room_for ::
  "'d env \<Rightarrow> ('d \<Rightarrow> nat \<Rightarrow> byte) \<Rightarrow> ('d \<Rightarrow> nat) \<Rightarrow> 'd bdb \<Rightarrow> nat \<Rightarrow> nat \<Rightarrow> 'd bdb \<Rightarrow> nat \<Rightarrow> bool" where
  "room_for E medium peb s bid ssz t c \<longleftrightarrow>
     touches medium peb (one_bucket bid) s t \<and> c + ssz \<le> peb_size s \<and>
     (\<exists>es. log_is E s bid (bucket_img medium t bid) es c \<and>
        live es = live (bucket_log E medium s bid) \<and> set es \<subseteq> set (bucket_log E medium s bid))"

lemma log_is_cong:
  "peb_size s = peb_size t \<Longrightarrow> write_align s = write_align t \<Longrightarrow> log_is E s bid img es c = log_is E t bid img es c"
  by (simp add: log_is_def)

context blob_env
begin

lemma bucket_cursor_ends:
  "bucket_cursor E s bid x = Inr sc \<Longrightarrow> scan_ends E s (bucket_img medium s bid) sc"
  using scan_from_spec [of s bid x "peb_size s" 16 None sc]
  by (simp add: bucket_cursor_def scan_bucket_for_def BLOB_DB_BUCKET_DATA_OFF_def scan_ends_def Let_def)

lemma find_live_slot_ends:
  "find_live_slot E s bid x = Inr (sc, p) \<Longrightarrow>
   scan_ends E s (bucket_img medium s bid) sc \<and>
   (\<exists>e. newest (entries (bld E) (peb_size s) (write_align s) (bucket_img medium s bid) 16) x = Some e \<and>
      \<not> tomb e \<and> p = e_payload e)"
  using find_live_slot_spec [of s bid x]
  by (auto simp: lookup_answers_def scan_ends_def Let_def)

lemma read_bucket_hdr_spec:
  "read_bucket_hdr E s bid = Inr f \<Longrightarrow> geom_ok (bld E) peb s \<Longrightarrow>
   f = bucket_hdr_valid (bld E) (bucket_img medium s bid) bid"
proof -
  assume r: "read_bucket_hdr E s bid = Inr f" and g: "geom_ok (bld E) peb s"
  then obtain bs where rd: "store_read E s (bucket_offset s bid) 16 = Inr bs"
    and f: "f = bucket_hdr_valid (bld E) bs bid"
    by (auto simp: read_bucket_hdr_def andthen_Inr)
  have "bs = take 16 (bucket_img medium s bid)"
    using read_img [of s bid 0 16 bs] rd g by (simp add: field_def geom_ok_def)
  then have "take 16 bs = take 16 (bucket_img medium s bid)" by simp
  with f bucket_hdr_valid_take show ?thesis by metis
qed

section \<open>Room for a slot\<close>

lemma cursor_room:
  assumes inv: "db_inv E medium peb s" and bid: "bid < n_buckets s"
    and hv: "bucket_hdr_valid (bld E) (bucket_img medium s bid) bid"
    and sc: "scan_ends E s (bucket_img medium s bid) sc" "confirm_cursor s sc = Inr c"
    and fit: "c + slot_size_for (write_align s) n \<le> peb_size s"
  shows "room_for E medium peb s bid (slot_size_for (write_align s) n) s c"
proof -
  have "tail_ok (bld E) (peb_size s) (write_align s) (bucket_img medium s bid)"
    using inv bid hv by (simp add: db_inv_def bucket_ok_def)
  from confirmed_cursor [OF sc _ hv this fit] fit hv show ?thesis
    by (auto simp: room_for_def bucket_log_def)
qed

lemma format_room:
  assumes f: "format_bucket E s bid = (Inr (), t)" and inv: "db_inv E medium peb s"
    and bid: "bid < n_buckets s" and hv: "\<not> bucket_hdr_valid (bld E) (bucket_img medium s bid) bid"
  shows "touches medium peb (one_bucket bid) s t"
    and "log_is E s bid (bucket_img medium t bid) (bucket_log E medium s bid) 16"
  using format_bucket_spec [OF f _ bid] inv hv touches_one
  by (auto simp: db_inv_def bucket_log_def)

lemma compact_room:
  assumes t: "touches medium peb (one_bucket bid) s t" and g: "geom_ok (bld E) peb s"
    and bid: "bid < n_buckets s"
    and hv: "bucket_hdr_valid (bld E) (bucket_img medium t bid) bid"
    and lg: "bucket_log E medium t bid = bucket_log E medium s bid"
    and c: "compact_bucket E t bid = (Inr (), u)"
    and sc: "scan_ends E u (bucket_img medium u bid) sc" "confirm_cursor u sc = Inr c"
    and fit: "c + slot_size_for (write_align s) n \<le> peb_size s"
  shows "room_for E medium peb s bid (slot_size_for (write_align s) n) u c"
proof -
  note D = touchesD [OF t]
  have es: "entries (bld E) (peb_size t) (write_align t) (bucket_img medium t bid) 16 = bucket_log E medium s bid"
    using lg hv by (simp add: bucket_log_def)
  obtain k where tu: "touches medium peb (one_bucket bid) t u"
    and k: "log_is E t bid (bucket_img medium u bid) (keep (bucket_log E medium s bid)) k"
    using compact_bucket_spec [OF c] g bid D es by (auto simp: one_bucket_def)
  note D' = touchesD [OF tu]
  have "log_is E u bid (bucket_img medium u bid)
      (entries (bld E) (peb_size u) (write_align u) (bucket_img medium u bid) 16) c"
    by (rule confirmed_cursor [OF sc])
      (use k log_is_tail_ok [OF k] fit D D' in \<open>auto simp: log_is_def\<close>)
  then have "log_is E s bid (bucket_img medium u bid) (keep (bucket_log E medium s bid)) c"
    using k D D' by (simp add: log_is_def)
  moreover have "touches medium peb (one_bucket bid) s u" using touches_one_trans [OF t tu] .
  ultimately show ?thesis using fit live_keep keep_subset by (auto simp: room_for_def)
qed

text \<open>An append where there is room is an update of the abstract map.\<close>

lemma append_room:
  assumes inv: "db_inv E medium peb s" and x: "x \<noteq> 0" and bid: "bid = id_to_bucket s x"
    and room: "room_for E medium peb s bid (slot_size_for (write_align s) (length p)) t c"
    and a: "append_slot E t bid c x ex p = (Inr (), s')" and ex: "written_flags ex"
  shows "db_inv E medium peb s'" "touches medium peb (one_bucket bid) s s'"
    and "blob_map E medium s' =
      (blob_map E medium s)(x := if tomb (written_entry x ex p) then None else Some p)"
    and "clean_log E medium s' bid"
    and "\<exists>es. set es \<subseteq> set (bucket_log E medium s bid) \<and>
      bucket_log E medium s' bid = es @ [written_entry x ex p]"
proof -
  from room obtain es where t: "touches medium peb (one_bucket bid) s t"
    and l: "log_is E s bid (bucket_img medium t bid) es c"
    and lv: "live es = live (bucket_log E medium s bid)" and sub: "set es \<subseteq> set (bucket_log E medium s bid)"
    and fit: "c + slot_size_for (write_align s) (length p) \<le> peb_size s"
    by (auto simp: room_for_def)
  note D = touchesD [OF t]
  have l': "log_is E t bid (bucket_img medium t bid) es c" using l D log_is_cong by metis
  have sp: "touches medium peb (one_bucket bid) t s'"
    "log_is E s bid (bucket_img medium s' bid) (es @ [written_entry x ex p])
      (c + slot_size_for (write_align s) (length p))"
    using append_slot_spec [OF a l' ex] fit D touches_one by (auto simp: log_is_def)
  show tt: "touches medium peb (one_bucket bid) s s'" using touches_one_trans [OF t sp(1)] .
  have "bid < n_buckets s" using inv bid geom_n_buckets by (auto simp: db_inv_def)
  then have "homed s bid (bucket_log E medium s bid)" using inv by (simp add: db_inv_def bucket_ok_def)
  then have "homed s bid es" using sub by (rule homed_subset)
  then have h: "homed s bid (es @ [written_entry x ex p])" using x bid by (simp add: homed_def)
  note ch = change_bucket [OF inv tt sp(2) h]
  have "log_is E s' bid = log_is E s bid" using touchesD [OF tt] by (simp add: fun_eq_iff log_is_def)
  with sp(2) show "clean_log E medium s' bid" unfolding clean_log_def by metis
  show "\<exists>es. set es \<subseteq> set (bucket_log E medium s bid) \<and>
      bucket_log E medium s' bid = es @ [written_entry x ex p]"
    using log_is_bucket_log [OF tt sp(2)] sub by blast
  show "db_inv E medium peb s'" by (rule ch(1))
  show "blob_map E medium s' =
      (blob_map E medium s)(x := if tomb (written_entry x ex p) then None else Some p)"
    unfolding ch(2) using x bid by (auto simp: fun_eq_iff live_append_entry lv blob_map_def)
qed

section \<open>Update, delete and write\<close>

lemma update_room:
  assumes inv: "db_inv E medium peb s" and bid: "bid = id_to_bucket s x"
    and first: "update_cursor E s bid x (bucket_hdr_valid (bld E) (bucket_img medium s bid) bid) = (Inr c0, t)"
    and room: "update_make_room E t bid x ssz c0 = (Inr c, u)"
    and ssz: "ssz = slot_size_for (write_align s) n"
  shows "room_for E medium peb s bid ssz u c"
proof -
  have g: "geom_ok (bld E) peb s" using inv by (simp add: db_inv_def)
  then have bn: "bid < n_buckets s" using bid geom_n_buckets by simp
  let ?hv = "bucket_hdr_valid (bld E) (bucket_img medium s bid) bid"
  have t: "touches medium peb (one_bucket bid) s t \<and>
      bucket_hdr_valid (bld E) (bucket_img medium t bid) bid \<and>
      bucket_log E medium t bid = bucket_log E medium s bid \<and>
      (c0 + ssz \<le> peb_size s \<longrightarrow> room_for E medium peb s bid ssz t c0)"
  proof (cases ?hv)
    case False
    with first have f: "format_bucket E s bid = (Inr (), t)" and c0: "c0 = 16"
      by (auto simp: update_cursor_def res_simps BLOB_DB_BUCKET_DATA_OFF_def)
    note fr = format_room [OF f inv bn False]
    from log_is_bucket_log [OF fr] fr c0 show ?thesis by (auto simp: room_for_def log_is_def)
  next
    case True
    then have "andthen (bucket_cursor E s bid x) (confirm_cursor s) = Inr c0" and t: "t = s"
      using first by (auto simp: update_cursor_def)
    then obtain sc where sc: "bucket_cursor E s bid x = Inr sc" "confirm_cursor s sc = Inr c0"
      unfolding andthen_Inr by blast
    from cursor_room [OF inv bn True bucket_cursor_ends [OF sc(1)] sc(2)] True t ssz show ?thesis
      by simp
  qed
  then have tt: "touches medium peb (one_bucket bid) s t" by blast
  note D = touchesD [OF tt]
  show ?thesis
  proof (cases "c0 + ssz > peb_size t")
    case False
    with room t D show ?thesis by (simp add: update_make_room_def)
  next
    case True
    with room obtain sc where c: "compact_bucket E t bid = (Inr (), u)"
      and sc: "bucket_cursor E u bid x = Inr sc" "confirm_cursor u sc = Inr c"
      and fit: "c + ssz \<le> peb_size u" by (auto simp: update_make_room_def res_simps split: if_splits)
    have "peb_size u = peb_size s"
      using compact_bucket_spec [OF c] g bn D touchesD(1) by fastforce
    with compact_room [OF tt g bn _ _ c bucket_cursor_ends [OF sc(1)] sc(2)] t fit ssz
    show ?thesis by simp
  qed
qed

lemma update_impl_spec:
  assumes inv: "db_inv E medium peb s" and u: "update_impl E s x payload len = (Inr (), s')"
    and buf: "\<And>bs. payload = Some bs \<Longrightarrow> len \<le> length bs"
  shows "db_inv E medium peb s'" "touches medium peb (one_bucket (id_to_bucket s x)) s s'"
    and "blob_map E medium s' = (blob_map E medium s)(x \<mapsto> c_bytes payload len)"
    and "clean_log E medium s' (id_to_bucket s x)"
    and "\<exists>es. set es \<subseteq> set (bucket_log E medium s (id_to_bucket s x)) \<and>
      bucket_log E medium s' (id_to_bucket s x) = es @ [written_entry x 0 (c_bytes payload len)]"
proof -
  let ?bid = "id_to_bucket s x" and ?ssz = "slot_size_for (write_align s) len"
  have g: "geom_ok (bld E) peb s" using inv by (simp add: db_inv_def)
  from u have x: "x \<noteq> 0" and pl: "len > 0 \<longrightarrow> payload \<noteq> None"
    by (auto simp: update_impl_def split: if_splits)
  have len: "length (c_bytes payload len) = len"
    using pl buf by (cases payload) (auto simp: c_bytes_def)
  from u obtain f where "read_bucket_hdr E s ?bid = Inr f"
    by (auto simp: update_impl_def Let_def res_simps split: if_splits)
  with read_bucket_hdr_spec [OF this g] u obtain c0 t c w where
    1: "update_cursor E s ?bid x (bucket_hdr_valid (bld E) (bucket_img medium s ?bid) ?bid) = (Inr c0, t)" and
    2: "update_make_room E t ?bid x ?ssz c0 = (Inr c, w)" and
    3: "append_slot E w ?bid c x 0 (c_bytes payload len) = (Inr (), s')"
    by (auto simp: update_impl_def Let_def seqs_Inr split: if_split_asm)
  have r: "room_for E medium peb s ?bid (slot_size_for (write_align s) (length (c_bytes payload len))) w c"
    unfolding len by (rule update_room [OF inv refl 1 2 refl])
  have "written_flags 0" by (simp add: written_flags_def)
  from append_room [OF inv x refl r 3 this] show "db_inv E medium peb s'"
    "touches medium peb (one_bucket ?bid) s s'" "clean_log E medium s' ?bid"
    "\<exists>es. set es \<subseteq> set (bucket_log E medium s ?bid) \<and>
      bucket_log E medium s' ?bid = es @ [written_entry x 0 (c_bytes payload len)]"
    "blob_map E medium s' = (blob_map E medium s)(x \<mapsto> c_bytes payload len)" by simp_all
qed

text \<open>A lookup in a formatted bucket is a lookup in the abstract map.\<close>

lemma found_live:
  assumes "find_live_slot E s bid x = Inr (sc, p)" "bid = id_to_bucket s x" "x \<noteq> 0"
    and "bucket_hdr_valid (bld E) (bucket_img medium s bid) bid"
  shows "blob_map E medium s x = Some p"
  using find_live_slot_ends [OF assms(1)] assms(2-)
  by (auto simp: blob_map_def bucket_log_def live_def)

lemma lookup_room:
  assumes inv: "db_inv E medium peb s" and bid: "bid = id_to_bucket s x" and x: "x \<noteq> 0"
    and hv: "bucket_hdr_valid (bld E) (bucket_img medium s bid) bid"
    and fl: "find_live_slot E s bid x = Inr (sc, p)" "confirm_cursor s sc = Inr c0"
    and room: "lookup_make_room E s bid x ssz c0 p = (Inr (c, p'), u)"
    and ssz: "ssz = slot_size_for (write_align s) n"
  shows "room_for E medium peb s bid ssz u c" "p' = p"
proof -
  have g: "geom_ok (bld E) peb s" using inv by (simp add: db_inv_def)
  then have bn: "bid < n_buckets s" using bid geom_n_buckets by simp
  note ends = conjunct1 [OF find_live_slot_ends]
  have "room_for E medium peb s bid ssz u c \<and> p' = p"
  proof (cases "c0 + ssz > peb_size s")
    case False
    with room cursor_room [OF inv bn hv ends [OF fl(1)] fl(2)] ssz show ?thesis
      by (simp add: lookup_make_room_def)
  next
    case True
    with room obtain sc' where c: "compact_bucket E s bid = (Inr (), u)"
      and fl': "find_live_slot E u bid x = Inr (sc', p')" "confirm_cursor u sc' = Inr c"
      and fit: "c + ssz \<le> peb_size u" by (auto simp: lookup_make_room_def res_simps split: if_splits)
    let ?es = "bucket_log E medium s bid"
    obtain k where u: "touches medium peb (one_bucket bid) s u"
      and k: "log_is E s bid (bucket_img medium u bid) (keep ?es) k"
      using compact_bucket_spec [OF c g bn] hv by (auto simp: one_bucket_def bucket_log_def)
    note D = touchesD [OF u]
    have hv': "bucket_hdr_valid (bld E) (bucket_img medium u bid) bid" using k by (simp add: log_is_def)
    have "blob_map E medium u x = blob_map E medium s x"
      using log_is_bucket_log [OF u k] bid x D by (simp add: blob_map_def live_keep)
    then have "p' = p"
      using found_live [OF fl'(1) _ x hv'] found_live [OF fl(1) bid x hv] bid D by simp
    moreover have "c + slot_size_for (write_align s) n \<le> peb_size s" using fit ssz D by simp
    ultimately show ?thesis
      using compact_room [OF touches_refl g bn hv refl c ends [OF fl'(1)] fl'(2)] ssz by simp
  qed
  then show "room_for E medium peb s bid ssz u c" "p' = p" by blast+
qed

lemma delete_impl_spec:
  assumes inv: "db_inv E medium peb s" and d: "delete_impl E s x = (Inr (), s')"
  shows "db_inv E medium peb s'" "touches medium peb (one_bucket (id_to_bucket s x)) s s'"
    and "blob_map E medium s x \<noteq> None" "blob_map E medium s' = (blob_map E medium s)(x := None)"
    and "clean_log E medium s' (id_to_bucket s x)"
proof -
  let ?bid = "id_to_bucket s x" and ?ssz = "slot_size_for (write_align s) 0"
  have g: "geom_ok (bld E) peb s" using inv by (simp add: db_inv_def)
  from d have x: "x \<noteq> 0" by (auto simp: delete_impl_def split: if_splits)
  from d obtain sc p c0 c p' w where h: "read_bucket_hdr E s ?bid = Inr True"
    and fl: "find_live_slot E s ?bid x = Inr (sc, p)" "confirm_cursor s sc = Inr c0"
    and m: "lookup_make_room E s ?bid x ?ssz c0 p = (Inr (c, p'), w)"
    and a: "append_slot E w ?bid c x BLOB_DB_SLOT_F_TOMBSTONE [] = (Inr (), s')"
    by (auto simp: delete_impl_def Let_def res_simps split: if_splits)
  have hv: "bucket_hdr_valid (bld E) (bucket_img medium s ?bid) ?bid"
    using read_bucket_hdr_spec [OF h g] by simp
  show "blob_map E medium s x \<noteq> None" using found_live [OF fl(1) refl x hv] by simp
  have r: "room_for E medium peb s ?bid (slot_size_for (write_align s) (length [])) w c"
    using lookup_room(1) [OF inv refl x hv fl m refl] by simp
  have "written_flags BLOB_DB_SLOT_F_TOMBSTONE" by (simp add: written_flags_def)
  from append_room [OF inv x refl r a this] show "db_inv E medium peb s'"
    "touches medium peb (one_bucket ?bid) s s'"
    "blob_map E medium s' = (blob_map E medium s)(x := None)" "clean_log E medium s' ?bid" by simp_all
qed

text \<open>A write of \<open>len\<close> bytes at \<open>offset\<close>: the payload with that range replaced, extended by
  zeros where the range starts past its end.\<close>

lemma length_write_staged:
  "offset + length bs \<le> need \<Longrightarrow> length bbuf \<le> need \<Longrightarrow> length (write_staged bbuf need offset bs) = need"
  by (simp add: write_staged_def)

lemma write_impl_spec:
  assumes inv: "db_inv E medium peb s" and w: "write_impl E s x offset buf len = (Inr (), s')"
    and nz: "len \<noteq> 0" and buf: "\<And>bs. buf = Some bs \<Longrightarrow> unat len \<le> length bs"
  shows "\<exists>p. blob_map E medium s x = Some p \<and> db_inv E medium peb s' \<and>
    touches medium peb (one_bucket (id_to_bucket s x)) s s' \<and> clean_log E medium s' (id_to_bucket s x) \<and>
    blob_map E medium s' = (blob_map E medium s)(x \<mapsto>
      write_staged p (max (unat offset + unat len) (length p)) (unat offset) (c_bytes buf (unat len)))"
proof -
  let ?bid = "id_to_bucket s x"
  have g: "geom_ok (bld E) peb s" using inv by (simp add: db_inv_def)
  from w nz have x: "x \<noteq> 0" and nowrap: "\<not> offset + len < offset" and bn: "buf \<noteq> None"
    by (auto simp: write_impl_def word_gt_0 split: if_splits)
  have sum: "unat (offset + len) = unat offset + unat len"
    using nowrap by (simp add: unat_plus_simple not_less)
  have cb: "length (c_bytes buf (unat len)) = unat len"
    using bn buf by (auto simp: c_bytes_def)
  from w nz obtain sc p where h: "read_bucket_hdr E s ?bid = Inr True"
    and f: "find_live_slot E s ?bid x = Inr (sc, p)"
    by (auto simp: write_impl_def Let_def res_simps split: if_splits)
  let ?need = "max (unat offset + unat len) (length p)"
  let ?new = "write_staged p ?need (unat offset) (c_bytes buf (unat len))"
  from w nz h f sum obtain c0 c p' w1 where cc: "confirm_cursor s sc = Inr c0"
    and m: "lookup_make_room E s ?bid x (slot_size_for (write_align s) ?need) c0 p = (Inr (c, p'), w1)"
    and a: "append_slot E w1 ?bid c x 0 (write_staged p' ?need (unat offset) (c_bytes buf (unat len))) = (Inr (), s')"
    by (auto simp: write_impl_def Let_def res_simps split: if_splits)
  have hv: "bucket_hdr_valid (bld E) (bucket_img medium s ?bid) ?bid"
    using read_bucket_hdr_spec [OF h g] by simp
  note lr = lookup_room [OF inv refl x hv f cc m refl]
  have "length ?new = ?need" by (rule length_write_staged) (simp_all add: cb)
  then have r: "room_for E medium peb s ?bid (slot_size_for (write_align s) (length ?new)) w1 c"
    using lr(1) by simp
  have wf: "written_flags 0" by (simp add: written_flags_def)
  show ?thesis
    using append_room [OF inv x refl r a [unfolded lr(2)] wf] found_live [OF f refl x hv] by simp
qed

section \<open>Lookups\<close>

lemma read_bucket_hdr_progress:
  assumes "reads_ok E s bid" "geom_ok (bld E) peb s"
  shows "read_bucket_hdr E s bid = Inr (bucket_hdr_valid (bld E) (bucket_img medium s bid) bid)"
proof -
  have "0 + 16 \<le> peb_size s" using assms(2) by (simp add: geom_ok_def)
  then obtain bs where "store_read E s (bucket_offset s bid + 0) 16 = Inr bs"
    using assms(1) unfolding reads_ok_def by blast
  then obtain f where "read_bucket_hdr E s bid = Inr f" by (simp add: read_bucket_hdr_def)
  with read_bucket_hdr_spec [OF this assms(2)] show ?thesis by simp
qed

text \<open>The pattern every reader shares: the header, then the live slot.\<close>

lemma lookup_exact:
  assumes ok: "reads_ok E s bid" and g: "geom_ok (bld E) peb s" and bid: "bid = id_to_bucket s x"
    and x: "x \<noteq> 0"
  shows "\<exists>sc. \<forall>f. andthen (read_bucket_hdr E s bid) (\<lambda>formatted.
        if \<not> formatted then Inl ENOENT else andthen (find_live_slot E s bid x) f) =
      (if ends_foreign E medium s bid then Inl ENOTSUP
       else case blob_map E medium s x of None \<Rightarrow> Inl ENOENT | Some p \<Rightarrow> f (sc, p))"
proof -
  let ?hv = "bucket_hdr_valid (bld E) (bucket_img medium s bid) bid"
  note rh = read_bucket_hdr_progress [OF ok g]
  note la = find_live_slot_spec [of s bid x]
  show ?thesis
  proof (cases ?hv)
    case False
    with rh bid show ?thesis by (simp add: ends_foreign_def blob_map_def bucket_log_def)
  next
    case True
    show ?thesis
    proof (cases "find_live_slot E s bid x")
      case (Inl e)
      then show ?thesis
        using rh True la find_live_slot_progress [OF ok Inl] bid x
        by (auto simp: lookup_answers_def Let_def ends_foreign_def bucket_image_ends_foreign_def
            BLOB_DB_BUCKET_DATA_OFF_def blob_map_def bucket_log_def live_def split: option.splits)
    next
      case (Inr r)
      obtain sc p where r: "r = (sc, p)" by (cases r)
      with Inr True la rh found_live [OF Inr [unfolded r] bid x True] show ?thesis
        by (auto simp: lookup_answers_def Let_def ends_foreign_def bucket_image_ends_foreign_def
            BLOB_DB_BUCKET_DATA_OFF_def)
    qed
  qed
qed

lemma get_impl_exact:
  assumes ok: "reads_ok E s (id_to_bucket s x)" and g: "geom_ok (bld E) peb s" and m: "mounted s"
  shows "get_impl E s x out_null out_sz =
    (if out_sz > 0 \<and> out_null then Inl EINVAL
     else if x \<noteq> 0 \<and> ends_foreign E medium s (id_to_bucket s x) then Inl ENOTSUP
     else case blob_map E medium s x of
       None \<Rightarrow> Inl ENOENT | Some p \<Rightarrow> if out_sz < length p then Inl ENOMEM else Inr p)"
proof (cases "x = 0")
  case True
  with m show ?thesis by (simp add: get_impl_def blob_map_def)
next
  case False
  from lookup_exact [OF ok g refl False] m False show ?thesis
    by (auto simp: get_impl_def Let_def split: option.splits)
qed

lemma size_impl_exact:
  assumes ok: "reads_ok E s (id_to_bucket s x)" and g: "geom_ok (bld E) peb s" and m: "mounted s"
  shows "size_impl E s x False =
    (if x \<noteq> 0 \<and> ends_foreign E medium s (id_to_bucket s x) then Inl ENOTSUP
     else case blob_map E medium s x of None \<Rightarrow> Inl ENOENT | Some p \<Rightarrow> Inr (length p))"
proof (cases "x = 0")
  case True
  with m show ?thesis by (simp add: size_impl_def blob_map_def)
next
  case False
  from lookup_exact [OF ok g refl False] m False show ?thesis
    by (auto simp: size_impl_def Let_def split: option.splits)
qed

lemma read_impl_exact:
  assumes ok: "reads_ok E s (id_to_bucket s x)" and g: "geom_ok (bld E) peb s" and m: "mounted s"
  shows "read_impl E s x offset False len =
    (if x \<noteq> 0 \<and> ends_foreign E medium s (id_to_bucket s x) then Inl ENOTSUP
     else case blob_map E medium s x of None \<Rightarrow> Inl ENOENT | Some p \<Rightarrow> Inr (take len (drop offset p)))"
proof (cases "x = 0")
  case True
  with m show ?thesis by (simp add: read_impl_def blob_map_def)
next
  case False
  have fld: "(if offset \<ge> length p then [] else field offset (if len > length p - offset
      then length p - offset else len) p) = take len (drop offset p)" for p :: "byte list"
    by (auto simp: field_def)
  from lookup_exact [OF ok g refl False] m False show ?thesis
    by (auto simp: read_impl_def Let_def fld [symmetric] split: option.splits)
qed

lemma exists_impl_exact:
  assumes ok: "reads_ok E s (id_to_bucket s x)" and g: "geom_ok (bld E) peb s" and m: "mounted s"
    and nf: "\<not> ends_foreign E medium s (id_to_bucket s x)"
  shows "exists_impl E s x \<longleftrightarrow> blob_map E medium s x \<noteq> None"
proof (cases "x = 0")
  case True
  with m show ?thesis by (simp add: exists_impl_def blob_map_def)
next
  case False
  obtain sc where l: "andthen (read_bucket_hdr E s (id_to_bucket s x)) (\<lambda>formatted.
        if \<not> formatted then Inl ENOENT else andthen (find_live_slot E s (id_to_bucket s x) x) Inr) =
      (case blob_map E medium s x of None \<Rightarrow> Inl ENOENT | Some p \<Rightarrow> Inr (sc, p))"
    using lookup_exact [OF ok g refl False] nf by (elim exE) (drule spec [of _ Inr], simp)
  then show ?thesis using m False
    by (auto simp: exists_impl_def Let_def andthen_def split: sum.splits option.splits if_splits)
qed

end

section \<open>Enumeration\<close>

text \<open>Visiting a list of objects with a callback that can stop the walk.\<close>

primrec visit :: "(u64 \<Rightarrow> byte list \<Rightarrow> 'a \<Rightarrow> int \<times> 'a) \<Rightarrow> (u64 \<times> byte list) list \<Rightarrow> 'a \<Rightarrow> int \<times> 'a" where
  "visit cb [] u = (0, u)"
| "visit cb (o1 # os) u =
     (let (r, u') = cb (fst o1) (snd o1) u in if r \<noteq> 0 then (r, u') else visit cb os u')"

definition object_of :: "entry \<Rightarrow> u64 \<times> byte list" where
  "object_of e = (e_id e, e_payload e)"

definition bucket_objects :: "'d env \<Rightarrow> ('d \<Rightarrow> nat \<Rightarrow> byte) \<Rightarrow> 'd bdb \<Rightarrow> nat \<Rightarrow> (u64 \<times> byte list) list" where
  "bucket_objects E medium s bid = map object_of (keep (bucket_log E medium s bid))"

text \<open>The live objects of a store, in the order \<open>iterate\<close> reports them.\<close>

definition objects :: "'d env \<Rightarrow> ('d \<Rightarrow> nat \<Rightarrow> byte) \<Rightarrow> 'd bdb \<Rightarrow> (u64 \<times> byte list) list" where
  "objects E medium s = concat (map (bucket_objects E medium s) [0..<n_buckets s])"

lemma visit_append:
  "visit cb (xs @ ys) u = (let (r, u') = visit cb xs u in if r \<noteq> 0 then (r, u') else visit cb ys u')"
  by (induction xs arbitrary: u) (auto simp: Let_def split: prod.splits)

lemma visit_count: "visit count_visitor xs n = (0, n + length xs)"
  by (induction xs arbitrary: n) (simp_all add: count_visitor_def)

lemma for_each_live_slot_visits:
  "for_each_live_slot B pz wa buf off cb u = visit cb (map object_of (keep (entries B pz wa buf off))) u"
proof (induction off arbitrary: u rule: walk_induct [where B = B and pz = pz and wa = wa and buf = buf])
  case (stop off)
  then show ?case by (simp add: for_each_live_slot.simps [of B pz wa buf off] entries_walk)
next
  case (step off sv i)
  have "entries B pz wa buf off = entry_at buf (off, sv, i) # entries B pz wa buf (off + sv_total_size sv)"
    using step(1) by (simp add: entries_walk)
  then show ?case
    using step
    by (auto simp: for_each_live_slot.simps [of B pz wa buf off] slot_superseded_def superseded_newest
        tomb_def entry_at_def object_of_def split: prod.splits)
qed

lemma live_objects:
  "distinct (map e_id es) \<Longrightarrow> (\<And>e. e \<in> set es \<Longrightarrow> e_intact e \<and> \<not> tomb e) \<Longrightarrow>
   map_of (map object_of es) = live es"
proof (induction es)
  case Nil
  then show ?case by simp
next
  case (Cons e es)
  have "newest es (e_id e) = None" using Cons.prems(1) by (auto simp: newest_None_iff intro: rev_image_eqI)
  moreover have "e_intact e" "\<not> tomb e" using Cons.prems(2) by simp_all
  moreover have "map_of (map object_of es) = live es" using Cons by simp
  moreover have "object_of e = (e_id e, e_payload e)" by (simp add: object_of_def)
  ultimately show ?case
    by (auto simp: fun_eq_iff live_def split: option.splits)
qed

lemma map_of_bucket_objects: "map_of (bucket_objects E medium s bid) = live (bucket_log E medium s bid)"
  using live_objects [OF keep_distinct keep_intact] by (simp add: bucket_objects_def live_keep)

lemma bucket_objects_ids: "map fst (bucket_objects E medium s bid) = map e_id (keep (bucket_log E medium s bid))"
  by (simp add: bucket_objects_def object_of_def o_def)

lemma bucket_objects_homed:
  assumes "db_inv E medium peb s" "bid < n_buckets s" "(x, p) \<in> set (bucket_objects E medium s bid)"
  shows "x \<noteq> 0 \<and> id_to_bucket s x = bid"
proof -
  have "homed s bid (bucket_log E medium s bid)" using assms by (simp add: db_inv_def bucket_ok_def)
  then show ?thesis
    using assms(3) keep_subset keep_intact
    by (fastforce simp: bucket_objects_def object_of_def homed_def)
qed

text \<open>The enumeration has every live object once.\<close>

lemma objects_distinct:
  assumes inv: "db_inv E medium peb s"
  shows "distinct (map fst (objects E medium s))"
proof -
  have "distinct (map fst (concat (map (bucket_objects E medium s) [0..<n])))" if "n \<le> n_buckets s" for n
    using that
  proof (induction n)
    case 0
    then show ?case by simp
  next
    case (Suc n)
    have "x \<noteq> y" if "(x, p) \<in> set (bucket_objects E medium s b)" "b < n"
      "(y, q) \<in> set (bucket_objects E medium s n)" for x p y q b
      using bucket_objects_homed [OF inv _ that(1)] bucket_objects_homed [OF inv _ that(3)] that(2) Suc.prems
      by auto
    then have "fst ` set (concat (map (bucket_objects E medium s) [0..<n])) \<inter>
        fst ` set (bucket_objects E medium s n) = {}" by fastforce
    moreover have "distinct (map fst (bucket_objects E medium s n))"
      using keep_distinct by (simp add: bucket_objects_ids)
    ultimately show ?case using Suc by simp
  qed
  then show ?thesis by (simp add: objects_def)
qed

lemma objects_map:
  assumes inv: "db_inv E medium peb s"
  shows "map_of (objects E medium s) = blob_map E medium s"
proof (rule ext)
  fix x
  have "map_of (objects E medium s) x = Some p \<longleftrightarrow> blob_map E medium s x = Some p" for p
  proof -
    have "map_of (objects E medium s) x = Some p \<longleftrightarrow> (x, p) \<in> set (objects E medium s)"
      by (rule map_of_eq_Some_iff [OF objects_distinct [OF inv]])
    also have "\<dots> \<longleftrightarrow> (\<exists>b < n_buckets s. live (bucket_log E medium s b) x = Some p)"
      using map_of_eq_Some_iff [of "bucket_objects E medium s b" x p for b] keep_distinct
      by (auto simp: objects_def bucket_objects_ids map_of_bucket_objects)
    also have "\<dots> \<longleftrightarrow> blob_map E medium s x = Some p"
    proof
      assume "\<exists>b < n_buckets s. live (bucket_log E medium s b) x = Some p"
      then obtain b where b: "b < n_buckets s" "live (bucket_log E medium s b) x = Some p" by blast
      then have "homed s b (bucket_log E medium s b)" using inv by (simp add: db_inv_def bucket_ok_def)
      from homed_live [OF this b(2)] b show "blob_map E medium s x = Some p" by (simp add: blob_map_def)
    next
      assume "blob_map E medium s x = Some p"
      moreover have "id_to_bucket s x < n_buckets s" using inv geom_n_buckets by (auto simp: db_inv_def)
      ultimately show "\<exists>b < n_buckets s. live (bucket_log E medium s b) x = Some p"
        by (auto simp: blob_map_def split: if_splits)
    qed
    finally show ?thesis .
  qed
  then show "map_of (objects E medium s) x = blob_map E medium s x"
    by (metis not_Some_eq)
qed

lemma card_blob_map:
  assumes inv: "db_inv E medium peb s"
  shows "card (dom (blob_map E medium s)) = length (objects E medium s)"
proof -
  have "dom (blob_map E medium s) = set (map fst (objects E medium s))"
    using objects_map [OF inv] dom_map_of_conv_image_fst [of "objects E medium s"] by simp
  then show ?thesis using distinct_card [OF objects_distinct [OF inv]] by simp
qed

context blob_env
begin

lemma read_bucket_progress: "reads_ok E s bid \<Longrightarrow> read_bucket E s bid = Inr (bucket_img medium s bid)"
proof -
  assume ok: "reads_ok E s bid"
  have "0 + peb_size s \<le> peb_size s" by simp
  with ok obtain bs where "store_read E s (bucket_offset s bid + 0) (peb_size s) = Inr bs"
    unfolding reads_ok_def by blast
  with read_img [of s bid 0 "peb_size s" bs] show ?thesis by (simp add: read_bucket_def field_def)
qed

lemma count_buckets_spec:
  "(\<And>b. b \<in> set bids \<Longrightarrow> reads_ok E s b) \<Longrightarrow>
   count_buckets E s bids n = n + length (concat (map (bucket_objects E medium s) bids))"
proof (induction bids arbitrary: n)
  case Nil
  then show ?case by simp
next
  case (Cons b bids)
  have "read_bucket E s b = Inr (bucket_img medium s b)" using Cons.prems read_bucket_progress by simp
  with Cons show ?case
    by (simp add: for_each_live_slot_visits visit_count bucket_objects_def bucket_log_def
        BLOB_DB_BUCKET_DATA_OFF_def)
qed

lemma iterate_buckets_spec:
  "(\<And>b. b \<in> set bids \<Longrightarrow> reads_ok E s b \<and> \<not> ends_foreign E medium s b) \<Longrightarrow>
   iterate_buckets E s bids cb u =
     (let (r, u') = visit cb (concat (map (bucket_objects E medium s) bids)) u in (Inr r, u'))"
proof (induction bids arbitrary: u)
  case Nil
  then show ?case by simp
next
  case (Cons b bids)
  have "read_bucket E s b = Inr (bucket_img medium s b)" using Cons.prems read_bucket_progress by simp
  with Cons show ?case
    by (auto simp: for_each_live_slot_visits visit_append bucket_objects_def bucket_log_def
        BLOB_DB_BUCKET_DATA_OFF_def ends_foreign_def split: prod.splits)
qed

end

end
