(* ===== verification/Blob_Progress.thy ===== *)
theory Blob_Progress
  imports Blob_Refine
begin

text \<open>
  Progress: on a store whose calls succeed, an operation that has the room it needs succeeds.
  The write unit must divide the 16 bytes of a bucket header: every slot then starts and ends on
  a write-unit boundary, which is what the device requires of a write.
\<close>

section \<open>Sizes and alignment of a log\<close>

lemma slot_foreign_at_cong:
  "drop off xs = drop off ys \<Longrightarrow> slot_foreign_at B pz wa xs off = slot_foreign_at B pz wa ys off"
  by (simp add: slot_foreign_at_def field_cong [of off xs ys] Let_def)

definition log_bytes :: "nat \<Rightarrow> entry list \<Rightarrow> nat" where
  "log_bytes wa es = (\<Sum>e \<leftarrow> es. slot_size_for wa (length (e_payload e)))"

text \<open>Bytes a bucket needs for its live objects, header included.\<close>

definition live_bytes :: "'d env \<Rightarrow> ('d \<Rightarrow> nat \<Rightarrow> byte) \<Rightarrow> 'd bdb \<Rightarrow> nat \<Rightarrow> nat" where
  "live_bytes E medium s bid =
     BLOB_DB_BUCKET_DATA_OFF + log_bytes (write_align s) (keep (bucket_log E medium s bid))"

lemma slot_size_for_dvd: "2 ^ k dvd slot_size_for (2 ^ k) n"
  by (simp add: slot_size_for_def Let_def round_up_dvd)

lemma log_end_bytes:
  "length buf = pz \<Longrightarrow> log_end B pz wa buf off = off + log_bytes wa (entries B pz wa buf off)"
proof (induction off rule: walk_induct [where B = B and pz = pz and wa = wa and buf = buf])
  case (stop off)
  then show ?case by (simp add: log_end_walk entries_walk log_bytes_def)
next
  case (step off sv i)
  have "off + 14 + sv_val_len sv \<le> pz" by (rule slot_walk_at_head(5) [OF step(1,3)])
  moreover have "sv_total_size sv = slot_size_for wa (sv_val_len sv)"
    using step(1) by (auto simp: slot_walk_at_def Let_def split: if_splits)
  ultimately show ?case
    using step by (simp add: log_end_walk entries_walk log_bytes_def entry_at_def)
qed

lemma log_bytes_dvd: "2 ^ k dvd log_bytes (2 ^ k) es"
  by (induction es) (auto simp: log_bytes_def slot_size_for_dvd)

lemma log_is_bytes: "log_is E s bid img es c \<Longrightarrow> c = 16 + log_bytes (write_align s) es"
  using log_end_bytes [of img "peb_size s" "bld E" "write_align s" 16] by (auto simp: log_is_def)

lemma log_is_not_foreign:
  assumes "log_is E s bid img es c"
  shows "\<not> slot_foreign_at (bld E) (peb_size s) (write_align s) img c"
    and "\<not> torn_at (bld E) (peb_size s) (write_align s) img c"
proof -
  have "img ! c = 0xff" if "c + BLOB_DB_SLOT_OVERHEAD \<le> peb_size s"
    using assms that by (auto simp: log_is_def BLOB_DB_SLOT_OVERHEAD_def intro: all_erased_drop_nth [OF _ order_refl])
  then show "\<not> slot_foreign_at (bld E) (peb_size s) (write_align s) img c"
    "\<not> torn_at (bld E) (peb_size s) (write_align s) img c"
    using assms
    by (auto simp: torn_at_def slot_foreign_at_def slot_foreign_head_def slot_hdr_of_def Let_def
        log_is_def BLOB_DB_SLOT_OVERHEAD_def)
qed

lemma log_is_cursor:
  assumes "log_is E s bid img es c" "scan_ends E s img sc"
  shows "confirm_cursor s sc = Inr c"
  using assms log_is_not_foreign [OF assms(1)] by (simp add: scan_ends_def log_is_def confirm_cursor_def Let_def)

section \<open>A working device\<close>

definition device_ok ::
  "('d \<Rightarrow> bool) \<Rightarrow> ('d \<Rightarrow> nat) \<Rightarrow> ('d \<Rightarrow> nat) \<Rightarrow> 'd bdb \<Rightarrow> bool" where
  "device_ok good dsize wu s \<longleftrightarrow>
     good (dev s) \<and> wu (dev s) = write_align s \<and> write_align s dvd 16 \<and>
     write_align s dvd peb_size s \<and> (BLOB_DB_FIRST_BUCKET + n_buckets s) * peb_size s \<le> dsize (dev s)"

text \<open>What compaction may drop after the log: nothing a newer build wrote, and no more than one torn
  append.\<close>

definition tail_droppable :: "'d env \<Rightarrow> ('d \<Rightarrow> nat \<Rightarrow> byte) \<Rightarrow> 'd bdb \<Rightarrow> nat \<Rightarrow> bool" where
  "tail_droppable E medium s bid \<longleftrightarrow>
     \<not> ends_foreign E medium s bid \<and>
     (let img = bucket_img medium s bid; c = log_end (bld E) (peb_size s) (write_align s) img 16 in
      bucket_hdr_valid (bld E) img bid \<longrightarrow>
        all_erased (drop (c + slot_size_for (write_align s) (MAX_PAYLOAD_LEN (bld E))) img))"

lemma clean_log_droppable:
  assumes "clean_log E medium s bid"
  shows "tail_droppable E medium s bid" "\<not> ends_foreign E medium s bid"
proof -
  from assms obtain es c where l: "log_is E s bid (bucket_img medium s bid) es c" by (auto simp: clean_log_def)
  then show "\<not> ends_foreign E medium s bid"
    using log_is_not_foreign(1) [OF l]
    by (simp add: ends_foreign_def bucket_image_ends_foreign_def log_is_def BLOB_DB_BUCKET_DATA_OFF_def)
  with l show "tail_droppable E medium s bid"
    by (auto simp: tail_droppable_def log_is_def Let_def intro: all_erased_drop_mono)
qed

lemma unformatted_droppable:
  "\<not> bucket_hdr_valid (bld E) (bucket_img medium s bid) bid \<Longrightarrow>
   tail_droppable E medium s bid \<and> \<not> ends_foreign E medium s bid"
  by (simp add: tail_droppable_def ends_foreign_def)

lemma live_formatted:
  "blob_map E medium s x = Some p \<Longrightarrow>
   x \<noteq> 0 \<and> bucket_hdr_valid (bld E) (bucket_img medium s (id_to_bucket s x)) (id_to_bucket s x)"
  by (auto simp: blob_map_def bucket_log_def split: if_splits)

locale working_env = blob_env E medium peb + working_store "sto E" medium peb good dsize wu
  for E :: "'d env" and medium peb good dsize wu
begin

lemma device_ok_step:
  assumes "device_ok good dsize wu s" "touches medium peb P s s'" "good (dev s')"
    "dsize (dev s') = dsize (dev s)" "wu (dev s') = wu (dev s)"
  shows "device_ok good dsize wu s'"
  using assms touchesD [OF assms(2)] by (simp add: device_ok_def)

lemma peb_fits:
  assumes "device_ok good dsize wu s" "p < BLOB_DB_FIRST_BUCKET + n_buckets s" "k \<le> peb_size s"
  shows "peb_offset s p + k \<le> dsize (dev s)"
proof -
  have "p * peb_size s + peb_size s \<le> (BLOB_DB_FIRST_BUCKET + n_buckets s) * peb_size s"
    using mult_le_mono1 [of "Suc p" "BLOB_DB_FIRST_BUCKET + n_buckets s" "peb_size s"] assms(2) by simp
  with assms show ?thesis by (simp add: device_ok_def peb_offset_def)
qed

lemma device_reads_ok: "device_ok good dsize wu s \<Longrightarrow> bid < n_buckets s \<Longrightarrow> reads_ok E s bid"
  using peb_fits [of s "BLOB_DB_FIRST_BUCKET + bid"] read_works [of "dev s"]
  by (auto simp: reads_ok_def store_read_def bucket_offset_def device_ok_def add.assoc)

lemma store_write_works:
  assumes d: "device_ok good dsize wu s" and p: "p < BLOB_DB_FIRST_BUCKET + n_buckets s"
    and fit: "k + length buf \<le> peb_size s" and al: "write_align s dvd k" "write_align s dvd length buf"
  shows "\<exists>s'. store_write E s (peb_offset s p + k) buf = (Inr (), s') \<and> device_ok good dsize wu s' \<and>
    touches medium peb {p} s s'"
proof -
  have "peb_offset s p + k + length buf \<le> dsize (dev s)" using peb_fits [OF d p fit] by (simp add: add.assoc)
  moreover have "wu (dev s) dvd peb_offset s p + k" "wu (dev s) dvd length buf"
    using d al by (simp_all add: device_ok_def peb_offset_def)
  ultimately obtain d' where w: "blob_db_store_write (sto E) (dev s) (peb_offset s p + k) buf = (Inr (), d')"
    and d': "good d'" "dsize d' = dsize (dev s)" "wu d' = wu (dev s)"
    using write_works [of "dev s"] d by (auto simp: device_ok_def)
  then have w': "store_write E s (peb_offset s p + k) buf = (Inr (), s\<lparr>dev := d'\<rparr>)"
    by (simp add: store_write_def)
  note t = store_write_touches [OF w' fit]
  from device_ok_step [OF d t] d' w' t show ?thesis by simp
qed

lemma store_erase_works:
  assumes d: "device_ok good dsize wu s" and p: "p < BLOB_DB_FIRST_BUCKET + n_buckets s"
    and pz: "peb_size s = peb (dev s)"
  shows "\<exists>s'. store_erase E s (peb_offset s p) (peb_size s) = (Inr (), s') \<and> device_ok good dsize wu s' \<and>
    touches medium peb {p} s s'"
proof -
  obtain d' where w: "blob_db_store_erase (sto E) (dev s) (peb_offset s p) (peb_size s) = (Inr (), d')"
    and d': "good d'" "dsize d' = dsize (dev s)" "wu d' = wu (dev s)"
    using erase_works [of "dev s" "peb_offset s p" "peb_size s"] peb_fits [OF d p order_refl] d pz
    by (auto simp: device_ok_def peb_offset_def)
  then have w': "store_erase E s (peb_offset s p) (peb_size s) = (Inr (), s\<lparr>dev := d'\<rparr>)"
    by (simp add: store_erase_def)
  note t = store_erase_touches [OF w']
  from device_ok_step [OF d t] d' w' t show ?thesis by simp
qed

lemma store_replace_works:
  assumes d: "device_ok good dsize wu s" and p: "p < BLOB_DB_FIRST_BUCKET + n_buckets s"
    and pz: "peb_size s = peb (dev s)" and fit: "length buf \<le> peb_size s" and al: "write_align s dvd length buf"
  shows "\<exists>s'. store_replace E s (peb_offset s p) buf = (Inr (), s') \<and> device_ok good dsize wu s' \<and>
    touches medium peb {p} s s'"
proof -
  have "peb (dev s) dvd peb_offset s p" "wu (dev s) dvd peb_offset s p"
    using d pz by (simp_all add: device_ok_def peb_offset_def)
  then obtain d' where w: "blob_db_store_replace (sto E) (dev s) (peb_offset s p) buf = (Inr (), d')"
    and d': "good d'" "dsize d' = dsize (dev s)" "wu d' = wu (dev s)"
    using replace_works [of "dev s" "peb_offset s p" buf] peb_fits [OF d p order_refl] d pz fit al
    by (auto simp: device_ok_def)
  then have w': "store_replace E s (peb_offset s p) buf = (Inr (), s\<lparr>dev := d'\<rparr>)"
    by (simp add: store_replace_def)
  note t = store_replace_touches [OF w' pz fit]
  from device_ok_step [OF d t] d' w' t show ?thesis by simp
qed

lemma bucket_lt: "geom_ok (bld E) peb s \<Longrightarrow> bid < n_buckets s \<Longrightarrow>
  BLOB_DB_FIRST_BUCKET + bid < BLOB_DB_FIRST_BUCKET + n_buckets s \<and> BLOB_DB_SCRATCH_SECTOR < BLOB_DB_FIRST_BUCKET + n_buckets s"
  by (simp add: BLOB_DB_SCRATCH_SECTOR_def BLOB_DB_FIRST_BUCKET_def)

lemma format_bucket_works:
  assumes "device_ok good dsize wu s" "geom_ok (bld E) peb s" "bid < n_buckets s"
  shows "\<exists>s'. format_bucket E s bid = (Inr (), s') \<and> device_ok good dsize wu s'"
  using store_replace_works [OF assms(1), of "BLOB_DB_FIRST_BUCKET + bid" "bucket_hdr_bytes (bld E) bid 1"]
    assms by (auto simp: format_bucket_def bucket_offset_def geom_ok_def device_ok_def)

lemma append_slot_works:
  assumes d: "device_ok good dsize wu s" and g: "geom_ok (bld E) peb s" and bid: "bid < n_buckets s"
    and lp: "length p \<le> MAX_PAYLOAD_LEN (bld E)" and al: "write_align s dvd c"
    and fit: "c + slot_size_for (write_align s) (length p) \<le> peb_size s"
  shows "\<exists>s'. append_slot E s bid c x ex p = (Inr (), s') \<and> device_ok good dsize wu s'"
proof -
  obtain k where "write_align s = 2 ^ k" using g by (auto simp: geom_ok_def)
  then have "write_align s dvd slot_size_for (write_align s) (length p)" using slot_size_for_dvd by metis
  then show ?thesis
    using store_write_works [OF d, of "BLOB_DB_FIRST_BUCKET + bid" c "slot_bytes (bld E) (write_align s) x ex p"]
      bid fit al lp g
    by (auto simp: append_slot_def bucket_offset_def geom_ok_def)
qed

lemma seal_aligned:
  assumes "geom_ok (bld E) peb s"
  shows "write_align s dvd scratch_seal_len s" "scratch_seal_off s + scratch_seal_len s = peb_size s"
proof -
  obtain k where "write_align s = 2 ^ k" using assms by (auto simp: geom_ok_def)
  then show "write_align s dvd scratch_seal_len s" by (simp add: scratch_seal_len_def round_up_dvd)
  show "scratch_seal_off s + scratch_seal_len s = peb_size s"
    using scratch_seal_fits [OF assms] by (simp add: scratch_seal_off_def)
qed

lemma scratch_seal_write_works:
  assumes d: "device_ok good dsize wu s" and g: "geom_ok (bld E) peb s"
    and p: "p < BLOB_DB_FIRST_BUCKET + n_buckets s"
  shows "\<exists>s'. scratch_seal_write E s (peb_offset s p) img = (Inr (), s') \<and> device_ok good dsize wu s' \<and>
    touches medium peb {p} s s'"
proof -
  let ?buf = "seal_bytes (bld E) img @ replicate (scratch_seal_len s - 16) 0xff"
  note sl = seal_aligned [OF g]
  have len: "length ?buf = scratch_seal_len s" using scratch_seal_len_ge [of s] by simp
  moreover have "write_align s dvd scratch_seal_off s + scratch_seal_len s"
    using d sl(2) by (simp add: device_ok_def)
  then have "write_align s dvd scratch_seal_off s" using sl(1) by (simp add: dvd_add_left_iff)
  ultimately show ?thesis
    using store_write_works [OF d p, of "scratch_seal_off s" ?buf] sl
    by (simp add: scratch_seal_write_def add.assoc)
qed

lemma compact_commit_works:
  assumes d: "device_ok good dsize wu s" and g: "geom_ok (bld E) peb s" and bid: "bid < n_buckets s"
    and len: "length buf = peb_size s" and n: "n \<le> scratch_seal_off s" and al: "write_align s dvd n"
  shows "\<exists>s'. compact_commit E s bid buf n = (Inr (), s') \<and> device_ok good dsize wu s'"
proof (cases "blob_db_store_replace_is_atomic (sto E)")
  case True
  have "length (take n buf) = n" "n \<le> peb_size s" using n len by (simp_all add: scratch_seal_off_def)
  then obtain s' where "store_replace E s (peb_offset s (BLOB_DB_FIRST_BUCKET + bid)) (take n buf) = (Inr (), s')"
    "device_ok good dsize wu s'"
    using store_replace_works [OF d, of "BLOB_DB_FIRST_BUCKET + bid" "take n buf"] g bid al
    by (auto simp: geom_ok_def)
  then show ?thesis using True n by (simp add: compact_commit_def Let_def bucket_offset_def)
next
  case False
  let ?sc = "BLOB_DB_SCRATCH_SECTOR" and ?p = "BLOB_DB_FIRST_BUCKET + bid" and ?img = "take n buf"
  have img: "length ?img = n" "n \<le> peb_size s" using n len by (simp_all add: scratch_seal_off_def)
  have pz: "peb_size s = peb (dev s)" using g by (simp add: geom_ok_def)
  have lt: "?p < BLOB_DB_FIRST_BUCKET + n_buckets s" "?sc < BLOB_DB_FIRST_BUCKET + n_buckets s"
    using bucket_lt [OF g bid] by blast+
  obtain s1 where 1: "store_erase E s (peb_offset s ?sc) (peb_size s) = (Inr (), s1)"
    and d1: "device_ok good dsize wu s1" and t1: "touches medium peb {?sc} s s1"
    using store_erase_works [OF d lt(2) pz] by blast
  note D1 = touchesD [OF t1] touches_peb [OF t1]
  obtain s2 where 2: "store_write E s1 (peb_offset s1 ?sc + 0) ?img = (Inr (), s2)"
    and d2: "device_ok good dsize wu s2" and t2: "touches medium peb {?sc} s1 s2"
    using store_write_works [OF d1, of ?sc 0 ?img] lt img al D1 by auto
  note D2 = touchesD [OF t2] touches_peb [OF t2]
  obtain s3 where 3: "scratch_seal_write E s2 (peb_offset s2 ?sc) ?img = (Inr (), s3)"
    and d3: "device_ok good dsize wu s3" and t3: "touches medium peb {?sc} s2 s3"
    using scratch_seal_write_works [OF d2, of ?sc ?img] lt g D1 D2 by auto
  note D3 = touchesD [OF t3] touches_peb [OF t3]
  obtain s4 where 4: "store_erase E s3 (peb_offset s3 ?p) (peb_size s3) = (Inr (), s4)"
    and d4: "device_ok good dsize wu s4" and t4: "touches medium peb {?p} s3 s4"
    using store_erase_works [OF d3, of ?p] lt pz D1 D2 D3 by auto
  note D4 = touchesD [OF t4] touches_peb [OF t4]
  obtain s5 where 5: "store_write E s4 (peb_offset s4 ?p + 0) ?img = (Inr (), s5)"
    and d5: "device_ok good dsize wu s5" and t5: "touches medium peb {?p} s4 s5"
    using store_write_works [OF d4, of ?p 0 ?img] lt img al D1 D2 D3 D4 by auto
  note D5 = touchesD [OF t5] touches_peb [OF t5]
  obtain s6 where 6: "store_erase E s5 (peb_offset s5 ?sc) (peb_size s5) = (Inr (), s6)"
    and d6: "device_ok good dsize wu s6"
    using store_erase_works [OF d5, of ?sc] lt pz D1 D2 D3 D4 D5 by auto
  have "compact_commit E s bid buf n = (Inr (), s6)"
    using 1 2 3 4 5 6 False n D1 D2 D3 D4 D5
    by (simp add: compact_commit_def Let_def bucket_offset_def or_wedge_def)
  with d6 show ?thesis by blast
qed

lemma compact_bucket_commits:
  assumes rd: "reads_ok E s bid" and g: "geom_ok (bld E) peb s" and bid: "bid < n_buckets s"
    and hv: "bucket_hdr_valid (bld E) (bucket_img medium s bid) bid"
    and drp: "tail_droppable E medium s bid"
  shows "\<exists>buf n stop. build_compacted_image (bld E) (peb_size s) (write_align s) (bucket_img medium s bid) bid =
      (buf, n, stop) \<and> length buf = peb_size s \<and> n = live_bytes E medium s bid \<and> n \<le> peb_size s \<and>
    bucket_hdr_valid (bld E) (take n buf) bid \<and> compact_bucket E s bid = compact_commit E s bid buf n"
proof -
  let ?B = "bld E" and ?pz = "peb_size s" and ?wa = "write_align s" and ?img = "bucket_img medium s bid"
  obtain buf n stop where b: "build_compacted_image ?B ?pz ?wa ?img bid = (buf, n, stop)"
    using prod_cases3 by blast
  have "length ?img = ?pz" "bid < 2 ^ 16" "16 \<le> ?pz" using geom_bid [OF g bid] by simp_all
  note sp = build_compacted_image_spec [OF b this(1,3,2)]
  have "length (compacted_block ?pz buf n) = ?pz" using sp by (simp add: compacted_block_def)
  then have n: "n = live_bytes E medium s bid"
    using log_end_bytes [of "compacted_block ?pz buf n" ?pz ?B ?wa 16] sp hv
    by (simp add: bucket_log_def live_bytes_def BLOB_DB_BUCKET_DATA_OFF_def)
  have "\<not> slot_foreign_at ?B ?pz ?wa buf stop"
    using drp hv sp slot_foreign_at_cong [OF sp(6)]
    by (simp add: tail_droppable_def ends_foreign_def bucket_image_ends_foreign_def BLOB_DB_BUCKET_DATA_OFF_def)
  moreover have "all_erased (drop (stop + slot_size_for ?wa (MAX_PAYLOAD_LEN ?B)) (take ?pz buf))"
    using drp hv sp(1,5) drop_mono_eq [OF sp(6), of "stop + slot_size_for ?wa (MAX_PAYLOAD_LEN ?B)"]
    by (simp add: tail_droppable_def Let_def)
  ultimately have "compaction_may_drop_tail ?B ?pz ?wa buf stop = Inr ()"
    by (simp add: compaction_may_drop_tail_def)
  then have "compact_bucket E s bid = compact_commit E s bid buf n"
    using read_bucket_progress [OF rd] hv b by (simp add: compact_bucket_def)
  moreover have "bucket_hdr_valid ?B (take n buf) bid"
    using sp(2,7) sp(1,3,4) bucket_hdr_valid_take [of "take n buf" "compacted_block ?pz buf n"]
    by (simp add: compacted_block_def)
  ultimately show ?thesis using b sp n by auto
qed

lemma compact_bucket_works:
  assumes d: "device_ok good dsize wu s" and g: "geom_ok (bld E) peb s" and bid: "bid < n_buckets s"
    and hv: "bucket_hdr_valid (bld E) (bucket_img medium s bid) bid"
    and drp: "tail_droppable E medium s bid" and fit: "live_bytes E medium s bid \<le> scratch_seal_off s"
  shows "\<exists>s'. compact_bucket E s bid = (Inr (), s') \<and> device_ok good dsize wu s'"
proof -
  obtain buf n stop where c: "length buf = peb_size s" "n = live_bytes E medium s bid"
    "compact_bucket E s bid = compact_commit E s bid buf n"
    using compact_bucket_commits [OF device_reads_ok [OF d bid] g bid hv drp] by blast
  obtain k where k: "write_align s = 2 ^ k" using g by (auto simp: geom_ok_def)
  have "write_align s dvd n"
    using c(2) log_bytes_dvd [of k] k d
    by (simp add: device_ok_def live_bytes_def BLOB_DB_BUCKET_DATA_OFF_def dvd_add)
  then show ?thesis using compact_commit_works [OF d g bid c(1)] c fit by simp
qed

section \<open>Update succeeds\<close>

lemma cursor_progress:
  assumes "reads_ok E s bid"
  shows "\<exists>sc. bucket_cursor E s bid x = Inr sc \<and> scan_ends E s (bucket_img medium s bid) sc"
  using scan_from_progress [OF assms] bucket_cursor_ends
  by (metis bucket_cursor_def scan_bucket_for_def)

lemma update_cursor_works:
  assumes d: "device_ok good dsize wu s" and g: "geom_ok (bld E) peb s" and bid: "bid < n_buckets s"
    and drp: "tail_droppable E medium s bid"
  shows "\<exists>c0 t. update_cursor E s bid x (bucket_hdr_valid (bld E) (bucket_img medium s bid) bid) = (Inr c0, t) \<and>
    device_ok good dsize wu t \<and>
    (if bucket_hdr_valid (bld E) (bucket_img medium s bid) bid then t = s else c0 = 16)"
proof (cases "bucket_hdr_valid (bld E) (bucket_img medium s bid) bid")
  case False
  with format_bucket_works [OF d g bid] show ?thesis
    by (auto simp: update_cursor_def BLOB_DB_BUCKET_DATA_OFF_def)
next
  case True
  obtain sc where "bucket_cursor E s bid x = Inr sc" "scan_ends E s (bucket_img medium s bid) sc"
    using cursor_progress [OF device_reads_ok [OF d bid]] by blast
  moreover have "\<not> foreign sc"
    using calculation(2) drp True
    by (simp add: scan_ends_def tail_droppable_def ends_foreign_def bucket_image_ends_foreign_def
        BLOB_DB_BUCKET_DATA_OFF_def Let_def)
  ultimately show ?thesis using d True by (auto simp: update_cursor_def confirm_cursor_def)
qed

lemma update_make_room_works:
  assumes d: "device_ok good dsize wu s" and g: "geom_ok (bld E) peb s" and bid: "bid < n_buckets s"
    and hv: "bucket_hdr_valid (bld E) (bucket_img medium s bid) bid"
    and drp: "tail_droppable E medium s bid" and fit: "live_bytes E medium s bid \<le> scratch_seal_off s"
      "live_bytes E medium s bid + ssz \<le> peb_size s"
  shows "\<exists>c u. update_make_room E s bid x ssz c0 = (Inr c, u) \<and> device_ok good dsize wu u"
proof (cases "c0 + ssz > peb_size s")
  case False
  with d show ?thesis by (simp add: update_make_room_def)
next
  case True
  obtain u where c: "compact_bucket E s bid = (Inr (), u)" and du: "device_ok good dsize wu u"
    using compact_bucket_works [OF d g bid hv drp fit(1)] by blast
  obtain k where t: "touches medium peb (one_bucket bid) s u"
    and k: "log_is E s bid (bucket_img medium u bid) (keep (bucket_log E medium s bid)) k"
    using compact_bucket_spec [OF c g bid] hv by (auto simp: one_bucket_def bucket_log_def)
  note D = touchesD [OF t]
  have ku: "log_is E u bid (bucket_img medium u bid) (keep (bucket_log E medium s bid)) k"
    using k D log_is_cong by metis
  have "k = live_bytes E medium s bid"
    using log_is_bytes [OF k] by (simp add: live_bytes_def BLOB_DB_BUCKET_DATA_OFF_def)
  moreover obtain sc where "bucket_cursor E u bid x = Inr sc" "scan_ends E u (bucket_img medium u bid) sc"
    using cursor_progress [OF device_reads_ok [OF du, of bid]] bid D(3) by metis
  ultimately show ?thesis
    using c du log_is_cursor [OF ku] fit(2) D True by (simp add: update_make_room_def)
qed

lemma update_impl_works:
  assumes d: "device_ok good dsize wu s" and inv: "db_inv E medium peb s"
    and st: "mounted s" "\<not> wedged s" and x: "x \<noteq> 0" "x < next_id s"
    and len: "len \<le> MAX_PAYLOAD_LEN (bld E)" "length bs = len"
    and drp: "tail_droppable E medium s (id_to_bucket s x)"
    and fit: "live_bytes E medium s (id_to_bucket s x) \<le> scratch_seal_off s"
      "live_bytes E medium s (id_to_bucket s x) + slot_size_for (write_align s) len \<le> peb_size s"
  shows "\<exists>s'. update_impl E s x (Some bs) len = (Inr (), s') \<and> device_ok good dsize wu s'"
proof -
  let ?bid = "id_to_bucket s x" and ?ssz = "slot_size_for (write_align s) len"
  let ?hv = "bucket_hdr_valid (bld E) (bucket_img medium s ?bid) ?bid"
  have g: "geom_ok (bld E) peb s" using inv by (simp add: db_inv_def)
  note bid = geom_n_buckets [OF g, of x]
  obtain c0 t where 1: "update_cursor E s ?bid x ?hv = (Inr c0, t)" and dt: "device_ok good dsize wu t"
    and tc: "if ?hv then t = s else c0 = 16" using update_cursor_works [OF d g bid drp] by blast
  have pt: "peb_size t = peb_size s"
  proof (cases ?hv)
    case False
    then have "format_bucket E s ?bid = (Inr (), t)" using 1 by (auto simp: update_cursor_def res_simps)
    from format_room(1) [OF this inv bid False] show ?thesis by (rule touchesD(1))
  qed (use tc in simp)
  have "\<exists>c u. update_make_room E t ?bid x ?ssz c0 = (Inr c, u) \<and> device_ok good dsize wu u"
  proof (cases ?hv)
    case True
    with tc update_make_room_works [OF d g bid True drp fit] show ?thesis by simp
  next
    case False
    then have "live_bytes E medium s ?bid = 16"
      by (simp add: live_bytes_def bucket_log_def log_bytes_def BLOB_DB_BUCKET_DATA_OFF_def)
    with False tc fit(2) pt dt show ?thesis by (simp add: update_make_room_def)
  qed
  then obtain c u where 2: "update_make_room E t ?bid x ?ssz c0 = (Inr c, u)"
    and du: "device_ok good dsize wu u" by blast
  have "room_for E medium peb s ?bid ?ssz u c" by (rule update_room [OF inv refl 1 2 refl])
  then obtain es where tu: "touches medium peb (one_bucket ?bid) s u" and cf: "c + ?ssz \<le> peb_size s"
    and l: "log_is E s ?bid (bucket_img medium u ?bid) es c" by (auto simp: room_for_def)
  note D = touchesD [OF tu]
  obtain k where k: "write_align s = 2 ^ k" using g by (auto simp: geom_ok_def)
  have "write_align u dvd c"
    using log_is_bytes [OF l] log_bytes_dvd [of k es] k d D by (simp add: device_ok_def dvd_add)
  moreover have cb: "c_bytes (Some bs) len = bs" using len by (simp add: c_bytes_def)
  ultimately obtain s' where 3: "append_slot E u ?bid c x 0 bs = (Inr (), s')" "device_ok good dsize wu s'"
    using append_slot_works [OF du, of ?bid bs c x 0] g bid len cf D by auto
  have "update_impl E s x (Some bs) len = (Inr (), s')"
    using 1 2 3 st x len read_bucket_hdr_progress [OF device_reads_ok [OF d bid] g] cb
    by (simp add: update_impl_def Let_def)
  with 3(2) show ?thesis by blast
qed

section \<open>Delete and write succeed\<close>

lemma find_live_progress:
  assumes ok: "reads_ok E s bid" and bid: "bid = id_to_bucket s x" and x: "x \<noteq> 0"
    and hv: "bucket_hdr_valid (bld E) (bucket_img medium s bid) bid"
    and nf: "\<not> ends_foreign E medium s bid" and p: "blob_map E medium s x = Some p"
  shows "\<exists>sc. find_live_slot E s bid x = Inr (sc, p) \<and> scan_ends E s (bucket_img medium s bid) sc \<and>
    target_flags sc AND BLOB_DB_SLOT_F_SEGMENT = 0"
proof (cases "find_live_slot E s bid x")
  case (Inl e)
  from find_live_slot_progress [OF ok Inl] find_live_slot_spec [of s bid x] Inl nf hv p bid x
  have False
    by (auto simp: lookup_answers_def Let_def ends_foreign_def bucket_image_ends_foreign_def
        BLOB_DB_BUCKET_DATA_OFF_def blob_map_def bucket_log_def live_def split: option.splits if_splits)
  then show ?thesis ..
next
  case (Inr r)
  obtain sc q where r: "r = (sc, q)" by (cases r)
  have "q = p" using found_live [OF Inr [unfolded r] bid x hv] p by simp
  moreover obtain toff sh where tg: "target sc = Some (toff, sh)"
    and fl: "flags (hdr sh) AND NOT BLOB_DB_SLOT_F_KNOWN = 0"
    using find_live_slot_spec [of s bid x] Inr r by (auto simp: lookup_answers_def Let_def)
  have "BLOB_DB_SLOT_F_SEGMENT = NOT BLOB_DB_SLOT_F_KNOWN AND BLOB_DB_SLOT_F_SEGMENT"
    by (simp add: BLOB_DB_SLOT_F_SEGMENT_def BLOB_DB_SLOT_F_KNOWN_def BLOB_DB_SLOT_F_SEALED_def
        BLOB_DB_SLOT_F_TOMBSTONE_def)
  then have "flags (hdr sh) AND BLOB_DB_SLOT_F_SEGMENT =
      (flags (hdr sh) AND NOT BLOB_DB_SLOT_F_KNOWN) AND BLOB_DB_SLOT_F_SEGMENT"
    by (metis and.assoc)
  then have "target_flags sc AND BLOB_DB_SLOT_F_SEGMENT = 0"
    using fl by (simp add: target_flags_def tg)
  ultimately show ?thesis using Inr r find_live_slot_ends [of s bid x sc q] by blast
qed

lemma ends_not_foreign:
  assumes "scan_ends E s (bucket_img medium s bid) sc"
    and "bucket_hdr_valid (bld E) (bucket_img medium s bid) bid" "\<not> ends_foreign E medium s bid"
  shows "\<exists>c. confirm_cursor s sc = Inr c"
  using assms
  by (auto simp: scan_ends_def ends_foreign_def bucket_image_ends_foreign_def confirm_cursor_def
      BLOB_DB_BUCKET_DATA_OFF_def Let_def)

lemma lookup_make_room_works:
  assumes d: "device_ok good dsize wu s" and g: "geom_ok (bld E) peb s" and x: "x \<noteq> 0"
    and bid: "bid = id_to_bucket s x" and p: "blob_map E medium s x = Some p"
    and hv: "bucket_hdr_valid (bld E) (bucket_img medium s bid) bid"
    and drp: "tail_droppable E medium s bid" and fit: "live_bytes E medium s bid \<le> scratch_seal_off s"
      "live_bytes E medium s bid + ssz \<le> peb_size s"
  shows "\<exists>c u. lookup_make_room E s bid x ssz c0 p = (Inr (c, p), u) \<and> device_ok good dsize wu u"
proof (cases "c0 + ssz > peb_size s")
  case False
  with d show ?thesis by (simp add: lookup_make_room_def)
next
  case True
  have bn: "bid < n_buckets s" using geom_n_buckets [OF g] bid by simp
  obtain u where c: "compact_bucket E s bid = (Inr (), u)" and du: "device_ok good dsize wu u"
    using compact_bucket_works [OF d g bn hv drp fit(1)] by blast
  obtain k where t: "touches medium peb (one_bucket bid) s u"
    and k: "log_is E s bid (bucket_img medium u bid) (keep (bucket_log E medium s bid)) k"
    using compact_bucket_spec [OF c g bn] hv by (auto simp: one_bucket_def bucket_log_def)
  note D = touchesD [OF t]
  have ku: "log_is E u bid (bucket_img medium u bid) (keep (bucket_log E medium s bid)) k"
    using k D log_is_cong by metis
  have kl: "k = live_bytes E medium s bid"
    using log_is_bytes [OF k] by (simp add: live_bytes_def BLOB_DB_BUCKET_DATA_OFF_def)
  have pu: "blob_map E medium u x = Some p"
    using log_is_bucket_log [OF t k] p x bid D by (simp add: blob_map_def live_keep)
  have "clean_log E medium u bid" using ku by (auto simp: clean_log_def)
  note nf = clean_log_droppable(2) [OF this]
  have hvu: "bucket_hdr_valid (bld E) (bucket_img medium u bid) bid" using ku by (simp add: log_is_def)
  have "reads_ok E u bid" using device_reads_ok [OF du] bn D(3) by metis
  moreover have "bid = id_to_bucket u x" using bid D by simp
  ultimately obtain sc where "find_live_slot E u bid x = Inr (sc, p)"
    "scan_ends E u (bucket_img medium u bid) sc"
    using find_live_progress [OF _ _ x hvu nf pu] by blast
  with c du log_is_cursor [OF ku] kl fit(2) D True show ?thesis by (simp add: lookup_make_room_def)
qed

text \<open>The part delete and write share: look the object up, make room, append.\<close>

lemma rewrite_works:
  assumes d: "device_ok good dsize wu s" and inv: "db_inv E medium peb s"
    and p: "blob_map E medium s x = Some p" and bid: "bid = id_to_bucket s x"
    and drp: "tail_droppable E medium s bid" and fit: "live_bytes E medium s bid \<le> scratch_seal_off s"
      "live_bytes E medium s bid + slot_size_for (write_align s) (length q) \<le> peb_size s"
    and q: "length q \<le> MAX_PAYLOAD_LEN (bld E)"
  shows "\<exists>sc c0 c u s'. read_bucket_hdr E s bid = Inr True \<and> find_live_slot E s bid x = Inr (sc, p) \<and>
    target_flags sc AND BLOB_DB_SLOT_F_SEGMENT = 0 \<and> confirm_cursor s sc = Inr c0 \<and>
    lookup_make_room E s bid x (slot_size_for (write_align s) (length q)) c0 p = (Inr (c, p), u) \<and>
    append_slot E u bid c x ex q = (Inr (), s') \<and> device_ok good dsize wu s'"
proof -
  let ?ssz = "slot_size_for (write_align s) (length q)"
  have g: "geom_ok (bld E) peb s" using inv by (simp add: db_inv_def)
  have bn: "bid < n_buckets s" using geom_n_buckets [OF g] bid by simp
  have x: "x \<noteq> 0" and hv: "bucket_hdr_valid (bld E) (bucket_img medium s bid) bid"
    using live_formatted [OF p] bid by auto
  note ok = device_reads_ok [OF d bn]
  have nf: "\<not> ends_foreign E medium s bid" using drp by (simp add: tail_droppable_def)
  obtain sc where fl: "find_live_slot E s bid x = Inr (sc, p)" "scan_ends E s (bucket_img medium s bid) sc"
    "target_flags sc AND BLOB_DB_SLOT_F_SEGMENT = 0"
    using find_live_progress [OF ok bid x hv nf p] by blast
  obtain c0 where c0: "confirm_cursor s sc = Inr c0" using ends_not_foreign [OF fl(2) hv nf] by blast
  obtain c u where m: "lookup_make_room E s bid x ?ssz c0 p = (Inr (c, p), u)" and du: "device_ok good dsize wu u"
    using lookup_make_room_works [OF d g x bid p hv drp fit] by blast
  have "room_for E medium peb s bid ?ssz u c" by (rule lookup_room(1) [OF inv bid x hv fl(1) c0 m refl])
  then obtain es where tu: "touches medium peb (one_bucket bid) s u" and cf: "c + ?ssz \<le> peb_size s"
    and l: "log_is E s bid (bucket_img medium u bid) es c" by (auto simp: room_for_def)
  note D = touchesD [OF tu]
  obtain k where k: "write_align s = 2 ^ k" using g by (auto simp: geom_ok_def)
  have "write_align u dvd c"
    using log_is_bytes [OF l] log_bytes_dvd [of k es] k d D by (simp add: device_ok_def dvd_add)
  then obtain s' where "append_slot E u bid c x ex q = (Inr (), s')" "device_ok good dsize wu s'"
    using append_slot_works [OF du, of bid q c x ex] g bn q cf D by auto
  then show ?thesis using read_bucket_hdr_progress [OF ok g] hv fl c0 m by auto
qed

lemma delete_impl_works:
  assumes "device_ok good dsize wu s" "db_inv E medium peb s" "mounted s" "\<not> wedged s"
    and "blob_map E medium s x = Some p" "tail_droppable E medium s (id_to_bucket s x)"
    and "live_bytes E medium s (id_to_bucket s x) \<le> scratch_seal_off s"
      "live_bytes E medium s (id_to_bucket s x) + slot_size_for (write_align s) 0 \<le> peb_size s"
  shows "\<exists>s'. delete_impl E s x = (Inr (), s') \<and> device_ok good dsize wu s'"
  using rewrite_works [OF assms(1,2,5) refl assms(6,7), of "[]" BLOB_DB_SLOT_F_TOMBSTONE]
    assms(3,4,8) live_formatted [OF assms(5)]
  by (auto simp: delete_impl_def Let_def)

lemma write_impl_works:
  fixes offset len :: u32
  assumes "device_ok good dsize wu s" "db_inv E medium peb s" "mounted s" "\<not> wedged s"
    and p: "blob_map E medium s x = Some p" and "tail_droppable E medium s (id_to_bucket s x)"
    and bs: "length bs = unat len" and nw: "unat offset + unat len < 2 ^ 32"
  defines "need \<equiv> max (unat offset + unat len) (length p)"
  assumes need: "need \<le> MAX_PAYLOAD_LEN (bld E)"
    and "live_bytes E medium s (id_to_bucket s x) \<le> scratch_seal_off s"
      "live_bytes E medium s (id_to_bucket s x) + slot_size_for (write_align s) need \<le> peb_size s"
  shows "\<exists>s'. write_impl E s x offset (Some bs) len = (Inr (), s') \<and> device_ok good dsize wu s'"
proof -
  let ?q = "write_staged p need (unat offset) bs"
  have q: "length ?q = need" by (rule length_write_staged) (simp_all add: bs need_def)
  have sum: "unat (offset + len) = unat offset + unat len"
    using nw by (simp add: unat_word_ariths)
  then have nwrap: "\<not> offset + len < offset" and nd: "max (unat (offset + len)) (length p) = need"
    by (simp_all add: word_less_nat_alt need_def)
  have cb: "c_bytes (Some bs) (unat len) = bs" by (simp add: c_bytes_def bs)
  obtain sc c0 c u s' where r: "read_bucket_hdr E s (id_to_bucket s x) = Inr True"
    "find_live_slot E s (id_to_bucket s x) x = Inr (sc, p)" "target_flags sc AND BLOB_DB_SLOT_F_SEGMENT = 0"
    "confirm_cursor s sc = Inr c0"
    "lookup_make_room E s (id_to_bucket s x) x (slot_size_for (write_align s) need) c0 p = (Inr (c, p), u)"
    "append_slot E u (id_to_bucket s x) c x 0 ?q = (Inr (), s')" "device_ok good dsize wu s'"
    using rewrite_works [OF assms(1,2) p refl assms(6,11), of ?q 0] assms(12) need q by auto
  have "x \<noteq> 0" using live_formatted [OF p] by blast
  then show ?thesis
    using r nwrap nd cb assms(1,3,4) need by (cases "len = 0") (simp_all add: write_impl_def Let_def)
qed

end

end
