(* ===== verification/Blob_Crash.thy ===== *)
theory Blob_Crash
  imports Blob_Progress
begin

text \<open>
  Crash consistency of blob_db's two writing patterns: the append of a slot, which is one write,
  and compaction, which erases and rewrites a bucket through the scratch sector. A power loss is
  a store call that does not complete: it leaves what \<open>torn_store\<close> allows and the code after it
  does not run, or the caller sees the error and stops.
\<close>

section \<open>A torn append\<close>

text \<open>An image with the first \<open>k\<close> bytes of a slot programmed at the end of the log, the next byte
  in any state, and erased flash after it.\<close>

definition torn_append :: "byte list \<Rightarrow> nat \<Rightarrow> byte list \<Rightarrow> nat \<Rightarrow> byte list \<Rightarrow> bool" where
  "torn_append img c bs k img' \<longleftrightarrow>
     length img' = length img \<and> take c img' = take c img \<and>
     (\<forall>i < min k (length bs). img' ! (c + i) = bs ! i) \<and>
     (\<forall>j. c + k < j \<longrightarrow> j < length img \<longrightarrow> img' ! j = 0xff)"

lemma torn_append_rest:
  "torn_append img c bs k img' \<Longrightarrow> c + k < a \<Longrightarrow> all_erased (drop a img')"
  by (auto simp: torn_append_def all_erased_nth)

lemma slot_bytes_first: "written_flags ex \<Longrightarrow> slot_bytes B wa x ex p ! 0 \<noteq> 0xff"
  by (auto simp: slot_bytes_def slot_hdr_bytes_def Let_def written_flags_def BLOB_DB_SLOT_F_SEALED_def
      BLOB_DB_SLOT_F_TOMBSTONE_def)

lemma torn_append_log:
  assumes t: "torn_append img c (slot_bytes (bld E) (write_align s) x ex p) k img'"
    and l: "log_is E s bid img es c" and ex: "written_flags ex"
    and lp: "length p \<le> MAX_PAYLOAD_LEN (bld E)" and cap: "cap_ok (bld E)"
    and fit: "c + slot_size_for (write_align s) (length p) \<le> peb_size s"
    and k: "k < slot_size_for (write_align s) (length p)"
    and bad: "\<And>sv. slot_walk_at (bld E) (peb_size s) (write_align s) img' c \<noteq> Some (sv, True)"
  shows "bucket_hdr_valid (bld E) img' bid"
    and "entries (bld E) (peb_size s) (write_align s) img' 16 = es \<or>
      (\<exists>e. \<not> e_intact e \<and> entries (bld E) (peb_size s) (write_align s) img' 16 = es @ [e])"
    and "tail_ok (bld E) (peb_size s) (write_align s) img'"
proof -
  let ?B = "bld E" and ?pz = "peb_size s" and ?wa = "write_align s"
  let ?bs = "slot_bytes ?B ?wa x ex p"
  have len: "length img = ?pz" "length img' = ?pz" using l t by (simp_all add: log_is_def torn_append_def)
  have le: "log_end ?B ?pz ?wa img 16 = c" "entries ?B ?pz ?wa img 16 = es" using l by (simp_all add: log_is_def)
  have tk: "take c img' = take c img" using t by (simp add: torn_append_def)
  have c16: "16 \<le> c" using log_end_ge [of 16 ?B ?pz ?wa img] le by simp
  have "take 16 img' = take 16 img" using tk c16 by (metis min.absorb1 take_take)
  then show "bucket_hdr_valid ?B img' bid" using l bucket_hdr_valid_take by (metis log_is_def)
  have cle: "c \<le> length img" "c \<le> length img'" using fit len by simp_all
  have pre: "entries ?B ?pz ?wa img' 16 = es @ entries ?B ?pz ?wa img' c"
    "log_end ?B ?pz ?wa img' 16 = log_end ?B ?pz ?wa img' c"
    using walk_prefix [OF tk cle, of ?B ?pz ?wa 16] le by simp_all
  have bl: "length ?bs = slot_size_for ?wa (length p)" by simp
  have ge: "14 + length p \<le> slot_size_for ?wa (length p)"
    using slot_size_for_ge [of "length p" ?wa] by (simp add: BLOB_DB_SLOT_OVERHEAD_def)
  show "entries ?B ?pz ?wa img' 16 = es \<or> (\<exists>e. \<not> e_intact e \<and> entries ?B ?pz ?wa img' 16 = es @ [e])"
    and "tail_ok ?B ?pz ?wa img'"
  proof -
    have "(entries ?B ?pz ?wa img' c = [] \<or> (\<exists>e. \<not> e_intact e \<and> entries ?B ?pz ?wa img' c = [e])) \<and>
        tail_ok ?B ?pz ?wa img'"
    proof (cases "slot_walk_at ?B ?pz ?wa img' c")
      case None
      have "all_erased (drop c img')" if "img' ! c = 0xff"
      proof -
        have "?bs ! 0 \<noteq> 0xff" by (rule slot_bytes_first [OF ex])
        then have "k = 0" using t that ge bl by (auto simp: torn_append_def dest!: spec [of _ 0])
        then show ?thesis using t that by (auto simp: torn_append_def all_erased_nth nth_drop) (metis
            add_0_right le_add1 le_neq_implies_less less_diff_conv add.commute)
      qed
      then show ?thesis using None pre(2) by (simp add: entries_walk log_end_walk tail_ok_def Let_def)
    next
      case (Some r)
      then obtain sv where w: "slot_walk_at ?B ?pz ?wa img' c = Some (sv, False)"
        using bad by (cases r) (metis (full_types))
      have "c + k < c + sv_total_size sv"
      proof (cases "k < 4")
        case True
        have "sv_total_size sv = slot_size_for ?wa (sv_val_len sv)"
          using w by (auto simp: slot_walk_at_def Let_def split: if_splits)
        then show ?thesis
          using True slot_size_for_ge [of "sv_val_len sv" ?wa] by (simp add: BLOB_DB_SLOT_OVERHEAD_def)
      next
        case False
        have "field c 4 img' = field 0 4 ?bs"
          using t False ge bl fit len
          by (intro nth_equalityI) (auto simp: torn_append_def)
        then have "slot_hdr_of (field c 4 img') =
            \<lparr>flags = BLOB_DB_SLOT_F_SEALED OR ex, reserved = 0, val_len = length p\<rparr>"
          using slot_bytes_fields(1) lp cap by (simp add: cap_ok_def)
        then show ?thesis using w k by (auto simp: slot_walk_at_def Let_def split: if_splits)
      qed
      note er = torn_append_rest [OF t this]
      have stop: "slot_walk_at ?B ?pz ?wa img' (c + sv_total_size sv) = None"
        by (rule slot_walk_at_erased [OF _ len(2)]) (rule all_erased_drop_nth [OF er order_refl])
      then have "entries ?B ?pz ?wa img' c = [entry_at img' (c, sv, False)]"
        "log_end ?B ?pz ?wa img' c = c + sv_total_size sv"
        by (simp_all add: entries_walk(1) log_end_walk(1) entries_walk(2) [OF w] log_end_walk(2) [OF w])
      then show ?thesis using er pre(2) by (simp add: tail_ok_def entry_at_def)
    qed
    then show "entries ?B ?pz ?wa img' 16 = es \<or> (\<exists>e. \<not> e_intact e \<and> entries ?B ?pz ?wa img' 16 = es @ [e])"
      "tail_ok ?B ?pz ?wa img'" using pre(1) by auto
  qed
qed

locale torn_env = blob_env E medium peb + torn_store "sto E" medium peb
  for E :: "'d env" and medium peb
begin

lemma append_slot_torn:
  assumes a: "append_slot E s bid c x ex p = (Inl e, s')"
    and l: "log_is E s bid (bucket_img medium s bid) es c"
    and fit: "c + slot_size_for (write_align s) (length p) \<le> peb_size s"
  shows "s' = s \<or> (touches medium peb {BLOB_DB_FIRST_BUCKET + bid} s s' \<and>
    (\<exists>k. torn_append (bucket_img medium s bid) c (slot_bytes (bld E) (write_align s) x ex p) k
      (bucket_img medium s' bid)))"
proof -
  let ?bs = "slot_bytes (bld E) (write_align s) x ex p" and ?p = "BLOB_DB_FIRST_BUCKET + bid"
  show ?thesis
  proof (cases "store_write E s (bucket_offset s bid + c) ?bs = (Inl e, s')")
    case False
    with a show ?thesis by (auto simp: append_slot_def split: if_splits)
  next
    case True
    then obtain d where w: "blob_db_store_write (sto E) (dev s) (bucket_offset s bid + c) ?bs = (Inl e, d)"
      and s': "s' = s\<lparr>dev := d\<rparr>" by (auto simp: store_write_def split: prod.splits)
    have t: "touches medium peb {?p} s s'"
      using store_write_touches [of s ?p c ?bs "Inl e" s'] True fit by (simp add: bucket_offset_def)
    obtain k b where kb: "\<forall>i < length ?bs. medium d (bucket_offset s bid + c + i) =
        (if i < k then medium (dev s) (bucket_offset s bid + c + i) AND ?bs ! i
         else if i = k then b else medium (dev s) (bucket_offset s bid + c + i))"
      using write_torn [OF w] by blast
    have er: "medium (dev s) (bucket_offset s bid + j) = 0xff" if "c \<le> j" "j < peb_size s" for j
      using l that all_erased_drop_nth [of c "bucket_img medium s bid" j]
      by (simp add: log_is_def bucket_img_def)
    have off: "bucket_offset s' bid = bucket_offset s bid" "peb_size s' = peb_size s" using touchesD [OF t] by simp_all
    have out: "medium d (bucket_offset s bid + j) = medium (dev s) (bucket_offset s bid + j)"
      if "j < c \<or> c + length ?bs \<le> j" for j
      using write_frame [OF w, of "bucket_offset s bid + j"] that by auto
    have nth: "bucket_img medium s' bid ! j = medium d (bucket_offset s bid + j)" if "j < peb_size s" for j
      using that s' off by (simp add: bucket_img_def)
    have "torn_append (bucket_img medium s bid) c ?bs k (bucket_img medium s' bid)"
      unfolding torn_append_def
    proof (intro conjI allI impI)
      show "length (bucket_img medium s' bid) = length (bucket_img medium s bid)" using off by simp
      show "take c (bucket_img medium s' bid) = take c (bucket_img medium s bid)"
        using fit off out nth by (intro nth_equalityI) (simp_all add: bucket_img_def)
    next
      fix i assume i: "i < min k (length ?bs)"
      then have "c + i < peb_size s" using fit by simp
      with i kb er [of "c + i"] nth [of "c + i"] show "bucket_img medium s' bid ! (c + i) = ?bs ! i"
        by (auto simp: add.assoc)
    next
      fix j assume j: "c + k < j" "j < length (bucket_img medium s bid)"
      show "bucket_img medium s' bid ! j = 0xff"
      proof (cases "c + length ?bs \<le> j")
        case True
        with j out [of j] er [of j] nth [of j] show ?thesis by simp
      next
        case False
        with j kb er [of j] nth [of j] show ?thesis
          by (auto simp: add.assoc dest!: spec [of _ "j - c"])
      qed
    qed
    with t show ?thesis by blast
  qed
qed

end

context torn_env
begin

lemma append_slot_failed:
  assumes inv: "db_inv E medium peb s" and bid: "bid < n_buckets s"
    and a: "append_slot E s bid c x ex p = (Inl e, s')" and ex: "written_flags ex"
    and l: "log_is E s bid (bucket_img medium s bid) es c"
    and fit: "c + slot_size_for (write_align s) (length p) \<le> peb_size s"
    and lp: "length p \<le> MAX_PAYLOAD_LEN (bld E)"
    and bad: "\<And>sv. slot_walk_at (bld E) (peb_size s) (write_align s) (bucket_img medium s' bid) c \<noteq> Some (sv, True)"
  shows "db_inv E medium peb s' \<and> blob_map E medium s' = blob_map E medium s"
proof (cases "s' = s")
  case True
  with inv show ?thesis by simp
next
  case False
  let ?bs = "slot_bytes (bld E) (write_align s) x ex p" and ?ssz = "slot_size_for (write_align s) (length p)"
  from append_slot_torn [OF a l fit] False obtain k where tt: "touches medium peb {BLOB_DB_FIRST_BUCKET + bid} s s'"
    and ta: "torn_append (bucket_img medium s bid) c ?bs k (bucket_img medium s' bid)" by blast
  note t = touches_one [OF tt]
  note D = touchesD [OF t]
  have "k < ?ssz"
  proof (rule ccontr)
    assume "\<not> k < ?ssz"
    then have "field c ?ssz (bucket_img medium s' bid) = ?bs"
      using ta fit D by (intro nth_equalityI) (auto simp: torn_append_def)
    from slot_walk_at_written [OF ex lp cap fit this] bad show False by metis
  qed
  note tl = torn_append_log [OF ta l ex lp cap fit this bad]
  have es: "bucket_log E medium s bid = es" using l by (simp add: bucket_log_def log_is_def)
  have es': "bucket_log E medium s' bid = es \<or> (\<exists>e. \<not> e_intact e \<and> bucket_log E medium s' bid = es @ [e])"
    using tl(1,2) D by (simp add: bucket_log_def)
  then have lv: "live (bucket_log E medium s' bid) = live (bucket_log E medium s bid)"
    and hm: "homed s bid (bucket_log E medium s bid) \<Longrightarrow> homed s bid (bucket_log E medium s' bid)"
    using es live_append_rotten by (auto simp: homed_def)
  have oth: "bucket_log E medium s' b = bucket_log E medium s b" "bucket_img medium s' b = bucket_img medium s b"
    if "b \<noteq> bid" for b
    using bucket_log_frame [OF t one_bucket_other [OF that]] touches_img_bucket [OF t one_bucket_other [OF that]] by simp_all
  have "live (bucket_log E medium s' b) = live (bucket_log E medium s b)" for b
    using lv oth by (cases "b = bid") simp_all
  then have "blob_map E medium s' = blob_map E medium s" by (simp add: fun_eq_iff blob_map_def D)
  moreover have "bucket_ok E medium s' b" if "b < n_buckets s'" for b
  proof (cases "b = bid")
    case True
    then have "homed s bid (bucket_log E medium s bid)" using inv bid by (simp add: db_inv_def bucket_ok_def)
    from hm [OF this] True tl(3) D(1,2,10) show ?thesis by (simp add: bucket_ok_def homed_def)
  next
    case False
    have "bucket_ok E medium s b" using inv that D(3) by (simp add: db_inv_def)
    then show ?thesis using oth [OF False] D(1,2,10) by (simp add: bucket_ok_def homed_def)
  qed
  then have "db_inv E medium peb s'" using inv D by (simp add: db_inv_def)
  ultimately show ?thesis by simp
qed

lemma update_failed:
  assumes inv: "db_inv E medium peb s" and u: "update_impl E s x payload len = (Inl e, s')"
    and buf: "\<And>bs. payload = Some bs \<Longrightarrow> len \<le> length bs"
    and l: "log_is E s (id_to_bucket s x) (bucket_img medium s (id_to_bucket s x)) es c"
    and fit: "c + slot_size_for (write_align s) len \<le> peb_size s"
    and bad: "\<And>sv. slot_walk_at (bld E) (peb_size s) (write_align s) (bucket_img medium s' (id_to_bucket s x)) c
      \<noteq> Some (sv, True)"
  shows "db_inv E medium peb s' \<and> blob_map E medium s' = blob_map E medium s"
proof -
  let ?bid = "id_to_bucket s x" and ?p = "c_bytes payload len"
  have g: "geom_ok (bld E) peb s" using inv by (simp add: db_inv_def)
  have hv: "bucket_hdr_valid (bld E) (bucket_img medium s ?bid) ?bid" using l by (simp add: log_is_def)
  consider "s' = s" | "append_slot E s ?bid c x 0 ?p = (Inl e, s')" "len \<le> MAX_PAYLOAD_LEN (bld E)" "length ?p = len"
  proof (cases "s' = s")
    case False
    with u have len: "len \<le> MAX_PAYLOAD_LEN (bld E)" "len > 0 \<longrightarrow> payload \<noteq> None"
      by (auto simp: update_impl_def split: if_splits)
    have cb: "length ?p = len" using len(2) buf by (cases payload) (auto simp: c_bytes_def)
    from u False have u': "reads (read_bucket_hdr E s ?bid) s (\<lambda>formatted.
        seqs (update_cursor E s ?bid x formatted) (\<lambda>c1 s1.
        seqs (update_make_room E s1 ?bid x (slot_size_for (write_align s) len) c1) (\<lambda>c2 s2.
          append_slot E s2 ?bid c2 x 0 ?p))) = (Inl e, s')"
      using len by (simp add: update_impl_def Let_def split: if_split_asm)
    then obtain f where f: "read_bucket_hdr E s ?bid = Inr f" using False by (cases "read_bucket_hdr E s ?bid") simp_all
    have f': "f = True" using read_bucket_hdr_spec [OF f g] hv by simp
    from u' False f f' obtain sc where sc: "bucket_cursor E s ?bid x = Inr sc"
      by (cases "bucket_cursor E s ?bid x") (simp_all add: update_cursor_def)
    have cc: "confirm_cursor s sc = Inr c" by (rule log_is_cursor [OF l bucket_cursor_ends [OF sc]])
    from u' f f' sc cc fit have "append_slot E s ?bid c x 0 ?p = (Inl e, s')"
      by (simp add: update_cursor_def update_make_room_def)
    with len cb that show ?thesis by blast
  qed
  then show ?thesis
  proof cases
    case 1
    with inv show ?thesis by simp
  next
    case 2
    with append_slot_failed [OF inv geom_n_buckets [OF g] 2(1) _ l _ _ bad] fit show ?thesis
      by (simp add: written_flags_def)
  qed
qed

end

section \<open>An interrupted compaction\<close>

text \<open>The scratch sector holds the staged image of a bucket and its seal.\<close>

definition staged :: "build \<Rightarrow> 'd bdb \<Rightarrow> byte list \<Rightarrow> byte list \<Rightarrow> bool" where
  "staged B s img scr \<longleftrightarrow>
     take (length img) scr = img \<and> field (scratch_seal_off s) 16 scr = seal_bytes B img"

text \<open>The seal does not check: its own CRC, or the CRC of the image it names.\<close>

definition unsealed :: "build \<Rightarrow> 'd bdb \<Rightarrow> byte list \<Rightarrow> bool" where
  "unsealed B s scr \<longleftrightarrow>
     \<not> seal_self_ok B (field (scratch_seal_off s) 16 scr) \<or> scratch_seal_valid B s scr = None"

lemma staged_cong:
  "peb_size s = peb_size t \<Longrightarrow> write_align s = write_align t \<Longrightarrow> staged B s img scr = staged B t img scr"
  by (simp add: staged_def scratch_seal_off_def scratch_seal_len_def)

lemma seal_bytes_fields:
  assumes "length img < 2 ^ 32"
  shows "take 4 (seal_bytes B img) = SCRATCH_MAGIC" "of_le (field 4 4 (seal_bytes B img)) = length img"
    "word_of_nat (of_le (field 8 4 (seal_bytes B img))) = crc32_ieee B img"
    "word_of_nat (of_le (field 12 4 (seal_bytes B img))) = hdr_crc B (seal_bytes B img)"
  using assms
  by (simp_all add: seal_bytes_def seal_prefix_def SCRATCH_MAGIC_def field_def hdr_crc_def)

lemma staged_valid:
  assumes st: "staged B s img scr" and n: "16 \<le> length img" "length img \<le> scratch_seal_off s"
    "length img < 2 ^ 32" and len: "length scr = peb_size s"
  shows "scratch_seal_valid B s scr = Some (length img)"
    and "seal_self_ok B (field (scratch_seal_off s) 16 scr)"
proof -
  have seal: "field (scratch_seal_off s) 16 scr = seal_bytes B img" "take (length img) scr = img"
    using st by (simp_all add: staged_def)
  note f = seal_bytes_fields [OF n(3), of B]
  show "scratch_seal_valid B s scr = Some (length img)"
    using n by (simp add: scratch_seal_valid_def seal f Let_def BLOB_DB_BUCKET_DATA_OFF_def)
  show "seal_self_ok B (field (scratch_seal_off s) 16 scr)"
    by (simp add: seal_self_ok_def seal f)
qed

lemma staged_fields:
  assumes "staged B s img scr" "16 \<le> length img"
  shows "take 16 scr = take 16 img"
  using assms by (metis min.absorb1 staged_def take_take)

lemma unwedge_simps [simp]:
  "peb_img medium (s\<lparr>wedged := w\<rparr>) p = peb_img medium s p"
  "bucket_img medium (s\<lparr>wedged := w\<rparr>) bid = bucket_img medium s bid"
  "peb_offset (s\<lparr>wedged := w\<rparr>) = peb_offset s" "bucket_offset (s\<lparr>wedged := w\<rparr>) = bucket_offset s"
  by (simp_all add: peb_img_def bucket_img_def peb_offset_def bucket_offset_def fun_eq_iff)

lemma unwedge_id: "\<not> wedged s \<Longrightarrow> s\<lparr>wedged := False\<rparr> = s"
  by (cases s) simp

lemma touches_unwedge:
  "touches medium peb P s t \<Longrightarrow> \<not> wedged s \<Longrightarrow> t\<lparr>wedged := False\<rparr> = t"
  using touchesD(5) by fastforce

lemma or_wedge_cases: "or_wedge r = (q, t) \<Longrightarrow> \<exists>t'. r = (q, t') \<and> t\<lparr>wedged := w\<rparr> = t'\<lparr>wedged := w\<rparr>"
  by (cases r; cases "fst r") (auto simp: or_wedge_def)

context blob_env
begin

lemma read_peb:
  assumes "store_read E s (peb_offset s p + k) n = Inr bs" "k + n \<le> peb_size s"
  shows "bs = field k n (peb_img medium s p)"
  using assms read_medium [of "dev s" "peb_offset s p + k" n bs]
  by (simp add: store_read_def peb_img_def slice_field)

text \<open>What recovery does with a scratch sector that is staged, and with one that is not.\<close>

lemma seal_room: "geom_ok (bld E) peb s \<Longrightarrow> scratch_seal_off s + 16 \<le> peb_size s"
  using scratch_seal_fits [of "bld E" s] scratch_seal_len_ge [of s] by (simp add: scratch_seal_off_def)

lemma scratch_sealed_bucket_unsealed:
  assumes g: "geom_ok (bld E) peb s" and u: "unsealed (bld E) s (peb_img medium s BLOB_DB_SCRATCH_SECTOR)"
  shows "scratch_sealed_bucket E s \<noteq> Inr r"
proof
  assume "scratch_sealed_bucket E s = Inr r"
  then obtain seal bb where rd: "store_read E s (peb_offset s BLOB_DB_SCRATCH_SECTOR + scratch_seal_off s) 16 = Inr seal"
    "seal_self_ok (bld E) seal" "store_read E s (peb_offset s BLOB_DB_SCRATCH_SECTOR) (peb_size s) = Inr bb"
    "scratch_seal_valid (bld E) s bb \<noteq> None"
    by (auto simp: scratch_sealed_bucket_def Let_def andthen_Inr split: if_splits option.splits)
  then show False
    using read_peb [OF rd(1) seal_room [OF g]] read_peb [of s _ 0 "peb_size s" bb] u
    by (simp add: unsealed_def field_def)
qed

lemma scratch_sealed_bucket_staged:
  assumes g: "geom_ok (bld E) peb s" and bid: "bid < n_buckets s"
    and st: "staged (bld E) s img (peb_img medium s BLOB_DB_SCRATCH_SECTOR)"
    and n: "16 \<le> length img" "length img \<le> scratch_seal_off s"
    and hv: "bucket_hdr_valid (bld E) img bid"
  shows "scratch_sealed_bucket E s \<noteq> Inl EPERM"
    and "scratch_sealed_bucket E s = Inr (b, bb, m) \<Longrightarrow> b = bid \<and> take m bb = img"
proof -
  let ?scr = "peb_img medium s BLOB_DB_SCRATCH_SECTOR"
  have "scratch_seal_off s \<le> peb_size s" "peb_size s < 2 ^ 32"
    using g by (simp_all add: geom_ok_def scratch_seal_off_def)
  then have n32: "length img < 2 ^ 32" using n(2) by linarith
  note v = staged_valid [OF st n n32]
  have t16: "take 16 ?scr = take 16 img" by (rule staged_fields [OF st n(1)])
  then have hv': "bucket_hdr_valid (bld E) ?scr bid" using hv bucket_hdr_valid_take by metis
  then have id: "bucket_id (bucket_hdr_of (take 16 ?scr)) = bid"
    by (auto simp: bucket_hdr_valid_def Let_def split: if_splits)
  have seal: "bs = field (scratch_seal_off s) 16 ?scr"
    if "store_read E s (peb_offset s BLOB_DB_SCRATCH_SECTOR + scratch_seal_off s) 16 = Inr bs" for bs
    by (rule read_peb [OF that seal_room [OF g]])
  have whole: "bs = ?scr" if "store_read E s (peb_offset s BLOB_DB_SCRATCH_SECTOR) (peb_size s) = Inr bs" for bs
    using read_peb [of s _ 0 "peb_size s" bs] that by (simp add: field_def)
  show "scratch_sealed_bucket E s \<noteq> Inl EPERM"
    using v id hv' bid seal whole
    by (auto simp: scratch_sealed_bucket_def Let_def andthen_def dest: store_read_errno split: sum.splits)
  assume "scratch_sealed_bucket E s = Inr (b, bb, m)"
  then have "bb = ?scr \<and> m = length img \<and> b = bid"
    using v id seal whole
    by (auto simp: scratch_sealed_bucket_def Let_def andthen_Inr split: if_splits option.splits)
  then show "b = bid \<and> take m bb = img" using st by (simp add: staged_def)
qed

lemma recover_compaction_spec:
  assumes r: "recover_compaction E s = (Inr (), u)" and g: "geom_ok (bld E) peb s" and bid: "bid < n_buckets s"
  shows "unsealed (bld E) s (peb_img medium s BLOB_DB_SCRATCH_SECTOR) \<Longrightarrow> u = s"
    and "staged (bld E) s img (peb_img medium s BLOB_DB_SCRATCH_SECTOR) \<Longrightarrow> 16 \<le> length img \<Longrightarrow>
      length img \<le> scratch_seal_off s \<Longrightarrow> bucket_hdr_valid (bld E) img bid \<Longrightarrow>
      touches medium peb (one_bucket bid) s u \<and>
      bucket_img medium u bid = img @ replicate (peb_size s - length img) 0xff"
proof -
  show "u = s" if "unsealed (bld E) s (peb_img medium s BLOB_DB_SCRATCH_SECTOR)"
    using r scratch_sealed_bucket_unsealed [OF g that]
    by (auto simp: recover_compaction_def split: sum.splits if_splits)
  assume st: "staged (bld E) s img (peb_img medium s BLOB_DB_SCRATCH_SECTOR)" "16 \<le> length img"
    "length img \<le> scratch_seal_off s" "bucket_hdr_valid (bld E) img bid"
  note sb = scratch_sealed_bucket_staged [OF g bid st]
  from r sb(1) obtain b bb m where ss: "scratch_sealed_bucket E s = Inr (b, bb, m)"
    by (auto simp: recover_compaction_def split: sum.splits if_splits)
  from sb(2) [OF this] r ss obtain s1 s2 where
    1: "store_erase E s (bucket_offset s bid) (peb_size s) = (Inr (), s1)" and
    2: "store_write E s1 (bucket_offset s1 bid) img = (Inr (), s2)" and
    3: "store_erase E s2 (peb_offset s2 BLOB_DB_SCRATCH_SECTOR) (peb_size s2) = (Inr (), u)"
    by (auto simp: recover_compaction_def res_simps)
  have fit: "length img \<le> peb_size s" using st(3) by (simp add: scratch_seal_off_def)
  note rw = rewrite_bucket_spec [OF 1 2 fit]
  note t3 = store_erase_touches [OF 3]
  have "touches medium peb (one_bucket bid) s u"
    using touches_trans [OF conjunct1 [OF rw] t3] by (simp add: one_bucket_def insert_commute)
  moreover have "bucket_img medium u bid = bucket_img medium s2 bid"
    by (rule touches_img_bucket [OF t3]) (simp add: BLOB_DB_SCRATCH_SECTOR_def BLOB_DB_FIRST_BUCKET_def)
  ultimately show "touches medium peb (one_bucket bid) s u \<and>
      bucket_img medium u bid = img @ replicate (peb_size s - length img) 0xff" using rw by simp
qed

text \<open>Whatever a compaction returns, and wherever it stopped: the bucket is as it was, or as it
  is meant to be, or its new image stands sealed in the scratch sector.\<close>

lemma scratch_staged:
  assumes e: "store_erase E s (peb_offset s p) (peb_size s) = (Inr (), s1)"
    and w: "store_write E s1 (peb_offset s1 p) img = (Inr (), s2)"
    and sl: "scratch_seal_write E s2 (peb_offset s2 p) img = (Inr (), s3)"
    and g: "geom_ok (bld E) peb s" and n: "length img \<le> scratch_seal_off s"
  shows "staged (bld E) s3 img (peb_img medium s3 p)"
proof -
  note t1 = store_erase_touches [OF e]
  note D1 = touchesD [OF t1]
  have fit: "length img \<le> peb_size s" using n by (simp add: scratch_seal_off_def)
  have t2: "touches medium peb {p} s1 s2"
    using store_write_touches [of s1 p 0 img "Inr ()" s2] w fit D1 by simp
  note D2 = touchesD [OF t2]
  have i2: "peb_img medium s2 p = img @ replicate (peb_size s - length img) 0xff"
    using store_write_img0 [OF w] store_erase_img [OF e] fit D1 by simp
  let ?so = "scratch_seal_off s" and ?sl = "scratch_seal_len s"
  let ?buf = "seal_bytes (bld E) img @ replicate (?sl - 16) 0xff"
  have so: "scratch_seal_off s2 = ?so" "scratch_seal_len s2 = ?sl" "?so + ?sl = peb_size s"
    using D1 D2 scratch_seal_fits [OF g] by (simp_all add: scratch_seal_off_def scratch_seal_len_def)
  have w3: "store_write E s2 (peb_offset s2 p + ?so) ?buf = (Inr (), s3)"
    using sl so by (simp add: scratch_seal_write_def)
  have len: "length ?buf = ?sl" using scratch_seal_len_ge [of s] by simp
  have t3: "touches medium peb {p} s2 s3" using store_write_touches [OF w3] len so D1 D2 by simp
  have "peb_img medium s3 p = splice (peb_img medium s2 p) ?so ?buf"
    by (rule store_write_img [OF w3]) (use len so n i2 D1 D2 in \<open>auto simp: nth_append\<close>)
  then have i3: "peb_img medium s3 p = img @ replicate (?so - length img) 0xff @ ?buf"
    using i2 so len n by (simp add: splice_def)
  moreover have "scratch_seal_off s3 = ?so"
    using touchesD [OF t3] so D1 D2 by (simp add: scratch_seal_off_def scratch_seal_len_def)
  ultimately show ?thesis using n by (simp add: staged_def field_def)
qed

lemma window_outcome:
  assumes w: "seqs (or_wedge (store_erase E s bo (peb_size s))) (\<lambda>_ s.
      seqs (or_wedge (store_write E s bo img)) (\<lambda>_ s. or_wedge (store_erase E s so (peb_size s)))) = (r, t)"
    and off: "bo = bucket_offset s bid" "so = peb_offset s BLOB_DB_SCRATCH_SECTOR" and nw: "\<not> wedged s"
    and fit: "length img \<le> peb_size s"
    and st: "staged (bld E) s img (peb_img medium s BLOB_DB_SCRATCH_SECTOR)"
  defines "t0 \<equiv> t\<lparr>wedged := False\<rparr>"
  shows "touches medium peb (one_bucket bid) s t0 \<and>
    (bucket_img medium t0 bid = img @ replicate (peb_size s - length img) 0xff \<or>
     staged (bld E) t0 img (peb_img medium t0 BLOB_DB_SCRATCH_SECTOR))"
proof -
  let ?sc = "BLOB_DB_SCRATCH_SECTOR" and ?p = "BLOB_DB_FIRST_BUCKET + bid"
  have ne: "?sc \<notin> {?p}" "?p \<notin> {?sc}" by (simp_all add: BLOB_DB_SCRATCH_SECTOR_def BLOB_DB_FIRST_BUCKET_def)
  have keep: ?thesis if tt: "touches medium peb {?p} s t'" and t0: "t0 = t'" for t'
    using tt t0 st touches_img [OF tt ne(1)] touchesD(1,2) [OF tt] staged_cong [of s t']
      touches_one [OF tt] by simp
  obtain r1 s1 where 1: "store_erase E s (peb_offset s ?p) (peb_size s) = (r1, s1)" by fastforce
  note t1 = store_erase_touches [OF 1]
  note D1 = touchesD [OF t1]
  obtain r2 s2 where 2: "store_write E s1 (peb_offset s1 ?p) img = (r2, s2)" by fastforce
  have t2: "touches medium peb {?p} s s2"
    using touches_trans [OF t1 store_write_touches [of s1 ?p 0 img r2 s2]] 2 fit D1 by simp
  note D2 = touchesD [OF t2]
  obtain r3 s3 where 3: "store_erase E s2 (peb_offset s2 ?sc) (peb_size s2) = (r3, s3)" by fastforce
  note t3 = store_erase_touches [OF 3]
  have w1: "s1\<lparr>wedged := False\<rparr> = s1" "s2\<lparr>wedged := False\<rparr> = s2" "s3\<lparr>wedged := False\<rparr> = s3"
    using nw D1 D2 touchesD [OF t3] by (simp_all add: unwedge_id)
  have o1: "bo = peb_offset s ?p" "bo = peb_offset s1 ?p" "so = peb_offset s2 ?sc" "peb_size s2 = peb_size s"
    using off D1(8) D2(1,8) by (simp_all add: bucket_offset_def)
  show ?thesis
  proof (cases r1)
    case (Inl e)
    with w 1 o1(1) have "t = s1\<lparr>wedged := True\<rparr>" by (simp add: or_wedge_def)
    then have "t0 = s1" using w1 by (simp add: t0_def)
    with keep [OF t1] show ?thesis .
  next
    case r1: (Inr u1)
    show ?thesis
    proof (cases r2)
      case (Inl e)
      have e1: "store_erase E s bo (peb_size s) = (Inr u1, s1)" using 1 o1(1) r1 by simp
      have e2: "store_write E s1 bo img = (Inl e, s2)" using 2 o1(2) Inl by simp
      have "t = s2\<lparr>wedged := True\<rparr>" using w by (simp add: or_wedge_def e1 e2)
      then have "t0 = s2" using w1 by (simp add: t0_def)
      with keep [OF t2] show ?thesis .
    next
      case r2: (Inr u2)
      have e1: "store_erase E s bo (peb_size s) = (Inr u1, s1)" using 1 o1(1) r1 by simp
      have e2: "store_write E s1 bo img = (Inr u2, s2)" using 2 o1(2) r2 by simp
      have e3: "store_erase E s2 so (peb_size s2) = (r3, s3)" using 3 o1(3) by simp
      have "t\<lparr>wedged := False\<rparr> = s3\<lparr>wedged := False\<rparr>"
        using w by (cases r3) (auto simp: or_wedge_def e1 e2 e3)
      then have t0: "t0 = s3" using w1 by (simp add: t0_def)
      have "bucket_img medium s3 bid = bucket_img medium s2 bid" by (rule touches_img_bucket [OF t3 ne(2)])
      moreover have "bucket_img medium s2 bid = img @ replicate (peb_size s - length img) 0xff"
        using rewrite_bucket_spec [of s bid s1 img s2] 1 2 r1 r2 fit by (simp add: bucket_offset_def)
      moreover have "touches medium peb (one_bucket bid) s s3"
        using touches_trans [OF t2 t3] by (simp add: one_bucket_def insert_commute)
      ultimately show ?thesis using t0 by simp
    qed
  qed
qed

lemma compact_commit_outcome:
  assumes c: "compact_commit E s bid buf n = (r, t)" and nw: "\<not> wedged s"
    and na: "\<not> blob_db_store_replace_is_atomic (sto E)" and g: "geom_ok (bld E) peb s"
    and n: "n \<le> length buf" and len: "length buf = peb_size s"
  defines "t0 \<equiv> t\<lparr>wedged := False\<rparr>"
  shows "touches medium peb (one_bucket bid) s t0 \<and>
    (bucket_img medium t0 bid = bucket_img medium s bid \<or>
     bucket_img medium t0 bid = compacted_block (peb_size s) buf n \<or>
     staged (bld E) t0 (take n buf) (peb_img medium t0 BLOB_DB_SCRATCH_SECTOR) \<and> n \<le> scratch_seal_off s)"
proof (cases "n > scratch_seal_off s")
  case True
  with c nw have "t0 = s" by (auto simp: compact_commit_def t0_def unwedge_id)
  then show ?thesis by simp
next
  case ns: False
  let ?sc = "BLOB_DB_SCRATCH_SECTOR" and ?p = "BLOB_DB_FIRST_BUCKET + bid" and ?img = "take n buf"
  have ne: "?sc \<noteq> ?p" by (simp add: BLOB_DB_SCRATCH_SECTOR_def BLOB_DB_FIRST_BUCKET_def)
  have li: "length ?img = n" "n \<le> peb_size s" "length ?img \<le> scratch_seal_off s"
    using n len ns by simp_all
  have sc_only: ?thesis if "touches medium peb {?sc} s t"
  proof -
    have "t0 = t" using touches_unwedge [OF that nw] by (simp add: t0_def)
    then show ?thesis
      using that touches_img_bucket [OF that] ne
      by (auto simp: one_bucket_def intro: touches_mono)
  qed
  obtain r1 s1 where 1: "store_erase E s (peb_offset s ?sc) (peb_size s) = (r1, s1)" by fastforce
  note t1 = store_erase_touches [OF 1]
  note D1 = touchesD [OF t1]
  show ?thesis
  proof (cases r1)
    case (Inl e)
    with c 1 ns na have "t = s1" by (simp add: compact_commit_def)
    with t1 sc_only show ?thesis by simp
  next
    case r1: (Inr x1)
    obtain r2 s2 where 2: "store_write E s1 (peb_offset s1 ?sc) ?img = (r2, s2)" by fastforce
    have t2: "touches medium peb {?sc} s1 s2"
      using store_write_touches [of s1 ?sc 0 ?img r2 s2] 2 li D1 by simp
    have t12: "touches medium peb {?sc} s s2" using touches_trans [OF t1 t2] by simp
    note D2 = touchesD [OF t12]
    show ?thesis
    proof (cases r2)
      case (Inl e)
      with c 1 2 r1 ns na D1 have "t = s2" by (simp add: compact_commit_def)
      with t12 sc_only show ?thesis by simp
    next
      case r2: (Inr x2)
      obtain r3 s3 where 3: "scratch_seal_write E s2 (peb_offset s2 ?sc) ?img = (r3, s3)" by fastforce
      have "scratch_seal_len s2 \<le> peb_size s2" using scratch_seal_fits [of "bld E" s2] g D2 by simp
      note t3 = touches_trans [OF t12 scratch_seal_write_touches [OF 3 this], simplified]
      note D3 = touchesD [OF t3]
      show ?thesis
      proof (cases r3)
        case (Inl e)
        with c 1 2 3 r1 r2 ns na D1 D2 have "t = s3" by (simp add: compact_commit_def)
        with t3 sc_only show ?thesis by simp
      next
        case r3: (Inr x3)
        have "scratch_seal_off s = scratch_seal_off s3" "\<not> wedged s3"
          using D3 nw by (simp_all add: scratch_seal_off_def scratch_seal_len_def)
        moreover have "staged (bld E) s3 ?img (peb_img medium s3 ?sc)"
          by (rule scratch_staged) (use 1 2 3 r1 r2 r3 g ns li in simp_all)
        moreover have "seqs (or_wedge (store_erase E s3 (bucket_offset s bid) (peb_size s3))) (\<lambda>_ s4.
            seqs (or_wedge (store_write E s4 (bucket_offset s bid) ?img)) (\<lambda>_ s5.
              or_wedge (store_erase E s5 (peb_offset s ?sc) (peb_size s5)))) = (r, t)"
          using c 1 2 3 r1 r2 r3 ns na D1 D2 by (simp add: compact_commit_def Let_def)
        ultimately have "touches medium peb (one_bucket bid) s3 t0 \<and>
            (bucket_img medium t0 bid = ?img @ replicate (peb_size s3 - length ?img) 0xff \<or>
             staged (bld E) t0 ?img (peb_img medium t0 ?sc))"
          unfolding t0_def by (intro window_outcome) (use D3 li in simp_all)
        moreover have "touches medium peb (one_bucket bid) s s3"
          using touches_mono [OF t3] by (simp add: one_bucket_def)
        ultimately show ?thesis
          using touches_one_trans ns D3 li by (auto simp: compacted_block_def)
      qed
    qed
  qed
qed

text \<open>The recovery of the next mount then finds the same objects, provided the seal's CRCs do
  their work: what passes them is what was staged.\<close>

lemma crash_recovery:
  assumes inv: "db_inv E medium peb s" and nw: "\<not> wedged s" and bid: "bid < n_buckets s"
    and na: "\<not> blob_db_store_replace_is_atomic (sto E)"
    and c: "compact_bucket E s bid = (r, t)"
    and cyc: "touches medium peb {} (t\<lparr>wedged := False\<rparr>) t0"
  defines "new \<equiv> (case build_compacted_image (bld E) (peb_size s) (write_align s)
      (bucket_img medium s bid) bid of (buf, n, stop) \<Rightarrow> take n buf)"
  assumes seal: "unsealed (bld E) t0 (peb_img medium t0 BLOB_DB_SCRATCH_SECTOR) \<or>
      staged (bld E) t0 new (peb_img medium t0 BLOB_DB_SCRATCH_SECTOR) \<and> length new \<le> scratch_seal_off s"
    and rc: "recover_compaction E t0 = (Inr (), u)"
    and hv: "bucket_hdr_valid (bld E) (bucket_img medium s bid) bid"
  shows "db_inv E medium peb u \<and> blob_map E medium u = blob_map E medium s"
proof -
  let ?B = "bld E" and ?pz = "peb_size s" and ?wa = "write_align s" and ?img = "bucket_img medium s bid"
  have g: "geom_ok ?B peb s" using inv by (simp add: db_inv_def)
  obtain buf n stop where b: "build_compacted_image ?B ?pz ?wa ?img bid = (buf, n, stop)" using prod_cases3 by blast
  have "length ?img = ?pz" "bid < 2 ^ 16" "16 \<le> ?pz" using geom_bid [OF g bid] by simp_all
  note sp = build_compacted_image_spec [OF b this(1,3,2)]
  have nb: "n \<le> length buf" "n \<le> ?pz" using sp by simp_all
  have new: "new = take n buf" "length new = n" using b nb by (simp_all add: new_def)
  have hvn: "bucket_hdr_valid ?B new bid"
    using sp(2,7) bucket_hdr_valid_take [of new "compacted_block ?pz buf n"] new nb by (simp add: compacted_block_def)
  have l: "log_is E s bid (compacted_block ?pz buf n) (keep (bucket_log E medium s bid)) n"
    using sp hv nb by (simp add: log_is_def bucket_log_def) (simp add: compacted_block_def)
  let ?t = "t\<lparr>wedged := False\<rparr>"
  note C = touchesD [OF cyc]
  have same: "peb_img medium t0 p = peb_img medium ?t p" "bucket_img medium t0 b = bucket_img medium ?t b" for p b
    using touches_img [OF cyc] touches_img_bucket [OF cyc] by blast+
  have out: "touches medium peb (one_bucket bid) s ?t \<and>
    (bucket_img medium t0 bid = ?img \<or> bucket_img medium t0 bid = compacted_block ?pz buf n \<or>
     staged ?B t0 new (peb_img medium t0 BLOB_DB_SCRATCH_SECTOR) \<and> n \<le> scratch_seal_off s)"
  proof (cases "\<exists>s'. compact_commit E s bid buf n = (r, s') \<and> s' = t")
    case True
    then show ?thesis
      using compact_commit_outcome [OF _ nw na g nb(1) sp(1), of bid r t] new(1) same
        staged_cong [OF C(1,2), of "bld E" new] by auto
  next
    case False
    have "t = s"
      using c False b read_img [of s bid 0 ?pz]
      by (auto simp: compact_bucket_def reads_def read_bucket_def field_def split: sum.splits if_splits)
    then show ?thesis using nw same by (simp add: unwedge_id)
  qed
  then have "touches medium peb (one_bucket bid) s ?t" by blast
  from touches_trans [OF this cyc] have t: "touches medium peb (one_bucket bid) s t0" by simp
  note D = touchesD [OF t]
  have g0: "geom_ok ?B peb t0" and b0: "bid < n_buckets t0" using g bid D by simp_all
  note rs = recover_compaction_spec [OF rc g0 b0]
  have so: "scratch_seal_off t0 = scratch_seal_off s" using D by (simp add: scratch_seal_off_def scratch_seal_len_def)
  have fin: ?thesis if tu: "touches medium peb (one_bucket bid) s u"
    and iu: "bucket_img medium u bid = compacted_block ?pz buf n"
  proof -
    have "homed s bid (bucket_log E medium s bid)" using inv bid by (simp add: db_inv_def bucket_ok_def)
    then have "homed s bid (keep (bucket_log E medium s bid))" using keep_subset by (rule homed_subset)
    note ch = change_bucket [OF inv tu l [folded iu] this]
    show ?thesis using ch by (auto simp: fun_eq_iff blob_map_def live_keep)
  qed
  show ?thesis
  proof (cases "staged ?B t0 new (peb_img medium t0 BLOB_DB_SCRATCH_SECTOR) \<and> n \<le> scratch_seal_off s")
    case True
    then have "touches medium peb (one_bucket bid) t0 u"
      "bucket_img medium u bid = new @ replicate (?pz - length new) 0xff"
      using rs(2) [of new] hvn new sp(2) so D by simp_all
    with fin touches_one_trans [OF t] new show ?thesis by (simp add: compacted_block_def)
  next
    case False
    then have u: "u = t0" using rs(1) seal new(2) by metis
    from out False consider "bucket_img medium t0 bid = ?img"
      | "bucket_img medium t0 bid = compacted_block ?pz buf n" by blast
    then show ?thesis
    proof cases
      case 1
      have "bucket_img medium t0 b = bucket_img medium s b" for b
        using touches_img_bucket [OF t one_bucket_other, of b] 1 by (cases "b = bid") simp_all
      then show ?thesis using inv u D
        by (simp add: db_inv_def bucket_ok_def blob_map_def fun_eq_iff bucket_log_def homed_def)
    next
      case 2
      with fin t u show ?thesis by simp
    qed
  qed
qed

end

text \<open>On a device that works again, recovery succeeds.\<close>

context working_env
begin

lemma scratch_sealed_bucket_works:
  assumes d: "device_ok good dsize wu s" and g: "geom_ok (bld E) peb s"
    and r: "scratch_sealed_bucket E s = Inl e"
  shows "e = EPERM"
proof -
  have sc: "BLOB_DB_SCRATCH_SECTOR < BLOB_DB_FIRST_BUCKET + n_buckets s"
    by (simp add: BLOB_DB_SCRATCH_SECTOR_def BLOB_DB_FIRST_BUCKET_def)
  have gd: "good (dev s)" using d by (simp add: device_ok_def)
  obtain b1 where 1: "store_read E s (peb_offset s BLOB_DB_SCRATCH_SECTOR + scratch_seal_off s) 16 = Inr b1"
    using read_works [OF gd, of "peb_offset s BLOB_DB_SCRATCH_SECTOR + scratch_seal_off s" 16]
      peb_fits [OF d sc seal_room [OF g]] by (auto simp: store_read_def add.assoc)
  obtain b2 where 2: "store_read E s (peb_offset s BLOB_DB_SCRATCH_SECTOR) (peb_size s) = Inr b2"
    using read_works [OF gd, of "peb_offset s BLOB_DB_SCRATCH_SECTOR" "peb_size s"]
      peb_fits [OF d sc order_refl] by (auto simp: store_read_def)
  show ?thesis using r 1 2
    by (auto simp: scratch_sealed_bucket_def Let_def split: if_splits option.splits)
qed

lemma recover_compaction_works:
  assumes d: "device_ok good dsize wu s" and g: "geom_ok (bld E) peb s" and bid: "bid < n_buckets s"
    and st: "unsealed (bld E) s (peb_img medium s BLOB_DB_SCRATCH_SECTOR) \<or>
      staged (bld E) s img (peb_img medium s BLOB_DB_SCRATCH_SECTOR) \<and> 16 \<le> length img \<and>
      length img \<le> scratch_seal_off s \<and> bucket_hdr_valid (bld E) img bid \<and> write_align s dvd length img"
  shows "\<exists>u. recover_compaction E s = (Inr (), u)"
proof (cases "scratch_sealed_bucket E s")
  case (Inl e)
  with scratch_sealed_bucket_works [OF d g] show ?thesis by (simp add: recover_compaction_def)
next
  case (Inr q)
  obtain b bb m where q: "q = (b, bb, m)" by (cases q)
  have "\<not> unsealed (bld E) s (peb_img medium s BLOB_DB_SCRATCH_SECTOR)"
    using scratch_sealed_bucket_unsealed [OF g] Inr by metis
  then have s: "staged (bld E) s img (peb_img medium s BLOB_DB_SCRATCH_SECTOR)" "16 \<le> length img"
    "length img \<le> scratch_seal_off s" "bucket_hdr_valid (bld E) img bid" "write_align s dvd length img"
    using st by blast+
  from scratch_sealed_bucket_staged(2) [OF g bid s(1-4)] Inr q have b: "b = bid" "take m bb = img" by auto
  have pz: "peb_size s = peb (dev s)" using g by (simp add: geom_ok_def)
  have lt: "BLOB_DB_FIRST_BUCKET + bid < BLOB_DB_FIRST_BUCKET + n_buckets s"
    "BLOB_DB_SCRATCH_SECTOR < BLOB_DB_FIRST_BUCKET + n_buckets s" using bucket_lt [OF g bid] by blast+
  obtain s1 where 1: "store_erase E s (bucket_offset s bid) (peb_size s) = (Inr (), s1)"
    and d1: "device_ok good dsize wu s1" and t1: "touches medium peb {BLOB_DB_FIRST_BUCKET + bid} s s1"
    using store_erase_works [OF d lt(1) pz] by (auto simp: bucket_offset_def)
  note D1 = touchesD [OF t1] touches_peb [OF t1]
  have "length img \<le> peb_size s" using s(3) by (simp add: scratch_seal_off_def)
  then obtain s2 where 2: "store_write E s1 (bucket_offset s1 bid) img = (Inr (), s2)"
    and d2: "device_ok good dsize wu s2" and t2: "touches medium peb {BLOB_DB_FIRST_BUCKET + bid} s1 s2"
    using store_write_works [OF d1, of "BLOB_DB_FIRST_BUCKET + bid" 0 img] lt s(5) D1
    by (auto simp: bucket_offset_def)
  note D2 = touchesD [OF t2] touches_peb [OF t2]
  obtain s3 where 3: "store_erase E s2 (peb_offset s2 BLOB_DB_SCRATCH_SECTOR) (peb_size s2) = (Inr (), s3)"
    using store_erase_works [OF d2, of BLOB_DB_SCRATCH_SECTOR] lt pz D1 D2 by auto
  show ?thesis using Inr q b 1 2 3 D1(9) by (simp add: recover_compaction_def)
qed

end

end
