(* ===== verification/Blob_Durable.thy ===== *)
theory Blob_Durable
  imports Blob_Mount Blob_Crash
begin

text \<open>
  The master log: what is committed is read back. The codecs of header and record round-trip, the
  binary search of \<open>master_log_load\<close> finds the end of a prefix log, and \<open>master_inv\<close>, the
  relation between the session and its master sectors, is kept by every commit, whether it
  appends or rotates. Under it the next mount picks the sector and the record of the last commit.
\<close>

section \<open>The record codec\<close>

lemma length_master_rec_body [simp]: "length (master_rec_body r n) = 44"
  by (simp add: master_rec_body_def)

lemma length_master_rec_stage [simp]: "48 \<le> rsz \<Longrightarrow> length (master_rec_stage B rsz r n g) = rsz"
  by (simp add: master_rec_stage_def Let_def)

lemma master_rec_stage_fields:
  "field 0 4 (master_rec_stage B rsz r n g) = le_bytes 4 n"
  "field 8 8 (master_rec_stage B rsz r n g) = le_bytes 8 (unat (r_next_id_hint r))"
  "field 16 8 (master_rec_stage B rsz r n g) = le_bytes 8 (unat (r_seq_hint r))"
  "field 24 8 (master_rec_stage B rsz r n g) = le_bytes 8 (unat (r_seg_owner r))"
  "field 36 4 (master_rec_stage B rsz r n g) = le_bytes 4 (unat (r_fuses r))"
  "field 44 4 (master_rec_stage B rsz r n g) = le_bytes 4 (unat (master_rec_crc B g (master_rec_body r n)))"
  "take 44 (master_rec_stage B rsz r n g) = master_rec_body r n"
  "master_rec_stage B rsz r n g ! 4 = 0"
proof -
  note d = master_rec_stage_def Let_def field_def
  show "field 44 4 (master_rec_stage B rsz r n g) = le_bytes 4 (unat (master_rec_crc B g (master_rec_body r n)))"
    "take 44 (master_rec_stage B rsz r n g) = master_rec_body r n"
    by (simp_all add: d)
  show "field 0 4 (master_rec_stage B rsz r n g) = le_bytes 4 n"
    "field 8 8 (master_rec_stage B rsz r n g) = le_bytes 8 (unat (r_next_id_hint r))"
    "field 16 8 (master_rec_stage B rsz r n g) = le_bytes 8 (unat (r_seq_hint r))"
    "field 24 8 (master_rec_stage B rsz r n g) = le_bytes 8 (unat (r_seg_owner r))"
    "field 36 4 (master_rec_stage B rsz r n g) = le_bytes 4 (unat (r_fuses r))"
    by (simp_all add: d) (simp_all add: master_rec_body_def)
  have "master_rec_stage B rsz r n g ! 4 = master_rec_body r n ! 4" by (simp add: d nth_append)
  also have "\<dots> = 0" by (simp add: master_rec_body_def nth_append le_bytes_numeral)
  finally show "master_rec_stage B rsz r n g ! 4 = 0" .
qed

lemma master_rec_stage_roundtrip:
  "n < 2 ^ 32 \<Longrightarrow> master_rec_of (master_rec_stage B rsz r n g) =
     r\<lparr>rec_no := n, r_crc32 := master_rec_crc B g (master_rec_body r n)\<rparr>"
  by (cases r) (simp add: master_rec_of_def master_rec_stage_fields)

lemma master_rec_crc_take: "master_rec_crc B g (take 44 bs) = master_rec_crc B g bs"
  by (simp add: master_rec_crc_def)

lemma master_rec_stage_ok: "n < 2 ^ 32 \<Longrightarrow> master_rec_ok B g (master_rec_stage B rsz r n g) n"
  using master_rec_crc_take [of B g "master_rec_stage B rsz r n g"]
  by (simp add: master_rec_ok_def master_rec_stage_roundtrip master_rec_stage_fields)

lemma master_rec_stage_written: "48 \<le> rsz \<Longrightarrow> \<not> all_erased (master_rec_stage B rsz r n g)"
  using master_rec_stage_fields(8) [of B rsz r n g]
  by (auto simp: all_erased_nth intro!: exI [of _ 4])

section \<open>The header codec\<close>

lemma length_master_prefix_bytes [simp]: "length (master_prefix_bytes B) = 12"
  by (simp add: master_prefix_bytes_def Let_def MASTER_MAGIC_def)

lemma length_master_hdr_body [simp]: "length (master_hdr_body E s g) = 60"
  by (simp add: master_hdr_body_def)

lemma length_master_hdr_bytes [simp]: "length (master_hdr_bytes E s g) = 64"
  by (simp add: master_hdr_bytes_def)

lemma master_prefix_fields:
  "take 4 (master_prefix_bytes B) = MASTER_MAGIC" "master_prefix_bytes B ! 4 = BLOB_DB_FORMAT_MAJOR"
  "field 6 2 (master_prefix_bytes B) = le_bytes 2 64"
  "field 10 2 (master_prefix_bytes B) = le_bytes 2 (unat (prefix_crc B (master_prefix_bytes B)))"
  "master_prefix_bytes B ! 0 = 0x42"
  by (simp_all add: master_prefix_bytes_def Let_def MASTER_MAGIC_def field_def nth_append
      BLOB_DB_BUILD_HDR_LEN_def prefix_crc_def)

text \<open>The header of a sector this build writes, as the classification reads it.\<close>

lemma master_hdr_bytes_fields:
  fixes E :: "'d env" and s :: "'d bdb" and g :: u32
  defines "hb \<equiv> master_hdr_bytes E s g"
  shows "take 12 hb = master_prefix_bytes (bld E)" "field 12 4 hb = le_bytes 4 (unat g)"
    "field 16 4 hb = le_bytes 4 (peb_size s)" "field 20 2 hb = le_bytes 2 (n_buckets s)"
    "field 22 2 hb = le_bytes 2 (rec_size s)" "field 24 4 hb = le_bytes 4 (unat (incompat s))"
    "field 28 4 hb = le_bytes 4 (unat (ro_compat s))" "field 32 4 hb = le_bytes 4 (unat (compat s))"
    "hb ! 36 = BLOB_DB_BUILD_SUITE" "field 56 2 hb = le_bytes 2 (MAX_PAYLOAD_LEN (bld E))"
    "field 58 2 hb = le_bytes 2 (write_align s)"
    "field 60 4 hb = le_bytes 4 (unat (master_hdr_crc (bld E) hb))"
proof -
  have "take 60 hb = master_hdr_body E s g" by (simp add: hb_def master_hdr_bytes_def)
  then have "master_hdr_crc (bld E) hb = master_hdr_crc (bld E) (master_hdr_body E s g)"
    by (simp add: master_hdr_crc_def)
  then show "field 60 4 hb = le_bytes 4 (unat (master_hdr_crc (bld E) hb))"
    by (simp add: hb_def master_hdr_bytes_def field_def)
qed (simp_all add: hb_def master_hdr_bytes_def field_def nth_append, simp_all add: master_hdr_body_def nth_append)


text \<open>Geometry as the master code relies on it.\<close>

definition master_geom :: "build \<Rightarrow> 'd bdb \<Rightarrow> bool" where
  "master_geom B s \<longleftrightarrow>
     rec_size s = round_up 48 (write_align s) \<and> 0 < log_cap s \<and> log_cap s < 2 ^ 16 \<and>
     BLOB_DB_MASTER_LOG_OFF + log_cap s * rec_size s \<le> peb_size s \<and> peb_size s < 2 ^ 32 \<and>
     0 < n_buckets s \<and> n_buckets s < 2 ^ 16 \<and> write_align s \<le> BLOB_DB_MAX_WRITE_ALIGN \<and>
     (\<exists>k. write_align s = 2 ^ k) \<and> MAX_PAYLOAD_LEN B < 2 ^ 16"

lemma master_geom_rec_size: "master_geom B s \<Longrightarrow> 48 \<le> rec_size s \<and> rec_size s < 2 ^ 16"
proof -
  assume g: "master_geom B s"
  then obtain k where k: "write_align s = 2 ^ k" by (auto simp: master_geom_def)
  have "rec_size s < 48 + 32"
    using round_up_less [of 48 k] k g by (auto simp: master_geom_def BLOB_DB_MAX_WRITE_ALIGN_def)
  moreover have "48 \<le> rec_size s" using round_up_ge [of 48 k] k g by (auto simp: master_geom_def)
  ultimately show ?thesis by simp
qed

lemma master_hdr_roundtrip:
  assumes g: "master_geom (bld E) s" and buf: "take 64 buf = master_hdr_bytes E s gn" and len: "64 \<le> length buf"
  shows "master_class_of (bld E) buf = MASTER_OK"
    and "h_rot_gen (master_hdr_of buf) = gn" "h_incompat (master_hdr_of buf) = incompat s"
    "h_ro_compat (master_hdr_of buf) = ro_compat s" "h_compat (master_hdr_of buf) = compat s"
    "h_max_payload_len (master_hdr_of buf) = MAX_PAYLOAD_LEN (bld E)"
    "h_peb_size (master_hdr_of buf) = peb_size s" "h_n_buckets (master_hdr_of buf) = n_buckets s"
    "h_rec_size (master_hdr_of buf) = rec_size s" "h_write_align (master_hdr_of buf) = write_align s"
    "h_suite (master_hdr_of buf) = BLOB_DB_BUILD_SUITE" "hdr_len (prefix (master_hdr_of buf)) = 64"
proof -
  note F = master_hdr_bytes_fields [of E s gn]
  have f: "field off n buf = field off n (master_hdr_bytes E s gn)" if "off + n \<le> 64" for off n
    using field_take [OF that, of buf] buf by simp
  have "take 12 buf = take 12 (take 64 buf)" by simp
  then have t12: "take 12 buf = master_prefix_bytes (bld E)" by (simp only: buf F(1))
  have p: "field off n buf = field off n (master_prefix_bytes (bld E))" if "off + n \<le> 12" for off n
    using field_take [OF that, of buf] t12 by simp
  have n: "buf ! i = master_prefix_bytes (bld E) ! i" if "i < 12" for i
    using nth_take [OF that, of buf] t12 by simp
  have "take 4 buf = take 4 (take 12 buf)" by simp
  then have m: "take 4 buf = MASTER_MAGIC" by (simp only: t12 master_prefix_fields(1))
  have c16: "prefix_crc (bld E) buf = prefix_crc (bld E) (master_prefix_bytes (bld E))"
    using t12 p [of 0 10] by (simp add: prefix_crc_def field_def)
  have c32: "master_hdr_crc (bld E) buf = master_hdr_crc (bld E) (master_hdr_bytes E s gn)"
    using f [of 0 60] by (simp add: master_hdr_crc_def field_def)
  have b0: "buf ! 0 = 0x42" using n [of 0] master_prefix_fields(5) by simp
  then have ne: "\<not> all_erased buf" using len by (auto simp: all_erased_nth intro!: exI [of _ 0])
  note rs = master_geom_rec_size [OF g]
  have wa: "write_align s < 65536" using g by (simp add: master_geom_def BLOB_DB_MAX_WRITE_ALIGN_def)
  show "h_rot_gen (master_hdr_of buf) = gn" "h_incompat (master_hdr_of buf) = incompat s"
    "h_ro_compat (master_hdr_of buf) = ro_compat s" "h_compat (master_hdr_of buf) = compat s"
    "h_max_payload_len (master_hdr_of buf) = MAX_PAYLOAD_LEN (bld E)"
    "h_peb_size (master_hdr_of buf) = peb_size s" "h_n_buckets (master_hdr_of buf) = n_buckets s"
    "h_rec_size (master_hdr_of buf) = rec_size s" "h_write_align (master_hdr_of buf) = write_align s"
    using g rs wa by (simp_all add: master_hdr_of_def f F master_geom_def)
  have "buf ! 36 = master_hdr_bytes E s gn ! 36" using nth_take [of 36 64 buf] buf by simp
  then show "h_suite (master_hdr_of buf) = BLOB_DB_BUILD_SUITE" by (simp add: master_hdr_of_def F)
  show hl: "hdr_len (prefix (master_hdr_of buf)) = 64"
    by (simp add: master_hdr_of_def compat_hdr_of_def p master_prefix_fields)
  show "master_class_of (bld E) buf = MASTER_OK"
    using ne m hl n [of 4]
    by (simp add: master_class_of_def Let_def compat_hdr_of_def p master_prefix_fields c16
        BLOB_DB_MASTER_HDR_MAX_def master_hdr_of_def f F c32)
qed

section \<open>The log of a sector\<close>

definition rec_slot :: "'d bdb \<Rightarrow> byte list \<Rightarrow> nat \<Rightarrow> byte list" where
  "rec_slot s img i = field (BLOB_DB_MASTER_LOG_OFF + i * rec_size s) (rec_size s) img"

text \<open>The written slots are the first \<open>e\<close>.\<close>

definition log_prefix :: "'d bdb \<Rightarrow> byte list \<Rightarrow> nat \<Rightarrow> bool" where
  "log_prefix s img e \<longleftrightarrow> e \<le> log_cap s \<and> (\<forall>i < e. \<not> all_erased (rec_slot s img i)) \<and>
     (\<forall>i. e \<le> i \<and> i < log_cap s \<longrightarrow> all_erased (rec_slot s img i))"

text \<open>The reference reading of a prefix log: the last record that verifies.\<close>

definition rec_verifies :: "build \<Rightarrow> 'd bdb \<Rightarrow> u32 \<Rightarrow> byte list \<Rightarrow> nat \<Rightarrow> bool" where
  "rec_verifies B s gn img i \<longleftrightarrow> master_rec_ok B gn (rec_slot s img i) i"

definition log_reading :: "build \<Rightarrow> 'd bdb \<Rightarrow> u32 \<Rightarrow> byte list \<Rightarrow> nat \<Rightarrow> master_log" where
  "log_reading B s gn img e = \<lparr>end_slot = e,
     newest_rec = map_option (\<lambda>i. (i, master_rec_of (rec_slot s img i)))
       (find (rec_verifies B s gn img) (rev [0..<e])),
     tail_bad = (0 < e \<and> \<not> rec_verifies B s gn img (e - 1))\<rparr>"

lemma rec_slot_inside:
  assumes "i < log_cap s" and g: "master_geom B s"
  shows "BLOB_DB_MASTER_LOG_OFF + i * rec_size s + rec_size s \<le> peb_size s"
proof -
  have "i * rec_size s + rec_size s \<le> log_cap s * rec_size s"
    using mult_le_mono1 [of "Suc i" "log_cap s" "rec_size s"] assms(1) by simp
  moreover have "BLOB_DB_MASTER_LOG_OFF + log_cap s * rec_size s \<le> peb_size s"
    using g unfolding master_geom_def by blast
  ultimately show ?thesis by linarith
qed

context blob_env
begin

lemma master_slot_read_spec:
  assumes r: "master_slot_read E s slot i = Inr bs" and i: "i < log_cap s" and g: "master_geom B s"
  shows "bs = rec_slot s (peb_img medium s slot) i"
proof -
  have "BLOB_DB_MASTER_LOG_OFF + i * rec_size s + rec_size s \<le> peb_size s"
    by (rule rec_slot_inside [OF i g])
  with r read_peb [of s slot "BLOB_DB_MASTER_LOG_OFF + i * rec_size s" "rec_size s" bs] show ?thesis
    by (simp add: master_slot_read_def rec_slot_def add.assoc)
qed

lemma log_search_spec:
  assumes g: "master_geom B s" and pre: "log_prefix s (peb_img medium s slot) e"
  shows "log_search E s slot lo hi = Inr x \<Longrightarrow> lo \<le> e \<Longrightarrow> e \<le> hi \<Longrightarrow> hi \<le> log_cap s \<Longrightarrow> x = e"
proof (induction "hi - lo" arbitrary: lo hi rule: less_induct)
  case less
  show ?case
  proof (cases "lo < hi")
    case False
    with less.prems show ?thesis by (simp add: log_search.simps [of E s slot lo])
  next
    case True
    let ?mid = "lo + (hi - lo) div 2"
    have mid: "lo \<le> ?mid" "?mid < hi" using True by auto
    obtain bs where rd: "master_slot_read E s slot ?mid = Inr bs"
      using less.prems(1) True by (auto simp: log_search.simps [of E s slot lo] Let_def andthen_Inr)
    have bs: "bs = rec_slot s (peb_img medium s slot) ?mid"
      by (rule master_slot_read_spec [OF rd _ g]) (use mid less.prems in linarith)
    have step: "log_search E s slot lo hi =
        (if all_erased bs then log_search E s slot lo ?mid else log_search E s slot (?mid + 1) hi)"
      using True rd by (simp add: log_search.simps [of E s slot lo hi] Let_def)
    show ?thesis
    proof (cases "all_erased bs")
      case er: True
      then have "e \<le> ?mid" using pre bs by (metis log_prefix_def not_le)
      moreover have "log_search E s slot lo ?mid = Inr x" using er step less.prems(1) by simp
      moreover have "?mid - lo < hi - lo" "?mid \<le> log_cap s" using mid less.prems(4) by linarith+
      ultimately show ?thesis using less.hyps [of ?mid lo] less.prems(2) by blast
    next
      case er: False
      have "?mid < log_cap s" using mid less.prems(4) by linarith
      then have "?mid < e" using pre bs er unfolding log_prefix_def by (meson not_le)
      moreover have "log_search E s slot (?mid + 1) hi = Inr x" using er step less.prems(1) by simp
      moreover have "hi - (?mid + 1) < hi - lo" "?mid < e \<Longrightarrow> ?mid + 1 \<le> e" using mid by linarith+
      ultimately show ?thesis using less.hyps [of hi "?mid + 1"] less.prems(3,4) by blast
    qed
  qed
qed

lemma log_walk_back_spec:
  assumes "master_geom B s" "log_walk_back E s slot gn e bad n = Inr r" "n \<le> log_cap s" "n \<le> e"
  defines "img \<equiv> peb_img medium s slot"
  shows "r = (map_option (\<lambda>i. (i, master_rec_of (rec_slot s img i))) (find (rec_verifies (bld E) s gn img) (rev [0..<n])),
    bad \<or> (n = e \<and> 0 < n \<and> \<not> rec_verifies (bld E) s gn img (n - 1)))"
  using assms(2-4)
proof (induction n arbitrary: bad)
  case 0
  then show ?case by simp
next
  case (Suc n)
  from Suc.prems(1) obtain bs where rd: "master_slot_read E s slot n = Inr bs"
    by (auto simp: andthen_Inr)
  have bs: "bs = rec_slot s img n"
    unfolding img_def by (rule master_slot_read_spec [OF rd _ assms(1)]) (use Suc.prems in simp)
  show ?case
  proof (cases "rec_verifies (bld E) s gn img n")
    case True
    with Suc.prems rd bs show ?thesis by (simp add: rec_verifies_def)
  next
    case False
    with Suc.prems rd bs have "log_walk_back E s slot gn e (bad \<or> Suc n = e) n = Inr r"
      by (simp add: rec_verifies_def)
    from Suc.IH [OF this] Suc.prems False show ?thesis by auto
  qed
qed

lemma master_log_load_spec:
  assumes l: "master_log_load E s slot gn = Inr l" and g: "master_geom B s"
    and pre: "log_prefix s (peb_img medium s slot) e"
  shows "l = log_reading (bld E) s gn (peb_img medium s slot) e"
proof -
  have e: "e \<le> log_cap s" using pre by (simp add: log_prefix_def)
  from l obtain x nw bad where "log_search E s slot 0 (log_cap s) = Inr x"
    and w: "log_walk_back E s slot gn x False x = Inr (nw, bad)"
    and l': "l = \<lparr>end_slot = x, newest_rec = nw, tail_bad = bad\<rparr>"
    by (auto simp: master_log_load_def andthen_Inr)
  then have x: "x = e" using log_search_spec [OF g pre] e by blast
  from log_walk_back_spec [OF g w] x e l' show ?thesis by (simp add: log_reading_def)
qed

end

section \<open>Frames of operations that also change the session\<close>

text \<open>The geometry a session derives from its store, and the erase blocks outside \<open>P\<close>, are as
  before.\<close>

definition frames ::
  "('d \<Rightarrow> nat \<Rightarrow> byte) \<Rightarrow> ('d \<Rightarrow> nat) \<Rightarrow> nat set \<Rightarrow> 'd bdb \<Rightarrow> 'd bdb \<Rightarrow> bool" where
  "frames medium peb P s s' \<longleftrightarrow>
     peb_size s' = peb_size s \<and> write_align s' = write_align s \<and> n_buckets s' = n_buckets s \<and>
     n_pebs s' = n_pebs s \<and> rec_size s' = rec_size s \<and> log_cap s' = log_cap s \<and>
     peb (dev s') = peb (dev s) \<and>
     (\<forall>p. p \<notin> P \<longrightarrow> peb_img medium s' p = peb_img medium s p)"

lemma touches_frames: "touches medium peb P s s' \<Longrightarrow> frames medium peb P s s'"
proof -
  assume t: "touches medium peb P s s'"
  then obtain d where "s' = s\<lparr>dev := d\<rparr>" by (auto simp: touches_def)
  with t show ?thesis by (auto simp: touches_def frames_def)
qed

lemma frames_refl [simp]: "frames medium peb P s s"
  by (simp add: frames_def)

lemma frames_trans: "frames medium peb P s t \<Longrightarrow> frames medium peb Q t u \<Longrightarrow> frames medium peb (P \<union> Q) s u"
  by (simp add: frames_def)

lemma frames_mono: "frames medium peb P s t \<Longrightarrow> P \<subseteq> Q \<Longrightarrow> frames medium peb Q s t"
  by (auto simp: frames_def)

lemma frames_img: "frames medium peb P s t \<Longrightarrow> p \<notin> P \<Longrightarrow> peb_img medium t p = peb_img medium s p"
  by (simp add: frames_def)

text \<open>The fields a commit may change are outside the frame.\<close>

lemma peb_img_fields [simp]:
  "peb_img medium (s\<lparr>active_master := a\<rparr>) p = peb_img medium s p"
  "peb_img medium (s\<lparr>rot_gen := g\<rparr>) p = peb_img medium s p"
  "peb_img medium (s\<lparr>log_next := n\<rparr>) p = peb_img medium s p"
  "peb_img medium (s\<lparr>log_failed := b\<rparr>) p = peb_img medium s p"
  "peb_img medium (s\<lparr>ceiling_reset := b\<rparr>) p = peb_img medium s p"
  "peb_img medium (s\<lparr>next_id := x\<rparr>) p = peb_img medium s p"
  "peb_img medium (s\<lparr>next_id_hint := x\<rparr>) p = peb_img medium s p"
  "peb_img medium (s\<lparr>incompat := f\<rparr>) p = peb_img medium s p"
  "peb_img medium (s\<lparr>ro_compat := f\<rparr>) p = peb_img medium s p"
  "peb_img medium (s\<lparr>compat := f\<rparr>) p = peb_img medium s p"
  "peb_img medium (s\<lparr>fuses := f\<rparr>) p = peb_img medium s p"
  "peb_img medium (s\<lparr>seg_owner := x\<rparr>) p = peb_img medium s p"
  "peb_img medium (s\<lparr>mounted := b\<rparr>) p = peb_img medium s p"
  "peb_img medium (s\<lparr>maint_start := n\<rparr>) p = peb_img medium s p"
  "peb_img medium (s\<lparr>maint_scanned := n\<rparr>) p = peb_img medium s p"
  "peb_img medium (s\<lparr>wedged := b\<rparr>) p = peb_img medium s p"
  by (simp_all add: peb_img_def peb_offset_def)

lemma frames_fields [simp]:
  "frames medium peb P s (t\<lparr>active_master := a\<rparr>) = frames medium peb P s t"
  "frames medium peb P s (t\<lparr>rot_gen := g\<rparr>) = frames medium peb P s t"
  "frames medium peb P s (t\<lparr>log_next := n\<rparr>) = frames medium peb P s t"
  "frames medium peb P s (t\<lparr>log_failed := b\<rparr>) = frames medium peb P s t"
  "frames medium peb P s (t\<lparr>ceiling_reset := b\<rparr>) = frames medium peb P s t"
  "frames medium peb P s (t\<lparr>next_id := x\<rparr>) = frames medium peb P s t"
  "frames medium peb P s (t\<lparr>next_id_hint := x\<rparr>) = frames medium peb P s t"
  "frames medium peb P s (t\<lparr>incompat := f\<rparr>) = frames medium peb P s t"
  "frames medium peb P s (t\<lparr>ro_compat := f\<rparr>) = frames medium peb P s t"
  "frames medium peb P s (t\<lparr>compat := f\<rparr>) = frames medium peb P s t"
  "frames medium peb P s (t\<lparr>fuses := f\<rparr>) = frames medium peb P s t"
  "frames medium peb P s (t\<lparr>seg_owner := x\<rparr>) = frames medium peb P s t"
  "frames medium peb P s (t\<lparr>mounted := b\<rparr>) = frames medium peb P s t"
  "frames medium peb P s (t\<lparr>wedged := b\<rparr>) = frames medium peb P s t"
  "frames medium peb P s (t\<lparr>maint_start := n\<rparr>) = frames medium peb P s t"
  "frames medium peb P s (t\<lparr>maint_scanned := n\<rparr>) = frames medium peb P s t"
  by (simp_all add: frames_def)

lemma geom_ok_frames: "frames medium peb P s t \<Longrightarrow> geom_ok B peb t = geom_ok B peb s"
  unfolding frames_def geom_ok_def by (elim conjE) (simp only:)

text \<open>The abstract content depends on the frame only.\<close>

lemma frames_content:
  assumes f: "frames medium peb P s t" and P: "\<And>b. b < n_buckets s \<Longrightarrow> BLOB_DB_FIRST_BUCKET + b \<notin> P"
  shows "geom_ok B peb t = geom_ok B peb s" "id_to_bucket t = id_to_bucket s"
    "b < n_buckets s \<Longrightarrow> bucket_img medium t b = bucket_img medium s b"
    "b < n_buckets s \<Longrightarrow> bucket_log E medium t b = bucket_log E medium s b"
    "0 < n_buckets s \<Longrightarrow> blob_map E medium t = blob_map E medium s"
    "db_inv E medium peb t = db_inv E medium peb s"
    "b < n_buckets s \<Longrightarrow> tail_droppable E medium t b = tail_droppable E medium s b"
proof -
  show g: "geom_ok B peb t = geom_ok B peb s" for B by (rule geom_ok_frames [OF f])
  show i: "id_to_bucket t = id_to_bucket s" using f by (simp add: frames_def id_to_bucket_def fun_eq_iff)
  show im: "b < n_buckets s \<Longrightarrow> bucket_img medium t b = bucket_img medium s b" for b
    using frames_img [OF f P] by (simp add: bucket_img_peb)
  show l: "b < n_buckets s \<Longrightarrow> bucket_log E medium t b = bucket_log E medium s b" for b
    using im f by (simp add: bucket_log_def frames_def)
  show "b < n_buckets s \<Longrightarrow> tail_droppable E medium t b = tail_droppable E medium s b"
    using im f by (simp add: tail_droppable_def ends_foreign_def frames_def)
  have "id_to_bucket s x < n_buckets s" if "0 < n_buckets s" for x using that by (simp add: id_to_bucket_def)
  then show "0 < n_buckets s \<Longrightarrow> blob_map E medium t = blob_map E medium s"
    by (simp add: fun_eq_iff blob_map_def i l)
  show "db_inv E medium peb t = db_inv E medium peb s"
    using f by (auto simp: db_inv_def g bucket_ok_def im l homed_def i frames_def)
qed

definition masters_only :: "nat set" where
  "masters_only = {BLOB_DB_MASTER_A_SECTOR, BLOB_DB_MASTER_B_SECTOR}"

lemma masters_only_bucket: "BLOB_DB_FIRST_BUCKET + b \<notin> masters_only"
  by (simp add: masters_only_def BLOB_DB_MASTER_A_SECTOR_def BLOB_DB_MASTER_B_SECTOR_def BLOB_DB_FIRST_BUCKET_def)

lemma frames_masters:
  "frames medium peb masters_only s t \<Longrightarrow> frames medium peb masters_only t u \<Longrightarrow> frames medium peb masters_only s u"
  using frames_trans by fastforce

section \<open>The session and its master sectors\<close>

text \<open>A sector whose header is at \<open>gn\<close> and whose log holds \<open>e\<close> records, the last of which verifies and
  carries the ceiling \<open>hint\<close>.\<close>

definition sector_holds :: "build \<Rightarrow> 'd bdb \<Rightarrow> byte list \<Rightarrow> u32 \<Rightarrow> nat \<Rightarrow> u64 \<Rightarrow> bool" where
  "sector_holds B s img gn e hint \<longleftrightarrow>
     master_class_of B (take 128 img) = MASTER_OK \<and> h_rot_gen (master_hdr_of (take 128 img)) = gn \<and>
     log_prefix s img e \<and> 0 < e \<and> rec_verifies B s gn img (e - 1) \<and>
     r_next_id_hint (master_rec_of (rec_slot s img (e - 1))) = hint"

definition sector_older :: "build \<Rightarrow> byte list \<Rightarrow> u32 \<Rightarrow> bool" where
  "sector_older B img gn \<longleftrightarrow>
     (master_class_of B (take 128 img) = MASTER_OK \<longrightarrow> h_rot_gen (master_hdr_of (take 128 img)) < gn)"

text \<open>The invariant between commits: the active sector holds the ceiling the session works under,
  the other one is older or unusable. \<open>log_failed\<close> is off: a failed append is followed by a
  rotation or by a mount.\<close>

definition master_base :: "'d env \<Rightarrow> ('d \<Rightarrow> nat \<Rightarrow> byte) \<Rightarrow> ('d \<Rightarrow> nat) \<Rightarrow> 'd bdb \<Rightarrow> bool" where
  "master_base E medium peb s \<longleftrightarrow>
     master_geom (bld E) s \<and> peb_size s = peb (dev s) \<and> active_master s < 2 \<and> \<not> log_failed s \<and>
     sector_holds (bld E) s (peb_img medium s (active_master s)) (rot_gen s) (log_next s) (next_id_hint s) \<and>
     sector_older (bld E) (peb_img medium s (other_master (active_master s))) (rot_gen s)"

definition master_inv :: "'d env \<Rightarrow> ('d \<Rightarrow> nat \<Rightarrow> byte) \<Rightarrow> ('d \<Rightarrow> nat) \<Rightarrow> 'd bdb \<Rightarrow> bool" where
  "master_inv E medium peb s \<longleftrightarrow>
     master_base E medium peb s \<and> \<not> ceiling_reset s \<and> next_id s \<le> next_id_hint s"

lemma field_splice_other:
  assumes "off + length bs \<le> length buf" "k + n \<le> length buf" "k + n \<le> off \<or> off + length bs \<le> k"
  shows "field k n (splice buf off bs) = field k n buf"
  using assms by (intro field_eqI) (auto simp: nth_splice)

lemma field_splice_same:
  "off + length bs \<le> length buf \<Longrightarrow> field off (length bs) (splice buf off bs) = bs"
  by (intro field_eqI) (auto simp: nth_splice)

lemma rec_slots_disjoint:
  "i \<noteq> e \<Longrightarrow> x + i * r + r \<le> x + e * r \<or> x + e * r + r \<le> x + i * (r :: nat)"
  using mult_le_mono1 [of "Suc i" e r] mult_le_mono1 [of "Suc e" i r] by (cases "i < e") auto

lemma sector_append:
  assumes h: "sector_holds B s img gn e hint" and e: "e < log_cap s" and g: "master_geom B' s"
    and len: "length img = peb_size s"
  shows "sector_holds B s (splice img (BLOB_DB_MASTER_LOG_OFF + e * rec_size s) (master_rec_stage B (rec_size s) r e gn))
    gn (e + 1) (r_next_id_hint r)"
proof -
  let ?rs = "rec_size s" and ?at = "BLOB_DB_MASTER_LOG_OFF + e * rec_size s"
  let ?bs = "master_rec_stage B ?rs r e gn"
  let ?img = "splice img ?at ?bs"
  have rs: "48 \<le> ?rs" and e32: "e < 2 ^ 32"
    using master_geom_rec_size [OF g] g e by (auto simp: master_geom_def)
  have lb: "length ?bs = ?rs" using rs by simp
  have fit: "?at + length ?bs \<le> length img" using rec_slot_inside [OF e g] len lb by simp
  have same: "rec_slot s ?img e = ?bs"
    using field_splice_same [OF fit] lb by (simp add: rec_slot_def)
  have other: "rec_slot s ?img i = rec_slot s img i" if "i \<noteq> e" "i < log_cap s" for i
    unfolding rec_slot_def
    by (rule field_splice_other [OF fit])
      (use rec_slot_inside [OF that(2) g] len lb rec_slots_disjoint [OF that(1), of BLOB_DB_MASTER_LOG_OFF ?rs] in simp_all)
  have "field 0 128 ?img = field 0 128 img"
    by (rule field_splice_other [OF fit]) (use fit in \<open>simp_all add: BLOB_DB_MASTER_LOG_OFF_def BLOB_DB_MASTER_HDR_MAX_def\<close>)
  then have hd: "take 128 ?img = take 128 img" by (simp add: field_def)
  have pre: "log_prefix s ?img (e + 1)"
    unfolding log_prefix_def
  proof (intro conjI allI impI)
    show "e + 1 \<le> log_cap s" using e by simp
    fix i assume "i < e + 1"
    then show "\<not> all_erased (rec_slot s ?img i)"
      using h other [of i] same master_rec_stage_written [OF rs] e
      by (cases "i = e") (auto simp: sector_holds_def log_prefix_def)
  next
    fix i assume "e + 1 \<le> i \<and> i < log_cap s"
    then show "all_erased (rec_slot s ?img i)"
      using h other [of i] by (auto simp: sector_holds_def log_prefix_def)
  qed
  show ?thesis
    using h pre hd same master_rec_stage_ok [OF e32] master_rec_stage_roundtrip [OF e32]
    by (simp add: sector_holds_def rec_verifies_def)
qed

lemma sector_fresh:
  fixes E :: "'d env" and s :: "'d bdb" and gn :: u32 and r :: blob_db_master_rec
  assumes g: "master_geom (bld E) s"
  defines "buf \<equiv> master_hdr_bytes E s gn @ replicate (BLOB_DB_MASTER_LOG_OFF - 64) 0xff @
      master_rec_stage (bld E) (rec_size s) r 0 gn"
  shows "sector_holds (bld E) s (buf @ replicate (peb_size s - length buf) 0xff) gn 1 (r_next_id_hint r)"
    and "length buf \<le> peb_size s" "length buf = 128 + rec_size s"
proof -
  let ?rs = "rec_size s" and ?img = "buf @ replicate (peb_size s - length buf) 0xff"
  let ?bs = "master_rec_stage (bld E) ?rs r 0 gn"
  have rs: "48 \<le> ?rs" using master_geom_rec_size [OF g] by simp
  have cap: "0 < log_cap s" using g by (simp add: master_geom_def)
  show lb: "length buf = 128 + ?rs"
    using rs by (simp add: buf_def BLOB_DB_MASTER_LOG_OFF_def BLOB_DB_MASTER_HDR_MAX_def)
  show fit: "length buf \<le> peb_size s"
    using rec_slot_inside [OF cap g] lb by (simp add: BLOB_DB_MASTER_LOG_OFF_def BLOB_DB_MASTER_HDR_MAX_def)
  have h: "take 64 (take 128 ?img) = master_hdr_bytes E s gn" "64 \<le> length (take 128 ?img)"
    using lb by (simp_all add: buf_def)
  have s0: "rec_slot s ?img 0 = ?bs"
    using rs by (simp add: rec_slot_def field_def buf_def BLOB_DB_MASTER_LOG_OFF_def BLOB_DB_MASTER_HDR_MAX_def)
  have si: "all_erased (rec_slot s ?img i)" if i: "1 \<le> i" "i < log_cap s" for i
  proof -
    have at: "length buf \<le> BLOB_DB_MASTER_LOG_OFF + i * ?rs"
      using mult_le_mono1 [OF i(1), of ?rs] lb by (simp add: BLOB_DB_MASTER_LOG_OFF_def BLOB_DB_MASTER_HDR_MAX_def)
    then have "drop (BLOB_DB_MASTER_LOG_OFF + i * ?rs) ?img =
        replicate (peb_size s - length buf - (BLOB_DB_MASTER_LOG_OFF + i * ?rs - length buf)) 0xff" by simp
    then show ?thesis by (simp only: rec_slot_def field_def take_replicate all_erased_replicate)
  qed
  have "log_prefix s ?img 1"
    using cap s0 si master_rec_stage_written [OF rs] by (auto simp: log_prefix_def)
  then show "sector_holds (bld E) s ?img gn 1 (r_next_id_hint r)"
    using master_hdr_roundtrip(1,2) [OF g h] s0 master_rec_stage_ok [of 0 "bld E" gn ?rs r]
      master_rec_stage_roundtrip [of 0 "bld E" ?rs r gn]
    by (simp add: sector_holds_def rec_verifies_def)
qed

lemma sector_holds_cong:
  "rec_size s = rec_size t \<Longrightarrow> log_cap s = log_cap t \<Longrightarrow> sector_holds B s = sector_holds B t"
  by (simp add: fun_eq_iff sector_holds_def log_prefix_def rec_slot_def [abs_def] rec_verifies_def)

lemma master_geom_frames: "frames medium peb P s t \<Longrightarrow> master_geom B t = master_geom B s"
  by (simp add: frames_def master_geom_def)

lemma other_master_simps [simp]:
  "a < 2 \<Longrightarrow> other_master (other_master a) = a" "other_master a < 2" "a < 2 \<Longrightarrow> other_master a \<noteq> a"
  "a < 2 \<Longrightarrow> a \<noteq> other_master a"
  by (auto simp: other_master_def)

lemma master_sector: "a < 2 \<Longrightarrow> a \<in> masters_only"
  by (auto simp: masters_only_def BLOB_DB_MASTER_A_SECTOR_def BLOB_DB_MASTER_B_SECTOR_def)

context blob_env
begin

lemma master_write_sector_spec:
  assumes w: "master_write_sector E s slot gn r = (Inr (), s')" and g: "master_geom (bld E) s"
    and pz: "peb_size s = peb (dev s)"
  shows "touches medium peb {slot} s s'"
    "sector_holds (bld E) s (peb_img medium s' slot) gn 1 (r_next_id_hint r)"
    "take 64 (peb_img medium s' slot) = master_hdr_bytes E s gn"
  using store_replace_touches [OF w [unfolded master_write_sector_def] pz]
    store_replace_img [OF w [unfolded master_write_sector_def] pz] sector_fresh [OF g, of gn r]
  by simp_all

lemma master_rotate_spec:
  assumes r: "master_rotate E s r = (Inr (), s')" and g: "master_geom (bld E) s" and pz: "peb_size s = peb (dev s)"
    and a: "active_master s < 2" and old: "sector_older (bld E) (peb_img medium s (active_master s)) (rot_gen s + 1)"
  shows "frames medium peb masters_only s s'"
    "sector_holds (bld E) s' (peb_img medium s' (active_master s')) (rot_gen s') (log_next s') (r_next_id_hint r)"
    "sector_older (bld E) (peb_img medium s' (other_master (active_master s'))) (rot_gen s')"
    "active_master s' < 2" "\<not> log_failed s'" "next_id s' = next_id s" "next_id_hint s' = next_id_hint s"
    "ceiling_reset s' = ceiling_reset s" "rot_gen s' = rot_gen s + 1"
proof -
  let ?o = "other_master (active_master s)"
  from r obtain t where w: "master_write_sector E s ?o (rot_gen s + 1) r = (Inr (), t)"
    and s': "s' = t\<lparr>active_master := other_master (active_master t), rot_gen := rot_gen t + 1, log_next := 1, log_failed := False\<rparr>"
    by (auto simp: master_rotate_def seqs_Inr split: if_splits)
  note sp = master_write_sector_spec [OF w g pz]
  obtain d where t: "t = s\<lparr>dev := d\<rparr>" using sp(1) by (auto simp: touches_def)
  show "frames medium peb masters_only s s'"
    unfolding s' using frames_mono [OF touches_frames [OF sp(1)], of masters_only] master_sector [of ?o] by simp
  have "sector_holds (bld E) s' = sector_holds (bld E) s"
    by (rule sector_holds_cong) (simp_all add: s' t)
  then show "sector_holds (bld E) s' (peb_img medium s' (active_master s')) (rot_gen s') (log_next s') (r_next_id_hint r)"
    using sp(2) by (simp add: s' t)
  have "peb_img medium s' (active_master s) = peb_img medium s (active_master s)"
    using touches_img [OF sp(1), of "active_master s"] a by (simp add: s')
  then show "sector_older (bld E) (peb_img medium s' (other_master (active_master s'))) (rot_gen s')"
    using old a by (simp add: s' t)
  show "active_master s' < 2" "\<not> log_failed s'" "next_id s' = next_id s" "next_id_hint s' = next_id_hint s"
    "ceiling_reset s' = ceiling_reset s" "rot_gen s' = rot_gen s + 1"
    by (simp_all add: s' t)
qed


lemma master_append_spec:
  assumes a: "master_append E s r = (Inr (), s')" and b: "master_base E medium peb s" and room: "log_next s < log_cap s"
  shows "frames medium peb masters_only s s'" "s' = s\<lparr>dev := dev s', log_next := log_next s + 1\<rparr>"
    "sector_holds (bld E) s (peb_img medium s' (active_master s)) (rot_gen s) (log_next s + 1) (r_next_id_hint r)"
    "peb_img medium s' (other_master (active_master s)) = peb_img medium s (other_master (active_master s))"
proof -
  let ?at = "BLOB_DB_MASTER_LOG_OFF + log_next s * rec_size s" and ?a = "active_master s"
  let ?bs = "master_rec_stage (bld E) (rec_size s) r (log_next s) (rot_gen s)"
  from a obtain t where w: "store_write E s (peb_offset s ?a + ?at) ?bs = (Inr (), t)"
    and s': "s' = t\<lparr>log_next := log_next t + 1\<rparr>"
    by (auto simp: master_append_def Let_def add.assoc split: prod.splits sum.splits)
  have g: "master_geom (bld E) s" and h: "sector_holds (bld E) s (peb_img medium s ?a) (rot_gen s) (log_next s) (next_id_hint s)"
    and a2: "?a < 2" using b by (simp_all add: master_base_def)
  have lb: "length ?bs = rec_size s" using master_geom_rec_size [OF g] by simp
  have fit: "?at + length ?bs \<le> peb_size s" using rec_slot_inside [OF room g] lb by simp
  note t1 = store_write_touches [OF w fit]
  obtain d where t: "t = s\<lparr>dev := d\<rparr>" using t1 by (auto simp: touches_def)
  have "all_erased (rec_slot s (peb_img medium s ?a) (log_next s))"
    using h room by (simp add: sector_holds_def log_prefix_def)
  then have "peb_img medium s ?a ! (?at + i) = 0xff" if "i < length ?bs" for i
    using that fit lb by (simp add: rec_slot_def all_erased_nth)
  then have img: "peb_img medium t ?a = splice (peb_img medium s ?a) ?at ?bs"
    using store_write_img [OF w fit] by blast
  show "frames medium peb masters_only s s'"
    unfolding s' using frames_mono [OF touches_frames [OF t1], of masters_only] master_sector [OF a2] by simp
  show "s' = s\<lparr>dev := dev s', log_next := log_next s + 1\<rparr>" by (simp add: s' t)
  show "sector_holds (bld E) s (peb_img medium s' ?a) (rot_gen s) (log_next s + 1) (r_next_id_hint r)"
    using sector_append [OF h room g] by (simp add: s' img)
  show "peb_img medium s' (other_master ?a) = peb_img medium s (other_master ?a)"
    using touches_img [OF t1, of "other_master ?a"] a2 by (simp add: s')
qed

lemma rot_gen_succ: "(g :: u32) \<noteq> 0xffffffff \<Longrightarrow> g < g + 1"
proof -
  assume "g \<noteq> 0xffffffff"
  moreover have "(0xffffffff :: u32) = - 1" by simp
  ultimately have "g \<noteq> - 1" by metis
  then have "1 + g \<noteq> 0" by (metis add.commute add_eq_0_iff2)
  then show ?thesis by (simp add: word_less_nat_alt unatSuc add.commute)
qed

lemma master_commit_how_spec:
  assumes c: "master_commit_how E s force = (Inr (), s')" and b: "master_base E medium peb s"
  shows "frames medium peb masters_only s s'" "master_base E medium peb s'" "\<not> ceiling_reset s'"
    "next_id s' = next_id s" "next_id_hint s' = r_next_id_hint (master_rec_fill s)"
proof -
  let ?r = "master_rec_fill s"
  have g: "master_geom (bld E) s" and pz: "peb_size s = peb (dev s)" and a2: "active_master s < 2"
    and h: "sector_holds (bld E) s (peb_img medium s (active_master s)) (rot_gen s) (log_next s) (next_id_hint s)"
    and o: "sector_older (bld E) (peb_img medium s (other_master (active_master s))) (rot_gen s)"
    and nf: "\<not> log_failed s" using b by (simp_all add: master_base_def)
  have "frames medium peb masters_only s s' \<and> master_base E medium peb s' \<and> \<not> ceiling_reset s' \<and>
    next_id s' = next_id s \<and> next_id_hint s' = r_next_id_hint ?r"
  proof (cases "force \<or> log_failed s \<or> log_cap s \<le> log_next s")
    case True
    with c obtain t where r: "master_rotate E s ?r = (Inr (), t)"
      and s': "s' = t\<lparr>ceiling_reset := False, next_id_hint := r_next_id_hint ?r\<rparr>"
      by (auto simp: master_commit_how_def Let_def split: prod.splits sum.splits)
    have "rot_gen s \<noteq> 0xffffffff" using r by (auto simp: master_rotate_def)
    then have "sector_older (bld E) (peb_img medium s (active_master s)) (rot_gen s + 1)"
      using h rot_gen_succ by (auto simp: sector_holds_def sector_older_def)
    note sp = master_rotate_spec [OF r g pz a2 this]
    have f: "frames medium peb masters_only s s'" using sp(1) by (simp add: s')
    have "master_geom (bld E) s'" "peb_size s' = peb (dev s')"
      using master_geom_frames [OF f] g f pz by (simp_all add: frames_def)
    moreover have "sector_holds (bld E) s' = sector_holds (bld E) t"
      by (rule sector_holds_cong) (simp_all add: s')
    ultimately show ?thesis using sp f by (simp add: master_base_def) (simp add: s')
  next
    case False
    with c obtain t where r: "master_append E s ?r = (Inr (), t)"
      and s': "s' = t\<lparr>ceiling_reset := False, next_id_hint := r_next_id_hint ?r\<rparr>"
      by (auto simp: master_commit_how_def Let_def split: prod.splits sum.splits)
    note sp = master_append_spec [OF r b]
    have room: "log_next s < log_cap s" using False by simp
    obtain d where t: "t = s\<lparr>dev := d, log_next := log_next s + 1\<rparr>" using sp(2) [OF room] by blast
    have f: "frames medium peb masters_only s s'" using sp(1) [OF room] by (simp add: s')
    have "master_geom (bld E) s'" "peb_size s' = peb (dev s')"
      using master_geom_frames [OF f] g f pz by (simp_all add: frames_def)
    moreover have "sector_holds (bld E) s' = sector_holds (bld E) s"
      by (rule sector_holds_cong) (simp_all add: s' t)
    ultimately show ?thesis using sp(3,4) [OF room] f a2 nf o
      by (simp add: master_base_def) (simp add: s' t)
  qed
  then show "frames medium peb masters_only s s'" "master_base E medium peb s'" "\<not> ceiling_reset s'"
    "next_id s' = next_id s" "next_id_hint s' = r_next_id_hint (master_rec_fill s)" by blast+
qed


end

section \<open>Commits and allocation\<close>

text \<open>A commit touches the device and the master fields of the session.\<close>

lemma master_commit_how_session:
  "master_commit_how E s force = (r, s') \<Longrightarrow> wedged s' = wedged s \<and> mounted s' = mounted s \<and> n_buckets s' = n_buckets s"
  by (auto simp: master_commit_how_def Let_def master_rotate_def master_append_def master_write_sector_def
      store_replace_def store_write_def seqs_def split: prod.splits sum.splits if_splits)

text \<open>Ids do not wrap within the reach of a ceiling.\<close>

definition ids_left :: "'d bdb \<Rightarrow> bool" where
  "ids_left s \<longleftrightarrow> unat (next_id s) + 258 < 2 ^ 64"

lemma rec_fill_hint:
  assumes "ids_left s"
  shows "next_id s < r_next_id_hint (master_rec_fill s)"
    "\<not> ceiling_reset s \<Longrightarrow> next_id_hint s \<le> r_next_id_hint (master_rec_fill s)"
proof -
  have "unat (next_id s + 1 + BLOB_DB_ID_HINT_STEP) = unat (next_id s) + 257"
    using assms unat_add_lem [of "next_id s" "257 :: u64"]
    by (simp add: ids_left_def BLOB_DB_ID_HINT_STEP_def add.assoc)
  then have "next_id s < next_id s + 1 + BLOB_DB_ID_HINT_STEP" by (simp add: word_less_nat_alt)
  then show "next_id s < r_next_id_hint (master_rec_fill s)"
    by (auto simp: master_rec_fill_def Let_def less_max_iff_disj)
  show "\<not> ceiling_reset s \<Longrightarrow> next_id_hint s \<le> r_next_id_hint (master_rec_fill s)"
    by (simp add: master_rec_fill_def Let_def)
qed

context blob_env
begin

lemma master_commit_how_inv:
  assumes c: "master_commit_how E s force = (Inr (), s')" and b: "master_base E medium peb s" and i: "ids_left s"
  shows "master_inv E medium peb s'" "next_id s' < next_id_hint s'" "ids_left s'"
    "\<not> ceiling_reset s \<Longrightarrow> next_id_hint s \<le> next_id_hint s'"
  using master_commit_how_spec [OF c b] rec_fill_hint [OF i] i
  by (simp_all add: master_inv_def ids_left_def)

lemma alloc_id_impl_spec:
  assumes a: "alloc_id_impl E s = (x, s')" and x: "x \<noteq> 0" and inv: "master_inv E medium peb s" and i: "ids_left s"
  shows "x = next_id s" "next_id s' = x + 1" "x < next_id_hint s'" "master_inv E medium peb s'"
    "frames medium peb masters_only s s'" "next_id_hint s \<le> next_id_hint s'"
proof -
  from a x have m: "mounted s" by (auto simp: alloc_id_impl_def split: if_splits)
  have "x = next_id s \<and> next_id s' = x + 1 \<and> x < next_id_hint s' \<and> master_inv E medium peb s' \<and>
    frames medium peb masters_only s s' \<and> next_id_hint s \<le> next_id_hint s'"
  proof (cases "next_id_hint s \<le> next_id s")
    case True
    with a x m obtain t where c: "master_commit_how E s False = (Inr (), t)" and s': "x = next_id t"
      "s' = t\<lparr>next_id := next_id t + 1\<rparr>"
      by (auto simp: alloc_id_impl_def persist_next_id_hint_def master_commit_def Let_def
          split: prod.splits sum.splits)
    have b: "master_base E medium peb s" "\<not> ceiling_reset s" using inv by (simp_all add: master_inv_def)
    note sp = master_commit_how_spec [OF c b(1)] and iv = master_commit_how_inv [OF c b(1) i]
    have mb: "master_base E medium peb s' = master_base E medium peb t"
      using sector_holds_cong [of s' t "bld E"] by (simp add: s' master_base_def) (simp add: master_geom_def)
    have "next_id t + 1 \<le> next_id_hint t" using iv(2) by (rule inc_le)
    then show ?thesis using sp iv b mb by (simp add: s' master_inv_def)
  next
    case False
    with a m have s': "x = next_id s" "s' = s\<lparr>next_id := next_id s + 1\<rparr>"
      by (auto simp: alloc_id_impl_def Let_def)
    have mb: "master_base E medium peb s' = master_base E medium peb s"
      using sector_holds_cong [of s' s "bld E"] by (simp add: s' master_base_def) (simp add: master_geom_def)
    have "next_id s + 1 \<le> next_id_hint s" using False by (intro inc_le) simp
    then show ?thesis using False inv mb by (simp add: s' master_inv_def)
  qed
  then show "x = next_id s" "next_id s' = x + 1" "x < next_id_hint s'" "master_inv E medium peb s'"
    "frames medium peb masters_only s s'" "next_id_hint s \<le> next_id_hint s'" by blast+
qed

end

end
