(* ===== verification/Blob_Life.thy ===== *)
theory Blob_Life
  imports Blob_Durable
begin

text \<open>
  The life of a store: what format and erase-all leave behind, and what a mount finds after a
  shutdown or a power loss. A mount of a store whose session satisfied \<open>master_inv\<close> takes the
  ceiling of the last commit, so no id handed out before is handed out again, and the objects
  are those of before.
\<close>

section \<open>Picking the master\<close>

lemma log_reading_newest:
  assumes "0 < e" "rec_verifies B s gn img (e - 1)"
  shows "newest_rec (log_reading B s gn img e) = Some (e - 1, master_rec_of (rec_slot s img (e - 1)))"
    "\<not> tail_bad (log_reading B s gn img e)" "end_slot (log_reading B s gn img e) = e"
proof -
  obtain k where "e = Suc k" using assms(1) by (cases e) auto
  then show "newest_rec (log_reading B s gn img e) = Some (e - 1, master_rec_of (rec_slot s img (e - 1)))"
    "\<not> tail_bad (log_reading B s gn img e)" "end_slot (log_reading B s gn img e) = e"
    using assms(2) by (simp_all add: log_reading_def)
qed

lemma master_geom_128: "master_geom B s \<Longrightarrow> 128 \<le> peb_size s"
  using rec_slot_inside [of 0 s B] by (simp add: BLOB_DB_MASTER_LOG_OFF_def BLOB_DB_MASTER_HDR_MAX_def master_geom_def)

text \<open>The stages of a mount that succeeds.\<close>

lemma mount_openE:
  assumes "mount_open E s = (Inr (), s')"
  obtains m s1 s2 pick scan endrot s3 s4 rotated s5 s6 s7 where
    "classify_masters E s = Inr m" "m_class m 0 \<noteq> MASTER_FOREIGN" "m_class m 1 \<noteq> MASTER_FOREIGN"
    "mount_accept E (s\<lparr>incompat := 0, ro_compat := 0, compat := 0\<rparr>) m 0 = (Inr (), s1)"
    "mount_accept E s1 m 1 = (Inr (), s2)"
    "mount_pick E s2 m = Inr pick" "mount_adopt E s2 m pick = (Inr (scan, endrot), s3)"
    "mount_scan E s3 scan = (Inr (), s4)" "mount_upgrade E s4 m pick = (Inr rotated, s5)"
    "mount_end_doubt E s5 scan endrot rotated = (Inr (), s6)" "mount_root E s6 = (Inr (), s7)"
    "s' = s7\<lparr>mounted := True\<rparr>"
proof -
  from assms obtain m where m: "classify_masters E s = Inr m" by (auto simp: mount_open_def reads_Inr)
  from assms m have nf: "m_class m 0 \<noteq> MASTER_FOREIGN" "m_class m 1 \<noteq> MASTER_FOREIGN"
    by (auto simp: mount_open_def)
  from assms m nf obtain s1 where s1: "mount_accept E (s\<lparr>incompat := 0, ro_compat := 0, compat := 0\<rparr>) m 0 = (Inr (), s1)"
    by (auto simp: mount_open_def seqs_Inr)
  from assms m nf s1 obtain s2 where s2: "mount_accept E s1 m 1 = (Inr (), s2)"
    by (auto simp: mount_open_def seqs_Inr)
  from assms m nf s1 s2 obtain pick where p: "mount_pick E s2 m = Inr pick"
    by (auto simp: mount_open_def reads_Inr split: if_splits)
  from assms m nf s1 s2 p have "seqs (mount_adopt E s2 m pick) (\<lambda>(scan_ids, end_by_rotation) s.
     seqs (mount_scan E s scan_ids) (\<lambda>_ s.
     seqs (mount_upgrade E s m pick) (\<lambda>rotated s.
     seqs (mount_end_doubt E s scan_ids end_by_rotation rotated) (\<lambda>_ s.
     seqs (mount_root E s) (\<lambda>_ s. (Inr (), s\<lparr>mounted := True\<rparr>)))))) = (Inr (), s')"
    by (auto simp: mount_open_def split: if_splits)
  then show ?thesis using that [OF m nf s1 s2 p] by (auto simp: seqs_Inr)
qed

context blob_env
begin

lemma classify_masters_spec:
  assumes "classify_masters E s = Inr m" "128 \<le> peb_size s" "i < 2"
  shows "m_class m i = master_class_of (bld E) (take 128 (peb_img medium s i))"
    "m_hdr m i = master_hdr_of (take 128 (peb_img medium s i))"
proof -
  have one: "mi = (master_class_of (bld E) (take 128 (peb_img medium s j)), master_hdr_of (take 128 (peb_img medium s j)))"
    if "master_classify E s j = Inr mi" for j mi
    using that read_peb [of s j 0 128] assms(2)
    by (auto simp: master_classify_def andthen_Inr BLOB_DB_MASTER_HDR_MAX_def field_def)
  from assms(1) obtain m0 m1 where m: "m = (m0, m1)" "master_classify E s 0 = Inr m0" "master_classify E s 1 = Inr m1"
    by (auto simp: classify_masters_def andthen_Inr)
  then show "m_class m i = master_class_of (bld E) (take 128 (peb_img medium s i))"
    "m_hdr m i = master_hdr_of (take 128 (peb_img medium s i))"
    using one [of 0 m0] one [of 1 m1] assms(3) by (auto simp: m_class_def m_hdr_def of_sector_def less_2_cases_iff)
qed

lemma mount_pick_spec:
  assumes c: "classify_masters E s = Inr m" and g: "master_geom (bld E) s" and a: "a < 2"
    and h: "sector_holds (bld E) s (peb_img medium s a) gn e hint"
    and o: "sector_older (bld E) (peb_img medium s (other_master a)) gn"
    and p: "mount_pick E t m = Inr pick" and f: "frames medium peb {} s t"
  shows "pick = Some (a, False, log_reading (bld E) s gn (peb_img medium s a) e)"
    "m_class m a = MASTER_OK" "h_rot_gen (m_hdr m a) = gn"
proof -
  note cm = classify_masters_spec [OF c master_geom_128 [OF g]]
  show ca: "m_class m a = MASTER_OK" and ha: "h_rot_gen (m_hdr m a) = gn"
    using cm [OF a] h by (simp_all add: sector_holds_def)
  have co: "m_class m (other_master a) = MASTER_OK \<Longrightarrow> h_rot_gen (m_hdr m (other_master a)) < gn"
    using cm [of "other_master a"] o by (simp add: sector_older_def)
  have img: "peb_img medium t q = peb_img medium s q" for q using frames_img [OF f] by simp
  have gt: "master_geom (bld E) t" using master_geom_frames [OF f] g by simp
  have pre: "log_prefix t (peb_img medium t a) e"
    using h f by (simp add: sector_holds_def img log_prefix_def rec_slot_def frames_def)
  have load: "l = log_reading (bld E) s gn (peb_img medium s a) e" if "master_log_load E t a gn = Inr l" for l
    using master_log_load_spec [OF that gt pre] f
    by (simp add: img log_reading_def rec_verifies_def [abs_def] rec_slot_def frames_def)
  have nw: "newest_rec (log_reading (bld E) s gn (peb_img medium s a) e) \<noteq> None"
    using log_reading_newest(1) [of e "bld E" s gn "peb_img medium s a"] h by (simp add: sector_holds_def)
  have hi: "(if \<not> both_ok m then if m_class m 0 = MASTER_OK then 0 else 1
      else if h_rot_gen (m_hdr m 0) > h_rot_gen (m_hdr m 1) then 0 else 1) = a"
    using a ca ha co by (auto simp: both_ok_def other_master_def less_2_cases_iff)
  have "m_class m 0 = MASTER_OK \<or> m_class m 1 = MASTER_OK" using ca a by (auto simp: less_2_cases_iff)
  with p hi ha obtain l where "master_log_load E t a gn = Inr l"
    "(if newest_rec l \<noteq> None then Inr (Some (a, False, l)) else
       if m_class m (other_master a) = MASTER_OK then
            andthen (master_log_load E t (other_master a) (h_rot_gen (m_hdr m (other_master a)))) (\<lambda>log.
              if newest_rec log \<noteq> None then Inr (Some (other_master a, True, log)) else Inr None)
          else Inr None) = Inr pick"
    by (auto simp: mount_pick_def Let_def andthen_Inr)
  with load [of l] nw show "pick = Some (a, False, log_reading (bld E) s gn (peb_img medium s a) e)" by simp
qed


end

section \<open>The stages on a store with valid masters\<close>

lemma mount_accept_fields:
  "mount_accept E s m i = (Inr (), s') \<Longrightarrow> \<exists>f1 f2 f3. s' = s\<lparr>incompat := f1, ro_compat := f2, compat := f3\<rparr>"
  by (cases s) (auto simp: mount_accept_def Let_def reads_Inr split: if_splits)

lemma mount_adopt_picked:
  assumes "mount_adopt E s m (Some (a, fb, l)) = (Inr (scan, endrot), s')" "newest_rec l = Some (i, r)"
  shows "recover_compaction E (adopt_rec s a (h_rot_gen (m_hdr m a)) (end_slot l) r) = (Inr (), s')"
  using assms by (auto simp: mount_adopt_def Let_def seqs_Inr)

lemma mount_scan_fields:
  "mount_scan E s scan = (Inr (), s') \<Longrightarrow> \<exists>x. s' = s\<lparr>next_id := x\<rparr> \<and> next_id s \<le> x"
  by (cases s) (auto simp: mount_scan_def reads_Inr split: if_splits)

lemma master_base_fields [simp]:
  "master_base E medium peb (s\<lparr>next_id := x\<rparr>) = master_base E medium peb s"
  "master_base E medium peb (s\<lparr>ceiling_reset := b\<rparr>) = master_base E medium peb s"
  "master_base E medium peb (s\<lparr>mounted := b\<rparr>) = master_base E medium peb s"
  using sector_holds_cong [of "s\<lparr>next_id := x\<rparr>" s "bld E"] sector_holds_cong [of "s\<lparr>ceiling_reset := b\<rparr>" s "bld E"]
    sector_holds_cong [of "s\<lparr>mounted := b\<rparr>" s "bld E"]
  by (simp_all only: master_base_def) (simp_all add: master_geom_def)

lemma unsealed_cong:
  assumes "peb_size s = peb_size t" "write_align s = write_align t"
  shows "unsealed B s scr = unsealed B t scr"
proof -
  have "scratch_seal_off s = scratch_seal_off t" using assms by (simp add: scratch_seal_off_def scratch_seal_len_def)
  then show ?thesis unfolding unsealed_def scratch_seal_valid_def by (simp only:)
qed

text \<open>A state over the same masters adopts the invariant.\<close>

lemma master_base_frames:
  assumes b: "master_base E medium peb s" and f: "frames medium peb P s t" and P: "P \<inter> masters_only = {}"
    and "active_master t = active_master s" "rot_gen t = rot_gen s" "log_next t = log_next s"
    "next_id_hint t = next_id_hint s" "\<not> log_failed t"
  shows "master_base E medium peb t"
proof -
  have img: "peb_img medium t a = peb_img medium s a" if "a < 2" for a
    using frames_img [OF f] master_sector [OF that] P by blast
  have "sector_holds (bld E) t = sector_holds (bld E) s"
    by (rule sector_holds_cong) (use f in \<open>simp_all add: frames_def\<close>)
  moreover have "peb_size t = peb (dev t)" "master_geom (bld E) t"
    using b f master_geom_frames [OF f] by (simp_all add: frames_def master_base_def)
  ultimately show ?thesis using b assms(4-) img by (simp add: master_base_def)
qed

context blob_env
begin

lemma recover_compaction_touches:
  assumes r: "recover_compaction E s = (Inr (), u)"
  shows "touches medium peb (- masters_only) s u"
proof (cases "scratch_sealed_bucket E s")
  case (Inl e)
  with r show ?thesis by (auto simp: recover_compaction_def)
next
  case (Inr y)
  obtain bid bb n where y: "y = (bid, bb, n)" by (cases y)
  let ?p = "BLOB_DB_FIRST_BUCKET + bid"
  from r Inr y obtain s1 s2 where
    1: "store_erase E s (peb_offset s ?p) (peb_size s) = (Inr (), s1)" and
    2: "store_write E s1 (peb_offset s1 ?p) (take n bb) = (Inr (), s2)" and
    3: "store_erase E s2 (peb_offset s2 BLOB_DB_SCRATCH_SECTOR) (peb_size s2) = (Inr (), u)"
    by (auto simp: recover_compaction_def res_simps bucket_offset_def)
  from Inr y obtain b0 where "store_read E s (peb_offset s BLOB_DB_SCRATCH_SECTOR) (peb_size s) = Inr bb"
    by (auto simp: scratch_sealed_bucket_def Let_def andthen_Inr split: if_splits option.splits)
  then have "length bb = peb_size s" using read_peb [of s BLOB_DB_SCRATCH_SECTOR 0 "peb_size s" bb] by simp
  note t1 = store_erase_touches [OF 1]
  have t2: "touches medium peb {?p} s1 s2"
    using store_write_touches [of s1 ?p 0 "take n bb" "Inr ()" s2] 2 \<open>length bb = peb_size s\<close> touchesD(1) [OF t1]
    by simp
  have "touches medium peb ({?p} \<union> {?p} \<union> {BLOB_DB_SCRATCH_SECTOR}) s u"
    by (rule touches_trans [OF touches_trans [OF t1 t2] store_erase_touches [OF 3]])
  then show ?thesis
    by (rule touches_mono) (auto simp: masters_only_def BLOB_DB_MASTER_A_SECTOR_def BLOB_DB_MASTER_B_SECTOR_def
        BLOB_DB_FIRST_BUCKET_def BLOB_DB_SCRATCH_SECTOR_def)
qed

lemma root_live_spec:
  assumes r: "root_live E s = Inr l" and g: "geom_ok (bld E) peb s"
  shows "l \<longleftrightarrow> blob_map E medium s BLOB_DB_ROOT_ID \<noteq> None"
proof -
  have rb: "root_bid s = id_to_bucket s BLOB_DB_ROOT_ID" and r0: "BLOB_DB_ROOT_ID \<noteq> 0"
    by (simp_all add: root_bid_def id_to_bucket_def BLOB_DB_ROOT_ID_def)
  from r obtain f where f: "read_bucket_hdr E s (root_bid s) = Inr f" by (auto simp: root_live_def andthen_Inr)
  note hv = read_bucket_hdr_spec [OF f g]
  show ?thesis
  proof (cases f)
    case False
    then show ?thesis using r f hv r0 by (simp add: root_live_def blob_map_def bucket_log_def rb live_def)
  next
    case True
    have la: "lookup_answers (bld E) (peb_size s) (write_align s) (bucket_img medium s (root_bid s))
        (newest (entries (bld E) (peb_size s) (write_align s) (bucket_img medium s (root_bid s)) 16) BLOB_DB_ROOT_ID)
        (find_live_slot E s (root_bid s) BLOB_DB_ROOT_ID)"
      by (rule find_live_slot_spec)
    have bl: "blob_map E medium s BLOB_DB_ROOT_ID =
        live (entries (bld E) (peb_size s) (write_align s) (bucket_img medium s (root_bid s)) 16) BLOB_DB_ROOT_ID"
      using r0 True hv by (simp add: blob_map_def bucket_log_def rb)
    show ?thesis
    proof (cases "find_live_slot E s (root_bid s) BLOB_DB_ROOT_ID")
      case (Inl e)
      with r f True have "e = ENOENT" "\<not> l" by (auto simp: root_live_def split: if_splits)
      with la Inl bl show ?thesis
        by (auto simp: lookup_answers_def Let_def live_def split: option.splits)
    next
      case (Inr y)
      with r f True have l by (simp add: root_live_def)
      with la Inr bl show ?thesis
        by (cases y) (auto simp: lookup_answers_def Let_def live_def split: option.splits)
    qed
  qed
qed


lemma bind_root_empty_spec:
  assumes b: "bind_root_empty E s = (Inr (), s')" and g: "geom_ok (bld E) peb s"
  shows "touches medium peb {BLOB_DB_FIRST_BUCKET + root_bid s} s s' \<and>
    log_is E s (root_bid s) (bucket_img medium s' (root_bid s)) [written_entry BLOB_DB_ROOT_ID 0 []]
      (16 + slot_size_for (write_align s) 0)"
proof -
  have bid: "root_bid s < n_buckets s" using g by (simp add: root_bid_def geom_ok_def)
  from b obtain t where 1: "format_bucket E s (root_bid s) = (Inr (), t)"
    and 2: "append_slot E t (root_bid t) 16 BLOB_DB_ROOT_ID 0 [] = (Inr (), s')"
    by (auto simp: bind_root_empty_def seqs_Inr BLOB_DB_BUCKET_DATA_OFF_def)
  note f = format_bucket_spec [OF 1 g bid]
  have tt: "touches medium peb {BLOB_DB_FIRST_BUCKET + root_bid s} s t" using f by blast
  note D = touchesD [OF tt]
  have rb: "root_bid t = root_bid s" using D by (simp add: root_bid_def)
  have l: "log_is E t (root_bid s) (bucket_img medium t (root_bid s)) [] 16"
    using f D(1,2) by (simp add: log_is_def)
  obtain k where k: "write_align s = 2 ^ k" and wa: "write_align s \<le> 32" and pz: "128 + 2 * round_up 48 (write_align s) \<le> peb_size s"
    using g by (auto simp: geom_ok_def BLOB_DB_MAX_WRITE_ALIGN_def)
  have "slot_size_for (write_align s) 0 < 14 + 32"
    using round_up_less [of 14 k] k wa by (simp add: slot_size_for_def BLOB_DB_SLOT_OVERHEAD_def)
  then have fit: "16 + slot_size_for (write_align t) (length ([] :: byte list)) \<le> peb_size t"
    using pz D(1,2) by simp
  have "written_flags 0" by (simp add: written_flags_def)
  from append_slot_spec [OF 2 [unfolded rb] l this fit] have
    t2: "touches medium peb {BLOB_DB_FIRST_BUCKET + root_bid s} t s'" and
    l2: "log_is E t (root_bid s) (bucket_img medium s' (root_bid s)) [written_entry BLOB_DB_ROOT_ID 0 []]
      (16 + slot_size_for (write_align t) 0)" by simp_all
  from touches_trans [OF tt t2] l2 D(1,2) show ?thesis by (simp add: log_is_def)
qed

lemma commit_base:
  assumes "master_commit_how E s force = (Inr (), s')" "master_base E medium peb s"
  shows "master_base E medium peb s' \<and> frames medium peb masters_only s s' \<and> next_id s' = next_id s \<and>
     wedged s' = wedged s"
  using master_commit_how_spec [OF assms] master_commit_how_session [OF assms(1)] by blast

lemmas commit_rotate_base = commit_base [where force = True, folded master_commit_rotate_def]

lemma mount_upgrade_base:
  assumes "mount_upgrade E s m pick = (Inr rotated, s')" "master_base E medium peb s"
  shows "master_base E medium peb s' \<and> frames medium peb masters_only s s' \<and> next_id s' = next_id s \<and>
     wedged s' = wedged s"
proof -
  consider "s' = s" | "master_commit_rotate E s = (Inr (), s')"
    | t where "master_commit_rotate E s = (Inr (), t)" "master_commit_rotate E t = (Inr (), s')"
    using assms(1)
    by (auto simp: mount_upgrade_def Let_def seqs_Inr split: option.splits if_splits)
  then show ?thesis
  proof cases
    case 3
    note a = commit_rotate_base [OF 3(1) assms(2)]
    then have "master_base E medium peb t" by blast
    from commit_rotate_base [OF 3(2) this] a show ?thesis using frames_masters by auto
  qed (use commit_rotate_base assms(2) in auto)
qed

lemma mount_end_doubt_base:
  assumes "mount_end_doubt E s scan endrot rotated = (Inr (), s')" "master_base E medium peb s"
  shows "master_base E medium peb s' \<and> frames medium peb masters_only s s' \<and> next_id s' = next_id s \<and>
     wedged s' = wedged s"
  using assms commit_base
  by (auto simp: mount_end_doubt_def master_commit_rotate_def master_commit_def split: if_split_asm)


text \<open>A mount of a store whose masters satisfy the invariant.\<close>

lemma mount_open_spec:
  assumes mo: "mount_open E t = (Inr (), t')" and b: "master_base E medium peb s" and f: "frames medium peb {} s t"
    and g: "geom_ok (bld E) peb s"
  shows "next_id_hint s \<le> next_id t'" "mounted t'" "wedged t' = wedged t"
    and "unsealed (bld E) s (peb_img medium s BLOB_DB_SCRATCH_SECTOR) \<Longrightarrow>
      blob_map E medium s BLOB_DB_ROOT_ID \<noteq> None \<Longrightarrow> frames medium peb masters_only s t' \<and> master_base E medium peb t'"
proof -
  let ?a = "active_master s"
  have a: "?a < 2" and gm: "master_geom (bld E) s"
    and h: "sector_holds (bld E) s (peb_img medium s ?a) (rot_gen s) (log_next s) (next_id_hint s)"
    and o: "sector_older (bld E) (peb_img medium s (other_master ?a)) (rot_gen s)"
    using b by (simp_all add: master_base_def)
  from mo obtain m s1 s2 pick scan endrot s3 s4 rotated s5 s6 s7 where
    c: "classify_masters E t = Inr m" and
    a0: "mount_accept E (t\<lparr>incompat := 0, ro_compat := 0, compat := 0\<rparr>) m 0 = (Inr (), s1)" and
    a1: "mount_accept E s1 m 1 = (Inr (), s2)" and p: "mount_pick E s2 m = Inr pick" and
    ad: "mount_adopt E s2 m pick = (Inr (scan, endrot), s3)" and sc: "mount_scan E s3 scan = (Inr (), s4)" and
    up: "mount_upgrade E s4 m pick = (Inr rotated, s5)" and
    ed: "mount_end_doubt E s5 scan endrot rotated = (Inr (), s6)" and rt: "mount_root E s6 = (Inr (), s7)" and
    t': "t' = s7\<lparr>mounted := True\<rparr>" by (rule mount_openE)
  from mount_accept_fields [OF a0] mount_accept_fields [OF a1] obtain f1 f2 f3 where
    s2: "s2 = t\<lparr>incompat := f1, ro_compat := f2, compat := f3\<rparr>" by auto
  have img: "peb_img medium t q = peb_img medium s q" for q using frames_img [OF f] by simp
  have ht: "sector_holds (bld E) t = sector_holds (bld E) s"
    by (rule sector_holds_cong) (use f in \<open>simp_all add: frames_def\<close>)
  have gt: "master_geom (bld E) t" using master_geom_frames [OF f] gm by simp
  have ft2: "frames medium peb {} t s2" by (simp add: s2)
  note pk = mount_pick_spec [OF c gt a _ _ p ft2, of "rot_gen s" "log_next s" "next_id_hint s", unfolded ht img, OF h o]
  define l where "l = log_reading (bld E) t (rot_gen s) (peb_img medium s ?a) (log_next s)"
  have pick: "pick = Some (?a, False, l)" using pk(1) by (simp add: l_def)
  have rs: "rec_slot t = rec_slot s" using f by (simp add: fun_eq_iff rec_slot_def frames_def)
  define r where "r = master_rec_of (rec_slot s (peb_img medium s ?a) (log_next s - 1))"
  have nw: "newest_rec l = Some (log_next s - 1, r)" and es: "end_slot l = log_next s"
    using log_reading_newest [of "log_next s" "bld E" t "rot_gen s" "peb_img medium s ?a"] h
    by (simp_all add: l_def sector_holds_def r_def rs rec_verifies_def)
  have hint: "r_next_id_hint r = next_id_hint s" using h by (simp add: sector_holds_def r_def)
  define u where "u = adopt_rec s2 ?a (rot_gen s) (log_next s) r"
  have rc: "recover_compaction E u = (Inr (), s3)"
    using mount_adopt_picked [OF ad [unfolded pick] nw] pk(3) es by (simp add: u_def)
  have fu: "frames medium peb {} s u" using f by (simp add: u_def adopt_rec_def s2)
  have uf: "active_master u = ?a" "rot_gen u = rot_gen s" "log_next u = log_next s" "\<not> log_failed u"
    "next_id_hint u = next_id_hint s" "next_id u = next_id_hint s" "wedged u = wedged t"
    by (simp_all add: u_def adopt_rec_def hint s2)
  note t3 = recover_compaction_touches [OF rc]
  obtain d3 where s3: "s3 = u\<lparr>dev := d3\<rparr>" using t3 by (auto simp: touches_def)
  have fu3: "frames medium peb (- masters_only) s s3" using frames_trans [OF fu touches_frames [OF t3]] by simp
  have b3: "master_base E medium peb s3"
    by (rule master_base_frames [OF b fu3]) (simp_all add: s3 uf)
  obtain x where s4: "s4 = s3\<lparr>next_id := x\<rparr>" "next_id s3 \<le> x" using mount_scan_fields [OF sc] by blast
  have b4: "master_base E medium peb s4" using b3 by (simp add: s4)
  note b5 = mount_upgrade_base [OF up b4]
  note b6 = mount_end_doubt_base [OF ed conjunct1 [OF b5]]
  have f36: "frames medium peb masters_only s3 s6"
    using frames_masters [of medium peb s3 s4 s6] frames_masters [of medium peb s4 s5 s6] b5 b6 by (simp add: s4(1))
  have n6: "next_id_hint s \<le> next_id s6" using b5 b6 s4 by (simp add: s3 uf)
  have g6: "geom_ok (bld E) peb s6"
    using g geom_ok_frames [OF fu3] geom_ok_frames [OF f36] by simp
  have w6: "wedged s6 = wedged t" using b5 b6 by (simp add: s4(1) s3 uf)
  from rt obtain lv where lv: "root_live E s6 = Inr lv" by (auto simp: mount_root_def reads_Inr)
  have r7: "next_id s6 \<le> next_id s7 \<and> wedged s7 = wedged s6"
  proof (cases lv)
    case True
    with rt lv show ?thesis by (simp add: mount_root_def)
  next
    case False
    define v where "v = (if next_id s6 < 2 then s6\<lparr>next_id := 2\<rparr> else s6)"
    have "seqs (if next_id_hint v < 2 then persist_next_id_hint E v else (Inr (), v)) (\<lambda>_ s. bind_root_empty E s) = (Inr (), s7)"
      using rt lv False by (simp add: mount_root_def v_def Let_def split: if_split_asm)
    then obtain w where pw: "(if next_id_hint v < 2 then persist_next_id_hint E v else (Inr (), v)) = (Inr (), w)"
      and bw: "bind_root_empty E w = (Inr (), s7)"
      unfolding seqs_Inr by auto
    have bv: "master_base E medium peb v" using b6 by (simp add: v_def)
    have "next_id w = next_id v \<and> wedged w = wedged v \<and> frames medium peb masters_only v w"
      using pw commit_base [OF _ bv]
      by (auto simp: persist_next_id_hint_def master_commit_def split: if_split_asm)
    moreover have "geom_ok (bld E) peb v"
      using g6 geom_ok_frames [of medium peb "{}" s6 v] by (simp add: v_def)
    ultimately have "geom_ok (bld E) peb w" "next_id w = next_id v" "wedged w = wedged v"
      using geom_ok_frames by blast+
    then have gw: "geom_ok (bld E) peb w" and nw: "next_id w = next_id v" "wedged w = wedged v" by blast+
    have "touches medium peb {BLOB_DB_FIRST_BUCKET + root_bid w} w s7"
      using bind_root_empty_spec [OF bw gw] by blast
    from touchesD(5,6) [OF this] nw show ?thesis by (auto simp: v_def)
  qed
  show "next_id_hint s \<le> next_id t'" using order_trans [OF n6 conjunct1 [OF r7]] by (simp add: t')
  show "mounted t'" by (simp add: t')
  show "wedged t' = wedged t" using r7 w6 by (simp add: t')
  assume un: "unsealed (bld E) s (peb_img medium s BLOB_DB_SCRATCH_SECTOR)" and root: "blob_map E medium s BLOB_DB_ROOT_ID \<noteq> None"
  have n0: "0 < n_buckets s" using g by (simp add: geom_ok_def)
  have "unsealed (bld E) u (peb_img medium u BLOB_DB_SCRATCH_SECTOR)"
    using un frames_img [OF fu, of BLOB_DB_SCRATCH_SECTOR] fu unsealed_cong [of u s] by (simp add: frames_def)
  moreover have "geom_ok (bld E) peb u" using g geom_ok_frames [OF fu] by simp
  ultimately have "s3 = u" using recover_compaction_spec(1) [OF rc] n0 fu by (auto simp: frames_def)
  then have f6: "frames medium peb masters_only s s6"
    using frames_masters [OF frames_mono [OF fu, of masters_only] f36 [simplified \<open>s3 = u\<close>]] by simp
  have "blob_map E medium s6 = blob_map E medium s"
    by (rule frames_content(5) [OF f6 masters_only_bucket n0])
  then have lv using root_live_spec [OF lv g6] root by simp
  then have "s7 = s6" using rt lv by (simp add: mount_root_def)
  then show "frames medium peb masters_only s t' \<and> master_base E medium peb t'" using f6 b6 by (simp add: t')
qed


section \<open>Reopening a store\<close>

end

text \<open>The geometry of a session is what \<open>store_open_and_validate\<close> derives.\<close>

definition validated :: "'d env \<Rightarrow> 'd bdb \<Rightarrow> bool" where
  "validated E s \<longleftrightarrow>
     validate_geometry E s = (Inr (), s) \<and> st_fa_size s = n_pebs s * peb_size s \<and> 0 < write_align s"

definition derived_cap :: "build \<Rightarrow> nat \<Rightarrow> nat \<Rightarrow> nat" where
  "derived_cap B pz wa =
     (let cap = min ((pz - BLOB_DB_MASTER_LOG_OFF) div round_up 48 wa) 65535
      in if TEST_MASTER_LOG_CAP B > 0 then min cap (TEST_MASTER_LOG_CAP B) else cap)"

definition geom_checks :: "build \<Rightarrow> nat \<Rightarrow> nat \<Rightarrow> nat \<Rightarrow> bool" where
  "geom_checks B pz wa np \<longleftrightarrow>
     pz \<le> SECTOR_BUF_SIZE B \<and> wa \<le> BLOB_DB_MAX_WRITE_ALIGN \<and> is_pow2 wa \<and>
     BLOB_DB_MASTER_LOG_OFF + 2 * round_up 48 wa \<le> pz \<and> BLOB_DB_FIRST_BUCKET + 1 \<le> np \<and>
     MAX_PAYLOAD_LEN B \<le> (pz - BLOB_DB_BUCKET_DATA_OFF) div 2 - BLOB_DB_SLOT_OVERHEAD"

lemma validate_geometry_iff:
  "validate_geometry E s = (Inr (), s') \<longleftrightarrow> geom_checks (bld E) (peb_size s) (write_align s) (n_pebs s) \<and>
   s' = s\<lparr>rec_size := round_up 48 (write_align s), log_cap := derived_cap (bld E) (peb_size s) (write_align s),
     n_buckets := n_pebs s - BLOB_DB_FIRST_BUCKET\<rparr>"
  by (auto simp: validate_geometry_def geom_checks_def derived_cap_def Let_def not_less)

lemma validated_iff:
  "validated E s \<longleftrightarrow> geom_checks (bld E) (peb_size s) (write_align s) (n_pebs s) \<and>
     rec_size s = round_up 48 (write_align s) \<and> log_cap s = derived_cap (bld E) (peb_size s) (write_align s) \<and>
     n_buckets s = n_pebs s - BLOB_DB_FIRST_BUCKET \<and> st_fa_size s = n_pebs s * peb_size s \<and> 0 < write_align s"
  unfolding validated_def validate_geometry_iff by (cases s) auto

lemmas validate_geometry_derives = validate_geometry_iff [THEN iffD1, THEN conjunct2]

lemma validatedD:
  assumes "validated E s"
  shows "rec_size s = round_up 48 (write_align s)" "log_cap s = derived_cap (bld E) (peb_size s) (write_align s)"
    "n_buckets s = n_pebs s - BLOB_DB_FIRST_BUCKET"
  using assms by (simp_all add: validated_iff)

lemma is_pow2_small: "is_pow2 a \<Longrightarrow> 0 < a \<Longrightarrow> a \<le> 32 \<Longrightarrow> \<exists>k. a = 2 ^ k"
proof -
  assume p: "is_pow2 a" "0 < a" "a \<le> 32"
  have "\<forall>x \<in> set [1..<33]. is_pow2 x \<longrightarrow> x \<in> {1, 2, 4, 8, 16, 32}"
    by (simp add: upt_rec is_pow2_def)
  then have "a \<in> {1, 2, 4, 8, 16, 32}" using p by simp
  moreover have "(1::nat) = 2 ^ 0" "(2::nat) = 2 ^ 1" "(4::nat) = 2 ^ 2" "(8::nat) = 2 ^ 3" "(16::nat) = 2 ^ 4" "(32::nat) = 2 ^ 5"
    by simp_all
  ultimately show ?thesis by blast
qed

text \<open>What the checks establish.\<close>

lemma validated_geom:
  assumes v: "validated E s" and pz: "peb_size s = peb (dev s)" "peb_size s < 2 ^ 32" and np: "n_pebs s < 2 ^ 16"
    and cap: "cap_ok (bld E)"
  shows "geom_ok (bld E) peb s" "master_geom (bld E) s"
proof -
  note d = validatedD [OF v]
  have c: "write_align s \<le> 32" "is_pow2 (write_align s)" "128 + 2 * round_up 48 (write_align s) \<le> peb_size s"
    "3 < n_pebs s" "MAX_PAYLOAD_LEN (bld E) \<le> (peb_size s - 16) div 2 - 14" "0 < write_align s"
    using v
    by (auto simp: validated_iff geom_checks_def BLOB_DB_MAX_WRITE_ALIGN_def BLOB_DB_FIRST_BUCKET_def
        BLOB_DB_MASTER_LOG_OFF_def BLOB_DB_MASTER_HDR_MAX_def BLOB_DB_BUCKET_DATA_OFF_def BLOB_DB_SLOT_OVERHEAD_def)
  obtain k where k: "write_align s = 2 ^ k" using is_pow2_small c by blast
  show "geom_ok (bld E) peb s"
    using c k pz np d by (auto simp: geom_ok_def BLOB_DB_MAX_WRITE_ALIGN_def BLOB_DB_FIRST_BUCKET_def)
  let ?rs = "round_up 48 (write_align s)"
  have rs: "0 < ?rs" using round_up_ge [of 48 k] k by simp
  have q: "2 \<le> (peb_size s - 128) div ?rs"
    using c(3) rs div_le_mono [of "2 * ?rs" "peb_size s - 128" ?rs] by simp
  have lc: "log_cap s \<le> (peb_size s - 128) div ?rs" "0 < log_cap s" "log_cap s < 2 ^ 16"
    using q by (auto simp: d derived_cap_def Let_def BLOB_DB_MASTER_LOG_OFF_def BLOB_DB_MASTER_HDR_MAX_def)
  have "log_cap s * ?rs \<le> peb_size s - 128"
    using mult_le_mono1 [OF lc(1), of ?rs] by (meson div_times_less_eq_dividend order_trans)
  then have "128 + log_cap s * ?rs \<le> peb_size s" using c(3) by linarith
  with lc c k pz np d cap show "master_geom (bld E) s"
    by (auto simp: master_geom_def BLOB_DB_MAX_WRITE_ALIGN_def BLOB_DB_MASTER_LOG_OFF_def BLOB_DB_MASTER_HDR_MAX_def
        BLOB_DB_FIRST_BUCKET_def cap_ok_def)
qed

text \<open>\<open>t\<close> is a session that is not mounted, on a device with the contents of \<open>s\<close> that reports the
  geometry of \<open>s\<close>: what is left of \<open>s\<close> after a power loss or an unmount.\<close>

definition reopens :: "'d env \<Rightarrow> ('d \<Rightarrow> nat \<Rightarrow> byte) \<Rightarrow> 'd bdb \<Rightarrow> 'd bdb \<Rightarrow> bool" where
  "reopens E medium s t \<longleftrightarrow> \<not> mounted t \<and> medium (dev t) = medium (dev s) \<and>
     (\<forall>g d. blob_db_store_open (sto E) (dev t) False = (Inr g, d) \<longrightarrow>
        geom_peb_size g = peb_size s \<and> (if geom_write_align g = 0 then 1 else geom_write_align g) = write_align s \<and>
        geom_n_pebs g = n_pebs s)"

context blob_env
begin

lemma store_open_reopens:
  assumes o: "store_open_and_validate E (t\<lparr>wedged := w\<rparr>) False = (Inr (), t1)" and r: "reopens E medium s t"
    and v: "validated E s" and pz: "peb_size s = peb (dev s)"
  shows "frames medium peb {} s t1" "wedged t1 = w"
proof -
  let ?t = "t\<lparr>wedged := w\<rparr>"
  from o obtain g d where og: "blob_db_store_open (sto E) (dev t) False = (Inr g, d)"
    by (auto simp: store_open_and_validate_def split: prod.splits sum.splits)
  define t0 where "t0 = ?t\<lparr>dev := d, peb_size := geom_peb_size g,
                write_align := (if geom_write_align g = 0 then 1 else geom_write_align g),
                n_pebs := geom_n_pebs g, st_fa_size := geom_n_pebs g * geom_peb_size g,
                preformat := geom_preformat g\<rparr>"
  have "validate_geometry E t0 = (Inr (), t1)"
    using o og by (auto simp: store_open_and_validate_def t0_def Let_def split: prod.splits sum.splits)
  note t1 = validate_geometry_derives [OF this]
  have g: "geom_peb_size g = peb_size s" "(if geom_write_align g = 0 then 1 else geom_write_align g) = write_align s"
    "geom_n_pebs g = n_pebs s" "medium (dev t) = medium (dev s)" using r og by (auto simp: reopens_def)
  have m: "medium d = medium (dev s)" using open_medium [OF og] g(4) by simp
  have "peb d = peb (dev s)" using open_peb [OF og] g(1) pz by simp
  with m g validatedD [OF v] show "frames medium peb {} s t1"
    by (simp add: t1 t0_def frames_def peb_img_def peb_offset_def)
  show "wedged t1 = w" by (simp add: t1 t0_def)
qed

lemma mount_impl_spec:
  assumes mi: "mount_impl E t = (Inr (), t')" and r: "reopens E medium s t" and v: "validated E s"
    and b: "master_base E medium peb s" and g: "geom_ok (bld E) peb s"
  shows "next_id_hint s \<le> next_id t'" "mounted t'" "\<not> wedged t'"
    and "unsealed (bld E) s (peb_img medium s BLOB_DB_SCRATCH_SECTOR) \<Longrightarrow>
      blob_map E medium s BLOB_DB_ROOT_ID \<noteq> None \<Longrightarrow> frames medium peb masters_only s t' \<and> master_base E medium peb t'"
proof -
  have pz: "peb_size s = peb (dev s)" using b by (simp add: master_base_def)
  from mi r have "seqs (store_open_and_validate E (t\<lparr>wedged := False\<rparr>) False) (\<lambda>_ s.
      case mount_open E s of (Inl e, s) \<Rightarrow> (Inl e, store_close E s) | (Inr _, s) \<Rightarrow> (Inr (), s)) = (Inr (), t')"
    by (simp add: mount_impl_def reopens_def split: if_splits)
  then obtain x t1 where o': "store_open_and_validate E (t\<lparr>wedged := False\<rparr>) False = (Inr x, t1)"
    and c: "(case mount_open E t1 of (Inl e, s) \<Rightarrow> (Inl e, store_close E s) | (Inr _, s) \<Rightarrow> (Inr (), s)) = (Inr (), t')"
    unfolding seqs_Inr by blast
  have o: "store_open_and_validate E (t\<lparr>wedged := False\<rparr>) False = (Inr (), t1)" using o' by simp
  from c have mo: "mount_open E t1 = (Inr (), t')"
    by (cases "mount_open E t1"; cases "fst (mount_open E t1)") auto
  note f = store_open_reopens [OF o r v pz]
  from mount_open_spec [OF mo b f(1) g] f(2) show "next_id_hint s \<le> next_id t'" "mounted t'" "\<not> wedged t'"
    "unsealed (bld E) s (peb_img medium s BLOB_DB_SCRATCH_SECTOR) \<Longrightarrow>
      blob_map E medium s BLOB_DB_ROOT_ID \<noteq> None \<Longrightarrow> frames medium peb masters_only s t' \<and> master_base E medium peb t'"
    by blast+
qed

end
section \<open>Emptying a store\<close>

text \<open>A bucket without a valid header is empty whatever follows.\<close>

definition blank :: "'d env \<Rightarrow> ('d \<Rightarrow> nat \<Rightarrow> byte) \<Rightarrow> 'd bdb \<Rightarrow> nat \<Rightarrow> bool" where
  "blank E medium s bid \<longleftrightarrow> \<not> bucket_hdr_valid (bld E) (bucket_img medium s bid) bid"

lemma bucket_hdr_invalid: "take 4 img \<noteq> BUCKET_MAGIC \<Longrightarrow> \<not> bucket_hdr_valid B img bid"
  by (simp add: bucket_hdr_valid_def bucket_hdr_of_def Let_def)

lemma bucket_hdr_first: "img \<noteq> [] \<Longrightarrow> img ! 0 \<noteq> 0x42 \<Longrightarrow> \<not> bucket_hdr_valid B img bid"
  by (rule bucket_hdr_invalid) (cases img; simp add: BUCKET_MAGIC_def numeral_eq_Suc)

lemma blank_frames:
  "frames medium peb P s t \<Longrightarrow> BLOB_DB_FIRST_BUCKET + b \<notin> P \<Longrightarrow> blank E medium t b = blank E medium s b"
  using frames_img [of medium peb P s t "BLOB_DB_FIRST_BUCKET + b"] by (simp add: blank_def bucket_img_peb)

text \<open>What a format leaves: an empty store with its root, fresh masters and the id counter at 2.\<close>

definition fresh_store :: "'d env \<Rightarrow> ('d \<Rightarrow> nat \<Rightarrow> byte) \<Rightarrow> ('d \<Rightarrow> nat) \<Rightarrow> 'd bdb \<Rightarrow> bool" where
  "fresh_store E medium peb s \<longleftrightarrow>
     db_inv E medium peb s \<and> master_inv E medium peb s \<and> blob_map E medium s = [BLOB_DB_ROOT_ID \<mapsto> []] \<and>
     next_id s = 2 \<and> next_id s < next_id_hint s \<and> \<not> wedged s \<and>
     (\<forall>b < n_buckets s. tail_droppable E medium s b)"

text \<open>Both sectors carry headers of this build.\<close>

definition masters_clean :: "'d env \<Rightarrow> ('d \<Rightarrow> nat \<Rightarrow> byte) \<Rightarrow> 'd bdb \<Rightarrow> bool" where
  "masters_clean E medium s \<longleftrightarrow>
     incompat s = BLOB_DB_BUILD_INCOMPAT \<and> ro_compat s = BLOB_DB_BUILD_RO_COMPAT \<and>
     (\<forall>i < 2. \<exists>gn. take 64 (peb_img medium s i) = master_hdr_bytes E s gn)"

text \<open>A store in good order beyond its objects: the geometry checks, headers of this build, no
  sealed compaction in the scratch sector, and a root bucket this build can read to its end.\<close>

definition well_kept :: "'d env \<Rightarrow> ('d \<Rightarrow> nat \<Rightarrow> byte) \<Rightarrow> 'd bdb \<Rightarrow> bool" where
  "well_kept E medium s \<longleftrightarrow>
     validated E s \<and> masters_clean E medium s \<and>
     unsealed (bld E) s (peb_img medium s BLOB_DB_SCRATCH_SECTOR) \<and> \<not> ends_foreign E medium s (root_bid s)"

lemma well_kept_mounted [simp]: "well_kept E medium (s\<lparr>mounted := b\<rparr>) = well_kept E medium s"
proof -
  have "master_hdr_bytes E (s\<lparr>mounted := b\<rparr>) gn = master_hdr_bytes E s gn" for gn
    by (simp add: master_hdr_bytes_def master_hdr_body_def)
  then have "masters_clean E medium (s\<lparr>mounted := b\<rparr>) = masters_clean E medium s" by (simp add: masters_clean_def)
  moreover have "root_bid (s\<lparr>mounted := b\<rparr>) = root_bid s" by (simp add: root_bid_def)
  moreover have "ends_foreign E medium (s\<lparr>mounted := b\<rparr>) r = ends_foreign E medium s r" for r
    by (simp add: ends_foreign_def bucket_img_peb)
  moreover have "validated E (s\<lparr>mounted := b\<rparr>) = validated E s" by (simp add: validated_iff)
  moreover have "unsealed (bld E) (s\<lparr>mounted := b\<rparr>) img = unsealed (bld E) s img" for img by (rule unsealed_cong) simp_all
  ultimately show ?thesis by (simp add: well_kept_def)
qed

lemma unsealed_erased: "erased_img = replicate n 0xff \<Longrightarrow> unsealed B s erased_img"
proof -
  assume e: "erased_img = replicate n 0xff"
  have "set (take 4 (field (scratch_seal_off s) 16 erased_img)) \<subseteq> {0xff}"
    by (auto simp: e field_def dest: in_set_takeD in_set_dropD)
  moreover have "0x42 \<in> set SCRATCH_MAGIC" by (simp add: SCRATCH_MAGIC_def)
  ultimately have "take 4 (field (scratch_seal_off s) 16 erased_img) \<noteq> SCRATCH_MAGIC" by auto
  then show ?thesis by (simp add: unsealed_def seal_self_ok_def)
qed

lemma root_only:
  assumes g: "geom_ok (bld E) peb s" and t: "touches medium peb {BLOB_DB_FIRST_BUCKET + root_bid s} s s'"
    and l: "log_is E s (root_bid s) (bucket_img medium s' (root_bid s)) [written_entry BLOB_DB_ROOT_ID 0 []] c"
    and bl: "\<And>b. b < n_buckets s \<Longrightarrow> b \<noteq> root_bid s \<Longrightarrow> blank E medium s b"
  shows "db_inv E medium peb s'" "blob_map E medium s' = [BLOB_DB_ROOT_ID \<mapsto> []]"
    "b < n_buckets s \<Longrightarrow> tail_droppable E medium s' b"
proof -
  note D = touchesD [OF t]
  have bl': "blank E medium s' b" if "b < n_buckets s" "b \<noteq> root_bid s" for b
    using blank_frames [OF touches_frames [OF t]] bl [OF that] that(2) by simp
  have "log_is E s' (root_bid s) (bucket_img medium s' (root_bid s)) [written_entry BLOB_DB_ROOT_ID 0 []] c"
    using l log_is_cong [OF D(1,2)] by simp
  then have "clean_log E medium s' (root_bid s)" by (auto simp: clean_log_def)
  then show "b < n_buckets s \<Longrightarrow> tail_droppable E medium s' b"
    using clean_log_droppable(1) unformatted_droppable [of E medium s' b] bl' [of b] by (cases "b = root_bid s") (auto simp: blank_def)
  have rb: "root_bid s = id_to_bucket s BLOB_DB_ROOT_ID" by (simp add: root_bid_def id_to_bucket_def)
  have log: "bucket_log E medium s' b = (if b = root_bid s then [written_entry BLOB_DB_ROOT_ID 0 []] else [])"
    if "b < n_buckets s" for b
  proof (cases "b = root_bid s")
    case True
    then show ?thesis using log_is_bucket_log [OF t l] by simp
  next
    case False
    then show ?thesis using bl' [OF that] by (simp add: bucket_log_def blank_def)
  qed
  have r0: "BLOB_DB_ROOT_ID \<noteq> 0" by (simp add: BLOB_DB_ROOT_ID_def)
  have hl: "live [written_entry BLOB_DB_ROOT_ID 0 []] = [BLOB_DB_ROOT_ID \<mapsto> []]"
    by (auto simp: fun_eq_iff live_def written_entry_def tomb_def BLOB_DB_SLOT_F_SEALED_def BLOB_DB_SLOT_F_TOMBSTONE_def)
  have "live [] = Map.empty" by (simp add: fun_eq_iff live_def)
  then show "blob_map E medium s' = [BLOB_DB_ROOT_ID \<mapsto> []]"
    using hl rb r0 geom_n_buckets [OF g] by (auto simp: fun_eq_iff blob_map_def D log)
  have "bucket_ok E medium s' b" if "b < n_buckets s" for b
  proof (cases "b = root_bid s")
    case True
    then show ?thesis
      using log_is_tail_ok [OF l] log [OF that] r0 rb D
      by (simp add: bucket_ok_def homed_def written_entry_def)
  next
    case False
    then show ?thesis using bl' [OF that] log [OF that] by (simp add: bucket_ok_def blank_def homed_def)
  qed
  then show "db_inv E medium peb s'" using g D by (simp add: db_inv_def)
qed

context blob_env
begin

lemma master_format_spec:
  assumes f: "master_format E s = (Inr (), s')" and g: "master_geom (bld E) s" and pz: "peb_size s = peb (dev s)"
  shows "frames medium peb masters_only s s'" "master_inv E medium peb s'" "next_id s' = 2" "ids_left s'"
    "wedged s' = wedged s" "mounted s' = mounted s" "masters_clean E medium s'" "rot_gen s' = 2"
    "next_id s' < next_id_hint s'" "validated E s \<Longrightarrow> validated E s'"
proof -
  define s1 where "s1 = s\<lparr>next_id := 2, seg_owner := 0, fuses := 0, incompat := BLOB_DB_BUILD_INCOMPAT,
            ro_compat := BLOB_DB_BUILD_RO_COMPAT, compat := 0, ceiling_reset := True\<rparr>"
  define r where "r = master_rec_fill s1"
  define s2 where "s2 = s1\<lparr>ceiling_reset := False\<rparr>"
  from f obtain s3 s4 where
    w1: "master_write_sector E s2 BLOB_DB_MASTER_B_SECTOR 1 r = (Inr (), s3)" and
    w2: "master_write_sector E s3 BLOB_DB_MASTER_A_SECTOR 2 r = (Inr (), s4)" and
    s': "s' = s4\<lparr>active_master := BLOB_DB_MASTER_A_SECTOR, rot_gen := 2, log_next := 1,
              log_failed := False, next_id_hint := r_next_id_hint r\<rparr>"
    by (auto simp: master_format_def Let_def seqs_Inr s1_def s2_def r_def)
  have f2: "frames medium peb {} s s2" by (simp add: s2_def s1_def)
  have g2: "master_geom (bld E) s2" "peb_size s2 = peb (dev s2)"
    using master_geom_frames [OF f2] g pz f2 by (simp_all add: frames_def)
  note m1 = master_write_sector_spec [OF w1 g2]
  note f3 = touches_frames [OF m1(1)]
  have g3: "master_geom (bld E) s3" "peb_size s3 = peb (dev s3)"
    using master_geom_frames [OF f3] g2 f3 by (simp_all add: frames_def)
  note m2 = master_write_sector_spec [OF w2 g3]
  note f4 = touches_frames [OF m2(1)]
  obtain d3 where d3: "s3 = s2\<lparr>dev := d3\<rparr>" using m1(1) by (auto simp: touches_def)
  obtain d4 where "s4 = s3\<lparr>dev := d4\<rparr>" using m2(1) by (auto simp: touches_def)
  then have d: "s3 = s2\<lparr>dev := d3\<rparr>" "s4 = s2\<lparr>dev := d4\<rparr>" by (simp_all add: d3)
  have "frames medium peb masters_only s s4"
    using frames_trans [OF frames_trans [OF f2 f3] f4] by (simp add: masters_only_def)
  then show fr: "frames medium peb masters_only s s'" by (simp add: s')
  show n2: "next_id s' = 2" "wedged s' = wedged s" "mounted s' = mounted s" "rot_gen s' = 2"
    by (simp_all add: s' d s2_def s1_def)
  show "validated E s \<Longrightarrow> validated E s'" by (simp add: validated_iff s' d s2_def s1_def)
  show "ids_left s'" by (simp add: ids_left_def n2)
  have hr: "r_next_id_hint r = 259"
    by (simp add: r_def master_rec_fill_def s1_def BLOB_DB_ID_HINT_STEP_def)
  then show "next_id s' < next_id_hint s'" by (simp add: s' d s2_def s1_def)
  have cg: "sector_holds (bld E) s' = sector_holds (bld E) s3" "sector_holds (bld E) s2 = sector_holds (bld E) s3"
    by (rule sector_holds_cong; simp add: s' d)+
  have "peb_img medium s4 BLOB_DB_MASTER_B_SECTOR = peb_img medium s3 BLOB_DB_MASTER_B_SECTOR"
    by (rule touches_img [OF m2(1)]) (simp add: BLOB_DB_MASTER_A_SECTOR_def BLOB_DB_MASTER_B_SECTOR_def)
  note iB = this
  have "take 64 (peb_img medium s' 0) = master_hdr_bytes E s' 2" "take 64 (peb_img medium s' 1) = master_hdr_bytes E s' 1"
    using m1(3) m2(3) iB by (simp_all add: s' BLOB_DB_MASTER_A_SECTOR_def BLOB_DB_MASTER_B_SECTOR_def)
      (simp_all add: master_hdr_bytes_def master_hdr_body_def d)
  then show "masters_clean E medium s'"
    by (auto simp: masters_clean_def less_2_cases_iff s' d s2_def s1_def)
  from iB have "sector_older (bld E) (peb_img medium s4 BLOB_DB_MASTER_B_SECTOR) 2"
    using m1(2) by (simp add: sector_older_def sector_holds_def)
  then have "master_base E medium peb s'"
    using m2(2) master_geom_frames [OF fr] g pz fr unfolding master_base_def
    by (simp add: cg frames_def) (simp add: s' BLOB_DB_MASTER_A_SECTOR_def BLOB_DB_MASTER_B_SECTOR_def other_master_def)
  then show "master_inv E medium peb s'"
    using n2 by (simp add: master_inv_def) (simp add: s' d s2_def hr)
qed


lemma erase_store_blank:
  assumes e: "store_erase E s 0 (st_fa_size s) = (Inr (), s')" and v: "validated E s" and bid: "b < n_buckets s"
    and pz: "0 < peb_size s"
  shows "blank E medium s' b"
proof -
  from e obtain d where d: "blob_db_store_erase (sto E) (dev s) 0 (st_fa_size s) = (Inr (), d)" and s': "s' = s\<lparr>dev := d\<rparr>"
    by (auto simp: store_erase_def split: prod.splits)
  have "3 + b < n_pebs s" using bid validatedD(3) [OF v] by (simp add: BLOB_DB_FIRST_BUCKET_def)
  then have "(3 + b) * peb_size s < n_pebs s * peb_size s" using pz by simp
  then have "bucket_offset s b < st_fa_size s"
    using v by (simp add: validated_def bucket_offset_def peb_offset_def BLOB_DB_FIRST_BUCKET_def)
  then have "medium d (bucket_offset s b) = 0xff" using erase_erases [OF d] by fastforce
  then have "bucket_img medium s' b ! 0 = 0xff" "bucket_img medium s' b \<noteq> []"
    using pz by (simp_all add: bucket_img_def s' bucket_offset_def peb_offset_def) (metis length_slice list.size(3) less_irrefl)
  then show ?thesis unfolding blank_def by (intro bucket_hdr_first) simp_all
qed

lemma format_tail:
  assumes m: "master_format E s = (Inr (), t)" and b: "bind_root_empty E t = (Inr (), s')"
    and g: "geom_ok (bld E) peb s" "master_geom (bld E) s"
    and bl: "\<And>b. b < n_buckets s \<Longrightarrow> blank E medium s b" and w: "\<not> wedged s"
  shows "fresh_store E medium peb s'" "mounted s' = mounted s" "rot_gen s' = 2"
    and "validated E s \<Longrightarrow> peb_img medium s BLOB_DB_SCRATCH_SECTOR = replicate n 0xff \<Longrightarrow> well_kept E medium s'"
proof -
  have pz: "peb_size s = peb (dev s)" using g by (simp add: geom_ok_def)
  note mf = master_format_spec [OF m g(2) pz]
  have gt: "geom_ok (bld E) peb t" using geom_ok_frames [OF mf(1)] g by simp
  have n: "n_buckets t = n_buckets s" using mf(1) by (simp add: frames_def)
  have rb: "root_bid t = root_bid s" by (simp add: root_bid_def n)
  note br = bind_root_empty_spec [OF b gt]
  have tt: "touches medium peb {BLOB_DB_FIRST_BUCKET + root_bid t} t s'"
    and lt: "log_is E t (root_bid t) (bucket_img medium s' (root_bid t)) [written_entry BLOB_DB_ROOT_ID 0 []]
      (16 + slot_size_for (write_align t) 0)" using br by blast+
  have "blank E medium t b" if "b < n_buckets t" for b
    using blank_frames [OF mf(1) masters_only_bucket] bl that n by simp
  note ro = root_only [OF gt tt lt this]
  obtain d where s': "s' = t\<lparr>dev := d\<rparr>" using tt by (auto simp: touches_def)
  have "master_base E medium peb s'"
    by (rule master_base_frames [OF _ touches_frames [OF tt]])
      (use mf(2) masters_only_bucket in \<open>auto simp: s' master_inv_def master_base_def\<close>)
  then have "master_inv E medium peb s'" using mf(2) by (simp add: master_inv_def s')
  then show "fresh_store E medium peb s'" using ro mf w touchesD(3) [OF tt] by (simp add: fresh_store_def s')
  show "mounted s' = mounted s" using mf by (simp add: s')
  show "rot_gen s' = 2" using mf(8) by (simp add: s')
  assume v: "validated E s" and er: "peb_img medium s BLOB_DB_SCRATCH_SECTOR = replicate n 0xff"
  have "validated E s'" using mf(10) [OF v] by (simp add: validated_iff s')
  moreover have "masters_clean E medium s'"
  proof -
    have "peb_img medium s' i = peb_img medium t i" if "i < 2" for i
      by (rule touches_img [OF tt]) (use master_sector [OF that] masters_only_bucket in auto)
    moreover have "master_hdr_bytes E s' gn = master_hdr_bytes E t gn" for gn
      by (simp add: master_hdr_bytes_def master_hdr_body_def s')
    ultimately show ?thesis using mf(7) by (simp add: masters_clean_def s')
  qed
  moreover have "peb_img medium s' BLOB_DB_SCRATCH_SECTOR = replicate n 0xff"
    using touches_img [OF tt, of BLOB_DB_SCRATCH_SECTOR] frames_img [OF mf(1), of BLOB_DB_SCRATCH_SECTOR] er
    by (simp add: masters_only_def BLOB_DB_MASTER_A_SECTOR_def BLOB_DB_MASTER_B_SECTOR_def BLOB_DB_SCRATCH_SECTOR_def
        BLOB_DB_FIRST_BUCKET_def)
  moreover have "clean_log E medium s' (root_bid s')"
  proof -
    have "root_bid s' = root_bid t" by (simp add: s' root_bid_def)
    moreover have "log_is E s' = log_is E t" by (simp add: fun_eq_iff log_is_def s')
    ultimately show ?thesis using lt unfolding clean_log_def by auto
  qed
  ultimately show "well_kept E medium s'"
    using clean_log_droppable(2) unsealed_erased unfolding well_kept_def by blast
qed

lemma format_whole_store_spec:
  assumes f: "format_whole_store E s = (Inr (), s')" and v: "validated E s" and pz: "peb_size s < 2 ^ 32" "n_pebs s < 2 ^ 16"
    "peb_size s = peb (dev s)"
  shows "fresh_store E medium peb s'" "mounted s' = mounted s" "rot_gen s' = 2" "well_kept E medium s'"
proof -
  define s0 where "s0 = s\<lparr>wedged := False\<rparr>"
  from f obtain s1 t where e: "store_erase E s0 0 (st_fa_size s0) = (Inr (), s1)"
    and m: "master_format E s1 = (Inr (), t)" and b: "bind_root_empty E t = (Inr (), s')"
    by (auto simp: format_whole_store_def Let_def seqs_Inr s0_def)
  have v0: "validated E s0"
    using v by (simp add: validated_iff s0_def)
  from e obtain d where d: "blob_db_store_erase (sto E) (dev s0) 0 (st_fa_size s0) = (Inr (), d)" and s1: "s1 = s0\<lparr>dev := d\<rparr>"
    by (auto simp: store_erase_def split: prod.splits)
  have v1: "validated E s1"
    using v0 by (simp add: validated_iff s1)
  have "peb_size s1 = peb (dev s1)" "peb_size s1 < 2 ^ 32" "n_pebs s1 < 2 ^ 16"
    using erase_peb [OF d] pz by (simp_all add: s1 s0_def)
  note g = validated_geom [where peb = peb, OF v1 this cap]
  have "0 < peb_size s0" using g(1) by (simp add: geom_ok_def s1)
  then have bl: "blank E medium s1 b" if "b < n_buckets s1" for b
    using erase_store_blank [OF e v0] that by (simp add: s1)
  note ft = format_tail [OF m b g bl]
  show "fresh_store E medium peb s'" "mounted s' = mounted s" "rot_gen s' = 2" using ft(1-3) by (simp_all add: s1 s0_def)
  have "3 \<le> n_pebs s" "st_fa_size s = n_pebs s * peb_size s"
    using v by (simp_all add: validated_iff geom_checks_def BLOB_DB_FIRST_BUCKET_def)
  then have "3 * peb_size s \<le> st_fa_size s" using mult_le_mono1 [of 3 "n_pebs s" "peb_size s"] by simp
  then have "medium d (peb_offset s1 2 + i) = 0xff" if "i < peb_size s" for i
    using erase_erases [OF d, of "2 * peb_size s + i"] that by (simp add: peb_offset_def s1 s0_def)
  then have "peb_img medium s1 BLOB_DB_SCRATCH_SECTOR = replicate (peb_size s) 0xff"
    by (intro nth_equalityI) (simp_all add: peb_img_def s1 s0_def BLOB_DB_SCRATCH_SECTOR_def peb_offset_def)
  with ft(4) v1 show "well_kept E medium s'" by (simp add: s1 s0_def)
qed

lemma format_impl_spec:
  assumes f: "format_impl E s = (Inr (), s')"
    and m: "mounted s \<Longrightarrow> validated E s \<and> peb_size s < 2 ^ 32 \<and> n_pebs s < 2 ^ 16 \<and> peb_size s = peb (dev s)"
    and o: "\<And>g d. \<not> mounted s \<Longrightarrow> blob_db_store_open (sto E) (dev s) True = (Inr g, d) \<Longrightarrow>
      geom_peb_size g < 2 ^ 32 \<and> geom_n_pebs g < 2 ^ 16"
  shows "fresh_store E medium peb s' \<and> mounted s' \<and> rot_gen s' = 2 \<and> well_kept E medium s'"
proof (cases "mounted s")
  case True
  with f have "format_whole_store E s = (Inr (), s')" by (simp add: format_impl_def)
  from format_whole_store_spec [OF this] m [OF True] True show ?thesis by simp
next
  case False
  with f have "seqs (store_open_and_validate E s True) (\<lambda>_ s.
      case format_whole_store E s of (Inl e, s) \<Rightarrow> (Inl e, store_close E s) | (Inr _, s) \<Rightarrow> (Inr (), s\<lparr>mounted := True\<rparr>)) = (Inr (), s')"
    by (simp add: format_impl_def)
  then obtain x t1 where o1: "store_open_and_validate E s True = (Inr x, t1)" and
    c: "(case format_whole_store E t1 of (Inl e, s) \<Rightarrow> (Inl e, store_close E s) | (Inr _, s) \<Rightarrow> (Inr (), s\<lparr>mounted := True\<rparr>)) = (Inr (), s')"
    unfolding seqs_Inr by blast
  from c obtain t2 where fw: "format_whole_store E t1 = (Inr (), t2)" and s': "s' = t2\<lparr>mounted := True\<rparr>"
    by (cases "format_whole_store E t1"; cases "fst (format_whole_store E t1)") auto
  from o1 obtain g d where og: "blob_db_store_open (sto E) (dev s) True = (Inr g, d)"
    by (auto simp: store_open_and_validate_def split: prod.splits sum.splits)
  define t0 where "t0 = s\<lparr>dev := d, peb_size := geom_peb_size g,
                write_align := (if geom_write_align g = 0 then 1 else geom_write_align g),
                n_pebs := geom_n_pebs g, st_fa_size := geom_n_pebs g * geom_peb_size g,
                preformat := geom_preformat g\<rparr>"
  have vg: "validate_geometry E t0 = (Inr (), t1)"
    using o1 og by (auto simp: store_open_and_validate_def t0_def Let_def split: prod.splits sum.splits)
  note t1 = validate_geometry_derives [OF vg]
  have "validated E t1"
    using vg by (simp add: validated_iff validate_geometry_iff t0_def)
  moreover have "peb_size t1 < 2 ^ 32" "n_pebs t1 < 2 ^ 16" "peb_size t1 = peb (dev t1)"
    using o [OF False og] open_peb [OF og] by (simp_all add: t1 t0_def)
  ultimately have fs: "fresh_store E medium peb t2" and rg: "rot_gen t2 = 2" and wk: "well_kept E medium t2"
    using format_whole_store_spec [OF fw] by blast+
  have "frames medium peb {} t2 s'" by (simp add: s')
  note fc = frames_content [OF this]
  have n0: "0 < n_buckets t2" using fs by (simp add: fresh_store_def db_inv_def geom_ok_def)
  have "blob_map E medium s' = blob_map E medium t2" "db_inv E medium peb s' = db_inv E medium peb t2"
    using fc(5,6) n0 by simp_all
  moreover have "well_kept E medium s'"
    using wk by (simp add: s')
  moreover have "tail_droppable E medium s' b" if "b < n_buckets t2" for b
    using fs fc(7) that by (simp add: fresh_store_def)
  ultimately show ?thesis using fs rg unfolding fresh_store_def master_inv_def by (auto simp: s')
qed


section \<open>Erase-all\<close>

lemma invalidate_bucket_spec:
  assumes i: "invalidate_bucket E s bid = (Inr (), s')" and g: "geom_ok (bld E) peb s"
  shows "touches medium peb {BLOB_DB_FIRST_BUCKET + bid} s s' \<and> blank E medium s' bid"
proof -
  let ?p = "BLOB_DB_FIRST_BUCKET + bid" and ?z = "replicate (max 4 (min (write_align s) BLOB_DB_MAX_WRITE_ALIGN)) (0 :: byte)"
  have pz: "peb_size s = peb (dev s)" "224 \<le> peb_size s"
  proof -
    obtain k where "write_align s = 2 ^ k" using g by (auto simp: geom_ok_def)
    then show "224 \<le> peb_size s" using g round_up_ge [of 48 k] by (simp add: geom_ok_def)
  qed (use g in \<open>simp add: geom_ok_def\<close>)
  have lz: "length ?z \<le> peb_size s" using pz(2) by (simp add: BLOB_DB_MAX_WRITE_ALIGN_def)
  from i obtain pk where rd: "store_read E s (peb_offset s ?p) 4 = Inr pk"
    by (auto simp: invalidate_bucket_def Let_def reads_Inr)
  have pk: "pk = take 4 (bucket_img medium s bid)"
    using read_peb [of s ?p 0 4 pk] rd pz by (simp add: field_def bucket_img_peb)
  have first: "blank E medium t bid" if "peb_img medium t ?p ! 0 = 0" "0 < peb_size t" for t
  proof -
    have "peb_img medium t ?p \<noteq> []" using that(2) by (metis length_peb_img list.size(3) less_irrefl)
    then show ?thesis unfolding blank_def bucket_img_peb by (intro bucket_hdr_first) (simp_all add: that(1))
  qed
  show ?thesis
  proof (cases "pk = BUCKET_MAGIC")
    case False
    then have "s' = s" using i rd by (auto simp: invalidate_bucket_def Let_def)
    with False pk show ?thesis using bucket_hdr_invalid by (auto simp: blank_def)
  next
    case True
    show ?thesis
    proof (cases "blob_db_store_replace_is_atomic (sto E)")
      case at: True
      with True i rd have r: "store_replace E s (peb_offset s ?p) ?z = (Inr (), s')"
        by (simp add: invalidate_bucket_def Let_def)
      note t = store_replace_touches [OF r pz(1) lz] and im = store_replace_img [OF r pz(1) lz]
      have "peb_img medium s' ?p ! 0 = 0" by (simp add: im nth_append)
      with first [of s'] t touchesD(1) [OF t] pz show ?thesis by simp
    next
      case at: False
      with True i rd have w: "store_write E s (peb_offset s ?p + 0) ?z = (Inr (), s')"
        by (simp add: invalidate_bucket_def Let_def)
      note t = store_write_touches [OF w, simplified, OF lz [simplified]]
      have "peb_img medium s' ?p = splice (peb_img medium s ?p) 0 ?z"
        by (rule store_write_img [OF w]) (use lz in simp_all)
      then have "peb_img medium s' ?p ! 0 = 0" using lz by (simp add: nth_splice splice_def nth_append)
      with first [of s'] t touchesD(1) [OF t] pz show ?thesis by simp
    qed
  qed
qed

lemma invalidate_loop_spec:
  assumes "invalidate_loop E s skip bids = (Inr (), s')" "geom_ok (bld E) peb s"
  shows "touches medium peb {BLOB_DB_FIRST_BUCKET + b | b. b \<in> set bids \<and> Some b \<noteq> skip} s s' \<and>
    (\<forall>b. (b \<in> set bids \<and> Some b \<noteq> skip) \<or> blank E medium s b \<longrightarrow> blank E medium s' b)"
  using assms
proof (induction bids arbitrary: s)
  case Nil
  then show ?case by simp
next
  case (Cons bid bids)
  show ?case
  proof (cases "Some bid = skip")
    case True
    with Cons.IH [of s] Cons.prems show ?thesis by (auto elim: touches_mono)
  next
    case False
    with Cons.prems obtain t where i: "invalidate_bucket E s bid = (Inr (), t)"
      and l: "invalidate_loop E t skip bids = (Inr (), s')" by (auto simp: seqs_Inr)
    have ib: "touches medium peb {BLOB_DB_FIRST_BUCKET + bid} s t" "blank E medium t bid"
      using invalidate_bucket_spec [OF i Cons.prems(2)] by blast+
    have keep: "blank E medium t b" if "blank E medium s b" for b
      using blank_frames [OF touches_frames [OF ib(1)], of b] that ib(2) by (cases "b = bid") auto
    have "geom_ok (bld E) peb t" using touchesD(11) [OF ib(1)] Cons.prems(2) by simp
    note ih = Cons.IH [OF l this]
    from touches_trans [OF ib(1) conjunct1 [OF ih]]
    have "touches medium peb {BLOB_DB_FIRST_BUCKET + b | b. b \<in> set (bid # bids) \<and> Some b \<noteq> skip} s s'"
      by (rule touches_mono) (use False in auto)
    moreover have "blank E medium s' b" if "(b \<in> set (bid # bids) \<and> Some b \<noteq> skip) \<or> blank E medium s b" for b
      using ih that ib(2) keep by (cases "b = bid") auto
    ultimately show ?thesis by blast
  qed
qed

lemma erase_all_impl_spec:
  assumes e: "erase_all_impl E s = (Inr (), s')" and g: "geom_ok (bld E) peb s" and b: "master_base E medium peb s"
  shows "fresh_store E medium peb s'" "mounted s'"
proof -
  from e have mw: "mounted s" "\<not> wedged s" by (auto simp: erase_all_impl_def split: if_splits)
  from e mw obtain s1 s2 where i: "invalidate_buckets E s (Some (root_bid s)) = (Inr (), s1)"
    and br: "bind_root_empty E s1 = (Inr (), s2)"
    and c: "(case master_commit E (s2\<lparr>next_id := 2, ceiling_reset := True\<rparr>) of
            (Inl e, s) \<Rightarrow> (Inl e, s\<lparr>next_id := next_id s2\<rparr>) | (Inr _, s) \<Rightarrow> (Inr (), s)) = (Inr (), s')"
    by (auto simp: erase_all_impl_def Let_def seqs_Inr)
  let ?c = "s2\<lparr>next_id := 2, ceiling_reset := True\<rparr>"
  have cm: "master_commit_how E ?c False = (Inr (), s')"
    using c by (cases "master_commit E ?c"; cases "fst (master_commit E ?c)") (auto simp: master_commit_def)
  note il = invalidate_loop_spec [OF i [unfolded invalidate_buckets_def] g]
  note t1 = conjunct1 [OF il] and D1 = touchesD [OF conjunct1 [OF il]]
  have g1: "geom_ok (bld E) peb s1" and rb: "root_bid s1 = root_bid s"
    using D1(11) g by (simp_all add: root_bid_def D1(3))
  have bl: "blank E medium s1 b" if "b < n_buckets s1" "b \<noteq> root_bid s1" for b
    using il that by (simp add: rb D1(3))
  have t2: "touches medium peb {BLOB_DB_FIRST_BUCKET + root_bid s1} s1 s2"
    and l2: "log_is E s1 (root_bid s1) (bucket_img medium s2 (root_bid s1)) [written_entry BLOB_DB_ROOT_ID 0 []]
      (16 + slot_size_for (write_align s1) 0)" using bind_root_empty_spec [OF br g1] by blast+
  note ro = root_only [OF g1 t2 l2 bl]
  note t12 = touches_trans [OF t1 t2]
  obtain d where s2: "s2 = s\<lparr>dev := d\<rparr>" using t12 by (auto simp: touches_def)
  have nb: "\<not> log_failed s" using b by (simp add: master_base_def)
  have b2: "master_base E medium peb s2"
    by (rule master_base_frames [OF b touches_frames [OF t12]])
      (use nb masters_only_bucket in \<open>auto simp: s2\<close>)
  then have bc: "master_base E medium peb ?c" by simp
  have il2: "ids_left ?c" by (simp add: ids_left_def)
  note sp = master_commit_how_spec [OF cm bc] and iv = master_commit_how_inv [OF cm bc il2]
    and se = master_commit_how_session [OF cm]
  have f: "frames medium peb masters_only s2 s'" using sp(1) by (simp add: frames_def)
  have n0: "0 < n_buckets s2" using ro(1) by (simp add: db_inv_def geom_ok_def)
  show "fresh_store E medium peb s'"
    using ro iv sp se frames_content(5-7) [OF f masters_only_bucket] n0 mw touchesD(3) [OF t2]
    by (simp add: fresh_store_def s2)
  show "mounted s'" using se mw by (simp add: s2)
qed

end

end
