(* ===== verification/Blob_LifeWorks.thy ===== *)
theory Blob_LifeWorks
  imports Blob_Life
begin

text \<open>
  Progress of the life cycle: on a device whose calls succeed, commits, allocations and a format
  succeed, and so does the mount of a store in good order.
\<close>

text \<open>The device opens with this geometry, is good, and its size and write unit fit.\<close>

definition opens_with ::
  "'d env \<Rightarrow> ('d \<Rightarrow> bool) \<Rightarrow> ('d \<Rightarrow> nat) \<Rightarrow> ('d \<Rightarrow> nat) \<Rightarrow> 'd \<Rightarrow> bool \<Rightarrow> nat \<Rightarrow> nat \<Rightarrow> nat \<Rightarrow> bool" where
  "opens_with E good dsize wu d0 discard pz wa np \<longleftrightarrow> (\<exists>g d.
     blob_db_store_open (sto E) d0 discard = (Inr g, d) \<and>
     geom_peb_size g = pz \<and> geom_write_align g = wa \<and> geom_n_pebs g = np \<and> 0 < wa \<and>
     good d \<and> wu d = wa \<and> np * pz \<le> dsize d \<and> wa dvd 16 \<and> wa dvd pz \<and>
     (\<forall>off. \<not> blob_db_store_open_found_damage (sto E) d off))"

context working_env
begin

lemma device_ok_fields [simp]:
  "device_ok good dsize wu (s\<lparr>active_master := a\<rparr>) = device_ok good dsize wu s"
  "device_ok good dsize wu (s\<lparr>rot_gen := g\<rparr>) = device_ok good dsize wu s"
  "device_ok good dsize wu (s\<lparr>log_next := n\<rparr>) = device_ok good dsize wu s"
  "device_ok good dsize wu (s\<lparr>log_failed := b\<rparr>) = device_ok good dsize wu s"
  "device_ok good dsize wu (s\<lparr>ceiling_reset := b\<rparr>) = device_ok good dsize wu s"
  "device_ok good dsize wu (s\<lparr>next_id := x\<rparr>) = device_ok good dsize wu s"
  "device_ok good dsize wu (s\<lparr>next_id_hint := x\<rparr>) = device_ok good dsize wu s"
  "device_ok good dsize wu (s\<lparr>incompat := f\<rparr>) = device_ok good dsize wu s"
  "device_ok good dsize wu (s\<lparr>ro_compat := f\<rparr>) = device_ok good dsize wu s"
  "device_ok good dsize wu (s\<lparr>compat := f\<rparr>) = device_ok good dsize wu s"
  "device_ok good dsize wu (s\<lparr>fuses := f\<rparr>) = device_ok good dsize wu s"
  "device_ok good dsize wu (s\<lparr>seg_owner := x\<rparr>) = device_ok good dsize wu s"
  "device_ok good dsize wu (s\<lparr>mounted := b\<rparr>) = device_ok good dsize wu s"
  "device_ok good dsize wu (s\<lparr>wedged := b\<rparr>) = device_ok good dsize wu s"
  "device_ok good dsize wu (s\<lparr>maint_start := n\<rparr>) = device_ok good dsize wu s"
  "device_ok good dsize wu (s\<lparr>maint_scanned := n\<rparr>) = device_ok good dsize wu s"
  by (simp_all add: device_ok_def)

lemma rec_aligned:
  assumes "device_ok good dsize wu s" "master_geom (bld E) s"
  shows "write_align s dvd rec_size s" "write_align s dvd 128"
proof -
  obtain k where "write_align s = 2 ^ k" using assms(2) by (auto simp: master_geom_def)
  then show "write_align s dvd rec_size s" using assms(2) round_up_dvd by (simp add: master_geom_def)
  have "write_align s dvd 16" using assms(1) by (simp add: device_ok_def)
  then have "write_align s dvd 16 * 8" by (rule dvd_mult2)
  then show "write_align s dvd 128" by simp
qed

lemma master_lt: "a < 2 \<Longrightarrow> a < BLOB_DB_FIRST_BUCKET + n"
  by (simp add: BLOB_DB_FIRST_BUCKET_def)

lemma master_write_sector_works:
  assumes d: "device_ok good dsize wu s" and g: "master_geom (bld E) s" and pz: "peb_size s = peb (dev s)"
    and slot: "slot < 2"
  shows "\<exists>s'. master_write_sector E s slot gn r = (Inr (), s') \<and> device_ok good dsize wu s' \<and> touches medium peb {slot} s s'"
  unfolding master_write_sector_def
  by (rule store_replace_works [OF d master_lt [OF slot] pz])
    (use sector_fresh [OF g, of gn r] rec_aligned [OF d g] in simp_all)

lemma master_commit_how_works:
  assumes d: "device_ok good dsize wu s" and b: "master_base E medium peb s"
    and rg: "rot_gen s \<noteq> 0xffffffff \<or> \<not> (force \<or> log_failed s \<or> log_cap s \<le> log_next s)"
  shows "\<exists>s'. master_commit_how E s force = (Inr (), s') \<and> device_ok good dsize wu s'"
proof (cases "force \<or> log_failed s \<or> log_cap s \<le> log_next s")
  case True
  have g: "master_geom (bld E) s" "peb_size s = peb (dev s)" using b by (simp_all add: master_base_def)
  obtain t where w: "master_write_sector E s (other_master (active_master s)) (rot_gen s + 1) (master_rec_fill s) = (Inr (), t)"
    and dt: "device_ok good dsize wu t"
    using master_write_sector_works [OF d g, of "other_master (active_master s)"] by auto
  with True rg show ?thesis
    by (simp add: master_commit_how_def Let_def master_rotate_def)
next
  case False
  let ?bs = "master_rec_stage (bld E) (rec_size s) (master_rec_fill s) (log_next s) (rot_gen s)"
  have g: "master_geom (bld E) s" and a: "active_master s < 2" using b by (simp_all add: master_base_def)
  have lb: "length ?bs = rec_size s" using master_geom_rec_size [OF g] by simp
  have "BLOB_DB_MASTER_LOG_OFF + log_next s * rec_size s + length ?bs \<le> peb_size s"
    using rec_slot_inside [of "log_next s" s "bld E"] False g lb by simp
  from store_write_works [OF d master_lt [OF a] this] rec_aligned [OF d g] lb obtain t where
    "store_write E s (peb_offset s (active_master s) + (BLOB_DB_MASTER_LOG_OFF + log_next s * rec_size s)) ?bs = (Inr (), t)"
    "device_ok good dsize wu t"
    by (auto simp: BLOB_DB_MASTER_LOG_OFF_def BLOB_DB_MASTER_HDR_MAX_def)
  with False show ?thesis by (simp add: master_commit_how_def Let_def master_append_def add.assoc)
qed

lemma alloc_id_works:
  assumes d: "device_ok good dsize wu s" and inv: "master_inv E medium peb s" and rg: "rot_gen s \<noteq> 0xffffffff"
    and m: "mounted s" and n0: "next_id s \<noteq> 0"
  shows "\<exists>s'. alloc_id_impl E s = (next_id s, s') \<and> device_ok good dsize wu s'"
proof (cases "next_id_hint s \<le> next_id s")
  case True
  have b: "master_base E medium peb s" using inv by (simp add: master_inv_def)
  obtain t where c: "master_commit_how E s False = (Inr (), t)" "device_ok good dsize wu t"
    using master_commit_how_works [OF d b disjI1 [OF rg]] by blast
  with True m master_commit_how_spec(4) [OF c(1) b] show ?thesis
    by (simp add: alloc_id_impl_def persist_next_id_hint_def master_commit_def Let_def)
next
  case False
  with m d show ?thesis by (simp add: alloc_id_impl_def Let_def)
qed

lemma bind_root_empty_works:
  assumes d: "device_ok good dsize wu s" and g: "geom_ok (bld E) peb s"
  shows "\<exists>s'. bind_root_empty E s = (Inr (), s') \<and> device_ok good dsize wu s'"
proof -
  have bid: "root_bid s < n_buckets s" using g by (simp add: root_bid_def geom_ok_def)
  obtain t where f: "format_bucket E s (root_bid s) = (Inr (), t)" "device_ok good dsize wu t"
    using format_bucket_works [OF d g bid] by blast
  have tt: "touches medium peb {BLOB_DB_FIRST_BUCKET + root_bid s} s t"
    using format_bucket_spec [OF f(1) g bid] by blast
  note D = touchesD [OF tt]
  have rb: "root_bid t = root_bid s" using D by (simp add: root_bid_def)
  obtain k where k: "write_align s = 2 ^ k" and wa: "write_align s \<le> 32" and pz: "128 + 2 * round_up 48 (write_align s) \<le> peb_size s"
    using g by (auto simp: geom_ok_def BLOB_DB_MAX_WRITE_ALIGN_def)
  have "slot_size_for (write_align s) 0 < 14 + 32"
    using round_up_less [of 14 k] k wa by (simp add: slot_size_for_def BLOB_DB_SLOT_OVERHEAD_def)
  then have "\<exists>s'. append_slot E t (root_bid s) 16 BLOB_DB_ROOT_ID 0 [] = (Inr (), s') \<and> device_ok good dsize wu s'"
    using f(2) g bid D pz by (intro append_slot_works) (auto simp: device_ok_def)
  then show ?thesis using f(1) by (simp add: bind_root_empty_def rb BLOB_DB_BUCKET_DATA_OFF_def)
qed


lemma master_format_works:
  assumes d: "device_ok good dsize wu s" and g: "master_geom (bld E) s" and pz: "peb_size s = peb (dev s)"
  shows "\<exists>s'. master_format E s = (Inr (), s') \<and> device_ok good dsize wu s'"
proof -
  define s1 where "s1 = s\<lparr>next_id := 2, seg_owner := 0, fuses := 0, incompat := BLOB_DB_BUILD_INCOMPAT,
            ro_compat := BLOB_DB_BUILD_RO_COMPAT, compat := 0, ceiling_reset := True\<rparr>"
  define s2 where "s2 = s1\<lparr>ceiling_reset := False\<rparr>"
  have f2: "frames medium peb {} s s2" by (simp add: s2_def s1_def)
  have g2: "master_geom (bld E) s2" "peb_size s2 = peb (dev s2)"
    using master_geom_frames [OF f2] g pz f2 by (simp_all add: frames_def)
  have d2: "device_ok good dsize wu s2" using d by (simp add: s2_def s1_def)
  obtain s3 where 3: "master_write_sector E s2 BLOB_DB_MASTER_B_SECTOR 1 (master_rec_fill s1) = (Inr (), s3)"
    "device_ok good dsize wu s3" and t3: "touches medium peb {BLOB_DB_MASTER_B_SECTOR} s2 s3"
    using master_write_sector_works [OF d2 g2, of BLOB_DB_MASTER_B_SECTOR 1 "master_rec_fill s1"]
    by (auto simp: BLOB_DB_MASTER_B_SECTOR_def)
  note f3 = touches_frames [OF t3]
  have g3: "master_geom (bld E) s3" "peb_size s3 = peb (dev s3)"
    using master_geom_frames [OF f3] g2 f3 by (simp_all add: frames_def)
  obtain s4 where 4: "master_write_sector E s3 BLOB_DB_MASTER_A_SECTOR 2 (master_rec_fill s1) = (Inr (), s4)"
    "device_ok good dsize wu s4"
    using master_write_sector_works [OF 3(2) g3, of BLOB_DB_MASTER_A_SECTOR 2 "master_rec_fill s1"]
    by (auto simp: BLOB_DB_MASTER_A_SECTOR_def)
  show ?thesis
    using 3 4 by (simp add: master_format_def Let_def s1_def s2_def)
qed

lemma format_whole_store_works:
  assumes d: "device_ok good dsize wu s" and v: "validated E s" and pz: "peb_size s < 2 ^ 32" "n_pebs s < 2 ^ 16"
    "peb_size s = peb (dev s)"
  shows "\<exists>s'. format_whole_store E s = (Inr (), s') \<and> device_ok good dsize wu s'"
proof -
  define s0 where "s0 = s\<lparr>wedged := False\<rparr>"
  have np: "3 < n_pebs s" using v by (simp add: validated_iff geom_checks_def BLOB_DB_FIRST_BUCKET_def)
  have "st_fa_size s = (BLOB_DB_FIRST_BUCKET + n_buckets s) * peb_size s"
    using v np by (simp add: validated_iff BLOB_DB_FIRST_BUCKET_def)
  then obtain d1 where e: "blob_db_store_erase (sto E) (dev s) 0 (st_fa_size s) = (Inr (), d1)"
    and g1: "good d1" "dsize d1 = dsize (dev s)" "wu d1 = wu (dev s)"
    using erase_works [of "dev s" 0 "st_fa_size s"] d pz(3) by (auto simp: device_ok_def)
  define s1 where "s1 = s0\<lparr>dev := d1\<rparr>"
  have d1': "device_ok good dsize wu s1" using d g1 by (simp add: device_ok_def s1_def s0_def)
  have v1: "validated E s1" using v by (simp add: validated_iff s1_def s0_def)
  have "peb_size s1 = peb (dev s1)" "peb_size s1 < 2 ^ 32" "n_pebs s1 < 2 ^ 16"
    using erase_peb [OF e] pz by (simp_all add: s1_def s0_def)
  note p1 = this
  note g = validated_geom [where peb = peb, OF v1 this cap]
  obtain t where m: "master_format E s1 = (Inr (), t)" "device_ok good dsize wu t"
    using master_format_works [OF d1' g(2) p1(1)] by blast
  have "geom_ok (bld E) peb t" using geom_ok_frames [OF master_format_spec(1) [OF m(1) g(2) p1(1)]] g(1) by simp
  then obtain s' where b: "bind_root_empty E t = (Inr (), s')" "device_ok good dsize wu s'"
    using bind_root_empty_works [OF m(2)] by blast
  show ?thesis
    using e m b by (simp add: format_whole_store_def Let_def store_erase_def s0_def s1_def)
qed

section \<open>Mounting a store in good order\<close>

lemma master_read_works:
  assumes d: "device_ok good dsize wu s" and slot: "slot < 2" and fit: "k + n \<le> peb_size s"
  shows "\<exists>bs. store_read E s (peb_offset s slot + k) n = Inr bs"
  using read_works [of "dev s" "peb_offset s slot + k" n] peb_fits [OF d master_lt [OF slot] fit] d
  by (auto simp: store_read_def device_ok_def add.assoc)

lemma master_slot_read_works:
  assumes "device_ok good dsize wu s" "slot < 2" "master_geom B s" "i < log_cap s"
  shows "\<exists>bs. master_slot_read E s slot i = Inr bs"
  using master_read_works [OF assms(1,2), of "BLOB_DB_MASTER_LOG_OFF + i * rec_size s" "rec_size s"]
    rec_slot_inside [OF assms(4,3)]
  by (simp add: master_slot_read_def add.assoc)

lemma log_search_works:
  assumes "device_ok good dsize wu s" "slot < 2" "master_geom B s"
  shows "hi \<le> log_cap s \<Longrightarrow> \<exists>x. log_search E s slot lo hi = Inr x"
proof (induction "hi - lo" arbitrary: lo hi rule: less_induct)
  case less
  show ?case
  proof (cases "lo < hi")
    case False
    then show ?thesis by (simp add: log_search.simps [of E s slot lo])
  next
    case True
    let ?mid = "lo + (hi - lo) div 2"
    have mid: "lo \<le> ?mid" "?mid < hi" using True by auto
    then obtain bs where rd: "master_slot_read E s slot ?mid = Inr bs"
      using master_slot_read_works [OF assms, of ?mid] less.prems by auto
    have "?mid - lo < hi - lo" "?mid \<le> log_cap s" "hi - (?mid + 1) < hi - lo" using mid less.prems by linarith+
    then have "\<exists>x. log_search E s slot lo ?mid = Inr x" "\<exists>x. log_search E s slot (?mid + 1) hi = Inr x"
      using less.hyps [of ?mid lo] less.hyps [of hi "?mid + 1"] less.prems by blast+
    then show ?thesis using True rd by (simp add: log_search.simps [of E s slot lo hi] Let_def)
  qed
qed

lemma log_walk_back_works:
  assumes "device_ok good dsize wu s" "slot < 2" "master_geom B s"
  shows "n \<le> log_cap s \<Longrightarrow> \<exists>x. log_walk_back E s slot gn e bad n = Inr x"
proof (induction n arbitrary: bad)
  case 0
  then show ?case by simp
next
  case (Suc n)
  then obtain bs where "master_slot_read E s slot n = Inr bs"
    using master_slot_read_works [OF assms, of n] by auto
  then show ?case using Suc by simp
qed

lemma master_log_load_works:
  assumes "device_ok good dsize wu s" "slot < 2" "master_geom B s" "log_prefix s (peb_img medium s slot) e"
  shows "master_log_load E s slot gn = Inr (log_reading (bld E) s gn (peb_img medium s slot) e)"
proof -
  obtain x where x: "log_search E s slot 0 (log_cap s) = Inr x" using log_search_works [OF assms(1-3)] by blast
  have "e \<le> log_cap s" using assms(4) by (simp add: log_prefix_def)
  then have "x = e" "e \<le> log_cap s" using log_search_spec [OF assms(3,4) x] by simp_all
  moreover obtain y where "log_walk_back E s slot gn e False e = Inr y"
    using log_walk_back_works [OF assms(1-3) \<open>e \<le> log_cap s\<close>] by blast
  ultimately have "\<exists>l. master_log_load E s slot gn = Inr l" using x
    by (cases y) (simp add: master_log_load_def)
  then show ?thesis using master_log_load_spec [OF _ assms(3,4)] by blast
qed


lemma masters_clean_hdr:
  assumes c: "masters_clean E medium s" and g: "master_geom (bld E) s" and i: "i < 2" and f: "frames medium peb P s t"
  defines "h \<equiv> master_hdr_of (take 128 (peb_img medium s i))"
  shows "master_class_of (bld E) (take 128 (peb_img medium s i)) = MASTER_OK" "master_accept E t h = Inr ()"
    "h_incompat h = incompat s" "h_ro_compat h = ro_compat s" "h_compat h = compat s"
    "h_max_payload_len h = MAX_PAYLOAD_LEN (bld E)"
proof -
  from c i obtain gn where "take 64 (peb_img medium s i) = master_hdr_bytes E s gn" by (auto simp: masters_clean_def)
  then have b: "take 64 (take 128 (peb_img medium s i)) = master_hdr_bytes E s gn" "64 \<le> length (take 128 (peb_img medium s i))"
    using master_geom_128 [OF g] by simp_all
  note r = master_hdr_roundtrip [OF g b]
  show "master_class_of (bld E) (take 128 (peb_img medium s i)) = MASTER_OK"
    "h_incompat h = incompat s" "h_ro_compat h = ro_compat s" "h_compat h = compat s"
    "h_max_payload_len h = MAX_PAYLOAD_LEN (bld E)" unfolding h_def by (rule r)+
  show "master_accept E t h = Inr ()"
    using c f by (simp add: master_accept_def h_def r Let_def masters_clean_def frames_def BLOB_DB_BUILD_INCOMPAT_def
        BLOB_DB_BUILD_RO_COMPAT_def BLOB_DB_BUILD_REQUIRED_def BLOB_DB_BUILD_HDR_LEN_def)
qed

lemma root_live_works:
  assumes d: "device_ok good dsize wu s" and g: "geom_ok (bld E) peb s" and p: "blob_map E medium s BLOB_DB_ROOT_ID = Some p"
    and nf: "\<not> ends_foreign E medium s (root_bid s)"
  shows "root_live E s = Inr True"
proof -
  have rb: "root_bid s = id_to_bucket s BLOB_DB_ROOT_ID" by (simp add: root_bid_def id_to_bucket_def)
  have bid: "root_bid s < n_buckets s" using geom_n_buckets [OF g] rb by simp
  note ok = device_reads_ok [OF d bid]
  note lf = live_formatted [OF p]
  have hv: "bucket_hdr_valid (bld E) (bucket_img medium s (root_bid s)) (root_bid s)" using lf rb by simp
  obtain f where f: "read_bucket_hdr E s (root_bid s) = Inr f"
    using ok g by (fastforce simp: read_bucket_hdr_def reads_ok_def geom_ok_def dest: spec [of _ 0] spec [of _ 16])
  then have "read_bucket_hdr E s (root_bid s) = Inr True" using read_bucket_hdr_spec [OF f g] hv by simp
  then show ?thesis
    using find_live_progress [OF ok rb _ hv nf p] lf by (auto simp: root_live_def)
qed

lemma mount_open_works:
  assumes d: "device_ok good dsize wu t" and f: "frames medium peb {} s t" and b: "master_base E medium peb s"
    and c: "masters_clean E medium s" and g: "geom_ok (bld E) peb s"
    and un: "unsealed (bld E) s (peb_img medium s BLOB_DB_SCRATCH_SECTOR)"
    and p: "blob_map E medium s BLOB_DB_ROOT_ID = Some p" and nf: "\<not> ends_foreign E medium s (root_bid s)"
    and dm: "\<And>off. \<not> blob_db_store_open_found_damage (sto E) (dev t) off"
  shows "\<exists>t'. mount_open E t = (Inr (), t') \<and> device_ok good dsize wu t' \<and> dev t' = dev t"
proof -
  let ?a = "active_master s"
  have a: "?a < 2" and gm: "master_geom (bld E) s"
    and h: "sector_holds (bld E) s (peb_img medium s ?a) (rot_gen s) (log_next s) (next_id_hint s)"
    and o: "sector_older (bld E) (peb_img medium s (other_master ?a)) (rot_gen s)"
    using b by (simp_all add: master_base_def)
  have img: "peb_img medium t q = peb_img medium s q" for q using frames_img [OF f] by simp
  have gt: "master_geom (bld E) t" using master_geom_frames [OF f] gm by simp
  obtain b0 where b0: "store_read E t (peb_offset t 0) 128 = Inr b0"
    using master_read_works [OF d, of 0 0 128] master_geom_128 [OF gt] by auto
  obtain b1 where b1: "store_read E t (peb_offset t 1) 128 = Inr b1"
    using master_read_works [OF d, of 1 0 128] master_geom_128 [OF gt] by auto
  obtain m where m: "classify_masters E t = Inr m"
    using b0 b1 by (simp add: classify_masters_def master_classify_def BLOB_DB_MASTER_HDR_MAX_def)
  note cm = classify_masters_spec [OF m master_geom_128 [OF gt], unfolded img]
  note hd = masters_clean_hdr [OF c gm]
  have ok: "m_class m i = MASTER_OK" if "i < 2" for i using cm [OF that] hd(1) [OF that f] by simp
  have hm: "h_incompat (m_hdr m i) = incompat s" "h_ro_compat (m_hdr m i) = ro_compat s" "h_compat (m_hdr m i) = compat s"
    "h_max_payload_len (m_hdr m i) = MAX_PAYLOAD_LEN (bld E)" if "i < 2" for i
    using cm [OF that] hd(3-6) [OF that f] by simp_all
  define s1 where "s1 = t\<lparr>incompat := incompat s, ro_compat := ro_compat s, compat := compat s\<rparr>"
  have acc: "master_accept E u (m_hdr m i) = Inr ()" if "i < 2" "frames medium peb {} s u" for i u
    using cm [OF that(1)] hd(2) [OF that] by simp
  have a0: "mount_accept E (t\<lparr>incompat := 0, ro_compat := 0, compat := 0\<rparr>) m 0 = (Inr (), s1)"
    using ok [of 0] acc [of 0] hm [of 0] f by (simp add: mount_accept_def s1_def)
  have a1: "mount_accept E s1 m 1 = (Inr (), s1)"
    using ok [of 1] acc [of 1 s1] hm [of 1] f by (simp add: mount_accept_def s1_def)
  have ds1: "device_ok good dsize wu s1" using d by (simp add: s1_def)
  have f1: "frames medium peb {} s s1" using f by (simp add: s1_def)
  have g1: "master_geom (bld E) s1" using master_geom_frames [OF f1] gm by simp
  have img1: "peb_img medium s1 q = peb_img medium s q" for q using frames_img [OF f1] by simp
  have pre: "log_prefix s1 (peb_img medium s1 ?a) (log_next s)"
    using h f1 by (simp add: sector_holds_def img1 log_prefix_def rec_slot_def frames_def)
  have bok: "both_ok m" using ok by (simp add: both_ok_def)
  have oa: "other_master ?a < 2" by simp
  have rga: "h_rot_gen (m_hdr m ?a) = rot_gen s" using cm(2) [OF a] h by (simp add: sector_holds_def)
  have rgo: "h_rot_gen (m_hdr m (other_master ?a)) < rot_gen s"
    using cm [OF oa] ok [OF oa] o by (simp add: sector_older_def)
  have ne: "h_rot_gen (m_hdr m 0) \<noteq> h_rot_gen (m_hdr m 1)"
    using rga rgo a by (auto simp: other_master_def less_2_cases_iff)
  define l where "l = log_reading (bld E) s1 (rot_gen s) (peb_img medium s1 ?a) (log_next s)"
  have rs: "rec_slot s1 = rec_slot s" using f1 by (simp add: fun_eq_iff rec_slot_def frames_def)
  have ld: "master_log_load E s1 ?a (rot_gen s) = Inr l"
    unfolding l_def by (rule master_log_load_works [OF ds1 a g1 pre])
  have ver: "0 < log_next s" "rec_verifies (bld E) s1 (rot_gen s) (peb_img medium s1 ?a) (log_next s - 1)"
    using h by (simp_all add: sector_holds_def rec_verifies_def rs img1)
  note nw = log_reading_newest [OF ver, folded l_def]
  have hi: "(if \<not> both_ok m then if m_class m 0 = MASTER_OK then 0 else 1
      else if h_rot_gen (m_hdr m 0) > h_rot_gen (m_hdr m 1) then 0 else 1) = ?a"
    using a bok rga rgo by (auto simp: other_master_def less_2_cases_iff)
  have pk: "mount_pick E s1 m = Inr (Some (?a, False, l))"
    unfolding mount_pick_def hi Let_def using ok [of 0] ld nw(1) by (simp add: rga)
  define u where "u = adopt_rec s1 ?a (rot_gen s) (log_next s) (master_rec_of (rec_slot s1 (peb_img medium s1 ?a) (log_next s - 1)))"
  have fu: "frames medium peb {} s u" using f1 by (simp add: u_def adopt_rec_def)
  have du: "device_ok good dsize wu u" using ds1 by (simp add: u_def adopt_rec_def)
  have gu: "geom_ok (bld E) peb u" using geom_ok_frames [OF fu] g by simp
  have n0: "0 < n_buckets s" using g by (simp add: geom_ok_def)
  have unu: "unsealed (bld E) u (peb_img medium u BLOB_DB_SCRATCH_SECTOR)"
    using un frames_img [OF fu, of BLOB_DB_SCRATCH_SECTOR] fu unsealed_cong [of u s] by (simp add: frames_def)
  obtain v where rv: "recover_compaction E u = (Inr (), v)"
    using recover_compaction_works [OF du gu, of 0 "[]"] unu n0 fu by (auto simp: frames_def)
  have "v = u" using recover_compaction_spec(1) [OF rv gu _ unu, of 0] n0 fu by (simp add: frames_def)
  with rv have rc: "recover_compaction E u = (Inr (), u)" by simp
  have ad: "mount_adopt E s1 m (Some (?a, False, l)) = (Inr (False, False), u)"
    using dm ok [OF oa] nw rc rga by (simp add: mount_adopt_def u_def s1_def)
  have up: "mount_upgrade E u m (Some (?a, False, l)) = (Inr False, u)"
    using hm [of 0] hm [of 1] ok [of 0] ok [of 1] by (simp add: mount_upgrade_def features_split_def old_cap_def Let_def)
  note fc = frames_content [OF fu]
  have rt: "root_live E u = Inr True"
  proof (rule root_live_works [OF du gu])
    show "blob_map E medium u BLOB_DB_ROOT_ID = Some p" using fc(5) n0 p by simp
    have "root_bid u = root_bid s" "root_bid s < n_buckets s" "peb_size u = peb_size s" "write_align u = write_align s"
      using fu n0 by (simp_all add: root_bid_def frames_def)
    then show "\<not> ends_foreign E medium u (root_bid u)" using nf fc(3) by (simp add: ends_foreign_def)
  qed
  have "mount_open E t = (Inr (), u\<lparr>mounted := True\<rparr>)"
    using m ok [of 0] ok [of 1] a0 a1 ne pk ad up rt
    by (simp add: mount_open_def Let_def mount_scan_def mount_end_doubt_def mount_root_def)
  then show ?thesis using du by (simp add: u_def adopt_rec_def s1_def)
qed


lemma store_open_works:
  assumes o: "opens_with E good dsize wu (dev s) discard pz wa np" and c: "geom_checks (bld E) pz wa np"
  shows "\<exists>t. store_open_and_validate E s discard = (Inr (), t) \<and> device_ok good dsize wu t \<and> validated E t \<and>
    peb_size t = pz \<and> write_align t = wa \<and> n_pebs t = np \<and> peb_size t = peb (dev t) \<and>
    (\<forall>off. \<not> blob_db_store_open_found_damage (sto E) (dev t) off)"
proof -
  from o obtain g d where og: "blob_db_store_open (sto E) (dev s) discard = (Inr g, d)"
    and g: "geom_peb_size g = pz" "geom_write_align g = wa" "geom_n_pebs g = np" "0 < wa"
    and d: "good d" "wu d = wa" "np * pz \<le> dsize d" "wa dvd 16" "wa dvd pz"
    "\<forall>off. \<not> blob_db_store_open_found_damage (sto E) d off"
    by (auto simp: opens_with_def)
  define t0 where "t0 = s\<lparr>dev := d, peb_size := geom_peb_size g,
                write_align := (if geom_write_align g = 0 then 1 else geom_write_align g),
                n_pebs := geom_n_pebs g, st_fa_size := geom_n_pebs g * geom_peb_size g,
                preformat := geom_preformat g\<rparr>"
  define t where "t = t0\<lparr>rec_size := round_up 48 (write_align t0), log_cap := derived_cap (bld E) (peb_size t0) (write_align t0),
     n_buckets := n_pebs t0 - BLOB_DB_FIRST_BUCKET\<rparr>"
  have v: "validate_geometry E t0 = (Inr (), t)"
    unfolding validate_geometry_iff t_def using c g by (simp add: t0_def)
  then have "store_open_and_validate E s discard = (Inr (), t)"
    using og by (simp add: store_open_and_validate_def t0_def Let_def)
  moreover have "validated E t" using c g by (simp add: validated_iff t_def t0_def)
  moreover have "3 < np" using c by (simp add: geom_checks_def BLOB_DB_FIRST_BUCKET_def)
  then have "device_ok good dsize wu t"
    using d g by (simp add: device_ok_def t_def t0_def BLOB_DB_FIRST_BUCKET_def)
  moreover have "peb d = pz" using open_peb [OF og] g by simp
  ultimately show ?thesis using g d by (simp add: t_def t0_def)
qed

lemma format_impl_works:
  assumes o: "opens_with E good dsize wu (dev s) True pz wa np" and c: "geom_checks (bld E) pz wa np"
    and b: "pz < 2 ^ 32" "np < 2 ^ 16" and m: "\<not> mounted s"
  shows "\<exists>s'. format_impl E s = (Inr (), s') \<and> device_ok good dsize wu s' \<and> n_pebs s' = np \<and> peb_size s' = pz \<and> write_align s' = wa"
proof -
  from store_open_works [OF o c] obtain t where t: "store_open_and_validate E s True = (Inr (), t)"
    "device_ok good dsize wu t" "validated E t" "peb_size t = pz" "write_align t = wa" "n_pebs t = np" "peb_size t = peb (dev t)" by blast
  have pz: "peb_size t < 2 ^ 32" "n_pebs t < 2 ^ 16" using t b by simp_all
  obtain s' where s': "format_whole_store E t = (Inr (), s')" "device_ok good dsize wu s'"
    using format_whole_store_works [OF t(2,3) pz t(7)] by blast
  have "n_pebs s' = n_pebs t \<and> peb_size s' = peb_size t \<and> write_align s' = write_align t"
    using s'(1)
    by (auto simp: format_whole_store_def Let_def seqs_Inr store_erase_def master_format_def master_write_sector_def
        store_replace_def bind_root_empty_def format_bucket_def append_slot_def store_write_def split: prod.splits if_splits)
  then show ?thesis using m t s' by (simp add: format_impl_def)
qed

lemma mount_impl_works:
  assumes r: "reopens E medium s t" and o: "opens_with E good dsize wu (dev t) False (peb_size s) (write_align s) (n_pebs s)"
    and w: "well_kept E medium s" and b: "master_base E medium peb s" and g: "geom_ok (bld E) peb s"
    and p: "blob_map E medium s BLOB_DB_ROOT_ID = Some p"
  shows "\<exists>t'. mount_impl E t = (Inr (), t') \<and> device_ok good dsize wu t'"
proof -
  have v: "validated E s" and c: "masters_clean E medium s" and nf: "\<not> ends_foreign E medium s (root_bid s)"
    and un: "unsealed (bld E) s (peb_img medium s BLOB_DB_SCRATCH_SECTOR)"
    using w by (simp_all add: well_kept_def)
  have pz: "peb_size s = peb (dev s)" using g by (simp add: geom_ok_def)
  have gc: "geom_checks (bld E) (peb_size s) (write_align s) (n_pebs s)" using v by (simp add: validated_iff)
  have o': "opens_with E good dsize wu (dev (t\<lparr>wedged := False\<rparr>)) False (peb_size s) (write_align s) (n_pebs s)"
    using o by simp
  from store_open_works [OF o' gc] obtain t1 where t1: "store_open_and_validate E (t\<lparr>wedged := False\<rparr>) False = (Inr (), t1)"
    and d1: "device_ok good dsize wu t1" and dm: "\<And>off. \<not> blob_db_store_open_found_damage (sto E) (dev t1) off" by blast
  note f = store_open_reopens [OF t1 r v pz]
  from mount_open_works [OF d1 f(1) b c g un p nf dm] obtain t' where "mount_open E t1 = (Inr (), t')"
    "device_ok good dsize wu t'" by blast
  then show ?thesis using t1 r by (simp add: mount_impl_def reopens_def)
qed


section \<open>Erase-all\<close>

lemma pow2_dvd_zeros: "w = 2 ^ k \<Longrightarrow> w \<le> 32 \<Longrightarrow> w dvd max 4 (min w (32 :: nat))"
proof -
  assume w: "w = 2 ^ k" "w \<le> 32"
  show ?thesis
  proof (cases "k \<le> 2")
    case True
    then have "w dvd 2 ^ 2" using w(1) le_imp_power_dvd by blast
    moreover have "w \<le> 2 ^ 2" using True w(1) power_increasing [of k 2 "2::nat"] by simp
    ultimately show ?thesis using w(2) by simp
  next
    case False
    then have "2 ^ 2 \<le> w" using w(1) power_increasing [of 2 k "2::nat"] by simp
    then show ?thesis using w(2) by simp
  qed
qed

lemma invalidate_bucket_works:
  assumes d: "device_ok good dsize wu s" and g: "geom_ok (bld E) peb s" and bid: "bid < n_buckets s"
  shows "\<exists>s'. invalidate_bucket E s bid = (Inr (), s') \<and> device_ok good dsize wu s'"
proof -
  let ?p = "BLOB_DB_FIRST_BUCKET + bid" and ?z = "replicate (max 4 (min (write_align s) BLOB_DB_MAX_WRITE_ALIGN)) (0 :: byte)"
  have p: "?p < BLOB_DB_FIRST_BUCKET + n_buckets s" using bid by simp
  have pz: "peb_size s = peb (dev s)" "128 \<le> peb_size s" using g by (simp_all add: geom_ok_def)
  have lz: "length ?z \<le> peb_size s" using pz(2) by (simp add: BLOB_DB_MAX_WRITE_ALIGN_def)
  have al: "write_align s dvd length ?z"
    using pow2_dvd_zeros [of "write_align s"] g by (auto simp: geom_ok_def BLOB_DB_MAX_WRITE_ALIGN_def)
  obtain pk where rd: "store_read E s (peb_offset s ?p) 4 = Inr pk"
    using read_works [of "dev s" "peb_offset s ?p" 4] peb_fits [OF d p, of 4] d pz(2)
    by (auto simp: store_read_def device_ok_def)
  show ?thesis
    using rd store_replace_works [OF d p pz(1) lz al] store_write_works [OF d p, of 0 ?z] lz al d
    by (auto simp: invalidate_bucket_def Let_def)
qed

lemma invalidate_loop_works:
  "device_ok good dsize wu s \<Longrightarrow> geom_ok (bld E) peb s \<Longrightarrow> set bids \<subseteq> {..<n_buckets s} \<Longrightarrow>
   \<exists>s'. invalidate_loop E s skip bids = (Inr (), s') \<and> device_ok good dsize wu s'"
proof (induction bids arbitrary: s)
  case Nil
  then show ?case by simp
next
  case (Cons bid bids)
  show ?case
  proof (cases "Some bid = skip")
    case True
    with Cons show ?thesis by simp
  next
    case False
    obtain t where t: "invalidate_bucket E s bid = (Inr (), t)" "device_ok good dsize wu t"
      using invalidate_bucket_works [OF Cons.prems(1,2), of bid] Cons.prems(3) by auto
    have tt: "touches medium peb {BLOB_DB_FIRST_BUCKET + bid} s t"
      using invalidate_bucket_spec [OF t(1) Cons.prems(2)] by blast
    from Cons.IH [OF t(2)] touchesD(3,11) [OF tt] Cons.prems False t(1) show ?thesis by auto
  qed
qed

lemma erase_all_impl_works:
  assumes d: "device_ok good dsize wu s" and g: "geom_ok (bld E) peb s" and b: "master_base E medium peb s"
    and m: "mounted s" "\<not> wedged s" and rg: "rot_gen s \<noteq> 0xffffffff"
  shows "\<exists>s'. erase_all_impl E s = (Inr (), s') \<and> device_ok good dsize wu s'"
proof -
  obtain s1 where i: "invalidate_loop E s (Some (root_bid s)) [0..<n_buckets s] = (Inr (), s1)" and d1: "device_ok good dsize wu s1"
    using invalidate_loop_works [OF d g, of "[0..<n_buckets s]" "Some (root_bid s)"] by (auto simp: lessThan_atLeast0)
  note t1 = conjunct1 [OF invalidate_loop_spec [OF i g]]
  have g1: "geom_ok (bld E) peb s1" using touchesD(11) [OF t1] g by simp
  obtain s2 where br: "bind_root_empty E s1 = (Inr (), s2)" and d2: "device_ok good dsize wu s2"
    using bind_root_empty_works [OF d1 g1] by blast
  note t2 = conjunct1 [OF bind_root_empty_spec [OF br g1]]
  note t12 = touches_trans [OF t1 t2]
  obtain dd where s2: "s2 = s\<lparr>dev := dd\<rparr>" using t12 by (auto simp: touches_def)
  have nb: "\<not> log_failed s" using b by (simp add: master_base_def)
  have "master_base E medium peb s2"
    by (rule master_base_frames [OF b touches_frames [OF t12]])
      (use nb masters_only_bucket in \<open>auto simp: s2\<close>)
  then have "\<exists>s'. master_commit_how E (s2\<lparr>next_id := 2, ceiling_reset := True\<rparr>) False = (Inr (), s') \<and> device_ok good dsize wu s'"
    using d2 rg by (intro master_commit_how_works) (simp_all add: s2)
  then show ?thesis using m i br by (auto simp: erase_all_impl_def invalidate_buckets_def master_commit_def Let_def)
qed

end

end
