(* ===== verification/Blob_Object.thy ===== *)
theory Blob_Object
  imports Blob_LifeWorks Object_Store
begin

text \<open>
  blob_db keeps the promise of \<open>Object_Store\<close>. On a working device an update or a delete takes
  effect or fails without one: the room it needs is made by compactions that keep every object,
  and the errors that are left (a full bucket, an id out of range, a payload over the cap) come
  before the append. \<open>sound\<close> is the invariant of such a session.
\<close>

section \<open>Payload lengths\<close>

lemma entries_length:
  assumes "length buf = pz" "e \<in> set (entries B pz wa buf off)"
  shows "length (e_payload e) \<le> MAX_PAYLOAD_LEN B"
  using assms(2)
proof (induction off rule: walk_induct [where B = B and pz = pz and wa = wa and buf = buf])
  case (stop off)
  then show ?case by (simp add: entries_walk)
next
  case (step off sv i)
  have "sv_val_len sv \<le> MAX_PAYLOAD_LEN B"
    using step(1) by (auto simp: slot_walk_at_def hdr_ends_log_def Let_def split: if_splits)
  moreover have "off + 14 + sv_val_len sv \<le> pz" by (rule slot_walk_at_head(5) [OF step(1) assms(1)])
  ultimately show ?case using step by (auto simp: entries_walk entry_at_def assms(1))
qed

lemma blob_map_length:
  assumes "blob_map E medium s x = Some p"
  shows "length p \<le> MAX_PAYLOAD_LEN (bld E)"
proof -
  from assms obtain e where "e \<in> set (bucket_log E medium s (id_to_bucket s x))" "p = e_payload e"
    by (auto simp: blob_map_def live_def split: if_splits option.splits dest!: newest_Some)
  then show ?thesis by (auto simp: bucket_log_def split: if_splits dest!: entries_length [rotated])
qed

section \<open>A session on a working device\<close>

definition sound ::
  "'d env \<Rightarrow> ('d \<Rightarrow> nat \<Rightarrow> byte) \<Rightarrow> ('d \<Rightarrow> nat) \<Rightarrow> ('d \<Rightarrow> bool) \<Rightarrow> ('d \<Rightarrow> nat) \<Rightarrow> ('d \<Rightarrow> nat) \<Rightarrow> 'd bdb \<Rightarrow> bool" where
  "sound E medium peb good dsize wu s \<longleftrightarrow>
     device_ok good dsize wu s \<and> db_inv E medium peb s \<and> master_inv E medium peb s \<and> mounted s \<and> \<not> wedged s \<and>
     (\<forall>b < n_buckets s. tail_droppable E medium s b) \<and> next_id s \<noteq> 0 \<and>
     (\<forall>x. blob_map E medium s x \<noteq> None \<longrightarrow> x < next_id s)"

text \<open>A step of a writer that changes one bucket and no object.\<close>

definition kept ::
  "'d env \<Rightarrow> ('d \<Rightarrow> nat \<Rightarrow> byte) \<Rightarrow> ('d \<Rightarrow> nat) \<Rightarrow> nat \<Rightarrow> 'd bdb \<Rightarrow> 'd bdb \<Rightarrow> bool" where
  "kept E medium peb bid s t \<longleftrightarrow>
     touches medium peb (one_bucket bid) s t \<and> db_inv E medium peb t \<and>
     blob_map E medium t = blob_map E medium s \<and> tail_droppable E medium t bid"

lemma kept_refl: "db_inv E medium peb s \<Longrightarrow> tail_droppable E medium s bid \<Longrightarrow> kept E medium peb bid s s"
  by (simp add: kept_def)

lemma kept_log:
  assumes inv: "db_inv E medium peb s" and bid: "bid < n_buckets s" and t: "touches medium peb (one_bucket bid) s t"
    and l: "log_is E s bid (bucket_img medium t bid) es c"
    and lv: "live es = live (bucket_log E medium s bid)" and sub: "set es \<subseteq> set (bucket_log E medium s bid)"
  shows "kept E medium peb bid s t"
proof -
  have "homed s bid es" using inv bid sub by (auto simp: db_inv_def bucket_ok_def homed_def)
  note ch = change_bucket [OF inv t l this]
  have "log_is E t bid (bucket_img medium t bid) es c" using l touchesD [OF t] log_is_cong by metis
  then have "clean_log E medium t bid" by (auto simp: clean_log_def)
  with ch clean_log_droppable(1) show ?thesis
    by (auto simp: kept_def t fun_eq_iff lv blob_map_def)
qed

lemma one_bucket_masters: "one_bucket bid \<inter> masters_only = {}"
  by (auto simp: one_bucket_def masters_only_def BLOB_DB_SCRATCH_SECTOR_def BLOB_DB_FIRST_BUCKET_def
      BLOB_DB_MASTER_A_SECTOR_def BLOB_DB_MASTER_B_SECTOR_def)

lemma master_inv_touches:
  assumes "touches medium peb (one_bucket bid) s t" "master_inv E medium peb s"
  shows "master_inv E medium peb t"
proof -
  from assms(1) obtain d where d: "t = s\<lparr>dev := d\<rparr>" by (auto simp: touches_def)
  have "master_base E medium peb t"
    by (rule master_base_frames [OF _ touches_frames [OF assms(1)] one_bucket_masters])
      (use assms(2) in \<open>simp_all add: d master_inv_def master_base_def\<close>)
  with assms(2) show ?thesis by (simp add: d master_inv_def)
qed

lemma tail_droppable_frame:
  assumes "touches medium peb (one_bucket bid) s t" "b \<noteq> bid"
  shows "tail_droppable E medium t b = tail_droppable E medium s b"
  using touches_img_bucket [OF assms(1) one_bucket_other [OF assms(2)]] touchesD [OF assms(1)]
  by (simp add: tail_droppable_def ends_foreign_def)

context working_env
begin

lemma sound_touches:
  assumes "sound E medium peb good dsize wu s" "touches medium peb (one_bucket bid) s t"
    and "device_ok good dsize wu t" "db_inv E medium peb t" "tail_droppable E medium t bid"
    and "\<forall>x. blob_map E medium t x \<noteq> None \<longrightarrow> x < next_id s"
  shows "sound E medium peb good dsize wu t"
proof -
  have "tail_droppable E medium t b" if "b < n_buckets t" for b
    using that assms tail_droppable_frame [OF assms(2), of b E] touchesD [OF assms(2)]
    by (cases "b = bid") (auto simp: sound_def)
  with assms master_inv_touches [OF assms(2)] touchesD [OF assms(2)] show ?thesis
    by (simp add: sound_def)
qed

lemma sound_kept:
  assumes "sound E medium peb good dsize wu s" "kept E medium peb bid s t" "device_ok good dsize wu t"
  shows "sound E medium peb good dsize wu t"
  using sound_touches [OF assms(1) _ assms(3), of bid] assms(1,2) by (simp add: kept_def sound_def)

section \<open>Making room succeeds or changes nothing\<close>

lemma compact_bucket_total:
  assumes d: "device_ok good dsize wu s" and inv: "db_inv E medium peb s" and bid: "bid < n_buckets s"
    and hv: "bucket_hdr_valid (bld E) (bucket_img medium s bid) bid"
    and drp: "tail_droppable E medium s bid" and c: "compact_bucket E s bid = (r, u)"
  shows "device_ok good dsize wu u \<and> kept E medium peb bid s u \<and> (r = Inr () \<or> r = Inl ENOSPC) \<and>
    (r = Inr () \<longrightarrow> (\<exists>k. log_is E u bid (bucket_img medium u bid) (keep (bucket_log E medium s bid)) k))"
proof (cases "live_bytes E medium s bid \<le> scratch_seal_off s")
  case False
  have g: "geom_ok (bld E) peb s" using inv by (simp add: db_inv_def)
  obtain buf where "compact_bucket E s bid = compact_commit E s bid buf (live_bytes E medium s bid)"
    using compact_bucket_commits [OF device_reads_ok [OF d bid] g bid hv drp] by auto
  then have "compact_bucket E s bid = (Inl ENOSPC, s)" using False by (simp add: compact_commit_def Let_def)
  with c d kept_refl [OF inv drp] show ?thesis by auto
next
  case True
  have g: "geom_ok (bld E) peb s" using inv by (simp add: db_inv_def)
  obtain v where v: "compact_bucket E s bid = (Inr (), v)" "device_ok good dsize wu v"
    using compact_bucket_works [OF d g bid hv drp True] by blast
  with c have ru: "r = Inr ()" "u = v" by simp_all
  obtain k where t: "touches medium peb (one_bucket bid) s u"
    and k: "log_is E s bid (bucket_img medium u bid) (keep (bucket_log E medium s bid)) k"
    using compact_bucket_spec [OF v(1) g bid] hv by (auto simp: ru one_bucket_def bucket_log_def)
  have "log_is E u bid (bucket_img medium u bid) (keep (bucket_log E medium s bid)) k"
    using k touchesD [OF t] log_is_cong by metis
  moreover have "kept E medium peb bid s u" by (rule kept_log [OF inv bid t k]) (auto simp: live_keep keep_subset)
  ultimately show ?thesis using v(2) ru by blast
qed

lemma update_make_room_total:
  assumes d: "device_ok good dsize wu s" and inv: "db_inv E medium peb s" and bid: "bid < n_buckets s"
    and hv: "bucket_hdr_valid (bld E) (bucket_img medium s bid) bid"
    and drp: "tail_droppable E medium s bid" and m: "update_make_room E s bid x ssz c0 = (r, u)"
  shows "device_ok good dsize wu u \<and> kept E medium peb bid s u"
proof (cases "c0 + ssz > peb_size s")
  case False
  with m d kept_refl [OF inv drp] show ?thesis by (auto simp: update_make_room_def)
next
  case True
  obtain r' u' where c: "compact_bucket E s bid = (r', u')" by (cases "compact_bucket E s bid")
  from m c True have "u = u'"
    by (auto simp: update_make_room_def seqs_def reads_def split: sum.splits if_splits)
  with compact_bucket_total [OF d inv bid hv drp c] show ?thesis by simp
qed

lemma update_total:
  assumes s: "sound E medium peb good dsize wu s" and u: "update_impl E s x (Some p) (length p) = (r, s')"
  shows "sound E medium peb good dsize wu s' \<and> next_id s' = next_id s \<and>
    blob_map E medium s' = effect r ((blob_map E medium s)(x \<mapsto> p)) (blob_map E medium s)"
proof -
  let ?bid = "id_to_bucket s x" and ?ssz = "slot_size_for (write_align s) (length p)"
  let ?hv = "bucket_hdr_valid (bld E) (bucket_img medium s ?bid) ?bid"
  have d: "device_ok good dsize wu s" and inv: "db_inv E medium peb s" and g: "geom_ok (bld E) peb s"
    using s by (simp_all add: sound_def db_inv_def)
  note bid = geom_n_buckets [OF g, of x]
  have drp: "tail_droppable E medium s ?bid" using s bid by (simp add: sound_def)
  show ?thesis
  proof (cases "x = 0 \<or> x \<ge> next_id s \<or> length p > MAX_PAYLOAD_LEN (bld E)")
    case True
    with u s have "s' = s" "\<exists>e. r = Inl e" by (auto simp: update_impl_def split: if_splits)
    with s show ?thesis by auto
  next
    case False
    obtain c0 t where 1: "update_cursor E s ?bid x ?hv = (Inr c0, t)" and dt: "device_ok good dsize wu t"
      using update_cursor_works [OF d g bid drp] by blast
    have kt: "kept E medium peb ?bid s t \<and> bucket_hdr_valid (bld E) (bucket_img medium t ?bid) ?bid"
    proof (cases ?hv)
      case True
      with 1 kept_refl [OF inv drp] show ?thesis by (auto simp: update_cursor_def)
    next
      case False
      then have f: "format_bucket E s ?bid = (Inr (), t)" using 1 by (auto simp: update_cursor_def res_simps)
      note fr = format_room [OF f inv bid False]
      from kept_log [OF inv bid fr] fr(2) show ?thesis by (simp add: log_is_def)
    qed
    then have tt: "touches medium peb (one_bucket ?bid) s t" by (simp add: kept_def)
    note D = touchesD [OF tt]
    obtain r2 v where 2: "update_make_room E t ?bid x ?ssz c0 = (r2, v)" by (cases "update_make_room E t ?bid x ?ssz c0")
    have kv: "device_ok good dsize wu v" "kept E medium peb ?bid t v"
      using update_make_room_total [OF dt _ _ _ _ 2] kt bid D by (auto simp: kept_def)
    have k: "kept E medium peb ?bid s v" using kt kv(2) touches_one_trans by (auto simp: kept_def)
    have step: "update_impl E s x (Some p) (length p) = seqs (r2, v) (\<lambda>c v. append_slot E v ?bid c x 0 p)"
      using 1 2 False s read_bucket_hdr_progress [OF device_reads_ok [OF d bid] g] leD [of "next_id s" x]
      by (auto simp: update_impl_def Let_def sound_def c_bytes_def)
    show ?thesis
    proof (cases r2)
      case (Inl e)
      with step u have "r = Inl e" "s' = v" by simp_all
      with sound_kept [OF s k kv(1)] k show ?thesis
        using touchesD(6) by (auto simp: kept_def)
    next
      case (Inr c)
      have "room_for E medium peb s ?bid ?ssz v c" by (rule update_room [OF inv refl 1 2 [unfolded Inr] refl])
      then obtain es where tu: "touches medium peb (one_bucket ?bid) s v" and cf: "c + ?ssz \<le> peb_size s"
        and l: "log_is E s ?bid (bucket_img medium v ?bid) es c" by (auto simp: room_for_def)
      note D' = touchesD [OF tu]
      obtain j where j: "write_align s = 2 ^ j" using g by (auto simp: geom_ok_def)
      have "write_align v dvd c"
        using log_is_bytes [OF l] log_bytes_dvd [of j es] j d D' by (simp add: device_ok_def dvd_add)
      then obtain w where a: "append_slot E v ?bid c x 0 p = (Inr (), w)" "device_ok good dsize wu w"
        using append_slot_works [OF kv(1), of ?bid p c x 0] g bid False cf D' by (auto simp: not_less)
      with step u Inr have ru: "r = Inr ()" "s' = w" by simp_all
      have us: "update_impl E s x (Some p) (length p) = (Inr (), s')" using u ru by simp
      note sp = update_impl_spec [OF inv us]
      have sp': "blob_map E medium s' = (blob_map E medium s)(x \<mapsto> p)" using sp(3) by (simp add: c_bytes_def)
      have "sound E medium peb good dsize wu s'"
        by (rule sound_touches [OF s sp(2)])
          (use sp s a False clean_log_droppable(1) in \<open>auto simp: ru sound_def c_bytes_def not_le\<close>)
      then show ?thesis using sp' touchesD(6) [OF sp(2)] ru by simp
    qed
  qed
qed

lemma lookup_make_room_total:
  assumes d: "device_ok good dsize wu s" and inv: "db_inv E medium peb s" and bid: "bid = id_to_bucket s x" "bid < n_buckets s"
    and hv: "bucket_hdr_valid (bld E) (bucket_img medium s bid) bid" and p: "blob_map E medium s x = Some p"
    and drp: "tail_droppable E medium s bid" and m: "lookup_make_room E s bid x ssz c0 q = (r, u)"
  shows "device_ok good dsize wu u \<and> kept E medium peb bid s u \<and> (\<forall>e. r = Inl e \<longrightarrow> e = ENOSPC)"
proof (cases "c0 + ssz > peb_size s")
  case False
  with m d kept_refl [OF inv drp] show ?thesis by (auto simp: lookup_make_room_def)
next
  case True
  obtain r' u' where c: "compact_bucket E s bid = (r', u')" by (cases "compact_bucket E s bid")
  from m c True have "u = u'"
    by (auto simp: lookup_make_room_def seqs_def reads_def split: sum.splits if_splits prod.splits)
  note ct = compact_bucket_total [OF d inv bid(2) hv drp c, folded this]
  have "e = ENOSPC" if "r = Inl e" for e
  proof (cases r')
    case (Inl e')
    with ct m c True that show ?thesis by (simp add: lookup_make_room_def)
  next
    case (Inr y)
    have k: "kept E medium peb bid s u" using ct by blast
    then have t: "touches medium peb (one_bucket bid) s u" by (simp add: kept_def)
    note D = touchesD [OF t]
    have p': "blob_map E medium u x = Some p" and dr: "tail_droppable E medium u bid" using k p by (simp_all add: kept_def)
    have bid': "bid = id_to_bucket u x" using bid(1) D by (simp add: id_to_bucket_def)
    have x: "x \<noteq> 0" and hv': "bucket_hdr_valid (bld E) (bucket_img medium u bid) bid"
      using live_formatted [OF p'] bid' by auto
    have nf: "\<not> ends_foreign E medium u bid" using dr by (simp add: tail_droppable_def)
    have ok: "reads_ok E u bid" by (rule device_reads_ok) (use ct bid(2) D in auto)
    obtain sc where fl: "find_live_slot E u bid x = Inr (sc, p)" "scan_ends E u (bucket_img medium u bid) sc"
      using find_live_progress [OF ok bid' x hv' nf p'] by blast
    obtain c1 where "confirm_cursor u sc = Inr c1" using ends_not_foreign [OF fl(2) hv' nf] by blast
    with m c True Inr fl(1) \<open>u = u'\<close> that show ?thesis by (auto simp: lookup_make_room_def split: if_splits)
  qed
  with ct show ?thesis by blast
qed

lemma lookup_none:
  assumes "reads_ok E s (id_to_bucket s x)" "geom_ok (bld E) peb s" "x \<noteq> 0"
    and "\<not> ends_foreign E medium s (id_to_bucket s x)" "blob_map E medium s x = None"
  shows "read_bucket_hdr E s (id_to_bucket s x) = Inr False \<or>
    read_bucket_hdr E s (id_to_bucket s x) = Inr True \<and> find_live_slot E s (id_to_bucket s x) x = Inl ENOENT"
proof -
  obtain sc where l: "\<And>f. andthen (read_bucket_hdr E s (id_to_bucket s x)) (\<lambda>formatted.
        if \<not> formatted then Inl ENOENT else andthen (find_live_slot E s (id_to_bucket s x) x) f) = Inl ENOENT"
    using lookup_exact [OF assms(1,2) refl assms(3)] assms(4,5) by auto
  from l [of "\<lambda>_. Inr undefined"] read_bucket_hdr_progress [OF assms(1,2)] show ?thesis
    by (cases "find_live_slot E s (id_to_bucket s x) x") auto
qed

text \<open>The part delete and write share, on either outcome.\<close>

lemma rewrite_total:
  assumes s: "sound E medium peb good dsize wu s" and p: "blob_map E medium s x = Some p"
  shows "\<exists>sc c0. read_bucket_hdr E s (id_to_bucket s x) = Inr True \<and>
    find_live_slot E s (id_to_bucket s x) x = Inr (sc, p) \<and> confirm_cursor s sc = Inr c0 \<and>
    target_flags sc AND BLOB_DB_SLOT_F_SEGMENT = 0 \<and>
    (\<forall>q ex r s'. length q \<le> MAX_PAYLOAD_LEN (bld E) \<longrightarrow>
      seqs (lookup_make_room E s (id_to_bucket s x) x (slot_size_for (write_align s) (length q)) c0 p)
        (\<lambda>(c, _) v. append_slot E v (id_to_bucket s x) c x ex q) = (r, s') \<longrightarrow>
      device_ok good dsize wu s' \<and> (\<forall>e. r = Inl e \<longrightarrow> e = ENOSPC \<and> kept E medium peb (id_to_bucket s x) s s'))"
proof -
  let ?bid = "id_to_bucket s x"
  have d: "device_ok good dsize wu s" and inv: "db_inv E medium peb s" and g: "geom_ok (bld E) peb s"
    using s by (simp_all add: sound_def db_inv_def)
  note bid = geom_n_buckets [OF g, of x]
  have drp: "tail_droppable E medium s ?bid" using s bid by (simp add: sound_def)
  then have nf: "\<not> ends_foreign E medium s ?bid" by (simp add: tail_droppable_def)
  have x: "x \<noteq> 0" and hv: "bucket_hdr_valid (bld E) (bucket_img medium s ?bid) ?bid"
    using live_formatted [OF p] by auto
  note ok = device_reads_ok [OF d bid]
  obtain sc where fl: "find_live_slot E s ?bid x = Inr (sc, p)" "scan_ends E s (bucket_img medium s ?bid) sc"
    "target_flags sc AND BLOB_DB_SLOT_F_SEGMENT = 0"
    using find_live_progress [OF ok refl x hv nf p] by blast
  obtain c0 where c0: "confirm_cursor s sc = Inr c0" using ends_not_foreign [OF fl(2) hv nf] by blast
  have "device_ok good dsize wu s' \<and> (\<forall>e. r = Inl e \<longrightarrow> e = ENOSPC \<and> kept E medium peb ?bid s s')"
    if q: "length q \<le> MAX_PAYLOAD_LEN (bld E)"
      and run: "seqs (lookup_make_room E s ?bid x (slot_size_for (write_align s) (length q)) c0 p)
        (\<lambda>(c, _) v. append_slot E v ?bid c x ex q) = (r, s')" for q ex r s'
  proof -
    let ?ssz = "slot_size_for (write_align s) (length q)"
    obtain r2 v where m: "lookup_make_room E s ?bid x ?ssz c0 p = (r2, v)" by (cases "lookup_make_room E s ?bid x ?ssz c0 p")
    have kv: "device_ok good dsize wu v" "kept E medium peb ?bid s v" "\<And>e. r2 = Inl e \<Longrightarrow> e = ENOSPC"
      using lookup_make_room_total [OF d inv refl bid hv p drp m] by blast+
    show ?thesis
    proof (cases r2)
      case (Inl e)
      with run m kv show ?thesis by auto
    next
      case (Inr y)
      obtain c p' where y: "y = (c, p')" by (cases y)
      have "room_for E medium peb s ?bid ?ssz v c" by (rule lookup_room(1) [OF inv refl x hv fl(1) c0 m [unfolded Inr y] refl])
      then obtain es where tu: "touches medium peb (one_bucket ?bid) s v" and cf: "c + ?ssz \<le> peb_size s"
        and l: "log_is E s ?bid (bucket_img medium v ?bid) es c" by (auto simp: room_for_def)
      note D = touchesD [OF tu]
      obtain j where j: "write_align s = 2 ^ j" using g by (auto simp: geom_ok_def)
      have "write_align v dvd c"
        using log_is_bytes [OF l] log_bytes_dvd [of j es] j d D by (simp add: device_ok_def dvd_add)
      then obtain w where "append_slot E v ?bid c x ex q = (Inr (), w)" "device_ok good dsize wu w"
        using append_slot_works [OF kv(1), of ?bid q c x ex] g bid q cf D by auto
      with run m Inr y show ?thesis by auto
    qed
  qed
  with fl c0 hv read_bucket_hdr_progress [OF ok g] show ?thesis by auto
qed

lemma delete_total:
  assumes s: "sound E medium peb good dsize wu s" and u: "delete_impl E s x = (r, s')"
  shows "sound E medium peb good dsize wu s' \<and> next_id s' = next_id s \<and>
    blob_map E medium s' = effect r ((blob_map E medium s)(x := None)) (blob_map E medium s) \<and>
    (r = Inl ENOENT \<longrightarrow> blob_map E medium s x = None)"
proof -
  let ?bid = "id_to_bucket s x"
  have d: "device_ok good dsize wu s" and inv: "db_inv E medium peb s" and g: "geom_ok (bld E) peb s"
    and st: "mounted s" "\<not> wedged s"
    using s by (simp_all add: sound_def db_inv_def)
  note bid = geom_n_buckets [OF g, of x]
  show ?thesis
  proof (cases "blob_map E medium s x")
    case None
    have "\<not> ends_foreign E medium s ?bid" using s bid by (simp add: sound_def tail_droppable_def)
    from lookup_none [OF device_reads_ok [OF d bid] g _ this None] u st
    have "r = Inl ENOENT" "s' = s" by (auto simp: delete_impl_def Let_def split: if_splits)
    with s None show ?thesis by simp
  next
    case (Some p)
    obtain sc c0 where h: "read_bucket_hdr E s ?bid = Inr True" "find_live_slot E s ?bid x = Inr (sc, p)"
      "confirm_cursor s sc = Inr c0"
      and run: "\<And>q ex r s'. length q \<le> MAX_PAYLOAD_LEN (bld E) \<Longrightarrow>
        seqs (lookup_make_room E s ?bid x (slot_size_for (write_align s) (length q)) c0 p)
          (\<lambda>(c, _) v. append_slot E v ?bid c x ex q) = (r, s') \<Longrightarrow>
        device_ok good dsize wu s' \<and> (\<forall>e. r = Inl e \<longrightarrow> e = ENOSPC \<and> kept E medium peb ?bid s s')"
      using rewrite_total [OF s Some] by blast
    have "x \<noteq> 0" using live_formatted [OF Some] by blast
    with u h st have "seqs (lookup_make_room E s ?bid x (slot_size_for (write_align s) (length ([] :: byte list))) c0 p)
          (\<lambda>(c, _) v. append_slot E v ?bid c x BLOB_DB_SLOT_F_TOMBSTONE []) = (r, s')"
      by (simp add: delete_impl_def Let_def)
    note run = run [OF _ this, simplified]
    show ?thesis
    proof (cases r)
      case (Inl e)
      with run sound_kept [OF s] touchesD(6) show ?thesis by (auto simp: kept_def)
    next
      case (Inr y)
      with u have us: "delete_impl E s x = (Inr (), s')" by simp
      note sp = delete_impl_spec [OF inv us]
      have "sound E medium peb good dsize wu s'"
        by (rule sound_touches [OF s sp(2)]) (use sp s run clean_log_droppable(1) [OF sp(5)] Inr in \<open>auto simp: sound_def\<close>)
      with sp touchesD(6) [OF sp(2)] Inr show ?thesis by simp
    qed
  qed
qed

lemma write_total:
  assumes s: "sound E medium peb good dsize wu s" and q: "q \<noteq> []" "off + length q < 2 ^ 32"
    and w: "write_impl E s x (word_of_nat off) (Some q) (word_of_nat (length q)) = (r, s')"
  shows "sound E medium peb good dsize wu s' \<and> next_id s' = next_id s \<and>
    (case blob_map E medium s x of None \<Rightarrow> (\<exists>e. r = Inl e) \<and> blob_map E medium s' = blob_map E medium s
     | Some p \<Rightarrow> blob_map E medium s' = effect r ((blob_map E medium s)(x \<mapsto> write_over p off q)) (blob_map E medium s))"
proof -
  let ?bid = "id_to_bucket s x"
  let ?o = "word_of_nat off :: u32" and ?l = "word_of_nat (length q) :: u32"
  have u: "unat ?o = off" "unat ?l = length q" using q(2) by (simp_all add: unat_of_nat)
  have sum: "unat (?o + ?l) = off + length q" using q(2) u by (simp add: unat_word_ariths)
  have nz: "?l \<noteq> 0" using u(2) q(1) by (metis length_0_conv unat_0)
  have nw: "\<not> ?o + ?l < ?o" using sum u by (simp add: word_less_nat_alt)
  have d: "device_ok good dsize wu s" and inv: "db_inv E medium peb s" and g: "geom_ok (bld E) peb s"
    and st: "mounted s" "\<not> wedged s"
    using s by (simp_all add: sound_def db_inv_def)
  note bid = geom_n_buckets [OF g, of x]
  show ?thesis
  proof (cases "blob_map E medium s x")
    case None
    have "\<not> ends_foreign E medium s ?bid" using s bid by (simp add: sound_def tail_droppable_def)
    from lookup_none [OF device_reads_ok [OF d bid] g _ this None] w st nw
    have "r = Inl ENOENT" "s' = s" by (auto simp: write_impl_def Let_def split: if_splits)
    with s None show ?thesis by simp
  next
    case (Some p)
    let ?need = "max (off + length q) (length p)"
    let ?new = "\<lambda>p. write_staged p ?need off q"
    obtain sc c0 where h: "read_bucket_hdr E s ?bid = Inr True" "find_live_slot E s ?bid x = Inr (sc, p)"
      "confirm_cursor s sc = Inr c0" "target_flags sc AND BLOB_DB_SLOT_F_SEGMENT = 0"
      and run: "\<And>q ex r s'. length q \<le> MAX_PAYLOAD_LEN (bld E) \<Longrightarrow>
        seqs (lookup_make_room E s ?bid x (slot_size_for (write_align s) (length q)) c0 p)
          (\<lambda>(c, _) v. append_slot E v ?bid c x ex q) = (r, s') \<Longrightarrow>
        device_ok good dsize wu s' \<and> (\<forall>e. r = Inl e \<longrightarrow> e = ENOSPC \<and> kept E medium peb ?bid s s')"
      using rewrite_total [OF s Some] by blast
    have x: "x \<noteq> 0" and hv: "bucket_hdr_valid (bld E) (bucket_img medium s ?bid) ?bid" using live_formatted [OF Some] by auto
    have len: "length (?new p) = ?need" by (rule length_write_staged) simp_all
    show ?thesis
    proof (cases "?need > MAX_PAYLOAD_LEN (bld E)")
      case True
      with w h st x nw nz sum u have "r = Inl EFBIG" "s' = s" by (simp_all add: write_impl_def Let_def)
      with s Some show ?thesis by simp
    next
      case False
      let ?room = "lookup_make_room E s ?bid x (slot_size_for (write_align s) ?need) c0 p"
      have w': "seqs ?room (\<lambda>(c, p') v. append_slot E v ?bid c x 0 (?new p')) = (r, s')"
        using w h st x nw nz sum u False by (simp add: write_impl_def Let_def c_bytes_def)
      have same: "p' = p" if "?room = (Inr (c, p'), v)" for c p' v
        using lookup_room [OF inv refl x hv h(2,3) that refl] Some by simp
      have "seqs ?room (\<lambda>(c, _) v. append_slot E v ?bid c x 0 (?new p)) = (r, s')"
        using w' same by (auto simp: seqs_def split: prod.splits sum.splits)
      moreover have "?need \<le> MAX_PAYLOAD_LEN (bld E)" using False by (rule leI)
      ultimately have dev: "device_ok good dsize wu s' \<and> (\<forall>e. r = Inl e \<longrightarrow> e = ENOSPC \<and> kept E medium peb ?bid s s')"
        using run [of "?new p" 0 r s'] len by simp
      show ?thesis
      proof (cases r)
        case (Inl e)
        with dev have k: "kept E medium peb ?bid s s'" "device_ok good dsize wu s'" by simp_all
        have "touches medium peb (one_bucket ?bid) s s'" using k(1) by (simp add: kept_def)
        with sound_kept [OF s k] touchesD(6) k(1) Inl Some show ?thesis by (auto simp: kept_def)
      next
        case (Inr y)
        with w have ws: "write_impl E s x ?o (Some q) ?l = (Inr (), s')" by simp
        obtain p1 where sp: "blob_map E medium s x = Some p1" "db_inv E medium peb s'" "touches medium peb (one_bucket ?bid) s s'"
          "clean_log E medium s' ?bid"
          "blob_map E medium s' = (blob_map E medium s)(x \<mapsto> write_staged p1 (max (unat ?o + unat ?l) (length p1)) (unat ?o) (c_bytes (Some q) (unat ?l)))"
          using write_impl_spec [OF inv ws nz] u by auto
        have map: "blob_map E medium s' = (blob_map E medium s)(x \<mapsto> write_over p off q)"
          using sp(1,5) Some u by (auto simp: c_bytes_def write_staged_def write_over_def max_def)
        have "x < next_id s" using s Some by (auto simp: sound_def)
        have "sound E medium peb good dsize wu s'"
          by (rule sound_touches [OF s sp(3) _ sp(2)]) (use s dev map clean_log_droppable(1) [OF sp(4)] \<open>x < next_id s\<close> in \<open>auto simp: sound_def\<close>)
        with map touchesD(6) [OF sp(3)] Inr Some show ?thesis by simp
      qed
    qed
  qed
qed

section \<open>Id allocation\<close>

lemma commit_total:
  assumes d: "device_ok good dsize wu s" and inv: "master_inv E medium peb s" and c: "master_commit_how E s False = (r, t)"
  shows "device_ok good dsize wu t \<and> (r = Inr () \<or> (\<exists>e. r = Inl e) \<and> t = s)"
proof (cases "rot_gen s = 0xffffffff \<and> (log_failed s \<or> log_cap s \<le> log_next s)")
  case True
  then have "master_commit_how E s False = (Inl ENOSPC, s\<lparr>ceiling_reset := False\<rparr>)"
    by (auto simp: master_commit_how_def Let_def master_rotate_def)
  moreover have "s\<lparr>ceiling_reset := False\<rparr> = s" using inv by (cases s) (simp add: master_inv_def)
  ultimately show ?thesis using c d by simp
next
  case False
  have b: "master_base E medium peb s" using inv by (simp add: master_inv_def)
  have "\<exists>s'. master_commit_how E s False = (Inr (), s') \<and> device_ok good dsize wu s'"
    by (rule master_commit_how_works [OF d b]) (use False in auto)
  with c show ?thesis by auto
qed

lemma sound_frames:
  assumes s: "sound E medium peb good dsize wu s" and f: "frames medium peb masters_only s t"
    and "device_ok good dsize wu t" "master_inv E medium peb t" "mounted t" "\<not> wedged t" "next_id s \<le> next_id t"
  shows "sound E medium peb good dsize wu t" "blob_map E medium t = blob_map E medium s"
proof -
  have nb: "n_buckets t = n_buckets s" "peb_size t = peb_size s" "write_align t = write_align s" using f by (simp_all add: frames_def)
  have n0: "0 < n_buckets s" using s by (simp add: sound_def db_inv_def geom_ok_def)
  note fc = frames_content [OF f masters_only_bucket]
  show m: "blob_map E medium t = blob_map E medium s" by (rule fc(5)) (rule n0)
  have "tail_droppable E medium t b" if "b < n_buckets s" for b
    using s that fc(7) [OF that] by (simp add: sound_def)
  moreover have "next_id t \<noteq> 0" using s assms(7) by (auto simp: sound_def)
  moreover have "x < next_id t" if "blob_map E medium s x \<noteq> None" for x
    using s that assms(7) by (auto simp: sound_def intro: less_le_trans)
  ultimately show "sound E medium peb good dsize wu t"
    using s assms(3-6) fc(6) by (simp add: sound_def m nb)
qed

lemma alloc_total:
  assumes s: "sound E medium peb good dsize wu s" and lim: "unat (next_id s) < ID_LIMIT"
    and a: "alloc_id_impl E s = (x, s')"
  shows "sound E medium peb good dsize wu s' \<and> blob_map E medium s' = blob_map E medium s \<and>
    (x = 0 \<and> next_id s' = next_id s \<or> x = next_id s \<and> unat (next_id s') = Suc (unat (next_id s)))"
proof (cases "x = 0")
  case True
  have m: "mounted s" "device_ok good dsize wu s" "master_inv E medium peb s" "next_id s \<noteq> 0" using s by (simp_all add: sound_def)
  have "s' = s"
  proof (cases "next_id_hint s \<le> next_id s")
    case hint: True
    obtain r t where c: "master_commit_how E s False = (r, t)" by (cases "master_commit_how E s False")
    have b: "master_base E medium peb s" using m(3) by (simp add: master_inv_def)
    from commit_total [OF m(2,3) c] show ?thesis
    proof (elim conjE disjE)
      assume "r = Inr ()"
      with master_commit_how_spec(4) [of s False t] c b a hint m True show ?thesis
        by (simp add: alloc_id_impl_def persist_next_id_hint_def master_commit_def Let_def)
    next
      assume "\<exists>e. r = Inl e" "t = s"
      with c a hint m show ?thesis
        by (auto simp: alloc_id_impl_def persist_next_id_hint_def master_commit_def Let_def)
    qed
  qed (use a m True in \<open>auto simp: alloc_id_impl_def Let_def\<close>)
  with s True show ?thesis by simp
next
  case False
  have m: "mounted s" "device_ok good dsize wu s" "master_inv E medium peb s" using s by (simp_all add: sound_def)
  have i: "ids_left s" using lim by (simp add: ids_left_def ID_LIMIT_def)
  note sp = alloc_id_impl_spec [OF a False m(3) i]
  have "unat (next_id s + 1) = Suc (unat (next_id s))"
    using unat_add_lem [of "next_id s" 1] lim by (simp add: ID_LIMIT_def)
  then have nx: "unat (next_id s') = Suc (unat (next_id s))" using sp(1,2) by simp
  have "mounted s' \<and> \<not> wedged s' \<and> device_ok good dsize wu s'"
  proof (cases "next_id_hint s \<le> next_id s")
    case True
    obtain r t where c: "master_commit_how E s False = (r, t)" by (cases "master_commit_how E s False")
    with a False True m(1) have "r = Inr ()" "s' = t\<lparr>next_id := next_id t + 1\<rparr>"
      by (auto simp: alloc_id_impl_def persist_next_id_hint_def master_commit_def Let_def split: sum.splits)
    with c commit_total [OF m(2,3) c] master_commit_how_session [of E s False r t] s show ?thesis by (simp add: sound_def)
  next
    case hint: False
    with a m s show ?thesis by (auto simp: alloc_id_impl_def Let_def sound_def)
  qed
  moreover have "next_id s \<le> next_id s'" using nx by (simp add: word_le_nat_alt)
  ultimately show ?thesis using sound_frames [OF s sp(5) _ sp(4)] nx sp(1) by simp
qed

lemma sound_reads:
  assumes "sound E medium peb good dsize wu s"
  shows "reads_ok E s (id_to_bucket s x)" "geom_ok (bld E) peb s" "mounted s" "\<not> ends_foreign E medium s (id_to_bucket s x)"
proof -
  show g: "geom_ok (bld E) peb s" and "mounted s" using assms by (simp_all add: sound_def db_inv_def)
  note b = geom_n_buckets [OF g, of x]
  show "reads_ok E s (id_to_bucket s x)" using assms device_reads_ok [OF _ b] by (simp add: sound_def)
  show "\<not> ends_foreign E medium s (id_to_bucket s x)" using assms b by (simp add: sound_def tail_droppable_def)
qed

end

sublocale working_env \<subseteq> os: object_store "blob_db_api E" "sound E medium peb good dsize wu" "blob_map E medium"
  "\<lambda>s. unat (next_id s)" "MAX_PAYLOAD_LEN (bld E)"
proof (unfold_locales, goal_cases)
  case (1 s x n)
  from get_impl_exact [OF sound_reads(1-3) [OF 1], of x False n] sound_reads(4) [OF 1, of x] show ?case
    by (auto simp: blob_db_api_def blob_db_get_def read_rc_def split: option.splits)
next
  case (2 s x off n)
  from read_impl_exact [OF sound_reads(1-3) [OF 2], of x off n] sound_reads(4) [OF 2, of x] show ?case
    by (auto simp: blob_db_api_def blob_db_read_def read_rc_def split: option.splits)
next
  case (3 s x)
  from size_impl_exact [OF sound_reads(1-3) [OF 3], of x] sound_reads(4) [OF 3, of x] show ?case
    by (auto simp: blob_db_api_def blob_db_size_def read_rc_def split: option.splits)
next
  case (4 s x p r s')
  then show ?case using update_total [of s x p r s'] by (simp add: blob_db_api_def blob_db_update_def)
next
  case (5 s x r s')
  then show ?case using delete_total [of s x r s'] by (simp add: blob_db_api_def blob_db_delete_def)
next
  case (6 s x s')
  then show ?case using alloc_total [of s x s'] by (auto simp: blob_db_api_def blob_db_alloc_id_def)
next
  case (7 s x p)
  then show ?case using blob_map_length [of E medium s x p] by (auto simp: sound_def blob_map_def word_less_nat_alt split: if_splits)
next
  case (8 s)
  then show ?case by (simp add: sound_def unat_gt_0)
next
  case (9 s q off x r s')
  then show ?case using write_total [of s q off x r s'] by (simp add: blob_db_api_def blob_db_write_def)
qed

end
