(* ===== verification/Flash_Sim.thy ===== *)
theory Flash_Sim
  imports Blob_Scan
begin

text \<open>
  A simulated NOR partition behind the flash map API: programming can only clear bits, an erase
  sets whole sectors, out-of-range and misaligned accesses are refused, and, where \<open>nor_life\<close> is
  \<open>Some n\<close>, the power fails after \<open>n\<close> program or erase operations: the operation is cut halfway
  and reports an error. It satisfies
  the laws of the flash map API, so every lemma about the store applies to it, and it runs, so
  concrete stores can be computed.

  Its checksums are multiplicative ones in the place of Zephyr's CRCs, which are a parameter of
  the library: what the lemmas need of them is that a checksum can be continued.
\<close>

section \<open>Checksums\<close>

definition sim_crc16 :: "u16 \<Rightarrow> byte list \<Rightarrow> u16" where
  "sim_crc16 seed bs = foldl (\<lambda>c b. 3 * c + ucast b) seed bs"

definition sim_crc32_cont :: "u32 \<Rightarrow> byte list \<Rightarrow> u32" where
  "sim_crc32_cont crc bs = foldl (\<lambda>c b. 3 * c + ucast b) crc bs"

definition sim_crc32 :: "byte list \<Rightarrow> u32" where
  "sim_crc32 bs = sim_crc32_cont 0xffffffff bs"

section \<open>The partition\<close>

record nor =
  nor_cells :: "byte list"
  nor_sector :: nat
  nor_align :: nat
  nor_life :: "nat option"

definition nor_program :: "nor \<Rightarrow> nat \<Rightarrow> byte list \<Rightarrow> nor" where
  "nor_program f off buf =
     f\<lparr>nor_cells := splice (nor_cells f) off (map2 (AND) (field off (length buf) (nor_cells f)) buf),
       nor_life := map_option (\<lambda>n. n - 1) (nor_life f)\<rparr>"

definition nor_clear :: "nor \<Rightarrow> nat \<Rightarrow> nat \<Rightarrow> nor" where
  "nor_clear f off n =
     f\<lparr>nor_cells := splice (nor_cells f) off (replicate n 0xff), nor_life := map_option (\<lambda>n. n - 1) (nor_life f)\<rparr>"

definition nor_write :: "nor \<Rightarrow> nat \<Rightarrow> byte list \<Rightarrow> unit res \<times> nor" where
  "nor_write f off buf =
     (if off + length buf > length (nor_cells f) \<or> off mod nor_align f \<noteq> 0 \<or>
         length buf mod nor_align f \<noteq> 0
      then (Inl EINVAL, f)
      else if nor_life f = Some 0 then (Inl EIO, nor_program f off (take (length buf div 2) buf))
      else (Inr (), nor_program f off buf))"

definition nor_erase :: "nor \<Rightarrow> nat \<Rightarrow> nat \<Rightarrow> unit res \<times> nor" where
  "nor_erase f off n =
     (if off + n > length (nor_cells f) \<or> off mod nor_sector f \<noteq> 0 \<or> n mod nor_sector f \<noteq> 0
      then (Inl EINVAL, f)
      else if nor_life f = Some 0 then (Inl EIO, nor_clear f off (n div 2))
      else (Inr (), nor_clear f off n))"

definition nor_read :: "nor \<Rightarrow> nat \<Rightarrow> nat \<Rightarrow> byte list res" where
  "nor_read f off n = (if off + n > length (nor_cells f) then Inl EINVAL else Inr (field off n (nor_cells f)))"

definition nor_area :: "nor flash_area" where
  "nor_area = \<lparr>
     flash_area_open = (\<lambda>f. (Inr (), f)),
     flash_area_close = (\<lambda>f. f),
     fa_size = (\<lambda>f. length (nor_cells f)),
     flash_area_sectors = (\<lambda>f cap.
       (if length (nor_cells f) div nor_sector f > cap then Some ENOMEM else None,
        replicate (min cap (length (nor_cells f) div nor_sector f)) (nor_sector f))),
     flash_area_align = nor_align,
     flash_area_read = nor_read,
     flash_area_write = nor_write,
     flash_area_erase = nor_erase\<rparr>"

definition nor_flash :: "nor \<Rightarrow> nat \<Rightarrow> byte" where
  "nor_flash f a = (if a < length (nor_cells f) then nor_cells f ! a else 0xff)"

lemma nor_program_flash:
  assumes "off + length buf \<le> length (nor_cells f)"
  shows "nor_flash (nor_program f off buf) a =
    (if off \<le> a \<and> a < off + length buf then nor_flash f a AND buf ! (a - off) else nor_flash f a)"
  using assms by (auto simp: nor_flash_def nor_program_def nth_splice)

lemma nor_clear_flash:
  assumes "off + n \<le> length (nor_cells f)"
  shows "nor_flash (nor_clear f off n) a = (if off \<le> a \<and> a < off + n then 0xff else nor_flash f a)"
  using assms by (auto simp: nor_flash_def nor_clear_def nth_splice)

interpretation nor: flash_area_laws nor_area nor_flash
proof (unfold_locales, goal_cases)
  case (1 f off n bs)
  then show ?case
    by (auto simp: nor_area_def nor_read_def nor_flash_def intro!: nth_equalityI split: if_splits)
next
  case (3 f off buf r f' a)
  then show ?case
    by (auto simp: nor_area_def nor_write_def nor_program_flash split: if_splits)
next
  case (4 f off buf f' i)
  then show ?case
    by (auto simp: nor_area_def nor_write_def nor_program_flash split: if_splits)
next
  case (5 f off n r f' a)
  then show ?case
    by (auto simp: nor_area_def nor_erase_def nor_clear_flash split: if_splits)
qed (auto simp: nor_area_def nor_read_def nor_erase_def nor_clear_flash split: if_splits)

interpretation nor_live: flash_area_live nor_area nor_flash "\<lambda>f. nor_life f = None" nor_sector
proof (unfold_locales, goal_cases)
  case (1 f off n)
  then show ?case by (simp add: nor_area_def nor_read_def)
next
  case (2 f off buf)
  then show ?case by (auto simp: nor_area_def nor_write_def nor_program_def)
next
  case (3 f off n)
  then show ?case by (auto simp: nor_area_def nor_erase_def nor_clear_def)
qed

interpretation nor_torn: flash_area_torn nor_area nor_flash
proof (unfold_locales, goal_cases)
  case (1 f off buf e f')
  show ?case
  proof (cases "f' = f")
    case True
    then show ?thesis by (intro exI [of _ 0] exI [of _ "nor_flash f off"]) simp
  next
    case False
    then have f': "f' = nor_program f off (take (length buf div 2) buf)"
      and fit: "off + length (take (length buf div 2) buf) \<le> length (nor_cells f)"
      using 1 by (auto simp: nor_area_def nor_write_def split: if_splits)
    then show ?thesis
      by (intro exI [of _ "length buf div 2"] exI [of _ "nor_flash f (off + length buf div 2)"])
        (auto simp: f' nor_program_flash [OF fit])
  qed
next
  case (2 f off n e f' a)
  then show ?case by (auto simp: nor_area_def nor_erase_def nor_clear_flash split: if_splits)
qed

section \<open>The flash store as a blob\_db environment\<close>

text \<open>blob_db over the raw-flash provider, on any partition that satisfies the laws.\<close>

locale flash_env = flash_area_laws F flash for F :: "'f flash_area" and flash +
  fixes B :: build
  assumes flash_crc16_stream: "crc16_ccitt B (crc16_ccitt B c xs) ys = crc16_ccitt B c (xs @ ys)"
    and flash_cap: "cap_ok B"

sublocale flash_env \<subseteq> be: blob_env "\<lparr>bld = B, sto = flash_store F\<rparr>" "\<lambda>d. flash (g_fa d)" g_peb_size
proof -
  have "blob_store (flash_store F) (\<lambda>d. flash (g_fa d)) g_peb_size" by (rule fs.blob_store_axioms)
  then show "blob_env \<lparr>bld = B, sto = flash_store F\<rparr> (\<lambda>d. flash (g_fa d)) g_peb_size"
    by (simp add: blob_env_def blob_env_axioms_def flash_crc16_stream flash_cap)
qed

definition sim_build :: "nat \<Rightarrow> build" where
  "sim_build cap = \<lparr>MAX_PAYLOAD_LEN = cap, SECTOR_BUF_SIZE = 4096, AUTOFORMAT_ON_CORRUPT = False,
     TEST_MASTER_LOG_CAP = 0, crc16_ccitt = sim_crc16, crc32_ieee = sim_crc32,
     crc32_ieee_cont = sim_crc32_cont\<rparr>"

definition sim_env :: "nor flash_state env" where
  "sim_env = \<lparr>bld = sim_build 64, sto = flash_store nor_area\<rparr>"

definition sim_medium :: "nor flash_state \<Rightarrow> nat \<Rightarrow> byte" where
  "sim_medium d = nor_flash (g_fa d)"

interpretation sim: flash_env nor_area nor_flash "sim_build 64"
  by unfold_locales (simp_all add: sim_build_def sim_crc16_def cap_ok_def)

lemma sim_env_blob_env: "blob_env sim_env sim_medium g_peb_size"
  using sim.be.blob_env_axioms by (simp add: sim_env_def sim_medium_def [abs_def])

end
