(* ===== verification/Blob_Api.thy ===== *)
theory Blob_Api
  imports Blob_LifeWorks Flash_Sim
begin

text \<open>
  What blob_db's object operations promise, over any store that keeps the promise of the seam:
  the operations are those of the abstract map \<open>blob_map\<close>. Each property has an instance on a
  simulated NOR partition behind the raw-flash provider.
\<close>

section \<open>A simulated store\<close>

text \<open>An erased partition of five 256-byte sectors with a write unit of 4 bytes, and a session over
  it: two buckets, ids below 10 allocated.\<close>

definition sim_dev :: "nor flash_state" where
  "sim_dev = \<lparr>g_fa_open = True,
     g_fa = \<lparr>nor_cells = replicate 1280 0xff, nor_sector = 256, nor_align = 4, nor_life = None\<rparr>,
     g_peb_size = 256\<rparr>"

definition sim_s0 :: "nor flash_state bdb" where
  "sim_s0 = \<lparr>dev = sim_dev, mounted = True, st_fa_size = 1280, peb_size = 256, write_align = 4,
     n_pebs = 5, n_buckets = 2, active_master = 0, rot_gen = 1, rec_size = 48, log_cap = 2,
     log_next = 1, log_failed = False, ceiling_reset = False, incompat = 0, ro_compat = 0, compat = 0,
     fuses = 0, next_id = 10, next_id_hint = 64, seg_owner = 0, wedged = False, preformat = False,
     maint_start = 0, maint_scanned = 0\<rparr>"

definition sim_good :: "nor flash_state \<Rightarrow> bool" where
  "sim_good d \<longleftrightarrow> flash_good (\<lambda>f. nor_life f = None) nor_sector d \<and> fa_size nor_area (g_fa d) = 1280"

definition sim_size :: "nor flash_state \<Rightarrow> nat" where
  "sim_size d = fa_size nor_area (g_fa d)"

definition sim_wu :: "nor flash_state \<Rightarrow> nat" where
  "sim_wu d = flash_area_align nor_area (g_fa d)"

lemma sim_working_env: "working_env sim_env sim_medium g_peb_size sim_good sim_size sim_wu"
proof -
  have "working_store (sto sim_env) sim_medium g_peb_size sim_good sim_size sim_wu"
    using working_store.of_size [OF nor_live.ws.working_store_axioms, of 1280]
    by (simp add: sim_env_def sim_medium_def [abs_def] sim_good_def [abs_def] sim_size_def [abs_def] sim_wu_def [abs_def])
  then show ?thesis
    using sim_env_blob_env by (simp add: working_env_def)
qed

interpretation simw: working_env sim_env sim_medium g_peb_size sim_good sim_size sim_wu
  by (rule sim_working_env)

lemma sim_sel [simp]:
  "mounted sim_s0" "\<not> wedged sim_s0" "next_id sim_s0 = 10" "peb_size sim_s0 = 256" "write_align sim_s0 = 4"
  "n_buckets sim_s0 = 2" "MAX_PAYLOAD_LEN (bld sim_env) = 64"
  by (simp_all add: sim_s0_def sim_env_def sim_build_def)

lemma sim_medium_s0 [simp]: "sim_medium (dev sim_s0) a = 0xff"
  by (simp add: sim_medium_def sim_s0_def sim_dev_def nor_flash_def)

lemma sim_s0_unformatted: "\<not> bucket_hdr_valid (bld sim_env) (bucket_img sim_medium sim_s0 b) b"
proof -
  have "bucket_img sim_medium sim_s0 b ! 0 = 0xff"
    by (simp add: bucket_img_def)
  then have "take 4 (bucket_img sim_medium sim_s0 b) ! 0 \<noteq> BUCKET_MAGIC ! 0"
    by (simp add: BUCKET_MAGIC_def)
  then have "take 4 (bucket_img sim_medium sim_s0 b) \<noteq> BUCKET_MAGIC" by metis
  then show ?thesis by (simp add: bucket_hdr_valid_def bucket_hdr_of_def Let_def)
qed

lemma sim_s0_geom: "geom_ok (bld sim_env) g_peb_size sim_s0"
proof -
  have "round_up 48 4 = 48" using round_up_pow2 [of 48 2] by simp
  moreover have "\<exists>k. (4::nat) = 2 ^ k" by (rule exI [of _ 2]) simp
  ultimately show ?thesis
    by (simp add: geom_ok_def sim_s0_def sim_dev_def sim_env_def sim_build_def BLOB_DB_MAX_WRITE_ALIGN_def)
qed

lemma sim_s0_facts:
  "db_inv sim_env sim_medium g_peb_size sim_s0" "blob_map sim_env sim_medium sim_s0 = Map.empty"
  "device_ok sim_good sim_size sim_wu sim_s0" "tail_droppable sim_env sim_medium sim_s0 b"
  "live_bytes sim_env sim_medium sim_s0 b = 16"
proof -
  have log: "bucket_log sim_env sim_medium sim_s0 b = []" for b
    using sim_s0_unformatted by (simp add: bucket_log_def)
  then show "db_inv sim_env sim_medium g_peb_size sim_s0"
    using sim_s0_geom sim_s0_unformatted by (simp add: db_inv_def bucket_ok_def homed_def)
  show "blob_map sim_env sim_medium sim_s0 = Map.empty" by (simp add: blob_map_def log fun_eq_iff)
  show "device_ok sim_good sim_size sim_wu sim_s0"
    by (simp add: device_ok_def sim_good_def sim_size_def sim_wu_def flash_good_def nor_area_def
        sim_s0_def sim_dev_def BLOB_DB_FIRST_BUCKET_def)
  show "tail_droppable sim_env sim_medium sim_s0 b"
    using unformatted_droppable [OF sim_s0_unformatted] by blast
  show "live_bytes sim_env sim_medium sim_s0 b = 16"
    by (simp add: live_bytes_def log log_bytes_def BLOB_DB_BUCKET_DATA_OFF_def)
qed

text \<open>The session after one update.\<close>

definition sim_s1 :: "nor flash_state bdb" where
  "sim_s1 = snd (blob_db_update sim_env sim_s0 1 (Some [1, 2, 3]) 3)"

lemma slot_size_4: "slot_size_for 4 n = (n + 17) div 4 * 4"
  using round_up_pow2 [of "14 + n" 2]
  by (simp add: slot_size_for_def BLOB_DB_SLOT_OVERHEAD_def add.commute)

lemma sim_seal: "scratch_seal_off sim_s0 = 240"
  using round_up_pow2 [of 16 2] by (simp add: scratch_seal_off_def scratch_seal_len_def)

lemma sim_update1:
  "blob_db_update sim_env sim_s0 1 (Some [1, 2, 3]) 3 = (Inr (), sim_s1) \<and>
   device_ok sim_good sim_size sim_wu sim_s1"
proof -
  obtain s' where "update_impl sim_env sim_s0 1 (Some [1, 2, 3]) 3 = (Inr (), s')"
    "device_ok sim_good sim_size sim_wu s'"
    using simw.update_impl_works [OF sim_s0_facts(3,1), of 1 3 "[1, 2, 3]"] sim_s0_facts(4,5)
    by (auto simp: slot_size_4 sim_seal)
  then show ?thesis by (simp add: sim_s1_def blob_db_update_def)
qed

lemma sim_s1_facts:
  "db_inv sim_env sim_medium g_peb_size sim_s1" "blob_map sim_env sim_medium sim_s1 = [1 \<mapsto> [1, 2, 3]]"
  "mounted sim_s1" "\<not> wedged sim_s1" "n_buckets sim_s1 = 2" "peb_size sim_s1 = 256" "write_align sim_s1 = 4"
  "next_id sim_s1 = 10" "id_to_bucket sim_s1 x = unat x mod 2" "\<not> ends_foreign sim_env sim_medium sim_s1 b"
  "b < 2 \<Longrightarrow> reads_ok sim_env sim_s1 b" "geom_ok (bld sim_env) g_peb_size sim_s1"
  "tail_droppable sim_env sim_medium sim_s1 b"
proof -
  note u = sim_update1 [unfolded blob_db_update_def, THEN conjunct1]
  note sp = simw.update_impl_spec [OF sim_s0_facts(1) u]
  have t: "touches sim_medium g_peb_size (one_bucket (id_to_bucket sim_s0 1)) sim_s0 sim_s1"
    by (rule sp(2)) simp
  show inv: "db_inv sim_env sim_medium g_peb_size sim_s1" by (rule sp(1)) simp
  show "blob_map sim_env sim_medium sim_s1 = [1 \<mapsto> [1, 2, 3]]"
    using sp(3) sim_s0_facts(2) by (simp add: c_bytes_def)
  note D = touchesD [OF t]
  show "mounted sim_s1" "\<not> wedged sim_s1" "n_buckets sim_s1 = 2" "peb_size sim_s1 = 256"
    "write_align sim_s1 = 4" "next_id sim_s1 = 10" by (simp_all add: D)
  then show "id_to_bucket sim_s1 x = unat x mod 2" by (simp add: id_to_bucket_def)
  show "geom_ok (bld sim_env) g_peb_size sim_s1" using inv by (simp add: db_inv_def)
  show "b < 2 \<Longrightarrow> reads_ok sim_env sim_s1 b"
    using simw.device_reads_ok [OF sim_update1 [THEN conjunct2]] \<open>n_buckets sim_s1 = 2\<close> by simp
  have "clean_log sim_env sim_medium sim_s1 b" if "b = id_to_bucket sim_s0 1"
    unfolding that by (rule sp(4)) simp
  moreover have "\<not> bucket_hdr_valid (bld sim_env) (bucket_img sim_medium sim_s1 b) b"
    if "b \<noteq> id_to_bucket sim_s0 1"
    using touches_img_bucket [OF t one_bucket_other [OF that]] sim_s0_unformatted by simp
  ultimately show "\<not> ends_foreign sim_env sim_medium sim_s1 b" "tail_droppable sim_env sim_medium sim_s1 b"
    using clean_log_droppable unformatted_droppable by metis+
qed

lemma map_of_single:
  assumes "distinct (map fst xs)" "map_of xs = [k \<mapsto> v]"
  shows "xs = [(k, v)]"
proof -
  have "y \<in> set xs \<longleftrightarrow> y = (k, v)" for y
    using map_of_eq_Some_iff [OF assms(1), of "fst y" "snd y"] assms(2) by (cases y) (auto split: if_splits)
  then have s: "set xs = {(k, v)}" by auto
  have "distinct xs" using assms(1) by (simp add: distinct_map)
  then have "length xs = 1" using distinct_card [of xs] s by simp
  then obtain a where "xs = [a]" by (auto simp: length_Suc_conv)
  with s show ?thesis by simp
qed

lemma sim_s1_log:
  "bucket_log sim_env sim_medium sim_s1 1 = [written_entry 1 0 [1, 2, 3]]"
  "clean_log sim_env sim_medium sim_s1 1"
proof -
  note u = sim_update1 [unfolded blob_db_update_def, THEN conjunct1]
  note sp = simw.update_impl_spec(4,5) [OF sim_s0_facts(1) u, simplified]
  have "bucket_log sim_env sim_medium sim_s0 b = []" for b
    using sim_s0_unformatted by (simp add: bucket_log_def)
  moreover have "id_to_bucket sim_s0 1 = 1" by (simp add: id_to_bucket_def)
  ultimately show "bucket_log sim_env sim_medium sim_s1 1 = [written_entry 1 0 [1, 2, 3]]"
    "clean_log sim_env sim_medium sim_s1 1" using sp by (simp_all add: c_bytes_def)
qed

lemma sim_s1_live_bytes: "live_bytes sim_env sim_medium sim_s1 1 = 36"
  using sim_s1_facts(7)
  by (simp add: live_bytes_def sim_s1_log(1) [unfolded One_nat_def] log_bytes_def slot_size_4 BLOB_DB_BUCKET_DATA_OFF_def)

section \<open>The simulated store with a power cut\<close>

text \<open>The session after one update, on a device that loses power after \<open>m\<close> more operations, and
  the device as it is when power is back.\<close>

definition set_life :: "nat option \<Rightarrow> nor flash_state bdb \<Rightarrow> nor flash_state bdb" where
  "set_life life s = s\<lparr>dev := (dev s)\<lparr>g_fa := (g_fa (dev s))\<lparr>nor_life := life\<rparr>\<rparr>\<rparr>"

definition sim_cut :: "nat \<Rightarrow> nor flash_state bdb" where
  "sim_cut m = set_life (Some m) sim_s1"

definition sim_live :: "nat \<Rightarrow> nor flash_state bdb \<Rightarrow> bool" where
  "sim_live m s \<longleftrightarrow> length (nor_cells (g_fa (dev s))) = 1280 \<and> nor_sector (g_fa (dev s)) = 256 \<and>
     nor_align (g_fa (dev s)) = 4 \<and> nor_life (g_fa (dev s)) = Some m \<and> g_peb_size (dev s) = 256 \<and>
     peb_size s = 256"

lemma set_life_touches: "touches sim_medium g_peb_size {} s (set_life life s)"
  by (simp add: touches_def set_life_def peb_img_def peb_offset_def sim_medium_def nor_flash_def [abs_def]
      cong: if_cong)

lemma sim_cut_live: "sim_live m (sim_cut m)"
proof -
  have "device_ok sim_good sim_size sim_wu sim_s1" using sim_update1 by blast
  moreover have "g_peb_size (dev sim_s1) = 256"
    using sim_s1_facts(6,12) by (simp add: geom_ok_def)
  ultimately show ?thesis
    using sim_s1_facts(5-7)
    by (auto simp: sim_live_def sim_cut_def set_life_def device_ok_def sim_good_def flash_good_def sim_size_def
        sim_wu_def nor_area_def BLOB_DB_FIRST_BUCKET_def)
qed

lemma sim_ops:
  assumes "sim_live (Suc m) s" "p < 5"
  shows "\<exists>s'. store_erase sim_env s (peb_offset s p) (peb_size s) = (Inr (), s') \<and> sim_live m s'"
    and "k + length buf \<le> 256 \<Longrightarrow> k mod 4 = 0 \<Longrightarrow> length buf mod 4 = 0 \<Longrightarrow>
      \<exists>s'. store_write sim_env s (peb_offset s p + k) buf = (Inr (), s') \<and> sim_live m s'"
proof -
  have p: "p * 256 + 256 \<le> 1280" using assms(2) by simp
  show "\<exists>s'. store_erase sim_env s (peb_offset s p) (peb_size s) = (Inr (), s') \<and> sim_live m s'"
    using assms p
    by (auto simp: store_erase_def sim_env_def flash_store_def flash_erase_def nor_area_def nor_erase_def
        sim_live_def peb_offset_def nor_clear_def)
  assume k: "k + length buf \<le> 256" "k mod 4 = 0" "length buf mod 4 = 0"
  have "(p * 256 + k) mod 4 = 0" using k(2) by presburger
  moreover have "p * 256 + k + length buf \<le> 1280" using p k(1) by linarith
  ultimately show "\<exists>s'. store_write sim_env s (peb_offset s p + k) buf = (Inr (), s') \<and> sim_live m s'"
    using assms k
    by (auto simp: store_write_def sim_env_def flash_store_def flash_write_def nor_area_def nor_write_def
        sim_live_def peb_offset_def nor_program_def)
qed

lemma sim_erase_cut:
  assumes "sim_live 0 s" "p < 5"
  shows "\<exists>s'. store_erase sim_env s (peb_offset s p) (peb_size s) = (Inl EIO, s') \<and> sim_live 0 s'"
proof -
  have "p * 256 + 256 \<le> 1280" using assms(2) by simp
  with assms show ?thesis
    by (auto simp: store_erase_def sim_env_def flash_store_def flash_erase_def nor_area_def nor_erase_def
        sim_live_def peb_offset_def nor_clear_def)
qed

lemma sim_live_reads: "sim_live m s \<Longrightarrow> b < 2 \<Longrightarrow> reads_ok sim_env s b"
  by (auto simp: reads_ok_def store_read_def sim_env_def flash_store_def flash_read_def nor_area_def nor_read_def
      sim_live_def bucket_offset_def peb_offset_def BLOB_DB_FIRST_BUCKET_def)

lemma sim_live_restored:
  "sim_live m s \<Longrightarrow> n_buckets s = 2 \<Longrightarrow> write_align s = 4 \<Longrightarrow>
   device_ok sim_good sim_size sim_wu (set_life None s)"
  by (auto simp: device_ok_def sim_live_def set_life_def sim_good_def flash_good_def sim_size_def sim_wu_def
      nor_area_def BLOB_DB_FIRST_BUCKET_def)

section \<open>Properties of the object operations\<close>

text \<open>C1. An update that returns success binds the id to the payload and changes no other object:
  \<open>blob_db_update\<close> refines the update of the abstract map, on every path (first write of a
  bucket, append, compaction and append), and keeps the invariant.\<close>

theorem update_refines:
  assumes "blob_env E medium peb" "db_inv E medium peb s"
    and "blob_db_update E s x payload len = (Inr (), s')"
    and "\<forall>bs. payload = Some bs \<longrightarrow> len \<le> length bs"
  shows "blob_map E medium s' = (blob_map E medium s)(x \<mapsto> c_bytes payload len) \<and> db_inv E medium peb s'"
  using blob_env.update_impl_spec [OF assms(1,2)] assms(3,4) by (auto simp: blob_db_update_def)

theorem update_refines_witness:
  "blob_map sim_env sim_medium sim_s1 = [1 \<mapsto> [1, 2, 3]] \<and> db_inv sim_env sim_medium g_peb_size sim_s1"
  using update_refines [OF sim_env_blob_env sim_s0_facts(1) sim_update1 [THEN conjunct1]] sim_s0_facts(2)
  by (simp add: c_bytes_def)

text \<open>A delete that returns success removes the id, which was bound before, and changes no
  other object.\<close>

theorem delete_refines:
  assumes "blob_env E medium peb" "db_inv E medium peb s" "blob_db_delete E s x = (Inr (), s')"
  shows "blob_map E medium s x \<noteq> None \<and> blob_map E medium s' = (blob_map E medium s)(x := None) \<and>
    db_inv E medium peb s'"
  using blob_env.delete_impl_spec [OF assms(1,2)] assms(3) by (simp add: blob_db_delete_def)

lemma sim_delete1: "\<exists>s'. blob_db_delete sim_env sim_s1 1 = (Inr (), s')"
proof -
  have "scratch_seal_off sim_s1 = 240"
    using round_up_pow2 [of 16 2] sim_s1_facts(6,7) by (simp add: scratch_seal_off_def scratch_seal_len_def)
  then show ?thesis
    using simw.delete_impl_works [OF sim_update1 [THEN conjunct2] sim_s1_facts(1,3,4), of 1 "[1, 2, 3]"]
      sim_s1_facts(2,6,7,13) sim_s1_live_bytes sim_s1_facts(9) [of 1]
    by (auto simp: blob_db_delete_def slot_size_4)
qed

theorem delete_refines_witness:
  "\<exists>s'. blob_db_delete sim_env sim_s1 1 = (Inr (), s') \<and> blob_map sim_env sim_medium s' = Map.empty"
  using sim_delete1 delete_refines [OF sim_env_blob_env sim_s1_facts(1)] sim_s1_facts(2) by fastforce

text \<open>C2. A lookup answers from the abstract map: where the bucket can be read, \<open>blob_db_get\<close>
  returns the payload of a bound id (\<open>-ENOMEM\<close> when the caller's buffer is smaller),
  \<open>-ENOENT\<close> for an id that is not bound, and \<open>-EIO\<close> when the bucket's log ends at a slot this
  build does not understand. The streamed walk, the CRC checks and the retry below a rotten slot
  are what this rests on.\<close>

theorem get_exact:
  assumes "blob_env E medium peb" "geom_ok (bld E) peb s" "mounted s"
    and "reads_ok E s (id_to_bucket s x)"
  shows "blob_db_get E s x out_null out_sz =
    (if out_sz > 0 \<and> out_null then Inl EINVAL
     else if x \<noteq> 0 \<and> ends_foreign E medium s (id_to_bucket s x) then Inl EIO
     else case blob_map E medium s x of
       None \<Rightarrow> Inl ENOENT | Some p \<Rightarrow> if out_sz < length p then Inl ENOMEM else Inr p)"
  using blob_env.get_impl_exact [OF assms(1,4,2,3)]
  by (simp add: blob_db_get_def read_rc_def split: option.splits)

theorem get_exact_witness:
  "blob_db_get sim_env sim_s1 1 False 8 = Inr [1, 2, 3] \<and> blob_db_get sim_env sim_s1 2 False 8 = Inl ENOENT \<and>
   blob_db_get sim_env sim_s1 1 False 2 = Inl ENOMEM"
proof -
  have "reads_ok sim_env sim_s1 (id_to_bucket sim_s1 x)" for x
    by (rule sim_s1_facts(11)) (simp add: sim_s1_facts(9))
  note g = get_exact [OF sim_env_blob_env sim_s1_facts(12,3) this]
  show ?thesis using sim_s1_facts(2,10) by (simp add: g)
qed

text \<open>C3. An update with room succeeds: on a device whose calls succeed and whose write unit
  divides 16, if the live objects of the bucket and the new slot fit it (and leave space for the
  seal of a compaction), \<open>blob_db_update\<close> of an allocated id with a payload within the cap
  returns success, compacting when the log is full.\<close>

theorem update_succeeds:
  assumes "working_env E medium peb good dsize wu" "device_ok good dsize wu s" "db_inv E medium peb s"
    and "mounted s" "\<not> wedged s" "x \<noteq> 0" "x < next_id s" "length bs \<le> MAX_PAYLOAD_LEN (bld E)"
    and "tail_droppable E medium s (id_to_bucket s x)"
    and "live_bytes E medium s (id_to_bucket s x) \<le> scratch_seal_off s"
    and "live_bytes E medium s (id_to_bucket s x) + slot_size_for (write_align s) (length bs) \<le> peb_size s"
  shows "\<exists>s'. blob_db_update E s x (Some bs) (length bs) = (Inr (), s') \<and> device_ok good dsize wu s'"
  using working_env.update_impl_works [OF assms(1-8) refl assms(9-11)] by (simp add: blob_db_update_def)

theorem update_succeeds_witness:
  "\<exists>s'. blob_db_update sim_env sim_s0 3 (Some [7]) 1 = (Inr (), s')"
  using update_succeeds [OF sim_working_env sim_s0_facts(3,1), of 3 "[7]"] sim_s0_facts(4,5)
  by (auto simp: slot_size_4 sim_seal)

text \<open>C4. A write at an offset replaces that range of the object, extending it with zeros where
  the range starts past its end, and changes no other object.\<close>

theorem write_refines:
  fixes offset len :: u32
  assumes "blob_env E medium peb" "db_inv E medium peb s"
    and "blob_db_write E s x offset buf len = (Inr (), s')" "len \<noteq> 0"
    and "\<forall>bs. buf = Some bs \<longrightarrow> unat len \<le> length bs"
  shows "\<exists>p. blob_map E medium s x = Some p \<and> db_inv E medium peb s' \<and>
    blob_map E medium s' = (blob_map E medium s)(x \<mapsto>
      splice (p @ replicate (unat offset + unat len - length p) 0) (unat offset) (c_bytes buf (unat len)))"
proof -
  have "max (unat offset + unat len) (length p) - length p = unat offset + unat len - length p" for p :: "byte list"
    by simp
  then show ?thesis
    using blob_env.write_impl_spec [OF assms(1,2), of x offset buf len s'] assms(3-5)
    by (auto simp: blob_db_write_def write_staged_def)
qed

theorem write_refines_witness:
  "\<exists>s'. blob_db_write sim_env sim_s1 1 4 (Some [9]) 1 = (Inr (), s') \<and>
     blob_map sim_env sim_medium s' = [1 \<mapsto> [1, 2, 3, 0, 9]]"
proof -
  have "scratch_seal_off sim_s1 = 240"
    using round_up_pow2 [of 16 2] sim_s1_facts(6,7) by (simp add: scratch_seal_off_def scratch_seal_len_def)
  then obtain s' where w: "blob_db_write sim_env sim_s1 1 4 (Some [9]) 1 = (Inr (), s')"
    using simw.write_impl_works [OF sim_update1 [THEN conjunct2] sim_s1_facts(1,3,4), of 1 "[1, 2, 3]" "[9]" 1 4]
      sim_s1_facts(2,6,7,13) sim_s1_live_bytes sim_s1_facts(9) [of 1]
    by (auto simp: blob_db_write_def slot_size_4)
  from write_refines [OF sim_env_blob_env sim_s1_facts(1) w] w sim_s1_facts(2) show ?thesis
    by (auto simp: c_bytes_def splice_def)
qed

text \<open>\<open>blob_db_size\<close>, \<open>blob_db_read\<close> and \<open>blob_db_exists\<close> agree with the abstract map: the
  length of the payload, its bytes from an offset on (cut at its end), and whether there is
  one.\<close>

theorem read_size_exists_exact:
  assumes "blob_env E medium peb" "geom_ok (bld E) peb s" "mounted s"
    and "reads_ok E s (id_to_bucket s x)" "\<not> ends_foreign E medium s (id_to_bucket s x)"
  shows "blob_db_size E s x False =
      (case blob_map E medium s x of None \<Rightarrow> Inl ENOENT | Some p \<Rightarrow> Inr (length p)) \<and>
    blob_db_read E s x offset False len =
      (case blob_map E medium s x of None \<Rightarrow> Inl ENOENT | Some p \<Rightarrow> Inr (take len (drop offset p))) \<and>
    (blob_db_exists E s x \<longleftrightarrow> blob_map E medium s x \<noteq> None)"
  using blob_env.size_impl_exact [OF assms(1,4,2,3)] blob_env.read_impl_exact [OF assms(1,4,2,3)]
    blob_env.exists_impl_exact [OF assms(1,4,2,3,5)] assms(5)
  by (simp add: blob_db_size_def blob_db_read_def blob_db_exists_def read_rc_def split: option.splits)

theorem read_size_exists_exact_witness:
  "blob_db_size sim_env sim_s1 1 False = Inr 3 \<and> blob_db_read sim_env sim_s1 1 1 False 8 = Inr [2, 3] \<and>
   \<not> blob_db_exists sim_env sim_s1 5"
proof -
  have "reads_ok sim_env sim_s1 (id_to_bucket sim_s1 x)" for x
    by (rule sim_s1_facts(11)) (simp add: sim_s1_facts(9))
  note g = read_size_exists_exact [OF sim_env_blob_env sim_s1_facts(12,3) this sim_s1_facts(10)]
  show ?thesis using sim_s1_facts(2) g by simp
qed

text \<open>\<open>blob_db_count\<close> is the number of bound ids.\<close>

theorem count_exact:
  assumes "blob_env E medium peb" "db_inv E medium peb s" "mounted s"
    and "\<forall>b < n_buckets s. reads_ok E s b"
  shows "blob_db_count E s = card (dom (blob_map E medium s))"
  using assms(3,4) card_blob_map [OF assms(2)]
    blob_env.count_buckets_spec [OF assms(1), of "[0..<n_buckets s]" s 0]
  by (simp add: blob_db_count_def count_impl_def objects_def)

theorem count_exact_witness: "blob_db_count sim_env sim_s1 = 1"
  using count_exact [OF sim_env_blob_env sim_s1_facts(1,3)] sim_s1_facts(2,5,11) by simp

text \<open>C5. \<open>blob_db_iterate\<close> calls back once per bound id, with its payload, and in one pass over
  the buckets; it stops early exactly when the callback returns non-zero, with that value.\<close>

theorem iterate_exact:
  assumes "blob_env E medium peb" "db_inv E medium peb s" "mounted s"
    and "\<forall>b < n_buckets s. reads_ok E s b \<and> \<not> ends_foreign E medium s b"
  shows "\<exists>os. distinct (map fst os) \<and> map_of os = blob_map E medium s \<and>
    (\<forall>cb user. blob_db_iterate E s (Some cb) user = (Inr (fst (visit cb os user)), snd (visit cb os user)))"
  using assms(3,4) objects_distinct [OF assms(2)] objects_map [OF assms(2)]
    blob_env.iterate_buckets_spec [OF assms(1), of "[0..<n_buckets s]" s]
  by (intro exI [of _ "objects E medium s"])
    (auto simp: blob_db_iterate_def iterate_impl_def objects_def case_prod_beta Let_def)

theorem iterate_exact_witness:
  "blob_db_iterate sim_env sim_s1 (Some (\<lambda>x p acc. (0, (x, p) # acc))) [] = (Inr 0, [(1, [1, 2, 3])])"
proof -
  obtain os where "distinct (map fst os)" "map_of os = blob_map sim_env sim_medium sim_s1"
    and it: "\<forall>cb user. blob_db_iterate sim_env sim_s1 (Some cb) user =
      (Inr (fst (visit cb os user)), snd (visit cb os (user :: (u64 \<times> byte list) list)))"
    using iterate_exact [OF sim_env_blob_env sim_s1_facts(1,3)] sim_s1_facts(5,10,11) by auto
  then have "os = [(1, [1, 2, 3])]" using map_of_single sim_s1_facts(2) by metis
  with it show ?thesis by simp
qed

section \<open>Crash consistency\<close>

text \<open>C6. A compaction that is interrupted anywhere, by an error or a power loss, loses nothing: after
  the recovery of the next mount the store has the same objects and a bucket every later
  operation can work on. The scratch sector either carries a seal that does not check, or the
  image and seal the compaction staged there.\<close>

theorem compaction_crash_safe:
  assumes "blob_env E medium peb" "db_inv E medium peb s" "\<not> wedged s" "bid < n_buckets s"
    and "\<not> blob_db_store_replace_is_atomic (sto E)"
    and "bucket_hdr_valid (bld E) (bucket_img medium s bid) bid"
    and "compact_bucket E s bid = (r, t)"
    and "touches medium peb {} (t\<lparr>wedged := False\<rparr>) t0"
    and "build_compacted_image (bld E) (peb_size s) (write_align s) (bucket_img medium s bid) bid = (buf, n, stop)"
    and "unsealed (bld E) t0 (peb_img medium t0 BLOB_DB_SCRATCH_SECTOR) \<or>
      staged (bld E) t0 (take n buf) (peb_img medium t0 BLOB_DB_SCRATCH_SECTOR) \<and>
      length (take n buf) \<le> scratch_seal_off s"
    and "recover_compaction E t0 = (Inr (), u)"
  shows "blob_map E medium u = blob_map E medium s \<and> db_inv E medium peb u"
  using blob_env.crash_recovery [OF assms(1-5,7,8) _ assms(11,6)] assms(9,10) by simp

text \<open>The witness cuts the power after the bucket's image is sealed and before its erase.\<close>

lemma sim_cut_facts:
  "db_inv sim_env sim_medium g_peb_size (sim_cut m)" "\<not> wedged (sim_cut m)" "n_buckets (sim_cut m) = 2"
  "blob_map sim_env sim_medium (sim_cut m) = [1 \<mapsto> [1, 2, 3]]" "peb_size (sim_cut m) = 256"
  "write_align (sim_cut m) = 4" "geom_ok (bld sim_env) g_peb_size (sim_cut m)"
  "bucket_hdr_valid (bld sim_env) (bucket_img sim_medium (sim_cut m) 1) 1"
  "live_bytes sim_env sim_medium (sim_cut m) 1 = 36" "tail_droppable sim_env sim_medium (sim_cut m) 1"
  "scratch_seal_off (sim_cut m) = 240"
proof -
  have t: "touches sim_medium g_peb_size {} sim_s1 (sim_cut m)" by (simp add: sim_cut_def set_life_touches)
  note D = touchesD [OF t] and N = touches_nothing [OF t]
  show "db_inv sim_env sim_medium g_peb_size (sim_cut m)" "\<not> wedged (sim_cut m)" "n_buckets (sim_cut m) = 2"
    "blob_map sim_env sim_medium (sim_cut m) = [1 \<mapsto> [1, 2, 3]]" "peb_size (sim_cut m) = 256"
    "write_align (sim_cut m) = 4" "geom_ok (bld sim_env) g_peb_size (sim_cut m)"
    using N D sim_s1_facts by simp_all
  then show "scratch_seal_off (sim_cut m) = 240"
    using round_up_pow2 [of 16 2] by (simp add: scratch_seal_off_def scratch_seal_len_def)
  show "bucket_hdr_valid (bld sim_env) (bucket_img sim_medium (sim_cut m) 1) 1"
    using live_formatted [of sim_env sim_medium sim_s1 1 "[1, 2, 3]"] sim_s1_facts(2) sim_s1_facts(9) [of 1] N
    by simp
  show "live_bytes sim_env sim_medium (sim_cut m) 1 = 36"
    using sim_s1_live_bytes N D by (simp add: live_bytes_def)
  show "tail_droppable sim_env sim_medium (sim_cut m) 1"
    using sim_s1_facts(13) [of 1] N D by (simp add: tail_droppable_def ends_foreign_def)
qed

lemma sim_cut_compaction:
  "\<exists>buf n stop t. build_compacted_image (bld sim_env) 256 4 (bucket_img sim_medium (sim_cut 3) 1) 1 = (buf, n, stop) \<and>
     compact_bucket sim_env (sim_cut 3) 1 = (Inl EIO, t) \<and> sim_live 0 t \<and> n = 36 \<and> length buf = 256 \<and>
     bucket_hdr_valid (bld sim_env) (take n buf) 1 \<and>
     touches sim_medium g_peb_size (one_bucket 1) (sim_cut 3) (t\<lparr>wedged := False\<rparr>) \<and>
     staged (bld sim_env) t (take n buf) (peb_img sim_medium t BLOB_DB_SCRATCH_SECTOR)"
proof -
  let ?s = "sim_cut 3" and ?sc = "BLOB_DB_SCRATCH_SECTOR"
  have sc: "?sc < 5" "BLOB_DB_FIRST_BUCKET + 1 < 5" by (simp_all add: BLOB_DB_SCRATCH_SECTOR_def BLOB_DB_FIRST_BUCKET_def)
  obtain buf n stop where b: "build_compacted_image (bld sim_env) 256 4 (bucket_img sim_medium ?s 1) 1 = (buf, n, stop)"
    and len: "length buf = 256" and n: "n = 36" and hv: "bucket_hdr_valid (bld sim_env) (take n buf) 1"
    and cb: "compact_bucket sim_env ?s 1 = compact_commit sim_env ?s 1 buf n"
    using simw.compact_bucket_commits [of ?s 1] sim_cut_facts [of 3] sim_live_reads [OF sim_cut_live, of 1 3] by auto
  have l3: "sim_live (Suc 2) ?s" using sim_cut_live [of 3] by (simp add: numeral_3_eq_3)
  obtain s1 where 1: "store_erase sim_env ?s (peb_offset ?s ?sc) (peb_size ?s) = (Inr (), s1)" and l2: "sim_live (Suc 1) s1"
    using sim_ops(1) [OF l3 sc(1)] by (auto simp: numeral_2_eq_2)
  obtain s2 where 2: "store_write sim_env s1 (peb_offset s1 ?sc + 0) (take n buf) = (Inr (), s2)" and l1: "sim_live (Suc 0) s2"
    using sim_ops(2) [OF l2 sc(1), of 0 "take n buf"] n len by auto
  have ps: "peb_size s2 = 256" using l1 by (simp add: sim_live_def)
  note t1 = simw.store_erase_touches [OF 1]
  have t2: "touches sim_medium g_peb_size {?sc} s1 s2"
    using simw.store_write_touches [OF 2] n len l2 by (simp add: sim_live_def)
  note D1 = touchesD [OF t1] and D2 = touchesD [OF t2]
  have so: "scratch_seal_off s2 = 240" "scratch_seal_len s2 = 16"
    using round_up_pow2 [of 16 2] D1 D2 sim_cut_facts(5,6) [of 3] by (simp_all add: scratch_seal_off_def scratch_seal_len_def)
  obtain s3 where 3: "scratch_seal_write sim_env s2 (peb_offset s2 ?sc) (take n buf) = (Inr (), s3)" and l0: "sim_live 0 s3"
    using sim_ops(2) [OF l1 sc(1), of 240 "seal_bytes (bld sim_env) (take n buf)"] so
    by (auto simp: scratch_seal_write_def)
  have t3: "touches sim_medium g_peb_size {?sc} s2 s3"
    using simw.scratch_seal_write_touches [OF 3] so ps by simp
  note D3 = touchesD [OF t3]
  obtain s4 where 4: "store_erase sim_env s3 (peb_offset s3 (BLOB_DB_FIRST_BUCKET + 1)) (peb_size s3) = (Inl EIO, s4)"
    and l4: "sim_live 0 s4" using sim_erase_cut [OF l0 sc(2)] by blast
  note t4 = simw.store_erase_touches [OF 4]
  have st: "staged (bld sim_env) s3 (take n buf) (peb_img sim_medium s3 ?sc)"
    by (rule simw.scratch_staged [OF 1 _ 3]) (use 2 n len sim_cut_facts [of 3] in simp_all)
  have "compact_commit sim_env ?s 1 buf n = (Inl EIO, s4\<lparr>wedged := True\<rparr>)"
    using 1 2 3 4 n D1 D2 D3 sim_cut_facts(11) [of 3]
    by (simp add: compact_commit_def Let_def or_wedge_def bucket_offset_def) (simp add: sim_env_def flash_store_def)
  moreover have "touches sim_medium g_peb_size ({?sc} \<union> {?sc} \<union> {?sc} \<union> {BLOB_DB_FIRST_BUCKET + 1}) ?s s4"
    by (intro touches_trans [OF _ t4] touches_trans [OF _ t3] touches_trans [OF _ t2] t1)
  then have "touches sim_medium g_peb_size (one_bucket 1) ?s s4" by (rule touches_mono) (auto simp: one_bucket_def)
  moreover have "staged (bld sim_env) s4 (take n buf) (peb_img sim_medium s4 ?sc)"
    using st touches_img [OF t4, of ?sc] touchesD(1,2) [OF t4] staged_cong [of s3 s4]
    by (simp add: BLOB_DB_SCRATCH_SECTOR_def BLOB_DB_FIRST_BUCKET_def)
  ultimately have c: "compact_bucket sim_env ?s 1 = (Inl EIO, s4\<lparr>wedged := True\<rparr>)"
    and tt: "touches sim_medium g_peb_size (one_bucket 1) ?s s4"
    and ss: "staged (bld sim_env) s4 (take n buf) (peb_img sim_medium s4 ?sc)" using cb by simp_all
  have "s4\<lparr>wedged := False\<rparr> = s4" using touches_unwedge [OF tt sim_cut_facts(2)] .
  moreover have "sim_live 0 (s4\<lparr>wedged := True\<rparr>)" using l4 by (simp add: sim_live_def)
  moreover have "staged (bld sim_env) (s4\<lparr>wedged := True\<rparr>) (take n buf) (peb_img sim_medium s4 ?sc)"
    using ss staged_cong [of s4 "s4\<lparr>wedged := True\<rparr>"] by simp
  ultimately show ?thesis
    using b c n len hv tt
    by (intro exI [of _ buf] exI [of _ n] exI [of _ stop] exI [of _ "s4\<lparr>wedged := True\<rparr>"]) simp
qed

theorem compaction_crash_safe_witness:
  "\<exists>t u. compact_bucket sim_env (sim_cut 3) 1 = (Inl EIO, t) \<and>
     recover_compaction sim_env (set_life None (t\<lparr>wedged := False\<rparr>)) = (Inr (), u) \<and>
     blob_map sim_env sim_medium u = [1 \<mapsto> [1, 2, 3]]"
proof -
  obtain buf n stop t where b: "build_compacted_image (bld sim_env) 256 4 (bucket_img sim_medium (sim_cut 3) 1) 1 = (buf, n, stop)"
    and c: "compact_bucket sim_env (sim_cut 3) 1 = (Inl EIO, t)" and l: "sim_live 0 t" and n: "n = 36" "length buf = 256"
    and hv: "bucket_hdr_valid (bld sim_env) (take n buf) 1"
    and tt: "touches sim_medium g_peb_size (one_bucket 1) (sim_cut 3) (t\<lparr>wedged := False\<rparr>)"
    and st: "staged (bld sim_env) t (take n buf) (peb_img sim_medium t BLOB_DB_SCRATCH_SECTOR)"
    using sim_cut_compaction by blast
  let ?t0 = "set_life None (t\<lparr>wedged := False\<rparr>)"
  have tc: "touches sim_medium g_peb_size {} (t\<lparr>wedged := False\<rparr>) ?t0" by (rule set_life_touches)
  note D = touchesD [OF tt] and D0 = touchesD [OF tc]
  have st0: "staged (bld sim_env) ?t0 (take n buf) (peb_img sim_medium ?t0 BLOB_DB_SCRATCH_SECTOR)"
    using st touches_img [OF tc, of BLOB_DB_SCRATCH_SECTOR] staged_cong [of t ?t0] D0 by simp
  have so: "scratch_seal_off ?t0 = scratch_seal_off (sim_cut 3)"
    using D D0 by (simp add: scratch_seal_off_def scratch_seal_len_def)
  have dv: "device_ok sim_good sim_size sim_wu ?t0"
    by (rule sim_live_restored [of 0]) (use l D sim_cut_facts [of 3] in \<open>simp_all add: sim_live_def\<close>)
  obtain u where r: "recover_compaction sim_env ?t0 = (Inr (), u)"
    using simw.recover_compaction_works [OF dv, of 1 "take n buf"] st0 so hv n D D0 sim_cut_facts [of 3] by auto
  have "blob_map sim_env sim_medium u = blob_map sim_env sim_medium (sim_cut 3)"
    using compaction_crash_safe [OF sim_env_blob_env sim_cut_facts(1,2) _ _ _ c tc _ _ r, of buf n stop]
      sim_cut_facts [of 3] b st0 n by (simp add: sim_env_def flash_store_def)
  then show ?thesis using c r sim_cut_facts(4) by auto
qed





lemma sim_torn_env: "torn_env sim_env sim_medium g_peb_size"
proof -
  have "torn_store (sto sim_env) sim_medium g_peb_size"
    using nor_torn.ts.torn_store_axioms by (simp add: sim_env_def sim_medium_def [abs_def])
  then show ?thesis using sim_env_blob_env by (simp add: torn_env_def)
qed

interpretation simt: torn_env sim_env sim_medium g_peb_size
  by (rule sim_torn_env)



end
