(* ===== verification/Blob_Lifecycle.thy ===== *)
theory Blob_Lifecycle
  imports Blob_Api
begin

text \<open>
  What blob_db promises over the life of a store: format and erase-all leave an empty store with its
  root bound, a mount after a shutdown or a power loss finds the objects of before, and no id is
  handed out twice. Each property has an instance on the simulated NOR partition.
\<close>

section \<open>A formatted simulated store\<close>

definition sim_u :: "nor flash_state bdb" where
  "sim_u = sim_s0\<lparr>mounted := False\<rparr>"

definition sim_f :: "nor flash_state bdb" where
  "sim_f = snd (blob_db_format sim_env sim_u)"

lemma sim_opens:
  assumes "length (nor_cells (g_fa d)) = 1280" "nor_sector (g_fa d) = 256" "nor_align (g_fa d) = 4" "nor_life (g_fa d) = None"
  shows "opens_with sim_env sim_good sim_size sim_wu d discard 256 4 5"
proof -
  let ?d = "d\<lparr>g_fa := g_fa d, g_fa_open := True, g_peb_size := 256\<rparr>"
  have sec: "flash_area_sectors nor_area (g_fa d) 4 = (Some ENOMEM, replicate 4 256)"
    using assms by (simp add: nor_area_def)
  have al: "flash_area_align nor_area (g_fa d) = 4" "fa_size nor_area (g_fa d) = 1280"
    "flash_area_open nor_area (g_fa d) = (Inr (), g_fa d)"
    using assms by (simp_all add: nor_area_def)
  have "flash_open nor_area d discard =
      (Inr \<lparr>geom_peb_size = 256, geom_write_align = 4, geom_n_pebs = 5, geom_preformat = True\<rparr>, ?d)"
    by (simp add: flash_open_def Let_def sec al)
  then have "blob_db_store_open (sto sim_env) d discard =
      (Inr \<lparr>geom_peb_size = 256, geom_write_align = 4, geom_n_pebs = 5, geom_preformat = True\<rparr>, ?d)"
    by (simp add: sim_env_def flash_store_def)
  moreover have "sim_good ?d" "sim_wu ?d = 4" "sim_size ?d = 1280"
    using assms by (simp_all add: sim_good_def flash_good_def sim_wu_def sim_size_def nor_area_def)
  moreover have "\<not> blob_db_store_open_found_damage (sto sim_env) ?d off" for off
    by (simp add: sim_env_def flash_store_def)
  ultimately show ?thesis unfolding opens_with_def by simp
qed

lemma sim_checks: "geom_checks (bld sim_env) 256 4 5"
proof -
  have "round_up 48 4 = 48" using round_up_pow2 [of 48 2] by simp
  then show ?thesis
    by (simp add: geom_checks_def sim_env_def sim_build_def BLOB_DB_MAX_WRITE_ALIGN_def is_pow2_def BLOB_DB_MASTER_LOG_OFF_def
        BLOB_DB_MASTER_HDR_MAX_def BLOB_DB_FIRST_BUCKET_def BLOB_DB_BUCKET_DATA_OFF_def BLOB_DB_SLOT_OVERHEAD_def)
qed

lemma maint_reset_frames: "frames medium peb {} s (maint_reset s)"
  by (simp add: maint_reset_def)

lemma maint_reset_sel [simp]:
  "next_id (maint_reset s) = next_id s" "next_id_hint (maint_reset s) = next_id_hint s" "mounted (maint_reset s) = mounted s"
  "wedged (maint_reset s) = wedged s" "rot_gen (maint_reset s) = rot_gen s" "n_pebs (maint_reset s) = n_pebs s"
  "peb_size (maint_reset s) = peb_size s" "write_align (maint_reset s) = write_align s" "dev (maint_reset s) = dev s"
  "device_ok good dsize wu (maint_reset s) = device_ok good dsize wu s" "n_buckets (maint_reset s) = n_buckets s"
  "ceiling_reset (maint_reset s) = ceiling_reset s" "log_failed (maint_reset s) = log_failed s"
  by (simp_all add: maint_reset_def device_ok_def)

lemma maint_reset_inv:
  "0 < n_buckets s \<Longrightarrow> blob_map E medium (maint_reset s) = blob_map E medium s"
  "db_inv E medium peb (maint_reset s) = db_inv E medium peb s"
  "master_base E medium peb s \<Longrightarrow> master_base E medium peb (maint_reset s)"
  "well_kept E medium (maint_reset s) = well_kept E medium s"
proof -
  note f = maint_reset_frames [of medium peb s]
  show "0 < n_buckets s \<Longrightarrow> blob_map E medium (maint_reset s) = blob_map E medium s"
    "db_inv E medium peb (maint_reset s) = db_inv E medium peb s"
    using frames_content(5,6) [OF f] by simp_all
  show "master_base E medium peb s \<Longrightarrow> master_base E medium peb (maint_reset s)"
    by (rule master_base_frames [OF _ f]) (simp_all add: maint_reset_def master_base_def)
  have "master_hdr_bytes E (maint_reset s) gn = master_hdr_bytes E s gn" for gn
    by (simp add: master_hdr_bytes_def master_hdr_body_def maint_reset_def)
  then have "masters_clean E medium (maint_reset s) = masters_clean E medium s"
    by (simp add: masters_clean_def maint_reset_def)
  moreover have "root_bid (maint_reset s) = root_bid s" by (simp add: root_bid_def)
  moreover have "ends_foreign E medium (maint_reset s) r = ends_foreign E medium s r" for r
    by (simp add: ends_foreign_def bucket_img_peb maint_reset_def)
  moreover have "validated E (maint_reset s) = validated E s" by (simp add: validated_iff maint_reset_def)
  moreover have "unsealed (bld E) (maint_reset s) img = unsealed (bld E) s img" for img by (rule unsealed_cong) simp_all
  moreover have "peb_img medium (maint_reset s) q = peb_img medium s q" for q by (simp add: maint_reset_def)
  ultimately show "well_kept E medium (maint_reset s) = well_kept E medium s" by (simp add: well_kept_def)
qed

lemma fresh_store_maint: "fresh_store E medium peb s \<Longrightarrow> fresh_store E medium peb (maint_reset s)"
  using maint_reset_inv(1) [of s E medium] maint_reset_inv(2,3) [of E medium peb s] frames_content(7) [OF maint_reset_frames [of medium peb s], of _ E]
  by (auto simp: fresh_store_def master_inv_def db_inv_def geom_ok_def)

lemma then_reset_Inr: "then_reset r = (Inr (), s') \<longleftrightarrow> (\<exists>s. r = (Inr (), s) \<and> s' = maint_reset s)"
  by (auto simp: then_reset_def seqs_Inr)

lemma sim_f_facts:
  "blob_db_format sim_env sim_u = (Inr (), sim_f)" "fresh_store sim_env sim_medium g_peb_size sim_f" "mounted sim_f"
  "rot_gen sim_f = 2" "well_kept sim_env sim_medium sim_f" "device_ok sim_good sim_size sim_wu sim_f"
  "n_pebs sim_f = 5" "peb_size sim_f = 256" "write_align sim_f = 4" "n_buckets sim_f = 2"
proof -
  have o: "opens_with sim_env sim_good sim_size sim_wu (dev sim_u) True 256 4 5"
    by (rule sim_opens) (simp_all add: sim_u_def sim_s0_def sim_dev_def)
  have m: "\<not> mounted sim_u" by (simp add: sim_u_def)
  obtain s' where s': "format_impl sim_env sim_u = (Inr (), s')" "device_ok sim_good sim_size sim_wu s'"
    "n_pebs s' = 5" "peb_size s' = 256" "write_align s' = 4"
    using simw.format_impl_works [OF o sim_checks _ _ m] by auto
  then have f: "sim_f = maint_reset s'" by (simp add: sim_f_def blob_db_format_def then_reset_def)
  show "blob_db_format sim_env sim_u = (Inr (), sim_f)" using s' f by (simp add: blob_db_format_def then_reset_def)
  have "geom_peb_size g < 2 ^ 32 \<and> geom_n_pebs g < 2 ^ 16"
    if "blob_db_store_open (sto sim_env) (dev sim_u) True = (Inr g, d)" for g d
    using o that by (auto simp: opens_with_def)
  from simw.format_impl_spec [OF s'(1) _ this] m have "fresh_store sim_env sim_medium g_peb_size s'" "mounted s'"
    "rot_gen s' = 2" "well_kept sim_env sim_medium s'" by auto
  then show "fresh_store sim_env sim_medium g_peb_size sim_f" "mounted sim_f"
    "rot_gen sim_f = 2" and wk: "well_kept sim_env sim_medium sim_f"
    using fresh_store_maint maint_reset_inv(4) [of sim_env] by (simp_all add: f)
  show "device_ok sim_good sim_size sim_wu sim_f" "n_pebs sim_f = 5" "peb_size sim_f = 256" "write_align sim_f = 4"
    using s' by (simp_all add: f)
  then show "n_buckets sim_f = 2"
    using wk by (simp add: well_kept_def validated_iff BLOB_DB_FIRST_BUCKET_def)
qed

section \<open>Format and erase-all\<close>

text \<open>A successful \<open>blob_db_format\<close>, mounted or not, leaves a mounted store with the root bound to
  an empty payload and no other object, the id counter at 2, and masters that hold it. For a
  mounted session its geometry is the validated one; otherwise the geometry the store reports is
  checked here, and fits the width of the fields it is kept in.\<close>

theorem format_empties:
  assumes "blob_env E medium peb" "blob_db_format E s = (Inr (), s')"
    and "mounted s \<longrightarrow> validated E s \<and> peb_size s < 2 ^ 32 \<and> n_pebs s < 2 ^ 16 \<and> peb_size s = peb (dev s)"
    and "\<forall>g d. \<not> mounted s \<and> blob_db_store_open (sto E) (dev s) True = (Inr g, d) \<longrightarrow>
      geom_peb_size g < 2 ^ 32 \<and> geom_n_pebs g < 2 ^ 16"
  shows "blob_map E medium s' = [BLOB_DB_ROOT_ID \<mapsto> []] \<and> next_id s' = 2 \<and> mounted s' \<and> \<not> wedged s' \<and>
    db_inv E medium peb s' \<and> master_inv E medium peb s' \<and> well_kept E medium s'"
proof -
  from assms(2) obtain t where t: "format_impl E s = (Inr (), t)" and s': "s' = maint_reset t"
    by (auto simp: blob_db_format_def then_reset_Inr)
  have "fresh_store E medium peb t \<and> mounted t \<and> rot_gen t = 2 \<and> well_kept E medium t"
    using blob_env.format_impl_spec [OF assms(1) t] assms(3,4) by blast
  then show ?thesis using fresh_store_maint [of E medium peb t] maint_reset_inv(4) [of E]
    by (auto simp: s' fresh_store_def)
qed

theorem format_empties_witness:
  "blob_map sim_env sim_medium sim_f = [1 \<mapsto> []] \<and> next_id sim_f = 2"
proof -
  have "geom_peb_size g < 2 ^ 32 \<and> geom_n_pebs g < 2 ^ 16"
    if "blob_db_store_open (sto sim_env) (dev sim_u) True = (Inr g, d)" for g d
    using sim_opens [of "dev sim_u" True] that by (auto simp: opens_with_def sim_u_def sim_s0_def sim_dev_def)
  then show ?thesis
    using format_empties [OF sim_env_blob_env sim_f_facts(1)] by (simp add: sim_u_def BLOB_DB_ROOT_ID_def)
qed

text \<open>On a device that opens with a geometry blob_db supports and whose calls succeed, formatting
  an unmounted store returns success.\<close>

theorem format_succeeds:
  assumes "working_env E medium peb good dsize wu" "\<not> mounted s"
    and "opens_with E good dsize wu (dev s) True pz wa np" "geom_checks (bld E) pz wa np" "pz < 2 ^ 32" "np < 2 ^ 16"
  shows "\<exists>s'. blob_db_format E s = (Inr (), s') \<and> device_ok good dsize wu s'"
  using working_env.format_impl_works [OF assms(1,3-6,2)] by (auto simp: blob_db_format_def then_reset_Inr)

theorem format_succeeds_witness: "\<exists>s'. blob_db_format sim_env sim_u = (Inr (), s') \<and> device_ok sim_good sim_size sim_wu s'"
  using format_succeeds [OF sim_working_env _ sim_opens sim_checks, of sim_u]
  by (simp add: sim_u_def sim_s0_def sim_dev_def)

text \<open>A successful \<open>blob_db_erase_all\<close> leaves the empty root and no other object, and restarts the id
  counter at 2 under masters that hold the lowered ceiling.\<close>

theorem erase_all_empties:
  assumes "blob_env E medium peb" "db_inv E medium peb s" "master_inv E medium peb s"
    and "blob_db_erase_all E s = (Inr (), s')"
  shows "blob_map E medium s' = [BLOB_DB_ROOT_ID \<mapsto> []] \<and> next_id s' = 2 \<and> mounted s' \<and>
    db_inv E medium peb s' \<and> master_inv E medium peb s'"
proof -
  from assms(4) obtain t where t: "erase_all_impl E s = (Inr (), t)" and s': "s' = maint_reset t"
    by (auto simp: blob_db_erase_all_def then_reset_Inr)
  have "geom_ok (bld E) peb s" "master_base E medium peb s" using assms(2,3) by (simp_all add: db_inv_def master_inv_def)
  from blob_env.erase_all_impl_spec [OF assms(1) t this] fresh_store_maint [of E medium peb t] show ?thesis
    by (auto simp: s' fresh_store_def)
qed

lemma sim_f_inv:
  "db_inv sim_env sim_medium g_peb_size sim_f" "master_inv sim_env sim_medium g_peb_size sim_f"
  "master_base sim_env sim_medium g_peb_size sim_f" "blob_map sim_env sim_medium sim_f = [1 \<mapsto> []]" "next_id sim_f = 2"
  "\<not> wedged sim_f" "geom_ok (bld sim_env) g_peb_size sim_f" "ids_left sim_f"
  using sim_f_facts(2) by (auto simp: fresh_store_def master_inv_def db_inv_def BLOB_DB_ROOT_ID_def ids_left_def)

lemma sim_erase_all: "\<exists>s'. blob_db_erase_all sim_env sim_f = (Inr (), s')"
  using simw.erase_all_impl_works [OF sim_f_facts(6) sim_f_inv(7,3)] sim_f_facts(3,4) sim_f_inv(6)
  by (auto simp: blob_db_erase_all_def then_reset_Inr)

theorem erase_all_empties_witness:
  "\<exists>s'. blob_db_erase_all sim_env sim_f = (Inr (), s') \<and> blob_map sim_env sim_medium s' = [1 \<mapsto> []] \<and> next_id s' = 2"
  using sim_erase_all erase_all_empties [OF sim_env_blob_env sim_f_inv(1,2)] by (auto simp: BLOB_DB_ROOT_ID_def)

section \<open>Ids\<close>

text \<open>C8. An id \<open>blob_db_alloc_id\<close> hands out is the next in order, lies below the ceiling that the
  masters already hold when the call returns, and handing it out changes no object.\<close>

theorem alloc_id_covered:
  assumes "blob_env E medium peb" "master_inv E medium peb s" "ids_left s" "blob_db_alloc_id E s = (x, s')" "x \<noteq> 0"
  shows "x = next_id s \<and> next_id s' = x + 1 \<and> x < next_id_hint s' \<and> master_inv E medium peb s' \<and>
    blob_map E medium s' = blob_map E medium s"
proof -
  note sp = blob_env.alloc_id_impl_spec [OF assms(1) assms(4) [unfolded blob_db_alloc_id_def] assms(5,2,3)]
  have "0 < n_buckets s" using assms(2) by (simp add: master_inv_def master_base_def master_geom_def)
  with frames_content(5) [OF sp(5) masters_only_bucket] sp show ?thesis by blast
qed

lemma sim_alloc: "\<exists>s'. blob_db_alloc_id sim_env sim_f = (2, s') \<and> device_ok sim_good sim_size sim_wu s'"
  using simw.alloc_id_works [OF sim_f_facts(6) sim_f_inv(2)] sim_f_facts(3,4) sim_f_inv(5)
  by (simp add: blob_db_alloc_id_def)

theorem alloc_id_covered_witness:
  "\<exists>s'. blob_db_alloc_id sim_env sim_f = (2, s') \<and> next_id s' = 3 \<and> 2 < next_id_hint s' \<and>
     master_inv sim_env sim_medium g_peb_size s' \<and> blob_map sim_env sim_medium s' = [1 \<mapsto> []]"
proof -
  obtain s' where a: "blob_db_alloc_id sim_env sim_f = (2, s')" using sim_alloc by blast
  then show ?thesis using alloc_id_covered [OF sim_env_blob_env sim_f_inv(2,8) a] sim_f_inv(4) by simp
qed




lemma sim_reopens:
  assumes "device_ok sim_good sim_size sim_wu s" "peb_size s = 256" "write_align s = 4" "n_pebs s = 5" "g_peb_size (dev s) = 256"
  shows "opens_with sim_env sim_good sim_size sim_wu (dev s) False 256 4 5" "reopens sim_env sim_medium s (s\<lparr>mounted := False\<rparr>)"
proof -
  show o: "opens_with sim_env sim_good sim_size sim_wu (dev s) False 256 4 5"
    using assms by (intro sim_opens) (auto simp: device_ok_def sim_good_def flash_good_def sim_wu_def nor_area_def)
  then show "reopens sim_env sim_medium s (s\<lparr>mounted := False\<rparr>)"
    using assms by (auto simp: reopens_def opens_with_def)
qed




section \<open>Mount\<close>



text \<open>C11. On a device whose calls succeed, the mount of a store in good order (headers of this build
  on both masters, no sealed compaction, a readable root) returns success.\<close>

theorem mount_succeeds:
  assumes "working_env E medium peb good dsize wu" "reopens E medium s t"
    and "opens_with E good dsize wu (dev t) False (peb_size s) (write_align s) (n_pebs s)"
    and "well_kept E medium s" "master_base E medium peb s" "geom_ok (bld E) peb s"
    and "blob_map E medium s BLOB_DB_ROOT_ID = Some p"
  shows "\<exists>t'. blob_db_mount E t = (Inr (), t') \<and> device_ok good dsize wu t'"
  using working_env.mount_impl_works [OF assms] by (auto simp: blob_db_mount_def then_reset_Inr)

theorem mount_succeeds_witness:
  "\<exists>t'. blob_db_mount sim_env (sim_f\<lparr>mounted := False\<rparr>) = (Inr (), t') \<and> device_ok sim_good sim_size sim_wu t'"
proof -
  have root: "blob_map sim_env sim_medium sim_f BLOB_DB_ROOT_ID = Some []" by (simp add: sim_f_inv(4) BLOB_DB_ROOT_ID_def)
  have gp: "g_peb_size (dev sim_f) = 256" using sim_f_inv(7) sim_f_facts(8) by (simp add: geom_ok_def)
  note r = sim_reopens [OF sim_f_facts(6,8,9,7) gp]
  show ?thesis
    using mount_succeeds [OF sim_working_env r(2) _ sim_f_facts(5) sim_f_inv(3,7) root] r(1) sim_f_facts(7-9) by simp
qed

section \<open>The master log\<close>

text \<open>C12. The binary search of \<open>master_log_load\<close> is a linear reading: where the written record slots are
  the first \<open>e\<close>, it returns that end, the last record among them that verifies, and whether the
  record at the end is bad.\<close>

theorem master_log_exact:
  assumes "working_env E medium peb good dsize wu" "device_ok good dsize wu s" "slot < 2" "master_geom (bld E) s"
    and "log_prefix s (peb_img medium s slot) e"
  shows "master_log_load E s slot gn = Inr (log_reading (bld E) s gn (peb_img medium s slot) e)"
  by (rule working_env.master_log_load_works [OF assms])

theorem master_log_exact_witness:
  "\<exists>e. newest_rec (log_reading (bld sim_env) sim_f 2 (peb_img sim_medium sim_f (active_master sim_f)) e) \<noteq> None \<and>
     master_log_load sim_env sim_f (active_master sim_f) 2 =
       Inr (log_reading (bld sim_env) sim_f 2 (peb_img sim_medium sim_f (active_master sim_f)) e)"
proof -
  have h: "sector_holds (bld sim_env) sim_f (peb_img sim_medium sim_f (active_master sim_f)) 2 (log_next sim_f) (next_id_hint sim_f)"
    and a: "active_master sim_f < 2" "master_geom (bld sim_env) sim_f"
    using sim_f_inv(3) sim_f_facts(4) by (simp_all add: master_base_def)
  then have "log_prefix sim_f (peb_img sim_medium sim_f (active_master sim_f)) (log_next sim_f)"
    by (simp add: sector_holds_def)
  then show ?thesis
    using master_log_exact [OF sim_working_env sim_f_facts(6) a] h
    by (intro exI [of _ "log_next sim_f"]) (simp add: sector_holds_def log_reading_newest(1) del: One_nat_def)
qed

text \<open>The header a sector is written with is classified as ok and accepted by the build and the
  device that wrote it, and reads back the generation, the geometry, the feature sets and the
  payload cap it was given.\<close>

theorem master_header_roundtrip:
  assumes "master_geom (bld E) s" "take 64 buf = master_hdr_bytes E s gn" "64 \<le> length buf"
    and "incompat s = BLOB_DB_BUILD_INCOMPAT" "ro_compat s = BLOB_DB_BUILD_RO_COMPAT"
  shows "master_class_of (bld E) buf = MASTER_OK \<and> master_accept E s (master_hdr_of buf) = Inr () \<and>
    h_rot_gen (master_hdr_of buf) = gn \<and> h_compat (master_hdr_of buf) = compat s \<and>
    h_max_payload_len (master_hdr_of buf) = MAX_PAYLOAD_LEN (bld E)"
  using master_hdr_roundtrip [OF assms(1-3)] assms(4,5)
  by (simp add: master_accept_def Let_def BLOB_DB_BUILD_INCOMPAT_def BLOB_DB_BUILD_RO_COMPAT_def BLOB_DB_BUILD_REQUIRED_def
      BLOB_DB_BUILD_HDR_LEN_def)

theorem master_header_roundtrip_witness:
  "master_class_of (bld sim_env) (master_hdr_bytes sim_env sim_s0 7) = MASTER_OK \<and>
   master_accept sim_env sim_s0 (master_hdr_of (master_hdr_bytes sim_env sim_s0 7)) = Inr ()"
proof -
  have "round_up 48 4 = 48" using round_up_pow2 [of 48 2] by simp
  moreover have "\<exists>k. (4::nat) = 2 ^ k" by (rule exI [of _ 2]) simp
  ultimately have "master_geom (bld sim_env) sim_s0"
    by (simp add: master_geom_def sim_s0_def sim_env_def sim_build_def BLOB_DB_MAX_WRITE_ALIGN_def BLOB_DB_MASTER_LOG_OFF_def
        BLOB_DB_MASTER_HDR_MAX_def)
  from master_header_roundtrip [OF this, of "master_hdr_bytes sim_env sim_s0 7" 7] show ?thesis
    by (simp add: sim_s0_def BLOB_DB_BUILD_INCOMPAT_def BLOB_DB_BUILD_RO_COMPAT_def)
qed

end
