(* ===== verification/Kv_Api.thy ===== *)
theory Kv_Api
  imports Kv_Db Kv_Hash_Map Blob_Object Blob_Lifecycle
begin

text \<open>
  The properties of the layers above blob_db, each over every object store that keeps the laws of
  \<open>object_store\<close> (blob_db on a working device does, and so does any of these stores with the power
  cut after some number of writes), with witnesses on a store in memory and on the simulated flash.
\<close>

section \<open>The hash map on blob_db\<close>

text \<open>The laws of the map hold of blob_db on a working device whose payload cap fits 15 bits.\<close>

locale kv_env = working_env E medium peb good dsize wu for E :: "'d env" and medium peb good dsize wu +
  assumes cap15: "MAX_PAYLOAD_LEN (bld E) \<le> ENT_LEN_MASK"

sublocale kv_env \<subseteq> kvs: kv_store "blob_db_api E" "sound E medium peb good dsize wu" "blob_map E medium" "\<lambda>s. unat (next_id s)" "bld E"
  by unfold_locales (rule cap15)

interpretation simkv: kv_env sim_env sim_medium g_peb_size sim_good sim_size sim_wu
  by unfold_locales (simp add: sim_env_def sim_build_def ENT_LEN_MASK_def)

lemma sim_f_sound: "sound sim_env sim_medium g_peb_size sim_good sim_size sim_wu sim_f"
  using sim_f_facts(2,3,6) sim_f_inv by (auto simp: sound_def fresh_store_def BLOB_DB_ROOT_ID_def)

section \<open>A map in memory\<close>

definition mem_build :: build where "mem_build = sim_build 256"

interpretation memkv: kv_store "mem_api 256" "mem_inv 256" fst snd mem_build
proof -
  have "MAX_PAYLOAD_LEN mem_build = 256" by (simp add: mem_build_def sim_build_def)
  then show "kv_store (mem_api 256) (mem_inv 256) fst snd mem_build"
    using mem.object_store_axioms [of 256] by (simp add: kv_store_def kv_store_axioms_def ENT_LEN_MASK_def)
qed

text \<open>An empty registry at id 1 and an empty map at id 2.\<close>

definition mem1 :: mem where "mem1 = ([1 \<mapsto> rr_bytes [], 2 \<mapsto> dir_format 8 1], 3)"
definition tree1 :: kvtree where "tree1 = \<lparr>kt_top = None, kt_leaves = [empty_leaf 8 2]\<rparr>"
definition policy1 :: kv_policy where "policy1 = kvhash_set_inline_max 16 16"

lemma mem1_facts:
  "mem_inv 256 mem1" "tree_ok mem_build (fst mem1) 2 tree1" "tree_map tree1 = Map.empty" "registry 4 (fst mem1) []" "snd mem1 = 3"
proof -
  show "mem_inv 256 mem1" by (auto simp: mem_inv_def mem1_def dir_format_def RR_MAGIC_def rr_bytes_def split: if_splits)
  have "MAX_BUCKETS mem_build = 31" by (simp add: MAX_BUCKETS_def mem_build_def sim_build_def DIR_HDR_LEN_def)
  then have "leaf_holds mem_build (fst mem1) (empty_leaf 8 2)"
    by (intro memkv.empty_leaf_holds) (simp_all add: mem1_def)
  moreover have "placed mem_build tree1" by (rule empty_placed) (auto simp: tree1_def)
  ultimately show "tree_ok mem_build (fst mem1) 2 tree1" by (simp add: tree_ok_def tree_holds_def tree1_def tree_ids_def)
  show "tree_map tree1 = Map.empty" by (rule empty_placed) (auto simp: tree1_def)
  show "registry 4 (fst mem1) []" by (simp add: registry_def mem1_def BLOB_DB_ROOT_ID_def)
  show "snd mem1 = 3" by (simp add: mem1_def)
qed

text \<open>The first key set in it.\<close>

lemma mem1_set: "fst (kvhash_set mem_build policy1 (mem_api 256) mem1 2 [5] (Some [7]) 1) = Inr ()"
proof -
  let ?h = "key_hash mem_build [5]" and ?lf = "the_leaf tree1 (key_hash mem_build [5])"
  note p = memkv.key_place(1,2) [OF mem1_facts(1,2), of ?h]
  have lf: "?lf = empty_leaf 8 2" by (simp add: the_leaf_def tree1_def leaf_ix_def)
  have "bkt_ix tree1 ?h < 8" using idx_less(2) [of 8 ?h] lf by (simp add: bkt_ix_def empty_leaf_def)
  then have c: "the_child tree1 ?h = 0" by (simp add: the_child_def lf empty_leaf_def)
  have len: "length (dir_set_child b i x) = length b" if "DIR_HDR_LEN + i * 8 + 8 \<le> length b" for b i x
    using that by (simp add: dir_set_child_def)
  have pol: "\<not> key_inline_max policy1 < 1" "\<not> val_inline_max policy1 < 1" by (simp_all add: policy1_def kvhash_set_inline_max_def ENT_LEN_MASK_def)
  have M: "MAX_PAYLOAD_LEN mem_build = 256" by (simp add: mem_build_def sim_build_def)
  have dl: "dn (memkv.leaf_dir (empty_leaf 8 2)) = 8" by (simp add: empty_leaf_def)
  have "length (entry_bytes [5] [7] False False (hash_fp ?h) 0 0) = 6" by (simp add: entry_bytes_def)
  then show ?thesis
    using p pol M unfolding kvhash_set_def Let_def
    by (simp add: c lf ENT_LEN_MASK_def set_at_def set_lookup_def set_new_def Let_def c_bytes_def ENTRY_HDR_LEN_def set_commit_def
        mem_api_def kv_update_def mem1_facts(5) set_publish_def dl dir_len_def DIR_HDR_LEN_def del: memkv.leaf_dir_sel)
qed

section \<open>blob_db writes take effect or do not\<close>

text \<open>C15. On a working device an update either succeeds, and then the object holds the new payload and
  every other object is as before, or fails, and then no object has changed; the session stays sound
  either way, so that the next call is covered too.\<close>

theorem update_all_or_nothing:
  assumes "working_env E medium peb good dsize wu" "sound E medium peb good dsize wu s"
    and "blob_db_update E s x (Some p) (length p) = (r, s')"
  shows "sound E medium peb good dsize wu s' \<and> next_id s' = next_id s \<and>
    blob_map E medium s' = (case r of Inl _ \<Rightarrow> blob_map E medium s | Inr _ \<Rightarrow> (blob_map E medium s)(x \<mapsto> p))"
  using working_env.update_total [OF assms(1,2)] assms(3) by (auto simp: blob_db_update_def effect_def)

theorem update_all_or_nothing_witness:
  "\<exists>r s'. blob_db_update sim_env sim_f 1 (Some [7, 9]) 2 = (r, s') \<and> sound sim_env sim_medium g_peb_size sim_good sim_size sim_wu s' \<and>
     blob_map sim_env sim_medium s' = (case r of Inl _ \<Rightarrow> [1 \<mapsto> []] | Inr _ \<Rightarrow> [1 \<mapsto> [7, 9]])"
proof -
  obtain r s' where u: "blob_db_update sim_env sim_f 1 (Some [7, 9]) (length [7, 9 :: byte]) = (r, s')" by fastforce
  from update_all_or_nothing [OF simw.working_env_axioms sim_f_sound u] u show ?thesis
    by (auto simp: sim_f_inv(4) numeral_2_eq_2 split: sum.splits)
qed

text \<open>The same of a delete; and it reports an absent object only where there is none.\<close>

theorem delete_all_or_nothing:
  assumes "working_env E medium peb good dsize wu" "sound E medium peb good dsize wu s"
    and "blob_db_delete E s x = (r, s')"
  shows "sound E medium peb good dsize wu s' \<and> next_id s' = next_id s \<and>
    blob_map E medium s' = (case r of Inl _ \<Rightarrow> blob_map E medium s | Inr _ \<Rightarrow> (blob_map E medium s)(x := None)) \<and>
    (r = Inl ENOENT \<longrightarrow> blob_map E medium s x = None)"
  using working_env.delete_total [OF assms(1,2)] assms(3) by (auto simp: blob_db_delete_def effect_def)

theorem delete_all_or_nothing_witness:
  "\<exists>r s'. blob_db_delete sim_env sim_f 1 = (r, s') \<and> r \<noteq> Inl ENOENT \<and>
     blob_map sim_env sim_medium s' = (case r of Inl _ \<Rightarrow> [1 \<mapsto> []] | Inr _ \<Rightarrow> Map.empty)"
proof -
  obtain r s' where u: "blob_db_delete sim_env sim_f 1 = (r, s')" by fastforce
  from delete_all_or_nothing [OF simw.working_env_axioms sim_f_sound u] u show ?thesis
    by (auto simp: sim_f_inv(4) fun_eq_iff split: sum.splits)
qed

section \<open>The root registry\<close>

text \<open>\<open>rootreg_get_or_create\<close> answers the root already registered under the key and then changes
  nothing, or binds an id never handed out before and registers it, so that the same call answers it
  again; an error changes no object. Objects other than the registry itself are never touched.\<close>

theorem get_or_create_stable:
  assumes st: "object_store A valid objs nxt cap" and i: "valid s" "nxt s + 1 < ID_LIMIT"
    and reg: "roots < 2 ^ 16" "registry roots (objs s) img" and key: "key \<noteq> 0"
    and run: "rootreg_get_or_create A roots s key False = (r, s')"
  shows "(\<forall>x. x \<noteq> BLOB_DB_ROOT_ID \<longrightarrow> objs s' x = objs s x) \<and>
    (case r of Inl _ \<Rightarrow> objs s' = objs s \<and> map_of img key = None
     | Inr x \<Rightarrow> rootreg_get_or_create A roots s' key False = (Inr x, s') \<and>
         (if map_of img key = None then nxt s \<le> unat x \<and> objs s x = None else map_of img key = Some x \<and> s' = s))"
proof -
  have lim: "nxt s < ID_LIMIT" using i(2) by simp
  note sp = object_store.get_or_create_spec [OF st i(1) lim reg key run]
  show ?thesis
  proof (cases r)
    case (Inl e)
    with sp(3) sp(6) [OF Inl] sp(4) show ?thesis by (cases "map_of img key") auto
  next
    case (Inr x)
    show ?thesis
    proof (cases "map_of img key")
      case None
      from sp(5) [OF None Inr] have n: "unat x = nxt s" "nxt s' = Suc (nxt s)" "registry roots (objs s') (img @ [(key, x)])" by auto
      obtain r2 s2 where again: "rootreg_get_or_create A roots s' key False = (r2, s2)" by fastforce
      have "nxt s' < ID_LIMIT" "map_of (img @ [(key, x)]) key = Some x" using n(2) i(2) None by (simp_all add: map_add_def)
      from object_store.get_or_create_spec(4) [OF st sp(1) this(1) reg(1) n(3) key again this(2)]
      have "rootreg_get_or_create A roots s' key False = (Inr x, s')" using again by simp
      moreover have "objs s x = None" by (rule object_store.objs_fresh [OF st i(1)]) (simp add: n(1))
      ultimately show ?thesis using sp(3) Inr None n(1) by simp
    next
      case (Some y)
      with sp(4) [OF Some] Inr run sp(3) show ?thesis by auto
    qed
  qed
qed

theorem get_or_create_stable_witness:
  "rootreg_get_or_create (mem_api 256) 4 mem1 77 False = (Inr 3, ([1 \<mapsto> rr_bytes [(77, 3)], 2 \<mapsto> dir_format 8 1], 4)) \<and>
   rootreg_get_or_create (mem_api 256) 4 ([1 \<mapsto> rr_bytes [(77, 3)], 2 \<mapsto> dir_format 8 1], 4) 77 False =
     (Inr 3, ([1 \<mapsto> rr_bytes [(77, 3)], 2 \<mapsto> dir_format 8 1], 4))"
proof -
  have ld: "rr_load (mem_api 256) 4 mem1 = Inr []"
    by (rule object_store.rr_load_registry [OF mem.object_store_axioms mem1_facts(1) _ mem1_facts(4)]) simp
  have run: "rootreg_get_or_create (mem_api 256) 4 mem1 77 False = (Inr 3, ([1 \<mapsto> rr_bytes [(77, 3)], 2 \<mapsto> dir_format 8 1], 4))"
    using ld by (simp add: rootreg_get_or_create_def rootreg_get_def rr_store_def mem_api_def mem1_facts(5) BLOB_DB_ROOT_ID_def)
      (auto simp: mem1_def fun_eq_iff)
  from get_or_create_stable [OF mem.object_store_axioms mem1_facts(1) _ _ mem1_facts(4) _ run] run mem1_facts(5) show ?thesis
    by (simp add: ID_LIMIT_def)
qed

text \<open>Registering binds a free key and refuses a taken one; unregistering removes exactly its key.
  Both leave every other entry and every object but the registry as they were.\<close>

theorem registry_updates:
  assumes st: "object_store A valid objs nxt cap" and i: "valid s" and reg: "roots < 2 ^ 16" "registry roots (objs s) img"
  shows "(rootreg_set A roots s key x = (r, s') \<longrightarrow>
      (\<forall>y. y \<noteq> BLOB_DB_ROOT_ID \<longrightarrow> objs s' y = objs s y) \<and>
      (\<exists>img'. registry roots (objs s') img' \<and> map_of img' = effect r ((map_of img)(key \<mapsto> x)) (map_of img)) \<and>
      (r = Inr () \<longrightarrow> map_of img key = None)) \<and>
    (rootreg_unregister A roots s key = (r, s') \<longrightarrow>
      (\<forall>y. y \<noteq> BLOB_DB_ROOT_ID \<longrightarrow> objs s' y = objs s y) \<and>
      (\<exists>img'. registry roots (objs s') img' \<and> map_of img' = effect r ((map_of img)(key := None)) (map_of img)) \<and>
      (r = Inr () \<longrightarrow> map_of img key \<noteq> None))"
proof (intro conjI impI)
  assume "rootreg_set A roots s key x = (r, s')"
  note sp = object_store.rootreg_set_spec [OF st i reg this]
  then show "\<forall>y. y \<noteq> BLOB_DB_ROOT_ID \<longrightarrow> objs s' y = objs s y" "r = Inr () \<Longrightarrow> map_of img key = None" by auto
  show "\<exists>img'. registry roots (objs s') img' \<and> map_of img' = effect r ((map_of img)(key \<mapsto> x)) (map_of img)"
  proof (cases r)
    case (Inl e)
    with sp reg(2) show ?thesis by (auto simp: registry_def)
  next
    case (Inr y)
    with sp show ?thesis by (intro exI [of _ "img @ [(key, x)]"]) (auto simp: fun_eq_iff map_add_def split: option.splits)
  qed
next
  assume "rootreg_unregister A roots s key = (r, s')"
  note sp = object_store.rootreg_unregister_spec [OF st i reg this]
  then show "\<forall>y. y \<noteq> BLOB_DB_ROOT_ID \<longrightarrow> objs s' y = objs s y" "r = Inr () \<Longrightarrow> map_of img key \<noteq> None" by auto
  show "\<exists>img'. registry roots (objs s') img' \<and> map_of img' = effect r ((map_of img)(key := None)) (map_of img)"
  proof (cases r)
    case (Inl e)
    with sp reg(2) show ?thesis by (auto simp: registry_def)
  qed (use sp in auto)
qed

theorem registry_updates_witness:
  "\<exists>r s' img'. rootreg_set (mem_api 256) 4 mem1 77 3 = (r, s') \<and> registry 4 (fst s') img' \<and> map_of img' = effect r [77 \<mapsto> 3] Map.empty \<and>
     rootreg_unregister (mem_api 256) 4 mem1 77 = (Inl ENOENT, mem1)"
proof -
  obtain r s' where u: "rootreg_set (mem_api 256) 4 mem1 77 3 = (r, s')" by (rule prod.exhaust)
  have ld: "rr_load (mem_api 256) 4 mem1 = Inr []"
    by (rule object_store.rr_load_registry [OF mem.object_store_axioms mem1_facts(1) _ mem1_facts(4)]) simp
  then have "rootreg_unregister (mem_api 256) 4 mem1 77 = (Inl ENOENT, mem1)" by (simp add: rootreg_unregister_def)
  then show ?thesis
    using registry_updates [OF mem.object_store_axioms mem1_facts(1) _ mem1_facts(4), where key = 77 and x = 3 and r = r and s' = s'] u by auto
qed

text \<open>C16. The bootstrap of the registry writes to the root object only where that is empty, so it never
  overwrites what another program keeps there; when it succeeds on an empty root or on a registry,
  the registry is ready with the entries it had.\<close>

theorem init_keeps_foreign_root:
  assumes st: "object_store A valid objs nxt cap" and i: "valid s" and run: "rootreg_init A roots s = (r, s')"
  shows "(objs s BLOB_DB_ROOT_ID \<noteq> Some [] \<longrightarrow> s' = s) \<and> (\<forall>x. x \<noteq> BLOB_DB_ROOT_ID \<longrightarrow> objs s' x = objs s x) \<and>
    (r = Inr () \<and> roots < 2 ^ 16 \<and> objs s BLOB_DB_ROOT_ID = Some [] \<longrightarrow> registry roots (objs s') []) \<and>
    (r = Inr () \<and> roots < 2 ^ 16 \<and> registry roots (objs s) img \<longrightarrow> registry roots (objs s') img)"
proof -
  note sp = object_store.rootreg_init_spec [OF st i run] and rdy = object_store.rootreg_init_ready [OF st i]
  have ne: "objs s BLOB_DB_ROOT_ID \<noteq> Some []" if "registry roots (objs s) img"
  proof -
    have "length (rr_bytes img) \<noteq> 0" by simp
    then show ?thesis using that by (auto simp: registry_def simp del: length_rr_bytes)
  qed
  have "registry roots (objs s') []" if "r = Inr ()" "roots < 2 ^ 16" "objs s BLOB_DB_ROOT_ID = Some []"
    using rdy [OF that(2), of s' img] run that by simp
  moreover have "registry roots (objs s') img" if "r = Inr ()" "roots < 2 ^ 16" "registry roots (objs s) img"
    using rdy [OF that(2), of s' img] run that ne by simp
  moreover have "s' = s" if "objs s BLOB_DB_ROOT_ID \<noteq> Some []" using sp that by blast
  moreover have "objs s' x = objs s x" if "x \<noteq> BLOB_DB_ROOT_ID" for x using sp that by (cases r) auto
  ultimately show ?thesis by blast
qed

theorem init_keeps_foreign_root_witness:
  "\<exists>r s'. rootreg_init (mem_api 256) 4 ([1 \<mapsto> [1, 2, 3]], 2) = (r, s') \<and> s' = ([1 \<mapsto> [1, 2, 3]], 2)"
proof -
  obtain r s' where u: "rootreg_init (mem_api 256) 4 ([1 \<mapsto> [1, 2, 3]], 2) = (r, s')" by (rule prod.exhaust)
  have "mem_inv 256 ([1 \<mapsto> [1, 2, 3]], 2)" by (auto simp: mem_inv_def split: if_splits)
  from init_keeps_foreign_root [OF mem.object_store_axioms this u, where img = "[]"] u show ?thesis by (simp add: BLOB_DB_ROOT_ID_def)
qed

section \<open>The hash map\<close>

text \<open>C17. A get answers from the abstract map: the value, its length alone when the buffer is too short,
  or an absent or unusable key. The count is the number of keys.\<close>

theorem kvhash_get_exact:
  assumes "kv_store A valid objs nxt B" "valid s" "tree_ok B (objs s) root t"
  shows "kvhash_get B A s root key out_sz =
    (if key = [] \<or> length key > 0xffff then (Inl EINVAL, None)
     else case tree_map t key of
       None \<Rightarrow> (Inl ENOENT, None)
     | Some v \<Rightarrow> (if out_sz < length v then Inl ENOMEM else Inr v, Some (length v))) \<and>
    kvhash_count B A s root False = Inr (card (dom (tree_map t)))"
  by (intro conjI kv_store.kvhash_get_map [OF assms] kv_store.kvhash_count_map [OF assms])

theorem kvhash_get_exact_witness:
  "kvhash_get mem_build (mem_api 256) mem1 2 [5] 10 = (Inl ENOENT, None) \<and> kvhash_get mem_build (mem_api 256) mem1 2 [] 10 = (Inl EINVAL, None) \<and>
   kvhash_count mem_build (mem_api 256) mem1 2 False = Inr 0"
  using kvhash_get_exact [OF memkv.kv_store_axioms mem1_facts(1,2)] mem1_facts(3) by simp

text \<open>C18. A set takes effect at its key or, with an error from any of its calls to the store, nowhere:
  the tree stays well formed, every other key keeps its value, and no object outside the map that was
  bound before is touched.\<close>

theorem kvhash_set_all_or_nothing:
  assumes "kv_store A valid objs nxt B" "valid s" "tree_ok B (objs s) root t" "nxt s + 3 \<le> ID_LIMIT"
    and "\<And>v. val = Some v \<Longrightarrow> vlen \<le> length v" and "kvhash_set B P A s root key val vlen = (r, s')"
  shows "valid s' \<and> (\<forall>x. unat x < nxt s \<longrightarrow> x \<notin> set (tree_ids root t) \<longrightarrow> objs s' x = objs s x) \<and>
    (\<exists>t'. tree_ok B (objs s') root t' \<and>
       tree_map t' = (case r of Inl _ \<Rightarrow> tree_map t | Inr _ \<Rightarrow> (tree_map t)(key \<mapsto> c_bytes val vlen)))"
  using kv_store.kvhash_set_map [OF assms] by (auto simp: kv_store.evolves_def [OF assms(1)] effect_def)

theorem kvhash_set_all_or_nothing_witness:
  "\<exists>s' t'. kvhash_set mem_build policy1 (mem_api 256) mem1 2 [5] (Some [7]) 1 = (Inr (), s') \<and> mem_inv 256 s' \<and>
     tree_ok mem_build (fst s') 2 t' \<and> tree_map t' = [[5] \<mapsto> [7]]"
proof -
  obtain r s' where u: "kvhash_set mem_build policy1 (mem_api 256) mem1 2 [5] (Some [7]) 1 = (r, s')" by (rule prod.exhaust)
  have "r = Inr ()" using mem1_set u by simp
  with kvhash_set_all_or_nothing [OF memkv.kv_store_axioms mem1_facts(1,2) _ _ u] u mem1_facts(3,5) show ?thesis
    by (auto simp: ID_LIMIT_def c_bytes_def)
qed

text \<open>A delete removes exactly its key or, on an error, nothing; an absent key is reported as such
  and nothing is written.\<close>

theorem kvhash_del_all_or_nothing:
  assumes "kv_store A valid objs nxt B" "valid s" "tree_ok B (objs s) root t" "kvhash_del B A s root key = (r, s')"
  shows "valid s' \<and> (\<forall>x. unat x < nxt s \<longrightarrow> x \<notin> set (tree_ids root t) \<longrightarrow> objs s' x = objs s x) \<and>
    (\<exists>t'. tree_ok B (objs s') root t' \<and>
       tree_map t' = (case r of Inl _ \<Rightarrow> tree_map t | Inr _ \<Rightarrow> (tree_map t)(key := None))) \<and>
    (tree_map t key = None \<longrightarrow> r = Inl (if key = [] \<or> length key > 0xffff then EINVAL else ENOENT) \<and> s' = s)"
  using kv_store.kvhash_del_map [OF assms] by (auto simp: kv_store.evolves_def [OF assms(1)] effect_def)

theorem kvhash_del_all_or_nothing_witness: "kvhash_del mem_build (mem_api 256) mem1 2 [5] = (Inl ENOENT, mem1)"
proof -
  obtain r s' where u: "kvhash_del mem_build (mem_api 256) mem1 2 [5] = (r, s')" by (rule prod.exhaust)
  from kvhash_del_all_or_nothing [OF memkv.kv_store_axioms mem1_facts(1,2) u] u mem1_facts(3) show ?thesis by simp
qed

text \<open>Power may fail at any write of a set: with the power cut after \<open>k\<close> writes the store holds the
  map of before or the map with the key set, whole in either case, and all other objects are there.\<close>

theorem kvhash_set_survives_cut:
  assumes ks: "kv_store A valid objs nxt B" and i: "valid s" and t: "tree_ok B (objs s) root t" and lim: "nxt s + 3 \<le> ID_LIMIT"
    and buf: "\<And>v. val = Some v \<Longrightarrow> vlen \<le> length v"
    and run: "kvhash_set B P (cut_api A) (s, Some k) root key val vlen = (r, (s', left))"
  shows "valid s' \<and> (\<forall>x. unat x < nxt s \<longrightarrow> x \<notin> set (tree_ids root t) \<longrightarrow> objs s' x = objs s x) \<and>
    (\<exists>t'. tree_ok B (objs s') root t' \<and> tree_map t' \<in> {tree_map t, (tree_map t)(key \<mapsto> c_bytes val vlen)})"
proof -
  have "object_store A valid objs nxt (MAX_PAYLOAD_LEN B)" "MAX_PAYLOAD_LEN B \<le> ENT_LEN_MASK"
    using ks by (simp_all add: kv_store_def kv_store_axioms_def)
  then have cut: "kv_store (cut_api A) (\<lambda>st. valid (fst st)) (\<lambda>st. objs (fst st)) (\<lambda>st. nxt (fst st)) B"
    using object_store.cut_object_store by (simp add: kv_store_def kv_store_axioms_def)
  obtain t' where "kv_store.evolves (\<lambda>st. valid (fst st)) (\<lambda>st. objs (fst st)) (\<lambda>st. nxt (fst st)) B root (s, Some k) t (s', left) t'"
    "tree_map t' = effect r ((tree_map t)(key \<mapsto> c_bytes val vlen)) (tree_map t)"
    using kv_store.kvhash_set_map [OF cut _ _ _ buf run] i t lim by auto
  then show ?thesis by (cases r) (auto simp: kv_store.evolves_def [OF cut])
qed

theorem kvhash_set_survives_cut_witness:
  "\<forall>k. \<exists>r s' left t'. kvhash_set mem_build policy1 (cut_api (mem_api 256)) (mem1, Some k) 2 [5] (Some [7]) 1 = (r, (s', left)) \<and>
     tree_ok mem_build (fst s') 2 t' \<and> tree_map t' \<in> {Map.empty, [[5] \<mapsto> [7]]}"
proof
  fix k
  obtain r s' left where u: "kvhash_set mem_build policy1 (cut_api (mem_api 256)) (mem1, Some k) 2 [5] (Some [7]) 1 = (r, (s', left))"
    by (metis prod.exhaust)
  from kvhash_set_survives_cut [OF memkv.kv_store_axioms mem1_facts(1,2) _ _ u] u mem1_facts(3,5)
  show "\<exists>r s' left t'. kvhash_set mem_build policy1 (cut_api (mem_api 256)) (mem1, Some k) 2 [5] (Some [7]) 1 = (r, (s', left)) \<and>
     tree_ok mem_build (fst s') 2 t' \<and> tree_map t' \<in> {Map.empty, [[5] \<mapsto> [7]]}"
    by (auto simp: ID_LIMIT_def c_bytes_def)
qed

text \<open>C19. For every declared population up to \<open>65535\<^sup>2\<close> entries the search for a geometry ends, and a
  create that succeeds leaves a well-formed empty map at the root; one that fails leaves the root as
  it was. Objects bound before are untouched.\<close>

theorem kvhash_create_returns_empty:
  assumes ks: "kv_store A valid objs nxt B" and i: "valid s" "unat root < nxt s" "nxt s + MAX_BUCKETS B \<le> ID_LIMIT"
    and cfg: "cfg_entries cfg \<le> 65535 * 65535" "8 \<le> MAX_BUCKETS B"
  shows "\<exists>r s'. kvhash_create B A s root cfg = Some (r, s') \<and> valid s' \<and>
    (\<forall>x. unat x < nxt s \<longrightarrow> x \<noteq> root \<longrightarrow> objs s' x = objs s x) \<and>
    (case r of Inl _ \<Rightarrow> objs s' root = objs s root
     | Inr _ \<Rightarrow> \<exists>t. tree_ok B (objs s') root t \<and> tree_map t = Map.empty)"
proof -
  have "map_shape A valid objs nxt (MAX_PAYLOAD_LEN B) (kvhash_map_ops B undefined A) (kvhash_holds B) (kvhash_ready B nxt) (MAX_BUCKETS B)"
    by (rule kv_store.kvhash_shape [OF ks])
  from map_shape.op_create_law [OF this i(1,2), of cfg] i(3) cfg obtain r s' where
    c: "kvhash_create B A s root cfg = Some (r, s')" "valid s'" "\<forall>x. unat x < nxt s \<longrightarrow> x \<noteq> root \<longrightarrow> objs s' x = objs s x"
    and d: "case r of Inl _ \<Rightarrow> objs s' root = objs s root
      | Inr _ \<Rightarrow> \<exists>X. kvhash_holds B (objs s') root X Map.empty \<and> (\<forall>x\<in>X. x = root \<or> nxt s \<le> unat x)"
    by (auto simp: kvhash_ready_def kvhash_map_ops_def)
  from d have "case r of Inl _ \<Rightarrow> objs s' root = objs s root | Inr _ \<Rightarrow> \<exists>t. tree_ok B (objs s') root t \<and> tree_map t = Map.empty"
    by (cases r) (auto simp: kvhash_holds_def)
  with c show ?thesis by blast
qed

theorem kvhash_create_returns_empty_witness:
  "\<exists>r s'. kvhash_create mem_build (mem_api 256) mem1 1 (Some \<lparr>expected_entries = 900, typical_entry_bytes = 0, max_entry_bytes = 0\<rparr>) = Some (r, s') \<and>
     mem_inv 256 s'"
proof -
  have "MAX_BUCKETS mem_build = 31" by (simp add: MAX_BUCKETS_def mem_build_def sim_build_def DIR_HDR_LEN_def)
  with kvhash_create_returns_empty [OF memkv.kv_store_axioms mem1_facts(1), where root = 1 and
      cfg = "Some \<lparr>expected_entries = 900, typical_entry_bytes = 0, max_entry_bytes = 0\<rparr>"] mem1_facts(5)
  show ?thesis by (auto simp: ID_LIMIT_def cfg_entries_def)
qed

text \<open>C20. Above that bound it need not end: with \<open>0xfffffffc\<close> expected entries no 32-bit square reaches
  the bucket count, and \<open>kvhash_create\<close> does not return.\<close>

theorem kvhash_create_hangs:
  assumes "max_entry_bytes c = 0" "typical_entry_bytes c = 0" "expected_entries c = 0xfffffffc"
  shows "kvhash_create B A s root (Some c) = None"
proof -
  have "one_level_load B 0 = 4" by (simp add: one_level_load_def)
  moreover have "\<not> ((0xfffffffc :: u32) + 4 - 1) div 4 \<le> 255" by (simp add: word_le_nat_alt unat_word_ariths unat_div)
  ultimately show ?thesis
    using assms side_from_stuck [of 1] by (simp add: kvhash_create_def derive_geometry_def)
qed

theorem kvhash_create_hangs_witness:
  "kvhash_create mem_build (mem_api 256) mem1 1 (Some \<lparr>expected_entries = 0xfffffffc, typical_entry_bytes = 0, max_entry_bytes = 0\<rparr>) = None"
  by (rule kvhash_create_hangs) simp_all

text \<open>C21. A destroy that returns success has removed every object of the map and nothing else. One that
  fails has changed nothing or has left a map that no operation sees and that a repeated destroy goes
  on from.\<close>

theorem kvhash_destroy_resumes:
  assumes ks: "kv_store A valid objs nxt B" and i: "valid s" and t: "tree_ok B (objs s) root t \<or> tree_wilts B (objs s) root t"
    and run: "kvhash_destroy B A s root = (r, s')"
  shows "valid s' \<and> (\<forall>x. x \<notin> set (tree_ids root t) \<longrightarrow> objs s' x = objs s x) \<and>
    (case r of Inr _ \<Rightarrow> \<forall>x \<in> set (tree_ids root t). objs s' x = None
     | Inl _ \<Rightarrow> objs s' = objs s \<or> tree_wilts B (objs s') root t \<and>
         (\<forall>key n. key \<noteq> [] \<longrightarrow> length key \<le> ENT_LEN_MASK \<longrightarrow> kvhash_get B A s' root key n = (Inl ENOENT, None)))"
proof -
  note d = kv_store.kvhash_destroy_law [OF ks i t run]
  have "kvhash_get B A s' root key n = (Inl ENOENT, None)"
    if "tree_wilts B (objs s') root t" "key \<noteq> []" "length key \<le> ENT_LEN_MASK" for key n
    using kv_store.wilting_invisible [OF ks _ that(1)] d that(2,3)
    by (simp add: kvhash_get_def Let_def resolve_leaf_def ENT_LEN_MASK_def)
  with d show ?thesis by (cases r) auto
qed

theorem kvhash_destroy_resumes_witness:
  "\<exists>r s'. kvhash_destroy mem_build (mem_api 256) mem1 2 = (r, s') \<and> fst s' 1 = Some (rr_bytes []) \<and> (r = Inr () \<longrightarrow> fst s' 2 = None)"
proof -
  obtain r s' where u: "kvhash_destroy mem_build (mem_api 256) mem1 2 = (r, s')" by (rule prod.exhaust)
  have "tree_ids 2 tree1 = [2]" "fst mem1 1 = Some (rr_bytes [])" by (simp_all add: tree_ids_def tree1_def mem1_def)
  with kvhash_destroy_resumes [OF memkv.kv_store_axioms mem1_facts(1) disjI1 [OF mem1_facts(2)] u] u show ?thesis
    by (auto split: sum.splits)
qed

section \<open>Walking a map\<close>

text \<open>C22. A walk with \<open>kvhash_next\<close>, from the empty cursor and with each key fed back, never returns a
  key twice, even when keys are set and deleted between its calls; when it ends it has returned every
  key that was there at the start and was not deleted meanwhile. With buffers for any entry a call gives
  a new key or the end, never an error.\<close>

theorem kvhash_walk_complete:
  assumes ks: "kv_store A valid objs nxt B" and i: "valid s0" "tree_ok B (objs s0) root t0"
    and w: "kv_walk B P A nxt root s0 (dom (tree_map t0)) s cur keys K"
  shows "distinct keys \<and> (fst (kvhash_next B A s root cur ko vo) = Inl ENODATA \<longrightarrow> K \<subseteq> set keys) \<and>
    (MAX_PAYLOAD_LEN B \<le> ko \<and> MAX_PAYLOAD_LEN B \<le> vo \<longrightarrow>
       fst (kvhash_next B A s root cur ko vo) = Inl ENODATA \<or> (\<exists>k v. fst (kvhash_next B A s root cur ko vo) = Inr (k, v) \<and> k \<notin> set keys))"
  using kv_store.kv_walk_complete [OF ks w i] by blast

theorem kvhash_walk_complete_witness:
  "\<exists>s r. kvhash_set mem_build policy1 (mem_api 256) mem1 2 [5] (Some [7]) 1 = (r, s) \<and>
     (fst (kvhash_next mem_build (mem_api 256) s 2 [] 256 256) = Inl ENODATA \<or>
      (\<exists>k v. fst (kvhash_next mem_build (mem_api 256) s 2 [] 256 256) = Inr (k, v)))"
proof -
  obtain r s where u: "kvhash_set mem_build policy1 (mem_api 256) mem1 2 [5] (Some [7]) (length [7 :: byte]) = (r, s)" by (rule prod.exhaust)
  have lim: "snd mem1 + 3 \<le> ID_LIMIT" by (simp add: mem1_facts(5) ID_LIMIT_def)
  have "kv_walk mem_build policy1 (mem_api 256) snd 2 mem1 (dom (tree_map tree1)) s [] [] (dom (tree_map tree1))"
    by (rule kv_walk.walk_set [OF kv_walk.walk_start _ u]) (rule lim)
  from kvhash_walk_complete [OF memkv.kv_store_axioms mem1_facts(1,2) this, of 256 256] u
  show ?thesis by (auto simp: mem_build_def sim_build_def)
qed

end
