(* ===== verification/Kvdb_Api.thy ===== *)
theory Kvdb_Api
  imports Kv_Api
begin

text \<open>
  The properties of kvdb over the hash map, on every object store: a name opens one map for good, and
  what is set under one name is read back under it and leaves the maps of other names alone.
\<close>

section \<open>A named map in memory\<close>

definition name1 :: "byte list" where "name1 = [100, 98]"

text \<open>A registry with one entry, its meta object at id 2 and an empty map at id 3.\<close>

definition mem2 :: mem where
  "mem2 = ([1 \<mapsto> rr_bytes [(kvdb_key name1, 2)],
            2 \<mapsto> meta_bytes (new_meta name1 (backend_code KVDB_BACKEND_HASH) 3), 3 \<mapsto> dir_format 8 1], 4)"

lemma name1_ok: "name_ok name1"
  by (simp add: name_ok_def name1_def KVDB_NAME_MAX_def)

lemma mem2_facts:
  "mem_inv 256 mem2" "registry 4 (fst mem2) [(kvdb_key name1, 2)]" "snd mem2 = 4"
  "kvdb_instance (kvhash_holds mem_build) (fst mem2) [(kvdb_key name1, 2)] name1 3 {3} Map.empty"
proof -
  let ?t = "\<lparr>kt_top = None, kt_leaves = [empty_leaf 8 3]\<rparr>"
  have ml: "length (meta_bytes (new_meta name1 b x)) = 32" for b x
    using meta_roundtrip(2) [OF length_new_meta [OF name1_ok]] by (simp add: KVDB_META_SIZE_def)
  show "mem_inv 256 mem2"
    by (auto simp: mem_inv_def mem2_def dir_format_def rr_bytes_def RR_MAGIC_def ml split: if_splits)
  show "registry 4 (fst mem2) [(kvdb_key name1, 2)]"
    by (simp add: registry_def mem2_def BLOB_DB_ROOT_ID_def kvdb_key_nonzero)
  show "snd mem2 = 4" by (simp add: mem2_def)
  have "MAX_BUCKETS mem_build = 31" by (simp add: MAX_BUCKETS_def mem_build_def sim_build_def DIR_HDR_LEN_def)
  then have "leaf_holds mem_build (fst mem2) (empty_leaf 8 3)"
    by (intro memkv.empty_leaf_holds) (simp_all add: mem2_def)
  moreover have "placed mem_build ?t" "tree_map ?t = Map.empty" by (rule empty_placed; auto)+
  ultimately have "kvhash_holds mem_build (fst mem2) 3 {3} Map.empty"
    by (auto simp: kvhash_holds_def tree_ok_def tree_holds_def tree_ids_def leaf_ids_def empty_leaf_def intro!: exI [of _ ?t])
  then show "kvdb_instance (kvhash_holds mem_build) (fst mem2) [(kvdb_key name1, 2)] name1 3 {3} Map.empty"
    by (auto simp: kvdb_instance_def mem2_def BLOB_DB_ROOT_ID_def)
qed

section \<open>Opening\<close>

text \<open>The first open of a name returns, and on success it has registered the name, written its meta
  object and built an empty map from objects no one had before; an open that fails leaves the name
  unopened, so the next open goes on from there. No bound object other than the registry changes.\<close>

theorem kvdb_open_creates:
  assumes ks: "kv_store A valid objs nxt B" and i: "valid s" "nxt s + 3 + MAX_BUCKETS B \<le> ID_LIMIT"
    and reg: "roots < 2 ^ 16" "registry roots (objs s) img" and n: "name_ok n" "kvdb_unopened (objs s) (nxt s) img n"
    and cfg: "want_backend cfg = KVDB_BACKEND_HASH" "cfg_entries (Some (kvdb_map_config cfg)) \<le> 65535 * 65535" "8 \<le> MAX_BUCKETS B"
  shows "\<exists>r s' img'. kvdb_open A roots (kvhash_map_ops B P A) s False (Some n) cfg = Some (r, s') \<and> valid s' \<and>
    registry roots (objs s') img' \<and> (\<forall>k. k \<noteq> kvdb_key n \<longrightarrow> map_of img' k = map_of img k) \<and>
    (\<forall>x. objs s x \<noteq> None \<longrightarrow> x \<noteq> BLOB_DB_ROOT_ID \<longrightarrow> objs s' x = objs s x) \<and>
    (case r of Inl _ \<Rightarrow> kvdb_unopened (objs s') (nxt s') img' n
     | Inr db \<Rightarrow> db_ops db = kvhash_map_ops B P A \<and>
         (\<exists>X. kvdb_instance (kvhash_holds B) (objs s') img' n (db_root db) X Map.empty \<and> (\<forall>x \<in> X. objs s x = None)))"
proof -
  have rd: "\<forall>s2. valid s2 \<and> nxt s2 \<le> nxt s + 2 \<longrightarrow> kvhash_ready B nxt s2 (Some (kvdb_map_config cfg))"
    using i(2) cfg by (simp add: kvhash_ready_def)
  have "nxt s + 2 < ID_LIMIT" using i(2) cfg(3) by simp
  from map_shape.open_creates [OF kv_store.kvhash_shape [OF ks, of P] i(1) this reg n(1) cfg(1) n(2) rd] show ?thesis
    by (elim exE conjE) (rule exI | rule conjI | assumption)+
qed

theorem kvdb_open_creates_witness:
  "\<exists>r s'. kvdb_open (mem_api 256) 4 (kvhash_map_ops mem_build policy1 (mem_api 256)) mem1 False (Some name1) None = Some (r, s') \<and> mem_inv 256 s'"
proof -
  have "MAX_BUCKETS mem_build = 31" by (simp add: MAX_BUCKETS_def mem_build_def sim_build_def DIR_HDR_LEN_def)
  with kvdb_open_creates [OF memkv.kv_store_axioms mem1_facts(1) _ _ mem1_facts(4) name1_ok, of None policy1] mem1_facts(5)
  show ?thesis
    by (auto simp: ID_LIMIT_def kvdb_unopened_def want_backend_def KVDB_DEFAULT_BACKEND_def cfg_entries_def kvdb_map_config_def)
qed

text \<open>C23. Every later open of the name finds the same map and writes nothing, whatever configuration it
  asks for; another name that hashes to the same registry key is refused, not given the wrong map.\<close>

theorem kvdb_reopen:
  assumes ks: "kv_store A valid objs nxt B" and i: "valid s" "nxt s < ID_LIMIT"
    and reg: "roots < 2 ^ 16" "registry roots (objs s) img" and n: "name_ok n" "name_ok n'" "kvdb_key n' = kvdb_key n"
    and inst: "kvdb_instance (kvhash_holds B) (objs s) img n root X f"
  shows "kvdb_open A roots (kvhash_map_ops B P A) s False (Some n') cfg =
    Some (if n' = n then Inr \<lparr>db_root = root, db_ops = kvhash_map_ops B P A\<rparr> else Inl EEXIST, s)"
proof -
  from inst obtain mid where m: "map_of img (kvdb_key n') = Some mid"
    "objs s mid = Some (meta_bytes (new_meta n (backend_code KVDB_BACKEND_HASH) root))" by (auto simp: kvdb_instance_def n(3))
  note o = map_shape.open_registered [OF kv_store.kvhash_shape [OF ks] i reg n(2) m]
  show ?thesis
    using o [OF meta_roundtrip(2) [OF length_new_meta [OF n(1)]], of P cfg] attach_same [OF n(1)] attach_other [OF n(2,1)]
    by (cases "n' = n") simp_all
qed

theorem kvdb_reopen_witness:
  "kvdb_open (mem_api 256) 4 (kvhash_map_ops mem_build policy1 (mem_api 256)) mem2 False (Some name1) None =
     Some (Inr \<lparr>db_root = 3, db_ops = kvhash_map_ops mem_build policy1 (mem_api 256)\<rparr>, mem2)"
  using kvdb_reopen [OF memkv.kv_store_axioms mem2_facts(1) _ _ mem2_facts(2) name1_ok name1_ok _ mem2_facts(4), of policy1 None] mem2_facts(3)
  by (simp add: ID_LIMIT_def)

section \<open>Keys and values\<close>

text \<open>C24. A set under a name takes effect in that map or fails and changes nothing there; a get of the
  key then answers the value in full. The registry and every map of another name keep their contents.\<close>

theorem kvdb_set_get:
  assumes ks: "kv_store A valid objs nxt B" and i: "valid s" "nxt s + 3 \<le> ID_LIMIT" and reg: "registry roots (objs s) img"
    and inst: "kvdb_instance (kvhash_holds B) (objs s) img n root X f"
    and db: "db = \<lparr>db_root = root, db_ops = kvhash_map_ops B P A\<rparr>" and v: "\<And>v. val = Some v \<Longrightarrow> len \<le> length v"
    and run: "kvdb_set s (Some db) (Some key) val len = (r, s')"
  shows "valid s' \<and> registry roots (objs s') img \<and>
    (\<exists>X'. kvdb_instance (kvhash_holds B) (objs s') img n root X' (case r of Inl _ \<Rightarrow> f | Inr _ \<Rightarrow> f(c_str key \<mapsto> c_bytes val len)) \<and>
       (\<forall>n' root' Y g. kvdb_instance (kvhash_holds B) (objs s) img n' root' Y g \<and> kvdb_apart img X n' Y \<longrightarrow>
          kvdb_instance (kvhash_holds B) (objs s') img n' root' Y g \<and> kvdb_apart img X' n' Y)) \<and>
    (r = Inr () \<and> c_str key \<noteq> [] \<and> length (c_str key) \<le> 0xffff \<longrightarrow>
       kvdb_get s' (Some db) (Some key) len = (Inr (c_bytes val len), Some (length (c_bytes val len))))"
proof -
  note sh = kv_store.kvhash_shape [OF ks, of P]
  from inst have h: "kvhash_holds B (objs s) root X f" by (auto simp: kvdb_instance_def)
  have "op_set (kvhash_map_ops B P A) s root (c_str key) val len = (r, s')" using run db by (simp add: kvdb_set_def)
  from map_shape.op_set_law [OF sh i(1) h i(2) v this] obtain X' where
    st: "owns_step valid objs nxt X s X' s'" and h': "kvhash_holds B (objs s') root X' (effect r (f(c_str key \<mapsto> c_bytes val len)) f)" by blast
  note m = map_shape.instance_moves [OF sh i(1) inst reg st h']
  have "kvdb_get s' (Some db) (Some key) len = (Inr (c_bytes val len), Some (length (c_bytes val len)))"
    if "r = Inr ()" "c_str key \<noteq> []" "length (c_str key) \<le> 0xffff"
    using map_shape.op_get_law [OF sh m(1) h', of "c_str key" len] that db v by (auto simp: kvdb_get_def c_bytes_def split: option.splits)
  with m show ?thesis unfolding effect_def by blast
qed

theorem kvdb_set_get_witness:
  "\<exists>r s' X'. kvdb_set mem2 (Some \<lparr>db_root = 3, db_ops = kvhash_map_ops mem_build policy1 (mem_api 256)\<rparr>) (Some [107, 0]) (Some [7]) 1 = (r, s') \<and>
     mem_inv 256 s' \<and>
     kvdb_instance (kvhash_holds mem_build) (fst s') [(kvdb_key name1, 2)] name1 3 X' (case r of Inl _ \<Rightarrow> Map.empty | Inr _ \<Rightarrow> [[107] \<mapsto> [7]])"
proof -
  let ?db = "\<lparr>db_root = 3, db_ops = kvhash_map_ops mem_build policy1 (mem_api 256)\<rparr>"
  obtain r s' where u: "kvdb_set mem2 (Some ?db) (Some [107, 0]) (Some [7]) 1 = (r, s')" by (rule prod.exhaust)
  have e: "c_str [107, 0] = [107]" "c_bytes (Some [7]) 1 = [7]" by (simp_all add: c_str_def c_bytes_def)
  have "snd mem2 + 3 \<le> ID_LIMIT" by (simp add: mem2_facts(3) ID_LIMIT_def)
  from kvdb_set_get [OF memkv.kv_store_axioms mem2_facts(1) this mem2_facts(2,4) refl _ u, unfolded e] u
  show ?thesis by auto
qed

text \<open>A delete removes the key from the map of its name and from no other; an absent key is reported.
  \<open>kvdb_has\<close> says whether the map has the key, with one exception: for an empty key or one of more than
  65535 bytes it answers true, though \<open>kvdb_get\<close> refuses the key.\<close>

theorem kvdb_delete_has:
  assumes ks: "kv_store A valid objs nxt B" and i: "valid s" and reg: "registry roots (objs s) img"
    and inst: "kvdb_instance (kvhash_holds B) (objs s) img n root X f"
    and db: "db = \<lparr>db_root = root, db_ops = kvhash_map_ops B P A\<rparr>"
    and run: "kvdb_delete s (Some db) (Some key) = (r, s')"
  shows "valid s' \<and> registry roots (objs s') img \<and>
    (\<exists>X'. kvdb_instance (kvhash_holds B) (objs s') img n root X' (case r of Inl _ \<Rightarrow> f | Inr _ \<Rightarrow> f(c_str key := None)) \<and>
       (\<forall>n' root' Y g. kvdb_instance (kvhash_holds B) (objs s) img n' root' Y g \<and> kvdb_apart img X n' Y \<longrightarrow>
          kvdb_instance (kvhash_holds B) (objs s') img n' root' Y g \<and> kvdb_apart img X' n' Y)) \<and>
    (kvdb_has s (Some db) (Some key) \<longleftrightarrow> c_str key = [] \<or> length (c_str key) > 0xffff \<or> f (c_str key) \<noteq> None)"
proof -
  note sh = kv_store.kvhash_shape [OF ks, of P]
  from inst have h: "kvhash_holds B (objs s) root X f" by (auto simp: kvdb_instance_def)
  have "op_del (kvhash_map_ops B P A) s root (c_str key) = (r, s')" using run db by (simp add: kvdb_delete_def)
  from map_shape.op_del_law [OF sh i h this] obtain X' where
    st: "owns_step valid objs nxt X s X' s'" and h': "kvhash_holds B (objs s') root X' (effect r (f(c_str key := None)) f)" by blast
  note m = map_shape.instance_moves [OF sh i inst reg st h']
  have "kvdb_has s (Some db) (Some key) \<longleftrightarrow> c_str key = [] \<or> length (c_str key) > 0xffff \<or> f (c_str key) \<noteq> None"
    using map_shape.op_get_law [OF sh i h, of "c_str key" 0] db by (auto simp: kvdb_has_def split: option.splits)
  with m show ?thesis unfolding effect_def by blast
qed

theorem kvdb_delete_has_witness:
  "kvdb_has mem2 (Some \<lparr>db_root = 3, db_ops = kvhash_map_ops mem_build policy1 (mem_api 256)\<rparr>) (Some [0]) \<and>
   \<not> kvdb_has mem2 (Some \<lparr>db_root = 3, db_ops = kvhash_map_ops mem_build policy1 (mem_api 256)\<rparr>) (Some [107, 0])"
proof -
  let ?db = "\<lparr>db_root = 3, db_ops = kvhash_map_ops mem_build policy1 (mem_api 256)\<rparr>"
  note w = kvdb_delete_has [OF memkv.kv_store_axioms mem2_facts(1,2,4) refl, where P = policy1]
  obtain r s' where u: "kvdb_delete mem2 (Some ?db) (Some [0]) = (r, s')" by (rule prod.exhaust)
  obtain q t' where v: "kvdb_delete mem2 (Some ?db) (Some [107, 0]) = (q, t')" by (rule prod.exhaust)
  from w [OF u] w [OF v] show ?thesis by (simp add: c_str_def)
qed

end
