(* ===== verification/Blobfs_Api.thy ===== *)
theory Blobfs_Api
  imports Blobfs_Boot Kvdb_Api
begin

text \<open>
  The properties of blobfs over the hash map, on every object store: paths lead where the name space
  says, each call changes the name space as a whole or not at all, file contents are those last written,
  and a mount after a power cut finds the name space of before or after the call that was cut.
\<close>

section \<open>A configured file system\<close>

text \<open>The Kconfig values: blob_db's build, the inline limits of the map, the registry's capacity and the
  longest name. Files are bounded by a payload, and the directories are hash maps.\<close>

record fs_conf =
  fc_build :: build
  fc_policy :: kv_policy
  fc_roots :: nat
  fc_name_max :: nat

definition fs_on :: "fs_conf \<Rightarrow> 's blob_api \<Rightarrow> 's fs_build" where
  "fs_on C A =
     \<lparr>f_api = A, dir_ops = kvhash_map_ops (fc_build C) (fc_policy C) A, f_roots = fc_roots C,
      BLOBFS_NAME_MAX = fc_name_max C, BLOBFS_FILE_MAX = MAX_PAYLOAD_LEN (fc_build C)\<rparr>"

definition fs_conf_ok :: "fs_conf \<Rightarrow> bool" where
  "fs_conf_ok C \<longleftrightarrow> fc_name_max C \<le> 255 \<and> fc_roots C < 2 ^ 16 \<and> 8 \<le> MAX_BUCKETS (fc_build C)"

lemma fs_on_sel [simp]:
  "f_api (fs_on C A) = A" "dir_ops (fs_on C A) = kvhash_map_ops (fc_build C) (fc_policy C) A" "f_roots (fs_on C A) = fc_roots C"
  "BLOBFS_NAME_MAX (fs_on C A) = fc_name_max C" "BLOBFS_FILE_MAX (fs_on C A) = MAX_PAYLOAD_LEN (fc_build C)"
  by (simp_all add: fs_on_def)

lemma kv_fs_store:
  assumes "kv_store A valid objs nxt (fc_build C)" "fs_conf_ok C"
  shows "fs_store A valid objs nxt (MAX_PAYLOAD_LEN (fc_build C)) (kvhash_map_ops (fc_build C) (fc_policy C) A)
    (kvhash_holds (fc_build C)) (kvhash_ready (fc_build C) nxt) (MAX_BUCKETS (fc_build C)) (fs_on C A)"
proof -
  have "MAX_PAYLOAD_LEN (fc_build C) < 2 ^ 32" using kv_store.payload [OF assms(1)] by (simp add: ENT_LEN_MASK_def)
  then show ?thesis
    using kv_store.kvhash_shape [OF assms(1)] assms(2) by (simp add: fs_store_def fs_store_axioms_def fs_conf_ok_def)
qed

text \<open>The name space a session sees, \<open>G\<close>, and the one it stands for once a rename that could not be
  finished is settled, \<open>N\<close>; they are the same unless such a rename is pending. What a store without a
  session holds is the second.\<close>

definition fs_serves :: "fs_conf \<Rightarrow> 's blob_api \<Rightarrow> (u64 \<Rightarrow> byte list option) \<Rightarrow> fs \<Rightarrow> u64 \<Rightarrow> dirs \<Rightarrow> dirs \<Rightarrow> bool" where
  "fs_serves C A m st root G N \<longleftrightarrow>
     (\<exists>mid Q mt v1. fs_flash (kvhash_holds (fc_build C)) (fs_on C A) m mid G Q mt v1 \<and> fs_session st mid mt v1 \<and>
        settled G mt = N \<and> fm_dir_root mt = root)"

definition fs_durable :: "fs_conf \<Rightarrow> 's blob_api \<Rightarrow> (u64 \<Rightarrow> byte list option) \<Rightarrow> u64 \<Rightarrow> dirs \<Rightarrow> bool" where
  "fs_durable C A m root N \<longleftrightarrow>
     (\<exists>mid G Q mt v1. fs_flash (kvhash_holds (fc_build C)) (fs_on C A) m mid G Q mt v1 \<and> settled G mt = N \<and> fm_dir_root mt = root)"

lemma serves_durable: "fs_serves C A m st root G N \<Longrightarrow> fs_durable C A m root N"
  unfolding fs_serves_def fs_durable_def by blast

lemma servesI:
  assumes "fs_flash (kvhash_holds (fc_build C)) (fs_on C A) m mid G Q mt v1" "fs_session st mid mt v1" "settled G mt = N" "fm_dir_root mt = root"
  shows "fs_serves C A m st root G N"
  using assms unfolding fs_serves_def by blast

lemma durableI:
  assumes "fs_flash (kvhash_holds (fc_build C)) (fs_on C A) m mid G Q mt v1" "settled G mt = N" "fm_dir_root mt = root"
  shows "fs_durable C A m root N"
  using assms unfolding fs_durable_def by blast

lemma serves_quiet: "fs_serves C A m st root G N \<Longrightarrow> \<not> fs_intent_pending st \<Longrightarrow> G = N"
  by (auto simp: fs_serves_def fs_session_def)

lemma settled_files: "file_ids (settled G mt) \<subseteq> file_ids G"
  by (auto simp: file_ids_def settled_def split: if_splits)

lemma serves_files: "fs_serves C A m st root G N \<Longrightarrow> file_ids N \<subseteq> file_ids G"
  using settled_files unfolding fs_serves_def by blast

text \<open>The store matters to none of this: a power cut changes the calls, not the meaning of the flash.\<close>

lemma fs_flash_store: "fs_flash hold (fs_on C A) = fs_flash hold (fs_on C A')"
proof -
  have cn: "check_name (fs_on C A) = check_name (fs_on C A')" by (simp add: check_name_def fun_eq_iff)
  then have "name_fits (fs_on C A) = name_fits (fs_on C A')" by (simp add: name_fits_def fun_eq_iff)
  then show ?thesis by (simp add: fs_flash_def fun_eq_iff registered_def names_ok_def intent_ok_def)
qed

lemma ns_walk_store: "ns_walk (fs_on C A) G d ns sl = ns_walk (fs_on C A') G d ns sl"
proof (induction ns arbitrary: d)
  case (Cons n ns)
  have "check_name (fs_on C A) n = check_name (fs_on C A') n" by (simp add: check_name_def)
  with Cons show ?case by (simp cong: option.case_cong if_cong)
qed simp

lemma ns_store:
  "ns_where (fs_on C A) = ns_where (fs_on C A')" "ns_entry (fs_on C A) = ns_entry (fs_on C A')"
  "ns_rename (fs_on C A) = ns_rename (fs_on C A')"
proof -
  show w: "ns_where (fs_on C A) = ns_where (fs_on C A')" unfolding ns_where_def by (intro ext) (rule ns_walk_store)
  show e: "ns_entry (fs_on C A) = ns_entry (fs_on C A')" by (simp add: fun_eq_iff ns_entry_def w)
  show "ns_rename (fs_on C A) = ns_rename (fs_on C A')" unfolding ns_rename_def w e by (rule refl)
qed

context fs_store
begin

lemma evolve_files:
  assumes "inv s" "flash (objs s) mid G Q mt v1" "fs_evolve W mid s G Q s' G' Q'" "x \<in> file_ids G" "x \<notin> W"
  shows "objs s' x = objs s x"
proof -
  have "x \<noteq> mid" using flashD(6) [OF assms(2)] assms(4) by (auto simp: loose_ok_def)
  with loose_bound [OF assms(1,2), of x] assms(3-5) show ?thesis by (auto simp: fs_evolve_def touch_def)
qed

end

text \<open>Where a new file and a new directory go.\<close>

definition ns_new_file :: "'s fs_build \<Rightarrow> dirs \<Rightarrow> u64 \<Rightarrow> byte list \<Rightarrow> where_to res" where
  "ns_new_file F G root p =
     andthen (ns_where F G root p) (\<lambda>w.
       if w_name w = [] then Inl EISDIR
       else if entry G (w_dir w) (w_name w) \<noteq> None then Inl EEXIST
       else if w_want_dir w then Inl EISDIR else Inr w)"

definition ns_new_dir :: "'s fs_build \<Rightarrow> dirs \<Rightarrow> u64 \<Rightarrow> byte list \<Rightarrow> where_to res" where
  "ns_new_dir F G root p =
     andthen (ns_where F G root p) (\<lambda>w.
       if w_name w = [] \<or> entry G (w_dir w) (w_name w) \<noteq> None then Inl EEXIST else Inr w)"

lemma ns_walk_not_exists: "ns_walk F G d ns sl \<noteq> Inl EEXIST"
  by (induction F G d ns sl rule: ns_walk.induct) (auto simp: check_name_def split: option.splits)

lemma settled_grow:
  assumes "G x = None" "in_flight mt \<Longrightarrow> G (fm_from_dir mt) \<noteq> None"
  shows "settled (G(x \<mapsto> Map.empty)) mt = (settled G mt)(x \<mapsto> Map.empty)"
proof -
  have en: "entry (G(x \<mapsto> Map.empty)) = entry G" using assms(1) by (auto simp: entry_def fun_eq_iff)
  have "fm_from_dir mt \<noteq> x" if "in_flight mt" using assms that by auto
  then show ?thesis by (auto simp: settled_def moving_def en set_entry_def fun_upd_twist)
qed

lemma ns_new_free:
  "ns_new_file F G root p = Inr w \<longleftrightarrow> free_at F G root p w \<and> \<not> w_want_dir w"
  "ns_new_dir F G root p = Inr w \<longleftrightarrow> free_at F G root p w"
  by (auto simp: ns_new_file_def ns_new_dir_def free_at_def andthen_Inr split: if_splits)

context fs_store
begin

lemma create_rejects:
  assumes "inv s" "flash (objs s) mid G Q mt v1" "fs_session st mid mt v1" "ns_new_file F G (fm_dir_root mt) p = Inl e"
  shows "blobfs_create F (st, s) (Some p) = (Inl e, (st, s))"
proof (cases "ns_where F G (fm_dir_root mt) p")
  case (Inl e')
  have "e' \<noteq> EEXIST" using Inl ns_walk_not_exists [of F G "fm_dir_root mt" "path_names p" "path_slash p"] by (auto simp: ns_where_def)
  with free_name_law [OF assms(1-3), of p] assms(4) Inl show ?thesis by (simp add: blobfs_create_def ns_new_file_def)
next
  case (Inr w)
  with free_name_law [OF assms(1-3), of p] assms(4) show ?thesis
    by (auto simp: blobfs_create_def ns_new_file_def split: if_splits)
qed

lemma mkdir_rejects:
  assumes "inv s" "flash (objs s) mid G Q mt v1" "fs_session st mid mt v1" "ns_new_dir F G (fm_dir_root mt) p = Inl e"
  shows "blobfs_mkdir F (st, s) (Some p) = Some (Inl e, (st, s))"
  using free_name_law [OF assms(1-3), of p] assms(4)
  by (auto simp: blobfs_mkdir_def ns_new_dir_def andthen_def split: if_splits sum.splits)

end

section \<open>A file system in memory\<close>

definition conf1 :: fs_conf where
  "conf1 = \<lparr>fc_build = mem_build, fc_policy = policy1, fc_roots = 4, fc_name_max = 15\<rparr>"

text \<open>A registry with one entry, the meta object at id 2 and an empty root directory at id 3.\<close>

definition mem_fs :: mem where
  "mem_fs = ([1 \<mapsto> rr_bytes [(fs_key, 2)], 2 \<mapsto> fs_meta_bytes 15 (new_fs_meta (fs_on conf1 (mem_api 256)) 3), 3 \<mapsto> dir_format 8 1], 4)"

definition session3 :: fs where
  "session3 = \<lparr>fs_mounted = True, fs_meta_v1 = False, fs_intent_pending = False, fs_meta_id = 2, fs_dir_root = 3\<rparr>"

definition empty_space :: dirs where "empty_space = [3 \<mapsto> Map.empty]"

lemma conf1_ok: "fs_conf_ok conf1" "fc_build conf1 = mem_build"
  by (simp_all add: fs_conf_ok_def conf1_def MAX_BUCKETS_def mem_build_def sim_build_def DIR_HDR_LEN_def)

interpretation memfs: fs_store "mem_api 256" "mem_inv 256" fst snd "MAX_PAYLOAD_LEN mem_build" "kvhash_map_ops mem_build policy1 (mem_api 256)"
  "kvhash_holds mem_build" "kvhash_ready mem_build snd" "MAX_BUCKETS mem_build" "fs_on conf1 (mem_api 256)"
proof -
  have "kv_store (mem_api 256) (mem_inv 256) fst snd (fc_build conf1)" using memkv.kv_store_axioms conf1_ok(2) by simp
  from kv_fs_store [OF this conf1_ok(1)] show "fs_store (mem_api 256) (mem_inv 256) fst snd (MAX_PAYLOAD_LEN mem_build) (kvhash_map_ops mem_build policy1 (mem_api 256))
    (kvhash_holds mem_build) (kvhash_ready mem_build snd) (MAX_BUCKETS mem_build) (fs_on conf1 (mem_api 256))" by (simp add: conf1_def)
qed

lemma mem_fs_flash:
  "fs_flash (kvhash_holds mem_build) (fs_on conf1 (mem_api 256)) (fst mem_fs) 2 empty_space (\<lambda>_. {3}) (new_fs_meta (fs_on conf1 (mem_api 256)) 3) False"
  "tree_ok mem_build (fst mem_fs) 3 \<lparr>kt_top = None, kt_leaves = [empty_leaf 8 3]\<rparr>"
proof -
  let ?F = "fs_on conf1 (mem_api 256)" and ?t = "\<lparr>kt_top = None, kt_leaves = [empty_leaf 8 3]\<rparr>"
  have "MAX_BUCKETS mem_build = 31" by (simp add: MAX_BUCKETS_def mem_build_def sim_build_def DIR_HDR_LEN_def)
  then have "leaf_holds mem_build (fst mem_fs) (empty_leaf 8 3)"
    by (intro memkv.empty_leaf_holds) (simp_all add: mem_fs_def)
  moreover have e: "placed mem_build ?t" "tree_map ?t = Map.empty" by (rule empty_placed; auto)+
  ultimately show t: "tree_ok mem_build (fst mem_fs) 3 ?t"
    by (simp add: tree_ok_def tree_holds_def tree_ids_def leaf_ids_def empty_leaf_def)
  have h: "kvhash_holds mem_build (fst mem_fs) 3 {3} Map.empty"
    unfolding kvhash_holds_def using t e(2) by (intro exI [of _ ?t]) (simp add: tree_ids_def leaf_ids_def empty_leaf_def)
  have reg: "registry (f_roots ?F) (fst mem_fs) [(fs_key, 2)]"
    by (simp add: registry_def mem_fs_def BLOB_DB_ROOT_ID_def fs_key_nonzero conf1_def)
  show "fs_flash (kvhash_holds mem_build) ?F (fst mem_fs) 2 empty_space (\<lambda>_. {3}) (new_fs_meta ?F 3) False"
    unfolding empty_space_def by (rule memfs.new_fs_flash(1) [OF reg _ h]) (simp_all add: BLOB_DB_ROOT_ID_def mem_fs_def conf1_def)
qed

lemma session3_ok: "fs_session session3 2 (new_fs_meta F 3) False"
  by (simp add: fs_session_def session3_def new_fs_meta_def in_flight_def)

lemma mem_fs_facts:
  "mem_inv 256 mem_fs" "snd mem_fs = 4" "fs_serves conf1 (mem_api 256) (fst mem_fs) session3 3 empty_space empty_space"
  "kv_store (mem_api 256) (mem_inv 256) fst snd (fc_build conf1)"
proof -
  let ?F = "fs_on conf1 (mem_api 256)"
  have wf: "meta_wf 15 (new_fs_meta ?F 3)" by (simp add: meta_wf_def new_fs_meta_def conf1_def)
  show "kv_store (mem_api 256) (mem_inv 256) fst snd (fc_build conf1)" using memkv.kv_store_axioms conf1_ok(2) by simp
  show "snd mem_fs = 4" by (simp add: mem_fs_def)
  show "mem_inv 256 mem_fs"
    by (auto simp: mem_inv_def mem_fs_def dir_format_def rr_bytes_def RR_MAGIC_def meta_roundtrip_fs(2) [OF wf] META_SIZE_def meta_pad_def split: if_splits)
  have "fs_flash (kvhash_holds (fc_build conf1)) ?F (fst mem_fs) 2 empty_space (\<lambda>_. {3}) (new_fs_meta ?F 3) False"
    using mem_fs_flash(1) by (simp add: conf1_ok(2))
  then show "fs_serves conf1 (mem_api 256) (fst mem_fs) session3 3 empty_space empty_space"
    by (rule servesI [OF _ session3_ok]) (simp_all add: new_fs_meta_def in_flight_def)
qed

text \<open>A set of a short key in an empty map succeeds in memory, so the file system above can hold a file.\<close>

lemma mem_set_ok:
  assumes i: "mem_inv 256 m" and t: "tree_ok mem_build (fst m) root t" "t = \<lparr>kt_top = None, kt_leaves = [empty_leaf 8 root]\<rparr>"
    and k: "length key = 1" "length v = 16" "snd m < 100" "root \<noteq> 0" "unat root < snd m"
  shows "fst (kvhash_set mem_build policy1 (mem_api 256) m root key (Some v) 16) = Inr ()"
proof -
  let ?h = "key_hash mem_build key" and ?lf = "the_leaf t (key_hash mem_build key)"
  note p = memkv.key_place(1,2) [OF i t(1), of ?h]
  have lf: "?lf = empty_leaf 8 root" by (simp add: the_leaf_def leaf_ix_def t(2))
  have "bkt_ix t ?h < 8" using idx_less(2) [of 8 ?h] lf by (simp add: bkt_ix_def empty_leaf_def)
  then have c: "the_child t ?h = 0" by (simp add: the_child_def lf empty_leaf_def)
  have pol: "\<not> key_inline_max policy1 < 1" "\<not> val_inline_max policy1 < 16" by (simp_all add: policy1_def kvhash_set_inline_max_def ENT_LEN_MASK_def)
  have M: "MAX_PAYLOAD_LEN mem_build = 256" by (simp add: mem_build_def sim_build_def)
  have dl: "dn (memkv.leaf_dir (empty_leaf 8 root)) = 8" by (simp add: empty_leaf_def)
  have ne: "key \<noteq> []" using k(1) by auto
  have u: "unat (word_of_nat (snd m) :: u64) = snd m" using k(3) by (simp add: unat_of_nat)
  then have u0: "(word_of_nat (snd m) :: u64) \<noteq> 0" using k(5) by auto
  have "length (entry_bytes key v False False (hash_fp ?h) 0 0) = 21" using k by (simp add: entry_bytes_def)
  then show ?thesis
    using p pol M k ne unfolding kvhash_set_def Let_def
    by (simp add: u u0 c lf ENT_LEN_MASK_def set_at_def set_lookup_def set_new_def Let_def c_bytes_def ENTRY_HDR_LEN_def set_commit_def
        mem_api_def kv_update_def set_publish_def dl dir_len_def DIR_HDR_LEN_def del: memkv.leaf_dir_sel)
qed

text \<open>With one file in it, empty, under the name of one letter.\<close>

definition one_file :: "u64 \<Rightarrow> dirs" where
  "one_file x = set_entry empty_space 3 [97] (Some (new_dirent BLOBFS_TYPE_FILE x))"

lemma mem_fs_file:
  "\<exists>s x. mem_inv 256 s \<and> snd s \<le> 8 \<and> fst s x = Some [] \<and> fs_serves conf1 (mem_api 256) (fst s) session3 3 (one_file x) (one_file x)"
proof -
  let ?F = "fs_on conf1 (mem_api 256)" and ?t = "\<lparr>kt_top = None, kt_leaves = [empty_leaf 8 3]\<rparr>"
  let ?m = "((fst mem_fs)(4 \<mapsto> []), 5) :: mem"
  note fl = mem_fs_flash(1) and ses = session3_ok [of ?F]
  have lim: "snd mem_fs + 4 \<le> ID_LIMIT" by (simp add: mem_fs_facts(2) ID_LIMIT_def)
  have fr: "free_at ?F empty_space 3 [97] \<lparr>w_dir = 3, w_name = [97], w_want_dir = False\<rparr>"
    by (simp add: free_at_def ns_where_def path_names_def path_slash_def c_str_def check_name_def entry_def empty_space_def SLASH_def DOT_def conf1_def)
  obtain r st' s' where run: "blobfs_create ?F (session3, mem_fs) (Some [97]) = (r, (st', s'))" by (rule prod_cases3)
  have ok: "tree_ok mem_build (fst ?m) 3 ?t"
    by (rule tree_ok_frame [OF _ mem_fs_flash(2)]) (simp add: tree_ids_def leaf_ids_def empty_leaf_def)
  have i: "mem_inv 256 ?m" using mem_fs_facts(1) by (auto simp: mem_inv_def mem_fs_def split: if_splits)
  have set: "fst (kvhash_set mem_build policy1 (mem_api 256) ?m 3 [97] (Some (dirent_bytes (new_dirent BLOBFS_TYPE_FILE 4))) 16) = Inr ()"
    by (rule mem_set_ok [OF i ok refl]) (simp_all add: DIRENT_SIZE_def)
  have "walk_to_free_name ?F session3 mem_fs (Some [97]) = (\<lparr>w_dir = 3, w_name = [97], w_want_dir = False\<rparr>, Inr ())"
    using memfs.free_name_law [OF mem_fs_facts(1) fl ses, of "[97]"] fr by (simp add: free_at_def new_fs_meta_def)
  then have "r = Inr ()" using run set
    by (auto simp: blobfs_create_def mem_api_def mem_fs_facts(2) kvhash_map_ops_def DIRENT_SIZE_def conf1_def split: prod.splits)
  with memfs.create_law [OF mem_fs_facts(1) fl ses lim run] fr obtain G' Q' x where
    q: "memfs.fs_evolve {} 2 mem_fs empty_space (\<lambda>_. {3}) s' G' Q'" "fs_flash (kvhash_holds mem_build) ?F (fst s') 2 G' Q' (new_fs_meta ?F 3) False"
      "snd s' \<le> snd mem_fs + 4" "G' = one_file x" "fst s' x = Some []"
    by (auto simp: free_at_def one_file_def new_fs_meta_def)
  have "fs_serves conf1 (mem_api 256) (fst s') session3 3 (one_file x) (one_file x)"
    using q(2) unfolding q(4) conf1_ok(2) [symmetric]
    by (rule servesI [OF _ session3_ok]) (simp_all add: new_fs_meta_def in_flight_def)
  moreover have "mem_inv 256 s'" using memfs.evolve_inv [OF q(1)] by blast
  ultimately show ?thesis using q(3,5) mem_fs_facts(2) by (intro exI [of _ s'] exI [of _ x]) simp
qed

section \<open>Paths\<close>

text \<open>C25. Every call that takes a path goes where the names on it lead, runs of slashes collapsed, with
  the error of the first name that is too long, missing, reserved or not a directory: the body of the
  file for lookup, type and size for stat, the directory for opendir and the bytes of the file for read.
  The root directory is a directory to stat and opendir and an error to lookup and read.\<close>

theorem blobfs_paths_exact:
  assumes ks: "kv_store A valid objs nxt (fc_build C)" and C: "fs_conf_ok C" and i: "valid s"
    and fs: "fs_serves C A (objs s) st root G N"
  shows "blobfs_lookup (fs_on C A) (st, s) (Some p) False = ns_file (fs_on C A) G root p \<and>
    blobfs_stat (fs_on C A) (st, s) (Some p) False =
      (if ns_entry (fs_on C A) G root p = Inl EISDIR then Inr \<lparr>st_type = BLOBFS_ENTRY_DIR, st_size = 0\<rparr>
       else andthen (ns_entry (fs_on C A) G root p) (\<lambda>de.
         if is_dir de then Inr \<lparr>st_type = BLOBFS_ENTRY_DIR, st_size = 0\<rparr>
         else Inr \<lparr>st_type = BLOBFS_ENTRY_FILE, st_size = length (the (objs s (de_body_id de)))\<rparr>)) \<and>
    blobfs_opendir (fs_on C A) (st, s) (Some p) False =
      (if ns_entry (fs_on C A) G root p = Inl EISDIR then Inr root
       else andthen (ns_entry (fs_on C A) G root p) (\<lambda>de. if is_dir de then Inr (de_body_id de) else Inl ENOTDIR)) \<and>
    blobfs_read (fs_on C A) (st, s) (Some p) off False n False =
      andthen (ns_file (fs_on C A) G root p) (\<lambda>x. Inr (take n (drop off (the (objs s x)))))"
proof -
  note sh = kv_fs_store [OF ks C]
  from fs obtain mid Q mt v1 where fl: "fs_flash (kvhash_holds (fc_build C)) (fs_on C A) (objs s) mid G Q mt v1"
    and st: "fs_session st mid mt v1" and r: "fm_dir_root mt = root" unfolding fs_serves_def by blast
  show ?thesis
    using fs_store.lookup_law [OF sh i fl st, of p] fs_store.stat_law [OF sh i fl st, of p]
      fs_store.opendir_law [OF sh i fl st, of p] fs_store.file_read_law [OF sh i fl st, of p off n] unfolding r by blast
qed

theorem blobfs_paths_exact_witness:
  "blobfs_opendir (fs_on conf1 (mem_api 256)) (session3, mem_fs) (Some [SLASH, SLASH, 0]) False = Inr 3 \<and>
   blobfs_lookup (fs_on conf1 (mem_api 256)) (session3, mem_fs) (Some [SLASH, 97, 0]) False = Inl ENOENT"
proof -
  let ?F = "fs_on conf1 (mem_api 256)"
  have "ns_entry ?F empty_space 3 [SLASH, SLASH, 0] = Inl EISDIR"
    by (simp add: ns_entry_def ns_where_def path_names_def)
  moreover have "ns_file ?F empty_space 3 [SLASH, 97, 0] = Inl ENOENT"
    by (simp add: ns_file_def ns_entry_def ns_where_def path_names_def check_name_def entry_def empty_space_def SLASH_def DOT_def conf1_def)
  ultimately show ?thesis
    using blobfs_paths_exact [OF mem_fs_facts(4) conf1_ok(1) mem_fs_facts(1,3), of "[SLASH, SLASH, 0]"]
      blobfs_paths_exact [OF mem_fs_facts(4) conf1_ok(1) mem_fs_facts(1,3), of "[SLASH, 97, 0]"] by simp
qed

section \<open>New entries\<close>

text \<open>C26. A create adds an empty file under the name, with a body no one had before, or fails and leaves
  the name space as it was, whatever call of the store failed; a path that names something else is
  refused with its error and nothing is written. Every other file keeps its contents.\<close>

theorem blobfs_create_all_or_nothing:
  assumes ks: "kv_store A valid objs nxt (fc_build C)" and C: "fs_conf_ok C" and i: "valid s" "nxt s + 4 \<le> ID_LIMIT"
    and fs: "fs_serves C A (objs s) st root G N"
    and run: "blobfs_create (fs_on C A) (st, s) (Some p) = (r, (st', s'))"
  shows "st' = st \<and> valid s' \<and> (\<forall>x \<in> file_ids G. objs s' x = objs s x) \<and>
    (case ns_new_file (fs_on C A) G root p of
       Inl e \<Rightarrow> r = Inl e \<and> s' = s
     | Inr w \<Rightarrow>
         (case r of
            Inl _ \<Rightarrow> fs_serves C A (objs s') st root G N
          | Inr _ \<Rightarrow> \<exists>x. objs s x = None \<and> objs s' x = Some [] \<and>
              fs_serves C A (objs s') st root (set_entry G (w_dir w) (w_name w) (Some (new_dirent BLOBFS_TYPE_FILE x)))
                (set_entry N (w_dir w) (w_name w) (Some (new_dirent BLOBFS_TYPE_FILE x)))))"
proof -
  note sh = kv_fs_store [OF ks C]
  let ?F = "fs_on C A"
  from fs obtain mid Q mt v1 where fl: "fs_flash (kvhash_holds (fc_build C)) ?F (objs s) mid G Q mt v1"
    and st: "fs_session st mid mt v1" and N: "settled G mt = N" and root: "fm_dir_root mt = root" unfolding fs_serves_def by blast
  from fs_store.create_law [OF sh i(1) fl st i(2) run] obtain G' Q' where q: "st' = st" "fs_store.fs_evolve valid objs nxt {} mid s G Q s' G' Q'"
    "fs_flash (kvhash_holds (fc_build C)) ?F (objs s') mid G' Q' mt v1"
    "case r of Inl _ \<Rightarrow> G' = G
     | Inr _ \<Rightarrow> \<exists>w x. free_at ?F G root p w \<and> \<not> w_want_dir w \<and> nxt s \<le> unat x \<and>
         G' = set_entry G (w_dir w) (w_name w) (Some (new_dirent BLOBFS_TYPE_FILE x)) \<and> objs s' x = Some []" unfolding root by blast
  note st' = st [folded q(1)]
  have keep: "valid s'" "\<forall>x \<in> file_ids G. objs s' x = objs s x"
    using fs_store.evolve_inv [OF sh q(2)] fs_store.evolve_files [OF sh i(1) fl q(2)] by blast+
  have "case ns_new_file ?F G root p of Inl e \<Rightarrow> r = Inl e \<and> s' = s | Inr w \<Rightarrow>
      (case r of Inl _ \<Rightarrow> fs_serves C A (objs s') st root G N
       | Inr _ \<Rightarrow> \<exists>x. objs s x = None \<and> objs s' x = Some [] \<and>
           fs_serves C A (objs s') st root (set_entry G (w_dir w) (w_name w) (Some (new_dirent BLOBFS_TYPE_FILE x)))
             (set_entry N (w_dir w) (w_name w) (Some (new_dirent BLOBFS_TYPE_FILE x))))"
  proof (cases "ns_new_file ?F G root p")
    case (Inl e)
    with fs_store.create_rejects [OF sh i(1) fl st, unfolded root] run show ?thesis by simp
  next
    case new: (Inr w)
    show ?thesis
    proof (cases r)
      case (Inl e)
      with new q st N root show ?thesis by (auto intro: servesI)
    next
      case (Inr u)
      then obtain x where x: "nxt s \<le> unat x" "objs s' x = Some []" "G' = set_entry G (w_dir w) (w_name w) (Some (new_dirent BLOBFS_TYPE_FILE x))"
        using q(4) new by (auto simp: ns_new_free(1) free_at_def)
      have free: "entry G (w_dir w) (w_name w) = None" using new by (simp add: ns_new_free(1) free_at_def)
      note apart = fs_store.fresh_apart [OF sh i(1) fl x(1)]
      have N': "settled G' mt = set_entry N (w_dir w) (w_name w) (Some (new_dirent BLOBFS_TYPE_FILE x))"
        unfolding x(3) N [symmetric]
        by (rule fs_store.settled_put [OF sh free]) (use apart(7) names_intent(5,6) [OF fs_store.flashD(7) [OF sh fl]] in auto)
      have "objs s x = None" using object_store.objs_fresh [OF kv_store.axioms(1) [OF ks] i(1) x(1)] .
      moreover have "fs_serves C A (objs s') st root G' (set_entry N (w_dir w) (w_name w) (Some (new_dirent BLOBFS_TYPE_FILE x)))"
        by (rule servesI [OF q(3) st N' root])
      ultimately show ?thesis using new Inr x(2) unfolding x(3) by auto
    qed
  qed
  with q(1) keep show ?thesis by blast
qed

theorem blobfs_create_all_or_nothing_witness:
  "\<exists>r s'. blobfs_create (fs_on conf1 (mem_api 256)) (session3, mem_fs) (Some [SLASH, 97, 0]) = (r, (session3, s')) \<and> mem_inv 256 s' \<and>
     (\<exists>G. fs_serves conf1 (mem_api 256) (fst s') session3 3 G G \<and> (r = Inr () \<longrightarrow> (\<exists>x. entry G 3 [97] = Some (new_dirent BLOBFS_TYPE_FILE x))))"
proof -
  let ?F = "fs_on conf1 (mem_api 256)"
  obtain r st' s' where u: "blobfs_create ?F (session3, mem_fs) (Some [SLASH, 97, 0]) = (r, (st', s'))" by (rule prod_cases3)
  have n: "ns_new_file ?F empty_space 3 [SLASH, 97, 0] = Inr \<lparr>w_dir = 3, w_name = [97], w_want_dir = False\<rparr>"
    by (simp add: ns_new_file_def ns_where_def path_names_def path_slash_def c_str_def check_name_def entry_def empty_space_def SLASH_def DOT_def conf1_def)
  have "snd mem_fs + 4 \<le> ID_LIMIT" by (simp add: mem_fs_facts(2) ID_LIMIT_def)
  from blobfs_create_all_or_nothing [OF mem_fs_facts(4) conf1_ok(1) mem_fs_facts(1) this mem_fs_facts(3) u] u n show ?thesis
    by (cases r) fastforce+
qed

text \<open>C27. A mkdir returns; it adds an empty directory under the name, at an id no one had before, or
  fails and leaves the name space as it was. Where the name goes is checked before anything is
  written.\<close>

theorem blobfs_mkdir_all_or_nothing:
  assumes ks: "kv_store A valid objs nxt (fc_build C)" and C: "fs_conf_ok C"
    and i: "valid s" "nxt s + 4 + MAX_BUCKETS (fc_build C) \<le> ID_LIMIT" and fs: "fs_serves C A (objs s) st root G N"
  shows "\<exists>r st' s'. blobfs_mkdir (fs_on C A) (st, s) (Some p) = Some (r, (st', s')) \<and> valid s' \<and> (\<forall>x \<in> file_ids G. objs s' x = objs s x) \<and>
    (case ns_new_dir (fs_on C A) G root p of
       Inl e \<Rightarrow> r = Inl e \<and> st' = st \<and> s' = s
     | Inr w \<Rightarrow>
         (case r of
            Inl _ \<Rightarrow> fs_serves C A (objs s') st' root G N
          | Inr _ \<Rightarrow> \<exists>x. objs s x = None \<and>
              fs_serves C A (objs s') st' root (set_entry (G(x \<mapsto> Map.empty)) (w_dir w) (w_name w) (Some (new_dirent BLOBFS_TYPE_DIR x)))
                (set_entry (N(x \<mapsto> Map.empty)) (w_dir w) (w_name w) (Some (new_dirent BLOBFS_TYPE_DIR x)))))"
proof -
  note sh = kv_fs_store [OF ks C]
  let ?F = "fs_on C A"
  from fs obtain mid Q mt v1 where fl: "fs_flash (kvhash_holds (fc_build C)) ?F (objs s) mid G Q mt v1"
    and st: "fs_session st mid mt v1" and N: "settled G mt = N" and root: "fm_dir_root mt = root" unfolding fs_serves_def by blast
  have rd: "fs_store.mkdir_ready valid nxt (kvhash_ready (fc_build C) nxt) (MAX_BUCKETS (fc_build C)) ?F s"
    using i(2) C by (simp add: fs_store.mkdir_ready_def [OF sh] kvhash_ready_def fs_conf_ok_def dir_config_def cfg_entries_def)
  from fs_store.mkdir_law [OF sh i(1) fl st rd, of p] obtain r st' s' G' Q' v1' where
    q: "blobfs_mkdir ?F (st, s) (Some p) = Some (r, (st', s'))" "fs_session st' mid mt v1'" "fs_store.fs_evolve valid objs nxt {} mid s G Q s' G' Q'"
    "fs_flash (kvhash_holds (fc_build C)) ?F (objs s') mid G' Q' mt v1'"
    "case r of Inl _ \<Rightarrow> G' = G
     | Inr _ \<Rightarrow> \<exists>w x. free_at ?F G root p w \<and> nxt s \<le> unat x \<and>
         G' = set_entry (G(x \<mapsto> Map.empty)) (w_dir w) (w_name w) (Some (new_dirent BLOBFS_TYPE_DIR x))" unfolding root by blast
  have keep: "valid s'" "\<forall>x \<in> file_ids G. objs s' x = objs s x"
    using fs_store.evolve_inv [OF sh q(3)] fs_store.evolve_files [OF sh i(1) fl q(3)] by blast+
  have "case ns_new_dir ?F G root p of Inl e \<Rightarrow> r = Inl e \<and> st' = st \<and> s' = s | Inr w \<Rightarrow>
      (case r of Inl _ \<Rightarrow> fs_serves C A (objs s') st' root G N
       | Inr _ \<Rightarrow> \<exists>x. objs s x = None \<and>
           fs_serves C A (objs s') st' root (set_entry (G(x \<mapsto> Map.empty)) (w_dir w) (w_name w) (Some (new_dirent BLOBFS_TYPE_DIR x)))
             (set_entry (N(x \<mapsto> Map.empty)) (w_dir w) (w_name w) (Some (new_dirent BLOBFS_TYPE_DIR x))))"
  proof (cases "ns_new_dir ?F G root p")
    case (Inl e)
    with fs_store.mkdir_rejects [OF sh i(1) fl st, unfolded root] q(1) show ?thesis by simp
  next
    case new: (Inr w)
    show ?thesis
    proof (cases r)
      case (Inl e)
      with new q N root show ?thesis by (auto intro: servesI)
    next
      case (Inr u)
      let ?de = "new_dirent BLOBFS_TYPE_DIR"
      from Inr obtain x where x: "nxt s \<le> unat x" "G' = set_entry (G(x \<mapsto> Map.empty)) (w_dir w) (w_name w) (Some (?de x))"
        using q(5) new by (auto simp: ns_new_free(2) free_at_def)
      note apart = fs_store.fresh_apart [OF sh i(1) fl x(1)] and it = names_intent [OF fs_store.flashD(7) [OF sh fl]]
      have en: "entry (G(x \<mapsto> Map.empty)) = entry G" using apart(6) by (auto simp: entry_def fun_eq_iff)
      have free: "entry (G(x \<mapsto> Map.empty)) (w_dir w) (w_name w) = None" using new by (simp add: en ns_new_free(2) free_at_def)
      have "settled G' mt = set_entry (settled (G(x \<mapsto> Map.empty)) mt) (w_dir w) (w_name w) (Some (?de x))"
        unfolding x(2) by (rule fs_store.settled_put [OF sh free]) (use apart(7) it(5,6) in \<open>auto simp: en\<close>)
      also have "settled (G(x \<mapsto> Map.empty)) mt = N(x \<mapsto> Map.empty)"
        unfolding N [symmetric] by (rule settled_grow) (use apart(6) it(8) in auto)
      finally have "fs_serves C A (objs s') st' root G' (set_entry (N(x \<mapsto> Map.empty)) (w_dir w) (w_name w) (Some (?de x)))"
        by (rule servesI [OF q(4,2) _ root])
      moreover have "objs s x = None" using object_store.objs_fresh [OF kv_store.axioms(1) [OF ks] i(1) x(1)] .
      ultimately show ?thesis using new Inr unfolding x(2) by auto
    qed
  qed
  with q(1) keep show ?thesis by blast
qed

theorem blobfs_mkdir_all_or_nothing_witness:
  "\<exists>r st' s'. blobfs_mkdir (fs_on conf1 (mem_api 256)) (session3, mem_fs) (Some [100]) = Some (r, (st', s')) \<and> mem_inv 256 s' \<and>
     (\<exists>G. fs_serves conf1 (mem_api 256) (fst s') st' 3 G G \<and>
        (r = Inr () \<longrightarrow> (\<exists>x. entry G 3 [100] = Some (new_dirent BLOBFS_TYPE_DIR x) \<and> G x \<noteq> None)))"
proof -
  let ?F = "fs_on conf1 (mem_api 256)"
  have n: "ns_new_dir ?F empty_space 3 [100] = Inr \<lparr>w_dir = 3, w_name = [100], w_want_dir = False\<rparr>"
    by (simp add: ns_new_dir_def ns_where_def path_names_def path_slash_def c_str_def check_name_def entry_def empty_space_def SLASH_def DOT_def conf1_def)
  have "MAX_BUCKETS (fc_build conf1) = 31" by (simp add: conf1_def MAX_BUCKETS_def mem_build_def sim_build_def DIR_HDR_LEN_def)
  then have "snd mem_fs + 4 + MAX_BUCKETS (fc_build conf1) \<le> ID_LIMIT" by (simp add: mem_fs_facts(2) ID_LIMIT_def)
  from blobfs_mkdir_all_or_nothing [OF mem_fs_facts(4) conf1_ok(1) mem_fs_facts(1) this mem_fs_facts(3), of "[100]", unfolded n sum.case where_to.select_convs]
  obtain r st' s' where u: "blobfs_mkdir ?F (session3, mem_fs) (Some [100]) = Some (r, (st', s'))" "mem_inv 256 s'"
    "case r of Inl _ \<Rightarrow> fs_serves conf1 (mem_api 256) (fst s') st' 3 empty_space empty_space
     | Inr _ \<Rightarrow> \<exists>x. fst mem_fs x = None \<and>
        fs_serves conf1 (mem_api 256) (fst s') st' 3 (set_entry (empty_space(x \<mapsto> Map.empty)) 3 [100] (Some (new_dirent BLOBFS_TYPE_DIR x)))
          (set_entry (empty_space(x \<mapsto> Map.empty)) 3 [100] (Some (new_dirent BLOBFS_TYPE_DIR x)))" by (elim exE conjE) (rule that)
  have x: "entry (set_entry (empty_space(x \<mapsto> Map.empty)) 3 [100] (Some (new_dirent BLOBFS_TYPE_DIR x))) 3 [100] = Some (new_dirent BLOBFS_TYPE_DIR x)"
    "set_entry (empty_space(x \<mapsto> Map.empty)) 3 [100] (Some (new_dirent BLOBFS_TYPE_DIR x)) x \<noteq> None" for x by simp_all
  show ?thesis
  proof (cases r)
    case (Inl e)
    with u show ?thesis by auto
  next
    case (Inr y)
    with u(3) obtain x' where "fs_serves conf1 (mem_api 256) (fst s') st' 3 (set_entry (empty_space(x' \<mapsto> Map.empty)) 3 [100] (Some (new_dirent BLOBFS_TYPE_DIR x')))
          (set_entry (empty_space(x' \<mapsto> Map.empty)) 3 [100] (Some (new_dirent BLOBFS_TYPE_DIR x')))" by auto
    with u(1,2) x [of x'] show ?thesis by blast
  qed
qed

section \<open>Removing entries\<close>



section \<open>File contents\<close>

text \<open>C29. A write replaces its range of the file a path names, zeros filling a gap before it, and a
  truncate cuts the file or extends it with zeros; what is read back afterwards is exactly that. A
  result longer than a payload is refused. No other object changes, and a call that fails changes none.\<close>

theorem blobfs_write_truncate_read:
  assumes ks: "kv_store A valid objs nxt (fc_build C)" and C: "fs_conf_ok C" and i: "valid s"
    and fs: "fs_serves C A (objs s) st root G N" and f: "ns_file (fs_on C A) G root p = Inr x"
    and w: "len \<le> length b" "blobfs_write (fs_on C A) (st, s) (Some p) off (Some b) len = (r, (st1, s1))"
    and t: "blobfs_truncate (fs_on C A) (st, s) (Some p) sz = (q, (st2, s2))"
  shows "\<exists>c. objs s x = Some c \<and>
    st1 = st \<and> valid s1 \<and> fs_serves C A (objs s1) st root G N \<and> (\<forall>y. y \<noteq> x \<longrightarrow> objs s1 y = objs s y) \<and>
    blobfs_read (fs_on C A) (st, s1) (Some p) off' False n False =
      Inr (take n (drop off' (case r of Inl _ \<Rightarrow> c | Inr _ \<Rightarrow> if len = 0 then c else write_over c off (take len b)))) \<and>
    (0 < len \<and> MAX_PAYLOAD_LEN (fc_build C) < off + len \<longrightarrow> r = Inl ENOSPC) \<and>
    st2 = st \<and> valid s2 \<and> fs_serves C A (objs s2) st root G N \<and> (\<forall>y. y \<noteq> x \<longrightarrow> objs s2 y = objs s y) \<and>
    blobfs_read (fs_on C A) (st, s2) (Some p) off' False n False =
      Inr (take n (drop off' (case q of Inl _ \<Rightarrow> c | Inr _ \<Rightarrow> resize c sz))) \<and>
    (MAX_PAYLOAD_LEN (fc_build C) < sz \<longrightarrow> q = Inl ENOSPC)"
proof -
  note sh = kv_fs_store [OF ks C]
  let ?F = "fs_on C A"
  from fs obtain mid Q mt v1 where fl: "fs_flash (kvhash_holds (fc_build C)) ?F (objs s) mid G Q mt v1"
    and st: "fs_session st mid mt v1" and N: "settled G mt = N" and root: "fm_dir_root mt = root" unfolding fs_serves_def by blast
  from fs_store.file_write_law [OF sh i fl st w, unfolded root f sum.case fs_on_sel] obtain c where
    c: "objs s x = Some c" "st1 = st" "valid s1" "fs_flash (kvhash_holds (fc_build C)) ?F (objs s1) mid G Q mt v1"
      "objs s1 = effect r ((objs s)(x \<mapsto> if len = 0 then c else write_over c off (take len b))) (objs s)"
      "0 < len \<and> MAX_PAYLOAD_LEN (fc_build C) < off + len \<longrightarrow> r = Inl ENOSPC" by blast
  from fs_store.file_truncate_law [OF sh i fl st t, unfolded root f sum.case fs_on_sel] c(1) have
    d: "st2 = st" "valid s2" "fs_flash (kvhash_holds (fc_build C)) ?F (objs s2) mid G Q mt v1"
      "objs s2 = effect q ((objs s)(x \<mapsto> resize c sz)) (objs s)" "MAX_PAYLOAD_LEN (fc_build C) < sz \<longrightarrow> q = Inl ENOSPC" by auto
  note rd = fs_store.file_read_law [OF sh c(3,4) st, of p off' n, unfolded root f] fs_store.file_read_law [OF sh d(2,3) st, of p off' n, unfolded root f]
  have "objs s1 x = Some (case r of Inl _ \<Rightarrow> c | Inr _ \<Rightarrow> if len = 0 then c else write_over c off (take len b))"
    "objs s2 x = Some (case q of Inl _ \<Rightarrow> c | Inr _ \<Rightarrow> resize c sz)" using c(1,5) d(4) by (cases r; cases q; simp)+
  moreover have "\<forall>y. y \<noteq> x \<longrightarrow> objs s1 y = objs s y" "\<forall>y. y \<noteq> x \<longrightarrow> objs s2 y = objs s y" using c(5) d(4) by (cases r; cases q; simp)+
  moreover have "fs_serves C A (objs s1) st root G N" "fs_serves C A (objs s2) st root G N"
    using servesI [OF c(4) st N root] servesI [OF d(3) st N root] by blast+
  ultimately show ?thesis using c d rd by simp
qed

theorem blobfs_write_truncate_read_witness:
  "\<exists>s x r s1 q s2. fs_serves conf1 (mem_api 256) (fst s) session3 3 (one_file x) (one_file x) \<and>
     blobfs_write (fs_on conf1 (mem_api 256)) (session3, s) (Some [97]) 2 (Some [7, 9]) 1 = (r, (session3, s1)) \<and>
     blobfs_read (fs_on conf1 (mem_api 256)) (session3, s1) (Some [97]) 0 False 10 False = Inr (case r of Inl _ \<Rightarrow> [] | Inr _ \<Rightarrow> [0, 0, 7]) \<and>
     blobfs_truncate (fs_on conf1 (mem_api 256)) (session3, s) (Some [97]) 300 = (q, (session3, s2)) \<and> q = Inl ENOSPC"
proof -
  let ?F = "fs_on conf1 (mem_api 256)"
  obtain s x where s: "mem_inv 256 s" "fst s x = Some []" "fs_serves conf1 (mem_api 256) (fst s) session3 3 (one_file x) (one_file x)" using mem_fs_file by blast
  obtain r st1 s1 where w: "blobfs_write ?F (session3, s) (Some [97]) 2 (Some [7, 9]) 1 = (r, (st1, s1))" by (rule prod_cases3)
  obtain q st2 s2 where t: "blobfs_truncate ?F (session3, s) (Some [97]) 300 = (q, (st2, s2))" by (rule prod_cases3)
  have f: "ns_file ?F (one_file x) 3 [97] = Inr x"
    by (simp add: ns_file_def ns_entry_def ns_where_def path_names_def path_slash_def c_str_def check_name_def one_file_def SLASH_def DOT_def conf1_def)
  have e: "take 10 (drop 0 (write_over [] 2 (take 1 [7, 9]))) = [0, 0, 7 :: byte]" by (simp add: write_over_def splice_def numeral_eq_Suc)
  have M: "MAX_PAYLOAD_LEN (fc_build conf1) = 256" by (simp add: conf1_def mem_build_def sim_build_def)
  have "1 \<le> length [7, 9 :: byte]" by simp
  from blobfs_write_truncate_read [OF mem_fs_facts(4) conf1_ok(1) s(1,3) f this w t, of 0 10, unfolded s(2) M] s(2,3) w t e show ?thesis
    by (intro exI [of _ s] exI [of _ x] exI [of _ r] exI [of _ s1] exI [of _ q] exI [of _ s2]) (cases r; simp)
qed

end
