(* ===== verification/Blobfs_Crash.thy ===== *)
theory Blobfs_Crash
  imports Blobfs_Api
begin

text \<open>
  What blobfs promises across mounts and power cuts. A power cut is a cut store (\<open>cut_api\<close>): the calls run
  on it until its budget of writes is spent, and a reboot forgets the session and nothing else.
\<close>

lemma cut_kv:
  assumes "kv_store A valid objs nxt B"
  shows "kv_store (cut_api A) (\<lambda>t. valid (fst t)) (\<lambda>t. objs (fst t)) (\<lambda>t. nxt (fst t)) B"
  using assms object_store.cut_object_store [of A valid objs nxt "MAX_PAYLOAD_LEN B"] by (simp add: kv_store_def kv_store_axioms_def)

section \<open>Mounting\<close>

lemma mount_durable:
  assumes ks: "kv_store A valid objs nxt (fc_build C)" and C: "fs_conf_ok C" and i: "valid s" "nxt s < ID_LIMIT"
    and d: "fs_durable C A (objs s) root N" and u: "\<not> fs_mounted st"
  shows "\<exists>r st' s'. blobfs_mount (fs_on C A) (st, s) = Some (r, (st', s')) \<and> valid s' \<and> nxt s' = nxt s \<and>
    (\<forall>x \<in> file_ids N. objs s' x = objs s x) \<and> \<not> fs_intent_pending st' \<and>
    (case r of Inl _ \<Rightarrow> \<not> fs_mounted st' \<and> fs_durable C A (objs s') root N | Inr _ \<Rightarrow> fs_serves C A (objs s') st' root N N)"
proof -
  note sh = kv_fs_store [OF ks C]
  let ?F = "fs_on C A"
  from d obtain mid G Q mt v1 where fl: "fs_flash (kvhash_holds (fc_build C)) ?F (objs s) mid G Q mt v1"
    and N: "settled G mt = N" and root: "fm_dir_root mt = root" unfolding fs_durable_def by blast
  from fs_store.mount_found [OF sh i fl u, unfolded N root] obtain r st' s' G' Q' mt' v1' where
    q: "blobfs_mount ?F (st, s) = Some (r, (st', s'))" "fs_store.fs_evolve valid objs nxt {} mid s G Q s' G' Q'" "nxt s' = nxt s"
      "fs_store.stands objs (kvhash_holds (fc_build C)) ?F s' mid N root G' Q' mt' v1'" "\<not> fs_intent_pending st'"
      "case r of Inl _ \<Rightarrow> \<not> fs_mounted st' | Inr _ \<Rightarrow> \<not> in_flight mt' \<and> fs_session st' mid mt' v1'" by (elim exE conjE) (rule that)
  have f: "fs_flash (kvhash_holds (fc_build C)) ?F (objs s') mid G' Q' mt' v1'" "settled G' mt' = N" "fm_dir_root mt' = root"
    using q(4) by (simp_all add: fs_store.stands_def [OF sh])
  have "valid s'" "\<forall>x \<in> file_ids N. objs s' x = objs s x"
    using fs_store.evolve_inv [OF sh q(2)] fs_store.evolve_files [OF sh i(1) fl q(2)] settled_files [of G mt] N by blast+
  moreover have "case r of Inl _ \<Rightarrow> \<not> fs_mounted st' \<and> fs_durable C A (objs s') root N | Inr _ \<Rightarrow> fs_serves C A (objs s') st' root N N"
  proof (cases r)
    case (Inl e)
    with q(6) durableI [OF f] show ?thesis by simp
  next
    case (Inr y)
    then have "G' = N" "fs_session st' mid mt' v1'" using q(6) f(2) by auto
    with Inr servesI [OF f(1) _ f(2,3)] show ?thesis by simp
  qed
  ultimately show ?thesis using q(1,3,5) by blast
qed

text \<open>C30. A mount always returns. On a store that holds a file system it answers with a session on its
  name space, a rename that was under way settled to one of its two sides, or it fails, and then the
  store stands for the same name space as before, so the mount can be tried again. File contents are
  untouched either way, and a second mount of a mounted file system is refused.\<close>

theorem blobfs_mount_settles:
  assumes ks: "kv_store A valid objs nxt (fc_build C)" and C: "fs_conf_ok C" and i: "valid s" "nxt s < ID_LIMIT"
    and d: "fs_durable C A (objs s) root N"
  shows "\<exists>r st' s'. blobfs_mount (fs_on C A) (st, s) = Some (r, (st', s')) \<and> valid s' \<and> (\<forall>x \<in> file_ids N. objs s' x = objs s x) \<and>
    (if fs_mounted st then r = Inl EALREADY \<and> st' = st \<and> s' = s
     else case r of Inl _ \<Rightarrow> \<not> fs_mounted st' \<and> fs_durable C A (objs s') root N | Inr _ \<Rightarrow> fs_serves C A (objs s') st' root N N)"
proof (cases "fs_mounted st")
  case True
  with i show ?thesis by (simp add: blobfs_mount_def)
next
  case False
  from mount_durable [OF assms False] False show ?thesis by auto
qed

theorem blobfs_mount_settles_witness:
  "\<exists>r st' s'. blobfs_mount (fs_on conf1 (mem_api 256)) (fs_init, mem_fs) = Some (r, (st', s')) \<and>
     (case r of Inl _ \<Rightarrow> fs_durable conf1 (mem_api 256) (fst s') 3 empty_space
      | Inr _ \<Rightarrow> fs_serves conf1 (mem_api 256) (fst s') st' 3 empty_space empty_space)"
proof -
  have "snd mem_fs < ID_LIMIT" by (simp add: mem_fs_facts(2) ID_LIMIT_def)
  from blobfs_mount_settles [OF mem_fs_facts(4) conf1_ok(1) mem_fs_facts(1) this serves_durable [OF mem_fs_facts(3)], of fs_init]
  obtain r st' s' where u: "blobfs_mount (fs_on conf1 (mem_api 256)) (fs_init, mem_fs) = Some (r, (st', s'))"
    "case r of Inl _ \<Rightarrow> \<not> fs_mounted st' \<and> fs_durable conf1 (mem_api 256) (fst s') 3 empty_space
     | Inr _ \<Rightarrow> fs_serves conf1 (mem_api 256) (fst s') st' 3 empty_space empty_space"
    by (simp add: fs_init_def) blast
  then show ?thesis by (cases r) auto
qed

text \<open>The first mount makes a file system: on success the session serves an empty root directory,
  made of new objects. On failure there is still none, so the mount can be tried again. Other entries of
  the registry and every object with contents are untouched.\<close>

theorem blobfs_mount_makes:
  assumes ks: "kv_store A valid objs nxt (fc_build C)" and C: "fs_conf_ok C"
    and i: "valid s" "nxt s + 2 + MAX_BUCKETS (fc_build C) \<le> ID_LIMIT"
    and v: "fs_virgin (fs_on C A) (objs s) (nxt s) img" and u: "\<not> fs_mounted st"
  shows "\<exists>r st' s' img'. blobfs_mount (fs_on C A) (st, s) = Some (r, (st', s')) \<and> valid s' \<and>
    (\<forall>x c. objs s x = Some c \<longrightarrow> c \<noteq> [] \<longrightarrow> x \<noteq> BLOB_DB_ROOT_ID \<longrightarrow> objs s' x = objs s x) \<and>
    registry (fc_roots C) (objs s') img' \<and> (\<forall>k. k \<noteq> fs_key \<longrightarrow> map_of img' k = map_of img k) \<and>
    (case r of Inl _ \<Rightarrow> st' = st \<and> fs_virgin (fs_on C A) (objs s') (nxt s') img'
     | Inr _ \<Rightarrow> \<exists>root. fs_serves C A (objs s') st' root [root \<mapsto> Map.empty] [root \<mapsto> Map.empty])"
proof -
  note sh = kv_fs_store [OF ks C]
  have rd: "fs_store.mount_ready valid nxt (kvhash_ready (fc_build C) nxt) (MAX_BUCKETS (fc_build C)) (fs_on C A) s"
    using i(2) C by (simp add: fs_store.mount_ready_def [OF sh] kvhash_ready_def fs_conf_ok_def dir_config_def cfg_entries_def)
  from fs_store.mount_virgin [OF sh i(1) rd v u] obtain r st' s' img' where
    q: "blobfs_mount (fs_on C A) (st, s) = Some (r, (st', s'))" "valid s'"
      "\<forall>x c. objs s x = Some c \<longrightarrow> c \<noteq> [] \<longrightarrow> x \<noteq> BLOB_DB_ROOT_ID \<longrightarrow> objs s' x = objs s x"
      "registry (f_roots (fs_on C A)) (objs s') img'" "\<forall>k. k \<noteq> fs_key \<longrightarrow> map_of img' k = map_of img k"
      "case r of Inl _ \<Rightarrow> st' = st \<and> fs_virgin (fs_on C A) (objs s') (nxt s') img'
       | Inr _ \<Rightarrow> \<exists>mid dr X mt. fs_flash (kvhash_holds (fc_build C)) (fs_on C A) (objs s') mid [dr \<mapsto> Map.empty] (\<lambda>_. X) mt False \<and>
           fs_session st' mid mt False \<and> \<not> in_flight mt \<and> fm_dir_root mt = dr" by (elim exE conjE) (rule that)
  have "case r of Inl _ \<Rightarrow> st' = st \<and> fs_virgin (fs_on C A) (objs s') (nxt s') img'
     | Inr _ \<Rightarrow> \<exists>root. fs_serves C A (objs s') st' root [root \<mapsto> Map.empty] [root \<mapsto> Map.empty]"
  proof (cases r)
    case (Inr y)
    then obtain mid dr X mt where "fs_flash (kvhash_holds (fc_build C)) (fs_on C A) (objs s') mid [dr \<mapsto> Map.empty] (\<lambda>_. X) mt False"
      "fs_session st' mid mt False" "\<not> in_flight mt" "fm_dir_root mt = dr" using q(6) by auto
    then have "fs_serves C A (objs s') st' dr [dr \<mapsto> Map.empty] [dr \<mapsto> Map.empty]" by (intro servesI) simp_all
    with Inr show ?thesis by auto
  qed (use q(6) in simp)
  with q(1-5) show ?thesis by auto
qed

theorem blobfs_mount_makes_witness:
  "\<exists>r st' s'. blobfs_mount (fs_on conf1 (mem_api 256)) (fs_init, mem1) = Some (r, (st', s')) \<and>
     (r = Inr () \<longrightarrow> (\<exists>root. fs_serves conf1 (mem_api 256) (fst s') st' root [root \<mapsto> Map.empty] [root \<mapsto> Map.empty]))"
proof -
  have v: "fs_virgin (fs_on conf1 (mem_api 256)) (fst mem1) (snd mem1) []"
    using mem1_facts(4) by (simp add: fs_virgin_def conf1_def)
  have "MAX_BUCKETS (fc_build conf1) = 31" by (simp add: conf1_def MAX_BUCKETS_def mem_build_def sim_build_def DIR_HDR_LEN_def)
  then have "snd mem1 + 2 + MAX_BUCKETS (fc_build conf1) \<le> ID_LIMIT" by (simp add: mem1_facts(5) ID_LIMIT_def)
  from blobfs_mount_makes [OF mem_fs_facts(4) conf1_ok(1) mem1_facts(1) this v, of fs_init]
  obtain r st' s' where u: "blobfs_mount (fs_on conf1 (mem_api 256)) (fs_init, mem1) = Some (r, (st', s'))"
    "r = Inr () \<longrightarrow> (\<exists>root. fs_serves conf1 (mem_api 256) (fst s') st' root [root \<mapsto> Map.empty] [root \<mapsto> Map.empty])"
    by (force simp: fs_init_def)
  then show ?thesis by blast
qed

section \<open>Renaming\<close>

text \<open>C31. A rename is atomic under any failure and any power cut: with the power cut after any number of
  writes, or not at all, the store stands for the name space of before or for the one with the entry
  moved, and for the second if the call reported success. The next mount, when it succeeds, finds exactly
  that one. A rename that the name space forbids fails with its error and moves nothing, and no file
  loses its contents.\<close>

theorem blobfs_rename_survives_cut:
  assumes ks: "kv_store A valid objs nxt (fc_build C)" and C: "fs_conf_ok C" and i: "valid s" "nxt s + 3 < ID_LIMIT"
    and fs: "fs_serves C A (objs s) st root G N"
    and run: "blobfs_rename (fs_on C (cut_api A)) (st, (s, budget)) (Some p) (Some p') = (r, (st', (s', left)))"
  shows "valid s' \<and> (\<forall>x \<in> file_ids G. objs s' x = objs s x) \<and>
    (\<exists>M. (case ns_rename (fs_on C A) N root p p' of
            Inl e \<Rightarrow> M = N \<and> (\<exists>e'. r = Inl e') \<and> (\<not> fs_intent_pending st \<longrightarrow> r = Inl e)
          | Inr M' \<Rightarrow> M = N \<and> r \<noteq> Inr () \<or> M = M') \<and>
       (\<exists>G'. fs_serves C A (objs s') st' root G' M) \<and>
       (\<exists>r2 st2 s2. blobfs_mount (fs_on C A) (fs_init, s') = Some (r2, (st2, s2)) \<and> valid s2 \<and>
          (case r2 of Inl _ \<Rightarrow> fs_durable C A (objs s2) root M | Inr _ \<Rightarrow> fs_serves C A (objs s2) st2 root M M)))"
proof -
  note sh = kv_fs_store [OF cut_kv [OF ks] C]
  let ?F = "fs_on C (cut_api A)" and ?h = "kvhash_holds (fc_build C)"
  from fs obtain mid Q mt v1 where fl0: "fs_flash ?h (fs_on C A) (objs s) mid G Q mt v1"
    and st: "fs_session st mid mt v1" and N: "settled G mt = N" and root: "fm_dir_root mt = root" unfolding fs_serves_def by blast
  have fl: "fs_flash ?h ?F (objs (fst (s, budget))) mid G Q mt v1" using fl0 fs_flash_store [of ?h C A "cut_api A"] by simp
  have v: "valid (fst (s, budget))" "nxt (fst (s, budget)) + 3 \<le> ID_LIMIT" using i by simp_all
  from fs_store.rename_law [OF sh v(1) fl st v(2) run, unfolded N root] obtain G' Q' mt' v1' where
    q: "fs_store.fs_evolve (\<lambda>t. valid (fst t)) (\<lambda>t. objs (fst t)) (\<lambda>t. nxt (fst t)) {} mid (s, budget) G Q (s', left) G' Q'"
      "fs_session st' mid mt' v1'"
      "case ns_rename ?F N root p p' of
         Inl e \<Rightarrow> (\<exists>e'. r = Inl e') \<and> (\<not> in_flight mt \<longrightarrow> r = Inl e) \<and>
           fs_store.stands (\<lambda>t. objs (fst t)) ?h ?F (s', left) mid N root G' Q' mt' v1'
       | Inr M \<Rightarrow> (fs_store.stands (\<lambda>t. objs (fst t)) ?h ?F (s', left) mid N root G' Q' mt' v1' \<and> r \<noteq> Inr () \<or>
           fs_store.stands (\<lambda>t. objs (fst t)) ?h ?F (s', left) mid M root G' Q' mt' v1') \<and> (r = Inr () \<longrightarrow> \<not> in_flight mt')"
      "nxt (fst (s', left)) \<le> nxt (fst (s, budget)) + 3" by blast
  have lim: "nxt s' < ID_LIMIT" using q(4) i(2) by simp
  have keep: "valid s'" "\<forall>x \<in> file_ids G. objs s' x = objs s x"
    using fs_store.evolve_inv [OF sh q(1)] fs_store.evolve_files [OF sh v(1) fl q(1)] by auto
  have sv: "fs_serves C A (objs s') st' root G' M" if "fs_store.stands (\<lambda>t. objs (fst t)) ?h ?F (s', left) mid M root G' Q' mt' v1'" for M
    using that q(2) fs_flash_store [of ?h C A "cut_api A"] by (auto simp: fs_store.stands_def [OF sh] intro: servesI)
  have quiet: "\<not> fs_intent_pending st \<Longrightarrow> \<not> in_flight mt" using st by (auto simp: fs_session_def)
  have "\<exists>M. (case ns_rename (fs_on C A) N root p p' of
            Inl e \<Rightarrow> M = N \<and> (\<exists>e'. r = Inl e') \<and> (\<not> fs_intent_pending st \<longrightarrow> r = Inl e)
          | Inr M' \<Rightarrow> M = N \<and> r \<noteq> Inr () \<or> M = M') \<and> fs_serves C A (objs s') st' root G' M"
  proof (cases "ns_rename ?F N root p p'")
    case (Inl e)
    with q(3) sv quiet show ?thesis unfolding ns_store(3) [of C A "cut_api A"] by auto
  next
    case (Inr M)
    with q(3) sv show ?thesis unfolding ns_store(3) [of C A "cut_api A"] by auto
  qed
  then obtain M where M: "case ns_rename (fs_on C A) N root p p' of
            Inl e \<Rightarrow> M = N \<and> (\<exists>e'. r = Inl e') \<and> (\<not> fs_intent_pending st \<longrightarrow> r = Inl e)
          | Inr M' \<Rightarrow> M = N \<and> r \<noteq> Inr () \<or> M = M'" "fs_serves C A (objs s') st' root G' M" by blast
  have u: "\<not> fs_mounted fs_init" by (simp add: fs_init_def)
  from mount_durable [OF ks C keep(1) lim serves_durable [OF M(2)] u] obtain r2 st2 s2 where
    "blobfs_mount (fs_on C A) (fs_init, s') = Some (r2, (st2, s2))" "valid s2"
    "case r2 of Inl _ \<Rightarrow> \<not> fs_mounted st2 \<and> fs_durable C A (objs s2) root M | Inr _ \<Rightarrow> fs_serves C A (objs s2) st2 root M M" by blast
  then have "\<exists>r2 st2 s2. blobfs_mount (fs_on C A) (fs_init, s') = Some (r2, (st2, s2)) \<and> valid s2 \<and>
    (case r2 of Inl _ \<Rightarrow> fs_durable C A (objs s2) root M | Inr _ \<Rightarrow> fs_serves C A (objs s2) st2 root M M)" by (cases r2) auto
  with keep M show ?thesis by blast
qed

theorem blobfs_rename_survives_cut_witness:
  "\<forall>k. \<exists>s x r st' s' left M r2 st2 s2. fs_serves conf1 (mem_api 256) (fst s) session3 3 (one_file x) (one_file x) \<and>
     blobfs_rename (fs_on conf1 (cut_api (mem_api 256))) (session3, (s, Some k)) (Some [97]) (Some [98]) = (r, (st', (s', left))) \<and>
     (M = one_file x \<and> r \<noteq> Inr () \<or> M = moved (one_file x) 3 [97] [98] (new_dirent BLOBFS_TYPE_FILE x)) \<and>
     blobfs_mount (fs_on conf1 (mem_api 256)) (fs_init, s') = Some (r2, (st2, s2)) \<and>
     (case r2 of Inl _ \<Rightarrow> fs_durable conf1 (mem_api 256) (fst s2) 3 M | Inr _ \<Rightarrow> fs_serves conf1 (mem_api 256) (fst s2) st2 3 M M)"
proof
  fix k
  let ?F = "fs_on conf1 (mem_api 256)"
  obtain s x where s: "mem_inv 256 s" "snd s \<le> 8" "fs_serves conf1 (mem_api 256) (fst s) session3 3 (one_file x) (one_file x)" using mem_fs_file by blast
  obtain r st' t where u: "blobfs_rename (fs_on conf1 (cut_api (mem_api 256))) (session3, (s, Some k)) (Some [97]) (Some [98]) = (r, (st', t))" by (rule prod_cases3)
  obtain s' left where t: "t = (s', left)" by fastforce
  have rn: "ns_rename ?F (one_file x) 3 [97] [98] = Inr (moved (one_file x) 3 [97] [98] (new_dirent BLOBFS_TYPE_FILE x))"
    by (simp add: ns_rename_def ns_entry_def ns_where_def path_names_def path_slash_def c_str_def check_name_def one_file_def
        SLASH_def DOT_def conf1_def entry_def empty_space_def set_entry_def)
  have "snd s + 3 < ID_LIMIT" using s(2) by (simp add: ID_LIMIT_def)
  from blobfs_rename_survives_cut [OF mem_fs_facts(4) conf1_ok(1) s(1) this s(3) u [unfolded t], unfolded rn sum.case]
  obtain M r2 st2 s2 where "M = one_file x \<and> r \<noteq> Inr () \<or> M = moved (one_file x) 3 [97] [98] (new_dirent BLOBFS_TYPE_FILE x)"
    "blobfs_mount ?F (fs_init, s') = Some (r2, (st2, s2))"
    "case r2 of Inl _ \<Rightarrow> fs_durable conf1 (mem_api 256) (fst s2) 3 M | Inr _ \<Rightarrow> fs_serves conf1 (mem_api 256) (fst s2) st2 3 M M" by blast
  with s(3) u [unfolded t] show "\<exists>s x r st' s' left M r2 st2 s2. fs_serves conf1 (mem_api 256) (fst s) session3 3 (one_file x) (one_file x) \<and>
     blobfs_rename (fs_on conf1 (cut_api (mem_api 256))) (session3, (s, Some k)) (Some [97]) (Some [98]) = (r, (st', (s', left))) \<and>
     (M = one_file x \<and> r \<noteq> Inr () \<or> M = moved (one_file x) 3 [97] [98] (new_dirent BLOBFS_TYPE_FILE x)) \<and>
     blobfs_mount ?F (fs_init, s') = Some (r2, (st2, s2)) \<and>
     (case r2 of Inl _ \<Rightarrow> fs_durable conf1 (mem_api 256) (fst s2) 3 M | Inr _ \<Rightarrow> fs_serves conf1 (mem_api 256) (fst s2) st2 3 M M)"
    by (intro exI [of _ s] exI [of _ x] exI [of _ r] exI [of _ st'] exI [of _ s'] exI [of _ left] exI [of _ M] exI [of _ r2] exI [of _ st2] exI [of _ s2]) simp
qed

section \<open>Histories\<close>

text \<open>Any call of the interface, with any paths and contents, and a reboot at any time, which gives the store a
  new budget of writes.\<close>

inductive fs_step :: "fs_conf \<Rightarrow> 's blob_api \<Rightarrow> ('s \<Rightarrow> nat) \<Rightarrow> fs \<times> ('s \<times> nat option) \<Rightarrow> fs \<times> ('s \<times> nat option) \<Rightarrow> bool"
  for C A nxt where
  step_create: "nxt (fst (snd t)) + 4 + MAX_BUCKETS (fc_build C) \<le> ID_LIMIT \<Longrightarrow>
    blobfs_create (fs_on C (cut_api A)) t (Some p) = (r, t') \<Longrightarrow> fs_step C A nxt t t'"
| step_mkdir: "nxt (fst (snd t)) + 4 + MAX_BUCKETS (fc_build C) \<le> ID_LIMIT \<Longrightarrow>
    blobfs_mkdir (fs_on C (cut_api A)) t (Some p) = Some (r, t') \<Longrightarrow> fs_step C A nxt t t'"
| step_unlink: "blobfs_unlink (fs_on C (cut_api A)) t (Some p) = (r, t') \<Longrightarrow> fs_step C A nxt t t'"
| step_rename: "nxt (fst (snd t)) + 4 + MAX_BUCKETS (fc_build C) \<le> ID_LIMIT \<Longrightarrow>
    blobfs_rename (fs_on C (cut_api A)) t (Some p) (Some q) = (r, t') \<Longrightarrow> fs_step C A nxt t t'"
| step_write: "len \<le> length b \<Longrightarrow> blobfs_write (fs_on C (cut_api A)) t (Some p) off (Some b) len = (r, t') \<Longrightarrow> fs_step C A nxt t t'"
| step_truncate: "blobfs_truncate (fs_on C (cut_api A)) t (Some p) sz = (r, t') \<Longrightarrow> fs_step C A nxt t t'"
| step_mount: "nxt (fst (snd t)) < ID_LIMIT \<Longrightarrow> blobfs_mount (fs_on C (cut_api A)) t = Some (r, t') \<Longrightarrow> fs_step C A nxt t t'"
| step_unmount: "blobfs_unmount t = (r, t') \<Longrightarrow> fs_step C A nxt t t'"
| step_reboot: "fs_step C A nxt (st, (s, budget)) (fs_init, (s, budget'))"

context fs_store
begin

text \<open>The file system is there, and the session, if there is one, goes with it.\<close>

definition alive :: "u64 \<Rightarrow> fs \<times> 's \<Rightarrow> bool" where
  "alive root t \<longleftrightarrow> inv (snd t) \<and> (\<exists>mid G Q mt v1. flash (objs (snd t)) mid G Q mt v1 \<and> fm_dir_root mt = root \<and>
     (fs_mounted (fst t) \<longrightarrow> fs_session (fst t) mid mt v1) \<and> (\<not> fs_mounted (fst t) \<longrightarrow> \<not> fs_intent_pending (fst t)))"

lemma aliveI: "inv s \<Longrightarrow> flash (objs s) mid G Q mt v1 \<Longrightarrow> fm_dir_root mt = root \<Longrightarrow> fs_session st mid mt v1 \<Longrightarrow> alive root (st, s)"
  by (auto simp: alive_def fs_session_def)

lemma alive_unmounted:
  assumes "inv s" "flash (objs s) mid G Q mt v1" "fm_dir_root mt = root" "\<not> fs_mounted st" "\<not> fs_intent_pending st"
  shows "alive root (st, s)"
  unfolding alive_def by (intro conjI exI [of _ mid] exI [of _ G] exI [of _ Q] exI [of _ mt] exI [of _ v1]) (use assms in simp_all)

lemma alive_session:
  assumes "alive root (st, s)" "fs_mounted st"
  obtains mid G Q mt v1 where "inv s" "flash (objs s) mid G Q mt v1" "fm_dir_root mt = root" "fs_session st mid mt v1"
  using assms by (auto simp: alive_def)

lemma stands_alive:
  "fs_evolve W mid s G Q s' G' Q' \<Longrightarrow> stands s' mid N root G' Q' mt v1 \<Longrightarrow> fs_session st mid mt v1 \<Longrightarrow> alive root (st, s')"
  using evolve_inv by (auto simp: stands_def intro: aliveI)

lemma walk_unmounted:
  assumes "\<not> fs_mounted st"
  shows "walk F st s (Some p) = Inl ENODEV" "fs_resolve F st s (Some p) = (where0, Inl ENODEV)"
    "walk_to_free_name F st s (Some p) = (where0, Inl ENODEV)" "blobfs_lookup F (st, s) (Some p) False = Inl ENODEV"
  using assms by (simp_all add: walk_def fs_resolve_def walk_to_free_name_def blobfs_lookup_def)

lemma alive_create:
  assumes a: "alive root (st, s)" and lim: "nxt s + 4 \<le> ID_LIMIT" and run: "blobfs_create F (st, s) (Some p) = (r, (st', s'))"
  shows "alive root (st', s')"
proof (cases "fs_mounted st")
  case True
  with a obtain mid G Q mt v1 where f: "inv s" "flash (objs s) mid G Q mt v1" "fm_dir_root mt = root" "fs_session st mid mt v1" by (rule alive_session)
  from create_law [OF f(1,2,4) lim run] obtain G' Q' where "st' = st" "fs_evolve {} mid s G Q s' G' Q'" "flash (objs s') mid G' Q' mt v1" by blast
  with f(3,4) evolve_inv show ?thesis by (blast intro: aliveI)
qed (use a run walk_unmounted in \<open>simp add: blobfs_create_def\<close>)

lemma alive_mkdir:
  assumes a: "alive root (st, s)" and rd: "mkdir_ready s" and run: "blobfs_mkdir F (st, s) (Some p) = Some (r, (st', s'))"
  shows "alive root (st', s')"
proof (cases "fs_mounted st")
  case True
  with a obtain mid G Q mt v1 where f: "inv s" "flash (objs s) mid G Q mt v1" "fm_dir_root mt = root" "fs_session st mid mt v1" by (rule alive_session)
  from mkdir_law [OF f(1,2,4) rd, of p] run obtain G' Q' v1' where
    "fs_session st' mid mt v1'" "fs_evolve {} mid s G Q s' G' Q'" "flash (objs s') mid G' Q' mt v1'" by auto
  with f(3) evolve_inv show ?thesis by (blast intro: aliveI)
qed (use a run walk_unmounted in \<open>simp add: blobfs_mkdir_def\<close>)

lemma alive_unlink:
  assumes a: "alive root (st, s)" and run: "blobfs_unlink F (st, s) (Some p) = (r, (st', s'))"
  shows "alive root (st', s')"
proof (cases "fs_mounted st")
  case True
  with a obtain mid G Q mt v1 where f: "inv s" "flash (objs s) mid G Q mt v1" "fm_dir_root mt = root" "fs_session st mid mt v1" by (rule alive_session)
  from unlink_law [OF f(1,2,4) run, unfolded f(3)] obtain G' Q' mt' v1' W N where
    "fs_session st' mid mt' v1'" "fs_evolve W mid s G Q s' G' Q'" "stands s' mid N root G' Q' mt' v1'"
    by (cases "ns_unlink F (settled G mt) root p") auto
  then show ?thesis by (blast intro: stands_alive)
next
  case False
  then have "\<not> fs_intent_pending st" using a by (auto simp: alive_def)
  with a run False show ?thesis by (simp add: blobfs_unlink_def intent_settle_def walk_unmounted at_root_def)
qed

lemma alive_rename:
  assumes a: "alive root (st, s)" and lim: "nxt s + 3 \<le> ID_LIMIT" and run: "blobfs_rename F (st, s) (Some p) (Some p') = (r, (st', s'))"
  shows "alive root (st', s')"
proof (cases "fs_mounted st")
  case True
  with a obtain mid G Q mt v1 where f: "inv s" "flash (objs s) mid G Q mt v1" "fm_dir_root mt = root" "fs_session st mid mt v1" by (rule alive_session)
  from rename_law [OF f(1,2,4) lim run, unfolded f(3)] obtain G' Q' mt' v1' N where
    "fs_evolve {} mid s G Q s' G' Q'" "fs_session st' mid mt' v1'" "stands s' mid N root G' Q' mt' v1'"
    by (cases "ns_rename F (settled G mt) root p p'") auto
  then show ?thesis by (blast intro: stands_alive)
next
  case False
  then have "\<not> fs_intent_pending st" using a by (auto simp: alive_def)
  with a run False show ?thesis by (simp add: blobfs_rename_def intent_settle_def walk_unmounted at_root_def)
qed

lemma alive_write:
  assumes a: "alive root (st, s)" and b: "len \<le> length b" and run: "blobfs_write F (st, s) (Some p) off (Some b) len = (r, (st', s'))"
  shows "alive root (st', s')"
proof (cases "fs_mounted st")
  case True
  with a obtain mid G Q mt v1 where f: "inv s" "flash (objs s) mid G Q mt v1" "fm_dir_root mt = root" "fs_session st mid mt v1" by (rule alive_session)
  from file_write_law [OF f(1,2,4) b run] f(3,4) show ?thesis by (blast intro: aliveI)
qed (use a run walk_unmounted in \<open>simp add: blobfs_write_def\<close>)

lemma alive_truncate:
  assumes a: "alive root (st, s)" and run: "blobfs_truncate F (st, s) (Some p) sz = (r, (st', s'))"
  shows "alive root (st', s')"
proof (cases "fs_mounted st")
  case True
  with a obtain mid G Q mt v1 where f: "inv s" "flash (objs s) mid G Q mt v1" "fm_dir_root mt = root" "fs_session st mid mt v1" by (rule alive_session)
  from file_truncate_law [OF f(1,2,4) run] f(3,4) show ?thesis by (blast intro: aliveI)
qed (use a run walk_unmounted in \<open>simp add: blobfs_truncate_def\<close>)

lemma alive_mount:
  assumes a: "alive root (st, s)" and lim: "nxt s < ID_LIMIT" and run: "blobfs_mount F (st, s) = Some (r, (st', s'))"
  shows "alive root (st', s')"
proof (cases "fs_mounted st")
  case True
  with a run show ?thesis by (simp add: blobfs_mount_def)
next
  case False
  from a obtain mid G Q mt v1 where f: "inv s" "flash (objs s) mid G Q mt v1" "fm_dir_root mt = root" unfolding alive_def by (elim exE conjE) simp
  from mount_found [OF f(1) lim f(2) False, unfolded f(3)] run obtain G' Q' mt' v1' where
    q: "fs_evolve {} mid s G Q s' G' Q'" "stands s' mid (settled G mt) root G' Q' mt' v1'" "\<not> fs_intent_pending st'"
      "case r of Inl _ \<Rightarrow> \<not> fs_mounted st' | Inr _ \<Rightarrow> \<not> in_flight mt' \<and> fs_session st' mid mt' v1'" by auto
  show ?thesis
  proof (cases r)
    case (Inl e)
    with q evolve_inv [OF q(1)] show ?thesis by (auto simp: stands_def intro: alive_unmounted)
  next
    case (Inr u)
    with q show ?thesis by (auto intro: stands_alive)
  qed
qed

lemma alive_forget: "alive root (st, s) \<Longrightarrow> alive root (fs_init, s)"
  by (auto simp: alive_def [of root "(st, s)"] fs_init_def intro: alive_unmounted)

end

lemma step_alive:
  assumes ks: "kv_store A valid objs nxt (fc_build C)" and C: "fs_conf_ok C" and step: "fs_step C A nxt t t'"
    and a: "fs_store.alive (\<lambda>t. valid (fst t)) (\<lambda>t. objs (fst t)) (kvhash_holds (fc_build C)) (fs_on C (cut_api A)) root t"
  shows "fs_store.alive (\<lambda>t. valid (fst t)) (\<lambda>t. objs (fst t)) (kvhash_holds (fc_build C)) (fs_on C (cut_api A)) root t'"
proof -
  note sh = kv_fs_store [OF cut_kv [OF ks] C]
  obtain st s where t: "t = (st, s)" by (cases t)
  obtain st' s' where t': "t' = (st', s')" by (cases t')
  note a' = a [unfolded t]
  have room: "fs_store.mkdir_ready (\<lambda>t. valid (fst t)) (\<lambda>t. nxt (fst t)) (kvhash_ready (fc_build C) (\<lambda>t. nxt (fst t))) (MAX_BUCKETS (fc_build C)) (fs_on C (cut_api A)) s"
    if "nxt (fst (snd t)) + 4 + MAX_BUCKETS (fc_build C) \<le> ID_LIMIT"
    using that C t by (simp add: fs_store.mkdir_ready_def [OF sh] kvhash_ready_def fs_conf_ok_def dir_config_def cfg_entries_def)
  from step show ?thesis
  proof cases
    case (step_create p r)
    then show ?thesis using fs_store.alive_create [OF sh a'] t t' by simp
  next
    case (step_mkdir p r)
    then show ?thesis using fs_store.alive_mkdir [OF sh a' room] t t' by simp
  next
    case (step_unlink p r)
    then show ?thesis using fs_store.alive_unlink [OF sh a'] t t' by simp
  next
    case (step_rename p q r)
    then show ?thesis using fs_store.alive_rename [OF sh a'] t t' by simp
  next
    case (step_write len b p off r)
    then show ?thesis using fs_store.alive_write [OF sh a'] t t' by simp
  next
    case (step_truncate p sz r)
    then show ?thesis using fs_store.alive_truncate [OF sh a'] t t' by simp
  next
    case (step_mount r)
    then show ?thesis using fs_store.alive_mount [OF sh a'] t t' by simp
  next
    case (step_unmount r)
    then show ?thesis using fs_store.alive_forget [OF sh a'] t by (simp add: blobfs_unmount_def)
  next
    case (step_reboot st1 s1 b b')
    have "fs_store.alive (\<lambda>t. valid (fst t)) (\<lambda>t. objs (fst t)) (kvhash_holds (fc_build C)) (fs_on C (cut_api A)) root (fs_init, (s1, b))"
      using fs_store.alive_forget [OF sh a'] t step_reboot by simp
    then show ?thesis using step_reboot by (simp add: fs_store.alive_def [OF sh])
  qed
qed

text \<open>What holding a file system means for the entries of its name space.\<close>

lemma durable_names:
  assumes ks: "kv_store A valid objs nxt (fc_build C)" and C: "fs_conf_ok C" and d: "fs_durable C A (objs s) root N"
  shows "N root \<noteq> None"
    "entry N d n = Some de \<Longrightarrow> name_fits (fs_on C A) n \<and> (if is_dir de then N (de_body_id de) \<noteq> None else objs s (de_body_id de) \<noteq> None)"
    "entry N d n = Some de \<Longrightarrow> entry N d' n' = Some de' \<Longrightarrow> de_body_id de = de_body_id de' \<Longrightarrow> d = d' \<and> n = n'"
proof -
  note sh = kv_fs_store [OF ks C]
  from d obtain mid G Q mt v1 where fl: "fs_flash (kvhash_holds (fc_build C)) (fs_on C A) (objs s) mid G Q mt v1"
    and N: "settled G mt = N" and root: "fm_dir_root mt = root" unfolding fs_durable_def by blast
  let ?q = "intent_clear (fs_on C A) mt"
  have ok: "names_ok (fs_on C A) N ?q" unfolding N [symmetric] by (rule names_settled [OF fs_store.flashD(7) [OF sh fl]]) simp_all
  show "N root \<noteq> None" using ok root by (simp add: names_ok_def)
  have fb: "objs s x \<noteq> None" if "x \<in> file_ids N" for x
    using that settled_files [of G mt] N fs_store.flashD(6) [OF sh fl] by (auto simp: loose_ok_def)
  have "de_body_id de \<in> file_ids N" if "entry N d n = Some de" "\<not> is_dir de" using that by (auto simp: file_ids_def)
  then show "entry N d n = Some de \<Longrightarrow> name_fits (fs_on C A) n \<and> (if is_dir de then N (de_body_id de) \<noteq> None else objs s (de_body_id de) \<noteq> None)"
    using names_entry [OF ok, of d n de] fb [of "de_body_id de"] by auto
  show "entry N d n = Some de \<Longrightarrow> entry N d' n' = Some de' \<Longrightarrow> de_body_id de = de_body_id de' \<Longrightarrow> d = d' \<and> n = n'"
    using names_quiet_uniq [OF ok, of d n de d' n' de'] by simp
qed

text \<open>C32. Whatever calls are made in whatever order, with the power failing at any write of any of them,
  reboots and mounts in between: the store holds a file system with the same root directory, in which
  every name is one a path can spell, every entry leads to a body or a directory that exists, and no two
  names share one; and a session that is mounted serves it.\<close>

theorem blobfs_history_sound:
  assumes ks: "kv_store A valid objs nxt (fc_build C)" and C: "fs_conf_ok C" and i: "valid s" "fs_durable C A (objs s) root N"
    and run: "(fs_step C A nxt)\<^sup>*\<^sup>* (fs_init, (s, budget)) (st', (s', left))"
  shows "valid s' \<and> (\<exists>N'. fs_durable C A (objs s') root N' \<and> N' root \<noteq> None \<and> (fs_mounted st' \<longrightarrow> (\<exists>G'. fs_serves C A (objs s') st' root G' N')) \<and>
    (\<forall>d n de. entry N' d n = Some de \<longrightarrow>
       name_fits (fs_on C A) n \<and> (if is_dir de then N' (de_body_id de) \<noteq> None else objs s' (de_body_id de) \<noteq> None)) \<and>
    (\<forall>d n de d2 n2 de2. entry N' d n = Some de \<and> entry N' d2 n2 = Some de2 \<and> de_body_id de = de_body_id de2 \<longrightarrow> d = d2 \<and> n = n2))"
proof -
  let ?F = "fs_on C (cut_api A)" and ?h = "kvhash_holds (fc_build C)"
  let ?alive = "fs_store.alive (\<lambda>t. valid (fst t)) (\<lambda>t. objs (fst t)) ?h ?F root"
  note sh = kv_fs_store [OF cut_kv [OF ks] C] and eq = fs_flash_store [of ?h C A "cut_api A"]
  from i(2) obtain mid G Q mt v1 where fl: "fs_flash ?h ?F (objs s) mid G Q mt v1" and root: "fm_dir_root mt = root"
    unfolding fs_durable_def eq by blast
  have start: "?alive (fs_init, (s, budget))"
    by (rule fs_store.alive_unmounted [OF sh, where mid = mid and G = G and Q = Q and mt = mt and ?v1.0 = v1]) (use i fl root in \<open>simp_all add: fs_init_def\<close>)
  from run have "?alive (st', (s', left))"
    by (induction rule: rtranclp_induct) (use start step_alive [OF ks C] in blast)+
  then obtain mid' G' Q' mt' v1' where q: "valid s'" "fs_flash ?h (fs_on C A) (objs s') mid' G' Q' mt' v1'" "fm_dir_root mt' = root"
    "fs_mounted st' \<longrightarrow> fs_session st' mid' mt' v1'" unfolding fs_store.alive_def [OF sh] eq by (elim exE conjE) simp
  have d: "fs_durable C A (objs s') root (settled G' mt')" by (rule durableI [OF q(2) refl q(3)])
  have "fs_mounted st' \<Longrightarrow> fs_serves C A (objs s') st' root G' (settled G' mt')" by (rule servesI [OF q(2) _ refl q(3)]) (use q(4) in blast)
  with q(1) d durable_names [OF ks C d] show ?thesis by blast
qed

theorem blobfs_history_sound_witness:
  "\<exists>r st' t N'. blobfs_mount (fs_on conf1 (cut_api (mem_api 256))) (fs_init, (mem_fs, Some 0)) = Some (r, (st', t)) \<and>
     fs_durable conf1 (mem_api 256) (fst (fst t)) 3 N' \<and> N' 3 \<noteq> None"
proof -
  have d: "fs_durable conf1 (mem_api 256) (fst mem_fs) 3 empty_space" by (rule serves_durable [OF mem_fs_facts(3)])
  have c: "fs_durable conf1 (cut_api (mem_api 256)) (fst (fst (mem_fs, Some (0 :: nat)))) 3 empty_space"
    using d fs_flash_store [of "kvhash_holds (fc_build conf1)" conf1 "mem_api 256" "cut_api (mem_api 256)"] by (simp add: fs_durable_def)
  have lim: "snd (fst (mem_fs, Some (0 :: nat))) < ID_LIMIT" by (simp add: mem_fs_facts(2) ID_LIMIT_def)
  have i: "mem_inv 256 (fst (mem_fs, Some (0 :: nat)))" using mem_fs_facts(1) by simp
  have um: "\<not> fs_mounted fs_init" by (simp add: fs_init_def)
  from mount_durable [OF cut_kv [OF mem_fs_facts(4)] conf1_ok(1) i lim c um] obtain r st' t where
    u: "blobfs_mount (fs_on conf1 (cut_api (mem_api 256))) (fs_init, (mem_fs, Some 0)) = Some (r, (st', t))" by blast
  obtain s' left where t: "t = (s', left)" by fastforce
  have "(fs_step conf1 (mem_api 256) snd)\<^sup>*\<^sup>* (fs_init, (mem_fs, Some 0)) (st', (s', left))"
    using step_mount [OF _ u, of snd] lim unfolding t by (intro r_into_rtranclp) simp
  from blobfs_history_sound [OF mem_fs_facts(4) conf1_ok(1) mem_fs_facts(1) d this] u t show ?thesis by auto
qed

end
