(* ===== verification/Blobfs_List.thy ===== *)
theory Blobfs_List
  imports Blobfs_Crash
begin

text \<open>
  Listing a directory: a caller feeds each name back as the cursor of the next call.
\<close>

inductive fs_listing :: "'s fs_build \<Rightarrow> fs \<times> 's \<Rightarrow> u64 \<Rightarrow> byte list \<Rightarrow> byte list list \<Rightarrow> bool" for F t d where
  list_start: "fs_listing F t d [] []"
| list_next: "fs_listing F t d cur ks \<Longrightarrow> blobfs_next_id F t d (Some (cur @ [0])) False stat_null = (Some n, Inr x) \<Longrightarrow>
    fs_listing F t d n (ks @ [n])"

lemma c_str_nul: "0 \<notin> set n \<Longrightarrow> c_str (n @ [0]) = n"
  by (simp add: c_str_def takeWhile_append)

text \<open>The names a listing returns are keys the map's own walk returns.\<close>

lemma next_id_names:
  assumes m: "fs_mounted st" and cur: "0 \<notin> set cur" "length cur \<le> fc_name_max C"
  shows "blobfs_next_id (fs_on C A) (st, s) d (Some (cur @ [0])) False sn =
    (case kvhash_next (fc_build C) A s d cur (fc_name_max C) DIRENT_SIZE of
       (Inl e, lens) \<Rightarrow> (if lens = None \<or> e = ENOMEM then Some [] else None, Inl (if e = ENOMEM then EIO else e))
     | (Inr (name, bs), _) \<Rightarrow> (Some name, andthen (dirent_check bs) (\<lambda>de. if sn then Inr None
         else case stat_of (fs_on C A) s de of Inl e \<Rightarrow> Inl (if e = ENOENT then EIO else e) | Inr x \<Rightarrow> Inr (Some x))))"
  using m cur by (simp add: blobfs_next_id_def c_str_nul kvhash_map_ops_def)

lemma listing_walk:
  assumes t: "tree_map t = enc f" and f: "\<And>n de. f n = Some de \<Longrightarrow> name_fits (fs_on C A) n" and m: "fs_mounted st"
    and keys: "\<And>cur k v. length cur \<le> 0xffff \<Longrightarrow> fst (kvhash_next (fc_build C) A s d cur (fc_name_max C) DIRENT_SIZE) = Inr (k, v) \<Longrightarrow> enc f k = Some v"
    and nm: "fc_name_max C \<le> 255"
    and l: "fs_listing (fs_on C A) (st, s) d cur ks"
  shows "kv_walk (fc_build C) P A nxt d s (dom (tree_map t)) s cur ks (dom (tree_map t)) \<and> set ks \<subseteq> dom f \<and>
    0 \<notin> set cur \<and> length cur \<le> fc_name_max C"
  using l
proof induction
  case list_start
  show ?case by (simp add: kv_walk.walk_start)
next
  case (list_next cur ks sn n x)
  then have cur: "0 \<notin> set cur" "length cur \<le> fc_name_max C" by simp_all
  from list_next.hyps(2) obtain v where v: "fst (kvhash_next (fc_build C) A s d cur (fc_name_max C) DIRENT_SIZE) = Inr (n, v)"
    unfolding next_id_names [OF m cur] by (auto split: sum.splits prod.splits)
  have "enc f n = Some v" by (rule keys [OF _ v]) (use cur nm in simp)
  then obtain de where de: "f n = Some de" by (auto simp: enc_def)
  note nf = f [OF de]
  have "0 \<notin> set n" "length n \<le> fc_name_max C" using nf name_fitsD [OF nf] by (auto simp: name_fits_def plain_def)
  with de list_next.IH kv_walk.walk_next [OF _ v] show ?case by auto
qed

lemma dom_enc [simp]: "dom (enc f) = dom f"
  by (auto simp: enc_def)

text \<open>Listing a directory returns every entry exactly once, with its type and size, and then says
  that there are no more: each call gives a name not given before or, when all have been given,
  \<open>ENODATA\<close>; no call fails.\<close>

theorem blobfs_listing_exact:
  assumes ks: "kv_store A valid objs nxt (fc_build C)" and C: "fs_conf_ok C" and i: "valid s"
    and fs: "fs_serves C A (objs s) st root G N" and d: "G d = Some f" and l: "fs_listing (fs_on C A) (st, s) d cur ns"
  shows "distinct ns \<and> set ns \<subseteq> dom f \<and>
    (blobfs_next_id (fs_on C A) (st, s) d (Some (cur @ [0])) False False = (Some [], Inl ENODATA) \<and> set ns = dom f \<or>
     (\<exists>n de. f n = Some de \<and> n \<notin> set ns \<and> blobfs_next_id (fs_on C A) (st, s) d (Some (cur @ [0])) False False =
       (Some n, Inr (Some (if is_dir de then \<lparr>st_type = BLOBFS_ENTRY_DIR, st_size = 0\<rparr>
                           else \<lparr>st_type = BLOBFS_ENTRY_FILE, st_size = length (the (objs s (de_body_id de)))\<rparr>)))))"
proof -
  note sh = kv_fs_store [OF ks C]
  let ?F = "fs_on C A" and ?B = "fc_build C"
  let ?next = "\<lambda>cur. kvhash_next ?B A s d cur (fc_name_max C) DIRENT_SIZE"
  from fs obtain mid Q mt v1 where fl: "fs_flash (kvhash_holds ?B) ?F (objs s) mid G Q mt v1" and st: "fs_session st mid mt v1"
    unfolding fs_serves_def by blast
  have m: "fs_mounted st" and nm: "fc_name_max C \<le> 255" using st C by (simp_all add: fs_session_def fs_conf_ok_def)
  note ok = fs_store.flashD(7) [OF sh fl]
  have en: "entry G d n = f n" for n using d by (simp add: entry_def)
  have fits: "name_fits ?F n" "dirent_ok de" if "f n = Some de" for n de using names_entry [OF ok, of d n de] that en by simp_all
  from fs_store.flash_dir_hold [OF sh fl d] obtain t where t: "tree_ok ?B (objs s) d t" "tree_map t = enc f" by (auto simp: kvhash_holds_def)
  have nx: "?next c = (Inl ENODATA, None) \<or> (\<exists>k de. f k = Some de \<and> fst (?next c) = Inr (k, dirent_bytes de))" if "length c \<le> 0xffff" for c
  proof -
    have fit: "length k \<le> fc_name_max C \<and> v = dirent_bytes (the (f k)) \<and> f k \<noteq> None" if "tree_map t k = Some v" for k v
      using that t(2) fits(1) [of k] name_fitsD [of ?F k] by (auto simp: enc_def)
    from kv_store.kvhash_next_least [OF ks i t(1) that, of "fc_name_max C" DIRENT_SIZE] show ?thesis using fit by fastforce
  qed
  have keys: "enc f k = Some v" if "length c \<le> 0xffff" "fst (?next c) = Inr (k, v)" for c k v
    using nx [OF that(1)] that(2) by (auto simp: enc_def)
  have "kv_walk ?B (fc_policy C) A nxt d s (dom (tree_map t)) s cur ns (dom (tree_map t)) \<and> set ns \<subseteq> dom f \<and>
    0 \<notin> set cur \<and> length cur \<le> fc_name_max C"
    by (rule listing_walk [OF t(2) _ m _ nm l]) (rule fits(1) keys; assumption)+
  then have w: "kv_walk ?B (fc_policy C) A nxt d s (dom (tree_map t)) s cur ns (dom (tree_map t))" and sub: "set ns \<subseteq> dom f"
    and cur: "0 \<notin> set cur" "length cur \<le> fc_name_max C" by blast+
  note cp = kv_store.kv_walk_complete [OF ks w i t(1)] and ni = next_id_names [OF m cur, of A s d False]
  have "length cur \<le> 0xffff" using cur nm by simp
  from nx [OF this] show ?thesis
  proof (elim disjE exE conjE)
    assume e: "?next cur = (Inl ENODATA, None)"
    then have "set ns = dom f" using cp(2) [of "fc_name_max C" DIRENT_SIZE] sub t(2) by auto
    with cp(1) e ni show ?thesis by simp
  next
    fix k de assume k: "f k = Some de" "fst (?next cur) = Inr (k, dirent_bytes de)"
    have "k \<notin> set ns" using kv_store.kv_walk_complete(1) [OF ks kv_walk.walk_next [OF w k(2)] i t(1)] by simp
    moreover have "stat_of ?F s de = Inr (if is_dir de then \<lparr>st_type = BLOBFS_ENTRY_DIR, st_size = 0\<rparr>
        else \<lparr>st_type = BLOBFS_ENTRY_FILE, st_size = length (the (objs s (de_body_id de)))\<rparr>)"
    proof (cases "is_dir de")
      case False
      then have "de_body_id de \<in> file_ids G" using k(1) en [of k] by (auto simp: file_ids_def)
      then have "objs s (de_body_id de) \<noteq> None" using fs_store.flashD(6) [OF sh fl] by (auto simp: loose_ok_def)
      with False object_store.size_law [OF kv_store.axioms(1) [OF ks] i, of "de_body_id de"] show ?thesis by (auto simp: stat_of_def is_dir_def)
    qed (simp add: stat_of_def is_dir_def)
    moreover obtain lens where "?next cur = (Inr (k, dirent_bytes de), lens)" using k(2) by (cases "?next cur") simp
    ultimately show ?thesis using cp(1) sub k(1) ni dirent_check_bytes [OF fits(2) [OF k(1)]] by auto
  qed
qed

theorem blobfs_listing_exact_witness:
  "\<exists>s x. fs_serves conf1 (mem_api 256) (fst s) session3 3 (one_file x) (one_file x) \<and>
     blobfs_next_id (fs_on conf1 (mem_api 256)) (session3, s) 3 (Some [0]) False False =
       (Some [97], Inr (Some \<lparr>st_type = BLOBFS_ENTRY_FILE, st_size = 0\<rparr>))"
proof -
  obtain s x where s: "mem_inv 256 s" "fst s x = Some []" "fs_serves conf1 (mem_api 256) (fst s) session3 3 (one_file x) (one_file x)" using mem_fs_file by blast
  have d: "one_file x 3 = Some [[97] \<mapsto> new_dirent BLOBFS_TYPE_FILE x]" by (simp add: one_file_def empty_space_def set_entry_def)
  have "dom [[97] \<mapsto> new_dirent BLOBFS_TYPE_FILE x] \<noteq> {}" by simp
  with blobfs_listing_exact [OF mem_fs_facts(4) conf1_ok(1) s(1,3) d list_start] s(2,3) show ?thesis
    by (intro exI [of _ s] exI [of _ x]) (auto split: if_splits)
qed

end
