(* ===== verification/Blobfs_Handles.thy ===== *)
theory Blobfs_Handles
  imports Blobfs_Vfs Blobfs_List
begin

text \<open>
  The properties of the driver: a handle belongs to one open file, from the open to its close, whatever
  calls are made in between; what is read and written through it is the file it was opened on, through
  renames and never a file that takes the name later; and a directory is read to its end.
\<close>

section \<open>Sequences of calls\<close>

text \<open>The callers' file and directory objects, by number, the driver and the file system below.\<close>

record 's vfs_world =
  vw_files :: "nat \<Rightarrow> fs_file"
  vw_dirs :: "nat \<Rightarrow> fs_dir"
  vw_vfs :: vfs
  vw_fs :: "fs \<times> 's"

text \<open>The operations of the driver table that change anything.\<close>

datatype vfs_call =
    Open nat "byte list" bool
  | Close nat
  | Read nat bool nat
  | Write nat "byte list option" nat
  | Lseek nat int whence
  | Truncate nat int
  | Mount
  | Unmount
  | Mkdir nat "byte list"
  | Unlink nat "byte list"
  | Rename nat "byte list" "byte list"
  | Opendir nat "byte list"
  | Readdir nat "byte list"
  | Closedir nat

fun vfs_exec :: "'s fs_build \<Rightarrow> vfs_build \<Rightarrow> ('s \<Rightarrow> unit res \<times> 's) \<Rightarrow> vfs_call \<Rightarrow> 's vfs_world \<Rightarrow> 's vfs_world option" where
  "vfs_exec F V up (Open k path create) w =
     (let (_, filp, v, t) = blobfs_fs_open F (vw_vfs w, vw_fs w) (vw_files w k) path create in
      Some (w\<lparr>vw_files := (vw_files w)(k := filp), vw_vfs := v, vw_fs := t\<rparr>))"
| "vfs_exec F V up (Close k) w =
     (let (_, filp, v) = blobfs_fs_close (vw_vfs w) (vw_files w k) in
      Some (w\<lparr>vw_files := (vw_files w)(k := filp), vw_vfs := v\<rparr>))"
| "vfs_exec F V up (Read k dest_null n) w =
     map_option (\<lambda>(_, v). w\<lparr>vw_vfs := v\<rparr>) (blobfs_fs_read F V (vw_vfs w, vw_fs w) (vw_files w k) dest_null n)"
| "vfs_exec F V up (Write k src n) w =
     map_option (\<lambda>(_, v, t). w\<lparr>vw_vfs := v, vw_fs := t\<rparr>) (blobfs_fs_write F V (vw_vfs w, vw_fs w) (vw_files w k) src n)"
| "vfs_exec F V up (Lseek k off wh) w =
     map_option (\<lambda>(_, v). w\<lparr>vw_vfs := v\<rparr>) (blobfs_fs_lseek F V (vw_vfs w, vw_fs w) (vw_files w k) off wh)"
| "vfs_exec F V up (Truncate k len) w =
     (let (_, v, t) = blobfs_fs_truncate F V (vw_vfs w, vw_fs w) (vw_files w k) len in Some (w\<lparr>vw_vfs := v, vw_fs := t\<rparr>))"
| "vfs_exec F V up Mount w =
     map_option (\<lambda>(_, v, t). w\<lparr>vw_vfs := v, vw_fs := t\<rparr>) (blobfs_fs_mount F up (vw_vfs w, vw_fs w))"
| "vfs_exec F V up Unmount w =
     (let (_, v, t) = blobfs_fs_unmount (vw_vfs w, vw_fs w) in Some (w\<lparr>vw_vfs := v, vw_fs := t\<rparr>))"
| "vfs_exec F V up (Mkdir mp name) w = map_option (\<lambda>(_, t). w\<lparr>vw_fs := t\<rparr>) (blobfs_fs_mkdir F (vw_fs w) mp name)"
| "vfs_exec F V up (Unlink mp name) w = Some (w\<lparr>vw_fs := snd (blobfs_fs_unlink F (vw_fs w) mp name)\<rparr>)"
| "vfs_exec F V up (Rename mp old new) w = Some (w\<lparr>vw_fs := snd (blobfs_fs_rename F (vw_fs w) mp old new)\<rparr>)"
| "vfs_exec F V up (Opendir k path) w =
     (let (_, dp, v) = blobfs_fs_opendir F (vw_vfs w, vw_fs w) (vw_dirs w k) path in
      Some (w\<lparr>vw_dirs := (vw_dirs w)(k := dp), vw_vfs := v\<rparr>))"
| "vfs_exec F V up (Readdir k junk) w =
     map_option (\<lambda>(_, v). w\<lparr>vw_vfs := v\<rparr>) (blobfs_fs_readdir F (vw_vfs w, vw_fs w) (vw_dirs w k) junk)"
| "vfs_exec F V up (Closedir k) w =
     (let (_, dp, v) = blobfs_fs_closedir (vw_vfs w) (vw_dirs w k) in
      Some (w\<lparr>vw_dirs := (vw_dirs w)(k := dp), vw_vfs := v\<rparr>))"

text \<open>The VFS refuses to open a file object that is open already.\<close>

fun vfs_allows :: "'s vfs_world \<Rightarrow> vfs_call \<Rightarrow> bool" where
  "vfs_allows w (Open k _ _) \<longleftrightarrow> filep (vw_files w k) = None"
| "vfs_allows w (Opendir k _) \<longleftrightarrow> dirp (vw_dirs w k) = None"
| "vfs_allows w _ \<longleftrightarrow> True"

inductive vfs_run :: "'s fs_build \<Rightarrow> vfs_build \<Rightarrow> ('s \<Rightarrow> unit res \<times> 's) \<Rightarrow> 's vfs_world \<Rightarrow> vfs_call list \<Rightarrow> 's vfs_world \<Rightarrow> bool"
  for F V up w where
  run_none: "vfs_run F V up w [] w"
| run_call: "vfs_run F V up w cs w1 \<Longrightarrow> vfs_allows w1 c \<Longrightarrow> vfs_exec F V up c w1 = Some w2 \<Longrightarrow> vfs_run F V up w (cs @ [c]) w2"

definition vfs_boot :: "nat \<Rightarrow> nat \<Rightarrow> (nat \<Rightarrow> fs_file) \<Rightarrow> (nat \<Rightarrow> fs_dir) \<Rightarrow> fs \<times> 's \<Rightarrow> 's vfs_world" where
  "vfs_boot files dirs fl dr t =
     \<lparr>vw_files = (\<lambda>k. (fl k)\<lparr>filep := None\<rparr>), vw_dirs = (\<lambda>k. (dr k)\<lparr>dirp := None\<rparr>), vw_vfs = vfs_init files dirs, vw_fs = t\<rparr>"

section \<open>Pools\<close>

text \<open>Each owner has a slot of its own, in use, and each slot in use has an owner.\<close>

definition owned :: "('h \<Rightarrow> bool) \<Rightarrow> 'h list \<Rightarrow> (nat \<Rightarrow> nat option) \<Rightarrow> bool" where
  "owned used pool own \<longleftrightarrow>
     (\<forall>k i. own k = Some i \<longrightarrow> i < length pool \<and> used (pool ! i)) \<and>
     (\<forall>k k' i. own k = Some i \<and> own k' = Some i \<longrightarrow> k = k') \<and>
     (\<forall>i < length pool. used (pool ! i) \<longrightarrow> (\<exists>k. own k = Some i))"

lemma first_free_Some: "first_free used pool = Some i \<Longrightarrow> i < length pool \<and> \<not> used (pool ! i)"
  by (auto simp: first_free_def find_Some_iff)

lemma first_free_None: "first_free used pool = None \<longleftrightarrow> (\<forall>i < length pool. used (pool ! i))"
  by (auto simp: first_free_def find_None_iff)

lemma ownedD:
  assumes "owned used pool own"
  shows "own k = Some i \<Longrightarrow> i < length pool \<and> used (pool ! i)" "own k = Some i \<Longrightarrow> own k' = Some i \<Longrightarrow> k = k'"
    "i < length pool \<Longrightarrow> used (pool ! i) \<Longrightarrow> \<exists>k. own k = Some i"
  using assms unfolding owned_def by blast+

lemma owned_take:
  assumes o: "owned used pool own" and f: "first_free used pool = Some i" and k: "own k = None" and h: "used h"
  shows "owned used (pool[i := h]) (own(k := Some i))"
  unfolding owned_def
proof (intro conjI allI impI)
  note i = first_free_Some [OF f] and D = ownedD [OF o]
  have no: "own k' \<noteq> Some i" for k' using D(1) i by blast
  show "j < length (pool[i := h])" "used (pool[i := h] ! j)" if "(own(k := Some i)) k' = Some j" for k' j
    using that D(1) [of k' j] i h by (auto simp: nth_list_update split: if_splits)
  show "k1 = k2" if "(own(k := Some i)) k1 = Some j \<and> (own(k := Some i)) k2 = Some j" for k1 k2 j
    using that D(2) [of k1 j k2] no by (auto split: if_splits)
  show "\<exists>k'. (own(k := Some i)) k' = Some j" if "j < length (pool[i := h])" "used (pool[i := h] ! j)" for j
  proof (cases "j = i")
    case False
    with that D(3) [of j] obtain k' where "own k' = Some j" by auto
    with k show ?thesis by (intro exI [of _ k']) auto
  qed auto
qed

lemma owned_give:
  assumes o: "owned used pool own" and k: "own k = Some i" and h: "\<not> used h"
  shows "owned used (pool[i := h]) (own(k := None))"
  unfolding owned_def
proof (intro conjI allI impI)
  note D = ownedD [OF o]
  show "j < length (pool[i := h])" "used (pool[i := h] ! j)" if "(own(k := None)) k' = Some j" for k' j
  proof -
    from that have "k' \<noteq> k" "own k' = Some j" by (auto split: if_splits)
    with D(2) [OF k, of k'] k have "j \<noteq> i" by auto
    with D(1) [OF \<open>own k' = Some j\<close>] show "j < length (pool[i := h])" "used (pool[i := h] ! j)" by auto
  qed
  show "k1 = k2" if "(own(k := None)) k1 = Some j \<and> (own(k := None)) k2 = Some j" for k1 k2 j
    using that D(2) [of k1 j k2] by (auto split: if_splits)
  show "\<exists>k'. (own(k := None)) k' = Some j" if j: "j < length (pool[i := h])" "used (pool[i := h] ! j)" for j
  proof -
    have "j \<noteq> i" using j h by auto
    with j D(3) [of j] obtain k' where "own k' = Some j" by auto
    with k \<open>j \<noteq> i\<close> show ?thesis by (intro exI [of _ k']) auto
  qed
qed

lemma owned_map: "map used pool' = map used pool \<Longrightarrow> owned used pool own \<Longrightarrow> owned used pool' own"
proof -
  assume m: "map used pool' = map used pool" and o: "owned used pool own"
  have l: "length pool' = length pool" using m by (metis length_map)
  have u: "used (pool' ! i) = used (pool ! i)" if "i < length pool" for i using m that l by (metis nth_map)
  show ?thesis unfolding owned_def using ownedD [OF o] l u by auto
qed

lemma owned_full: "owned used pool own \<Longrightarrow> first_free used pool = None \<longleftrightarrow> (\<forall>i < length pool. \<exists>k. own k = Some i)"
  unfolding first_free_None using ownedD by metis

lemma alloc_slot [simp]: "fst (fh_alloc v) = first_free fh_used (fh_pool v)" "fst (dh_alloc v) = first_free dh_used (dh_pool v)"
  by (simp_all add: fh_alloc_def dh_alloc_def split: option.splits)

text \<open>A change of the pools that takes and frees no slot.\<close>

definition same_slots :: "vfs \<Rightarrow> vfs \<Rightarrow> bool" where
  "same_slots v v' \<longleftrightarrow>
     map fh_used (fh_pool v') = map fh_used (fh_pool v) \<and> map fh_dead (fh_pool v') = map fh_dead (fh_pool v) \<and>
     map dh_used (dh_pool v') = map dh_used (dh_pool v)"

lemma same_slots_refl [simp]: "same_slots v v"
  by (simp add: same_slots_def)

lemma map_set_same: "f h = f (xs ! i) \<Longrightarrow> map f (xs[i := h]) = map f xs"
  by (metis list_update_id map_update)

lemma same_slots_set:
  "fh_used h = fh_used (fh_pool v ! i) \<Longrightarrow> fh_dead h = fh_dead (fh_pool v ! i) \<Longrightarrow> same_slots v (set_fh v i h)"
  "dh_used g = dh_used (dh_pool v ! i) \<Longrightarrow> same_slots v (set_dh v i g)"
  by (simp_all add: same_slots_def set_fh_def set_dh_def map_set_same)

lemma same_slots_calls:
  "blobfs_fs_read F V (v, t) filp dnull n = Some (r, v') \<Longrightarrow> same_slots v v'"
  "blobfs_fs_write F V (v, t) filp src n = Some (q, (v', t')) \<Longrightarrow> same_slots v v'"
  "blobfs_fs_lseek F V (v, t) filp off wh = Some (u, v') \<Longrightarrow> same_slots v v'"
  "blobfs_fs_truncate F V (v, t) filp len = (u, (v', t')) \<Longrightarrow> same_slots v v'"
  "blobfs_fs_readdir F (v, t) dp junk = Some (e, v') \<Longrightarrow> same_slots v v'"
  "blobfs_fs_mount F up (v, t) = Some (u, (v', t')) \<Longrightarrow> same_slots v v'"
  subgoal
    by (auto simp: blobfs_fs_read_def Let_def same_slots_set split: option.splits if_splits sum.splits prod.splits)
  subgoal
    by (auto simp: blobfs_fs_write_def Let_def same_slots_set split: option.splits if_splits sum.splits prod.splits)
  subgoal
    by (auto simp: blobfs_fs_lseek_def Let_def same_slots_set split: option.splits if_splits sum.splits prod.splits)
  subgoal
    by (auto simp: blobfs_fs_truncate_def split: option.splits if_splits prod.splits)
  subgoal
    by (auto simp: blobfs_fs_readdir_def Let_def copy_last_def same_slots_set split: option.splits if_splits sum.splits prod.splits)
  subgoal
    by (auto simp: blobfs_fs_mount_def Let_def same_slots_def split: option.splits if_splits sum.splits prod.splits)
  done

section \<open>Handles have one owner\<close>

definition handles_ok :: "nat \<Rightarrow> nat \<Rightarrow> 's vfs_world \<Rightarrow> bool" where
  "handles_ok files dirs w \<longleftrightarrow>
     length (fh_pool (vw_vfs w)) = files \<and> length (dh_pool (vw_vfs w)) = dirs \<and>
     owned fh_used (fh_pool (vw_vfs w)) (\<lambda>k. filep (vw_files w k)) \<and> owned dh_used (dh_pool (vw_vfs w)) (\<lambda>k. dirp (vw_dirs w k))"

definition orphan :: "nat \<Rightarrow> nat \<Rightarrow> 's vfs_world \<Rightarrow> bool" where
  "orphan k i w \<longleftrightarrow> filep (vw_files w k) = Some i \<and> i < length (fh_pool (vw_vfs w)) \<and> fh_dead (fh_pool (vw_vfs w) ! i)"

lemma same_slots_ok:
  assumes "same_slots (vw_vfs w) (vw_vfs w')" "vw_files w' = vw_files w" "vw_dirs w' = vw_dirs w"
  shows "handles_ok n m w \<Longrightarrow> handles_ok n m w'" "orphan k i w \<Longrightarrow> orphan k i w'"
proof -
  note s = assms(1) [unfolded same_slots_def]
  have l: "length (fh_pool (vw_vfs w')) = length (fh_pool (vw_vfs w))" "length (dh_pool (vw_vfs w')) = length (dh_pool (vw_vfs w))"
    using s by (metis length_map)+
  show "handles_ok n m w \<Longrightarrow> handles_ok n m w'"
    using s l assms(2,3) by (auto simp: handles_ok_def intro: owned_map)
  show "orphan k i w \<Longrightarrow> orphan k i w'" using s l assms(2) unfolding orphan_def by (metis nth_map)
qed

lemma open_slots:
  assumes "blobfs_fs_open F (v, t) filp path create = (r, filp', (v', t'))"
  shows "v' = v \<and> filp' = filp \<or>
    (\<exists>i h. first_free fh_used (fh_pool v) = Some i \<and> v' = set_fh v i h \<and>
       (filp' = filp \<and> \<not> fh_used h \<or> filep filp' = Some i \<and> fh_used h))"
  using assms
  by (fastforce simp: blobfs_fs_open_def fh_alloc_def Let_def fh_free_def set_fh_def new_fh_def first_free_Some split: option.splits prod.splits sum.splits)

lemma opendir_slots:
  assumes "blobfs_fs_opendir F (v, t) dp path = (r, dp', v')"
  shows "v' = v \<and> dp' = dp \<or>
    (\<exists>i h. first_free dh_used (dh_pool v) = Some i \<and> v' = set_dh v i h \<and>
       (dp' = dp \<and> \<not> dh_used h \<or> dirp dp' = Some i \<and> dh_used h))"
  using assms
  by (fastforce simp: blobfs_fs_opendir_def dh_alloc_def Let_def dh_free_def set_dh_def new_dh_def first_free_Some split: option.splits prod.splits sum.splits)

text \<open>A slot set for one owner is no other owner's.\<close>

lemma owned_slot:
  assumes "owned used pool own" "own k = Some j" "\<not> used (pool ! i) \<or> own k' = Some i \<and> k' \<noteq> k"
  shows "j < length pool" "(pool[i := h]) ! j = pool ! j"
proof -
  note D = ownedD [OF assms(1)]
  show "j < length pool" using D(1) [OF assms(2)] by blast
  have "j \<noteq> i" using assms(2,3) D(1) [OF assms(2)] D(2) [OF assms(2), of k'] by auto
  then show "(pool[i := h]) ! j = pool ! j" by simp
qed

lemma exec_open:
  assumes ok: "handles_ok n m w" and k: "filep (vw_files w k) = None" and w: "vfs_exec F V up (Open k path create) w = Some w'"
  shows "handles_ok n m w' \<and> (\<forall>k' i. orphan k' i w \<longrightarrow> orphan k' i w')"
proof -
  obtain r filp v t where o: "blobfs_fs_open F (vw_vfs w, vw_fs w) (vw_files w k) path create = (r, filp, (v, t))" by (metis prod_cases3 surj_pair)
  have w': "w' = w\<lparr>vw_files := (vw_files w)(k := filp), vw_vfs := v, vw_fs := t\<rparr>" using w o by simp
  note H = ok [unfolded handles_ok_def]
  from open_slots [OF o] show ?thesis
  proof (elim disjE exE conjE)
    assume "v = vw_vfs w" "filp = vw_files w k"
    then show ?thesis using ok w' by (simp add: handles_ok_def orphan_def)
  next
    fix i h assume i: "first_free fh_used (fh_pool (vw_vfs w)) = Some i" "v = set_fh (vw_vfs w) i h" "filp = vw_files w k" "\<not> fh_used h"
    then have "owned fh_used ((fh_pool (vw_vfs w))[i := h]) (\<lambda>k. filep (vw_files w k))"
      using H first_free_Some [OF i(1)] by (auto intro!: owned_map [OF map_set_same])
    moreover have "orphan k' j w'" if "orphan k' j w" for k' j
      using owned_slot [of fh_used "fh_pool (vw_vfs w)" "\<lambda>k. filep (vw_files w k)" k' j i] H that i w' first_free_Some [OF i(1)]
      by (auto simp: orphan_def set_fh_def)
    ultimately show ?thesis using H i w' by (simp add: handles_ok_def set_fh_def)
  next
    fix i h assume i: "first_free fh_used (fh_pool (vw_vfs w)) = Some i" "v = set_fh (vw_vfs w) i h" "filep filp = Some i" "fh_used h"
    then have "owned fh_used ((fh_pool (vw_vfs w))[i := h]) ((\<lambda>k. filep (vw_files w k))(k := Some i))" using H k by (blast intro: owned_take)
    moreover have "orphan k' j w'" if "orphan k' j w" for k' j
      using owned_slot [of fh_used "fh_pool (vw_vfs w)" "\<lambda>k. filep (vw_files w k)" k' j i] H that i w' k first_free_Some [OF i(1)]
      by (auto simp: orphan_def set_fh_def)
    moreover have "(\<lambda>k'. filep (vw_files w' k')) = (\<lambda>k. filep (vw_files w k))(k := Some i)" using i w' by auto
    ultimately show ?thesis using H i w' by (simp add: handles_ok_def set_fh_def)
  qed
qed

lemma exec_opendir:
  assumes ok: "handles_ok n m w" and k: "dirp (vw_dirs w k) = None" and w: "vfs_exec F V up (Opendir k path) w = Some w'"
  shows "handles_ok n m w' \<and> (\<forall>k' i. orphan k' i w \<longrightarrow> orphan k' i w')"
proof -
  obtain r dp v where o: "blobfs_fs_opendir F (vw_vfs w, vw_fs w) (vw_dirs w k) path = (r, dp, v)" by (rule prod_cases3)
  have w': "w' = w\<lparr>vw_dirs := (vw_dirs w)(k := dp), vw_vfs := v\<rparr>" using w o by simp
  note H = ok [unfolded handles_ok_def]
  from opendir_slots [OF o] show ?thesis
  proof (elim disjE exE conjE)
    assume "v = vw_vfs w" "dp = vw_dirs w k"
    then show ?thesis using ok w' by (simp add: handles_ok_def orphan_def)
  next
    fix i h assume i: "first_free dh_used (dh_pool (vw_vfs w)) = Some i" "v = set_dh (vw_vfs w) i h" "dp = vw_dirs w k" "\<not> dh_used h"
    then have "owned dh_used ((dh_pool (vw_vfs w))[i := h]) (\<lambda>k. dirp (vw_dirs w k))"
      using H first_free_Some [OF i(1)] by (auto intro!: owned_map [OF map_set_same])
    then show ?thesis using H i w' by (simp add: handles_ok_def set_dh_def orphan_def)
  next
    fix i h assume i: "first_free dh_used (dh_pool (vw_vfs w)) = Some i" "v = set_dh (vw_vfs w) i h" "dirp dp = Some i" "dh_used h"
    then have "owned dh_used ((dh_pool (vw_vfs w))[i := h]) ((\<lambda>k. dirp (vw_dirs w k))(k := Some i))" using H k by (blast intro: owned_take)
    moreover have "(\<lambda>k'. dirp (vw_dirs w' k')) = (\<lambda>k. dirp (vw_dirs w k))(k := Some i)" using i w' by auto
    ultimately show ?thesis using H i w' by (simp add: handles_ok_def set_dh_def orphan_def)
  qed
qed

lemma exec_close:
  assumes ok: "handles_ok n m w" and w: "vfs_exec F V up (Close k) w = Some w'"
  shows "handles_ok n m w' \<and> (\<forall>k' i. orphan k' i w \<longrightarrow> k' \<noteq> k \<longrightarrow> orphan k' i w')"
proof (cases "filep (vw_files w k)")
  case None
  then have "w' = w" using w by (simp add: blobfs_fs_close_def)
  then show ?thesis using ok by simp
next
  case (Some i)
  note H = ok [unfolded handles_ok_def]
  have w': "w' = w\<lparr>vw_files := (vw_files w)(k := (vw_files w k)\<lparr>filep := None\<rparr>), vw_vfs := fh_free (vw_vfs w) i\<rparr>"
    using w Some by (simp add: blobfs_fs_close_def)
  have "owned fh_used ((fh_pool (vw_vfs w))[i := new_fh False]) ((\<lambda>k. filep (vw_files w k))(k := None))"
    using H Some by (intro owned_give) (auto simp: new_fh_def)
  moreover have "(\<lambda>k'. filep (vw_files w' k')) = (\<lambda>k. filep (vw_files w k))(k := None)" using w' by auto
  moreover have "orphan k' j w'" if "orphan k' j w" "k' \<noteq> k" for k' j
    using owned_slot [of fh_used "fh_pool (vw_vfs w)" "\<lambda>k. filep (vw_files w k)" k' j i k] H that w' Some
    by (auto simp: orphan_def set_fh_def fh_free_def)
  ultimately show ?thesis using H w' by (simp add: handles_ok_def set_fh_def fh_free_def)
qed

lemma exec_closedir:
  assumes ok: "handles_ok n m w" and w: "vfs_exec F V up (Closedir k) w = Some w'"
  shows "handles_ok n m w' \<and> (\<forall>k' i. orphan k' i w \<longrightarrow> orphan k' i w')"
proof (cases "dirp (vw_dirs w k)")
  case None
  then have "w' = w" using w by (simp add: blobfs_fs_closedir_def)
  then show ?thesis using ok by simp
next
  case (Some i)
  note H = ok [unfolded handles_ok_def]
  have w': "w' = w\<lparr>vw_dirs := (vw_dirs w)(k := (vw_dirs w k)\<lparr>dirp := None\<rparr>), vw_vfs := dh_free (vw_vfs w) i\<rparr>"
    using w Some by (simp add: blobfs_fs_closedir_def)
  have "owned dh_used ((dh_pool (vw_vfs w))[i := new_dh False]) ((\<lambda>k. dirp (vw_dirs w k))(k := None))"
    using H Some by (intro owned_give) (auto simp: new_dh_def)
  moreover have "(\<lambda>k'. dirp (vw_dirs w' k')) = (\<lambda>k. dirp (vw_dirs w k))(k := None)" using w' by auto
  ultimately show ?thesis using H w' by (simp add: handles_ok_def set_dh_def dh_free_def orphan_def)
qed

lemma unmount_orphans:
  assumes "vfs_exec F V up Unmount w = Some w'"
  shows "handles_ok n m w \<Longrightarrow> handles_ok n m w'" "orphan k i w \<Longrightarrow> orphan k i w'"
    "handles_ok n m w \<Longrightarrow> filep (vw_files w k) = Some i \<Longrightarrow> orphan k i w'"
proof -
  have p: "fh_pool (vw_vfs w') = map orphan_fh (fh_pool (vw_vfs w))" "dh_pool (vw_vfs w') = map orphan_dh (dh_pool (vw_vfs w))"
    "vw_files w' = vw_files w" "vw_dirs w' = vw_dirs w" using assms by (auto simp: blobfs_fs_unmount_def Let_def)
  have u: "fh_used \<circ> orphan_fh = fh_used" "dh_used \<circ> orphan_dh = dh_used" by (auto simp: orphan_fh_def orphan_dh_def fun_eq_iff)
  show "handles_ok n m w \<Longrightarrow> handles_ok n m w'" using p u by (auto simp: handles_ok_def intro: owned_map [rotated])
  show "orphan k i w \<Longrightarrow> orphan k i w'" using p by (auto simp: orphan_def orphan_fh_def)
  show "handles_ok n m w \<Longrightarrow> filep (vw_files w k) = Some i \<Longrightarrow> orphan k i w'"
    using p ownedD(1) [of fh_used "fh_pool (vw_vfs w)" "\<lambda>k. filep (vw_files w k)" k i] by (auto simp: handles_ok_def orphan_def orphan_fh_def)
qed

lemma exec_other:
  assumes w: "vfs_exec F V up c w = Some w'" and c: "\<forall>k p b. c \<noteq> Open k p b" "\<forall>k. c \<noteq> Close k" "\<forall>k p. c \<noteq> Opendir k p" "\<forall>k. c \<noteq> Closedir k" "c \<noteq> Unmount"
  shows "same_slots (vw_vfs w) (vw_vfs w') \<and> vw_files w' = vw_files w \<and> vw_dirs w' = vw_dirs w"
  using w c by (cases c) (auto dest: same_slots_calls split: prod.splits)

lemma exec_ok:
  assumes "handles_ok n m w" "vfs_allows w c" "vfs_exec F V up c w = Some w'"
  shows "handles_ok n m w' \<and> (\<forall>k i. orphan k i w \<longrightarrow> c \<noteq> Close k \<longrightarrow> orphan k i w')"
proof (cases c)
  case (Open k p b)
  then show ?thesis using exec_open [of n m w k F V up p b w'] assms by auto
next
  case (Close k)
  then show ?thesis using exec_close [of n m w F V up k w'] assms by auto
next
  case (Opendir k p)
  then show ?thesis using exec_opendir [of n m w k F V up p w'] assms by auto
next
  case (Closedir k)
  then show ?thesis using exec_closedir [of n m w F V up k w'] assms by auto
next
  case Unmount
  then show ?thesis using unmount_orphans [of F V up w w'] assms by auto
qed (use exec_other [OF assms(3)] same_slots_ok [of w w'] assms(1) in auto)

lemma run_ok:
  assumes "vfs_run F V up w cs w'" "handles_ok n m w"
  shows "handles_ok n m w' \<and> (\<forall>k i. orphan k i w \<longrightarrow> Close k \<notin> set cs \<longrightarrow> orphan k i w')"
  using assms by (induction rule: vfs_run.induct) (auto dest: exec_ok)

lemma boot_ok: "handles_ok n m (vfs_boot n m fl dr t)"
  by (simp add: handles_ok_def vfs_boot_def vfs_init_def owned_def new_fh_def new_dh_def)

lemma orphan_dead:
  assumes "orphan k i w"
  shows "fh_of (vw_vfs w) (vw_files w k) = None"
  using assms by (simp add: orphan_def fh_of_def)

lemma dead_calls:
  assumes "fh_of v filp = None"
  shows "blobfs_fs_read F V (v, t) filp dest_null n = Some (Inl EBADF, v)" "blobfs_fs_write F V (v, t) filp src n = Some (Inl EBADF, (v, t))"
    "blobfs_fs_truncate F V (v, t) filp len = (Inl EBADF, (v, t))" "blobfs_fs_lseek F V (v, t) filp off wh = Some (Inl EBADF, v)"
    "blobfs_fs_tell v filp = Inl EBADF" "blobfs_fs_sync v filp = Inl EBADF"
  using assms by (simp_all add: blobfs_fs_read_def blobfs_fs_write_def blobfs_fs_truncate_def blobfs_fs_lseek_def blobfs_fs_tell_def blobfs_fs_sync_def split: prod.splits)

text \<open>A file of the file system in memory, opened.\<close>

definition rw_file :: fs_file where
  "rw_file = \<lparr>filep = None, f_mountp_len = 0, FS_O_READ = True, FS_O_WRITE = True, FS_O_APPEND = False\<rparr>"

definition vfs32 :: vfs_build where "vfs32 = \<lparr>OFF_BITS = 32, SIZE_BITS = 32, MAX_FILE_NAME = 32\<rparr>"

definition dir_file :: fs_dir where "dir_file = \<lparr>dirp = None, d_mountp_len = 0\<rparr>"

lemma one_file_at: "ns_file (fs_on conf1 (mem_api 256)) (one_file x) 3 [97] = Inr x"
  by (simp add: ns_file_def ns_entry_def ns_where_def path_names_def path_slash_def c_str_def check_name_def one_file_def SLASH_def DOT_def conf1_def)

lemma mem_lookup:
  assumes "mem_inv 256 s" "fs_serves conf1 (mem_api 256) (fst s) session3 3 (one_file x) (one_file x)"
  shows "blobfs_lookup (fs_on conf1 (mem_api 256)) (session3, s) (Some [97]) False = Inr x"
proof -
  from assms(2) obtain mid Q mt v1 where "fs_flash (kvhash_holds (fc_build conf1)) (fs_on conf1 (mem_api 256)) (fst s) mid (one_file x) Q mt v1"
    "fs_session session3 mid mt v1" "fm_dir_root mt = 3" unfolding fs_serves_def by blast
  with memfs.lookup_law [OF assms(1), of mid "one_file x" Q mt v1 session3 "[97]"] one_file_at [of x] show ?thesis by (simp add: conf1_ok(2))
qed

lemma mem_open:
  assumes "mem_inv 256 s" "fs_serves conf1 (mem_api 256) (fst s) session3 3 (one_file x) (one_file x)" "0 < n"
  shows "blobfs_fs_open (fs_on conf1 (mem_api 256)) (vfs_init n 1, (session3, s)) rw_file [97] False =
    (Inr (), rw_file\<lparr>filep := Some 0\<rparr>, (set_fh (vfs_init n 1) 0 \<lparr>fh_used = True, fh_dead = False, fh_body_id = x, fh_pos = 0\<rparr>, (session3, s)))"
  using mem_lookup [OF assms(1,2)] assms(3)
  by (simp add: blobfs_fs_open_def rw_file_def strip_mnt_def fh_alloc_def first_free_def vfs_init_def new_fh_def open_body_def set_fh_def upt_conv_Cons)

text \<open>C35. Whatever calls are made, in any order and with any errors below, every open file and every open
  directory has a handle of its own and every handle in use belongs to one, so an open runs out of handles
  only when all of them are open. A file open across an unmount keeps its handle to itself until it is
  closed, through mounts and opens that follow, and every operation on it is refused with \<open>EBADF\<close>.\<close>

theorem vfs_handles_owned:
  assumes run: "vfs_run F V up (vfs_boot files dirs fl dr t) cs w"
  shows "owned fh_used (fh_pool (vw_vfs w)) (\<lambda>k. filep (vw_files w k)) \<and> owned dh_used (dh_pool (vw_vfs w)) (\<lambda>k. dirp (vw_dirs w k)) \<and>
    (fst (fh_alloc (vw_vfs w)) = None \<longleftrightarrow> (\<forall>i < files. \<exists>k. filep (vw_files w k) = Some i)) \<and>
    (fst (dh_alloc (vw_vfs w)) = None \<longleftrightarrow> (\<forall>i < dirs. \<exists>k. dirp (vw_dirs w k) = Some i)) \<and>
    (\<forall>k i w1 cs' w2. filep (vw_files w k) = Some i \<and> vfs_exec F V up Unmount w = Some w1 \<and> vfs_run F V up w1 cs' w2 \<and> Close k \<notin> set cs' \<longrightarrow>
       filep (vw_files w2 k) = Some i \<and> (\<forall>k'. filep (vw_files w2 k') = Some i \<longrightarrow> k' = k) \<and>
       blobfs_fs_read F V (vw_vfs w2, vw_fs w2) (vw_files w2 k) dest_null n = Some (Inl EBADF, vw_vfs w2) \<and>
       blobfs_fs_write F V (vw_vfs w2, vw_fs w2) (vw_files w2 k) src n = Some (Inl EBADF, (vw_vfs w2, vw_fs w2)) \<and>
       blobfs_fs_truncate F V (vw_vfs w2, vw_fs w2) (vw_files w2 k) len = (Inl EBADF, (vw_vfs w2, vw_fs w2)) \<and>
       blobfs_fs_lseek F V (vw_vfs w2, vw_fs w2) (vw_files w2 k) off wh = Some (Inl EBADF, vw_vfs w2) \<and>
       blobfs_fs_tell (vw_vfs w2) (vw_files w2 k) = Inl EBADF \<and> blobfs_fs_sync (vw_vfs w2) (vw_files w2 k) = Inl EBADF)"
proof -
  have ok: "handles_ok files dirs w" using run_ok [OF run boot_ok] by blast
  note H = ok [unfolded handles_ok_def]
  have full: "(fst (fh_alloc (vw_vfs w)) = None \<longleftrightarrow> (\<forall>i < files. \<exists>k. filep (vw_files w k) = Some i))"
    "(fst (dh_alloc (vw_vfs w)) = None \<longleftrightarrow> (\<forall>i < dirs. \<exists>k. dirp (vw_dirs w k) = Some i))"
    using H owned_full [of fh_used "fh_pool (vw_vfs w)" "\<lambda>k. filep (vw_files w k)"] owned_full [of dh_used "dh_pool (vw_vfs w)" "\<lambda>k. dirp (vw_dirs w k)"]
    by simp_all
  have own: "filep (vw_files w2 k) = Some i \<and> (\<forall>k'. filep (vw_files w2 k') = Some i \<longrightarrow> k' = k) \<and> fh_of (vw_vfs w2) (vw_files w2 k) = None"
    if k: "filep (vw_files w k) = Some i" and u: "vfs_exec F V up Unmount w = Some w1" and r: "vfs_run F V up w1 cs' w2" "Close k \<notin> set cs'" for k i w1 cs' w2
  proof -
    note ok1 = unmount_orphans(1,3) [OF u]
    have o: "orphan k i w2" "handles_ok files dirs w2" using run_ok [OF r(1) ok1(1) [OF ok]] ok1(2) [OF ok k] r(2) by blast+
    then have "owned fh_used (fh_pool (vw_vfs w2)) (\<lambda>k. filep (vw_files w2 k))" by (simp add: handles_ok_def)
    from ownedD(2) [OF this] o(1) orphan_dead [OF o(1)] show ?thesis by (auto simp: orphan_def)
  qed
  show ?thesis
  proof (intro conjI full)
    show "owned fh_used (fh_pool (vw_vfs w)) (\<lambda>k. filep (vw_files w k))" "owned dh_used (dh_pool (vw_vfs w)) (\<lambda>k. dirp (vw_dirs w k))"
      using H by blast+
  qed (intro allI impI, elim conjE, drule (3) own, simp add: dead_calls)
qed

theorem vfs_handles_owned_witness:
  "\<exists>s w w1. vfs_run (fs_on conf1 (mem_api 256)) vfs32 (\<lambda>s. (Inl EALREADY, s)) (vfs_boot 1 1 (\<lambda>_. rw_file) (\<lambda>_. dir_file) (session3, s)) [Open 0 [97] False] w \<and>
     filep (vw_files w 0) = Some 0 \<and> fst (fh_alloc (vw_vfs w)) = None \<and>
     vfs_exec (fs_on conf1 (mem_api 256)) vfs32 (\<lambda>s. (Inl EALREADY, s)) Unmount w = Some w1 \<and> blobfs_fs_tell (vw_vfs w1) (vw_files w1 0) = Inl EBADF"
proof -
  let ?F = "fs_on conf1 (mem_api 256)" and ?up = "\<lambda>s :: mem. (Inl EALREADY, s)"
  obtain s x where s: "mem_inv 256 s" "fs_serves conf1 (mem_api 256) (fst s) session3 3 (one_file x) (one_file x)" using mem_fs_file by blast
  let ?w0 = "vfs_boot 1 1 (\<lambda>_. rw_file) (\<lambda>_. dir_file) (session3, s)"
  obtain w where w: "vfs_exec ?F vfs32 ?up (Open 0 [97] False) ?w0 = Some w" "filep (vw_files w 0) = Some 0"
    using mem_open [OF s, of 1] by (simp add: vfs_boot_def rw_file_def)
  have run: "vfs_run ?F vfs32 ?up ?w0 [Open 0 [97] False] w"
    using run_call [OF run_none, of ?w0 "Open 0 [97] False"] w(1) by (simp add: vfs_boot_def)
  obtain w1 where w1: "vfs_exec ?F vfs32 ?up Unmount w = Some w1" by (simp add: blobfs_fs_unmount_def split: prod.splits)
  have "\<forall>i < 1. \<exists>k. filep (vw_files w k) = Some i" using w(2) by auto
  moreover note O = vfs_handles_owned [OF run]
  ultimately have "fst (fh_alloc (vw_vfs w)) = None" by blast
  moreover have "blobfs_fs_tell (vw_vfs w1) (vw_files w1 0) = Inl EBADF"
    using O [THEN conjunct2, THEN conjunct2, THEN conjunct2, THEN conjunct2, rule_format, of 0 0 w1 "[]" w1] w(2) w1 run_none [of ?F vfs32 ?up w1] by simp
  ultimately show ?thesis using run w w1 by blast
qed

end
