(* ===== verification/Blobfs_HandleIo.thy ===== *)
theory Blobfs_HandleIo
  imports Blobfs_Handles
begin

text \<open>
  Reading and writing through handles of the driver, on every object store: what a file and a directory
  handle give is the file and the directory they were opened on.
\<close>

section \<open>Positions\<close>

text \<open>A position is never negative, fits \<open>size_t\<close>, and no payload reaches the end of \<open>off_t\<close>.\<close>

definition vfs_fits :: "vfs_build \<Rightarrow> fs_conf \<Rightarrow> bool" where
  "vfs_fits V C \<longleftrightarrow> 0 < OFF_BITS V \<and> OFF_BITS V \<le> SIZE_BITS V + 1 \<and> MAX_PAYLOAD_LEN (fc_build C) < 2 ^ (OFF_BITS V - 1)"

lemma to_size_nat:
  assumes "OFF_BITS V \<le> SIZE_BITS V + 1" "p < 2 ^ (OFF_BITS V - 1)"
  shows "to_size V (int p) = p"
proof -
  have "(2 :: nat) ^ (OFF_BITS V - 1) \<le> 2 ^ SIZE_BITS V" using assms(1) by (intro power_increasing) auto
  with assms(2) have "p < 2 ^ SIZE_BITS V" by (rule less_le_trans)
  then have "int p mod 2 ^ SIZE_BITS V = int p" by (simp flip: of_nat_power)
  then show ?thesis by (simp add: to_size_def)
qed

lemma to_off_nat: "n < 2 ^ (OFF_BITS V - 1) \<Longrightarrow> to_off V n = int n"
  unfolding to_off_def by (rule signed_take_bit_int_eq_self) (simp_all flip: of_nat_power add: order_trans [of _ 0])

lemma off_add_nat: "a + b < 2 ^ (OFF_BITS V - 1) \<Longrightarrow> off_add V (int a) (int b) = Some (int (a + b))"
proof -
  assume l: "a + b < 2 ^ (OFF_BITS V - 1)"
  have "- (2 ^ (OFF_BITS V - 1)) \<le> (0 :: int)" "int a + int b < 2 ^ (OFF_BITS V - 1)" using l by (simp_all flip: of_nat_power of_nat_add)
  then show ?thesis by (simp add: off_add_def)
qed

section \<open>Through a handle\<close>

context fs_store
begin

lemma handle_read:
  assumes i: "inv s" and x: "objs s x = Some c" and h: "fh_of v filp = Some j" "fh_body_id (fh_pool v ! j) = x" "fh_pos (fh_pool v ! j) = int p"
    and V: "OFF_BITS V \<le> SIZE_BITS V + 1" "cap < 2 ^ (OFF_BITS V - 1)" "p < 2 ^ (OFF_BITS V - 1)" and R: "FS_O_READ filp"
  shows "blobfs_fs_read F V (v, (st, s)) filp False n =
    Some (Inr (take n (drop p c)), set_fh v j ((fh_pool v ! j)\<lparr>fh_pos := int (p + length (take n (drop p c)))\<rparr>))"
proof -
  have l: "length c \<le> cap" using bound_law [OF i x] by blast
  have "p + length (take n (drop p c)) < 2 ^ (OFF_BITS V - 1)" using l V(2,3) by (cases "p \<le> length c") auto
  moreover from this have "to_off V (length (take n (drop p c))) = int (length (take n (drop p c)))" by (intro to_off_nat) simp
  ultimately show ?thesis
    using h R read_id_law(1) [OF i x, of p n] to_size_nat [OF V(1,3)] off_add_nat [of p "length (take n (drop p c))" V]
    by (simp add: blobfs_fs_read_def Let_def)
qed

lemma handle_write:
  assumes i: "inv s" and x: "objs s x = Some c" and h: "fh_of v filp = Some j" "fh_body_id (fh_pool v ! j) = x" "fh_pos (fh_pool v ! j) = int p"
    and V: "OFF_BITS V \<le> SIZE_BITS V + 1" "cap < 2 ^ (OFF_BITS V - 1)" "BLOBFS_FILE_MAX F < 2 ^ (OFF_BITS V - 1)" "p < 2 ^ (OFF_BITS V - 1)"
    and W: "FS_O_WRITE filp" and b: "len \<le> length b"
  defines "at \<equiv> if FS_O_APPEND filp then length c else p"
  shows "\<exists>r s'. blobfs_write_id F s x at (Some b) len = (r, s') \<and>
    blobfs_fs_write F V (v, (st, s)) filp (Some b) len =
      Some (case r of Inl e \<Rightarrow> (Inl e, (v, (st, s')))
            | Inr _ \<Rightarrow> (Inr len, (set_fh v j ((fh_pool v ! j)\<lparr>fh_pos := int (at + len)\<rparr>), (st, s'))))"
proof -
  have l: "length c < 2 ^ (OFF_BITS V - 1)" using bound_law [OF i x] V(2) by auto
  have a: "at < 2 ^ (OFF_BITS V - 1)" using l V(4) by (simp add: at_def)
  have start: "(if FS_O_APPEND filp then andthen (blobfs_size_id F s x False) (\<lambda>size. Inr (to_off V size)) else Inr (int p)) = Inr (int at)"
    using read_id_law(2) [OF i x] to_off_nat [OF l] by (simp add: at_def)
  obtain r s' where w: "blobfs_write_id F s x at (Some b) len = (r, s')" by fastforce
  note wl = write_id_law [OF i x b w]
  show ?thesis
  proof (cases r)
    case (Inl e)
    with w h W start to_size_nat [OF V(1) a] show ?thesis by (auto simp: blobfs_fs_write_def Let_def)
  next
    case (Inr u)
    then have "at + len < 2 ^ (OFF_BITS V - 1)" using wl V(3) a by (cases "len = 0") auto
    moreover from this have "to_off V len = int len" by (intro to_off_nat) simp
    ultimately show ?thesis
      using Inr w h W start to_size_nat [OF V(1) a] off_add_nat [of at len V] by (auto simp: blobfs_fs_write_def Let_def)
  qed
qed

lemma handle_truncate:
  assumes h: "fh_of v filp = Some j" "fh_body_id (fh_pool v ! j) = x" and V: "OFF_BITS V \<le> SIZE_BITS V + 1" "sz < 2 ^ (OFF_BITS V - 1)"
    and W: "FS_O_WRITE filp"
  shows "blobfs_fs_truncate F V (v, (st, s)) filp (int sz) = (let (r, s') = blobfs_truncate_id F s x sz in (r, (v, (st, s'))))"
  using assms to_size_nat [OF V] by (simp add: blobfs_fs_truncate_def)

lemma handle_seek_end:
  assumes i: "inv s" and x: "objs s x = Some c" and h: "fh_of v filp = Some j" "fh_body_id (fh_pool v ! j) = x"
    and V: "cap < 2 ^ (OFF_BITS V - 1)"
  shows "blobfs_fs_lseek F V (v, (st, s)) filp off FS_SEEK_END =
    (case off_add V (int (length c)) off of None \<Rightarrow> None
     | Some q \<Rightarrow> if q < 0 then Some (Inl EINVAL, v) else Some (Inr (), set_fh v j ((fh_pool v ! j)\<lparr>fh_pos := q\<rparr>)))"
proof -
  have l: "length c < 2 ^ (OFF_BITS V - 1)" using bound_law [OF i x] V by auto
  show ?thesis using h read_id_law(2) [OF i x] to_off_nat [OF l] by (simp add: blobfs_fs_lseek_def Let_def split: option.splits)
qed

lemma handle_gone:
  assumes i: "inv s" and x: "objs s x = None" and h: "fh_of v filp = Some j" "fh_body_id (fh_pool v ! j) = x" and R: "FS_O_READ filp"
  shows "blobfs_fs_read F V (v, (st, s)) filp False n = Some (Inl ENOENT, v)"
  using h R read_law [OF i, of x] x by (simp add: blobfs_fs_read_def Let_def blobfs_read_id_def)

end

text \<open>C33. Through a handle opened on a file, at its position, a read gives the bytes that are there and moves
  the position past them; a write, at the position or at the end when appending, replaces its range and
  leaves the position behind it; a truncate resizes and moves nothing; a seek from the end goes where it
  says unless that is before the start. A call that fails changes neither the file nor the position, and
  no call touches another object or the name space. Positions stay within \<open>off_t\<close>.\<close>

theorem vfs_file_io:
  assumes ks: "kv_store A valid objs nxt (fc_build C)" and C: "fs_conf_ok C" and V: "vfs_fits V C" and i: "valid s"
    and fs: "fs_serves C A (objs s) st root G N" and x: "x \<in> file_ids G"
    and h: "fh_of v filp = Some j" "fh_pool v ! j = \<lparr>fh_used = True, fh_dead = False, fh_body_id = x, fh_pos = int p\<rparr>"
    and p: "p < 2 ^ (OFF_BITS V - 1)" "sz < 2 ^ (OFF_BITS V - 1)" and fl: "FS_O_READ filp" "FS_O_WRITE filp" and b: "len \<le> length b"
  defines "at_pos q \<equiv> set_fh v j \<lparr>fh_used = True, fh_dead = False, fh_body_id = x, fh_pos = q\<rparr>"
  shows "\<exists>c. objs s x = Some c \<and>
    blobfs_fs_read (fs_on C A) V (v, (st, s)) filp False n = Some (Inr (take n (drop p c)), at_pos (int (p + length (take n (drop p c))))) \<and>
    (\<exists>r v' s'. blobfs_fs_write (fs_on C A) V (v, (st, s)) filp (Some b) len = Some (r, (v', (st, s'))) \<and>
       valid s' \<and> fs_serves C A (objs s') st root G N \<and>
       (case r of
          Inl _ \<Rightarrow> v' = v \<and> objs s' = objs s
        | Inr m \<Rightarrow> m = len \<and> v' = at_pos (int ((if FS_O_APPEND filp then length c else p) + len)) \<and>
            objs s' = (objs s)(x \<mapsto> if len = 0 then c else write_over c (if FS_O_APPEND filp then length c else p) (take len b)))) \<and>
    (\<exists>r s'. blobfs_fs_truncate (fs_on C A) V (v, (st, s)) filp (int sz) = (r, (v, (st, s'))) \<and>
       valid s' \<and> fs_serves C A (objs s') st root G N \<and>
       objs s' = (case r of Inl _ \<Rightarrow> objs s | Inr _ \<Rightarrow> (objs s)(x \<mapsto> resize c sz))) \<and>
    blobfs_fs_lseek (fs_on C A) V (v, (st, s)) filp off FS_SEEK_END =
      (case off_add V (int (length c)) off of None \<Rightarrow> None
       | Some q \<Rightarrow> if q < 0 then Some (Inl EINVAL, v) else Some (Inr (), at_pos q))"
proof -
  note sh = kv_fs_store [OF ks C] and Vs = V [unfolded vfs_fits_def]
  let ?F = "fs_on C A" and ?at = "\<lambda>c. if FS_O_APPEND filp then length c else p"
  from fs obtain mid Q mt v1 where fsh: "fs_flash (kvhash_holds (fc_build C)) ?F (objs s) mid G Q mt v1"
    and st: "fs_session st mid mt v1" and N: "settled G mt = N" and root: "fm_dir_root mt = root" unfolding fs_serves_def by blast
  from fs_store.flashD(6) [OF sh fsh] x obtain c where c: "objs s x = Some c" by (auto simp: loose_ok_def)
  have hb: "fh_body_id (fh_pool v ! j) = x" "fh_pos (fh_pool v ! j) = int p" using h(2) by simp_all
  have ap: "set_fh v j ((fh_pool v ! j)\<lparr>fh_pos := q\<rparr>) = at_pos q" for q by (simp add: at_pos_def h(2))
  have Vo: "OFF_BITS V \<le> SIZE_BITS V + 1" "MAX_PAYLOAD_LEN (fc_build C) < 2 ^ (OFF_BITS V - 1)" using Vs by auto
  have sv: "fs_serves C A ((objs s)(x \<mapsto> c')) st root G N" for c' by (rule servesI [OF fs_store.flash_body [OF sh fsh x] st N root])
  have rd: "blobfs_fs_read ?F V (v, (st, s)) filp False n = Some (Inr (take n (drop p c)), at_pos (int (p + length (take n (drop p c)))))"
    using fs_store.handle_read [OF sh i c h(1) hb Vo p(1) fl(1), of st n] by (simp add: ap)
  from fs_store.handle_write [OF sh i c h(1) hb Vo _ p(1) fl(2) b, of st] Vo(2) obtain r s' where
    w: "blobfs_write_id ?F s x (?at c) (Some b) len = (r, s')"
      "blobfs_fs_write ?F V (v, (st, s)) filp (Some b) len =
        Some (case r of Inl e \<Rightarrow> (Inl e, (v, (st, s'))) | Inr _ \<Rightarrow> (Inr len, (at_pos (int (?at c + len)), (st, s'))))"
    unfolding ap fs_on_sel by blast
  note wl = fs_store.write_id_law [OF sh i c b w(1)]
  have W: "\<exists>r v' s'. blobfs_fs_write ?F V (v, (st, s)) filp (Some b) len = Some (r, (v', (st, s'))) \<and>
       valid s' \<and> fs_serves C A (objs s') st root G N \<and>
       (case r of Inl _ \<Rightarrow> v' = v \<and> objs s' = objs s
        | Inr m \<Rightarrow> m = len \<and> v' = at_pos (int (?at c + len)) \<and>
            objs s' = (objs s)(x \<mapsto> if len = 0 then c else write_over c (?at c) (take len b)))"
    using w(2) wl fs sv by (cases r) auto
  obtain q s'' where t: "blobfs_truncate_id ?F s x sz = (q, s'')" by fastforce
  note tl = fs_store.truncate_id_law [OF sh i c t]
  have T: "\<exists>r s'. blobfs_fs_truncate ?F V (v, (st, s)) filp (int sz) = (r, (v, (st, s'))) \<and>
       valid s' \<and> fs_serves C A (objs s') st root G N \<and> objs s' = (case r of Inl _ \<Rightarrow> objs s | Inr _ \<Rightarrow> (objs s)(x \<mapsto> resize c sz))"
    using fs_store.handle_truncate [OF sh h(1) hb(1) Vo(1) p(2) fl(2), of st s] t tl fs sv by (cases q) auto
  show ?thesis using c rd W T fs_store.handle_seek_end [OF sh i c h(1) hb(1) Vo(2), of st off] unfolding ap by blast
qed

theorem vfs_file_io_witness:
  "\<exists>s x v filp r v' s'. blobfs_fs_open (fs_on conf1 (mem_api 256)) (vfs_init 1 1, (session3, s)) rw_file [97] False = (Inr (), filp, (v, (session3, s))) \<and>
     fs_serves conf1 (mem_api 256) (fst s) session3 3 (one_file x) (one_file x) \<and>
     blobfs_fs_write (fs_on conf1 (mem_api 256)) vfs32 (v, (session3, s)) filp (Some [7, 9]) 2 = Some (r, (v', (session3, s'))) \<and>
     (case r of Inl _ \<Rightarrow> v' = v \<and> fst s' x = Some [] | Inr m \<Rightarrow> m = 2 \<and> fh_pos (fh_pool v' ! 0) = 2 \<and> fst s' x = Some [7, 9]) \<and>
     blobfs_fs_lseek (fs_on conf1 (mem_api 256)) vfs32 (v, (session3, s)) filp (- 1) FS_SEEK_END = Some (Inl EINVAL, v)"
proof -
  let ?F = "fs_on conf1 (mem_api 256)" and ?filp = "rw_file\<lparr>filep := Some 0\<rparr>"
  obtain s x where s: "mem_inv 256 s" "fst s x = Some []" "fs_serves conf1 (mem_api 256) (fst s) session3 3 (one_file x) (one_file x)" using mem_fs_file by blast
  let ?v = "set_fh (vfs_init 1 1) 0 \<lparr>fh_used = True, fh_dead = False, fh_body_id = x, fh_pos = 0\<rparr>"
  have V: "vfs_fits vfs32 conf1" by (simp add: vfs_fits_def vfs32_def conf1_def mem_build_def sim_build_def)
  have x: "x \<in> file_ids (one_file x)"
    unfolding file_ids_def by (auto simp: one_file_def is_dir_def new_dirent_def BLOBFS_TYPE_FILE_def BLOBFS_TYPE_DIR_def intro!: exI [of _ 3] exI [of _ "[97]"])
  have h: "fh_of ?v ?filp = Some 0" "fh_pool ?v ! 0 = \<lparr>fh_used = True, fh_dead = False, fh_body_id = x, fh_pos = int 0\<rparr>"
    by (simp_all add: fh_of_def set_fh_def vfs_init_def)
  have fl: "FS_O_READ ?filp" "FS_O_WRITE ?filp" "\<not> FS_O_APPEND ?filp" by (simp_all add: rw_file_def)
  have p: "0 < (2 :: nat) ^ (OFF_BITS vfs32 - 1)" by simp
  have "2 \<le> length [7, 9 :: byte]" by simp
  note O = vfs_file_io [OF mem_fs_facts(4) conf1_ok(1) V s(1,3) x h p p fl(1,2) this, of 0 "- 1", unfolded s(2)]
  from O obtain r v' s' where w: "blobfs_fs_write ?F vfs32 (?v, (session3, s)) ?filp (Some [7, 9]) 2 = Some (r, (v', (session3, s')))"
    "case r of Inl _ \<Rightarrow> v' = ?v \<and> fst s' = fst s
     | Inr m \<Rightarrow> m = 2 \<and>
         v' = set_fh ?v 0 \<lparr>fh_used = True, fh_dead = False, fh_body_id = x, fh_pos = int ((if FS_O_APPEND ?filp then length ([] :: byte list) else 0) + 2)\<rparr> \<and>
         fst s' = (fst s)(x \<mapsto> if (2 :: nat) = 0 then [] else write_over [] (if FS_O_APPEND ?filp then length ([] :: byte list) else 0) (take 2 [7, 9]))"
    by blast
  from O have "blobfs_fs_lseek ?F vfs32 (?v, (session3, s)) ?filp (- 1) FS_SEEK_END =
      (case off_add vfs32 (int (length ([] :: byte list))) (- 1) of None \<Rightarrow> None
       | Some q \<Rightarrow> if q < 0 then Some (Inl EINVAL, ?v) else Some (Inr (), set_fh ?v 0 \<lparr>fh_used = True, fh_dead = False, fh_body_id = x, fh_pos = q\<rparr>))" by blast
  then have sk: "blobfs_fs_lseek ?F vfs32 (?v, (session3, s)) ?filp (- 1) FS_SEEK_END = Some (Inl EINVAL, ?v)"
    by (simp add: off_add_def vfs32_def)
  have "case r of Inl _ \<Rightarrow> v' = ?v \<and> fst s' x = Some [] | Inr m \<Rightarrow> m = 2 \<and> fh_pos (fh_pool v' ! 0) = 2 \<and> fst s' x = Some [7, 9]"
    using w(2) s(2) fl(3) by (cases r) (simp_all add: set_fh_def vfs_init_def write_over_def splice_def)
  with mem_open [OF s(1,3) zero_less_one] s(3) w(1) sk show ?thesis by blast
qed

section \<open>Handles and names\<close>

context fs_store
begin

lemma evolve_gone:
  assumes "fs_evolve {} mid s G Q s' G' Q'" "unat x < nxt s" "x \<noteq> mid" "x \<notin> dir_ids G Q"
  shows "objs s' x = objs s x" "unat x < nxt s'" "x \<notin> dir_ids G' Q'"
  using assms by (auto simp: fs_evolve_def touch_def)

text \<open>An unlink releases the body, or leaves it as it was when the store fails to.\<close>

lemma unlink_body:
  assumes i: "inv s" and fl: "flash (objs s) mid G Q mt v1" and st: "fs_session st mid mt v1"
    and run: "blobfs_unlink F (st, s) (Some p) = (Inr (), (st', s'))"
    and u: "ns_unlink F (settled G mt) (fm_dir_root mt) p = Inr (de, M)" "\<not> is_dir de" and x: "de_body_id de \<in> file_ids G"
  shows "(objs s' (de_body_id de) = None \<or> objs s' (de_body_id de) = objs s (de_body_id de)) \<and> nxt s' = nxt s"
proof -
  let ?N = "settled G mt" and ?x = "de_body_id de"
  obtain r0 st0 s0 where se: "intent_settle F (st, s) = (r0, (st0, s0))" by (rule prod_cases3)
  have r0: "r0 = Inr ()" using run se by (cases r0) (simp_all add: blobfs_unlink_def)
  from settle_law [OF i fl st se] r0 obtain Q0 mt0 v0 where q: "fs_evolve {} mid s G Q s0 ?N Q0"
    "flash (objs s0) mid ?N Q0 mt0 v0" "fm_dir_root mt0 = fm_dir_root mt" "fs_session st0 mid mt0 v0" "nxt s0 = nxt s" by (auto simp: stands_def)
  note b = loose_bound(2,3) [OF i fl, of ?x]
  have xm: "?x \<noteq> mid" using flashD(6) [OF fl] x by (auto simp: loose_ok_def)
  note g0 = evolve_gone [OF q(1) _ xm]
  from u obtain w where w: "ns_where F ?N (fm_dir_root mt) p = Inr w" "ns_entry F ?N (fm_dir_root mt) p = Inr de"
    by (auto simp: ns_unlink_def andthen_Inr split: if_splits)
  from w(2) have e: "entry ?N (w_dir w) (w_name w) = Some de" using w(1) by (auto elim!: ns_entry_Inr)
  then have gd: "?N (w_dir w) \<noteq> None" by (auto simp: entry_def split: option.splits)
  have i0: "inv s0" using evolve_inv [OF q(1)] by blast
  have ue: "unlink_entry F (st0, s0) w de = (Inr (), (st', s'))"
    using run se r0 resolve_ns [OF i0 q(2,4), of p] w u(2) by (simp add: blobfs_unlink_def q(3) at_root_def is_dir_def)
  obtain r1 s1 where dl: "op_del Ops s0 (w_dir w) (w_name w) = (r1, s1)" by fastforce
  from del_law [OF i0 q(2) gd dl] obtain Q1 where q1: "fs_evolve {} mid s0 ?N Q0 s1 (effect r1 (set_entry ?N (w_dir w) (w_name w) None) ?N) Q1" "nxt s1 = nxt s0" by blast
  have keep: "objs s1 ?x = objs s ?x" using evolve_gone(1) [OF q1(1) _ xm] g0 b x by auto
  obtain r2 s2 where ds: "api_delete A s1 ?x = (r2, s2)" by fastforce
  have "s' = s2" using ue dl ds u(2) by (cases r1) (simp_all add: unlink_entry_def is_dir_def)
  with delete_law [OF _ ds] evolve_inv [OF q1(1)] keep q1(2) q(5) show ?thesis by (cases r2) auto
qed

lemma open_body_law:
  assumes i: "inv s" and fl: "flash (objs s) mid G Q mt v1" and st: "fs_session st mid mt v1" and lim: "nxt s + 4 \<le> ID_LIMIT"
    and run: "open_body F (st, s) p create = (r, (st', s'))"
  shows "\<exists>G' Q'. fs_evolve {} mid s G Q s' G' Q' \<and> (\<forall>y. r = Inr y \<longrightarrow> y \<in> file_ids G \<or> nxt s \<le> unat y)"
proof (cases "blobfs_lookup F (st, s) (Some p) False = Inl ENOENT \<and> create")
  case False
  then have "r = ns_file F G (fm_dir_root mt) p" "s' = s" using run lookup_law [OF i fl st, of p] by (auto simp: open_body_def)
  with evolve_refl [OF i] file_body(1) [OF fl] show ?thesis by (intro exI [of _ G] exI [of _ Q]) auto
next
  case True
  obtain r1 st1 s1 where cr: "blobfs_create F (st, s) (Some p) = (r1, (st1, s1))" by (rule prod_cases3)
  from create_law [OF i fl st lim cr] obtain G' Q' where q: "st1 = st" "fs_evolve {} mid s G Q s1 G' Q'" "flash (objs s1) mid G' Q' mt v1"
    "case r1 of Inl _ \<Rightarrow> G' = G
     | Inr _ \<Rightarrow> \<exists>w x. free_at F G (fm_dir_root mt) p w \<and> \<not> w_want_dir w \<and> nxt s \<le> unat x \<and>
         G' = set_entry G (w_dir w) (w_name w) (Some (new_dirent BLOBFS_TYPE_FILE x)) \<and> objs s1 x = Some []" by blast
  have i1: "inv s1" using evolve_inv [OF q(2)] by blast
  show ?thesis
  proof (cases r1)
    case (Inl e)
    with run True cr q show ?thesis by (auto simp: open_body_def)
  next
    case (Inr u)
    then have r: "r = ns_file F G' (fm_dir_root mt) p" "s' = s1"
      using run True cr lookup_law [OF i1 q(3) st, of p] q(1) by (simp_all add: open_body_def)
    have "y \<in> file_ids G \<or> nxt s \<le> unat y" if "y \<in> file_ids G'" for y
      using q(4) Inr that unfolding file_ids_def by (auto split: if_splits) blast+
    with file_body(1) [OF q(3)] q(2) r show ?thesis by (intro exI [of _ G'] exI [of _ Q']) auto
  qed
qed

end


lemma unlink_settles:
  assumes "blobfs_unlink F (st, s) p = (Inr (), (st', s'))"
  shows "\<not> fs_intent_pending st'"
proof -
  obtain r0 st0 s0 where se: "intent_settle F (st, s) = (r0, (st0, s0))" by (rule prod_cases3)
  have r0: "r0 = Inr ()" using assms se by (cases r0) (simp_all add: blobfs_unlink_def)
  then have "\<not> fs_intent_pending st0"
    using se by (auto simp: intent_settle_def reads_def seqs_Inr split: if_splits sum.splits prod.splits)
  moreover have "st' = st0" using assms se r0
    by (auto simp: blobfs_unlink_def unlink_entry_def Let_def reads_def split: if_splits sum.splits prod.splits)
  ultimately show ?thesis by simp
qed

context fs_store
begin

text \<open>The body of an unlinked file, and what an open gives after it.\<close>

lemma unlink_then_open:
  assumes i: "inv s" and fl: "flash (objs s) mid G Q mt v1" and st: "fs_session st mid mt v1"
    and run: "blobfs_unlink F (st, s) (Some p) = (Inr (), (st', s'))" and lim: "nxt s + 4 \<le> ID_LIMIT"
    and u: "ns_unlink F (settled G mt) (fm_dir_root mt) p = Inr (de, M)" "\<not> is_dir de"
    and op: "open_body F (st', s') p2 create = (r, (st2, s2))"
  shows "inv s' \<and> inv s2 \<and> objs s2 (de_body_id de) = objs s' (de_body_id de) \<and>
    (objs s' (de_body_id de) = None \<or> objs s' (de_body_id de) = objs s (de_body_id de)) \<and> r \<noteq> Inr (de_body_id de)"
proof -
  let ?x = "de_body_id de" and ?N = "settled G mt"
  from u obtain w where w: "ns_where F ?N (fm_dir_root mt) p = Inr w" "ns_entry F ?N (fm_dir_root mt) p = Inr de" "M = set_entry ?N (w_dir w) (w_name w) None"
    by (auto simp: ns_unlink_def without_def andthen_Inr split: if_splits)
  from w(1,2) have e: "entry ?N (w_dir w) (w_name w) = Some de" by (auto elim!: ns_entry_Inr)
  then have "entry G (w_dir w) (w_name w) = Some de" by (auto simp: settled_def split: if_splits)
  then have x: "?x \<in> file_ids G" using u(2) by (auto simp: file_ids_def)
  have xm: "?x \<noteq> mid" using flashD(6) [OF fl] x by (auto simp: loose_ok_def)
  note b = loose_bound(2,3) [OF i fl, of ?x]
  from unlink_law [OF i fl st run] u(1) obtain G' Q' mt' v1' where q: "fs_session st' mid mt' v1'" "fs_evolve {?x} mid s G Q s' G' Q'"
    "stands s' mid M (fm_dir_root mt) G' Q' mt' v1'" by auto
  have i': "inv s'" "unat ?x < nxt s'" using evolve_inv [OF q(2)] b(1) x by auto
  have xd: "?x \<notin> dir_ids G' Q'" using q(2) b x by (auto simp: fs_evolve_def)
  have f': "flash (objs s') mid G' Q' mt' v1'" using q(3) by (simp add: stands_def)
  note ub = unlink_body [OF i fl st run u x]
  then have "nxt s' + 4 \<le> ID_LIMIT" using lim by simp
  from open_body_law [OF i'(1) f' q(1) this op] obtain G2 Q2 where o: "fs_evolve {} mid s' G' Q' s2 G2 Q2"
    "\<forall>y. r = Inr y \<longrightarrow> y \<in> file_ids G' \<or> nxt s' \<le> unat y" by blast
  have nf: "\<not> in_flight mt'" using q(1) unlink_settles [OF run] by (auto simp: fs_session_def)
  have "fm_dir_root mt' = fm_dir_root mt" using q(3) by (simp add: stands_def)
  note N = names_settled [OF flashD(7) [OF fl] nf this]
  have "?x \<notin> file_ids M"
    using names_quiet_uniq [OF N nf e] by (auto simp: file_ids_def w(3) split: if_splits)
  then have "?x \<notin> file_ids G'" using q(3) nf by (simp add: stands_def)
  then have "r \<noteq> Inr ?x" using o(2) i'(2) by auto
  with ub evolve_gone(1) [OF o(1) i'(2) xm xd] evolve_inv [OF o(1)] i'(1) show ?thesis by blast
qed

end



section \<open>Listing a directory\<close>

text \<open>A caller reads a directory handle until it has seen enough; each call leaves the file system as it is.\<close>

inductive dir_reads :: "'s fs_build \<Rightarrow> fs \<times> 's \<Rightarrow> fs_dir \<Rightarrow> vfs \<Rightarrow> fs_dirent list \<Rightarrow> vfs \<Rightarrow> bool" for F t dp v where
  reads_none: "dir_reads F t dp v [] v"
| reads_next: "dir_reads F t dp v es v1 \<Longrightarrow> blobfs_fs_readdir F (v1, t) dp junk = Some (Inr (Some e), v2) \<Longrightarrow> dir_reads F t dp v (es @ [e]) v2"

lemma c_str_plain: "0 \<notin> set n \<Longrightarrow> c_str n = n"
  by (auto simp: c_str_def takeWhile_eq_all_conv)

text \<open>A live directory handle with the listing at \<open>cur\<close>.\<close>

definition listing_at :: "fs_dir \<Rightarrow> u64 \<Rightarrow> byte list \<Rightarrow> vfs \<Rightarrow> bool" where
  "listing_at dp d cur v \<longleftrightarrow> (\<exists>j. dirp dp = Some j \<and> j < length (dh_pool v) \<and>
     dh_pool v ! j = \<lparr>dh_used = True, dh_dead = False, dh_done = False, dh_dir_id = d, dh_last = cur\<rparr>)"

lemma readdir_next:
  assumes l: "listing_at dp d cur v" and n: "0 \<notin> set n" "length n \<le> BLOBFS_NAME_MAX F"
    and nx: "blobfs_next_id F t d (Some (cur @ [0])) False False = (Some n, Inr (Some x))"
  shows "\<exists>v'. listing_at dp d n v' \<and>
    blobfs_fs_readdir F (v, t) dp junk = Some (Inr (Some \<lparr>ent_type = vfs_type (st_type x), ent_name = n, ent_size = st_size x\<rparr>), v')"
  using l n(2) nx c_str_plain [OF n(1)]
  by (auto simp: listing_at_def blobfs_fs_readdir_def copy_last_def Let_def set_dh_def)

lemma readdir_end:
  assumes l: "listing_at dp d cur v" and nx: "blobfs_next_id F t d (Some (cur @ [0])) False False = (nm, Inl ENODATA)"
  shows "\<exists>v'. blobfs_fs_readdir F (v, t) dp junk = Some (Inr None, v') \<and> (\<forall>junk. blobfs_fs_readdir F (v', t) dp junk = Some (Inr None, v'))"
  using l nx by (auto simp: listing_at_def blobfs_fs_readdir_def set_dh_def)

lemma opendir_at:
  assumes "blobfs_fs_opendir F (v, t) dp0 path = (Inr (), dp, v')"
  shows "\<exists>d. blobfs_opendir F t (Some (strip_mnt (d_mountp_len dp0) path)) False = Inr d \<and> listing_at dp d [] v'"
  using assms
  by (auto simp: blobfs_fs_opendir_def dh_alloc_def set_dh_def new_dh_def listing_at_def dest: first_free_Some split: option.splits sum.splits prod.splits)

text \<open>The entry a listing gives for a name.\<close>

definition listed :: "(u64 \<Rightarrow> byte list option) \<Rightarrow> byte list \<Rightarrow> blobfs_dirent \<Rightarrow> fs_dirent" where
  "listed m n de =
     (if is_dir de then \<lparr>ent_type = FS_DIR_ENTRY_DIR, ent_name = n, ent_size = 0\<rparr>
      else \<lparr>ent_type = FS_DIR_ENTRY_FILE, ent_name = n, ent_size = length (the (m (de_body_id de)))\<rparr>)"

lemma listing_step:
  assumes ks: "kv_store A valid objs nxt (fc_build C)" and C: "fs_conf_ok C" and i: "valid s"
    and fs: "fs_serves C A (objs s) st root G N" and d: "G d = Some f"
    and at: "listing_at dp d cur v" and l: "fs_listing (fs_on C A) (st, s) d cur ns"
  shows "distinct ns \<and> set ns \<subseteq> dom f \<and>
    ((\<exists>v'. blobfs_fs_readdir (fs_on C A) (v, (st, s)) dp junk = Some (Inr None, v') \<and> set ns = dom f \<and>
        (\<forall>junk. blobfs_fs_readdir (fs_on C A) (v', (st, s)) dp junk = Some (Inr None, v'))) \<or>
     (\<exists>n de v'. f n = Some de \<and> n \<notin> set ns \<and> blobfs_fs_readdir (fs_on C A) (v, (st, s)) dp junk = Some (Inr (Some (listed (objs s) n de)), v') \<and>
        listing_at dp d n v' \<and> fs_listing (fs_on C A) (st, s) d n (ns @ [n])))"
proof -
  note L = blobfs_listing_exact [OF ks C i fs d l]
  from L [THEN conjunct2, THEN conjunct2] show ?thesis
  proof (elim disjE exE conjE)
    assume "blobfs_next_id (fs_on C A) (st, s) d (Some (cur @ [0])) False False = (Some [], Inl ENODATA)" "set ns = dom f"
    with readdir_end [OF at this(1), of junk] L show ?thesis by blast
  next
    fix n de assume n: "f n = Some de" "n \<notin> set ns" and
      nx: "blobfs_next_id (fs_on C A) (st, s) d (Some (cur @ [0])) False False =
       (Some n, Inr (Some (if is_dir de then \<lparr>st_type = BLOBFS_ENTRY_DIR, st_size = 0\<rparr>
                           else \<lparr>st_type = BLOBFS_ENTRY_FILE, st_size = length (the (objs s (de_body_id de)))\<rparr>)))"
    from fs obtain mid Q mt v1 where fl: "fs_flash (kvhash_holds (fc_build C)) (fs_on C A) (objs s) mid G Q mt v1" unfolding fs_serves_def by blast
    have "entry G d n = Some de" using d n(1) by (simp add: entry_def)
    from names_entry(2) [OF fs_store.flashD(7) [OF kv_fs_store [OF ks C] fl] this] have nf: "name_fits (fs_on C A) n" .
    have "0 \<notin> set n" "length n \<le> BLOBFS_NAME_MAX (fs_on C A)" using nf name_fitsD [OF nf] by (auto simp: name_fits_def plain_def)
    from readdir_next [OF at this nx, of junk] obtain v' where "listing_at dp d n v'"
      "blobfs_fs_readdir (fs_on C A) (v, (st, s)) dp junk = Some (Inr (Some (listed (objs s) n de)), v')"
      by (cases "is_dir de") (auto simp: listed_def vfs_type_def)
    with L n list_next [OF l nx] show ?thesis by blast
  qed
qed

text \<open>C36. Reading a directory through a handle gives every entry exactly once, with its type and size, and
  then the end of the directory, at once and on every call after it; no call fails. The directory is the
  one the path led to when it was opened.\<close>

theorem vfs_listing_exact:
  assumes ks: "kv_store A valid objs nxt (fc_build C)" and C: "fs_conf_ok C" and i: "valid s"
    and fs: "fs_serves C A (objs s) st root G N"
    and op: "blobfs_fs_opendir (fs_on C A) (v0, (st, s)) dp0 path = (Inr (), dp, v)" and rd: "dir_reads (fs_on C A) (st, s) dp v es v1"
  defines "p \<equiv> strip_mnt (d_mountp_len dp0) path"
  shows "\<exists>d f. G d = Some f \<and> (ns_entry (fs_on C A) G root p = Inl EISDIR \<and> d = root \<or>
      (\<exists>de. ns_entry (fs_on C A) G root p = Inr de \<and> is_dir de \<and> d = de_body_id de)) \<and>
    distinct (map ent_name es) \<and> (\<forall>e \<in> set es. \<exists>n de. f n = Some de \<and> e = listed (objs s) n de) \<and>
    ((\<exists>v2. blobfs_fs_readdir (fs_on C A) (v1, (st, s)) dp junk = Some (Inr None, v2) \<and> ent_name ` set es = dom f \<and>
        (\<forall>junk. blobfs_fs_readdir (fs_on C A) (v2, (st, s)) dp junk = Some (Inr None, v2))) \<or>
     (\<exists>n de v2. f n = Some de \<and> n \<notin> ent_name ` set es \<and>
        blobfs_fs_readdir (fs_on C A) (v1, (st, s)) dp junk = Some (Inr (Some (listed (objs s) n de)), v2)))"
proof -
  note sh = kv_fs_store [OF ks C]
  let ?F = "fs_on C A"
  from fs obtain mid Q mt v1' where fl: "fs_flash (kvhash_holds (fc_build C)) ?F (objs s) mid G Q mt v1'"
    and st: "fs_session st mid mt v1'" and root: "fm_dir_root mt = root" unfolding fs_serves_def by blast
  note nm = fs_store.flashD(7) [OF sh fl]
  from opendir_at [OF op, folded p_def] obtain d where d: "blobfs_opendir ?F (st, s) (Some p) False = Inr d" "listing_at dp d [] v" by blast
  note ol = fs_store.opendir_law [OF sh i fl st, of p, unfolded root d(1)]
  then have dir: "ns_entry ?F G root p = Inl EISDIR \<and> d = root \<or> (\<exists>de. ns_entry ?F G root p = Inr de \<and> is_dir de \<and> d = de_body_id de)"
    by (auto simp: andthen_def split: if_splits sum.splits)
  have "G d \<noteq> None"
  proof (cases "ns_entry ?F G root p")
    case (Inl e)
    with dir root nm show ?thesis by (auto simp: names_ok_def)
  next
    case (Inr de)
    obtain w :: where_to where "entry G (w_dir w) (w_name w) = Some de" by (rule fs_store.ns_entry_Inr [OF sh Inr]) blast
    with names_entry(4) [OF nm this] dir Inr show ?thesis by auto
  qed
  then obtain f where f: "G d = Some f" by blast
  have "\<exists>cur. listing_at dp d cur v1 \<and> fs_listing ?F (st, s) d cur (map ent_name es) \<and> (\<forall>e \<in> set es. \<exists>n de. f n = Some de \<and> e = listed (objs s) n de)"
    using rd
  proof induction
    case reads_none
    show ?case by (intro exI [of _ "[]"]) (simp add: d(2) list_start)
  next
    case (reads_next es v1 junk e v2)
    then obtain cur where c: "listing_at dp d cur v1" "fs_listing ?F (st, s) d cur (map ent_name es)" "\<forall>e \<in> set es. \<exists>n de. f n = Some de \<and> e = listed (objs s) n de" by blast
    from listing_step [OF ks C i fs f c(1,2), of junk] reads_next.hyps(2) obtain n de where
      "f n = Some de" "e = listed (objs s) n de" "listing_at dp d n v2" "fs_listing ?F (st, s) d n (map ent_name es @ [n])" by auto
    moreover from this have "ent_name e = n" by (simp add: listed_def)
    ultimately show ?case using c(3) by auto
  qed
  then obtain cur where c: "listing_at dp d cur v1" "fs_listing ?F (st, s) d cur (map ent_name es)" "\<forall>e \<in> set es. \<exists>n de. f n = Some de \<and> e = listed (objs s) n de" by blast
  note L = listing_step [OF ks C i fs f c(1,2), of junk, unfolded set_map]
  show ?thesis
  proof (intro exI [of _ d] exI [of _ f] conjI f dir c(3))
    show "distinct (map ent_name es)" using L by (rule conjunct1)
  qed (use L [THEN conjunct2, THEN conjunct2] in \<open>elim disjE exE conjE; blast\<close>)
qed

theorem vfs_listing_exact_witness:
  "\<exists>s x dp v v1. fs_serves conf1 (mem_api 256) (fst s) session3 3 (one_file x) (one_file x) \<and>
     blobfs_fs_opendir (fs_on conf1 (mem_api 256)) (vfs_init 1 1, (session3, s)) dir_file [SLASH] = (Inr (), dp, v) \<and>
     blobfs_fs_readdir (fs_on conf1 (mem_api 256)) (v, (session3, s)) dp [] =
       Some (Inr (Some \<lparr>ent_type = FS_DIR_ENTRY_FILE, ent_name = [97], ent_size = 0\<rparr>), v1)"
proof -
  let ?F = "fs_on conf1 (mem_api 256)"
  obtain s x where s: "mem_inv 256 s" "fst s x = Some []" "fs_serves conf1 (mem_api 256) (fst s) session3 3 (one_file x) (one_file x)" using mem_fs_file by blast
  have en: "ns_entry ?F (one_file x) 3 [SLASH] = Inl EISDIR" by (simp add: ns_entry_def ns_where_def path_names_def)
  from s(3) obtain mid Q mt v1 where fl: "fs_flash (kvhash_holds mem_build) ?F (fst s) mid (one_file x) Q mt v1"
    "fs_session session3 mid mt v1" "fm_dir_root mt = 3" unfolding fs_serves_def conf1_ok(2) by blast
  have "blobfs_opendir ?F (session3, s) (Some [SLASH]) False = Inr 3" using memfs.opendir_law [OF s(1) fl(1,2), of "[SLASH]"] en fl(3) by simp
  then obtain dp v where op: "blobfs_fs_opendir ?F (vfs_init 1 1, (session3, s)) dir_file [SLASH] = (Inr (), dp, v)"
    by (simp add: blobfs_fs_opendir_def dir_file_def strip_mnt_def SLASH_def dh_alloc_def first_free_def vfs_init_def new_dh_def)
  have st: "strip_mnt (d_mountp_len dir_file) [SLASH] = [SLASH]" by (simp add: strip_mnt_def dir_file_def SLASH_def)
  have d: "one_file x 3 = Some [[97] \<mapsto> new_dirent BLOBFS_TYPE_FILE x]" by (simp add: one_file_def empty_space_def set_entry_def)
  have li: "listed (fst s) [97] (new_dirent BLOBFS_TYPE_FILE x) = \<lparr>ent_type = FS_DIR_ENTRY_FILE, ent_name = [97], ent_size = 0\<rparr>"
    using s(2) by (simp add: listed_def)
  from vfs_listing_exact [OF mem_fs_facts(4) conf1_ok(1) s(1,3) op reads_none, unfolded st en, of "[]"] d obtain v2 where
    "blobfs_fs_readdir ?F (v, (session3, s)) dp [] = Some (Inr (Some (listed (fst s) [97] (new_dirent BLOBFS_TYPE_FILE x))), v2)"
    by (auto split: if_splits)
  with s(3) op show ?thesis unfolding li by blast
qed

end
