(* ===== verification/Blob_Ubi.thy ===== *)
theory Blob_Ubi
  imports Blob_Store
begin

text \<open>
  The other provider of the storage seam, \<open>lib/blob_db/blob_db_store_ubi.c\<close>: every erase block of
  blob_db is a logical block (LEB) of a UBI volume. UBI, the PSA key store, the heap and the flash map
  are not part of the repository: \<open>ubi_api\<close> is a record of the calls the provider makes on a world
  \<open>'w\<close> of their state. A call of UBI may report events, which reach \<open>on_event\<close> before it returns.
\<close>

section \<open>UBI, a parameter\<close>

datatype ubi_event_type = UBI_EVENT_HDR_CORRUPT | UBI_EVENT_HDR_TAMPERED | UBI_EVENT_VOLUME_TABLE_CORRUPT
  | UBI_EVENT_VOLUME_TABLE_DEGRADED | UBI_EVENT_LEB_ORPHANED | UBI_EVENT_PEB_BAD | UBI_EVENT_DATA_CORRUPT | UBI_EVENT_OTHER

text \<open>A volume id is \<open>None\<close> for \<open>UBI_VOL_ID_INVALID\<close>.\<close>

record ubi_event =
  ev_type :: ubi_event_type
  ev_vol_id :: "u32 option"
  ev_lnum :: nat

record ubi_device_info =
  info_leb_size :: nat
  info_peb_count :: nat
  info_free_lebs :: nat
  info_write_block_size :: nat
  info_corrupt_pebs :: nat

datatype ubi_maintenance_op = UBI_MAINTENANCE_REPAIR | UBI_MAINTENANCE_RECLAIM | UBI_MAINTENANCE_RELOCATE | UBI_MAINTENANCE_DISCARD

record ubi_maintenance_result =
  performed :: nat
  remaining :: nat

text \<open>Any verdict but trust is one the application chose.\<close>

datatype ubi_state_verdict = UBI_STATE_TRUSTED | UBI_STATE_OTHER nat

record 'w ubi_api =
  psa_crypto_init :: "'w \<Rightarrow> bool \<times> 'w"
  psa_import_key :: "'w \<Rightarrow> nat option \<times> 'w"
  psa_destroy_key :: "'w \<Rightarrow> nat \<Rightarrow> 'w"
  blob_db_ubi_ikm_key :: "'w \<Rightarrow> nat res \<times> 'w"
  k_calloc :: "'w \<Rightarrow> bool \<times> 'w"
  k_free :: "'w \<Rightarrow> 'w"
  partition :: "'w flash_area"
  flash_area_erased_val :: "'w \<Rightarrow> byte"
  ubi_device_init :: "'w \<Rightarrow> nat \<Rightarrow> (ubi_device_info \<Rightarrow> ubi_state_verdict) \<Rightarrow> unit res \<times> ubi_event list \<times> 'w"
  ubi_device_format :: "'w \<Rightarrow> nat \<Rightarrow> unit res \<times> ubi_event list \<times> 'w"
  ubi_device_deinit :: "'w \<Rightarrow> 'w"
  ubi_device_get_info :: "'w \<Rightarrow> ubi_device_info res"
  ubi_maintenance :: "'w \<Rightarrow> ubi_maintenance_op \<Rightarrow> nat \<Rightarrow> errno option \<times> ubi_maintenance_result \<times> ubi_event list \<times> 'w"
  ubi_volume_find :: "'w \<Rightarrow> string \<Rightarrow> u32 res"
  ubi_volume_create :: "'w \<Rightarrow> string \<Rightarrow> nat \<Rightarrow> u32 res \<times> ubi_event list \<times> 'w"
  ubi_volume_leb_count :: "'w \<Rightarrow> u32 \<Rightarrow> nat res"
  ubi_leb_read :: "'w \<Rightarrow> u32 option \<Rightarrow> nat \<Rightarrow> nat \<Rightarrow> nat \<Rightarrow> byte list res"
  ubi_leb_write_at :: "'w \<Rightarrow> u32 option \<Rightarrow> nat \<Rightarrow> nat \<Rightarrow> byte list \<Rightarrow> unit res \<times> ubi_event list \<times> 'w"
  ubi_leb_erase :: "'w \<Rightarrow> u32 option \<Rightarrow> nat \<Rightarrow> unit res \<times> ubi_event list \<times> 'w"
  ubi_leb_change :: "'w \<Rightarrow> u32 option \<Rightarrow> nat \<Rightarrow> byte list \<Rightarrow> unit res \<times> ubi_event list \<times> 'w"

text \<open>The Kconfig choices, and the application's rollback check where it brings one.\<close>

record ubi_build =
  BLOB_DB_UBI_SPARE_LEBS :: nat
  KEY_BUILTIN :: bool
  RELOCATE_BUDGET :: nat
  ATOMIC_REPLACE :: bool
  app_state_check :: "(ubi_device_info \<Rightarrow> ubi_state_verdict) option"

section \<open>The state of the provider\<close>

record 'w ubi_state =
  g_ubi :: bool
  g_vol_id :: "u32 option"
  g_leb_size :: nat
  g_key_id :: nat
  g_damaged_lebs :: u32
  g_damaged_unplaced :: bool
  ubi_world :: 'w

definition on_event :: "ubi_event \<Rightarrow> 'w ubi_state \<Rightarrow> 'w ubi_state" where
  "on_event ev d =
     (if ev_type ev \<in> {UBI_EVENT_HDR_CORRUPT, UBI_EVENT_HDR_TAMPERED, UBI_EVENT_DATA_CORRUPT}
      then if ev_vol_id ev = None then d\<lparr>g_damaged_unplaced := True\<rparr>
           else if ev_lnum ev < 32 then d\<lparr>g_damaged_lebs := g_damaged_lebs d OR push_bit (ev_lnum ev) 1\<rparr>
           else d
      else d)"

text \<open>The world after a call and the events the call reported.\<close>

definition after_call :: "'w ubi_state \<Rightarrow> ubi_event list \<Rightarrow> 'w \<Rightarrow> 'w ubi_state" where
  "after_call d evs w = fold on_event evs (d\<lparr>ubi_world := w\<rparr>)"

definition on_state :: "ubi_build \<Rightarrow> ubi_device_info \<Rightarrow> ubi_state_verdict" where
  "on_state B = (case app_state_check B of None \<Rightarrow> (\<lambda>_. UBI_STATE_TRUSTED) | Some f \<Rightarrow> f)"

section \<open>Opening\<close>

definition key_acquire :: "'w ubi_api \<Rightarrow> ubi_build \<Rightarrow> 'w \<Rightarrow> nat res \<times> 'w" where
  "key_acquire U B w =
     (if KEY_BUILTIN B then (case psa_import_key U w of (None, w) \<Rightarrow> (Inl EIO, w) | (Some k, w) \<Rightarrow> (Inr k, w))
      else blob_db_ubi_ikm_key U w)"

definition key_release :: "'w ubi_api \<Rightarrow> ubi_build \<Rightarrow> 'w \<Rightarrow> nat \<Rightarrow> 'w" where
  "key_release U B w k = (if KEY_BUILTIN B then psa_destroy_key U w k else w)"

text \<open>The loop of \<open>partition_is_blank\<close>, from offset \<open>off\<close>.\<close>

function blank_from :: "'w ubi_api \<Rightarrow> 'w \<Rightarrow> nat \<Rightarrow> bool res" where
  "blank_from U w off =
     (if off < fa_size (partition U) w
      then andthen (flash_area_read (partition U) w off (min 256 (fa_size (partition U) w - off))) (\<lambda>chunk.
        if \<forall>b \<in> set chunk. b = flash_area_erased_val U w then blank_from U w (off + 256) else Inr False)
      else Inr True)"
  by pat_completeness auto
termination by (relation "measure (\<lambda>(U, w, off). fa_size (partition U) w - off)") auto

declare blank_from.simps [simp del]

definition partition_is_blank :: "'w ubi_api \<Rightarrow> 'w \<Rightarrow> bool res \<times> 'w" where
  "partition_is_blank U w =
     (case flash_area_open (partition U) w of
        (Inl e, w) \<Rightarrow> (Inl e, w)
      | (Inr _, w) \<Rightarrow> (blank_from U w 0, flash_area_close (partition U) w))"

definition init_call :: "'w ubi_api \<Rightarrow> ubi_build \<Rightarrow> 'w ubi_state \<Rightarrow> unit res \<times> 'w ubi_state" where
  "init_call U B d = (let (rc, evs, w) = ubi_device_init U (ubi_world d) (g_key_id d) (on_state B) in (rc, after_call d evs w))"

definition format_and_init :: "'w ubi_api \<Rightarrow> ubi_build \<Rightarrow> 'w ubi_state \<Rightarrow> unit res \<times> 'w ubi_state" where
  "format_and_init U B d =
     (let (rc, evs, w) = ubi_device_format U (ubi_world d) (g_key_id d) in
      seqs (rc, after_call d evs w) (\<lambda>_ d. init_call U B d))"

definition ubi_attach :: "'w ubi_api \<Rightarrow> ubi_build \<Rightarrow> 'w ubi_state \<Rightarrow> bool \<Rightarrow> unit res \<times> 'w ubi_state" where
  "ubi_attach U B d discard =
     (case init_call U B d of
        (Inr _, d) \<Rightarrow> (Inr (), d)
      | (Inl rc, d) \<Rightarrow>
          if discard
          then if rc \<noteq> ENODEV \<and> rc \<noteq> EBADMSG \<and> rc \<noteq> ENOTSUP then (Inl rc, d) else format_and_init U B d
          else if rc \<noteq> ENODEV then (Inl rc, d)
          else case partition_is_blank U (ubi_world d) of
            (Inl e, w) \<Rightarrow> (Inl e, d\<lparr>ubi_world := w\<rparr>)
          | (Inr blank, w) \<Rightarrow>
              if \<not> blank then (Inl ENOTSUP, d\<lparr>ubi_world := w\<rparr>) else format_and_init U B (d\<lparr>ubi_world := w\<rparr>))"

definition BLOB_DB_UBI_VOL_NAME :: string where "BLOB_DB_UBI_VOL_NAME = ''blobdb''"

text \<open>The volume's LEB count; a find that fails leaves no volume id behind.\<close>

definition open_volume :: "'w ubi_api \<Rightarrow> ubi_build \<Rightarrow> 'w ubi_state \<Rightarrow> ubi_device_info \<Rightarrow> nat res \<times> 'w ubi_state" where
  "open_volume U B d dev =
     seqs (case ubi_volume_find U (ubi_world d) BLOB_DB_UBI_VOL_NAME of
             Inr v \<Rightarrow> (Inr v, d\<lparr>g_vol_id := Some v\<rparr>)
           | Inl e \<Rightarrow>
               if e \<noteq> ENOENT then (Inl e, d)
               else if info_free_lebs dev \<le> BLOB_DB_UBI_SPARE_LEBS B then (Inl EINVAL, d)
               else case ubi_volume_create U (ubi_world d) BLOB_DB_UBI_VOL_NAME (info_free_lebs dev - BLOB_DB_UBI_SPARE_LEBS B) of
                 (Inl e, evs, w) \<Rightarrow> (Inl e, after_call d evs w)
               | (Inr v, evs, w) \<Rightarrow> (Inr v, (after_call d evs w)\<lparr>g_vol_id := Some v\<rparr>))
       (\<lambda>v d. (andthen (ubi_volume_leb_count U (ubi_world d) v) (\<lambda>n. if n > 0xffff then Inl ENOTSUP else Inr n), d))"

text \<open>A maintenance step whose failure is only logged.\<close>

definition ubi_maintain :: "'w ubi_api \<Rightarrow> 'w ubi_state \<Rightarrow> ubi_maintenance_op \<Rightarrow> nat \<Rightarrow> 'w ubi_state" where
  "ubi_maintain U d op budget = (let (_, _, evs, w) = ubi_maintenance U (ubi_world d) op budget in after_call d evs w)"

definition err_free :: "'w ubi_api \<Rightarrow> ubi_build \<Rightarrow> 'w ubi_state \<Rightarrow> 'w ubi_state" where
  "err_free U B d =
     d\<lparr>g_ubi := False, g_vol_id := None, ubi_world := key_release U B (k_free U (ubi_world d)) (g_key_id d)\<rparr>"

definition err_deinit :: "'w ubi_api \<Rightarrow> ubi_build \<Rightarrow> 'w ubi_state \<Rightarrow> 'w ubi_state" where
  "err_deinit U B d = err_free U B (d\<lparr>ubi_world := ubi_device_deinit U (ubi_world d)\<rparr>)"

text \<open>What follows the attach.\<close>

definition open_attached :: "'w ubi_api \<Rightarrow> ubi_build \<Rightarrow> 'w ubi_state \<Rightarrow> blob_db_store_geom res \<times> 'w ubi_state" where
  "open_attached U B d =
     (case ubi_device_get_info U (ubi_world d) of
        Inl e \<Rightarrow> (Inl e, err_deinit U B d)
      | Inr info \<Rightarrow>
          let d = ubi_maintain U (d\<lparr>g_leb_size := info_leb_size info\<rparr>) UBI_MAINTENANCE_REPAIR (info_peb_count info) in
          case open_volume U B d info of
            (Inl e, d) \<Rightarrow> (Inl e, err_deinit U B d)
          | (Inr leb_count, d) \<Rightarrow>
              (Inr \<lparr>geom_peb_size = g_leb_size d,
                    geom_write_align = (if info_write_block_size info = 0 then 1 else info_write_block_size info),
                    geom_n_pebs = leb_count mod 2 ^ 16, geom_preformat = False\<rparr>, d))"

definition ubi_open :: "'w ubi_api \<Rightarrow> ubi_build \<Rightarrow> 'w ubi_state \<Rightarrow> bool \<Rightarrow> blob_db_store_geom res \<times> 'w ubi_state" where
  "ubi_open U B d discard =
     (if g_ubi d then (Inl EALREADY, d)
      else let (ok, w) = psa_crypto_init U (ubi_world d); d = d\<lparr>ubi_world := w\<rparr> in
      if \<not> ok then (Inl EIO, d)
      else let (rc, w) = key_acquire U B (ubi_world d); d = d\<lparr>ubi_world := w\<rparr> in
      case rc of
        Inl e \<Rightarrow> (Inl e, d)
      | Inr k \<Rightarrow>
          let d = d\<lparr>g_key_id := k, g_damaged_lebs := 0, g_damaged_unplaced := False\<rparr>;
              (mem, w) = k_calloc U (ubi_world d);
              d = d\<lparr>ubi_world := w, g_ubi := mem\<rparr>
          in if \<not> mem then (Inl ENOMEM, d\<lparr>ubi_world := key_release U B (ubi_world d) (g_key_id d)\<rparr>)
             else case ubi_attach U B d discard of
               (Inl e, d) \<Rightarrow> (Inl e, err_free U B d)
             | (Inr _, d) \<Rightarrow> open_attached U B d)"

definition ubi_close :: "'w ubi_api \<Rightarrow> ubi_build \<Rightarrow> 'w ubi_state \<Rightarrow> 'w ubi_state" where
  "ubi_close U B d = (if \<not> g_ubi d then d else err_deinit U B d)"

section \<open>Access\<close>

text \<open>The two halves of a flat offset, at the width of UBI's arguments.\<close>

definition lnum_of :: "'w ubi_state \<Rightarrow> nat \<Rightarrow> nat" where
  "lnum_of d off = off div g_leb_size d mod 2 ^ 32"

definition within_of :: "'w ubi_state \<Rightarrow> nat \<Rightarrow> nat" where
  "within_of d off = off mod g_leb_size d mod 2 ^ 32"

definition ubi_read :: "'w ubi_api \<Rightarrow> 'w ubi_state \<Rightarrow> nat \<Rightarrow> nat \<Rightarrow> byte list res" where
  "ubi_read U d off len = ubi_leb_read U (ubi_world d) (g_vol_id d) (lnum_of d off) (within_of d off) len"

definition ubi_write :: "'w ubi_api \<Rightarrow> 'w ubi_state \<Rightarrow> nat \<Rightarrow> byte list \<Rightarrow> unit res \<times> 'w ubi_state" where
  "ubi_write U d off buf =
     (let (rc, evs, w) = ubi_leb_write_at U (ubi_world d) (g_vol_id d) (lnum_of d off) (within_of d off) buf in (rc, after_call d evs w))"

definition relocate_step :: "'w ubi_api \<Rightarrow> ubi_build \<Rightarrow> 'w ubi_state \<Rightarrow> 'w ubi_state" where
  "relocate_step U B d =
     (if RELOCATE_BUDGET B > 0 then ubi_maintain U d UBI_MAINTENANCE_RELOCATE (RELOCATE_BUDGET B) else d)"

fun erase_lebs :: "'w ubi_api \<Rightarrow> 'w ubi_state \<Rightarrow> nat list \<Rightarrow> unit res \<times> 'w ubi_state" where
  "erase_lebs U d [] = (Inr (), d)"
| "erase_lebs U d (l # ls) =
     (let (rc, evs, w) = ubi_leb_erase U (ubi_world d) (g_vol_id d) l in
      seqs (rc, after_call d evs w) (\<lambda>_ d. erase_lebs U d ls))"

text \<open>The kick of the maintenance helper that ends an erase and a replace submits work and changes
  nothing of the store.\<close>

definition ubi_erase :: "'w ubi_api \<Rightarrow> ubi_build \<Rightarrow> 'w ubi_state \<Rightarrow> nat \<Rightarrow> nat \<Rightarrow> unit res \<times> 'w ubi_state" where
  "ubi_erase U B d off len =
     (if len = 0 then (Inr (), d)
      else seqs (erase_lebs U d [lnum_of d off..<Suc (lnum_of d (off + len - 1))]) (\<lambda>_ d. (Inr (), relocate_step U B d)))"

definition ubi_replace :: "'w ubi_api \<Rightarrow> ubi_build \<Rightarrow> 'w ubi_state \<Rightarrow> nat \<Rightarrow> byte list \<Rightarrow> unit res \<times> 'w ubi_state" where
  "ubi_replace U B d off buf =
     (if \<not> ATOMIC_REPLACE B then seqs (ubi_erase U B d off (g_leb_size d)) (\<lambda>_ d. ubi_write U d off buf)
      else let (rc, evs, w) = ubi_leb_change U (ubi_world d) (g_vol_id d) (lnum_of d off) buf in
        seqs (rc, after_call d evs w) (\<lambda>_ d. (Inr (), relocate_step U B d)))"

definition ubi_found_damage :: "'w ubi_state \<Rightarrow> nat \<Rightarrow> bool" where
  "ubi_found_damage d off \<longleftrightarrow>
     g_damaged_unplaced d \<or> (lnum_of d off < 32 \<and> g_damaged_lebs d AND push_bit (lnum_of d off) 1 \<noteq> 0)"

text \<open>The loop over the two operations; the budget and the counts are 32 bits wide.\<close>

fun maintain_ops :: "'w ubi_api \<Rightarrow> 'w ubi_state \<Rightarrow> ubi_maintenance_op list \<Rightarrow> nat \<Rightarrow> nat \<Rightarrow> bool \<Rightarrow> (nat \<times> bool) res \<times> 'w ubi_state" where
  "maintain_ops U d [] budget did left = (Inr (did, left), d)"
| "maintain_ops U d (op # ops) budget did left =
     (let (rc, res, evs, w) = ubi_maintenance U (ubi_world d) op ((budget + 2 ^ 32 - did) mod 2 ^ 32);
          d = after_call d evs w;
          did = (did + performed res) mod 2 ^ 32;
          left = (left \<or> remaining res \<noteq> 0)
      in if rc = None \<or> rc = Some EBADMSG then maintain_ops U d ops budget did left else (Inl (the rc), d))"

definition ubi_store_maintain :: "'w ubi_api \<Rightarrow> 'w ubi_state \<Rightarrow> nat \<Rightarrow> (nat \<times> bool) res \<times> 'w ubi_state" where
  "ubi_store_maintain U d budget = maintain_ops U d [UBI_MAINTENANCE_RECLAIM, UBI_MAINTENANCE_RELOCATE] budget 0 False"

definition ubi_store :: "'w ubi_api \<Rightarrow> ubi_build \<Rightarrow> 'w ubi_state store" where
  "ubi_store U B = \<lparr>
     blob_db_store_open = ubi_open U B,
     blob_db_store_close = ubi_close U B,
     blob_db_store_read = ubi_read U,
     blob_db_store_write = ubi_write U,
     blob_db_store_erase = ubi_erase U B,
     blob_db_store_replace = ubi_replace U B,
     blob_db_store_replace_is_atomic = ATOMIC_REPLACE B,
     blob_db_store_open_found_damage = ubi_found_damage,
     blob_db_store_maintain = ubi_store_maintain U\<rparr>"

section \<open>Diagnostics\<close>

definition blob_db_ubi_device_info :: "'w ubi_api \<Rightarrow> 'w ubi_state \<Rightarrow> ubi_device_info res" where
  "blob_db_ubi_device_info U d = (if g_ubi d then ubi_device_get_info U (ubi_world d) else Inl ENODEV)"

definition blob_db_ubi_maintenance ::
  "'w ubi_api \<Rightarrow> 'w ubi_state \<Rightarrow> ubi_maintenance_op \<Rightarrow> nat \<Rightarrow> (errno option \<times> ubi_maintenance_result) \<times> 'w ubi_state" where
  "blob_db_ubi_maintenance U d op budget =
     (if g_ubi d
      then let (rc, res, evs, w) = ubi_maintenance U (ubi_world d) op budget in ((rc, res), after_call d evs w)
      else ((Some ENODEV, \<lparr>performed = 0, remaining = 0\<rparr>), d))"

end
