(* ===== verification/Blob_Ubi_Spec.thy ===== *)
theory Blob_Ubi_Spec
  imports Blob_Ubi
begin

text \<open>
  What the UBI provider owes the seam. The locales state the documented behaviour of what it calls: of
  UBI's logical blocks (\<open>ubi_lebs\<close>), and of an attach that finds no device (\<open>ubi_host\<close>). A small UBI in
  memory interprets both.
\<close>

section \<open>Events only mark damage\<close>

lemma on_event_keeps [simp]:
  "g_ubi (on_event ev d) = g_ubi d" "g_vol_id (on_event ev d) = g_vol_id d" "g_leb_size (on_event ev d) = g_leb_size d"
  "g_key_id (on_event ev d) = g_key_id d" "ubi_world (on_event ev d) = ubi_world d"
  by (simp_all add: on_event_def)

lemma fold_events [simp]:
  "g_ubi (fold on_event evs d) = g_ubi d" "g_vol_id (fold on_event evs d) = g_vol_id d" "g_leb_size (fold on_event evs d) = g_leb_size d"
  "g_key_id (fold on_event evs d) = g_key_id d" "ubi_world (fold on_event evs d) = ubi_world d"
  by (induction evs arbitrary: d) simp_all

lemma after_call_sel [simp]:
  "g_ubi (after_call d evs w) = g_ubi d" "g_vol_id (after_call d evs w) = g_vol_id d" "g_leb_size (after_call d evs w) = g_leb_size d"
  "g_key_id (after_call d evs w) = g_key_id d" "ubi_world (after_call d evs w) = w"
  by (simp_all add: after_call_def)

text \<open>A damaged block is reported from then on, if it is one of the first 32.\<close>

definition damage :: "ubi_event \<Rightarrow> bool" where
  "damage ev \<longleftrightarrow> ev_type ev \<in> {UBI_EVENT_HDR_CORRUPT, UBI_EVENT_HDR_TAMPERED, UBI_EVENT_DATA_CORRUPT}"

definition marked :: "'w ubi_state \<Rightarrow> nat \<Rightarrow> bool" where
  "marked d l \<longleftrightarrow> g_damaged_unplaced d \<or> l < 32 \<and> g_damaged_lebs d AND push_bit l 1 \<noteq> 0"

lemma mark_bit: "l < 32 \<Longrightarrow> (x :: u32) AND push_bit l 1 \<noteq> 0 \<longleftrightarrow> bit x l"
  by (simp add: push_bit_eq_mult and_exp_eq_0_iff_not_bit)

lemma marked_bit: "marked d l \<longleftrightarrow> g_damaged_unplaced d \<or> l < 32 \<and> bit (g_damaged_lebs d) l"
  using mark_bit [of l "g_damaged_lebs d"] by (auto simp: marked_def)

lemma on_event_marks:
  "marked (on_event ev d) l \<longleftrightarrow> marked d l \<or> damage ev \<and> (ev_vol_id ev = None \<or> l < 32 \<and> ev_lnum ev = l)"
  by (auto simp: marked_bit on_event_def damage_def bit_simps)

lemma events_mark:
  "marked (after_call d evs w) l \<longleftrightarrow> marked d l \<or> (\<exists>ev \<in> set evs. damage ev \<and> (ev_vol_id ev = None \<or> l < 32 \<and> ev_lnum ev = l))"
proof -
  have "marked (fold on_event evs d) l \<longleftrightarrow> marked d l \<or> (\<exists>ev \<in> set evs. damage ev \<and> (ev_vol_id ev = None \<or> l < 32 \<and> ev_lnum ev = l))" for d :: "'w ubi_state"
    by (induction evs arbitrary: d) (auto simp: on_event_marks)
  moreover have "marked (d\<lparr>ubi_world := w\<rparr>) l = marked d l" by (simp add: marked_def)
  ultimately show ?thesis unfolding after_call_def by metis
qed

section \<open>Logical blocks\<close>

text \<open>\<open>leb w v l\<close> is the contents of block \<open>l\<close> of volume \<open>v\<close>; an unmapped block is erased.\<close>

locale ubi_lebs =
  fixes U :: "'w ubi_api" and leb :: "'w \<Rightarrow> u32 option \<Rightarrow> nat \<Rightarrow> nat \<Rightarrow> byte"
  assumes leb_read: "ubi_leb_read U w v l off n = Inr bs \<Longrightarrow> bs = slice (leb w v l) off n"
    and leb_write_frame: "ubi_leb_write_at U w v l off buf = (r, evs, w') \<Longrightarrow> l' \<noteq> l \<or> b < off \<or> off + length buf \<le> b \<Longrightarrow> leb w' v l' b = leb w v l' b"
    and leb_write_programs: "ubi_leb_write_at U w v l off buf = (Inr (), evs, w') \<Longrightarrow> i < length buf \<Longrightarrow>
      leb w v l (off + i) = 0xff \<or> buf ! i = 0 \<Longrightarrow> leb w' v l (off + i) = buf ! i"
    and leb_erase_frame: "ubi_leb_erase U w v l = (r, evs, w') \<Longrightarrow> l' \<noteq> l \<Longrightarrow> leb w' v l' = leb w v l'"
    and leb_erase_erases: "ubi_leb_erase U w v l = (Inr (), evs, w') \<Longrightarrow> leb w' v l b = 0xff"
    and leb_change_frame: "ubi_leb_change U w v l buf = (r, evs, w') \<Longrightarrow> l' \<noteq> l \<Longrightarrow> leb w' v l' = leb w v l'"
    and leb_change_all: "ubi_leb_change U w v l buf = (Inr (), evs, w') \<Longrightarrow> leb w' v l b = (if b < length buf then buf ! b else 0xff)"
    and leb_change_none: "ubi_leb_change U w v l buf = (Inl e, evs, w') \<Longrightarrow> leb w' v l = leb w v l"
    and maintenance_keeps: "ubi_maintenance U w op n = (rc, res, evs, w') \<Longrightarrow> leb w' = leb w"
begin

text \<open>The flat contents of a volume, as blob_db addresses it.\<close>

definition flat :: "'w ubi_state \<Rightarrow> nat \<Rightarrow> byte" where
  "flat d a = leb (ubi_world d) (g_vol_id d) (a div g_leb_size d) (a mod g_leb_size d)"

lemma maintain_flat: "flat (ubi_maintain U d op n) = flat d" "g_leb_size (ubi_maintain U d op n) = g_leb_size d"
  using maintenance_keeps [of "ubi_world d" op n]
  by (auto simp: ubi_maintain_def flat_def fun_eq_iff split: prod.splits)

lemma relocate_flat: "flat (relocate_step U B d) = flat d" "g_leb_size (relocate_step U B d) = g_leb_size d"
  by (simp_all add: relocate_step_def maintain_flat)

lemma maintain_ops_flat:
  "maintain_ops U d ops budget did left = (r, d') \<Longrightarrow> flat d' = flat d \<and> g_leb_size d' = g_leb_size d"
proof (induction ops arbitrary: d did left)
  case (Cons op ops)
  obtain rc res evs w where m: "ubi_maintenance U (ubi_world d) op ((budget + 2 ^ 32 - did) mod 2 ^ 32) = (rc, res, evs, w)" by (metis prod_cases4)
  have "flat (after_call d evs w) = flat d" using maintenance_keeps [OF m] by (simp add: flat_def fun_eq_iff)
  with Cons m show ?case by (fastforce simp: Let_def split: if_splits)
qed simp

lemma erase_lebs_flat:
  "erase_lebs U d ls = (r, d') \<Longrightarrow> g_leb_size d' = g_leb_size d \<and> g_vol_id d' = g_vol_id d \<and>
    (\<forall>l. l \<notin> set ls \<longrightarrow> leb (ubi_world d') (g_vol_id d) l = leb (ubi_world d) (g_vol_id d) l) \<and>
    (r = Inr () \<longrightarrow> (\<forall>l \<in> set ls. \<forall>b. leb (ubi_world d') (g_vol_id d) l b = 0xff))"
proof (induction ls arbitrary: d)
  case (Cons l ls)
  obtain rc evs w where e: "ubi_leb_erase U (ubi_world d) (g_vol_id d) l = (rc, evs, w)" by (rule prod_cases3)
  note f = leb_erase_frame [OF e]
  show ?case
  proof (cases rc)
    case (Inl x)
    then have "r = Inl x" "d' = after_call d evs w" using Cons.prems e by simp_all
    with f show ?thesis by simp
  next
    case (Inr u)
    then have run: "erase_lebs U (after_call d evs w) ls = (r, d')" using Cons.prems e by simp
    have "leb w (g_vol_id d) l b = 0xff" for b using leb_erase_erases [of "ubi_world d" "g_vol_id d" l evs w b] e Inr by simp
    with Cons.IH [OF run] f show ?thesis by (cases "l \<in> set ls") auto
  qed
qed simp

lemma lnum_in: "off div g_leb_size d < 2 ^ 32 \<Longrightarrow> lnum_of d off = off div g_leb_size d"
  by (simp add: lnum_of_def)

lemma within_in: "0 < g_leb_size d \<Longrightarrow> g_leb_size d \<le> 2 ^ 32 \<Longrightarrow> within_of d off = off mod g_leb_size d"
proof -
  assume "0 < g_leb_size d" "g_leb_size d \<le> 2 ^ 32"
  then have "off mod g_leb_size d < 2 ^ 32" using mod_less_divisor [of "g_leb_size d" off] by linarith
  then show ?thesis by (simp add: within_of_def)
qed

text \<open>An offset a few bytes on, still in the same block.\<close>

lemma same_block:
  fixes off i n L :: nat
  assumes "off mod L + n \<le> L" "i < n"
  shows "(off + i) div L = off div L" "(off + i) mod L = off mod L + i"
proof -
  have i: "off mod L + i < L" using assms by linarith
  have e: "off + i = off mod L + i + off div L * L" using div_mult_mod_eq [of off L] by linarith
  show "(off + i) div L = off div L" by (subst e, subst div_mult_self1) (use i in auto)
  show "(off + i) mod L = off mod L + i" by (subst e, subst mod_mult_self1) (use i in auto)
qed

lemma block_range:
  fixes off a L :: nat
  assumes "0 < L" "L dvd off" "a div L = off div L"
  shows "off \<le> a \<and> a < off + L"
proof -
  have "off = off div L * L" using assms(2) by simp
  moreover have "a = off div L * L + a mod L" using assms(3) div_mult_mod_eq [of a L] by simp
  moreover have "a mod L < L" using assms(1) by simp
  ultimately show ?thesis by linarith
qed

lemma write_flat:
  assumes L: "0 < g_leb_size d" "g_leb_size d \<le> 2 ^ 32" and off: "off div g_leb_size d < 2 ^ 32" "off mod g_leb_size d + length buf \<le> g_leb_size d"
    and run: "ubi_write U d off buf = (r, d')"
  shows "g_leb_size d' = g_leb_size d" "a < off \<or> off + length buf \<le> a \<Longrightarrow> flat d' a = flat d a"
    "r = Inr () \<Longrightarrow> i < length buf \<Longrightarrow> flat d (off + i) = 0xff \<or> buf ! i = 0 \<Longrightarrow> flat d' (off + i) = buf ! i"
proof -
  let ?L = "g_leb_size d"
  from run obtain evs w where w: "ubi_leb_write_at U (ubi_world d) (g_vol_id d) (off div ?L) (off mod ?L) buf = (r, evs, w)" "d' = after_call d evs w"
    by (auto simp: ubi_write_def lnum_in [OF off(1)] within_in [OF L] split: prod.splits)
  show "g_leb_size d' = ?L" by (simp add: w(2))
  show "flat d' a = flat d a" if "a < off \<or> off + length buf \<le> a"
  proof -
    have "a div ?L \<noteq> off div ?L \<or> a mod ?L < off mod ?L \<or> off mod ?L + length buf \<le> a mod ?L"
      using that div_mult_mod_eq [of a ?L] div_mult_mod_eq [of off ?L] by (metis add.assoc add_le_cancel_left nat_add_left_cancel_less)
    then show ?thesis using leb_write_frame [OF w(1)] by (simp add: flat_def w(2))
  qed
  show "flat d' (off + i) = buf ! i" if "r = Inr ()" "i < length buf" "flat d (off + i) = 0xff \<or> buf ! i = 0"
    using leb_write_programs [of "ubi_world d" "g_vol_id d" "off div ?L" "off mod ?L" buf evs w i] w that same_block [OF off(2) that(2)] by (simp add: flat_def)
qed

lemma read_flat:
  assumes L: "0 < g_leb_size d" "g_leb_size d \<le> 2 ^ 32" and off: "off div g_leb_size d < 2 ^ 32" "off mod g_leb_size d + n \<le> g_leb_size d"
    and run: "ubi_read U d off n = Inr bs"
  shows "bs = slice (flat d) off n"
proof -
  have "bs = slice (leb (ubi_world d) (g_vol_id d) (off div g_leb_size d)) (off mod g_leb_size d) n"
    using run leb_read by (simp add: ubi_read_def lnum_in [OF off(1)] within_in [OF L])
  also have "\<dots> = slice (flat d) off n"
    by (rule nth_equalityI) (use same_block [OF off(2)] in \<open>auto simp: flat_def\<close>)
  finally show ?thesis .
qed

lemma erase_flat:
  assumes L: "0 < g_leb_size d" and al: "g_leb_size d dvd off" "g_leb_size d dvd n" and sz: "(off + n) div g_leb_size d \<le> 2 ^ 32"
    and run: "ubi_erase U B d off n = (r, d')"
  shows "g_leb_size d' = g_leb_size d" "a < off \<or> off + n \<le> a \<Longrightarrow> flat d' a = flat d a" "r = Inr () \<Longrightarrow> i < n \<Longrightarrow> flat d' (off + i) = 0xff"
proof -
  let ?L = "g_leb_size d"
  from al obtain k m where km: "off = ?L * k" "n = ?L * m" by (auto simp: dvd_def)
  have kd: "off div ?L = k" "(off + n) div ?L = k + m" using L by (simp_all add: km flip: distrib_left)
  have "g_leb_size d' = ?L \<and> (\<forall>a. a < off \<or> off + n \<le> a \<longrightarrow> flat d' a = flat d a) \<and> (\<forall>i. r = Inr () \<longrightarrow> i < n \<longrightarrow> flat d' (off + i) = 0xff)"
  proof (cases "n = 0")
    case True
    with run show ?thesis by (simp add: ubi_erase_def)
  next
    case False
    have m: "0 < m" using False km by (cases m) simp_all
    have "off + n - 1 = ?L * (k + m - 1) + (?L - 1)" using L m by (cases m) (simp_all add: km algebra_simps)
    then have last: "(off + n - 1) div ?L = k + m - 1" by (intro div_nat_eqI) (use L in simp_all)
    obtain r1 d1 where e: "erase_lebs U d [lnum_of d off..<Suc (lnum_of d (off + n - 1))] = (r1, d1)" by fastforce
    have ls: "[lnum_of d off..<Suc (lnum_of d (off + n - 1))] = [k..<k + m]"
      using sz kd last m lnum_in [of off d] lnum_in [of "off + n - 1" d] by simp
    note f = erase_lebs_flat [OF e [unfolded ls]]
    have sq: "seqs (r1, d1) (\<lambda>_ d. (Inr (), relocate_step U B d)) = (r, d')" using run False unfolding ubi_erase_def e by (simp only: if_False)
    have d': "flat d' = flat d1 \<and> g_leb_size d' = g_leb_size d1 \<and> r = r1"
    proof (cases r1)
      case (Inl x)
      then show ?thesis using sq by simp
    next
      case (Inr x)
      then have "r = r1" "d' = relocate_step U B d1" using sq by simp_all
      then show ?thesis by (simp add: relocate_flat)
    qed
    have "flat d' a = flat d a" if "a < off \<or> off + n \<le> a" for a
    proof -
      have "a div ?L < k" if "a < off" using that L by (simp add: km div_less_iff_less_mult mult.commute)
      moreover have "k + m \<le> a div ?L" if "off + n \<le> a" using div_le_mono [OF that, of ?L] kd(2) by simp
      ultimately have "a div ?L \<notin> set [k..<k + m]" using that by auto
      with f d' show ?thesis by (simp add: flat_def)
    qed
    moreover have "flat d' (off + i) = 0xff" if "r = Inr ()" "i < n" for i
    proof -
      have "(off + i) div ?L = k + i div ?L" using L by (simp add: km)
      moreover have "i div ?L < m" using that(2) L by (simp add: km div_less_iff_less_mult mult.commute)
      ultimately have "(off + i) div ?L \<in> set [k..<k + m]" by simp
      with f d' that(1) show ?thesis by (simp add: flat_def)
    qed
    ultimately show ?thesis using d' f by simp
  qed
  then show "g_leb_size d' = ?L" "a < off \<or> off + n \<le> a \<Longrightarrow> flat d' a = flat d a" "r = Inr () \<Longrightarrow> i < n \<Longrightarrow> flat d' (off + i) = 0xff" by blast+
qed

text \<open>A replace, with and without \<open>ubi_leb_change\<close>.\<close>

lemma slice_image:
  assumes "\<And>i. i < length buf \<Longrightarrow> f (off + i) = buf ! i" "\<And>i. length buf \<le> i \<Longrightarrow> i < n \<Longrightarrow> f (off + i) = 0xff" "length buf \<le> n"
  shows "slice f off n = buf @ replicate (n - length buf) 0xff"
  by (rule nth_equalityI) (use assms in \<open>auto simp: nth_append\<close>)

lemma replace_flat:
  assumes L: "0 < g_leb_size d" "g_leb_size d \<le> 2 ^ 32" and al: "g_leb_size d dvd off" "off div g_leb_size d < 2 ^ 32"
    and len: "length buf \<le> g_leb_size d" and run: "ubi_replace U B d off buf = (r, d')"
  shows "g_leb_size d' = g_leb_size d" "a < off \<or> off + g_leb_size d \<le> a \<Longrightarrow> flat d' a = flat d a"
    "r = Inr () \<Longrightarrow> slice (flat d') off (g_leb_size d) = buf @ replicate (g_leb_size d - length buf) 0xff"
    "ATOMIC_REPLACE B \<Longrightarrow> r = Inl e \<Longrightarrow> flat d' a = flat d a"
proof -
  let ?L = "g_leb_size d"
  have m0: "off mod ?L = 0" using al(1) by simp
  have dv: "(off + ?L) div ?L \<le> 2 ^ 32" using al L by auto
  have "g_leb_size d' = ?L \<and> (\<forall>a. a < off \<or> off + ?L \<le> a \<longrightarrow> flat d' a = flat d a) \<and>
    (r = Inr () \<longrightarrow> slice (flat d') off ?L = buf @ replicate (?L - length buf) 0xff) \<and> (ATOMIC_REPLACE B \<and> r \<noteq> Inr () \<longrightarrow> flat d' = flat d)"
  proof (cases "ATOMIC_REPLACE B")
    case False
    obtain r1 d1 where e: "ubi_erase U B d off ?L = (r1, d1)" by fastforce
    note ef = erase_flat [OF L(1) al(1) _ dv e]
    show ?thesis
    proof (cases r1)
      case (Inl x)
      with run e ef False show ?thesis by (auto simp: ubi_replace_def)
    next
      case (Inr u)
      then have w: "ubi_write U d1 off buf = (r, d')" using run e False by (simp add: ubi_replace_def)
      have ls: "g_leb_size d1 = ?L" using ef by simp
      note wf = write_flat [of d1 off buf r d', unfolded ls, OF L al(2) _ w, unfolded m0, simplified, OF len]
      have er: "flat d1 (off + i) = 0xff" if "i < ?L" for i using ef(3) that Inr by simp
      have "slice (flat d') off ?L = buf @ replicate (?L - length buf) 0xff" if "r = Inr ()"
      proof (rule slice_image [OF _ _ len])
        show "flat d' (off + i) = buf ! i" if "i < length buf" for i using wf(3) er [of i] len that \<open>r = Inr ()\<close> by simp
        show "flat d' (off + i) = 0xff" if "length buf \<le> i" "i < ?L" for i using wf(2) [of "off + i"] er that by simp
      qed
      moreover have "flat d' a = flat d a" if "a < off \<or> off + ?L \<le> a" for a using that wf(2) [of a] ef(2) [of a] len by auto
      ultimately show ?thesis using False wf(1) by simp
    qed
  next
    case True
    from run obtain rc evs w where c: "ubi_leb_change U (ubi_world d) (g_vol_id d) (off div ?L) buf = (rc, evs, w)"
      "(r, d') = seqs (rc, after_call d evs w) (\<lambda>_ d. (Inr (), relocate_step U B d))"
      by (auto simp: ubi_replace_def True lnum_in [OF al(2)] split: prod.splits)
    have d': "flat d' = flat (after_call d evs w)" "g_leb_size d' = ?L" "r = rc" using c(2) by (cases rc; simp add: relocate_flat)+
    have fr: "flat d' a = flat d a" if "a div ?L \<noteq> off div ?L" for a using leb_change_frame [OF c(1) that] d'(1) by (simp add: flat_def)
    have "a div ?L \<noteq> off div ?L" if "a < off \<or> off + ?L \<le> a" for a
      using block_range [OF L(1) al(1), of a] that by auto
    moreover have "slice (flat d') off ?L = buf @ replicate (?L - length buf) 0xff" if "r = Inr ()"
    proof (rule slice_image [OF _ _ len])
      have at: "flat d' (off + i) = leb w (g_vol_id d) (off div ?L) i" if "i < ?L" for i using same_block [of off ?L ?L i] m0 that d'(1) by (simp add: flat_def)
      have "rc = Inr ()" using d'(3) \<open>r = Inr ()\<close> by simp
      note ch = leb_change_all [OF c(1) [unfolded this]]
      show "flat d' (off + i) = buf ! i" if "i < length buf" for i using at ch that len by simp
      show "flat d' (off + i) = 0xff" if "length buf \<le> i" "i < ?L" for i using at ch that by simp
    qed
    moreover have "flat d' = flat d" if "r \<noteq> Inr ()"
    proof -
      from that d'(3) obtain e where "rc = Inl e" by (cases rc) auto
      with c(1) have "leb w (g_vol_id d) (off div ?L) = leb (ubi_world d) (g_vol_id d) (off div ?L)" by (auto dest: leb_change_none)
      then have "flat d' a = flat d a" for a using fr [of a] d'(1) by (cases "a div ?L = off div ?L") (simp_all add: flat_def)
      then show ?thesis by blast
    qed
    ultimately show ?thesis using fr d'(2) by blast
  qed
  then show "g_leb_size d' = ?L" "a < off \<or> off + ?L \<le> a \<Longrightarrow> flat d' a = flat d a"
    "r = Inr () \<Longrightarrow> slice (flat d') off ?L = buf @ replicate (?L - length buf) 0xff"
    "ATOMIC_REPLACE B \<Longrightarrow> r = Inl e \<Longrightarrow> flat d' a = flat d a" by auto
qed

end

section \<open>Attaching to a partition\<close>

text \<open>\<open>raw\<close> is the partition, byte by byte. Only UBI writes it, and an attach that finds no device of its
  own does not.\<close>

locale ubi_host =
  fixes U :: "'w ubi_api" and raw :: "'w \<Rightarrow> nat \<Rightarrow> byte" and size :: nat and erased :: byte
  assumes part_size: "fa_size (partition U) w = size" and part_erased: "flash_area_erased_val U w = erased"
    and part_read: "flash_area_read (partition U) w off n = Inr bs \<Longrightarrow> bs = slice (raw w) off n"
    and part_open: "flash_area_open (partition U) w = (r, w') \<Longrightarrow> raw w' = raw w"
    and part_close: "raw (flash_area_close (partition U) w) = raw w"
    and crypto_raw: "psa_crypto_init U w = (ok, w') \<Longrightarrow> raw w' = raw w" "psa_import_key U w = (k, w') \<Longrightarrow> raw w' = raw w"
      "raw (psa_destroy_key U w x) = raw w" "blob_db_ubi_ikm_key U w = (kr, w') \<Longrightarrow> raw w' = raw w"
    and heap_raw: "k_calloc U w = (ok, w') \<Longrightarrow> raw w' = raw w" "raw (k_free U w) = raw w"
    and init_none: "ubi_device_init U w x f = (Inl ENODEV, evs, w') \<Longrightarrow> raw w' = raw w"
begin

lemma blank_from_exact:
  "blank_from U w off = Inr b \<Longrightarrow> b \<longleftrightarrow> (\<forall>a. off \<le> a \<and> a < size \<longrightarrow> raw w a = erased)"
proof (induction "size - off" arbitrary: off rule: less_induct)
  case less
  show ?case
  proof (cases "off < size")
    case False
    with less.prems show ?thesis by (auto simp: blank_from.simps [of U w off] part_size)
  next
    case True
    let ?n = "min 256 (size - off)"
    from less.prems True obtain bs where rd: "flash_area_read (partition U) w off ?n = Inr bs"
      and rest: "(if \<forall>x \<in> set bs. x = erased then blank_from U w (off + 256) else Inr False) = Inr b"
      by (auto simp: blank_from.simps [of U w off] part_size part_erased andthen_Inr)
    have bs: "set bs = raw w ` {off..<off + ?n}" using part_read [OF rd] by (simp add: slice_def)
    show ?thesis
    proof (cases "\<forall>x \<in> set bs. x = erased")
      case all: True
      have "b \<longleftrightarrow> (\<forall>a. off + 256 \<le> a \<and> a < size \<longrightarrow> raw w a = erased)"
        using less.hyps [of "off + 256"] True all rest by simp
      moreover have "raw w a = erased" if "off \<le> a" "a < size" "a < off + 256" for a using all bs that by auto
      ultimately show ?thesis by (metis add_leD1 le_less_linear)
    next
      case False
      with bs obtain a where "off \<le> a" "a < size" "raw w a \<noteq> erased" by fastforce
      moreover have "\<not> b" using rest [unfolded if_not_P [OF False]] by simp
      ultimately show ?thesis by blast
    qed
  qed
qed

lemma is_blank_exact:
  assumes "partition_is_blank U w = (r, w')"
  shows "raw w' = raw w" "r = Inr b \<Longrightarrow> b \<longleftrightarrow> (\<forall>a < size. raw w a = erased)"
proof -
  show "raw w' = raw w" using assms part_open part_close by (auto simp: partition_is_blank_def split: prod.splits sum.splits)
  show "b \<longleftrightarrow> (\<forall>a < size. raw w a = erased)" if "r = Inr b"
    using assms that part_open blank_from_exact [of _ 0 b] by (fastforce simp: partition_is_blank_def split: prod.splits sum.splits)
qed

lemma key_raw: "key_acquire U B w = (r, w') \<Longrightarrow> raw w' = raw w" "raw (key_release U B w x) = raw w"
  using crypto_raw by (auto simp: key_acquire_def key_release_def split: if_splits prod.splits option.splits)

lemma blank_from_reads:
  "(\<And>off n. \<exists>bs. flash_area_read (partition U) w off n = Inr bs) \<Longrightarrow> \<exists>b. blank_from U w off = Inr b"
proof (induction "size - off" arbitrary: off rule: less_induct)
  case less
  show ?case
  proof (cases "off < size")
    case False
    then show ?thesis by (auto simp: blank_from.simps [of U w off] part_size)
  next
    case True
    obtain bs where "flash_area_read (partition U) w off (min 256 (size - off)) = Inr bs" using less.prems by blast
    with True less.hyps [of "off + 256"] less.prems show ?thesis by (auto simp: blank_from.simps [of U w off] part_size)
  qed
qed

text \<open>The flash can be read.\<close>

definition readable :: bool where
  "readable \<longleftrightarrow> (\<forall>w. fst (flash_area_open (partition U) w) = Inr ()) \<and> (\<forall>w off n. \<exists>bs. flash_area_read (partition U) w off n = Inr bs)"

lemma attach_refuses:
  assumes nodev: "\<And>x f. fst (ubi_device_init U (ubi_world d) x f) = Inl ENODEV"
    and foreign: "a < size" "raw (ubi_world d) a \<noteq> erased" and run: "ubi_attach U B d False = (r, d')"
  shows "raw (ubi_world d') = raw (ubi_world d)" "\<exists>e. r = Inl e" "readable \<Longrightarrow> r = Inl ENOTSUP"
proof -
  obtain evs w where i: "ubi_device_init U (ubi_world d) (g_key_id d) (on_state B) = (Inl ENODEV, evs, w)"
    using nodev [of "g_key_id d" "on_state B"] by (metis fst_conv surj_pair)
  note w = init_none [OF i]
  obtain rb w2 where b: "partition_is_blank U w = (rb, w2)" by fastforce
  note be = is_blank_exact [OF b]
  have nb: "rb \<noteq> Inr True" using be(2) [of True] foreign w by auto
  have rs: "raw (ubi_world d') = raw w2 \<and> (case rb of Inl e \<Rightarrow> r = Inl e | Inr _ \<Rightarrow> r = Inl ENOTSUP)"
    using run i b nb by (cases rb) (auto simp: ubi_attach_def init_call_def)
  show "raw (ubi_world d') = raw (ubi_world d)" "\<exists>e. r = Inl e" using rs be(1) w by (auto split: sum.splits)
  show "r = Inl ENOTSUP" if readable
  proof -
    have "\<exists>x. rb = Inr x"
      using b that blank_from_reads by (auto simp: partition_is_blank_def readable_def split: prod.splits sum.splits) (metis Inr_Inl_False fst_conv)+
    with rs show ?thesis by auto
  qed
qed

end

text \<open>C14. Opening a partition that holds another program's bytes, on which UBI finds no device, is refused,
  with \<open>ENOTSUP\<close> unless a service fails first, and not a byte of it changes; the provider is closed
  afterwards. Only a caller that discards the store has it formatted.\<close>

theorem ubi_open_keeps_foreign:
  assumes H: "ubi_host U raw psize erased" and closed: "\<not> g_ubi d" and foreign: "a < psize" "raw (ubi_world d) a \<noteq> erased"
    and nodev: "\<And>w x f. raw w = raw (ubi_world d) \<Longrightarrow> fst (ubi_device_init U w x f) = Inl ENODEV"
    and run: "ubi_open U B d False = (r, d')"
  shows "raw (ubi_world d') = raw (ubi_world d) \<and> \<not> g_ubi d' \<and> (\<exists>e. r = Inl e) \<and>
    ((\<forall>w. fst (psa_crypto_init U w) \<and> fst (k_calloc U w) \<and> (\<exists>k. fst (key_acquire U B w) = Inr k) \<and>
        fst (flash_area_open (partition U) w) = Inr () \<and> (\<forall>off n. \<exists>bs. flash_area_read (partition U) w off n = Inr bs)) \<longrightarrow> r = Inl ENOTSUP)"
proof -
  let ?R = "raw (ubi_world d)"
  obtain ok w1 where c: "psa_crypto_init U (ubi_world d) = (ok, w1)" by fastforce
  obtain kr w2 where k: "key_acquire U B w1 = (kr, w2)" by fastforce
  obtain mem w3 where m: "k_calloc U w2 = (mem, w3)" by fastforce
  have R: "raw w1 = ?R" "raw w2 = ?R" "raw w3 = ?R"
    using ubi_host.crypto_raw(1) [OF H c] ubi_host.key_raw(1) [OF H k] ubi_host.heap_raw(1) [OF H m] by simp_all
  let ?d3 = "\<lambda>x. d\<lparr>g_key_id := x, g_damaged_lebs := 0, g_damaged_unplaced := False, ubi_world := w3, g_ubi := True\<rparr>"
  show ?thesis
  proof (cases "ok \<and> (\<exists>x. kr = Inr x) \<and> mem")
    case False
    have rs: "raw (ubi_world d') = ?R \<and> \<not> g_ubi d' \<and> (\<exists>e. r = Inl e)"
      using False run c k m R closed ubi_host.key_raw(2) [OF H]
      by (cases ok; cases kr; cases mem) (auto simp: ubi_open_def Let_def)
    have "\<not> (fst (psa_crypto_init U (ubi_world d)) \<and> fst (k_calloc U w2) \<and> (\<exists>x. fst (key_acquire U B w1) = Inr x))" using False c k m by auto
    with rs show ?thesis by blast
  next
    case True
    then obtain x where x: "kr = Inr x" by blast
    obtain ra d4 where at: "ubi_attach U B (?d3 x) False = (ra, d4)" by fastforce
    have nd: "fst (ubi_device_init U (ubi_world (?d3 x)) y f) = Inl ENODEV" for y f using nodev [OF R(3)] by simp
    note ar = ubi_host.attach_refuses [OF H nd _ _ at, of a]
    from ar(2) foreign R(3) obtain e where e: "ra = Inl e" by auto
    then have rd: "r = Inl e" "d' = err_free U B d4" using run c k m True x at closed by (simp_all add: ubi_open_def Let_def)
    have "raw (ubi_world d') = ?R" using rd(2) ar(1) foreign R(3) ubi_host.key_raw(2) [OF H] ubi_host.heap_raw(2) [OF H] by (simp add: err_free_def)
    moreover have "ubi_host.readable U \<Longrightarrow> r = Inl ENOTSUP" using ar(3) foreign R(3) e rd(1) by simp
    ultimately show ?thesis using rd by (simp add: err_free_def ubi_host.readable_def [OF H])
  qed
qed

section \<open>A small UBI in memory\<close>

text \<open>A partition of four bytes, of which a device of UBI has the first zero, and the logical blocks of one volume.\<close>

record ubi_mem =
  mem_raw :: "nat \<Rightarrow> byte"
  mem_leb :: "nat \<Rightarrow> nat \<Rightarrow> byte"

definition mem_part :: "ubi_mem flash_area" where
  "mem_part = \<lparr>flash_area_open = (\<lambda>w. (Inr (), w)), flash_area_close = (\<lambda>w. w), fa_size = (\<lambda>_. 4),
     flash_area_sectors = (\<lambda>w n. (None, [4])), flash_area_align = (\<lambda>_. 1), flash_area_read = (\<lambda>w off n. Inr (slice (mem_raw w) off n)),
     flash_area_write = (\<lambda>w off buf. (Inl EIO, w)), flash_area_erase = (\<lambda>w off n. (Inl EIO, w))\<rparr>"

definition over :: "(nat \<Rightarrow> byte) \<Rightarrow> nat \<Rightarrow> byte list \<Rightarrow> nat \<Rightarrow> byte" where
  "over f off buf b = (if off \<le> b \<and> b < off + length buf then buf ! (b - off) else f b)"

definition mem_ubi :: "ubi_mem ubi_api" where
  "mem_ubi = \<lparr>psa_crypto_init = (\<lambda>w. (True, w)), psa_import_key = (\<lambda>w. (Some 7, w)), psa_destroy_key = (\<lambda>w _. w),
     blob_db_ubi_ikm_key = (\<lambda>w. (Inl ENOENT, w)), k_calloc = (\<lambda>w. (True, w)), k_free = (\<lambda>w. w),
     partition = mem_part, flash_area_erased_val = (\<lambda>_. 0xff),
     ubi_device_init = (\<lambda>w _ _. (if mem_raw w 0 = 0 then Inr () else Inl ENODEV, [], w)),
     ubi_device_format = (\<lambda>w _. (Inr (), [], w\<lparr>mem_raw := (\<lambda>_. 0)\<rparr>)), ubi_device_deinit = (\<lambda>w. w),
     ubi_device_get_info = (\<lambda>w. Inr \<lparr>info_leb_size = 8, info_peb_count = 9, info_free_lebs = 6, info_write_block_size = 1, info_corrupt_pebs = 0\<rparr>),
     ubi_maintenance = (\<lambda>w _ _. (None, \<lparr>performed = 0, remaining = 0\<rparr>, [], w)), ubi_volume_find = (\<lambda>w _. Inl ENOENT),
     ubi_volume_create = (\<lambda>w _ _. (Inr 0, [], w)), ubi_volume_leb_count = (\<lambda>w _. Inr 2),
     ubi_leb_read = (\<lambda>w v l off n. Inr (slice (mem_leb w l) off n)),
     ubi_leb_write_at = (\<lambda>w v l off buf. (Inr (), [], w\<lparr>mem_leb := (mem_leb w)(l := over (mem_leb w l) off buf)\<rparr>)),
     ubi_leb_erase = (\<lambda>w v l. (Inr (), [], w\<lparr>mem_leb := (mem_leb w)(l := (\<lambda>_. 0xff))\<rparr>)),
     ubi_leb_change = (\<lambda>w v l buf. (Inr (), [], w\<lparr>mem_leb := (mem_leb w)(l := over (\<lambda>_. 0xff) 0 buf)\<rparr>))\<rparr>"

interpretation memhost: ubi_host mem_ubi mem_raw 4 "0xff"
  by unfold_locales (auto simp: mem_ubi_def mem_part_def split: if_splits)

interpretation memleb: ubi_lebs mem_ubi "\<lambda>w _. mem_leb w"
  by unfold_locales (auto simp: mem_ubi_def over_def)

definition closed_ubi :: "(nat \<Rightarrow> byte) \<Rightarrow> ubi_mem ubi_state" where
  "closed_ubi f = \<lparr>g_ubi = False, g_vol_id = None, g_leb_size = 0, g_key_id = 0, g_damaged_lebs = 0, g_damaged_unplaced = False,
     ubi_world = \<lparr>mem_raw = f, mem_leb = (\<lambda>_ _. 0xff)\<rparr>\<rparr>"

definition ubi_build1 :: ubi_build where
  "ubi_build1 = \<lparr>BLOB_DB_UBI_SPARE_LEBS = 4, KEY_BUILTIN = True, RELOCATE_BUDGET = 1, ATOMIC_REPLACE = True, app_state_check = None\<rparr>"

theorem ubi_open_keeps_foreign_witness:
  "ubi_open mem_ubi ubi_build1 (closed_ubi (\<lambda>_. 5)) False = (Inl ENOTSUP, snd (ubi_open mem_ubi ubi_build1 (closed_ubi (\<lambda>_. 5)) False)) \<and>
   mem_raw (ubi_world (snd (ubi_open mem_ubi ubi_build1 (closed_ubi (\<lambda>_. 5)) False))) = (\<lambda>_. 5)"
proof -
  let ?d = "closed_ubi (\<lambda>_. 5)"
  obtain r d' where run: "ubi_open mem_ubi ubi_build1 ?d False = (r, d')" by fastforce
  have c: "\<not> g_ubi ?d" "(0 :: nat) < 4" "mem_raw (ubi_world ?d) 0 \<noteq> 0xff" by (simp_all add: closed_ubi_def)
  have nd: "fst (ubi_device_init mem_ubi w x f) = Inl ENODEV" if "mem_raw w = mem_raw (ubi_world ?d)" for w x f
    using that by (simp add: mem_ubi_def closed_ubi_def)
  have ok: "\<forall>w. fst (psa_crypto_init mem_ubi w) \<and> fst (k_calloc mem_ubi w) \<and> (\<exists>k. fst (key_acquire mem_ubi ubi_build1 w) = Inr k) \<and>
    fst (flash_area_open (partition mem_ubi) w) = Inr () \<and> (\<forall>off n. \<exists>bs. flash_area_read (partition mem_ubi) w off n = Inr bs)"
    by (simp add: mem_ubi_def mem_part_def key_acquire_def ubi_build1_def)
  from ubi_open_keeps_foreign [OF memhost.ubi_host_axioms c nd run] ok
  have "r = Inl ENOTSUP" "mem_raw (ubi_world d') = mem_raw (ubi_world ?d)" by blast+
  then show ?thesis using run by (simp add: closed_ubi_def)
qed

section \<open>The seam\<close>

text \<open>C13. Within one erase block at a time, as blob_db calls it, the UBI provider is flat flash: a read gives
  what is there, a write changes its range only and programs what is erased, an erase of whole blocks
  erases them and nothing else, and a replace leaves the block with the given bytes and the rest erased,
  or, where it is atomic and fails, as it was. Maintenance changes nothing that can be read.\<close>

theorem ubi_keeps_seam:
  fixes B :: ubi_build
  assumes U: "ubi_lebs U leb" and L: "0 < g_leb_size d" "g_leb_size d \<le> 2 ^ 32"
  defines "S \<equiv> ubi_store U B" and "P \<equiv> g_leb_size d"
    and "flat e a \<equiv> leb (ubi_world e) (g_vol_id e) (a div g_leb_size e) (a mod g_leb_size e)"
  shows "(\<forall>off n bs. off div P < 2 ^ 32 \<and> off mod P + n \<le> P \<and> blob_db_store_read S d off n = Inr bs \<longrightarrow> bs = slice (flat d) off n) \<and>
    (\<forall>off buf r d'. off div P < 2 ^ 32 \<and> off mod P + length buf \<le> P \<and> blob_db_store_write S d off buf = (r, d') \<longrightarrow>
       (\<forall>a. a < off \<or> off + length buf \<le> a \<longrightarrow> flat d' a = flat d a) \<and>
       (r = Inr () \<longrightarrow> (\<forall>i < length buf. flat d (off + i) = 0xff \<or> buf ! i = 0 \<longrightarrow> flat d' (off + i) = buf ! i))) \<and>
    (\<forall>off n r d'. P dvd off \<and> P dvd n \<and> (off + n) div P \<le> 2 ^ 32 \<and> blob_db_store_erase S d off n = (r, d') \<longrightarrow>
       (\<forall>a. a < off \<or> off + n \<le> a \<longrightarrow> flat d' a = flat d a) \<and> (r = Inr () \<longrightarrow> (\<forall>i < n. flat d' (off + i) = 0xff))) \<and>
    (\<forall>off buf r d'. P dvd off \<and> off div P < 2 ^ 32 \<and> length buf \<le> P \<and> blob_db_store_replace S d off buf = (r, d') \<longrightarrow>
       (\<forall>a. a < off \<or> off + P \<le> a \<longrightarrow> flat d' a = flat d a) \<and>
       (case r of Inr _ \<Rightarrow> slice (flat d') off P = buf @ replicate (P - length buf) 0xff
        | Inl _ \<Rightarrow> blob_db_store_replace_is_atomic S \<longrightarrow> flat d' = flat d)) \<and>
    (\<forall>budget r d'. blob_db_store_maintain S d budget = (r, d') \<longrightarrow> flat d' = flat d)"
proof -
  have fl: "flat = ubi_lebs.flat leb" by (simp add: fun_eq_iff flat_def ubi_lebs.flat_def [OF U])
  have sel: "blob_db_store_read S = ubi_read U" "blob_db_store_write S = ubi_write U" "blob_db_store_erase S = ubi_erase U B"
    "blob_db_store_replace S = ubi_replace U B" "blob_db_store_replace_is_atomic S = ATOMIC_REPLACE B" "blob_db_store_maintain S = ubi_store_maintain U"
    by (simp_all add: S_def ubi_store_def)
  note W = ubi_lebs.write_flat [OF U L, folded P_def fl] and E = ubi_lebs.erase_flat [OF U L(1), folded P_def fl]
    and R = ubi_lebs.replace_flat [OF U L, folded P_def fl]
  show ?thesis
    unfolding sel
  proof (intro conjI allI impI; (elim conjE)?)
    show "bs = slice (flat d) off n" if "off div P < 2 ^ 32" "off mod P + n \<le> P" "ubi_read U d off n = Inr bs" for off n bs
      using ubi_lebs.read_flat [OF U L, folded P_def fl] that .
    show "flat d' = flat d" if "ubi_store_maintain U d budget = (r, d')" for budget r d'
      using ubi_lebs.maintain_ops_flat [OF U that [unfolded ubi_store_maintain_def]] unfolding fl by blast
    show "case r of Inl _ \<Rightarrow> ATOMIC_REPLACE B \<longrightarrow> flat d' = flat d | Inr _ \<Rightarrow> slice (flat d') off P = buf @ replicate (P - length buf) 0xff"
      if "P dvd off" "off div P < 2 ^ 32" "length buf \<le> P" "ubi_replace U B d off buf = (r, d')" for off buf r d'
      using R(3,4) [OF that] by (cases r) (auto simp: fun_eq_iff)
  qed (erule (3) W(2) W(3) E(2) E(3) R(2); assumption)+
qed

text \<open>A blank partition is formatted by the first open; what is written then can be read.\<close>

lemma mem_calls:
  "psa_crypto_init mem_ubi w = (True, w)" "psa_import_key mem_ubi w = (Some 7, w)" "k_calloc mem_ubi w = (True, w)"
  "flash_area_open (partition mem_ubi) w = (Inr (), w)" "flash_area_close (partition mem_ubi) w = w" "fa_size (partition mem_ubi) w = 4"
  "flash_area_read (partition mem_ubi) w off n = Inr (slice (mem_raw w) off n)" "flash_area_erased_val mem_ubi w = 0xff"
  "ubi_device_init mem_ubi w x f = (if mem_raw w 0 = 0 then Inr () else Inl ENODEV, [], w)"
  "ubi_device_format mem_ubi w x = (Inr (), [], w\<lparr>mem_raw := (\<lambda>_. 0)\<rparr>)"
  "ubi_device_get_info mem_ubi w = Inr \<lparr>info_leb_size = 8, info_peb_count = 9, info_free_lebs = 6, info_write_block_size = 1, info_corrupt_pebs = 0\<rparr>"
  "ubi_maintenance mem_ubi w op b = (None, \<lparr>performed = 0, remaining = 0\<rparr>, [], w)" "ubi_volume_find mem_ubi w nm = Inl ENOENT"
  "ubi_volume_create mem_ubi w nm b = (Inr 0, [], w)" "ubi_volume_leb_count mem_ubi w v = Inr 2"
  by (simp_all add: mem_ubi_def mem_part_def)

lemma mem_attach:
  assumes "mem_raw (ubi_world d) = (\<lambda>_. 0xff)"
  shows "ubi_attach mem_ubi B d False = (Inr (), d\<lparr>ubi_world := (ubi_world d)\<lparr>mem_raw := (\<lambda>_. 0)\<rparr>\<rparr>)"
proof -
  have "blank_from mem_ubi (ubi_world d) 256 = Inr True" by (simp add: blank_from.simps [of _ _ 256] mem_calls)
  then have "blank_from mem_ubi (ubi_world d) 0 = Inr True" using assms by (simp add: blank_from.simps [of _ _ 0] mem_calls slice_def)
  then show ?thesis using assms by (simp add: ubi_attach_def init_call_def mem_calls partition_is_blank_def format_and_init_def after_call_def)
qed

lemma mem_open_blank:
  "\<exists>d. ubi_open mem_ubi ubi_build1 (closed_ubi (\<lambda>_. 0xff)) False =
      (Inr \<lparr>geom_peb_size = 8, geom_write_align = 1, geom_n_pebs = 2, geom_preformat = False\<rparr>, d) \<and>
    g_leb_size d = 8 \<and> mem_leb (ubi_world d) = (\<lambda>_ _. 0xff)"
proof -
  let ?d = "(closed_ubi (\<lambda>_. 0xff))\<lparr>g_key_id := 7, g_damaged_lebs := 0, g_damaged_unplaced := False, ubi_world := ubi_world (closed_ubi (\<lambda>_. 0xff)), g_ubi := True\<rparr>"
  have at: "ubi_attach mem_ubi ubi_build1 ?d False = (Inr (), ?d\<lparr>ubi_world := (ubi_world ?d)\<lparr>mem_raw := (\<lambda>_. 0)\<rparr>\<rparr>)"
    by (rule mem_attach) (simp add: closed_ubi_def)
  have "ubi_open mem_ubi ubi_build1 (closed_ubi (\<lambda>_. 0xff)) False = open_attached mem_ubi ubi_build1 (?d\<lparr>ubi_world := (ubi_world ?d)\<lparr>mem_raw := (\<lambda>_. 0)\<rparr>\<rparr>)"
    using at by (simp add: ubi_open_def mem_calls key_acquire_def ubi_build1_def closed_ubi_def)
  then show ?thesis
    by (simp add: open_attached_def mem_calls ubi_maintain_def after_call_def open_volume_def ubi_build1_def closed_ubi_def)
qed

theorem ubi_keeps_seam_witness:
  "\<exists>g d d1 d2. ubi_open mem_ubi ubi_build1 (closed_ubi (\<lambda>_. 0xff)) False = (Inr g, d) \<and> geom_peb_size g = 8 \<and>
     blob_db_store_write (ubi_store mem_ubi ubi_build1) d 9 [1, 2] = (Inr (), d1) \<and> mem_leb (ubi_world d1) 1 2 = 2 \<and> mem_leb (ubi_world d1) 0 7 = 0xff \<and>
     blob_db_store_replace (ubi_store mem_ubi ubi_build1) d 8 [3] = (Inr (), d2) \<and> mem_leb (ubi_world d2) 1 0 = 3"
proof -
  let ?S = "ubi_store mem_ubi ubi_build1"
  obtain g d where o: "ubi_open mem_ubi ubi_build1 (closed_ubi (\<lambda>_. 0xff)) False = (Inr g, d)" "geom_peb_size g = 8"
    and d: "g_leb_size d = 8" "mem_leb (ubi_world d) = (\<lambda>_ _. 0xff)" using mem_open_blank by fastforce
  have L: "0 < g_leb_size d" "g_leb_size d \<le> 2 ^ 32" by (simp_all add: d(1))
  note K = ubi_keeps_seam [OF memleb.ubi_lebs_axioms L, of ubi_build1, unfolded d]
  obtain d1 where w: "blob_db_store_write ?S d 9 [1, 2] = (Inr (), d1)" "g_leb_size d1 = 8" by (simp add: ubi_store_def ubi_write_def mem_ubi_def d(1))
  obtain d2 where r: "blob_db_store_replace ?S d 8 [3] = (Inr (), d2)" "g_leb_size d2 = 8"
    by (simp add: ubi_store_def ubi_replace_def ubi_build1_def relocate_step_def ubi_maintain_def mem_ubi_def d(1))
  have "mem_leb (ubi_world d1) (10 div 8) (10 mod 8) = 2" using K [THEN conjunct2, THEN conjunct1, rule_format, of 9 "[1, 2]" "Inr ()" d1] w by (auto dest: spec [of _ 1])
  moreover have "mem_leb (ubi_world d1) (7 div 8) (7 mod 8) = 0xff" using K [THEN conjunct2, THEN conjunct1, rule_format, of 9 "[1, 2]" "Inr ()" d1] w by (auto dest: spec [of _ 7])
  moreover have "slice (\<lambda>a. mem_leb (ubi_world d2) (a div 8) (a mod 8)) 8 8 = [3] @ replicate 7 0xff"
    using K [THEN conjunct2, THEN conjunct2, THEN conjunct2, THEN conjunct1, rule_format, of 8 "[3]" "Inr ()" d2] r by simp
  then have "mem_leb (ubi_world d2) 1 0 = 3" by (simp add: slice_def)
  ultimately show ?thesis using o w(1) r(1) by auto
qed

section \<open>Damage reports\<close>

text \<open>What the provider says of a block after a call is what it said before and what the events of the call
  add: a damaged block of any volume is reported under its number, but only if that is below 32.\<close>

lemma ubi_damage_exact:
  "ubi_found_damage (after_call d evs w) off \<longleftrightarrow>
     ubi_found_damage d off \<or> (\<exists>ev \<in> set evs. damage ev \<and> (ev_vol_id ev = None \<or> lnum_of d off < 32 \<and> ev_lnum ev = lnum_of d off))"
  using events_mark [of d evs w "lnum_of d off"] by (simp add: ubi_found_damage_def marked_def lnum_of_def)

section \<open>Open and close\<close>

definition ubi_idle :: "'w ubi_state \<Rightarrow> bool" where
  "ubi_idle d \<longleftrightarrow> \<not> g_ubi d \<and> g_vol_id d = None"

lemma attach_keeps: "ubi_attach U B d discard = (r, d') \<Longrightarrow> g_ubi d' = g_ubi d \<and> g_leb_size d' = g_leb_size d"
  by (auto simp: ubi_attach_def init_call_def format_and_init_def seqs_def Let_def split: prod.splits sum.splits if_splits)

lemma err_idle [simp]: "ubi_idle (err_free U B d)" "ubi_idle (err_deinit U B d)"
  by (simp_all add: ubi_idle_def err_free_def err_deinit_def)

lemma volume_opens:
  assumes "open_volume U B d info = (Inr n, d')"
  shows "g_ubi d' = g_ubi d \<and> g_leb_size d' = g_leb_size d \<and> g_vol_id d' \<noteq> None"
proof -
  from assms obtain v d1 where "(case ubi_volume_find U (ubi_world d) BLOB_DB_UBI_VOL_NAME of
             Inr v \<Rightarrow> (Inr v, d\<lparr>g_vol_id := Some v\<rparr>)
           | Inl e \<Rightarrow>
               if e \<noteq> ENOENT then (Inl e, d)
               else if info_free_lebs info \<le> BLOB_DB_UBI_SPARE_LEBS B then (Inl EINVAL, d)
               else case ubi_volume_create U (ubi_world d) BLOB_DB_UBI_VOL_NAME (info_free_lebs info - BLOB_DB_UBI_SPARE_LEBS B) of
                 (Inl e, evs, w) \<Rightarrow> (Inl e, after_call d evs w)
               | (Inr v, evs, w) \<Rightarrow> (Inr v, (after_call d evs w)\<lparr>g_vol_id := Some v\<rparr>)) = (Inr v, d1)" "d' = d1"
    unfolding open_volume_def seqs_Inr by blast
  then show ?thesis by (auto split: sum.splits if_splits prod.splits)
qed

lemma attached_opens:
  assumes "open_attached U B d = (r, d')" "g_ubi d"
  shows "case r of Inl _ \<Rightarrow> ubi_idle d' | Inr g \<Rightarrow> g_ubi d' \<and> g_vol_id d' \<noteq> None \<and> g_leb_size d' = geom_peb_size g"
proof (cases "ubi_device_get_info U (ubi_world d)")
  case (Inl e)
  with assms show ?thesis by (auto simp: open_attached_def)
next
  case (Inr info)
  let ?d = "ubi_maintain U (d\<lparr>g_leb_size := info_leb_size info\<rparr>) UBI_MAINTENANCE_REPAIR (info_peb_count info)"
  obtain rv d2 where v: "open_volume U B ?d info = (rv, d2)" by fastforce
  have "g_ubi ?d" using assms(2) by (simp add: ubi_maintain_def split: prod.splits)
  with Inr assms(1) v volume_opens [of U B ?d info] show ?thesis by (cases rv) (auto simp: open_attached_def)
qed

text \<open>A failed open leaves the provider closed, a successful one leaves it open on a volume with the block
  size it reported, and a close closes it.\<close>

lemma ubi_open_close:
  assumes "ubi_idle d" "ubi_open U B d discard = (r, d')"
  shows "case r of Inl _ \<Rightarrow> ubi_idle d' | Inr g \<Rightarrow> g_ubi d' \<and> g_vol_id d' \<noteq> None \<and> g_leb_size d' = geom_peb_size g \<and> ubi_idle (ubi_close U B d')"
proof -
  obtain ok w1 where c: "psa_crypto_init U (ubi_world d) = (ok, w1)" by fastforce
  obtain kr w2 where k: "key_acquire U B w1 = (kr, w2)" by fastforce
  obtain mem w3 where m: "k_calloc U w2 = (mem, w3)" by fastforce
  let ?d3 = "\<lambda>x. d\<lparr>g_key_id := x, g_damaged_lebs := 0, g_damaged_unplaced := False, ubi_world := w3, g_ubi := True\<rparr>"
  show ?thesis
  proof (cases "ok \<and> (\<exists>x. kr = Inr x) \<and> mem")
    case False
    with assms c k m show ?thesis by (cases ok; cases kr; cases mem) (auto simp: ubi_open_def ubi_idle_def)
  next
    case True
    then obtain x where x: "kr = Inr x" by blast
    obtain ra d4 where at: "ubi_attach U B (?d3 x) discard = (ra, d4)" by fastforce
    have rd: "(r, d') = (case ra of Inl e \<Rightarrow> (Inl e, err_free U B d4) | Inr _ \<Rightarrow> open_attached U B d4)"
      using assms c k m True x at by (auto simp: ubi_open_def ubi_idle_def split: sum.splits)
    have "g_ubi d4" using attach_keeps [OF at] by simp
    with rd attached_opens [of U B d4 r d'] show ?thesis by (cases ra; cases r) (auto simp: ubi_close_def)
  qed
qed

end
