(* ===== verification/Logring.thy ===== *)
theory Logring
  imports Map_Shape Kv_Hash_Spec
begin

text \<open>
  L2, logring (\<open>lib/containers/logring/logring.c\<close>): a bounded log of records, one object per entry.
  The entries are linked forward by ids handed out but not yet bound, so that an append binds one
  object and rewrites none. The root object is written at checkpoints only; it names the oldest
  entry, a waypoint from which an open walks to the end, and the run of entries whose eviction the
  checkpoint committed.

  \<open>K\<close> is \<open>CONFIG_BLOB_CONTAINER_LOGRING_CHECKPOINT\<close>. The handle is passed and returned, since the
  code changes it before a call that may fail. The loops over a chain that a damaged store could
  make cyclic are partial functions; \<open>logring_open\<close> checks that ids increase and always ends.
\<close>

section \<open>Entries\<close>

definition CLOG_MAGIC :: "byte list" where "CLOG_MAGIC = [0x43, 0x4c, 0x4f, 0x47]"
definition CLOG_VERSION :: byte where "CLOG_VERSION = 1"
definition CLOG_ENTRY_HDR :: nat where "CLOG_ENTRY_HDR = 10"

definition CLOG_MAX_RECORD :: "build \<Rightarrow> nat" where
  "CLOG_MAX_RECORD B = MAX_PAYLOAD_LEN B - CLOG_ENTRY_HDR"

text \<open>\<open>struct clog_entry_hdr\<close> and the record behind it.\<close>

definition clog_entry_bytes :: "u64 \<Rightarrow> byte list \<Rightarrow> byte list" where
  "clog_entry_bytes nx rec = le_bytes 8 (unat nx) @ le_bytes 2 (length rec) @ rec"

text \<open>The link and the record of an entry. \<open>out\<close> is the size of the caller's buffer, if there is one.\<close>

definition entry_read :: "build \<Rightarrow> 's blob_api \<Rightarrow> 's \<Rightarrow> u64 \<Rightarrow> nat option \<Rightarrow> (u64 \<times> byte list) res" where
  "entry_read B A s x out =
     andthen (api_get A s x (MAX_PAYLOAD_LEN B)) (\<lambda>buf.
       if length buf < CLOG_ENTRY_HDR then Inl EIO
       else let len = get_u16 buf 8 in
       if CLOG_ENTRY_HDR + len \<noteq> length buf then Inl EIO
       else case out of
         Some out_sz \<Rightarrow> if len > out_sz then Inl EMSGSIZE else Inr (get_u64 buf 0, field CLOG_ENTRY_HDR len buf)
       | None \<Rightarrow> Inr (get_u64 buf 0, field CLOG_ENTRY_HDR len buf))"

definition entry_write :: "'s blob_api \<Rightarrow> 's \<Rightarrow> u64 \<Rightarrow> u64 \<Rightarrow> byte list \<Rightarrow> unit res \<times> 's" where
  "entry_write A s x nx rec = api_update A s x (clog_entry_bytes nx rec)"

section \<open>The root\<close>

record clog_root =
  cr_magic :: "byte list"
  cr_version :: byte
  cr_flags :: byte
  cr_rsvd :: u16
  cr_epoch :: u32
  cr_capacity_bytes :: u32
  cr_live_bytes :: u32
  cr_count :: u32
  cr_waypoint_id :: u64
  cr_head_id :: u64
  cr_evict_from :: u64
  cr_evict_to :: u64

definition CLOG_ROOT_SIZE :: nat where "CLOG_ROOT_SIZE = 56"

definition clog_root_bytes :: "clog_root \<Rightarrow> byte list" where
  "clog_root_bytes r =
     cr_magic r @ [cr_version r, cr_flags r] @ le_bytes 2 (unat (cr_rsvd r)) @
     le_bytes 4 (unat (cr_epoch r)) @ le_bytes 4 (unat (cr_capacity_bytes r)) @
     le_bytes 4 (unat (cr_live_bytes r)) @ le_bytes 4 (unat (cr_count r)) @
     le_bytes 8 (unat (cr_waypoint_id r)) @ le_bytes 8 (unat (cr_head_id r)) @
     le_bytes 8 (unat (cr_evict_from r)) @ le_bytes 8 (unat (cr_evict_to r))"

definition clog_root_of :: "byte list \<Rightarrow> clog_root" where
  "clog_root_of bs =
     \<lparr>cr_magic = field 0 4 bs, cr_version = bs ! 4, cr_flags = bs ! 5, cr_rsvd = word_of_nat (get_u16 bs 6),
      cr_epoch = get_u32 bs 8, cr_capacity_bytes = get_u32 bs 12, cr_live_bytes = get_u32 bs 16,
      cr_count = get_u32 bs 20, cr_waypoint_id = get_u64 bs 24, cr_head_id = get_u64 bs 32,
      cr_evict_from = get_u64 bs 40, cr_evict_to = get_u64 bs 48\<rparr>"

text \<open>\<open>logring_t\<close>.\<close>

record logring =
  lr_root :: u64
  lr_tail_id :: u64
  lr_next_free :: u64
  lr_head_id :: u64
  lr_epoch :: u32
  lr_capacity_bytes :: u32
  lr_live_bytes :: u32
  lr_count :: u32
  lr_since_ckpt :: u32

definition root_load :: "'s blob_api \<Rightarrow> 's \<Rightarrow> u64 \<Rightarrow> clog_root res" where
  "root_load A s root =
     (case api_get A s root CLOG_ROOT_SIZE of
        Inl e \<Rightarrow> if e = ENOMEM then Inl ENOTSUP else Inl e
      | Inr buf \<Rightarrow>
          if length buf < CLOG_ROOT_SIZE then Inl ENOTSUP
          else let r = clog_root_of buf in
          if cr_magic r \<noteq> CLOG_MAGIC \<or> cr_version r \<noteq> CLOG_VERSION then Inl ENOTSUP else Inr r)"

definition root_image :: "logring \<Rightarrow> u64 \<Rightarrow> u64 \<Rightarrow> clog_root" where
  "root_image h evict_from evict_to =
     \<lparr>cr_magic = CLOG_MAGIC, cr_version = CLOG_VERSION, cr_flags = 0, cr_rsvd = 0, cr_epoch = lr_epoch h,
      cr_capacity_bytes = lr_capacity_bytes h, cr_live_bytes = lr_live_bytes h, cr_count = lr_count h,
      cr_waypoint_id = (if lr_tail_id h \<noteq> 0 then lr_tail_id h else lr_next_free h),
      cr_head_id = lr_head_id h, cr_evict_from = evict_from, cr_evict_to = evict_to\<rparr>"

definition root_write :: "'s blob_api \<Rightarrow> 's \<Rightarrow> logring \<Rightarrow> u64 \<Rightarrow> u64 \<Rightarrow> unit res \<times> 's" where
  "root_write A s h evict_from evict_to = api_update A s (lr_root h) (clog_root_bytes (root_image h evict_from evict_to))"

section \<open>Eviction\<close>

text \<open>The ids \<open>run_delete\<close> collects, and their deletion from the last to the first, errors ignored.\<close>

fun run_from :: "build \<Rightarrow> 's blob_api \<Rightarrow> 's \<Rightarrow> u64 \<Rightarrow> nat \<Rightarrow> u64 \<Rightarrow> u64 list" where
  "run_from B A s to 0 cur = []"
| "run_from B A s to (Suc n) cur =
     (if cur = to then []
      else case entry_read B A s cur None of Inl _ \<Rightarrow> [] | Inr (nxt, _) \<Rightarrow> cur # run_from B A s to n nxt)"

primrec delete_ids :: "'s blob_api \<Rightarrow> 's \<Rightarrow> u64 list \<Rightarrow> 's" where
  "delete_ids A s [] = s"
| "delete_ids A s (x # xs) = snd (api_delete A (delete_ids A s xs) x)"

definition run_delete :: "build \<Rightarrow> 's blob_api \<Rightarrow> nat \<Rightarrow> 's \<Rightarrow> u64 \<Rightarrow> u64 \<Rightarrow> 's" where
  "run_delete B A K s from to = delete_ids A s (run_from B A s to K from)"

text \<open>The loop of \<open>checkpoint\<close>: how many entries go, where the log starts then, and their bytes.\<close>

fun evict_loop :: "build \<Rightarrow> 's blob_api \<Rightarrow> 's \<Rightarrow> logring \<Rightarrow> bool \<Rightarrow> nat \<Rightarrow> nat \<Rightarrow> u64 \<Rightarrow> u32 \<Rightarrow> (nat \<times> u64 \<times> u32) res" where
  "evict_loop B A s h force 0 n cur freed = Inr (n, cur, freed)"
| "evict_loop B A s h force (Suc left) n cur freed =
     (if cur = 0 \<or> cur = lr_tail_id h then Inr (n, cur, freed)
      else case entry_read B A s cur None of
        Inl e \<Rightarrow> Inl e
      | Inr (nxt, rec) \<Rightarrow>
          let freed = freed + word_of_nat (length rec) in
          if \<not> force \<and> lr_live_bytes h - freed \<le> lr_capacity_bytes h then Inr (n + 1, nxt, freed)
          else evict_loop B A s h force left (n + 1) nxt freed)"

definition checkpoint_commit ::
  "build \<Rightarrow> 's blob_api \<Rightarrow> nat \<Rightarrow> 's \<Rightarrow> logring \<Rightarrow> nat \<Rightarrow> u64 \<Rightarrow> u64 \<Rightarrow> unit res \<times> logring \<times> 's" where
  "checkpoint_commit B A K s h n from to =
     (case root_write A s h from to of
        (Inl e, s) \<Rightarrow> (Inl e, h, s)
      | (Inr _, s) \<Rightarrow>
          let s = (if n > 0 then run_delete B A K s from to else s) in
          (Inr (), h\<lparr>lr_since_ckpt := 0\<rparr>, s))"

definition checkpoint ::
  "build \<Rightarrow> 's blob_api \<Rightarrow> nat \<Rightarrow> 's \<Rightarrow> logring \<Rightarrow> bool \<Rightarrow> unit res \<times> logring \<times> 's" where
  "checkpoint B A K s h force =
     (if (force \<or> lr_live_bytes h > lr_capacity_bytes h) \<and> lr_head_id h \<noteq> 0 then
        case evict_loop B A s h force K 0 (lr_head_id h) 0 of
          Inl e \<Rightarrow> (Inl e, h, s)
        | Inr (n, cur, freed) \<Rightarrow>
            if n > 0 then
              checkpoint_commit B A K s
                (h\<lparr>lr_head_id := cur, lr_live_bytes := lr_live_bytes h - freed, lr_count := lr_count h - word_of_nat n\<rparr>)
                n (lr_head_id h) cur
            else checkpoint_commit B A K s h 0 0 0
      else checkpoint_commit B A K s h 0 0 0)"

section \<open>Create and open\<close>

record logring_cfg =
  lc_capacity_bytes :: u32

text \<open>\<open>rand\<close> is what \<open>sys_rand32_get\<close> answers.\<close>

definition logring_create ::
  "'s blob_api \<Rightarrow> u32 \<Rightarrow> 's \<Rightarrow> logring_cfg option \<Rightarrow> bool \<Rightarrow> u64 res \<times> 's" where
  "logring_create A rand s cfg out_null =
     (case cfg of
        None \<Rightarrow> (Inl EINVAL, s)
      | Some c \<Rightarrow>
          if out_null \<or> lc_capacity_bytes c = 0 then (Inl EINVAL, s)
          else let (root, s) = api_alloc_id A s; (first, s) = api_alloc_id A s in
          if root = 0 \<or> first = 0 then (Inl EIO, s)
          else let epoch = (if rand = 0 then 1 else rand);
            h = \<lparr>lr_root = root, lr_tail_id = 0, lr_next_free = first, lr_head_id = 0, lr_epoch = epoch,
                 lr_capacity_bytes = lc_capacity_bytes c, lr_live_bytes = 0, lr_count = 0, lr_since_ckpt = 0\<rparr> in
          seqs (root_write A s h 0 0) (\<lambda>_ s. (Inr root, s)))"

text \<open>The walk from the waypoint: the last bound entry (0 if none), the unbound id behind it, how many
  entries there are, their bytes and the length of the first.\<close>

function open_walk ::
  "build \<Rightarrow> 's blob_api \<Rightarrow> 's \<Rightarrow> u64 \<Rightarrow> u64 \<Rightarrow> u32 \<Rightarrow> u64 \<Rightarrow> nat option \<Rightarrow> (u64 \<times> u64 \<times> u32 \<times> u64 \<times> nat) res" where
  "open_walk B A s cur tail w_bound w_bytes first_len =
     (case entry_read B A s cur None of
        Inl e \<Rightarrow>
          if e = ENOENT then Inr (tail, cur, w_bound, w_bytes, case first_len of None \<Rightarrow> 0 | Some l \<Rightarrow> l)
          else Inl e
      | Inr (nxt, rec) \<Rightarrow>
          if nxt \<le> cur then Inl EIO
          else open_walk B A s nxt cur (w_bound + 1) (w_bytes + word_of_nat (length rec))
            (case first_len of None \<Rightarrow> Some (length rec) | Some l \<Rightarrow> Some l))"
  by pat_completeness auto
termination
proof (relation "measure (\<lambda>(B, A, s, cur, _). 2 ^ 64 - unat cur)", simp, goal_cases)
  case (1 B A s cur)
  have "unat cur < 2 ^ 64" using unsigned_less [of cur] by simp
  with 1 show ?case by (simp add: word_le_nat_alt not_le diff_less_mono2)
qed

declare open_walk.simps [simp del]

definition open_handle :: "u64 \<Rightarrow> clog_root \<Rightarrow> u64 \<times> u64 \<times> u32 \<times> u64 \<times> nat \<Rightarrow> logring" where
  "open_handle root r w =
     (let (tail, next_free, w_bound, w_bytes, first_len) = w;
          h = \<lparr>lr_root = root, lr_tail_id = tail, lr_next_free = next_free, lr_head_id = cr_head_id r,
               lr_epoch = cr_epoch r, lr_capacity_bytes = cr_capacity_bytes r, lr_live_bytes = 0, lr_count = 0,
               lr_since_ckpt = 0\<rparr> in
      if cr_head_id r = 0 then
        h\<lparr>lr_count := w_bound, lr_live_bytes := ucast w_bytes, lr_head_id := if tail \<noteq> 0 then cr_waypoint_id r else 0\<rparr>
      else
        h\<lparr>lr_count := cr_count r + (w_bound - 1),
          lr_live_bytes := cr_live_bytes r + ucast (w_bytes - word_of_nat first_len)\<rparr>)"

definition logring_open :: "build \<Rightarrow> 's blob_api \<Rightarrow> nat \<Rightarrow> 's \<Rightarrow> u64 \<Rightarrow> bool \<Rightarrow> logring res \<times> 's" where
  "logring_open B A K s root h_null =
     (if root = 0 \<or> h_null then (Inl EINVAL, s)
      else reads (root_load A s root) s (\<lambda>r.
        let s = (if cr_evict_from r \<noteq> 0 then run_delete B A K s (cr_evict_from r) (cr_evict_to r) else s) in
        reads (open_walk B A s (cr_waypoint_id r) 0 0 0 None) s (\<lambda>w. (Inr (open_handle root r w), s))))"

section \<open>Destroy\<close>

partial_function (option) destroy_chain :: "build \<Rightarrow> 's blob_api \<Rightarrow> 's \<Rightarrow> u64 \<Rightarrow> u64 \<Rightarrow> 's option" where
  "destroy_chain B A s next_free cur =
     (if cur \<noteq> 0 \<and> cur \<noteq> next_free then
        case entry_read B A s cur None of
          Inl _ \<Rightarrow> Some s
        | Inr (nxt, _) \<Rightarrow> destroy_chain B A (snd (api_delete A s cur)) next_free nxt
      else Some s)"

definition logring_destroy :: "build \<Rightarrow> 's blob_api \<Rightarrow> nat \<Rightarrow> 's \<Rightarrow> logring option \<Rightarrow> (unit res \<times> 's) option" where
  "logring_destroy B A K s hp =
     (case hp of
        None \<Rightarrow> Some (Inl EINVAL, s)
      | Some h \<Rightarrow>
          let intent = (case root_load A s (lr_root h) of Inl _ \<Rightarrow> (0, 0) | Inr r \<Rightarrow> (cr_evict_from r, cr_evict_to r));
              (rc, s) = api_delete A s (lr_root h) in
          if rc \<noteq> Inr () \<and> rc \<noteq> Inl ENOENT then Some (rc, s)
          else let s = (if fst intent \<noteq> 0 then run_delete B A K s (fst intent) (snd intent) else s) in
          map_option (\<lambda>s. (Inr (), s)) (destroy_chain B A s (lr_next_free h) (lr_head_id h)))"

section \<open>Append\<close>

text \<open>Evict and retry while the store is full and the log can shrink.\<close>

partial_function (option) append_retry ::
  "build \<Rightarrow> 's blob_api \<Rightarrow> nat \<Rightarrow> u64 \<Rightarrow> u64 \<Rightarrow> byte list \<Rightarrow> unit res \<Rightarrow> logring \<Rightarrow> 's \<Rightarrow> (unit res \<times> logring \<times> 's) option" where
  "append_retry B A K r_id r2 rec rc h s =
     (if rc = Inl ENOSPC \<and> lr_head_id h \<noteq> 0 \<and> lr_head_id h \<noteq> lr_tail_id h then
        case checkpoint B A K s h True of
          (Inl e, h, s) \<Rightarrow> Some (Inl e, h, s)
        | (Inr _, h, s) \<Rightarrow>
            (case entry_write A s r_id r2 rec of (rc, s) \<Rightarrow> append_retry B A K r_id r2 rec rc h s)
      else Some (rc, h, s))"

text \<open>The handle after the entry is bound; the result of the checkpoint is only logged.\<close>

definition append_done :: "build \<Rightarrow> 's blob_api \<Rightarrow> nat \<Rightarrow> u64 \<Rightarrow> u64 \<Rightarrow> nat \<Rightarrow> logring \<Rightarrow> 's \<Rightarrow> logring \<times> 's" where
  "append_done B A K r_id r2 len h s =
     (let was_empty = (lr_tail_id h = 0);
          h = h\<lparr>lr_tail_id := r_id, lr_next_free := r2, lr_live_bytes := lr_live_bytes h + word_of_nat len,
                lr_count := lr_count h + 1, lr_since_ckpt := lr_since_ckpt h + 1\<rparr> in
      if was_empty then snd (checkpoint B A K s (h\<lparr>lr_head_id := r_id\<rparr>) False)
      else if unat (lr_since_ckpt h) \<ge> K then snd (checkpoint B A K s h False)
      else (h, s))"

definition logring_append ::
  "build \<Rightarrow> 's blob_api \<Rightarrow> nat \<Rightarrow> 's \<Rightarrow> logring option \<Rightarrow> byte list option \<Rightarrow> nat \<Rightarrow> (u64 res \<times> logring option \<times> 's) option" where
  "logring_append B A K s hp recp len =
     (case hp of
        None \<Rightarrow> Some (Inl EINVAL, None, s)
      | Some h \<Rightarrow>
          if recp = None \<and> len > 0 then Some (Inl EINVAL, Some h, s)
          else if len > CLOG_MAX_RECORD B then Some (Inl EMSGSIZE, Some h, s)
          else let r_id = lr_next_free h; rec = c_bytes recp len; (r2, s) = api_alloc_id A s in
          if r2 = 0 then Some (Inl EIO, Some h, s)
          else let (rc, s) = entry_write A s r_id r2 rec in
          case append_retry B A K r_id r2 rec rc h s of
            None \<Rightarrow> None
          | Some (Inl e, h, s) \<Rightarrow> Some (Inl e, Some h, s)
          | Some (Inr _, h, s) \<Rightarrow> (case append_done B A K r_id r2 len h s of (h, s) \<Rightarrow> Some (Inr r_id, Some h, s)))"

section \<open>Reading\<close>

record logring_cursor =
  lc_pos :: u64
  lc_epoch :: u32

definition logring_seek_oldest :: "logring option \<Rightarrow> bool \<Rightarrow> logring_cursor res" where
  "logring_seek_oldest hp c_null =
     (case hp of None \<Rightarrow> Inl EINVAL
      | Some h \<Rightarrow> if c_null then Inl EINVAL else Inr \<lparr>lc_pos = 0, lc_epoch = lr_epoch h\<rparr>)"

definition logring_seek_newest :: "logring option \<Rightarrow> bool \<Rightarrow> logring_cursor res" where
  "logring_seek_newest hp c_null =
     (case hp of None \<Rightarrow> Inl EINVAL
      | Some h \<Rightarrow> if c_null then Inl EINVAL else Inr \<lparr>lc_pos = lr_tail_id h, lc_epoch = lr_epoch h\<rparr>)"

text \<open>The record and its id, and the cursor behind it; an absent cursor or handle is a NULL pointer.\<close>

definition logring_next ::
  "build \<Rightarrow> 's blob_api \<Rightarrow> 's \<Rightarrow> logring option \<Rightarrow> logring_cursor option \<Rightarrow> bool \<Rightarrow> nat \<Rightarrow> (byte list \<times> u64) res \<times> logring_cursor option" where
  "logring_next B A s hp cp out_null out_sz =
     (case (hp, cp) of
        (Some h, Some c) \<Rightarrow>
          if out_null \<and> out_sz > 0 then (Inl EINVAL, cp)
          else let reset = Some \<lparr>lc_pos = 0, lc_epoch = lr_epoch h\<rparr> in
          if lc_epoch c \<noteq> 0 \<and> lc_epoch c \<noteq> lr_epoch h then (Inl ESTALE, reset)
          else let start = (if lc_pos c \<noteq> 0 then lc_pos c else lr_head_id h) in
          if start = 0 then (Inl ENOENT, cp)
          else (case entry_read B A s start (if out_null then None else Some out_sz) of
              Inl e \<Rightarrow>
                if e = ENOENT then (if start < lr_next_free h then (Inl ESTALE, reset) else (Inl ENOENT, cp))
                else (Inl e, cp)
            | Inr (nxt, rec) \<Rightarrow> (Inr (rec, start), Some \<lparr>lc_pos = nxt, lc_epoch = lr_epoch h\<rparr>))
      | _ \<Rightarrow> (Inl EINVAL, cp))"

record logring_moniker =
  lm_epoch :: u32
  lm_id :: u64

definition logring_cursor_to_moniker :: "logring_cursor \<Rightarrow> logring_moniker" where
  "logring_cursor_to_moniker c = \<lparr>lm_epoch = lc_epoch c, lm_id = lc_pos c\<rparr>"

definition logring_cursor_from_moniker :: "bool \<Rightarrow> logring_moniker option \<Rightarrow> logring_cursor res" where
  "logring_cursor_from_moniker c_null mp =
     (case mp of None \<Rightarrow> Inl EINVAL | Some m \<Rightarrow> if c_null then Inl EINVAL else Inr \<lparr>lc_pos = lm_id m, lc_epoch = lm_epoch m\<rparr>)"

section \<open>Statistics and reset\<close>

record logring_stats =
  ls_oldest_id :: u64
  ls_newest_id :: u64
  ls_count :: u32
  ls_bytes :: u32

definition logring_stats :: "logring option \<Rightarrow> bool \<Rightarrow> logring_stats res" where
  "logring_stats hp out_null =
     (case hp of None \<Rightarrow> Inl EINVAL
      | Some h \<Rightarrow> if out_null then Inl EINVAL
          else Inr \<lparr>ls_oldest_id = lr_head_id h, ls_newest_id = lr_tail_id h, ls_count = lr_count h, ls_bytes = lr_live_bytes h\<rparr>)"

partial_function (option) reset_loop :: "build \<Rightarrow> 's blob_api \<Rightarrow> nat \<Rightarrow> logring \<Rightarrow> 's \<Rightarrow> (unit res \<times> logring \<times> 's) option" where
  "reset_loop B A K h s =
     (if lr_head_id h \<noteq> 0 \<and> lr_head_id h \<noteq> lr_tail_id h then
        case checkpoint B A K s h True of
          (Inl e, h, s) \<Rightarrow> Some (Inl e, h, s)
        | (Inr _, h, s) \<Rightarrow> reset_loop B A K h s
      else Some (Inr (), h, s))"

definition reset_commit :: "build \<Rightarrow> 's blob_api \<Rightarrow> nat \<Rightarrow> logring \<Rightarrow> 's \<Rightarrow> unit res \<times> logring \<times> 's" where
  "reset_commit B A K h s =
     (let old_tail = lr_tail_id h; old_frontier = lr_next_free h; (first, s) = api_alloc_id A s in
      if first = 0 then (Inl EIO, h, s)
      else let h = h\<lparr>lr_tail_id := 0, lr_next_free := first, lr_head_id := 0, lr_live_bytes := 0, lr_count := 0, lr_since_ckpt := 0\<rparr> in
      case root_write A s h old_tail (if old_tail \<noteq> 0 then old_frontier else 0) of
        (Inl e, s) \<Rightarrow> (Inl e, h, s)
      | (Inr _, s) \<Rightarrow> (Inr (), h, if old_tail \<noteq> 0 then run_delete B A K s old_tail old_frontier else s))"

definition logring_reset :: "build \<Rightarrow> 's blob_api \<Rightarrow> nat \<Rightarrow> 's \<Rightarrow> logring option \<Rightarrow> (unit res \<times> logring option \<times> 's) option" where
  "logring_reset B A K s hp =
     (case hp of
        None \<Rightarrow> Some (Inl EINVAL, None, s)
      | Some h \<Rightarrow>
          (case reset_loop B A K h s of
             None \<Rightarrow> None
           | Some (Inl e, h, s) \<Rightarrow> Some (Inl e, Some h, s)
           | Some (Inr _, h, s) \<Rightarrow> (case reset_commit B A K h s of (r, h, s) \<Rightarrow> Some (r, Some h, s))))"

declare destroy_chain.simps [code] append_retry.simps [code] reset_loop.simps [code]

end
