(* ===== verification/Logring_Spec.thy ===== *)
theory Logring_Spec
  imports Logring
begin

text \<open>
  What a log on the store means: the list of its entries. \<open>log_flash\<close> is the state a power loss leaves,
  \<open>log_ok\<close> ties a handle in RAM to it. The handle may have dropped entries \<open>ds\<close> whose eviction did not
  commit; they are still there for the next open.
\<close>

section \<open>Chains\<close>

type_synonym log_entries = "(u64 \<times> byte list) list"

definition ids :: "log_entries \<Rightarrow> u64 set" where "ids es = fst ` set es"

definition total :: "log_entries \<Rightarrow> nat" where "total es = sum_list (map (\<lambda>e. length (snd e)) es)"

primrec chain :: "(u64 \<Rightarrow> byte list option) \<Rightarrow> u64 \<Rightarrow> log_entries \<Rightarrow> u64 \<Rightarrow> bool" where
  "chain m x [] y \<longleftrightarrow> x = y"
| "chain m x (e # es) y \<longleftrightarrow> fst e = x \<and> (\<exists>nx. m x = Some (clog_entry_bytes nx (snd e)) \<and> x < nx \<and> chain m nx es y)"

text \<open>Where a log begins: its oldest entry, or the id the first append will bind.\<close>

definition start :: "log_entries \<Rightarrow> u64 \<Rightarrow> u64" where "start es nf = (if es = [] then nf else fst (hd es))"

text \<open>A run under deletion: whatever is left of it links to the rest of it.\<close>

primrec run_ok :: "(u64 \<Rightarrow> byte list option) \<Rightarrow> u64 list \<Rightarrow> u64 \<Rightarrow> u64 \<Rightarrow> bool" where
  "run_ok m [] to cur \<longleftrightarrow> cur = to"
| "run_ok m (x # xs) to cur \<longleftrightarrow>
     cur = x \<and> (m x = None \<or> (\<exists>nx rec. m x = Some (clog_entry_bytes nx rec) \<and> run_ok m xs to nx))"

lemma ids_simps [simp]: "ids [] = {}" "ids (e # es) = insert (fst e) (ids es)" "ids (xs @ ys) = ids xs \<union> ids ys"
  by (auto simp: ids_def)

lemma total_simps [simp]: "total [] = 0" "total (e # es) = length (snd e) + total es" "total (xs @ ys) = total xs + total ys"
  by (simp_all add: total_def)

lemma ids_take_drop: "ids (take k es) \<subseteq> ids es" "ids (drop k es) \<subseteq> ids es"
  by (auto simp: ids_def dest: in_set_takeD in_set_dropD)

lemma start_simps [simp]: "start [] nf = nf" "start (e # es) nf = fst e"
  by (simp_all add: start_def)

lemma chain_frame: "chain m x es y \<Longrightarrow> (\<And>z. z \<in> ids es \<Longrightarrow> m' z = m z) \<Longrightarrow> chain m' x es y"
proof (induction es arbitrary: x)
  case (Cons e es)
  then obtain nx where "fst e = x" "m x = Some (clog_entry_bytes nx (snd e))" "x < nx" "chain m nx es y" by auto
  with Cons.IH [of nx] Cons.prems(2) show ?case by auto
qed simp

lemma chain_append: "chain m x (es @ fs) y \<longleftrightarrow> (\<exists>z. chain m x es z \<and> chain m z fs y)"
  by (induction es arbitrary: x) auto

lemma chain_start: "chain m x es y \<Longrightarrow> x = start es y"
  by (cases es) auto

lemma chain_between: "chain m x es y \<Longrightarrow> x \<le> y \<and> (\<forall>z \<in> ids es. x \<le> z \<and> z < y)"
proof (induction es arbitrary: x)
  case (Cons e es)
  then obtain nx where "fst e = x" "x < nx" "chain m nx es y" by auto
  with Cons.IH [of nx] show ?case by fastforce
qed simp

lemma chain_split:
  assumes "chain m x (es @ fs) y"
  shows "chain m x es (start fs y)" "chain m (start fs y) fs y" "ids es \<inter> ids fs = {}" "y \<notin> ids fs"
proof -
  from assms obtain z where z: "chain m x es z" "chain m z fs y" by (auto simp: chain_append)
  then show "chain m x es (start fs y)" "chain m (start fs y) fs y" using chain_start [OF z(2)] by simp_all
  show "ids es \<inter> ids fs = {}" "y \<notin> ids fs" using chain_between [OF z(1)] chain_between [OF z(2)] by fastforce+
qed

lemma chain_bound: "chain m x es y \<Longrightarrow> z \<in> ids es \<Longrightarrow> m z \<noteq> None"
  by (induction es arbitrary: x) auto

lemma chain_distinct: "chain m x es y \<Longrightarrow> distinct (map fst es)"
proof (induction es arbitrary: x)
  case (Cons e es)
  then obtain nx where "fst e = x" "x < nx" "chain m nx es y" by auto
  with Cons.IH [of nx] chain_between [of m nx es y] show ?case by (fastforce simp: ids_def)
qed simp

lemma chain_run: "chain m x es y \<Longrightarrow> run_ok m (map fst es) y x"
  by (induction es arbitrary: x) auto

lemma run_shrink: "run_ok m rs to x \<Longrightarrow> (\<And>z. z \<in> set rs \<Longrightarrow> m' z = None \<or> m' z = m z) \<Longrightarrow> run_ok m' rs to x"
proof (induction rs arbitrary: x)
  case (Cons z rs)
  show ?case
  proof (cases "m' z = None")
    case False
    with Cons.prems obtain nx rec where "x = z" "m' z = Some (clog_entry_bytes nx rec)" "run_ok m rs to nx" by fastforce
    with Cons.IH [of nx] Cons.prems(2) show ?thesis by auto
  qed (use Cons.prems in simp)
qed simp

section \<open>The root\<close>

text \<open>What the root object says of the entries: none counted yet, or the totals up to the waypoint.\<close>

definition root_says :: "clog_root \<Rightarrow> u32 \<Rightarrow> u32 \<Rightarrow> log_entries \<Rightarrow> u64 \<Rightarrow> bool" where
  "root_says r ep cp fs nf \<longleftrightarrow>
     cr_magic r = CLOG_MAGIC \<and> cr_version r = CLOG_VERSION \<and> cr_epoch r = ep \<and> cr_capacity_bytes r = cp \<and>
     (if cr_head_id r = 0 then cr_waypoint_id r = start fs nf
      else \<exists>pre w post. fs = pre @ w # post \<and> cr_head_id r = fst (hd fs) \<and> cr_waypoint_id r = fst w \<and>
        cr_count r = word_of_nat (Suc (length pre)) \<and> cr_live_bytes r = word_of_nat (total pre + length (snd w)))"

definition log_flash ::
  "(u64 \<Rightarrow> byte list option) \<Rightarrow> nat \<Rightarrow> u64 \<Rightarrow> u32 \<Rightarrow> u32 \<Rightarrow> u64 \<Rightarrow> u64 list \<Rightarrow> log_entries \<Rightarrow> bool" where
  "log_flash m nx root ep cp nf rs fs \<longleftrightarrow>
     (\<exists>r. m root = Some (clog_root_bytes r) \<and> root_says r ep cp fs nf \<and>
        (cr_evict_from r \<noteq> 0 \<longrightarrow> run_ok m rs (cr_evict_to r) (cr_evict_from r))) \<and>
     chain m (start fs nf) fs nf \<and> m nf = None \<and>
     root \<notin> set rs \<and> root \<notin> ids fs \<and> set rs \<inter> ids fs = {} \<and> nf \<notin> set rs \<and>
     (\<forall>x \<in> {root, nf} \<union> set rs \<union> ids fs. x \<noteq> 0 \<and> unat x < nx)"

definition log_handle :: "logring \<Rightarrow> log_entries \<Rightarrow> bool" where
  "log_handle h es \<longleftrightarrow>
     lr_head_id h = (if es = [] then 0 else fst (hd es)) \<and> lr_tail_id h = (if es = [] then 0 else fst (last es)) \<and>
     lr_count h = word_of_nat (length es) \<and> lr_live_bytes h = word_of_nat (total es)"

definition log_ok :: "(u64 \<Rightarrow> byte list option) \<Rightarrow> nat \<Rightarrow> logring \<Rightarrow> u64 list \<Rightarrow> log_entries \<Rightarrow> log_entries \<Rightarrow> bool" where
  "log_ok m nx h rs ds es \<longleftrightarrow>
     log_flash m nx (lr_root h) (lr_epoch h) (lr_capacity_bytes h) (lr_next_free h) rs (ds @ es) \<and> log_handle h es"

text \<open>The objects of a log.\<close>

definition log_ids :: "logring \<Rightarrow> u64 list \<Rightarrow> log_entries \<Rightarrow> u64 set" where
  "log_ids h rs fs = {lr_root h, lr_next_free h} \<union> set rs \<union> ids fs"

section \<open>Codecs\<close>

lemma clog_root_roundtrip:
  assumes "length (cr_magic r) = 4"
  shows "clog_root_of (clog_root_bytes r) = r" "length (clog_root_bytes r) = CLOG_ROOT_SIZE"
proof -
  have "unat (cr_rsvd r) < 65536" using unsigned_less [of "cr_rsvd r"] by simp
  then show "clog_root_of (clog_root_bytes r) = r"
    using assms by (cases r) (simp add: clog_root_of_def clog_root_bytes_def get_u16_def get_u32_def get_u64_def field_def nth_append)
  show "length (clog_root_bytes r) = CLOG_ROOT_SIZE" using assms by (simp add: clog_root_bytes_def CLOG_ROOT_SIZE_def)
qed

lemma clog_entry_roundtrip:
  assumes "length rec < 65536"
  shows "get_u64 (clog_entry_bytes nx rec) 0 = nx" "get_u16 (clog_entry_bytes nx rec) 8 = length rec"
    "field CLOG_ENTRY_HDR (length rec) (clog_entry_bytes nx rec) = rec" "length (clog_entry_bytes nx rec) = CLOG_ENTRY_HDR + length rec"
proof -
  show "get_u64 (clog_entry_bytes nx rec) 0 = nx" by (simp add: clog_entry_bytes_def get_u64_def field_def)
  show "get_u16 (clog_entry_bytes nx rec) 8 = length rec"
    using assms by (simp add: clog_entry_bytes_def get_u16_def field_def of_le_le_bytes)
qed (simp_all add: clog_entry_bytes_def field_def CLOG_ENTRY_HDR_def)

section \<open>Reading a log\<close>

locale log_store = object_store A inv objs nxt "MAX_PAYLOAD_LEN B"
  for A :: "'s blob_api" and inv objs nxt and B :: build +
  fixes K :: nat
  assumes root_fits: "CLOG_ROOT_SIZE \<le> MAX_PAYLOAD_LEN B" and payload16: "MAX_PAYLOAD_LEN B < 65536" and interval: "0 < K"
begin

lemma entry_read_bound:
  assumes "inv s" "objs s x = Some (clog_entry_bytes nx rec)"
  shows "entry_read B A s x None = Inr (nx, rec)"
    "entry_read B A s x (Some n) = (if n < length rec then Inl EMSGSIZE else Inr (nx, rec))"
proof -
  have "length (clog_entry_bytes nx rec) \<le> MAX_PAYLOAD_LEN B" using bound_law [OF assms] by simp
  moreover from this have l: "length rec < 65536" using payload16 by (simp add: clog_entry_bytes_def)
  ultimately show "entry_read B A s x None = Inr (nx, rec)"
    "entry_read B A s x (Some n) = (if n < length rec then Inl EMSGSIZE else Inr (nx, rec))"
    by (simp_all add: entry_read_def get_law [OF assms(1)] assms(2) clog_entry_roundtrip [OF l])
qed

lemma entry_read_free: "inv s \<Longrightarrow> objs s x = None \<Longrightarrow> entry_read B A s x out = Inl ENOENT"
  by (simp add: entry_read_def get_law)

lemma root_load_law:
  assumes "inv s" "objs s root = Some (clog_root_bytes r)" "cr_magic r = CLOG_MAGIC" "cr_version r = CLOG_VERSION"
  shows "root_load A s root = Inr r"
proof -
  have l: "length (cr_magic r) = 4" by (simp add: assms(3) CLOG_MAGIC_def)
  show ?thesis
    using clog_root_roundtrip [OF l] assms(3,4) by (simp add: root_load_def get_law [OF assms(1)] assms(2) Let_def)
qed

section \<open>Runs\<close>

lemma run_from_subset: "inv s \<Longrightarrow> run_ok (objs s) rs to x \<Longrightarrow> set (run_from B A s to n x) \<subseteq> set rs"
proof (induction n arbitrary: rs x)
  case (Suc n)
  show ?case
  proof (cases "x = to \<or> objs s x = None")
    case True
    with Suc.prems entry_read_free show ?thesis by (auto split: sum.splits)
  next
    case False
    with Suc.prems(2) obtain xs nx rec where "rs = x # xs" "objs s x = Some (clog_entry_bytes nx rec)" "run_ok (objs s) xs to nx"
      by (cases rs) auto
    with False Suc.IH [OF Suc.prems(1), of xs nx] entry_read_bound [OF Suc.prems(1)] show ?thesis by auto
  qed
qed simp

lemma delete_ids_law:
  "inv s \<Longrightarrow> inv (delete_ids A s xs) \<and> nxt (delete_ids A s xs) = nxt s \<and> (\<forall>x. x \<notin> set xs \<longrightarrow> objs (delete_ids A s xs) x = objs s x) \<and>
    (\<forall>x. objs (delete_ids A s xs) x = None \<or> objs (delete_ids A s xs) x = objs s x)"
proof (induction xs)
  case (Cons y ys)
  obtain r s' where d: "api_delete A (delete_ids A s ys) y = (r, s')" by fastforce
  with delete_law [OF _ d] Cons show ?case by (cases r) auto
qed simp

lemma run_delete_law:
  assumes "inv s" "run_ok (objs s) rs to x" "s' = run_delete B A K s x to"
  shows "inv s'" "nxt s' = nxt s" "y \<notin> set rs \<Longrightarrow> objs s' y = objs s y" "objs s' y = None \<or> objs s' y = objs s y"
    "run_ok (objs s') rs to x"
proof -
  note d = delete_ids_law [OF assms(1), of "run_from B A s to K x"] and r = run_from_subset [OF assms(1,2), of K]
  show "inv s'" "nxt s' = nxt s" "y \<notin> set rs \<Longrightarrow> objs s' y = objs s y" "objs s' y = None \<or> objs s' y = objs s y"
    using d r assms(3) by (auto simp: run_delete_def)
  show "run_ok (objs s') rs to x" using d assms(3) by (intro run_shrink [OF assms(2)]) (auto simp: run_delete_def)
qed

section \<open>Opening\<close>

lemma open_walk_law:
  assumes "inv s" "objs s nf = None"
  shows "chain (objs s) x fs nf \<Longrightarrow> open_walk B A s x tail b w fl =
    Inr (if fs = [] then tail else fst (last fs), nf, b + word_of_nat (length fs), w + word_of_nat (total fs),
      case fl of Some l \<Rightarrow> l | None \<Rightarrow> if fs = [] then 0 else length (snd (hd fs)))"
proof (induction fs arbitrary: x tail b w fl)
  case Nil
  then show ?case using entry_read_free [OF assms] by (simp add: open_walk.simps split: option.splits)
next
  case (Cons e fs)
  then obtain nx where e: "fst e = x" "objs s x = Some (clog_entry_bytes nx (snd e))" "x < nx" "chain (objs s) nx fs nf" by auto
  then show ?case
    using entry_read_bound(1) [OF assms(1) e(2)] Cons.IH [OF e(4)]
    by (subst open_walk.simps) (auto simp: not_le algebra_simps split: option.splits)
qed

end

end
