(* ===== verification/Logring_Ops.thy ===== *)
theory Logring_Ops
  imports Logring_Spec
begin

text \<open>
  The operations of the log against its meaning: opening finds the committed entries, a checkpoint
  drops oldest entries only, an append adds one entry at the end, reads walk the list.
\<close>

lemma ucast_word_of_nat: "(ucast (word_of_nat n :: u64) :: u32) = word_of_nat n"
  by (simp add: unsigned_of_nat word_of_nat_eq_iff)

context log_store
begin

section \<open>The flash state\<close>

lemma flash_frame:
  assumes "log_flash m nx root ep cp nf rs fs" "nx \<le> nx'" "m' root = m root" "m' nf = None"
    "\<And>x. x \<in> ids fs \<Longrightarrow> m' x = m x" "\<And>x. x \<in> set rs \<Longrightarrow> m' x = None \<or> m' x = m x"
  shows "log_flash m' nx' root ep cp nf rs fs"
proof -
  from assms(1) obtain r where r: "m root = Some (clog_root_bytes r)" "root_says r ep cp fs nf"
    "cr_evict_from r \<noteq> 0 \<longrightarrow> run_ok m rs (cr_evict_to r) (cr_evict_from r)" and ch: "chain m (start fs nf) fs nf"
    and sep: "root \<notin> set rs \<and> root \<notin> ids fs \<and> set rs \<inter> ids fs = {} \<and> nf \<notin> set rs"
    and b: "\<forall>x \<in> {root, nf} \<union> set rs \<union> ids fs. x \<noteq> 0 \<and> unat x < nx"
    unfolding log_flash_def by blast
  have "cr_evict_from r \<noteq> 0 \<longrightarrow> run_ok m' rs (cr_evict_to r) (cr_evict_from r)" using run_shrink r(3) assms(6) by blast
  moreover have "\<forall>x \<in> {root, nf} \<union> set rs \<union> ids fs. x \<noteq> 0 \<and> unat x < nx'" using b assms(2) less_le_trans by blast
  ultimately show ?thesis
    using r(1,2) chain_frame [OF ch assms(5)] sep assms(3,4) unfolding log_flash_def by metis
qed

lemma open_law:
  assumes i: "inv s" and f: "log_flash (objs s) (nxt s) root ep cp nf rs fs" and run: "logring_open B A K s root False = (r, s')"
  shows "\<exists>h. r = Inr h \<and> inv s' \<and> nxt s' = nxt s \<and> lr_root h = root \<and> lr_next_free h = nf \<and> lr_epoch h = ep \<and>
    log_ok (objs s') (nxt s') h rs [] fs \<and> (\<forall>x. x \<notin> set rs \<longrightarrow> objs s' x = objs s x)"
proof -
  from f obtain r0 where r0: "objs s root = Some (clog_root_bytes r0)" "root_says r0 ep cp fs nf"
    "cr_evict_from r0 \<noteq> 0 \<Longrightarrow> run_ok (objs s) rs (cr_evict_to r0) (cr_evict_from r0)" and rest: "root \<noteq> 0" "nf \<notin> set rs" "root \<notin> set rs"
    "set rs \<inter> ids fs = {}" "objs s nf = None" by (auto simp: log_flash_def)
  define s1 where "s1 = (if cr_evict_from r0 \<noteq> 0 then run_delete B A K s (cr_evict_from r0) (cr_evict_to r0) else s)"
  have s1: "inv s1" "nxt s1 = nxt s" "\<And>y. y \<notin> set rs \<Longrightarrow> objs s1 y = objs s y" "\<And>y. objs s1 y = None \<or> objs s1 y = objs s y"
    using run_delete_law [OF i r0(3) refl] i by (auto simp: s1_def)
  have f1: "log_flash (objs s1) (nxt s1) root ep cp nf rs fs"
    by (rule flash_frame [OF f]) (use s1 rest in auto)
  have m1: "objs s1 nf = None" using s1(3) rest by simp
  have ld: "root_load A s root = Inr r0" using root_load_law [OF i r0(1)] r0(2) by (simp add: root_says_def)
  have ch: "chain (objs s1) (start fs nf) fs nf" using f1 by (simp add: log_flash_def)
  have nz: "x \<noteq> 0" if "x \<in> ids fs" for x using f that by (auto simp: log_flash_def)
  have fin: "r = Inr h \<Longrightarrow> s' = s1 \<Longrightarrow> lr_root h = root \<Longrightarrow> lr_next_free h = nf \<Longrightarrow> lr_epoch h = ep \<Longrightarrow> lr_capacity_bytes h = cp \<Longrightarrow>
    log_handle h fs \<Longrightarrow> ?thesis" for h
    using s1 f1 by (auto simp: log_ok_def)
  show ?thesis
  proof (cases "cr_head_id r0 = 0")
    case True
    then have w: "cr_waypoint_id r0 = start fs nf" using r0(2) by (simp add: root_says_def)
    have "lt \<noteq> 0" if "fs \<noteq> []" "lt = fst (last fs)" for lt using nz [of lt] that by (auto simp: ids_def)
    with run r0(2) True open_walk_law [OF s1(1) m1 ch, of 0 0 0 None] ld rest w show ?thesis
      by (intro fin [of "open_handle root r0 (if fs = [] then 0 else fst (last fs), nf, word_of_nat (length fs), word_of_nat (total fs),
            if fs = [] then 0 else length (snd (hd fs)))"])
        (auto simp: logring_open_def Let_def s1_def [symmetric] open_handle_def root_says_def log_handle_def ucast_word_of_nat start_def)
  next
    case False
    then obtain pre w post where p: "fs = pre @ w # post" "cr_head_id r0 = fst (hd fs)" "cr_waypoint_id r0 = fst w"
      "cr_count r0 = word_of_nat (Suc (length pre))" "cr_live_bytes r0 = word_of_nat (total pre + length (snd w))"
      using r0(2) by (auto simp: root_says_def)
    have ch2: "chain (objs s1) (fst w) (w # post) nf" using chain_split(2) [OF ch [unfolded p(1)]] by simp
    have wb: "(word_of_nat (total (w # post)) :: u64) - word_of_nat (length (snd w)) = word_of_nat (total post)" by simp
    from run r0(2) False open_walk_law [OF s1(1) m1 ch2, of 0 0 0 None] ld rest p wb show ?thesis
      by (intro fin [of "open_handle root r0 (fst (last (w # post)), nf, word_of_nat (length (w # post)), word_of_nat (total (w # post)), length (snd w))"])
        (auto simp: logring_open_def Let_def s1_def [symmetric] open_handle_def root_says_def log_handle_def ucast_word_of_nat)
  qed
qed

end

end
