(* ===== verification/Logring_Append.thy ===== *)
theory Logring_Append
  imports Logring_Ops
begin

text \<open>
  Checkpoints, eviction and append. A checkpoint that fails has changed nothing on flash; one that
  succeeds has made the entries of the handle the committed ones.
\<close>

text \<open>What an append adds.\<close>

definition appended :: "u64 res \<Rightarrow> byte list \<Rightarrow> log_entries" where
  "appended r rec = (case r of Inl _ \<Rightarrow> [] | Inr x \<Rightarrow> [(x, rec)])"

context log_store
begin

section \<open>Committing the root\<close>

lemma image_says:
  assumes "log_handle h es" "\<And>x. x \<in> ids es \<Longrightarrow> x \<noteq> 0"
  shows "root_says (root_image h from to) (lr_epoch h) (lr_capacity_bytes h) es (lr_next_free h)"
proof (cases "es = []")
  case True
  with assms show ?thesis by (simp add: root_says_def root_image_def log_handle_def)
next
  case False
  then have l: "es = butlast es @ last es # []" by simp
  have "fst (hd es) \<noteq> 0" "fst (last es) \<noteq> 0" using assms(2) False by (auto simp: ids_def)
  moreover have "total es = total (butlast es) + length (snd (last es))" by (subst l) simp
  moreover have "length es = Suc (length (butlast es))" using False by simp
  ultimately show ?thesis
    using assms(1) False unfolding root_says_def log_handle_def root_image_def
    by (simp del: of_nat_Suc) (intro exI [of _ "butlast es"] exI [of _ "fst (last es)"] exI [of _ "snd (last es)"] conjI exI [of _ "[]"], simp_all)
qed

text \<open>A written root commits the entries of the handle; the run it names is one apart from them.\<close>

lemma commit_ok:
  assumes "log_handle h es" "chain m (start es (lr_next_free h)) es (lr_next_free h)" "m (lr_next_free h) = None"
    "from \<noteq> 0 \<Longrightarrow> run_ok m rs to from" "m' = m(lr_root h \<mapsto> clog_root_bytes (root_image h from to))"
    "lr_root h \<notin> insert (lr_next_free h) (set rs \<union> ids es)" "set rs \<inter> insert (lr_next_free h) (ids es) = {}"
    "\<And>x. x \<in> log_ids h rs es \<Longrightarrow> x \<noteq> 0 \<and> unat x < nx"
  shows "log_ok m' nx h rs [] es"
proof -
  have "chain m' (start es (lr_next_free h)) es (lr_next_free h)"
    by (rule chain_frame [OF assms(2)]) (use assms(5,6) in auto)
  moreover have "run_ok m' rs to from" if "from \<noteq> 0"
    by (rule run_shrink [OF assms(4) [OF that]]) (use assms(5,6) in auto)
  moreover have "root_says (root_image h from to) (lr_epoch h) (lr_capacity_bytes h) es (lr_next_free h)"
    by (rule image_says [OF assms(1)]) (use assms(8) in \<open>auto simp: log_ids_def\<close>)
  moreover have "m' (lr_next_free h) = None" using assms(3,5,6) by auto
  ultimately show ?thesis
    using assms(1,5-8) unfolding log_ok_def log_flash_def log_ids_def by (auto simp: root_image_def)
qed

text \<open>The entries and ids of a log in good order.\<close>

lemma log_facts:
  assumes "log_ok m nx h rs ds (tk @ dk)"
  shows "chain m (start (tk @ dk) (lr_next_free h)) (tk @ dk) (lr_next_free h)" "chain m (start dk (lr_next_free h)) dk (lr_next_free h)"
    "chain m (start (tk @ dk) (lr_next_free h)) tk (start dk (lr_next_free h))" "m (lr_next_free h) = None"
    "ids tk \<inter> ids dk = {}" "lr_next_free h \<notin> ids tk \<union> ids dk"
    "lr_root h \<notin> insert (lr_next_free h) (set rs \<union> ids ds \<union> ids tk \<union> ids dk)"
    "x \<in> log_ids h rs (ds @ tk @ dk) \<Longrightarrow> x \<noteq> 0 \<and> unat x < nx"
proof -
  let ?nf = "lr_next_free h"
  from assms have f: "log_flash m nx (lr_root h) (lr_epoch h) (lr_capacity_bytes h) ?nf rs (ds @ tk @ dk)" by (simp add: log_ok_def)
  then have c: "chain m (start (ds @ tk @ dk) ?nf) (ds @ tk @ dk) ?nf" by (simp add: log_flash_def)
  note c2 = chain_split [OF c] and c3 = chain_split [OF chain_split(2) [OF c]]
  show "chain m (start (tk @ dk) ?nf) (tk @ dk) ?nf" "chain m (start dk ?nf) dk ?nf" "chain m (start (tk @ dk) ?nf) tk (start dk ?nf)"
    "ids tk \<inter> ids dk = {}" by (rule c2 c3)+
  show "?nf \<notin> ids tk \<union> ids dk" using c2(4) by simp
  show n: "m ?nf = None" using f by (simp add: log_flash_def)
  have "m (lr_root h) \<noteq> None" using f by (auto simp: log_flash_def)
  then have "lr_root h \<noteq> ?nf" using n by auto
  with f show "lr_root h \<notin> insert ?nf (set rs \<union> ids ds \<union> ids tk \<union> ids dk)" by (simp add: log_flash_def)
  show "x \<in> log_ids h rs (ds @ tk @ dk) \<Longrightarrow> x \<noteq> 0 \<and> unat x < nx" using f by (auto simp: log_flash_def log_ids_def)
qed

lemma root_write_law:
  assumes i: "inv s" and ok: "log_ok (objs s) nx h rs ds (tk @ dk)" and h': "log_handle h' dk"
    "lr_root h' = lr_root h" "lr_epoch h' = lr_epoch h" "lr_capacity_bytes h' = lr_capacity_bytes h" "lr_next_free h' = lr_next_free h"
    and run: "root_write A s h' from to = (rc, s')"
    and ft: "tk = [] \<and> from = 0 \<or> dk \<noteq> [] \<and> from = fst (hd (tk @ dk)) \<and> to = fst (hd dk)"
  shows "inv s' \<and> nxt s' = nxt s \<and> (\<forall>x. x \<noteq> lr_root h \<longrightarrow> objs s' x = objs s x) \<and>
    (case rc of Inl _ \<Rightarrow> objs s' = objs s \<and> log_ok (objs s') nx h' rs (ds @ tk) dk
     | Inr _ \<Rightarrow> log_ok (objs s') nx h' (map fst tk) [] dk \<and> (from \<noteq> 0 \<longrightarrow> run_ok (objs s') (map fst tk) to from))"
proof -
  note u = update_law [OF i run [unfolded root_write_def]] and l = log_facts [OF ok]
  have tk: "set (map fst tk) = ids tk" by (simp add: ids_def)
  show ?thesis
  proof (cases rc)
    case (Inl e)
    with u ok h' show ?thesis by (simp add: log_ok_def)
  next
    case (Inr q)
    have r0: "run_ok (objs s) (map fst tk) to from" if "from \<noteq> 0"
      using chain_run [OF l(3)] ft that by (auto simp: start_def)
    have m': "objs s' = (objs s)(lr_root h' \<mapsto> clog_root_bytes (root_image h' from to))" using u Inr by simp
    have "log_ok (objs s') nx h' (map fst tk) [] dk"
      by (rule commit_ok [OF h'(1) _ _ r0 m']) (use l h' tk u in \<open>auto simp: log_ids_def\<close>)
    moreover have "run_ok (objs s') (map fst tk) to from" if "from \<noteq> 0"
      by (rule run_shrink [OF r0 [OF that]]) (use m' l(7) h'(2) tk in auto)
    ultimately show ?thesis using u Inr m' h'(2) by auto
  qed
qed

section \<open>Checkpoints\<close>

text \<open>The loop stops before the newest entry and counts what it passed.\<close>

lemma evict_loop_law:
  assumes i: "inv s"
  shows "chain (objs s) cur es nf \<Longrightarrow> es \<noteq> [] \<Longrightarrow> lr_tail_id h = fst (last es) \<Longrightarrow>
    \<exists>tk dk. es = tk @ dk \<and> dk \<noteq> [] \<and> (0 < left \<and> 1 < length es \<longrightarrow> tk \<noteq> []) \<and>
      evict_loop B A s h force left n cur freed = Inr (n + length tk, fst (hd dk), freed + word_of_nat (total tk))"
proof (induction left arbitrary: n cur freed es)
  case 0
  then have "cur = fst (hd es)" using chain_start [OF 0(1)] by (simp add: start_def)
  with 0 show ?case by (intro exI [of _ "[]"] exI [of _ es]) simp
next
  case (Suc left)
  from Suc.prems obtain e es' where e: "es = e # es'" by (cases es) auto
  with Suc.prems(1) obtain nx where c: "fst e = cur" "objs s cur = Some (clog_entry_bytes nx (snd e))" "cur < nx" "chain (objs s) nx es' nf" by auto
  have z: "cur \<noteq> 0" using bound_law [OF i c(2)] by simp
  note rd = entry_read_bound(1) [OF i c(2)]
  show ?case
  proof (cases "es' = []")
    case True
    with Suc.prems e c(1) show ?thesis by (intro exI [of _ "[]"] exI [of _ es]) simp
  next
    case False
    have "fst (last es') \<in> ids es'" using False by (simp add: ids_def)
    then have "cur < fst (last es')" using chain_between [OF c(4)] c(3) by fastforce
    then have t: "lr_tail_id h \<noteq> cur" using Suc.prems(3) e False by simp
    note st = chain_start [OF c(4)]
    let ?fr = "freed + word_of_nat (length (snd e))"
    show ?thesis
    proof (cases "\<not> force \<and> lr_live_bytes h - ?fr \<le> lr_capacity_bytes h")
      case True
      with e False z t rd c(1) st show ?thesis by (intro exI [of _ "[e]"] exI [of _ es']) (simp add: start_def)
    next
      case ff: False
      have "lr_tail_id h = fst (last es')" using Suc.prems(3) e False by simp
      from Suc.IH [OF c(4) False this, of "n + 1" ?fr] obtain tk dk where "es' = tk @ dk" "dk \<noteq> []"
        "evict_loop B A s h force left (n + 1) nx ?fr = Inr (n + 1 + length tk, fst (hd dk), ?fr + word_of_nat (total tk))" by blast
      with e z t rd ff show ?thesis
        by (intro exI [of _ "e # tk"] exI [of _ dk]) (auto simp: Let_def algebra_simps)
    qed
  qed
qed

lemma checkpoint_commit_law:
  assumes i: "inv s" and ok: "log_ok (objs s) nx h rs ds (tk @ dk)" and h': "log_handle h' dk"
    "lr_root h' = lr_root h" "lr_epoch h' = lr_epoch h" "lr_capacity_bytes h' = lr_capacity_bytes h" "lr_next_free h' = lr_next_free h"
    and run: "checkpoint_commit B A K s h' (length tk) from to = (rc, h2, s')"
    and ft: "tk = [] \<and> from = 0 \<or> dk \<noteq> [] \<and> from = fst (hd (tk @ dk)) \<and> to = fst (hd dk)"
  shows "inv s' \<and> nxt s' = nxt s \<and> (\<exists>n. h2 = h'\<lparr>lr_since_ckpt := n\<rparr>) \<and> (\<forall>x. x \<notin> insert (lr_root h) (ids tk) \<longrightarrow> objs s' x = objs s x) \<and>
    (case rc of Inl _ \<Rightarrow> log_ok (objs s') nx h2 rs (ds @ tk) dk | Inr _ \<Rightarrow> log_ok (objs s') nx h2 (map fst tk) [] dk)"
proof -
  obtain r1 s1 where w: "root_write A s h' from to = (r1, s1)" by fastforce
  note l = root_write_law [OF i ok h' w ft] and g = log_facts [OF ok]
  show ?thesis
  proof (cases r1)
    case (Inl e)
    with w l run show ?thesis by (auto simp: checkpoint_commit_def intro!: exI [of _ "lr_since_ckpt h'"])
  next
    case (Inr q)
    define s2 where "s2 = (if length tk > 0 then run_delete B A K s1 from to else s1)"
    have e: "rc = Inr ()" "h2 = h'\<lparr>lr_since_ckpt := 0\<rparr>" "s' = s2" using run w Inr by (auto simp: checkpoint_commit_def Let_def s2_def)
    have fr: "from \<noteq> 0" if "tk \<noteq> []" using ft that g(8) [of "fst (hd tk)"] by (auto simp: log_ids_def ids_def)
    have i1: "inv s1" and ok1: "log_ok (objs s1) nx h' (map fst tk) [] dk" and ro: "tk \<noteq> [] \<Longrightarrow> run_ok (objs s1) (map fst tk) to from"
      using l Inr fr by auto
    have tk: "set (map fst tk) = ids tk" by (simp add: ids_def)
    have d: "inv s2" "nxt s2 = nxt s1" "\<And>y. y \<notin> ids tk \<Longrightarrow> objs s2 y = objs s1 y" "\<And>y. objs s2 y = None \<or> objs s2 y = objs s1 y"
      using run_delete_law [OF i1 ro refl] i1 tk by (auto simp: s2_def)
    have root: "objs s2 (lr_root h') = objs s1 (lr_root h')" by (rule d(3)) (use g(7) h'(2) in simp)
    have "objs s1 (lr_next_free h') = None" using ok1 by (simp add: log_ok_def log_flash_def)
    then have free: "objs s2 (lr_next_free h') = None" using d(3) [of "lr_next_free h'"] g(6) h'(5) by simp
    have kept: "objs s2 x = objs s1 x" if "x \<in> ids ([] @ dk)" for x by (rule d(3)) (use g(5) that in auto)
    have "log_flash (objs s2) nx (lr_root h') (lr_epoch h') (lr_capacity_bytes h') (lr_next_free h') (map fst tk) ([] @ dk)"
      using ok1 d(2) unfolding log_ok_def by (intro flash_frame [OF _ _ root free kept d(4), where nx = nx]) simp_all
    then have "log_ok (objs s2) nx h2 (map fst tk) [] dk" using h'(1) e(2) by (simp add: log_ok_def log_handle_def)
    with e d l Inr show ?thesis by auto
  qed
qed

lemma checkpoint_law:
  assumes i: "inv s" and ok: "log_ok (objs s) nx h rs ds es" and run: "checkpoint B A K s h force = (rc, h', s')"
  shows "\<exists>tk dk. es = tk @ dk \<and> (es \<noteq> [] \<longrightarrow> dk \<noteq> []) \<and> (tk \<noteq> [] \<longrightarrow> force \<or> lr_capacity_bytes h < lr_live_bytes h) \<and>
    (force \<and> 1 < length es \<longrightarrow> tk \<noteq> []) \<and> inv s' \<and> nxt s' = nxt s \<and>
    lr_root h' = lr_root h \<and> lr_next_free h' = lr_next_free h \<and> lr_epoch h' = lr_epoch h \<and> lr_capacity_bytes h' = lr_capacity_bytes h \<and>
    (\<forall>x. x \<notin> insert (lr_root h) (ids es) \<longrightarrow> objs s' x = objs s x) \<and>
    (case rc of Inl _ \<Rightarrow> log_ok (objs s') nx h' rs (ds @ tk) dk | Inr _ \<Rightarrow> log_ok (objs s') nx h' (map fst tk) [] dk)"
proof -
  have hd: "log_handle h es" using ok by (simp add: log_ok_def)
  have stay: ?thesis if "checkpoint_commit B A K s h (length ([] :: log_entries)) 0 0 = (rc, h', s')" "\<not> (force \<and> 1 < length es)"
  proof -
    have "log_ok (objs s) nx h rs ds ([] @ es)" using ok by simp
    from checkpoint_commit_law [OF i this hd refl refl refl refl that(1)] that(2) show ?thesis
      by (intro exI [of _ "[]"] exI [of _ es]) (auto split: sum.splits)
  qed
  let ?want = "(force \<or> lr_live_bytes h > lr_capacity_bytes h) \<and> lr_head_id h \<noteq> 0"
  have nz: "lr_head_id h \<noteq> 0" if "0 < length es" using hd that log_facts(8) [of _ _ _ _ _ "[]" es] ok by (auto simp: log_handle_def log_ids_def ids_def)
  show ?thesis
  proof (cases ?want)
    case False
    with run nz show ?thesis by (intro stay) (auto simp: checkpoint_def simp del: length_greater_0_conv)
  next
    case True
    then have ne: "es \<noteq> []" and t: "lr_tail_id h = fst (last es)" "lr_head_id h = fst (hd es)" using hd by (auto simp: log_handle_def)
    have "chain (objs s) (lr_head_id h) es (lr_next_free h)" using log_facts(1) [of _ _ _ _ _ "[]" es] ok ne t by (auto simp: start_def)
    from evict_loop_law [OF i this ne t(1), of K force 0 0] obtain tk dk where
      p: "es = tk @ dk" "dk \<noteq> []" "1 < length es \<longrightarrow> tk \<noteq> []"
        "evict_loop B A s h force K 0 (lr_head_id h) 0 = Inr (length tk, fst (hd dk), word_of_nat (total tk))"
      using interval by auto
    show ?thesis
    proof (cases "tk = []")
      case True
      with run p \<open>?want\<close> show ?thesis by (intro stay) (auto simp: checkpoint_def)
    next
      case False
      let ?h = "h\<lparr>lr_head_id := fst (hd dk), lr_live_bytes := lr_live_bytes h - word_of_nat (total tk), lr_count := lr_count h - word_of_nat (length tk)\<rparr>"
      have "log_handle ?h dk" using hd p by (simp add: log_handle_def)
      from checkpoint_commit_law [OF i ok [unfolded p(1)] this, of "lr_head_id h" "fst (hd dk)" rc h' s'] run p False \<open>?want\<close> t show ?thesis
        by (intro exI [of _ tk] exI [of _ dk]) (auto simp: checkpoint_def)
    qed
  qed
qed

section \<open>Append\<close>

text \<open>Evicting until the write fits ends, since every round drops an entry. \<open>m\<close> is the store before the
  write that settled it.\<close>

lemma append_retry_law:
  assumes "inv s" "log_ok (objs s) nx h rs ds es" "entry_write A s (lr_next_free h) r2 rec = (rc, s1)"
  shows "\<exists>rc' h' s' m tk dk rs' ds' qs. append_retry B A K (lr_next_free h) r2 rec rc h s1 = Some (rc', h', s') \<and>
    es = tk @ dk \<and> (es \<noteq> [] \<longrightarrow> dk \<noteq> []) \<and> (tk \<noteq> [] \<longrightarrow> rc = Inl ENOSPC) \<and> log_ok m nx h' rs' ds' dk \<and> ds @ es = qs @ ds' @ dk \<and>
    lr_root h' = lr_root h \<and> lr_next_free h' = lr_next_free h \<and> lr_epoch h' = lr_epoch h \<and> lr_capacity_bytes h' = lr_capacity_bytes h \<and>
    inv s' \<and> nxt s' = nxt s \<and> objs s' = effect rc' (m(lr_next_free h \<mapsto> clog_entry_bytes r2 rec)) m \<and>
    (\<forall>x. x \<notin> insert (lr_root h) (ids es) \<longrightarrow> m x = objs s x) \<and> set rs' \<subseteq> set rs \<union> ids es"
  using assms
proof (induction "length es" arbitrary: s h rs ds es rc s1 rule: less_induct)
  case less
  note u = update_law [OF less.prems(1) less.prems(3) [unfolded entry_write_def]]
  have hd: "log_handle h es" using less.prems(2) by (simp add: log_ok_def)
  show ?case
  proof (cases "rc = Inl ENOSPC \<and> lr_head_id h \<noteq> 0 \<and> lr_head_id h \<noteq> lr_tail_id h")
    case False
    with less.prems(2) u show ?thesis
      by (subst append_retry.simps) (rule exI [of _ rc], rule exI [of _ h], rule exI [of _ s1], rule exI [of _ "objs s"],
        rule exI [of _ "[]"], rule exI [of _ es], rule exI [of _ rs], rule exI [of _ ds], auto)
  next
    case True
    then have two: "1 < length es" using hd by (cases es; cases "tl es") (auto simp: log_handle_def)
    have ok1: "inv s1" "objs s1 = objs s" "nxt s1 = nxt s" using u True by simp_all
    obtain ec h2 s2 where c: "checkpoint B A K s1 h True = (ec, h2, s2)" by (metis prod.exhaust)
    have "log_ok (objs s1) nx h rs ds es" using less.prems(2) ok1 by simp
    from checkpoint_law [OF ok1(1) this c] two obtain tk dk where
      d: "es = tk @ dk" "dk \<noteq> []" "tk \<noteq> []" "inv s2" "nxt s2 = nxt s" and
      fl: "lr_root h2 = lr_root h" "lr_next_free h2 = lr_next_free h" "lr_epoch h2 = lr_epoch h" "lr_capacity_bytes h2 = lr_capacity_bytes h"
        "\<And>x. x \<notin> insert (lr_root h) (ids es) \<Longrightarrow> objs s2 x = objs s x" and
      res: "case ec of Inl _ \<Rightarrow> log_ok (objs s2) nx h2 rs (ds @ tk) dk | Inr _ \<Rightarrow> log_ok (objs s2) nx h2 (map fst tk) [] dk"
      using ok1 by auto
    show ?thesis
    proof (cases ec)
      case (Inl e)
      with res d fl c True show ?thesis
        by (subst append_retry.simps) (rule exI [of _ "Inl e"], rule exI [of _ h2], rule exI [of _ s2], rule exI [of _ "objs s2"],
          rule exI [of _ tk], rule exI [of _ dk], rule exI [of _ rs], rule exI [of _ "ds @ tk"], auto)
    next
      case (Inr q)
      then have ok2: "log_ok (objs s2) nx h2 (map fst tk) [] dk" using res by simp
      obtain rc3 s3 where w: "entry_write A s2 (lr_next_free h2) r2 rec = (rc3, s3)" by fastforce
      have run: "append_retry B A K (lr_next_free h) r2 rec rc h s1 = append_retry B A K (lr_next_free h2) r2 rec rc3 h2 s3"
        using c Inr w True fl(2) by (subst append_retry.simps) simp
      have "length dk < length es" using d by simp
      from less.hyps [OF this d(4) ok2 w] obtain rc' h' s' m tk' dk' rs' ds' qs where
        r: "append_retry B A K (lr_next_free h2) r2 rec rc3 h2 s3 = Some (rc', h', s')" "dk = tk' @ dk'" "dk' \<noteq> []"
          "log_ok m nx h' rs' ds' dk'" "[] @ dk = qs @ ds' @ dk'"
          "lr_root h' = lr_root h2" "lr_next_free h' = lr_next_free h2" "lr_epoch h' = lr_epoch h2" "lr_capacity_bytes h' = lr_capacity_bytes h2"
          "inv s'" "nxt s' = nxt s2" "objs s' = effect rc' (m(lr_next_free h2 \<mapsto> clog_entry_bytes r2 rec)) m"
          "\<And>x. x \<notin> insert (lr_root h2) (ids dk) \<Longrightarrow> m x = objs s2 x" "set rs' \<subseteq> set (map fst tk) \<union> ids dk"
        using d(2) by blast
      have "set (map fst tk) = ids tk" by (simp add: ids_def)
      then have rs: "set rs' \<subseteq> set rs \<union> ids es" using r(14) d(1) by auto
      have fr: "\<forall>x. x \<notin> insert (lr_root h) (ids es) \<longrightarrow> m x = objs s x" using r(13) fl(1,5) d(1) by auto
      have "es = (tk @ tk') @ dk'" "ds @ es = (ds @ tk @ qs) @ ds' @ dk'" using d(1) r(2,5) by auto
      with run r rs fr fl d(5) True show ?thesis
        by - (rule exI [of _ rc'], rule exI [of _ h'], rule exI [of _ s'], rule exI [of _ m],
          rule exI [of _ "tk @ tk'"], rule exI [of _ dk'], rule exI [of _ rs'], rule exI [of _ ds'], rule exI [of _ "ds @ tk @ qs"], simp)
    qed
  qed
qed

lemma log_ok_mono:
  assumes "log_ok m nx h rs ds es" "nx \<le> nx'"
  shows "log_ok m nx' h rs ds es"
proof -
  from assms(1) have f: "log_flash m nx (lr_root h) (lr_epoch h) (lr_capacity_bytes h) (lr_next_free h) rs (ds @ es)" by (simp add: log_ok_def)
  then have "m (lr_next_free h) = None" by (simp add: log_flash_def)
  from flash_frame [OF f assms(2) refl this] assms(1) show ?thesis by (simp add: log_ok_def)
qed

lemma start_snoc: "start (fs @ [e]) y = start fs (fst e)"
  by (cases fs) simp_all

text \<open>The entry once bound, before any checkpoint: the next open finds it behind the waypoint.\<close>

lemma grow_ok:
  assumes ok: "log_ok m nx h rs ds es" and r2: "m r2 = None" "nx \<le> unat r2" and nf: "nf = lr_next_free h"
    and g: "g = h\<lparr>lr_tail_id := nf, lr_next_free := r2, lr_live_bytes := lr_live_bytes h + word_of_nat (length rec),
      lr_count := lr_count h + 1, lr_since_ckpt := n\<rparr>" and h1: "h1 = (if es = [] then g\<lparr>lr_head_id := nf\<rparr> else g)"
  shows "log_ok (m(nf \<mapsto> clog_entry_bytes r2 rec)) (Suc (unat r2)) h1 rs ds (es @ [(nf, rec)])"
proof -
  let ?fs = "ds @ es" and ?m = "m(nf \<mapsto> clog_entry_bytes r2 rec)" and ?new = "[(nf, rec)]"
  from ok nf have f: "log_flash m nx (lr_root h) (lr_epoch h) (lr_capacity_bytes h) nf rs ?fs" by (simp add: log_ok_def)
  then obtain r where r: "m (lr_root h) = Some (clog_root_bytes r)" "root_says r (lr_epoch h) (lr_capacity_bytes h) ?fs nf"
    "cr_evict_from r \<noteq> 0 \<longrightarrow> run_ok m rs (cr_evict_to r) (cr_evict_from r)" and ch: "chain m (start ?fs nf) ?fs nf" and mn: "m nf = None"
    and sep: "lr_root h \<notin> set rs" "lr_root h \<notin> ids ?fs" "set rs \<inter> ids ?fs = {}" "nf \<notin> set rs"
    and b: "\<And>x. x \<in> {lr_root h, nf} \<union> set rs \<union> ids ?fs \<Longrightarrow> x \<noteq> 0 \<and> unat x < nx"
    unfolding log_flash_def by blast
  have below: "unat x < unat r2" if "x \<in> {lr_root h, nf} \<union> set rs \<union> ids ?fs" for x using b [OF that] r2(2) by simp
  have n1: "nf \<notin> ids ?fs" "nf \<noteq> lr_root h" using chain_between [OF ch] mn r(1) by auto
  have "chain ?m (start ?fs nf) ?fs nf" by (rule chain_frame [OF ch]) (use n1 in auto)
  moreover have "nf < r2" using below [of nf] by (simp add: word_less_nat_alt)
  moreover have "start (?fs @ ?new) r2 = start ?fs nf" using start_snoc [of ?fs] by simp
  ultimately have c: "chain ?m (start (?fs @ ?new) r2) (?fs @ ?new) r2" by (simp add: chain_append)
  have says: "root_says r (lr_epoch h) (lr_capacity_bytes h) (?fs @ ?new) r2"
  proof (cases "cr_head_id r = 0")
    case True
    with r(2) show ?thesis using start_snoc [of ?fs] by (simp add: root_says_def)
  next
    case False
    with r(2) obtain pre w post where "?fs = pre @ w # post" "cr_head_id r = fst (hd ?fs)" "cr_waypoint_id r = fst w"
      "cr_count r = word_of_nat (Suc (length pre))" "cr_live_bytes r = word_of_nat (total pre + length (snd w))"
      unfolding root_says_def by auto
    then have "\<exists>pre w post. ?fs @ ?new = pre @ w # post \<and> cr_head_id r = fst (hd (?fs @ ?new)) \<and> cr_waypoint_id r = fst w \<and>
        cr_count r = word_of_nat (Suc (length pre)) \<and> cr_live_bytes r = word_of_nat (total pre + length (snd w))"
      by - (rule exI [of _ pre], rule exI [of _ w], rule exI [of _ "post @ ?new"], simp add: hd_append)
    with False r(2) show ?thesis by (simp add: root_says_def)
  qed
  have "cr_evict_from r \<noteq> 0 \<longrightarrow> run_ok ?m rs (cr_evict_to r) (cr_evict_from r)"
  proof
    assume "cr_evict_from r \<noteq> 0"
    with r(3) have "run_ok m rs (cr_evict_to r) (cr_evict_from r)" by simp
    then show "run_ok ?m rs (cr_evict_to r) (cr_evict_from r)" by (rule run_shrink) (use sep(4) in auto)
  qed
  moreover have "x \<noteq> 0 \<and> unat x < Suc (unat r2)" if "x \<in> {lr_root h, r2} \<union> set rs \<union> ids (?fs @ ?new)" for x
  proof (cases "x = r2")
    case True
    with below [of nf] show ?thesis by auto
  next
    case False
    then have "x \<in> {lr_root h, nf} \<union> set rs \<union> ids ?fs" using that by auto
    with b [OF this] below [OF this] show ?thesis by simp
  qed
  moreover have "r2 \<notin> set rs" "r2 \<noteq> nf" using below by fastforce+
  ultimately have "log_flash ?m (Suc (unat r2)) (lr_root h) (lr_epoch h) (lr_capacity_bytes h) r2 rs (?fs @ ?new)"
    unfolding log_flash_def using r(1) says c r2(1) sep n1 by auto
  moreover have "log_handle h1 (es @ ?new)" using ok h1 g by (auto simp: log_ok_def log_handle_def add_ac)
  moreover have "lr_root h1 = lr_root h" "lr_epoch h1 = lr_epoch h" "lr_capacity_bytes h1 = lr_capacity_bytes h" "lr_next_free h1 = r2"
    by (simp_all add: h1 g)
  ultimately show ?thesis by (simp add: log_ok_def)
qed

lemma append_done_law:
  assumes i: "inv s" and ok: "log_ok m nx h rs ds es" and r2: "m r2 = None" "nx \<le> unat r2"
    and nf: "nf = lr_next_free h" and o: "objs s = m(nf \<mapsto> clog_entry_bytes r2 rec)" and run: "append_done B A K nf r2 (length rec) h s = (h', s')"
  shows "\<exists>tk dk rs' ds' qs. es @ [(nf, rec)] = tk @ dk \<and> dk \<noteq> [] \<and> log_ok (objs s') (Suc (unat r2)) h' rs' ds' dk \<and>
    (tk \<noteq> [] \<longrightarrow> lr_capacity_bytes h < lr_live_bytes h + word_of_nat (length rec)) \<and>
    ds @ es @ [(nf, rec)] = qs @ ds' @ dk \<and> inv s' \<and> nxt s' = nxt s \<and> lr_root h' = lr_root h \<and> lr_next_free h' = r2 \<and>
    lr_epoch h' = lr_epoch h \<and> lr_capacity_bytes h' = lr_capacity_bytes h \<and>
    (\<forall>x. x \<notin> {lr_root h, nf} \<union> ids es \<longrightarrow> objs s' x = objs s x) \<and> set rs' \<subseteq> insert nf (set rs \<union> ids es)"
proof -
  define g where "g = h\<lparr>lr_tail_id := nf, lr_next_free := r2, lr_live_bytes := lr_live_bytes h + word_of_nat (length rec),
      lr_count := lr_count h + 1, lr_since_ckpt := lr_since_ckpt h + 1\<rparr>"
  define h1 where "h1 = (if es = [] then g\<lparr>lr_head_id := nf\<rparr> else g)"
  have h1f: "lr_root h1 = lr_root h" "lr_next_free h1 = r2" "lr_epoch h1 = lr_epoch h" "lr_capacity_bytes h1 = lr_capacity_bytes h"
    "lr_live_bytes h1 = lr_live_bytes h + word_of_nat (length rec)" by (simp_all add: h1_def g_def)
  have ok1: "log_ok (objs s) (Suc (unat r2)) h1 rs ds (es @ [(nf, rec)])" using grow_ok [OF ok r2 nf g_def h1_def] o by simp
  have hd: "log_handle h es" using ok by (simp add: log_ok_def)
  have t: "lr_tail_id h = 0 \<longleftrightarrow> es = []"
  proof (cases "es = []")
    case False
    then have "fst (last es) \<in> log_ids h rs (ds @ es @ [])" by (simp add: log_ids_def ids_def)
    with log_facts(8) [of m nx h rs ds es "[]"] ok hd False show ?thesis by (simp add: log_handle_def)
  qed (use hd in \<open>simp add: log_handle_def\<close>)
  have e: "append_done B A K nf r2 (length rec) h s =
      (if es = [] \<or> K \<le> unat (lr_since_ckpt g) then snd (checkpoint B A K s h1 False) else (h1, s))"
    unfolding append_done_def Let_def g_def [symmetric] h1_def t by simp
  consider "(h', s') = (h1, s)" | "(h', s') = snd (checkpoint B A K s h1 False)"
    using run [unfolded e] by (cases "es = [] \<or> K \<le> unat (lr_since_ckpt g)") auto
  then show ?thesis
  proof cases
    case 1
    with ok1 i show ?thesis
      by - (rule exI [of _ "[]"], rule exI [of _ "es @ [(nf, rec)]"], rule exI [of _ rs], rule exI [of _ ds], auto simp: h1f)
  next
    case 2
    then obtain rc where c: "checkpoint B A K s h1 False = (rc, h', s')" by (metis prod.collapse)
    from checkpoint_law [OF i ok1 c] obtain tk dk where d: "es @ [(nf, rec)] = tk @ dk" "dk \<noteq> []" "inv s'" "nxt s' = nxt s"
      "tk \<noteq> [] \<longrightarrow> lr_capacity_bytes h1 < lr_live_bytes h1"
      "lr_root h' = lr_root h1" "lr_next_free h' = lr_next_free h1" "lr_epoch h' = lr_epoch h1" "lr_capacity_bytes h' = lr_capacity_bytes h1"
      "\<forall>x. x \<notin> insert (lr_root h1) (ids (es @ [(nf, rec)])) \<longrightarrow> objs s' x = objs s x"
      "case rc of Inl _ \<Rightarrow> log_ok (objs s') (Suc (unat r2)) h' rs (ds @ tk) dk | Inr _ \<Rightarrow> log_ok (objs s') (Suc (unat r2)) h' (map fst tk) [] dk"
      using snoc_eq_iff_butlast by blast
    have "ids (tk @ dk) = insert nf (ids es)" using d(1) [symmetric] by simp
    then have sub: "set (map fst tk) \<subseteq> insert nf (ids es)" "ids tk \<union> ids dk = insert nf (ids es)" by (auto simp: ids_def)
    show ?thesis
    proof (cases rc)
      case (Inl e)
      with d sub show ?thesis
        by - (rule exI [of _ tk], rule exI [of _ dk], rule exI [of _ rs], rule exI [of _ "ds @ tk"], auto simp: h1f)
    next
      case (Inr q)
      with d sub show ?thesis
        by - (rule exI [of _ tk], rule exI [of _ dk], rule exI [of _ "map fst tk"], rule exI [of _ "[]"], auto simp: h1f)
    qed
  qed
qed

lemma append_law:
  assumes i: "inv s" "nxt s < ID_LIMIT" and ok: "log_ok (objs s) (nxt s) h rs ds es"
    and len: "\<forall>v. recp = Some v \<longrightarrow> len \<le> length v"
  shows "\<exists>r h' s' rs' ds' es' ts qs. logring_append B A K s (Some h) recp len = Some (r, Some h', s') \<and>
    inv s' \<and> log_ok (objs s') (nxt s') h' rs' ds' es' \<and> nxt s \<le> nxt s' \<and> nxt s' \<le> Suc (nxt s) \<and>
    es @ appended r (c_bytes recp len) = ts @ es' \<and> ds @ es @ appended r (c_bytes recp len) = qs @ ds' @ es' \<and>
    (r = Inr (lr_next_free h) \<and> es' \<noteq> [] \<or> (\<exists>e. r = Inl e)) \<and>
    (ts \<noteq> [] \<longrightarrow> lr_capacity_bytes h < lr_live_bytes h + word_of_nat len \<or>
       (\<exists>r2 s1. api_alloc_id A s = (r2, s1) \<and> fst (entry_write A s1 (lr_next_free h) r2 (c_bytes recp len)) = Inl ENOSPC)) \<and>
    lr_root h' = lr_root h \<and> lr_epoch h' = lr_epoch h \<and> lr_capacity_bytes h' = lr_capacity_bytes h \<and>
    (\<forall>x. unat x < nxt s \<longrightarrow> x \<notin> log_ids h rs (ds @ es) \<longrightarrow> objs s' x = objs s x) \<and>
    log_ids h' rs' (ds' @ es') \<subseteq> log_ids h rs (ds @ es) \<union> {x. nxt s \<le> unat x}"
proof -
  let ?rec = "c_bytes recp len" and ?nf = "lr_next_free h"
  have same: ?thesis if "logring_append B A K s (Some h) recp len = Some (Inl e, Some h, s1)" "inv s1" "objs s1 = objs s" "nxt s1 = nxt s" for e s1
    using that ok
    by - (rule exI [of _ "Inl e"], rule exI [of _ h], rule exI [of _ s1], rule exI [of _ rs], rule exI [of _ ds], rule exI [of _ es],
        rule exI [of _ "[]"], auto simp: appended_def)
  show ?thesis
  proof (cases "recp = None \<and> 0 < len \<or> CLOG_MAX_RECORD B < len")
    case True
    with same [of _ s] i show ?thesis by (fastforce simp: logring_append_def)
  next
    case guard: False
    obtain r2 s1 where al: "api_alloc_id A s = (r2, s1)" by fastforce
    note a = alloc_law [OF i al]
    have rl: "length ?rec = len" using len guard by (auto simp: c_bytes_def split: option.splits)
    show ?thesis
    proof (cases "r2 = 0")
      case True
      with same [of EIO s1] guard al a nxt_law [OF i(1)] show ?thesis by (auto simp: logring_append_def Let_def)
    next
      case False
      then have r2: "unat r2 = nxt s" "nxt s1 = Suc (nxt s)" "objs s r2 = None" "inv s1" "objs s1 = objs s"
        using a objs_fresh [OF i(1), of r2] by auto
      obtain rc s2 where w: "entry_write A s1 ?nf r2 ?rec = (rc, s2)" by fastforce
      have ok1: "log_ok (objs s1) (nxt s) h rs ds es" using ok r2(5) by simp
      from append_retry_law [OF r2(4) ok1 w, unfolded r2(2,5)] obtain rc' h2 s3 m tk dk rs2 ds2 qs where
        ar: "append_retry B A K ?nf r2 ?rec rc h s2 = Some (rc', h2, s3)" "es = tk @ dk" "log_ok m (nxt s) h2 rs2 ds2 dk" "ds @ es = qs @ ds2 @ dk"
          "tk \<noteq> [] \<longrightarrow> rc = Inl ENOSPC"
        and f2: "lr_root h2 = lr_root h" "lr_next_free h2 = ?nf" "lr_epoch h2 = lr_epoch h" "lr_capacity_bytes h2 = lr_capacity_bytes h"
          "inv s3" "nxt s3 = Suc (nxt s)" "objs s3 = effect rc' (m(?nf \<mapsto> clog_entry_bytes r2 ?rec)) m"
          "\<And>x. x \<notin> insert (lr_root h) (ids es) \<Longrightarrow> m x = objs s x" "set rs2 \<subseteq> set rs \<union> ids es"
        by blast
      have run: "logring_append B A K s (Some h) recp len = (case rc' of Inl e \<Rightarrow> Some (Inl e, Some h2, s3)
          | Inr _ \<Rightarrow> (case append_done B A K ?nf r2 len h2 s3 of (h, s) \<Rightarrow> Some (Inr ?nf, Some h, s)))"
        using guard al False w ar(1) by (auto simp: logring_append_def Let_def split: sum.splits)
      have idq: "ids ds \<union> ids es = ids qs \<union> ids ds2 \<union> ids dk" using arg_cong [OF ar(4), of ids] by auto
      have r2out: "r2 \<notin> insert (lr_root h) (ids es)" using log_facts(8) [of "objs s" "nxt s" h rs ds "[]" es r2] ok r2(1) by (auto simp: log_ids_def)
      show ?thesis
      proof (cases rc')
        case (Inl e)
        have "log_ok m (Suc (nxt s)) h2 rs2 ds2 dk" by (rule log_ok_mono [OF ar(3)]) simp
        with Inl run ar f2 idq show ?thesis
          by - (rule exI [of _ "Inl e"], rule exI [of _ h2], rule exI [of _ s3], rule exI [of _ rs2], rule exI [of _ ds2], rule exI [of _ dk],
            rule exI [of _ tk], use al w in \<open>auto simp: appended_def log_ids_def\<close>)
      next
        case (Inr q)
        obtain h' s' where ad: "append_done B A K ?nf r2 (length ?rec) h2 s3 = (h', s')" by fastforce
        have mr2: "m r2 = None" using f2(8) [OF r2out] r2(3) by simp
        have o3: "objs s3 = m(?nf \<mapsto> clog_entry_bytes r2 ?rec)" using f2(7) Inr by simp
        from append_done_law [OF f2(5) ar(3) mr2 eq_refl [OF r2(1) [symmetric]] f2(2) [symmetric] o3 ad] obtain tk3 dk3 rs3 ds3 qs3 where
          cp: "tk3 \<noteq> [] \<longrightarrow> lr_capacity_bytes h2 < lr_live_bytes h2 + word_of_nat (length ?rec)" and
          d: "dk @ [(?nf, ?rec)] = tk3 @ dk3" "dk3 \<noteq> []" "log_ok (objs s') (Suc (unat r2)) h' rs3 ds3 dk3"
            "ds2 @ dk @ [(?nf, ?rec)] = qs3 @ ds3 @ dk3" "inv s'" "nxt s' = nxt s3" "lr_root h' = lr_root h2" "lr_next_free h' = r2"
            "lr_epoch h' = lr_epoch h2" "lr_capacity_bytes h' = lr_capacity_bytes h2"
            "\<And>x. x \<notin> {lr_root h2, ?nf} \<union> ids dk \<Longrightarrow> objs s' x = objs s3 x" "set rs3 \<subseteq> insert ?nf (set rs2 \<union> ids dk)"
          by blast
        have idq3: "ids ds2 \<union> insert ?nf (ids dk) = ids qs3 \<union> ids ds3 \<union> ids dk3" using arg_cong [OF d(4), of ids] by auto
        have app: "appended (Inr ?nf) ?rec = [(?nf, ?rec)]" by (simp add: appended_def)
        have "es @ [(?nf, ?rec)] = (tk @ tk3) @ dk3" "ds @ es @ [(?nf, ?rec)] = (qs @ qs3) @ ds3 @ dk3"
          using ar(2,4) d(1,4) by (simp_all flip: append_assoc) (simp_all add: append_assoc)
        moreover have "objs s' x = objs s x" if "x \<notin> log_ids h rs (ds @ es)" for x
          using d(11) [of x] f2(8) [of x] o3 f2(1) ar(2) that by (auto simp: log_ids_def)
        moreover have "log_ids h' rs3 (ds3 @ dk3) \<subseteq> log_ids h rs (ds @ es) \<union> {x. nxt s \<le> unat x}"
          using d(7,8,12) f2(1,9) idq idq3 r2(1) ar(2) by (auto simp: log_ids_def)
        moreover have "lr_live_bytes h2 = lr_live_bytes h" if "tk = []" using ar(2,3) ok that by (simp add: log_ok_def log_handle_def)
        then have "tk @ tk3 \<noteq> [] \<longrightarrow> lr_capacity_bytes h < lr_live_bytes h + word_of_nat len \<or>
            (\<exists>r2 s1. api_alloc_id A s = (r2, s1) \<and> fst (entry_write A s1 ?nf r2 ?rec) = Inl ENOSPC)"
          using ar(5) cp f2(4) rl al w by auto
        ultimately show ?thesis using run Inr ad rl d f2 r2 app
          by - (rule exI [of _ "Inr ?nf"], rule exI [of _ h'], rule exI [of _ s'], rule exI [of _ rs3], rule exI [of _ ds3], rule exI [of _ dk3],
            rule exI [of _ "tk @ tk3"], rule exI [of _ "qs @ qs3"], simp)
      qed
    qed
  qed
qed

end

end
