(* ===== verification/Logring_Life.thy ===== *)
theory Logring_Life
  imports Logring_Append
begin

text \<open>
  Create, read, reset and destroy. A new log is empty; a cursor delivers the entries in order and
  tells an evicted position from the end of the log; a reset commits the empty log before it deletes
  the last entry; a destroy deletes the root first.
\<close>

text \<open>A reader: up to \<open>k\<close> calls of \<open>logring_next\<close> with a buffer of the largest record.\<close>

primrec log_read :: "build \<Rightarrow> 's blob_api \<Rightarrow> 's \<Rightarrow> logring \<Rightarrow> nat \<Rightarrow> logring_cursor \<Rightarrow> log_entries" where
  "log_read B A s h 0 c = []"
| "log_read B A s h (Suc k) c =
     (case logring_next B A s (Some h) (Some c) False (MAX_PAYLOAD_LEN B) of
        (Inr (rec, x), Some c) \<Rightarrow> (x, rec) # log_read B A s h k c
      | _ \<Rightarrow> [])"

context log_store
begin

section \<open>Create\<close>

lemma create_law:
  assumes i: "inv s" "Suc (nxt s) < ID_LIMIT" and run: "logring_create A rand s (Some c) False = (r, s')"
  shows "inv s' \<and> nxt s \<le> nxt s' \<and> (\<forall>x. objs s x \<noteq> None \<longrightarrow> objs s' x = objs s x) \<and>
    (case r of Inl _ \<Rightarrow> objs s' = objs s
     | Inr root \<Rightarrow> nxt s \<le> unat root \<and> (\<exists>ep nf. ep \<noteq> 0 \<and> log_flash (objs s') (nxt s') root ep (lc_capacity_bytes c) nf [] []))"
proof (cases "lc_capacity_bytes c = 0")
  case True
  with run i show ?thesis by (auto simp: logring_create_def)
next
  case cap: False
  obtain root s1 where a1: "api_alloc_id A s = (root, s1)" by fastforce
  obtain first s2 where a2: "api_alloc_id A s1 = (first, s2)" by fastforce
  have l1: "inv s1" "objs s1 = objs s" "root = 0 \<and> nxt s1 = nxt s \<or> unat root = nxt s \<and> nxt s1 = Suc (nxt s)"
    using alloc_law [OF i(1) _ a1] i(2) by auto
  have "nxt s1 < ID_LIMIT" using l1(3) i(2) by auto
  then have l2: "inv s2" "objs s2 = objs s" "first = 0 \<and> nxt s2 = nxt s1 \<or> unat first = nxt s1 \<and> nxt s2 = Suc (nxt s1)"
    using alloc_law [OF l1(1) _ a2] l1(2) by auto
  show ?thesis
  proof (cases "root = 0 \<or> first = 0")
    case True
    with run cap a1 a2 l1 l2 show ?thesis by (auto simp: logring_create_def Let_def)
  next
    case False
    then have u: "unat root = nxt s" "unat first = Suc (nxt s)" "nxt s2 = Suc (Suc (nxt s))" using l1(3) l2(3) by auto
    let ?h = "\<lparr>lr_root = root, lr_tail_id = 0, lr_next_free = first, lr_head_id = 0, lr_epoch = (if rand = 0 then 1 else rand),
      lr_capacity_bytes = lc_capacity_bytes c, lr_live_bytes = 0, lr_count = 0, lr_since_ckpt = 0\<rparr>"
    obtain rc s3 where w: "root_write A s2 ?h 0 0 = (rc, s3)" by fastforce
    note ul = update_law [OF l2(1) w [unfolded root_write_def]]
    have free: "objs s root = None" "objs s first = None" using objs_fresh [OF i(1)] u by auto
    have res: "r = (case rc of Inl e \<Rightarrow> Inl e | Inr _ \<Rightarrow> Inr root)" "s' = s3"
      using run cap a1 a2 False w by ((cases rc; auto simp: logring_create_def Let_def)+)
    have "log_ok (objs s3) (nxt s3) ?h [] [] []" if "rc = Inr q" for q
      by (rule commit_ok [of ?h "[]" "objs s2" 0 "[]" 0])
        (use that ul l2(2) free u False in \<open>auto simp: log_handle_def log_ids_def\<close>)
    then have "rc = Inr q \<Longrightarrow> \<exists>ep nf. ep \<noteq> 0 \<and> log_flash (objs s3) (nxt s3) root ep (lc_capacity_bytes c) nf [] []" for q
      by (intro exI [of _ "if rand = 0 then 1 else rand"] exI [of _ first]) (simp add: log_ok_def)
    with res ul l2(2) u free show ?thesis by (cases rc) auto
  qed
qed

section \<open>Reading\<close>

lemma next_entry:
  assumes i: "inv s" and ch: "chain (objs s) x (e # es) nf" and c: "lc_epoch c = 0 \<or> lc_epoch c = lr_epoch h"
    "x = (if lc_pos c \<noteq> 0 then lc_pos c else lr_head_id h)"
  shows "logring_next B A s (Some h) (Some c) False n =
    (if n < length (snd e) then (Inl EMSGSIZE, Some c)
     else (Inr (snd e, x), Some \<lparr>lc_pos = start es nf, lc_epoch = lr_epoch h\<rparr>))"
proof -
  from ch obtain nx where nx: "objs s x = Some (clog_entry_bytes nx (snd e))" "chain (objs s) nx es nf" by auto
  have "x \<noteq> 0" using bound_law [OF i nx(1)] by simp
  with c entry_read_bound(2) [OF i nx(1)] chain_start [OF nx(2)] show ?thesis
    by (auto simp: logring_next_def Let_def)
qed

lemma next_gone:
  assumes "inv s" "objs s (lc_pos c) = None" "lc_pos c \<noteq> 0" "lc_epoch c = 0 \<or> lc_epoch c = lr_epoch h"
  shows "logring_next B A s (Some h) (Some c) False n =
    (if lc_pos c < lr_next_free h then (Inl ESTALE, Some \<lparr>lc_pos = 0, lc_epoch = lr_epoch h\<rparr>) else (Inl ENOENT, Some c))"
  using assms entry_read_free [OF assms(1,2)] by (auto simp: logring_next_def Let_def)

lemma read_chain:
  assumes i: "inv s" and nf: "objs s (lr_next_free h) = None" "lr_next_free h \<noteq> 0"
  shows "chain (objs s) x es (lr_next_free h) \<Longrightarrow> x \<noteq> 0 \<Longrightarrow>
    log_read B A s h k \<lparr>lc_pos = x, lc_epoch = lr_epoch h\<rparr> = take k es"
proof (induction k arbitrary: x es)
  case (Suc k)
  show ?case
  proof (cases es)
    case Nil
    with Suc.prems next_gone [OF i, of "\<lparr>lc_pos = x, lc_epoch = lr_epoch h\<rparr>" h] nf show ?thesis by simp
  next
    case (Cons e es')
    with Suc.prems(1) obtain nx where nx: "fst e = x" "objs s x = Some (clog_entry_bytes nx (snd e))" "x < nx" "chain (objs s) nx es' (lr_next_free h)"
      by auto
    have "length (snd e) \<le> MAX_PAYLOAD_LEN B" using bound_law [OF i nx(2)] by (simp add: clog_entry_bytes_def)
    moreover have "nx = start es' (lr_next_free h)" "nx \<noteq> 0" using chain_start [OF nx(4)] nx(3) by auto
    ultimately show ?thesis
      using next_entry [OF i Suc.prems(1) [unfolded Cons], of "\<lparr>lc_pos = x, lc_epoch = lr_epoch h\<rparr>" h] Suc.prems(2) Suc.IH [OF nx(4)] nx(1) Cons
      by (cases e) simp
  qed
qed simp

lemma read_oldest:
  assumes i: "inv s" and ok: "log_ok (objs s) nx h rs ds es"
  shows "log_read B A s h k \<lparr>lc_pos = 0, lc_epoch = lr_epoch h\<rparr> = take k es"
proof -
  have l: "chain (objs s) (start es (lr_next_free h)) es (lr_next_free h)" "objs s (lr_next_free h) = None"
    "\<And>x. x \<in> log_ids h rs (ds @ es) \<Longrightarrow> x \<noteq> 0"
    using log_facts(1,4,8) [of "objs s" nx h rs ds "[]" es] ok by auto
  have hd: "lr_head_id h = (if es = [] then 0 else fst (hd es))" using ok by (simp add: log_ok_def log_handle_def)
  show ?thesis
  proof (cases es)
    case Nil
    with hd show ?thesis by (cases k) (simp_all add: logring_next_def Let_def)
  next
    case (Cons e es')
    then have z: "lr_head_id h \<noteq> 0" "start es (lr_next_free h) = lr_head_id h" "lr_next_free h \<noteq> 0"
      using hd l(3) by (auto simp: log_ids_def ids_def)
    have "length (snd e) \<le> MAX_PAYLOAD_LEN B"
      using bound_law [OF i] l(1) Cons by (fastforce simp: clog_entry_bytes_def)
    then have "logring_next B A s (Some h) (Some \<lparr>lc_pos = 0, lc_epoch = lr_epoch h\<rparr>) False (MAX_PAYLOAD_LEN B) =
        logring_next B A s (Some h) (Some \<lparr>lc_pos = lr_head_id h, lc_epoch = lr_epoch h\<rparr>) False (MAX_PAYLOAD_LEN B)"
      using z Cons next_entry [OF i l(1) [unfolded Cons], of _ h "MAX_PAYLOAD_LEN B"] by simp
    then have "log_read B A s h k \<lparr>lc_pos = 0, lc_epoch = lr_epoch h\<rparr> = log_read B A s h k \<lparr>lc_pos = lr_head_id h, lc_epoch = lr_epoch h\<rparr>"
      by (cases k) simp_all
    then show ?thesis using read_chain [OF i l(2) z(3) l(1)] z(1,2) by simp
  qed
qed

section \<open>Reset\<close>

lemma one_left:
  assumes "log_ok m nx h rs ds es" "lr_head_id h = 0 \<or> lr_head_id h = lr_tail_id h"
  shows "length es \<le> 1"
proof (cases es)
  case (Cons e es')
  have ch: "chain m (start es (lr_next_free h)) es (lr_next_free h)" "\<And>x. x \<in> log_ids h rs (ds @ es) \<Longrightarrow> x \<noteq> 0"
    using log_facts(1,8) [of m nx h rs ds "[]" es] assms(1) by auto
  have "lr_head_id h = fst e" "lr_tail_id h = fst (last es)" using assms(1) Cons by (auto simp: log_ok_def log_handle_def)
  moreover have "fst e \<noteq> 0" using ch(2) Cons by (auto simp: log_ids_def)
  ultimately have "fst (last es) = fst e" using assms(2) by simp
  moreover have "fst e \<notin> fst ` set es'" using chain_distinct [OF ch(1)] Cons by simp
  moreover have "fst (last es') \<in> fst ` set es'" if "es' \<noteq> []" using that by simp
  ultimately have "es' = []" using Cons by (cases "es' = []") (auto simp del: set_map)
  then show ?thesis using Cons by simp
qed simp

lemma reset_loop_law:
  assumes "inv s" "log_ok (objs s) nx h rs ds es"
  shows "\<exists>rc h' s' tk dk rs' ds' qs. reset_loop B A K h s = Some (rc, h', s') \<and> es = tk @ dk \<and> (rc = Inr () \<longrightarrow> length dk \<le> 1) \<and>
    log_ok (objs s') nx h' rs' ds' dk \<and> ds @ es = qs @ ds' @ dk \<and>
    lr_root h' = lr_root h \<and> lr_next_free h' = lr_next_free h \<and> lr_epoch h' = lr_epoch h \<and> lr_capacity_bytes h' = lr_capacity_bytes h \<and>
    inv s' \<and> nxt s' = nxt s \<and> (\<forall>x. x \<notin> insert (lr_root h) (ids es) \<longrightarrow> objs s' x = objs s x)"
  using assms
proof (induction "length es" arbitrary: s h rs ds es rule: less_induct)
  case less
  show ?case
  proof (cases "lr_head_id h \<noteq> 0 \<and> lr_head_id h \<noteq> lr_tail_id h")
    case False
    with one_left [OF less.prems(2)] have "length es \<le> 1" by blast
    with False less.prems show ?thesis
      by (subst reset_loop.simps) (rule exI [of _ "Inr ()"], rule exI [of _ h], rule exI [of _ s], rule exI [of _ "[]"], rule exI [of _ es],
        rule exI [of _ rs], rule exI [of _ ds], auto)
  next
    case True
    then have two: "1 < length es"
      using less.prems(2) by (cases es; cases "tl es") (auto simp: log_ok_def log_handle_def)
    obtain ec h2 s2 where c: "checkpoint B A K s h True = (ec, h2, s2)" by (metis prod.exhaust)
    from checkpoint_law [OF less.prems c] two obtain tk dk where
      d: "es = tk @ dk" "tk \<noteq> []" "inv s2" "nxt s2 = nxt s" and
      fl: "lr_root h2 = lr_root h" "lr_next_free h2 = lr_next_free h" "lr_epoch h2 = lr_epoch h" "lr_capacity_bytes h2 = lr_capacity_bytes h"
        "\<And>x. x \<notin> insert (lr_root h) (ids es) \<Longrightarrow> objs s2 x = objs s x" and
      res: "case ec of Inl _ \<Rightarrow> log_ok (objs s2) nx h2 rs (ds @ tk) dk | Inr _ \<Rightarrow> log_ok (objs s2) nx h2 (map fst tk) [] dk"
      by blast
    show ?thesis
    proof (cases ec)
      case (Inl e)
      with res d fl c True show ?thesis
        by (subst reset_loop.simps) (rule exI [of _ "Inl e"], rule exI [of _ h2], rule exI [of _ s2], rule exI [of _ tk], rule exI [of _ dk],
          rule exI [of _ rs], rule exI [of _ "ds @ tk"], auto)
    next
      case (Inr q)
      then have ok2: "log_ok (objs s2) nx h2 (map fst tk) [] dk" using res by simp
      have run: "reset_loop B A K h s = reset_loop B A K h2 s2" using c Inr True by (subst reset_loop.simps) simp
      have "length dk < length es" using d by simp
      from less.hyps [OF this d(3) ok2] obtain rc' h' s' tk' dk' rs' ds' qs where
        r: "reset_loop B A K h2 s2 = Some (rc', h', s')" "dk = tk' @ dk'" "rc' = Inr () \<longrightarrow> length dk' \<le> 1"
          "log_ok (objs s') nx h' rs' ds' dk'" "[] @ dk = qs @ ds' @ dk'"
          "lr_root h' = lr_root h2" "lr_next_free h' = lr_next_free h2" "lr_epoch h' = lr_epoch h2" "lr_capacity_bytes h' = lr_capacity_bytes h2"
          "inv s'" "nxt s' = nxt s2" "\<And>x. x \<notin> insert (lr_root h2) (ids dk) \<Longrightarrow> objs s' x = objs s2 x"
        by blast
      have fr: "\<forall>x. x \<notin> insert (lr_root h) (ids es) \<longrightarrow> objs s' x = objs s x" using r(12) fl(1,5) d(1) by auto
      have "es = (tk @ tk') @ dk'" "ds @ es = (ds @ tk @ qs) @ ds' @ dk'" using d(1) r(2,5) by auto
      with run r fr fl d(4) show ?thesis
        by - (rule exI [of _ rc'], rule exI [of _ h'], rule exI [of _ s'], rule exI [of _ "tk @ tk'"], rule exI [of _ dk'], rule exI [of _ rs'],
          rule exI [of _ ds'], rule exI [of _ "ds @ tk @ qs"], simp)
    qed
  qed
qed

lemma reset_commit_law:
  assumes i: "inv s" "nxt s < ID_LIMIT" and ok: "log_ok (objs s) (nxt s) h rs ds es" and one: "length es \<le> 1"
    and run: "reset_commit B A K h s = (r, h', s')"
  shows "inv s' \<and> nxt s \<le> nxt s' \<and> (\<forall>x. unat x < nxt s \<longrightarrow> x \<notin> insert (lr_root h) (ids es) \<longrightarrow> objs s' x = objs s x) \<and>
    (case r of Inl _ \<Rightarrow> objs s' = objs s
     | Inr _ \<Rightarrow> log_ok (objs s') (nxt s') h' (map fst es) [] [] \<and> lr_root h' = lr_root h \<and> lr_epoch h' = lr_epoch h)"
proof -
  obtain first s1 where al: "api_alloc_id A s = (first, s1)" by fastforce
  note a = alloc_law [OF i al]
  show ?thesis
  proof (cases "first = 0")
    case True
    with a al run show ?thesis by (auto simp: reset_commit_def Let_def)
  next
    case False
    then have u: "unat first = nxt s" "nxt s1 = Suc (nxt s)" "inv s1" "objs s1 = objs s" using a by auto
    define h1 where "h1 = h\<lparr>lr_tail_id := 0, lr_next_free := first, lr_head_id := 0, lr_live_bytes := 0, lr_count := 0, lr_since_ckpt := 0\<rparr>"
    define to where "to = (if lr_tail_id h \<noteq> 0 then lr_next_free h else 0)"
    obtain rc s2 where w: "root_write A s1 h1 (lr_tail_id h) to = (rc, s2)" by fastforce
    note ul = update_law [OF u(3) w [unfolded root_write_def]]
    note l = log_facts [of "objs s" "nxt s" h rs ds "[]" es, unfolded append_Nil, OF ok]
    have h1f: "lr_root h1 = lr_root h" "lr_next_free h1 = first" "lr_epoch h1 = lr_epoch h" by (simp_all add: h1_def)
    have tail: "lr_tail_id h = (if es = [] then 0 else fst (last es))" using ok by (simp add: log_ok_def log_handle_def)
    have below: "x \<noteq> first" if "x \<in> log_ids h rs (ds @ es)" for x using l(8) [OF that] u(1) by auto
    have e: "r = rc" "h' = h1" "s' = (case rc of Inl _ \<Rightarrow> s2 | Inr _ \<Rightarrow> if lr_tail_id h \<noteq> 0 then run_delete B A K s2 (lr_tail_id h) (lr_next_free h) else s2)"
      using run al False w by (cases rc; auto simp: reset_commit_def Let_def h1_def to_def)+
    have ids: "set (map fst es) = ids es" by (simp add: ids_def)
    show ?thesis
    proof (cases rc)
      case (Inl x)
      with e ul u show ?thesis by simp
    next
      case (Inr q)
      have ro: "run_ok (objs s1) (map fst es) to (lr_tail_id h)" if "lr_tail_id h \<noteq> 0"
      proof -
        have "es \<noteq> []" using tail that by auto
        then have "start es (lr_next_free h) = lr_tail_id h" using one tail by (cases es) (auto simp: start_def)
        with chain_run [OF l(1)] that u(4) show ?thesis by (simp add: to_def)
      qed
      have m2: "objs s2 = (objs s1)(lr_root h1 \<mapsto> clog_root_bytes (root_image h1 (lr_tail_id h) to))" using ul Inr by simp
      have bd: "x \<noteq> 0 \<and> unat x < nxt s2" if "x \<in> log_ids h1 (map fst es) []" for x
      proof (cases "x = first")
        case True
        with False u ul show ?thesis by simp
      next
        case ne: False
        then have "x \<in> log_ids h rs (ds @ es)" using that ids h1f by (auto simp: log_ids_def)
        with l(8) [OF this] u ul show ?thesis by simp
      qed
      have hh: "log_handle h1 []" by (simp add: log_handle_def h1_def)
      have ff: "objs s1 (lr_next_free h1) = None" using objs_fresh [OF i(1), of first] u h1f by simp
      have "lr_root h1 \<notin> insert (lr_next_free h1) (set (map fst es) \<union> ids [])" "set (map fst es) \<inter> insert (lr_next_free h1) (ids []) = {}"
        using l(7) below [of "lr_root h"] below ids h1f by (auto simp: log_ids_def)
      from commit_ok [OF hh _ ff ro m2 this bd] have ok2: "log_ok (objs s2) (nxt s2) h1 (map fst es) [] []" by simp
      show ?thesis
      proof (cases "lr_tail_id h = 0")
        case True
        with e ok2 h1f ul m2 u Inr show ?thesis by auto
      next
        case tl: False
        have "run_ok (objs s2) (map fst es) to (lr_tail_id h)" by (rule run_shrink [OF ro [OF tl]]) (use m2 l(7) h1f ids in auto)
        moreover have s': "s' = run_delete B A K s2 (lr_tail_id h) to" using e Inr tl by (simp add: to_def)
        ultimately have d: "inv s'" "nxt s' = nxt s2" "\<And>y. y \<notin> ids es \<Longrightarrow> objs s' y = objs s2 y" "\<And>y. objs s' y = None \<or> objs s' y = objs s2 y"
          using run_delete_law [of s2 "map fst es" to "lr_tail_id h" s'] ul ids by auto
        have nf: "first \<notin> ids es" "lr_root h \<notin> ids es" using below l(7) by (auto simp: log_ids_def)
        have "log_flash (objs s2) (nxt s2) (lr_root h1) (lr_epoch h1) (lr_capacity_bytes h1) first (map fst es) ([] @ [])"
          using ok2 h1f by (simp add: log_ok_def)
        then have "log_flash (objs s') (nxt s') (lr_root h1) (lr_epoch h1) (lr_capacity_bytes h1) first (map fst es) ([] @ [])"
          by (rule flash_frame) (use d nf h1f ok2 in \<open>auto simp: log_ok_def log_flash_def\<close>)
        then have "log_ok (objs s') (nxt s') h1 (map fst es) [] []" using ok2 h1f by (simp add: log_ok_def)
        with e d h1f ul m2 u Inr nf show ?thesis by auto
      qed
    qed
  qed
qed

lemma reset_law:
  assumes i: "inv s" "nxt s < ID_LIMIT" and ok: "log_ok (objs s) (nxt s) h rs ds es"
  shows "\<exists>r h' s'. logring_reset B A K s (Some h) = Some (r, Some h', s') \<and> inv s' \<and>
    (\<forall>x. unat x < nxt s \<longrightarrow> x \<notin> insert (lr_root h) (ids es) \<longrightarrow> objs s' x = objs s x) \<and>
    (case r of
       Inl _ \<Rightarrow> \<exists>rs' fs' qs. log_flash (objs s') (nxt s') (lr_root h) (lr_epoch h) (lr_capacity_bytes h) (lr_next_free h) rs' fs' \<and> ds @ es = qs @ fs'
     | Inr _ \<Rightarrow> \<exists>rs'. log_ok (objs s') (nxt s') h' rs' [] [] \<and> lr_root h' = lr_root h \<and> lr_epoch h' = lr_epoch h)"
proof -
  from reset_loop_law [OF i(1) ok] obtain rc h2 s2 tk dk rs2 ds2 qs where
    l: "reset_loop B A K h s = Some (rc, h2, s2)" "es = tk @ dk" "rc = Inr () \<longrightarrow> length dk \<le> 1" "log_ok (objs s2) (nxt s) h2 rs2 ds2 dk"
      "ds @ es = qs @ ds2 @ dk" "lr_root h2 = lr_root h" "lr_next_free h2 = lr_next_free h" "lr_epoch h2 = lr_epoch h"
      "lr_capacity_bytes h2 = lr_capacity_bytes h" "inv s2" "nxt s2 = nxt s"
      "\<And>x. x \<notin> insert (lr_root h) (ids es) \<Longrightarrow> objs s2 x = objs s x" by blast
  have fl: "log_flash (objs s2) nx (lr_root h) (lr_epoch h) (lr_capacity_bytes h) (lr_next_free h) rs2 (ds2 @ dk)" if "nxt s \<le> nx" for nx
    using log_ok_mono [OF l(4) that] l(6-9) by (simp add: log_ok_def)
  show ?thesis
  proof (cases rc)
    case (Inl e)
    have "\<exists>rs' fs' qs. log_flash (objs s2) (nxt s2) (lr_root h) (lr_epoch h) (lr_capacity_bytes h) (lr_next_free h) rs' fs' \<and> ds @ es = qs @ fs'"
      using fl [of "nxt s2"] l(5,11) by auto
    with Inl l show ?thesis by (simp add: logring_reset_def)
  next
    case (Inr q)
    then have one: "length dk \<le> 1" using l(3) by simp
    obtain r h' s' where c: "reset_commit B A K h2 s2 = (r, h', s')" by (metis prod.exhaust)
    have "nxt s2 < ID_LIMIT" "log_ok (objs s2) (nxt s2) h2 rs2 ds2 dk" using i(2) l(4,11) by simp_all
    note rcl = reset_commit_law [OF l(10) this one c]
    have run: "logring_reset B A K s (Some h) = Some (r, Some h', s')" using l(1) Inr c by (simp add: logring_reset_def)
    have fr: "\<forall>x. unat x < nxt s \<longrightarrow> x \<notin> insert (lr_root h) (ids es) \<longrightarrow> objs s' x = objs s x" using rcl l(2,6,11,12) by auto
    have "case r of
       Inl _ \<Rightarrow> \<exists>rs' fs' qs. log_flash (objs s') (nxt s') (lr_root h) (lr_epoch h) (lr_capacity_bytes h) (lr_next_free h) rs' fs' \<and> ds @ es = qs @ fs'
     | Inr _ \<Rightarrow> \<exists>rs'. log_ok (objs s') (nxt s') h' rs' [] [] \<and> lr_root h' = lr_root h \<and> lr_epoch h' = lr_epoch h"
    proof (cases r)
      case (Inl e)
      with rcl l(5,11) fl [of "nxt s'"] show ?thesis by auto
    next
      case (Inr p)
      with rcl l(6,8) show ?thesis by auto
    qed
    with run fr rcl show ?thesis by blast
  qed
qed

section \<open>Destroy\<close>

lemma destroy_chain_law:
  "inv s \<Longrightarrow> chain (objs s) x es nf \<Longrightarrow> (\<And>y. y \<in> ids es \<Longrightarrow> y \<noteq> 0) \<Longrightarrow>
    \<exists>s'. destroy_chain B A s nf x = Some s' \<and> inv s' \<and> nxt s' = nxt s \<and> (\<forall>y. y \<notin> ids es \<longrightarrow> objs s' y = objs s y)"
proof (induction es arbitrary: s x)
  case Nil
  then show ?case by (subst destroy_chain.simps) simp
next
  case (Cons e es)
  then obtain nx where c: "fst e = x" "objs s x = Some (clog_entry_bytes nx (snd e))" "x < nx" "chain (objs s) nx es nf" by auto
  obtain r s1 where d: "api_delete A s x = (r, s1)" by fastforce
  note dl = delete_law [OF Cons.prems(1) d]
  have b: "x \<notin> ids es" "x \<noteq> nf" using chain_between [OF c(4)] c(3) by fastforce+
  have o: "objs s1 y = objs s y" if "y \<noteq> x" for y using dl that by (cases r) auto
  then have "chain (objs s1) nx es nf" using b(1) by (intro chain_frame [OF c(4)]) metis
  with Cons.IH [of s1 nx] Cons.prems(3) dl obtain s' where
    s': "destroy_chain B A s1 nf nx = Some s'" "inv s'" "nxt s' = nxt s" "\<forall>y. y \<notin> ids es \<longrightarrow> objs s' y = objs s1 y" by auto
  have "x \<noteq> 0" using Cons.prems(3) c(1) by simp
  then have "destroy_chain B A s nf x = Some s'"
    using s'(1) d b(2) entry_read_bound(1) [OF Cons.prems(1) c(2)] by (subst destroy_chain.simps) simp
  with s' o c(1) show ?case by auto
qed

lemma destroy_law:
  assumes i: "inv s" and ok: "log_ok (objs s) (nxt s) h rs ds es"
  shows "\<exists>r s'. logring_destroy B A K s (Some h) = Some (r, s') \<and> inv s' \<and> nxt s' = nxt s \<and>
    (\<forall>x. x \<notin> log_ids h rs (ds @ es) \<longrightarrow> objs s' x = objs s x) \<and> (case r of Inl _ \<Rightarrow> objs s' = objs s | Inr _ \<Rightarrow> objs s' (lr_root h) = None)"
proof -
  note l = log_facts [of "objs s" "nxt s" h rs ds "[]" es, unfolded append_Nil, OF ok]
  from ok obtain r0 where r0: "objs s (lr_root h) = Some (clog_root_bytes r0)" "root_says r0 (lr_epoch h) (lr_capacity_bytes h) (ds @ es) (lr_next_free h)"
    "cr_evict_from r0 \<noteq> 0 \<Longrightarrow> run_ok (objs s) rs (cr_evict_to r0) (cr_evict_from r0)" and sep: "set rs \<inter> ids (ds @ es) = {}" "lr_next_free h \<notin> set rs"
    unfolding log_ok_def log_flash_def by blast
  have ld: "root_load A s (lr_root h) = Inr r0" using root_load_law [OF i r0(1)] r0(2) by (simp add: root_says_def)
  obtain rc s1 where d: "api_delete A s (lr_root h) = (rc, s1)" by fastforce
  note dl = delete_law [OF i d]
  show ?thesis
  proof (cases rc)
    case (Inl e)
    with dl r0(1) have "e \<noteq> ENOENT" by auto
    with Inl dl d ld show ?thesis by (simp add: logring_destroy_def)
  next
    case (Inr q)
    have o1: "objs s1 = (objs s)(lr_root h := None)" and i1: "inv s1" "nxt s1 = nxt s" using dl Inr by simp_all
    define s2 where "s2 = (if cr_evict_from r0 \<noteq> 0 then run_delete B A K s1 (cr_evict_from r0) (cr_evict_to r0) else s1)"
    have ro: "run_ok (objs s1) rs (cr_evict_to r0) (cr_evict_from r0)" if "cr_evict_from r0 \<noteq> 0"
      by (rule run_shrink [OF r0(3) [OF that]]) (use o1 in auto)
    have s2: "inv s2" "nxt s2 = nxt s" "\<And>y. y \<notin> set rs \<Longrightarrow> objs s2 y = objs s1 y" "\<And>y. objs s2 y = None \<or> objs s2 y = objs s1 y"
      using run_delete_law [OF i1(1) ro refl] i1 by (auto simp: s2_def)
    have "chain (objs s2) (start es (lr_next_free h)) es (lr_next_free h)"
    proof (rule chain_frame [OF l(1)])
      fix z assume "z \<in> ids es"
      then have "z \<notin> set rs" "z \<noteq> lr_root h" using sep(1) l(7) by auto
      then show "objs s2 z = objs s z" using s2(3) o1 by simp
    qed
    moreover have "y \<noteq> 0" if "y \<in> ids es" for y using l(8) [of y] that by (simp add: log_ids_def)
    ultimately obtain s3 where s3: "destroy_chain B A s2 (lr_next_free h) (start es (lr_next_free h)) = Some s3" "inv s3" "nxt s3 = nxt s"
      "\<forall>y. y \<notin> ids es \<longrightarrow> objs s3 y = objs s2 y"
      using destroy_chain_law [OF s2(1), of "start es (lr_next_free h)" es "lr_next_free h"] s2(2) by auto
    have "\<exists>s3. destroy_chain B A s2 (lr_next_free h) (lr_head_id h) = Some s3 \<and> inv s3 \<and> nxt s3 = nxt s \<and> (\<forall>y. y \<notin> ids es \<longrightarrow> objs s3 y = objs s2 y)"
    proof (cases "es = []")
      case True
      with ok s2 show ?thesis by (subst destroy_chain.simps) (simp add: log_ok_def log_handle_def)
    next
      case False
      with ok s3 show ?thesis by (simp add: log_ok_def log_handle_def start_def)
    qed
    then obtain s3 where s3: "destroy_chain B A s2 (lr_next_free h) (lr_head_id h) = Some s3" "inv s3" "nxt s3 = nxt s"
      "\<forall>y. y \<notin> ids es \<longrightarrow> objs s3 y = objs s2 y" by blast
    have run: "logring_destroy B A K s (Some h) = Some (Inr (), s3)" using d Inr ld s3(1)
      by (cases "cr_evict_from r0 = 0") (simp_all add: logring_destroy_def Let_def s2_def)
    have "objs s3 (lr_root h) = None" using s3(4) s2(3) o1 l(7) by auto
    moreover have "objs s3 x = objs s x" if "x \<notin> log_ids h rs (ds @ es)" for x using s3(4) s2(3) o1 that by (auto simp: log_ids_def)
    ultimately show ?thesis using run s3 by auto
  qed
qed

end

end
