(* ===== verification/Logring_Api.thy ===== *)
theory Logring_Api
  imports Logring_Life Kv_Api
begin

text \<open>
  The properties of the log over every object store, blob_db on a working device among them, with a
  witness on a store in memory.
\<close>

section \<open>The log on blob_db\<close>

locale log_env = working_env E medium peb good dsize wu for E :: "'d env" and medium peb good dsize wu +
  fixes K :: nat
  assumes log_cap: "CLOG_ROOT_SIZE \<le> MAX_PAYLOAD_LEN (bld E)" "MAX_PAYLOAD_LEN (bld E) < 65536" "0 < K"

sublocale log_env \<subseteq> logs: log_store "blob_db_api E" "sound E medium peb good dsize wu" "blob_map E medium" "\<lambda>s. unat (next_id s)" "bld E" K
  by unfold_locales (rule log_cap)+

interpretation simlog: log_env sim_env sim_medium g_peb_size sim_good sim_size sim_wu 32
  by unfold_locales (simp_all add: sim_env_def sim_build_def CLOG_ROOT_SIZE_def)

lemma mem_log_store: "log_store (mem_api 256) (mem_inv 256) fst snd mem_build 2"
proof -
  have "MAX_PAYLOAD_LEN mem_build = 256" by (simp add: mem_build_def sim_build_def)
  then show ?thesis using mem.object_store_axioms [of 256] by (simp add: log_store_def log_store_axioms_def CLOG_ROOT_SIZE_def)
qed

interpretation memlog: log_store "mem_api 256" "mem_inv 256" fst snd mem_build 2
  by (rule mem_log_store)

text \<open>A log cut off from power is a log store again.\<close>

lemma cut_log_store:
  assumes "log_store A valid objs nxt B K"
  shows "log_store (cut_api A) (\<lambda>st. valid (fst st)) (\<lambda>st. objs (fst st)) (\<lambda>st. nxt (fst st)) B K"
  using assms object_store.cut_object_store [of A valid objs nxt "MAX_PAYLOAD_LEN B"] by (simp add: log_store_def)

text \<open>A log with one record at id 3, its root at id 2 not yet counting it, and room for 20 bytes.\<close>

definition handle1 :: logring where
  "handle1 = \<lparr>lr_root = 2, lr_tail_id = 3, lr_next_free = 4, lr_head_id = 3, lr_epoch = 7, lr_capacity_bytes = 20, lr_live_bytes = 2,
     lr_count = 1, lr_since_ckpt = 1\<rparr>"

definition root0 :: clog_root where
  "root0 = \<lparr>cr_magic = CLOG_MAGIC, cr_version = CLOG_VERSION, cr_flags = 0, cr_rsvd = 0, cr_epoch = 7, cr_capacity_bytes = 20,
     cr_live_bytes = 0, cr_count = 0, cr_waypoint_id = 3, cr_head_id = 0, cr_evict_from = 0, cr_evict_to = 0\<rparr>"

definition mem3 :: mem where
  "mem3 = ([2 \<mapsto> clog_root_bytes root0, 3 \<mapsto> clog_entry_bytes 4 [8, 9]], 5)"

lemma mem3_facts: "mem_inv 256 mem3" "log_ok (fst mem3) (snd mem3) handle1 [] [] [(3, [8, 9])]" "snd mem3 = 5"
proof -
  have "length (clog_root_bytes root0) = 56"
    using clog_root_roundtrip(2) [of root0] by (simp add: root0_def CLOG_MAGIC_def CLOG_ROOT_SIZE_def)
  then show "mem_inv 256 mem3" by (auto simp: mem_inv_def mem3_def clog_entry_bytes_def split: if_splits)
  show "snd mem3 = 5" by (simp add: mem3_def)
  show "log_ok (fst mem3) (snd mem3) handle1 [] [] [(3, [8, 9])]"
    by (auto simp: log_ok_def log_flash_def mem3_def handle1_def log_handle_def root_says_def intro!: exI [of _ root0])
      (simp_all add: root0_def)
qed

section \<open>Append\<close>

text \<open>C37. An append returns, on a full store too. On success the record is the newest entry, under the
  id returned; on an error it is not in the log. Older entries are dropped from the oldest end only,
  and only when the bytes kept would exceed the capacity or the store had no room. Objects outside
  the log are untouched.\<close>

theorem logring_append_newest:
  assumes "log_store A valid objs nxt B K" "valid s" "nxt s < ID_LIMIT" "log_ok (objs s) (nxt s) h rs ds es"
    and "\<forall>v. recp = Some v \<longrightarrow> len \<le> length v"
  shows "\<exists>r h' s' rs' ds' es' ts qs. logring_append B A K s (Some h) recp len = Some (r, Some h', s') \<and>
    valid s' \<and> log_ok (objs s') (nxt s') h' rs' ds' es' \<and> nxt s \<le> nxt s' \<and> nxt s' \<le> Suc (nxt s) \<and>
    es @ appended r (c_bytes recp len) = ts @ es' \<and> ds @ es @ appended r (c_bytes recp len) = qs @ ds' @ es' \<and>
    (r = Inr (lr_next_free h) \<and> es' \<noteq> [] \<or> (\<exists>e. r = Inl e)) \<and>
    (ts \<noteq> [] \<longrightarrow> lr_capacity_bytes h < lr_live_bytes h + word_of_nat len \<or>
       (\<exists>r2 s1. api_alloc_id A s = (r2, s1) \<and> fst (entry_write A s1 (lr_next_free h) r2 (c_bytes recp len)) = Inl ENOSPC)) \<and>
    lr_root h' = lr_root h \<and> lr_epoch h' = lr_epoch h \<and> lr_capacity_bytes h' = lr_capacity_bytes h \<and>
    (\<forall>x. unat x < nxt s \<longrightarrow> x \<notin> log_ids h rs (ds @ es) \<longrightarrow> objs s' x = objs s x) \<and>
    log_ids h' rs' (ds' @ es') \<subseteq> log_ids h rs (ds @ es) \<union> {x. nxt s \<le> unat x}"
  by (rule log_store.append_law [OF assms])

theorem logring_append_newest_witness:
  "\<exists>r h' s' rs' ds' es' ts. logring_append mem_build (mem_api 256) 2 mem3 (Some handle1) (Some [1]) 1 = Some (r, Some h', s') \<and>
     log_ok (fst s') (snd s') h' rs' ds' es' \<and> (3, [8, 9]) # appended r [1] = ts @ es' \<and> (r = Inr 4 \<or> (\<exists>e. r = Inl e))"
proof -
  have e: "c_bytes (Some [1]) 1 = [1]" "lr_next_free handle1 = 4" and lim: "snd mem3 < ID_LIMIT"
    by (simp_all add: c_bytes_def handle1_def mem3_facts(3) ID_LIMIT_def)
  have "\<forall>v. Some [1 :: byte] = Some v \<longrightarrow> 1 \<le> length v" by simp
  from logring_append_newest [OF mem_log_store mem3_facts(1) lim mem3_facts(2) this, unfolded e append_Cons append_Nil] show ?thesis
    by (elim exE conjE) (intro exI conjI, assumption+, blast)
qed

section \<open>Power loss\<close>

text \<open>C38. Power may fail at any write of an append. With the power cut after \<open>k\<close> writes, the next open
  succeeds and finds the newest entries there were, none missing in between; a record the append had
  acknowledged is among them, one it had not is not there in part.\<close>

theorem logring_append_survives_cut:
  assumes ls: "log_store A valid objs nxt B K" and i: "valid s" "nxt s < ID_LIMIT" and ok: "log_ok (objs s) (nxt s) h rs ds es"
    and len: "\<forall>v. recp = Some v \<longrightarrow> len \<le> length v"
  shows "\<exists>r h1 s1 left h2 s2 rs2 es2 qs. logring_append B (cut_api A) K (s, Some k) (Some h) recp len = Some (r, Some h1, (s1, left)) \<and>
    logring_open B A K s1 (lr_root h) False = (Inr h2, s2) \<and> valid s2 \<and> log_ok (objs s2) (nxt s2) h2 rs2 [] es2 \<and>
    lr_epoch h2 = lr_epoch h \<and> ds @ es @ appended r (c_bytes recp len) = qs @ es2 \<and> (r = Inr (lr_next_free h) \<and> es2 \<noteq> [] \<or> (\<exists>e. r = Inl e)) \<and>
    (\<forall>x. unat x < nxt s \<longrightarrow> x \<notin> log_ids h rs (ds @ es) \<longrightarrow> objs s2 x = objs s x)"
proof -
  from log_store.append_law [OF cut_log_store [OF ls], of "(s, Some k)", unfolded fst_conv, OF i ok len]
  obtain r h1 sc rs1 ds1 es1 qs where a: "logring_append B (cut_api A) K (s, Some k) (Some h) recp len = Some (r, Some h1, sc)" "valid (fst sc)"
    "log_ok (objs (fst sc)) (nxt (fst sc)) h1 rs1 ds1 es1" "ds @ es @ appended r (c_bytes recp len) = qs @ ds1 @ es1"
    "r = Inr (lr_next_free h) \<and> es1 \<noteq> [] \<or> (\<exists>e. r = Inl e)" "lr_root h1 = lr_root h" "lr_epoch h1 = lr_epoch h"
    "\<forall>x. unat x < nxt s \<longrightarrow> x \<notin> log_ids h rs (ds @ es) \<longrightarrow> objs (fst sc) x = objs s x"
    "log_ids h1 rs1 (ds1 @ es1) \<subseteq> log_ids h rs (ds @ es) \<union> {x. nxt s \<le> unat x}"
    by (elim exE conjE) (rule that)
  have f: "log_flash (objs (fst sc)) (nxt (fst sc)) (lr_root h) (lr_epoch h) (lr_capacity_bytes h1) (lr_next_free h1) rs1 (ds1 @ es1)"
    using a(3,6,7) by (simp add: log_ok_def)
  obtain r2 s2 where o: "logring_open B A K (fst sc) (lr_root h) False = (r2, s2)" by fastforce
  from log_store.open_law [OF ls a(2) f o] obtain h2 where h2: "r2 = Inr h2" "valid s2" "lr_epoch h2 = lr_epoch h"
    "log_ok (objs s2) (nxt s2) h2 rs1 [] (ds1 @ es1)" "\<forall>x. x \<notin> set rs1 \<longrightarrow> objs s2 x = objs (fst sc) x" by blast
  have fr: "\<forall>x. unat x < nxt s \<longrightarrow> x \<notin> log_ids h rs (ds @ es) \<longrightarrow> objs s2 x = objs s x"
  proof (intro allI impI)
    fix x assume x: "unat x < nxt s" "x \<notin> log_ids h rs (ds @ es)"
    then have "x \<notin> set rs1" using a(9) by (auto simp: log_ids_def)
    then show "objs s2 x = objs s x" using h2(5) a(8) x by simp
  qed
  have "r = Inr (lr_next_free h) \<and> ds1 @ es1 \<noteq> [] \<or> (\<exists>e. r = Inl e)" using a(5) by auto
  moreover obtain s1 left where "sc = (s1, left)" by (cases sc)
  ultimately show ?thesis using a(1,4) o h2 fr
    by - (rule exI [of _ r], rule exI [of _ h1], rule exI [of _ s1], rule exI [of _ left], rule exI [of _ h2], rule exI [of _ s2], rule exI [of _ rs1],
      rule exI [of _ "ds1 @ es1"], rule exI [of _ qs], simp)
qed

theorem logring_append_survives_cut_witness:
  "\<forall>k. \<exists>r h1 s1 left h2 s2 rs2 es2. logring_append mem_build (cut_api (mem_api 256)) 2 (mem3, Some k) (Some handle1) (Some [1]) 1 = Some (r, Some h1, (s1, left)) \<and>
     logring_open mem_build (mem_api 256) 2 s1 2 False = (Inr h2, s2) \<and> log_ok (fst s2) (snd s2) h2 rs2 [] es2 \<and>
     es2 \<in> {[], [(3, [8, 9])], [(4, [1])], [(3, [8, 9]), (4, [1])]}"
proof
  fix k
  have e: "c_bytes (Some [1]) 1 = [1]" "lr_next_free handle1 = 4" "lr_root handle1 = 2" and lim: "snd mem3 < ID_LIMIT"
    by (simp_all add: c_bytes_def handle1_def mem3_facts(3) ID_LIMIT_def)
  have "\<forall>v. Some [1 :: byte] = Some v \<longrightarrow> 1 \<le> length v" by simp
  from logring_append_survives_cut [OF mem_log_store mem3_facts(1) lim mem3_facts(2) this, of k, unfolded e append_Cons append_Nil]
  obtain r h1 s1 left h2 s2 rs2 es2 qs where
    w: "logring_append mem_build (cut_api (mem_api 256)) 2 (mem3, Some k) (Some handle1) (Some [1]) 1 = Some (r, Some h1, (s1, left))"
      "logring_open mem_build (mem_api 256) 2 s1 2 False = (Inr h2, s2)" "log_ok (fst s2) (snd s2) h2 rs2 [] es2"
      "(3, [8, 9]) # appended r [1] = qs @ es2" "r = Inr 4 \<and> es2 \<noteq> [] \<or> (\<exists>e. r = Inl e)"
    by (elim exE conjE) (rule that)
  then have "es2 \<in> {[], [(3, [8, 9])], [(4, [1])], [(3, [8, 9]), (4, [1])]}"
    by (auto simp: appended_def Cons_eq_append_conv)
  with w(1-3) show "\<exists>r h1 s1 left h2 s2 rs2 es2. logring_append mem_build (cut_api (mem_api 256)) 2 (mem3, Some k) (Some handle1) (Some [1]) 1 = Some (r, Some h1, (s1, left)) \<and>
     logring_open mem_build (mem_api 256) 2 s1 2 False = (Inr h2, s2) \<and> log_ok (fst s2) (snd s2) h2 rs2 [] es2 \<and>
     es2 \<in> {[], [(3, [8, 9])], [(4, [1])], [(3, [8, 9]), (4, [1])]}" by blast
qed

section \<open>Reading\<close>



section \<open>Reset and destroy\<close>

text \<open>A reset returns with the log empty, or with an error after which the store still holds a log of
  its newest entries for the next open. A destroy returns with the root gone, or with an error and
  nothing changed. Neither touches an object outside the log.\<close>

theorem logring_reset_destroy:
  assumes ls: "log_store A valid objs nxt B K" and i: "valid s" "nxt s < ID_LIMIT" and ok: "log_ok (objs s) (nxt s) h rs ds es"
  shows "(\<exists>r h' s'. logring_reset B A K s (Some h) = Some (r, Some h', s') \<and> valid s' \<and>
      (\<forall>x. unat x < nxt s \<longrightarrow> x \<notin> insert (lr_root h) (ids es) \<longrightarrow> objs s' x = objs s x) \<and>
      (case r of
         Inl _ \<Rightarrow> \<exists>rs' fs' qs. log_flash (objs s') (nxt s') (lr_root h) (lr_epoch h) (lr_capacity_bytes h) (lr_next_free h) rs' fs' \<and> ds @ es = qs @ fs'
       | Inr _ \<Rightarrow> \<exists>rs'. log_ok (objs s') (nxt s') h' rs' [] [] \<and> lr_root h' = lr_root h \<and> lr_epoch h' = lr_epoch h)) \<and>
    (\<exists>r s'. logring_destroy B A K s (Some h) = Some (r, s') \<and> valid s' \<and> nxt s' = nxt s \<and>
      (\<forall>x. x \<notin> log_ids h rs (ds @ es) \<longrightarrow> objs s' x = objs s x) \<and> (case r of Inl _ \<Rightarrow> objs s' = objs s | Inr _ \<Rightarrow> objs s' (lr_root h) = None))"
  by (intro conjI log_store.reset_law [OF ls i ok] log_store.destroy_law [OF ls i(1) ok])

theorem logring_reset_destroy_witness:
  "(\<exists>r h' s'. logring_reset mem_build (mem_api 256) 2 mem3 (Some handle1) = Some (r, Some h', s') \<and> mem_inv 256 s') \<and>
   (\<exists>r s'. logring_destroy mem_build (mem_api 256) 2 mem3 (Some handle1) = Some (r, s') \<and> mem_inv 256 s' \<and> snd s' = 5)"
proof -
  have "snd mem3 < ID_LIMIT" by (simp add: mem3_facts(3) ID_LIMIT_def)
  from logring_reset_destroy [OF mem_log_store mem3_facts(1) this mem3_facts(2), unfolded mem3_facts(3)] show ?thesis
    by (elim conjE exE) (intro conjI exI; assumption)
qed

text \<open>The error of a reset must be followed by an open. A store that fails every write of the root lets
  a reset fail after it has emptied the handle; an append through that handle reports success though
  no root leads to its entry, and the next open finds the old log without the record.\<close>

definition stuck_api :: "u64 \<Rightarrow> nat \<Rightarrow> mem blob_api" where
  "stuck_api x cap = (mem_api cap)\<lparr>api_update := (\<lambda>s y p. if y = x then (Inl EIO, s) else api_update (mem_api cap) s y p)\<rparr>"

lemma append_after_failed_reset_lost:
  "(case logring_reset mem_build (stuck_api 2 256) 2 mem3 (Some handle1) of
      Some (r, Some h, s) \<Rightarrow> r = Inl EIO \<and>
        (case logring_append mem_build (stuck_api 2 256) 2 s (Some h) (Some [1]) 1 of
           Some (r2, _, s2) \<Rightarrow> r2 = Inr 5 \<and>
             (case logring_open mem_build (mem_api 256) 2 s2 2 False of
                (Inr h3, s3) \<Rightarrow> log_read mem_build (mem_api 256) s3 h3 9 \<lparr>lc_pos = 0, lc_epoch = 7\<rparr> = [(3, [8, 9])]
              | _ \<Rightarrow> False)
         | _ \<Rightarrow> False)
    | _ \<Rightarrow> False)"
  by code_simp

end
