(* ===== verification/Slot_Index.thy ===== *)
theory Slot_Index
  imports Kv_Prelude
begin

text \<open>
  The optional RAM index of blob_db (\<open>lib/blob_db/blob_db_slot_index.c\<close>): a table from ids to slot
  offsets with linear probing and backward-shift deletion, and one append cursor per bucket.

  \<open>CAP\<close> and \<open>MAX_BKT\<close> are the Kconfig sizes. Cells are numbered by natural numbers below \<open>CAP\<close>. The loops
  that rely on an empty cell are partial functions.
\<close>

record sidx =
  g_ids :: "u64 list"
  g_offs :: "u32 list"
  g_used :: nat
  g_cursor :: "u32 list"
  g_bcnt :: "u16 list"
  g_n_buckets :: nat

definition MAX_FILL :: "nat \<Rightarrow> nat" where "MAX_FILL CAP = CAP - CAP div 8"

definition home :: "nat \<Rightarrow> u64 \<Rightarrow> nat" where
  "home CAP x = unat (ucast (drop_bit 32 (x * 0x9e3779b97f4a7c15)) :: u32) AND (CAP - 1)"

definition bucket_of :: "sidx \<Rightarrow> u64 \<Rightarrow> nat" where
  "bucket_of S x = unat x mod g_n_buckets S"

definition next_cell :: "nat \<Rightarrow> nat \<Rightarrow> nat" where
  "next_cell CAP i = (i + 1) AND (CAP - 1)"

fun find_from :: "nat \<Rightarrow> u64 list \<Rightarrow> u64 \<Rightarrow> nat \<Rightarrow> nat \<Rightarrow> nat option" where
  "find_from CAP xs x i 0 = None"
| "find_from CAP xs x i (Suc n) =
     (if xs ! i = x then Some i else if xs ! i = 0 then None else find_from CAP xs x (next_cell CAP i) n)"

definition find_cell :: "nat \<Rightarrow> sidx \<Rightarrow> u64 \<Rightarrow> nat option" where
  "find_cell CAP S x = find_from CAP (g_ids S) x (home CAP x) CAP"

text \<open>The loop of \<open>remove_at\<close>: hole \<open>i\<close>, last cell looked at \<open>j\<close>.\<close>

partial_function (option) close_gap :: "nat \<Rightarrow> u64 list \<Rightarrow> u32 list \<Rightarrow> nat \<Rightarrow> nat \<Rightarrow> (u64 list \<times> u32 list) option" where
  "close_gap CAP xs os i j0 =
     (let j = next_cell CAP j0 in
      if xs ! j = 0 then Some (xs, os)
      else let h = home CAP (xs ! j); stays = (if i \<le> j then i < h \<and> h \<le> j else i < h \<or> h \<le> j) in
      if \<not> stays then close_gap CAP (xs[i := xs ! j, j := 0]) (os[i := os ! j]) j j
      else close_gap CAP xs os i j)"

declare close_gap.simps [code]

definition remove_at :: "nat \<Rightarrow> sidx \<Rightarrow> nat \<Rightarrow> sidx option" where
  "remove_at CAP S i =
     (let b = bucket_of S (g_ids S ! i) in
      map_option (\<lambda>(xs, os). S\<lparr>g_ids := xs, g_offs := os, g_used := g_used S - 1, g_bcnt := (g_bcnt S)[b := g_bcnt S ! b - 1]\<rparr>)
        (close_gap CAP ((g_ids S)[i := 0]) (g_offs S) i i))"

text \<open>The probe of \<open>put\<close>: the cell of the id (\<open>True\<close>) or the cell where the loop stopped.\<close>

fun probe :: "nat \<Rightarrow> u64 list \<Rightarrow> u64 \<Rightarrow> nat \<Rightarrow> nat \<Rightarrow> bool \<times> nat" where
  "probe CAP xs x i 0 = (False, i)"
| "probe CAP xs x i (Suc n) =
     (if xs ! i = x then (True, i) else if xs ! i = 0 then (False, i) else probe CAP xs x (next_cell CAP i) n)"

definition put :: "nat \<Rightarrow> sidx \<Rightarrow> u64 \<Rightarrow> u32 \<Rightarrow> sidx" where
  "put CAP S x off =
     (case probe CAP (g_ids S) x (home CAP x) CAP of
        (True, i) \<Rightarrow> S\<lparr>g_offs := (g_offs S)[i := off]\<rparr>
      | (False, i) \<Rightarrow>
          if g_used S \<ge> MAX_FILL CAP then S
          else S\<lparr>g_ids := (g_ids S)[i := x], g_offs := (g_offs S)[i := off], g_used := g_used S + 1,
                 g_bcnt := (g_bcnt S)[bucket_of S x := g_bcnt S ! bucket_of S x + 1]\<rparr>)"

definition drop_id :: "nat \<Rightarrow> sidx \<Rightarrow> u64 \<Rightarrow> sidx option" where
  "drop_id CAP S x = (case find_cell CAP S x of None \<Rightarrow> Some S | Some i \<Rightarrow> remove_at CAP S i)"

definition on :: "sidx \<Rightarrow> nat \<Rightarrow> bool" where
  "on S bid \<longleftrightarrow> g_n_buckets S \<noteq> 0 \<and> bid < g_n_buckets S"

definition blob_db_sidx_reset :: "nat \<Rightarrow> nat \<Rightarrow> nat \<Rightarrow> sidx" where
  "blob_db_sidx_reset CAP MAX_BKT n_buckets =
     \<lparr>g_ids = replicate CAP 0, g_offs = replicate CAP 0, g_used = 0, g_cursor = replicate MAX_BKT 0, g_bcnt = replicate MAX_BKT 0,
      g_n_buckets = (if n_buckets > MAX_BKT then 0 else n_buckets)\<rparr>"

definition blob_db_sidx_disable :: "nat \<Rightarrow> nat \<Rightarrow> sidx" where
  "blob_db_sidx_disable CAP MAX_BKT = blob_db_sidx_reset CAP MAX_BKT 0"

partial_function (option) forget_loop :: "nat \<Rightarrow> sidx \<Rightarrow> nat \<Rightarrow> nat \<Rightarrow> sidx option" where
  "forget_loop CAP S bid i =
     (if i < CAP \<and> g_bcnt S ! bid \<noteq> 0 then
        if g_ids S ! i \<noteq> 0 \<and> bucket_of S (g_ids S ! i) = bid
        then Option.bind (remove_at CAP S i) (\<lambda>S. forget_loop CAP S bid i)
        else forget_loop CAP S bid (i + 1)
      else Some S)"

declare forget_loop.simps [code]

definition blob_db_sidx_forget :: "nat \<Rightarrow> sidx \<Rightarrow> nat \<Rightarrow> sidx option" where
  "blob_db_sidx_forget CAP S bid =
     (if \<not> on S bid then Some S else forget_loop CAP (S\<lparr>g_cursor := (g_cursor S)[bid := 0]\<rparr>) bid 0)"

definition blob_db_sidx_begin :: "nat \<Rightarrow> sidx \<Rightarrow> nat \<Rightarrow> u32 \<Rightarrow> sidx option" where
  "blob_db_sidx_begin CAP S bid data_off =
     (if \<not> on S bid then Some S
      else map_option (\<lambda>S. S\<lparr>g_cursor := (g_cursor S)[bid := data_off]\<rparr>) (blob_db_sidx_forget CAP S bid))"

definition blob_db_sidx_note :: "nat \<Rightarrow> sidx \<Rightarrow> nat \<Rightarrow> u64 \<Rightarrow> u32 \<Rightarrow> u32 \<Rightarrow> bool \<Rightarrow> sidx option" where
  "blob_db_sidx_note CAP S bid x off sz tombstone =
     (if \<not> on S bid \<or> g_cursor S ! bid = 0 then Some S
      else if off \<noteq> g_cursor S ! bid then blob_db_sidx_forget CAP S bid
      else let S = S\<lparr>g_cursor := (g_cursor S)[bid := off + sz]\<rparr> in
      if tombstone then drop_id CAP S x else Some (put CAP S x off))"

text \<open>\<open>off\<close> is negative in C where the walk found no slot of the id.\<close>

definition blob_db_sidx_learn :: "nat \<Rightarrow> sidx \<Rightarrow> nat \<Rightarrow> u64 \<Rightarrow> u32 option \<Rightarrow> u32 \<Rightarrow> sidx option" where
  "blob_db_sidx_learn CAP S bid x off cursor =
     (if \<not> on S bid \<or> cursor = 0 then Some S
      else if g_cursor S ! bid \<noteq> 0 \<and> g_cursor S ! bid \<noteq> cursor then blob_db_sidx_forget CAP S bid
      else let S = (if g_cursor S ! bid = 0 then S\<lparr>g_cursor := (g_cursor S)[bid := cursor]\<rparr> else S) in
      Some (case off of None \<Rightarrow> S | Some o1 \<Rightarrow> put CAP S x o1))"

definition blob_db_sidx_lookup :: "nat \<Rightarrow> sidx \<Rightarrow> nat \<Rightarrow> u64 \<Rightarrow> (u32 \<times> u32) option" where
  "blob_db_sidx_lookup CAP S bid x =
     (if \<not> on S bid \<or> g_cursor S ! bid = 0 then None
      else case find_cell CAP S x of None \<Rightarrow> None | Some i \<Rightarrow> Some (g_offs S ! i, g_cursor S ! bid))"

definition blob_db_sidx_cursor :: "sidx \<Rightarrow> nat \<Rightarrow> u32 option" where
  "blob_db_sidx_cursor S bid = (if \<not> on S bid \<or> g_cursor S ! bid = 0 then None else Some (g_cursor S ! bid))"

definition blob_db_sidx_usage :: "nat \<Rightarrow> sidx \<Rightarrow> nat \<times> nat" where
  "blob_db_sidx_usage CAP S = (g_used S, MAX_FILL CAP)"

end
