(* ===== verification/Slot_Table.thy ===== *)
theory Slot_Table
  imports Slot_Index
begin

text \<open>
  The table of the slot index. A cell is reachable: from the home of its id to it no cell is empty.
  Probing, insertion and backward-shift deletion keep this, and the table is then exactly the set of
  its entries.
\<close>

section \<open>Cyclic distance\<close>

definition cdist :: "nat \<Rightarrow> nat \<Rightarrow> nat \<Rightarrow> nat" where
  "cdist N a b = (if a \<le> b then b - a else N + b - a)"

lemma cdist_self [simp]: "cdist N a a = 0"
  by (simp add: cdist_def)

lemma cdist_less: "a < N \<Longrightarrow> b < N \<Longrightarrow> cdist N a b < N"
  by (auto simp: cdist_def)

lemma cdist_zero: "a < N \<Longrightarrow> cdist N a b = 0 \<longleftrightarrow> a = b"
  by (auto simp: cdist_def)

text \<open>A cell passed on the way.\<close>

lemma cdist_via:
  assumes "a < N" "b < N" "c < N" "cdist N a b \<le> cdist N a c"
  shows "cdist N a c = cdist N a b + cdist N b c"
  using assms by (auto simp: cdist_def split: if_splits)

lemma cdist_not_via:
  assumes "a < N" "b < N" "c < N" "cdist N a c < cdist N a b"
  shows "cdist N b c = cdist N b a + cdist N a c"
  using assms by (auto simp: cdist_def split: if_splits)

lemma cdist_pass:
  assumes "h < N" "i < N" "j < N" "p < N" "cdist N h i < cdist N h p" "cdist N i j < cdist N i p"
  shows "cdist N h j < cdist N h p"
  using assms by (auto simp: cdist_def split: if_splits)

lemma cdist_back:
  assumes "h < N" "i < N" "j < N" "c < N" "\<not> (0 < cdist N i h \<and> cdist N i h \<le> cdist N i j)" "cdist N h c < cdist N h i"
  shows "cdist N h c < cdist N h j" "c \<noteq> i"
  using assms by (auto simp: cdist_def split: if_splits)

lemma cdist_stay:
  assumes "h < N" "i < N" "j < N" "c < N" "0 < cdist N i h" "cdist N i h \<le> cdist N i j" "cdist N h c < cdist N h j"
  shows "c \<noteq> i"
  using assms by (auto simp: cdist_def split: if_splits)

lemma and_mask_mod: "(i :: nat) AND (2 ^ k - 1) = i mod 2 ^ k"
  by (metis mask_eq_exp_minus_1 take_bit_eq_mask take_bit_eq_mod)

text \<open>Every id is reachable from its home and stands in one cell.\<close>

definition reach :: "nat \<Rightarrow> u64 list \<Rightarrow> nat \<Rightarrow> nat \<Rightarrow> bool" where
  "reach CAP xs p c \<longleftrightarrow> xs ! p \<noteq> 0 \<and> cdist CAP (home CAP (xs ! p)) c < cdist CAP (home CAP (xs ! p)) p"

definition one_cell :: "u64 list \<Rightarrow> bool" where
  "one_cell xs \<longleftrightarrow> (\<forall>p < length xs. \<forall>q < length xs. xs ! p = xs ! q \<longrightarrow> xs ! p \<noteq> 0 \<longrightarrow> p = q)"

definition tab_ok :: "nat \<Rightarrow> u64 list \<Rightarrow> bool" where
  "tab_ok CAP xs \<longleftrightarrow> length xs = CAP \<and> one_cell xs \<and> (\<forall>p < CAP. \<forall>c < CAP. reach CAP xs p c \<longrightarrow> xs ! c \<noteq> 0)"

definition tab_ents :: "u64 list \<Rightarrow> u32 list \<Rightarrow> (u64 \<times> u32) set" where
  "tab_ents xs os = {(x, v). \<exists>p < length xs. xs ! p = x \<and> os ! p = v \<and> x \<noteq> 0}"

definition tab_ids :: "u64 list \<Rightarrow> u64 set" where
  "tab_ids xs = {x \<in> set xs. x \<noteq> 0}"

text \<open>A hole at \<open>i\<close> that only cells behind \<open>j\<close> may need, with an empty cell \<open>z\<close> further on.\<close>

definition gap_ok :: "nat \<Rightarrow> u64 list \<Rightarrow> nat \<Rightarrow> nat \<Rightarrow> nat \<Rightarrow> bool" where
  "gap_ok CAP xs i j z \<longleftrightarrow> length xs = CAP \<and> one_cell xs \<and> i < CAP \<and> j < CAP \<and> z < CAP \<and> xs ! i = 0 \<and> xs ! z = 0 \<and>
     cdist CAP i j < cdist CAP i z \<and>
     (\<forall>p < CAP. \<forall>c < CAP. reach CAP xs p c \<longrightarrow> xs ! c \<noteq> 0 \<or> c = i \<and> cdist CAP i j < cdist CAP i p)"

text \<open>Ids only move towards \<open>i0\<close>.\<close>

definition moved :: "nat \<Rightarrow> nat \<Rightarrow> u64 list \<Rightarrow> u64 list \<Rightarrow> bool" where
  "moved CAP i0 xs ys \<longleftrightarrow> (\<forall>p < CAP. ys ! p \<noteq> 0 \<longrightarrow> (\<exists>q < CAP. xs ! q = ys ! p \<and> cdist CAP i0 p \<le> cdist CAP i0 q))"

lemma moved_trans: "moved CAP i0 xs ys \<Longrightarrow> moved CAP i0 ys zs \<Longrightarrow> moved CAP i0 xs zs"
  unfolding moved_def
proof (intro allI impI)
  fix p
  assume m: "\<forall>p < CAP. ys ! p \<noteq> 0 \<longrightarrow> (\<exists>q < CAP. xs ! q = ys ! p \<and> cdist CAP i0 p \<le> cdist CAP i0 q)"
    "\<forall>p < CAP. zs ! p \<noteq> 0 \<longrightarrow> (\<exists>q < CAP. ys ! q = zs ! p \<and> cdist CAP i0 p \<le> cdist CAP i0 q)" and p: "p < CAP" "zs ! p \<noteq> 0"
  from m(2) p obtain q where q: "q < CAP" "ys ! q = zs ! p" "cdist CAP i0 p \<le> cdist CAP i0 q" by blast
  with p have "ys ! q \<noteq> 0" by simp
  with m(1) q(1) obtain r where "r < CAP" "xs ! r = ys ! q" "cdist CAP i0 q \<le> cdist CAP i0 r" by blast
  with q show "\<exists>q < CAP. xs ! q = zs ! p \<and> cdist CAP i0 p \<le> cdist CAP i0 q" by (intro exI [of _ r]) simp
qed

lemma one_cellD: "one_cell xs \<Longrightarrow> p < length xs \<Longrightarrow> q < length xs \<Longrightarrow> xs ! p = xs ! q \<Longrightarrow> xs ! p \<noteq> 0 \<Longrightarrow> p = q"
  by (simp add: one_cell_def)

lemma tab_okD:
  assumes "tab_ok CAP xs"
  shows "length xs = CAP" "one_cell xs" "p < CAP \<Longrightarrow> c < CAP \<Longrightarrow> reach CAP xs p c \<Longrightarrow> xs ! c \<noteq> 0"
  using assms by (simp_all add: tab_ok_def)

lemma tab_ents_ids: "fst ` tab_ents xs os = tab_ids xs"
  by (force simp: tab_ents_def tab_ids_def in_set_conv_nth)

lemma tab_ents_move:
  assumes "length xs = n" "length os = n" "i < n" "j < n" "i \<noteq> j" "xs ! i = 0" "xs ! j \<noteq> 0"
  shows "tab_ents (xs[i := xs ! j, j := 0]) (os[i := os ! j]) = tab_ents xs os"
proof -
  let ?ys = "xs[i := xs ! j, j := 0]" and ?vs = "os[i := os ! j]"
  have at: "?ys ! p = (if p = j then 0 else if p = i then xs ! j else xs ! p)" "?vs ! p = (if p = i then os ! j else os ! p)" if "p < n" for p
    using assms that by (simp_all add: nth_list_update)
  have "(x, v) \<in> tab_ents xs os" if "(x, v) \<in> tab_ents ?ys ?vs" for x v
    using that at assms by (auto simp: tab_ents_def split: if_splits)
  moreover have "(x, v) \<in> tab_ents ?ys ?vs" if "(x, v) \<in> tab_ents xs os" for x v
  proof -
    from that obtain p where p: "p < n" "xs ! p = x" "os ! p = v" "x \<noteq> 0" using assms(1) by (auto simp: tab_ents_def)
    let ?q = "if p = j then i else p"
    have "p \<noteq> i" using p assms(6) by auto
    then have "?q < n" "?ys ! ?q = x" "?vs ! ?q = v" using p at [of ?q] assms by auto
    with p(4) assms(1) show ?thesis by (auto simp: tab_ents_def intro!: exI [of _ ?q])
  qed
  ultimately show ?thesis by auto
qed

locale slot_table =
  fixes CAP k :: nat
  assumes cap: "CAP = 2 ^ k" "8 \<le> CAP" "CAP \<le> 65536"
begin

lemma and_cap: "(i :: nat) AND (CAP - 1) = i mod CAP"
  unfolding cap(1) by (rule and_mask_mod)

lemma cap_pos [simp]: "0 < CAP"
  using cap(2) by simp

lemma home_less [simp]: "home CAP x < CAP"
  by (simp add: home_def and_cap [simplified])

lemma next_cell_eq: "i < CAP \<Longrightarrow> next_cell CAP i = (if i + 1 < CAP then i + 1 else 0)"
  by (auto simp: next_cell_def and_cap [simplified] mod_Suc)

lemma next_cell_less [simp]: "i < CAP \<Longrightarrow> next_cell CAP i < CAP"
  by (simp add: next_cell_eq)

lemma cdist_next: "i < CAP \<Longrightarrow> p < CAP \<Longrightarrow> i \<noteq> p \<Longrightarrow> Suc (cdist CAP (next_cell CAP i) p) = cdist CAP i p"
  by (auto simp: next_cell_eq cdist_def)

lemma cdist_to_next: "i < CAP \<Longrightarrow> j < CAP \<Longrightarrow> next_cell CAP j \<noteq> i \<Longrightarrow> cdist CAP i (next_cell CAP j) = Suc (cdist CAP i j)"
  by (auto simp: next_cell_eq cdist_def split: if_splits)

section \<open>Probing\<close>

lemma path_next:
  assumes "h < CAP" "i < CAP" "c < CAP" "cdist CAP h c < cdist CAP h (next_cell CAP i)"
  shows "cdist CAP h c < cdist CAP h i \<or> c = i"
  using assms by (auto simp: next_cell_eq cdist_def split: if_splits)

lemma toward_next:
  assumes "h < CAP" "i < CAP" "p < CAP" "cdist CAP h i < cdist CAP h p"
  shows "cdist CAP h (next_cell CAP i) \<le> cdist CAP h p"
  using assms by (auto simp: next_cell_eq cdist_def split: if_splits)

lemma on_path:
  assumes "h < CAP" "i < CAP" "p < CAP" "cdist CAP h i \<le> cdist CAP h p" "i \<noteq> p"
  shows "cdist CAP h i < cdist CAP h p"
  using assms by (auto simp: cdist_def split: if_splits)

lemma find_hit_from:
  assumes ok: "tab_ok CAP xs" and x: "x \<noteq> 0" "p < CAP" "xs ! p = x"
  shows "i < CAP \<Longrightarrow> cdist CAP (home CAP x) i \<le> cdist CAP (home CAP x) p \<Longrightarrow> cdist CAP i p < n \<Longrightarrow>
    find_from CAP xs x i n = Some p \<and> probe CAP xs x i n = (True, p)"
proof (induction n arbitrary: i)
  case (Suc n)
  show ?case
  proof (cases "i = p")
    case True
    with x show ?thesis by simp
  next
    case False
    note len = tab_okD(1) [OF ok]
    have ne: "xs ! i \<noteq> x" using one_cellD [OF tab_okD(2) [OF ok], of i p] x Suc.prems(1) False len by auto
    have lt: "cdist CAP (home CAP x) i < cdist CAP (home CAP x) p" using on_path [OF home_less Suc.prems(1) x(2) Suc.prems(2) False] .
    then have "reach CAP xs p i" using x by (simp add: reach_def)
    then have nz: "xs ! i \<noteq> 0" by (rule tab_okD(3) [OF ok x(2) Suc.prems(1)])
    have "cdist CAP (next_cell CAP i) p < n" using cdist_next [OF Suc.prems(1) x(2) False] Suc.prems(3) by simp
    from Suc.IH [OF next_cell_less [OF Suc.prems(1)] toward_next [OF home_less Suc.prems(1) x(2) lt] this] ne nz show ?thesis by simp
  qed
qed simp

lemma find_hit:
  assumes "tab_ok CAP xs" "x \<noteq> 0" "p < CAP" "xs ! p = x"
  shows "find_from CAP xs x (home CAP x) CAP = Some p" "probe CAP xs x (home CAP x) CAP = (True, p)"
  using find_hit_from [OF assms, of "home CAP x" CAP] cdist_less [of "home CAP x" CAP p] assms(3) by simp_all

lemma find_miss: "x \<notin> set xs \<Longrightarrow> length xs = CAP \<Longrightarrow> i < CAP \<Longrightarrow> find_from CAP xs x i n = None"
  by (induction n arbitrary: i) (auto simp: in_set_conv_nth)

lemma find_from_iff:
  assumes "tab_ok CAP xs" "x \<noteq> 0"
  shows "find_from CAP xs x (home CAP x) CAP = Some p \<longleftrightarrow> p < CAP \<and> xs ! p = x"
proof (cases "x \<in> set xs")
  case True
  have l: "length xs = CAP" using assms(1) by (simp add: tab_ok_def)
  from True l obtain q where q: "q < CAP" "xs ! q = x" by (auto simp: in_set_conv_nth)
  have "p = q" if "p < CAP" "xs ! p = x" using one_cellD [OF tab_okD(2) [OF assms(1)], of p q] assms(2) that q l by simp
  with find_hit(1) [OF assms q] q show ?thesis by auto
next
  case False
  then show ?thesis using find_miss [of x xs] assms by (auto simp: tab_ok_def in_set_conv_nth)
qed

lemma probe_miss:
  assumes x: "x \<notin> set xs" "length xs = CAP" and z: "z < CAP" "xs ! z = 0"
  shows "i < CAP \<Longrightarrow> (\<And>c. c < CAP \<Longrightarrow> cdist CAP h c < cdist CAP h i \<Longrightarrow> xs ! c \<noteq> 0) \<Longrightarrow> h < CAP \<Longrightarrow> cdist CAP i z < n \<Longrightarrow>
    \<exists>j < CAP. probe CAP xs x i n = (False, j) \<and> xs ! j = 0 \<and> (\<forall>c < CAP. cdist CAP h c < cdist CAP h j \<longrightarrow> xs ! c \<noteq> 0)"
proof (induction n arbitrary: i)
  case (Suc n)
  have ne: "xs ! i \<noteq> x" using x Suc.prems(1) by (auto simp: in_set_conv_nth)
  show ?case
  proof (cases "xs ! i = 0")
    case True
    with Suc.prems ne show ?thesis by auto
  next
    case False
    then have "i \<noteq> z" using z by auto
    then have "cdist CAP (next_cell CAP i) z < n" using cdist_next [OF Suc.prems(1) z(1)] Suc.prems(4) by simp
    moreover have "xs ! c \<noteq> 0" if "c < CAP" "cdist CAP h c < cdist CAP h (next_cell CAP i)" for c
      using path_next [OF Suc.prems(3,1) that] Suc.prems(2) [OF that(1)] False by auto
    ultimately show ?thesis using Suc.IH [of "next_cell CAP i"] Suc.prems(1,3) ne False by simp
  qed
qed simp

section \<open>Closing a gap\<close>

lemma stays_iff:
  assumes "i < CAP" "j < CAP" "h < CAP" "i \<noteq> j"
  shows "(if i \<le> j then i < h \<and> h \<le> j else i < h \<or> h \<le> j) \<longleftrightarrow> 0 < cdist CAP i h \<and> cdist CAP i h \<le> cdist CAP i j"
  using assms by (auto simp: cdist_def)

lemma gap_step:
  assumes g: "gap_ok CAP xs i j z" and j': "j' = next_cell CAP j"
  shows "j' < CAP" "j' \<noteq> i" "cdist CAP i j' = Suc (cdist CAP i j)" "xs ! j' \<noteq> 0 \<Longrightarrow> j' \<noteq> z"
    "Suc (cdist CAP j' z) = cdist CAP j z" "cdist CAP i j' \<le> cdist CAP i z"
proof -
  have b: "i < CAP" "j < CAP" "z < CAP" "cdist CAP i j < cdist CAP i z" "xs ! z = 0" using g by (auto simp: gap_ok_def)
  show "j' < CAP" using b(2) j' by simp
  show ne: "j' \<noteq> i" using b j' by (auto simp: next_cell_eq cdist_def split: if_splits)
  then show d: "cdist CAP i j' = Suc (cdist CAP i j)" using cdist_to_next [OF b(1,2)] j' by simp
  then show "cdist CAP i j' \<le> cdist CAP i z" using b(4) by simp
  show "xs ! j' \<noteq> 0 \<Longrightarrow> j' \<noteq> z" using b(5) by auto
  have "j \<noteq> z" using b(4) by auto
  then show "Suc (cdist CAP j' z) = cdist CAP j z" using cdist_next [OF b(2,3)] j' by simp
qed

lemma gap_closed:
  assumes g: "gap_ok CAP xs i j z" and j': "j' = next_cell CAP j" and e: "xs ! j' = 0"
  shows "tab_ok CAP xs"
proof -
  note st = gap_step [OF g j']
  have b: "length xs = CAP" "one_cell xs" "i < CAP" and path: "\<And>p c. p < CAP \<Longrightarrow> c < CAP \<Longrightarrow> reach CAP xs p c \<Longrightarrow>
      xs ! c \<noteq> 0 \<or> c = i \<and> cdist CAP i j < cdist CAP i p" using g by (auto simp: gap_ok_def)
  have "xs ! c \<noteq> 0" if p: "p < CAP" "c < CAP" "reach CAP xs p c" for p c
  proof (rule ccontr)
    assume "\<not> xs ! c \<noteq> 0"
    with path [OF p] have c: "c = i" "cdist CAP i j < cdist CAP i p" by auto
    let ?h = "home CAP (xs ! p)"
    have r: "xs ! p \<noteq> 0" "cdist CAP ?h i < cdist CAP ?h p" using p(3) c(1) by (auto simp: reach_def)
    then have "p \<noteq> j'" using e by auto
    then have "cdist CAP i j' < cdist CAP i p" using c(2) st(1,3) b(3) p(1) by (auto simp: cdist_def split: if_splits)
    then have "cdist CAP ?h j' < cdist CAP ?h p" by (rule cdist_pass [OF home_less b(3) st(1) p(1) r(2)])
    with r(1) have "reach CAP xs p j'" by (simp add: reach_def)
    from path [OF p(1) st(1) this] e st(2) show False by simp
  qed
  with b show ?thesis by (simp add: tab_ok_def)
qed

lemma gap_kept:
  assumes g: "gap_ok CAP xs i j z" and j': "j' = next_cell CAP j" and x: "xs ! j' \<noteq> 0"
    and st: "0 < cdist CAP i (home CAP (xs ! j'))" "cdist CAP i (home CAP (xs ! j')) \<le> cdist CAP i j'"
  shows "gap_ok CAP xs i j' z"
proof -
  note s = gap_step [OF g j']
  have b: "i < CAP" "z < CAP" and path: "\<And>p c. p < CAP \<Longrightarrow> c < CAP \<Longrightarrow> reach CAP xs p c \<Longrightarrow>
      xs ! c \<noteq> 0 \<or> c = i \<and> cdist CAP i j < cdist CAP i p" using g by (auto simp: gap_ok_def)
  have "xs ! c \<noteq> 0 \<or> c = i \<and> cdist CAP i j' < cdist CAP i p" if p: "p < CAP" "c < CAP" "reach CAP xs p c" for p c
  proof (cases "p = j'")
    case True
    have "c \<noteq> i" using p(3) by (intro cdist_stay [OF home_less b(1) s(1) p(2) st]) (simp add: True reach_def)
    with path [OF p] show ?thesis by blast
  next
    case False
    have "cdist CAP i j < cdist CAP i p \<Longrightarrow> cdist CAP i j' < cdist CAP i p"
      using False s(1,3) b(1) p(1) by (auto simp: cdist_def split: if_splits)
    with path [OF p] show ?thesis by blast
  qed
  moreover have "cdist CAP i j' < cdist CAP i z" using s(1,4,6) x b by (auto simp: cdist_def split: if_splits)
  ultimately show ?thesis using g s(1) unfolding gap_ok_def by blast
qed

lemma gap_moved:
  assumes g: "gap_ok CAP xs i j z" and j': "j' = next_cell CAP j" and x: "xs ! j' \<noteq> 0"
    and st: "\<not> (0 < cdist CAP i (home CAP (xs ! j')) \<and> cdist CAP i (home CAP (xs ! j')) \<le> cdist CAP i j')"
  shows "gap_ok CAP (xs[i := xs ! j', j' := 0]) j' j' z"
proof -
  let ?ys = "xs[i := xs ! j', j' := 0]" and ?h = "home CAP (xs ! j')"
  note s = gap_step [OF g j']
  have b: "i < CAP" "z < CAP" "length xs = CAP" "xs ! i = 0" "xs ! z = 0" and one: "one_cell xs" and path: "\<And>p c. p < CAP \<Longrightarrow> c < CAP \<Longrightarrow> reach CAP xs p c \<Longrightarrow>
      xs ! c \<noteq> 0 \<or> c = i \<and> cdist CAP i j < cdist CAP i p" and far: "cdist CAP i j < cdist CAP i z" using g unfolding gap_ok_def by blast+
  have iz: "i \<noteq> z" using far by auto
  have at: "?ys ! p = (if p = j' then 0 else if p = i then xs ! j' else xs ! p)" if "p < CAP" for p
    using that b s(1) by (simp add: nth_list_update)
  have "?ys ! c \<noteq> 0 \<or> c = j' \<and> cdist CAP j' j' < cdist CAP j' p" if p: "p < CAP" "c < CAP" "reach CAP ?ys p c" for p c
  proof -
    have pj: "p \<noteq> j'" using p(3) at [OF p(1)] by (auto simp: reach_def)
    have "0 < cdist CAP j' p" using pj s(1) cdist_zero [of j' CAP p] by simp
    moreover have "xs ! c \<noteq> 0 \<or> c = i" if "c \<noteq> j'"
    proof (cases "p = i")
      case True
      have "cdist CAP ?h c < cdist CAP ?h i" using p(3) at [OF p(1)] pj True by (simp add: reach_def)
      note c = cdist_back [OF home_less b(1) s(1) p(2) st this]
      then have "reach CAP xs j' c" using x by (simp add: reach_def)
      with path [OF s(1) p(2)] c(2) show ?thesis by blast
    next
      case False
      then have "reach CAP xs p c" using p(3) at [OF p(1)] pj by (simp add: reach_def)
      with path [OF p(1,2)] show ?thesis by blast
    qed
    ultimately show ?thesis using at [OF p(2)] x by auto
  qed
  moreover have "one_cell ?ys"
    unfolding one_cell_def
  proof (intro allI impI)
    fix p q assume pq: "p < length ?ys" "q < length ?ys" "?ys ! p = ?ys ! q" "?ys ! p \<noteq> 0"
    let ?f = "\<lambda>p. if p = i then j' else p"
    have "?f p < CAP" "?f q < CAP" "xs ! ?f p = xs ! ?f q" "xs ! ?f p \<noteq> 0" "p \<noteq> j'" "q \<noteq> j'"
      using pq at [of p] at [of q] b s(1) by (auto split: if_splits)
    with one_cellD [OF one, of "?f p" "?f q"] b show "p = q" by (auto split: if_splits)
  qed
  moreover have "?ys ! z = 0" "0 < cdist CAP j' z" using at [OF b(2)] b(5) iz s(1,4) x cdist_zero [of j' CAP z] by auto
  ultimately show ?thesis using b s(1) at [OF s(1)] by (simp add: gap_ok_def)
qed

lemma next_from:
  assumes "i0 < CAP" "j < CAP" "z < CAP" "cdist CAP i0 j < cdist CAP i0 z"
  shows "cdist CAP i0 (next_cell CAP j) = Suc (cdist CAP i0 j)"
  using assms by (auto simp: next_cell_eq cdist_def split: if_splits)

lemma moved_refl: "moved CAP i0 xs xs"
  by (auto simp: moved_def)

lemma close_gap_law:
  "gap_ok CAP xs i j z \<Longrightarrow> length os = CAP \<Longrightarrow> i0 < CAP \<Longrightarrow> cdist CAP i0 i \<le> cdist CAP i0 j \<Longrightarrow> cdist CAP i0 j < cdist CAP i0 z \<Longrightarrow>
    \<exists>xs' os'. close_gap CAP xs os i j = Some (xs', os') \<and> tab_ok CAP xs' \<and> length os' = CAP \<and> tab_ents xs' os' = tab_ents xs os \<and>
      moved CAP i0 xs xs'"
proof (induction "cdist CAP j z" arbitrary: xs os i j rule: less_induct)
  case less
  define j' where "j' = next_cell CAP j"
  note st = gap_step [OF less.prems(1) j'_def]
  have b: "i < CAP" "j < CAP" "z < CAP" "length xs = CAP" "xs ! i = 0" using less.prems(1) by (auto simp: gap_ok_def)
  have d0: "cdist CAP i0 j' = Suc (cdist CAP i0 j)" using next_from [OF less.prems(3) b(2,3) less.prems(5)] j'_def by simp
  have meas: "cdist CAP j' z < cdist CAP j z" using st(5) by simp
  show ?case
  proof (cases "xs ! j' = 0")
    case True
    then have "close_gap CAP xs os i j = Some (xs, os)" by (subst close_gap.simps) (simp add: j'_def [symmetric])
    with gap_closed [OF less.prems(1) j'_def True] less.prems(2) moved_refl show ?thesis by auto
  next
    case x: False
    have "j' \<noteq> z" using st(4) x by simp
    then have d1: "cdist CAP i0 j' < cdist CAP i0 z"
      using d0 less.prems(3,5) st(1) b(3) by (intro on_path) auto
    let ?h = "home CAP (xs ! j')" and ?ys = "xs[i := xs ! j', j' := 0]" and ?vs = "os[i := os ! j']"
    note si = stays_iff [OF b(1) st(1) home_less st(2) [symmetric], of "xs ! j'"]
    show ?thesis
    proof (cases "0 < cdist CAP i ?h \<and> cdist CAP i ?h \<le> cdist CAP i j'")
      case True
      have run: "close_gap CAP xs os i j = close_gap CAP xs os i j'"
        using x True unfolding si [symmetric] by (subst close_gap.simps) (simp add: j'_def [symmetric] Let_def)
      have "gap_ok CAP xs i j' z" using gap_kept [OF less.prems(1) j'_def x] True by simp
      from less.hyps [OF meas this less.prems(2,3) _ d1] less.prems(4) d0 run show ?thesis by simp
    next
      case False
      have run: "close_gap CAP xs os i j = close_gap CAP ?ys ?vs j' j'"
        using x False unfolding si [symmetric] by (subst close_gap.simps) (simp add: j'_def [symmetric] Let_def)
      have "gap_ok CAP ?ys j' j' z" by (rule gap_moved [OF less.prems(1) j'_def x False])
      from less.hyps [OF meas this _ less.prems(3) order_refl d1, of ?vs] less.prems(2) obtain xs' os' where
        r: "close_gap CAP ?ys ?vs j' j' = Some (xs', os')" "tab_ok CAP xs'" "length os' = CAP" "tab_ents xs' os' = tab_ents ?ys ?vs"
          "moved CAP i0 ?ys xs'" by auto
      have "moved CAP i0 xs ?ys"
        unfolding moved_def
      proof (intro allI impI)
        fix p assume p: "p < CAP" "?ys ! p \<noteq> 0"
        show "\<exists>q < CAP. xs ! q = ?ys ! p \<and> cdist CAP i0 p \<le> cdist CAP i0 q"
        proof (cases "p = i")
          case True
          with p b st(1,2) less.prems(4) d0 show ?thesis by (intro exI [of _ j']) simp
        next
          case False
          with p b st(1) show ?thesis by (intro exI [of _ p]) (auto simp: nth_list_update split: if_splits)
        qed
      qed
      with r moved_trans run tab_ents_move [OF b(4) less.prems(2) b(1) st(1) st(2) [symmetric] b(5) x] show ?thesis by auto
    qed
  qed
qed

section \<open>Removal and insertion\<close>

lemma remove_law:
  assumes ok: "tab_ok CAP xs" and os: "length os = CAP" and i: "i < CAP" "xs ! i \<noteq> 0" and z: "z < CAP" "xs ! z = 0"
  shows "\<exists>xs' os'. close_gap CAP (xs[i := 0]) os i i = Some (xs', os') \<and> tab_ok CAP xs' \<and> length os' = CAP \<and>
    tab_ents xs' os' = {e \<in> tab_ents xs os. fst e \<noteq> xs ! i} \<and> moved CAP i xs xs'"
proof -
  let ?ys = "xs[i := 0]"
  note t = tab_okD [OF ok]
  have iz: "i \<noteq> z" using i z by auto
  have at: "?ys ! p = (if p = i then 0 else xs ! p)" if "p < CAP" for p using that t(1) by (simp add: nth_list_update)
  have "?ys ! c \<noteq> 0 \<or> c = i \<and> cdist CAP i i < cdist CAP i p" if "p < CAP" "c < CAP" "reach CAP ?ys p c" for p c
  proof -
    have p: "p \<noteq> i" "reach CAP xs p c" using that at by (auto simp: reach_def split: if_splits)
    with t(3) [OF that(1,2) p(2)] at [OF that(2)] i(1) cdist_zero [of i CAP p] show ?thesis by auto
  qed
  moreover have "one_cell ?ys" using one_cellD [OF t(2)] at t(1) by (auto simp: one_cell_def split: if_splits)
  ultimately have g: "gap_ok CAP ?ys i i z" using t(1) i(1) z iz at [OF z(1)] at [OF i(1)] cdist_zero [of i CAP z] by (simp add: gap_ok_def)
  have "cdist CAP i i < cdist CAP i z" using cdist_zero [of i CAP z] iz i(1) by simp
  from close_gap_law [OF g os i(1) order_refl this] obtain xs' os' where
    r: "close_gap CAP ?ys os i i = Some (xs', os')" "tab_ok CAP xs'" "length os' = CAP" "tab_ents xs' os' = tab_ents ?ys os" "moved CAP i ?ys xs'" by blast
  have "tab_ents ?ys os = {e \<in> tab_ents xs os. fst e \<noteq> xs ! i}"
  proof (intro set_eqI iffI)
    fix e assume "e \<in> tab_ents ?ys os"
    then obtain p where p: "p < CAP" "?ys ! p = fst e" "os ! p = snd e" "fst e \<noteq> 0" using t(1) by (auto simp: tab_ents_def)
    then have "p \<noteq> i" "xs ! p = fst e" using at by (auto split: if_splits)
    moreover from this have "fst e \<noteq> xs ! i" using one_cellD [OF t(2), of p i] p i t(1) by auto
    ultimately show "e \<in> {e \<in> tab_ents xs os. fst e \<noteq> xs ! i}" using p t(1) by (cases e) (auto simp: tab_ents_def)
  next
    fix e assume "e \<in> {e \<in> tab_ents xs os. fst e \<noteq> xs ! i}"
    then obtain p where p: "p < CAP" "xs ! p = fst e" "os ! p = snd e" "fst e \<noteq> 0" "fst e \<noteq> xs ! i" using t(1) by (auto simp: tab_ents_def)
    then have "?ys ! p = fst e" using at by auto
    with p t(1) show "e \<in> tab_ents ?ys os" by (cases e) (auto simp: tab_ents_def)
  qed
  moreover have "moved CAP i xs ?ys" using at by (auto simp: moved_def)
  ultimately show ?thesis using r moved_trans by auto
qed

lemma insert_law:
  assumes ok: "tab_ok CAP xs" and os: "length os = CAP" and x: "x \<notin> set xs" "x \<noteq> 0" and z: "z < CAP" "xs ! z = 0"
  shows "\<exists>j < CAP. probe CAP xs x (home CAP x) CAP = (False, j) \<and> tab_ok CAP (xs[j := x]) \<and>
    tab_ents (xs[j := x]) (os[j := v]) = insert (x, v) (tab_ents xs os)"
proof -
  note t = tab_okD [OF ok]
  from probe_miss [OF x(1) t(1) z, of "home CAP x" "home CAP x" CAP] cdist_less [of "home CAP x" CAP z] z(1) obtain j where
    j: "j < CAP" "probe CAP xs x (home CAP x) CAP = (False, j)" "xs ! j = 0"
      "\<And>c. c < CAP \<Longrightarrow> cdist CAP (home CAP x) c < cdist CAP (home CAP x) j \<Longrightarrow> xs ! c \<noteq> 0" by auto
  let ?ys = "xs[j := x]"
  have at: "?ys ! p = (if p = j then x else xs ! p)" "os[j := v] ! p = (if p = j then v else os ! p)" if "p < CAP" for p
    using that t(1) os by (simp_all add: nth_list_update)
  have xp: "xs ! p \<noteq> x" if "p < CAP" for p using x(1) t(1) that by auto
  have "?ys ! c \<noteq> 0" if p: "p < CAP" "c < CAP" "reach CAP ?ys p c" for p c
  proof (cases "p = j")
    case True
    with p at [OF j(1)] have "cdist CAP (home CAP x) c < cdist CAP (home CAP x) j" by (simp add: reach_def)
    with j(4) [OF p(2)] at [OF p(2)] x(2) show ?thesis by auto
  next
    case False
    then have "reach CAP xs p c" using p at [OF p(1)] by (simp add: reach_def)
    with t(3) [OF p(1,2)] at [OF p(2)] x(2) show ?thesis by auto
  qed
  moreover have "one_cell ?ys"
    unfolding one_cell_def
  proof (intro allI impI)
    fix p q assume pq: "p < length ?ys" "q < length ?ys" "?ys ! p = ?ys ! q" "?ys ! p \<noteq> 0"
    then have b: "p < CAP" "q < CAP" using t(1) by simp_all
    from pq(3,4) at(1) [OF b(1)] at(1) [OF b(2)] xp [OF b(1)] xp [OF b(2)] one_cellD [OF t(2), of p q] b t(1) show "p = q"
      by (cases "p = j"; cases "q = j") auto
  qed
  ultimately have "tab_ok CAP ?ys" using t(1) by (simp add: tab_ok_def)
  moreover have "tab_ents ?ys (os[j := v]) = insert (x, v) (tab_ents xs os)"
    using at j(1,3) t(1) x(2) by (auto simp: tab_ents_def split: if_splits)
  ultimately show ?thesis using j by blast
qed

end

end
