(* ===== verification/Slot_Index_Spec.thy ===== *)
theory Slot_Index_Spec
  imports Slot_Table
begin

text \<open>
  What the slot index promises (\<open>blob_db_slot_index.h\<close>): it never names an older slot of an id. The
  bucket logs are given by the newest slot \<open>T\<close> of every id and the end \<open>C\<close> of every log; the events by
  which blob_db tells the index what it does with a bucket are the steps of a transition system, and
  the promise is an invariant of it.
\<close>

section \<open>The index in good order\<close>

definition sidx_ents :: "sidx \<Rightarrow> (u64 \<times> u32) set" where
  "sidx_ents S = tab_ents (g_ids S) (g_offs S)"

definition of_bucket :: "sidx \<Rightarrow> nat \<Rightarrow> u64 set" where
  "of_bucket S b = {x \<in> tab_ids (g_ids S). bucket_of S x = b}"

definition sidx_ok :: "nat \<Rightarrow> nat \<Rightarrow> sidx \<Rightarrow> bool" where
  "sidx_ok CAP MAX_BKT S \<longleftrightarrow>
     tab_ok CAP (g_ids S) \<and> length (g_offs S) = CAP \<and> length (g_cursor S) = MAX_BKT \<and> length (g_bcnt S) = MAX_BKT \<and>
     g_n_buckets S \<le> MAX_BKT \<and> g_used S = card (tab_ids (g_ids S)) \<and> g_used S \<le> MAX_FILL CAP \<and>
     (\<forall>b < g_n_buckets S. unat (g_bcnt S ! b) = card (of_bucket S b))"

lemma finite_tab_ids [simp]: "finite (tab_ids xs)"
  by (simp add: tab_ids_def)

lemma finite_of_bucket [simp]: "finite (of_bucket S b)"
  by (simp add: of_bucket_def)

lemma one_cell_distinct: "one_cell xs \<Longrightarrow> 0 \<notin> set xs \<Longrightarrow> distinct xs"
  by (auto simp: one_cell_def distinct_conv_nth in_set_conv_nth)

section \<open>Events\<close>

text \<open>The index does not contradict the logs: a known cursor is the end of its log, a bucket of unknown
  cursor has no entries, and every entry is the newest slot of its id.\<close>

definition sidx_true :: "nat \<Rightarrow> sidx \<Rightarrow> (u64 \<rightharpoonup> u32) \<Rightarrow> (nat \<Rightarrow> u32) \<Rightarrow> bool" where
  "sidx_true n S T C \<longleftrightarrow>
     (if g_n_buckets S = 0 then sidx_ents S = {} else g_n_buckets S = n) \<and>
     (\<forall>b < g_n_buckets S. g_cursor S ! b = 0 \<or> g_cursor S ! b = C b) \<and>
     (\<forall>e \<in> sidx_ents S. g_cursor S ! bucket_of S (fst e) \<noteq> 0 \<and> T (fst e) = Some (snd e))"

text \<open>What blob_db does to the logs and tells the index, for \<open>n\<close> buckets: a mount or format, a bucket
  formatted or rebuilt from its beginning, a slot appended, a finished walk, and any other rewriting
  of a bucket, after which blob_db has the index forget it.\<close>

inductive sidx_run :: "nat \<Rightarrow> nat \<Rightarrow> nat \<Rightarrow> sidx \<Rightarrow> (u64 \<rightharpoonup> u32) \<Rightarrow> (nat \<Rightarrow> u32) \<Rightarrow> bool" for CAP MB n where
  run_reset: "sidx_run CAP MB n (blob_db_sidx_reset CAP MB n) T C"
| run_begin: "sidx_run CAP MB n S T C \<Longrightarrow> bid < n \<Longrightarrow> off \<noteq> 0 \<Longrightarrow> blob_db_sidx_begin CAP S bid off = Some S' \<Longrightarrow>
    sidx_run CAP MB n S' (\<lambda>x. if unat x mod n = bid then None else T x) (C(bid := off))"
| run_note: "sidx_run CAP MB n S T C \<Longrightarrow> x \<noteq> 0 \<Longrightarrow> bid = unat x mod n \<Longrightarrow> off + sz \<noteq> 0 \<Longrightarrow>
    blob_db_sidx_note CAP S bid x off sz tomb = Some S' \<Longrightarrow>
    sidx_run CAP MB n S' (T(x := if tomb then None else Some off)) (C(bid := off + sz))"
| run_learn: "sidx_run CAP MB n S T C \<Longrightarrow> x \<noteq> 0 \<Longrightarrow> bid = unat x mod n \<Longrightarrow> off = None \<or> off = T x \<Longrightarrow>
    blob_db_sidx_learn CAP S bid x off (C bid) = Some S' \<Longrightarrow> sidx_run CAP MB n S' T C"
| run_forget: "sidx_run CAP MB n S T C \<Longrightarrow> bid < n \<Longrightarrow> blob_db_sidx_forget CAP S bid = Some S' \<Longrightarrow>
    (\<And>x. unat x mod n \<noteq> bid \<Longrightarrow> T' x = T x) \<Longrightarrow> (\<And>b. b \<noteq> bid \<Longrightarrow> C' b = C b) \<Longrightarrow> sidx_run CAP MB n S' T' C'"

context slot_table
begin

lemma fill_less: "MAX_FILL CAP < CAP" "MAX_FILL CAP < 65536"
  using cap(2,3) by (auto simp: MAX_FILL_def)

lemma empty_cell:
  assumes "sidx_ok CAP MB S"
  shows "\<exists>z < CAP. g_ids S ! z = 0"
proof (rule ccontr)
  assume n: "\<not> ?thesis"
  have l: "length (g_ids S) = CAP" "one_cell (g_ids S)" using assms by (auto simp: sidx_ok_def tab_ok_def)
  have z: "0 \<notin> set (g_ids S)" using n l(1) by (auto simp: in_set_conv_nth)
  then have "tab_ids (g_ids S) = set (g_ids S)" by (auto simp: tab_ids_def)
  then have "card (tab_ids (g_ids S)) = CAP" using distinct_card [OF one_cell_distinct [OF l(2) z]] l(1) by simp
  with assms fill_less(1) show False by (simp add: sidx_ok_def)
qed

lemma find_cell_law:
  assumes "sidx_ok CAP MB S" "x \<noteq> 0"
  shows "find_cell CAP S x = Some p \<longleftrightarrow> p < CAP \<and> g_ids S ! p = x"
  using find_from_iff [of "g_ids S" x p] assms by (simp add: find_cell_def sidx_ok_def)

section \<open>Cells in and out\<close>

lemma remove_at_law:
  assumes ok: "sidx_ok CAP MB S" and i: "i < CAP" "g_ids S ! i \<noteq> 0" and n: "g_n_buckets S \<noteq> 0"
  shows "\<exists>S'. remove_at CAP S i = Some S' \<and> sidx_ok CAP MB S' \<and> sidx_ents S' = {e \<in> sidx_ents S. fst e \<noteq> g_ids S ! i} \<and>
    g_cursor S' = g_cursor S \<and> g_n_buckets S' = g_n_buckets S \<and> moved CAP i (g_ids S) (g_ids S')"
proof -
  from empty_cell [OF ok] obtain z where z: "z < CAP" "g_ids S ! z = 0" by blast
  let ?x = "g_ids S ! i" and ?b = "bucket_of S (g_ids S ! i)"
  have t: "tab_ok CAP (g_ids S)" "length (g_offs S) = CAP" using ok by (simp_all add: sidx_ok_def)
  from remove_law [OF t i z] obtain xs os where r: "close_gap CAP ((g_ids S)[i := 0]) (g_offs S) i i = Some (xs, os)" "tab_ok CAP xs" "length os = CAP"
    "tab_ents xs os = {e \<in> tab_ents (g_ids S) (g_offs S). fst e \<noteq> ?x}" "moved CAP i (g_ids S) xs" by blast
  let ?S = "S\<lparr>g_ids := xs, g_offs := os, g_used := g_used S - 1, g_bcnt := (g_bcnt S)[?b := g_bcnt S ! ?b - 1]\<rparr>"
  have ids: "tab_ids xs = tab_ids (g_ids S) - {?x}"
    using arg_cong [OF r(4), of "image fst"] unfolding tab_ents_ids [of xs] tab_ents_ids [of "g_ids S" "g_offs S", symmetric] by auto
  have x: "?x \<in> tab_ids (g_ids S)" using i tab_okD(1) [OF t(1)] by (simp add: tab_ids_def)
  have b: "?b < g_n_buckets S" using n by (simp add: bucket_of_def)
  have ob: "of_bucket ?S c = (if c = ?b then of_bucket S c - {?x} else of_bucket S c)" for c
    using ids by (auto simp: of_bucket_def bucket_of_def)
  have "unat (g_bcnt ?S ! c) = card (of_bucket ?S c)" if "c < g_n_buckets S" for c
  proof (cases "c = ?b")
    case True
    have w: "unat (g_bcnt S ! ?b) = card (of_bucket S ?b)" using ok b by (simp add: sidx_ok_def)
    have xb: "?x \<in> of_bucket S ?b" using x by (simp add: of_bucket_def)
    then have "0 < card (of_bucket S ?b)" using card_gt_0_iff by fastforce
    then have "g_bcnt S ! ?b \<noteq> 0" using w by auto
    then have "unat (g_bcnt S ! ?b - 1) = unat (g_bcnt S ! ?b) - 1" by (simp add: unat_minus_one)
    with True w xb ob ok b show ?thesis by (auto simp: sidx_ok_def)
  next
    case False
    with ob ok that show ?thesis by (simp add: sidx_ok_def)
  qed
  moreover have "g_used ?S = card (tab_ids xs)" "card (tab_ids xs) \<le> MAX_FILL CAP" using ok ids x by (auto simp: sidx_ok_def)
  ultimately have "sidx_ok CAP MB ?S" using ok r(2,3) by (simp add: sidx_ok_def)
  moreover have "remove_at CAP S i = Some ?S" using r(1) by (simp add: remove_at_def Let_def)
  ultimately show ?thesis using r(4,5) by (intro exI [of _ ?S]) (simp add: sidx_ents_def)
qed

lemma put_law:
  assumes ok: "sidx_ok CAP MB S" and x: "x \<noteq> 0" and n: "g_n_buckets S \<noteq> 0"
  shows "sidx_ok CAP MB (put CAP S x off)" "sidx_ents (put CAP S x off) \<subseteq> insert (x, off) {e \<in> sidx_ents S. fst e \<noteq> x}"
    "g_cursor (put CAP S x off) = g_cursor S" "g_n_buckets (put CAP S x off) = g_n_buckets S"
proof -
  have t: "tab_ok CAP (g_ids S)" "length (g_offs S) = CAP" using ok by (simp_all add: sidx_ok_def)
  note td = tab_okD [OF t(1)]
  have "sidx_ok CAP MB (put CAP S x off) \<and> sidx_ents (put CAP S x off) \<subseteq> insert (x, off) {e \<in> sidx_ents S. fst e \<noteq> x}"
  proof (cases "x \<in> set (g_ids S)")
    case True
    then obtain p where p: "p < CAP" "g_ids S ! p = x" using td(1) by (auto simp: in_set_conv_nth)
    have put: "put CAP S x off = S\<lparr>g_offs := (g_offs S)[p := off]\<rparr>" using find_hit(2) [OF t(1) x p] by (simp add: put_def)
    have "e \<in> insert (x, off) {e \<in> sidx_ents S. fst e \<noteq> x}" if "e \<in> sidx_ents (put CAP S x off)" for e
    proof -
      from that put td(1) obtain q where q: "q < CAP" "g_ids S ! q = fst e" "(g_offs S)[p := off] ! q = snd e" "fst e \<noteq> 0"
        by (auto simp: sidx_ents_def tab_ents_def)
      show ?thesis
      proof (cases "q = p")
        case True
        with q p t(2) show ?thesis by (cases e) auto
      next
        case False
        then have "fst e \<noteq> x" using one_cellD [OF td(2), of p q] p q x td(1) by auto
        with False q p td(1) show ?thesis by (cases e) (auto simp: sidx_ents_def tab_ents_def nth_list_update)
      qed
    qed
    with put ok show ?thesis by (auto simp: sidx_ok_def of_bucket_def bucket_of_def)
  next
    case False
    from empty_cell [OF ok] obtain z where z: "z < CAP" "g_ids S ! z = 0" by blast
    from insert_law [OF t False x z, of off] obtain j where j: "j < CAP" "probe CAP (g_ids S) x (home CAP x) CAP = (False, j)"
      "tab_ok CAP ((g_ids S)[j := x])" "tab_ents ((g_ids S)[j := x]) ((g_offs S)[j := off]) = insert (x, off) (tab_ents (g_ids S) (g_offs S))" by blast
    have nx: "fst e \<noteq> x" if "e \<in> sidx_ents S" for e using that False tab_ents_ids [of "g_ids S" "g_offs S"] by (force simp: sidx_ents_def tab_ids_def)
    show ?thesis
    proof (cases "g_used S \<ge> MAX_FILL CAP")
      case True
      with j ok nx show ?thesis by (auto simp: put_def)
    next
      case room: False
      let ?b = "bucket_of S x"
      let ?S = "S\<lparr>g_ids := (g_ids S)[j := x], g_offs := (g_offs S)[j := off], g_used := g_used S + 1, g_bcnt := (g_bcnt S)[?b := g_bcnt S ! ?b + 1]\<rparr>"
      have put: "put CAP S x off = ?S" using j room by (simp add: put_def)
      have ids: "tab_ids ((g_ids S)[j := x]) = insert x (tab_ids (g_ids S))"
        using arg_cong [OF j(4), of "image fst"] unfolding image_insert tab_ents_ids by simp
      have xn: "x \<notin> tab_ids (g_ids S)" using False by (simp add: tab_ids_def)
      have b: "?b < g_n_buckets S" using n by (simp add: bucket_of_def)
      have ob: "of_bucket ?S c = (if c = ?b then insert x (of_bucket S c) else of_bucket S c)" for c
        using ids by (auto simp: of_bucket_def bucket_of_def)
      have "card (of_bucket S c) \<le> g_used S" for c using ok by (auto simp: sidx_ok_def of_bucket_def intro: card_mono)
      then have sm: "Suc (card (of_bucket S c)) < 65536" for c using room fill_less(2) le_less_trans less_trans by (meson Suc_less_eq not_le order.strict_trans1 Suc_leI)
      have "unat (g_bcnt ?S ! c) = card (of_bucket ?S c)" if "c < g_n_buckets S" for c
      proof (cases "c = ?b")
        case True
        have w: "unat (g_bcnt S ! ?b) = card (of_bucket S ?b)" using ok b by (simp add: sidx_ok_def)
        then have "unat (g_bcnt S ! ?b + 1) = Suc (card (of_bucket S ?b))" using sm [of ?b] by (simp add: unat_word_ariths)
        moreover have "x \<notin> of_bucket S ?b" using xn by (simp add: of_bucket_def)
        ultimately show ?thesis using True ob ok b by (auto simp: sidx_ok_def)
      next
        case False
        with ob ok that show ?thesis by (simp add: sidx_ok_def)
      qed
      moreover have "g_used ?S = card (tab_ids ((g_ids S)[j := x]))" using ok ids xn by (simp add: sidx_ok_def)
      ultimately have "sidx_ok CAP MB ?S" using ok j(3) room by (simp add: sidx_ok_def)
      with put j(4) nx show ?thesis by (auto simp: sidx_ents_def)
    qed
  qed
  then show "sidx_ok CAP MB (put CAP S x off)" "sidx_ents (put CAP S x off) \<subseteq> insert (x, off) {e \<in> sidx_ents S. fst e \<noteq> x}" by auto
  show "g_cursor (put CAP S x off) = g_cursor S" "g_n_buckets (put CAP S x off) = g_n_buckets S"
    by (auto simp: put_def split: prod.splits bool.splits)
qed

section \<open>Operations\<close>

lemma drop_id_law:
  assumes ok: "sidx_ok CAP MB S" and x: "x \<noteq> 0" and n: "g_n_buckets S \<noteq> 0"
  shows "\<exists>S'. drop_id CAP S x = Some S' \<and> sidx_ok CAP MB S' \<and> sidx_ents S' = {e \<in> sidx_ents S. fst e \<noteq> x} \<and>
    g_cursor S' = g_cursor S \<and> g_n_buckets S' = g_n_buckets S"
proof (cases "find_cell CAP S x")
  case None
  have l: "length (g_ids S) = CAP" using ok by (simp add: sidx_ok_def tab_ok_def)
  have "fst e \<noteq> x" if "e \<in> sidx_ents S" for e
  proof -
    from that l obtain p where "p < CAP" "g_ids S ! p = fst e" by (auto simp: sidx_ents_def tab_ents_def)
    then show ?thesis using find_cell_law [OF ok x, of p] None by auto
  qed
  with None ok show ?thesis by (auto simp: drop_id_def)
next
  case (Some p)
  then have p: "p < CAP" "g_ids S ! p = x" using find_cell_law [OF ok x] by auto
  from remove_at_law [OF ok p(1) _ n] p(2) x Some show ?thesis by (auto simp: drop_id_def)
qed

text \<open>No entry of the bucket is left behind the position of the sweep.\<close>

lemma forget_loop_law:
  assumes "sidx_ok CAP MB S" "bid < g_n_buckets S" "\<And>p. p < i \<Longrightarrow> p < CAP \<Longrightarrow> g_ids S ! p \<noteq> 0 \<Longrightarrow> bucket_of S (g_ids S ! p) \<noteq> bid"
  shows "\<exists>S'. forget_loop CAP S bid i = Some S' \<and> sidx_ok CAP MB S' \<and> sidx_ents S' = {e \<in> sidx_ents S. bucket_of S (fst e) \<noteq> bid} \<and>
    g_cursor S' = g_cursor S \<and> g_n_buckets S' = g_n_buckets S"
  using assms
proof (induction "card (of_bucket S bid) + (CAP - i)" arbitrary: S i rule: less_induct)
  case less
  note ok = less.prems(1)
  have l: "length (g_ids S) = CAP" using ok by (simp add: sidx_ok_def tab_ok_def)
  have cnt: "unat (g_bcnt S ! bid) = card (of_bucket S bid)" using ok less.prems(2) by (simp add: sidx_ok_def)
  have n: "g_n_buckets S \<noteq> 0" using less.prems(2) by simp
  show ?case
  proof (cases "i < CAP \<and> g_bcnt S ! bid \<noteq> 0")
    case False
    have "bucket_of S (fst e) \<noteq> bid" if e: "e \<in> sidx_ents S" for e
    proof -
      from e l obtain p where p: "p < CAP" "g_ids S ! p = fst e" "fst e \<noteq> 0" by (auto simp: sidx_ents_def tab_ents_def)
      show ?thesis
      proof (cases "i < CAP")
        case True
        then have "card (of_bucket S bid) = 0" using False cnt by simp
        then have "of_bucket S bid = {}" by simp
        moreover have "fst e \<in> tab_ids (g_ids S)" using p l nth_mem [of p "g_ids S"] by (simp add: tab_ids_def)
        ultimately show ?thesis by (auto simp: of_bucket_def)
      next
        case False
        with less.prems(3) [of p] p show ?thesis by simp
      qed
    qed
    with False ok show ?thesis by (subst forget_loop.simps) auto
  next
    case True
    show ?thesis
    proof (cases "g_ids S ! i \<noteq> 0 \<and> bucket_of S (g_ids S ! i) = bid")
      case hit: True
      from remove_at_law [OF ok _ _ n, of i] True hit obtain S1 where
        r: "remove_at CAP S i = Some S1" "sidx_ok CAP MB S1" "sidx_ents S1 = {e \<in> sidx_ents S. fst e \<noteq> g_ids S ! i}"
          "g_cursor S1 = g_cursor S" "g_n_buckets S1 = g_n_buckets S" "moved CAP i (g_ids S) (g_ids S1)" by blast
      have bo: "bucket_of S1 x = bucket_of S x" for x using r(5) by (simp add: bucket_of_def)
      have "tab_ids (g_ids S1) = tab_ids (g_ids S) - {g_ids S ! i}"
        using arg_cong [OF r(3), of "image fst"] unfolding sidx_ents_def tab_ents_ids [of "g_ids S1"]
          tab_ents_ids [of "g_ids S" "g_offs S", symmetric] by auto
      then have "of_bucket S1 bid = of_bucket S bid - {g_ids S ! i}" by (auto simp: of_bucket_def bo)
      moreover have "g_ids S ! i \<in> of_bucket S bid" using hit True l by (simp add: of_bucket_def tab_ids_def)
      ultimately have "card (of_bucket S1 bid) < card (of_bucket S bid)" by (metis card_Diff1_less finite_of_bucket)
      then have m: "card (of_bucket S1 bid) + (CAP - i) < card (of_bucket S bid) + (CAP - i)" by simp
      have behind: "bucket_of S1 (g_ids S1 ! p) \<noteq> bid" if p: "p < i" "p < CAP" "g_ids S1 ! p \<noteq> 0" for p
      proof -
        from r(6) p obtain q where q: "q < CAP" "g_ids S ! q = g_ids S1 ! p" "cdist CAP i p \<le> cdist CAP i q" unfolding moved_def by blast
        then have "q < i" using p True by (auto simp: cdist_def split: if_splits)
        with less.prems(3) [of q] q p(3) bo show ?thesis by simp
      qed
      from less.hyps [OF m r(2) _ behind] less.prems(2) r(5) obtain S' where s': "forget_loop CAP S1 bid i = Some S'" "sidx_ok CAP MB S'"
        "sidx_ents S' = {e \<in> sidx_ents S1. bucket_of S1 (fst e) \<noteq> bid}" "g_cursor S' = g_cursor S1" "g_n_buckets S' = g_n_buckets S1" by auto
      have "forget_loop CAP S bid i = Some S'" using True hit r(1) s'(1) by (subst forget_loop.simps) simp
      moreover have "sidx_ents S' = {e \<in> sidx_ents S. bucket_of S (fst e) \<noteq> bid}" unfolding s'(3) r(3) bo using hit by auto
      ultimately show ?thesis using s' r(4,5) by auto
    next
      case miss: False
      have m: "card (of_bucket S bid) + (CAP - (i + 1)) < card (of_bucket S bid) + (CAP - i)" using True by linarith
      have "bucket_of S (g_ids S ! p) \<noteq> bid" if "p < i + 1" "p < CAP" "g_ids S ! p \<noteq> 0" for p
        using less.prems(3) [of p] miss that by (cases "p = i") auto
      from less.hyps [OF m ok less.prems(2) this] True miss show ?thesis by (subst forget_loop.simps) auto
    qed
  qed
qed

lemma forget_law:
  assumes ok: "sidx_ok CAP MB S" and on: "on S bid"
  shows "\<exists>S'. blob_db_sidx_forget CAP S bid = Some S' \<and> sidx_ok CAP MB S' \<and> sidx_ents S' = {e \<in> sidx_ents S. bucket_of S (fst e) \<noteq> bid} \<and>
    g_cursor S' = (g_cursor S)[bid := 0] \<and> g_n_buckets S' = g_n_buckets S"
proof -
  let ?S = "S\<lparr>g_cursor := (g_cursor S)[bid := 0]\<rparr>"
  have "sidx_ok CAP MB ?S" using ok by (simp add: sidx_ok_def of_bucket_def bucket_of_def)
  from forget_loop_law [OF this, of bid 0] on show ?thesis
    by (simp add: blob_db_sidx_forget_def on_def sidx_ents_def bucket_of_def)
qed

section \<open>The promise\<close>

lemma on_iff: "on S bid \<longleftrightarrow> bid < g_n_buckets S"
  by (auto simp: on_def)

lemma off_true: "sidx_true n S T C \<Longrightarrow> \<not> on S bid \<Longrightarrow> bid < n \<Longrightarrow> sidx_true n S T' C'"
  by (auto simp: sidx_true_def on_iff split: if_splits)

lemma forget_true:
  assumes ok: "sidx_ok CAP MB S" and t: "sidx_true n S T C" and on: "on S bid"
    and ch: "\<And>x. unat x mod n \<noteq> bid \<Longrightarrow> T' x = T x" "\<And>b. b \<noteq> bid \<Longrightarrow> C' b = C b" and run: "blob_db_sidx_forget CAP S bid = Some S'"
  shows "sidx_true n S' T' C'"
proof -
  from forget_law [OF ok on] run have f: "sidx_ok CAP MB S'" "sidx_ents S' = {e \<in> sidx_ents S. bucket_of S (fst e) \<noteq> bid}"
    "g_cursor S' = (g_cursor S)[bid := 0]" "g_n_buckets S' = g_n_buckets S" by auto
  have n: "g_n_buckets S = n" using t on by (auto simp: sidx_true_def on_iff)
  have len: "bid < length (g_cursor S)" using ok on by (auto simp: sidx_ok_def on_iff)
  have bo: "bucket_of S' x = unat x mod n" "bucket_of S x = unat x mod n" for x using f(4) n by (simp_all add: bucket_of_def)
  have "g_cursor S' ! b = 0 \<or> g_cursor S' ! b = C' b" if "b < n" for b
    using t that f(3) n ch(2) [of b] len by (cases "b = bid") (auto simp: sidx_true_def)
  moreover have "g_cursor S' ! bucket_of S' (fst e) \<noteq> 0 \<and> T' (fst e) = Some (snd e)" if "e \<in> sidx_ents S'" for e
    using t that f(2,3) ch(1) by (auto simp: sidx_true_def bo)
  moreover have "n \<noteq> 0" using n on by (simp add: on_iff)
  ultimately show ?thesis using f(4) n by (simp add: sidx_true_def)
qed

lemma put_true:
  assumes ok: "sidx_ok CAP MB S" and t: "sidx_true n S T C" and on: "on S (unat x mod n)" and x: "x \<noteq> 0"
    and cur: "g_cursor S ! (unat x mod n) \<noteq> 0" and T': "T' x = Some off" "\<And>y. y \<noteq> x \<Longrightarrow> T' y = T y"
  shows "sidx_true n (put CAP S x off) T' C"
proof -
  have n: "g_n_buckets S = n" "g_n_buckets S \<noteq> 0" using t on by (auto simp: sidx_true_def on_iff split: if_splits)
  note p = put_law [OF ok x n(2), of off]
  have bo: "bucket_of (put CAP S x off) y = bucket_of S y" "bucket_of S y = unat y mod n" for y using p(4) n by (simp_all add: bucket_of_def)
  have "g_cursor S ! bucket_of S (fst e) \<noteq> 0 \<and> T' (fst e) = Some (snd e)" if "e \<in> sidx_ents (put CAP S x off)" for e
  proof -
    from p(2) that consider "e = (x, off)" | "e \<in> sidx_ents S" "fst e \<noteq> x" by blast
    then show ?thesis
    proof cases
      case 1
      with cur T'(1) show ?thesis by (simp add: bo(2))
    next
      case 2
      with t T'(2) show ?thesis unfolding sidx_true_def by auto
    qed
  qed
  with t p(3,4) n show ?thesis by (simp add: sidx_true_def bo(1))
qed

lemma sidx_run_ok:
  assumes "sidx_run CAP MB n S T C" "0 < n"
  shows "sidx_ok CAP MB S \<and> sidx_true n S T C"
  using assms
proof induction
  case (run_reset T C)
  have "tab_ok CAP (replicate CAP 0)" by (auto simp: tab_ok_def one_cell_def reach_def)
  then show ?case
    by (auto simp: blob_db_sidx_reset_def sidx_ok_def sidx_true_def sidx_ents_def tab_ents_def tab_ids_def of_bucket_def)
next
  case (run_begin S T C bid off S')
  then have ok: "sidx_ok CAP MB S" and t: "sidx_true n S T C" by auto
  show ?case
  proof (cases "on S bid")
    case False
    with run_begin.hyps(4) ok off_true [OF t False run_begin.hyps(2)] show ?thesis by (simp add: blob_db_sidx_begin_def)
  next
    case True
    from forget_law [OF ok True] obtain S1 where f: "blob_db_sidx_forget CAP S bid = Some S1" "sidx_ok CAP MB S1" "g_cursor S1 = (g_cursor S)[bid := 0]"
      "g_n_buckets S1 = g_n_buckets S" "sidx_ents S1 = {e \<in> sidx_ents S. bucket_of S (fst e) \<noteq> bid}" by blast
    let ?T = "\<lambda>x. if unat x mod n = bid then None else T x" and ?C = "C(bid := off)"
    have t1: "sidx_true n S1 ?T ?C" by (rule forget_true [OF ok t True _ _ f(1)]) auto
    have S': "S' = S1\<lparr>g_cursor := (g_cursor S1)[bid := off]\<rparr>" using run_begin.hyps(4) True f(1) by (simp add: blob_db_sidx_begin_def)
    have n: "g_n_buckets S1 = n" using t True f(4) by (auto simp: sidx_true_def on_iff split: if_splits)
    have e: "sidx_ents S' = sidx_ents S1" "bucket_of S' x = bucket_of S1 x" "bucket_of S x = bucket_of S1 x" for x
      using S' f(4) by (simp_all add: sidx_ents_def bucket_of_def)
    have "sidx_ok CAP MB S'" using f(2) S' by (simp add: sidx_ok_def of_bucket_def bucket_of_def)
    moreover have "g_cursor S' ! bucket_of S' (fst x) \<noteq> 0" if x: "x \<in> sidx_ents S'" for x
    proof -
      have "bucket_of S1 (fst x) \<noteq> bid" using x f(5) by (simp add: e)
      moreover have "g_cursor S1 ! bucket_of S1 (fst x) \<noteq> 0" using x t1 unfolding e(1) sidx_true_def by blast
      ultimately show ?thesis unfolding e(2) using S' by simp
    qed
    moreover have "g_cursor S' ! b = 0 \<or> g_cursor S' ! b = ?C b" if "b < n" for b
      using t1 that S' n f(2) by (auto simp: sidx_true_def nth_list_update sidx_ok_def)
    ultimately show ?thesis using t1 n S' e by (auto simp: sidx_true_def)
  qed
next
  case (run_note S T C x bid off sz tomb S')
  then have ok: "sidx_ok CAP MB S" and t: "sidx_true n S T C" and bn: "bid < n" by auto
  let ?T = "T(x := if tomb then None else Some off)" and ?C = "C(bid := off + sz)"
  show ?case
  proof (cases "on S bid")
    case False
    with run_note.hyps(5) ok off_true [OF t False bn] show ?thesis by (simp add: blob_db_sidx_note_def)
  next
    case True
    have n: "g_n_buckets S = n" using t True by (auto simp: sidx_true_def on_iff split: if_splits)
    have bo: "bucket_of S y = unat y mod n" for y using n by (simp add: bucket_of_def)
    have other: "?T y = T y" if "unat y mod n \<noteq> bid" for y using that run_note.hyps(3) by auto
    show ?thesis
    proof (cases "g_cursor S ! bid = 0")
      case unknown: True
      then have S': "S' = S" using run_note.hyps(5) by (simp add: blob_db_sidx_note_def)
      have "?T (fst e) = Some (snd e)" if "e \<in> sidx_ents S" for e
        using t that unknown run_note.hyps(3) by (auto simp: sidx_true_def bo)
      with t unknown ok S' n show ?thesis by (auto simp: sidx_true_def)
    next
      case known: False
      show ?thesis
      proof (cases "off = g_cursor S ! bid")
        case False
        then have run: "blob_db_sidx_forget CAP S bid = Some S'" using run_note.hyps(5) True known by (simp add: blob_db_sidx_note_def)
        have "sidx_true n S' ?T ?C" by (rule forget_true [OF ok t True other _ run]) auto
        moreover have "sidx_ok CAP MB S'" using forget_law [OF ok True] run by auto
        ultimately show ?thesis by blast
      next
        case here: True
        define S1 where "S1 = S\<lparr>g_cursor := (g_cursor S)[bid := off + sz]\<rparr>"
        have ok1: "sidx_ok CAP MB S1" using ok by (simp add: S1_def sidx_ok_def of_bucket_def bucket_of_def)
        have len: "bid < length (g_cursor S)" using ok True by (auto simp: sidx_ok_def on_iff)
        have e1: "sidx_ents S1 = sidx_ents S" "bucket_of S1 y = unat y mod n" "g_n_buckets S1 = n" for y
          using n by (simp_all add: S1_def sidx_ents_def bucket_of_def)
        have cur1: "g_cursor S1 ! b = (if b = bid then off + sz else g_cursor S ! b)" for b using len by (simp add: S1_def nth_list_update)
        have t1: "sidx_true n S1 T ?C"
          using t n run_note.hyps(4) unfolding sidx_true_def e1 cur1 bo by auto
        show ?thesis
        proof (cases tomb)
          case True
          have "drop_id CAP S1 x = Some S'" using run_note.hyps(5) \<open>on S bid\<close> known here True by (simp add: blob_db_sidx_note_def Let_def S1_def)
          with drop_id_law [OF ok1 run_note.hyps(2)] e1(3) \<open>0 < n\<close> have d: "sidx_ok CAP MB S'" "sidx_ents S' = {e \<in> sidx_ents S1. fst e \<noteq> x}"
            "g_cursor S' = g_cursor S1" "g_n_buckets S' = g_n_buckets S1" by auto
          have "bucket_of S' y = bucket_of S1 y" for y using d(4) by (simp add: bucket_of_def)
          with t1 d True show ?thesis by (auto simp: sidx_true_def)
        next
          case False
          have S': "S' = put CAP S1 x off" using run_note.hyps(5) \<open>on S bid\<close> known here False by (simp add: blob_db_sidx_note_def Let_def S1_def)
          have "on S1 (unat x mod n)" "g_cursor S1 ! (unat x mod n) \<noteq> 0" using e1(3) bn run_note.hyps(3,4) cur1 by (auto simp: on_iff)
          from put_true [OF ok1 t1 this(1) run_note.hyps(2) this(2), of ?T off] False S' put_law(1) [OF ok1 run_note.hyps(2)] e1(3) \<open>0 < n\<close>
          show ?thesis by (simp add: fun_upd_def)
        qed
      qed
    qed
  qed
next
  case (run_learn S T C x bid off S')
  then have ok: "sidx_ok CAP MB S" and t: "sidx_true n S T C" and bn: "bid < n" by auto
  show ?case
  proof (cases "on S bid \<and> C bid \<noteq> 0")
    case False
    with run_learn.hyps(5) ok t show ?thesis by (auto simp: blob_db_sidx_learn_def)
  next
    case True
    have n: "g_n_buckets S = n" using t True by (auto simp: sidx_true_def on_iff split: if_splits)
    have c: "g_cursor S ! bid = 0 \<or> g_cursor S ! bid = C bid" using t bn n by (simp add: sidx_true_def)
    define S1 where "S1 = (if g_cursor S ! bid = 0 then S\<lparr>g_cursor := (g_cursor S)[bid := C bid]\<rparr> else S)"
    have S': "S' = (case off of None \<Rightarrow> S1 | Some o1 \<Rightarrow> put CAP S1 x o1)"
      using run_learn.hyps(5) True c by (cases off) (auto simp: blob_db_sidx_learn_def Let_def S1_def)
    have len: "bid < length (g_cursor S)" using ok True by (auto simp: sidx_ok_def on_iff)
    have ok1: "sidx_ok CAP MB S1" using ok by (simp add: S1_def sidx_ok_def of_bucket_def bucket_of_def)
    have e1: "sidx_ents S1 = sidx_ents S" "bucket_of S1 y = bucket_of S y" "g_n_buckets S1 = n" for y
      using n by (simp_all add: S1_def sidx_ents_def bucket_of_def)
    have cur1: "g_cursor S1 ! b = (if b = bid then C bid else g_cursor S ! b)" for b using len c by (auto simp: S1_def nth_list_update)
    have t1: "sidx_true n S1 T C" using t n True unfolding sidx_true_def e1 cur1 by auto
    have "on S1 (unat x mod n)" "g_cursor S1 ! (unat x mod n) \<noteq> 0" using e1(3) bn run_learn.hyps(3) cur1 True by (auto simp: on_iff)
    with S' t1 ok1 put_law(1) [OF ok1 run_learn.hyps(2)] put_true [OF ok1 t1 _ run_learn.hyps(2), of T] run_learn.hyps(4) e1(3) \<open>0 < n\<close>
    show ?thesis by (cases off) auto
  qed
next
  case (run_forget S T C bid S' T' C')
  then have ok: "sidx_ok CAP MB S" and t: "sidx_true n S T C" by auto
  show ?case
  proof (cases "on S bid")
    case False
    with run_forget.hyps(3) ok off_true [OF t False run_forget.hyps(2)] show ?thesis by (simp add: blob_db_sidx_forget_def)
  next
    case True
    have "sidx_true n S' T' C'" by (rule forget_true [OF ok t True run_forget.hyps(4,5,3)])
    with forget_law [OF ok True] run_forget.hyps(3) show ?thesis by auto
  qed
qed

end

section \<open>Every operation returns\<close>

context slot_table
begin

lemma operations_return:
  assumes ok: "sidx_ok CAP MB S" and t: "sidx_true n S T C" and n: "0 < n" and b: "bid < n" and x: "x \<noteq> 0"
  shows "blob_db_sidx_forget CAP S bid \<noteq> None" "blob_db_sidx_begin CAP S bid off \<noteq> None" "blob_db_sidx_learn CAP S bid x w cur \<noteq> None"
    "blob_db_sidx_note CAP S bid x off sz tomb \<noteq> None"
proof -
  have f: "blob_db_sidx_forget CAP S bid \<noteq> None"
    using forget_law [OF ok] by (cases "on S bid") (auto simp: blob_db_sidx_forget_def)
  then show "blob_db_sidx_forget CAP S bid \<noteq> None" "blob_db_sidx_begin CAP S bid off \<noteq> None" "blob_db_sidx_learn CAP S bid x w cur \<noteq> None"
    by (auto simp: blob_db_sidx_begin_def blob_db_sidx_learn_def Let_def)
  have "drop_id CAP (S\<lparr>g_cursor := cs\<rparr>) x \<noteq> None" if "on S bid" "length cs = length (g_cursor S)" for cs
  proof -
    have "sidx_ok CAP MB (S\<lparr>g_cursor := cs\<rparr>)" using ok that(2) by (simp add: sidx_ok_def of_bucket_def bucket_of_def)
    from drop_id_law [OF this x] that(1) show ?thesis by (auto simp: on_def)
  qed
  with f show "blob_db_sidx_note CAP S bid x off sz tomb \<noteq> None" by (auto simp: blob_db_sidx_note_def Let_def)
qed

lemma lookup_true:
  assumes ok: "sidx_ok CAP MB S" and t: "sidx_true n S T C" and x: "x \<noteq> 0" and l: "blob_db_sidx_lookup CAP S (unat x mod n) x = Some (off, cur)"
  shows "T x = Some off \<and> cur = C (unat x mod n)"
proof -
  let ?b = "unat x mod n"
  from l obtain p where p: "find_cell CAP S x = Some p" "off = g_offs S ! p" "cur = g_cursor S ! ?b" "on S ?b" "cur \<noteq> 0"
    by (auto simp: blob_db_sidx_lookup_def split: if_splits option.splits)
  then have "p < CAP" "g_ids S ! p = x" using find_cell_law [OF ok x] by auto
  moreover have "length (g_ids S) = CAP" using ok by (simp add: sidx_ok_def tab_ok_def)
  ultimately have "(x, off) \<in> sidx_ents S" using p(2) x by (auto simp: sidx_ents_def tab_ents_def)
  then have "T x = Some off" using t by (auto simp: sidx_true_def)
  moreover have "cur = C ?b" using t p(3-5) by (auto simp: sidx_true_def on_iff)
  ultimately show ?thesis by simp
qed

end

text \<open>The default size of the table and a small one.\<close>

interpretation table2048: slot_table 2048 11
  by unfold_locales simp_all




end
