(* ===== verification/Spec2Isabelle.thy ===== *)
theory Spec2Isabelle
  imports Blobfs_HandleIo Blob_Ubi_Spec Logring_Api Slot_Index_Spec
begin

text \<open>
  A verification of the storage stack of this repository: \<open>blob_db\<close>, an object store on raw flash,
  and the layers built on it. The program is C; every function is translated into a HOL function on
  explicit state, every error return into a value of \<open>errno\<close>.

  \<^bold>\<open>The program.\<close> L1, \<open>lib/blob_db\<close>, keeps objects under 64-bit ids on a flash partition. A partition
  holds two master sectors, a scratch sector and buckets; an object lives in the bucket its id selects
  as the newest sealed slot of an append-only log, and a full bucket is compacted through the scratch
  sector. L1.5, \<open>lib/rootreg\<close>, keeps a map of structure roots in the object with id 1. L2 are the
  containers: \<open>lib/containers/kvhash\<close>, a hash map over objects, and \<open>lib/containers/logring\<close>, a
  bounded log. L3 are \<open>lib/kvdb\<close>, which gives names to maps, and \<open>lib/blobfs\<close>, files and directories
  whose directories are maps and whose files are objects.

  \<^bold>\<open>The theories and what they model.\<close>
  \<^item> \<open>Kv_Prelude\<close>: bytes, errno, results, little-endian integers, rounding.
  \<^item> \<open>Blob_Store\<close>: the store seam \<open>blob_db_store.h\<close> as a record of operations with its promise as a
    locale, and the raw-flash provider \<open>blob_db_store_flash.c\<close>. Zephyr's flash map API is a parameter;
    \<open>Flash_Sim\<close> is a concrete flash it is instantiated with.
  \<^item> \<open>Blob_Ubi\<close>: the UBI provider \<open>blob_db_store_ubi.c\<close>, over UBI, the key store, the heap and the flash
    map as parameters. \<open>Blob_Ubi_Spec\<close> shows that it keeps the promise of the seam for the calls blob_db
    makes, each within one erase block (C13), that an open leaves foreign bytes alone (C14), and which
    damage it reports.
  \<^item> \<open>Blob_Slot\<close>, \<open>Blob_Log\<close>, \<open>Blob_Bucket\<close>, \<open>Blob_Scan\<close>, \<open>Blob_Frame\<close>: slots, buckets, the walk over a log
    with its CRC checks, append, compaction and its recovery (\<open>blob_db.c\<close>).
  \<^item> \<open>Blob_Ops\<close>: the calls of \<open>blob_db.h\<close> on objects. \<open>Blob_Refine\<close>, \<open>Blob_Progress\<close> and \<open>Blob_Crash\<close>
    show that they refine a finite map, that they succeed on a working device, and that an
    interrupted compaction loses nothing; \<open>Blob_Api\<close> states this (C1 to C7).
  \<^item> \<open>Blob_Master\<close>, \<open>Blob_Mount\<close>: the master sectors with their record log, format, mount, id
    allocation, maintenance. \<open>Blob_Durable\<close>, \<open>Blob_Life\<close>, \<open>Blob_LifeWorks\<close> and \<open>Blob_Lifecycle\<close> show
    what survives a power loss and that no id is handed out twice (C8 to C12).
  \<^item> \<open>Object_Store\<close>: the interface the upper layers use, as a record of operations and a locale of
    laws; the same store with the power cut after some number of writes keeps the laws too, so a
    client's theorem is a crash theorem. \<open>Blob_Object\<close> shows that blob_db on a working device is such
    a store.
  \<^item> \<open>Root_Reg\<close>: \<open>rootreg.c\<close> (C16, and \<open>get_or_create_stable\<close>).
  \<^item> \<open>Kv_Hash\<close>: \<open>kvhash.c\<close>. \<open>Kv_Hash_Spec\<close> says what a tree of directories, buckets and spilled parts
    on the store means as a map; \<open>Kv_Hash_Ops\<close>, \<open>Kv_Hash_Next\<close>, \<open>Kv_Hash_Life\<close> and \<open>Kv_Hash_Destroy\<close>
    prove the operations against it, enumeration by its own order of keys. \<open>Map_Shape\<close> is the contract of
    \<open>shape_map.h\<close>, which \<open>Kv_Hash_Map\<close> shows the hash map to keep. \<open>Kv_Api\<close> states the properties (C15 to
    C22, C15 of blob_db as a store).
  \<^item> \<open>Kv_Db\<close>: \<open>kvdb.c\<close>, over any provider of the map shape. \<open>Kvdb_Api\<close> states its properties over the
    hash map (C23, C24).
  \<^item> \<open>Blobfs\<close>: \<open>blobfs.c\<close>, over any provider of the map shape. \<open>Blobfs_Spec\<close> gives the meaning: a name
    space of directories and entries, where a path leads in it, and which name space a store stands for
    while a rename's intent is on flash. \<open>Blobfs_Ops\<close>, \<open>Blobfs_Calls\<close>, \<open>Blobfs_Rename\<close>, \<open>Blobfs_Files\<close> and
    \<open>Blobfs_Boot\<close> prove walking, creating, removing, renaming, contents and mounting in the locale
    \<open>fs_store\<close>; \<open>Blobfs_Api\<close>, \<open>Blobfs_Crash\<close> and \<open>Blobfs_List\<close> state the properties over the hash map:
    each call refines its step on the name space (C25 to C29), mounts find or make a file system (C30 and
    \<open>blobfs_mount_makes\<close>), a rename is atomic under every power cut (C31), every history of calls and power
    cuts keeps the name space well formed (C32), and a listing is complete (\<open>blobfs_listing_exact\<close>).
  \<^item> \<open>Blobfs_Vfs\<close>: \<open>blobfs_zephyr_fs.c\<close>, the driver that puts blobfs behind Zephyr's file system calls,
    with its pools of file and directory handles. One mutex is held over each operation, so concurrent
    callers are a sequence of calls. \<open>Blobfs_Handles\<close> runs such sequences and shows that every handle has
    one owner, across unmounts too (C35); \<open>Blobfs_HandleIo\<close> shows what is read and written through a
    handle (C33), that it stays with its file through renames and unlinks (C34), and that reading a
    directory is complete (C36).
  \<^item> \<open>Logring\<close>: \<open>logring.c\<close>. \<open>Logring_Spec\<close> says which list of entries a root and its chain mean, and
    which list a handle stands for; \<open>Logring_Ops\<close>, \<open>Logring_Append\<close> and \<open>Logring_Life\<close> prove open,
    checkpoint, append, reading, reset and destroy against it, for every object store. \<open>Logring_Api\<close>
    states the properties (C37 to C39).
  \<^item> \<open>Slot_Index\<close>: \<open>blob_db_slot_index.c\<close>, the optional RAM index. \<open>Slot_Table\<close> proves its hash table
    with backward-shift deletion, \<open>Slot_Index_Spec\<close> the promise of \<open>blob_db_slot_index.h\<close> as an invariant
    of the events blob_db reports (C40).

  \<^bold>\<open>Bounds.\<close> Lengths, offsets and sector numbers are natural numbers where the code's checks keep them
  in range; ids, hashes, CRCs, counters on flash and the arithmetic of kvhash's geometry are words of
  their width. Loops over a sector are structural or have a measure. The search of \<open>derive_geometry\<close>
  may not end and answers \<open>None\<close> then; C19 gives the populations for which it ends, C20 one for which it
  does not. The loops of logring and of the index that a damaged chain or a full table could keep running
  are partial functions, and C37, the lemma \<open>logring_reset_destroy\<close> and C40 show
  that they return. Positions in a file have the width of
  \<open>off_t\<close> and are cast to \<open>size_t\<close>; a sum that leaves \<open>off_t\<close> is \<open>None\<close>. The walk along a path has the length of the path as its measure. \<open>ID_LIMIT\<close> leaves room for the ceiling the masters keep above the id counter.

  \<^bold>\<open>The modelled build\<close> has neither segmented payloads nor the slot index, and little-endian byte order;
  the theorems on blob_db hold over a store whose calls keep the locale \<open>blob_store\<close>, which the raw-flash
  provider does. CRC functions are parameters.

  \<^bold>\<open>Not modelled.\<close> Segmented payloads, an option of blob_db, and the use blob_db makes of the slot index
  in its lookups; inspection, shell and the maintenance thread (output and scheduling); container skeletons without code; applications,
  samples, benchmarks and drivers.
\<close>

end
